(* ===== verification/Ay_Prelude.thy ===== *)
theory Ay_Prelude
  imports Main "HOL-Library.Word"
begin

text \<open>
  Shared vocabulary of the development: the machine types the Go code uses, the error
  values a Go panic is modelled by, memory accesses that may fail, and the generic facts
  on lists, options and words the component theories rest on.

  A value of type \<open>'a option\<close> returned by an operation is the outcome of a piece of code
  that may not return: \<open>None\<close> stands for a Go panic, an access outside an array made
  through \<open>unsafe\<close>, or a loop that does not end. Theorems that an operation returns are
  therefore statements \<open>f x = Some y\<close>.
\<close>

unbundle bit_operations_syntax

type_synonym u8 = "8 word"
type_synonym u16 = "16 word"
type_synonym u32 = "32 word"
type_synonym u64 = "64 word"

text \<open>The numbers of files (\<^verbatim>\<open>vfs.go\<close>): the low bit says whether the file is built.\<close>

type_synonym VFS = u32

definition isBuild :: "VFS \<Rightarrow> bool" where
  "isBuild v \<longleftrightarrow> v AND 1 \<noteq> 0"

definition isSource :: "VFS \<Rightarrow> bool" where
  "isSource v \<longleftrightarrow> v AND 1 = 0"

named_theorems ay_word \<comment> \<open>moving between words and natural numbers\<close>
named_theorems ay_eval \<comment> \<open>definitions unfolded to evaluate closed terms\<close>

section \<open>Memory accesses\<close>

definition at_opt :: "'a list \<Rightarrow> nat \<Rightarrow> 'a option" where
  "at_opt xs i = (if i < length xs then Some (xs ! i) else None)"

definition set_opt :: "'a list \<Rightarrow> nat \<Rightarrow> 'a \<Rightarrow> 'a list option" where
  "set_opt xs i x = (if i < length xs then Some (xs[i := x]) else None)"

lemma at_opt_Some [simp]: "at_opt xs i = Some x \<longleftrightarrow> i < length xs \<and> x = xs ! i"
  by (auto simp: at_opt_def)

lemma at_opt_None [simp]: "at_opt xs i = None \<longleftrightarrow> length xs \<le> i"
  by (auto simp: at_opt_def)

lemma at_opt_in [simp]: "i < length xs \<Longrightarrow> at_opt xs i = Some (xs ! i)"
  by simp

lemma set_opt_Some [simp]: "set_opt xs i x = Some ys \<longleftrightarrow> i < length xs \<and> ys = xs[i := x]"
  by (auto simp: set_opt_def)

lemma set_opt_in [simp]: "i < length xs \<Longrightarrow> set_opt xs i x = Some (xs[i := x])"
  by simp

section \<open>Lists\<close>

lemma nth_append_replicate_zero:
  "i < length xs + n \<Longrightarrow> (xs @ replicate n z) ! i = (if i < length xs then xs ! i else z)"
  by (auto simp: nth_append)

lemma set_drop_replicate: "set (drop n (replicate m z)) \<subseteq> {z}"
  by (auto dest: in_set_dropD)

section \<open>Words\<close>

lemma unat_u8_less: "unat (w :: u8) < 2 ^ 8"
  and unat_u16_less: "unat (x :: u16) < 2 ^ 16"
  and unat_u32_less: "unat (y :: u32) < 2 ^ 32"
  and unat_u64_less: "unat (z :: u64) < 2 ^ 64"
  using unsigned_less [of w] unsigned_less [of x] unsigned_less [of y] unsigned_less [of z]
  by simp_all

lemma unat_of_nat_less [ay_word]:
  "n < 2 ^ LENGTH('a::len) \<Longrightarrow> unat (of_nat n :: 'a word) = n"
  by (simp add: unsigned_of_nat take_bit_nat_eq_self)

lemma unat_and_mask [ay_word]: "unat (w AND mask n :: 'a::len word) = unat w mod 2 ^ n"
  by (metis take_bit_eq_mask take_bit_eq_mod unsigned_take_bit_eq)

lemma unat_drop_bit [ay_word]: "unat (drop_bit n w :: 'a::len word) = unat w div 2 ^ n"
  by (metis drop_bit_eq_div unat_drop_bit_eq)

lemma of_nat_mask: "(of_nat (2 ^ n - 1) :: 'a::len word) = mask n"
  by (simp add: mask_eq_exp_minus_1 of_nat_diff)

lemma word_less_plus_one:
  assumes "(x :: 'a::len word) + 1 \<noteq> 0"
  shows "x < x + 1" and "unat (x + 1) = unat x + 1"
proof -
  have u: "unat (x + 1) = (unat x + unat (1 :: 'a word)) mod 2 ^ LENGTH('a)"
    by (simp add: unat_word_ariths(1))
  have "unat (x + 1) \<noteq> 0" using assms by (simp add: unat_eq_0)
  moreover have "unat x < 2 ^ LENGTH('a)" by (rule unsigned_less)
  ultimately show eq: "unat (x + 1) = unat x + 1"
    using u by (metis Suc_eq_plus1 Suc_lessI mod_less mod_self unat_1)
  then show "x < x + 1" by (simp add: word_less_nat_alt)
qed

lemma word_div_mod_inject:
  fixes u v :: "'a::len word"
  assumes "unat u div m = unat v div m" and "unat u mod m = unat v mod m"
  shows "u = v"
proof -
  have "unat u = unat u div m * m + unat u mod m" by simp
  also have "\<dots> = unat v div m * m + unat v mod m" using assms by simp
  also have "\<dots> = unat v" by simp
  finally show ?thesis by (simp add: word_unat_eq_iff)
qed

end
