(* ===== verification/Ay_Mix.thy ===== *)
theory Ay_Mix
  imports Ay_Prelude
begin

text \<open>
  The 64-bit mixer of \<^verbatim>\<open>mix.go\<close> (the SplitMix64 finaliser) and the key functions built on
  it: \<^verbatim>\<open>splitMix64\<close> packs two 32-bit identifiers into one hash-table key, \<^verbatim>\<open>sparseKey\<close>
  (\<^verbatim>\<open>sparse_map.go\<close>) turns a 32-bit identifier into a key, \<^verbatim>\<open>expansionKey\<close>
  (\<^verbatim>\<open>expansion_memo.go\<close>) keys the expansion memo. The tables store keys only, never the
  identifiers, so a lookup is right only because these functions are injective, and the
  tables reserve the key 0, so it matters which identifiers are sent to 0.
\<close>

definition mix64 :: "u64 \<Rightarrow> u64" where
  "mix64 x =
     (let x = x XOR drop_bit 30 x;
          x = x * 0xbf58476d1ce4e5b9;
          x = x XOR drop_bit 27 x;
          x = x * 0x94d049bb133111eb;
          x = x XOR drop_bit 31 x
      in x)"

definition splitMix64 :: "u32 \<Rightarrow> u32 \<Rightarrow> u64" where
  "splitMix64 p s = mix64 (push_bit 32 (ucast p) OR ucast s)"

definition sparseKey :: "u32 \<Rightarrow> u64" where
  "sparseKey k = mix64 (ucast k + 1)"

definition expansionKey :: "u32 \<Rightarrow> u32 \<Rightarrow> u64" where
  "expansionKey ident tag = splitMix64 ident tag"

section \<open>The two building blocks are injective\<close>

lemma drop_bit_fixed_point_zero:
  fixes d :: "'a::len word"
  assumes "0 < n" and "drop_bit n d = d"
  shows "d = 0"
proof -
  have "unat d div 2 ^ n = unat d"
    using assms(2) by (metis unat_drop_bit)
  moreover have "unat d div 2 ^ n < unat d" if "unat d \<noteq> 0"
  proof (rule div_less_dividend)
    show "1 < (2::nat) ^ n" by (rule one_less_power) (simp_all add: assms(1))
    show "0 < unat d" using that by simp
  qed
  ultimately show ?thesis
    by (metis less_irrefl unat_eq_0)
qed

lemma xorshift_inj:
  fixes x y :: "'a::len word"
  assumes "0 < n" and "x XOR drop_bit n x = y XOR drop_bit n y"
  shows "x = y"
proof -
  have "drop_bit n (x XOR y) = x XOR y"
    using assms(2) by (simp add: bit_eq_iff bit_simps) blast
  then have "x XOR y = 0" by (rule drop_bit_fixed_point_zero [OF assms(1)])
  then show ?thesis by (simp add: bit_eq_iff bit_simps)
qed

lemma mult_inj_of_inverse:
  fixes c c' x y :: "'a::len word"
  assumes "c * c' = 1" and "x * c = y * c"
  shows "x = y"
proof -
  have "x * (c * c') = y * (c * c')" using assms(2) by (metis mult.assoc)
  then show ?thesis using assms(1) by simp
qed

lemma mix64_mult1_inj: "(x :: u64) * 0xbf58476d1ce4e5b9 = y * 0xbf58476d1ce4e5b9 \<Longrightarrow> x = y"
  by (rule mult_inj_of_inverse [where c = "0xbf58476d1ce4e5b9 :: u64" and c' = "10871156337175269513 :: u64"]) simp_all

lemma mix64_mult2_inj: "(x :: u64) * 0x94d049bb133111eb = y * 0x94d049bb133111eb \<Longrightarrow> x = y"
  by (rule mult_inj_of_inverse [where c = "0x94d049bb133111eb :: u64" and c' = "3573116690164977347 :: u64"]) simp_all

lemma mix64_inj: "inj mix64"
proof (rule injI)
  fix x y
  assume eq: "mix64 x = mix64 y"
  define g where "g n x = x XOR drop_bit n x" for n :: nat and x :: u64
  have g: "a = b" if "g n a = g n b" "0 < n" for n a b
    using xorshift_inj [OF that(2)] that(1) by (simp only: g_def)
  have "g 31 (g 27 (g 30 x * 0xbf58476d1ce4e5b9) * 0x94d049bb133111eb)
      = g 31 (g 27 (g 30 y * 0xbf58476d1ce4e5b9) * 0x94d049bb133111eb)"
    using eq by (simp only: mix64_def Let_def g_def)
  from g [OF this zero_less_numeral]
  have "g 27 (g 30 x * 0xbf58476d1ce4e5b9) = g 27 (g 30 y * 0xbf58476d1ce4e5b9)"
    by (rule mix64_mult2_inj)
  from g [OF this zero_less_numeral] have "g 30 x = g 30 y"
    by (rule mix64_mult1_inj)
  from g [OF this zero_less_numeral] show "x = y" .
qed

lemma mix64_0 [simp]: "mix64 0 = 0"
  by (simp add: mix64_def)

lemma mix64_eq_0_iff [simp]: "mix64 x = 0 \<longleftrightarrow> x = 0"
  by (metis injD mix64_0 mix64_inj)

lemma mix64_eq_iff [simp]: "mix64 x = mix64 y \<longleftrightarrow> x = y"
  by (metis injD mix64_inj)

section \<open>Keys of 32-bit identifiers\<close>

lemma unat_ucast_u32_u64 [simp]: "unat (ucast (k :: u32) :: u64) = unat k"
proof -
  have "unat k < 2 ^ 32" using unat_u32_less [of k] by simp
  then show ?thesis by (simp add: unsigned_ucast_eq take_bit_nat_eq_self)
qed

lemma sparseKey_arg: "unat (ucast k + 1 :: u64) = unat (k :: u32) + 1"
proof -
  have "unat k < 2 ^ 32" using unat_u32_less [of k] by simp
  then show ?thesis by (simp add: unat_word_ariths)
qed

lemma sparseKey_inj [simp]: "sparseKey k = sparseKey k' \<longleftrightarrow> k = k'"
  by (metis add_right_cancel mix64_eq_iff sparseKey_arg sparseKey_def word_unat_eq_iff)

lemma sparseKey_nonzero [simp]: "sparseKey k \<noteq> 0"
  by (metis add_is_0 mix64_eq_0_iff one_neq_zero sparseKey_arg sparseKey_def unat_0)

lemma splitMix64_pack:
  "unat (push_bit 32 (ucast p) OR ucast s :: u64) = unat (p :: u32) * 2 ^ 32 + unat (s :: u32)"
proof -
  have p: "unat p < 2 ^ 32" and s: "unat s < 2 ^ 32"
    using unat_u32_less [of p] unat_u32_less [of s] by simp_all
  have "push_bit 32 (ucast p) OR ucast s = (push_bit 32 (ucast p) + ucast s :: u64)"
    by (rule disjunctive_add [symmetric]) (auto simp: bit_simps dest: bit_imp_le_length)
  moreover have "unat (push_bit 32 (ucast p) :: u64) = unat p * 2 ^ 32"
  proof -
    have "unat p * 2 ^ 32 < 2 ^ 64" using p by simp
    then show ?thesis
      by (simp add: push_bit_eq_mult unat_word_ariths(2) mult.commute)
  qed
  moreover have "unat p * 2 ^ 32 + unat s < 2 ^ 64" using p s by simp
  ultimately show ?thesis by (simp add: unat_word_ariths(1))
qed

lemma div_mod_unique_nat:
  fixes m q r q' r' :: nat
  assumes "q * m + r = q' * m + r'" and "r < m" and "r' < m"
  shows "q = q' \<and> r = r'"
proof -
  have "q = (q * m + r) div m" using assms(2) by simp
  also have "\<dots> = q'" using assms(1,3) by simp
  finally show ?thesis using assms(1) by simp
qed

lemma splitMix64_inj: "splitMix64 p s = splitMix64 p' s' \<longleftrightarrow> p = p' \<and> s = s'"
proof
  assume "splitMix64 p s = splitMix64 p' s'"
  then have "unat p * 2 ^ 32 + unat s = unat p' * 2 ^ 32 + unat s'"
    unfolding splitMix64_def mix64_eq_iff by (metis splitMix64_pack)
  moreover have "unat s < 2 ^ 32" and "unat s' < 2 ^ 32"
    using unat_u32_less [of s] unat_u32_less [of s'] by simp_all
  ultimately have "unat p = unat p' \<and> unat s = unat s'"
    by (rule div_mod_unique_nat)
  then show "p = p' \<and> s = s'" by (simp add: word_unat_eq_iff)
qed simp

lemma splitMix64_eq_0: "splitMix64 p s = 0 \<longleftrightarrow> p = 0 \<and> s = 0"
proof -
  have "splitMix64 0 0 = 0" by (simp add: splitMix64_def)
  then show ?thesis using splitMix64_inj [of p s 0 0] by simp
qed

section \<open>Properties\<close>

text \<open>
  The keys under which the hash tables store identifiers are faithful: distinct identifiers
  and distinct pairs of identifiers have distinct keys, although the keys are hashes, and the
  key of an identifier is never 0, the mark of a free cell.
\<close>

theorem hash_keys_faithful:
  "(sparseKey k = sparseKey k' \<longleftrightarrow> k = k') \<and> sparseKey k \<noteq> 0
   \<and> (splitMix64 p s = splitMix64 p' s' \<longleftrightarrow> p = p' \<and> s = s')
   \<and> (splitMix64 p s = 0 \<longleftrightarrow> p = 0 \<and> s = 0)"
  by (simp add: splitMix64_inj splitMix64_eq_0)

end
