(* ===== verification/Ay_Vec.thy ===== *)
theory Ay_Vec
  imports Ay_Prelude
begin

text \<open>
  The growable array \<^verbatim>\<open>Vec\<close> of \<^verbatim>\<open>vec.go\<close>, which every other container builds on.

  A Go slice is its backing array together with a length: \<open>vec_arr\<close> is the whole backing
  array, so \<open>length (vec_arr v)\<close> is the slice's capacity, and \<open>vec_len\<close> is the slice's
  length. The cells between the two are kept in the model because \<^verbatim>\<open>ensureLen\<close> exposes
  them without writing them. The zero value of the element type is an explicit argument.
\<close>

section \<open>Vec\<close>

record 'a Vec =
  vec_arr :: "'a list"
  vec_len :: nat

definition vec_s :: "'a Vec \<Rightarrow> 'a list" where
  "vec_s v = take (vec_len v) (vec_arr v)"

definition Vec_empty :: "'a Vec" where
  "Vec_empty = \<lparr>vec_arr = [], vec_len = 0\<rparr>"

definition Vec_nextCap :: "'a Vec \<Rightarrow> nat \<Rightarrow> nat" where
  "Vec_nextCap v need =
     (let c = length (vec_arr v) * 2;
          c = (if c < 8 then 8 else c);
          c = (if c < need then need else c)
      in c)"

definition Vec_grow :: "'a \<Rightarrow> 'a Vec \<Rightarrow> nat \<Rightarrow> 'a Vec" where
  "Vec_grow z v need =
     v\<lparr>vec_arr := vec_s v @ replicate (Vec_nextCap v need - vec_len v) z\<rparr>"

definition Vec_freshLen :: "'a \<Rightarrow> 'a Vec \<Rightarrow> nat \<Rightarrow> bool \<times> 'a Vec" where
  "Vec_freshLen z v n =
     (if n \<le> vec_len v then (False, v)
      else (True, \<lparr>vec_arr = replicate (n + n div 4) z, vec_len = n + n div 4\<rparr>))"

definition Vec_reserve :: "'a \<Rightarrow> 'a Vec \<Rightarrow> nat \<Rightarrow> 'a Vec" where
  "Vec_reserve z v n = (if length (vec_arr v) < n then Vec_grow z v n else v)"

definition Vec_pushBack :: "'a \<Rightarrow> 'a Vec \<Rightarrow> 'a \<Rightarrow> 'a Vec" where
  "Vec_pushBack z v x =
     (let v = (if vec_len v = length (vec_arr v) then Vec_grow z v (vec_len v + 1) else v)
      in v\<lparr>vec_arr := (vec_arr v)[vec_len v := x], vec_len := vec_len v + 1\<rparr>)"

definition Vec_ensureLen :: "'a \<Rightarrow> 'a Vec \<Rightarrow> nat \<Rightarrow> 'a Vec" where
  "Vec_ensureLen z v n =
     (if n \<le> vec_len v then v
      else let v = Vec_reserve z v n in v\<lparr>vec_len := n\<rparr>)"

definition Vec_store :: "'a Vec \<Rightarrow> nat \<Rightarrow> 'a \<Rightarrow> 'a Vec" where
  "Vec_store v i x = v\<lparr>vec_arr := (vec_arr v)[i := x]\<rparr>"

section \<open>Facts on Vec\<close>

definition Vec_inv :: "'a Vec \<Rightarrow> bool" where
  "Vec_inv v \<longleftrightarrow> vec_len v \<le> length (vec_arr v)"

text \<open>The cells behind the slice's length hold the zero value: what \<^verbatim>\<open>make\<close> leaves there.\<close>

definition Vec_clean :: "'a \<Rightarrow> 'a Vec \<Rightarrow> bool" where
  "Vec_clean z v \<longleftrightarrow> Vec_inv v \<and> (\<forall>i < length (vec_arr v). vec_len v \<le> i \<longrightarrow> vec_arr v ! i = z)"

lemma Vec_clean_inv [dest]: "Vec_clean z v \<Longrightarrow> Vec_inv v"
  by (simp add: Vec_clean_def)

lemma length_vec_s [simp]: "Vec_inv v \<Longrightarrow> length (vec_s v) = vec_len v"
  by (simp add: vec_s_def Vec_inv_def)

lemma vec_s_nth: "i < vec_len v \<Longrightarrow> vec_s v ! i = vec_arr v ! i"
  by (simp add: vec_s_def)

lemma vec_s_empty [simp]: "vec_s Vec_empty = []"
  by (simp add: vec_s_def Vec_empty_def)

lemma Vec_empty_clean [simp]: "Vec_clean z Vec_empty" and Vec_empty_len [simp]: "vec_len Vec_empty = 0"
  by (simp_all add: Vec_clean_def Vec_inv_def Vec_empty_def)

lemma Vec_nextCap_bounds:
  "need \<le> Vec_nextCap v need" "length (vec_arr v) \<le> Vec_nextCap v need" "8 \<le> Vec_nextCap v need"
  by (auto simp: Vec_nextCap_def Let_def)

lemma Vec_grow_len [simp]: "vec_len (Vec_grow z v n) = vec_len v"
  by (simp add: Vec_grow_def)

lemma Vec_grow_cap: "Vec_inv v \<Longrightarrow> length (vec_arr (Vec_grow z v n)) = Vec_nextCap v n"
  using Vec_nextCap_bounds(2) [of v n] by (simp add: Vec_grow_def Vec_inv_def)

lemma Vec_grow_s [simp]: "Vec_inv v \<Longrightarrow> vec_s (Vec_grow z v n) = vec_s v"
  by (simp add: Vec_grow_def vec_s_def Vec_inv_def)

lemma Vec_grow_inv [simp]: "Vec_inv v \<Longrightarrow> Vec_inv (Vec_grow z v n)"
  by (metis Vec_grow_cap Vec_grow_len Vec_inv_def Vec_nextCap_bounds(2) order_trans)

lemma Vec_grow_clean [simp]: "Vec_inv v \<Longrightarrow> Vec_clean z (Vec_grow z v n)"
  using Vec_grow_inv [of v z n]
  by (auto simp: Vec_clean_def Vec_grow_def nth_append)

lemma Vec_reserve_simps [simp]:
  "vec_len (Vec_reserve z v n) = vec_len v"
  "Vec_inv v \<Longrightarrow> vec_s (Vec_reserve z v n) = vec_s v"
  "Vec_inv v \<Longrightarrow> Vec_inv (Vec_reserve z v n)"
  "Vec_clean z v \<Longrightarrow> Vec_clean z (Vec_reserve z v n)"
  by (auto simp: Vec_reserve_def)

lemma Vec_reserve_cap: "Vec_inv v \<Longrightarrow> n \<le> length (vec_arr (Vec_reserve z v n))"
  using Vec_nextCap_bounds(1) [of n v] by (simp add: Vec_reserve_def Vec_grow_cap)

lemma Vec_pushBack_s [simp]: "Vec_inv v \<Longrightarrow> vec_s (Vec_pushBack z v x) = vec_s v @ [x]"
proof -
  assume inv: "Vec_inv v"
  define w where "w = (if vec_len v = length (vec_arr v) then Vec_grow z v (vec_len v + 1) else v)"
  have w: "vec_len w = vec_len v" "vec_s w = vec_s v" "vec_len w < length (vec_arr w)"
    using inv Vec_nextCap_bounds(1) [of "vec_len v + 1" v]
    by (auto simp: w_def Vec_grow_cap Vec_inv_def)
  have "vec_s (Vec_pushBack z v x) = take (vec_len w + 1) ((vec_arr w)[vec_len w := x])"
    by (simp add: Vec_pushBack_def w_def [symmetric] vec_s_def)
  also have "\<dots> = vec_s w @ [x]"
    using w(3) by (simp add: vec_s_def take_Suc_conv_app_nth)
  finally show ?thesis by (simp add: w(2))
qed

lemma Vec_pushBack_len [simp]: "vec_len (Vec_pushBack z v x) = Suc (vec_len v)"
  by (simp add: Vec_pushBack_def Let_def)

lemma Vec_pushBack_inv [simp]: "Vec_inv v \<Longrightarrow> Vec_inv (Vec_pushBack z v x)"
  using Vec_nextCap_bounds(1) [of "vec_len v + 1" v]
  by (auto simp: Vec_pushBack_def Let_def Vec_inv_def Vec_grow_cap)

lemma Vec_pushBack_clean [simp]:
  assumes "Vec_clean z v"
  shows "Vec_clean z (Vec_pushBack z v x)"
proof -
  have "Vec_clean z (if vec_len v = length (vec_arr v) then Vec_grow z v (vec_len v + 1) else v)"
    using assms by auto
  moreover have "Vec_inv (Vec_pushBack z v x)" using assms by auto
  ultimately show ?thesis
    by (auto simp: Vec_clean_def Vec_pushBack_def Let_def nth_list_update split: if_splits)
qed

lemma Vec_ensureLen_len [simp]: "vec_len (Vec_ensureLen z v n) = max n (vec_len v)"
  by (simp add: Vec_ensureLen_def Let_def)

lemma Vec_ensureLen_clean [simp]: "Vec_clean z v \<Longrightarrow> Vec_clean z (Vec_ensureLen z v n)"
proof -
  assume c: "Vec_clean z v"
  then have "n \<le> length (vec_arr (Vec_reserve z v n))" "Vec_clean z (Vec_reserve z v n)"
    by (auto intro: Vec_reserve_cap)
  then show ?thesis
    using c by (auto simp: Vec_ensureLen_def Let_def Vec_clean_def Vec_inv_def)
qed

lemma Vec_reserve_nth:
  assumes "Vec_clean z v" "i < n"
  shows "vec_arr (Vec_reserve z v n) ! i = (if i < length (vec_arr v) then vec_arr v ! i else z)"
  using assms Vec_nextCap_bounds(1) [of n v]
  by (auto simp: Vec_reserve_def Vec_grow_def vec_s_def nth_append Vec_clean_def Vec_inv_def)

text \<open>On a clean array \<^verbatim>\<open>ensureLen\<close> extends the contents by zero values only.\<close>

lemma Vec_ensureLen_nth:
  assumes "Vec_clean z v" "i < max n (vec_len v)"
  shows "vec_arr (Vec_ensureLen z v n) ! i = (if i < vec_len v then vec_arr v ! i else z)"
proof (cases "n \<le> vec_len v")
  case True
  then show ?thesis using assms by (simp add: Vec_ensureLen_def)
next
  case False
  then have "i < n" using assms(2) by simp
  then show ?thesis
    using assms False Vec_reserve_nth [OF assms(1) \<open>i < n\<close>]
    by (auto simp: Vec_ensureLen_def Let_def Vec_clean_def Vec_inv_def)
qed

lemma Vec_store_simps [simp]:
  "vec_len (Vec_store v i x) = vec_len v"
  "Vec_inv (Vec_store v i x) = Vec_inv v"
  "i < vec_len v \<Longrightarrow> Vec_clean z v \<Longrightarrow> Vec_clean z (Vec_store v i x)"
  "vec_s (Vec_store v i x) = (vec_s v)[i := x]"
  "vec_arr (Vec_store v i x) = (vec_arr v)[i := x]"
  by (auto simp: Vec_store_def Vec_inv_def Vec_clean_def vec_s_def take_update_swap nth_list_update)

end
