(* ===== verification/Ay_Bits.thy ===== *)
theory Ay_Bits
  imports Ay_Vec
begin

text \<open>
  The packed bit tables over 32-bit identifiers: \<^verbatim>\<open>BitSet\<close> (\<^verbatim>\<open>bit_set.go\<close>, one bit per
  identifier) and \<^verbatim>\<open>TwoBitSet\<close> (\<^verbatim>\<open>two_bit_set.go\<close>, two bits per identifier), each against
  the set or map it stands for, and the interface \<open>ident_set\<close> their clients use.
\<close>

section \<open>BitSet\<close>

record BitSet =
  bs_words :: "u64 Vec"

definition BitSet_empty :: BitSet where
  "BitSet_empty = \<lparr>bs_words = Vec_empty\<rparr>"

definition BitSet_has :: "BitSet \<Rightarrow> u32 \<Rightarrow> bool" where
  "BitSet_has b v =
     (let w = drop_bit 6 v
      in if of_nat (vec_len (bs_words b)) \<le> w then False
         else vec_arr (bs_words b) ! unat w AND push_bit (unat (v AND 63)) 1 \<noteq> 0)"

definition BitSet_add :: "BitSet \<Rightarrow> u32 \<Rightarrow> BitSet" where
  "BitSet_add b v =
     (let w = unat (drop_bit 6 v);
          words = (if vec_len (bs_words b) \<le> w then Vec_ensureLen 0 (bs_words b) (w + 1)
                   else bs_words b)
      in b\<lparr>bs_words := Vec_store words w (vec_arr words ! w OR push_bit (unat (v AND 63)) 1)\<rparr>)"

text \<open>
  \<^verbatim>\<open>append(b.words.s[:0], o.words.s...)\<close> overwrites the front of \<open>b\<close>'s array when the
  words of \<open>o\<close> fit and keeps the cells behind them; otherwise the Go runtime allocates a new
  array with \<open>slack\<close> cleared cells behind the copied ones (the runtime chooses \<open>slack\<close>).
\<close>

definition BitSet_copyFrom :: "nat \<Rightarrow> BitSet \<Rightarrow> BitSet \<Rightarrow> BitSet" where
  "BitSet_copyFrom slack b o' =
     (let src = vec_s (bs_words o'); arr = vec_arr (bs_words b)
      in b\<lparr>bs_words :=
           \<lparr>vec_arr = (if length src \<le> length arr then src @ drop (length src) arr
                       else src @ replicate slack 0),
            vec_len = length src\<rparr>\<rparr>)"

definition BitSet_remove :: "BitSet \<Rightarrow> u32 \<Rightarrow> BitSet" where
  "BitSet_remove b v =
     (let w = drop_bit 6 v
      in if w < of_nat (vec_len (bs_words b))
         then b\<lparr>bs_words := Vec_store (bs_words b) (unat w)
                  (vec_arr (bs_words b) ! unat w AND NOT (push_bit (unat (v AND 63)) 1))\<rparr>
         else b)"

section \<open>TwoBitSet\<close>

record TwoBitSet =
  tb_words :: "u64 Vec"

definition TwoBitSet_empty :: TwoBitSet where
  "TwoBitSet_empty = \<lparr>tb_words = Vec_empty\<rparr>"

definition TwoBitSet_get :: "TwoBitSet \<Rightarrow> u32 \<Rightarrow> u8" where
  "TwoBitSet_get b v =
     (let w = drop_bit 5 v
      in if of_nat (vec_len (tb_words b)) \<le> w then 0
         else ucast (drop_bit (unat ((v AND 31) * 2)) (vec_arr (tb_words b) ! unat w) AND 3))"

definition TwoBitSet_set :: "TwoBitSet \<Rightarrow> u32 \<Rightarrow> u8 \<Rightarrow> TwoBitSet" where
  "TwoBitSet_set b v val =
     (let w = unat (drop_bit 5 v);
          words = Vec_ensureLen 0 (tb_words b) (w + 1);
          shift = unat ((v AND 31) * 2);
          cell = vec_arr words ! w
      in b\<lparr>tb_words := Vec_store words w
             (cell AND NOT (push_bit shift 3) OR push_bit shift (ucast (val AND 3)))\<rparr>)"

section \<open>The interface of a set of identifiers\<close>

text \<open>
  What clients of \<^verbatim>\<open>BitSet\<close> rely on: \<open>has\<close> after \<open>add\<close> and \<open>remove\<close>. The lemmas of the
  locale are about the two ways the code uses such a set: filling it from a list
  (\<^verbatim>\<open>strKeySet\<close> of \<^verbatim>\<open>yamake.go\<close>) and memoising a predicate in a pair of sets, one of the
  identifiers already decided and one of those for which the answer is yes
  (\<^verbatim>\<open>STR.cleanPath\<close> of \<^verbatim>\<open>str_intern.go\<close>).
\<close>

locale ident_set =
  fixes has :: "'s \<Rightarrow> 'k \<Rightarrow> bool"
    and add :: "'s \<Rightarrow> 'k \<Rightarrow> 's"
    and empt :: 's
    and inv :: "'s \<Rightarrow> bool"
    and valid :: "'k \<Rightarrow> bool"
  assumes inv_empt: "inv empt"
    and has_empt: "\<not> has empt u"
    and inv_add: "inv s \<Longrightarrow> valid v \<Longrightarrow> inv (add s v)"
    and has_add: "inv s \<Longrightarrow> valid v \<Longrightarrow> has (add s v) u \<longleftrightarrow> u = v \<or> has s u"
begin

lemma foldl_add:
  "inv s \<Longrightarrow> (\<And>v. v \<in> set vs \<Longrightarrow> valid v) \<Longrightarrow>
   inv (foldl add s vs) \<and> (has (foldl add s vs) u \<longleftrightarrow> u \<in> set vs \<or> has s u)"
  by (induction vs arbitrary: s) (auto simp: inv_add has_add)

lemma fill_has: "(\<And>v. v \<in> set vs \<Longrightarrow> valid v) \<Longrightarrow> has (foldl add empt vs) u \<longleftrightarrow> u \<in> set vs"
  using foldl_add [OF inv_empt, of vs] by (simp add: has_empt)

lemma memo_step:
  assumes "inv seen" and "inv yes" and "\<And>u. has seen u \<Longrightarrow> has yes u = f u"
    and "\<not> has seen v" and "valid v"
    and "seen' = add seen v" and "yes' = (if f v then add yes v else yes)"
    and "\<And>u. has yes u \<Longrightarrow> has seen u"
  shows "inv seen' \<and> inv yes' \<and> (\<forall>u. has seen' u \<longrightarrow> has yes' u = f u)
    \<and> (\<forall>u. has yes' u \<longrightarrow> has seen' u)"
  using assms by (auto simp: inv_add has_add)

end

section \<open>BitSet implements it\<close>

text \<open>
  The invariant: the words behind the slice are zero, and there are at most \<open>2 ^ 26\<close> words,
  enough for every 32-bit identifier, so that the 32-bit comparison of the code is exact.
\<close>

definition BitSet_inv :: "BitSet \<Rightarrow> bool" where
  "BitSet_inv b \<longleftrightarrow> Vec_clean 0 (bs_words b) \<and> vec_len (bs_words b) \<le> 2 ^ 26"

lemma and_63: "unat ((v :: u32) AND 63) = unat v mod 64"
  using unat_and_mask [of v 6] by (simp add: mask_eq_exp_minus_1)

lemma and_31: "unat ((v :: u32) AND 31) = unat v mod 32"
  using unat_and_mask [of v 5] by (simp add: mask_eq_exp_minus_1)

lemma div_64_less: "unat (v :: u32) div 64 < 2 ^ 26"
  using unat_u32_less [of v] by simp

lemma of_nat_le_drop_bit:
  assumes "n \<le> 2 ^ 27"
  shows "(of_nat n :: u32) \<le> drop_bit k v \<longleftrightarrow> n \<le> unat v div 2 ^ k"
  using assms by (simp add: word_le_nat_alt ay_word)

lemma BitSet_has_iff:
  assumes "vec_len (bs_words b) \<le> 2 ^ 26"
  shows "BitSet_has b v \<longleftrightarrow> unat v div 64 < vec_len (bs_words b)
    \<and> bit (vec_arr (bs_words b) ! (unat v div 64)) (unat v mod 64)"
  using assms of_nat_le_drop_bit [of "vec_len (bs_words b)" 6 v]
  by (simp add: BitSet_has_def Let_def and_63 ay_word push_bit_of_1 and_exp_eq_0_iff_not_bit not_le)

lemma ident_64_eq:
  "u = v \<longleftrightarrow> unat u div 64 = unat v div 64 \<and> unat u mod 64 = unat (v :: u32) mod 64"
  using word_div_mod_inject [of u 64 v] by auto

lemma BitSet_empty_inv: "BitSet_inv BitSet_empty" and BitSet_empty_has: "\<not> BitSet_has BitSet_empty v"
  by (simp_all add: BitSet_inv_def BitSet_empty_def BitSet_has_iff)

lemma BitSet_add_words:
  "bs_words (BitSet_add b v) =
     (let w = unat v div 64; words = Vec_ensureLen 0 (bs_words b) (w + 1)
      in Vec_store words w (vec_arr words ! w OR push_bit (unat v mod 64) 1))"
  by (auto simp: BitSet_add_def Let_def ay_word and_63 Vec_ensureLen_def)

lemma BitSet_add_inv: "BitSet_inv b \<Longrightarrow> BitSet_inv (BitSet_add b v)"
  using div_64_less [of v] by (auto simp: BitSet_inv_def BitSet_add_words Let_def)

lemma BitSet_add_has:
  assumes "BitSet_inv b"
  shows "BitSet_has (BitSet_add b v) u \<longleftrightarrow> u = v \<or> BitSet_has b u"
proof -
  let ?w = "unat v div 64" and ?x = "unat u div 64"
  define words where "words = Vec_ensureLen 0 (bs_words b) (?w + 1)"
  have clean: "Vec_clean 0 (bs_words b)" and small: "vec_len (bs_words b) \<le> 2 ^ 26"
    using assms by (simp_all add: BitSet_inv_def)
  have nth: "vec_arr words ! i = (if i < vec_len (bs_words b) then vec_arr (bs_words b) ! i else 0)"
    if "i < max (?w + 1) (vec_len (bs_words b))" for i
    using Vec_ensureLen_nth [OF clean that] by (simp add: words_def)
  have len: "vec_len words = max (?w + 1) (vec_len (bs_words b))" by (simp add: words_def)
  have cap: "vec_len words \<le> length (vec_arr words)"
    using Vec_ensureLen_clean [OF clean] by (metis Vec_clean_inv Vec_inv_def words_def)
  have "BitSet_has (BitSet_add b v) u \<longleftrightarrow> ?x < vec_len words
    \<and> bit (((vec_arr words)[?w := vec_arr words ! ?w OR push_bit (unat v mod 64) 1]) ! ?x) (unat u mod 64)"
    using BitSet_add_inv [OF assms, of v]
    by (subst BitSet_has_iff) (simp_all add: BitSet_inv_def BitSet_add_words Let_def words_def)
  also have "\<dots> \<longleftrightarrow> u = v \<or> BitSet_has b u"
  proof (cases "?x = ?w")
    case True
    then show ?thesis
      using cap len nth [of ?w] small ident_64_eq [of u v]
      by (auto simp: BitSet_has_iff bit_or_iff bit_exp_iff)
  next
    case False
    then have "u \<noteq> v" by auto
    with False show ?thesis
      using len nth [of ?x] small by (auto simp: BitSet_has_iff split: if_splits)
  qed
  finally show ?thesis .
qed

lemma BitSet_remove_inv: "BitSet_inv b \<Longrightarrow> BitSet_inv (BitSet_remove b v)"
  using of_nat_le_drop_bit [of "vec_len (bs_words b)" 6 v]
  by (auto simp: BitSet_inv_def BitSet_remove_def Let_def ay_word not_le [symmetric])

lemma BitSet_remove_has:
  assumes "BitSet_inv b"
  shows "BitSet_has (BitSet_remove b v) u \<longleftrightarrow> u \<noteq> v \<and> BitSet_has b u"
proof -
  have small: "vec_len (bs_words b) \<le> 2 ^ 26" and cap: "vec_len (bs_words b) \<le> length (vec_arr (bs_words b))"
    using assms by (auto simp: BitSet_inv_def Vec_clean_def Vec_inv_def)
  have guard: "drop_bit 6 v < (of_nat (vec_len (bs_words b)) :: u32) \<longleftrightarrow> unat v div 64 < vec_len (bs_words b)"
    using small of_nat_le_drop_bit [of "vec_len (bs_words b)" 6 v] by (simp add: not_le [symmetric])
  show ?thesis
  proof (cases "unat v div 64 < vec_len (bs_words b)")
    case True
    then have w: "bs_words (BitSet_remove b v) = Vec_store (bs_words b) (unat v div 64)
        (vec_arr (bs_words b) ! (unat v div 64) AND NOT (push_bit (unat v mod 64) 1))"
      using guard by (simp add: BitSet_remove_def Let_def ay_word and_63)
    show ?thesis
    proof (cases "unat u div 64 = unat v div 64")
      case same: True
      then show ?thesis
        using True small cap ident_64_eq [of u v]
        by (auto simp: BitSet_has_iff w bit_and_iff bit_not_iff bit_exp_iff)
    next
      case False
      then show ?thesis using True small by (auto simp: BitSet_has_iff w)
    qed
  next
    case False
    then have "BitSet_remove b v = b" using guard by (simp add: BitSet_remove_def Let_def)
    moreover have "\<not> BitSet_has b v" using False small by (simp add: BitSet_has_iff)
    ultimately show ?thesis by auto
  qed
qed

interpretation bitset: ident_set BitSet_has BitSet_add BitSet_empty BitSet_inv "\<lambda>_. True"
  by unfold_locales
    (auto simp: BitSet_empty_inv BitSet_empty_has BitSet_add_inv BitSet_add_has)

text \<open>
  \<^verbatim>\<open>copyFrom\<close> makes the set equal to the other one, but it does not clear the words of the
  old set that lie behind the copied ones.
\<close>

lemma BitSet_copyFrom_has:
  assumes "BitSet_inv o'"
  shows "BitSet_has (BitSet_copyFrom slack b o') v = BitSet_has o' v"
proof -
  have "vec_len (bs_words o') \<le> 2 ^ 26" and "Vec_inv (bs_words o')"
    using assms by (auto simp: BitSet_inv_def)
  then show ?thesis
    by (auto simp: BitSet_has_iff BitSet_copyFrom_def Let_def nth_append vec_s_nth)
qed

lemma BitSet_copyFrom_inv:
  assumes "BitSet_inv b" and "BitSet_inv o'" and "vec_len (bs_words b) \<le> vec_len (bs_words o')"
  shows "BitSet_inv (BitSet_copyFrom slack b o')"
  using assms
  by (auto simp: BitSet_inv_def BitSet_copyFrom_def Let_def Vec_clean_def Vec_inv_def nth_append)

section \<open>TwoBitSet is a map from identifiers to two bits\<close>

definition TwoBitSet_inv :: "TwoBitSet \<Rightarrow> bool" where
  "TwoBitSet_inv b \<longleftrightarrow> Vec_clean 0 (tb_words b) \<and> vec_len (tb_words b) \<le> 2 ^ 27"

lemma shift_31: "unat ((v :: u32) AND 31) * 2 < 64" "unat ((v AND 31) * 2) = unat v mod 32 * 2"
  by (simp_all add: and_31 unat_word_ariths)

lemma word_3_mask: "(3 :: 'a::len word) = mask 2"
  by (simp add: mask_eq_exp_minus_1)

lemma bit_u8_field: "bit (ucast (x AND 3 :: u64) :: u8) i \<longleftrightarrow> i < 2 \<and> bit x i"
  by (auto simp: word_3_mask bit_ucast_iff bit_and_iff bit_mask_iff)

lemma bit_and_3: "bit (x AND 3 :: 'a::len word) i \<longleftrightarrow> i < 2 \<and> bit x i"
  by (auto simp: word_3_mask bit_and_iff bit_mask_iff dest: bit_imp_le_length)

lemma TwoBitSet_get_bit:
  assumes "vec_len (tb_words b) \<le> 2 ^ 27"
  shows "bit (TwoBitSet_get b v) i \<longleftrightarrow> unat v div 32 < vec_len (tb_words b) \<and> i < 2
    \<and> bit (vec_arr (tb_words b) ! (unat v div 32)) (unat v mod 32 * 2 + i)"
  using assms of_nat_le_drop_bit [of "vec_len (tb_words b)" 5 v]
  by (simp add: TwoBitSet_get_def Let_def shift_31 ay_word bit_u8_field bit_drop_bit_eq not_le)

lemma TwoBitSet_empty_inv: "TwoBitSet_inv TwoBitSet_empty"
  and TwoBitSet_empty_get: "TwoBitSet_get TwoBitSet_empty v = 0"
  by (simp_all add: TwoBitSet_inv_def TwoBitSet_empty_def TwoBitSet_get_def)

lemma TwoBitSet_set_words:
  "tb_words (TwoBitSet_set b v val) =
     (let w = unat v div 32; words = Vec_ensureLen 0 (tb_words b) (w + 1); s = unat v mod 32 * 2
      in Vec_store words w (vec_arr words ! w AND NOT (push_bit s 3) OR push_bit s (ucast (val AND 3))))"
  by (simp add: TwoBitSet_set_def Let_def shift_31 ay_word)

lemma TwoBitSet_set_inv: "TwoBitSet_inv b \<Longrightarrow> TwoBitSet_inv (TwoBitSet_set b v val)"
  using unat_u32_less [of v] by (auto simp: TwoBitSet_inv_def TwoBitSet_set_words Let_def)

lemma field_bits:
  fixes cell :: u64 and val :: u8
  assumes "s < 32" "t < 32" "i < 2"
  shows "bit (cell AND NOT (push_bit (s * 2) 3) OR push_bit (s * 2) (ucast (val AND 3))) (t * 2 + i)
    \<longleftrightarrow> (if t = s then bit val i else bit cell (t * 2 + i))"
  using assms
  by (auto simp: word_3_mask bit_simps less_2_cases_iff)

lemmas field_bits_0 = field_bits [where cell = 0, simplified]

lemma TwoBitSet_get_set:
  assumes "TwoBitSet_inv b"
  shows "TwoBitSet_get (TwoBitSet_set b v val) u = (if u = v then val AND 3 else TwoBitSet_get b u)"
proof (rule bit_word_eqI)
  fix i :: nat
  assume "i < LENGTH(8)"
  let ?w = "unat v div 32" and ?x = "unat u div 32"
  define words where "words = Vec_ensureLen 0 (tb_words b) (?w + 1)"
  have clean: "Vec_clean 0 (tb_words b)" and small: "vec_len (tb_words b) \<le> 2 ^ 27"
    using assms by (simp_all add: TwoBitSet_inv_def)
  have nth: "vec_arr words ! k = (if k < vec_len (tb_words b) then vec_arr (tb_words b) ! k else 0)"
    if "k < max (?w + 1) (vec_len (tb_words b))" for k
    using Vec_ensureLen_nth [OF clean that] by (simp add: words_def)
  have len: "vec_len words = max (?w + 1) (vec_len (tb_words b))" by (simp add: words_def)
  have cap: "vec_len words \<le> length (vec_arr words)"
    using Vec_ensureLen_clean [OF clean] by (metis Vec_clean_inv Vec_inv_def words_def)
  have same: "u = v \<longleftrightarrow> ?x = ?w \<and> unat u mod 32 = unat v mod 32"
    using word_div_mod_inject [of u 32 v] by auto
  have "bit (TwoBitSet_get (TwoBitSet_set b v val) u) i \<longleftrightarrow> ?x < vec_len words \<and> i < 2
    \<and> bit (((vec_arr words)[?w := vec_arr words ! ?w AND NOT (push_bit (unat v mod 32 * 2) 3)
         OR push_bit (unat v mod 32 * 2) (ucast (val AND 3))]) ! ?x) (unat u mod 32 * 2 + i)"
    using TwoBitSet_set_inv [OF assms, of v val]
    by (subst TwoBitSet_get_bit) (simp_all add: TwoBitSet_inv_def TwoBitSet_set_words Let_def words_def)
  also have "\<dots> \<longleftrightarrow> bit (if u = v then val AND 3 else TwoBitSet_get b u) i"
  proof (cases "?x = ?w")
    case True
    then show ?thesis
      using cap len nth [of ?w] small same
      by (auto simp: TwoBitSet_get_bit field_bits field_bits_0 bit_and_3)
  next
    case False
    then have "u \<noteq> v" by auto
    with False show ?thesis using len nth [of ?x] small by (auto simp: TwoBitSet_get_bit split: if_splits)
  qed
  finally show "bit (TwoBitSet_get (TwoBitSet_set b v val) u) i
    \<longleftrightarrow> bit (if u = v then val AND 3 else TwoBitSet_get b u) i" .
qed

section \<open>Properties\<close>

text \<open>
  \<^verbatim>\<open>add\<close> puts exactly the one identifier into a \<^verbatim>\<open>BitSet\<close> and \<^verbatim>\<open>remove\<close> takes exactly the
  one out, for all 32-bit identifiers, those beyond the allocated words included.
\<close>

theorem BitSet_add_remove:
  assumes "BitSet_inv b"
  shows "BitSet_inv (BitSet_add b v) \<and> BitSet_inv (BitSet_remove b v)
    \<and> (BitSet_has (BitSet_add b v) u \<longleftrightarrow> u = v \<or> BitSet_has b u)
    \<and> (BitSet_has (BitSet_remove b v) u \<longleftrightarrow> u \<noteq> v \<and> BitSet_has b u)"
  using assms by (simp add: BitSet_add_inv BitSet_remove_inv BitSet_add_has BitSet_remove_has)

theorem BitSet_add_remove_witness:
  "BitSet_has (BitSet_add BitSet_empty 70) 70 \<and> \<not> BitSet_has (BitSet_remove BitSet_empty 70) 70"
  using BitSet_add_remove [OF BitSet_empty_inv, of 70 70] by simp


text \<open>
  \<^verbatim>\<open>TwoBitSet\<close> is an array of two-bit cells over all 32-bit identifiers: \<^verbatim>\<open>get\<close> returns the
  two low bits last \<^verbatim>\<open>set\<close>, and setting one cell changes no other.
\<close>

theorem TwoBitSet_cells:
  assumes "TwoBitSet_inv b"
  shows "TwoBitSet_inv (TwoBitSet_set b v val)
    \<and> TwoBitSet_get (TwoBitSet_set b v val) u = (if u = v then val AND 3 else TwoBitSet_get b u)"
  using TwoBitSet_get_set [OF assms] TwoBitSet_set_inv [OF assms] by simp

theorem TwoBitSet_cells_witness:
  "TwoBitSet_get (TwoBitSet_set TwoBitSet_empty 33 2) 33 = 2
   \<and> TwoBitSet_get (TwoBitSet_set TwoBitSet_empty 33 2) 32 = 0"
  using TwoBitSet_cells [OF TwoBitSet_empty_inv, of 33 2 33] TwoBitSet_cells [OF TwoBitSet_empty_inv, of 33 2 32]
  by (simp add: TwoBitSet_empty_get)

end
