(* ===== verification/Ay_IntMap.thy ===== *)
theory Ay_IntMap
  imports Ay_Mix
begin

text \<open>
  \<^verbatim>\<open>IntMap\<close> (\<^verbatim>\<open>int_map.go\<close>): an open-addressing hash table from 64-bit keys to values, with
  linear probing, a power-of-two capacity and the key 0 marking a free slot. Almost every
  cache and index of the program is one of these tables.

  A pointer \<^verbatim>\<open>*V\<close> returned by the code is modelled by the index of the cell it points to.
  The probing loops of the code have no exit of their own when the table has neither the
  key nor a free slot: the model runs them for as many steps as the table has slots, after
  which a probe would only revisit slots it has seen, and returns \<open>None\<close> then.
\<close>

section \<open>The table and its operations\<close>

definition intMapMinCap :: nat where "intMapMinCap = 8"
definition intMapFillNum :: nat where "intMapFillNum = 5"
definition intMapFillDen :: nat where "intMapFillDen = 8"

text \<open>
  The Go runtime refuses to allocate more than \<open>2 ^ 48\<close> bytes, that is \<open>2 ^ 45\<close> 64-bit keys:
  \<^verbatim>\<open>make\<close> panics beyond that.
\<close>

definition maxTable :: nat where "maxTable = 2 ^ 45"

lemmas intMap_consts = intMapMinCap_def intMapFillNum_def intMapFillDen_def

record 'v IntMap =
  im_keys :: "u64 list"
  im_values :: "'v list"
  im_mask :: u64
  im_count :: nat
  im_resizeAt :: nat

text \<open>The loop of \<^verbatim>\<open>init\<close>: double the capacity until the hint fits under the load factor.\<close>

function intMap_capFor :: "nat \<Rightarrow> nat \<Rightarrow> nat" where
  "intMap_capFor c hint =
     (if 0 < c \<and> c * intMapFillNum < hint * intMapFillDen then intMap_capFor (2 * c) hint else c)"
  by pat_completeness auto
termination
  by (relation "measure (\<lambda>(c, hint). hint * intMapFillDen - c * intMapFillNum)")
    (auto simp: intMap_consts)

declare intMap_capFor.simps [simp del]

definition IntMap_alloc :: "'v \<Rightarrow> 'v IntMap \<Rightarrow> nat \<Rightarrow> 'v IntMap option" where
  "IntMap_alloc z m capacity =
     (if maxTable < capacity then None
      else Some (m\<lparr>im_keys := replicate capacity 0,
                   im_values := replicate capacity z,
                   im_mask := of_nat (capacity - 1),
                   im_resizeAt := capacity * intMapFillNum div intMapFillDen\<rparr>))"

definition IntMap_init :: "'v \<Rightarrow> 'v IntMap \<Rightarrow> nat \<Rightarrow> 'v IntMap option" where
  "IntMap_init z m hint = IntMap_alloc z m (intMap_capFor intMapMinCap hint)"

definition newIntMap :: "'v \<Rightarrow> nat \<Rightarrow> 'v IntMap option" where
  "newIntMap z hint =
     IntMap_init z \<lparr>im_keys = [], im_values = [], im_mask = 0, im_count = 0, im_resizeAt = 0\<rparr> hint"

text \<open>Where a probe for a key ends: at a slot that holds the key, or at a free slot.\<close>

datatype probe = Hit nat | Free nat

fun IntMap_probe :: "nat \<Rightarrow> u64 list \<Rightarrow> u64 \<Rightarrow> u64 \<Rightarrow> u64 \<Rightarrow> probe option" where
  "IntMap_probe 0 keys mask' k i = None"
| "IntMap_probe (Suc fuel) keys mask' k i =
     (case at_opt keys (unat i) of
        None \<Rightarrow> None
      | Some key \<Rightarrow>
          if key = k then Some (Hit (unat i))
          else if key = 0 then Some (Free (unat i))
          else IntMap_probe fuel keys mask' k ((i + 1) AND mask'))"

definition IntMap_get :: "'v IntMap \<Rightarrow> u64 \<Rightarrow> 'v option option" where
  "IntMap_get m k =
     (case IntMap_probe (length (im_keys m)) (im_keys m) (im_mask m) k (k AND im_mask m) of
        None \<Rightarrow> None
      | Some (Hit i) \<Rightarrow> map_option Some (at_opt (im_values m) i)
      | Some (Free i) \<Rightarrow> Some None)"

fun IntMap_freeSlot :: "nat \<Rightarrow> u64 list \<Rightarrow> u64 \<Rightarrow> u64 \<Rightarrow> nat option" where
  "IntMap_freeSlot 0 keys mask' j = None"
| "IntMap_freeSlot (Suc fuel) keys mask' j =
     (case at_opt keys (unat j) of
        None \<Rightarrow> None
      | Some key \<Rightarrow> if key \<noteq> 0 then IntMap_freeSlot fuel keys mask' ((j + 1) AND mask')
                  else Some (unat j))"

fun IntMap_rehash ::
  "(u64 \<times> 'v) list \<Rightarrow> u64 \<Rightarrow> u64 list \<Rightarrow> 'v list \<Rightarrow> (u64 list \<times> 'v list) option" where
  "IntMap_rehash [] mask' keys values = Some (keys, values)"
| "IntMap_rehash ((k, v) # rest) mask' keys values =
     (if k = 0 then IntMap_rehash rest mask' keys values
      else case IntMap_freeSlot (length keys) keys mask' (k AND mask') of
          None \<Rightarrow> None
        | Some j \<Rightarrow> IntMap_rehash rest mask' (keys[j := k]) (values[j := v]))"

definition IntMap_grow :: "'v \<Rightarrow> 'v IntMap \<Rightarrow> 'v IntMap option" where
  "IntMap_grow z m =
     (case IntMap_alloc z m (length (im_keys m) * 2) of
        None \<Rightarrow> None
      | Some m' \<Rightarrow>
          (case IntMap_rehash (zip (im_keys m) (im_values m)) (im_mask m') (im_keys m') (im_values m') of
             None \<Rightarrow> None
           | Some (keys, values) \<Rightarrow>
               Some (m'\<lparr>im_keys := keys, im_values := values, im_count := im_count m\<rparr>)))"

text \<open>
  \<^verbatim>\<open>cell\<close>: the cell of a key, claiming a free slot for it when it is new, and whether it was
  there before. The outer loop repeats after a \<^verbatim>\<open>grow\<close>; \<open>IntMap_cell_spec\<close> below shows that
  two rounds are enough.
\<close>

fun IntMap_cell_loop :: "nat \<Rightarrow> 'v \<Rightarrow> 'v IntMap \<Rightarrow> u64 \<Rightarrow> (nat \<times> bool \<times> 'v IntMap) option" where
  "IntMap_cell_loop 0 z m k = None"
| "IntMap_cell_loop (Suc rounds) z m k =
     (case IntMap_probe (length (im_keys m)) (im_keys m) (im_mask m) k (k AND im_mask m) of
        None \<Rightarrow> None
      | Some (Hit i) \<Rightarrow> Some (i, True, m)
      | Some (Free i) \<Rightarrow>
          if im_count m < im_resizeAt m
          then Some (i, False, m\<lparr>im_keys := (im_keys m)[i := k], im_count := im_count m + 1\<rparr>)
          else (case IntMap_grow z m of
                  None \<Rightarrow> None
                | Some m' \<Rightarrow> IntMap_cell_loop rounds z m' k))"

definition IntMap_cell :: "'v \<Rightarrow> 'v IntMap \<Rightarrow> u64 \<Rightarrow> (nat \<times> bool \<times> 'v IntMap) option" where
  "IntMap_cell z m k = IntMap_cell_loop 2 z m k"

definition IntMap_store :: "'v IntMap \<Rightarrow> nat \<Rightarrow> 'v \<Rightarrow> 'v IntMap" where
  "IntMap_store m i v = m\<lparr>im_values := (im_values m)[i := v]\<rparr>"

definition IntMap_put :: "'v \<Rightarrow> 'v IntMap \<Rightarrow> u64 \<Rightarrow> 'v \<Rightarrow> 'v IntMap option" where
  "IntMap_put z m k v =
     (case IntMap_cell z m k of None \<Rightarrow> None | Some (i, _, m') \<Rightarrow> Some (IntMap_store m' i v))"

section \<open>Tables of keys\<close>

text \<open>
  The invariant of the key array alone, shared with \<^verbatim>\<open>IntSet\<close>: no key is stored twice, and
  every key is reached from its home slot across occupied slots.
\<close>

definition slot :: "u64 list \<Rightarrow> u64 \<Rightarrow> nat \<Rightarrow> nat" where
  "slot keys k e = (unat k + e) mod length keys"

definition table_ok :: "u64 list \<Rightarrow> bool" where
  "table_ok keys \<longleftrightarrow>
     (\<forall>i < length keys. \<forall>j < length keys. keys ! i \<noteq> 0 \<longrightarrow> keys ! i = keys ! j \<longrightarrow> i = j)
   \<and> (\<forall>j < length keys. keys ! j \<noteq> 0 \<longrightarrow>
        (\<exists>d. j = slot keys (keys ! j) d \<and> (\<forall>e < d. keys ! slot keys (keys ! j) e \<noteq> 0)))"

definition nz :: "u64 list \<Rightarrow> nat" where
  "nz keys = length (filter (\<lambda>k. k \<noteq> 0) keys)"

definition pow2_table :: "u64 list \<Rightarrow> u64 \<Rightarrow> bool" where
  "pow2_table keys mask' \<longleftrightarrow> (\<exists>n. 3 \<le> n \<and> n \<le> 45 \<and> length keys = 2 ^ n \<and> mask' = mask n)"

lemma table_ok_unique:
  "table_ok keys \<Longrightarrow> i < length keys \<Longrightarrow> j < length keys \<Longrightarrow> keys ! i = keys ! j \<Longrightarrow>
   keys ! i \<noteq> 0 \<Longrightarrow> i = j"
  by (auto simp: table_ok_def)

lemma table_ok_reach:
  assumes "table_ok keys" and "j < length keys" and "keys ! j = k" and "k \<noteq> 0"
  obtains d where "j = slot keys k d" and "\<And>e. e < d \<Longrightarrow> keys ! slot keys k e \<noteq> 0"
  using assms by (auto simp: table_ok_def)

lemma table_ok_replicate [simp]: "table_ok (replicate n 0)"
  by (simp add: table_ok_def)

lemma nz_replicate [simp]: "nz (replicate n 0) = 0"
  by (simp add: nz_def)

lemma nz_update: "i < length keys \<Longrightarrow> keys ! i = 0 \<Longrightarrow> k \<noteq> 0 \<Longrightarrow> nz (keys[i := k]) = Suc (nz keys)"
  by (induction keys arbitrary: i) (auto simp: nz_def nth_Cons split: nat.splits)

lemma distinct_filter_nz:
  assumes "\<And>i j. i < length ks \<Longrightarrow> j < length ks \<Longrightarrow> ks ! i = ks ! j \<Longrightarrow> ks ! i \<noteq> (0 :: u64) \<Longrightarrow> i = j"
  shows "distinct (filter (\<lambda>k. k \<noteq> 0) ks)"
  using assms
proof (induction ks)
  case (Cons k ks)
  have "i = j" if "i < length ks" "j < length ks" "ks ! i = ks ! j" "ks ! i \<noteq> 0" for i j
    using Cons.prems [of "Suc i" "Suc j"] that by simp
  then have "distinct (filter (\<lambda>k. k \<noteq> 0) ks)" by (rule Cons.IH)
  moreover have "k \<notin> set ks" if k: "k \<noteq> 0"
  proof
    assume "k \<in> set ks"
    then obtain i where "i < length ks" "ks ! i = k" by (auto simp: in_set_conv_nth)
    then show False using Cons.prems [of 0 "Suc i"] k by simp
  qed
  ultimately show ?case by auto
qed simp

lemma nz_free_slot: "nz keys < length keys \<Longrightarrow> \<exists>j < length keys. keys ! j = 0"
proof (rule ccontr)
  assume "nz keys < length keys" and "\<not> (\<exists>j < length keys. keys ! j = 0)"
  then have "filter (\<lambda>k. k \<noteq> 0) keys = keys"
    by (auto intro!: filter_True simp: in_set_conv_nth)
  with \<open>nz keys < length keys\<close> show False by (simp add: nz_def)
qed

lemma slot_less: "0 < length keys \<Longrightarrow> slot keys k e < length keys"
  by (simp add: slot_def)

lemma slot_surj:
  assumes "j < length keys"
  shows "\<exists>e < length keys. slot keys k e = j"
proof -
  let ?n = "length keys" and ?h = "unat k mod length keys"
  have n: "0 < ?n" using assms by linarith
  let ?e = "(j + (?n - ?h)) mod ?n"
  have "slot keys k ?e = (?h + (j + (?n - ?h))) mod ?n"
    by (simp add: slot_def mod_simps)
  also have "?h + (j + (?n - ?h)) = j + ?n" using n mod_less_divisor [OF n, of "unat k"] by linarith
  finally have "slot keys k ?e = j" using assms by simp
  then show ?thesis using n by (meson mod_less_divisor)
qed

lemma pow2_table_pos: "pow2_table keys m \<Longrightarrow> 0 < length keys"
  by (auto simp: pow2_table_def)

lemma home_slot: "pow2_table keys m \<Longrightarrow> unat (k AND m) = slot keys k 0"
  by (auto simp: pow2_table_def slot_def ay_word)

lemma next_slot:
  assumes "pow2_table keys m" and "unat i = slot keys k e"
  shows "unat ((i + 1) AND m) = slot keys k (Suc e)"
proof -
  obtain n where n: "n \<le> 45" "length keys = 2 ^ n" "m = mask n"
    using assms(1) by (auto simp: pow2_table_def)
  have "unat i < 2 ^ n" using assms(2) n(2) by (simp add: slot_def)
  moreover have "(2::nat) ^ n \<le> 2 ^ 45" using n(1) by (rule power_increasing) simp
  ultimately have "unat (i + 1) = unat i + 1" by (simp add: unat_word_ariths)
  then show ?thesis using assms(2) n by (simp add: ay_word slot_def mod_simps)
qed

lemma IntMap_probe_first:
  assumes "pow2_table keys m"
    and "\<And>e. d \<le> e \<Longrightarrow> e < e0 \<Longrightarrow> keys ! slot keys k e \<noteq> k \<and> keys ! slot keys k e \<noteq> 0"
    and "keys ! slot keys k e0 = k \<or> keys ! slot keys k e0 = 0"
    and "d \<le> e0" and "e0 < d + fuel" and "unat i = slot keys k d"
  shows "IntMap_probe fuel keys m k i =
    Some (if keys ! slot keys k e0 = k then Hit (slot keys k e0) else Free (slot keys k e0))"
  using assms
proof (induction fuel arbitrary: d i)
  case 0
  then show ?case by simp
next
  case (Suc fuel)
  have inb: "slot keys k d < length keys" using slot_less pow2_table_pos [OF assms(1)] by blast
  show ?case
  proof (cases "d = e0")
    case True
    then show ?thesis using Suc.prems(3,6) inb by auto
  next
    case False
    with Suc.prems have "keys ! slot keys k d \<noteq> k" "keys ! slot keys k d \<noteq> 0" by auto
    moreover have "IntMap_probe fuel keys m k ((i + 1) AND m) =
      Some (if keys ! slot keys k e0 = k then Hit (slot keys k e0) else Free (slot keys k e0))"
      using False Suc.prems by (intro Suc.IH [of "Suc d"] next_slot) auto
    ultimately show ?thesis using Suc.prems(6) inb by simp
  qed
qed

text \<open>A probe for a key that fits a table with a free slot ends, at the key or at a free slot.\<close>

lemma IntMap_probe_total:
  assumes "pow2_table keys m" and "nz keys < length keys"
  obtains e0 where
    "\<And>e. e < e0 \<Longrightarrow> keys ! slot keys k e \<noteq> k \<and> keys ! slot keys k e \<noteq> 0"
    and "keys ! slot keys k e0 = k \<or> keys ! slot keys k e0 = 0"
    and "IntMap_probe (length keys) keys m k (k AND m) =
      Some (if keys ! slot keys k e0 = k then Hit (slot keys k e0) else Free (slot keys k e0))"
proof -
  let ?P = "\<lambda>e. keys ! slot keys k e = k \<or> keys ! slot keys k e = 0"
  obtain j where "j < length keys" "keys ! j = 0" using nz_free_slot [OF assms(2)] by blast
  then obtain e where e: "e < length keys" "?P e" using slot_surj by metis
  define e0 where "e0 = (LEAST e. ?P e)"
  have P: "?P e0" unfolding e0_def by (rule LeastI) (rule e(2))
  have least: "\<not> ?P e'" if "e' < e0" for e' using that unfolding e0_def by (rule not_less_Least)
  have "e0 \<le> e" unfolding e0_def using e(2) by (rule Least_le)
  then have "IntMap_probe (length keys) keys m k (k AND m) =
      Some (if keys ! slot keys k e0 = k then Hit (slot keys k e0) else Free (slot keys k e0))"
    using e(1) P least
    by (intro IntMap_probe_first [where d = 0] assms(1) home_slot) auto
  with P least that show ?thesis by blast
qed

text \<open>Where the probe ends at a free slot the key is nowhere in the table, and can go there.\<close>

lemma table_ok_absent:
  assumes "table_ok keys" and "k \<noteq> 0"
    and "\<And>e. e < e0 \<Longrightarrow> keys ! slot keys k e \<noteq> k" and "keys ! slot keys k e0 = 0"
  shows "k \<notin> set keys"
proof
  assume "k \<in> set keys"
  then obtain j where j: "j < length keys" "keys ! j = k" by (auto simp: in_set_conv_nth)
  then obtain d where d: "j = slot keys k d" "\<And>e. e < d \<Longrightarrow> keys ! slot keys k e \<noteq> 0"
    using table_ok_reach [OF assms(1) _ _ assms(2)] by blast
  have "\<not> d < e0" using assms(3) d(1) j(2) by blast
  moreover have "\<not> e0 < d" using assms(4) d(2) by blast
  ultimately have "d = e0" by simp
  then show False using assms(2,4) d(1) j(2) by simp
qed

lemma table_ok_insert:
  assumes ok: "table_ok keys" and k: "k \<noteq> 0" "k \<notin> set keys" and ne: "0 < length keys"
    and e: "\<And>e. e < e0 \<Longrightarrow> keys ! slot keys k e \<noteq> 0" and free: "keys ! slot keys k e0 = 0"
  shows "table_ok (keys[slot keys k e0 := k])"
proof -
  let ?j = "slot keys k e0" and ?keys = "keys[slot keys k e0 := k]"
  have jl: "?j < length keys" using ne by (rule slot_less)
  have slot: "slot ?keys k' d = slot keys k' d" for k' d by (simp add: slot_def)
  have keep: "?keys ! i \<noteq> 0" if "keys ! i \<noteq> 0" "i < length keys" for i
    using that k jl by (simp add: nth_list_update)
  have uniq: "i = j" if "i < length keys" "j < length keys" "?keys ! i \<noteq> 0" "?keys ! i = ?keys ! j" for i j
    using that k(2) ok jl by (auto simp: nth_list_update in_set_conv_nth table_ok_def split: if_splits)
  have reach: "\<exists>d. j = slot keys (?keys ! j) d \<and> (\<forall>e < d. ?keys ! slot keys (?keys ! j) e \<noteq> 0)"
    if j: "j < length keys" "?keys ! j \<noteq> 0" for j
  proof (cases "j = ?j")
    case True
    then have "?keys ! j = k" using jl by simp
    then show ?thesis using True e keep slot_less [OF ne] by auto
  next
    case False
    then have same: "?keys ! j = keys ! j" by simp
    then obtain d where "j = slot keys (keys ! j) d" "\<And>e. e < d \<Longrightarrow> keys ! slot keys (keys ! j) e \<noteq> 0"
      using table_ok_reach [OF ok j(1) refl] j(2) by metis
    then show ?thesis using same keep slot_less [OF ne] by metis
  qed
  from uniq reach show ?thesis
    unfolding table_ok_def slot by simp
qed

lemma IntMap_freeSlot_first:
  assumes "pow2_table keys m"
    and "\<And>e. d \<le> e \<Longrightarrow> e < e0 \<Longrightarrow> keys ! slot keys k e \<noteq> 0" and "keys ! slot keys k e0 = 0"
    and "d \<le> e0" and "e0 < d + fuel" and "unat i = slot keys k d"
  shows "IntMap_freeSlot fuel keys m i = Some (slot keys k e0)"
  using assms
proof (induction fuel arbitrary: d i)
  case 0
  then show ?case by simp
next
  case (Suc fuel)
  have inb: "slot keys k d < length keys" using slot_less pow2_table_pos [OF assms(1)] by blast
  show ?case
  proof (cases "d = e0")
    case True
    then show ?thesis using Suc.prems(3,6) inb by auto
  next
    case False
    then have "keys ! slot keys k d \<noteq> 0" using Suc.prems by auto
    moreover have "IntMap_freeSlot fuel keys m ((i + 1) AND m) = Some (slot keys k e0)"
      using False Suc.prems by (intro Suc.IH [of "Suc d"] next_slot) auto
    ultimately show ?thesis using Suc.prems(6) inb by simp
  qed
qed

lemma IntMap_freeSlot_total:
  assumes "pow2_table keys m" and "nz keys < length keys"
  obtains e0 where "\<And>e. e < e0 \<Longrightarrow> keys ! slot keys k e \<noteq> 0" and "keys ! slot keys k e0 = 0"
    and "IntMap_freeSlot (length keys) keys m (k AND m) = Some (slot keys k e0)"
proof -
  let ?P = "\<lambda>e. keys ! slot keys k e = 0"
  obtain j where "j < length keys" "keys ! j = 0" using nz_free_slot [OF assms(2)] by blast
  then obtain e where e: "e < length keys" "?P e" using slot_surj by metis
  define e0 where "e0 = (LEAST e. ?P e)"
  have P: "?P e0" unfolding e0_def by (rule LeastI) (rule e(2))
  have least: "\<not> ?P e'" if "e' < e0" for e' using that unfolding e0_def by (rule not_less_Least)
  have "e0 \<le> e" unfolding e0_def using e(2) by (rule Least_le)
  then have "IntMap_freeSlot (length keys) keys m (k AND m) = Some (slot keys k e0)"
    using e(1) P least
    by (intro IntMap_freeSlot_first [where d = 0] assms(1) home_slot) auto
  with P least that show ?thesis by blast
qed

section \<open>The map a table stands for\<close>

definition table_map :: "u64 list \<Rightarrow> 'v list \<Rightarrow> u64 \<Rightarrow> 'v option" where
  "table_map keys values k = (if k = 0 then None else map_of (zip keys values) k)"

lemma table_map_iff:
  assumes "table_ok keys" and "length values = length keys" and "k \<noteq> 0"
  shows "table_map keys values k = Some v \<longleftrightarrow> (\<exists>i < length keys. keys ! i = k \<and> values ! i = v)"
proof
  assume "table_map keys values k = Some v"
  then have "(k, v) \<in> set (zip keys values)"
    using assms(3) by (simp add: table_map_def map_of_SomeD)
  then show "\<exists>i < length keys. keys ! i = k \<and> values ! i = v"
    by (auto simp: in_set_zip)
next
  assume "\<exists>i < length keys. keys ! i = k \<and> values ! i = v"
  then obtain i where i: "i < length keys" "keys ! i = k" "values ! i = v" by blast
  then have "k \<in> dom (map_of (zip keys values))" using assms(2) by auto
  then obtain w where w: "map_of (zip keys values) k = Some w" by blast
  then obtain i' where "i' < length keys" "keys ! i' = k" "values ! i' = w"
    using map_of_SomeD [OF w] by (auto simp: in_set_zip)
  then have "w = v" using table_ok_unique [OF assms(1), of i i'] i assms(3) by auto
  then show "table_map keys values k = Some v" using w assms(3) by (simp add: table_map_def)
qed

lemma table_map_None:
  assumes "length values = length keys" and "k \<noteq> 0"
  shows "table_map keys values k = None \<longleftrightarrow> k \<notin> set keys"
  using assms by (simp add: table_map_def)

lemma table_map_nth:
  assumes "table_ok keys" and "length values = length keys" and "i < length keys" and "keys ! i \<noteq> 0"
  shows "table_map keys values (keys ! i) = Some (values ! i)"
  using assms by (auto simp: table_map_iff)

lemma table_map_insert:
  assumes "table_ok keys" and "table_ok (keys[j := k])" and "length values = length keys"
    and "j < length keys" and "keys ! j = 0" and "k \<noteq> 0"
  shows "table_map (keys[j := k]) (values[j := v]) = (table_map keys values)(k \<mapsto> v)"
proof (rule ext)
  fix q
  show "table_map (keys[j := k]) (values[j := v]) q = ((table_map keys values)(k \<mapsto> v)) q"
  proof (cases "q = 0 \<or> q = k")
    case True
    then show ?thesis
      using table_map_nth [OF assms(2), of "values[j := v]" j] assms(3-6)
      by (auto simp: table_map_def)
  next
    case False
    have "table_map (keys[j := k]) (values[j := v]) q = Some w \<longleftrightarrow> table_map keys values q = Some w" for w
      using False assms(3-5)
      by (auto simp: table_map_iff [OF assms(1)] table_map_iff [OF assms(2)] nth_list_update)
    then show ?thesis using False by (metis fun_upd_apply not_None_eq)
  qed
qed

lemma table_map_store:
  assumes "table_ok keys" and "length values = length keys" and "i < length keys" and "keys ! i \<noteq> 0"
  shows "table_map keys (values[i := v]) = (table_map keys values)(keys ! i \<mapsto> v)"
proof (rule ext)
  fix q
  show "table_map keys (values[i := v]) q = ((table_map keys values)(keys ! i \<mapsto> v)) q"
  proof (cases "q = 0 \<or> q = keys ! i")
    case True
    then show ?thesis
      using table_map_nth [OF assms(1), of "values[i := v]" i] assms(2-4) by (auto simp: table_map_def)
  next
    case False
    have "table_map keys (values[i := v]) q = Some w \<longleftrightarrow> table_map keys values q = Some w" for w
      using False assms(2,3) by (auto simp: table_map_iff [OF assms(1)] nth_list_update)
    then show ?thesis using False by (metis fun_upd_apply not_None_eq)
  qed
qed

section \<open>Correctness of the operations\<close>

definition IntMap_map :: "'v IntMap \<Rightarrow> u64 \<Rightarrow> 'v option" where
  "IntMap_map m = table_map (im_keys m) (im_values m)"

definition IntMap_inv :: "'v \<Rightarrow> 'v IntMap \<Rightarrow> bool" where
  "IntMap_inv z m \<longleftrightarrow>
     pow2_table (im_keys m) (im_mask m)
   \<and> length (im_values m) = length (im_keys m)
   \<and> im_resizeAt m = length (im_keys m) * intMapFillNum div intMapFillDen
   \<and> im_count m = nz (im_keys m) \<and> im_count m \<le> im_resizeAt m
   \<and> table_ok (im_keys m)
   \<and> (\<forall>i < length (im_keys m). im_keys m ! i = 0 \<longrightarrow> im_values m ! i = z)"

text \<open>Room for one more doubling below the largest array the runtime allocates.\<close>

definition IntMap_room :: "'v IntMap \<Rightarrow> bool" where
  "IntMap_room m \<longleftrightarrow> length (im_keys m) * 2 \<le> maxTable"

lemma IntMap_inv_not_full: "IntMap_inv z m \<Longrightarrow> nz (im_keys m) < length (im_keys m)"
proof -
  assume inv: "IntMap_inv z m"
  then have "nz (im_keys m) \<le> length (im_keys m) * 5 div 8"
    by (simp add: IntMap_inv_def intMap_consts)
  also have "\<dots> < length (im_keys m)"
  proof -
    have "0 < length (im_keys m)" using inv pow2_table_pos by (auto simp: IntMap_inv_def)
    then show ?thesis by linarith
  qed
  finally show ?thesis .
qed

text \<open>\<^verbatim>\<open>get\<close> returns, and returns what the map holds.\<close>

lemma IntMap_get_spec:
  assumes "IntMap_inv z m" and "k \<noteq> 0"
  shows "IntMap_get m k = Some (IntMap_map m k)"
proof -
  let ?ks = "im_keys m" and ?vs = "im_values m"
  have p2: "pow2_table ?ks (im_mask m)" and ok: "table_ok ?ks" and len: "length ?vs = length ?ks"
    using assms(1) by (simp_all add: IntMap_inv_def)
  obtain e0 where e0: "\<And>e. e < e0 \<Longrightarrow> ?ks ! slot ?ks k e \<noteq> k \<and> ?ks ! slot ?ks k e \<noteq> 0"
      "?ks ! slot ?ks k e0 = k \<or> ?ks ! slot ?ks k e0 = 0"
    and probe: "IntMap_probe (length ?ks) ?ks (im_mask m) k (k AND im_mask m) =
      Some (if ?ks ! slot ?ks k e0 = k then Hit (slot ?ks k e0) else Free (slot ?ks k e0))"
    using IntMap_probe_total [OF p2 IntMap_inv_not_full [OF assms(1)]] by blast
  have inb: "slot ?ks k e0 < length ?ks" using slot_less pow2_table_pos [OF p2] by blast
  show ?thesis
  proof (cases "?ks ! slot ?ks k e0 = k")
    case True
    then show ?thesis
      using probe table_map_nth [OF ok len inb] inb len assms(2)
      by (simp add: IntMap_get_def IntMap_map_def)
  next
    case False
    then have "k \<notin> set ?ks" using table_ok_absent [OF ok assms(2)] e0 by blast
    then show ?thesis
      using probe False table_map_None [OF len assms(2)]
      by (simp add: IntMap_get_def IntMap_map_def)
  qed
qed

lemma intMap_capFor_pow2: "\<exists>n \<ge> j. intMap_capFor (2 ^ j) hint = 2 ^ n"
proof (induction "2 ^ j :: nat" hint arbitrary: j rule: intMap_capFor.induct)
  case (1 hint)
  show ?case
  proof (cases "2 ^ j * intMapFillNum < hint * intMapFillDen")
    case True
    then obtain n where "n \<ge> Suc j" "intMap_capFor (2 ^ Suc j) hint = 2 ^ n"
      using "1.hyps" [of "Suc j"] by auto
    then show ?thesis using True by (subst intMap_capFor.simps) (auto intro: exI [of _ n])
  next
    case False
    then show ?thesis by (subst intMap_capFor.simps) auto
  qed
qed

lemma intMap_capFor_enough: "0 < c \<Longrightarrow> hint * intMapFillDen \<le> intMap_capFor c hint * intMapFillNum"
proof (induction c hint rule: intMap_capFor.induct)
  case (1 c hint)
  then show ?case by (subst intMap_capFor.simps) auto
qed

lemma pow2_le_maxTable: "(2 :: nat) ^ n \<le> maxTable \<longleftrightarrow> n \<le> 45"
  unfolding maxTable_def by (rule power_increasing_iff) simp

lemma IntMap_alloc_fresh:
  assumes "3 \<le> n" and "n \<le> 45"
  shows "\<exists>m'. IntMap_alloc z m (2 ^ n) = Some m' \<and> pow2_table (im_keys m') (im_mask m')
    \<and> im_keys m' = replicate (2 ^ n) 0 \<and> im_values m' = replicate (2 ^ n) z
    \<and> im_resizeAt m' = 2 ^ n * intMapFillNum div intMapFillDen \<and> im_count m' = im_count m"
  using assms pow2_le_maxTable [of n]
  by (simp add: IntMap_alloc_def pow2_table_def of_nat_mask [symmetric])

lemma newIntMap_spec:
  assumes "intMap_capFor intMapMinCap hint \<le> maxTable"
  shows "\<exists>m. newIntMap z hint = Some m \<and> IntMap_inv z m \<and> IntMap_map m = (\<lambda>_. None)
    \<and> length (im_keys m) = intMap_capFor intMapMinCap hint"
proof -
  obtain n where n: "3 \<le> n" "intMap_capFor intMapMinCap hint = 2 ^ n"
    using intMap_capFor_pow2 [of 3 hint] by (auto simp: intMap_consts)
  then have "n \<le> 45" using assms by (simp add: pow2_le_maxTable)
  then obtain m where m: "newIntMap z hint = Some m" "pow2_table (im_keys m) (im_mask m)"
      "im_keys m = replicate (2 ^ n) 0" "im_values m = replicate (2 ^ n) z"
      "im_resizeAt m = 2 ^ n * intMapFillNum div intMapFillDen" "im_count m = 0"
    using IntMap_alloc_fresh [OF n(1)] n(2) by (fastforce simp: newIntMap_def IntMap_init_def)
  then show ?thesis
    using n(2)
    by (auto simp: IntMap_inv_def IntMap_map_def table_map_def fun_eq_iff zip_replicate map_of_eq_None_iff)
qed

text \<open>Re-inserting the old entries into a larger table keeps exactly those entries.\<close>

lemma IntMap_rehash_spec:
  assumes "pow2_table keys m" and "length values = length keys" and "table_ok keys"
    and "\<And>i j. i < length kvs \<Longrightarrow> j < length kvs \<Longrightarrow> fst (kvs ! i) \<noteq> 0 \<Longrightarrow>
           fst (kvs ! i) = fst (kvs ! j) \<Longrightarrow> i = j"
    and "\<And>k. k \<in> fst ` set kvs \<Longrightarrow> k \<noteq> 0 \<Longrightarrow> k \<notin> set keys"
    and "nz keys + length (filter (\<lambda>kv. fst kv \<noteq> 0) kvs) < length keys"
    and "\<forall>i < length keys. keys ! i = 0 \<longrightarrow> values ! i = z"
  shows "\<exists>ks vs. IntMap_rehash kvs m keys values = Some (ks, vs)
    \<and> length ks = length keys \<and> length vs = length keys \<and> table_ok ks
    \<and> nz ks = nz keys + length (filter (\<lambda>kv. fst kv \<noteq> 0) kvs)
    \<and> (\<forall>k. k \<noteq> 0 \<longrightarrow> table_map ks vs k =
          (case map_of kvs k of Some v \<Rightarrow> Some v | None \<Rightarrow> table_map keys values k))
    \<and> (\<forall>i < length keys. ks ! i = 0 \<longrightarrow> vs ! i = z)"
  using assms
proof (induction kvs arbitrary: keys "values")
  case Nil
  then show ?case by auto
next
  case (Cons kv kvs)
  obtain k v where kv: "kv = (k, v)" by force
  have rest: "i = j" if "i < length kvs" "j < length kvs" "fst (kvs ! i) \<noteq> 0"
      "fst (kvs ! i) = fst (kvs ! j)" for i j
    using Cons.prems(4) [of "Suc i" "Suc j"] that by simp
  show ?case
  proof (cases "k = 0")
    case True
    have "map_of ((k, v) # kvs) q = map_of kvs q" if "q \<noteq> 0" for q using that True by simp
    then show ?thesis
      using Cons.IH [OF Cons.prems(1-3) rest] Cons.prems(5-7) True kv by simp
  next
    case False
    have free: "nz keys < length keys" using Cons.prems(6) by simp
    obtain e0 where e0: "\<And>e. e < e0 \<Longrightarrow> keys ! slot keys k e \<noteq> 0" "keys ! slot keys k e0 = 0"
      and fs: "IntMap_freeSlot (length keys) keys m (k AND m) = Some (slot keys k e0)"
      using IntMap_freeSlot_total [OF Cons.prems(1) free] by blast
    let ?j = "slot keys k e0"
    let ?ks = "keys[?j := k]" and ?vs = "values[?j := v]"
    have pos: "0 < length keys" using Cons.prems(1) by (rule pow2_table_pos)
    have j: "?j < length keys" using pos by (rule slot_less)
    have k_new: "k \<notin> set keys" using Cons.prems(5) [of k] kv False by simp
    have ok: "table_ok ?ks"
      using table_ok_insert [OF Cons.prems(3) False k_new pos e0] .
    have tm: "table_map ?ks ?vs = (table_map keys values)(k \<mapsto> v)"
      using table_map_insert [OF Cons.prems(3) ok Cons.prems(2) j e0(2) False] .
    have nz: "nz ?ks = Suc (nz keys)" using nz_update [OF j e0(2) False] .
    have not_later: "k \<notin> fst ` set kvs"
    proof
      assume "k \<in> fst ` set kvs"
      then obtain i where "i < length kvs" "fst (kvs ! i) = k" by (auto simp: in_set_conv_nth)
      then show False using Cons.prems(4) [of 0 "Suc i"] kv False by simp
    qed
    have sub: "q \<notin> set ?ks" if "q \<in> fst ` set kvs" "q \<noteq> 0" for q
      using that Cons.prems(5) [of q] not_later kv set_update_subset_insert [of keys ?j k] by auto
    have p2: "pow2_table ?ks m" using Cons.prems(1) by (simp add: pow2_table_def)
    have zero: "\<forall>i < length ?ks. ?ks ! i = 0 \<longrightarrow> ?vs ! i = z"
      using Cons.prems(7) False j by (auto simp: nth_list_update)
    have len: "length ?vs = length ?ks" using Cons.prems(2) by simp
    have few: "nz ?ks + length (filter (\<lambda>kv. fst kv \<noteq> 0) kvs) < length ?ks"
      using Cons.prems(6) nz kv False by simp
    have map_none: "map_of kvs k = None" using not_later by (simp add: map_of_eq_None_iff)
    have "\<exists>ks vs. IntMap_rehash kvs m ?ks ?vs = Some (ks, vs)
      \<and> length ks = length ?ks \<and> length vs = length ?ks \<and> table_ok ks
      \<and> nz ks = nz ?ks + length (filter (\<lambda>kv. fst kv \<noteq> 0) kvs)
      \<and> (\<forall>k. k \<noteq> 0 \<longrightarrow> table_map ks vs k =
            (case map_of kvs k of Some v \<Rightarrow> Some v | None \<Rightarrow> table_map ?ks ?vs k))
      \<and> (\<forall>i < length ?ks. ks ! i = 0 \<longrightarrow> vs ! i = z)"
      by (rule Cons.IH [OF p2 len ok rest sub few zero])
    then obtain ks vs where ks: "IntMap_rehash kvs m ?ks ?vs = Some (ks, vs)"
      "length ks = length keys" "length vs = length keys" "table_ok ks"
      "nz ks = nz ?ks + length (filter (\<lambda>kv. fst kv \<noteq> 0) kvs)"
      "\<forall>i < length keys. ks ! i = 0 \<longrightarrow> vs ! i = z"
      and ih: "\<And>q. q \<noteq> 0 \<Longrightarrow> table_map ks vs q =
            (case map_of kvs q of Some v \<Rightarrow> Some v | None \<Rightarrow> table_map ?ks ?vs q)"
      by auto
    have "table_map ks vs q = (case map_of (kv # kvs) q of Some v \<Rightarrow> Some v | None \<Rightarrow> table_map keys values q)"
      if "q \<noteq> 0" for q
      using ih [OF that] tm map_none kv by (cases "q = k"; cases "map_of kvs q") simp_all
    then show ?thesis using ks fs kv False nz by simp
  qed
qed

lemma nz_zip: "length vs = length ks \<Longrightarrow> length (filter (\<lambda>kv. fst kv \<noteq> 0) (zip ks vs)) = nz ks"
  by (induction vs ks rule: list_induct2) (auto simp: nz_def)

lemma IntMap_grow_spec:
  assumes inv: "IntMap_inv z m" and room: "IntMap_room m"
  shows "\<exists>m'. IntMap_grow z m = Some m' \<and> IntMap_inv z m' \<and> IntMap_map m' = IntMap_map m
    \<and> length (im_keys m') = 2 * length (im_keys m) \<and> im_count m' < im_resizeAt m'"
proof -
  let ?ks = "im_keys m" and ?vs = "im_values m"
  have p2: "pow2_table ?ks (im_mask m)" and len: "length ?vs = length ?ks" and ok: "table_ok ?ks"
    and cnt: "im_count m = nz ?ks" "nz ?ks \<le> length ?ks * 5 div 8"
    using inv by (simp_all add: IntMap_inv_def intMap_consts)
  obtain n where n: "3 \<le> n" "length ?ks = 2 ^ n" using p2 by (auto simp: pow2_table_def)
  have "Suc n \<le> 45" using room n(2) pow2_le_maxTable [of "Suc n"] by (simp add: IntMap_room_def mult.commute)
  then obtain m1 where m1: "IntMap_alloc z m (2 ^ Suc n) = Some m1" "pow2_table (im_keys m1) (im_mask m1)"
      "im_keys m1 = replicate (2 ^ Suc n) 0" "im_values m1 = replicate (2 ^ Suc n) z"
      "im_resizeAt m1 = 2 ^ Suc n * intMapFillNum div intMapFillDen"
    using IntMap_alloc_fresh [of "Suc n" z m] n(1) by auto
  have few: "nz ?ks < 2 ^ Suc n" using IntMap_inv_not_full [OF inv] n(2) by simp
  obtain ks vs where rh: "IntMap_rehash (zip ?ks ?vs) (im_mask m1) (im_keys m1) (im_values m1) = Some (ks, vs)"
    and res: "length ks = 2 ^ Suc n" "length vs = 2 ^ Suc n" "table_ok ks" "nz ks = nz ?ks"
      "\<And>k. k \<noteq> 0 \<Longrightarrow> table_map ks vs k = map_of (zip ?ks ?vs) k"
      "\<forall>i < 2 ^ Suc n. ks ! i = 0 \<longrightarrow> vs ! i = z"
  proof -
    have "\<exists>ks vs. IntMap_rehash (zip ?ks ?vs) (im_mask m1) (im_keys m1) (im_values m1) = Some (ks, vs)
      \<and> length ks = length (im_keys m1) \<and> length vs = length (im_keys m1) \<and> table_ok ks
      \<and> nz ks = nz (im_keys m1) + length (filter (\<lambda>kv. fst kv \<noteq> 0) (zip ?ks ?vs))
      \<and> (\<forall>k. k \<noteq> 0 \<longrightarrow> table_map ks vs k =
            (case map_of (zip ?ks ?vs) k of Some v \<Rightarrow> Some v | None \<Rightarrow> table_map (im_keys m1) (im_values m1) k))
      \<and> (\<forall>i < length (im_keys m1). ks ! i = 0 \<longrightarrow> vs ! i = z)"
      using m1(2) few len table_ok_unique [OF ok]
      by (intro IntMap_rehash_spec) (auto simp: m1(3,4) nz_zip)
    then obtain ks vs where ks: "IntMap_rehash (zip ?ks ?vs) (im_mask m1) (im_keys m1) (im_values m1) = Some (ks, vs)"
        "length ks = 2 ^ Suc n" "length vs = 2 ^ Suc n" "table_ok ks" "nz ks = nz ?ks"
        "\<forall>i < 2 ^ Suc n. ks ! i = 0 \<longrightarrow> vs ! i = z"
      and tm: "\<And>k. k \<noteq> 0 \<Longrightarrow> table_map ks vs k =
            (case map_of (zip ?ks ?vs) k of Some v \<Rightarrow> Some v | None \<Rightarrow> table_map (im_keys m1) (im_values m1) k)"
      using m1(3) len by (auto simp: nz_zip)
    have "table_map (im_keys m1) (im_values m1) k = None" if "k \<noteq> 0" for k
      using that m1(3,4) by (simp add: table_map_None)
    then have "table_map ks vs k = map_of (zip ?ks ?vs) k" if "k \<noteq> 0" for k
      using tm [OF that] that by (simp split: option.splits)
    then show ?thesis using that ks by blast
  qed
  have grow: "IntMap_grow z m = Some (m1\<lparr>im_keys := ks, im_values := vs, im_count := im_count m\<rparr>)"
    using m1(1) rh n(2) by (simp add: IntMap_grow_def mult.commute)
  have p2': "pow2_table ks (im_mask m1)" using m1(2,3) res(1) by (simp add: pow2_table_def)
  have lt: "nz ?ks < 2 ^ Suc n * 5 div 8"
    using cnt(2) n(2) power_increasing [OF n(1), of "2 :: nat"] by simp
  show ?thesis
  proof (intro exI conjI)
    show "IntMap_grow z m = Some (m1\<lparr>im_keys := ks, im_values := vs, im_count := im_count m\<rparr>)"
      by (rule grow)
    show "IntMap_inv z (m1\<lparr>im_keys := ks, im_values := vs, im_count := im_count m\<rparr>)"
      using p2' res m1(5) cnt(1) lt by (simp add: IntMap_inv_def intMap_consts)
    show "IntMap_map (m1\<lparr>im_keys := ks, im_values := vs, im_count := im_count m\<rparr>) = IntMap_map m"
      using res(5) by (auto simp: IntMap_map_def table_map_def fun_eq_iff)
  qed (use res m1(5) cnt lt n in \<open>simp_all add: intMap_consts\<close>)
qed

text \<open>What \<^verbatim>\<open>cell\<close> gives: the cell of the key, holding its value, or the zero value when it is new.\<close>

definition cell_of :: "'v \<Rightarrow> 'v IntMap \<Rightarrow> u64 \<Rightarrow> nat \<times> bool \<times> 'v IntMap \<Rightarrow> bool" where
  "cell_of z m k r \<longleftrightarrow>
     (case r of (i, existed, m') \<Rightarrow>
        (existed \<longleftrightarrow> IntMap_map m k \<noteq> None) \<and> IntMap_inv z m'
      \<and> i < length (im_keys m') \<and> im_keys m' ! i = k
      \<and> im_values m' ! i = (case IntMap_map m k of Some v \<Rightarrow> v | None \<Rightarrow> z)
      \<and> IntMap_map m' = (IntMap_map m)(k \<mapsto> im_values m' ! i)
      \<and> length (im_keys m') \<le> 2 * length (im_keys m))"

lemma cell_of_map:
  assumes "IntMap_map m1 = IntMap_map m" and "length (im_keys m1) = length (im_keys m) * 2"
    and "cell_of z m1 k (i, b, m')" and "length (im_keys m') = length (im_keys m1)"
  shows "cell_of z m k (i, b, m')"
  using assms by (simp add: cell_of_def)

lemma IntMap_cell_round:
  assumes inv: "IntMap_inv z m" and k: "k \<noteq> 0"
    and free: "im_count m < im_resizeAt m \<or> IntMap_map m k \<noteq> None"
  shows "\<exists>i b m'. IntMap_cell_loop (Suc r) z m k = Some (i, b, m') \<and> cell_of z m k (i, b, m')
    \<and> length (im_keys m') = length (im_keys m)"
proof -
  let ?ks = "im_keys m" and ?vs = "im_values m"
  have p2: "pow2_table ?ks (im_mask m)" and ok: "table_ok ?ks" and len: "length ?vs = length ?ks"
    using inv by (simp_all add: IntMap_inv_def)
  obtain e0 where e0: "\<And>e. e < e0 \<Longrightarrow> ?ks ! slot ?ks k e \<noteq> k \<and> ?ks ! slot ?ks k e \<noteq> 0"
      "?ks ! slot ?ks k e0 = k \<or> ?ks ! slot ?ks k e0 = 0"
    and probe: "IntMap_probe (length ?ks) ?ks (im_mask m) k (k AND im_mask m) =
      Some (if ?ks ! slot ?ks k e0 = k then Hit (slot ?ks k e0) else Free (slot ?ks k e0))"
    using IntMap_probe_total [OF p2 IntMap_inv_not_full [OF inv]] by blast
  let ?j = "slot ?ks k e0"
  have pos: "0 < length ?ks" using pow2_table_pos [OF p2] .
  have inb: "?j < length ?ks" using pos by (rule slot_less)
  show ?thesis
  proof (cases "?ks ! ?j = k")
    case True
    have hit: "table_map ?ks ?vs k = Some (?vs ! ?j)"
      using table_map_nth [OF ok len inb] True k by simp
    then have "cell_of z m k (?j, True, m)"
      using True inv inb by (auto simp: cell_of_def IntMap_map_def fun_eq_iff)
    then show ?thesis using probe True by auto
  next
    case False
    then have zero: "?ks ! ?j = 0" using e0(2) by blast
    have new: "k \<notin> set ?ks" using table_ok_absent [OF ok k] e0 zero by blast
    then have none: "IntMap_map m k = None" using table_map_None [OF len k] by (simp add: IntMap_map_def)
    then have room: "im_count m < im_resizeAt m" using free by simp
    define m' where "m' = m\<lparr>im_keys := ?ks[?j := k], im_count := im_count m + 1\<rparr>"
    have vz: "?vs ! ?j = z" using inv inb zero by (simp add: IntMap_inv_def)
    then have vs: "?vs[?j := z] = ?vs" using list_update_id [of ?vs ?j] by simp
    have ok': "table_ok (?ks[?j := k])"
      using table_ok_insert [OF ok k new pos _ zero] e0(1) by blast
    have map': "IntMap_map m' = (IntMap_map m)(k \<mapsto> z)"
      using table_map_insert [OF ok ok' len inb zero k, of z] vs by (simp add: IntMap_map_def m'_def)
    have inv': "IntMap_inv z m'"
      using inv room ok' nz_update [OF inb zero k] inb k
      by (auto simp: IntMap_inv_def m'_def pow2_table_def nth_list_update)
    have "cell_of z m k (?j, False, m')"
      using none inv' map' inb vz by (simp add: cell_of_def m'_def)
    then show ?thesis using probe False room by (auto simp: m'_def)
  qed
qed

lemma IntMap_cell_spec:
  assumes inv: "IntMap_inv z m" and room: "IntMap_room m" and k: "k \<noteq> 0"
  obtains i b m' where "IntMap_cell z m k = Some (i, b, m')" and "cell_of z m k (i, b, m')"
proof (cases "im_count m < im_resizeAt m \<or> IntMap_map m k \<noteq> None")
  case True
  then obtain i b m' where "IntMap_cell_loop (Suc 1) z m k = Some (i, b, m')" "cell_of z m k (i, b, m')"
    using IntMap_cell_round [OF inv k] by blast
  then show ?thesis using that by (metis IntMap_cell_def Suc_1)
next
  case False
  obtain m1 where m1: "IntMap_grow z m = Some m1" "IntMap_inv z m1" "IntMap_map m1 = IntMap_map m"
      "length (im_keys m1) = length (im_keys m) * 2" "im_count m1 < im_resizeAt m1"
    using IntMap_grow_spec [OF inv room] by (auto simp: mult.commute)
  obtain i b m' where r: "IntMap_cell_loop (Suc 0) z m1 k = Some (i, b, m')" "cell_of z m1 k (i, b, m')"
      "length (im_keys m') = length (im_keys m1)"
    using IntMap_cell_round [OF m1(2) k] m1(5) by blast
  let ?ks = "im_keys m"
  have p2: "pow2_table ?ks (im_mask m)" and ok: "table_ok ?ks" and len: "length (im_values m) = length ?ks"
    using inv by (simp_all add: IntMap_inv_def)
  obtain e0 where e0: "?ks ! slot ?ks k e0 = k \<or> ?ks ! slot ?ks k e0 = 0"
    and probe: "IntMap_probe (length ?ks) ?ks (im_mask m) k (k AND im_mask m) =
      Some (if ?ks ! slot ?ks k e0 = k then Hit (slot ?ks k e0) else Free (slot ?ks k e0))"
    using IntMap_probe_total [OF p2 IntMap_inv_not_full [OF inv]] by metis
  have "k \<notin> set ?ks" using False table_map_None [OF len k] by (simp add: IntMap_map_def)
  then have "?ks ! slot ?ks k e0 \<noteq> k" using slot_less [OF pow2_table_pos [OF p2]] by (metis nth_mem)
  then have "IntMap_cell z m k = IntMap_cell_loop (Suc 0) z m1 k"
    using probe False m1(1) by (simp add: IntMap_cell_def numeral_2_eq_2)
  moreover have "cell_of z m k (i, b, m')" using cell_of_map [OF m1(3,4) r(2,3)] .
  ultimately show ?thesis using that r(1) by simp
qed

lemma IntMap_store_map:
  assumes "IntMap_inv z m" and "i < length (im_keys m)" and "im_keys m ! i \<noteq> 0"
  shows "IntMap_inv z (IntMap_store m i v)"
    and "IntMap_map (IntMap_store m i v) = (IntMap_map m)(im_keys m ! i \<mapsto> v)"
    and "im_keys (IntMap_store m i v) = im_keys m"
  using assms table_map_store [of "im_keys m" "im_values m" i v]
  by (auto simp: IntMap_inv_def IntMap_store_def IntMap_map_def nth_list_update)

text \<open>\<^verbatim>\<open>put\<close> returns, and binds the key and nothing else.\<close>

lemma IntMap_put_spec:
  assumes inv: "IntMap_inv z m" and room: "IntMap_room m" and k: "k \<noteq> 0"
  shows "\<exists>m'. IntMap_put z m k v = Some m' \<and> IntMap_inv z m' \<and> IntMap_map m' = (IntMap_map m)(k \<mapsto> v)
    \<and> length (im_keys m') \<le> 2 * length (im_keys m)"
proof -
  obtain i b m1 where c: "IntMap_cell z m k = Some (i, b, m1)" "cell_of z m k (i, b, m1)"
    using IntMap_cell_spec [OF assms] .
  then have m1: "IntMap_inv z m1" "i < length (im_keys m1)" "im_keys m1 ! i = k"
      "IntMap_map m1 = (IntMap_map m)(k \<mapsto> im_values m1 ! i)" "length (im_keys m1) \<le> 2 * length (im_keys m)"
    by (simp_all add: cell_of_def)
  then show ?thesis
    using c(1) IntMap_store_map [OF m1(1,2), of v] k by (simp add: IntMap_put_def)
qed

text \<open>A table grows only when it is full, so its size is bounded by the number of its keys.\<close>

lemma IntMap_put_len:
  assumes "IntMap_put z m k v = Some m'" and "im_count m < im_resizeAt m"
  shows "length (im_keys m') = length (im_keys m)"
  using assms
  by (auto simp: IntMap_put_def IntMap_cell_def IntMap_store_def numeral_2_eq_2 split: option.splits probe.splits)

lemma IntMap_count_card:
  assumes "IntMap_inv z m"
  shows "im_count m = card (dom (IntMap_map m))"
proof -
  let ?ks = "filter (\<lambda>k. k \<noteq> 0) (im_keys m)"
  have ok: "table_ok (im_keys m)" and len: "length (im_values m) = length (im_keys m)"
    and cnt: "im_count m = length ?ks"
    using assms by (simp_all add: IntMap_inv_def nz_def)
  have "distinct ?ks"
  proof (rule distinct_filter_nz)
    show "i = j" if "i < length (im_keys m)" "j < length (im_keys m)" "im_keys m ! i = im_keys m ! j" "im_keys m ! i \<noteq> 0" for i j
      using that table_ok_unique [OF ok] by blast
  qed
  moreover have "k \<in> dom (IntMap_map m) \<longleftrightarrow> k \<in> set ?ks" for k
    using table_map_None [OF len, of k] by (cases "k = 0") (auto simp: IntMap_map_def table_map_def)
  then have "dom (IntMap_map m) = set ?ks" by blast
  ultimately show ?thesis using cnt distinct_card [of ?ks] by metis
qed

section \<open>Properties\<close>

lemma intMap_capFor_0 [simp]: "intMap_capFor intMapMinCap 0 = 8"
  by (simp add: intMap_consts intMap_capFor.simps [of 8])

lemma newIntMap_0:
  obtains m where "newIntMap z 0 = Some m" "IntMap_inv z m" "IntMap_room m" "IntMap_map m = (\<lambda>_. None)"
  using newIntMap_spec [of 0 z] by (auto simp: IntMap_room_def maxTable_def)

text \<open>
  C25: \<^verbatim>\<open>put\<close> on a well-formed \<^verbatim>\<open>IntMap\<close> returns (its probe loop ends and its restart after
  \<^verbatim>\<open>grow\<close> succeeds), keeps the table well formed, and makes \<^verbatim>\<open>get\<close> return the new value for
  the key and what it returned before for every other key.
\<close>

theorem IntMap_put_get:
  assumes "IntMap_inv z m" and "IntMap_room m" and "k \<noteq> 0"
  shows "\<exists>m'. IntMap_put z m k v = Some m' \<and> IntMap_inv z m' \<and> IntMap_get m' k = Some (Some v)
    \<and> (\<forall>k'. k' \<noteq> 0 \<and> k' \<noteq> k \<longrightarrow> IntMap_get m' k' = IntMap_get m k')"
  using IntMap_put_spec [OF assms, of v] assms(1,3) by (auto simp: IntMap_get_spec)

theorem IntMap_put_get_witness:
  "\<exists>m m'. newIntMap (0 :: u32) 0 = Some m \<and> IntMap_put 0 m 5 7 = Some m'
    \<and> IntMap_get m' 5 = Some (Some 7) \<and> IntMap_get m' 6 = IntMap_get m 6"
proof -
  obtain m where m: "newIntMap (0 :: u32) 0 = Some m" "IntMap_inv 0 m" "IntMap_room m"
    by (rule newIntMap_0)
  then show ?thesis using IntMap_put_get [OF m(2,3), of 5 7] by auto
qed

text \<open>
  \<^verbatim>\<open>grow\<close> doubles the table and loses and invents no entry: every key is found with the same
  value afterwards, the table is well formed again and has room for a new key.
\<close>

theorem IntMap_grow_keeps:
  assumes "IntMap_inv z m" and "IntMap_room m"
  shows "\<exists>m'. IntMap_grow z m = Some m' \<and> IntMap_inv z m' \<and> length (im_keys m') = 2 * length (im_keys m)
    \<and> im_count m' < im_resizeAt m' \<and> (\<forall>k. k \<noteq> 0 \<longrightarrow> IntMap_get m' k = IntMap_get m k)"
  using IntMap_grow_spec [OF assms] assms(1) by (auto simp: IntMap_get_spec)

theorem IntMap_grow_keeps_witness:
  "\<exists>m m'. newIntMap (0 :: u32) 0 = Some m \<and> IntMap_grow 0 m = Some m' \<and> IntMap_get m' 9 = IntMap_get m 9"
proof -
  obtain m where m: "newIntMap (0 :: u32) 0 = Some m" "IntMap_inv 0 m" "IntMap_room m"
    by (rule newIntMap_0)
  then show ?thesis using IntMap_grow_keeps [OF m(2,3)] by auto
qed

text \<open>
  \<^verbatim>\<open>newIntMap\<close> sized by a hint returns an empty table whose load threshold is at least the
  hint, so that many keys are put without growing.
\<close>

theorem newIntMap_empty:
  assumes "intMap_capFor intMapMinCap hint \<le> maxTable"
  shows "\<exists>m. newIntMap z hint = Some m \<and> IntMap_inv z m \<and> hint \<le> im_resizeAt m
    \<and> (\<forall>k. k \<noteq> 0 \<longrightarrow> IntMap_get m k = Some None)"
proof -
  obtain m where m: "newIntMap z hint = Some m" "IntMap_inv z m" "IntMap_map m = (\<lambda>_. None)"
      "length (im_keys m) = intMap_capFor intMapMinCap hint"
    using newIntMap_spec [OF assms, of z] by (elim exE conjE)
  have "hint * intMapFillDen \<le> length (im_keys m) * intMapFillNum"
    using intMap_capFor_enough [of intMapMinCap hint] m(4) by (simp add: intMap_consts)
  then have "hint \<le> im_resizeAt m" using m(2) by (simp add: IntMap_inv_def intMap_consts)
  then show ?thesis using m(1,2) IntMap_get_spec [OF m(2)] m(3) by simp
qed

theorem newIntMap_empty_witness:
  "\<exists>m. newIntMap (0 :: u32) 0 = Some m \<and> IntMap_inv 0 m \<and> IntMap_get m 5 = Some None"
proof -
  have "intMap_capFor intMapMinCap 0 \<le> maxTable" by (simp add: maxTable_def)
  from newIntMap_empty [OF this, of "0 :: u32"] show ?thesis by auto
qed

end
