(* ===== verification/Ay_Dense.thy ===== *)
theory Ay_Dense
  imports Ay_Vec Ay_IntMap
begin

text \<open>
  Maps keyed by 32-bit identifiers. \<^verbatim>\<open>DenseIndex\<close> (\<^verbatim>\<open>dense_index.go\<close>) is a paged array of
  slot numbers whose untouched pages share one zero page; \<^verbatim>\<open>SparseIndex\<close> (\<^verbatim>\<open>sparse_map.go\<close>)
  keeps the slot numbers in an \<^verbatim>\<open>IntMap\<close>. \<^verbatim>\<open>DenseMap\<close> (\<^verbatim>\<open>dense_map.go\<close>) and \<^verbatim>\<open>SparseMap\<close>
  store the values in insertion order behind such an index, slot 0 meaning "absent";
  \<^verbatim>\<open>DirRows\<close> (\<^verbatim>\<open>dir_rows.go\<close>) numbers directories. The locale \<open>slot_index\<close> is the contract
  between the two indexes and the maps built on them.
\<close>

section \<open>DenseIndex\<close>

definition denseIndexPageBits :: nat where "denseIndexPageBits = 10"

text \<open>A page pointer: \<^verbatim>\<open>nil\<close>, the address of the shared \<^verbatim>\<open>denseIndexZero\<close>, or a page of its own.\<close>

datatype denseIndexPage = NilPage | ZeroPage | OwnPage "u32 list"

record DenseIndex =
  di_pages :: "denseIndexPage Vec"

definition DenseIndex_empty :: DenseIndex where
  "DenseIndex_empty = \<lparr>di_pages = Vec_empty\<rparr>"

fun page_read :: "denseIndexPage \<Rightarrow> nat \<Rightarrow> u32 option" where
  "page_read NilPage j = None"
| "page_read ZeroPage j = Some 0"
| "page_read (OwnPage cells) j = at_opt cells j"

definition DenseIndex_get :: "DenseIndex \<Rightarrow> u32 \<Rightarrow> u32 option" where
  "DenseIndex_get idx k =
     (let page = unat (drop_bit denseIndexPageBits k)
      in if page < vec_len (di_pages idx)
         then page_read (vec_arr (di_pages idx) ! page) (unat (k AND 1023))
         else Some 0)"

definition DenseIndex_extend :: "denseIndexPage Vec \<Rightarrow> nat \<Rightarrow> denseIndexPage Vec" where
  "DenseIndex_extend pages page =
     (if vec_len pages \<le> page
      then let old = vec_len pages; pages = Vec_ensureLen NilPage pages (page + 1)
           in fold (\<lambda>i ps. Vec_store ps i ZeroPage) [old ..< vec_len pages] pages
      else pages)"

definition DenseIndex_put :: "DenseIndex \<Rightarrow> u32 \<Rightarrow> u32 \<Rightarrow> DenseIndex option" where
  "DenseIndex_put idx k s =
     (let page = unat (drop_bit denseIndexPageBits k);
          pages = DenseIndex_extend (di_pages idx) page
      in case vec_arr pages ! page of
           NilPage \<Rightarrow> None
         | ZeroPage \<Rightarrow>
             Some (idx\<lparr>di_pages := Vec_store pages page
                        (OwnPage ((replicate (2 ^ denseIndexPageBits) 0)[unat (k AND 1023) := s]))\<rparr>)
         | OwnPage cells \<Rightarrow>
             Some (idx\<lparr>di_pages := Vec_store pages page (OwnPage (cells[unat (k AND 1023) := s]))\<rparr>))"

text \<open>\<^verbatim>\<open>each\<close> as the list of the pairs it visits, in the order it visits them.\<close>

definition page_each :: "nat \<Rightarrow> denseIndexPage \<Rightarrow> (u32 \<times> u32) list" where
  "page_each i page =
     (case page of
        OwnPage cells \<Rightarrow>
          [(push_bit denseIndexPageBits (of_nat i) OR of_nat j, cells ! j).
             j \<leftarrow> [0 ..< length cells], cells ! j \<noteq> 0]
      | _ \<Rightarrow> [])"

definition DenseIndex_each :: "DenseIndex \<Rightarrow> (u32 \<times> u32) list" where
  "DenseIndex_each idx =
     concat (map (\<lambda>i. page_each i (vec_s (di_pages idx) ! i)) [0 ..< length (vec_s (di_pages idx))])"

section \<open>DenseMap\<close>

record 'v DenseMap =
  dm_idx :: DenseIndex
  dm_vals :: "'v Vec"

definition DenseMap_empty :: "'v DenseMap" where
  "DenseMap_empty = \<lparr>dm_idx = DenseIndex_empty, dm_vals = Vec_empty\<rparr>"

definition DenseMap_get :: "'v \<Rightarrow> 'v DenseMap \<Rightarrow> u32 \<Rightarrow> ('v \<times> bool) option" where
  "DenseMap_get z m k =
     (case DenseIndex_get (dm_idx m) k of
        None \<Rightarrow> None
      | Some s \<Rightarrow>
          if s \<noteq> 0
          then map_option (\<lambda>v. (v, True)) (at_opt (vec_s (dm_vals m)) (unat s))
          else Some (z, False))"

definition DenseMap_put :: "'v \<Rightarrow> 'v DenseMap \<Rightarrow> u32 \<Rightarrow> 'v \<Rightarrow> 'v DenseMap option" where
  "DenseMap_put z m k v =
     (case DenseIndex_get (dm_idx m) k of
        None \<Rightarrow> None
      | Some s \<Rightarrow>
          if s \<noteq> 0
          then (if unat s < vec_len (dm_vals m)
                then Some (m\<lparr>dm_vals := Vec_store (dm_vals m) (unat s) v\<rparr>) else None)
          else
            let vals = (if vec_len (dm_vals m) = 0 then Vec_pushBack z (dm_vals m) z else dm_vals m);
                vals = Vec_pushBack z vals v
            in case DenseIndex_put (dm_idx m) k (of_nat (vec_len vals - 1)) of
                 None \<Rightarrow> None
               | Some idx \<Rightarrow> Some (m\<lparr>dm_idx := idx, dm_vals := vals\<rparr>))"

definition DenseMap_values :: "'v DenseMap \<Rightarrow> 'v list" where
  "DenseMap_values m = (if vec_len (dm_vals m) = 0 then [] else drop 1 (vec_s (dm_vals m)))"

section \<open>SparseIndex and SparseMap\<close>

record SparseIndex =
  si_m :: "u32 IntMap"

definition SparseIndex_get :: "SparseIndex \<Rightarrow> u32 \<Rightarrow> u32 option" where
  "SparseIndex_get idx k =
     (case IntMap_get (si_m idx) (sparseKey k) of
        None \<Rightarrow> None
      | Some (Some s) \<Rightarrow> Some s
      | Some None \<Rightarrow> Some 0)"

definition SparseIndex_put :: "SparseIndex \<Rightarrow> u32 \<Rightarrow> u32 \<Rightarrow> SparseIndex option" where
  "SparseIndex_put idx k s =
     (case IntMap_put 0 (si_m idx) (sparseKey k) s of
        None \<Rightarrow> None
      | Some m \<Rightarrow> Some (idx\<lparr>si_m := m\<rparr>))"

record 'v SparseMap =
  sm_idx :: SparseIndex
  sm_vals :: "'v Vec"

definition newSparseMap :: "nat \<Rightarrow> 'v SparseMap option" where
  "newSparseMap hint =
     (case newIntMap 0 hint of
        None \<Rightarrow> None
      | Some m \<Rightarrow> Some \<lparr>sm_idx = \<lparr>si_m = m\<rparr>, sm_vals = Vec_empty\<rparr>)"

definition SparseMap_get :: "'v \<Rightarrow> 'v SparseMap \<Rightarrow> u32 \<Rightarrow> ('v \<times> bool) option" where
  "SparseMap_get z m k =
     (case SparseIndex_get (sm_idx m) k of
        None \<Rightarrow> None
      | Some s \<Rightarrow>
          if s \<noteq> 0
          then map_option (\<lambda>v. (v, True)) (at_opt (vec_s (sm_vals m)) (unat s))
          else Some (z, False))"

definition SparseMap_put :: "'v \<Rightarrow> 'v SparseMap \<Rightarrow> u32 \<Rightarrow> 'v \<Rightarrow> 'v SparseMap option" where
  "SparseMap_put z m k v =
     (case SparseIndex_get (sm_idx m) k of
        None \<Rightarrow> None
      | Some s \<Rightarrow>
          if s \<noteq> 0
          then (if unat s < vec_len (sm_vals m)
                then Some (m\<lparr>sm_vals := Vec_store (sm_vals m) (unat s) v\<rparr>) else None)
          else
            let vals = (if vec_len (sm_vals m) = 0 then Vec_pushBack z (sm_vals m) z else sm_vals m);
                vals = Vec_pushBack z vals v
            in case SparseIndex_put (sm_idx m) k (of_nat (vec_len vals - 1)) of
                 None \<Rightarrow> None
               | Some idx \<Rightarrow> Some (m\<lparr>sm_idx := idx, sm_vals := vals\<rparr>))"

definition SparseMap_values :: "'v SparseMap \<Rightarrow> 'v list" where
  "SparseMap_values m = (if vec_len (sm_vals m) = 0 then [] else drop 1 (vec_s (sm_vals m)))"

section \<open>DirRows\<close>

record DirRows =
  dr_idx :: DenseIndex
  dr_count :: u32

definition DirRows_rowOf :: "DirRows \<Rightarrow> u32 \<Rightarrow> u32 option" where
  "DirRows_rowOf d dir = DenseIndex_get (dr_idx d) dir"

definition DirRows_rowFor :: "DirRows \<Rightarrow> u32 \<Rightarrow> (u32 \<times> DirRows) option" where
  "DirRows_rowFor d dir =
     (case DenseIndex_get (dr_idx d) dir of
        None \<Rightarrow> None
      | Some row \<Rightarrow>
          if row \<noteq> 0 then Some (row, d)
          else case DenseIndex_put (dr_idx d) dir (dr_count d + 1) of
                 None \<Rightarrow> None
               | Some idx \<Rightarrow> Some (dr_count d + 1, \<lparr>dr_idx = idx, dr_count = dr_count d + 1\<rparr>))"

section \<open>The contract of a slot index\<close>

text \<open>
  \<open>slots i k\<close> is the slot number the index \<open>i\<close> holds for \<open>k\<close>; \<open>get\<close> reads it and \<open>put\<close>
  changes it for one key. \<open>room\<close> says that one more key can be stored.
\<close>

locale slot_index =
  fixes get :: "'i \<Rightarrow> u32 \<Rightarrow> u32 option"
    and put :: "'i \<Rightarrow> u32 \<Rightarrow> u32 \<Rightarrow> 'i option"
    and inv :: "'i \<Rightarrow> bool"
    and room :: "'i \<Rightarrow> bool"
    and slots :: "'i \<Rightarrow> u32 \<Rightarrow> u32"
  assumes get_slots: "inv i \<Longrightarrow> get i k = Some (slots i k)"
    and put_slots: "inv i \<Longrightarrow> room i \<Longrightarrow>
          \<exists>i'. put i k s = Some i' \<and> inv i' \<and> slots i' = (slots i)(k := s)"
begin

text \<open>
  The values \<open>vals\<close> behind the index represent the map \<open>m\<close>: slot 0 is unused, every other
  slot in use is a position of \<open>vals\<close>, and no two keys share a slot.
\<close>

definition rep :: "'i \<Rightarrow> 'v list \<Rightarrow> (u32 \<rightharpoonup> 'v) \<Rightarrow> bool" where
  "rep i vals m \<longleftrightarrow>
     (\<forall>k. slots i k = 0 \<longleftrightarrow> m k = None)
   \<and> (\<forall>k. slots i k \<noteq> 0 \<longrightarrow> unat (slots i k) < length vals \<and> m k = Some (vals ! unat (slots i k)))
   \<and> (\<forall>k k'. slots i k \<noteq> 0 \<longrightarrow> slots i k = slots i k' \<longrightarrow> k = k')"

lemma rep_absent: "rep i vals m \<Longrightarrow> slots i k = 0 \<longleftrightarrow> m k = None"
  by (simp add: rep_def)

lemma rep_present:
  "rep i vals m \<Longrightarrow> slots i k \<noteq> 0 \<Longrightarrow> unat (slots i k) < length vals \<and> m k = Some (vals ! unat (slots i k))"
  by (simp add: rep_def)

lemma rep_overwrite:
  assumes "rep i vals m" and "slots i k \<noteq> 0"
  shows "rep i (vals[unat (slots i k) := v]) (m(k \<mapsto> v))"
  using assms by (auto simp: rep_def nth_list_update word_unat_eq_iff [symmetric])

lemma rep_extend_zero: "rep i [] m \<Longrightarrow> rep i [z] m"
  by (auto simp: rep_def)

lemma rep_append:
  assumes "rep i vals m" and "slots i k = 0" and "0 < length vals" and "length vals < 2 ^ 32"
    and "slots i' = (slots i)(k := of_nat (length vals))"
  shows "rep i' (vals @ [v]) (m(k \<mapsto> v))"
proof -
  have n: "unat (of_nat (length vals) :: u32) = length vals"
    using assms(4) by (simp add: ay_word)
  then have nz: "(of_nat (length vals) :: u32) \<noteq> 0" using assms(3) by force
  have lt: "slots i q \<noteq> of_nat (length vals)" if "slots i q \<noteq> 0" for q
    using rep_present [OF assms(1) that] n by force
  have old: "unat (slots i q) < length vals" if "slots i q \<noteq> 0" for q
    using rep_present [OF assms(1) that] by blast
  show ?thesis
    unfolding rep_def
  proof (intro conjI allI impI)
    fix q
    show "slots i' q = 0 \<longleftrightarrow> (m(k \<mapsto> v)) q = None"
      using assms(1,5) nz by (simp add: rep_def)
  next
    fix q
    assume q: "slots i' q \<noteq> 0"
    show "unat (slots i' q) < length (vals @ [v])"
      using q assms(5) n old [of q] by (cases "q = k") auto
    show "(m(k \<mapsto> v)) q = Some ((vals @ [v]) ! unat (slots i' q))"
      using q assms(1,5) n old [of q] by (cases "q = k") (auto simp: rep_def nth_append)
  next
    fix q q'
    assume "slots i' q \<noteq> 0" and "slots i' q = slots i' q'"
    then show "q = q'"
      using assms(1,5) lt unfolding rep_def by (metis fun_upd_apply)
  qed
qed

end

section \<open>DenseIndex meets the contract\<close>

definition page_ok :: "denseIndexPage \<Rightarrow> bool" where
  "page_ok p \<longleftrightarrow> (case p of NilPage \<Rightarrow> False | ZeroPage \<Rightarrow> True | OwnPage cells \<Rightarrow> length cells = 1024)"

definition DenseIndex_inv :: "DenseIndex \<Rightarrow> bool" where
  "DenseIndex_inv idx \<longleftrightarrow>
     Vec_clean NilPage (di_pages idx)
   \<and> (\<forall>i < vec_len (di_pages idx). page_ok (vec_arr (di_pages idx) ! i))"

definition DenseIndex_slots :: "DenseIndex \<Rightarrow> u32 \<Rightarrow> u32" where
  "DenseIndex_slots idx k = (case DenseIndex_get idx k of None \<Rightarrow> 0 | Some s \<Rightarrow> s)"

lemma and_1023: "unat ((k :: u32) AND 1023) = unat k mod 1024"
  using unat_and_mask [of k 10] by (simp add: mask_eq_exp_minus_1)

lemma page_read_ok: "page_ok p \<Longrightarrow> j < 1024 \<Longrightarrow> \<exists>s. page_read p j = Some s"
  by (cases p) (auto simp: page_ok_def)

lemma DenseIndex_get_total:
  "DenseIndex_inv idx \<Longrightarrow> DenseIndex_get idx k = Some (DenseIndex_slots idx k)"
proof -
  assume inv: "DenseIndex_inv idx"
  have "\<exists>s. DenseIndex_get idx k = Some s"
  proof (cases "unat (drop_bit denseIndexPageBits k) < vec_len (di_pages idx)")
    case True
    then have "page_ok (vec_arr (di_pages idx) ! unat (drop_bit denseIndexPageBits k))"
      using inv by (simp add: DenseIndex_inv_def)
    then show ?thesis
      using page_read_ok [of _ "unat k mod 1024"] True by (simp add: DenseIndex_get_def Let_def and_1023)
  next
    case False
    then show ?thesis by (simp add: DenseIndex_get_def Let_def)
  qed
  then show ?thesis by (auto simp: DenseIndex_slots_def)
qed

lemma fold_store_zero:
  "vec_len (fold (\<lambda>i ps. Vec_store ps i ZeroPage) is ps) = vec_len ps"
  "length (vec_arr (fold (\<lambda>i ps. Vec_store ps i ZeroPage) is ps)) = length (vec_arr ps)"
  "i < length (vec_arr ps) \<Longrightarrow>
     vec_arr (fold (\<lambda>i ps. Vec_store ps i ZeroPage) is ps) ! i =
       (if i \<in> set is then ZeroPage else vec_arr ps ! i)"
  by (induction "is" arbitrary: ps) (auto simp: nth_list_update)

lemma DenseIndex_extend_spec:
  assumes "Vec_clean NilPage ps" and "\<forall>i < vec_len ps. page_ok (vec_arr ps ! i)"
  shows "Vec_clean NilPage (DenseIndex_extend ps page)"
    and "vec_len (DenseIndex_extend ps page) = max (page + 1) (vec_len ps)"
    and "i < max (page + 1) (vec_len ps) \<Longrightarrow> vec_arr (DenseIndex_extend ps page) ! i =
       (if i < vec_len ps then vec_arr ps ! i else ZeroPage)"
proof -
  let ?v = "Vec_ensureLen NilPage ps (page + 1)"
  have clean: "Vec_clean NilPage ?v" using assms(1) by simp
  then have cap: "max (page + 1) (vec_len ps) \<le> length (vec_arr ?v)"
    using Vec_ensureLen_len [of NilPage ps "page + 1"] by (metis Vec_clean_inv Vec_inv_def)
  show "vec_len (DenseIndex_extend ps page) = max (page + 1) (vec_len ps)"
    by (auto simp: DenseIndex_extend_def Let_def fold_store_zero)
  show "Vec_clean NilPage (DenseIndex_extend ps page)"
    using clean assms(1) by (auto simp: DenseIndex_extend_def Let_def Vec_clean_def Vec_inv_def fold_store_zero)
  show "vec_arr (DenseIndex_extend ps page) ! i = (if i < vec_len ps then vec_arr ps ! i else ZeroPage)"
    if "i < max (page + 1) (vec_len ps)"
    using that cap Vec_ensureLen_nth [OF assms(1) that]
    by (auto simp: DenseIndex_extend_def Let_def fold_store_zero simp del: upt_Suc)
qed

definition page_val :: "denseIndexPage \<Rightarrow> nat \<Rightarrow> u32" where
  "page_val p j = (case p of OwnPage cells \<Rightarrow> cells ! j | _ \<Rightarrow> 0)"

lemma page_read_val: "page_ok p \<Longrightarrow> j < 1024 \<Longrightarrow> page_read p j = Some (page_val p j)"
  by (cases p) (auto simp: page_ok_def page_val_def)

lemma DenseIndex_slots_val:
  assumes "DenseIndex_inv idx"
  shows "DenseIndex_slots idx k =
    (if unat k div 1024 < vec_len (di_pages idx)
     then page_val (vec_arr (di_pages idx) ! (unat k div 1024)) (unat k mod 1024) else 0)"
  using assms page_read_val [of "vec_arr (di_pages idx) ! (unat k div 1024)" "unat k mod 1024"]
  by (simp add: DenseIndex_inv_def DenseIndex_slots_def DenseIndex_get_def Let_def
      denseIndexPageBits_def ay_word and_1023)

lemma ident_1024_eq:
  "q = k \<longleftrightarrow> unat q div 1024 = unat k div 1024 \<and> unat q mod 1024 = unat (k :: u32) mod 1024"
  using word_div_mod_inject [of q 1024 k] by auto

lemma DenseIndex_put_spec:
  assumes "DenseIndex_inv idx"
  shows "\<exists>idx'. DenseIndex_put idx k s = Some idx' \<and> DenseIndex_inv idx'
    \<and> DenseIndex_slots idx' = (DenseIndex_slots idx)(k := s)"
proof -
  let ?p = "unat k div 1024" and ?j = "unat k mod 1024" and ?ps = "di_pages idx"
  define ps where "ps = DenseIndex_extend ?ps ?p"
  have clean: "Vec_clean NilPage ?ps" and pages: "\<forall>i < vec_len ?ps. page_ok (vec_arr ?ps ! i)"
    using assms by (simp_all add: DenseIndex_inv_def)
  note ext = DenseIndex_extend_spec [OF clean pages, where page = ?p, folded ps_def]
  have cap: "vec_len ps \<le> length (vec_arr ps)"
    using ext(1) by (metis Vec_clean_inv Vec_inv_def)
  define old where "old = vec_arr ps ! ?p"
  have old: "page_ok old"
    using pages ext(3) [of ?p] by (auto simp: old_def page_ok_def)
  define cells where "cells = (case old of OwnPage cells \<Rightarrow> cells | _ \<Rightarrow> replicate (2 ^ denseIndexPageBits) 0)"
  have len: "length cells = 1024" and cells: "\<And>j. j < 1024 \<Longrightarrow> cells ! j = page_val old j"
    using old by (auto simp: cells_def page_ok_def page_val_def denseIndexPageBits_def split: denseIndexPage.splits)
  define idx' where "idx' = idx\<lparr>di_pages := Vec_store ps ?p (OwnPage (cells[?j := s]))\<rparr>"
  have put: "DenseIndex_put idx k s = Some idx'"
    using old
    by (auto simp: DenseIndex_put_def Let_def denseIndexPageBits_def ay_word and_1023 ps_def [symmetric]
        old_def [symmetric] idx'_def cells_def page_ok_def split: denseIndexPage.splits)
  have inv': "DenseIndex_inv idx'"
    unfolding DenseIndex_inv_def
  proof (intro conjI allI impI)
    show "Vec_clean NilPage (di_pages idx')" using ext(1,2) by (simp add: idx'_def)
  next
    fix i
    assume "i < vec_len (di_pages idx')"
    then show "page_ok (vec_arr (di_pages idx') ! i)"
      using ext(2) ext(3) [of i] pages cap len
      by (auto simp: idx'_def nth_list_update page_ok_def)
  qed
  have "DenseIndex_slots idx' q = (if q = k then s else DenseIndex_slots idx q)" for q
  proof (cases "unat q div 1024 = ?p")
    case True
    have "page_val old (unat q mod 1024) = DenseIndex_slots idx q"
      using True ext(3) [of ?p] assms by (auto simp: DenseIndex_slots_val old_def page_val_def)
    then show ?thesis
      using True inv' cap ext(2) len cells [of "unat q mod 1024"] ident_1024_eq [of q k]
      by (auto simp: DenseIndex_slots_val idx'_def page_val_def nth_list_update)
  next
    case False
    then show ?thesis
      using inv' assms ext(2) ext(3) [of "unat q div 1024"]
      by (auto simp: DenseIndex_slots_val idx'_def page_val_def)
  qed
  then show ?thesis using put inv' by auto
qed

lemma DenseIndex_empty_inv [simp]: "DenseIndex_inv DenseIndex_empty"
  by (simp add: DenseIndex_inv_def DenseIndex_empty_def)

lemma DenseIndex_empty_slots [simp]: "DenseIndex_slots DenseIndex_empty k = 0"
  by (simp add: DenseIndex_slots_val) (simp add: DenseIndex_empty_def)

interpretation dense: slot_index DenseIndex_get DenseIndex_put DenseIndex_inv "\<lambda>_. True" DenseIndex_slots
  by unfold_locales (auto simp: DenseIndex_get_total dest: DenseIndex_put_spec)

section \<open>SparseIndex meets the contract\<close>

definition SparseIndex_inv :: "SparseIndex \<Rightarrow> bool" where
  "SparseIndex_inv idx \<longleftrightarrow> IntMap_inv 0 (si_m idx)"

definition SparseIndex_room :: "SparseIndex \<Rightarrow> bool" where
  "SparseIndex_room idx \<longleftrightarrow> IntMap_room (si_m idx)"

definition SparseIndex_slots :: "SparseIndex \<Rightarrow> u32 \<Rightarrow> u32" where
  "SparseIndex_slots idx k = (case IntMap_map (si_m idx) (sparseKey k) of Some s \<Rightarrow> s | None \<Rightarrow> 0)"

text \<open>The index never stores the reserved key 0 and never confuses two identifiers.\<close>

interpretation sparse: slot_index SparseIndex_get SparseIndex_put SparseIndex_inv SparseIndex_room SparseIndex_slots
proof unfold_locales
  fix i k
  assume "SparseIndex_inv i"
  then show "SparseIndex_get i k = Some (SparseIndex_slots i k)"
    by (simp add: SparseIndex_get_def SparseIndex_slots_def SparseIndex_inv_def IntMap_get_spec split: option.split)
next
  fix i k s
  assume "SparseIndex_inv i" and "SparseIndex_room i"
  then obtain m' where "IntMap_put 0 (si_m i) (sparseKey k) s = Some m'" "IntMap_inv 0 m'"
      "IntMap_map m' = (IntMap_map (si_m i))(sparseKey k \<mapsto> s)"
    using IntMap_put_spec [of 0 "si_m i" "sparseKey k" s]
    by (auto simp: SparseIndex_inv_def SparseIndex_room_def)
  then show "\<exists>i'. SparseIndex_put i k s = Some i' \<and> SparseIndex_inv i'
      \<and> SparseIndex_slots i' = (SparseIndex_slots i)(k := s)"
    by (auto simp: SparseIndex_put_def SparseIndex_inv_def SparseIndex_slots_def fun_eq_iff)
qed

section \<open>DenseMap and SparseMap are maps\<close>

definition DenseMap_rep :: "'v DenseMap \<Rightarrow> (u32 \<rightharpoonup> 'v) \<Rightarrow> bool" where
  "DenseMap_rep m f \<longleftrightarrow> DenseIndex_inv (dm_idx m) \<and> Vec_inv (dm_vals m)
     \<and> dense.rep (dm_idx m) (vec_s (dm_vals m)) f"

definition SparseMap_rep :: "'v SparseMap \<Rightarrow> (u32 \<rightharpoonup> 'v) \<Rightarrow> bool" where
  "SparseMap_rep m f \<longleftrightarrow> SparseIndex_inv (sm_idx m) \<and> Vec_inv (sm_vals m)
     \<and> sparse.rep (sm_idx m) (vec_s (sm_vals m)) f"

lemma vals_push:
  assumes "Vec_inv vals" and "vals' = (if vec_len vals = 0 then Vec_pushBack z vals z else vals)"
  shows "Vec_inv vals'" and "0 < vec_len vals'"
    and "vec_s vals' = (if vec_s vals = [] then [z] else vec_s vals)"
    and "vec_len vals' \<le> Suc (vec_len vals)"
proof -
  have "vec_len vals = 0 \<longleftrightarrow> vec_s vals = []"
    using length_vec_s [OF assms(1)] by (metis length_0_conv)
  then show "Vec_inv vals'" "0 < vec_len vals'" "vec_len vals' \<le> Suc (vec_len vals)"
    "vec_s vals' = (if vec_s vals = [] then [z] else vec_s vals)"
    using assms by auto
qed

lemma DenseMap_get_spec:
  assumes "DenseMap_rep m f"
  shows "DenseMap_get z m k = Some (case f k of Some v \<Rightarrow> (v, True) | None \<Rightarrow> (z, False))"
proof -
  have inv: "DenseIndex_inv (dm_idx m)" and r: "dense.rep (dm_idx m) (vec_s (dm_vals m)) f"
    using assms by (simp_all add: DenseMap_rep_def)
  show ?thesis
  proof (cases "DenseIndex_slots (dm_idx m) k = 0")
    case True
    then show ?thesis
      using dense.rep_absent [OF r] by (simp add: DenseMap_get_def dense.get_slots [OF inv])
  next
    case False
    then show ?thesis
      using dense.rep_present [OF r False] by (simp add: DenseMap_get_def dense.get_slots [OF inv])
  qed
qed

lemma SparseMap_get_spec:
  assumes "SparseMap_rep m f"
  shows "SparseMap_get z m k = Some (case f k of Some v \<Rightarrow> (v, True) | None \<Rightarrow> (z, False))"
proof -
  have inv: "SparseIndex_inv (sm_idx m)" and r: "sparse.rep (sm_idx m) (vec_s (sm_vals m)) f"
    using assms by (simp_all add: SparseMap_rep_def)
  show ?thesis
  proof (cases "SparseIndex_slots (sm_idx m) k = 0")
    case True
    then show ?thesis
      using sparse.rep_absent [OF r] by (simp add: SparseMap_get_def sparse.get_slots [OF inv])
  next
    case False
    then show ?thesis
      using sparse.rep_present [OF r False] by (simp add: SparseMap_get_def sparse.get_slots [OF inv])
  qed
qed

lemma DenseMap_put_spec:
  assumes rep: "DenseMap_rep m f" and small: "vec_len (dm_vals m) < 2 ^ 32 - 1"
  shows "\<exists>m'. DenseMap_put z m k v = Some m' \<and> DenseMap_rep m' (f(k \<mapsto> v))"
proof -
  let ?i = "dm_idx m" and ?vals = "dm_vals m"
  have inv: "DenseIndex_inv ?i" and vinv: "Vec_inv ?vals" and r: "dense.rep ?i (vec_s ?vals) f"
    using rep by (simp_all add: DenseMap_rep_def)
  show ?thesis
  proof (cases "DenseIndex_slots ?i k = 0")
    case False
    then have "dense.rep ?i ((vec_s ?vals)[unat (DenseIndex_slots ?i k) := v]) (f(k \<mapsto> v))"
      and "unat (DenseIndex_slots ?i k) < vec_len ?vals"
      using dense.rep_overwrite [OF r False] dense.rep_present [OF r False] vinv by auto
    then show ?thesis
      using False inv vinv by (simp add: DenseMap_put_def DenseMap_rep_def dense.get_slots)
  next
    case True
    define vals where "vals = (if vec_len ?vals = 0 then Vec_pushBack z ?vals z else ?vals)"
    note push = vals_push [OF vinv vals_def]
    have len: "vec_len vals < 2 ^ 32" using push(4) small by simp
    have r': "dense.rep ?i (vec_s vals) f"
      using r push(3) dense.rep_extend_zero by auto
    obtain i' where i': "DenseIndex_put ?i k (of_nat (vec_len vals)) = Some i'" "DenseIndex_inv i'"
        "DenseIndex_slots i' = (DenseIndex_slots ?i)(k := of_nat (vec_len vals))"
      using dense.put_slots [OF inv] by blast
    have "dense.rep i' (vec_s vals @ [v]) (f(k \<mapsto> v))"
      using dense.rep_append [OF r' True, of i' v] push(1,2) len i'(3) by simp
    then have "DenseMap_rep (m\<lparr>dm_idx := i', dm_vals := Vec_pushBack z vals v\<rparr>) (f(k \<mapsto> v))"
      using i'(2) push(1) by (simp add: DenseMap_rep_def)
    then show ?thesis
      using True inv i'(1)
      by (simp add: DenseMap_put_def dense.get_slots vals_def [symmetric] Let_def)
  qed
qed

lemma SparseMap_put_spec:
  assumes rep: "SparseMap_rep m f" and small: "vec_len (sm_vals m) < 2 ^ 32 - 1"
    and room: "SparseIndex_room (sm_idx m)"
  shows "\<exists>m'. SparseMap_put z m k v = Some m' \<and> SparseMap_rep m' (f(k \<mapsto> v))"
proof -
  let ?i = "sm_idx m" and ?vals = "sm_vals m"
  have inv: "SparseIndex_inv ?i" and vinv: "Vec_inv ?vals" and r: "sparse.rep ?i (vec_s ?vals) f"
    using rep by (simp_all add: SparseMap_rep_def)
  show ?thesis
  proof (cases "SparseIndex_slots ?i k = 0")
    case False
    then have "sparse.rep ?i ((vec_s ?vals)[unat (SparseIndex_slots ?i k) := v]) (f(k \<mapsto> v))"
      and "unat (SparseIndex_slots ?i k) < vec_len ?vals"
      using sparse.rep_overwrite [OF r False] sparse.rep_present [OF r False] vinv by auto
    then show ?thesis
      using False inv vinv by (simp add: SparseMap_put_def SparseMap_rep_def sparse.get_slots)
  next
    case True
    define vals where "vals = (if vec_len ?vals = 0 then Vec_pushBack z ?vals z else ?vals)"
    note push = vals_push [OF vinv vals_def]
    have len: "vec_len vals < 2 ^ 32" using push(4) small by simp
    have r': "sparse.rep ?i (vec_s vals) f"
      using r push(3) sparse.rep_extend_zero by auto
    obtain i' where i': "SparseIndex_put ?i k (of_nat (vec_len vals)) = Some i'" "SparseIndex_inv i'"
        "SparseIndex_slots i' = (SparseIndex_slots ?i)(k := of_nat (vec_len vals))"
      using sparse.put_slots [OF inv room] by blast
    have "sparse.rep i' (vec_s vals @ [v]) (f(k \<mapsto> v))"
      using sparse.rep_append [OF r' True, of i' v] push(1,2) len i'(3) by simp
    then have "SparseMap_rep (m\<lparr>sm_idx := i', sm_vals := Vec_pushBack z vals v\<rparr>) (f(k \<mapsto> v))"
      using i'(2) push(1) by (simp add: SparseMap_rep_def)
    then show ?thesis
      using True inv i'(1)
      by (simp add: SparseMap_put_def sparse.get_slots vals_def [symmetric] Let_def)
  qed
qed

lemma DenseMap_empty_rep: "DenseMap_rep DenseMap_empty (\<lambda>_. None)"
  by (simp add: DenseMap_rep_def DenseMap_empty_def dense.rep_def Vec_clean_inv [OF Vec_empty_clean])

lemma newSparseMap_spec:
  assumes "intMap_capFor intMapMinCap hint \<le> maxTable"
  shows "\<exists>m. newSparseMap hint = Some m \<and> SparseMap_rep m (\<lambda>_. None)"
proof -
  obtain t :: "u32 IntMap" where "newIntMap 0 hint = Some t" "IntMap_inv 0 t" "IntMap_map t = (\<lambda>_. None)"
    using newIntMap_spec [OF assms, of 0] by blast
  then show ?thesis
    by (simp add: newSparseMap_def SparseMap_rep_def SparseIndex_inv_def sparse.rep_def
        SparseIndex_slots_def Vec_clean_inv [OF Vec_empty_clean])
qed

section \<open>DirRows numbers directories\<close>

text \<open>
  The rows handed out are exactly \<open>1, \<dots>, count\<close>, one per directory, and row 0 means that the
  directory has no row yet.
\<close>

definition DirRows_inv :: "DirRows \<Rightarrow> bool" where
  "DirRows_inv d \<longleftrightarrow> DenseIndex_inv (dr_idx d)
     \<and> (\<forall>k. DenseIndex_slots (dr_idx d) k \<le> dr_count d)
     \<and> (\<forall>k k'. DenseIndex_slots (dr_idx d) k \<noteq> 0 \<longrightarrow>
          DenseIndex_slots (dr_idx d) k = DenseIndex_slots (dr_idx d) k' \<longrightarrow> k = k')"

lemma DirRows_rowOf_total: "DirRows_inv d \<Longrightarrow> DirRows_rowOf d k = Some (DenseIndex_slots (dr_idx d) k)"
  by (simp add: DirRows_rowOf_def DirRows_inv_def DenseIndex_get_total)

lemma DirRows_rowFor_spec:
  assumes inv: "DirRows_inv d" and "unat (dr_count d) < 2 ^ 32 - 1"
  shows "\<exists>row d'. DirRows_rowFor d k = Some (row, d') \<and> DirRows_inv d' \<and> row \<noteq> 0
    \<and> DirRows_rowOf d' k = Some row
    \<and> (\<forall>q. q \<noteq> k \<longrightarrow> DirRows_rowOf d' q = DirRows_rowOf d q)
    \<and> (DirRows_rowOf d k \<noteq> Some 0 \<longrightarrow> d' = d)"
proof (cases "DenseIndex_slots (dr_idx d) k = 0")
  case False
  then show ?thesis
    using inv DirRows_rowOf_total [OF inv]
    by (simp add: DirRows_rowFor_def DirRows_inv_def DenseIndex_get_total)
next
  case True
  have di: "DenseIndex_inv (dr_idx d)" using inv by (simp add: DirRows_inv_def)
  obtain i' where i': "DenseIndex_put (dr_idx d) k (dr_count d + 1) = Some i'" "DenseIndex_inv i'"
      "DenseIndex_slots i' = (DenseIndex_slots (dr_idx d))(k := dr_count d + 1)"
    using DenseIndex_put_spec [OF di] by blast
  have lt: "dr_count d < dr_count d + 1"
    unfolding word_less_nat_alt using assms(2) by (simp add: unat_word_ariths(1))
  have below: "DenseIndex_slots (dr_idx d) q < dr_count d + 1" for q
    using inv lt by (meson DirRows_inv_def le_less_trans)
  define d' where "d' = \<lparr>dr_idx = i', dr_count = dr_count d + 1\<rparr>"
  have inv': "DirRows_inv d'"
    unfolding DirRows_inv_def
  proof (intro conjI allI impI)
    show "DenseIndex_inv (dr_idx d')" by (simp add: d'_def i'(2))
    show "DenseIndex_slots (dr_idx d') q \<le> dr_count d'" for q
      using below [of q] by (simp add: d'_def i'(3) less_imp_le)
    show "q = q'" if "DenseIndex_slots (dr_idx d') q \<noteq> 0"
      "DenseIndex_slots (dr_idx d') q = DenseIndex_slots (dr_idx d') q'" for q q'
    proof -
      have old: "a = b" if "DenseIndex_slots (dr_idx d) a \<noteq> 0"
        "DenseIndex_slots (dr_idx d) a = DenseIndex_slots (dr_idx d) b" for a b
        using that inv by (simp add: DirRows_inv_def)
      have new: "DenseIndex_slots (dr_idx d) a \<noteq> dr_count d + 1" for a
        using below [of a] by (rule less_imp_neq)
      show ?thesis
        using that old [of q q'] new [of q] new [of q']
        by (cases "q = k"; cases "q' = k") (simp_all add: d'_def i'(3))
    qed
  qed
  have "dr_count d + 1 \<noteq> 0" using lt by force
  then show ?thesis
    using True i' inv' DirRows_rowOf_total [OF inv] DirRows_rowOf_total [OF inv']
      DenseIndex_get_total [OF di]
    by (intro exI [of _ "dr_count d + 1"] exI [of _ d']) (simp add: DirRows_rowFor_def d'_def)
qed

section \<open>Properties\<close>

text \<open>
  \<^verbatim>\<open>SparseMap\<close>, the hash map keyed by identifiers: after \<^verbatim>\<open>put\<close> the key is found with its
  value, every other key is found as before, and the map it stands for is updated at that key
  only, through hashing, the slot table and the value array.
\<close>

theorem SparseMap_put_get:
  assumes "SparseMap_rep m f" and "vec_len (sm_vals m) < 2 ^ 32 - 1" and "SparseIndex_room (sm_idx m)"
  shows "\<exists>m'. SparseMap_put z m k v = Some m' \<and> SparseMap_rep m' (f(k \<mapsto> v))
    \<and> SparseMap_get z m' k = Some (v, True)
    \<and> (\<forall>q. q \<noteq> k \<longrightarrow> SparseMap_get z m' q = SparseMap_get z m q)"
  using SparseMap_put_spec [OF assms] SparseMap_get_spec [OF assms(1)] by (fastforce simp: SparseMap_get_spec)

theorem SparseMap_put_get_witness:
  "\<exists>m m'. newSparseMap 0 = Some m \<and> SparseMap_put (0 :: u32) m 3 9 = Some m'
    \<and> SparseMap_get 0 m' 3 = Some (9, True) \<and> SparseMap_get 0 m' 4 = SparseMap_get 0 m 4"
proof -
  obtain t :: "u32 IntMap" where t: "newIntMap 0 0 = Some t" "IntMap_inv 0 t" "IntMap_room t"
      "IntMap_map t = (\<lambda>_. None)"
    by (rule newIntMap_0)
  define m where "m = \<lparr>sm_idx = \<lparr>si_m = t\<rparr>, sm_vals = (Vec_empty :: u32 Vec)\<rparr>"
  have new: "newSparseMap 0 = Some m" using t(1) by (simp add: newSparseMap_def m_def)
  have "SparseMap_rep m (\<lambda>_. None)"
    using t(2,4) by (simp add: m_def SparseMap_rep_def SparseIndex_inv_def sparse.rep_def
        SparseIndex_slots_def Vec_clean_inv [OF Vec_empty_clean])
  moreover have "SparseIndex_room (sm_idx m)" using t(3) by (simp add: SparseIndex_room_def m_def)
  moreover have "vec_len (sm_vals m) < 2 ^ 32 - 1" by (simp add: m_def)
  ultimately show ?thesis using SparseMap_put_get [of m "\<lambda>_. None" 0 3 9] new by auto
qed

text \<open>
  \<^verbatim>\<open>DenseMap\<close>, the paged map keyed by identifiers: after \<^verbatim>\<open>put\<close> the key is found with its
  value and every other key as before, also when the put allocates pages or the first value.
\<close>

theorem DenseMap_put_get:
  assumes "DenseMap_rep m f" and "vec_len (dm_vals m) < 2 ^ 32 - 1"
  shows "\<exists>m'. DenseMap_put z m k v = Some m' \<and> DenseMap_rep m' (f(k \<mapsto> v))
    \<and> DenseMap_get z m' k = Some (v, True)
    \<and> (\<forall>q. q \<noteq> k \<longrightarrow> DenseMap_get z m' q = DenseMap_get z m q)"
  using DenseMap_put_spec [OF assms] DenseMap_get_spec [OF assms(1)] by (fastforce simp: DenseMap_get_spec)

theorem DenseMap_put_get_witness:
  "\<exists>m'. DenseMap_put (0 :: u32) DenseMap_empty 3000 9 = Some m' \<and> DenseMap_get 0 m' 3000 = Some (9, True)
    \<and> DenseMap_get 0 m' 4 = DenseMap_get 0 DenseMap_empty 4"
  using DenseMap_put_get [OF DenseMap_empty_rep, where z = "0 :: u32" and k = 3000 and v = 9]
  by (auto simp: DenseMap_empty_def)

text \<open>
  \<^verbatim>\<open>DirRows\<close> numbers directories: \<^verbatim>\<open>rowFor\<close> returns a row that is not 0, the same one
  every time it is asked for that directory, and leaves the rows of the others alone; two
  directories never share a row.
\<close>

theorem DirRows_numbering:
  assumes "DirRows_inv d" and "unat (dr_count d) < 2 ^ 32 - 1"
  shows "\<exists>row d'. DirRows_rowFor d k = Some (row, d') \<and> row \<noteq> 0
    \<and> DirRows_rowFor d' k = Some (row, d')
    \<and> (\<forall>q. q \<noteq> k \<longrightarrow> DirRows_rowOf d' q = DirRows_rowOf d q \<and> DirRows_rowOf d' q \<noteq> Some row)"
proof -
  obtain row d' where r: "DirRows_rowFor d k = Some (row, d')" "DirRows_inv d'" "row \<noteq> 0"
      "DirRows_rowOf d' k = Some row" "\<And>q. q \<noteq> k \<Longrightarrow> DirRows_rowOf d' q = DirRows_rowOf d q"
    using DirRows_rowFor_spec [OF assms, of k] by blast
  have slot: "DenseIndex_slots (dr_idx d') k = row" using r(2,4) DirRows_rowOf_total by fastforce
  have "DenseIndex_slots (dr_idx d') q \<noteq> row" if "q \<noteq> k" for q
    using r(2,3) slot that unfolding DirRows_inv_def by metis
  moreover have "DirRows_rowFor d' k = Some (row, d')"
    using slot r(2,3) by (simp add: DirRows_rowFor_def DirRows_inv_def DenseIndex_get_total)
  moreover have "DirRows_rowOf d' q = Some (DenseIndex_slots (dr_idx d') q)" for q
    using DirRows_rowOf_total [OF r(2)] .
  ultimately show ?thesis using r(1,3,5) by (metis option.inject)
qed

definition DirRows_empty :: DirRows where
  "DirRows_empty = \<lparr>dr_idx = DenseIndex_empty, dr_count = 0\<rparr>"

theorem DirRows_numbering_witness:
  "\<exists>row d'. DirRows_rowFor DirRows_empty 7 = Some (row, d') \<and> row \<noteq> 0
    \<and> DirRows_rowFor d' 7 = Some (row, d') \<and> DirRows_rowOf d' 8 \<noteq> Some row"
proof -
  have "DirRows_inv DirRows_empty" by (simp add: DirRows_inv_def DirRows_empty_def)
  moreover have "unat (dr_count DirRows_empty) < 2 ^ 32 - 1" by (simp add: DirRows_empty_def)
  moreover have "(8 :: u32) \<noteq> 7" by simp
  ultimately show ?thesis using DirRows_numbering [of DirRows_empty 7] by metis
qed

end
