(* ===== verification/Ay_Epoch.thy ===== *)
theory Ay_Epoch
  imports Ay_Bits
begin

text \<open>
  Sets that are emptied in constant time: a generation number per identifier and a current
  16-bit epoch; an identifier is in the set when its generation equals the epoch.
  \<^verbatim>\<open>IdSet\<close> (\<^verbatim>\<open>id_set.go\<close>) is the visited set of the closure computation, \<^verbatim>\<open>DeDuper\<close>
  (\<^verbatim>\<open>de_duper.go\<close>) removes duplicates from lists of identifiers; \<^verbatim>\<open>DeDuperPool\<close> lends out
  the one \<^verbatim>\<open>DeDuper\<close> of the program.

  The interesting case is the epoch's wrap-around: \<^verbatim>\<open>reset\<close> increments a 16-bit counter and
  clears the generations when it comes round to 0. The identifiers of the generic functions
  (\<^verbatim>\<open>STR\<close>, \<^verbatim>\<open>VFS\<close>, \<^verbatim>\<open>NodeRef\<close>) are their own \<^verbatim>\<open>strID\<close>, so lists of them are lists of
  32-bit words.
\<close>

section \<open>IdSet\<close>

record IdSet =
  ids_gen :: "u16 Vec"
  ids_epoch :: u16

definition Vec_clear :: "'a \<Rightarrow> 'a Vec \<Rightarrow> 'a Vec" where
  "Vec_clear z v = v\<lparr>vec_arr := replicate (length (vec_s v)) z @ drop (vec_len v) (vec_arr v)\<rparr>"

definition IdSet_reset :: "IdSet \<Rightarrow> u32 \<Rightarrow> IdSet" where
  "IdSet_reset s size' =
     (case Vec_freshLen 0 (ids_gen s) (unat size') of
        (True, gen) \<Rightarrow> \<lparr>ids_gen = gen, ids_epoch = 1\<rparr>
      | (False, gen) \<Rightarrow>
          let epoch = ids_epoch s + 1
          in if epoch = 0 then \<lparr>ids_gen = Vec_clear 0 gen, ids_epoch = 1\<rparr>
             else \<lparr>ids_gen = gen, ids_epoch = epoch\<rparr>)"

definition IdSet_has :: "IdSet \<Rightarrow> u32 \<Rightarrow> bool" where
  "IdSet_has s v \<longleftrightarrow>
     v < of_nat (vec_len (ids_gen s)) \<and> vec_arr (ids_gen s) ! unat v = ids_epoch s"

definition IdSet_add :: "IdSet \<Rightarrow> u32 \<Rightarrow> IdSet" where
  "IdSet_add s v =
     s\<lparr>ids_gen := Vec_store (Vec_ensureLen 0 (ids_gen s) (unat v + 1)) (unat v) (ids_epoch s)\<rparr>"

text \<open>
  \<^verbatim>\<open>spliceOne\<close> and \<^verbatim>\<open>spliceNew\<close> append the identifiers not yet seen to a block that the caller
  has allocated, at position \<open>k\<close>; an identifier or a position out of range is a Go panic.
\<close>

definition IdSet_spliceOne :: "IdSet \<Rightarrow> u32 \<Rightarrow> u32 list \<Rightarrow> nat \<Rightarrow> (nat \<times> IdSet \<times> u32 list) option" where
  "IdSet_spliceOne s v block k =
     (case at_opt (vec_s (ids_gen s)) (unat v) of
        None \<Rightarrow> None
      | Some g \<Rightarrow>
          if g = ids_epoch s then Some (k, s, block)
          else (case set_opt block k v of
                  None \<Rightarrow> None
                | Some block' \<Rightarrow>
                    Some (k + 1, s\<lparr>ids_gen := Vec_store (ids_gen s) (unat v) (ids_epoch s)\<rparr>, block')))"

fun IdSet_spliceNew :: "IdSet \<Rightarrow> u32 list \<Rightarrow> u32 list \<Rightarrow> nat \<Rightarrow> (nat \<times> IdSet \<times> u32 list) option" where
  "IdSet_spliceNew s [] block k = Some (k, s, block)"
| "IdSet_spliceNew s (v # win) block k =
     (case at_opt (vec_s (ids_gen s)) (unat v) of
        None \<Rightarrow> None
      | Some g \<Rightarrow>
          if g = ids_epoch s then IdSet_spliceNew s win block k
          else (case set_opt block k v of
                  None \<Rightarrow> None
                | Some block' \<Rightarrow>
                    IdSet_spliceNew (s\<lparr>ids_gen := Vec_store (ids_gen s) (unat v) (ids_epoch s)\<rparr>)
                      win block' (k + 1)))"

section \<open>DeDuper\<close>

record DeDuper =
  dd_gen :: "u16 Vec"
  dd_epoch :: u16

text \<open>\<open>bound\<close> is \<^verbatim>\<open>vfsBound()\<close>: one more than the largest file identifier handed out so far.\<close>

definition DeDuper_reset :: "u32 \<Rightarrow> DeDuper \<Rightarrow> DeDuper" where
  "DeDuper_reset bound dd =
     (case Vec_freshLen 0 (dd_gen dd) (unat bound) of
        (True, gen) \<Rightarrow> \<lparr>dd_gen = gen, dd_epoch = 1\<rparr>
      | (False, gen) \<Rightarrow>
          let epoch = dd_epoch dd + 1
          in if epoch = 0 then \<lparr>dd_gen = Vec_clear 0 gen, dd_epoch = 1\<rparr>
             else \<lparr>dd_gen = gen, dd_epoch = epoch\<rparr>)"

definition DeDuper_grow :: "DeDuper \<Rightarrow> u32 \<Rightarrow> DeDuper" where
  "DeDuper_grow dd v = dd\<lparr>dd_gen := Vec_ensureLen 0 (dd_gen dd) (unat v + 1)\<rparr>"

text \<open>\<^verbatim>\<open>addStable\<close> reads the cell through an unchecked pointer: out of range it is undefined.\<close>

definition DeDuper_addStable :: "DeDuper \<Rightarrow> u32 \<Rightarrow> (bool \<times> DeDuper) option" where
  "DeDuper_addStable dd v =
     (case at_opt (vec_s (dd_gen dd)) (unat v) of
        None \<Rightarrow> None
      | Some g \<Rightarrow>
          if g = dd_epoch dd then Some (False, dd)
          else Some (True, dd\<lparr>dd_gen := Vec_store (dd_gen dd) (unat v) (dd_epoch dd)\<rparr>))"

definition DeDuper_add :: "DeDuper \<Rightarrow> u32 \<Rightarrow> (bool \<times> DeDuper) option" where
  "DeDuper_add dd v =
     (let dd = (if vec_len (dd_gen dd) \<le> unat v then DeDuper_grow dd v else dd)
      in DeDuper_addStable dd v)"

definition DeDuper_has :: "DeDuper \<Rightarrow> u32 \<Rightarrow> bool option" where
  "DeDuper_has dd v = map_option (\<lambda>g. g = dd_epoch dd) (at_opt (vec_s (dd_gen dd)) (unat v))"

section \<open>Removing duplicates\<close>

text \<open>
  \<^verbatim>\<open>dedupInPlaceWith\<close> writes its result into the front of the array it reads: \<open>arr\<close> is that
  array, \<open>i\<close> the position read next and \<open>k\<close> the number of elements kept so far.
\<close>

function dedup_inPlace_loop ::
  "DeDuper \<Rightarrow> u32 list \<Rightarrow> nat \<Rightarrow> nat \<Rightarrow> (DeDuper \<times> u32 list \<times> nat) option" where
  "dedup_inPlace_loop dd arr i k =
     (if i < length arr
      then (case DeDuper_addStable dd (arr ! i) of
              None \<Rightarrow> None
            | Some (True, dd') \<Rightarrow> dedup_inPlace_loop dd' (arr[k := arr ! i]) (i + 1) (k + 1)
            | Some (False, dd') \<Rightarrow> dedup_inPlace_loop dd' arr (i + 1) k)
      else Some (dd, arr, k))"
  by pat_completeness auto
termination
  by (relation "measure (\<lambda>(dd, arr, i, k). length arr - i)") auto

declare dedup_inPlace_loop.simps [simp del]

definition dedupInPlaceWith :: "u32 \<Rightarrow> DeDuper \<Rightarrow> u32 list \<Rightarrow> (DeDuper \<times> u32 list) option" where
  "dedupInPlaceWith bound dd xs =
     (case dedup_inPlace_loop (DeDuper_reset bound dd) xs 0 0 of
        None \<Rightarrow> None
      | Some (dd', arr, k) \<Rightarrow> Some (dd', take k arr))"

fun dedup_append :: "DeDuper \<Rightarrow> u32 list \<Rightarrow> u32 list \<Rightarrow> (DeDuper \<times> u32 list) option" where
  "dedup_append dd out [] = Some (dd, out)"
| "dedup_append dd out (x # xs) =
     (case DeDuper_addStable dd x of
        None \<Rightarrow> None
      | Some (True, dd') \<Rightarrow> dedup_append dd' (out @ [x]) xs
      | Some (False, dd') \<Rightarrow> dedup_append dd' out xs)"

fun dedup_lists :: "DeDuper \<Rightarrow> u32 list \<Rightarrow> u32 list list \<Rightarrow> (DeDuper \<times> u32 list) option" where
  "dedup_lists dd out [] = Some (dd, out)"
| "dedup_lists dd out (l # ls) =
     (case dedup_append dd out l of
        None \<Rightarrow> None
      | Some (dd', out') \<Rightarrow> dedup_lists dd' out' ls)"

record DeDuperPool =
  pool_deduper :: DeDuper
  pool_live :: bool

definition DeDuperPool_get :: "u32 \<Rightarrow> DeDuperPool \<Rightarrow> (DeDuper \<times> DeDuperPool) option" where
  "DeDuperPool_get bound p =
     (if pool_live p then None
      else let dd = DeDuper_reset bound (pool_deduper p)
           in Some (dd, \<lparr>pool_deduper = dd, pool_live = True\<rparr>))"

definition DeDuperPool_put :: "DeDuperPool \<Rightarrow> DeDuper \<Rightarrow> DeDuperPool option" where
  "DeDuperPool_put p dd =
     (if pool_live p then Some \<lparr>pool_deduper = dd, pool_live = False\<rparr> else None)"

definition DeDuperPool_with ::
  "u32 \<Rightarrow> DeDuperPool \<Rightarrow> (DeDuper \<Rightarrow> (DeDuper \<times> 'r) option) \<Rightarrow> ('r \<times> DeDuperPool) option" where
  "DeDuperPool_with bound p f =
     (case DeDuperPool_get bound p of
        None \<Rightarrow> None
      | Some (dd, p1) \<Rightarrow>
          (case f dd of
             None \<Rightarrow> None
           | Some (dd', r) \<Rightarrow>
               (case DeDuperPool_put p1 dd' of None \<Rightarrow> None | Some p2 \<Rightarrow> Some (r, p2))))"

definition dedupInPlace :: "u32 \<Rightarrow> DeDuperPool \<Rightarrow> u32 list \<Rightarrow> (u32 list \<times> DeDuperPool) option" where
  "dedupInPlace bound p xs = DeDuperPool_with bound p (\<lambda>dd. dedupInPlaceWith bound dd xs)"

definition dedup :: "u32 \<Rightarrow> DeDuperPool \<Rightarrow> u32 list list \<Rightarrow> (u32 list \<times> DeDuperPool) option" where
  "dedup bound p ls =
     (if sum_list (map length ls) = 0 then Some ([], p)
      else DeDuperPool_with bound p (\<lambda>dd. dedup_lists dd [] ls))"

definition dedupInto ::
  "u32 \<Rightarrow> DeDuperPool \<Rightarrow> u32 list \<Rightarrow> u32 list list \<Rightarrow> (u32 list \<times> DeDuperPool) option" where
  "dedupInto bound p out ls = DeDuperPool_with bound p (\<lambda>dd. dedup_lists dd out ls)"

section \<open>Generations and epochs\<close>

text \<open>
  The contract both structures share. \<open>gens_ok\<close>: no generation is ahead of the epoch, so the
  next epoch is fresh; \<open>gens_set\<close>: the identifiers whose generation is the epoch.
\<close>

definition gens_ok :: "u16 Vec \<Rightarrow> u16 \<Rightarrow> bool" where
  "gens_ok gen epoch \<longleftrightarrow>
     Vec_clean 0 gen \<and> vec_len gen < 2 ^ 32 \<and> (\<forall>i < vec_len gen. vec_arr gen ! i \<le> epoch)"

definition gens_set :: "u16 Vec \<Rightarrow> u16 \<Rightarrow> u32 set" where
  "gens_set gen epoch = {v. unat v < vec_len gen \<and> vec_arr gen ! unat v = epoch}"

definition gens_reset :: "u16 Vec \<Rightarrow> u16 \<Rightarrow> nat \<Rightarrow> u16 Vec \<times> u16" where
  "gens_reset gen epoch n =
     (case Vec_freshLen 0 gen n of
        (True, gen') \<Rightarrow> (gen', 1)
      | (False, gen') \<Rightarrow> if epoch + 1 = 0 then (Vec_clear 0 gen', 1) else (gen', epoch + 1))"

lemma Vec_clear_simps [simp]:
  "vec_len (Vec_clear z v) = vec_len v"
  "Vec_clean z v \<Longrightarrow> Vec_clean z (Vec_clear z v)"
  "Vec_inv v \<Longrightarrow> i < vec_len v \<Longrightarrow> vec_arr (Vec_clear z v) ! i = z"
  by (auto simp: Vec_clear_def Vec_clean_def Vec_inv_def nth_append vec_s_def)

lemma Vec_fresh_clean: "Vec_clean z \<lparr>vec_arr = replicate n z, vec_len = n\<rparr>"
  by (simp add: Vec_clean_def Vec_inv_def)

text \<open>
  After a reset the set is empty, whatever the epoch was before, and holds room for the
  identifiers below the bound.
\<close>

lemma gens_reset_spec:
  assumes ok: "gens_ok gen epoch" and n: "n + n div 4 < 2 ^ 32"
    and r: "gens_reset gen epoch n = (gen', epoch')"
  shows "gens_ok gen' epoch'" and "epoch' \<noteq> 0" and "gens_set gen' epoch' = {}"
    and "n \<le> vec_len gen'"
proof -
  have clean: "Vec_clean 0 gen" using ok by (simp add: gens_ok_def)
  consider (fresh) "\<not> n \<le> vec_len gen" | (wrap) "n \<le> vec_len gen" "epoch + 1 = 0"
    | (bump) "n \<le> vec_len gen" "epoch + 1 \<noteq> 0" by blast
  then have "gens_ok gen' epoch' \<and> epoch' \<noteq> 0 \<and> gens_set gen' epoch' = {} \<and> n \<le> vec_len gen'"
  proof cases
    case fresh
    then have "gen' = \<lparr>vec_arr = replicate (n + n div 4) 0, vec_len = n + n div 4\<rparr>" "epoch' = 1"
      using r by (auto simp: gens_reset_def Vec_freshLen_def)
    then show ?thesis
      using n by (auto simp: gens_ok_def gens_set_def Vec_fresh_clean)
  next
    case wrap
    then have g: "gen' = Vec_clear 0 gen" "epoch' = 1"
      using r by (auto simp: gens_reset_def Vec_freshLen_def)
    then show ?thesis
      using wrap ok clean by (auto simp: gens_ok_def gens_set_def)
  next
    case bump
    then have g: "gen' = gen" "epoch' = epoch + 1"
      using r by (auto simp: gens_reset_def Vec_freshLen_def)
    have "epoch < epoch + 1"
      using bump(2) by (rule word_less_plus_one(1))
    then have "x < epoch + 1" if "x \<le> epoch" for x using that by (rule le_less_trans [rotated])
    then show ?thesis
      using g bump ok by (force simp: gens_ok_def gens_set_def)
  qed
  then show "gens_ok gen' epoch'" "epoch' \<noteq> 0" "gens_set gen' epoch' = {}" "n \<le> vec_len gen'"
    by simp_all
qed

lemma gens_store:
  assumes "gens_ok gen epoch" and "unat v < vec_len gen"
  shows "gens_ok (Vec_store gen (unat v) epoch) epoch"
    and "gens_set (Vec_store gen (unat v) epoch) epoch = insert v (gens_set gen epoch)"
proof -
  have "vec_len gen \<le> length (vec_arr gen)"
    using assms(1) by (metis Vec_clean_inv Vec_inv_def gens_ok_def)
  then show "gens_ok (Vec_store gen (unat v) epoch) epoch"
    and "gens_set (Vec_store gen (unat v) epoch) epoch = insert v (gens_set gen epoch)"
    using assms by (auto simp: gens_ok_def gens_set_def nth_list_update word_unat_eq_iff [symmetric])
qed

lemma gens_ensure:
  assumes "gens_ok gen epoch" and "n < 2 ^ 32"
  shows "gens_ok (Vec_ensureLen 0 gen n) epoch"
    and "epoch \<noteq> 0 \<Longrightarrow> gens_set (Vec_ensureLen 0 gen n) epoch = gens_set gen epoch"
  using assms Vec_ensureLen_nth [of 0 gen _ n]
  by (auto simp: gens_ok_def gens_set_def split: if_splits)

lemma gens_at: "gens_ok gen epoch \<Longrightarrow> unat v < vec_len gen \<Longrightarrow>
    at_opt (vec_s gen) (unat v) = Some (vec_arr gen ! unat v)"
  using length_vec_s [OF Vec_clean_inv, of 0 gen] by (simp add: gens_ok_def vec_s_nth)

lemma gens_member: "unat v < vec_len gen \<Longrightarrow> v \<in> gens_set gen epoch \<longleftrightarrow> vec_arr gen ! unat v = epoch"
  by (simp add: gens_set_def)

section \<open>IdSet is a set of identifiers\<close>

definition IdSet_inv :: "IdSet \<Rightarrow> bool" where
  "IdSet_inv s \<longleftrightarrow> gens_ok (ids_gen s) (ids_epoch s) \<and> ids_epoch s \<noteq> 0"

abbreviation IdSet_set :: "IdSet \<Rightarrow> u32 set" where
  "IdSet_set s \<equiv> gens_set (ids_gen s) (ids_epoch s)"

definition IdSet_new :: IdSet where
  "IdSet_new = \<lparr>ids_gen = Vec_empty, ids_epoch = 0\<rparr>"

lemma IdSet_has_iff: "gens_ok (ids_gen s) (ids_epoch s) \<Longrightarrow> IdSet_has s v \<longleftrightarrow> v \<in> IdSet_set s"
  by (simp add: IdSet_has_def gens_set_def gens_ok_def word_less_nat_alt ay_word)

lemma IdSet_reset_gens:
  "IdSet_reset s n = (case gens_reset (ids_gen s) (ids_epoch s) (unat n) of
     (gen, epoch) \<Rightarrow> \<lparr>ids_gen = gen, ids_epoch = epoch\<rparr>)"
  by (auto simp: IdSet_reset_def gens_reset_def Let_def split: prod.splits bool.splits)

text \<open>
  A reset empties the set in every state a sequence of resets and additions can reach, also
  at the wrap-around of the epoch.
\<close>

lemma IdSet_reset_spec:
  assumes "gens_ok (ids_gen s) (ids_epoch s)" and "unat n + unat n div 4 < 2 ^ 32"
  shows "IdSet_inv (IdSet_reset s n)" and "IdSet_set (IdSet_reset s n) = {}"
    and "unat n \<le> vec_len (ids_gen (IdSet_reset s n))"
proof -
  obtain gen epoch where g: "gens_reset (ids_gen s) (ids_epoch s) (unat n) = (gen, epoch)" by force
  note spec = gens_reset_spec [OF assms g]
  show "IdSet_inv (IdSet_reset s n)" and "IdSet_set (IdSet_reset s n) = {}"
    and "unat n \<le> vec_len (ids_gen (IdSet_reset s n))"
    using spec by (simp_all add: IdSet_reset_gens g IdSet_inv_def)
qed

lemma IdSet_add_spec:
  assumes "IdSet_inv s" and "unat v + 1 < 2 ^ 32"
  shows "IdSet_inv (IdSet_add s v)" and "IdSet_set (IdSet_add s v) = insert v (IdSet_set s)"
proof -
  have ok: "gens_ok (ids_gen s) (ids_epoch s)" and nz: "ids_epoch s \<noteq> 0"
    using assms(1) by (simp_all add: IdSet_inv_def)
  note e = gens_ensure [OF ok assms(2)]
  have len: "unat v < vec_len (Vec_ensureLen 0 (ids_gen s) (unat v + 1))" by simp
  show "IdSet_inv (IdSet_add s v)" and "IdSet_set (IdSet_add s v) = insert v (IdSet_set s)"
    using gens_store [OF e(1) len] e(2) [OF nz] nz by (simp_all add: IdSet_add_def IdSet_inv_def)
qed

lemma IdSet_new_ok: "gens_ok (ids_gen IdSet_new) (ids_epoch IdSet_new)"
  by (simp add: IdSet_new_def gens_ok_def)

interpretation idset: ident_set IdSet_has IdSet_add "IdSet_reset IdSet_new 0" IdSet_inv
    "\<lambda>v. unat v + 1 < 2 ^ 32"
proof unfold_locales
  show "IdSet_inv (IdSet_reset IdSet_new 0)"
    using IdSet_reset_spec(1) [OF IdSet_new_ok, of 0] by simp
  show "\<not> IdSet_has (IdSet_reset IdSet_new 0) u" for u
    using IdSet_reset_spec(1,2) [OF IdSet_new_ok, of 0] by (simp add: IdSet_has_iff IdSet_inv_def)
qed (use IdSet_add_spec in \<open>auto simp: IdSet_has_iff IdSet_inv_def\<close>)

section \<open>First occurrences\<close>

text \<open>
  The specification of every duplicate-removing loop: keep the first occurrence of each
  element that is not in \<open>S\<close> yet, in order.
\<close>

fun nub_from :: "'a set \<Rightarrow> 'a list \<Rightarrow> 'a list" where
  "nub_from S [] = []"
| "nub_from S (x # xs) = (if x \<in> S then nub_from S xs else x # nub_from (insert x S) xs)"

lemma set_nub_from: "set (nub_from S xs) = set xs - S"
  by (induction xs arbitrary: S) auto

lemma distinct_nub_from: "distinct (nub_from S xs)"
  by (induction xs arbitrary: S) (auto simp: set_nub_from)

lemma nub_from_append: "nub_from S (xs @ ys) = nub_from S xs @ nub_from (S \<union> set xs) ys"
  by (induction xs arbitrary: S) (auto simp: insert_absorb)

lemma length_nub_from: "length (nub_from S xs) \<le> length xs"
  by (induction xs arbitrary: S) (auto intro: le_SucI)

lemma nub_from_eq_self: "distinct xs \<Longrightarrow> set xs \<inter> S = {} \<Longrightarrow> nub_from S xs = xs"
  by (induction xs arbitrary: S) auto

text \<open>The splices write the new identifiers, each once and in order, behind position \<open>k\<close>.\<close>

lemma IdSet_spliceNew_spec:
  assumes "IdSet_inv s" and "\<And>v. v \<in> set win \<Longrightarrow> unat v < vec_len (ids_gen s)"
    and "k + length (nub_from (IdSet_set s) win) \<le> length block"
  shows "\<exists>s'. IdSet_spliceNew s win block k =
      Some (k + length (nub_from (IdSet_set s) win), s',
            take k block @ nub_from (IdSet_set s) win
              @ drop (k + length (nub_from (IdSet_set s) win)) block)
    \<and> IdSet_inv s' \<and> IdSet_set s' = IdSet_set s \<union> set win
    \<and> vec_len (ids_gen s') = vec_len (ids_gen s)"
  using assms
proof (induction win arbitrary: s block k)
  case Nil
  then show ?case by simp
next
  case (Cons v win)
  have ok: "gens_ok (ids_gen s) (ids_epoch s)" and v: "unat v < vec_len (ids_gen s)"
    using Cons.prems(1,2) by (simp_all add: IdSet_inv_def)
  show ?case
  proof (cases "v \<in> IdSet_set s")
    case True
    then have "vec_arr (ids_gen s) ! unat v = ids_epoch s" using gens_member [OF v] by blast
    then show ?thesis
      using Cons.IH [of s k block] Cons.prems True gens_at [OF ok v] by (auto simp: insert_absorb)
  next
    case False
    let ?s = "s\<lparr>ids_gen := Vec_store (ids_gen s) (unat v) (ids_epoch s)\<rparr>" and ?b = "block[k := v]"
    have ne: "vec_arr (ids_gen s) ! unat v \<noteq> ids_epoch s" using False gens_member [OF v] by blast
    have k: "k < length block" using Cons.prems(3) False by simp
    have inv: "IdSet_inv ?s" and set: "IdSet_set ?s = insert v (IdSet_set s)"
      using gens_store [OF ok v] Cons.prems(1) by (simp_all add: IdSet_inv_def)
    have tk: "take (Suc k) ?b = take k block @ [v]" using k by (simp add: take_Suc_conv_app_nth)
    have step: "IdSet_spliceNew s (v # win) block k = IdSet_spliceNew ?s win ?b (Suc k)"
      using gens_at [OF ok v] ne k by simp
    show ?thesis
      unfolding step
      using Cons.IH [OF inv, of "Suc k" ?b] Cons.prems(2,3) False set tk by auto
  qed
qed

section \<open>Marking loops\<close>

text \<open>
  The interface the duplicate-removing loops use: \<open>mark\<close> reports whether an identifier is new
  and records it. Identifiers below \<open>bound\<close> are the ones the structure has a cell for.
\<close>

locale seen_set =
  fixes mark :: "'s \<Rightarrow> u32 \<Rightarrow> (bool \<times> 's) option"
    and seen :: "'s \<Rightarrow> u32 set"
    and inv :: "'s \<Rightarrow> bool"
    and bound :: "'s \<Rightarrow> nat"
  assumes mark_spec: "inv s \<Longrightarrow> unat v < bound s \<Longrightarrow>
    \<exists>s'. mark s v = Some (v \<notin> seen s, s') \<and> inv s' \<and> seen s' = insert v (seen s) \<and> bound s' = bound s"
begin

lemma mark_cases:
  assumes "inv s" and "unat v < bound s"
  obtains s' where "mark s v = Some (v \<notin> seen s, s')" "inv s'" "seen s' = insert v (seen s)"
    "bound s' = bound s"
  using mark_spec [OF assms] by blast

end

definition DeDuper_inv :: "DeDuper \<Rightarrow> bool" where
  "DeDuper_inv dd \<longleftrightarrow> gens_ok (dd_gen dd) (dd_epoch dd) \<and> dd_epoch dd \<noteq> 0"

abbreviation DeDuper_set :: "DeDuper \<Rightarrow> u32 set" where
  "DeDuper_set dd \<equiv> gens_set (dd_gen dd) (dd_epoch dd)"

abbreviation DeDuper_bound :: "DeDuper \<Rightarrow> nat" where
  "DeDuper_bound dd \<equiv> vec_len (dd_gen dd)"

interpretation deduper: seen_set DeDuper_addStable DeDuper_set DeDuper_inv DeDuper_bound
proof unfold_locales
  fix dd and v :: u32
  assume inv: "DeDuper_inv dd" and v: "unat v < vec_len (dd_gen dd)"
  have ok: "gens_ok (dd_gen dd) (dd_epoch dd)" and nz: "dd_epoch dd \<noteq> 0"
    using inv by (simp_all add: DeDuper_inv_def)
  let ?dd = "if v \<in> DeDuper_set dd then dd
    else dd\<lparr>dd_gen := Vec_store (dd_gen dd) (unat v) (dd_epoch dd)\<rparr>"
  have "DeDuper_addStable dd v = Some (v \<notin> DeDuper_set dd, ?dd)"
    using gens_at [OF ok v] gens_member [OF v] by (simp add: DeDuper_addStable_def)
  moreover have "DeDuper_inv ?dd" "DeDuper_set ?dd = insert v (DeDuper_set dd)"
    "vec_len (dd_gen ?dd) = vec_len (dd_gen dd)"
    using gens_store [OF ok v] inv nz by (auto simp: DeDuper_inv_def insert_absorb)
  ultimately show "\<exists>s'. DeDuper_addStable dd v = Some (v \<notin> DeDuper_set dd, s') \<and> DeDuper_inv s'
      \<and> DeDuper_set s' = insert v (DeDuper_set dd) \<and> vec_len (dd_gen s') = vec_len (dd_gen dd)"
    by blast
qed

lemma DeDuper_reset_gens:
  "DeDuper_reset n dd = (case gens_reset (dd_gen dd) (dd_epoch dd) (unat n) of
     (gen, epoch) \<Rightarrow> \<lparr>dd_gen = gen, dd_epoch = epoch\<rparr>)"
  by (auto simp: DeDuper_reset_def gens_reset_def Let_def split: prod.splits bool.splits)

lemma DeDuper_reset_spec:
  assumes "gens_ok (dd_gen dd) (dd_epoch dd)" and "unat n + unat n div 4 < 2 ^ 32"
  shows "DeDuper_inv (DeDuper_reset n dd)" and "DeDuper_set (DeDuper_reset n dd) = {}"
    and "unat n \<le> DeDuper_bound (DeDuper_reset n dd)"
proof -
  obtain gen epoch where g: "gens_reset (dd_gen dd) (dd_epoch dd) (unat n) = (gen, epoch)" by force
  note spec = gens_reset_spec [OF assms g]
  show "DeDuper_inv (DeDuper_reset n dd)" and "DeDuper_set (DeDuper_reset n dd) = {}"
    and "unat n \<le> DeDuper_bound (DeDuper_reset n dd)"
    using spec by (simp_all add: DeDuper_reset_gens g DeDuper_inv_def)
qed

text \<open>\<^verbatim>\<open>add\<close> makes room first, so it accepts every identifier.\<close>

lemma DeDuper_add_spec:
  assumes inv: "DeDuper_inv dd" and v: "unat v + 1 < 2 ^ 32"
  shows "\<exists>dd'. DeDuper_add dd v = Some (v \<notin> DeDuper_set dd, dd') \<and> DeDuper_inv dd'
    \<and> DeDuper_set dd' = insert v (DeDuper_set dd)"
proof -
  define d where "d = (if vec_len (dd_gen dd) \<le> unat v then DeDuper_grow dd v else dd)"
  have "gens_ok (dd_gen dd) (dd_epoch dd)" "dd_epoch dd \<noteq> 0" using inv by (simp_all add: DeDuper_inv_def)
  then have "DeDuper_inv d" "DeDuper_set d = DeDuper_set dd" "unat v < DeDuper_bound d"
    using gens_ensure [of "dd_gen dd" "dd_epoch dd" "unat v + 1"] v
    by (auto simp: d_def DeDuper_grow_def DeDuper_inv_def)
  moreover have "DeDuper_add dd v = DeDuper_addStable d v" by (simp add: DeDuper_add_def d_def)
  ultimately show ?thesis using deduper.mark_spec [of d v] by metis
qed

lemma dedup_append_spec:
  assumes "DeDuper_inv dd" and "\<And>v. v \<in> set xs \<Longrightarrow> unat v < DeDuper_bound dd"
  shows "\<exists>dd'. dedup_append dd out xs = Some (dd', out @ nub_from (DeDuper_set dd) xs)
    \<and> DeDuper_inv dd' \<and> DeDuper_set dd' = DeDuper_set dd \<union> set xs
    \<and> DeDuper_bound dd' = DeDuper_bound dd"
  using assms
proof (induction xs arbitrary: dd out)
  case (Cons x xs)
  obtain dd1 where m: "DeDuper_addStable dd x = Some (x \<notin> DeDuper_set dd, dd1)" "DeDuper_inv dd1"
      "DeDuper_set dd1 = insert x (DeDuper_set dd)" "DeDuper_bound dd1 = DeDuper_bound dd"
    using deduper.mark_cases [of dd x] Cons.prems by auto
  show ?case
  proof (cases "x \<in> DeDuper_set dd")
    case True
    then show ?thesis using m Cons.IH [of dd1 out] Cons.prems by (auto simp: insert_absorb)
  next
    case False
    then show ?thesis using m Cons.IH [of dd1 "out @ [x]"] Cons.prems by auto
  qed
qed simp

lemma dedup_lists_spec:
  assumes "DeDuper_inv dd" and "\<And>v. v \<in> set (concat ls) \<Longrightarrow> unat v < DeDuper_bound dd"
  shows "\<exists>dd'. dedup_lists dd out ls = Some (dd', out @ nub_from (DeDuper_set dd) (concat ls))
    \<and> DeDuper_inv dd'"
  using assms
proof (induction ls arbitrary: dd out)
  case (Cons l ls)
  obtain dd1 where a: "dedup_append dd out l = Some (dd1, out @ nub_from (DeDuper_set dd) l)"
      "DeDuper_inv dd1" "DeDuper_set dd1 = DeDuper_set dd \<union> set l" "DeDuper_bound dd1 = DeDuper_bound dd"
    using dedup_append_spec [of dd l out] Cons.prems by auto
  then show ?case
    using Cons.IH [of dd1 "out @ nub_from (DeDuper_set dd) l"] Cons.prems by (auto simp: nub_from_append)
qed simp

text \<open>
  The in-place variant reads and writes the same array: the write position never overtakes the
  read position, so no element is overwritten before it is read.
\<close>

lemma dedup_inPlace_loop_spec:
  assumes "DeDuper_inv dd" and "\<And>v. v \<in> set (drop i arr) \<Longrightarrow> unat v < DeDuper_bound dd"
    and "k \<le> i" and "i \<le> length arr"
  shows "\<exists>dd' arr'. dedup_inPlace_loop dd arr i k
      = Some (dd', arr', k + length (nub_from (DeDuper_set dd) (drop i arr)))
    \<and> DeDuper_inv dd' \<and> length arr' = length arr
    \<and> take (k + length (nub_from (DeDuper_set dd) (drop i arr))) arr'
      = take k arr @ nub_from (DeDuper_set dd) (drop i arr)"
  using assms
proof (induction dd arr i k rule: dedup_inPlace_loop.induct)
  case (1 dd arr i k)
  show ?case
  proof (cases "i < length arr")
    case False
    then have "dedup_inPlace_loop dd arr i k = Some (dd, arr, k)"
      by (simp add: dedup_inPlace_loop.simps [of dd arr i])
    then show ?thesis using False 1(3) by simp
  next
    case True
    let ?x = "arr ! i"
    have d: "drop i arr = ?x # drop (Suc i) arr" using True by (simp add: Cons_nth_drop_Suc)
    then have "unat ?x < DeDuper_bound dd" using 1(4) by simp
    then obtain dd1 where m: "DeDuper_addStable dd ?x = Some (?x \<notin> DeDuper_set dd, dd1)"
        "DeDuper_inv dd1" "DeDuper_set dd1 = insert ?x (DeDuper_set dd)"
        "DeDuper_bound dd1 = DeDuper_bound dd"
      using deduper.mark_cases [of dd ?x] 1(3) by auto
    have b: "unat v < DeDuper_bound dd1" if "v \<in> set (drop (Suc i) arr)" for v
      using 1(4) [of v] that d m(4) by simp
    show ?thesis
    proof (cases "?x \<in> DeDuper_set dd")
      case seen: True
      then have "dedup_inPlace_loop dd arr i k = dedup_inPlace_loop dd1 arr (i + 1) k"
        using True m(1) by (simp add: dedup_inPlace_loop.simps [of dd arr i])
      then show ?thesis
        using 1(2) [OF True m(1)] seen m b 1(5,6) True d by (auto simp: insert_absorb)
    next
      case False
      let ?a = "arr[k := ?x]"
      have step: "dedup_inPlace_loop dd arr i k = dedup_inPlace_loop dd1 ?a (i + 1) (k + 1)"
        using True m(1) False by (simp add: dedup_inPlace_loop.simps [of dd arr i])
      have keep: "drop (Suc i) ?a = drop (Suc i) arr" using 1(5) by (simp add: drop_update_cancel)
      have tk: "take (Suc k) ?a = take k arr @ [?x]"
        using 1(5) True by (simp add: take_Suc_conv_app_nth)
      show ?thesis
        using 1(1) [OF True m(1)] False m b 1(5,6) True d keep tk step by auto
    qed
  qed
qed

lemma dedupInPlaceWith_spec:
  assumes "gens_ok (dd_gen dd) (dd_epoch dd)" and "unat bound + unat bound div 4 < 2 ^ 32"
    and "\<And>v. v \<in> set xs \<Longrightarrow> v < bound"
  shows "\<exists>dd'. dedupInPlaceWith bound dd xs = Some (dd', nub_from {} xs) \<and> DeDuper_inv dd'"
proof -
  note r = DeDuper_reset_spec [OF assms(1,2)]
  have "unat v < DeDuper_bound (DeDuper_reset bound dd)" if "v \<in> set xs" for v
    using assms(3) [OF that] r(3) by (simp add: word_less_nat_alt)
  then show ?thesis
    using dedup_inPlace_loop_spec [OF r(1), of 0 xs 0] r(2)
    by (auto simp: dedupInPlaceWith_def)
qed

section \<open>The pool\<close>

text \<open>
  A use of the pool at rest: the borrower gets an empty set and the pool is at rest again
  afterwards. A second borrow while the first is out is a failed assertion.
\<close>

definition DeDuperPool_inv :: "DeDuperPool \<Rightarrow> bool" where
  "DeDuperPool_inv p \<longleftrightarrow> gens_ok (dd_gen (pool_deduper p)) (dd_epoch (pool_deduper p)) \<and> \<not> pool_live p"

definition DeDuperPool_new :: DeDuperPool where
  "DeDuperPool_new = \<lparr>pool_deduper = \<lparr>dd_gen = Vec_empty, dd_epoch = 0\<rparr>, pool_live = False\<rparr>"

lemma DeDuperPool_new_inv: "DeDuperPool_inv DeDuperPool_new"
  by (simp add: DeDuperPool_inv_def DeDuperPool_new_def gens_ok_def)

lemma DeDuperPool_with_spec:
  assumes "DeDuperPool_inv p" and "unat bound + unat bound div 4 < 2 ^ 32"
    and "\<And>dd. DeDuper_inv dd \<Longrightarrow> DeDuper_set dd = {} \<Longrightarrow> unat bound \<le> DeDuper_bound dd \<Longrightarrow>
      \<exists>dd'. f dd = Some (dd', r) \<and> DeDuper_inv dd'"
  shows "\<exists>p'. DeDuperPool_with bound p f = Some (r, p') \<and> DeDuperPool_inv p'"
proof -
  have ok: "gens_ok (dd_gen (pool_deduper p)) (dd_epoch (pool_deduper p))" and live: "\<not> pool_live p"
    using assms(1) by (simp_all add: DeDuperPool_inv_def)
  obtain dd where "f (DeDuper_reset bound (pool_deduper p)) = Some (dd, r)" "DeDuper_inv dd"
    using assms(3) [OF DeDuper_reset_spec [OF ok assms(2)]] by blast
  then show ?thesis
    using live by (simp add: DeDuperPool_with_def DeDuperPool_get_def DeDuperPool_put_def
        DeDuperPool_inv_def DeDuper_inv_def Let_def)
qed

text \<open>
  C27: \<^verbatim>\<open>dedup\<close> returns the first occurrence of every identifier of the lists, in order, and
  leaves the pool at rest, for all identifiers below the bound the pool is sized by.
\<close>

theorem dedup_correct:
  assumes "DeDuperPool_inv p" and "unat bound + unat bound div 4 < 2 ^ 32"
    and "\<forall>v \<in> set (concat ls). v < bound"
  shows "\<exists>p'. dedup bound p ls = Some (nub_from {} (concat ls), p') \<and> DeDuperPool_inv p'"
proof (cases "sum_list (map length ls) = 0")
  case True
  then have "nub_from {} (concat ls) = []" by (metis concat_eq_Nil_conv length_0_conv member_le_sum_list
        length_map le_zero_eq length_concat nub_from.simps(1))
  then show ?thesis unfolding dedup_def using True assms(1) by simp
next
  case False
  have "\<exists>dd'. dedup_lists dd [] ls = Some (dd', nub_from {} (concat ls)) \<and> DeDuper_inv dd'"
    if "DeDuper_inv dd" "DeDuper_set dd = {}" "unat bound \<le> DeDuper_bound dd" for dd
    using dedup_lists_spec [OF that(1), of ls "[]"] that assms(3)
    by (fastforce simp: word_less_nat_alt)
  then show ?thesis
    unfolding dedup_def if_not_P [OF False] by (rule DeDuperPool_with_spec [OF assms(1,2)])
qed

theorem dedup_correct_witness:
  "\<exists>p'. dedup 8 DeDuperPool_new [[3, 5], [5, 3, 7]] = Some ([3, 5, 7], p') \<and> DeDuperPool_inv p'"
  using dedup_correct [OF DeDuperPool_new_inv, of 8 "[[3, 5], [5, 3, 7]]"] by simp

text \<open>
  \<^verbatim>\<open>dedupInPlace\<close>, which compacts the caller's array while it reads it, computes the same
  list.
\<close>

theorem dedupInPlace_correct:
  assumes "DeDuperPool_inv p" and "unat bound + unat bound div 4 < 2 ^ 32"
    and "\<forall>v \<in> set xs. v < bound"
  shows "\<exists>p'. dedupInPlace bound p xs = Some (nub_from {} xs, p') \<and> DeDuperPool_inv p'"
  unfolding dedupInPlace_def
  using dedupInPlaceWith_spec [OF _ assms(2), of _ xs] assms(3)
  by (intro DeDuperPool_with_spec [OF assms(1,2)]) (auto simp: DeDuper_inv_def)

theorem dedupInPlace_correct_witness:
  "\<exists>p'. dedupInPlace 8 DeDuperPool_new [3, 5, 5, 3, 7] = Some ([3, 5, 7], p') \<and> DeDuperPool_inv p'"
  using dedupInPlace_correct [OF DeDuperPool_new_inv, of 8 "[3, 5, 5, 3, 7]"] by simp

text \<open>
  \<^verbatim>\<open>dedupInto\<close> appends to the list it is given the first occurrences of the identifiers of
  the lists; what the list held before is not looked at.
\<close>

theorem dedupInto_correct:
  assumes "DeDuperPool_inv p" and "unat bound + unat bound div 4 < 2 ^ 32"
    and "\<forall>v \<in> set (concat ls). v < bound"
  shows "\<exists>p'. dedupInto bound p out ls = Some (out @ nub_from {} (concat ls), p') \<and> DeDuperPool_inv p'"
proof -
  have "\<exists>dd'. dedup_lists dd out ls = Some (dd', out @ nub_from {} (concat ls)) \<and> DeDuper_inv dd'"
    if "DeDuper_inv dd" "DeDuper_set dd = {}" "unat bound \<le> DeDuper_bound dd" for dd
    using dedup_lists_spec [OF that(1), of ls out] that assms(3)
    by (fastforce simp: word_less_nat_alt)
  then show ?thesis
    unfolding dedupInto_def by (rule DeDuperPool_with_spec [OF assms(1,2)])
qed

theorem dedupInto_correct_witness:
  "\<exists>p'. dedupInto 8 DeDuperPool_new [3] [[3, 5], [5]] = Some ([3, 3, 5], p') \<and> DeDuperPool_inv p'"
  using dedupInto_correct [OF DeDuperPool_new_inv, of 8 "[[3, 5], [5]]" "[3]"] by simp

lemma DeDuperPool_borrowed_twice:
  "DeDuperPool_get bound p = Some (dd, p') \<Longrightarrow> DeDuperPool_get bound' p' = None"
  by (auto simp: DeDuperPool_get_def Let_def split: if_splits)

text \<open>
  An \<^verbatim>\<open>IdSet\<close> is empty after \<^verbatim>\<open>reset\<close>, whatever the epoch counter was before, at its
  wrap-around too: the invariant that makes the next epoch fresh is kept, and there is a cell
  for every identifier below the size.
\<close>

theorem IdSet_reset_empties:
  assumes "IdSet_inv s" and "unat n + unat n div 4 < 2 ^ 32"
  shows "IdSet_inv (IdSet_reset s n) \<and> \<not> IdSet_has (IdSet_reset s n) v
    \<and> unat n \<le> vec_len (ids_gen (IdSet_reset s n))"
  using IdSet_reset_spec [of s n] assms by (simp add: IdSet_inv_def IdSet_has_iff)

theorem IdSet_reset_empties_witness:
  "\<not> IdSet_has (IdSet_reset \<lparr>ids_gen = \<lparr>vec_arr = [0xFFFF], vec_len = 1\<rparr>, ids_epoch = 0xFFFF\<rparr> 1) 0"
  using IdSet_reset_empties
    [of "\<lparr>ids_gen = \<lparr>vec_arr = [0xFFFF], vec_len = 1\<rparr>, ids_epoch = 0xFFFF\<rparr>" 1 0]
  by (simp add: IdSet_inv_def gens_ok_def Vec_clean_def Vec_inv_def)

text \<open>
  \<^verbatim>\<open>spliceNew\<close> writes into the block, from position \<open>k\<close> on, exactly the identifiers of the
  window that were not in the set, each once and in order, leaves the rest of the block alone,
  and adds the window to the set.
\<close>

theorem IdSet_spliceNew_correct:
  assumes "IdSet_inv s" and "\<forall>v \<in> set win. unat v < vec_len (ids_gen s)"
    and "new = filter (\<lambda>v. \<not> IdSet_has s v) (nub_from {} win)" and "k + length new \<le> length block"
  shows "\<exists>s'. IdSet_spliceNew s win block k
      = Some (k + length new, s', take k block @ new @ drop (k + length new) block)
    \<and> IdSet_inv s' \<and> (\<forall>u. IdSet_has s' u \<longleftrightarrow> IdSet_has s u \<or> u \<in> set win)"
proof -
  have gen: "filter (\<lambda>v. v \<notin> S) (nub_from T xs) = nub_from (S \<union> T) xs" for S T and xs :: "u32 list"
    by (induction xs arbitrary: T) (auto simp: insert_absorb)
  have "new = nub_from (IdSet_set s) win"
    using assms(1,3) gen [of "IdSet_set s" "{}" win] by (simp add: IdSet_has_iff IdSet_inv_def)
  then show ?thesis
    using IdSet_spliceNew_spec [OF assms(1), of win k block] assms(1,2,4)
    by (fastforce simp: IdSet_has_iff IdSet_inv_def)
qed

theorem IdSet_spliceNew_correct_witness:
  "\<exists>s'. IdSet_spliceNew (IdSet_reset IdSet_new 8) [3, 5, 3] [0, 0, 0, 0] 1 = Some (3, s', [0, 3, 5, 0])"
proof -
  let ?s = "IdSet_reset IdSet_new 8"
  have inv: "IdSet_inv ?s" and len: "8 \<le> vec_len (ids_gen ?s)" and none: "\<not> IdSet_has ?s v" for v
    using IdSet_reset_spec [OF IdSet_new_ok, of 8] by (simp_all add: IdSet_has_iff IdSet_inv_def)
  show ?thesis
    using IdSet_spliceNew_correct [OF inv, of "[3, 5, 3]" "[3, 5]" 1 "[0, 0, 0, 0]"] len none by auto
qed

end
