(* ===== verification/Ay_Page.thy ===== *)
theory Ay_Page
  imports Ay_Mix
begin

text \<open>
  The paged vector \<^verbatim>\<open>PageVec\<close> of \<^verbatim>\<open>page_vec.go\<close>: thirty-two pages, page \<open>p\<close> of \<open>2 ^ p\<close> cells, allocated
  when one of their cells is first written, so that a cell never moves and readers of other
  threads need no lock. The tables of interned strings and of variable names are paged vectors.

  A page is \<open>None\<close> until it is allocated. A pointer to a cell is the pair of its page and its
  offset. An access outside the array of pages is a panic; an access outside a page, made through
  \<^verbatim>\<open>unsafeAt\<close>, would be an access to foreign memory: both are \<open>None\<close>.
\<close>

section \<open>Pages\<close>

text \<open>\<^verbatim>\<open>bits.Len64\<close>: the number of bits of the binary form, 0 for 0.\<close>

fun bit_len :: "nat \<Rightarrow> nat" where
  "bit_len n = (if n = 0 then 0 else Suc (bit_len (n div 2)))"

declare bit_len.simps [simp del]

definition Len64 :: "u64 \<Rightarrow> nat" where
  "Len64 n = bit_len (unat n)"

definition pageOffset :: "u32 \<Rightarrow> nat \<times> nat" where
  "pageOffset i =
     (let n = ucast i + 1 :: u64;
          p = Len64 n - 1
      in (p, unat (n - push_bit p 1)))"

record 'a PageVec =
  pv_pages :: "'a list option list"

definition PageVec_zero :: "'a PageVec" where
  "PageVec_zero = \<lparr>pv_pages = replicate 32 None\<rparr>"

definition PageVec_set :: "'a \<Rightarrow> 'a PageVec \<Rightarrow> u32 \<Rightarrow> 'a \<Rightarrow> 'a PageVec option" where
  "PageVec_set z v i x =
     (let (p, off) = pageOffset i
      in case at_opt (pv_pages v) p of
           None \<Rightarrow> None
         | Some (Some page) \<Rightarrow>
             map_option (\<lambda>page. v\<lparr>pv_pages := (pv_pages v)[p := Some page]\<rparr>) (set_opt page off x)
         | Some None \<Rightarrow>
             map_option (\<lambda>page. v\<lparr>pv_pages := (pv_pages v)[p := Some page]\<rparr>)
               (set_opt (replicate (2 ^ p) z) off x))"

definition PageVec_at :: "'a \<Rightarrow> 'a PageVec \<Rightarrow> u32 \<Rightarrow> ((nat \<times> nat) \<times> 'a PageVec) option" where
  "PageVec_at z v i =
     (let (p, off) = pageOffset i
      in case at_opt (pv_pages v) p of
           None \<Rightarrow> None
         | Some (Some page) \<Rightarrow> if off < length page then Some ((p, off), v) else None
         | Some None \<Rightarrow>
             if off < 2 ^ p
             then Some ((p, off), v\<lparr>pv_pages := (pv_pages v)[p := Some (replicate (2 ^ p) z)]\<rparr>)
             else None)"

definition PageVec_get :: "'a PageVec \<Rightarrow> u32 \<Rightarrow> 'a option" where
  "PageVec_get v i =
     (let (p, off) = pageOffset i
      in case at_opt (pv_pages v) p of
           None \<Rightarrow> None
         | Some None \<Rightarrow> None
         | Some (Some page) \<Rightarrow> at_opt page off)"

definition PageVec_getSafe :: "'a \<Rightarrow> 'a PageVec \<Rightarrow> u32 \<Rightarrow> 'a option" where
  "PageVec_getSafe z v i =
     (let (p, off) = pageOffset i
      in case at_opt (pv_pages v) p of
           None \<Rightarrow> None
         | Some None \<Rightarrow> Some z
         | Some (Some page) \<Rightarrow> at_opt page off)"

section \<open>Pages and offsets\<close>

lemma bit_len_0 [simp]: "bit_len 0 = 0"
  by (simp add: bit_len.simps)

lemma bit_len_pos: "0 < n \<Longrightarrow> 2 ^ (bit_len n - 1) \<le> n \<and> n < 2 ^ bit_len n \<and> 0 < bit_len n"
proof (induction n rule: bit_len.induct)
  case (1 n)
  show ?case
  proof (cases "n div 2 = 0")
    case True
    then have "n = 1" using 1(2) by auto
    then show ?thesis by (simp add: bit_len.simps)
  next
    case False
    let ?b = "bit_len (n div 2)"
    have IH: "2 ^ (?b - 1) \<le> n div 2" "n div 2 < 2 ^ ?b" "0 < ?b"
      using 1 False by auto
    have b: "bit_len n = Suc ?b" using 1(2) by (simp add: bit_len.simps [of n])
    have half: "(2 :: nat) ^ ?b = 2 * 2 ^ (?b - 1)" using IH(3) by (metis Suc_pred' power_Suc)
    have "2 ^ ?b \<le> n" using half IH(1) by linarith
    moreover have "n < 2 * 2 ^ ?b" using IH(2) by linarith
    ultimately show ?thesis by (simp add: b)
  qed
qed

lemma bit_len_eqI:
  assumes "2 ^ p \<le> n" and "n < 2 ^ Suc p"
  shows "bit_len n = Suc p"
proof -
  have "0 < n" using assms(1) by (metis gr0I not_less zero_less_numeral zero_less_power)
  note b = bit_len_pos [OF this]
  have "(2 :: nat) ^ p < 2 ^ bit_len n" using b assms(1) by linarith
  then have "p < bit_len n" by simp
  moreover have "(2 :: nat) ^ (bit_len n - 1) < 2 ^ Suc p" using b assms(2) by linarith
  then have "bit_len n - 1 < Suc p" by (rule power_less_imp_less_exp [rotated]) simp
  ultimately show ?thesis by linarith
qed

lemma unat_ucast_plus_one: "unat (ucast (i :: u32) + 1 :: u64) = unat i + 1"
  using unat_u32_less [of i] by (simp add: unat_word_ariths)

lemma pageOffset_eq:
  assumes "pageOffset i = (p, off)"
  shows "unat i + 1 = 2 ^ p + off" and "off < 2 ^ p" and "p \<le> 32"
proof -
  let ?n = "ucast i + 1 :: u64"
  have un: "unat ?n = unat i + 1" by (rule unat_ucast_plus_one)
  have p: "p = bit_len (unat i + 1) - 1" and off: "off = unat (?n - 2 ^ p)"
    using assms by (auto simp: pageOffset_def Let_def Len64_def un)
  have b: "2 ^ p \<le> unat i + 1" "unat i + 1 < 2 ^ Suc p"
    using bit_len_pos [of "unat i + 1"] p by auto
  have "(2 :: nat) ^ p < 2 ^ 33" using b unat_u32_less [of i] by simp
  then have "p < 33" by (rule power_less_imp_less_exp [rotated]) simp
  then show p32: "p \<le> 32" by simp
  have "(2 :: nat) ^ p < 2 ^ 64" using p32 by (intro power_strict_increasing) auto
  then have u1: "unat (2 ^ p :: u64) = 2 ^ p"
    using unat_of_nat_less [of "2 ^ p", where 'a = 64] by simp
  have "2 ^ p \<le> ?n" using b(1) by (simp add: word_le_nat_alt u1 un)
  then have "off = unat i + 1 - 2 ^ p" using off by (simp add: unat_sub u1 un)
  then show "unat i + 1 = 2 ^ p + off" "off < 2 ^ p" using b by auto
qed

lemma pageOffset_inj: "pageOffset i = pageOffset j \<Longrightarrow> i = j"
  by (metis pageOffset_eq(1) surj_pair word_unat_eq_iff add_right_imp_eq)

lemma pageOffset_of:
  assumes "unat i + 1 = 2 ^ p + off" and "off < 2 ^ p"
  shows "pageOffset i = (p, off)"
proof -
  obtain q o' where q: "pageOffset i = (q, o')" by fastforce
  have "bit_len (unat i + 1) = Suc p" using assms by (intro bit_len_eqI) auto
  moreover have "bit_len (unat i + 1) = Suc q" using pageOffset_eq [OF q] by (intro bit_len_eqI) auto
  ultimately have "q = p" by simp
  then show ?thesis using pageOffset_eq(1) [OF q] assms(1) q by simp
qed

lemma pageOffset_page: "fst (pageOffset i) < 32 \<longleftrightarrow> unat i \<noteq> 2 ^ 32 - 1"
proof -
  obtain p off where po: "pageOffset i = (p, off)" by fastforce
  note e = pageOffset_eq [OF po]
  show ?thesis
  proof (cases "p = 32")
    case True
    then have "unat i = 2 ^ 32 - 1" using e(1) unat_u32_less [of i] by simp
    then show ?thesis using True po by simp
  next
    case False
    then have "p < 32" using e(3) by simp
    then have "(2 :: nat) ^ Suc p \<le> 2 ^ 32" by (intro power_increasing) auto
    then have "unat i + 1 < 2 ^ 32" using e(1,2) by simp
    then show ?thesis using \<open>p < 32\<close> po by simp
  qed
qed

section \<open>The vector as a map\<close>

text \<open>
  A paged vector is well formed when it has thirty-two pages, each allocated page of its size. It
  stands for a total map from identifiers to values: a cell that was never written holds the zero
  value.
\<close>

definition PageVec_inv :: "'a PageVec \<Rightarrow> bool" where
  "PageVec_inv v \<longleftrightarrow> length (pv_pages v) = 32 \<and>
     (\<forall>p < 32. case pv_pages v ! p of None \<Rightarrow> True | Some page \<Rightarrow> length page = 2 ^ p)"

definition PageVec_map :: "'a \<Rightarrow> 'a PageVec \<Rightarrow> u32 \<Rightarrow> 'a" where
  "PageVec_map z v i =
     (let (p, off) = pageOffset i
      in case pv_pages v ! p of None \<Rightarrow> z | Some page \<Rightarrow> page ! off)"

definition PageVec_alive :: "'a PageVec \<Rightarrow> u32 \<Rightarrow> bool" where
  "PageVec_alive v i \<longleftrightarrow> pv_pages v ! fst (pageOffset i) \<noteq> None"

lemma PageVec_zero_inv [simp]: "PageVec_inv PageVec_zero"
  by (simp add: PageVec_inv_def PageVec_zero_def)

lemma PageVec_inv_page:
  "PageVec_inv v \<Longrightarrow> p < 32 \<Longrightarrow> pv_pages v ! p = Some page \<Longrightarrow> length page = 2 ^ p"
  by (force simp: PageVec_inv_def)

lemma PageVec_inv_update:
  "PageVec_inv v \<Longrightarrow> length page = 2 ^ p \<Longrightarrow>
   PageVec_inv (v\<lparr>pv_pages := (pv_pages v)[p := Some page]\<rparr>)"
  by (cases "p < 32") (auto simp: PageVec_inv_def nth_list_update split: if_splits)

lemma PageVec_getSafe_map:
  assumes "PageVec_inv v" and "unat i \<noteq> 2 ^ 32 - 1"
  shows "PageVec_getSafe z v i = Some (PageVec_map z v i)"
proof -
  obtain p off where po: "pageOffset i = (p, off)" by fastforce
  have "p < 32" using pageOffset_page [of i] po assms(2) by simp
  then show ?thesis
    using assms(1) pageOffset_eq(2) [OF po] PageVec_inv_page [OF assms(1), of p]
    by (auto simp: PageVec_getSafe_def PageVec_map_def po PageVec_inv_def split: option.splits)
qed

lemma PageVec_get_map:
  assumes "PageVec_inv v" and "unat i \<noteq> 2 ^ 32 - 1"
  shows "PageVec_get v i = (if PageVec_alive v i then Some (PageVec_map z v i) else None)"
  using PageVec_getSafe_map [OF assms, of z]
  by (auto simp: PageVec_get_def PageVec_getSafe_def PageVec_map_def PageVec_alive_def Let_def
      split: prod.splits option.splits)

lemma PageVec_set_map:
  assumes inv: "PageVec_inv v" and i: "unat i \<noteq> 2 ^ 32 - 1"
  obtains v' where "PageVec_set z v i x = Some v'" and "PageVec_inv v'"
    and "PageVec_map z v' = (PageVec_map z v)(i := x)"
    and "PageVec_alive v' i" and "\<And>j. PageVec_alive v j \<Longrightarrow> PageVec_alive v' j"
proof -
  obtain p off where po: "pageOffset i = (p, off)" by fastforce
  have p: "p < 32" using pageOffset_page [of i] po i by simp
  have off: "off < 2 ^ p" using pageOffset_eq(2) [OF po] .
  have len: "length (pv_pages v) = 32" using inv by (simp add: PageVec_inv_def)
  define page where
    "page = (case pv_pages v ! p of None \<Rightarrow> replicate (2 ^ p) z | Some page \<Rightarrow> page)"
  define v' where "v' = v\<lparr>pv_pages := (pv_pages v)[p := Some (page[off := x])]\<rparr>"
  have lp: "length page = 2 ^ p"
    using PageVec_inv_page [OF inv p] by (auto simp: page_def split: option.splits)
  have 1: "PageVec_set z v i x = Some v'"
    using p off len lp by (auto simp: PageVec_set_def po v'_def page_def split: option.splits)
  have 2: "PageVec_inv v'" unfolding v'_def using inv lp by (intro PageVec_inv_update) auto
  have 3: "PageVec_map z v' = (PageVec_map z v)(i := x)"
  proof
    fix j
    obtain q off' where qo: "pageOffset j = (q, off')" by fastforce
    have ne: "(q, off') = (p, off) \<longleftrightarrow> j = i" using pageOffset_inj [of j i] po qo by auto
    show "PageVec_map z v' j = ((PageVec_map z v)(i := x)) j"
    proof (cases "q = p")
      case True
      then have "off' < 2 ^ p" using pageOffset_eq(2) [OF qo] by simp
      then show ?thesis using ne True p len lp off
        by (auto simp: PageVec_map_def qo v'_def page_def nth_list_update split: option.splits)
    next
      case False
      then show ?thesis using ne by (auto simp: PageVec_map_def qo v'_def)
    qed
  qed
  have 4: "PageVec_alive v' i" using p len by (simp add: PageVec_alive_def po v'_def)
  have "PageVec_alive v j \<Longrightarrow> PageVec_alive v' j" for j
    using p len by (auto simp: PageVec_alive_def v'_def nth_list_update)
  then show ?thesis using that 1 2 3 4 by blast
qed

section \<open>Properties\<close>

text \<open>
  C38: Every identifier has its own cell: \<^verbatim>\<open>pageOffset\<close> is one-to-one, the offset lies inside the page,
  the identifier is \<open>2 ^ p - 1\<close> plus the offset, and the page is one of the thirty-two pages of
  the vector for every identifier but the largest, \<open>2 ^ 32 - 1\<close>, on which every operation panics.
\<close>

theorem pageOffset_bounds:
  "(pageOffset i = pageOffset j \<longleftrightarrow> i = j)
   \<and> (case pageOffset i of (p, off) \<Rightarrow>
        unat i = 2 ^ p - 1 + off \<and> off < 2 ^ p \<and> p \<le> 32 \<and> (p < 32 \<longleftrightarrow> unat i \<noteq> 2 ^ 32 - 1))"
proof -
  obtain p off where po: "pageOffset i = (p, off)" by fastforce
  note e = pageOffset_eq [OF po]
  have "unat i = 2 ^ p - 1 + off" using e(1) by simp
  then show ?thesis using e(2,3) po pageOffset_page [of i] pageOffset_inj [of i j] by auto
qed

text \<open>
  A paged vector is an array over the identifiers: \<^verbatim>\<open>set\<close> returns on every identifier but the
  largest, keeps the vector well formed, and changes what \<^verbatim>\<open>getSafe\<close> returns for that identifier
  only; and \<^verbatim>\<open>get\<close>, which does not look whether the page is there, then returns the value.
\<close>

theorem PageVec_set_get:
  assumes "PageVec_inv v" and "unat i \<noteq> 2 ^ 32 - 1"
  shows "\<exists>v'. PageVec_set z v i x = Some v' \<and> PageVec_inv v' \<and> PageVec_get v' i = Some x
     \<and> (\<forall>j. PageVec_getSafe z v' j = (if j = i then Some x else PageVec_getSafe z v j))"
proof -
  obtain v' where v': "PageVec_set z v i x = Some v'" "PageVec_inv v'"
    "PageVec_map z v' = (PageVec_map z v)(i := x)" "PageVec_alive v' i"
    using PageVec_set_map [OF assms] by blast
  have "PageVec_getSafe z v' j = (if j = i then Some x else PageVec_getSafe z v j)" for j
  proof (cases "unat j = 2 ^ 32 - 1")
    case True
    then have "\<not> fst (pageOffset j) < 32" using pageOffset_page [of j] by simp
    then have "PageVec_getSafe z w j = None" if "PageVec_inv w" for w
      using that by (auto simp: PageVec_getSafe_def PageVec_inv_def split: prod.splits option.splits)
    then show ?thesis using True assms v'(2) by auto
  next
    case False
    then show ?thesis using v'(2,3) assms(1) by (simp add: PageVec_getSafe_map)
  qed
  moreover have "PageVec_get v' i = Some x"
    using v'(3,4) PageVec_get_map [OF v'(2) assms(2), of z] by simp
  ultimately show ?thesis using v'(1,2) by blast
qed

theorem PageVec_set_get_witness:
  "\<exists>v'. PageVec_set (0 :: nat) PageVec_zero 5 7 = Some v' \<and> PageVec_inv v' \<and> PageVec_get v' 5 = Some 7
     \<and> (\<forall>j. PageVec_getSafe 0 v' j = (if j = 5 then Some 7 else PageVec_getSafe 0 PageVec_zero j))"
  by (rule PageVec_set_get [OF PageVec_zero_inv]) simp

end
