(* ===== verification/Ay_Bump.thy ===== *)
theory Ay_Bump
  imports Ay_Vec
begin

text \<open>
  The arenas of \<^verbatim>\<open>bump_allocator.go\<close> and the functions of \<^verbatim>\<open>generic_utils.go\<close> and \<^verbatim>\<open>node_arena.go\<close> that
  build slices in them. An arena hands out the rest of its current chunk as a window, the caller
  fills the window and commits the part it keeps; nothing is ever freed.

  Whether the slices handed out stay as they were written depends on aliasing, so memory is
  explicit: \<open>ba_mem\<close> is the list of the chunks the arena has made, and a Go slice is the number of a
  chunk, an offset, a length and a capacity. The element type has the zero value \<open>z\<close> and the size
  \<open>sz\<close> in bytes; \<open>own\<close> is the debugging switch \<^verbatim>\<open>ownershipOn\<close>. \<open>None\<close> is a panic.
\<close>

section \<open>Slices\<close>

record Slice =
  sl_base :: nat
  sl_off :: nat
  sl_len :: nat
  sl_cap :: nat

definition nil_slice :: Slice where
  "nil_slice = \<lparr>sl_base = 0, sl_off = 0, sl_len = 0, sl_cap = 0\<rparr>"

definition slice_read :: "'a list list \<Rightarrow> Slice \<Rightarrow> 'a list" where
  "slice_read mem s = take (sl_len s) (drop (sl_off s) (mem ! sl_base s))"

text \<open>\<^verbatim>\<open>copy(s[i:], xs)\<close>: the elements that fit are written.\<close>

definition slice_copy :: "'a list list \<Rightarrow> Slice \<Rightarrow> nat \<Rightarrow> 'a list \<Rightarrow> 'a list list" where
  "slice_copy mem s i xs =
     (let m = mem ! sl_base s; ys = take (sl_len s - i) xs
      in mem[sl_base s := take (sl_off s + i) m @ ys @ drop (sl_off s + i + length ys) m])"

text \<open>The slice expressions \<^verbatim>\<open>s[:n:c]\<close> and \<^verbatim>\<open>s[k:]\<close>.\<close>

definition slice_to :: "Slice \<Rightarrow> nat \<Rightarrow> nat \<Rightarrow> Slice option" where
  "slice_to s n c = (if n \<le> c \<and> c \<le> sl_cap s then Some (s\<lparr>sl_len := n, sl_cap := c\<rparr>) else None)"

definition slice_from :: "Slice \<Rightarrow> nat \<Rightarrow> Slice option" where
  "slice_from s k =
     (if k \<le> sl_len s
      then Some (s\<lparr>sl_off := sl_off s + k, sl_len := sl_len s - k, sl_cap := sl_cap s - k\<rparr>) else None)"

section \<open>The arena\<close>

definition bumpChunkInitial :: nat where "bumpChunkInitial = 128"
definition bumpChunkBytes :: nat where "bumpChunkBytes = 2 ^ 18"

record 'a BumpAllocator =
  ba_mem :: "'a list list"
  ba_chunk :: Slice
  ba_next :: nat
  ba_strict :: bool
  ba_open :: bool

definition newBumpAllocator :: "'a BumpAllocator" where
  "newBumpAllocator =
     \<lparr>ba_mem = [], ba_chunk = nil_slice, ba_next = bumpChunkInitial, ba_strict = False, ba_open = False\<rparr>"

definition BumpAllocator_markStrict :: "('a, 'b) BumpAllocator_scheme \<Rightarrow> ('a, 'b) BumpAllocator_scheme" where
  "BumpAllocator_markStrict a = a\<lparr>ba_strict := True\<rparr>"

text \<open>
  The size of a new chunk: twice the last one, at most 256 kilobytes, at least what is asked for.
  The division panics for an element type of size 0, and \<^verbatim>\<open>make\<close> beyond \<open>2 ^ 48\<close> bytes.
\<close>

definition bump_size :: "nat \<Rightarrow> nat \<Rightarrow> nat \<Rightarrow> nat" where
  "bump_size sz nxt n =
     (let limit = bumpChunkBytes div sz;
          size = (if limit < nxt then limit else nxt)
      in if size < n then n else size)"

definition BumpAllocator_alloc ::
  "bool \<Rightarrow> nat \<Rightarrow> 'a \<Rightarrow> ('a, 'b) BumpAllocator_scheme \<Rightarrow> nat \<Rightarrow> (Slice \<times> ('a, 'b) BumpAllocator_scheme) option"
where
  "BumpAllocator_alloc own sz z a n =
     (if own \<and> ba_strict a \<and> ba_open a then None
      else
        let a = (if own \<and> ba_strict a then a\<lparr>ba_open := True\<rparr> else a)
        in if sl_len (ba_chunk a) < n then
             let size = bump_size sz (ba_next a) n
             in if sz = 0 \<or> 2 ^ 48 < size * sz then None
                else
                  let chunk = \<lparr>sl_base = length (ba_mem a), sl_off = 0, sl_len = size, sl_cap = size\<rparr>;
                      a = a\<lparr>ba_next := size * 2, ba_chunk := chunk, ba_mem := ba_mem a @ [replicate size z]\<rparr>
                  in Some (chunk, a)
           else Some (ba_chunk a, a))"

definition BumpAllocator_commit ::
  "('a, 'b) BumpAllocator_scheme \<Rightarrow> nat \<Rightarrow> ('a, 'b) BumpAllocator_scheme option" where
  "BumpAllocator_commit a k =
     (case slice_from (ba_chunk a) k of
        None \<Rightarrow> None
      | Some c \<Rightarrow> Some (a\<lparr>ba_open := False, ba_chunk := c\<rparr>))"

text \<open>\<^verbatim>\<open>copy\<close> into a window of the arena.\<close>

definition bump_write ::
  "('a, 'b) BumpAllocator_scheme \<Rightarrow> Slice \<Rightarrow> nat \<Rightarrow> 'a list \<Rightarrow> ('a, 'b) BumpAllocator_scheme" where
  "bump_write a s i xs = a\<lparr>ba_mem := slice_copy (ba_mem a) s i xs\<rparr>"

text \<open>The pointer \<^verbatim>\<open>one\<close> returns is the chunk and the offset of its element.\<close>

definition BumpAllocator_one ::
  "bool \<Rightarrow> nat \<Rightarrow> 'a \<Rightarrow> ('a, 'b) BumpAllocator_scheme \<Rightarrow> ((nat \<times> nat) \<times> ('a, 'b) BumpAllocator_scheme) option"
where
  "BumpAllocator_one own sz z a =
     (case BumpAllocator_alloc own sz z a 1 of
        None \<Rightarrow> None
      | Some (block, a) \<Rightarrow>
          if sl_len block = 0 then None
          else (case BumpAllocator_commit a 1 of
                  None \<Rightarrow> None
                | Some a \<Rightarrow> Some ((sl_base block, sl_off block), a)))"

definition BumpAllocator_list ::
  "bool \<Rightarrow> nat \<Rightarrow> 'a \<Rightarrow> ('a, 'b) BumpAllocator_scheme \<Rightarrow> 'a list \<Rightarrow> (Slice \<times> ('a, 'b) BumpAllocator_scheme) option"
where
  "BumpAllocator_list own sz z a vs =
     (let n = length vs
      in case BumpAllocator_alloc own sz z a n of
           None \<Rightarrow> None
         | Some (block, a) \<Rightarrow>
             (case BumpAllocator_commit (bump_write a block 0 vs) n of
                None \<Rightarrow> None
              | Some a \<Rightarrow> map_option (\<lambda>s. (s, a)) (slice_to block n n)))"

section \<open>Slices built in an arena\<close>

definition astOne ::
  "bool \<Rightarrow> nat \<Rightarrow> 'a \<Rightarrow> ('a, 'b) BumpAllocator_scheme \<Rightarrow> 'a \<Rightarrow> ((nat \<times> nat) \<times> ('a, 'b) BumpAllocator_scheme) option"
where
  "astOne own sz z a v =
     (case BumpAllocator_one own sz z a of
        None \<Rightarrow> None
      | Some ((b, off), a) \<Rightarrow> Some ((b, off), a\<lparr>ba_mem := (ba_mem a)[b := (ba_mem a ! b)[off := v]]\<rparr>))"

definition arenaAppend ::
  "bool \<Rightarrow> nat \<Rightarrow> 'a \<Rightarrow> ('a, 'b) BumpAllocator_scheme \<Rightarrow> Slice \<Rightarrow> 'a \<Rightarrow> (Slice \<times> ('a, 'b) BumpAllocator_scheme) option"
where
  "arenaAppend own sz z a cur v =
     (if sl_len cur < sl_cap cur then
        let cur = cur\<lparr>sl_len := sl_len cur + 1\<rparr>
        in Some (cur, bump_write a cur (sl_len cur - 1) [v])
      else
        let n = 2 * sl_cap cur;
            n = (if n < 4 then 4 else n)
        in case BumpAllocator_alloc own sz z a n of
             None \<Rightarrow> None
           | Some (block, a) \<Rightarrow>
               (case BumpAllocator_commit (bump_write a block 0 (slice_read (ba_mem a) cur)) n of
                  None \<Rightarrow> None
                | Some a \<Rightarrow>
                    (case slice_to block (sl_len cur + 1) n of
                       None \<Rightarrow> None
                     | Some out \<Rightarrow> Some (out, bump_write a out (sl_len cur) [v]))))"

definition refsJoined ::
  "bool \<Rightarrow> nat \<Rightarrow> 'a \<Rightarrow> ('a, 'b) BumpAllocator_scheme \<Rightarrow> Slice \<Rightarrow> Slice \<Rightarrow> (Slice \<times> ('a, 'b) BumpAllocator_scheme) option"
where
  "refsJoined own sz z a s t =
     (case BumpAllocator_alloc own sz z a (sl_len s + sl_len t) of
        None \<Rightarrow> None
      | Some (block, a) \<Rightarrow>
          let k = min (sl_len block) (sl_len s);
              a = bump_write a block 0 (slice_read (ba_mem a) s);
              k' = k + min (sl_len block - k) (sl_len t);
              a = bump_write a block k (slice_read (ba_mem a) t)
          in (case BumpAllocator_commit a k' of
                None \<Rightarrow> None
              | Some a \<Rightarrow> map_option (\<lambda>s. (s, a)) (slice_to block k' k')))"

section \<open>The indexed arena\<close>

record BumpSpan =
  bs_chunk :: u32
  bs_start :: u32
  bs_length :: u32

record 'a IndexedBumpAllocator = "'a BumpAllocator" +
  ib_chunks :: "Slice Vec"

definition newIndexedBumpAllocator :: "'a IndexedBumpAllocator" where
  "newIndexedBumpAllocator =
     \<lparr>ba_mem = [], ba_chunk = nil_slice, ba_next = bumpChunkInitial, ba_strict = False, ba_open = False,
      ib_chunks = Vec_empty\<rparr>"

definition IndexedBumpAllocator_alloc ::
  "bool \<Rightarrow> nat \<Rightarrow> 'a \<Rightarrow> 'a IndexedBumpAllocator \<Rightarrow> nat \<Rightarrow> (Slice \<times> 'a IndexedBumpAllocator) option"
where
  "IndexedBumpAllocator_alloc own sz z a n =
     (if sl_len (ba_chunk a) < n then
        (case BumpAllocator_alloc own sz z a n of
           None \<Rightarrow> None
         | Some (block, a) \<Rightarrow> Some (block, a\<lparr>ib_chunks := Vec_pushBack nil_slice (ib_chunks a) block\<rparr>))
      else BumpAllocator_alloc own sz z a n)"

definition commitSpan :: "'a IndexedBumpAllocator \<Rightarrow> nat \<Rightarrow> (BumpSpan \<times> 'a IndexedBumpAllocator) option" where
  "commitSpan a n =
     (let cs = vec_s (ib_chunks a)
      in if cs = [] then None
         else
           let i = length cs - 1;
               span = \<lparr>bs_chunk = of_nat i,
                       bs_start = word_of_int (int (sl_len (cs ! i)) - int (sl_len (ba_chunk a))),
                       bs_length = of_nat n\<rparr>
           in map_option (\<lambda>a. (span, a)) (BumpAllocator_commit a n))"

definition IndexedBumpAllocator_slice :: "'a IndexedBumpAllocator \<Rightarrow> BumpSpan \<Rightarrow> Slice option" where
  "IndexedBumpAllocator_slice a span =
     (let end' = bs_start span + bs_length span
      in case at_opt (vec_s (ib_chunks a)) (unat (bs_chunk span)) of
           None \<Rightarrow> None
         | Some c \<Rightarrow>
             if bs_start span \<le> end' \<and> unat end' \<le> sl_cap c
             then Some (c\<lparr>sl_off := sl_off c + unat (bs_start span),
                          sl_len := unat end' - unat (bs_start span),
                          sl_cap := unat end' - unat (bs_start span)\<rparr>)
             else None)"

text \<open>\<^verbatim>\<open>BucketCache.storeBucket\<close>: a bucket behind a cell for its epoch.\<close>

definition storeBucket ::
  "bool \<Rightarrow> nat \<Rightarrow> 'a \<Rightarrow> 'a IndexedBumpAllocator \<Rightarrow> 'a list \<Rightarrow> (BumpSpan \<times> 'a IndexedBumpAllocator) option"
where
  "storeBucket own sz z pool elems =
     (let n = length elems + 1
      in case IndexedBumpAllocator_alloc own sz z pool n of
           None \<Rightarrow> None
         | Some (block, pool) \<Rightarrow>
             (case slice_to block n (sl_cap block) of
                None \<Rightarrow> None
              | Some block \<Rightarrow>
                  commitSpan (bump_write (bump_write pool block 0 [z]) block 1 elems) n))"

section \<open>Memory\<close>

lemma length_slice_copy [simp]: "length (slice_copy mem s i xs) = length mem"
  by (simp add: slice_copy_def Let_def)

lemma slice_copy_empty [simp]: "slice_copy mem s i xs = [] \<longleftrightarrow> mem = []"
  by (metis length_0_conv length_slice_copy)

lemma slice_copy_other: "b \<noteq> sl_base s \<Longrightarrow> slice_copy mem s i xs ! b = mem ! b"
  by (simp add: slice_copy_def Let_def)

lemma slice_copy_chunk:
  assumes "sl_base s < length mem" and "sl_off s + sl_len s \<le> length (mem ! sl_base s)"
    and "i + length xs \<le> sl_len s"
  shows "slice_copy mem s i xs ! sl_base s =
    take (sl_off s + i) (mem ! sl_base s) @ xs @ drop (sl_off s + i + length xs) (mem ! sl_base s)"
  using assms by (simp add: slice_copy_def Let_def)

lemma slice_copy_nothing: "slice_copy mem s i [] = mem"
  by (cases "sl_base s < length mem")
    (simp_all add: slice_copy_def Let_def list_update_beyond append_take_drop_id)

section \<open>Invariant and ownership\<close>

text \<open>
  The window of an arena reaches to the end of the chunk made last. A slice is owned when its
  whole capacity lies outside the window; only windows are written, so owned slices keep their
  elements.
\<close>

definition Bump_inv :: "('a, 'b) BumpAllocator_scheme \<Rightarrow> bool" where
  "Bump_inv a \<longleftrightarrow> sl_cap (ba_chunk a) = sl_len (ba_chunk a) \<and>
     (if ba_mem a = [] then sl_len (ba_chunk a) = 0
      else sl_base (ba_chunk a) = length (ba_mem a) - 1
         \<and> sl_off (ba_chunk a) + sl_len (ba_chunk a) = length (ba_mem a ! sl_base (ba_chunk a)))"

definition owned :: "('a, 'b) BumpAllocator_scheme \<Rightarrow> Slice \<Rightarrow> bool" where
  "owned a s \<longleftrightarrow> sl_len s \<le> sl_cap s \<and>
     (sl_cap s = 0 \<or>
        sl_base s < length (ba_mem a) \<and> sl_off s + sl_cap s \<le> length (ba_mem a ! sl_base s) \<and>
        (sl_base s = sl_base (ba_chunk a) \<longrightarrow> sl_off s + sl_cap s \<le> sl_off (ba_chunk a)))"

definition disjoint_slices :: "Slice \<Rightarrow> Slice \<Rightarrow> bool" where
  "disjoint_slices s t \<longleftrightarrow> sl_base s \<noteq> sl_base t \<or>
     sl_off s + sl_cap s \<le> sl_off t \<or> sl_off t + sl_cap t \<le> sl_off s"

text \<open>What every step of an arena keeps.\<close>

definition arena_keeps :: "('a, 'b) BumpAllocator_scheme \<Rightarrow> ('a, 'b) BumpAllocator_scheme \<Rightarrow> bool" where
  "arena_keeps a a' \<longleftrightarrow> Bump_inv a' \<and> ba_strict a' = ba_strict a \<and>
     (\<forall>s. owned a s \<longrightarrow> owned a' s \<and> slice_read (ba_mem a') s = slice_read (ba_mem a) s)"

lemma arena_keepsD:
  assumes "arena_keeps a a'"
  shows "Bump_inv a'" and "ba_strict a' = ba_strict a"
    and "owned a s \<Longrightarrow> owned a' s" and "owned a s \<Longrightarrow> slice_read (ba_mem a') s = slice_read (ba_mem a) s"
  using assms by (auto simp: arena_keeps_def)

lemma arena_keeps_trans: "arena_keeps a b \<Longrightarrow> arena_keeps b c \<Longrightarrow> arena_keeps a c"
  by (simp add: arena_keeps_def)

lemma newBumpAllocator_inv [simp]: "Bump_inv newBumpAllocator"
  by (simp add: Bump_inv_def newBumpAllocator_def nil_slice_def)

lemma nil_slice_owned [simp]: "owned a nil_slice" and nil_slice_read [simp]: "slice_read m nil_slice = []"
  by (simp_all add: owned_def nil_slice_def slice_read_def)

lemma owned_length: "owned a s \<Longrightarrow> length (slice_read (ba_mem a) s) = sl_len s"
  by (auto simp: owned_def slice_read_def)

lemma window_length: "Bump_inv a \<Longrightarrow> length (slice_read (ba_mem a) (ba_chunk a)) = sl_len (ba_chunk a)"
  by (auto simp: Bump_inv_def slice_read_def split: if_splits)

lemma window_base: "Bump_inv a \<Longrightarrow> 0 < sl_len (ba_chunk a) \<Longrightarrow> sl_base (ba_chunk a) < length (ba_mem a)"
  by (auto simp: Bump_inv_def split: if_splits)

lemma window_write:
  assumes inv: "Bump_inv a" and s: "s = ba_chunk a" and fit: "i + length xs \<le> sl_len s"
  shows "arena_keeps a (bump_write a s i xs)"
    and "slice_read (ba_mem (bump_write a s i xs)) s =
      take i (slice_read (ba_mem a) s) @ xs @ drop (i + length xs) (slice_read (ba_mem a) s)"
proof -
  let ?a = "bump_write a s i xs"
  show "arena_keeps a ?a"
  proof (cases "xs = []")
    case True
    then show ?thesis using inv by (simp add: bump_write_def slice_copy_nothing arena_keeps_def owned_def Bump_inv_def)
  next
    case False
    then have pos: "0 < sl_len s" using fit by (cases xs) auto
    have ne: "sl_base s < length (ba_mem a)" using window_base inv s pos by simp
    have full: "sl_off s + sl_len s = length (ba_mem a ! sl_base s)" "ba_mem a \<noteq> []"
      using inv s ne by (auto simp: Bump_inv_def split: if_splits)
    note c = slice_copy_chunk [OF ne eq_imp_le [OF full(1)] fit]
    have len: "length (ba_mem ?a ! b) = length (ba_mem a ! b)" for b
      using c full(1) fit by (cases "b = sl_base s") (auto simp: bump_write_def slice_copy_other)
    have kept: "slice_read (ba_mem ?a) t = slice_read (ba_mem a) t" if "owned a t" for t
    proof (cases "sl_base t = sl_base s \<and> sl_cap t \<noteq> 0")
      case True
      then have "sl_off t + sl_len t \<le> sl_off s" using that s by (auto simp: owned_def)
      then show ?thesis using True c full(1) by (simp add: slice_read_def bump_write_def take_drop)
    next
      case False
      then show ?thesis using that by (auto simp: slice_read_def bump_write_def slice_copy_other owned_def)
    qed
    have "Bump_inv ?a" using inv len [of "sl_base s"] s by (auto simp: Bump_inv_def bump_write_def)
    moreover have "owned a t \<Longrightarrow> owned ?a t" for t
      using len [of "sl_base t"] by (auto simp: owned_def bump_write_def)
    ultimately show ?thesis using kept by (simp add: arena_keeps_def) (simp add: bump_write_def)
  qed
next
  show "slice_read (ba_mem (bump_write a s i xs)) s =
      take i (slice_read (ba_mem a) s) @ xs @ drop (i + length xs) (slice_read (ba_mem a) s)"
  proof (cases "sl_len s = 0")
    case True
    then show ?thesis using fit by (simp add: slice_read_def)
  next
    case False
    have ne: "sl_base s < length (ba_mem a)" using window_base inv s False by simp
    have full: "sl_off s + sl_len s = length (ba_mem a ! sl_base s)"
      using inv s ne by (auto simp: Bump_inv_def split: if_splits)
    note c = slice_copy_chunk [OF ne eq_imp_le [OF full] fit]
    define p w where "p = take (sl_off s) (ba_mem a ! sl_base s)" and "w = drop (sl_off s) (ba_mem a ! sl_base s)"
    have m: "ba_mem a ! sl_base s = p @ w" "length p = sl_off s" "length w = sl_len s"
      using full by (auto simp: p_def w_def)
    show ?thesis using c fit m by (simp add: slice_read_def bump_write_def)
  qed
qed

section \<open>The steps of an arena\<close>

text \<open>Nothing panics in a call for \<open>n\<close> elements when the last window was committed and the memory is there.\<close>

definition can_alloc :: "bool \<Rightarrow> nat \<Rightarrow> ('a, 'b) BumpAllocator_scheme \<Rightarrow> nat \<Rightarrow> bool" where
  "can_alloc own sz a n \<longleftrightarrow> \<not> (own \<and> ba_strict a \<and> ba_open a) \<and> 0 < sz \<and> n * sz \<le> 2 ^ 48"

lemma bump_size_bound: "0 < sz \<Longrightarrow> n * sz \<le> 2 ^ 48 \<Longrightarrow> bump_size sz nxt n * sz \<le> 2 ^ 48"
proof -
  assume "0 < sz" and n: "n * sz \<le> 2 ^ 48"
  have "bumpChunkBytes div sz * sz \<le> bumpChunkBytes" by (rule div_times_less_eq_dividend)
  also have "bumpChunkBytes \<le> 2 ^ 48" by (simp add: bumpChunkBytes_def)
  finally have l: "m * sz \<le> 2 ^ 48" if "m \<le> bumpChunkBytes div sz" for m
    using mult_right_mono [OF that, of sz] by linarith
  show ?thesis unfolding bump_size_def Let_def
    using n l [of nxt] l [of "bumpChunkBytes div sz"] by (auto simp del: power_numeral_even)
qed

lemma bump_size_enough: "n \<le> bump_size sz nxt n"
  by (simp add: bump_size_def Let_def)

lemma alloc_spec:
  assumes inv: "Bump_inv a" and can: "can_alloc own sz a n"
  obtains block a' where "BumpAllocator_alloc own sz z a n = Some (block, a')"
    and "arena_keeps a a'" and "block = ba_chunk a'" and "n \<le> sl_len block" and "sl_cap block = sl_len block"
proof -
  define b where "b = (if own \<and> ba_strict a then a\<lparr>ba_open := True\<rparr> else a)"
  have b: "Bump_inv b" "owned b = owned a" "ba_mem b = ba_mem a" "ba_chunk b = ba_chunk a"
    "ba_strict b = ba_strict a" "ba_next b = ba_next a"
    using inv by (auto simp: b_def Bump_inv_def owned_def)
  show ?thesis
  proof (cases "sl_len (ba_chunk a) < n")
    case False
    have "arena_keeps a b" using b by (simp add: arena_keeps_def)
    moreover have "BumpAllocator_alloc own sz z a n = Some (ba_chunk a, b)"
      using False can by (auto simp: BumpAllocator_alloc_def can_alloc_def b_def)
    moreover have "sl_cap (ba_chunk a) = sl_len (ba_chunk a)" using inv by (simp add: Bump_inv_def)
    ultimately show ?thesis using that [OF _ _ b(4) [symmetric]] False by fastforce
  next
    case True
    let ?size = "bump_size sz (ba_next a) n"
    define c where "c = \<lparr>sl_base = length (ba_mem a), sl_off = 0, sl_len = ?size, sl_cap = ?size\<rparr>"
    define a' where "a' = b\<lparr>ba_next := ?size * 2, ba_chunk := c, ba_mem := ba_mem a @ [replicate ?size z]\<rparr>"
    have "BumpAllocator_alloc own sz z a n = Some (c, a')"
      using True can bump_size_bound [of sz n "ba_next a"]
      by (auto simp: BumpAllocator_alloc_def can_alloc_def b_def Let_def c_def a'_def)
    moreover have "Bump_inv a'" by (simp add: Bump_inv_def a'_def c_def)
    then have "arena_keeps a a'" using b
      by (auto simp: arena_keeps_def a'_def c_def owned_def slice_read_def nth_append)
    moreover have "n \<le> sl_len c" using bump_size_enough by (simp add: c_def)
    moreover have "c = ba_chunk a'" "sl_cap c = sl_len c" by (simp_all add: a'_def c_def)
    ultimately show ?thesis using that by blast
  qed
qed

lemma commit_spec:
  assumes inv: "Bump_inv a" and k: "k \<le> sl_len (ba_chunk a)"
  obtains a' where "BumpAllocator_commit a k = Some a'" and "arena_keeps a a'" and "\<not> ba_open a'"
    and "ba_mem a' = ba_mem a"
    and "\<And>m. m \<le> k \<Longrightarrow> owned a' ((ba_chunk a)\<lparr>sl_len := m, sl_cap := k\<rparr>)"
proof -
  let ?c = "ba_chunk a"
  define a' where
    "a' = a\<lparr>ba_open := False, ba_chunk := ?c\<lparr>sl_off := sl_off ?c + k, sl_len := sl_len ?c - k, sl_cap := sl_cap ?c - k\<rparr>\<rparr>"
  have "BumpAllocator_commit a k = Some a'"
    using k by (simp add: BumpAllocator_commit_def slice_from_def a'_def)
  moreover have "Bump_inv a'" using inv k by (auto simp: Bump_inv_def a'_def)
  moreover have "owned a s \<Longrightarrow> owned a' s" for s by (auto simp: owned_def a'_def)
  moreover have "owned a' (?c\<lparr>sl_len := m, sl_cap := k\<rparr>)" if "m \<le> k" for m
    using inv k that by (auto simp: owned_def a'_def Bump_inv_def split: if_splits)
  ultimately show ?thesis using that by (simp add: arena_keeps_def a'_def)
qed

text \<open>Filling a window with a list and committing it.\<close>

lemma fill_spec:
  assumes inv: "Bump_inv a" and s: "s = ba_chunk a" and fit: "length xs \<le> n" "n \<le> sl_len s" and m: "m = length xs"
  obtains a' where "BumpAllocator_commit (bump_write a s 0 xs) n = Some a'" and "arena_keeps a a'" and "\<not> ba_open a'"
    and "owned a' (s\<lparr>sl_len := m, sl_cap := n\<rparr>)"
    and "slice_read (ba_mem a') (s\<lparr>sl_len := m, sl_cap := n\<rparr>) = xs"
proof -
  let ?w = "bump_write a s 0 xs"
  have w: "arena_keeps a ?w" "slice_read (ba_mem ?w) s = xs @ drop (length xs) (slice_read (ba_mem a) s)"
    using window_write [OF inv s, of 0 xs] fit by auto
  have chunk: "ba_chunk ?w = s" using s by (simp add: bump_write_def)
  then obtain a' where a': "BumpAllocator_commit ?w n = Some a'" "arena_keeps ?w a'" "\<not> ba_open a'"
    "ba_mem a' = ba_mem ?w" "\<And>m. m \<le> n \<Longrightarrow> owned a' (s\<lparr>sl_len := m, sl_cap := n\<rparr>)"
    using commit_spec [OF arena_keepsD(1) [OF w(1)], of n] fit by auto
  have "slice_read (ba_mem a') (s\<lparr>sl_len := m, sl_cap := n\<rparr>) = take m (slice_read (ba_mem ?w) s)"
    using a'(4) fit m by (simp add: slice_read_def min_def)
  also have "\<dots> = xs" using m by (simp add: w(2))
  finally show ?thesis using that a'(1,3) arena_keeps_trans [OF w(1) a'(2)] a'(5) [of m] m fit by simp
qed

lemma list_spec:
  assumes inv: "Bump_inv a" and can: "can_alloc own sz a (length vs)"
  obtains s a' where "BumpAllocator_list own sz z a vs = Some (s, a')" and "arena_keeps a a'" and "\<not> ba_open a'"
    and "owned a' s" and "slice_read (ba_mem a') s = vs" and "sl_cap s = length vs"
    and "\<And>t. owned a t \<Longrightarrow> 0 < sl_cap t \<Longrightarrow> disjoint_slices t s"
proof -
  obtain block b where b: "BumpAllocator_alloc own sz z a (length vs) = Some (block, b)" "arena_keeps a b"
    "block = ba_chunk b" "length vs \<le> sl_len block" "sl_cap block = sl_len block"
    using alloc_spec [OF inv can] by blast
  define s where "s = block\<lparr>sl_len := length vs, sl_cap := length vs\<rparr>"
  obtain a' where a': "BumpAllocator_commit (bump_write b block 0 vs) (length vs) = Some a'" "arena_keeps b a'"
    "\<not> ba_open a'" "owned a' s" "slice_read (ba_mem a') s = vs"
    using fill_spec [OF arena_keepsD(1) [OF b(2)] b(3) order_refl b(4) refl] by (auto simp: s_def)
  have "BumpAllocator_list own sz z a vs = Some (s, a')"
    using b a' by (simp add: BumpAllocator_list_def slice_to_def s_def Let_def)
  moreover have "disjoint_slices t s" if "owned a t" "0 < sl_cap t" for t
    using arena_keepsD(3) [OF b(2) that(1)] that(2) b(3) by (auto simp: owned_def disjoint_slices_def s_def)
  ultimately show ?thesis using that a' arena_keeps_trans [OF b(2) a'(2)] by (simp add: s_def)
qed

text \<open>
  \<^verbatim>\<open>arenaAppend\<close> writes into the spare capacity of the slice when there is some, so the slices that
  keep their elements are those disjoint from it.
\<close>

lemma owned_write:
  assumes inv: "Bump_inv a" and cur: "owned a cur" "sl_len cur < sl_cap cur"
  defines "out \<equiv> cur\<lparr>sl_len := sl_len cur + 1\<rparr>"
  shows "Bump_inv (bump_write a out (sl_len cur) [v])" and "owned (bump_write a out (sl_len cur) [v]) out"
    and "slice_read (ba_mem (bump_write a out (sl_len cur) [v])) out = slice_read (ba_mem a) cur @ [v]"
    and "\<And>t. owned a t \<Longrightarrow> owned (bump_write a out (sl_len cur) [v]) t"
    and "\<And>t. owned a t \<Longrightarrow> disjoint_slices t cur \<Longrightarrow>
      slice_read (ba_mem (bump_write a out (sl_len cur) [v])) t = slice_read (ba_mem a) t"
proof -
  let ?a = "bump_write a out (sl_len cur) [v]"
  have ne: "sl_base out < length (ba_mem a)" and le: "sl_off out + sl_len out \<le> length (ba_mem a ! sl_base out)"
    using cur by (auto simp: owned_def out_def)
  have c: "slice_copy (ba_mem a) out (sl_len cur) [v] ! sl_base out =
    take (sl_off cur + sl_len cur) (ba_mem a ! sl_base cur) @ [v] @ drop (Suc (sl_off cur + sl_len cur)) (ba_mem a ! sl_base cur)"
    using slice_copy_chunk [OF ne le, of "sl_len cur" "[v]"] by (simp add: out_def)
  have len: "length (ba_mem ?a ! b) = length (ba_mem a ! b)" for b
    using c le by (cases "b = sl_base out") (auto simp: bump_write_def slice_copy_other out_def)
  show "Bump_inv ?a" using inv len by (auto simp: Bump_inv_def bump_write_def)
  show own: "owned a t \<Longrightarrow> owned ?a t" for t
    using len [of "sl_base t"] by (auto simp: owned_def bump_write_def)
  have "owned a out" using cur by (auto simp: owned_def out_def)
  then show "owned ?a out" by (rule own)
  show "slice_read (ba_mem ?a) out = slice_read (ba_mem a) cur @ [v]"
    using c le by (simp add: slice_read_def bump_write_def out_def drop_take)
  show "slice_read (ba_mem ?a) t = slice_read (ba_mem a) t" if t: "owned a t" "disjoint_slices t cur" for t
  proof (cases "sl_base t = sl_base out \<and> sl_cap t \<noteq> 0")
    case True
    then have "sl_off t + sl_len t \<le> sl_off cur + sl_len cur \<or> Suc (sl_off cur + sl_len cur) \<le> sl_off t"
      using t cur by (auto simp: disjoint_slices_def owned_def out_def)
    then show ?thesis
    proof
      assume "sl_off t + sl_len t \<le> sl_off cur + sl_len cur"
      then show ?thesis using True c le by (simp add: slice_read_def bump_write_def take_drop out_def)
    next
      assume far: "Suc (sl_off cur + sl_len cur) \<le> sl_off t"
      then obtain d where "sl_off t = Suc (sl_off cur + sl_len cur) + d" using le_Suc_ex by blast
      then show ?thesis using True c le by (simp add: slice_read_def bump_write_def out_def add.commute)
    qed
  next
    case False
    then show ?thesis using t by (auto simp: slice_read_def bump_write_def slice_copy_other owned_def)
  qed
qed

lemma arenaAppend_spec:
  assumes inv: "Bump_inv a" and cur: "owned a cur" and can: "can_alloc own sz a (2 * sl_cap cur + 4)"
  shows "\<exists>out a'. arenaAppend own sz z a cur v = Some (out, a') \<and> Bump_inv a' \<and> owned a' out
    \<and> slice_read (ba_mem a') out = slice_read (ba_mem a) cur @ [v]
    \<and> (\<forall>t. owned a t \<longrightarrow> owned a' t \<and> (disjoint_slices t cur \<longrightarrow> slice_read (ba_mem a') t = slice_read (ba_mem a) t))"
proof (cases "sl_len cur < sl_cap cur")
  case True
  then show ?thesis using owned_write [OF inv cur True, where v = v] by (simp add: arenaAppend_def Let_def)
next
  case False
  then have full: "sl_cap cur = sl_len cur" using cur by (auto simp: owned_def)
  define n where "n = (if 2 * sl_cap cur < 4 then 4 else 2 * sl_cap cur)"
  let ?xs = "slice_read (ba_mem a) cur"
  have lx: "length ?xs = sl_len cur" using owned_length [OF cur] .
  have n: "sl_len cur < n" using full by (auto simp: n_def)
  have "n * sz \<le> (2 * sl_cap cur + 4) * sz" by (intro mult_right_mono) (auto simp: n_def)
  then have "can_alloc own sz a n" using can unfolding can_alloc_def by (metis order_trans)
  then obtain block b where b: "BumpAllocator_alloc own sz z a n = Some (block, b)" "arena_keeps a b"
    "block = ba_chunk b" "n \<le> sl_len block" "sl_cap block = sl_len block"
    using alloc_spec [OF inv] by blast
  have rd: "slice_read (ba_mem b) cur = ?xs" using arena_keepsD(4) [OF b(2) cur] .
  define s where "s = block\<lparr>sl_len := sl_len cur, sl_cap := n\<rparr>"
  obtain c where c: "BumpAllocator_commit (bump_write b block 0 ?xs) n = Some c" "arena_keeps b c" "owned c s"
    "slice_read (ba_mem c) s = ?xs"
    unfolding s_def using fill_spec [OF arena_keepsD(1) [OF b(2)] b(3) _ b(4) lx [symmetric]] n lx
    by (metis less_imp_le)
  have sn: "sl_len s < sl_cap s" "sl_len s = sl_len cur" using n by (auto simp: s_def)
  define out where "out = s\<lparr>sl_len := sl_len s + 1\<rparr>"
  have outeq: "slice_to block (sl_len cur + 1) n = Some out"
    using b n by (simp add: slice_to_def out_def s_def)
  note w = owned_write [OF arena_keepsD(1) [OF c(2)] c(3) sn(1), where v = v, folded out_def]
  have "arenaAppend own sz z a cur v = Some (out, bump_write c out (sl_len s) [v])"
    using False b(1) c(1) rd outeq sn(2) by (simp add: arenaAppend_def n_def Let_def)
  moreover have "disjoint_slices t s" if t: "owned a t" "sl_cap t \<noteq> 0" for t
    using arena_keepsD(3) [OF b(2) t(1)] t(2) b(3) by (auto simp: owned_def disjoint_slices_def s_def)
  then have "owned a t \<Longrightarrow> slice_read (ba_mem (bump_write c out (sl_len s) [v])) t = slice_read (ba_mem a) t" for t
  proof -
    assume ds: "\<And>t. owned a t \<Longrightarrow> sl_cap t \<noteq> 0 \<Longrightarrow> disjoint_slices t s" and t: "owned a t"
    have tc: "owned c t" "slice_read (ba_mem c) t = slice_read (ba_mem a) t"
      using arena_keepsD(3,4) [OF b(2) t] arena_keepsD(3,4) [OF c(2)] by auto
    show ?thesis
    proof (cases "sl_cap t = 0")
      case True
      then show ?thesis using t by (simp add: owned_def slice_read_def)
    next
      case False
      then show ?thesis using w(5) [OF tc(1) ds [OF t False]] tc(2) by simp
    qed
  qed
  ultimately show ?thesis using w(1,2,3) c(4) w(4) arena_keepsD(3) [OF c(2)] arena_keepsD(3) [OF b(2)] by auto
qed

lemma refsJoined_spec:
  assumes inv: "Bump_inv a" and st: "owned a s" "owned a t" and can: "can_alloc own sz a (sl_len s + sl_len t)"
  shows "\<exists>r a'. refsJoined own sz z a s t = Some (r, a') \<and> arena_keeps a a' \<and> owned a' r
    \<and> slice_read (ba_mem a') r = slice_read (ba_mem a) s @ slice_read (ba_mem a) t"
proof -
  let ?k = "sl_len s" and ?n = "sl_len s + sl_len t"
  let ?xs = "slice_read (ba_mem a) s" and ?ys = "slice_read (ba_mem a) t"
  have l: "length ?xs = ?k" "length ?ys = sl_len t" using owned_length st by auto
  obtain block b where b: "BumpAllocator_alloc own sz z a ?n = Some (block, b)" "arena_keeps a b"
    "block = ba_chunk b" "?n \<le> sl_len block" "sl_cap block = sl_len block"
    using alloc_spec [OF inv can] by blast
  define c where "c = bump_write b block 0 ?xs"
  define d where "d = bump_write c block ?k ?ys"
  have c: "arena_keeps b c" "slice_read (ba_mem c) block = ?xs @ drop ?k (slice_read (ba_mem b) block)"
    "block = ba_chunk c"
    using window_write [OF arena_keepsD(1) [OF b(2)] b(3), of 0 ?xs] l b(3,4) by (auto simp: c_def bump_write_def)
  have d: "arena_keeps c d" "slice_read (ba_mem d) block =
      take ?k (slice_read (ba_mem c) block) @ ?ys @ drop (?k + length ?ys) (slice_read (ba_mem c) block)"
    using window_write [OF arena_keepsD(1) [OF c(1)] c(3), of ?k ?ys] l b(4) by (auto simp: d_def)
  have bd: "block = ba_chunk d" using c(3) by (simp add: d_def bump_write_def)
  obtain e where e: "BumpAllocator_commit d ?n = Some e" "arena_keeps d e" "ba_mem e = ba_mem d"
    "\<And>m. m \<le> ?n \<Longrightarrow> owned e (block\<lparr>sl_len := m, sl_cap := ?n\<rparr>)"
    using commit_spec [OF arena_keepsD(1) [OF d(1)], of ?n] b(4) bd by metis
  define r where "r = block\<lparr>sl_len := ?n, sl_cap := ?n\<rparr>"
  have rs: "slice_read (ba_mem b) s = ?xs" "slice_read (ba_mem c) t = ?ys"
    using arena_keepsD(4) [OF b(2)] arena_keepsD(4) [OF arena_keeps_trans [OF b(2) c(1)]] st by auto
  have k: "min (sl_len block) ?k = ?k" "min (sl_len block - ?k) (sl_len t) = sl_len t" using b(4) by auto
  have "refsJoined own sz z a s t = Some (r, e)"
    using b(1,4,5) e(1) rs(2)
    by (simp add: refsJoined_def Let_def slice_to_def r_def k rs(1) c_def [symmetric] d_def [symmetric])
  moreover have "arena_keeps a e" using arena_keeps_trans b(2) c(1) d(1) e(2) by blast
  moreover have "slice_read (ba_mem e) r = take ?n (slice_read (ba_mem d) block)"
    using e(3) b(4) by (simp add: slice_read_def r_def min_def)
  then have "slice_read (ba_mem e) r = ?xs @ ?ys" using c(2) d(2) l by simp
  moreover have "owned e r" using e(4) by (simp add: r_def)
  ultimately show ?thesis by blast
qed

section \<open>The indexed arena\<close>

text \<open>Chunk \<open>i\<close> of the index is the whole \<open>i\<close>-th chunk of the memory.\<close>

definition Ib_inv :: "'a IndexedBumpAllocator \<Rightarrow> bool" where
  "Ib_inv a \<longleftrightarrow> Bump_inv a \<and> Vec_inv (ib_chunks a)
     \<and> vec_s (ib_chunks a) =
         map (\<lambda>i. \<lparr>sl_base = i, sl_off = 0, sl_len = length (ba_mem a ! i), sl_cap = length (ba_mem a ! i)\<rparr>)
           [0..<length (ba_mem a)]
     \<and> (\<forall>m \<in> set (ba_mem a). length m < 2 ^ 32)"

lemma newIndexedBumpAllocator_inv [simp]: "Ib_inv newIndexedBumpAllocator"
  by (simp add: Ib_inv_def newIndexedBumpAllocator_def Bump_inv_def nil_slice_def Vec_inv_def Vec_empty_def vec_s_def)

lemma slice_copy_narrow:
  "i + length xs \<le> n \<Longrightarrow> n \<le> sl_len s \<Longrightarrow> slice_copy mem (s\<lparr>sl_len := n, sl_cap := c\<rparr>) i xs = slice_copy mem s i xs"
  by (simp add: slice_copy_def)

lemma bump_size_small: "n < 2 ^ 32 \<Longrightarrow> bump_size sz nxt n < 2 ^ 32"
proof -
  have "bumpChunkBytes div sz \<le> bumpChunkBytes" by simp
  also have "bumpChunkBytes < 2 ^ 32" by (simp add: bumpChunkBytes_def)
  finally have "bumpChunkBytes div sz < 2 ^ 32" .
  then show "n < 2 ^ 32 \<Longrightarrow> ?thesis" by (auto simp: bump_size_def Let_def)
qed

lemma Indexed_alloc_spec:
  assumes inv: "Ib_inv a" and can: "can_alloc own sz a n" and n: "n < 2 ^ 32"
  obtains block a' where "IndexedBumpAllocator_alloc own sz z a n = Some (block, a')"
    and "arena_keeps a a'" and "Ib_inv a'" and "block = ba_chunk a'" and "n \<le> sl_len block" and "sl_cap block = sl_len block"
    and "length (ba_mem a') \<le> Suc (length (ba_mem a))" and "take (length (ba_mem a)) (ba_mem a') = ba_mem a"
proof -
  obtain block b where b: "BumpAllocator_alloc own sz z a n = Some (block, b)"
    "arena_keeps a b" "block = ba_chunk b" "n \<le> sl_len block" "sl_cap block = sl_len block"
    using alloc_spec [OF _ can] inv by (metis Ib_inv_def)
  have chunks: "ib_chunks b = ib_chunks a"
    using b(1) by (auto simp: BumpAllocator_alloc_def Let_def split: if_splits)
  show ?thesis
  proof (cases "sl_len (ba_chunk a) < n")
    case False
    then have "ba_mem b = ba_mem a" using b(1) by (auto simp: BumpAllocator_alloc_def Let_def split: if_splits)
    then have "Ib_inv b" using inv chunks arena_keepsD(1) [OF b(2)] by (simp add: Ib_inv_def)
    then show ?thesis using that [of block b] b False \<open>ba_mem b = ba_mem a\<close>
      by (simp add: IndexedBumpAllocator_alloc_def)
  next
    case True
    let ?size = "bump_size sz (ba_next a) n"
    have mem: "ba_mem b = ba_mem a @ [replicate ?size z]"
      and bl: "block = \<lparr>sl_base = length (ba_mem a), sl_off = 0, sl_len = ?size, sl_cap = ?size\<rparr>"
      using b(1) True by (auto simp: BumpAllocator_alloc_def Let_def split: if_splits)
    define c where "c = b\<lparr>ib_chunks := Vec_pushBack nil_slice (ib_chunks b) block\<rparr>"
    have "arena_keeps a c" using b(2) by (simp add: arena_keeps_def c_def Bump_inv_def owned_def)
    moreover have "Bump_inv c" using calculation by (rule arena_keepsD(1))
    then have "Ib_inv c"
      using inv chunks mem bl bump_size_small [OF n, of sz "ba_next a"]
      by (auto simp: Ib_inv_def c_def nth_append)
    moreover have "IndexedBumpAllocator_alloc own sz z a n = Some (block, c)"
      using True b(1) by (simp add: IndexedBumpAllocator_alloc_def c_def)
    ultimately show ?thesis using that [of block c] b mem by (simp add: c_def)
  qed
qed

lemma Ib_chunk_nth:
  assumes "Ib_inv a" and "i < length (ba_mem a)"
  shows "vec_s (ib_chunks a) ! i = \<lparr>sl_base = i, sl_off = 0, sl_len = length (ba_mem a ! i), sl_cap = length (ba_mem a ! i)\<rparr>"
    and "length (vec_s (ib_chunks a)) = length (ba_mem a)" and "length (ba_mem a ! i) < 2 ^ 32"
  using assms by (auto simp: Ib_inv_def)

lemma Ib_keep:
  assumes "Ib_inv a" and "arena_keeps a a'" and "ib_chunks a' = ib_chunks a"
    and "length (ba_mem a') = length (ba_mem a)" and "\<And>i. length (ba_mem a' ! i) = length (ba_mem a ! i)"
  shows "Ib_inv a'"
proof -
  have "length m < 2 ^ 32" if m: "m \<in> set (ba_mem a')" for m
  proof -
    obtain i where i: "i < length (ba_mem a)" "m = ba_mem a' ! i"
      using m assms(4) by (auto simp: in_set_conv_nth)
    then show ?thesis using Ib_chunk_nth(3) [OF assms(1) i(1)] assms(5) [of i] by simp
  qed
  then show ?thesis using assms(1,3,4,5) arena_keepsD(1) [OF assms(2)] by (simp add: Ib_inv_def)
qed

text \<open>The window after a span of it is committed is found again by the span.\<close>

lemma commitSpan_slice:
  assumes inv: "Ib_inv a" and n: "0 < n" "n \<le> sl_len (ba_chunk a)" and m: "length (ba_mem a) < 2 ^ 32"
  obtains span a' where "commitSpan a n = Some (span, a')" and "arena_keeps a a'" and "Ib_inv a'" and "ba_mem a' = ba_mem a"
    and "IndexedBumpAllocator_slice a' span = Some ((ba_chunk a)\<lparr>sl_len := n, sl_cap := n\<rparr>)"
    and "owned a' ((ba_chunk a)\<lparr>sl_len := n, sl_cap := n\<rparr>)" and "ib_chunks a' = ib_chunks a" and "\<not> ba_open a'"
proof -
  let ?c = "ba_chunk a" and ?i = "length (ba_mem a) - 1"
  have binv: "Bump_inv a" using inv by (simp add: Ib_inv_def)
  have ne: "ba_mem a \<noteq> []" using window_base [OF binv] n by fastforce
  then have i: "?i < length (ba_mem a)" "sl_base ?c = ?i" and full: "sl_off ?c + sl_len ?c = length (ba_mem a ! ?i)"
    using binv by (auto simp: Bump_inv_def)
  note cs = Ib_chunk_nth [OF inv i(1)]
  obtain a' where a': "BumpAllocator_commit a n = Some a'" "arena_keeps a a'" "\<not> ba_open a'" "ba_mem a' = ba_mem a"
    "\<And>m. m \<le> n \<Longrightarrow> owned a' (?c\<lparr>sl_len := m, sl_cap := n\<rparr>)"
    using commit_spec [OF binv n(2)] by metis
  have chunks: "ib_chunks a' = ib_chunks a"
    using a'(1) n(2) by (auto simp: BumpAllocator_commit_def slice_from_def)
  define span where "span = \<lparr>bs_chunk = of_nat ?i, bs_start = of_nat (sl_off ?c), bs_length = of_nat n\<rparr>"
  have "int (sl_len (vec_s (ib_chunks a) ! ?i)) - int (sl_len ?c) = int (sl_off ?c)"
    using cs(1) full by simp
  then have "word_of_int (int (sl_len (vec_s (ib_chunks a) ! ?i)) - int (sl_len ?c)) = (of_nat (sl_off ?c) :: u32)"
    by (simp only: of_int_of_nat_eq)
  then have "commitSpan a n = Some (span, a')"
    using a'(1) cs(2) ne unfolding commitSpan_def Let_def span_def by (auto simp del: of_int_diff)
  moreover have inv': "Ib_inv a'" using Ib_keep [OF inv a'(2) chunks] a'(4) by simp
  moreover have "IndexedBumpAllocator_slice a' span = Some (?c\<lparr>sl_len := n, sl_cap := n\<rparr>)"
  proof -
    have small: "sl_off ?c + n < 2 ^ 32" using full n(2) cs(3) by linarith
    have u: "unat (of_nat (sl_off ?c) :: u32) = sl_off ?c" "unat (of_nat ?i :: u32) = ?i"
      "unat (of_nat (sl_off ?c) + of_nat n :: u32) = sl_off ?c + n"
      using small m unat_of_nat_less [of "sl_off ?c + n", where 'a = 32] unat_of_nat_less [of ?i, where 'a = 32]
        unat_of_nat_less [of "sl_off ?c", where 'a = 32] by auto
    show ?thesis
      using cs i full n(2) a'(4) chunks u
      by (simp add: IndexedBumpAllocator_slice_def span_def Let_def word_le_nat_alt)
  qed
  ultimately show ?thesis using that a' chunks by blast
qed

lemma slice_stable:
  assumes "Ib_inv a" and "Ib_inv a'"
    and "\<And>i. i < length (ba_mem a) \<Longrightarrow> length (ba_mem a' ! i) = length (ba_mem a ! i)"
    and "length (ba_mem a) \<le> length (ba_mem a')"
    and "IndexedBumpAllocator_slice a span = Some s"
  shows "IndexedBumpAllocator_slice a' span = Some s"
proof -
  have i: "unat (bs_chunk span) < length (ba_mem a)"
    using assms(1,5) by (auto simp: IndexedBumpAllocator_slice_def Let_def Ib_inv_def split: option.splits)
  then have "at_opt (vec_s (ib_chunks a')) (unat (bs_chunk span)) = at_opt (vec_s (ib_chunks a)) (unat (bs_chunk span))"
    using Ib_chunk_nth(1,2) [OF assms(1) i] Ib_chunk_nth(1,2) [OF assms(2), of "unat (bs_chunk span)"] assms(3,4)
    by (simp add: at_opt_def)
  then show ?thesis using assms(5) by (simp add: IndexedBumpAllocator_slice_def)
qed

lemma bump_write_lengths:
  assumes "Bump_inv a" and "s = ba_chunk a" and "i + length xs \<le> sl_len s"
  shows "length (ba_mem (bump_write a s i xs) ! j) = length (ba_mem a ! j)"
proof (cases "xs = [] \<or> j \<noteq> sl_base s")
  case True
  then show ?thesis by (auto simp: bump_write_def slice_copy_nothing slice_copy_other)
next
  case False
  then have pos: "0 < sl_len s" using assms(3) by (cases xs) auto
  have ne: "sl_base s < length (ba_mem a)" using window_base [OF assms(1)] assms(2) pos by simp
  then have full: "sl_off s + sl_len s = length (ba_mem a ! sl_base s)"
    using assms(1,2) by (auto simp: Bump_inv_def split: if_splits)
  show ?thesis using False full assms(3) slice_copy_chunk [OF ne eq_imp_le [OF full] assms(3)]
    by (simp add: bump_write_def)
qed

lemma window_fill:
  fixes x :: 'a
  assumes inv: "Ib_inv a" and xs: "Suc (length xs) \<le> sl_len (ba_chunk a)"
  defines "w \<equiv> bump_write (bump_write a (ba_chunk a) 0 [x]) (ba_chunk a) 1 xs"
  shows "arena_keeps a w" and "Ib_inv w" and "ba_chunk w = ba_chunk a" and "length (ba_mem w) = length (ba_mem a)"
    and "\<And>j. length (ba_mem w ! j) = length (ba_mem a ! j)"
    and "take (Suc (length xs)) (slice_read (ba_mem w) (ba_chunk a)) = x # xs"
proof -
  let ?b = "bump_write a (ba_chunk a) 0 [x]"
  have binv: "Bump_inv a" using inv by (simp add: Ib_inv_def)
  have b: "arena_keeps a ?b" "slice_read (ba_mem ?b) (ba_chunk a) = x # drop 1 (slice_read (ba_mem a) (ba_chunk a))"
    "ba_chunk a = ba_chunk ?b"
    using window_write [OF binv refl, of 0 "[x]"] xs by (auto simp: bump_write_def)
  have w: "arena_keeps ?b w" "slice_read (ba_mem w) (ba_chunk a) =
      take 1 (slice_read (ba_mem ?b) (ba_chunk a)) @ xs @ drop (1 + length xs) (slice_read (ba_mem ?b) (ba_chunk a))"
    unfolding w_def using window_write [OF arena_keepsD(1) [OF b(1)] b(3), of 1 xs] xs by auto
  show "arena_keeps a w" using arena_keeps_trans b(1) w(1) by blast
  show len: "length (ba_mem w ! j) = length (ba_mem a ! j)" for j
    unfolding w_def using bump_write_lengths [OF arena_keepsD(1) [OF b(1)] b(3), of 1 xs j]
      bump_write_lengths [OF binv refl, of 0 "[x]" j] xs by simp
  show ch: "ba_chunk w = ba_chunk a" "length (ba_mem w) = length (ba_mem a)" by (simp_all add: w_def bump_write_def)
  have "ib_chunks w = ib_chunks a" by (simp add: w_def bump_write_def)
  then show "Ib_inv w" using Ib_keep [OF inv \<open>arena_keeps a w\<close>] len ch by blast
  show "take (Suc (length xs)) (slice_read (ba_mem w) (ba_chunk a)) = x # xs" using w(2) b(2) by simp
qed

section \<open>Properties\<close>

text \<open>A sequence of calls of \<^verbatim>\<open>list\<close>, with the slices they return.\<close>

fun bump_lists ::
  "bool \<Rightarrow> nat \<Rightarrow> 'a \<Rightarrow> 'a BumpAllocator \<Rightarrow> 'a list list \<Rightarrow> (Slice list \<times> 'a BumpAllocator) option" where
  "bump_lists own sz z a [] = Some ([], a)"
| "bump_lists own sz z a (vs # vss) =
     (case BumpAllocator_list own sz z a vs of
        None \<Rightarrow> None
      | Some (s, a) \<Rightarrow> map_option (\<lambda>(ss, a). (s # ss, a)) (bump_lists own sz z a vss))"

lemma bump_lists_spec:
  assumes "Bump_inv a" and "\<not> ba_open a" and "0 < sz" and "\<And>vs. vs \<in> set vss \<Longrightarrow> length vs * sz \<le> 2 ^ 48"
  shows "\<exists>ss a'. bump_lists own sz z a vss = Some (ss, a') \<and> arena_keeps a a' \<and> map (slice_read (ba_mem a')) ss = vss
    \<and> (\<forall>s \<in> set ss. owned a' s)"
  using assms
proof (induction vss arbitrary: a)
  case Nil
  then show ?case by (simp add: arena_keeps_def)
next
  case (Cons vs vss)
  have "can_alloc own sz a (length vs)" using Cons.prems by (simp add: can_alloc_def)
  then obtain s b where b: "BumpAllocator_list own sz z a vs = Some (s, b)" "arena_keeps a b" "\<not> ba_open b"
    "owned b s" "slice_read (ba_mem b) s = vs"
    using list_spec [OF Cons.prems(1)] by metis
  have "\<exists>ss a'. bump_lists own sz z b vss = Some (ss, a') \<and> arena_keeps b a' \<and> map (slice_read (ba_mem a')) ss = vss
    \<and> (\<forall>s \<in> set ss. owned a' s)"
    using Cons.prems by (intro Cons.IH arena_keepsD(1) [OF b(2)] b(3)) auto
  then obtain ss a' where r: "bump_lists own sz z b vss = Some (ss, a')" "arena_keeps b a'"
    "map (slice_read (ba_mem a')) ss = vss" "\<forall>s \<in> set ss. owned a' s" by blast
  have "bump_lists own sz z a (vs # vss) = Some (s # ss, a')" using b(1) r(1) by simp
  moreover have "map (slice_read (ba_mem a')) (s # ss) = vs # vss" using r(3) arena_keepsD(4) [OF r(2) b(4)] b(5) by simp
  moreover have "\<forall>s \<in> set (s # ss). owned a' s" using r(4) arena_keepsD(3) [OF r(2) b(4)] by simp
  ultimately show ?case using arena_keeps_trans [OF b(2) r(2)] by (intro exI conjI)
qed



text \<open>
  A bucket stored in the pool of the bucket cache is found again under the span that
  \<^verbatim>\<open>storeBucket\<close> returns, behind its cell for the epoch, and every span returned before still names
  the same elements.
\<close>

theorem storeBucket_slice:
  assumes "Ib_inv a" and "can_alloc own sz a (length elems + 1)" and "length elems + 1 < 2 ^ 32"
    and "length (ba_mem a) < 2 ^ 32 - 1"
  shows "\<exists>span a' s. storeBucket own sz z a elems = Some (span, a') \<and> Ib_inv a'
    \<and> IndexedBumpAllocator_slice a' span = Some s \<and> owned a' s \<and> slice_read (ba_mem a') s = z # elems
    \<and> (\<forall>span' s'. IndexedBumpAllocator_slice a span' = Some s' \<and> owned a s' \<longrightarrow>
         IndexedBumpAllocator_slice a' span' = Some s' \<and> owned a' s'
         \<and> slice_read (ba_mem a') s' = slice_read (ba_mem a) s')"
proof -
  let ?n = "length elems + 1"
  obtain block b where b: "IndexedBumpAllocator_alloc own sz z a ?n = Some (block, b)" "arena_keeps a b" "Ib_inv b"
    "block = ba_chunk b" "?n \<le> sl_len block" "sl_cap block = sl_len block"
    "length (ba_mem b) \<le> Suc (length (ba_mem a))" "take (length (ba_mem a)) (ba_mem b) = ba_mem a"
    using Indexed_alloc_spec [OF assms(1-3)] by metis
  define w where "w = bump_write (bump_write b block 0 [z]) block 1 elems"
  have fit: "Suc (length elems) \<le> sl_len (ba_chunk b)" using b(4,5) by simp
  note w = window_fill [OF b(3) fit, where x = z, folded b(4), folded w_def]
  have wb: "bump_write (bump_write b (block\<lparr>sl_len := ?n, sl_cap := sl_len block\<rparr>) 0 [z])
      (block\<lparr>sl_len := ?n, sl_cap := sl_len block\<rparr>) 1 elems = w"
    using b(5) by (simp add: w_def bump_write_def slice_copy_narrow)
  have lw: "length (ba_mem w) < 2 ^ 32" using w(4) b(7) assms(4) by simp
  obtain span a' where a': "commitSpan w ?n = Some (span, a')" "arena_keeps w a'" "Ib_inv a'" "ba_mem a' = ba_mem w"
    "IndexedBumpAllocator_slice a' span = Some (block\<lparr>sl_len := ?n, sl_cap := ?n\<rparr>)"
    "owned a' (block\<lparr>sl_len := ?n, sl_cap := ?n\<rparr>)"
    using commitSpan_slice [OF w(2) _ _ lw, of ?n] w(3) b(5) by (metis Suc_eq_plus1 zero_less_Suc)
  let ?s = "block\<lparr>sl_len := ?n, sl_cap := ?n\<rparr>"
  have "storeBucket own sz z a elems = Some (span, a')"
    using b(1,5,6) a'(1) wb by (simp add: storeBucket_def slice_to_def)
  moreover have "slice_read (ba_mem a') ?s = take ?n (slice_read (ba_mem w) block)"
    using a'(4) b(5) by (simp add: slice_read_def min_def)
  then have "slice_read (ba_mem a') ?s = z # elems" using w(6) by simp
  moreover have k: "arena_keeps a a'" using arena_keeps_trans b(2) w(1) a'(2) by blast
  moreover have len: "length (ba_mem a' ! i) = length (ba_mem a ! i)" if i: "i < length (ba_mem a)" for i
    using w(5) [of i] a'(4) arg_cong [OF b(8), of "\<lambda>m. m ! i"] i by simp
  have lm: "length (ba_mem a) \<le> length (ba_mem a')"
    using arg_cong [OF b(8), of length] a'(4) w(4) by simp
  have "IndexedBumpAllocator_slice a span' = Some s' \<Longrightarrow> IndexedBumpAllocator_slice a' span' = Some s'" for span' s'
    by (rule slice_stable [OF assms(1) a'(3) len lm])
  ultimately show ?thesis using a'(3,5,6) arena_keepsD(3,4) [OF k] by blast
qed

theorem storeBucket_slice_witness:
  "\<exists>span a' s. storeBucket False 4 0 newIndexedBumpAllocator [7, 8 :: u32] = Some (span, a') \<and> Ib_inv a'
    \<and> IndexedBumpAllocator_slice a' span = Some s \<and> owned a' s \<and> slice_read (ba_mem a') s = [0, 7, 8]
    \<and> (\<forall>span' s'. IndexedBumpAllocator_slice (newIndexedBumpAllocator :: u32 IndexedBumpAllocator) span' = Some s' \<and> owned (newIndexedBumpAllocator :: u32 IndexedBumpAllocator) s' \<longrightarrow>
         IndexedBumpAllocator_slice a' span' = Some s' \<and> owned a' s'
         \<and> slice_read (ba_mem a') s' = slice_read (ba_mem newIndexedBumpAllocator) s')"
  by (rule storeBucket_slice) (simp_all add: can_alloc_def newIndexedBumpAllocator_def
      Ib_inv_def Bump_inv_def nil_slice_def Vec_inv_def Vec_empty_def vec_s_def)

end
