(* ===== verification/Ay_Result.thy ===== *)
theory Ay_Result
  imports Ay_Prelude
begin

text \<open>
  Results of code that may fail: an error value on the left or a value on the right. The errors
  are the exceptions of \<^verbatim>\<open>throw.go\<close>, with the format string and the arguments of the message, the
  run-time panics of an index out of range and of a failed type assertion, and \<open>OutOfFuel\<close> for a recursion that was given too
  little fuel, which no theorem admits as an outcome.
\<close>

section \<open>Errors\<close>

record ParseError =
  pe_File :: string
  pe_Line :: nat
  pe_Col :: nat
  pe_Format :: string
  pe_Args :: "string list"

datatype go_error = is_ParseErr: ParseErr ParseError | Thrown string "string list" | IndexPanic | TypePanic | OutOfFuel

type_synonym 'a result = "go_error + 'a"

definition rbind :: "'a result \<Rightarrow> ('a \<Rightarrow> 'b result) \<Rightarrow> 'b result" where
  "rbind m f = (case m of Inl e \<Rightarrow> Inl e | Inr a \<Rightarrow> f a)"

lemma rbind_simps [simp]: "rbind (Inl e) f = Inl e" "rbind (Inr a) f = f a"
  by (simp_all add: rbind_def)

lemma rbind_cong [fundef_cong]:
  "m = m' \<Longrightarrow> (\<And>a. m' = Inr a \<Longrightarrow> f a = g a) \<Longrightarrow> rbind m f = rbind m' g"
  by (cases m') (simp_all add: rbind_def)

lemma rbind_Inr: "rbind m f = Inr b \<longleftrightarrow> (\<exists>a. m = Inr a \<and> f a = Inr b)"
  by (cases m) simp_all

lemma rbind_Inl: "rbind m f = Inl e \<longleftrightarrow> m = Inl e \<or> (\<exists>a. m = Inr a \<and> f a = Inl e)"
  by (cases m) simp_all

lemma rbind_assoc [simp]: "rbind (rbind m f) g = rbind m (\<lambda>a. rbind (f a) g)"
  by (cases m) simp_all

section \<open>Strings\<close>

text \<open>\<^verbatim>\<open>strings.Join\<close> and \<^verbatim>\<open>strings.Split\<close> at a byte, \<^verbatim>\<open>strings.TrimPrefix\<close> and \<^verbatim>\<open>strings.TrimSuffix\<close>.\<close>

fun join_strings :: "string \<Rightarrow> string list \<Rightarrow> string" where
  "join_strings sep [] = []"
| "join_strings sep [s] = s"
| "join_strings sep (s # t # ts) = s @ sep @ join_strings sep (t # ts)"

fun split_at :: "char \<Rightarrow> string \<Rightarrow> string list" where
  "split_at d [] = [[]]"
| "split_at d (c # cs) =
     (if c = d then [] # split_at d cs else (c # hd (split_at d cs)) # tl (split_at d cs))"

definition TrimPrefix :: "string \<Rightarrow> string \<Rightarrow> string" where
  "TrimPrefix s p = (if take (length p) s = p then drop (length p) s else s)"

definition TrimSuffix :: "string \<Rightarrow> string \<Rightarrow> string" where
  "TrimSuffix s p = (if p \<noteq> [] \<and> length p \<le> length s \<and> drop (length s - length p) s = p
     then take (length s - length p) s else s)"

lemma split_at_ne [simp]: "split_at d s \<noteq> []"
  by (induction s) auto

lemma split_at_Cons: "c \<noteq> d \<Longrightarrow> split_at d s = x # xs \<Longrightarrow> split_at d (c # s) = (c # x) # xs"
  by simp

lemma join_strings_Cons: "ss \<noteq> [] \<Longrightarrow> join_strings sep (s # ss) = s @ sep @ join_strings sep ss"
  by (cases ss) simp_all

lemma join_strings_Cons_Cons: "join_strings sep ((c # s) # ss) = c # join_strings sep (s # ss)"
  by (cases ss) simp_all

lemma join_split [simp]: "join_strings [d] (split_at d s) = s"
  by (induction s) (simp_all add: join_strings_Cons join_strings_Cons_Cons)

lemma split_at_parts: "x \<in> set (split_at d s) \<Longrightarrow> d \<notin> set x"
proof (induction s arbitrary: x)
  case (Cons c s)
  obtain y ys where "split_at d s = y # ys" by (cases "split_at d s") auto
  then show ?case using Cons by (auto split: if_splits)
qed simp

lemma split_at_append:
  "d \<notin> set x \<Longrightarrow> split_at d (x @ s) = (x @ hd (split_at d s)) # tl (split_at d s)"
  by (induction x) auto

lemma split_at_none: "d \<notin> set x \<Longrightarrow> split_at d x = [x]"
  using split_at_append [of d x "[]"] by simp

lemma split_join:
  "ss \<noteq> [] \<Longrightarrow> (\<And>s. s \<in> set ss \<Longrightarrow> d \<notin> set s) \<Longrightarrow> split_at d (join_strings [d] ss) = ss"
proof (induction ss rule: induct_list012)
  case (3 s t ts)
  then show ?case using split_at_append [of d s "d # join_strings [d] (t # ts)"] by simp
qed (simp_all add: split_at_none)

end
