(* ===== verification/Ay_Lexer.thy ===== *)
theory Ay_Lexer
  imports Ay_Result
begin

text \<open>
  The lexer of \<^verbatim>\<open>ya.make\<close> files (\<^verbatim>\<open>yamake.go\<close>: \<^verbatim>\<open>Lexer\<close>, \<^verbatim>\<open>advance\<close>, \<^verbatim>\<open>skipTrivia\<close>,
  \<^verbatim>\<open>readToken\<close> and the \<^verbatim>\<open>read...\<close> functions).

  The source is a list of bytes, here a \<open>string\<close>; \<open>lx_pos\<close> is the read position in it. An
  interned string (\<^verbatim>\<open>STR\<close>) is represented by the string it stands for, so the \<^verbatim>\<open>id\<close> of a token
  is its text. A result is a \<open>go_error\<close> on the left, either the \<^verbatim>\<open>ParseError\<close> that \<^verbatim>\<open>throwParse\<close>
  throws or a run-time panic for an index out of range, or a value on the right. The scratch
  buffer \<^verbatim>\<open>tokBuf\<close> only saves allocations and is a local value here.

  The word, identifier and string readers have a fast path that finds the end of the token by
  scanning, and a slow path that copies byte by byte through \<^verbatim>\<open>advance\<close>; the theorems show that
  the fast paths compute what the slow ones would.
\<close>

section \<open>Bytes\<close>

definition byte :: "char \<Rightarrow> nat" where "byte c = of_char c"

definition NL :: char where "NL = CHR 0x0A"
definition CR :: char where "CR = CHR 0x0D"
definition TAB :: char where "TAB = CHR 0x09"
definition NUL :: char where "NUL = CHR 0x00"
definition BACKSLASH :: char where "BACKSLASH = CHR 0x5C"
definition DQUOTE :: char where "DQUOTE = CHR 0x22"
definition SQUOTE :: char where "SQUOTE = CHR 0x27"
definition BACKQUOTE :: char where "BACKQUOTE = CHR 0x60"

lemmas byte_consts = NL_def CR_def TAB_def NUL_def BACKSLASH_def DQUOTE_def SQUOTE_def BACKQUOTE_def

definition byte_in :: "char \<Rightarrow> char \<Rightarrow> char \<Rightarrow> bool" where
  "byte_in lo hi b \<longleftrightarrow> byte lo \<le> byte b \<and> byte b \<le> byte hi"

definition isWhitespace :: "char \<Rightarrow> bool" where
  "isWhitespace b \<longleftrightarrow> b = CHR '' '' \<or> b = TAB \<or> b = CR \<or> b = NL"

definition isIdentStart :: "char \<Rightarrow> bool" where
  "isIdentStart b \<longleftrightarrow> byte_in (CHR ''A'') (CHR ''Z'') b \<or> b = CHR ''_''"

definition isIdentCont :: "char \<Rightarrow> bool" where
  "isIdentCont b \<longleftrightarrow> byte_in (CHR ''A'') (CHR ''Z'') b \<or> byte_in (CHR ''0'') (CHR ''9'') b \<or> b = CHR ''_''"

definition commentBoundary :: "char \<Rightarrow> bool" where
  "commentBoundary prev \<longleftrightarrow> prev = NUL \<or> prev = CHR ''('' \<or> isWhitespace prev"

definition wordBytes :: "char \<Rightarrow> nat" where
  "wordBytes b =
     (if b \<in> set (CHR '';'' # CHR ''&'' # BACKQUOTE # CHR ''^'' # CHR ''|'' # CHR ''<'' # CHR ''>''
                  # DQUOTE # SQUOTE # []) then 2
      else if byte_in (CHR ''a'') (CHR ''z'') b \<or> byte_in (CHR ''A'') (CHR ''Z'') b
              \<or> byte_in (CHR ''0'') (CHR ''9'') b \<or> 0x80 \<le> byte b
              \<or> b \<in> set (''_-./+:=*?$%~,!{}#[]@'' @ [BACKSLASH]) then 1
      else 0)"

section \<open>Tokens and the lexer's state\<close>

datatype TokKind = tokEOF | tokIdent | tokString | tokWord | tokLParen | tokRParen | tokInt
  | tokEq | tokLt | tokLe | tokNotEq | tokGe | tokGt

record Token =
  tok_kind :: TokKind
  tok_id :: string
  tok_line :: nat
  tok_col :: nat
  tok_n :: nat
  tok_lead :: char
  tok_backslash :: bool

definition plainToken :: "TokKind \<Rightarrow> nat \<Rightarrow> nat \<Rightarrow> Token" where
  "plainToken kind line col =
     \<lparr>tok_kind = kind, tok_id = [], tok_line = line, tok_col = col, tok_n = 0, tok_lead = NUL,
      tok_backslash = False\<rparr>"

definition newToken :: "TokKind \<Rightarrow> string \<Rightarrow> nat \<Rightarrow> nat \<Rightarrow> Token" where
  "newToken kind text line col =
     \<lparr>tok_kind = kind, tok_id = text, tok_line = line, tok_col = col, tok_n = length text,
      tok_lead = (if text \<noteq> [] then hd text else NUL),
      tok_backslash = (kind = tokString \<and> BACKSLASH \<in> set text)\<rparr>"

record Lexer =
  lx_name :: string
  lx_src :: string
  lx_pos :: nat
  lx_line :: nat
  lx_col :: nat
  lx_prevByte :: char
  lx_inArgs :: bool

definition throwParse :: "Lexer \<Rightarrow> nat \<Rightarrow> nat \<Rightarrow> string \<Rightarrow> string list \<Rightarrow> go_error" where
  "throwParse l line col fmt args =
     ParseErr \<lparr>pe_File = lx_name l, pe_Line = line, pe_Col = col, pe_Format = fmt, pe_Args = args\<rparr>"

definition isWordByte :: "Lexer \<Rightarrow> char \<Rightarrow> bool" where
  "isWordByte l b \<longleftrightarrow> wordBytes b = 1 \<or> wordBytes b = 2 \<and> lx_inArgs l"

definition src_slice :: "Lexer \<Rightarrow> nat \<Rightarrow> nat \<Rightarrow> string" where
  "src_slice l start end' = take (end' - start) (drop start (lx_src l))"

definition advance :: "Lexer \<Rightarrow> (char \<times> Lexer) result" where
  "advance l =
     (if lx_pos l < length (lx_src l)
      then let b = lx_src l ! lx_pos l;
               l = l\<lparr>lx_pos := lx_pos l + 1\<rparr>
           in if b = NL then Inr (b, l\<lparr>lx_line := lx_line l + 1, lx_col := 1, lx_prevByte := b\<rparr>)
              else if b = CR then
                let l = l\<lparr>lx_line := lx_line l + 1, lx_col := 1\<rparr>
                in if lx_pos l < length (lx_src l) \<and> lx_src l ! lx_pos l = NL
                   then Inr (b, l\<lparr>lx_pos := lx_pos l + 1, lx_prevByte := NL\<rparr>)
                   else Inr (b, l\<lparr>lx_prevByte := b\<rparr>)
              else Inr (b, l\<lparr>lx_col := lx_col l + 1, lx_prevByte := b\<rparr>)
      else Inl IndexPanic)"

text \<open>\<^verbatim>\<open>advance\<close> moves the position forward, never beyond the end, and touches nothing fixed.\<close>

definition moves :: "Lexer \<Rightarrow> Lexer \<Rightarrow> bool" where
  "moves l l' \<longleftrightarrow> lx_src l' = lx_src l \<and> lx_name l' = lx_name l \<and> lx_inArgs l' = lx_inArgs l
     \<and> lx_pos l \<le> lx_pos l' \<and> (lx_pos l \<le> length (lx_src l) \<longrightarrow> lx_pos l' \<le> length (lx_src l))
     \<and> lx_line l \<le> lx_line l'"

lemma advance_ok:
  assumes "lx_pos l < length (lx_src l)"
  shows "\<exists>l'. advance l = Inr (lx_src l ! lx_pos l, l') \<and> moves l l' \<and> lx_pos l < lx_pos l'"
  using assms by (auto simp: advance_def Let_def moves_def)

lemma advance_Inr:
  assumes "advance l = Inr (b, l')"
  shows "lx_pos l < length (lx_src l)" and "b = lx_src l ! lx_pos l" and "moves l l'" and "lx_pos l < lx_pos l'"
  using assms by (auto simp: advance_def Let_def moves_def split: if_splits)

lemma moves_refl [simp]: "moves l l"
  by (simp add: moves_def)

lemma moves_trans: "moves a b \<Longrightarrow> moves b c \<Longrightarrow> moves a c"
  by (auto simp: moves_def)

lemma advance_shrinks:
  "advance l = Inr (b, l') \<Longrightarrow> length (lx_src l') - lx_pos l' < length (lx_src l) - lx_pos l"
  using advance_Inr [of l b l'] by (auto simp: moves_def)

lemma advance2_shrinks:
  "advance l = Inr (b, l1) \<Longrightarrow> advance l1 = Inr (c, l2) \<Longrightarrow>
   length (lx_src l2) - lx_pos l2 < length (lx_src l) - lx_pos l"
  using advance_shrinks [of l b l1] advance_shrinks [of l1 c l2] by simp

text \<open>
  Every reader below moves the lexer by steps of \<^verbatim>\<open>advance\<close> only, also where it assigns the
  position itself. \<open>reads l r\<close>: the reader did not panic, and if it returned, it has consumed
  at least one byte by such steps.
\<close>

definition advance_step :: "Lexer \<Rightarrow> Lexer \<Rightarrow> bool" where
  "advance_step l l' \<longleftrightarrow> (\<exists>b. advance l = Inr (b, l'))"

definition reads :: "Lexer \<Rightarrow> ('a \<times> Lexer) result \<Rightarrow> bool" where
  "reads l r \<longleftrightarrow> (case r of Inl e \<Rightarrow> is_ParseErr e | Inr (x, l') \<Rightarrow> advance_step\<^sup>+\<^sup>+ l l')"

lemma reads_simps [simp]:
  "reads l (Inl e) \<longleftrightarrow> is_ParseErr e" "reads l (Inr (x, l')) \<longleftrightarrow> advance_step\<^sup>+\<^sup>+ l l'"
  by (simp_all add: reads_def)

lemma throwParse_no_panic [simp]: "is_ParseErr (throwParse l line col fmt args)"
  by (simp add: throwParse_def)

lemma advance_stepI: "advance l = Inr (b, l') \<Longrightarrow> advance_step l l'"
  by (auto simp: advance_step_def)

lemma advance_step_moves: "advance_step l l' \<Longrightarrow> moves l l' \<and> lx_pos l < lx_pos l'"
  by (auto simp: advance_step_def dest: advance_Inr)

lemma advance_plus_moves: "advance_step\<^sup>+\<^sup>+ l l' \<Longrightarrow> moves l l' \<and> lx_pos l < lx_pos l'"
  by (induction rule: tranclp_induct) (auto dest: advance_step_moves intro: moves_trans)

lemma advance_star_moves: "advance_step\<^sup>*\<^sup>* l l' \<Longrightarrow> moves l l'"
  by (auto dest!: rtranclpD dest: advance_plus_moves)

lemma reads_step:
  assumes "advance_step l l1" and "reads l1 r"
  shows "reads l r"
proof (cases r)
  case (Inr p)
  then show ?thesis using assms by (cases p) (auto intro: tranclp_into_tranclp2)
qed (use assms in auto)

lemma reads_rbind:
  assumes "reads l m" and "\<And>x l1. m = Inr (x, l1) \<Longrightarrow> reads l (f (x, l1))"
  shows "reads l (rbind m f)"
  using assms by (cases m) auto

lemma advance_in:
  assumes "lx_pos l < length (lx_src l)"
  obtains l1 where "advance l = Inr (lx_src l ! lx_pos l, l1)" "advance_step l l1" "moves l l1"
    "lx_pos l < lx_pos l1"
  using advance_ok [OF assms] advance_stepI by blast

section \<open>Trivia\<close>

function skip_comment :: "Lexer \<Rightarrow> Lexer result" where
  "skip_comment l =
     (if lx_pos l < length (lx_src l) \<and> lx_src l ! lx_pos l \<noteq> NL \<and> lx_src l ! lx_pos l \<noteq> CR
      then rbind (advance l) (\<lambda>(_, l'). skip_comment l')
      else Inr l)"
  by pat_completeness auto
termination
  by (relation "measure (\<lambda>l. length (lx_src l) - lx_pos l)") (auto dest: advance_shrinks)

declare skip_comment.simps [simp del]

lemma skip_comment_ok:
  "\<exists>l'. skip_comment l = Inr l' \<and> moves l l'
    \<and> (lx_pos l < length (lx_src l) \<and> lx_src l ! lx_pos l \<noteq> NL \<and> lx_src l ! lx_pos l \<noteq> CR
       \<longrightarrow> lx_pos l < lx_pos l')"
proof (induction l rule: skip_comment.induct)
  case (1 l)
  show ?case
  proof (cases "lx_pos l < length (lx_src l) \<and> lx_src l ! lx_pos l \<noteq> NL \<and> lx_src l ! lx_pos l \<noteq> CR")
    case True
    then obtain l1 where a: "advance l = Inr (lx_src l ! lx_pos l, l1)" "moves l l1" "lx_pos l < lx_pos l1"
      using advance_ok by blast
    obtain l' where "skip_comment l1 = Inr l'" "moves l1 l'"
      using 1 [OF True a(1) refl] by blast
    moreover have "skip_comment l = skip_comment l1"
      using True a(1) by (simp add: skip_comment.simps [of l])
    ultimately show ?thesis using a moves_trans [of l l1 l'] by (auto simp: moves_def)
  next
    case False
    then show ?thesis by (subst skip_comment.simps) auto
  qed
qed

lemma not_newline_hash: "CHR ''#'' \<noteq> NL" "CHR ''#'' \<noteq> CR"
  by (simp_all add: byte_consts)

text \<open>
  Every round of the outer loop makes progress: a \<^verbatim>\<open>#\<close> is not a line end, so the comment loop
  consumes it.
\<close>

function skipTrivia :: "Lexer \<Rightarrow> Lexer result" where
  "skipTrivia l =
     (if lx_pos l < length (lx_src l)
      then let b = lx_src l ! lx_pos l
           in if isWhitespace b then rbind (advance l) (\<lambda>(_, l'). skipTrivia l')
              else if b = CHR ''#'' \<and> commentBoundary (lx_prevByte l)
              then rbind (skip_comment l) skipTrivia
              else Inr l
      else Inr l)"
  by pat_completeness auto
termination
proof (relation "measure (\<lambda>l. length (lx_src l) - lx_pos l)")
  fix l b l'
  assume "lx_pos l < length (lx_src l)" "b = lx_src l ! lx_pos l"
    "b = CHR ''#'' \<and> commentBoundary (lx_prevByte l)" "skip_comment l = Inr l'"
  then show "(l', l) \<in> measure (\<lambda>l. length (lx_src l) - lx_pos l)"
    using skip_comment_ok [of l] not_newline_hash by (auto simp: moves_def)
qed (auto dest: advance_shrinks)

declare skipTrivia.simps [simp del]

section \<open>Strings\<close>

text \<open>The fast scan: the position of the closing quote, or \<open>None\<close> for the jump to the slow path.\<close>

function readString_scan :: "string \<Rightarrow> char \<Rightarrow> nat \<Rightarrow> nat option" where
  "readString_scan src quote pos =
     (if pos < length src
      then if src ! pos = quote then Some pos
           else if src ! pos = BACKSLASH \<or> src ! pos = NL \<or> src ! pos = CR then None
           else readString_scan src quote (pos + 1)
      else None)"
  by pat_completeness auto
termination
  by (relation "measure (\<lambda>(src, quote, pos). length src - pos)") auto

declare readString_scan.simps [simp del]

text \<open>The loop that the slow path of \<^verbatim>\<open>readString\<close> and \<^verbatim>\<open>appendQuotedSegment\<close> share.\<close>

function quoted_loop :: "char \<Rightarrow> nat \<Rightarrow> nat \<Rightarrow> Lexer \<Rightarrow> string \<Rightarrow> (string \<times> Lexer) result" where
  "quoted_loop quote startLine startCol l buf =
     (if lx_pos l < length (lx_src l)
      then let b = lx_src l ! lx_pos l
           in if b = quote then rbind (advance l) (\<lambda>(_, l'). Inr (buf, l'))
              else if b = BACKSLASH \<and> lx_pos l + 1 < length (lx_src l)
              then rbind (advance l) (\<lambda>(b1, l1).
                   rbind (advance l1) (\<lambda>(b2, l2).
                     quoted_loop quote startLine startCol l2 (buf @ [b1, b2])))
              else rbind (advance l) (\<lambda>(b1, l1). quoted_loop quote startLine startCol l1 (buf @ [b1]))
      else Inl (throwParse l startLine startCol ''unterminated string'' []))"
  by pat_completeness auto
termination
  by (relation "measure (\<lambda>(quote, sl, sc, l, buf). length (lx_src l) - lx_pos l)")
    (auto dest: advance_shrinks advance2_shrinks)

declare quoted_loop.simps [simp del]

definition readString_slow :: "Lexer \<Rightarrow> nat \<Rightarrow> nat \<Rightarrow> char \<Rightarrow> (Token \<times> Lexer) result" where
  "readString_slow l startLine startCol quote =
     rbind (quoted_loop quote startLine startCol l []) (\<lambda>(buf, l').
       Inr (newToken tokString buf startLine startCol, l'))"

definition readString :: "Lexer \<Rightarrow> nat \<Rightarrow> nat \<Rightarrow> char \<Rightarrow> (Token \<times> Lexer) result" where
  "readString l startLine startCol quote =
     rbind (advance l) (\<lambda>(_, l).
       let start = lx_pos l
       in case readString_scan (lx_src l) quote start of
            Some pos \<Rightarrow>
              Inr (newToken tokString (src_slice l start pos) startLine startCol,
                   l\<lparr>lx_pos := pos + 1, lx_col := lx_col l + (pos - start + 1), lx_prevByte := quote\<rparr>)
          | None \<Rightarrow> readString_slow l startLine startCol quote)"

definition appendQuotedSegment ::
  "Lexer \<Rightarrow> string \<Rightarrow> char \<Rightarrow> nat \<Rightarrow> nat \<Rightarrow> (string \<times> Lexer) result" where
  "appendQuotedSegment l buf quote startLine startCol =
     rbind (advance l) (\<lambda>(_, l). quoted_loop quote startLine startCol l buf)"

section \<open>Identifiers and words\<close>

definition is_quote :: "char \<Rightarrow> bool" where
  "is_quote b \<longleftrightarrow> b = DQUOTE \<or> b = SQUOTE"

text \<open>The scans return the end position, whether only identifier bytes were seen, and \<^verbatim>\<open>complex\<close>.\<close>

function readIdent_scan :: "Lexer \<Rightarrow> nat \<Rightarrow> nat \<Rightarrow> bool \<Rightarrow> nat \<times> bool \<times> bool" where
  "readIdent_scan l start pos pureIdent =
     (if pos < length (lx_src l)
      then let b = lx_src l ! pos
           in if b = BACKSLASH \<and> pos + 1 < length (lx_src l) \<or> \<not> lx_inArgs l \<and> is_quote b
              then (pos, pureIdent, True)
              else if isIdentCont b then readIdent_scan l start (pos + 1) pureIdent
              else if isWordByte l b \<or> b = CHR ''@'' \<and> start < pos then readIdent_scan l start (pos + 1) False
              else (pos, pureIdent, False)
      else (pos, pureIdent, False))"
  by pat_completeness auto
termination
  by (relation "measure (\<lambda>(l, start, pos, p). length (lx_src l) - pos)") auto

declare readIdent_scan.simps [simp del]

lemma quoted_loop_close:
  "lx_pos l < length (lx_src l) \<Longrightarrow> lx_src l ! lx_pos l = quote \<Longrightarrow> advance l = Inr (b, l1) \<Longrightarrow>
   quoted_loop quote sl sc l buf = Inr (buf, l1)"
  by (subst quoted_loop.simps) simp

lemma quoted_loop_escape:
  "lx_src l ! lx_pos l = BACKSLASH \<Longrightarrow> BACKSLASH \<noteq> quote \<Longrightarrow> lx_pos l + 1 < length (lx_src l) \<Longrightarrow>
   advance l = Inr (b1, l1) \<Longrightarrow> advance l1 = Inr (b2, l2) \<Longrightarrow>
   quoted_loop quote sl sc l buf = quoted_loop quote sl sc l2 (buf @ [b1, b2])"
  by (subst quoted_loop.simps) simp

lemma quoted_loop_plain:
  "lx_pos l < length (lx_src l) \<Longrightarrow> lx_src l ! lx_pos l \<noteq> quote \<Longrightarrow>
   \<not> (lx_src l ! lx_pos l = BACKSLASH \<and> lx_pos l + 1 < length (lx_src l)) \<Longrightarrow>
   advance l = Inr (b, l1) \<Longrightarrow>
   quoted_loop quote sl sc l buf = quoted_loop quote sl sc l1 (buf @ [b])"
  by (subst quoted_loop.simps) (simp add: if_not_P)

lemma advance_backslash:
  assumes "lx_src l ! lx_pos l = BACKSLASH" and "lx_pos l + 1 < length (lx_src l)"
  obtains l1 l2 where "advance l = Inr (BACKSLASH, l1)" "advance_step l l1"
    "advance l1 = Inr (lx_src l ! (lx_pos l + 1), l2)" "advance_step l1 l2"
proof -
  define l1 where "l1 = l\<lparr>lx_pos := lx_pos l + 1, lx_col := lx_col l + 1, lx_prevByte := BACKSLASH\<rparr>"
  have a: "advance l = Inr (BACKSLASH, l1)"
    using assms by (simp add: advance_def l1_def Let_def byte_consts)
  have "lx_pos l1 < length (lx_src l1)" using assms by (simp add: l1_def)
  then obtain l2 where "advance l1 = Inr (lx_src l ! (lx_pos l + 1), l2)" "advance_step l1 l2"
    using advance_in [of l1] by (auto simp: l1_def)
  then show ?thesis using that a advance_stepI [OF a] by blast
qed

lemma quoted_loop_reads: "reads l (quoted_loop quote sl sc l buf)"
proof (induction quote sl sc l buf rule: quoted_loop.induct)
  case (1 quote sl sc l buf)
  let ?b = "lx_src l ! lx_pos l"
  consider (stop) "\<not> lx_pos l < length (lx_src l)" | (close) "lx_pos l < length (lx_src l)" "?b = quote"
    | (esc) "lx_pos l < length (lx_src l)" "?b \<noteq> quote" "?b = BACKSLASH" "lx_pos l + 1 < length (lx_src l)"
    | (plain) "lx_pos l < length (lx_src l)" "?b \<noteq> quote"
        "\<not> (?b = BACKSLASH \<and> lx_pos l + 1 < length (lx_src l))"
    by blast
  then show ?case
  proof cases
    case stop
    then show ?thesis by (subst quoted_loop.simps) simp
  next
    case close
    obtain l1 where a: "advance l = Inr (?b, l1)" "advance_step l l1" using close(1) by (rule advance_in)
    then show ?thesis using quoted_loop_close [OF close a(1)] by (simp add: tranclp.r_into_trancl)
  next
    case esc
    obtain l1 l2 where a: "advance l = Inr (?b, l1)" "advance_step l l1" "advance_step l1 l2"
        "advance l1 = Inr (lx_src l ! (lx_pos l + 1), l2)"
      using advance_backslash [OF esc(3,4)] esc(3) by metis
    have "reads l2 (quoted_loop quote sl sc l2 (buf @ [?b, lx_src l ! (lx_pos l + 1)]))"
      using 1(1) [OF esc(1) refl esc(2) _ a(1) refl a(4) refl] esc by simp
    then show ?thesis
      using quoted_loop_escape [OF esc(3) _ esc(4) a(1,4)] esc(2,3) reads_step [OF a(2) reads_step [OF a(3)]]
      by simp
  next
    case plain
    obtain l1 where a: "advance l = Inr (?b, l1)" "advance_step l l1" using plain(1) by (rule advance_in)
    have "reads l1 (quoted_loop quote sl sc l1 (buf @ [?b]))"
      using 1(2) [OF plain(1) refl plain(2,3) a(1) refl] .
    then show ?thesis using quoted_loop_plain [OF plain a(1)] reads_step [OF a(2)] by simp
  qed
qed

lemma readString_slow_reads: "reads l (readString_slow l sl sc quote)"
  using quoted_loop_reads [of l quote sl sc "[]"]
  unfolding readString_slow_def by (rule reads_rbind) (use quoted_loop_reads [of l quote sl sc "[]"] in auto)

lemma appendQuotedSegment_reads:
  "lx_pos l < length (lx_src l) \<Longrightarrow> reads l (appendQuotedSegment l buf quote sl sc)"
  by (erule advance_in) (auto simp: appendQuotedSegment_def intro: reads_step quoted_loop_reads)

lemma appendQuotedSegment_shrinks:
  assumes "appendQuotedSegment l buf quote sl sc = Inr (buf', l')"
  shows "length (lx_src l') - lx_pos l' < length (lx_src l) - lx_pos l"
proof -
  have inb: "lx_pos l < length (lx_src l)"
    using assms by (auto simp: appendQuotedSegment_def rbind_Inr dest: advance_Inr(1))
  then have "advance_step\<^sup>+\<^sup>+ l l'"
    using appendQuotedSegment_reads [OF inb, of buf quote sl sc] assms by simp
  then have "moves l l'" "lx_pos l < lx_pos l'" using advance_plus_moves by blast+
  then show ?thesis using inb by (auto simp: moves_def)
qed

function readIdent_slow_loop ::
  "nat \<Rightarrow> nat \<Rightarrow> Lexer \<Rightarrow> string \<Rightarrow> bool \<Rightarrow> ((string \<times> bool) \<times> Lexer) result" where
  "readIdent_slow_loop startLine startCol l buf pureIdent =
     (if lx_pos l < length (lx_src l)
      then let b = lx_src l ! lx_pos l
           in if b = BACKSLASH \<and> lx_pos l + 1 < length (lx_src l)
              then rbind (advance l) (\<lambda>(b1, l1).
                   rbind (advance l1) (\<lambda>(b2, l2).
                     readIdent_slow_loop startLine startCol l2 (buf @ [b1, b2]) False))
              else if isIdentCont b
              then rbind (advance l) (\<lambda>(b1, l1).
                     readIdent_slow_loop startLine startCol l1 (buf @ [b1]) pureIdent)
              else if isWordByte l b \<or> b = CHR ''@'' \<and> buf \<noteq> []
              then rbind (advance l) (\<lambda>(b1, l1).
                     readIdent_slow_loop startLine startCol l1 (buf @ [b1]) False)
              else if is_quote b \<and> buf \<noteq> []
              then rbind (appendQuotedSegment l buf b startLine startCol) (\<lambda>(buf', l1).
                     readIdent_slow_loop startLine startCol l1 buf' False)
              else Inr ((buf, pureIdent), l)
      else Inr ((buf, pureIdent), l))"
  by pat_completeness auto
termination
  by (relation "measure (\<lambda>(sl, sc, l, buf, p). length (lx_src l) - lx_pos l)")
    (auto dest: advance_shrinks advance2_shrinks appendQuotedSegment_shrinks)

declare readIdent_slow_loop.simps [simp del]

definition ident_kind :: "bool \<Rightarrow> TokKind" where
  "ident_kind pureIdent = (if \<not> pureIdent then tokWord else tokIdent)"

definition readIdent_slow :: "Lexer \<Rightarrow> nat \<Rightarrow> nat \<Rightarrow> (Token \<times> Lexer) result" where
  "readIdent_slow l startLine startCol =
     rbind (readIdent_slow_loop startLine startCol l [] True) (\<lambda>((buf, pureIdent), l').
       Inr (newToken (ident_kind pureIdent) buf startLine startCol, l'))"

text \<open>The assignments with which a fast path ends: \<open>pos\<close> is not the start, so \<open>pos - 1\<close> is an index.\<close>

definition jump :: "Lexer \<Rightarrow> nat \<Rightarrow> Lexer" where
  "jump l pos = l\<lparr>lx_pos := pos, lx_col := lx_col l + (pos - lx_pos l), lx_prevByte := lx_src l ! (pos - 1)\<rparr>"

definition readIdentOrWord :: "Lexer \<Rightarrow> nat \<Rightarrow> nat \<Rightarrow> (Token \<times> Lexer) result" where
  "readIdentOrWord l startLine startCol =
     (let start = lx_pos l;
          (pos, pureIdent, complex) = readIdent_scan l start start True
      in if \<not> complex
         then if 0 < pos
              then Inr (newToken (ident_kind pureIdent) (src_slice l start pos) startLine startCol, jump l pos)
              else Inl IndexPanic
         else readIdent_slow l startLine startCol)"

function dollarParen_scan :: "Lexer \<Rightarrow> nat \<Rightarrow> nat" where
  "dollarParen_scan l pos =
     (if pos < length (lx_src l)
      then let b = lx_src l ! pos
           in if b = CHR '')'' then (if pos = lx_pos l + 2 then 0 else pos + 1 - lx_pos l)
              else if b = CHR ''('' \<or> b = CHR ''#'' \<or> b = BACKSLASH \<or> isWhitespace b then 0
              else dollarParen_scan l (pos + 1)
      else 0)"
  by pat_completeness auto
termination
  by (relation "measure (\<lambda>(l, pos). length (lx_src l) - pos)") auto

declare dollarParen_scan.simps [simp del]

definition dollarParenPrefix :: "Lexer \<Rightarrow> nat" where
  "dollarParenPrefix l =
     (if \<not> lx_inArgs l \<or> length (lx_src l) \<le> lx_pos l + 2 \<or> lx_src l ! lx_pos l \<noteq> CHR ''$''
         \<or> lx_src l ! (lx_pos l + 1) \<noteq> CHR ''(''
      then 0 else dollarParen_scan l (lx_pos l + 2))"

function readWord_scan :: "Lexer \<Rightarrow> nat \<Rightarrow> nat \<Rightarrow> nat \<times> bool" where
  "readWord_scan l start pos =
     (if pos < length (lx_src l)
      then let b = lx_src l ! pos
           in if b = BACKSLASH \<and> pos + 1 < length (lx_src l) \<or> \<not> lx_inArgs l \<and> is_quote b \<and> start < pos
              then (pos, True)
              else if \<not> isWordByte l b \<and> \<not> (b = CHR ''@'' \<and> start < pos) then (pos, False)
              else readWord_scan l start (pos + 1)
      else (pos, False))"
  by pat_completeness auto
termination
  by (relation "measure (\<lambda>(l, start, pos). length (lx_src l) - pos)") auto

declare readWord_scan.simps [simp del]

function readWord_slow_loop :: "nat \<Rightarrow> nat \<Rightarrow> Lexer \<Rightarrow> string \<Rightarrow> (string \<times> Lexer) result" where
  "readWord_slow_loop startLine startCol l buf =
     (if lx_pos l < length (lx_src l)
      then let b = lx_src l ! lx_pos l
           in if b = BACKSLASH \<and> lx_pos l + 1 < length (lx_src l)
              then rbind (advance l) (\<lambda>(b1, l1).
                   rbind (advance l1) (\<lambda>(b2, l2).
                     readWord_slow_loop startLine startCol l2 (buf @ [b1, b2])))
              else if \<not> lx_inArgs l \<and> is_quote b \<and> buf \<noteq> []
              then rbind (appendQuotedSegment l buf b startLine startCol) (\<lambda>(buf', l1).
                     readWord_slow_loop startLine startCol l1 buf')
              else if \<not> isWordByte l b \<and> \<not> (b = CHR ''@'' \<and> buf \<noteq> []) then Inr (buf, l)
              else rbind (advance l) (\<lambda>(b1, l1). readWord_slow_loop startLine startCol l1 (buf @ [b1]))
      else Inr (buf, l))"
  by pat_completeness auto
termination
  by (relation "measure (\<lambda>(sl, sc, l, buf). length (lx_src l) - lx_pos l)")
    (auto dest: advance_shrinks advance2_shrinks appendQuotedSegment_shrinks)

declare readWord_slow_loop.simps [simp del]

fun advance_n :: "nat \<Rightarrow> Lexer \<Rightarrow> string \<Rightarrow> (string \<times> Lexer) result" where
  "advance_n 0 l buf = Inr (buf, l)"
| "advance_n (Suc n) l buf = rbind (advance l) (\<lambda>(b, l1). advance_n n l1 (buf @ [b]))"

definition readWord_slow :: "Lexer \<Rightarrow> nat \<Rightarrow> nat \<Rightarrow> (Token \<times> Lexer) result" where
  "readWord_slow l startLine startCol =
     rbind (advance_n (dollarParenPrefix l) l []) (\<lambda>(buf, l1).
     rbind (readWord_slow_loop startLine startCol l1 buf) (\<lambda>(buf', l2).
       Inr (newToken tokWord buf' startLine startCol, l2)))"

definition readWord :: "Lexer \<Rightarrow> nat \<Rightarrow> nat \<Rightarrow> (Token \<times> Lexer) result" where
  "readWord l startLine startCol =
     (let start = lx_pos l;
          (pos, complex) = readWord_scan l start (start + dollarParenPrefix l)
      in if \<not> complex
         then if 0 < pos then Inr (newToken tokWord (src_slice l start pos) startLine startCol, jump l pos)
              else Inl IndexPanic
         else readWord_slow l startLine startCol)"

section \<open>Numbers\<close>

definition is_digit :: "char \<Rightarrow> bool" where
  "is_digit b \<longleftrightarrow> byte_in (CHR ''0'') (CHR ''9'') b"

function scan_digits :: "string \<Rightarrow> nat \<Rightarrow> nat" where
  "scan_digits src pos = (if pos < length src \<and> is_digit (src ! pos) then scan_digits src (pos + 1) else pos)"
  by pat_completeness auto
termination
  by (relation "measure (\<lambda>(src, pos). length src - pos)") auto

declare scan_digits.simps [simp del]

text \<open>The tail of a word that starts with digits; \<open>None\<close> is the restart as \<^verbatim>\<open>readWord\<close>.\<close>

function number_tail :: "Lexer \<Rightarrow> nat \<Rightarrow> nat option" where
  "number_tail l pos =
     (if pos < length (lx_src l) \<and> isWordByte l (lx_src l ! pos)
      then if lx_src l ! pos = BACKSLASH \<and> pos + 1 < length (lx_src l) then None
           else number_tail l (pos + 1)
      else Some pos)"
  by pat_completeness auto
termination
  by (relation "measure (\<lambda>(l, pos). length (lx_src l) - pos)") auto

declare number_tail.simps [simp del]

definition readNumberOrWord :: "Lexer \<Rightarrow> nat \<Rightarrow> nat \<Rightarrow> (Token \<times> Lexer) result" where
  "readNumberOrWord l startLine startCol =
     (let start = lx_pos l;
          finish = (\<lambda>kind pos.
            if 0 < pos then Inr (newToken kind (src_slice l start pos) startLine startCol, jump l pos)
            else Inl IndexPanic);
          pos = scan_digits (lx_src l) start
      in if pos < length (lx_src l) \<and> isWordByte l (lx_src l ! pos)
         then (case number_tail l pos of
                 None \<Rightarrow> readWord l startLine startCol
               | Some pos' \<Rightarrow> finish tokWord pos')
         else finish tokInt pos)"

section \<open>Tokens\<close>

definition readOp1 :: "Lexer \<Rightarrow> TokKind \<Rightarrow> (Token \<times> Lexer) result" where
  "readOp1 l kind = rbind (advance l) (\<lambda>(_, l'). Inr (plainToken kind (lx_line l) (lx_col l), l'))"

text \<open>\<open>long\<close> is the kind when \<^verbatim>\<open>=\<close> follows.\<close>

definition readRel :: "Lexer \<Rightarrow> TokKind \<Rightarrow> TokKind \<Rightarrow> (Token \<times> Lexer) result" where
  "readRel l short long =
     rbind (advance l) (\<lambda>(_, l1).
       if lx_pos l1 < length (lx_src l1) \<and> lx_src l1 ! lx_pos l1 = CHR ''=''
       then rbind (advance l1) (\<lambda>(_, l2). Inr (plainToken long (lx_line l) (lx_col l), l2))
       else Inr (plainToken short (lx_line l) (lx_col l), l1))"

definition readOp2 :: "Lexer \<Rightarrow> TokKind \<Rightarrow> (Token \<times> Lexer) result" where
  "readOp2 l kind =
     rbind (advance l) (\<lambda>(_, l1). rbind (advance l1) (\<lambda>(_, l2).
       Inr (plainToken kind (lx_line l) (lx_col l), l2)))"

definition followed_by_eq :: "Lexer \<Rightarrow> bool" where
  "followed_by_eq l \<longleftrightarrow> lx_pos l + 1 < length (lx_src l) \<and> lx_src l ! (lx_pos l + 1) = CHR ''=''"

definition readToken_at :: "Lexer \<Rightarrow> (Token \<times> Lexer) result" where
  "readToken_at l =
     (let startLine = lx_line l; startCol = lx_col l; b = lx_src l ! lx_pos l
      in if b = CHR ''('' then readOp1 l tokLParen
         else if b = CHR '')'' then readOp1 l tokRParen
         else if is_quote b then readString l startLine startCol b
         else if b = CHR ''<'' \<and> \<not> lx_inArgs l then readRel l tokLt tokLe
         else if b = CHR ''>'' \<and> \<not> lx_inArgs l then readRel l tokGt tokGe
         else if b = CHR ''='' \<and> \<not> lx_inArgs l \<and> followed_by_eq l then readOp2 l tokEq
         else if b = CHR ''!'' \<and> \<not> lx_inArgs l \<and> followed_by_eq l then readOp2 l tokNotEq
         else if is_digit b then readNumberOrWord l startLine startCol
         else if isIdentStart b then readIdentOrWord l startLine startCol
         else if isWordByte l b then readWord l startLine startCol
         else rbind (advance l) (\<lambda>(_, l').
                Inl (throwParse l' startLine startCol ''unexpected character %q'' [[b]])))"

definition readToken :: "Lexer \<Rightarrow> (Token \<times> Lexer) result" where
  "readToken l =
     rbind (skipTrivia l) (\<lambda>l.
       if length (lx_src l) \<le> lx_pos l then Inr (plainToken tokEOF (lx_line l) (lx_col l), l)
       else readToken_at l)"

section \<open>The fast paths compute what the slow paths do\<close>

definition at :: "Lexer \<Rightarrow> nat \<Rightarrow> Lexer" where
  "at l p = (if p = lx_pos l then l else jump l p)"

lemma at_simps [simp]:
  "lx_src (at l p) = lx_src l" "lx_pos (at l p) = p" "lx_inArgs (at l p) = lx_inArgs l" "at l (lx_pos l) = l"
  "lx_name (at l p) = lx_name l" "isWordByte (at l p) = isWordByte l"
  by (simp_all add: at_def jump_def isWordByte_def fun_eq_iff)

lemma at_jump: "lx_pos l < p \<Longrightarrow> at l p = jump l p"
  by (simp add: at_def)

lemma advance_at:
  assumes "lx_pos l \<le> p" "p < length (lx_src l)" "lx_src l ! p \<noteq> NL" "lx_src l ! p \<noteq> CR"
  shows "advance (at l p) = Inr (lx_src l ! p, at l (p + 1))"
  using assms by (auto simp: advance_def at_def jump_def Let_def)

lemma advance_step_at:
  "lx_pos l \<le> p \<Longrightarrow> p < length (lx_src l) \<Longrightarrow> lx_src l ! p \<noteq> NL \<Longrightarrow> lx_src l ! p \<noteq> CR \<Longrightarrow>
   advance_step (at l p) (at l (p + 1))"
  by (blast intro: advance_stepI advance_at)

lemma slice_self [simp]: "src_slice l p p = []"
  by (simp add: src_slice_def)

lemma slice_step:
  "start \<le> p \<Longrightarrow> p < length (lx_src l) \<Longrightarrow> src_slice l start (p + 1) = src_slice l start p @ [lx_src l ! p]"
  by (simp add: src_slice_def Suc_diff_le take_Suc_conv_app_nth)

lemma slice_Nil: "start \<le> p \<Longrightarrow> p \<le> length (lx_src l) \<Longrightarrow> src_slice l start p = [] \<longleftrightarrow> p = start"
  by (auto simp: src_slice_def)

lemma wordBytes_newline: "wordBytes NL = 0" "wordBytes CR = 0"
  by code_simp+

lemma isIdentCont_newline: "\<not> isIdentCont NL" "\<not> isIdentCont CR"
  by code_simp+

lemma word_byte_not_newline: "isWordByte l b \<Longrightarrow> b \<noteq> NL \<and> b \<noteq> CR"
  using wordBytes_newline by (auto simp: isWordByte_def)

lemma ident_byte_not_newline: "isIdentCont b \<Longrightarrow> b \<noteq> NL \<and> b \<noteq> CR"
  using isIdentCont_newline by auto

lemma quote_plain: "is_quote b \<Longrightarrow> b \<noteq> NL \<and> b \<noteq> CR \<and> b \<noteq> BACKSLASH"
  by (auto simp: is_quote_def byte_consts)

lemma at_sign_plain: "CHR ''@'' \<noteq> NL" "CHR ''@'' \<noteq> CR"
  by (simp_all add: byte_consts)

lemma readString_scan_slow:
  assumes "readString_scan (lx_src l) quote q = Some p" and "is_quote quote" and "lx_pos l \<le> q"
  shows "quoted_loop quote sl sc (at l q) (src_slice l (lx_pos l) q) = Inr (src_slice l (lx_pos l) p, at l (p + 1))"
  using assms
proof (induction "lx_src l" quote q rule: readString_scan.induct)
  case (1 quote q)
  have q: "q < length (lx_src l)" using 1(2) by (simp add: readString_scan.simps [of _ _ q] split: if_splits)
  show ?case
  proof (cases "lx_src l ! q = quote")
    case True
    then have "p = q" using 1(2) q by (simp add: readString_scan.simps [of _ _ q])
    then show ?thesis
      using True q 1(4) quote_plain [OF 1(3)]
        quoted_loop_close [OF _ _ advance_at [OF 1(4) q], of quote sl sc] by simp
  next
    case False
    then have b: "lx_src l ! q \<noteq> BACKSLASH" "lx_src l ! q \<noteq> NL" "lx_src l ! q \<noteq> CR"
      and s: "readString_scan (lx_src l) quote (q + 1) = Some p"
      using 1(2) q by (auto simp: readString_scan.simps [of _ _ q] split: if_splits)
    have "quoted_loop quote sl sc (at l q) (src_slice l (lx_pos l) q)
        = quoted_loop quote sl sc (at l (q + 1)) (src_slice l (lx_pos l) (q + 1))"
      using quoted_loop_plain [OF _ _ _ advance_at [OF 1(4) q b(2,3)], of quote sl sc] q b False
        slice_step [OF 1(4) q] by simp
    then show ?thesis using 1(1) [OF q False _ s 1(3)] b 1(4) by simp
  qed
qed

lemma readString_scan_bounds:
  "readString_scan src quote q = Some p \<Longrightarrow> q \<le> p \<and> p < length src \<and> src ! p = quote"
proof (induction src quote q rule: readString_scan.induct)
  case (1 src quote q)
  then show ?case by (simp add: readString_scan.simps [of src quote q] split: if_splits)
qed

text \<open>\<^verbatim>\<open>readString\<close> is its slow path behind the opening quote.\<close>

lemma readString_eq_slow:
  assumes "is_quote quote"
  shows "readString l sl sc quote = rbind (advance l) (\<lambda>(_, l'). readString_slow l' sl sc quote)"
proof -
  have "(case readString_scan (lx_src l1) quote (lx_pos l1) of
      Some p \<Rightarrow> Inr (newToken tokString (src_slice l1 (lx_pos l1) p) sl sc,
          l1\<lparr>lx_pos := p + 1, lx_col := lx_col l1 + (p - lx_pos l1 + 1), lx_prevByte := quote\<rparr>)
    | None \<Rightarrow> readString_slow l1 sl sc quote) = readString_slow l1 sl sc quote" for l1
  proof (cases "readString_scan (lx_src l1) quote (lx_pos l1)")
    case (Some p)
    note b = readString_scan_bounds [OF Some]
    have "at l1 (p + 1)
        = l1\<lparr>lx_pos := p + 1, lx_col := lx_col l1 + (p - lx_pos l1 + 1), lx_prevByte := quote\<rparr>"
      using b by (simp add: at_def jump_def Suc_diff_le)
    then show ?thesis
      using Some readString_scan_slow [OF Some assms order_refl, of sl sc]
      by (simp add: readString_slow_def)
  qed simp
  then show ?thesis by (simp add: readString_def)
qed

text \<open>Bytes that a word may contain are copied by plain steps.\<close>

lemma readIdent_scan_slow:
  assumes "readIdent_scan l (lx_pos l) q pure = (p, pure', False)" and "lx_pos l \<le> q" and "q \<le> length (lx_src l)"
  shows "readIdent_slow_loop sl sc (at l q) (src_slice l (lx_pos l) q) pure
      = Inr ((src_slice l (lx_pos l) p, pure'), at l p) \<and> q \<le> p \<and> p \<le> length (lx_src l)
    \<and> advance_step\<^sup>*\<^sup>* (at l q) (at l p)"
  using assms
proof (induction l "lx_pos l" q pure rule: readIdent_scan.induct)
  case (1 l q pure)
  let ?b = "lx_src l ! q"
  show ?case
  proof (cases "q < length (lx_src l)")
    case False
    then have "p = q" "pure' = pure" using 1(3) by (simp_all add: readIdent_scan.simps [of l _ q])
    then show ?thesis using False 1(5) by (subst readIdent_slow_loop.simps) simp
  next
    case q: True
    have simple: "\<not> (?b = BACKSLASH \<and> q + 1 < length (lx_src l) \<or> \<not> lx_inArgs l \<and> is_quote ?b)"
      using 1(3) q by (auto simp: readIdent_scan.simps [of l _ q] Let_def split: if_splits)
    have buf: "src_slice l (lx_pos l) q \<noteq> [] \<longleftrightarrow> lx_pos l < q" using slice_Nil [OF 1(4), of l] q 1(4) by auto
    consider (ident) "isIdentCont ?b"
      | (word) "\<not> isIdentCont ?b" "isWordByte l ?b \<or> ?b = CHR ''@'' \<and> lx_pos l < q"
      | (stop) "\<not> isIdentCont ?b" "\<not> (isWordByte l ?b \<or> ?b = CHR ''@'' \<and> lx_pos l < q)" by blast
    then show ?thesis
    proof cases
      case ident
      have nl: "?b \<noteq> NL" "?b \<noteq> CR" using ident_byte_not_newline [OF ident] by auto
      have s: "readIdent_scan l (lx_pos l) (q + 1) pure = (p, pure', False)"
        using 1(3) q simple ident by (auto simp: readIdent_scan.simps [of l _ q] Let_def split: if_splits)
      have "readIdent_slow_loop sl sc (at l q) (src_slice l (lx_pos l) q) pure
          = readIdent_slow_loop sl sc (at l (q + 1)) (src_slice l (lx_pos l) (q + 1)) pure"
        using q simple ident advance_at [OF 1(4) q nl] slice_step [OF 1(4) q]
        by (subst readIdent_slow_loop.simps) (auto simp: Let_def)
      then show ?thesis
        using 1(1) [OF q refl simple ident s] 1(4) q advance_step_at [OF 1(4) q nl]
        by (auto intro: converse_rtranclp_into_rtranclp)
    next
      case word
      have nl: "?b \<noteq> NL" "?b \<noteq> CR" using word(2) word_byte_not_newline at_sign_plain by metis+
      have s: "readIdent_scan l (lx_pos l) (q + 1) False = (p, pure', False)"
        using 1(3) q simple word by (auto simp: readIdent_scan.simps [of l _ q] Let_def split: if_splits)
      have "readIdent_slow_loop sl sc (at l q) (src_slice l (lx_pos l) q) pure
          = readIdent_slow_loop sl sc (at l (q + 1)) (src_slice l (lx_pos l) (q + 1)) False"
        using q simple word advance_at [OF 1(4) q nl] slice_step [OF 1(4) q] buf
        by (subst readIdent_slow_loop.simps) (auto simp: Let_def)
      then show ?thesis
        using 1(2) [OF q refl simple word s] 1(4) q advance_step_at [OF 1(4) q nl]
        by (auto intro: converse_rtranclp_into_rtranclp)
    next
      case stop
      then have "p = q" "pure' = pure" using 1(3) q simple by (auto simp: readIdent_scan.simps [of l _ q] Let_def split: if_splits)
      moreover have "\<not> is_quote ?b"
        using simple stop(2) by (auto simp: is_quote_def isWordByte_def wordBytes_def)
      ultimately show ?thesis
        using q simple stop buf by (subst readIdent_slow_loop.simps) (auto simp: Let_def)
    qed
  qed
qed

lemma readIdent_scan_progress:
  assumes "lx_pos l < length (lx_src l)" and "isIdentStart (lx_src l ! lx_pos l)"
    and "readIdent_scan l (lx_pos l) (lx_pos l) True = (p, pure, False)"
  shows "lx_pos l < p"
proof -
  let ?b = "lx_src l ! lx_pos l"
  have ic: "isIdentCont ?b" using assms(2) by (auto simp: isIdentStart_def isIdentCont_def)
  then have "?b \<noteq> BACKSLASH" "\<not> is_quote ?b"
    by (auto simp: isIdentCont_def is_quote_def byte_in_def byte_def byte_consts)
  then have "readIdent_scan l (lx_pos l) (lx_pos l + 1) True = (p, pure, False)"
    using assms(1,3) ic by (simp add: readIdent_scan.simps [of l _ "lx_pos l"])
  moreover have "q \<le> p" if "readIdent_scan l s q pu = (p, pu', False)" for s q pu pu'
    using that
  proof (induction l s q pu rule: readIdent_scan.induct)
    case (1 l s q pu)
    then show ?case by (subst (asm) (3) readIdent_scan.simps) (auto simp: Let_def split: if_splits)
  qed
  ultimately show ?thesis by fastforce
qed

text \<open>\<^verbatim>\<open>readIdentOrWord\<close> is its slow path.\<close>

lemma readIdentOrWord_eq_slow:
  assumes "lx_pos l < length (lx_src l)" and "isIdentStart (lx_src l ! lx_pos l)"
  shows "readIdentOrWord l sl sc = readIdent_slow l sl sc"
proof -
  obtain p pure c where s: "readIdent_scan l (lx_pos l) (lx_pos l) True = (p, pure, c)"
    by (cases "readIdent_scan l (lx_pos l) (lx_pos l) True")
  show ?thesis
  proof (cases c)
    case False
    then have s': "readIdent_scan l (lx_pos l) (lx_pos l) True = (p, pure, False)" using s by simp
    then have p: "lx_pos l < p" using readIdent_scan_progress assms by blast
    then show ?thesis
      using readIdent_scan_slow [OF s' order_refl, of sl sc] s' assms(1) at_jump [OF p]
      by (simp add: readIdentOrWord_def readIdent_slow_def)
  qed (simp add: readIdentOrWord_def s)
qed

lemma readWord_scan_slow:
  assumes "readWord_scan l (lx_pos l) q = (p, False)" and "lx_pos l \<le> q" and "q \<le> length (lx_src l)"
  shows "readWord_slow_loop sl sc (at l q) (src_slice l (lx_pos l) q)
      = Inr (src_slice l (lx_pos l) p, at l p) \<and> q \<le> p \<and> p \<le> length (lx_src l)
    \<and> advance_step\<^sup>*\<^sup>* (at l q) (at l p)"
  using assms
proof (induction l "lx_pos l" q rule: readWord_scan.induct)
  case (1 l q)
  let ?b = "lx_src l ! q"
  show ?case
  proof (cases "q < length (lx_src l)")
    case False
    then have "p = q" using 1(2) by (simp add: readWord_scan.simps [of l _ q])
    then show ?thesis using False 1(4) by (subst readWord_slow_loop.simps) simp
  next
    case q: True
    have simple: "\<not> (?b = BACKSLASH \<and> q + 1 < length (lx_src l) \<or> \<not> lx_inArgs l \<and> is_quote ?b \<and> lx_pos l < q)"
      using 1(2) q by (auto simp: readWord_scan.simps [of l _ q] Let_def split: if_splits)
    have buf: "src_slice l (lx_pos l) q \<noteq> [] \<longleftrightarrow> lx_pos l < q" using slice_Nil [OF 1(3), of l] q 1(3) by auto
    show ?thesis
    proof (cases "\<not> isWordByte l ?b \<and> \<not> (?b = CHR ''@'' \<and> lx_pos l < q)")
      case True
      then have "p = q" using 1(2) q simple by (auto simp: readWord_scan.simps [of l _ q] Let_def split: if_splits)
      then show ?thesis using q simple True buf by (subst readWord_slow_loop.simps) (auto simp: Let_def)
    next
      case False
      then have nl: "?b \<noteq> NL" "?b \<noteq> CR" using word_byte_not_newline at_sign_plain by metis+
      have s: "readWord_scan l (lx_pos l) (q + 1) = (p, False)"
        using 1(2) q simple False by (auto simp: readWord_scan.simps [of l _ q] Let_def split: if_splits)
      have "readWord_slow_loop sl sc (at l q) (src_slice l (lx_pos l) q)
          = readWord_slow_loop sl sc (at l (q + 1)) (src_slice l (lx_pos l) (q + 1))"
        using q simple False advance_at [OF 1(3) q nl] slice_step [OF 1(3) q] buf
        by (subst readWord_slow_loop.simps) (auto simp: Let_def)
      then show ?thesis
        using 1(1) [OF q refl simple False s] 1(3) q advance_step_at [OF 1(3) q nl]
        by (auto intro: converse_rtranclp_into_rtranclp)
    qed
  qed
qed

text \<open>The \<^verbatim>\<open>$(...)\<close> prefix of an argument holds no line end.\<close>

definition plain_range :: "Lexer \<Rightarrow> nat \<Rightarrow> nat \<Rightarrow> bool" where
  "plain_range l a b \<longleftrightarrow> (\<forall>i. a \<le> i \<and> i < b \<longrightarrow> lx_src l ! i \<noteq> NL \<and> lx_src l ! i \<noteq> CR)"

lemma plain_range_empty [simp]: "plain_range l a a"
  by (auto simp: plain_range_def)

lemma plain_range_snoc:
  "plain_range l a b \<Longrightarrow> lx_src l ! b \<noteq> NL \<Longrightarrow> lx_src l ! b \<noteq> CR \<Longrightarrow> plain_range l a (Suc b)"
  unfolding plain_range_def by (metis less_antisym)

lemma plain_range_first:
  "plain_range l a b \<Longrightarrow> a < b \<Longrightarrow> lx_src l ! a \<noteq> NL \<and> lx_src l ! a \<noteq> CR \<and> plain_range l (Suc a) b"
  unfolding plain_range_def by auto

lemma dollarParen_scan_plain:
  assumes "dollarParen_scan l q = n" and "n \<noteq> 0" and "lx_pos l + 2 \<le> q"
    and "plain_range l (lx_pos l) q"
  shows "lx_pos l + n \<le> length (lx_src l) \<and> 2 < n
    \<and> plain_range l (lx_pos l) (lx_pos l + n)"
  using assms
proof (induction l q rule: dollarParen_scan.induct)
  case (1 l q)
  let ?b = "lx_src l ! q"
  have q: "q < length (lx_src l)" using 1(2,3) by (auto simp: dollarParen_scan.simps [of l q] split: if_splits)
  show ?case
  proof (cases "?b = CHR '')''")
    case True
    then have "n = q + 1 - lx_pos l" "q \<noteq> lx_pos l + 2"
      using 1(2,3) q by (auto simp: dollarParen_scan.simps [of l q] split: if_splits)
    moreover have "CHR '')'' \<noteq> NL" "CHR '')'' \<noteq> CR" by (simp_all add: byte_consts)
    moreover have "lx_pos l + n = Suc q" using calculation(1) 1(4) by simp
    ultimately show ?thesis using q 1(4) plain_range_snoc [OF 1(5)] True by simp
  next
    case False
    then have stop: "\<not> (?b = CHR ''('' \<or> ?b = CHR ''#'' \<or> ?b = BACKSLASH \<or> isWhitespace ?b)"
      and s: "dollarParen_scan l (q + 1) = n"
      using 1(2,3) q by (auto simp: dollarParen_scan.simps [of l q] Let_def split: if_splits)
    then have "?b \<noteq> NL" "?b \<noteq> CR" by (auto simp: isWhitespace_def)
    then show ?thesis using 1(1) [OF q refl False stop s 1(3)] 1(4) plain_range_snoc [OF 1(5)] by simp
  qed
qed

lemma dollarParenPrefix_plain:
  assumes "dollarParenPrefix l = n"
  shows "n = 0 \<or> lx_pos l + n \<le> length (lx_src l)
    \<and> plain_range l (lx_pos l) (lx_pos l + n)"
proof (cases "n = 0")
  case False
  have guard: "\<not> (\<not> lx_inArgs l \<or> length (lx_src l) \<le> lx_pos l + 2 \<or> lx_src l ! lx_pos l \<noteq> CHR ''$''
      \<or> lx_src l ! (lx_pos l + 1) \<noteq> CHR ''('')"
    using False assms unfolding dollarParenPrefix_def by meson
  then have s: "dollarParen_scan l (lx_pos l + 2) = n"
    using assms unfolding dollarParenPrefix_def by (simp only: if_False)
  have d: "lx_src l ! lx_pos l = CHR ''$''" "lx_src l ! (lx_pos l + 1) = CHR ''(''"
    using guard by blast+
  have "plain_range l (lx_pos l) (Suc (lx_pos l))"
    using plain_range_snoc [OF plain_range_empty] d(1) by (simp add: byte_consts)
  then have "plain_range l (lx_pos l) (lx_pos l + 2)"
    using plain_range_snoc [of l "lx_pos l" "Suc (lx_pos l)"] d(2) by (simp add: byte_consts)
  then show ?thesis using dollarParen_scan_plain [OF s False] by simp
qed simp

lemma advance_n_at:
  assumes "lx_pos l \<le> q" and "q + n \<le> length (lx_src l)"
    and "plain_range l q (q + n)"
  shows "advance_n n (at l q) (src_slice l (lx_pos l) q) = Inr (src_slice l (lx_pos l) (q + n), at l (q + n))
    \<and> advance_step\<^sup>*\<^sup>* (at l q) (at l (q + n))"
  using assms
proof (induction n arbitrary: q)
  case (Suc n)
  then have q: "q < length (lx_src l)" "lx_src l ! q \<noteq> NL" "lx_src l ! q \<noteq> CR"
    using plain_range_first [OF Suc.prems(3)] by simp_all
  have "plain_range l (q + 1) (q + 1 + n)" using plain_range_first [OF Suc.prems(3)] by simp
  then have ih: "advance_n n (at l (q + 1)) (src_slice l (lx_pos l) (q + 1))
        = Inr (src_slice l (lx_pos l) (q + Suc n), at l (q + Suc n))"
      "advance_step\<^sup>*\<^sup>* (at l (q + 1)) (at l (q + Suc n))"
    using Suc.IH [of "q + 1"] Suc.prems(1,2) by simp_all
  have "advance_n (Suc n) (at l q) (src_slice l (lx_pos l) q)
      = advance_n n (at l (q + 1)) (src_slice l (lx_pos l) (q + 1))"
    unfolding slice_step [OF Suc.prems(1) q(1)] advance_n.simps advance_at [OF Suc.prems(1) q] by simp
  moreover have "advance_step\<^sup>*\<^sup>* (at l q) (at l (q + Suc n))"
    using advance_step_at [OF Suc.prems(1) q] ih(2) by (rule converse_rtranclp_into_rtranclp)
  ultimately show ?case using ih(1) by simp
qed simp

text \<open>\<^verbatim>\<open>readWord\<close> is its slow path.\<close>

lemma readWord_prefix:
  assumes "lx_pos l < length (lx_src l)"
  shows "advance_n (dollarParenPrefix l) l [] = Inr (src_slice l (lx_pos l) (lx_pos l + dollarParenPrefix l),
      at l (lx_pos l + dollarParenPrefix l)) \<and> lx_pos l + dollarParenPrefix l \<le> length (lx_src l)
    \<and> advance_step\<^sup>*\<^sup>* l (at l (lx_pos l + dollarParenPrefix l))"
  using advance_n_at [of l "lx_pos l" "dollarParenPrefix l"] dollarParenPrefix_plain [OF refl, of l] assms
  by auto

lemma readWord_scan_progress:
  assumes "lx_pos l < length (lx_src l)" and "isWordByte l (lx_src l ! lx_pos l)"
    and "readWord_scan l (lx_pos l) (lx_pos l + dollarParenPrefix l) = (p, False)"
  shows "lx_pos l < p"
proof -
  have mono: "q \<le> p" if "readWord_scan l s q = (p, False)" for s q
    using that
  proof (induction l s q rule: readWord_scan.induct)
    case (1 l s q)
    then show ?case by (subst (asm) (2) readWord_scan.simps) (auto simp: Let_def split: if_splits)
  qed
  show ?thesis
  proof (cases "dollarParenPrefix l = 0")
    case True
    then have "readWord_scan l (lx_pos l) (lx_pos l + 1) = (p, False)"
      using assms by (auto simp: readWord_scan.simps [of l _ "lx_pos l"] Let_def split: if_splits)
    then show ?thesis using mono by fastforce
  next
    case False
    then show ?thesis using mono [OF assms(3)] by simp
  qed
qed

lemma readWord_eq_slow:
  assumes "lx_pos l < length (lx_src l)" and "isWordByte l (lx_src l ! lx_pos l)"
  shows "readWord l sl sc = readWord_slow l sl sc"
proof -
  obtain p c where s: "readWord_scan l (lx_pos l) (lx_pos l + dollarParenPrefix l) = (p, c)"
    by (cases "readWord_scan l (lx_pos l) (lx_pos l + dollarParenPrefix l)")
  show ?thesis
  proof (cases c)
    case False
    then have s': "readWord_scan l (lx_pos l) (lx_pos l + dollarParenPrefix l) = (p, False)" using s by simp
    note pre = readWord_prefix [OF assms(1)]
    have p: "lx_pos l < p" using readWord_scan_progress [OF assms s'] .
    show ?thesis
      using readWord_scan_slow [OF s', of sl sc] pre s' p at_jump [OF p]
      by (simp add: readWord_def readWord_slow_def)
  qed (simp add: readWord_def s)
qed

section \<open>Every token consumes input and no index is out of range\<close>

definition reads0 :: "Lexer \<Rightarrow> ('a \<times> Lexer) result \<Rightarrow> bool" where
  "reads0 l r \<longleftrightarrow> (case r of Inl e \<Rightarrow> is_ParseErr e | Inr (x, l') \<Rightarrow> advance_step\<^sup>*\<^sup>* l l')"

lemma reads0_simps [simp]:
  "reads0 l (Inl e) \<longleftrightarrow> is_ParseErr e" "reads0 l (Inr (x, l')) \<longleftrightarrow> advance_step\<^sup>*\<^sup>* l l'"
  by (simp_all add: reads0_def)

lemma reads0_step: "advance_step l l1 \<Longrightarrow> reads0 l1 r \<Longrightarrow> reads l r"
  by (auto simp: reads0_def reads_def split: sum.splits intro: rtranclp_into_tranclp2)

lemma reads_plus: "advance_step\<^sup>+\<^sup>+ l l1 \<Longrightarrow> reads0 l1 r \<Longrightarrow> reads l r"
  by (auto simp: reads0_def reads_def split: sum.splits intro: tranclp_rtranclp_tranclp)

lemma reads_reads0: "reads l r \<Longrightarrow> reads0 l r"
  by (auto simp: reads0_def reads_def split: sum.splits)

lemma reads0_rbind:
  assumes "reads0 l m" and "\<And>x l1. m = Inr (x, l1) \<Longrightarrow> reads0 l1 (f (x, l1))"
  shows "reads0 l (rbind m f)"
proof (cases m)
  case (Inr p)
  obtain x l1 where p: "p = (x, l1)" by (cases p)
  then have "advance_step\<^sup>*\<^sup>* l l1" "reads0 l1 (f (x, l1))" using assms Inr by auto
  then show ?thesis using Inr p by (auto simp: reads0_def split: sum.splits intro: rtranclp_trans)
qed (use assms in auto)

lemma plus_of_star: "advance_step\<^sup>*\<^sup>* l l' \<Longrightarrow> lx_pos l \<noteq> lx_pos l' \<Longrightarrow> advance_step\<^sup>+\<^sup>+ l l'"
  by (auto dest: rtranclpD)

lemma advance_rbind:
  assumes "lx_pos l < length (lx_src l)"
    and "\<And>l1. advance l = Inr (lx_src l ! lx_pos l, l1) \<Longrightarrow> reads0 l1 (f (lx_src l ! lx_pos l, l1))"
  shows "reads l (rbind (advance l) f)"
  using advance_in [OF assms(1)] assms(2) by (metis rbind_simps(2) reads0_step)

lemma readIdent_slow_loop_reads: "reads0 l (readIdent_slow_loop sl sc l buf pure)"
proof (induction sl sc l buf pure rule: readIdent_slow_loop.induct)
  case (1 sl sc l buf pure)
  let ?b = "lx_src l ! lx_pos l"
  show ?case
  proof (cases "lx_pos l < length (lx_src l)")
    case q: True
    consider (esc) "?b = BACKSLASH \<and> lx_pos l + 1 < length (lx_src l)"
      | (ident) "\<not> (?b = BACKSLASH \<and> lx_pos l + 1 < length (lx_src l))" "isIdentCont ?b"
      | (word) "\<not> (?b = BACKSLASH \<and> lx_pos l + 1 < length (lx_src l))" "\<not> isIdentCont ?b"
          "isWordByte l ?b \<or> ?b = CHR ''@'' \<and> buf \<noteq> []"
      | (quote) "\<not> (?b = BACKSLASH \<and> lx_pos l + 1 < length (lx_src l))" "\<not> isIdentCont ?b"
          "\<not> (isWordByte l ?b \<or> ?b = CHR ''@'' \<and> buf \<noteq> [])" "is_quote ?b \<and> buf \<noteq> []"
      | (stop) "\<not> (?b = BACKSLASH \<and> lx_pos l + 1 < length (lx_src l))" "\<not> isIdentCont ?b"
          "\<not> (isWordByte l ?b \<or> ?b = CHR ''@'' \<and> buf \<noteq> [])" "\<not> (is_quote ?b \<and> buf \<noteq> [])"
      by blast
    then show ?thesis
    proof cases
      case esc
      obtain l1 l2 where a: "advance l = Inr (?b, l1)" "advance_step l l1"
          "advance l1 = Inr (lx_src l ! (lx_pos l + 1), l2)" "advance_step l1 l2"
        using advance_backslash esc by metis
      have "reads0 l2 (readIdent_slow_loop sl sc l2 (buf @ [?b, lx_src l ! (lx_pos l + 1)]) False)"
        using 1(1) [OF q refl esc a(1) refl a(3) refl] .
      then show ?thesis
        using q esc a(1,3) reads_reads0 [OF reads_step [OF a(2) reads0_step [OF a(4)]]]
        by (subst readIdent_slow_loop.simps) simp
    next
      case ident
      obtain l1 where a: "advance l = Inr (?b, l1)" "advance_step l l1" using q by (rule advance_in)
      then show ?thesis
        using q ident reads_reads0 [OF reads0_step [OF a(2) 1(2) [OF q refl ident a(1) refl]]]
        by (subst readIdent_slow_loop.simps) auto
    next
      case word
      obtain l1 where a: "advance l = Inr (?b, l1)" "advance_step l l1" using q by (rule advance_in)
      then show ?thesis
        using q word reads_reads0 [OF reads0_step [OF a(2) 1(3) [OF q refl word a(1) refl]]]
        by (subst readIdent_slow_loop.simps) auto
    next
      case quote
      have "reads0 l (rbind (appendQuotedSegment l buf ?b sl sc)
          (\<lambda>(buf', l1). readIdent_slow_loop sl sc l1 buf' False))"
        using reads_reads0 [OF appendQuotedSegment_reads [OF q]] 1(4) [OF q refl quote]
        by (intro reads0_rbind) auto
      then show ?thesis using q quote by (subst readIdent_slow_loop.simps) auto
    next
      case stop
      then show ?thesis using q by (subst readIdent_slow_loop.simps) auto
    qed
  qed (subst readIdent_slow_loop.simps, simp)
qed

lemma readWord_slow_loop_reads: "reads0 l (readWord_slow_loop sl sc l buf)"
proof (induction sl sc l buf rule: readWord_slow_loop.induct)
  case (1 sl sc l buf)
  let ?b = "lx_src l ! lx_pos l"
  show ?case
  proof (cases "lx_pos l < length (lx_src l)")
    case q: True
    consider (esc) "?b = BACKSLASH \<and> lx_pos l + 1 < length (lx_src l)"
      | (quote) "\<not> (?b = BACKSLASH \<and> lx_pos l + 1 < length (lx_src l))"
          "\<not> lx_inArgs l \<and> is_quote ?b \<and> buf \<noteq> []"
      | (stop) "\<not> (?b = BACKSLASH \<and> lx_pos l + 1 < length (lx_src l))"
          "\<not> (\<not> lx_inArgs l \<and> is_quote ?b \<and> buf \<noteq> [])" "\<not> isWordByte l ?b \<and> \<not> (?b = CHR ''@'' \<and> buf \<noteq> [])"
      | (word) "\<not> (?b = BACKSLASH \<and> lx_pos l + 1 < length (lx_src l))"
          "\<not> (\<not> lx_inArgs l \<and> is_quote ?b \<and> buf \<noteq> [])" "\<not> (\<not> isWordByte l ?b \<and> \<not> (?b = CHR ''@'' \<and> buf \<noteq> []))"
      by blast
    then show ?thesis
    proof cases
      case esc
      obtain l1 l2 where a: "advance l = Inr (?b, l1)" "advance_step l l1"
          "advance l1 = Inr (lx_src l ! (lx_pos l + 1), l2)" "advance_step l1 l2"
        using advance_backslash esc by metis
      have "reads0 l2 (readWord_slow_loop sl sc l2 (buf @ [?b, lx_src l ! (lx_pos l + 1)]))"
        using 1(1) [OF q refl esc a(1) refl a(3) refl] .
      then show ?thesis
        using q esc a(1,3) reads_reads0 [OF reads_step [OF a(2) reads0_step [OF a(4)]]]
        by (subst readWord_slow_loop.simps) simp
    next
      case quote
      have "reads0 l (rbind (appendQuotedSegment l buf ?b sl sc)
          (\<lambda>(buf', l1). readWord_slow_loop sl sc l1 buf'))"
        using reads_reads0 [OF appendQuotedSegment_reads [OF q]] 1(2) [OF q refl quote]
        by (intro reads0_rbind) auto
      then show ?thesis using q quote by (subst readWord_slow_loop.simps) auto
    next
      case stop
      then show ?thesis using q by (subst readWord_slow_loop.simps) auto
    next
      case word
      obtain l1 where a: "advance l = Inr (?b, l1)" "advance_step l l1" using q by (rule advance_in)
      then show ?thesis
        using q word reads_reads0 [OF reads0_step [OF a(2) 1(3) [OF q refl word a(1) refl]]]
        by (subst readWord_slow_loop.simps) auto
    qed
  qed (subst readWord_slow_loop.simps, simp)
qed

text \<open>
  \<open>reads_tok l r\<close>: the reader did not panic; a token it returned is not the end of file, stands
  at the lexer's line and column, and has consumed input.
\<close>

definition reads_tok :: "Lexer \<Rightarrow> (Token \<times> Lexer) result \<Rightarrow> bool" where
  "reads_tok l r \<longleftrightarrow> reads l r \<and> (\<forall>t l'. r = Inr (t, l') \<longrightarrow>
     tok_line t = lx_line l \<and> tok_col t = lx_col l \<and> tok_kind t \<noteq> tokEOF)"

lemma newToken_simps [simp]:
  "tok_line (newToken k text line col) = line" "tok_col (newToken k text line col) = col"
  "tok_kind (newToken k text line col) = k" "tok_id (newToken k text line col) = text"
  by (simp_all add: newToken_def)

lemma plainToken_simps [simp]:
  "tok_line (plainToken k line col) = line" "tok_col (plainToken k line col) = col"
  "tok_kind (plainToken k line col) = k"
  by (simp_all add: plainToken_def)

lemma ident_kind_not_EOF [simp]: "ident_kind p \<noteq> tokEOF"
  by (simp add: ident_kind_def)

lemma readString_tok:
  assumes "lx_pos l < length (lx_src l)" and "is_quote quote"
  shows "reads_tok l (readString l (lx_line l) (lx_col l) quote)"
proof -
  obtain l1 where a: "advance l = Inr (lx_src l ! lx_pos l, l1)" "advance_step l l1"
    using assms(1) by (rule advance_in)
  then have "readString l (lx_line l) (lx_col l) quote = readString_slow l1 (lx_line l) (lx_col l) quote"
    by (simp add: readString_eq_slow [OF assms(2)])
  moreover have "reads l (readString_slow l1 (lx_line l) (lx_col l) quote)"
    using reads_step [OF a(2) readString_slow_reads] .
  ultimately show ?thesis by (auto simp: reads_tok_def readString_slow_def rbind_Inr)
qed

lemma reads_map:
  "reads l m \<Longrightarrow> reads l (rbind m (\<lambda>(x, l'). Inr (g x, l')))"
  by (cases m) auto

lemma readIdent_tok:
  assumes "lx_pos l < length (lx_src l)" and "isIdentStart (lx_src l ! lx_pos l)"
  shows "reads_tok l (readIdentOrWord l (lx_line l) (lx_col l))"
proof -
  let ?b = "lx_src l ! lx_pos l"
  obtain l1 where a: "advance l = Inr (?b, l1)" "advance_step l l1" using assms(1) by (rule advance_in)
  have "isIdentCont ?b" "?b \<noteq> BACKSLASH"
    using assms(2) by (auto simp: isIdentStart_def isIdentCont_def byte_in_def byte_def byte_consts)
  then have "readIdent_slow_loop sl sc l [] True = readIdent_slow_loop sl sc l1 [?b] True" for sl sc
    using assms(1) a(1) by (subst readIdent_slow_loop.simps) simp
  then have "reads l (readIdent_slow_loop sl sc l [] True)" for sl sc
    using reads0_step [OF a(2) readIdent_slow_loop_reads] by metis
  from reads_map [OF this] show ?thesis
    unfolding readIdentOrWord_eq_slow [OF assms] reads_tok_def readIdent_slow_def
    by (auto simp: rbind_Inr case_prod_unfold)
qed

lemma readWord_slow_parts:
  assumes inb: "lx_pos l < length (lx_src l)" and wb: "isWordByte l (lx_src l ! lx_pos l)"
  shows "reads l (rbind (advance_n (dollarParenPrefix l) l []) (\<lambda>(buf, l1). readWord_slow_loop sl sc l1 buf))"
proof (cases "dollarParenPrefix l = 0")
  case True
  let ?b = "lx_src l ! lx_pos l"
  have "reads l (readWord_slow_loop sl sc l [])"
  proof (cases "?b = BACKSLASH \<and> lx_pos l + 1 < length (lx_src l)")
    case True
    then obtain l1 l2 where a: "advance l = Inr (BACKSLASH, l1)" "advance_step l l1"
        "advance l1 = Inr (lx_src l ! (lx_pos l + 1), l2)" "advance_step l1 l2"
      using advance_backslash by metis
    have "reads l (readWord_slow_loop sl sc l2 [BACKSLASH, lx_src l ! (lx_pos l + 1)])"
      using reads_step [OF a(2) reads0_step [OF a(4) readWord_slow_loop_reads]] .
    then show ?thesis using True inb a(1,3) by (subst readWord_slow_loop.simps) simp
  next
    case False
    obtain l1 where a: "advance l = Inr (?b, l1)" "advance_step l l1" using inb by (rule advance_in)
    then show ?thesis
      using False inb wb reads0_step [OF a(2) readWord_slow_loop_reads]
      by (subst readWord_slow_loop.simps) auto
  qed
  then show ?thesis using True by simp
next
  case False
  note pre = readWord_prefix [OF inb]
  let ?l = "at l (lx_pos l + dollarParenPrefix l)"
  have "advance_step\<^sup>+\<^sup>+ l ?l" using pre False plus_of_star [of l ?l] by simp
  then show ?thesis using pre reads_plus [OF _ readWord_slow_loop_reads] by simp
qed

lemma readWord_tok:
  assumes "lx_pos l < length (lx_src l)" and "isWordByte l (lx_src l ! lx_pos l)"
  shows "reads_tok l (readWord l (lx_line l) (lx_col l))"
proof -
  have "readWord_slow l sl sc = rbind (rbind (advance_n (dollarParenPrefix l) l [])
      (\<lambda>(buf, l1). readWord_slow_loop sl sc l1 buf)) (\<lambda>(buf', l2). Inr (newToken tokWord buf' sl sc, l2))" for sl sc
    using readWord_prefix [OF assms(1)] by (simp add: readWord_slow_def)
  then show ?thesis
    using reads_map [OF readWord_slow_parts [OF assms]]
    unfolding readWord_eq_slow [OF assms] reads_tok_def by (auto simp: rbind_Inr)
qed

lemma scan_digits_spec:
  "pos \<le> length src \<Longrightarrow> pos \<le> scan_digits src pos \<and> scan_digits src pos \<le> length src
   \<and> (\<forall>i. pos \<le> i \<and> i < scan_digits src pos \<longrightarrow> is_digit (src ! i))"
proof (induction src pos rule: scan_digits.induct)
  case (1 src pos)
  show ?case
  proof (cases "pos < length src \<and> is_digit (src ! pos)")
    case True
    then have "scan_digits src pos = scan_digits src (pos + 1)" by (simp add: scan_digits.simps [of src pos])
    then show ?thesis
      using 1(1) [OF True] True by (metis Suc_eq_plus1 Suc_leI Suc_leD le_eq_less_or_eq)
  next
    case False
    then have "scan_digits src pos = pos" by (auto simp: scan_digits.simps [of src pos])
    then show ?thesis using 1(2) by auto
  qed
qed

lemma number_tail_spec:
  "number_tail l pos = Some p \<Longrightarrow> pos \<le> length (lx_src l) \<Longrightarrow> pos \<le> p \<and> p \<le> length (lx_src l)
   \<and> (\<forall>i. pos \<le> i \<and> i < p \<longrightarrow> isWordByte l (lx_src l ! i))"
proof (induction l pos rule: number_tail.induct)
  case (1 l pos)
  show ?case
  proof (cases "pos < length (lx_src l) \<and> isWordByte l (lx_src l ! pos)")
    case True
    then have n: "\<not> (lx_src l ! pos = BACKSLASH \<and> pos + 1 < length (lx_src l))" "number_tail l (pos + 1) = Some p"
      using 1(2) by (auto simp: number_tail.simps [of l pos] split: if_splits)
    then show ?thesis
      using 1(1) [OF True n] True by (metis Suc_eq_plus1 Suc_leI Suc_leD le_eq_less_or_eq)
  next
    case False
    then have "p = pos" using 1(2) by (auto simp: number_tail.simps [of l pos] split: if_splits)
    then show ?thesis using 1(3) by auto
  qed
qed

lemma digit_word_byte: "is_digit b \<Longrightarrow> isWordByte l b"
proof -
  assume "is_digit b"
  then have d: "byte_in (CHR ''0'') (CHR ''9'') b" by (simp add: is_digit_def)
  then have "b \<notin> set (CHR '';'' # CHR ''&'' # BACKQUOTE # CHR ''^'' # CHR ''|'' # CHR ''<'' # CHR ''>''
      # DQUOTE # SQUOTE # [])"
    by (auto simp: byte_in_def byte_def byte_consts)
  then show ?thesis using d unfolding isWordByte_def wordBytes_def by (simp only: if_False simp_thms if_True)
qed

lemma jump_star:
  assumes "lx_pos l \<le> q" "q \<le> p" "p \<le> length (lx_src l)" and "plain_range l q p"
  shows "advance_step\<^sup>*\<^sup>* (at l q) (at l p)"
  using assms
proof (induction "p - q" arbitrary: q)
  case (Suc n)
  then have "q < p" by simp
  note f = plain_range_first [OF Suc.prems(4) this]
  have "advance_step (at l q) (at l (q + 1))"
    using advance_step_at [of l q] f Suc.prems \<open>q < p\<close> by simp
  moreover have "advance_step\<^sup>*\<^sup>* (at l (q + 1)) (at l p)"
    using Suc(1) [of "q + 1"] Suc(2) Suc.prems f \<open>q < p\<close> by simp
  ultimately show ?case by (rule converse_rtranclp_into_rtranclp)
qed simp

lemma word_bytes_plain:
  "(\<And>i. a \<le> i \<Longrightarrow> i < b \<Longrightarrow> isWordByte l (lx_src l ! i)) \<Longrightarrow> plain_range l a b"
  unfolding plain_range_def using word_byte_not_newline by blast

lemma readNumber_tok:
  assumes inb: "lx_pos l < length (lx_src l)" and d: "is_digit (lx_src l ! lx_pos l)"
  shows "reads_tok l (readNumberOrWord l (lx_line l) (lx_col l))"
proof -
  let ?p = "scan_digits (lx_src l) (lx_pos l)"
  have sp: "lx_pos l \<le> ?p" "?p \<le> length (lx_src l)" "\<And>i. lx_pos l \<le> i \<Longrightarrow> i < ?p \<Longrightarrow> is_digit (lx_src l ! i)"
    using scan_digits_spec [of "lx_pos l" "lx_src l"] inb by auto
  have "?p = scan_digits (lx_src l) (lx_pos l + 1)"
    using inb d by (simp add: scan_digits.simps [of _ "lx_pos l"])
  then have gt: "lx_pos l < ?p" using scan_digits_spec [of "lx_pos l + 1" "lx_src l"] inb by simp
  have fin: "reads_tok l (Inr (newToken k x (lx_line l) (lx_col l), jump l p))"
    if "lx_pos l < p" "p \<le> length (lx_src l)" "k \<noteq> tokEOF"
      "\<And>i. lx_pos l \<le> i \<Longrightarrow> i < p \<Longrightarrow> isWordByte l (lx_src l ! i)" for k x p
    using that jump_star [of l "lx_pos l" p] word_bytes_plain [of "lx_pos l" p l] plus_of_star [of l "at l p"]
      at_jump [of l p] by (simp add: reads_tok_def jump_def)
  show ?thesis
  proof (cases "?p < length (lx_src l) \<and> isWordByte l (lx_src l ! ?p)")
    case False
    then have "readNumberOrWord l (lx_line l) (lx_col l)
        = Inr (newToken tokInt (src_slice l (lx_pos l) ?p) (lx_line l) (lx_col l), jump l ?p)"
      using gt by (auto simp: readNumberOrWord_def Let_def)
    then show ?thesis using fin [OF gt sp(2)] sp(3) digit_word_byte by simp
  next
    case True
    show ?thesis
    proof (cases "number_tail l ?p")
      case None
      then show ?thesis
        using True readWord_tok [OF inb digit_word_byte [OF d]] by (simp add: readNumberOrWord_def Let_def)
    next
      case (Some p')
      have t: "?p \<le> p'" "p' \<le> length (lx_src l)" "\<And>i. ?p \<le> i \<Longrightarrow> i < p' \<Longrightarrow> isWordByte l (lx_src l ! i)"
        using number_tail_spec [OF Some] True by auto
      have "isWordByte l (lx_src l ! i)" if "lx_pos l \<le> i" "i < p'" for i
        using that sp(3) t(3) digit_word_byte by (metis not_le)
      then show ?thesis using fin [OF _ t(2)] gt t(1) True Some by (simp add: readNumberOrWord_def Let_def)
    qed
  qed
qed

lemma readOp1_tok:
  "lx_pos l < length (lx_src l) \<Longrightarrow> k \<noteq> tokEOF \<Longrightarrow> reads_tok l (readOp1 l k)"
  by (erule advance_in) (auto simp: readOp1_def reads_tok_def)

lemma readRel_tok:
  assumes inb: "lx_pos l < length (lx_src l)" and "k \<noteq> tokEOF" "k' \<noteq> tokEOF"
  shows "reads_tok l (readRel l k k')"
proof -
  obtain l1 where a: "advance l = Inr (lx_src l ! lx_pos l, l1)" "advance_step l l1"
    using inb by (rule advance_in)
  show ?thesis
  proof (cases "lx_pos l1 < length (lx_src l1) \<and> lx_src l1 ! lx_pos l1 = CHR ''=''")
    case True
    then obtain l2 where "advance l1 = Inr (lx_src l1 ! lx_pos l1, l2)" "advance_step l1 l2"
      using advance_in by blast
    then show ?thesis using a True assms by (auto simp: readRel_def reads_tok_def)
  next
    case False
    then show ?thesis using a assms by (auto simp: readRel_def reads_tok_def)
  qed
qed

lemma readOp2_tok:
  assumes "followed_by_eq l" and "lx_src l ! lx_pos l \<noteq> NL" "lx_src l ! lx_pos l \<noteq> CR" and "k \<noteq> tokEOF"
  shows "reads_tok l (readOp2 l k)"
proof -
  have inb: "lx_pos l < length (lx_src l)" using assms(1) by (simp add: followed_by_eq_def)
  have a: "advance l = Inr (lx_src l ! lx_pos l, at l (lx_pos l + 1))"
    using advance_at [of l "lx_pos l"] inb assms by simp
  obtain l2 where "advance (at l (lx_pos l + 1)) = Inr (CHR ''='', l2)" "advance_step (at l (lx_pos l + 1)) l2"
    using advance_in [of "at l (lx_pos l + 1)"] assms(1) by (auto simp: followed_by_eq_def)
  then show ?thesis using a advance_stepI [OF a] assms(4) by (auto simp: readOp2_def reads_tok_def)
qed

lemma if_reads_tok:
  "(c \<Longrightarrow> reads_tok l a) \<Longrightarrow> (\<not> c \<Longrightarrow> reads_tok l b) \<Longrightarrow> reads_tok l (if c then a else b)"
  by simp

lemma readToken_at_tok:
  assumes inb: "lx_pos l < length (lx_src l)"
  shows "reads_tok l (readToken_at l)"
proof -
  have eq: "CHR ''='' \<noteq> NL" "CHR ''='' \<noteq> CR" "CHR ''!'' \<noteq> NL" "CHR ''!'' \<noteq> CR" by (simp_all add: byte_consts)
  have bad: "reads_tok l (rbind (advance l) (\<lambda>(_, l'). Inl (throwParse l' sl sc fmt args)))" for sl sc fmt args
    using inb by (rule advance_in) (simp add: reads_tok_def)
  show ?thesis
    unfolding readToken_at_def Let_def
    by (intro if_reads_tok bad)
      (simp_all only: readOp1_tok [OF inb] readRel_tok [OF inb] readString_tok [OF inb] readNumber_tok [OF inb]
        readIdent_tok [OF inb] readWord_tok [OF inb] readOp2_tok eq TokKind.distinct simp_thms not_False_eq_True)
qed

lemma skipTrivia_ok:
  "\<exists>l'. skipTrivia l = Inr l' \<and> advance_step\<^sup>*\<^sup>* l l'"
proof (induction l rule: skipTrivia.induct)
  case (1 l)
  let ?b = "lx_src l ! lx_pos l"
  have comment: "\<exists>l'. skip_comment m = Inr l' \<and> advance_step\<^sup>*\<^sup>* m l'" for m
  proof (induction m rule: skip_comment.induct)
    case (1 m)
    show ?case
    proof (cases "lx_pos m < length (lx_src m) \<and> lx_src m ! lx_pos m \<noteq> NL \<and> lx_src m ! lx_pos m \<noteq> CR")
      case True
      then obtain m1 where a: "advance m = Inr (lx_src m ! lx_pos m, m1)" "advance_step m m1"
        using advance_in by blast
      then show ?thesis
        using True 1 [OF True a(1) refl]
        by (auto simp: skip_comment.simps [of m] intro: converse_rtranclp_into_rtranclp)
    qed (subst skip_comment.simps, auto)
  qed
  consider (stop) "\<not> lx_pos l < length (lx_src l)" | (space) "lx_pos l < length (lx_src l)" "isWhitespace ?b"
    | (hash) "lx_pos l < length (lx_src l)" "\<not> isWhitespace ?b" "?b = CHR ''#'' \<and> commentBoundary (lx_prevByte l)"
    | (other) "lx_pos l < length (lx_src l)" "\<not> isWhitespace ?b" "\<not> (?b = CHR ''#'' \<and> commentBoundary (lx_prevByte l))"
    by blast
  then show ?case
  proof cases
    case space
    obtain l1 where a: "advance l = Inr (?b, l1)" "advance_step l l1" using space(1) by (rule advance_in)
    then show ?thesis
      using space 1(1) [OF space(1) refl space(2) a(1) refl]
      by (subst skipTrivia.simps) (auto intro: converse_rtranclp_into_rtranclp)
  next
    case hash
    obtain l1 where c: "skip_comment l = Inr l1" "advance_step\<^sup>*\<^sup>* l l1" using comment by blast
    then show ?thesis
      using hash 1(2) [OF hash(1) refl hash(2,3) c(1)]
      by (subst skipTrivia.simps) (auto intro: rtranclp_trans)
  qed (subst skipTrivia.simps, auto)+
qed

text \<open>What a call of \<^verbatim>\<open>readToken\<close> does, on every branch.\<close>

lemma readToken_cases:
  obtains l0 where "advance_step\<^sup>*\<^sup>* l l0" "skipTrivia l = Inr l0"
    "lx_pos l0 < length (lx_src l0) \<Longrightarrow> readToken l = readToken_at l0 \<and> reads_tok l0 (readToken l)"
    "\<not> lx_pos l0 < length (lx_src l0) \<Longrightarrow> readToken l = Inr (plainToken tokEOF (lx_line l0) (lx_col l0), l0)"
proof -
  obtain l0 where "skipTrivia l = Inr l0" "advance_step\<^sup>*\<^sup>* l l0" using skipTrivia_ok by blast
  then show ?thesis using that [of l0] readToken_at_tok [of l0] by (simp add: readToken_def)
qed

section \<open>Lines and columns\<close>

text \<open>
  The reference: line and column behind a text, counting from \<open>ln\<close> and \<open>c\<close>. A line ends with
  a line feed, a carriage return, or the two in this order.
\<close>

fun line_col :: "nat \<Rightarrow> nat \<Rightarrow> string \<Rightarrow> nat \<times> nat" where
  "line_col ln c [] = (ln, c)"
| "line_col ln c (b # bs) =
     (if b = NL then line_col (ln + 1) 1 bs
      else if b = CR then line_col (ln + 1) 1 (if bs \<noteq> [] \<and> hd bs = NL then tl bs else bs)
      else line_col ln (c + 1) bs)"

definition located :: "Lexer \<Rightarrow> bool" where
  "located l \<longleftrightarrow> lx_pos l \<le> length (lx_src l)
     \<and> line_col 1 1 (take (lx_pos l) (lx_src l)) = (lx_line l, lx_col l)
     \<and> \<not> (0 < lx_pos l \<and> lx_pos l < length (lx_src l) \<and> lx_src l ! (lx_pos l - 1) = CR
          \<and> lx_src l ! lx_pos l = NL)"

lemma NL_CR: "NL \<noteq> CR" "CR \<noteq> NL"
  by (simp_all add: byte_consts)

lemma line_col_append:
  "\<not> (xs \<noteq> [] \<and> last xs = CR \<and> ys \<noteq> [] \<and> hd ys = NL) \<Longrightarrow>
   line_col ln c (xs @ ys) = (case line_col ln c xs of (ln', c') \<Rightarrow> line_col ln' c' ys)"
proof (induction ln c xs rule: line_col.induct)
  case (2 ln c b bs)
  show ?case
  proof (cases "b = CR \<and> bs \<noteq> [] \<and> hd bs = NL")
    case True
    then obtain ds where bs: "bs = NL # ds" by (cases bs) auto
    then have "line_col (ln + 1) 1 (ds @ ys) = (case line_col (ln + 1) 1 ds of (a, d) \<Rightarrow> line_col a d ys)"
      using 2(2) 2(4) True NL_CR by (auto split: if_splits)
    then show ?thesis using True bs NL_CR by simp
  next
    case False
    consider "b = NL" | "b = CR" | "b \<noteq> NL" "b \<noteq> CR" by blast
    then show ?thesis
    proof cases
      case 1
      then show ?thesis using 2(1) 2(4) NL_CR by (cases bs) auto
    next
      case 2
      then show ?thesis using "2.IH"(2) "2.prems" False NL_CR by (cases bs) auto
    next
      case 3
      then show ?thesis using "2.IH"(3) "2.prems" by (cases bs) auto
    qed
  qed
qed simp

lemma line_col_one:
  "line_col ln c [b] = (if b = NL \<or> b = CR then (ln + 1, 1) else (ln, c + 1))" "line_col ln c [CR, NL] = (ln + 1, 1)"
  using NL_CR by auto

lemma located_split:
  assumes "located l" and "lx_pos l < length (lx_src l)" and "bs = take n (drop (lx_pos l) (lx_src l))"
  shows "line_col 1 1 (take (lx_pos l + n) (lx_src l)) = line_col (lx_line l) (lx_col l) bs"
proof -
  have t: "take (lx_pos l + n) (lx_src l) = take (lx_pos l) (lx_src l) @ bs"
    using assms(3) by (simp add: take_add)
  have "\<not> (take (lx_pos l) (lx_src l) \<noteq> [] \<and> last (take (lx_pos l) (lx_src l)) = CR \<and> bs \<noteq> [] \<and> hd bs = NL)"
    using assms by (auto simp: located_def last_conv_nth hd_drop_conv_nth hd_take)
  from line_col_append [OF this] show ?thesis using assms(1) t by (simp add: located_def)
qed

lemma advance_located:
  assumes "located l" and "advance l = Inr (b, l')"
  shows "located l'"
proof -
  have inb: "lx_pos l < length (lx_src l)" and b: "b = lx_src l ! lx_pos l"
    using advance_Inr [OF assms(2)] by simp_all
  have one: "take 1 (drop (lx_pos l) (lx_src l)) = [b]"
    using inb b by (simp add: take_Suc_conv_app_nth)
  show ?thesis
  proof (cases "b = CR \<and> lx_pos l + 1 < length (lx_src l) \<and> lx_src l ! (lx_pos l + 1) = NL")
    case True
    then have "take 2 (drop (lx_pos l) (lx_src l)) = [CR, NL]"
      using b inb Cons_nth_drop_Suc [OF inb] Cons_nth_drop_Suc [of "Suc (lx_pos l)" "lx_src l"]
      by (metis One_nat_def Suc_eq_plus1 numeral_2_eq_2 take0 take_Suc_Cons)
    then show ?thesis
      using located_split [OF assms(1) inb, of _ 2] assms(2) inb b True NL_CR
      by (auto simp: advance_def Let_def located_def line_col_one)
  next
    case False
    then show ?thesis
      using located_split [OF assms(1) inb one [symmetric]] assms(2) inb b NL_CR
      by (auto simp: advance_def Let_def located_def line_col_one split: if_splits)
  qed
qed

lemma star_located: "advance_step\<^sup>*\<^sup>* l l' \<Longrightarrow> located l \<Longrightarrow> located l'"
  by (induction rule: rtranclp_induct) (auto simp: advance_step_def dest: advance_located)

lemma reads_tok_Inr:
  "reads_tok l (Inr (t, l')) \<Longrightarrow> advance_step\<^sup>+\<^sup>+ l l' \<and> tok_line t = lx_line l \<and> tok_col t = lx_col l
    \<and> tok_kind t \<noteq> tokEOF"
  by (simp add: reads_tok_def)

section \<open>Properties\<close>

definition newLexer :: "string \<Rightarrow> string \<Rightarrow> Lexer" where
  "newLexer name src = \<lparr>lx_name = name, lx_src = src, lx_pos = 0, lx_line = 1, lx_col = 1, lx_prevByte = NUL,
     lx_inArgs = False\<rparr>"

lemma newLexer_located: "located (newLexer name src)"
  by (simp add: located_def newLexer_def)

text \<open>
  C17: \<^verbatim>\<open>readToken\<close> never reads outside the source: on every input it returns a token or throws
  a \<^verbatim>\<open>ParseError\<close>. A token other than the end of file has consumed at least one byte, and the
  end of file is returned only at the end of the source, so reading token after token ends.
\<close>

theorem readToken_safe_progress:
  assumes "lx_pos l \<le> length (lx_src l)"
  shows "case readToken l of
      Inl e \<Rightarrow> is_ParseErr e
    | Inr (t, l') \<Rightarrow> lx_src l' = lx_src l \<and> lx_inArgs l' = lx_inArgs l \<and> lx_pos l' \<le> length (lx_src l)
        \<and> (if tok_kind t = tokEOF then lx_pos l' = length (lx_src l) else lx_pos l < lx_pos l')"
proof -
  obtain l0 where l0: "advance_step\<^sup>*\<^sup>* l l0"
    "lx_pos l0 < length (lx_src l0) \<Longrightarrow> reads_tok l0 (readToken l)"
    "\<not> lx_pos l0 < length (lx_src l0) \<Longrightarrow> readToken l = Inr (plainToken tokEOF (lx_line l0) (lx_col l0), l0)"
    by (rule readToken_cases [of l]) blast
  have m0: "moves l l0" using advance_star_moves [OF l0(1)] .
  show ?thesis
  proof (cases "lx_pos l0 < length (lx_src l0)")
    case False
    then show ?thesis using l0(3) m0 assms by (auto simp: moves_def)
  next
    case True
    note t = l0(2) [OF True]
    show ?thesis
    proof (cases "readToken l")
      case (Inl e)
      then show ?thesis using t by (simp add: reads_tok_def)
    next
      case (Inr p)
      obtain tk l' where p: "p = (tk, l')" by (cases p)
      then have "advance_step\<^sup>+\<^sup>+ l0 l'" "tok_kind tk \<noteq> tokEOF" using t Inr reads_tok_Inr by metis+
      then have "moves l0 l'" "lx_pos l0 < lx_pos l'" using advance_plus_moves by blast+
      then show ?thesis using Inr p m0 assms \<open>tok_kind tk \<noteq> tokEOF\<close> by (auto simp: moves_def)
    qed
  qed
qed

theorem readToken_safe_progress_witness:
  "case readToken (newLexer ''m'' ''# x'') of Inl e \<Rightarrow> is_ParseErr e
   | Inr (t, l') \<Rightarrow> lx_pos l' \<le> 3 \<and> (if tok_kind t = tokEOF then lx_pos l' = 3 else 0 < lx_pos l')"
  using readToken_safe_progress [of "newLexer ''m'' ''# x''"]
  by (auto simp: newLexer_def split: sum.splits prod.splits)

text \<open>
  C18: The line and column that the lexer keeps, and that every token and error message carries,
  are those of the reference count over the source, with all three forms of line ends and
  through the fast paths that set the position directly: a token's line and column are those of
  the place where it starts.
\<close>

theorem readToken_positions:
  assumes "located l" and "readToken l = Inr (t, l')"
  shows "located l' \<and> (\<exists>p. lx_pos l \<le> p \<and> p \<le> lx_pos l'
    \<and> line_col 1 1 (take p (lx_src l)) = (tok_line t, tok_col t))"
proof -
  obtain l0 where l0: "advance_step\<^sup>*\<^sup>* l l0"
    "lx_pos l0 < length (lx_src l0) \<Longrightarrow> reads_tok l0 (readToken l)"
    "\<not> lx_pos l0 < length (lx_src l0) \<Longrightarrow> readToken l = Inr (plainToken tokEOF (lx_line l0) (lx_col l0), l0)"
    by (rule readToken_cases [of l]) blast
  have m0: "moves l l0" using advance_star_moves [OF l0(1)] .
  have loc0: "located l0" using star_located [OF l0(1) assms(1)] .
  have "located l' \<and> lx_pos l0 \<le> lx_pos l' \<and> tok_line t = lx_line l0 \<and> tok_col t = lx_col l0"
  proof (cases "lx_pos l0 < length (lx_src l0)")
    case False
    then show ?thesis using l0(3) assms(2) loc0 by auto
  next
    case True
    then have r: "advance_step\<^sup>+\<^sup>+ l0 l'" "tok_line t = lx_line l0" "tok_col t = lx_col l0"
      using l0(2) assms(2) reads_tok_Inr by auto
    then show ?thesis
      using star_located [OF tranclp_into_rtranclp [OF r(1)] loc0] advance_plus_moves [OF r(1)] by auto
  qed
  then show ?thesis using loc0 m0 by (auto simp: located_def moves_def)
qed

theorem readToken_positions_witness:
  "\<exists>t l'. readToken (newLexer ''m'' [CR, NL, CHR '' '', CHR ''('']) = Inr (t, l') \<and> located l'
    \<and> tok_line t = 2 \<and> tok_col t = 2"
proof -
  obtain t l' where t: "readToken (newLexer ''m'' [CR, NL, CHR '' '', CHR ''('']) = Inr (t, l')"
      "tok_line t = 2" "tok_col t = 2"
    by (simp add: readToken_def skipTrivia.simps newLexer_def advance_def Let_def isWhitespace_def
        readToken_at_def readOp1_def byte_consts commentBoundary_def plainToken_def)
  from readToken_positions [OF newLexer_located t(1)] t show ?thesis by auto
qed

text \<open>
  The fast path of \<^verbatim>\<open>readString\<close>, which looks for the closing quote and cuts the text out
  of the source, returns the same token and leaves the same lexer state as the slow path, which
  copies byte by byte.
\<close>

theorem readString_fast_path:
  assumes "is_quote quote"
  shows "readString l startLine startCol quote
    = rbind (advance l) (\<lambda>(_, l'). readString_slow l' startLine startCol quote)"
  by (rule readString_eq_slow [OF assms])

theorem readString_fast_path_witness:
  "is_quote DQUOTE \<and> readString (newLexer ''m'' [DQUOTE, CHR ''a'', DQUOTE]) 1 1 DQUOTE
    = rbind (advance (newLexer ''m'' [DQUOTE, CHR ''a'', DQUOTE])) (\<lambda>(_, l'). readString_slow l' 1 1 DQUOTE)"
  using readString_fast_path [of DQUOTE] by (simp add: is_quote_def)

text \<open>
  The fast paths of \<^verbatim>\<open>readIdentOrWord\<close> and \<^verbatim>\<open>readWord\<close>, which cut the token out of the source
  up to the first byte that ends it, return the same token (kind, text, position) and leave the
  same lexer state as the slow paths, inside and outside of macro arguments.
\<close>

theorem readWord_fast_paths:
  assumes "lx_pos l < length (lx_src l)" and "b = lx_src l ! lx_pos l"
  shows "(isIdentStart b \<longrightarrow> readIdentOrWord l startLine startCol = readIdent_slow l startLine startCol)
    \<and> (isWordByte l b \<longrightarrow> readWord l startLine startCol = readWord_slow l startLine startCol)"
  using readIdentOrWord_eq_slow [of l] readWord_eq_slow [of l] assms by simp

theorem readWord_fast_paths_witness:
  "readIdentOrWord (newLexer ''m'' ''AB c'') 1 1 = readIdent_slow (newLexer ''m'' ''AB c'') 1 1"
proof -
  have "isIdentStart (CHR ''A'')" by (simp add: isIdentStart_def byte_in_def byte_def)
  then show ?thesis
    using readWord_fast_paths [of "newLexer ''m'' ''AB c''" "CHR ''A''" 1 1] by (simp add: newLexer_def)
qed

end
