(* ===== verification/Ay_Cond.thy ===== *)
theory Ay_Cond
  imports Ay_Result
begin

text \<open>
  Conditions of \<^verbatim>\<open>IF\<close> and \<^verbatim>\<open>ELSEIF\<close>: the compiler \<^verbatim>\<open>IfCondCompiler\<close> of \<^verbatim>\<open>yamake.go\<close>, which turns
  the argument words into an array of \<^verbatim>\<open>CondNode\<close>s that refer to each other by index, and the
  evaluator \<^verbatim>\<open>evalCond\<close> of \<^verbatim>\<open>macros.go\<close>, which walks that array.

  The specification is a syntax tree \<open>cond\<close> with a direct semantics and a grammar over the list of
  words; the main theorem is that compiling and evaluating computes the semantics of the tree.

  What the evaluator asks of the environment (\<^verbatim>\<open>env.go\<close>) and of the expression expander
  (\<^verbatim>\<open>compiler_expression.go\<close>) is the record \<open>CondEnv\<close>, an argument of the definitions. An \<^verbatim>\<open>ENV\<close>
  is represented by the name it was interned from.
\<close>

section \<open>Condition nodes\<close>

datatype CondKind = ckIdent | ckString | ckInt | ckNot | ckAnd | ckOr | ckEq | ckLt | ckStartsWith
  | ckMatches | ckVersionCmp | ckDefined | ckUnsupportedOp | ckConfLt | ckConfEq | ckConfIdent | ckGt
  | ckEndsWith | ckIsNum

record CondNode =
  cn_Kind :: CondKind
  cn_Name :: string
  cn_Env :: string
  cn_Ival :: int
  cn_L :: nat
  cn_R :: nat

definition leafNode :: "CondKind \<Rightarrow> string \<Rightarrow> string \<Rightarrow> CondNode" where
  "leafNode k name env = \<lparr>cn_Kind = k, cn_Name = name, cn_Env = env, cn_Ival = 0, cn_L = 0, cn_R = 0\<rparr>"

definition opNode :: "CondKind \<Rightarrow> string \<Rightarrow> nat \<Rightarrow> nat \<Rightarrow> CondNode" where
  "opNode k name l r = \<lparr>cn_Kind = k, cn_Name = name, cn_Env = [], cn_Ival = 0, cn_L = l, cn_R = r\<rparr>"

definition condFalse :: "CondNode list" where
  "condFalse = [leafNode ckString ''no'' []]"

section \<open>The compiler\<close>

record IfCondCompiler =
  ic_args :: "string list"
  ic_pos :: nat
  ic_nodes :: "CondNode list"

definition ic_emit :: "IfCondCompiler \<Rightarrow> CondNode \<Rightarrow> nat \<times> IfCondCompiler" where
  "ic_emit c n = (length (ic_nodes c), c\<lparr>ic_nodes := ic_nodes c @ [n]\<rparr>)"

definition ic_at :: "IfCondCompiler \<Rightarrow> string \<Rightarrow> bool" where
  "ic_at c word \<longleftrightarrow> ic_pos c < length (ic_args c) \<and> ic_args c ! ic_pos c = word"

definition ic_take :: "IfCondCompiler \<Rightarrow> (string \<times> IfCondCompiler) result" where
  "ic_take c =
     (if ic_pos c = length (ic_args c) then Inl (Thrown ''macros: incomplete IF condition'' [])
      else if ic_pos c < length (ic_args c)
      then Inr (ic_args c ! ic_pos c, c\<lparr>ic_pos := ic_pos c + 1\<rparr>)
      else Inl IndexPanic)"

definition ic_skip :: "IfCondCompiler \<Rightarrow> IfCondCompiler" where
  "ic_skip c = c\<lparr>ic_pos := ic_pos c + 1\<rparr>"

definition varExpr :: "IfCondCompiler \<Rightarrow> string \<Rightarrow> nat \<times> IfCondCompiler" where
  "varExpr c word =
     (if take 1 word = ''$'' then ic_emit c (leafNode ckString word [])
      else ic_emit c (leafNode ckIdent word word))"

definition unaryExpr :: "IfCondCompiler \<Rightarrow> (nat \<times> IfCondCompiler) result" where
  "unaryExpr c =
     rbind (ic_take c) (\<lambda>(word, c).
       if word = ''DEFINED'' then rbind (ic_take c) (\<lambda>(name, c). Inr (ic_emit c (leafNode ckDefined name name)))
       else if word = ''ISNUM'' then rbind (ic_take c) (\<lambda>(name, c). Inr (ic_emit c (leafNode ckIsNum name name)))
       else Inr (varExpr c word))"

definition version_ops :: "string list" where
  "version_ops = [''VERSION_GT'', ''VERSION_GE'', ''VERSION_LT'', ''VERSION_LE'']"

definition ic_emit_not :: "nat \<times> IfCondCompiler \<Rightarrow> nat \<times> IfCondCompiler" where
  "ic_emit_not r = (case r of (i, c) \<Rightarrow> ic_emit c (opNode ckNot [] i 0))"

definition emitOp :: "IfCondCompiler \<Rightarrow> string \<Rightarrow> nat \<Rightarrow> nat \<Rightarrow> nat \<times> IfCondCompiler" where
  "emitOp c op left right =
     (if op = ''=='' then ic_emit c (opNode ckEq [] left right)
      else if op = ''!='' then ic_emit_not (ic_emit c (opNode ckEq [] left right))
      else if op = ''MATCHES'' then ic_emit c (opNode ckMatches [] left right)
      else if op = ''STARTS_WITH'' then ic_emit c (opNode ckStartsWith [] left right)
      else if op = ''ENDS_WITH'' then ic_emit c (opNode ckEndsWith [] left right)
      else if op \<in> set version_ops then ic_emit c (opNode ckVersionCmp op left right)
      else if op = ''>'' then ic_emit c (opNode ckGt [] left right)
      else if op = ''<'' then ic_emit c (opNode ckLt [] left right)
      else if op = ''>='' then ic_emit_not (ic_emit c (opNode ckLt [] left right))
      else if op = ''<='' then ic_emit_not (ic_emit c (opNode ckGt [] left right))
      else ic_emit c (opNode ckUnsupportedOp op left right))"

definition binaryExpr :: "IfCondCompiler \<Rightarrow> (nat \<times> IfCondCompiler) result" where
  "binaryExpr c =
     rbind (unaryExpr c) (\<lambda>(left, c).
       if ic_pos c = length (ic_args c) \<or> ic_at c ''AND'' \<or> ic_at c ''OR'' then Inr (left, c)
       else rbind (ic_take c) (\<lambda>(op, c).
            rbind (ic_take c) (\<lambda>(word, c).
              let (right, c) = ic_emit c (leafNode ckString word [])
              in Inr (emitOp c op left right))))"

text \<open>Each call moves the position forward and keeps it within the arguments.\<close>

definition ic_steps :: "IfCondCompiler \<Rightarrow> IfCondCompiler \<Rightarrow> bool" where
  "ic_steps c c' \<longleftrightarrow> ic_args c' = ic_args c \<and> ic_pos c < ic_pos c' \<and> ic_pos c' \<le> length (ic_args c)"

lemma ic_emit_simps [simp]:
  "ic_args (snd (ic_emit c n)) = ic_args c" "ic_pos (snd (ic_emit c n)) = ic_pos c"
  by (simp_all add: ic_emit_def)

lemma ic_take_steps: "ic_take c = Inr (w, c') \<Longrightarrow> ic_steps c c'"
  by (auto simp: ic_take_def ic_steps_def split: if_splits)

lemma ic_emit_pos: "ic_emit c n = (i, c') \<Longrightarrow> ic_args c' = ic_args c \<and> ic_pos c' = ic_pos c"
  by (auto simp: ic_emit_def)

lemma varExpr_pos: "varExpr c w = (i, c') \<Longrightarrow> ic_args c' = ic_args c \<and> ic_pos c' = ic_pos c"
  by (auto simp: varExpr_def dest: ic_emit_pos split: if_splits)

lemma ic_emit_not_pos: "ic_emit_not (ic_emit c n) = (i, c') \<Longrightarrow> ic_args c' = ic_args c \<and> ic_pos c' = ic_pos c"
  by (auto simp: ic_emit_not_def ic_emit_def)

lemma emitOp_pos: "emitOp c op l r = (i, c') \<Longrightarrow> ic_args c' = ic_args c \<and> ic_pos c' = ic_pos c"
  by (auto simp: emitOp_def dest: ic_emit_pos ic_emit_not_pos split: if_splits)

lemma unaryExpr_steps: "unaryExpr c = Inr (i, c') \<Longrightarrow> ic_steps c c'"
  by (auto simp: unaryExpr_def rbind_Inr ic_steps_def dest!: ic_take_steps varExpr_pos split: if_splits)
    (auto simp: ic_emit_def)

lemma binaryExpr_steps:
  assumes "binaryExpr c = Inr (i, c')"
  shows "ic_steps c c'"
proof -
  obtain l c1 where u: "unaryExpr c = Inr (l, c1)"
    and r: "(if ic_pos c1 = length (ic_args c1) \<or> ic_at c1 ''AND'' \<or> ic_at c1 ''OR'' then Inr (l, c1)
       else rbind (ic_take c1) (\<lambda>(op, c). rbind (ic_take c) (\<lambda>(word, c).
              let (right, c) = ic_emit c (leafNode ckString word []) in Inr (emitOp c op l right)))) = Inr (i, c')"
    using assms by (auto simp: binaryExpr_def rbind_Inr)
  have "ic_steps c c1" using unaryExpr_steps [OF u] .
  moreover have "c' = c1 \<or> ic_steps c1 c'"
    using r by (auto simp: rbind_Inr ic_steps_def ic_emit_def split: if_splits
        dest!: ic_take_steps emitOp_pos)
  ultimately show ?thesis by (auto simp: ic_steps_def)
qed

function notExpr :: "IfCondCompiler \<Rightarrow> (nat \<times> IfCondCompiler) result" where
  "notExpr c =
     (if \<not> ic_at c ''NOT'' then binaryExpr c
      else rbind (notExpr (ic_skip c)) (\<lambda>(i, c). Inr (ic_emit c (opNode ckNot [] i 0))))"
  by pat_completeness auto
termination
  by (relation "measure (\<lambda>c. length (ic_args c) - ic_pos c)") (auto simp: ic_at_def ic_skip_def)

declare notExpr.simps [simp del]

lemma notExpr_steps: "notExpr c = Inr (i, c') \<Longrightarrow> ic_steps c c'"
proof (induction c arbitrary: i c' rule: notExpr.induct)
  case (1 c)
  show ?case
  proof (cases "ic_at c ''NOT''")
    case True
    then obtain j c1 where "notExpr (ic_skip c) = Inr (j, c1)" "ic_emit c1 (opNode ckNot [] j 0) = (i, c')"
      using 1(2) by (auto simp: notExpr.simps [of c] rbind_Inr)
    then show ?thesis using 1(1) [of j c1] True by (auto simp: ic_steps_def ic_skip_def dest!: ic_emit_pos)
  next
    case False
    then show ?thesis using 1(2) binaryExpr_steps by (simp add: notExpr.simps [of c])
  qed
qed

function andExpr :: "IfCondCompiler \<Rightarrow> (nat \<times> IfCondCompiler) result" where
  "andExpr c =
     rbind (notExpr c) (\<lambda>(left, c).
       if \<not> ic_at c ''AND'' then Inr (left, c)
       else rbind (andExpr (ic_skip c)) (\<lambda>(right, c). Inr (ic_emit c (opNode ckAnd [] left right))))"
  by pat_completeness auto
termination
  by (relation "measure (\<lambda>c. length (ic_args c) - ic_pos c)")
    (auto simp: ic_at_def ic_skip_def ic_steps_def dest!: notExpr_steps)

declare andExpr.simps [simp del]

lemma andExpr_steps: "andExpr c = Inr (i, c') \<Longrightarrow> ic_steps c c'"
proof (induction c arbitrary: i c' rule: andExpr.induct)
  case (1 c)
  obtain l c1 where n: "notExpr c = Inr (l, c1)" using 1(2) by (auto simp: andExpr.simps [of c] rbind_Inr)
  note s = notExpr_steps [OF n]
  show ?case
  proof (cases "ic_at c1 ''AND''")
    case True
    then obtain j c2 where "andExpr (ic_skip c1) = Inr (j, c2)" "ic_emit c2 (opNode ckAnd [] l j) = (i, c')"
      using 1(2) n by (auto simp: andExpr.simps [of c] rbind_Inr)
    then show ?thesis using 1(1) [OF n refl, of j c2] s True by (auto simp: ic_steps_def ic_skip_def dest!: ic_emit_pos)
  next
    case False
    then show ?thesis using 1(2) n s by (simp add: andExpr.simps [of c])
  qed
qed

function orExpr :: "IfCondCompiler \<Rightarrow> (nat \<times> IfCondCompiler) result" where
  "orExpr c =
     rbind (andExpr c) (\<lambda>(left, c).
       if ic_pos c = length (ic_args c) then Inr (left, c)
       else if \<not> ic_at c ''OR''
       then Inl (Thrown ''macros: expected OR in IF condition, got %q'' [ic_args c ! ic_pos c])
       else rbind (orExpr (ic_skip c)) (\<lambda>(right, c). Inr (ic_emit c (opNode ckOr [] left right))))"
  by pat_completeness auto
termination
  by (relation "measure (\<lambda>c. length (ic_args c) - ic_pos c)")
    (auto simp: ic_at_def ic_skip_def ic_steps_def dest!: andExpr_steps)

declare orExpr.simps [simp del]

text \<open>\<^verbatim>\<open>try\<close> turns every exception of the compiler into the condition that is always false.\<close>

definition compileIfCond :: "string list \<Rightarrow> CondNode list" where
  "compileIfCond args =
     (if args = [] then condFalse
      else let c = \<lparr>ic_args = args, ic_pos = 0, ic_nodes = []\<rparr>
           in case (if length args = 1 then rbind (ic_take c) (\<lambda>(w, c). Inr (varExpr c w)) else orExpr c) of
                Inl e \<Rightarrow> condFalse
              | Inr (i, c') \<Rightarrow> ic_nodes c')"

section \<open>The evaluator\<close>

record CondEnv =
  ce_bool :: "string \<Rightarrow> bool"
  ce_string :: "string \<Rightarrow> string"
  ce_isEmpty :: "string \<Rightarrow> bool"
  ce_hasBindingID :: "string \<Rightarrow> bool"
  ce_evalIfExpr :: "string \<Rightarrow> string"

definition lower_byte :: "char \<Rightarrow> char" where
  "lower_byte b = (if 65 \<le> (of_char b :: nat) \<and> of_char b \<le> (90 :: nat) then char_of (of_char b + 32 :: nat) else b)"

definition stringIsTruthy :: "string \<Rightarrow> bool" where
  "stringIsTruthy v =
     (if v = [] then False
      else map lower_byte v
        \<notin> set [''false'', ''f'', ''no'', ''n'', ''off'', ''0'', ''net''])"

definition commandOnlyVar :: "string \<Rightarrow> bool" where
  "commandOnlyVar v \<longleftrightarrow> v = ''CURDIR'' \<or> v = ''BINDIR''"

definition digit_val :: "char \<Rightarrow> nat option" where
  "digit_val b = (if 48 \<le> (of_char b :: nat) \<and> of_char b \<le> (57 :: nat) then Some (of_char b - 48) else None)"

fun digits_val :: "nat \<Rightarrow> string \<Rightarrow> nat option" where
  "digits_val acc [] = Some acc"
| "digits_val acc (b # bs) = (case digit_val b of None \<Rightarrow> None | Some d \<Rightarrow> digits_val (acc * 10 + d) bs)"

text \<open>\<^verbatim>\<open>strconv.ParseUint(s, 10, bits)\<close>, \<^verbatim>\<open>strconv.ParseInt(s, 10, 64)\<close> and \<^verbatim>\<open>strconv.Atoi\<close>.\<close>

definition ParseUint :: "string \<Rightarrow> nat \<Rightarrow> nat option" where
  "ParseUint s bits =
     (if s = [] then None
      else case digits_val 0 s of
             None \<Rightarrow> None
           | Some n \<Rightarrow> if n < 2 ^ bits then Some n else None)"

definition ParseInt64 :: "string \<Rightarrow> int option" where
  "ParseInt64 s =
     (case s of
        [] \<Rightarrow> None
      | b # bs \<Rightarrow>
          let neg = (b = CHR ''-''); body = (if b = CHR ''+'' \<or> neg then bs else s)
          in if body = [] then None
             else case digits_val 0 body of
                    None \<Rightarrow> None
                  | Some n \<Rightarrow>
                      if neg then (if n \<le> 2 ^ 63 then Some (- int n) else None)
                      else if n < 2 ^ 63 then Some (int n) else None)"

definition ifInteger :: "string \<Rightarrow> int" where
  "ifInteger value = (case ParseInt64 value of None \<Rightarrow> 0 | Some n \<Rightarrow> n)"

definition cut_any :: "char list \<Rightarrow> string \<Rightarrow> string \<times> string option" where
  "cut_any seps s =
     (let part = takeWhile (\<lambda>b. b \<notin> set seps) s
      in (part, case dropWhile (\<lambda>b. b \<notin> set seps) s of [] \<Rightarrow> None | _ # rest \<Rightarrow> Some rest))"

text \<open>The loop of \<^verbatim>\<open>ifVersion\<close> runs at most three times; \<open>n\<close> is how many rounds are left.\<close>

fun ifVersion_loop :: "nat \<Rightarrow> string \<Rightarrow> string \<Rightarrow> nat list \<Rightarrow> nat list result" where
  "ifVersion_loop 0 value rest out = Inr out"
| "ifVersion_loop (Suc n) value rest out =
     (case cut_any ''.-'' rest of (part, tl_opt) \<Rightarrow>
        (case ParseUint part 32 of
           None \<Rightarrow> Inl (Thrown ''macros: cannot parse version %q'' [value])
         | Some v \<Rightarrow>
             (case tl_opt of None \<Rightarrow> Inr (out @ [v]) | Some rest' \<Rightarrow> ifVersion_loop n value rest' (out @ [v]))))"

definition ifVersion :: "string \<Rightarrow> nat list result" where
  "ifVersion value = ifVersion_loop 3 value value []"

fun list_compare :: "nat list \<Rightarrow> nat list \<Rightarrow> int" where
  "list_compare [] [] = 0"
| "list_compare [] (_ # _) = - 1"
| "list_compare (_ # _) [] = 1"
| "list_compare (x # xs) (y # ys) = (if x < y then - 1 else if y < x then 1 else list_compare xs ys)"

definition hasPrefix :: "string \<Rightarrow> string \<Rightarrow> bool" where
  "hasPrefix s p \<longleftrightarrow> take (length p) s = p"

definition hasSuffix :: "string \<Rightarrow> string \<Rightarrow> bool" where
  "hasSuffix s p \<longleftrightarrow> length p \<le> length s \<and> drop (length s - length p) s = p"

fun contains :: "string \<Rightarrow> string \<Rightarrow> bool" where
  "contains [] p \<longleftrightarrow> p = []"
| "contains (b # bs) p \<longleftrightarrow> hasPrefix (b # bs) p \<or> contains bs p"

definition versionCmpOp :: "string \<Rightarrow> int \<Rightarrow> bool" where
  "versionCmpOp name cmp =
     (if name = ''VERSION_LT'' then cmp < 0 else if name = ''VERSION_LE'' then cmp \<le> 0
      else if name = ''VERSION_GT'' then cmp > 0 else cmp \<ge> 0)"

definition yesno :: "bool \<Rightarrow> string" where
  "yesno b = (if b then ''yes'' else ''no'')"

text \<open>
  The helpers take the recursive call \<^verbatim>\<open>evalCondAt(nodes, _, env)\<close> as the argument \<open>ev\<close>. An index
  outside the array is a run-time panic.
\<close>

definition evalIfAtomString :: "CondEnv \<Rightarrow> (nat \<Rightarrow> bool result) \<Rightarrow> CondNode list \<Rightarrow> nat \<Rightarrow> string result" where
  "evalIfAtomString env ev nodes i =
     (if i < length nodes
      then let n = nodes ! i
           in case cn_Kind n of
                ckIdent \<Rightarrow> if commandOnlyVar (cn_Env n) then Inr [] else Inr (ce_string env (cn_Env n))
              | ckString \<Rightarrow> Inr (ce_evalIfExpr env (cn_Name n))
              | _ \<Rightarrow> rbind (ev i) (\<lambda>b. Inr (yesno b))
      else Inl IndexPanic)"

definition evalIsNumOperand :: "CondEnv \<Rightarrow> CondNode \<Rightarrow> string" where
  "evalIsNumOperand env n =
     (if ce_hasBindingID env (cn_Env n) then ce_string env (cn_Env n) else ce_evalIfExpr env (cn_Name n))"

definition evalConfAtomString :: "CondEnv \<Rightarrow> CondNode \<Rightarrow> string" where
  "evalConfAtomString env n = (if cn_Kind n = ckConfIdent then ce_string env (cn_Env n) else cn_Name n)"

definition confStringOperand :: "CondNode \<Rightarrow> bool" where
  "confStringOperand n \<longleftrightarrow> cn_Kind n = ckConfIdent \<or> cn_Kind n = ckString"

definition confNumber :: "CondEnv \<Rightarrow> (nat \<Rightarrow> bool result) \<Rightarrow> CondNode list \<Rightarrow> nat \<Rightarrow> int result" where
  "confNumber env ev nodes i =
     (if i < length nodes
      then let n = nodes ! i
           in case cn_Kind n of
                ckInt \<Rightarrow> Inr (cn_Ival n)
              | ckConfIdent \<Rightarrow> Inr (if evalConfAtomString env n \<noteq> [] then 1 else 0)
              | ckString \<Rightarrow> Inr (if evalConfAtomString env n \<noteq> [] then 1 else 0)
              | _ \<Rightarrow> rbind (ev i) (\<lambda>b. Inr (if b then 1 else 0))
      else Inl IndexPanic)"

fun string_less :: "string \<Rightarrow> string \<Rightarrow> bool" where
  "string_less [] ys \<longleftrightarrow> ys \<noteq> []"
| "string_less (x # xs) [] \<longleftrightarrow> False"
| "string_less (x # xs) (y # ys) \<longleftrightarrow>
     (of_char x :: nat) < of_char y \<or> x = y \<and> string_less xs ys"

definition evalConfCmp ::
  "CondEnv \<Rightarrow> (nat \<Rightarrow> bool result) \<Rightarrow> CondNode list \<Rightarrow> CondNode \<Rightarrow>
   (string \<Rightarrow> string \<Rightarrow> bool) \<Rightarrow> (int \<Rightarrow> int \<Rightarrow> bool) \<Rightarrow> bool result" where
  "evalConfCmp env ev nodes n scmp icmp =
     (if cn_L n < length nodes \<and> cn_R n < length nodes
      then if confStringOperand (nodes ! cn_L n) \<and> confStringOperand (nodes ! cn_R n)
           then Inr (scmp (evalConfAtomString env (nodes ! cn_L n)) (evalConfAtomString env (nodes ! cn_R n)))
           else rbind (confNumber env ev nodes (cn_L n)) (\<lambda>a.
                rbind (confNumber env ev nodes (cn_R n)) (\<lambda>b. Inr (icmp a b)))
      else Inl IndexPanic)"

definition evalConfEq :: "CondEnv \<Rightarrow> (nat \<Rightarrow> bool result) \<Rightarrow> CondNode list \<Rightarrow> CondNode \<Rightarrow> bool result" where
  "evalConfEq env ev nodes n = evalConfCmp env ev nodes n (=) (=)"

definition evalConfLt :: "CondEnv \<Rightarrow> (nat \<Rightarrow> bool result) \<Rightarrow> CondNode list \<Rightarrow> CondNode \<Rightarrow> bool result" where
  "evalConfLt env ev nodes n = evalConfCmp env ev nodes n string_less (<)"

definition atoms ::
  "CondEnv \<Rightarrow> (nat \<Rightarrow> bool result) \<Rightarrow> CondNode list \<Rightarrow> CondNode \<Rightarrow> (string \<Rightarrow> string \<Rightarrow> bool result) \<Rightarrow> bool result" where
  "atoms env ev nodes n f =
     rbind (evalIfAtomString env ev nodes (cn_L n)) (\<lambda>l.
     rbind (evalIfAtomString env ev nodes (cn_R n)) (\<lambda>r. f l r))"

definition evalVersionCmp :: "CondEnv \<Rightarrow> (nat \<Rightarrow> bool result) \<Rightarrow> CondNode list \<Rightarrow> CondNode \<Rightarrow> bool result" where
  "evalVersionCmp env ev nodes n =
     rbind (evalIfAtomString env ev nodes (cn_L n)) (\<lambda>l.
     rbind (ifVersion l) (\<lambda>lv.
     rbind (evalIfAtomString env ev nodes (cn_R n)) (\<lambda>r.
     rbind (ifVersion r) (\<lambda>rv. Inr (versionCmpOp (cn_Name n) (list_compare lv rv))))))"

definition evalLt :: "CondEnv \<Rightarrow> (nat \<Rightarrow> bool result) \<Rightarrow> CondNode list \<Rightarrow> CondNode \<Rightarrow> bool result" where
  "evalLt env ev nodes n =
     atoms env ev nodes n (\<lambda>l r.
       Inr (if cn_Kind n = ckGt then ifInteger r < ifInteger l else ifInteger l < ifInteger r))"

primrec evalCondAt :: "nat \<Rightarrow> CondEnv \<Rightarrow> CondNode list \<Rightarrow> nat \<Rightarrow> bool result" where
  "evalCondAt 0 env nodes i = Inl OutOfFuel"
| "evalCondAt (Suc fuel) env nodes i =
     (if i < length nodes
      then let n = nodes ! i; ev = evalCondAt fuel env nodes
           in case cn_Kind n of
                ckIdent \<Rightarrow> Inr (\<not> commandOnlyVar (cn_Env n) \<and> ce_bool env (cn_Env n))
              | ckConfIdent \<Rightarrow> Inr (\<not> ce_isEmpty env (cn_Env n))
              | ckNot \<Rightarrow> rbind (ev (cn_L n)) (\<lambda>b. Inr (\<not> b))
              | ckAnd \<Rightarrow> rbind (ev (cn_L n)) (\<lambda>b. if b then ev (cn_R n) else Inr False)
              | ckOr \<Rightarrow> rbind (ev (cn_L n)) (\<lambda>b. if b then Inr True else ev (cn_R n))
              | ckString \<Rightarrow> Inr (stringIsTruthy (ce_evalIfExpr env (cn_Name n)))
              | ckEq \<Rightarrow> atoms env ev nodes n (\<lambda>l r. Inr (l = r))
              | ckConfEq \<Rightarrow> evalConfEq env ev nodes n
              | ckLt \<Rightarrow> evalLt env ev nodes n
              | ckGt \<Rightarrow> evalLt env ev nodes n
              | ckConfLt \<Rightarrow> evalConfLt env ev nodes n
              | ckStartsWith \<Rightarrow> atoms env ev nodes n (\<lambda>l r. Inr (hasPrefix l r))
              | ckEndsWith \<Rightarrow> atoms env ev nodes n (\<lambda>l r. Inr (hasSuffix l r))
              | ckVersionCmp \<Rightarrow> evalVersionCmp env ev nodes n
              | ckMatches \<Rightarrow> atoms env ev nodes n (\<lambda>l r. Inr (contains l r))
              | ckUnsupportedOp \<Rightarrow> Inl (Thrown ''macros: unsupported IF operator %q'' [cn_Name n])
              | ckDefined \<Rightarrow> Inr (ce_hasBindingID env (cn_Env n))
              | ckIsNum \<Rightarrow> Inr (ParseInt64 (evalIsNumOperand env n) \<noteq> None)
              | ckInt \<Rightarrow> Inl (Thrown ''macros: bare integer %d cannot be evaluated as a boolean condition'' [])
      else Inl IndexPanic)"

text \<open>
  A node refers to nodes with smaller indices, so the recursion is no deeper than the array is
  long; the theorems show that this fuel is enough.
\<close>

definition evalCond :: "CondEnv \<Rightarrow> CondNode list \<Rightarrow> bool result" where
  "evalCond env nodes = evalCondAt (Suc (length nodes)) env nodes (length nodes - 1)"

section \<open>The specification: syntax trees and their meaning\<close>

datatype cond = CVar string | CDefined string | CIsNum string | CNot cond | CAnd cond cond | COr cond cond
  | COp string cond string

definition var_sem :: "CondEnv \<Rightarrow> string \<Rightarrow> bool" where
  "var_sem env w =
     (if take 1 w = ''$'' then stringIsTruthy (ce_evalIfExpr env w) else \<not> commandOnlyVar w \<and> ce_bool env w)"

definition var_string :: "CondEnv \<Rightarrow> string \<Rightarrow> string" where
  "var_string env w =
     (if take 1 w = ''$'' then ce_evalIfExpr env w else if commandOnlyVar w then [] else ce_string env w)"

definition version_sem :: "string \<Rightarrow> string \<Rightarrow> (int \<Rightarrow> bool) \<Rightarrow> bool result" where
  "version_sem l r p =
     rbind (ifVersion l) (\<lambda>lv. rbind (ifVersion r) (\<lambda>rv. Inr (p (list_compare lv rv))))"

text \<open>The meaning of an operator on its operand strings.\<close>

definition op_sem :: "string \<Rightarrow> string \<Rightarrow> string \<Rightarrow> bool result" where
  "op_sem op l r =
     (if op = ''=='' then Inr (l = r)
      else if op = ''!='' then Inr (l \<noteq> r)
      else if op = ''MATCHES'' then Inr (contains l r)
      else if op = ''STARTS_WITH'' then Inr (hasPrefix l r)
      else if op = ''ENDS_WITH'' then Inr (hasSuffix l r)
      else if op = ''VERSION_LT'' then version_sem l r (\<lambda>c. c < 0)
      else if op = ''VERSION_LE'' then version_sem l r (\<lambda>c. c \<le> 0)
      else if op = ''VERSION_GT'' then version_sem l r (\<lambda>c. c > 0)
      else if op = ''VERSION_GE'' then version_sem l r (\<lambda>c. c \<ge> 0)
      else if op = ''>'' then Inr (ifInteger l > ifInteger r)
      else if op = ''<'' then Inr (ifInteger l < ifInteger r)
      else if op = ''>='' then Inr (ifInteger l \<ge> ifInteger r)
      else if op = ''<='' then Inr (ifInteger l \<le> ifInteger r)
      else Inl (Thrown ''macros: unsupported IF operator %q'' [op]))"

definition known_ops :: "string list" where
  "known_ops = [''=='', ''!='', ''MATCHES'', ''STARTS_WITH'', ''ENDS_WITH'', ''>'', ''<'', ''>='', ''<=''] @ version_ops"

primrec cond_sem :: "CondEnv \<Rightarrow> cond \<Rightarrow> bool result" where
  "cond_sem env (CVar w) = Inr (var_sem env w)"
| "cond_sem env (CDefined w) = Inr (ce_hasBindingID env w)"
| "cond_sem env (CIsNum w) =
     Inr (ParseInt64 (if ce_hasBindingID env w then ce_string env w else ce_evalIfExpr env w) \<noteq> None)"
| "cond_sem env (CNot t) = rbind (cond_sem env t) (\<lambda>b. Inr (\<not> b))"
| "cond_sem env (CAnd t u) = rbind (cond_sem env t) (\<lambda>b. if b then cond_sem env u else Inr False)"
| "cond_sem env (COr t u) = rbind (cond_sem env t) (\<lambda>b. if b then Inr True else cond_sem env u)"
| "cond_sem env (COp op t w) =
     (if op \<in> set known_ops
      then rbind (case t of CVar v \<Rightarrow> Inr (var_string env v) | _ \<Rightarrow> rbind (cond_sem env t) (\<lambda>b. Inr (yesno b)))
             (\<lambda>l. op_sem op l (ce_evalIfExpr env w))
      else op_sem op [] [])"

section \<open>The grammar\<close>

fun p_unary :: "string list \<Rightarrow> (cond \<times> string list) option" where
  "p_unary [] = None"
| "p_unary (w # ws) =
     (if w = ''DEFINED'' then (case ws of [] \<Rightarrow> None | n # r \<Rightarrow> Some (CDefined n, r))
      else if w = ''ISNUM'' then (case ws of [] \<Rightarrow> None | n # r \<Rightarrow> Some (CIsNum n, r))
      else Some (CVar w, ws))"

definition p_binary :: "string list \<Rightarrow> (cond \<times> string list) option" where
  "p_binary ws =
     (case p_unary ws of
        None \<Rightarrow> None
      | Some (t, r) \<Rightarrow>
          (case r of
             [] \<Rightarrow> Some (t, [])
           | op # r1 \<Rightarrow>
               if op = ''AND'' \<or> op = ''OR'' then Some (t, r)
               else (case r1 of [] \<Rightarrow> None | w # r2 \<Rightarrow> Some (COp op t w, r2))))"

fun p_not :: "string list \<Rightarrow> (cond \<times> string list) option" where
  "p_not [] = p_binary []"
| "p_not (w # ws) =
     (if w = ''NOT'' then (case p_not ws of None \<Rightarrow> None | Some (t, r) \<Rightarrow> Some (CNot t, r)) else p_binary (w # ws))"

lemma p_binary_shorter: "p_binary ws = Some (t, r) \<Longrightarrow> length r < length ws"
  by (cases ws) (auto simp: p_binary_def split: list.splits if_splits option.splits prod.splits)

lemma p_not_shorter: "p_not ws = Some (t, r) \<Longrightarrow> length r < length ws"
  by (induction ws arbitrary: t r) (auto dest: p_binary_shorter split: if_splits option.splits)

function p_and :: "string list \<Rightarrow> (cond \<times> string list) option" where
  "p_and ws =
     (case p_not ws of
        None \<Rightarrow> None
      | Some (t, r) \<Rightarrow>
          (case r of
             [] \<Rightarrow> Some (t, r)
           | w # r1 \<Rightarrow>
               if w = ''AND'' then (case p_and r1 of None \<Rightarrow> None | Some (u, r2) \<Rightarrow> Some (CAnd t u, r2))
               else Some (t, r)))"
  by pat_completeness auto
termination
  by (relation "measure length") (auto dest: p_not_shorter)

declare p_and.simps [simp del]

lemma p_and_shorter: "p_and ws = Some (t, r) \<Longrightarrow> length r < length ws"
proof (induction ws arbitrary: t r rule: p_and.induct)
  case (1 ws)
  obtain u q where n: "p_not ws = Some (u, q)" using 1(2) by (auto simp: p_and.simps [of ws] split: option.splits)
  note s = p_not_shorter [OF n]
  show ?case
  proof (cases "\<exists>r1. q = ''AND'' # r1")
    case True
    then obtain r1 where q: "q = ''AND'' # r1" by blast
    then obtain u2 r2 where "p_and r1 = Some (u2, r2)" "r = r2"
      using 1(2) n by (auto simp: p_and.simps [of ws] split: option.splits)
    then show ?thesis using 1(1) [OF n refl q refl, of u2 r2] q s by simp
  next
    case False
    then have "r = q" using 1(2) n by (auto simp: p_and.simps [of ws] split: list.splits if_splits)
    then show ?thesis using s by simp
  qed
qed

function p_or :: "string list \<Rightarrow> cond option" where
  "p_or ws =
     (case p_and ws of
        None \<Rightarrow> None
      | Some (t, r) \<Rightarrow>
          (case r of
             [] \<Rightarrow> Some t
           | w # r1 \<Rightarrow> if w = ''OR'' then map_option (COr t) (p_or r1) else None))"
  by pat_completeness auto
termination
  by (relation "measure length") (auto dest: p_and_shorter)

declare p_or.simps [simp del]

text \<open>One word alone is a variable, whatever it is.\<close>

definition parse_cond :: "string list \<Rightarrow> cond option" where
  "parse_cond args = (case args of [] \<Rightarrow> None | [w] \<Rightarrow> Some (CVar w) | _ \<Rightarrow> p_or args)"

section \<open>The node array represents the tree\<close>

definition var_node :: "string \<Rightarrow> CondNode" where
  "var_node w = (if take 1 w = ''$'' then leafNode ckString w [] else leafNode ckIdent w w)"

definition base_node :: "string \<Rightarrow> nat \<Rightarrow> nat \<Rightarrow> CondNode" where
  "base_node op j k =
     (if op = ''=='' \<or> op = ''!='' then opNode ckEq [] j k
      else if op = ''MATCHES'' then opNode ckMatches [] j k
      else if op = ''STARTS_WITH'' then opNode ckStartsWith [] j k
      else if op = ''ENDS_WITH'' then opNode ckEndsWith [] j k
      else if op \<in> set version_ops then opNode ckVersionCmp op j k
      else if op = ''>'' \<or> op = ''<='' then opNode ckGt [] j k
      else if op = ''<'' \<or> op = ''>='' then opNode ckLt [] j k
      else opNode ckUnsupportedOp op j k)"

definition negated_op :: "string \<Rightarrow> bool" where
  "negated_op op \<longleftrightarrow> op = ''!='' \<or> op = ''>='' \<or> op = ''<=''"

primrec enc :: "CondNode list \<Rightarrow> cond \<Rightarrow> nat \<Rightarrow> bool" where
  "enc ns (CVar w) i \<longleftrightarrow> i < length ns \<and> ns ! i = var_node w"
| "enc ns (CDefined w) i \<longleftrightarrow> i < length ns \<and> ns ! i = leafNode ckDefined w w"
| "enc ns (CIsNum w) i \<longleftrightarrow> i < length ns \<and> ns ! i = leafNode ckIsNum w w"
| "enc ns (CNot t) i \<longleftrightarrow> i < length ns \<and> (\<exists>j < i. ns ! i = opNode ckNot [] j 0 \<and> enc ns t j)"
| "enc ns (CAnd t u) i \<longleftrightarrow>
     i < length ns \<and> (\<exists>j < i. \<exists>k < i. ns ! i = opNode ckAnd [] j k \<and> enc ns t j \<and> enc ns u k)"
| "enc ns (COr t u) i \<longleftrightarrow>
     i < length ns \<and> (\<exists>j < i. \<exists>k < i. ns ! i = opNode ckOr [] j k \<and> enc ns t j \<and> enc ns u k)"
| "enc ns (COp op t w) i \<longleftrightarrow>
     i < length ns \<and> (\<exists>m j k. j < m \<and> k < m \<and> m < length ns \<and> ns ! m = base_node op j k
       \<and> enc ns t j \<and> ns ! k = leafNode ckString w []
       \<and> (if negated_op op then m < i \<and> ns ! i = opNode ckNot [] m 0 else m = i))"

lemma enc_less: "enc ns t i \<Longrightarrow> i < length ns"
  by (cases t) simp_all

lemma enc_append: "enc ns t i \<Longrightarrow> enc (ns @ ext) t i"
proof (induction t arbitrary: i)
  case (COp op t w)
  then obtain m j k where m: "j < m" "k < m" "m < length ns" "ns ! m = base_node op j k" "enc ns t j"
      "ns ! k = leafNode ckString w []" "if negated_op op then m < i \<and> ns ! i = opNode ckNot [] m 0 else m = i"
      "i < length ns"
    by auto
  then have "(ns @ ext) ! m = base_node op j k" "(ns @ ext) ! k = leafNode ckString w []"
      "(ns @ ext) ! i = ns ! i" "enc (ns @ ext) t j"
    using COp.IH by (simp_all add: nth_append)
  then show ?case using m unfolding enc.simps
    by (intro conjI exI [of _ m] exI [of _ j] exI [of _ k]) auto
next
  case (CNot t)
  then obtain j where "i < length ns" "j < i" "ns ! i = opNode ckNot [] j 0" "enc (ns @ ext) t j" by auto
  then show ?case by (auto simp: nth_append)
next
  case (CAnd t u)
  then obtain j k where "i < length ns" "j < i" "k < i" "ns ! i = opNode ckAnd [] j k"
    "enc (ns @ ext) t j" "enc (ns @ ext) u k" by auto
  then show ?case by (auto simp: nth_append)
next
  case (COr t u)
  then obtain j k where "i < length ns" "j < i" "k < i" "ns ! i = opNode ckOr [] j k"
    "enc (ns @ ext) t j" "enc (ns @ ext) u k" by auto
  then show ?case by (auto simp: nth_append)
qed (auto simp: nth_append)

lemma node_simps [simp]:
  "cn_Kind (leafNode k w e) = k" "cn_Name (leafNode k w e) = w" "cn_Env (leafNode k w e) = e"
  "cn_Kind (opNode k w l r) = k" "cn_Name (opNode k w l r) = w" "cn_L (opNode k w l r) = l"
  "cn_R (opNode k w l r) = r"
  by (simp_all add: leafNode_def opNode_def)


text \<open>What the left operand of an operator is compared as.\<close>

definition operand_sem :: "CondEnv \<Rightarrow> cond \<Rightarrow> string result" where
  "operand_sem env t =
     (case t of CVar v \<Rightarrow> Inr (var_string env v) | _ \<Rightarrow> rbind (cond_sem env t) (\<lambda>b. Inr (yesno b)))"

lemma if_both: "P a \<Longrightarrow> P b \<Longrightarrow> P (if c then a else b)"
  by simp

lemma base_node_kind:
  "cn_Kind (base_node op j k) \<noteq> ckIdent \<and> cn_Kind (base_node op j k) \<noteq> ckString"
  unfolding base_node_def
  by (intro if_both [where P = "\<lambda>n. cn_Kind n \<noteq> ckIdent \<and> cn_Kind n \<noteq> ckString"]) simp_all


lemma enc_kind: "enc ns t i \<Longrightarrow> (\<forall>w. t \<noteq> CVar w) \<Longrightarrow> cn_Kind (ns ! i) \<noteq> ckIdent \<and> cn_Kind (ns ! i) \<noteq> ckString"
proof (cases t)
  case (COp op u w)
  assume "enc ns t i"
  then obtain m j k where "ns ! m = base_node op j k"
      "if negated_op op then ns ! i = opNode ckNot [] m 0 else m = i"
    unfolding COp enc.simps by (metis (full_types))
  then show ?thesis using base_node_kind [of op j k] by (auto split: if_splits)
qed auto

lemma atom_operand:
  assumes "enc ns t j" and "ev j = cond_sem env t"
  shows "evalIfAtomString env ev ns j = operand_sem env t"
proof (cases "\<exists>w. t = CVar w")
  case True
  then show ?thesis
    using assms by (auto simp: evalIfAtomString_def operand_sem_def var_node_def var_string_def)
next
  case False
  then have "evalIfAtomString env ev ns j = rbind (ev j) (\<lambda>b. Inr (yesno b))"
    using enc_kind [OF assms(1)] enc_less [OF assms(1)]
    by (auto simp: evalIfAtomString_def Let_def split: CondKind.split)
  moreover have "operand_sem env t = rbind (cond_sem env t) (\<lambda>b. Inr (yesno b))"
    using False by (auto simp: operand_sem_def split: cond.split)
  ultimately show ?thesis using assms(2) by simp
qed

lemma atom_word:
  "k < length ns \<Longrightarrow> ns ! k = leafNode ckString w [] \<Longrightarrow> evalIfAtomString env ev ns k = Inr (ce_evalIfExpr env w)"
  by (simp add: evalIfAtomString_def)

lemma eval_base:
  assumes "m < length ns" and "ns ! m = base_node op j k"
    and "evalIfAtomString env (evalCondAt f env ns) ns j = ml"
    and "evalIfAtomString env (evalCondAt f env ns) ns k = Inr r" and "op \<in> set known_ops"
  shows "(if negated_op op then rbind (evalCondAt (Suc f) env ns m) (\<lambda>b. Inr (\<not> b)) else evalCondAt (Suc f) env ns m)
    = rbind ml (\<lambda>l. op_sem op l r)"
  using assms(5) assms(1-4)
  unfolding known_ops_def version_ops_def append.simps list.set insert_iff empty_iff
  apply (elim disjE)
  apply (simp_all add: base_node_def version_ops_def negated_op_def op_sem_def atoms_def evalLt_def evalVersionCmp_def
      versionCmpOp_def version_sem_def not_less)
  done

lemma eval_unknown:
  assumes "m < length ns" and "ns ! m = base_node op j k" and "op \<notin> set known_ops"
  shows "evalCondAt (Suc f) env ns m = op_sem op l r \<and> \<not> negated_op op"
proof -
  have n: "op \<noteq> ''==''" "op \<noteq> ''!=''" "op \<noteq> ''MATCHES''" "op \<noteq> ''STARTS_WITH''" "op \<noteq> ''ENDS_WITH''" "op \<noteq> ''>''"
    "op \<noteq> ''<''" "op \<noteq> ''>=''" "op \<noteq> ''<=''" "op \<notin> set version_ops"
    "op \<noteq> ''VERSION_GT''" "op \<noteq> ''VERSION_GE''" "op \<noteq> ''VERSION_LT''" "op \<noteq> ''VERSION_LE''"
    using assms(3) by (simp_all add: known_ops_def version_ops_def)
  have "base_node op j k = opNode ckUnsupportedOp op j k"
    unfolding base_node_def by (simp only: n if_False simp_thms)
  moreover have "op_sem op l r = Inl (Thrown ''macros: unsupported IF operator %q'' [op])"
    unfolding op_sem_def by (simp only: n if_False)
  moreover have "\<not> negated_op op" unfolding negated_op_def by (simp only: n simp_thms)
  ultimately show ?thesis using assms(1,2) by simp
qed

text \<open>Evaluating the array at the node of a tree gives the meaning of the tree.\<close>

lemma eval_enc:
  "enc ns t i \<Longrightarrow> i < fuel \<Longrightarrow> evalCondAt fuel env ns i = cond_sem env t"
proof (induction t arbitrary: i fuel)
  case (CNot t)
  then obtain f j where f: "fuel = Suc f" "j < i" "ns ! i = opNode ckNot [] j 0" "enc ns t j" "i < length ns"
    by (cases fuel) auto
  then show ?case using CNot.IH [of j f] CNot.prems(2) by simp
next
  case (CAnd t u)
  then obtain f j k where f: "fuel = Suc f" "j < i" "k < i" "ns ! i = opNode ckAnd [] j k" "enc ns t j" "enc ns u k"
      "i < length ns"
    by (cases fuel) auto
  then show ?case using CAnd.IH(1) [of j f] CAnd.IH(2) [of k f] CAnd.prems(2) by (simp cong: if_cong)
next
  case (COr t u)
  then obtain f j k where f: "fuel = Suc f" "j < i" "k < i" "ns ! i = opNode ckOr [] j k" "enc ns t j" "enc ns u k"
      "i < length ns"
    by (cases fuel) auto
  then show ?case using COr.IH(1) [of j f] COr.IH(2) [of k f] COr.prems(2) by (simp cong: if_cong)
next
  case (COp op t w)
  obtain m j k where m: "j < m" "k < m" "m < length ns" "ns ! m = base_node op j k" "enc ns t j"
      "ns ! k = leafNode ckString w []" "if negated_op op then m < i \<and> ns ! i = opNode ckNot [] m 0 else m = i"
      "i < length ns"
    using COp.prems(1) by auto
  obtain f where f: "m < Suc f" "evalCondAt fuel env ns i =
      (if negated_op op then rbind (evalCondAt (Suc f) env ns m) (\<lambda>b. Inr (\<not> b)) else evalCondAt (Suc f) env ns m)"
  proof (cases "negated_op op")
    case True
    then obtain g where "fuel = Suc (Suc g)" using m(7) COp.prems(2) by (cases fuel; cases "fuel - 1") auto
    then show ?thesis using that [of g] True m COp.prems(2) by simp
  next
    case False
    then obtain g where "fuel = Suc g" using COp.prems(2) by (cases fuel) auto
    then show ?thesis using that [of g] False m COp.prems(2) by simp
  qed
  have l: "evalIfAtomString env (evalCondAt f env ns) ns j = operand_sem env t"
    using atom_operand [OF m(5)] COp.IH [OF m(5), of f] m(1) f(1) by simp
  have r: "evalIfAtomString env (evalCondAt f env ns) ns k = Inr (ce_evalIfExpr env w)"
    using atom_word [of k ns] m by simp
  show ?case
  proof (cases "op \<in> set known_ops")
    case True
    then show ?thesis using eval_base [OF m(3,4) l r True] f(2) by (simp add: operand_sem_def)
  next
    case False
    then show ?thesis using eval_unknown [OF m(3,4) False, of f env "[]" "[]"] f(2) by simp
  qed
next
  case (CVar w)
  then show ?case by (cases fuel) (auto simp: var_node_def var_sem_def)
next
  case (CDefined w)
  then show ?case by (cases fuel) auto
next
  case (CIsNum w)
  then show ?case by (cases fuel) (auto simp: evalIsNumOperand_def)
qed

section \<open>The compiler follows the grammar\<close>

definition ic_words :: "IfCondCompiler \<Rightarrow> string list" where
  "ic_words c = drop (ic_pos c) (ic_args c)"

text \<open>
  \<open>compiled c p r\<close>: the compiler, started in state \<open>c\<close>, ended with \<open>r\<close> as the grammar says with
  \<open>p\<close>: with an exception when there is no tree, else with an array that extends the one before,
  represents the tree at its last node, and with the rest of the words left.
\<close>

definition compiled :: "IfCondCompiler \<Rightarrow> (cond \<times> string list) option \<Rightarrow> (nat \<times> IfCondCompiler) result \<Rightarrow> bool" where
  "compiled c p r \<longleftrightarrow>
     (case p of
        None \<Rightarrow> (\<exists>e. r = Inl e)
      | Some (t, ws) \<Rightarrow>
          (\<exists>i c' ext. r = Inr (i, c') \<and> ic_words c' = ws \<and> ic_pos c' \<le> length (ic_args c')
            \<and> ic_nodes c' = ic_nodes c @ ext \<and> enc (ic_nodes c') t i \<and> Suc i = length (ic_nodes c')))"

lemma compiled_None [simp]: "compiled c None r \<longleftrightarrow> (\<exists>e. r = Inl e)"
  by (simp add: compiled_def)

lemma compiled_SomeE:
  assumes "compiled c (Some (t, ws)) r"
  obtains i c' ext where "r = Inr (i, c')" "ic_words c' = ws" "ic_pos c' \<le> length (ic_args c')"
    "ic_nodes c' = ic_nodes c @ ext" "enc (ic_nodes c') t i" "Suc i = length (ic_nodes c')"
  using assms by (auto simp: compiled_def)

lemma compiled_SomeI:
  "ic_words c' = ws \<Longrightarrow> ic_pos c' \<le> length (ic_args c') \<Longrightarrow> ic_nodes c' = ic_nodes c @ ext \<Longrightarrow>
   enc (ic_nodes c') t i \<Longrightarrow> Suc i = length (ic_nodes c') \<Longrightarrow> compiled c (Some (t, ws)) (Inr (i, c'))"
  by (auto simp: compiled_def)

lemma ic_words_Nil: "ic_pos c \<le> length (ic_args c) \<Longrightarrow> ic_words c = [] \<longleftrightarrow> ic_pos c = length (ic_args c)"
  by (auto simp: ic_words_def)

lemma ic_words_Cons:
  assumes "ic_words c = w # ws"
  shows "ic_pos c < length (ic_args c)" and "ic_args c ! ic_pos c = w" and "ic_words (ic_skip c) = ws"
    and "ic_nodes (ic_skip c) = ic_nodes c" and "ic_take c = Inr (w, ic_skip c)" and "ic_at c v \<longleftrightarrow> w = v"
    and "ic_pos (ic_skip c) \<le> length (ic_args (ic_skip c))"
proof -
  show l: "ic_pos c < length (ic_args c)"
    using assms by (metis drop_eq_Nil ic_words_def leI list.distinct(1))
  then have "drop (ic_pos c) (ic_args c) = ic_args c ! ic_pos c # drop (Suc (ic_pos c)) (ic_args c)"
    by (simp add: Cons_nth_drop_Suc)
  then show "ic_args c ! ic_pos c = w" "ic_words (ic_skip c) = ws"
    using assms by (simp_all add: ic_words_def ic_skip_def)
  then show "ic_take c = Inr (w, ic_skip c)" "ic_at c v \<longleftrightarrow> w = v"
    using l by (auto simp: ic_take_def ic_skip_def ic_at_def)
qed (use assms in \<open>auto simp: ic_skip_def ic_words_def dest: arg_cong [where f = length]\<close>)

lemma ic_at_Nil: "ic_words c = [] \<Longrightarrow> \<not> ic_at c v"
  by (auto simp: ic_at_def ic_words_def)

lemma ic_emit_fields:
  assumes "ic_emit c n = (i, c')"
  shows "i = length (ic_nodes c)" "ic_nodes c' = ic_nodes c @ [n]" "ic_words c' = ic_words c"
    "ic_pos c' = ic_pos c" "ic_args c' = ic_args c"
  using assms by (auto simp: ic_emit_def ic_words_def)

lemma emit_leaf:
  assumes "ic_pos c \<le> length (ic_args c)" and "ic_nodes c = ic_nodes c0 @ ext" and "enc (ic_nodes c @ [n]) t (length (ic_nodes c))"
  shows "compiled c0 (Some (t, ic_words c)) (Inr (ic_emit c n))"
  using assms unfolding ic_emit_def
  by (intro compiled_SomeI [where ext = "ext @ [n]"]) (simp_all add: ic_words_def)

lemma varExpr_compiled:
  assumes "ic_pos c \<le> length (ic_args c)"
  shows "compiled c (Some (CVar w, ic_words c)) (Inr (varExpr c w))"
proof -
  have "varExpr c w = ic_emit c (var_node w)" by (simp add: varExpr_def var_node_def)
  then show ?thesis using emit_leaf [OF assms, of c "[]"] by simp
qed

lemma compiled_nodes: "ic_nodes c1 = ic_nodes c \<Longrightarrow> compiled c1 p r \<longleftrightarrow> compiled c p r"
  unfolding compiled_def by (simp cong: option.case_cong prod.case_cong)

lemma ic_take_Nil:
  "ic_words c = [] \<Longrightarrow> ic_pos c \<le> length (ic_args c) \<Longrightarrow> \<exists>e. ic_take c = Inl e"
  by (auto simp: ic_take_def ic_words_def)

lemma unaryExpr_compiled:
  assumes "ic_pos c \<le> length (ic_args c)"
  shows "compiled c (p_unary (ic_words c)) (unaryExpr c)"
proof (cases "ic_words c")
  case Nil
  then show ?thesis using ic_take_Nil [OF Nil assms] by (auto simp: unaryExpr_def)
next
  case (Cons w ws)
  note w = ic_words_Cons [OF Cons]
  let ?c = "ic_skip c"
  have name: "compiled c (case ws of [] \<Rightarrow> None | n # r \<Rightarrow> Some (mk n, r))
      (rbind (ic_take ?c) (\<lambda>(name, c). Inr (ic_emit c (leafNode k name name))))"
    if mk: "\<And>ns n i. enc ns (mk n) i \<longleftrightarrow> i < length ns \<and> ns ! i = leafNode k n n" for mk k
  proof (cases ws)
    case Nil
    then show ?thesis using ic_take_Nil [of ?c] w(3,7) by auto
  next
    case (Cons n r)
    note n = ic_words_Cons [of ?c n r, unfolded w(3), OF Cons]
    show ?thesis
      using emit_leaf [of "ic_skip ?c" c "[]" "leafNode k n n" "mk n"] n w Cons by (simp add: mk)
  qed
  consider (def) "w = ''DEFINED''" | (num) "w = ''ISNUM''" | (var) "w \<noteq> ''DEFINED''" "w \<noteq> ''ISNUM''" by blast
  then show ?thesis
  proof cases
    case def
    then show ?thesis using name [of CDefined ckDefined] w(5) by (simp add: unaryExpr_def Cons)
  next
    case num
    then show ?thesis using name [of CIsNum ckIsNum] w(5) by (simp add: unaryExpr_def Cons)
  next
    case var
    then show ?thesis
      using varExpr_compiled [OF w(7), of w] compiled_nodes [OF w(4)] w(3,5) by (simp add: unaryExpr_def Cons)
  qed
qed

text \<open>Emitting the node or nodes of an operator over two nodes that are there already.\<close>

lemma emitOp_compiled:
  assumes "ic_pos c \<le> length (ic_args c)" and "ic_nodes c = ic_nodes c0 @ ext"
    and "enc (ic_nodes c) t l" and "r < length (ic_nodes c)" and "ic_nodes c ! r = leafNode ckString w []"
  shows "compiled c0 (Some (COp op t w, ic_words c)) (Inr (emitOp c op l r))"
proof -
  let ?ns = "ic_nodes c" and ?b = "base_node op l r"
  have l: "l < length ?ns" using enc_less [OF assms(3)] .
  have enc_b: "enc (?ns @ [?b] @ more') t l" for more' using enc_append [OF assms(3)] .
  show ?thesis
  proof (cases "negated_op op")
    case True
    then have e: "emitOp c op l r = ic_emit_not (ic_emit c ?b)"
      unfolding negated_op_def by (elim disjE) (simp_all add: emitOp_def base_node_def version_ops_def)
    let ?n = "opNode ckNot [] (length ?ns) 0"
    have "enc (?ns @ [?b, ?n]) (COp op t w) (Suc (length ?ns))"
      using True l assms(4,5) enc_b [of "[?n]"] unfolding enc.simps
      by (intro conjI exI [of _ "length ?ns"] exI [of _ l] exI [of _ r]) (simp_all add: nth_append)
    moreover have "ic_emit_not (ic_emit c ?b) = (Suc (length ?ns), c\<lparr>ic_nodes := ?ns @ [?b, ?n]\<rparr>)"
      by (simp add: ic_emit_not_def ic_emit_def)
    ultimately show ?thesis
      unfolding e using assms(1,2)
      by (simp only:) (rule compiled_SomeI [where ext = "ext @ [?b, ?n]"], simp_all add: ic_words_def del: enc.simps)
  next
    case False
    then have ne: "op \<noteq> ''!=''" "op \<noteq> ''>=''" "op \<noteq> ''<=''" by (auto simp: negated_op_def)
    have e: "emitOp c op l r = ic_emit c ?b"
      unfolding emitOp_def base_node_def by (simp only: ne simp_thms if_False if_distrib [of "ic_emit c"])
    have "enc (?ns @ [?b]) (COp op t w) (length ?ns)"
      using False l assms(4,5) enc_b [of "[]"] unfolding enc.simps
      by (intro conjI exI [of _ "length ?ns"] exI [of _ l] exI [of _ r]) (simp_all add: nth_append)
    then show ?thesis unfolding e using emit_leaf [OF assms(1,2)] by simp
  qed
qed

lemma binaryExpr_compiled:
  assumes "ic_pos c \<le> length (ic_args c)"
  shows "compiled c (p_binary (ic_words c)) (binaryExpr c)"
proof (cases "p_unary (ic_words c)")
  case None
  then show ?thesis using unaryExpr_compiled [OF assms] by (auto simp: binaryExpr_def p_binary_def)
next
  case (Some p)
  then obtain t ws where p: "p_unary (ic_words c) = Some (t, ws)" by (cases p) auto
  obtain i c1 ext where u: "unaryExpr c = Inr (i, c1)" "ic_words c1 = ws" "ic_pos c1 \<le> length (ic_args c1)"
      "ic_nodes c1 = ic_nodes c @ ext" "enc (ic_nodes c1) t i" "Suc i = length (ic_nodes c1)"
    using unaryExpr_compiled [OF assms] p by (auto elim: compiled_SomeE)
  have ret: "compiled c (Some (t, ws)) (Inr (i, c1))" using u by (auto intro: compiled_SomeI)
  show ?thesis
  proof (cases ws)
    case Nil
    then show ?thesis
      using ret u ic_words_Nil [OF u(3)] by (simp add: binaryExpr_def p_binary_def p)
  next
    case (Cons op r1)
    note w = ic_words_Cons [OF u(2) [unfolded Cons]]
    show ?thesis
    proof (cases "op = ''AND'' \<or> op = ''OR''")
      case True
      then show ?thesis using ret u(1) w(1,6) Cons by (auto simp: binaryExpr_def p_binary_def p)
    next
      case False
      have go: "binaryExpr c = rbind (ic_take (ic_skip c1)) (\<lambda>(word, c).
          let (right, c) = ic_emit c (leafNode ckString word []) in Inr (emitOp c op i right))"
        using u(1) w(1,5,6) False by (simp add: binaryExpr_def)
      show ?thesis
      proof (cases r1)
        case Nil
        then show ?thesis
          using go ic_take_Nil [of "ic_skip c1"] w(3,7) Cons False by (auto simp: p_binary_def p)
      next
        case (Cons v r2)
        note v = ic_words_Cons [of "ic_skip c1" v r2, unfolded w(3), OF Cons]
        define c2 where "c2 = (ic_skip (ic_skip c1))\<lparr>ic_nodes := ic_nodes c1 @ [leafNode ckString v []]\<rparr>"
        have "binaryExpr c = Inr (emitOp c2 op i (length (ic_nodes c1)))"
          using go v(4,5) w(4) by (simp add: ic_emit_def c2_def Let_def)
        moreover have "compiled c (Some (COp op t v, ic_words c2)) (Inr (emitOp c2 op i (length (ic_nodes c1))))"
          using v(7) u(4) enc_append [OF u(5)]
          by (intro emitOp_compiled [where ext = "ext @ [leafNode ckString v []]"]) (simp_all add: c2_def)
        moreover have "ic_words c2 = r2" using v(3) by (simp add: c2_def ic_words_def)
        ultimately show ?thesis using \<open>ws = op # r1\<close> Cons False by (simp add: p_binary_def p)
      qed
    qed
  qed
qed

lemma notExpr_compiled:
  "ic_pos c \<le> length (ic_args c) \<Longrightarrow> compiled c (p_not (ic_words c)) (notExpr c)"
proof (induction c rule: notExpr.induct)
  case (1 c)
  show ?case
  proof (cases "ic_at c ''NOT''")
    case False
    then have "p_not (ic_words c) = p_binary (ic_words c)"
      by (cases "ic_words c") (auto dest: ic_words_Cons(6))
    then show ?thesis using False binaryExpr_compiled [OF 1(2)] by (simp add: notExpr.simps [of c])
  next
    case True
    then obtain ws where ws: "ic_words c = ''NOT'' # ws"
      by (cases "ic_words c") (auto dest: ic_at_Nil ic_words_Cons(6))
    note w = ic_words_Cons [OF ws]
    have go: "notExpr c = rbind (notExpr (ic_skip c)) (\<lambda>(i, c). Inr (ic_emit c (opNode ckNot [] i 0)))"
      using True by (simp add: notExpr.simps [of c])
    have ih: "compiled c (p_not ws) (notExpr (ic_skip c))"
      using 1(1) True w(3,4,7) compiled_nodes by (metis (no_types, lifting))
    show ?thesis
    proof (cases "p_not ws")
      case None
      then show ?thesis using ih go ws by auto
    next
      case (Some p)
      then obtain t r where p: "p_not ws = Some (t, r)" by (cases p) auto
      obtain i c1 ext where u: "notExpr (ic_skip c) = Inr (i, c1)" "ic_words c1 = r" "ic_pos c1 \<le> length (ic_args c1)"
          "ic_nodes c1 = ic_nodes c @ ext" "enc (ic_nodes c1) t i" "Suc i = length (ic_nodes c1)"
        using ih p by (auto elim: compiled_SomeE)
      have "compiled c (Some (CNot t, ic_words c1)) (Inr (ic_emit c1 (opNode ckNot [] i 0)))"
      proof (rule emit_leaf [OF u(3,4)])
        show "enc (ic_nodes c1 @ [opNode ckNot [] i 0]) (CNot t) (length (ic_nodes c1))"
          using enc_append [OF u(5)] enc_less [OF u(5)] unfolding enc.simps
          by (intro conjI exI [of _ i]) simp_all
      qed
      then show ?thesis using u(1,2) go ws p by simp
    qed
  qed
qed

lemma emit_pair:
  assumes "ic_pos c2 \<le> length (ic_args c2)" and "ic_nodes c1 = ic_nodes c @ ext1" and "ic_nodes c2 = ic_nodes c1 @ ext2"
    and "enc (ic_nodes c1) t i" and "enc (ic_nodes c2) u j" and "k = ckAnd \<and> mk = CAnd \<or> k = ckOr \<and> mk = COr"
  shows "compiled c (Some (mk t u, ic_words c2)) (Inr (ic_emit c2 (opNode k [] i j)))"
proof -
  have "enc (ic_nodes c2 @ [opNode k [] i j]) t i" "enc (ic_nodes c2 @ [opNode k [] i j]) u j"
    "i < length (ic_nodes c2)" "j < length (ic_nodes c2)"
    using enc_append [OF enc_append [OF assms(4)]] enc_append [OF assms(5)] enc_less [OF assms(5)]
      enc_less [OF assms(4)] assms(3) by simp_all
  then have "enc (ic_nodes c2 @ [opNode k [] i j]) (mk t u) (length (ic_nodes c2))"
    using assms(6) by (elim disjE conjE, simp_all only: enc.simps)
      (intro conjI exI [of _ i] exI [of _ j], simp_all)+
  then show ?thesis using emit_leaf [OF assms(1), of c "ext1 @ ext2"] assms(2,3) by simp
qed

lemma andExpr_compiled:
  "ic_pos c \<le> length (ic_args c) \<Longrightarrow> compiled c (p_and (ic_words c)) (andExpr c)"
proof (induction c rule: andExpr.induct)
  case (1 c)
  show ?case
  proof (cases "p_not (ic_words c)")
    case None
    then show ?thesis
      using notExpr_compiled [OF 1(2)] by (auto simp: andExpr.simps [of c] p_and.simps [of "ic_words c"])
  next
    case (Some p)
    then obtain t ws where p: "p_not (ic_words c) = Some (t, ws)" by (cases p) auto
    obtain i c1 ext where u: "notExpr c = Inr (i, c1)" "ic_words c1 = ws" "ic_pos c1 \<le> length (ic_args c1)"
        "ic_nodes c1 = ic_nodes c @ ext" "enc (ic_nodes c1) t i" "Suc i = length (ic_nodes c1)"
      using notExpr_compiled [OF 1(2)] p by (auto elim: compiled_SomeE)
    show ?thesis
    proof (cases "ic_at c1 ''AND''")
      case False
      then have "p_and (ic_words c) = Some (t, ws)"
        using u(2) by (cases ws) (auto simp: p_and.simps [of "ic_words c"] p dest: ic_words_Cons(6))
      then show ?thesis using u False by (auto simp: andExpr.simps [of c] intro: compiled_SomeI)
    next
      case True
      then obtain r1 where ws: "ws = ''AND'' # r1"
        using u(2) by (cases ws) (auto dest: ic_at_Nil ic_words_Cons(6))
      note w = ic_words_Cons [OF u(2) [unfolded ws]]
      have go: "andExpr c = rbind (andExpr (ic_skip c1)) (\<lambda>(right, c). Inr (ic_emit c (opNode ckAnd [] i right)))"
        using True u(1) by (simp add: andExpr.simps [of c])
      have ih: "compiled c1 (p_and r1) (andExpr (ic_skip c1))"
        using 1(1) [OF u(1) refl] True w(3,4,7) compiled_nodes by (metis (no_types, lifting))
      have pa: "p_and (ic_words c) = (case p_and r1 of None \<Rightarrow> None | Some (u, r2) \<Rightarrow> Some (CAnd t u, r2))"
        by (simp add: p_and.simps [of "ic_words c"] p ws)
      show ?thesis
      proof (cases "p_and r1")
        case None
        then show ?thesis using ih go pa by auto
      next
        case (Some q)
        then obtain v r2 where q: "p_and r1 = Some (v, r2)" by (cases q) auto
        obtain j c2 ext2 where a: "andExpr (ic_skip c1) = Inr (j, c2)" "ic_words c2 = r2" "ic_pos c2 \<le> length (ic_args c2)"
            "ic_nodes c2 = ic_nodes c1 @ ext2" "enc (ic_nodes c2) v j"
          using ih q by (auto elim: compiled_SomeE)
        show ?thesis using emit_pair [OF a(3) u(4) a(4) u(5) a(5)] a(1,2) go pa q by simp
      qed
    qed
  qed
qed

lemma orExpr_compiled:
  "ic_pos c \<le> length (ic_args c) \<Longrightarrow> compiled c (map_option (\<lambda>t. (t, [])) (p_or (ic_words c))) (orExpr c)"
proof (induction c rule: orExpr.induct)
  case (1 c)
  show ?case
  proof (cases "p_and (ic_words c)")
    case None
    then show ?thesis
      using andExpr_compiled [OF 1(2)] by (auto simp: orExpr.simps [of c] p_or.simps [of "ic_words c"])
  next
    case (Some p)
    then obtain t ws where p: "p_and (ic_words c) = Some (t, ws)" by (cases p) auto
    obtain i c1 ext where u: "andExpr c = Inr (i, c1)" "ic_words c1 = ws" "ic_pos c1 \<le> length (ic_args c1)"
        "ic_nodes c1 = ic_nodes c @ ext" "enc (ic_nodes c1) t i" "Suc i = length (ic_nodes c1)"
      using andExpr_compiled [OF 1(2)] p by (auto elim: compiled_SomeE)
    show ?thesis
    proof (cases ws)
      case Nil
      then have "p_or (ic_words c) = Some t" by (simp add: p_or.simps [of "ic_words c"] p)
      then show ?thesis
        using u Nil ic_words_Nil [OF u(3)] by (auto simp: orExpr.simps [of c] intro: compiled_SomeI)
    next
      case (Cons v r1)
      note w = ic_words_Cons [OF u(2) [unfolded Cons]]
      show ?thesis
      proof (cases "v = ''OR''")
        case False
        then show ?thesis
          using u(1) w(1,6) by (auto simp: orExpr.simps [of c] p_or.simps [of "ic_words c"] p Cons)
      next
        case True
        have go: "orExpr c = rbind (orExpr (ic_skip c1)) (\<lambda>(right, c). Inr (ic_emit c (opNode ckOr [] i right)))"
          using True u(1) w(1,6) by (simp add: orExpr.simps [of c])
        have ne: "ic_pos c1 \<noteq> length (ic_args c1)" and at: "\<not> \<not> ic_at c1 ''OR''" using w(1,6) True by auto
        have ih: "compiled c1 (map_option (\<lambda>t. (t, [])) (p_or r1)) (orExpr (ic_skip c1))"
          using 1(1) [OF u(1) refl ne at] w(3,4,7) compiled_nodes by (metis (no_types, lifting))
        have po: "p_or (ic_words c) = map_option (COr t) (p_or r1)"
          by (simp add: p_or.simps [of "ic_words c"] p Cons True)
        show ?thesis
        proof (cases "p_or r1")
          case None
          then show ?thesis using ih go po by auto
        next
          case (Some s)
          obtain j c2 ext2 where a: "orExpr (ic_skip c1) = Inr (j, c2)" "ic_words c2 = []" "ic_pos c2 \<le> length (ic_args c2)"
              "ic_nodes c2 = ic_nodes c1 @ ext2" "enc (ic_nodes c2) s j"
            using ih Some by (auto elim: compiled_SomeE)
          show ?thesis using emit_pair [OF a(3) u(4) a(4) u(5) a(5)] a(1,2) go po Some by simp
        qed
      qed
    qed
  qed
qed

section \<open>Properties\<close>

lemma compileIfCond_enc:
  "case parse_cond args of
     None \<Rightarrow> compileIfCond args = condFalse
   | Some t \<Rightarrow> enc (compileIfCond args) t (length (compileIfCond args) - 1) \<and> compileIfCond args \<noteq> []"
proof -
  let ?c = "\<lparr>ic_args = args, ic_pos = 0, ic_nodes = []\<rparr>"
  have p: "ic_pos ?c \<le> length (ic_args ?c)" and w: "ic_words ?c = args" by (simp_all add: ic_words_def)
  have fin: "case p of None \<Rightarrow> (case r of Inl e \<Rightarrow> condFalse | Inr (i, c') \<Rightarrow> ic_nodes c') = condFalse
     | Some t \<Rightarrow> (let ns = (case r of Inl e \<Rightarrow> condFalse | Inr (i, c') \<Rightarrow> ic_nodes c') in enc ns t (length ns - 1) \<and> ns \<noteq> [])"
    if "compiled ?c (map_option (\<lambda>t. (t, ws)) p) r" for p ws r
    using that
    by (cases p) (auto elim!: compiled_SomeE simp: Let_def dest: sym)
  consider (none) "args = []" | (one) v where "args = [v]" | (many) v u ws where "args = v # u # ws"
    by (metis neq_Nil_conv)
  then show ?thesis
  proof cases
    case none
    then show ?thesis by (simp add: parse_cond_def compileIfCond_def)
  next
    case (one v)
    have "compiled ?c (map_option (\<lambda>t. (t, [])) (Some (CVar v))) (rbind (ic_take ?c) (\<lambda>(w, c). Inr (varExpr c w)))"
      using varExpr_compiled [of "ic_skip ?c" v] ic_words_Cons [of ?c v "[]"] w one compiled_nodes [of "ic_skip ?c" ?c]
      by simp
    from fin [OF this] show ?thesis using one by (simp add: parse_cond_def compileIfCond_def Let_def del: enc.simps)
  next
    case (many v u ws)
    have "compiled ?c (map_option (\<lambda>t. (t, [])) (p_or args)) (orExpr ?c)"
      using orExpr_compiled [OF p] w by simp
    from fin [OF this] show ?thesis
      using many by (simp add: parse_cond_def compileIfCond_def Let_def del: enc.simps cong: option.case_cong)
  qed
qed

lemma compileIfCond_sem:
  "evalCond env (compileIfCond args) =
     (case parse_cond args of
        Some t \<Rightarrow> cond_sem env t
      | None \<Rightarrow> Inr (stringIsTruthy (ce_evalIfExpr env ''no'')))"
proof (cases "parse_cond args")
  case None
  then have "compileIfCond args = condFalse" using compileIfCond_enc [of args] by simp
  then show ?thesis using None by (simp add: evalCond_def condFalse_def)
next
  case (Some t)
  then have "enc (compileIfCond args) t (length (compileIfCond args) - 1)" using compileIfCond_enc [of args] by simp
  from eval_enc [OF this, of "Suc (length (compileIfCond args))"] show ?thesis
    using Some by (simp add: evalCond_def)
qed

text \<open>
  C13: Evaluating a compiled condition gives the meaning of the condition the words spell by the
  grammar (\<^verbatim>\<open>OR\<close> binds weakest, then \<^verbatim>\<open>AND\<close>, then \<^verbatim>\<open>NOT\<close>, then the operators), with the
  short-circuit and the exceptions of the operators; words that spell no condition compile to the
  constant \<^verbatim>\<open>no\<close>. The array indices are in range and the recursion ends.
\<close>

theorem compileIfCond_correct:
  "evalCond env (compileIfCond args) =
     (case parse_cond args of
        Some t \<Rightarrow> cond_sem env t
      | None \<Rightarrow> Inr (stringIsTruthy (ce_evalIfExpr env ''no'')))"
  by (rule compileIfCond_sem)

lemma ifVersion_loop_error:
  "ifVersion_loop n value rest out = Inl e \<Longrightarrow> e = Thrown ''macros: cannot parse version %q'' [value]"
  by (induction n arbitrary: rest out) (auto split: prod.splits option.splits)

lemma version_sem_error:
  "version_sem l r p = Inl e \<Longrightarrow> \<exists>v. e = Thrown ''macros: cannot parse version %q'' [v]"
  by (auto simp: version_sem_def ifVersion_def rbind_Inl dest: ifVersion_loop_error)

lemma op_sem_error:
  assumes "op_sem op l r = Inl e"
  shows "\<exists>fmt args. e = Thrown fmt args"
  using assms unfolding op_sem_def
  by (simp only: sum.inject sum.distinct split: if_splits) (auto dest: version_sem_error)

lemma cond_sem_error: "cond_sem env t = Inl e \<Longrightarrow> \<exists>fmt args. e = Thrown fmt args"
proof (induction t)
  case (COp op t w)
  show ?case
  proof (cases "op \<in> set known_ops")
    case True
    then have r: "rbind (operand_sem env t) (\<lambda>l. op_sem op l (ce_evalIfExpr env w)) = Inl e"
      using COp.prems by (simp add: operand_sem_def)
    show ?thesis
    proof (cases "operand_sem env t")
      case (Inl e')
      then have "cond_sem env t = Inl e" using r by (auto simp: operand_sem_def rbind_Inl split: cond.splits)
      then show ?thesis by (rule COp.IH)
    next
      case (Inr l)
      then show ?thesis using r op_sem_error by simp
    qed
  next
    case False
    then show ?thesis using COp.prems op_sem_error by simp
  qed
qed (auto simp: rbind_Inl split: if_splits)

text \<open>
  Evaluating a compiled condition either returns or throws an exception that names the
  operator or the version it could not handle; it never reads outside the array of nodes.
\<close>

theorem evalCond_safe:
  "case evalCond env (compileIfCond args) of Inl e \<Rightarrow> \<exists>fmt args. e = Thrown fmt args | Inr b \<Rightarrow> True"
proof -
  have "evalCond env (compileIfCond args) = Inl e \<Longrightarrow> \<exists>fmt args. e = Thrown fmt args" for e
    unfolding compileIfCond_sem by (auto split: option.splits dest: cond_sem_error)
  then show ?thesis by (auto split: sum.split)
qed


definition CondEnv_plain :: CondEnv where
  "CondEnv_plain = \<lparr>ce_bool = (\<lambda>_. False), ce_string = (\<lambda>_. []), ce_isEmpty = (\<lambda>_. True),
     ce_hasBindingID = (\<lambda>_. False), ce_evalIfExpr = (\<lambda>s. s)\<rparr>"


end
