(* ===== verification/Ay_Stmt.thy ===== *)
theory Ay_Stmt
  imports Ay_Result
begin

text \<open>
  The statements of a \<^verbatim>\<open>ya.make\<close> file (\<^verbatim>\<open>yamake.go\<close>: the statement types, \<^verbatim>\<open>buildStmtForID\<close> and the
  functions that sort the arguments of a macro call into the fields of its statement).

  An argument is an \<^verbatim>\<open>ANY\<close> (\<^verbatim>\<open>any.go\<close>): a string or a file of the source or the build tree. The
  interned words are represented by what they stand for; \<open>NoANY\<close> is the zero value. The types
  follow the Go structs; fields that only later stages of the program set (\<^verbatim>\<open>KV\<close>, \<^verbatim>\<open>DeclSeq\<close>,
  \<^verbatim>\<open>Seq\<close>) are left out. A \<^verbatim>\<open>TOK\<close> is the name of a known macro; the table of known macros of
  \<^verbatim>\<open>yamake_tok.go\<close> is the argument \<open>isTok\<close>, and \<open>None\<close> is \<^verbatim>\<open>tokInvalid\<close>.
\<close>

section \<open>Arguments\<close>

datatype VFSRoot = VFSRootSource | VFSRootBuild

datatype ANY = NoANY | StrANY string | VfsANY VFSRoot string

fun VFS_prefix :: "VFSRoot \<Rightarrow> string" where
  "VFS_prefix VFSRootBuild = ''$(B)/''"
| "VFS_prefix VFSRootSource = ''$(S)/''"

definition VFS_string :: "VFSRoot \<Rightarrow> string \<Rightarrow> string" where
  "VFS_string root rel = (if rel = [] then take 4 (VFS_prefix root) else VFS_prefix root @ rel)"

fun ANY_string :: "ANY \<Rightarrow> string" where
  "ANY_string (VfsANY root rel) = VFS_string root rel"
| "ANY_string (StrANY s) = s"
| "ANY_string NoANY = []"

text \<open>\<^verbatim>\<open>ANY.str\<close>: the interned string, or the null identifier for a file.\<close>

fun ANY_str :: "ANY \<Rightarrow> string option" where
  "ANY_str (StrANY s) = Some s"
| "ANY_str _ = None"

definition joinAnysSTR :: "ANY list \<Rightarrow> string \<Rightarrow> string" where
  "joinAnysSTR as sep = join_strings sep (map ANY_string as)"

section \<open>Statement kinds\<close>

datatype stmtKind =
    stmtKindNone
  | stmtKindProgram
  | stmtKindProtoSchema
  | stmtKindDeclareExternalResource
  | stmtKindPeerdir
  | stmtKindSrcs
  | stmtKindSet
  | stmtKindEnd
  | stmtKindJoinSrcs
  | stmtKindAddincl
  | stmtKindCflags
  | stmtKindCxxflags
  | stmtKindConlyflags
  | stmtKindLdflags
  | stmtKindSrcdir
  | stmtKindGlobalSrcs
  | stmtKindGenerateEnumSerialization
  | stmtKindAliceGenerateNoexceptEnumSerialization
  | stmtKindGenerateEnumSerializationWithHeader
  | stmtKindGenerateEnumSerializationNoutf
  | stmtKindDefault
  | stmtKindConfigureFile
  | stmtKindCreateBuildinfoFor
  | stmtKindRunAntlr4Cpp
  | stmtKindRunAntlr4CppSplit
  | stmtKindRunAntlr4Python2
  | stmtKindRunAntlr
  | stmtKindRunProgram
  | stmtKindRunPython3
  | stmtKindRunLua
  | stmtKindSplitCodegen
  | stmtKindBaseCodegen
  | stmtKindStructCodegen
  | stmtKindFromSandbox
  | stmtKindResource
  | stmtKindResourceFiles
  | stmtKindAllResourceFiles
  | stmtKindAllResourceFilesFromDirs

definition stmtKindNames :: "(stmtKind \<times> string list) list" where
  "stmtKindNames = [
     (stmtKindProgram, [
         ''PROGRAM'', ''LIBRARY'', ''CUDA_DEVICE_LINK_LIBRARY'', ''DOCS'', ''DOCS_LIBRARY'', ''CRATE'',
         ''CRATE_PROC_MACRO'', ''RUST_BUILD_SCRIPT'', ''RUST_RUNTIME'', ''TS_PACKAGE'', ''TS_LIBRARY'',
         ''TS_NEXT'', ''TS_VITE'', ''TS_RSPACK'', ''TS_TSC'', ''TS_TEST_FOR'', ''TS_TEST_JEST_FOR'',
         ''TS_TEST_VITEST_FOR'', ''PY23_NATIVE_LIBRARY'', ''PY3_LIBRARY'', ''PY23_LIBRARY'',
         ''PY2_LIBRARY'', ''SANDBOX_TASK'', ''SANDBOX_PY3_TASK'', ''SANDBOX_PY23_TASK'',
         ''SANDBOX_PY23_3_TASK'', ''PY3_PROGRAM_BIN'', ''PY2_PROGRAM'', ''PY3_PROGRAM'', ''PY3TEST'',
         ''PY3TEST_BIN'', ''PY2TEST'', ''PY23_TEST'', ''PY2MODULE'', ''PY3MODULE'', ''PY_ANY_MODULE'',
         ''YQL_PREBUILT_TOOL'', ''YQL_UDF'', ''YQL_PYTHON_UDF'', ''YQL_PYTHON3_UDF'', ''YQL_UDF_YDB'',
         ''YQL_UDF_CONTRIB'', ''YQL_UDF_TEST'', ''YQL_UDF_MINITEST'', ''YQL_LIBRARY'',
         ''YQL_PREBUILT_PROGRAM'', ''PROTO_LIBRARY'', ''ROS_LIBRARY'', ''MLAUNCH_LIBRARY'',
         ''MLAUNCH_COMPONENT'', ''MLAUNCH_PIPELINE'', ''SDC_DIAGS_LIBRARY'', ''GOLAUNCH_PROGRAM'',
         ''GOLAUNCH_COMPOSITE'', ''PROTO_DESCRIPTIONS'', ''PROTO_REGISTRY'', ''DLL'', ''DLL_TOOL'',
         ''SO_PROGRAM'', ''DYNAMIC_LIBRARY'', ''UDF_BASE'', ''PACKAGE'', ''UNION'', ''SDC_UNION'',
         ''CI_GROUP'', ''RESOURCES_LIBRARY'', ''GEN_LIBRARY'', ''PREBUILT_PROGRAM'', ''FBS_LIBRARY'',
         ''GO_LIBRARY'', ''GO_PROGRAM'', ''GO_TEST'', ''GO_DLL'', ''EXECTEST'', ''UNITTEST_FOR'',
         ''UNITTEST'', ''UNITTEST_WITH_CUSTOM_ENTRY_POINT'', ''YT_UNITTEST'', ''GTEST'',
         ''G_BENCHMARK'', ''Y_BENCHMARK'', ''FUZZ'', ''BOOSTTEST'', ''BOOSTTEST_WITH_MAIN'',
         ''JAVA_LIBRARY'', ''JAVA_LIBRARY_SPLIT'', ''JAVA_LIBRARY_NON_SPLIT'', ''JAVA_PROGRAM'',
         ''JAVA_CONTRIB'', ''JAVA_CONTRIB_PROXY'', ''JAVA_CONTRIB_PROGRAM'',
         ''JAVA_CONTRIB_ANNOTATION_PROCESSOR'', ''JAVA_ANNOTATION_PROCESSOR'', ''JAVA_TEST_LIBRARY'',
         ''JUNIT5'', ''JUNIT6'', ''JTEST'', ''JTEST_FOR'', ''EXTERNAL_JAVA_LIBRARY'', ''JAR_LIBRARY'',
         ''DLL_JAVA'']),
     (stmtKindProtoSchema, [''PROTO_SCHEMA'']),
     (stmtKindDeclareExternalResource, [''DECLARE_EXTERNAL_RESOURCE'', ''DECLARE_EXTERNAL_HOST_RESOURCES_BUNDLE'', ''DECLARE_EXTERNAL_HOST_RESOURCES_BUNDLE_BY_JSON'']),
     (stmtKindPeerdir, [''PEERDIR'']),
     (stmtKindSrcs, [''SRCS'']),
     (stmtKindSet, [''SET'']),
     (stmtKindEnd, [''END'']),
     (stmtKindJoinSrcs, [''JOIN_SRCS'']),
     (stmtKindAddincl, [''ADDINCL'']),
     (stmtKindCflags, [''CFLAGS'', ''GLOBAL_CFLAGS'']),
     (stmtKindCxxflags, [''CXXFLAGS'']),
     (stmtKindConlyflags, [''CONLYFLAGS'']),
     (stmtKindLdflags, [''LDFLAGS'']),
     (stmtKindSrcdir, [''SRCDIR'']),
     (stmtKindGlobalSrcs, [''GLOBAL_SRCS'']),
     (stmtKindGenerateEnumSerialization, [''GENERATE_ENUM_SERIALIZATION'']),
     (stmtKindAliceGenerateNoexceptEnumSerialization, [''ALICE_GENERATE_NOEXCEPT_ENUM_SERIALIZATION'']),
     (stmtKindGenerateEnumSerializationWithHeader, [''GENERATE_ENUM_SERIALIZATION_WITH_HEADER'']),
     (stmtKindGenerateEnumSerializationNoutf, [''GENERATE_ENUM_SERIALIZATION_NOUTF'']),
     (stmtKindDefault, [''DEFAULT'']),
     (stmtKindConfigureFile, [''CONFIGURE_FILE'']),
     (stmtKindCreateBuildinfoFor, [''CREATE_BUILDINFO_FOR'']),
     (stmtKindRunAntlr4Cpp, [''RUN_ANTLR4_CPP'']),
     (stmtKindRunAntlr4CppSplit, [''RUN_ANTLR4_CPP_SPLIT'']),
     (stmtKindRunAntlr4Python2, [''RUN_ANTLR4_PYTHON2'', ''RUN_ANTLR4_PYTHON3'']),
     (stmtKindRunAntlr, [''RUN_ANTLR'', ''RUN_ANTLR4'']),
     (stmtKindRunProgram, [''RUN_PROGRAM'', ''RUN_PY3_PROGRAM'']),
     (stmtKindRunPython3, [''RUN_PYTHON3'']),
     (stmtKindRunLua, [''RUN_LUA'']),
     (stmtKindSplitCodegen, [''SPLIT_CODEGEN'']),
     (stmtKindBaseCodegen, [''BASE_CODEGEN'']),
     (stmtKindStructCodegen, [''STRUCT_CODEGEN'']),
     (stmtKindFromSandbox, [''FROM_SANDBOX'']),
     (stmtKindResource, [''RESOURCE'']),
     (stmtKindResourceFiles, [''RESOURCE_FILES'']),
     (stmtKindAllResourceFiles, [''ALL_RESOURCE_FILES'']),
     (stmtKindAllResourceFilesFromDirs, [''ALL_RESOURCE_FILES_FROM_DIRS''])]"

text \<open>The table \<^verbatim>\<open>stmtKinds\<close> is filled in the order of \<^verbatim>\<open>stmtKindNames\<close>; a later entry would win.\<close>

definition stmtKindOf :: "string \<Rightarrow> stmtKind" where
  "stmtKindOf name =
     fold (\<lambda>(kind, names) k. if name \<in> set names then kind else k) stmtKindNames stmtKindNone"

section \<open>Statement types\<close>

record AddInclStmt =
  ai_GlobalPaths :: "ANY list"
  ai_OneLevelPaths :: "ANY list"
  ai_OwnPaths :: "ANY list"
  ai_CythonPaths :: "ANY list"
  ai_CythonGlobalPaths :: "ANY list"
  ai_AsmPaths :: "ANY list"
  ai_ProtoPaths :: "ANY list"
  ai_ProtoGlobalPaths :: "ANY list"
  ai_ProtoAllPaths :: "ANY list"
  ai_FlatcPaths :: "ANY list"
  ai_FlatcGlobalPaths :: "ANY list"
  ai_SwigPaths :: "ANY list"
  ai_SwigGlobalPaths :: "ANY list"
  ai_ScPaths :: "ANY list"
  ai_ScGlobalPaths :: "ANY list"
  ai_ScExportPaths :: "ANY list"
  ai_UserGlobalPaths :: "ANY list"
  ai_AllPaths :: "ANY list"

record RunProgramStmt =
  rp_CallArgs :: "ANY list"
  rp_ToolPath :: ANY
  rp_Args :: "ANY list"
  rp_INFiles :: "ANY list"
  rp_INNoParse :: nat
  rp_OUTFiles :: "ANY list"
  rp_OUTNoAutoFiles :: "ANY list"
  rp_StdoutFile :: "ANY option"
  rp_StdoutNoAuto :: bool
  rp_EnvPairs :: "ANY list"
  rp_CWD :: "ANY option"
  rp_OutputIncludes :: "ANY list"
  rp_InducedDeps :: "ANY list"
  rp_ToolPaths :: "ANY list"

record RunPythonStmt =
  py_Lua :: bool
  py_ScriptPath :: ANY
  py_Args :: "ANY list"
  py_INFiles :: "ANY list"
  py_INNoParse :: nat
  py_OUTFiles :: "ANY list"
  py_OUTNoAutoFiles :: "ANY list"
  py_StdoutFile :: "ANY option"
  py_StdoutNoAuto :: bool
  py_EnvPairs :: "ANY list"
  py_CWD :: "ANY option"
  py_ToolPaths :: "ANY list"
  py_OutputIncludes :: "ANY list"
  py_InducedDeps :: "ANY list"

record SplitCodegenStmt =
  sc_ToolPath :: ANY
  sc_Prefix :: ANY
  sc_Opts :: "ANY list"
  sc_OutNum :: int
  sc_OutputIncludes :: "ANY list"

record BaseCodegenStmt =
  bc_ToolPath :: ANY
  bc_Prefix :: ANY
  bc_Opts :: "ANY list"
  bc_OutputIncludes :: "ANY list"
  bc_Macro :: "string option"

record ArchiveExtraction =
  ae_OUTFiles :: "ANY list"
  ae_OUTNoAutoFiles :: "ANY list"
  ae_OutputIncludes :: "ANY list"
  ae_InducedDeps :: "ANY list"
  ae_Renames :: "ANY list"
  ae_Executable :: bool
  ae_Prefix :: string

record FromSandboxStmt = ArchiveExtraction +
  fs_ResourceId :: ANY
  fs_File :: bool

record RunAntlr4CppStmt =
  a4_Grammar :: ANY
  a4_Options :: "ANY list"
  a4_Visitor :: bool
  a4_Listener :: bool
  a4_OutputIncludes :: "ANY list"

record RunAntlr4CppSplitStmt =
  as_Options :: "ANY list"
  as_Lexer :: ANY
  as_Parser :: ANY
  as_Visitor :: bool
  as_Listener :: bool
  as_OutputIncludes :: "ANY list"

record RunAntlrStmt =
  ra_Macro :: string
  ra_Args :: "ANY list"
  ra_INFiles :: "ANY list"
  ra_OUTFiles :: "ANY list"
  ra_OUTNoAutoFiles :: "ANY list"
  ra_CWD :: "ANY option"
  ra_OutputIncludes :: "ANY list"

section \<open>Sorting the arguments of a macro call into sections\<close>

definition kw :: "string \<Rightarrow> ANY" where "kw w = StrANY w"

definition runAntlrKeywords :: "string list" where
  "runAntlrKeywords =
     [''IN'', ''IN_NOPARSE'', ''IN_DEPS'', ''OUT'', ''OUT_NOAUTO'', ''CWD'', ''OUTPUT_INCLUDES'', ''INDUCED_DEPS'',
      ''TOOL'', ''ENV'', ''STDOUT'', ''STDOUT_NOAUTO'', ''GRAMMAR_FILES'', ''GRAMMAR_CWD'']"

definition runProgramKeywords :: "string list" where
  "runProgramKeywords =
     [''IN'', ''IN_NOPARSE'', ''OUT'', ''OUT_NOAUTO'', ''STDOUT'', ''STDOUT_NOAUTO'', ''CWD'', ''ENV'',
      ''OUTPUT_INCLUDES'', ''INDUCED_DEPS'', ''IN_DEPS'', ''TOOL'']"

definition is_keyword :: "string list \<Rightarrow> ANY \<Rightarrow> bool" where
  "is_keyword kws a \<longleftrightarrow> (case ANY_str a of Some s \<Rightarrow> s \<in> set kws | None \<Rightarrow> False)"

subsection \<open>ANTLR\<close>

fun antlr4_loop :: "RunAntlr4CppStmt \<Rightarrow> bool \<Rightarrow> ANY list \<Rightarrow> RunAntlr4CppStmt" where
  "antlr4_loop stmt includes [] = stmt"
| "antlr4_loop stmt includes (arg # args) =
     (if arg = kw ''VISITOR'' then antlr4_loop (stmt\<lparr>a4_Visitor := True\<rparr>) False args
      else if arg = kw ''LISTENER'' then antlr4_loop (stmt\<lparr>a4_Listener := True\<rparr>) False args
      else if arg = kw ''OUTPUT_INCLUDES'' then antlr4_loop stmt True args
      else if includes
      then antlr4_loop (stmt\<lparr>a4_OutputIncludes := a4_OutputIncludes stmt @ [arg]\<rparr>) includes args
      else antlr4_loop (stmt\<lparr>a4_Options := a4_Options stmt @ [arg]\<rparr>) includes args)"

definition parseRunAntlr4Cpp :: "ANY list \<Rightarrow> RunAntlr4CppStmt result" where
  "parseRunAntlr4Cpp args =
     (case args of
        [] \<Rightarrow> Inl IndexPanic
      | g # rest \<Rightarrow>
          Inr (antlr4_loop \<lparr>a4_Grammar = g, a4_Options = [], a4_Visitor = False, a4_Listener = False,
                            a4_OutputIncludes = []\<rparr> False rest))"

definition parseRunAntlr4CppSplit :: "ANY list \<Rightarrow> RunAntlr4CppSplitStmt result" where
  "parseRunAntlr4CppSplit args =
     (case args of
        lexer # rest \<Rightarrow>
          rbind (parseRunAntlr4Cpp rest) (\<lambda>common.
            Inr \<lparr>as_Options = a4_Options common, as_Lexer = lexer, as_Parser = hd rest,
                 as_Visitor = a4_Visitor common, as_Listener = a4_Listener common,
                 as_OutputIncludes = a4_OutputIncludes common\<rparr>)
      | [] \<Rightarrow> Inl IndexPanic)"

definition runAntlr_put :: "RunAntlrStmt \<Rightarrow> string \<Rightarrow> ANY \<Rightarrow> RunAntlrStmt" where
  "runAntlr_put stmt section tok =
     (if section = ''ARGS'' then stmt\<lparr>ra_Args := ra_Args stmt @ [tok]\<rparr>
      else if section \<in> set [''IN'', ''IN_NOPARSE'', ''IN_DEPS''] then stmt\<lparr>ra_INFiles := ra_INFiles stmt @ [tok]\<rparr>
      else if section = ''OUT'' then stmt\<lparr>ra_OUTFiles := ra_OUTFiles stmt @ [tok]\<rparr>
      else if section = ''OUT_NOAUTO'' then stmt\<lparr>ra_OUTNoAutoFiles := ra_OUTNoAutoFiles stmt @ [tok]\<rparr>
      else if section = ''CWD'' then (if ra_CWD stmt = None then stmt\<lparr>ra_CWD := Some tok\<rparr> else stmt)
      else if section \<in> set [''OUTPUT_INCLUDES'', ''INDUCED_DEPS'', ''TOOL'', ''ENV'', ''GRAMMAR_FILES'', ''GRAMMAR_CWD'']
      then stmt\<lparr>ra_OutputIncludes := ra_OutputIncludes stmt @ [tok]\<rparr>
      else stmt)"

fun runAntlr_loop :: "RunAntlrStmt \<Rightarrow> string \<Rightarrow> ANY list \<Rightarrow> RunAntlrStmt" where
  "runAntlr_loop stmt section [] = stmt"
| "runAntlr_loop stmt section (tok # args) =
     (if is_keyword runAntlrKeywords tok then runAntlr_loop stmt (ANY_string tok) args
      else runAntlr_loop (runAntlr_put stmt section tok) section args)"

definition parseRunAntlr :: "string \<Rightarrow> ANY list \<Rightarrow> RunAntlrStmt" where
  "parseRunAntlr macro args =
     runAntlr_loop \<lparr>ra_Macro = macro, ra_Args = [], ra_INFiles = [], ra_OUTFiles = [], ra_OUTNoAutoFiles = [],
       ra_CWD = None, ra_OutputIncludes = []\<rparr> ''ARGS'' args"

subsection \<open>FROM_SANDBOX\<close>

definition fromSandbox_put :: "FromSandboxStmt \<Rightarrow> string \<Rightarrow> ANY \<Rightarrow> FromSandboxStmt \<times> string" where
  "fromSandbox_put stmt section arg =
     (if section = [] then (if fs_ResourceId stmt = NoANY then stmt\<lparr>fs_ResourceId := arg\<rparr> else stmt, section)
      else if section = ''PREFIX'' then (stmt\<lparr>ae_Prefix := ANY_string arg\<rparr>, [])
      else if section = ''AUTOUPDATED'' \<or> section = ''SBR'' then (stmt, [])
      else if section = ''OUT'' then (stmt\<lparr>ae_OUTFiles := ae_OUTFiles stmt @ [arg]\<rparr>, section)
      else if section = ''OUT_NOAUTO'' then (stmt\<lparr>ae_OUTNoAutoFiles := ae_OUTNoAutoFiles stmt @ [arg]\<rparr>, section)
      else if section = ''OUTPUT_INCLUDES'' then (stmt\<lparr>ae_OutputIncludes := ae_OutputIncludes stmt @ [arg]\<rparr>, section)
      else if section = ''INDUCED_DEPS'' then (stmt\<lparr>ae_InducedDeps := ae_InducedDeps stmt @ [arg]\<rparr>, section)
      else if section = ''RENAME'' then (stmt\<lparr>ae_Renames := ae_Renames stmt @ [arg]\<rparr>, section)
      else (stmt, section))"

fun fromSandbox_loop :: "FromSandboxStmt \<Rightarrow> string \<Rightarrow> ANY list \<Rightarrow> FromSandboxStmt" where
  "fromSandbox_loop stmt section [] = stmt"
| "fromSandbox_loop stmt section (arg # args) =
     (if arg = kw ''FILE'' then fromSandbox_loop (stmt\<lparr>fs_File := True\<rparr>) [] args
      else if arg = kw ''EXECUTABLE'' then fromSandbox_loop (stmt\<lparr>ae_Executable := True\<rparr>) [] args
      else if arg \<in> set (map kw [''AUTOUPDATED'', ''PREFIX'', ''SBR'', ''OUT'', ''OUT_NOAUTO'', ''OUTPUT_INCLUDES'',
                                  ''RENAME'', ''INDUCED_DEPS''])
      then fromSandbox_loop stmt (ANY_string arg) args
      else case fromSandbox_put stmt section arg of (stmt', section') \<Rightarrow> fromSandbox_loop stmt' section' args)"

definition parseFromSandbox :: "ANY list \<Rightarrow> FromSandboxStmt" where
  "parseFromSandbox args =
     fromSandbox_loop \<lparr>ae_OUTFiles = [], ae_OUTNoAutoFiles = [], ae_OutputIncludes = [], ae_InducedDeps = [],
       ae_Renames = [], ae_Executable = False, ae_Prefix = ''.'', fs_ResourceId = NoANY, fs_File = False\<rparr> [] args"

subsection \<open>RUN_PROGRAM\<close>

text \<open>
  \<^verbatim>\<open>parseRunProgram\<close> counts the arguments of every section, allocates one array for all of them and
  carves it into windows of exactly these capacities; then it appends the arguments to the
  windows. The array is modelled explicitly: a slice is nil, a window of the shared array with
  its offset, length and capacity, or, after an append beyond its capacity, an array of its own.
\<close>

datatype arg_slice = NilSlice | Win nat nat nat | Own "ANY list"

fun slice_contents :: "ANY list \<Rightarrow> arg_slice \<Rightarrow> ANY list" where
  "slice_contents store NilSlice = []"
| "slice_contents store (Win off len cap) = take len (drop off store)"
| "slice_contents store (Own xs) = xs"

fun slice_append :: "ANY list \<Rightarrow> arg_slice \<Rightarrow> ANY \<Rightarrow> ANY list \<times> arg_slice" where
  "slice_append store NilSlice a = (store, Own [a])"
| "slice_append store (Win off len cap) a =
     (if len < cap then (store[off + len := a], Win off (len + 1) cap)
      else (store, Own (slice_contents store (Win off len cap) @ [a])))"
| "slice_append store (Own xs) a = (store, Own (xs @ [a]))"

fun slice_extend :: "ANY list \<Rightarrow> arg_slice \<Rightarrow> ANY list \<Rightarrow> ANY list \<times> arg_slice" where
  "slice_extend store s [] = (store, s)"
| "slice_extend store s (a # as) = (case slice_append store s a of (store', s') \<Rightarrow> slice_extend store' s' as)"

fun runProgramListSection :: "string \<Rightarrow> nat option" where
  "runProgramListSection s =
     (if s = ''ARGS'' then Some 0
      else if s = ''IN'' \<or> s = ''IN_DEPS'' then Some 1
      else if s = ''IN_NOPARSE'' then Some 2
      else if s = ''OUT'' then Some 3
      else if s = ''OUT_NOAUTO'' then Some 4
      else if s = ''ENV'' then Some 5
      else if s = ''OUTPUT_INCLUDES'' then Some 6
      else if s = ''INDUCED_DEPS'' then Some 7
      else if s = ''TOOL'' then Some 8
      else None)"

declare runProgramListSection.simps [simp del]

fun runProgram_counts :: "nat option \<Rightarrow> nat list \<Rightarrow> ANY list \<Rightarrow> nat list" where
  "runProgram_counts section counts [] = counts"
| "runProgram_counts section counts (tok # args) =
     (if is_keyword runProgramKeywords tok
      then runProgram_counts (runProgramListSection (ANY_string tok)) counts args
      else case section of
             Some k \<Rightarrow> runProgram_counts section (counts[k := counts ! k + 1]) args
           | None \<Rightarrow> runProgram_counts section counts args)"

text \<open>The carved slice starts at the used length of the array; beyond its capacity it is a panic.\<close>

definition carve :: "nat \<Rightarrow> nat \<Rightarrow> nat \<Rightarrow> (arg_slice \<times> nat) result" where
  "carve tot used n =
     (if n = 0 then Inr (NilSlice, used)
      else if used + n \<le> tot then Inr (Win used 0 n, used + n)
      else Inl IndexPanic)"

fun carve_all :: "nat \<Rightarrow> nat \<Rightarrow> nat list \<Rightarrow> arg_slice list result" where
  "carve_all tot used [] = Inr []"
| "carve_all tot used (n # ns) =
     rbind (carve tot used n) (\<lambda>(s, used'). rbind (carve_all tot used' ns) (\<lambda>ss. Inr (s # ss)))"

text \<open>
  The slices in the order they are carved: \<^verbatim>\<open>Args\<close>, \<^verbatim>\<open>INFiles\<close>, \<^verbatim>\<open>noParse\<close>, \<^verbatim>\<open>OUTFiles\<close>,
  \<^verbatim>\<open>OUTNoAutoFiles\<close>, \<^verbatim>\<open>EnvPairs\<close>, \<^verbatim>\<open>OutputIncludes\<close>, \<^verbatim>\<open>InducedDeps\<close>, \<^verbatim>\<open>ToolPaths\<close>.
\<close>

record RunState =
  rs_store :: "ANY list"
  rs_slices :: "arg_slice list"
  rs_StdoutFile :: "ANY option"
  rs_StdoutNoAuto :: bool
  rs_CWD :: "ANY option"

definition run_append :: "RunState \<Rightarrow> nat \<Rightarrow> ANY \<Rightarrow> RunState" where
  "run_append st k tok =
     (case slice_append (rs_store st) (rs_slices st ! k) tok of
        (store, s) \<Rightarrow> st\<lparr>rs_store := store, rs_slices := (rs_slices st)[k := s]\<rparr>)"

definition runProgram_put :: "RunState \<Rightarrow> string \<Rightarrow> ANY \<Rightarrow> RunState" where
  "runProgram_put st section tok =
     (if section = ''ARGS'' then run_append st 0 tok
      else if section = ''IN'' \<or> section = ''IN_DEPS'' then run_append st 1 tok
      else if section = ''IN_NOPARSE'' then run_append st 2 tok
      else if section = ''OUT'' then run_append st 3 tok
      else if section = ''OUT_NOAUTO'' then run_append st 4 tok
      else if section = ''STDOUT'' \<or> section = ''STDOUT_NOAUTO''
      then (if rs_StdoutFile st = None
            then st\<lparr>rs_StdoutFile := Some tok, rs_StdoutNoAuto := (section = ''STDOUT_NOAUTO'')\<rparr> else st)
      else if section = ''ENV'' then run_append st 5 tok
      else if section = ''CWD'' then (if rs_CWD st = None then st\<lparr>rs_CWD := Some tok\<rparr> else st)
      else if section = ''OUTPUT_INCLUDES'' then run_append st 6 tok
      else if section = ''INDUCED_DEPS'' then run_append st 7 tok
      else if section = ''TOOL'' then run_append st 8 tok
      else st)"

fun runProgram_loop :: "RunState \<Rightarrow> string \<Rightarrow> ANY list \<Rightarrow> RunState" where
  "runProgram_loop st section [] = st"
| "runProgram_loop st section (tok # args) =
     (if is_keyword runProgramKeywords tok then runProgram_loop st (ANY_string tok) args
      else runProgram_loop (runProgram_put st section tok) section args)"

definition parseRunProgram :: "ANY list \<Rightarrow> RunProgramStmt result" where
  "parseRunProgram args =
     (case args of
        [] \<Rightarrow> Inl IndexPanic
      | tool # rest \<Rightarrow>
          let counts = runProgram_counts (Some 0) (replicate 9 0) rest;
              tot = counts ! 0 + counts ! 1 + 2 * counts ! 2 + counts ! 3 + counts ! 4 + counts ! 5
                + counts ! 6 + counts ! 7 + counts ! 8
          in rbind (carve_all tot 0
               [counts ! 0, counts ! 1 + counts ! 2, counts ! 2, counts ! 3, counts ! 4, counts ! 5,
                counts ! 6, counts ! 7, counts ! 8]) (\<lambda>slices.
             let st = runProgram_loop \<lparr>rs_store = replicate tot NoANY, rs_slices = slices, rs_StdoutFile = None,
                        rs_StdoutNoAuto = False, rs_CWD = None\<rparr> ''ARGS'' rest;
                 noParse = slice_contents (rs_store st) (rs_slices st ! 2);
                 (store, inFiles) = slice_extend (rs_store st) (rs_slices st ! 1) noParse;
                 field = (\<lambda>k. slice_contents store (rs_slices st ! k))
             in Inr \<lparr>rp_CallArgs = args, rp_ToolPath = tool, rp_Args = field 0,
                     rp_INFiles = slice_contents store inFiles, rp_INNoParse = length noParse,
                     rp_OUTFiles = field 3, rp_OUTNoAutoFiles = field 4,
                     rp_StdoutFile = rs_StdoutFile st, rp_StdoutNoAuto = rs_StdoutNoAuto st,
                     rp_EnvPairs = field 5, rp_CWD = rs_CWD st, rp_OutputIncludes = field 6,
                     rp_InducedDeps = field 7, rp_ToolPaths = field 8\<rparr>))"

subsection \<open>RUN_PYTHON3 and RUN_LUA\<close>

record PyState =
  ps_stmt :: RunPythonStmt
  ps_noParse :: "ANY list"

definition runPython_put :: "PyState \<Rightarrow> string \<Rightarrow> ANY \<Rightarrow> PyState" where
  "runPython_put st section tok =
     (let stmt = ps_stmt st; set_stmt = (\<lambda>s. st\<lparr>ps_stmt := s\<rparr>)
      in if section = ''ARGS'' then set_stmt (stmt\<lparr>py_Args := py_Args stmt @ [tok]\<rparr>)
         else if section = ''IN'' \<or> section = ''IN_DEPS'' then set_stmt (stmt\<lparr>py_INFiles := py_INFiles stmt @ [tok]\<rparr>)
         else if section = ''IN_NOPARSE'' then st\<lparr>ps_noParse := ps_noParse st @ [tok]\<rparr>
         else if section = ''OUT'' then set_stmt (stmt\<lparr>py_OUTFiles := py_OUTFiles stmt @ [tok]\<rparr>)
         else if section = ''OUT_NOAUTO'' then set_stmt (stmt\<lparr>py_OUTNoAutoFiles := py_OUTNoAutoFiles stmt @ [tok]\<rparr>)
         else if section = ''STDOUT'' \<or> section = ''STDOUT_NOAUTO''
         then (if py_StdoutFile stmt = None
               then set_stmt (stmt\<lparr>py_StdoutFile := Some tok, py_StdoutNoAuto := (section = ''STDOUT_NOAUTO'')\<rparr>) else st)
         else if section = ''ENV'' then set_stmt (stmt\<lparr>py_EnvPairs := py_EnvPairs stmt @ [tok]\<rparr>)
         else if section = ''CWD'' then (if py_CWD stmt = None then set_stmt (stmt\<lparr>py_CWD := Some tok\<rparr>) else st)
         else if section = ''TOOL'' then set_stmt (stmt\<lparr>py_ToolPaths := py_ToolPaths stmt @ [tok]\<rparr>)
         else if section = ''OUTPUT_INCLUDES'' then set_stmt (stmt\<lparr>py_OutputIncludes := py_OutputIncludes stmt @ [tok]\<rparr>)
         else if section = ''INDUCED_DEPS'' then set_stmt (stmt\<lparr>py_InducedDeps := py_InducedDeps stmt @ [tok]\<rparr>)
         else st)"

fun runPython_loop :: "PyState \<Rightarrow> string \<Rightarrow> ANY list \<Rightarrow> PyState" where
  "runPython_loop st section [] = st"
| "runPython_loop st section (tok # args) =
     (if is_keyword runProgramKeywords tok then runPython_loop st (ANY_string tok) args
      else runPython_loop (runPython_put st section tok) section args)"

definition parseRunPython :: "ANY list \<Rightarrow> RunPythonStmt result" where
  "parseRunPython args =
     (case args of
        [] \<Rightarrow> Inl IndexPanic
      | script # rest \<Rightarrow>
          let st = runPython_loop \<lparr>ps_stmt = \<lparr>py_Lua = False, py_ScriptPath = script, py_Args = [], py_INFiles = [],
                     py_INNoParse = 0, py_OUTFiles = [], py_OUTNoAutoFiles = [], py_StdoutFile = None,
                     py_StdoutNoAuto = False, py_EnvPairs = [], py_CWD = None, py_ToolPaths = [],
                     py_OutputIncludes = [], py_InducedDeps = []\<rparr>, ps_noParse = []\<rparr> ''ARGS'' rest;
              stmt = ps_stmt st
          in Inr (stmt\<lparr>py_INFiles := py_INFiles stmt @ ps_noParse st, py_INNoParse := length (ps_noParse st)\<rparr>))"

section \<open>RUN_PROGRAM and RUN_PYTHON3 sort their arguments by section\<close>

text \<open>
  The specification: label every argument that is not a keyword with the section it stands in,
  and select by label.
\<close>

fun labelled :: "string \<Rightarrow> ANY list \<Rightarrow> (string \<times> ANY) list" where
  "labelled section [] = []"
| "labelled section (tok # args) =
     (if is_keyword runProgramKeywords tok then labelled (ANY_string tok) args
      else (section, tok) # labelled section args)"

definition in_sections :: "string list \<Rightarrow> (string \<times> ANY) list \<Rightarrow> ANY list" where
  "in_sections secs l = map snd (filter (\<lambda>p. fst p \<in> set secs) l)"

definition first_in :: "string list \<Rightarrow> (string \<times> ANY) list \<Rightarrow> (string \<times> ANY) option" where
  "first_in secs l = find (\<lambda>p. fst p \<in> set secs) l"

definition run_program_spec :: "ANY list \<Rightarrow> RunProgramStmt" where
  "run_program_spec args =
     (let l = labelled ''ARGS'' (tl args); stdout = first_in [''STDOUT'', ''STDOUT_NOAUTO''] l
      in \<lparr>rp_CallArgs = args, rp_ToolPath = hd args, rp_Args = in_sections [''ARGS''] l,
          rp_INFiles = in_sections [''IN'', ''IN_DEPS''] l @ in_sections [''IN_NOPARSE''] l,
          rp_INNoParse = length (in_sections [''IN_NOPARSE''] l),
          rp_OUTFiles = in_sections [''OUT''] l, rp_OUTNoAutoFiles = in_sections [''OUT_NOAUTO''] l,
          rp_StdoutFile = map_option snd stdout,
          rp_StdoutNoAuto = (case stdout of Some (s, _) \<Rightarrow> s = ''STDOUT_NOAUTO'' | None \<Rightarrow> False),
          rp_EnvPairs = in_sections [''ENV''] l, rp_CWD = map_option snd (first_in [''CWD''] l),
          rp_OutputIncludes = in_sections [''OUTPUT_INCLUDES''] l,
          rp_InducedDeps = in_sections [''INDUCED_DEPS''] l, rp_ToolPaths = in_sections [''TOOL''] l\<rparr>)"

definition slot_args :: "nat \<Rightarrow> (string \<times> ANY) list \<Rightarrow> ANY list" where
  "slot_args k l = map snd (filter (\<lambda>p. runProgramListSection (fst p) = Some k) l)"

lemma slot_args_simps [simp]:
  "slot_args k [] = []"
  "slot_args k (p # l) = (if runProgramListSection (fst p) = Some k then snd p # slot_args k l else slot_args k l)"
  by (simp_all add: slot_args_def)

lemma runProgram_loop_labelled:
  "runProgram_loop st section args = foldl (\<lambda>st (s, tok). runProgram_put st s tok) st (labelled section args)"
  by (induction st "section" args rule: runProgram_loop.induct) simp_all

lemma runPython_loop_labelled:
  "runPython_loop st section args = foldl (\<lambda>st (s, tok). runPython_put st s tok) st (labelled section args)"
  by (induction st "section" args rule: runPython_loop.induct) simp_all

lemma runProgramListSection_less: "runProgramListSection s = Some k \<Longrightarrow> k < 9"
  by (simp add: runProgramListSection.simps split: if_splits)

lemma runProgram_counts_spec:
  "length counts = 9 \<Longrightarrow> section = runProgramListSection s \<Longrightarrow> k < 9 \<Longrightarrow>
   length (runProgram_counts section counts args) = 9
   \<and> runProgram_counts section counts args ! k = counts ! k + length (slot_args k (labelled s args))"
proof (induction "section" counts args arbitrary: s rule: runProgram_counts.induct)
  case (2 sec counts tok args)
  show ?case
  proof (cases "is_keyword runProgramKeywords tok")
    case True
    then show ?thesis using 2(1) [OF True 2(4) refl 2(6)] by simp
  next
    case False
    show ?thesis
    proof (cases sec)
      case None
      then show ?thesis using False 2(2) [OF False None 2(4) _ 2(6), of s] 2(5) by simp
    next
      case (Some j)
      then have j: "j < 9" using 2(5) runProgramListSection_less by metis
      then show ?thesis
        using False Some 2(3) [OF False Some, of s] 2(4,5,6) by (simp add: nth_list_update)
    qed
  qed
qed simp

subsection \<open>The windows do not interfere\<close>

definition offset :: "nat list \<Rightarrow> nat \<Rightarrow> nat" where
  "offset caps k = sum_list (take k caps)"

text \<open>
  \<open>windows caps store slices contents\<close>: the slices are the windows of \<open>store\<close> with capacities
  \<open>caps\<close>, side by side, and hold \<open>contents\<close>.
\<close>

definition windows :: "nat list \<Rightarrow> ANY list \<Rightarrow> arg_slice list \<Rightarrow> (nat \<Rightarrow> ANY list) \<Rightarrow> bool" where
  "windows caps store slices contents \<longleftrightarrow>
     length store = sum_list caps \<and> length slices = length caps
     \<and> (\<forall>k < length caps. length (contents k) \<le> caps ! k
        \<and> slices ! k = (if caps ! k = 0 then NilSlice else Win (offset caps k) (length (contents k)) (caps ! k))
        \<and> take (length (contents k)) (drop (offset caps k) store) = contents k)"

lemma offset_Suc: "k < length caps \<Longrightarrow> offset caps (Suc k) = offset caps k + caps ! k"
  by (simp add: offset_def take_Suc_conv_app_nth)

lemma offset_mono: "j \<le> k \<Longrightarrow> offset caps j \<le> offset caps k"
  unfolding offset_def by (induction k rule: dec_induct)
    (auto simp: take_Suc_conv_app_nth, metis le_add1 le_trans not_le take_Suc_conv_app_nth sum_list_append take_all_iff le_SucI order_refl)

lemma offset_disjoint: "j < k \<Longrightarrow> k \<le> length caps \<Longrightarrow> offset caps j + caps ! j \<le> offset caps k"
  using offset_mono [of "Suc j" k caps] offset_Suc [of j caps] by simp

lemma offset_bound: "k < length caps \<Longrightarrow> offset caps k + caps ! k \<le> sum_list caps"
  using offset_disjoint [of k "length caps" caps] by (simp add: offset_def)

lemma windows_contents:
  "windows caps store slices contents \<Longrightarrow> k < length caps \<Longrightarrow> slice_contents store (slices ! k) = contents k"
  by (auto simp: windows_def)

lemma take_drop_update_outside:
  "i < off \<or> off + n \<le> i \<Longrightarrow> take n (drop off (xs[i := a])) = take n (drop off xs)"
  by (auto simp: drop_update_swap take_update_cancel not_less)

lemma windows_append:
  assumes w: "windows caps store slices contents" and k: "k < length caps" and room: "length (contents k) < caps ! k"
    and app: "slice_append store (slices ! k) a = (store', s)"
  shows "windows caps store' (slices[k := s]) (contents(k := contents k @ [a]))"
proof -
  let ?n = "length (contents k)" and ?o = "offset caps k"
  have sk: "slices ! k = Win ?o ?n (caps ! k)" and len: "length store = sum_list caps" "length slices = length caps"
    and ck: "take ?n (drop ?o store) = contents k"
    using w k room by (auto simp: windows_def)
  have st: "store' = store[?o + ?n := a]" "s = Win ?o (?n + 1) (caps ! k)" using app sk room by auto
  have inb: "?o + ?n < length store" using offset_bound [OF k] room len by simp
  have new: "take (?n + 1) (drop ?o store') = contents k @ [a]"
    using inb ck st(1) by (simp add: take_Suc_conv_app_nth drop_update_swap)
  have other: "take (length (contents j)) (drop (offset caps j) store') = contents j"
    if j: "j < length caps" "j \<noteq> k" for j
  proof -
    have cj: "length (contents j) \<le> caps ! j" "take (length (contents j)) (drop (offset caps j) store) = contents j"
      using w j by (auto simp: windows_def)
    have "?o + ?n < offset caps j \<or> offset caps j + length (contents j) \<le> ?o + ?n"
      using offset_disjoint [of j k caps] offset_disjoint [of k j caps] j k cj(1) room by (cases "j < k") auto
    then show ?thesis using take_drop_update_outside cj(2) st(1) by metis
  qed
  show ?thesis
    using w k room st len new other by (auto simp: windows_def nth_list_update)
qed

lemma carve_all_windows:
  "used + sum_list caps \<le> tot \<Longrightarrow>
   carve_all tot used caps = Inr (map (\<lambda>k. if caps ! k = 0 then NilSlice else Win (used + offset caps k) 0 (caps ! k))
     [0..<length caps])"
proof (induction caps arbitrary: used)
  case (Cons n caps)
  have ih: "carve_all tot (used + n) caps = Inr (map (\<lambda>k. if caps ! k = 0 then NilSlice
      else Win (used + n + offset caps k) 0 (caps ! k)) [0..<length caps])"
    using Cons by simp
  have c: "carve tot used n = Inr (if n = 0 then NilSlice else Win used 0 n, used + n)"
    using Cons.prems by (simp add: carve_def)
  have "[0..<length (n # caps)] = 0 # map Suc [0..<length caps]"
    by (simp add: upt_conv_Cons map_Suc_upt del: upt_Suc)
  then show ?case by (simp add: c ih offset_def add.assoc del: upt_Suc)
qed simp

text \<open>The loop fills the windows with the arguments of their sections and never leaves one.\<close>

lemma run_append_windows:
  assumes "windows caps (rs_store st) (rs_slices st) contents" and "k < length caps" and "length (contents k) < caps ! k"
  shows "windows caps (rs_store (run_append st k a)) (rs_slices (run_append st k a)) (contents(k := contents k @ [a]))"
    and "rs_StdoutFile (run_append st k a) = rs_StdoutFile st" and "rs_StdoutNoAuto (run_append st k a) = rs_StdoutNoAuto st"
    and "rs_CWD (run_append st k a) = rs_CWD st"
  using windows_append [OF assms] by (auto simp: run_append_def split: prod.splits)

definition slot_table :: "(string \<times> nat) list" where
  "slot_table = [(''ARGS'', 0), (''IN'', 1), (''IN_DEPS'', 1), (''IN_NOPARSE'', 2), (''OUT'', 3), (''OUT_NOAUTO'', 4),
     (''ENV'', 5), (''OUTPUT_INCLUDES'', 6), (''INDUCED_DEPS'', 7), (''TOOL'', 8)]"

lemma slot_table: "runProgramListSection s = Some k \<Longrightarrow> (s, k) \<in> set slot_table"
  unfolding runProgramListSection.simps [of s] slot_table_def by (auto split: if_splits)


lemma slot_table_put: "\<forall>(s, k) \<in> set slot_table. runProgram_put st s tok = run_append st k tok"
proof -
  have "list_all (\<lambda>(s, k). runProgram_put st s tok = run_append st k tok) slot_table"
    unfolding slot_table_def list.pred_inject prod.case
    by (intro conjI TrueI) (simp_all only: runProgram_put_def, simp_all)
  then show ?thesis unfolding list_all_iff .
qed

lemma runProgram_put_slot:
  "runProgramListSection s = Some k \<Longrightarrow> runProgram_put st s tok = run_append st k tok"
  using slot_table_put slot_table by fastforce

lemma runProgram_put_other:
  assumes "runProgramListSection s = None"
  shows "rs_store (runProgram_put st s tok) = rs_store st" and "rs_slices (runProgram_put st s tok) = rs_slices st"
  using assms unfolding runProgramListSection.simps [of s] runProgram_put_def by (simp_all split: if_splits)

definition keep_first :: "'a option \<Rightarrow> 'a option \<Rightarrow> 'a option" where
  "keep_first old new = (case old of Some x \<Rightarrow> Some x | None \<Rightarrow> new)"

lemma keep_first_simps [simp]:
  "keep_first None x = x" "keep_first (Some y) x = Some y" "keep_first (keep_first a b) c = keep_first a (keep_first b c)"
  by (simp_all add: keep_first_def split: option.split)

definition stdout_secs :: "string list" where "stdout_secs = [''STDOUT'', ''STDOUT_NOAUTO'']"

lemma not_stdout_slot: "runProgramListSection s = Some k \<Longrightarrow> s \<notin> set stdout_secs \<and> s \<noteq> ''CWD''"
proof -
  have "\<forall>(s, k) \<in> set slot_table. s \<notin> set stdout_secs \<and> s \<noteq> ''CWD''"
    by (simp add: slot_table_def stdout_secs_def)
  then show "runProgramListSection s = Some k \<Longrightarrow> s \<notin> set stdout_secs \<and> s \<noteq> ''CWD''"
    using slot_table by fastforce
qed

lemma runProgram_put_stdout:
  "rs_StdoutFile (runProgram_put st s tok) = keep_first (rs_StdoutFile st) (if s \<in> set stdout_secs then Some tok else None)"
  "rs_StdoutNoAuto (runProgram_put st s tok)
     = (if rs_StdoutFile st = None \<and> s \<in> set stdout_secs then s = ''STDOUT_NOAUTO'' else rs_StdoutNoAuto st)"
  "rs_CWD (runProgram_put st s tok) = keep_first (rs_CWD st) (if s = ''CWD'' then Some tok else None)"
proof -
  have eq: "rs_StdoutFile (run_append st k a) = rs_StdoutFile st"
    "rs_StdoutNoAuto (run_append st k a) = rs_StdoutNoAuto st" "rs_CWD (run_append st k a) = rs_CWD st" for k a
    by (simp_all add: run_append_def split: prod.split)
  have kf: "keep_first x None = x" for x :: "ANY option" by (cases x) simp_all
  consider (list) k where "runProgramListSection s = Some k" | (out) "s = ''STDOUT''" | (outn) "s = ''STDOUT_NOAUTO''"
    | (cwd) "s = ''CWD''" | (none) "runProgramListSection s = None" "s \<notin> set stdout_secs" "s \<noteq> ''CWD''"
    by (auto simp: stdout_secs_def)
  then have "rs_StdoutFile (runProgram_put st s tok) = keep_first (rs_StdoutFile st) (if s \<in> set stdout_secs then Some tok else None)
    \<and> rs_StdoutNoAuto (runProgram_put st s tok)
       = (if rs_StdoutFile st = None \<and> s \<in> set stdout_secs then s = ''STDOUT_NOAUTO'' else rs_StdoutNoAuto st)
    \<and> rs_CWD (runProgram_put st s tok) = keep_first (rs_CWD st) (if s = ''CWD'' then Some tok else None)"
  proof cases
    case (list k)
    then show ?thesis using runProgram_put_slot [OF list] not_stdout_slot [OF list] by (simp add: eq kf)
  next
    case none
    then have "runProgram_put st s tok = st"
      unfolding runProgram_put_def runProgramListSection.simps [of s] stdout_secs_def by (simp split: if_splits)
    then show ?thesis using none by (simp add: kf)
  qed (auto simp: runProgram_put_def stdout_secs_def kf keep_first_def split: option.split)
  then show "rs_StdoutFile (runProgram_put st s tok) = keep_first (rs_StdoutFile st) (if s \<in> set stdout_secs then Some tok else None)"
    "rs_StdoutNoAuto (runProgram_put st s tok)
       = (if rs_StdoutFile st = None \<and> s \<in> set stdout_secs then s = ''STDOUT_NOAUTO'' else rs_StdoutNoAuto st)"
    "rs_CWD (runProgram_put st s tok) = keep_first (rs_CWD st) (if s = ''CWD'' then Some tok else None)"
    by blast+
qed

lemma first_in_Cons [simp]:
  "first_in secs [] = None"
  "first_in secs (p # l) = (if fst p \<in> set secs then Some p else first_in secs l)"
  by (simp_all add: first_in_def)

lemma runProgram_fold:
  assumes "windows caps (rs_store st) (rs_slices st) contents" and "length caps = 9"
    and "\<And>k. k < 9 \<Longrightarrow> length (contents k) + length (slot_args k l) \<le> caps ! k"
    and "st' = foldl (\<lambda>st (s, tok). runProgram_put st s tok) st l"
  shows "windows caps (rs_store st') (rs_slices st') (\<lambda>k. contents k @ slot_args k l)
    \<and> rs_StdoutFile st' = keep_first (rs_StdoutFile st) (map_option snd (first_in stdout_secs l))
    \<and> rs_StdoutNoAuto st' = (if rs_StdoutFile st = None then
         (case first_in stdout_secs l of Some (s, _) \<Rightarrow> s = ''STDOUT_NOAUTO'' | None \<Rightarrow> rs_StdoutNoAuto st)
       else rs_StdoutNoAuto st)
    \<and> rs_CWD st' = keep_first (rs_CWD st) (map_option snd (first_in [''CWD''] l))"
  using assms
proof (induction l arbitrary: st contents)
  case Nil
  then show ?case by (simp add: keep_first_def split: option.split)
next
  case (Cons p l)
  obtain s tok where p: "p = (s, tok)" by (cases p)
  define st1 where "st1 = runProgram_put st s tok"
  define c1 where "c1 = (\<lambda>k. contents k @ slot_args k [p])"
  have win: "windows caps (rs_store st1) (rs_slices st1) c1"
  proof (cases "runProgramListSection s")
    case None
    then show ?thesis
      using Cons.prems(1) runProgram_put_other [OF None, of st tok] by (simp add: st1_def c1_def p)
  next
    case (Some k)
    then have k: "k < 9" by (rule runProgramListSection_less)
    then have room: "length (contents k) < caps ! k" using Cons.prems(3) [OF k] Some by (simp add: p)
    have "c1 = contents(k := contents k @ [tok])" using Some by (auto simp: c1_def p fun_eq_iff)
    then show ?thesis
      using run_append_windows(1) [OF Cons.prems(1) _ room] k Cons.prems(2) runProgram_put_slot [OF Some]
      by (simp add: st1_def)
  qed
  have room: "length (c1 k) + length (slot_args k l) \<le> caps ! k" if "k < 9" for k
    using Cons.prems(3) [OF that] by (auto simp: c1_def split: if_splits)
  have st': "st' = foldl (\<lambda>st (s, tok). runProgram_put st s tok) st1 l"
    using Cons.prems(4) by (simp add: p st1_def)
  have "(\<lambda>k. c1 k @ slot_args k l) = (\<lambda>k. contents k @ slot_args k (p # l))" by (auto simp: c1_def)
  moreover note put = runProgram_put_stdout [of st s tok, folded st1_def]
  ultimately show ?case
    using Cons.IH [OF win Cons.prems(2) room st'] unfolding put p
    by (auto simp: keep_first_def split: option.splits if_splits)
qed

lemma in_sections_slot:
  assumes "\<And>s. runProgramListSection s = Some k \<longleftrightarrow> s \<in> set secs"
  shows "slot_args k l = in_sections secs l"
  by (simp add: slot_args_def in_sections_def assms)

lemma slot_sections:
  "slot_args 0 l = in_sections [''ARGS''] l" "slot_args 1 l = in_sections [''IN'', ''IN_DEPS''] l"
  "slot_args 2 l = in_sections [''IN_NOPARSE''] l" "slot_args 3 l = in_sections [''OUT''] l"
  "slot_args 4 l = in_sections [''OUT_NOAUTO''] l" "slot_args 5 l = in_sections [''ENV''] l"
  "slot_args 6 l = in_sections [''OUTPUT_INCLUDES''] l" "slot_args 7 l = in_sections [''INDUCED_DEPS''] l"
  "slot_args 8 l = in_sections [''TOOL''] l"
  by (rule in_sections_slot; simp add: runProgramListSection.simps)+

lemma slice_extend_windows:
  assumes "windows caps store slices contents" and "k < length caps" and "length (contents k) + length as \<le> caps ! k"
    and "slice_extend store (slices ! k) as = (store', s)"
  shows "windows caps store' (slices[k := s]) (contents(k := contents k @ as))"
  using assms
proof (induction as arbitrary: store slices contents)
  case Nil
  then show ?case using list_update_id [of slices k] by auto
next
  case (Cons a as)
  obtain store1 s1 where a: "slice_append store (slices ! k) a = (store1, s1)" by force
  have w: "windows caps store1 (slices[k := s1]) (contents(k := contents k @ [a]))"
    using windows_append [OF Cons.prems(1,2) _ a] Cons.prems(3) by simp
  have len: "k < length slices" using Cons.prems(1,2) by (simp add: windows_def)
  let ?c = "contents(k := contents k @ [a])"
  have room: "length (?c k) + length as \<le> caps ! k" using Cons.prems(3) by simp
  have "slice_extend store1 (slices[k := s1] ! k) as = (store', s)" using Cons.prems(4) a len by simp
  from Cons.IH [OF w Cons.prems(2) room this] show ?case by (simp only: fun_upd_upd list_update_overwrite) simp
qed

text \<open>Both passes agree: the windows are exactly filled and the fields are the sections.\<close>

lemma parseRunProgram_sections:
  assumes "args \<noteq> []"
  shows "parseRunProgram args = Inr (run_program_spec args)"
proof -
  obtain tool rest where args: "args = tool # rest" using assms by (cases args) auto
  define l where "l = labelled ''ARGS'' rest"
  define n where "n = (\<lambda>k. length (slot_args k l))"
  define counts where "counts = runProgram_counts (Some 0) (replicate 9 0) rest"
  define caps where "caps = [n 0, n 1 + n 2, n 2, n 3, n 4, n 5, n 6, n 7, n 8]"
  have cnt: "counts ! k = n k" if "k < 9" for k
    using runProgram_counts_spec [of "replicate 9 0" "Some 0" "''ARGS''" k rest] that
    by (simp add: counts_def n_def l_def runProgramListSection.simps)
  have caps: "[counts ! 0, counts ! 1 + counts ! 2, counts ! 2, counts ! 3, counts ! 4, counts ! 5,
      counts ! 6, counts ! 7, counts ! 8] = caps" by (simp add: cnt caps_def)
  have tot: "counts ! 0 + counts ! 1 + 2 * counts ! 2 + counts ! 3 + counts ! 4 + counts ! 5
      + counts ! 6 + counts ! 7 + counts ! 8 = sum_list caps" by (simp add: cnt caps_def)
  have len: "length caps = 9" by (simp add: caps_def)
  define slices where "slices = map (\<lambda>k. if caps ! k = 0 then NilSlice else Win (offset caps k) 0 (caps ! k)) [0..<length caps]"
  have carve: "carve_all (sum_list caps) 0 caps = Inr slices"
    using carve_all_windows [of 0 caps "sum_list caps"] by (simp add: slices_def)
  define st0 where "st0 = \<lparr>rs_store = replicate (sum_list caps) NoANY, rs_slices = slices, rs_StdoutFile = None,
    rs_StdoutNoAuto = False, rs_CWD = None\<rparr>"
  define st where "st = runProgram_loop st0 ''ARGS'' rest"
  have "windows caps (rs_store st0) (rs_slices st0) (\<lambda>_. [])"
    by (simp add: windows_def st0_def slices_def)
  moreover have "n k \<le> caps ! k" if "k < 9" for k
    using that by (auto simp: caps_def less_Suc_eq numeral_eq_Suc)
  moreover have "rs_StdoutNoAuto st0 = False" by (simp add: st0_def)
  ultimately have fold: "windows caps (rs_store st) (rs_slices st) (\<lambda>k. slot_args k l)"
      "rs_StdoutFile st = map_option snd (first_in stdout_secs l)"
      "rs_StdoutNoAuto st = (case first_in stdout_secs l of Some (s, _) \<Rightarrow> s = ''STDOUT_NOAUTO'' | None \<Rightarrow> False)"
      "rs_CWD st = map_option snd (first_in [''CWD''] l)"
    using runProgram_fold [of caps st0 "\<lambda>_. []" l st] len
    by (simp_all add: st_def runProgram_loop_labelled l_def n_def st0_def cong: option.case_cong)
  have noParse: "slice_contents (rs_store st) (rs_slices st ! 2) = slot_args 2 l"
    using windows_contents [OF fold(1)] len by simp
  obtain store inFiles where ext: "slice_extend (rs_store st) (rs_slices st ! 1) (slot_args 2 l) = (store, inFiles)"
    by force
  have w: "windows caps store ((rs_slices st)[1 := inFiles]) ((\<lambda>k. slot_args k l)(1 := slot_args 1 l @ slot_args 2 l))"
    using slice_extend_windows [OF fold(1) _ _ ext] len by (simp add: caps_def n_def)
  have field: "slice_contents store (rs_slices st ! k) = slot_args k l" if "k < 9" "k \<noteq> 1" for k
    using windows_contents [OF w, of k] that len by simp
  have inf: "slice_contents store inFiles = slot_args 1 l @ slot_args 2 l"
    using windows_contents [OF w, of 1] fold(1) len by (simp add: windows_def)
  have "parseRunProgram args = Inr \<lparr>rp_CallArgs = args, rp_ToolPath = tool, rp_Args = slot_args 0 l,
      rp_INFiles = slot_args 1 l @ slot_args 2 l, rp_INNoParse = length (slot_args 2 l),
      rp_OUTFiles = slot_args 3 l, rp_OUTNoAutoFiles = slot_args 4 l, rp_StdoutFile = rs_StdoutFile st,
      rp_StdoutNoAuto = rs_StdoutNoAuto st, rp_EnvPairs = slot_args 5 l, rp_CWD = rs_CWD st,
      rp_OutputIncludes = slot_args 6 l, rp_InducedDeps = slot_args 7 l, rp_ToolPaths = slot_args 8 l\<rparr>"
    unfolding parseRunProgram_def args list.case Let_def counts_def [symmetric] caps tot carve rbind_simps
      st0_def [symmetric] st_def [symmetric] noParse ext prod.case inf
    by (simp add: field)
  then show ?thesis
    unfolding fold slot_sections run_program_spec_def args l_def by (simp add: Let_def stdout_secs_def)
qed

subsection \<open>RUN_PYTHON3\<close>

definition py_view :: "PyState \<Rightarrow> ANY list list" where
  "py_view st = [py_Args (ps_stmt st), py_INFiles (ps_stmt st), ps_noParse st, py_OUTFiles (ps_stmt st),
     py_OUTNoAutoFiles (ps_stmt st), py_EnvPairs (ps_stmt st), py_OutputIncludes (ps_stmt st),
     py_InducedDeps (ps_stmt st), py_ToolPaths (ps_stmt st)]"

definition py_rest :: "PyState \<Rightarrow> bool \<times> ANY \<times> nat \<times> ANY option \<times> bool \<times> ANY option" where
  "py_rest st = (py_Lua (ps_stmt st), py_ScriptPath (ps_stmt st), py_INNoParse (ps_stmt st),
     py_StdoutFile (ps_stmt st), py_StdoutNoAuto (ps_stmt st), py_CWD (ps_stmt st))"

lemma slot_table_py:
  "\<forall>(s, k) \<in> set slot_table. py_view (runPython_put st s tok) = (py_view st)[k := py_view st ! k @ [tok]]
     \<and> py_rest (runPython_put st s tok) = py_rest st"
proof -
  have "list_all (\<lambda>(s, k). py_view (runPython_put st s tok) = (py_view st)[k := py_view st ! k @ [tok]]
      \<and> py_rest (runPython_put st s tok) = py_rest st) slot_table"
    unfolding slot_table_def list.pred_inject prod.case
    by (intro conjI TrueI) (simp_all add: runPython_put_def py_view_def py_rest_def Let_def)
  then show ?thesis unfolding list_all_iff .
qed

lemma runPython_put_slot:
  assumes "runProgramListSection s = Some k"
  shows "py_view (runPython_put st s tok) = (py_view st)[k := py_view st ! k @ [tok]]"
    and "py_rest (runPython_put st s tok) = py_rest st"
  using slot_table_py slot_table [OF assms] by fastforce+

lemma no_list_section:
  assumes "runProgramListSection s = None"
  shows "s \<noteq> ''ARGS''" "s \<noteq> ''IN''" "s \<noteq> ''IN_DEPS''" "s \<noteq> ''IN_NOPARSE''" "s \<noteq> ''OUT''" "s \<noteq> ''OUT_NOAUTO''"
    "s \<noteq> ''ENV''" "s \<noteq> ''OUTPUT_INCLUDES''" "s \<noteq> ''INDUCED_DEPS''" "s \<noteq> ''TOOL''"
  using assms by (auto simp: runProgramListSection.simps)

text \<open>The effect of a section that holds at most one argument.\<close>

definition py_single :: "string \<Rightarrow> ANY \<Rightarrow> bool \<times> ANY \<times> nat \<times> ANY option \<times> bool \<times> ANY option
  \<Rightarrow> bool \<times> ANY \<times> nat \<times> ANY option \<times> bool \<times> ANY option" where
  "py_single s tok r = (case r of (lua, script, n, out, noauto, cwd) \<Rightarrow>
      (lua, script, n, keep_first out (if s \<in> set stdout_secs then Some tok else None),
       if out = None \<and> s \<in> set stdout_secs then s = ''STDOUT_NOAUTO'' else noauto,
       keep_first cwd (if s = ''CWD'' then Some tok else None)))"

lemma keep_first_None [simp]: "keep_first x None = x"
  by (cases x) simp_all

lemma py_single_other: "s \<notin> set stdout_secs \<Longrightarrow> s \<noteq> ''CWD'' \<Longrightarrow> py_single s tok r = r"
  by (cases r) (simp add: py_single_def)

lemma runPython_put_none:
  assumes "runProgramListSection s = None"
  shows "py_view (runPython_put st s tok) = py_view st \<and> py_rest (runPython_put st s tok) = py_single s tok (py_rest st)"
proof -
  note n = no_list_section [OF assms]
  have put: "runPython_put st s tok =
    (if s = ''STDOUT'' \<or> s = ''STDOUT_NOAUTO''
     then (if py_StdoutFile (ps_stmt st) = None
           then st\<lparr>ps_stmt := (ps_stmt st)\<lparr>py_StdoutFile := Some tok, py_StdoutNoAuto := (s = ''STDOUT_NOAUTO'')\<rparr>\<rparr> else st)
     else if s = ''CWD'' then (if py_CWD (ps_stmt st) = None then st\<lparr>ps_stmt := (ps_stmt st)\<lparr>py_CWD := Some tok\<rparr>\<rparr> else st)
     else st)"
    unfolding runPython_put_def Let_def by (simp only: n if_False simp_thms)
  consider (out) "s = ''STDOUT'' \<or> s = ''STDOUT_NOAUTO''" | (cwd) "s = ''CWD''"
    | (none) "s \<noteq> ''STDOUT''" "s \<noteq> ''STDOUT_NOAUTO''" "s \<noteq> ''CWD''" by blast
  then show ?thesis
  proof cases
    case out
    then show ?thesis unfolding put
      by (cases "py_StdoutFile (ps_stmt st)") (auto simp: py_view_def py_rest_def py_single_def stdout_secs_def)
  next
    case cwd
    then show ?thesis unfolding put
      by (cases "py_CWD (ps_stmt st)") (simp_all add: py_view_def py_rest_def py_single_def stdout_secs_def)
  next
    case none
    then show ?thesis unfolding put by (simp add: py_single_other stdout_secs_def)
  qed
qed

lemma runPython_put_rest: "py_rest (runPython_put st s tok) = py_single s tok (py_rest st)"
  using runPython_put_none [of s st tok] runPython_put_slot(2) [of s _ st tok] not_stdout_slot [of s]
  by (cases "runProgramListSection s") (auto simp: py_single_other)

lemma runPython_put_view:
  assumes "k < 9"
  shows "py_view (runPython_put st s tok) ! k = py_view st ! k @ slot_args k [(s, tok)]"
proof -
  have len: "length (py_view st) = 9" by (simp add: py_view_def)
  show ?thesis
    using runPython_put_none [of s st tok] runPython_put_slot(1) [of s _ st tok] assms len
    by (cases "runProgramListSection s") (auto simp: nth_list_update)
qed

lemma runPython_fold_view:
  "k < 9 \<Longrightarrow> py_view (foldl (\<lambda>st (s, tok). runPython_put st s tok) st l) ! k = py_view st ! k @ slot_args k l"
  by (induction l arbitrary: st) (auto simp: runPython_put_view)

lemma runPython_fold_rest:
  "py_rest (foldl (\<lambda>st (s, tok). runPython_put st s tok) st l) = (case py_rest st of (lua, script, n, out, noauto, cwd) \<Rightarrow>
      (lua, script, n, keep_first out (map_option snd (first_in stdout_secs l)),
       if out = None then (case first_in stdout_secs l of Some (s, _) \<Rightarrow> s = ''STDOUT_NOAUTO'' | None \<Rightarrow> noauto) else noauto,
       keep_first cwd (map_option snd (first_in [''CWD''] l))))"
proof (induction l arbitrary: st)
  case Nil
  then show ?case by (cases "py_rest st") simp
next
  case (Cons p l)
  obtain s tok where p: "p = (s, tok)" by (cases p)
  obtain lua script n out noauto cwd where r: "py_rest st = (lua, script, n, out, noauto, cwd)" by (cases "py_rest st")
  show ?case
    by (cases "s \<in> set stdout_secs"; cases "s = ''CWD''"; cases out; cases cwd)
      (simp_all add: p Cons.IH runPython_put_rest r py_single_def)
qed

text \<open>The statement of \<^verbatim>\<open>RUN_PYTHON3\<close> a statement of \<^verbatim>\<open>RUN_PROGRAM\<close> with the same arguments corresponds to.\<close>

definition python_of :: "RunProgramStmt \<Rightarrow> RunPythonStmt" where
  "python_of p = \<lparr>py_Lua = False, py_ScriptPath = rp_ToolPath p, py_Args = rp_Args p, py_INFiles = rp_INFiles p,
     py_INNoParse = rp_INNoParse p, py_OUTFiles = rp_OUTFiles p, py_OUTNoAutoFiles = rp_OUTNoAutoFiles p,
     py_StdoutFile = rp_StdoutFile p, py_StdoutNoAuto = rp_StdoutNoAuto p, py_EnvPairs = rp_EnvPairs p,
     py_CWD = rp_CWD p, py_ToolPaths = rp_ToolPaths p, py_OutputIncludes = rp_OutputIncludes p,
     py_InducedDeps = rp_InducedDeps p\<rparr>"

lemma RunPythonStmt_eqI:
  fixes p q :: RunPythonStmt
  assumes "py_Lua p = py_Lua q" "py_ScriptPath p = py_ScriptPath q" "py_Args p = py_Args q" "py_INFiles p = py_INFiles q"
    "py_INNoParse p = py_INNoParse q" "py_OUTFiles p = py_OUTFiles q" "py_OUTNoAutoFiles p = py_OUTNoAutoFiles q"
    "py_StdoutFile p = py_StdoutFile q" "py_StdoutNoAuto p = py_StdoutNoAuto q" "py_EnvPairs p = py_EnvPairs q"
    "py_CWD p = py_CWD q" "py_ToolPaths p = py_ToolPaths q" "py_OutputIncludes p = py_OutputIncludes q"
    "py_InducedDeps p = py_InducedDeps q"
  shows "p = q"
  using assms by (cases p, cases q) simp

lemma parseRunPython_sections:
  assumes "args \<noteq> []"
  shows "parseRunPython args = Inr (python_of (run_program_spec args))"
proof -
  obtain script rest where args: "args = script # rest" using assms by (cases args) auto
  define st0 where "st0 = \<lparr>ps_stmt = \<lparr>py_Lua = False, py_ScriptPath = script, py_Args = [], py_INFiles = [],
     py_INNoParse = 0, py_OUTFiles = [], py_OUTNoAutoFiles = [], py_StdoutFile = None,
     py_StdoutNoAuto = False, py_EnvPairs = [], py_CWD = None, py_ToolPaths = [],
     py_OutputIncludes = [], py_InducedDeps = []\<rparr>, ps_noParse = []\<rparr>"
  define l where "l = labelled ''ARGS'' rest"
  define st where "st = runPython_loop st0 ''ARGS'' rest"
  have st: "st = foldl (\<lambda>st (s, tok). runPython_put st s tok) st0 l" by (simp add: st_def l_def runPython_loop_labelled)
  have view0: "py_view st0 = replicate 9 []" by (simp add: py_view_def st0_def numeral_eq_Suc)
  have view: "k < 9 \<Longrightarrow> py_view st ! k = slot_args k l" for k
    using runPython_fold_view [of k st0 l] by (simp add: st view0 del: replicate_Suc)
  have rest: "py_rest st = (False, script, 0, map_option snd (first_in stdout_secs l),
      (case first_in stdout_secs l of Some (s, _) \<Rightarrow> s = ''STDOUT_NOAUTO'' | None \<Rightarrow> False), map_option snd (first_in [''CWD''] l))"
    using runPython_fold_rest [of st0 l] unfolding st [symmetric] by (simp add: py_rest_def st0_def)
  note v = view [of 0] view [of 1] view [of 2] view [of 3] view [of 4] view [of 5] view [of 6] view [of 7] view [of 8]
  have parts: "py_Args (ps_stmt st) = slot_args 0 l" "py_INFiles (ps_stmt st) = slot_args 1 l" "ps_noParse st = slot_args 2 l"
    "py_OUTFiles (ps_stmt st) = slot_args 3 l" "py_OUTNoAutoFiles (ps_stmt st) = slot_args 4 l"
    "py_EnvPairs (ps_stmt st) = slot_args 5 l" "py_OutputIncludes (ps_stmt st) = slot_args 6 l"
    "py_InducedDeps (ps_stmt st) = slot_args 7 l" "py_ToolPaths (ps_stmt st) = slot_args 8 l"
    using v by (simp_all add: py_view_def)
  have "parseRunPython args = Inr ((ps_stmt st)\<lparr>py_INFiles := slot_args 1 l @ slot_args 2 l,
      py_INNoParse := length (slot_args 2 l)\<rparr>)"
    unfolding parseRunPython_def args list.case Let_def st0_def [symmetric] st_def [symmetric] parts ..
  also have "(ps_stmt st)\<lparr>py_INFiles := slot_args 1 l @ slot_args 2 l, py_INNoParse := length (slot_args 2 l)\<rparr>
      = python_of (run_program_spec args)"
    unfolding python_of_def run_program_spec_def args Let_def list.sel l_def [symmetric] stdout_secs_def [symmetric]
    by (rule RunPythonStmt_eqI) (use rest in \<open>simp_all add: py_rest_def parts slot_sections slot_sections [unfolded One_nat_def]\<close>)
  finally show ?thesis .
qed

text \<open>
  C16: parseRunProgram never panics on a call with a tool, although it carves all its
  slices out of one array whose size it computes in a first pass: the windows do not overlap and
  no append leaves its window. The statement holds, for every section, exactly the arguments that
  stand after a keyword of this section, in order (the arguments before the first keyword are
  those of ARGS), the IN_NOPARSE files come after the IN files and are counted, and STDOUT and CWD
  keep their first argument only.
\<close>

theorem parseRunProgram_correct:
  assumes "args \<noteq> []"
  shows "parseRunProgram args = Inr (run_program_spec args)"
  by (rule parseRunProgram_sections [OF assms])

theorem parseRunProgram_correct_witness:
  "map_sum (\<lambda>x. x) (\<lambda>p. (rp_Args p, rp_INFiles p, rp_INNoParse p, rp_CWD p)) (parseRunProgram
     [StrANY ''tool'', StrANY ''-x'', StrANY ''IN_NOPARSE'', StrANY ''b'', StrANY ''CWD'', StrANY ''d'', StrANY ''e'', StrANY ''IN'', StrANY ''a''])
   = Inr ([StrANY ''-x''], [StrANY ''a'', StrANY ''b''], 1, Some (StrANY ''d''))"
  by (subst parseRunProgram_correct) code_simp+

text \<open>
  RUN_PYTHON3, which is written as a second loop with its own appends, understands its
  arguments as RUN_PROGRAM does: the statement it builds has the fields of the statement RUN_PROGRAM
  builds from the same arguments, the script in the place of the tool.
\<close>

theorem parseRunPython_agrees:
  assumes "args \<noteq> []"
  shows "parseRunPython args = map_sum (\<lambda>e. e) python_of (parseRunProgram args)"
  by (simp add: parseRunPython_sections [OF assms] parseRunProgram_sections [OF assms])

theorem parseRunPython_agrees_witness:
  "parseRunPython [StrANY ''s.py'', StrANY ''STDOUT'', StrANY ''o'']
     = map_sum (\<lambda>e. e) python_of (parseRunProgram [StrANY ''s.py'', StrANY ''STDOUT'', StrANY ''o''])"
  by (rule parseRunPython_agrees) simp

end
