(* ===== verification/Ay_Tok.thy ===== *)
theory Ay_Tok
  imports Ay_Prelude
begin

text \<open>
  The known macro names (\<^verbatim>\<open>yamake_tok.go\<close>). A \<^verbatim>\<open>TOK\<close> is represented by its name; the value
  \<open>None\<close> is \<^verbatim>\<open>tokInvalid\<close>. \<^verbatim>\<open>tokName\<close> is the table in the order of the source, with the interned
  constants replaced by their text.
\<close>

definition tokName :: "string list" where
  "tokName = [
    ''CRATE'', ''CRATE_PROC_MACRO'', ''RUST_BUILD_SCRIPT'', ''RUST_RUNTIME'', ''CRATE_ROOT'', ''CRATE_SOURCES'',
    ''CRATE_INPUTS'', ''CRATE_VERSION'', ''CRATE_EDITION'', ''CRATE_MANIFEST'', ''CRATE_MANIFEST_DIR'',
    ''CRATE_FEATURES'', ''CRATE_FLAGS'', ''CRATE_ENV'', ''CRATE_BUILD_TOOL'', ''CRATE_DEPENDENCY_ALIAS'',
    ''CRATE_PROC_MACROS'', ''CRATE_BUILD_SCRIPT'', ''CRATE_BUILD_DEPS'', ''COMPILE_C_AS_CXX'',
    ''VALIDATE_DATA_RESTART'', ''PACK'', ''SET_CUDA_NODE_RAM_REQUIEREMENT'', ''NO_COW'', ''NO_NEED_CHECK'',
    ''PIRE_INLINE'', ''PIRE_INLINE_CMD'', ''GENERATE_YT_RECORD'', ''YT_RECORD_DISABLE_PEERDIR'',
    ''_RUN_JAVASCRIPT_AFTER_BUILD_PROCESS_INPUTS'', ''PROTO_TO_NAMESPACE'', ''PY_PROTO_PLUGIN'', ''PY_PROTO_PLUGIN2'',
    ''YQL_PREBUILT_TOOL'', ''YQL_UDF'', ''UDF_BASE'', ''YQL_PYTHON_UDF'', ''YQL_PYTHON3_UDF'',
    ''REGISTER_YQL_PYTHON_UDF'', ''UDF_NO_PROBE'', ''CYTHON_FLAGS'', ''FLEX_FLAGS'', ''SKIP_TEST'', ''DLL_FOR'',
    ''_PACKAGE_FINAL'', ''MLAUNCH_LIBRARY'', ''MLAUNCH_PIPELINE'', ''GOLAUNCH_PROGRAM'', ''GOLAUNCH_SRCS'',
    ''GOLAUNCH_SRCDIR'', ''RUNTIME_PEERDIR'', ''RESOURCE_PEERDIR'', ''GOLAUNCH_FUNCTION'', ''GOLAUNCH_OVERRIDE'',
    ''NO_GOLAUNCH_SRCS'', ''GENERATE_GOLAUNCH_CALLBACKS'', ''GOLAUNCH_COMPOSITE'', ''GOLAUNCH_COMPOSITE_COMPONENTS'',
    ''MLAUNCH_COMPONENT'', ''NODE_BUILDER'', ''SDC_DIAGS_LIBRARY'', ''SDC_DIAGS_SPLIT_GENERATOR_V3'',
    ''SDC_DIAGS_SPLIT_GENERATOR_V4'', ''ROS_LIBRARY'', ''SANDBOX_TASK'', ''SANDBOX_PY3_TASK'', ''SANDBOX_PY23_TASK'',
    ''SANDBOX_PY23_3_TASK'', ''ROS_DIR'', ''ROS_PARTIAL'', ''ROS_SRCS'', ''ROS_MSG_CMD'', ''ROS_ZERO_COPY_MSG_CMD'',
    ''ROS_SRV_CMD'', ''YT_ORM_PROTO_YSON'', ''USRV_STYLE_JSON_CURRENT_DIRECTORY'',
    ''USRV_STYLE_YAML_CURRENT_DIRECTORY'', ''STYLE_JSON'', ''STYLE_YAML'', ''STYLE_YQL'', ''STYLE_YAML_WITH_CONFIG'',
    ''COLLECT_YAML_LINT_SRCS'', ''GEN_LIBRARY'', ''USRV_BUILD'', ''USRV_ALL_SRCS'', ''EXECTEST'', ''RUN'',
    ''PY3TEST'', ''PY3TEST_BIN'', ''PY2TEST'', ''PY23_TEST'', ''PYTEST_BIN'', ''DEPENDS'', ''TEST_CWD'',
    ''USE_RECIPE'', ''EXPLICIT_DATA'', ''EXPLICIT_OUTPUTS'', ''PREPARE_INDUCED_DEPS'', ''DATA_FILES'',
    ''BENCHMARK_OPTS'', ''FUZZ_OPTS'', ''FUZZ_DICTS'', ''FORK_TEST_FILES'', ''SET_LIST_PRE_SUF'', ''UNITTEST'',
    ''UNITTEST_WITH_CUSTOM_ENTRY_POINT'', ''YT_UNITTEST'', ''GTEST'', ''G_BENCHMARK'', ''Y_BENCHMARK'', ''FUZZ'',
    ''BOOSTTEST'', ''BOOSTTEST_WITH_MAIN'', ''DOCS'', ''DOCS_LIBRARY'', ''DOCS_DIR'', ''DOCS_CONFIG'', ''DOCS_VARS'',
    ''DOCS_INCLUDE_SOURCES'', ''DOCS_COPY_FILES'', ''USE_PLANTUML'', ''LLVM_COMPILE_CXX'', ''COMPILE_LUA_OPENRESTY'',
    ''COMPILE_LUA_21'', ''COMPILE_LUA'', ''DEB_VERSION'', ''TS_PROTO_PACKAGE_NAME'', ''STYLE_CPP_USER_SESSIONS'',
    ''SET_CUSTOM_CLANG_TIDY'', ''YQL_STABLE_ABI_VERSION'', ''YQL_CURRENT_ABI_VERSION'', ''YQL_PREBUILT_PROGRAM'',
    ''YQL_LIBRARY'', ''USRV_GEN_PROTO_STRUCTS'', ''USRV_GEN_GRPC_SERVICE_V2'', ''USRV_GEN_GRPC_CLIENT_V2'',
    ''USRV_GEN_GRPC_SERVICE_V2_STRUCTS'', ''USRV_GEN_GRPC_CLIENT_V2_STRUCTS'', ''ADDINCLSELF'', ''ALICE_CAPABILITY'',
    ''ALICE_GENERATE_FUNCTION_SPECS'', ''ALICE_GENERATE_PROTO_INCLUDES'', ''ALICE_GENERATE_FUNCTION_PROTO_INCLUDES'',
    ''ALICE_TYPED_CALLBACK'', ''ALLOCATOR'', ''ALLOCATOR_IMPL'', ''ALL_PY_SRCS'', ''ALL_PYTEST_SRCS'', ''APPHOST'',
    ''ARCHIVE'', ''ARCHIVE_ASM'', ''ASM_PREINCLUDE'', ''AR_PLUGIN'', ''BASE_CODEGEN'', ''BISON_GEN_C'',
    ''BISON_GEN_CPP'', ''BPF'', ''BPF_STATIC'', ''BUILDWITH_CYTHON_C'', ''BUILDWITH_RAGEL6'',
    ''BUILDWITH_CYTHON_CPP'', ''BUILD_ONLY_IF'', ''BUILD_MN'', ''CHECK_CONFIG_H'', ''CHECK_DEPENDENT_DIRS'',
    ''CLANG_WARNINGS'', ''COPY'', ''COPY_FILE'', ''COPY_FILE_WITH_CONTEXT'', ''CPP_EVLOG'', ''CPP_EV_PROTO_PLUGIN'',
    ''CPP_PROTO_PLUGIN'', ''CPP_PROTO_PLUGIN0'', ''CPP_PROTO_PLUGIN2'', ''GENERATE_IMPLIB'',
    ''LINK_EXCLUDE_LIBRARIES'', ''CUDA_SRCS'', ''CUDA_DEVICE_LINK_LIBRARY'', ''NVCC_DEVICE_LINK'',
    ''CUDA_NVCC_FLAGS'', ''SET_APPEND_WITH_GLOBAL'', ''DATA'', ''DECLARE_IN_DIRS'', ''DECLARE_EXTERNAL_RESOURCE'',
    ''DECLARE_EXTERNAL_HOST_RESOURCES_BUNDLE'', ''DECLARE_EXTERNAL_HOST_RESOURCES_BUNDLE_BY_JSON'', ''DEFAULT'',
    ''DEFINE_VARIABLE'', ''DISABLE'', ''DISABLE_DATA_VALIDATION'', ''DLL'', ''DLL_TOOL'', ''DYNAMIC_LIBRARY'',
    ''DYNAMIC_LIBRARY_FROM'', ''WITH_DYNAMIC_LIBS'', ''ENABLE'', ''ENV'', ''NO_DOCTESTS'',
    ''CONFTEST_LOAD_POLICY_LOCAL'', ''CONFTEST_LOAD_POLICY_LEGACY_GLOBAL'', ''EXCLUDE_TAGS'', ''EXPORTS_SCRIPT'',
    ''EXTRALIBS'', ''EXTRALIBS_STATIC'', ''FATAL'', ''FBS_NAMESPACE'', ''FBS_LIBRARY'', ''FILES'', ''PROTO2FBS'',
    ''FLATC_FLAGS'', ''FORK_SUBTESTS'', ''FORK_TESTS'', ''FROM_SANDBOX'', ''LARGE_FILES'', ''FROM_ARCHIVE'',
    ''CI_GROUP'', ''GLOBAL_CFLAGS'', ''GO_PROTO_PLUGIN'', ''GRPC'', ''HEADERS'', ''IDE_FOLDER'', ''INCLUDE_TAGS'',
    ''INDUCED_DEPS'', ''JAVA_CLASSPATH_IGNORE_CONFLICTZ'', ''JAVA_PROTO_PLUGIN'', ''JAVA_SRCS'', ''LD_PLUGIN'',
    ''LIBRARY'', ''LICENSE'', ''LICENSE_RESTRICTION'', ''LICENSE_RESTRICTION_EXCEPTIONS'', ''LICENSE_TEXTS'',
    ''LINT'', ''LIST_PROTO'', ''LLVM_BC'', ''MANUAL_GENERATION'', ''MASMFLAGS'', ''MAVEN_GROUP_ID'', ''MESSAGE'',
    ''NEED_CHECK'', ''NEED_REVIEW'', ''NO_BUILD_IF'', ''NO_CHECK_IMPORTS'', ''NO_CLANG_COVERAGE'',
    ''NO_CLANG_MCDC_COVERAGE'', ''NO_CLANG_TIDY'', ''NO_COMPILER_WARNINGS'', ''NO_EXPORT_DYNAMIC_SYMBOLS'',
    ''NO_EXTENDED_SOURCE_SEARCH'', ''NO_IMPORT_TRACING'', ''NO_JOIN_SRC'', ''NO_LIBC'', ''NO_LINT'', ''NO_LTO'',
    ''NO_MYPY'', ''NO_OPTIMIZE'', ''NO_DEBUG_INFO'', ''NO_OPTIMIZE_PY_PROTOS'', ''NO_PLATFORM'',
    ''NO_PLATFORM_RESOURCES'', ''NO_PROFILE_RUNTIME'', ''NO_PYTHON2'', ''NO_PYTHON_COVERAGE'', ''NO_PYTHON_INCLUDES'',
    ''NO_RUNTIME'', ''NO_SANITIZE'', ''NO_SANITIZE_COVERAGE'', ''NO_SPLIT_DWARF'', ''NO_UTIL'', ''NO_WSHADOW'',
    ''NO_YMAKE_PYTHON'', ''NO_YMAKE_PYTHON3'', ''ONLY_TAGS'', ''OPENSOURCE_EXPORT_REPLACEMENT'',
    ''OPENSOURCE_EXPORT_REPLACEMENT_BY_OS'', ''OPENSOURCE_PROJECT'', ''OPTIMIZE_PY_PROTOS'', ''ORIGINAL_SOURCE'',
    ''OWNER'', ''PACKAGE'', ''PREBUILT_PROGRAM'', ''PRIMARY_OUTPUT'', ''PROGRAM'', ''PROTOC_FATAL_WARNINGS'',
    ''PROTO_LIBRARY'', ''PROTO_NAMESPACE'', ''PROVIDES'', ''PY23_LIBRARY'', ''PY23_NATIVE_LIBRARY'', ''PY2_LIBRARY'',
    ''PY2MODULE'', ''PY3MODULE'', ''PY_ANY_MODULE'', ''PYTHON2_MODULE'', ''PYTHON3_MODULE'', ''PY2_PROGRAM'',
    ''PY3_LIBRARY'', ''PY3_PROGRAM'', ''PY3_PROGRAM_BIN'', ''PYTHON3'', ''PYTHON2_ADDINCL'', ''PYTHON3_ADDINCL'',
    ''PY_CONSTRUCTOR'', ''PY_EXTRA_LINT_FILES'', ''PY_MAIN'', ''PY_NAMESPACE'', ''PY_REGISTER'',
    ''REGISTER_SANDBOX_IMPORT'', ''INCLUDE_ONCE'', ''SET_RESOURCE_MAP_FROM_JSON'', ''PY_PROTOS_FOR'', ''EXTRADIR'',
    ''PARTITIONED_RECURSE'', ''PARTITIONED_RECURSE_FOR_TESTS'', ''PARTITIONED_RECURSE_ROOT_RELATIVE'',
    ''_PY_PROGRAM'', ''PY_SRCS'', ''RECURSE'', ''RECURSE_FOR_TESTS'', ''RECURSE_ROOT_RELATIVE'', ''REQUIREMENTS'',
    ''RUN_PROTO_SHAPER_STUB'', ''SOURCE_GROUP'', ''TS_PROTO_OPT'', ''TS_PROTO_NON_RECURSIVE'', ''RESOURCES_LIBRARY'',
    ''RESTRICT_PATH'', ''SET_APPEND'', ''SET_RESOURCE_URI_FROM_JSON'', ''SIZE'', ''SO_PROGRAM'', ''SPLIT_DWARF'',
    ''SPLIT_FACTOR'', ''SRC'', ''SRC_C_AMX'', ''SRC_C_AVX'', ''SRC_C_AVX2'', ''SRC_C_AVX512'', ''SRC_C_NO_LTO'',
    ''SRC_C_SSE2'', ''SRC_C_SSE3'', ''SRC_C_SSE4'', ''SRC_C_SSE41'', ''SRC_C_SSSE3'', ''SRC_C_XOP'', ''STRIP'',
    ''STYLE_CPP'', ''STYLE_CPP_MAPS'', ''STYLE_CPP_YT'', ''STYLE_PYTHON'', ''STYLE_RUFF'', ''SUBSCRIBER'',
    ''SUPPRESSIONS'', ''TAG'', ''TASKLET'', ''TASKLET_REG'', ''TASKLET_REG_EXT'', ''TASKLETSUPPORT'', ''TEST_SRCS'',
    ''TIMEOUT'', ''TOOLCHAIN'', ''DOCKER_IMAGE'', ''SDC_UNION'', ''SDC_INSTALL'', ''YA_TOOLS_CONF'',
    ''LINKER_SCRIPT'', ''SDC_RESOURCE_INFO'', ''SDC_SB_RESOURCE_INFO'', ''SDC_ROSNODE_INFO'', ''GEN_PCH_FILE'',
    ''SDC_SOLIB_INFO'', ''UNION'', ''UNITTEST_FOR'', ''USE_COMMON_GOOGLE_APIS'', ''USE_CXX'', ''USE_UTIL'',
    ''USE_LIGHT_PY2CC'', ''USE_LLVM_BC16'', ''USE_LLVM_BC18'', ''USE_LLVM_BC20'', ''SELECT_CLANG_SA_CONFIG'',
    ''USE_SA_PLUGINS'', ''USE_NASM'', ''USE_PYTHON2'', ''USE_PYTHON3'', ''VERSION'', ''WINDOWS_MANIFEST'',
    ''WINDOWS_LONG_PATH_MANIFEST'', ''WITHOUT_LICENSE_TEXTS'', ''WITHOUT_VERSION'', ''WITH_KOTLIN_GRPC'', ''YAFF'',
    ''YAFF_SCHEMA'', ''YA_CONF_JSON'', ''YQL_ABI_VERSION'', ''YQL_LAST_ABI_VERSION'', ''YQL_UDF_CONTRIB'',
    ''YQL_UDF_YDB'', ''YQL_UDF_TEST'', ''YQL_UDF_MINITEST'', ''GO_LIBRARY'', ''GO_PACKAGE_NAME'',
    ''GO_GRPC_GATEWAY_V2_OPENAPI_SRCS'', ''GO_PROGRAM'', ''GO_TEST_SRCS'', ''GO_XTEST_SRCS'', ''GO_SKIP_TESTS'',
    ''GO_EMBED_PATTERN'', ''GO_EMBED_BINDIR'', ''GO_TEST_EMBED_BINDIR'', ''GO_XTEST_EMBED_BINDIR'', ''GO_EMBED_DIR'',
    ''GO_EMBED_TEST_DIR'', ''GO_EMBED_XTEST_DIR'', ''CGO_SRCS'', ''CGO_LDFLAGS'', ''GO_LDFLAGS'', ''GO_LINK_FLAGS'',
    ''CGO_CFLAGS'', ''ALL_RESOURCE_FILES'', ''ARCHIVE_BY_KEYS'', ''BISON_FLAGS'', ''BUNDLE'', ''BUNDLE_OUTPUT'',
    ''CPP_ENUMS_SERIALIZATION'', ''DECIMAL_MD5_LOWER_32_BITS'', ''DEFAULT_JDK_VERSION'', ''JDK_VERSION'',
    ''EXPORT_YMAPS_PROTO'', ''LJ_21_ARCHIVE'', ''PROTO_DESCRIPTIONS'', ''PROTO_REGISTRY'', ''SPLIT_CODEGEN'',
    ''STRUCT_CODEGEN'', ''STYLE_DETEKT'', ''YMAPS_SPROTO'', ''TS_PACKAGE'', ''TS_LIBRARY'', ''TS_NEXT'', ''TS_VITE'',
    ''TS_RSPACK'', ''TS_TSC'', ''TS_TEST_FOR'', ''TS_TEST_JEST_FOR'', ''TS_TEST_VITEST_FOR'', ''JAVA_LIBRARY'',
    ''JAVA_LIBRARY_SPLIT'', ''JAVA_LIBRARY_NON_SPLIT'', ''JAVA_PROGRAM'', ''JAVA_CONTRIB'', ''JAVA_CONTRIB_PROXY'',
    ''JAVA_CONTRIB_PROGRAM'', ''JAVA_CONTRIB_ANNOTATION_PROCESSOR'', ''JAVA_ANNOTATION_PROCESSOR'',
    ''JAVA_TEST_LIBRARY'', ''JUNIT5'', ''JUNIT6'', ''JTEST'', ''JTEST_FOR'', ''EXTERNAL_JAVA_LIBRARY'',
    ''JAR_LIBRARY'', ''DLL_JAVA'', ''ADD_DLLS_TO_JAR'', ''GO_TEST'', ''GO_TEST_FOR'', ''GO_DLL'', ''ALL_GO_SRCS'',
    ''GO_MOCKGEN_FROM'', ''GO_MOCKGEN_CONTRIB_FROM'', ''GO_MOCKGEN_TYPES'', ''GO_MOCKGEN_EXCLUDE_INTERFACES'',
    ''GO_MOCKGEN_PACKAGE'', ''GO_MOCKGEN_REFLECT'', ''GO_MOCKGEN_MOCKS'', ''GO_MOCKGEN_SOURCE'', ''GO_OAPI_CODEGEN'',
    ''GO_OAPI_CODEGEN_V2'', ''GO_OAPI_CODEGEN_TAXI'', ''GO_OAPI_CODEGEN_TAXI_1134'', ''GO_GRPC_GATEWAY_V2_SRCS'',
    ''GO_GRPC_GATEWAY_SRCS'', ''GO_GRPC_GATEWAY_SWAGGER_SRCS'', ''PROTO_ADDINCL'', ''RESOLVE_PROTO'',
    ''GO_TEST_EMBED_PATTERN'', ''GO_XTEST_EMBED_PATTERN'', ''USE_SDC_META'', ''GENERATE_TOPOLOGY'', ''_GLOB'',
    ''_LATE_GLOB'', ''_ADD_CUSTOM_EXPLICIT_LINTER_CHECK'', ''COMPILE_NLG'', ''ALL_GO_TEST_SRCS'']"

type_synonym TOK = "string option"

definition internTokMaybeSTR :: "string \<Rightarrow> TOK" where
  "internTokMaybeSTR s = (if s \<in> set tokName then Some s else None)"

end
