(* ===== verification/Ay_Build.thy ===== *)
theory Ay_Build
  imports Ay_Stmt Ay_Tok Ay_Cond "HOL-Library.Multiset" "HOL-Library.Sublist"
begin

text \<open>
  From a macro call to a statement (\<^verbatim>\<open>yamake.go\<close>: the statement types, \<^verbatim>\<open>buildStmtForID\<close>,
  \<^verbatim>\<open>appendMacroCallStmts\<close>, \<^verbatim>\<open>parseSplitCodegen\<close>, \<^verbatim>\<open>splitAddInclPaths\<close> and their neighbours).

  A statement is a constructor of \<open>Stmt\<close> with the fields of the Go struct in their order; where the
  fields are a record of \<open>Ay_Stmt\<close>, the line follows it. The serial number of an \<^verbatim>\<open>IncludeStmt\<close>, drawn
  from a global counter to tell statement objects apart, is left out. The argument \<open>fail\<close> is the closure that
  the callers pass to report a wrong number of arguments: it always throws, and its value here is
  what it throws.
\<close>

section \<open>Statements\<close>

datatype Stmt =
    ModuleStmt (ms_Name: TOK) (ms_Schema: bool) (ms_Args: "ANY list") nat
  | PeerdirStmt "ANY list" nat
  | DeclareResourceStmt TOK "ANY list" nat
  | SrcsStmt "ANY list" nat
  | SetStmt string "string option" string bool string nat
  | EndStmt nat
  | MacroGuardStmt string
  | IncludeStmt string string nat
  | MissingIncludeStmt string nat
  | UnknownStmt TOK string "ANY list" "ANY list" "Stmt list" nat bool bool
  | IfStmt "CondNode list" "Stmt list" "Stmt list" nat
  | JoinSrcsStmt string "ANY list" nat
  | SAddIncl AddInclStmt nat
  | CFlagsStmt "ANY list" nat bool
  | CXXFlagsStmt "ANY list" nat
  | CONLYFlagsStmt "ANY list" nat
  | LDFlagsStmt "ANY list" nat
  | SrcDirStmt "ANY list" nat
  | GlobalSrcsStmt "ANY list" nat
  | GenerateEnumSerializationStmt string ANY string nat
  | DefaultVarStmt string string string nat
  | SRunProgram RunProgramStmt nat
  | SSplitCodegen SplitCodegenStmt nat
  | SBaseCodegen BaseCodegenStmt nat
  | SFromSandbox FromSandboxStmt nat
  | SRunPython RunPythonStmt nat
  | ConfigureFileStmt string string nat
  | CreateBuildInfoStmt string nat
  | SRunAntlr4Cpp RunAntlr4CppStmt nat
  | SRunAntlr4CppSplit RunAntlr4CppSplitStmt nat
  | RunAntlr4PythonStmt "ANY list" string nat
  | SRunAntlr RunAntlrStmt nat
  | ResourceStmt "ANY list" nat
  | ResourceFilesStmt "ANY list" nat
  | AllResourceFilesStmt "ANY list" bool nat

text \<open>A plain value needs no expansion.\<close>

definition setValuePlain :: "string \<Rightarrow> bool" where
  "setValuePlain v \<longleftrightarrow> CHR ''$'' \<notin> set v \<and> CHR 0x5C \<notin> set v"

definition newSetStmt :: "string \<Rightarrow> string option \<Rightarrow> string \<Rightarrow> nat \<Rightarrow> Stmt" where
  "newSetStmt name nameEnv value line = SetStmt name nameEnv value (setValuePlain value) [] line"

section \<open>SPLIT_CODEGEN, BASE_CODEGEN, STRUCT_CODEGEN\<close>

text \<open>\<^verbatim>\<open>strconv.Atoi\<close> fails on what is not a number and on what does not fit in 64 bits.\<close>

datatype split_section = NoSection | OutNumSection | OutputIncludesSection

fun splitCodegen_loop :: "int \<Rightarrow> ANY list \<Rightarrow> ANY list \<Rightarrow> split_section \<Rightarrow> ANY list \<Rightarrow> int \<times> ANY list \<times> ANY list" where
  "splitCodegen_loop outNum incs positional section [] = (outNum, incs, positional)"
| "splitCodegen_loop outNum incs positional section (tok # args) =
     (if tok = kw ''OUT_NUM'' then splitCodegen_loop outNum incs positional OutNumSection args
      else if tok = kw ''OUTPUT_INCLUDES'' then splitCodegen_loop outNum incs positional OutputIncludesSection args
      else case section of
             OutNumSection \<Rightarrow>
               splitCodegen_loop (case ParseInt64 (ANY_string tok) of Some n \<Rightarrow> n | None \<Rightarrow> outNum)
                 incs positional NoSection args
           | OutputIncludesSection \<Rightarrow> splitCodegen_loop outNum (incs @ [tok]) positional section args
           | NoSection \<Rightarrow> splitCodegen_loop outNum incs (positional @ [tok]) section args)"

definition splitCodegenDefaultOutNum :: int where "splitCodegenDefaultOutNum = 25"

definition parseSplitCodegen :: "ANY list \<Rightarrow> SplitCodegenStmt" where
  "parseSplitCodegen args =
     (case splitCodegen_loop splitCodegenDefaultOutNum [] [] NoSection args of
        (outNum, incs, positional) \<Rightarrow>
          \<lparr>sc_ToolPath = (if length positional > 0 then positional ! 0 else NoANY),
           sc_Prefix = (if length positional > 1 then positional ! 1 else NoANY),
           sc_Opts = (if length positional > 2 then drop 2 positional else []),
           sc_OutNum = outNum, sc_OutputIncludes = incs\<rparr>)"

definition parseBaseCodegen :: "ANY list \<Rightarrow> BaseCodegenStmt result" where
  "parseBaseCodegen args =
     (if length args < 2 then Inl IndexPanic
      else Inr \<lparr>bc_ToolPath = args ! 0, bc_Prefix = args ! 1, bc_Opts = (if length args > 2 then drop 2 args else []),
                bc_OutputIncludes = [], bc_Macro = None\<rparr>)"

definition structCodegenOutputIncludes :: "ANY list" where
  "structCodegenOutputIncludes = map StrANY
     [''util/generic/singleton.h'', ''util/generic/strbuf.h'', ''util/generic/vector.h'', ''util/generic/ptr.h'',
      ''util/generic/yexception.h'', ''kernel/struct_codegen/reflection/reflection.h'',
      ''kernel/struct_codegen/reflection/floats.h'']"

definition parseStructCodegen :: "ANY \<Rightarrow> BaseCodegenStmt" where
  "parseStructCodegen pfx =
     \<lparr>bc_ToolPath = StrANY ''kernel/struct_codegen/codegen_tool'', bc_Prefix = pfx, bc_Opts = [],
      bc_OutputIncludes = structCodegenOutputIncludes, bc_Macro = Some ''STRUCT_CODEGEN''\<rparr>"

section \<open>ADDINCL\<close>

text \<open>
  \<^verbatim>\<open>scAddInclArgument\<close> looks ahead from the current argument for a path of the schema compiler:
  scopes and \<^verbatim>\<open>FOR sc\<close> in any order, then the path. It returns the path, the last scope and the
  arguments behind the path.
\<close>

fun scAddIncl_scan :: "bool \<Rightarrow> ANY \<Rightarrow> ANY list \<Rightarrow> (ANY \<times> ANY \<times> ANY list) option" where
  "scAddIncl_scan sc scope [] = None"
| "scAddIncl_scan sc scope (a # args) =
     (if a = kw ''GLOBAL'' \<or> a = kw ''ONE_LEVEL'' then scAddIncl_scan sc a args
      else if a = kw ''LOCAL'' then scAddIncl_scan sc scope args
      else if a = kw ''FOR'' then
        (case args of
           b # args' \<Rightarrow> if b = kw ''sc'' then scAddIncl_scan True scope args' else None
         | [] \<Rightarrow> None)
      else if sc then Some (a, scope, args) else None)"

definition scAddInclArgument :: "ANY list \<Rightarrow> (ANY \<times> ANY \<times> ANY list) option" where
  "scAddInclArgument args = scAddIncl_scan False NoANY args"

lemma scAddIncl_scan_suffix:
  "scAddIncl_scan sc scope args = Some (path, scope', rest) \<Longrightarrow> suffix (path # rest) args"
  by (induction sc scope args rule: scAddIncl_scan.induct)
    (auto split: if_splits list.splits intro: suffix_ConsI)

lemma scAddIncl_scan_shorter:
  "scAddIncl_scan sc scope args = Some (path, scope', rest) \<Longrightarrow> length rest < length args"
  using suffix_length_le [OF scAddIncl_scan_suffix] by fastforce

definition newAddIncl :: AddInclStmt where
  "newAddIncl = \<lparr>ai_GlobalPaths = [], ai_OneLevelPaths = [], ai_OwnPaths = [], ai_CythonPaths = [],
     ai_CythonGlobalPaths = [], ai_AsmPaths = [], ai_ProtoPaths = [], ai_ProtoGlobalPaths = [], ai_ProtoAllPaths = [],
     ai_FlatcPaths = [], ai_FlatcGlobalPaths = [], ai_SwigPaths = [], ai_SwigGlobalPaths = [], ai_ScPaths = [],
     ai_ScGlobalPaths = [], ai_ScExportPaths = [], ai_UserGlobalPaths = [], ai_AllPaths = []\<rparr>"

text \<open>The appends of one branch each.\<close>

definition ai_sc :: "ANY \<Rightarrow> ANY \<Rightarrow> AddInclStmt \<Rightarrow> AddInclStmt" where
  "ai_sc path scope s =
     (let s = s\<lparr>ai_ScPaths := ai_ScPaths s @ [path]\<rparr>
      in if scope = kw ''GLOBAL''
         then s\<lparr>ai_ScGlobalPaths := ai_ScGlobalPaths s @ [path], ai_ScExportPaths := ai_ScExportPaths s @ [path]\<rparr>
         else if scope = kw ''ONE_LEVEL'' then s\<lparr>ai_ScExportPaths := ai_ScExportPaths s @ [path]\<rparr>
         else s)"

definition ai_oneLevel :: "ANY \<Rightarrow> AddInclStmt \<Rightarrow> AddInclStmt" where
  "ai_oneLevel p s = s\<lparr>ai_OneLevelPaths := ai_OneLevelPaths s @ [p], ai_OwnPaths := ai_OwnPaths s @ [p],
     ai_UserGlobalPaths := ai_UserGlobalPaths s @ [p], ai_AllPaths := ai_AllPaths s @ [p]\<rparr>"

definition ai_global :: "ANY \<Rightarrow> AddInclStmt \<Rightarrow> AddInclStmt" where
  "ai_global p s = s\<lparr>ai_GlobalPaths := ai_GlobalPaths s @ [p], ai_UserGlobalPaths := ai_UserGlobalPaths s @ [p],
     ai_AllPaths := ai_AllPaths s @ [p]\<rparr>"

definition ai_own :: "ANY \<Rightarrow> AddInclStmt \<Rightarrow> AddInclStmt" where
  "ai_own p s = s\<lparr>ai_OwnPaths := ai_OwnPaths s @ [p], ai_AllPaths := ai_AllPaths s @ [p]\<rparr>"

definition ai_for :: "ANY \<Rightarrow> ANY \<Rightarrow> AddInclStmt \<Rightarrow> AddInclStmt option" where
  "ai_for lang p s =
     (if lang = kw ''proto''
      then Some (s\<lparr>ai_ProtoPaths := ai_ProtoPaths s @ [p], ai_ProtoAllPaths := ai_ProtoAllPaths s @ [p]\<rparr>)
      else if lang = kw ''flatc'' then Some (s\<lparr>ai_FlatcPaths := ai_FlatcPaths s @ [p]\<rparr>)
      else if lang = kw ''cython'' then Some (s\<lparr>ai_CythonPaths := ai_CythonPaths s @ [p]\<rparr>)
      else if lang = kw ''asm'' then Some (s\<lparr>ai_AsmPaths := ai_AsmPaths s @ [p]\<rparr>)
      else if lang = kw ''swig'' then Some (s\<lparr>ai_SwigPaths := ai_SwigPaths s @ [p]\<rparr>)
      else None)"

definition ai_global_for :: "ANY \<Rightarrow> ANY \<Rightarrow> AddInclStmt \<Rightarrow> AddInclStmt option" where
  "ai_global_for lang p s =
     (if lang = kw ''flatc''
      then Some (s\<lparr>ai_FlatcPaths := ai_FlatcPaths s @ [p], ai_FlatcGlobalPaths := ai_FlatcGlobalPaths s @ [p]\<rparr>)
      else if lang = kw ''cython''
      then Some (s\<lparr>ai_CythonPaths := ai_CythonPaths s @ [p], ai_CythonGlobalPaths := ai_CythonGlobalPaths s @ [p]\<rparr>)
      else if lang = kw ''asm'' then Some (s\<lparr>ai_AsmPaths := ai_AsmPaths s @ [p]\<rparr>)
      else if lang = kw ''proto''
      then Some (s\<lparr>ai_ProtoGlobalPaths := ai_ProtoGlobalPaths s @ [p], ai_ProtoAllPaths := ai_ProtoAllPaths s @ [p]\<rparr>)
      else if lang = kw ''swig''
      then Some (s\<lparr>ai_SwigPaths := ai_SwigPaths s @ [p], ai_SwigGlobalPaths := ai_SwigGlobalPaths s @ [p]\<rparr>)
      else None)"

text \<open>
  One round of the loop on the remaining arguments, with the statement and the arguments the loop
  goes on with. \<open>addIncl_for\<close> and \<open>addIncl_global\<close> are the branches of the keywords \<^verbatim>\<open>FOR\<close> and
  \<^verbatim>\<open>GLOBAL\<close>, on the arguments behind the keyword.
\<close>

definition addIncl_for :: "AddInclStmt \<Rightarrow> ANY list \<Rightarrow> AddInclStmt \<times> ANY list" where
  "addIncl_for s rest =
     (case (case rest of lang # p # rest' \<Rightarrow> map_option (\<lambda>s'. (s', rest')) (ai_for lang p s) | _ \<Rightarrow> None) of
        Some r \<Rightarrow> r
      | None \<Rightarrow> if rest \<noteq> [] \<and> hd rest = kw ''c'' then (s, tl rest) else (s, drop 2 rest))"

definition addIncl_global_path :: "AddInclStmt \<Rightarrow> ANY list \<Rightarrow> AddInclStmt \<times> ANY list" where
  "addIncl_global_path s rest = (case rest of p # rest' \<Rightarrow> (ai_global p s, rest') | [] \<Rightarrow> (s, []))"

definition addIncl_global :: "AddInclStmt \<Rightarrow> ANY list \<Rightarrow> AddInclStmt \<times> ANY list" where
  "addIncl_global s rest =
     (if rest \<noteq> [] \<and> hd rest = kw ''FOR'' then
        let rest = tl rest
        in case (case rest of lang # p # rest' \<Rightarrow> map_option (\<lambda>s'. (s', rest')) (ai_global_for lang p s) | _ \<Rightarrow> None) of
             Some r \<Rightarrow> r
           | None \<Rightarrow> if rest \<noteq> [] \<and> hd rest \<noteq> kw ''c'' then (s, drop 2 rest)
                     else addIncl_global_path s (drop 1 rest)
      else addIncl_global_path s rest)"

definition addIncl_step :: "AddInclStmt \<Rightarrow> ANY list \<Rightarrow> AddInclStmt \<times> ANY list" where
  "addIncl_step s args =
     (case scAddInclArgument args of
        Some (path, scope, rest) \<Rightarrow> (ai_sc path scope s, rest)
      | None \<Rightarrow>
          let a = hd args; rest = tl args
          in if a = kw ''ONE_LEVEL'' then (case rest of p # rest' \<Rightarrow> (ai_oneLevel p s, rest') | [] \<Rightarrow> (s, []))
             else if a = kw ''FOR'' then addIncl_for s rest
             else if a = kw ''GLOBAL'' then addIncl_global s rest
             else (ai_own a s, rest))"

subsection \<open>One round\<close>

text \<open>
  What a round does to the fields: nothing, or one path of the arguments it drops is appended to
  some of them. \<open>ai_pairs\<close> lists the fields that are parts of others.
\<close>

definition ai_paths :: "AddInclStmt \<Rightarrow> ANY multiset" where
  "ai_paths s = mset (ai_AllPaths s) + mset (ai_CythonPaths s) + mset (ai_AsmPaths s) + mset (ai_ProtoAllPaths s)
     + mset (ai_FlatcPaths s) + mset (ai_SwigPaths s) + mset (ai_ScPaths s)"

definition ai_wf :: "AddInclStmt \<Rightarrow> bool" where
  "ai_wf s \<longleftrightarrow>
     ai_AllPaths s \<in> shuffles (ai_GlobalPaths s) (ai_OwnPaths s)
     \<and> ai_UserGlobalPaths s \<in> shuffles (ai_GlobalPaths s) (ai_OneLevelPaths s)
     \<and> ai_ProtoAllPaths s \<in> shuffles (ai_ProtoPaths s) (ai_ProtoGlobalPaths s)
     \<and> subseq (ai_OneLevelPaths s) (ai_OwnPaths s)
     \<and> subseq (ai_CythonGlobalPaths s) (ai_CythonPaths s) \<and> subseq (ai_FlatcGlobalPaths s) (ai_FlatcPaths s)
     \<and> subseq (ai_SwigGlobalPaths s) (ai_SwigPaths s) \<and> subseq (ai_ScGlobalPaths s) (ai_ScExportPaths s)
     \<and> subseq (ai_ScExportPaths s) (ai_ScPaths s)"

lemma shuffles_single: "ys @ [a] \<in> shuffles [a] ys" "ys @ [a] \<in> shuffles ys [a]"
  by (induction ys) auto

lemma shuffles_snoc:
  "zs \<in> shuffles xs ys \<Longrightarrow> zs @ [a] \<in> shuffles (xs @ [a]) ys" "zs \<in> shuffles xs ys \<Longrightarrow> zs @ [a] \<in> shuffles xs (ys @ [a])"
proof (induction xs ys arbitrary: zs rule: shuffles.induct)
  case (3 x xs y ys)
  { case 1 then show ?case using "3.IH" by (auto simp: image_iff) }
  { case 2 then show ?case using "3.IH" by (auto simp: image_iff) }
qed (auto simp: shuffles_single)

lemma subseq_snoc: "subseq xs ys \<Longrightarrow> subseq (xs @ [a]) (ys @ [a])" "subseq xs ys \<Longrightarrow> subseq xs (ys @ [a])"
  by (auto intro: list_emb_append_mono subseq_order.trans [OF _ prefix_imp_subseq])

lemmas ai_ops = ai_sc_def ai_oneLevel_def ai_global_def ai_own_def ai_for_def ai_global_for_def

text \<open>One path is added, and the relations between the fields are kept.\<close>

definition ai_adds :: "AddInclStmt \<Rightarrow> ANY \<Rightarrow> AddInclStmt \<Rightarrow> bool" where
  "ai_adds s p s' \<longleftrightarrow> ai_paths s' = add_mset p (ai_paths s) \<and> (ai_wf s \<longrightarrow> ai_wf s')"

lemmas ai_adds_simps = ai_adds_def ai_paths_def ai_wf_def shuffles_snoc subseq_snoc

lemma ai_adds_ops:
  "ai_adds s p (ai_sc p scope s)" "ai_adds s p (ai_oneLevel p s)" "ai_adds s p (ai_global p s)" "ai_adds s p (ai_own p s)"
  by (simp_all add: ai_ops Let_def ai_adds_simps)

lemma ai_adds_for: "ai_for lang p s = Some s' \<Longrightarrow> ai_adds s p s'"
  by (auto simp: ai_for_def ai_adds_simps split: if_splits)

lemma ai_adds_global_for: "ai_global_for lang p s = Some s' \<Longrightarrow> ai_adds s p s'"
  by (auto simp: ai_global_for_def ai_adds_simps split: if_splits)

definition ai_round :: "AddInclStmt \<Rightarrow> ANY list \<Rightarrow> AddInclStmt \<Rightarrow> ANY list \<Rightarrow> bool" where
  "ai_round s args s' rest \<longleftrightarrow> (s' = s \<and> suffix rest args \<or> (\<exists>p. ai_adds s p s' \<and> suffix (p # rest) args))"

lemma ai_round_intros:
  "suffix rest args \<Longrightarrow> ai_round s args s rest"
  "ai_adds s p s' \<Longrightarrow> suffix (p # rest) args \<Longrightarrow> ai_round s args s' rest"
  "ai_round s args s' rest \<Longrightarrow> suffix args args' \<Longrightarrow> ai_round s args' s' rest"
  by (auto simp: ai_round_def intro: suffix_order.trans)

lemma addIncl_for_round: "addIncl_for s args = (s', rest) \<Longrightarrow> ai_round s args s' rest"
  by (cases args; cases "tl args")
    (auto simp: addIncl_for_def suffix_ConsI split: if_splits option.splits
      intro: ai_round_intros(1,2) ai_adds_for suffix_drop)

lemma addIncl_global_path_round: "addIncl_global_path s args = (s', rest) \<Longrightarrow> ai_round s args s' rest"
  by (auto simp: addIncl_global_path_def split: list.splits intro: ai_round_intros ai_adds_ops)

lemma addIncl_global_round: "addIncl_global s args = (s', rest) \<Longrightarrow> ai_round s args s' rest"
proof -
  assume r: "addIncl_global s args = (s', rest)"
  note path = addIncl_global_path_round [THEN ai_round_intros(3)]
  show "ai_round s args s' rest"
  proof (cases "args \<noteq> [] \<and> hd args = kw ''FOR''")
    case False
    show ?thesis using r unfolding addIncl_global_def if_not_P [OF False] by (rule addIncl_global_path_round)
  next
    case True
    then obtain rest1 where a: "args = kw ''FOR'' # rest1" by (cases args) auto
    have "ai_round s rest1 s' rest"
      using r unfolding a addIncl_global_def
      by (cases rest1; cases "tl rest1")
        (auto simp: suffix_ConsI Let_def split: if_splits option.splits
          intro: ai_round_intros(1,2) ai_adds_global_for path [OF _ suffix_drop] path [OF _ suffix_ConsI] dest: addIncl_global_path_round)
    then show ?thesis unfolding a by (rule ai_round_intros(3)) (simp add: suffix_ConsI)
  qed
qed

lemma suffix_Cons_shorter: "suffix (p # rest) args \<Longrightarrow> length rest < length args"
  using suffix_length_le [of "p # rest" args] by simp

lemma addIncl_step_round:
  assumes r: "addIncl_step s args = (s', rest)" and ne: "args \<noteq> []"
  shows "ai_round s args s' rest \<and> length rest < length args"
proof (cases "scAddInclArgument args")
  case (Some q)
  obtain path scope rest' where q: "q = (path, scope, rest')" by (cases q)
  then have eq: "s' = ai_sc path scope s" "rest = rest'" using r Some by (auto simp: addIncl_step_def)
  have "suffix (path # rest) args"
    using Some scAddIncl_scan_suffix unfolding scAddInclArgument_def q eq by blast
  then show ?thesis using ai_adds_ops(1) eq(1) by (auto intro: ai_round_intros suffix_Cons_shorter)
next
  case None
  obtain a args1 where args: "args = a # args1" using ne by (cases args) auto
  have shorter: "ai_round s args1 s' rest \<Longrightarrow> ?thesis"
    using ai_round_intros(3) [of s args1 s' rest args] suffix_length_le [of rest args1] suffix_Cons_shorter [of _ rest args1]
    by (fastforce simp: args ai_round_def suffix_ConsI)
  consider "a = kw ''ONE_LEVEL''" | "a = kw ''FOR''" "a \<noteq> kw ''ONE_LEVEL''"
    | "a = kw ''GLOBAL''" "a \<noteq> kw ''FOR''" "a \<noteq> kw ''ONE_LEVEL''"
    | "a \<noteq> kw ''GLOBAL''" "a \<noteq> kw ''FOR''" "a \<noteq> kw ''ONE_LEVEL''" by blast
  then show ?thesis
  proof cases
    case 1
    then have "ai_round s args1 s' rest"
      using r None ai_adds_ops(2) unfolding addIncl_step_def args by (auto split: list.splits intro: ai_round_intros)
    then show ?thesis by (rule shorter)
  next
    case 2
    then have "addIncl_for s args1 = (s', rest)" using r None unfolding addIncl_step_def args by (simp only: option.case list.sel Let_def if_True if_False simp_thms)
    then show ?thesis by (intro shorter addIncl_for_round)
  next
    case 3
    then have "addIncl_global s args1 = (s', rest)" using r None unfolding addIncl_step_def args by (simp only: option.case list.sel Let_def if_True if_False simp_thms)
    then show ?thesis by (intro shorter addIncl_global_round)
  next
    case 4
    then have "s' = ai_own a s" "rest = args1"
      using r None unfolding addIncl_step_def args by (simp_all only: option.case list.sel Let_def if_False prod.inject)
    then show ?thesis using ai_adds_ops(4) by (auto simp: args intro: ai_round_intros)
  qed
qed

function addIncl_loop :: "AddInclStmt \<Rightarrow> ANY list \<Rightarrow> AddInclStmt" where
  "addIncl_loop s args =
     (if args = [] then s else case addIncl_step s args of (s', rest) \<Rightarrow> addIncl_loop s' rest)"
  by pat_completeness auto
termination
  by (relation "measure (length \<circ> snd)") (simp_all, metis addIncl_step_round snd_conv)

declare addIncl_loop.simps [simp del]

definition splitAddInclPaths :: "ANY list \<Rightarrow> AddInclStmt" where
  "splitAddInclPaths args = addIncl_loop newAddIncl args"

lemma addIncl_loop_wf: "ai_wf s \<Longrightarrow> ai_wf (addIncl_loop s args)"
proof (induction s args rule: addIncl_loop.induct)
  case (1 s args)
  show ?case
  proof (cases "args = []")
    case False
    obtain s' rest where st: "addIncl_step s args = (s', rest)" by (cases "addIncl_step s args")
    then have "ai_wf s'" using addIncl_step_round [OF st False] 1(2) by (auto simp: ai_round_def ai_adds_def)
    then show ?thesis using 1(1) [OF False st [symmetric]] st False by (simp add: addIncl_loop.simps [of s args])
  qed (simp add: addIncl_loop.simps 1)
qed

lemma addIncl_loop_paths: "ai_paths (addIncl_loop s args) \<subseteq># ai_paths s + mset args"
proof (induction s args rule: addIncl_loop.induct)
  case (1 s args)
  show ?case
  proof (cases "args = []")
    case False
    obtain s' rest where st: "addIncl_step s args = (s', rest)" by (cases "addIncl_step s args")
    have "ai_paths s' + mset rest \<subseteq># ai_paths s + mset args"
      using addIncl_step_round [OF st False] by (auto simp: ai_round_def ai_adds_def suffix_def union_assoc union_lcomm)
    moreover have "ai_paths (addIncl_loop s' rest) \<subseteq># ai_paths s' + mset rest" by (rule 1 [OF False st [symmetric]])
    ultimately show ?thesis using st False by (simp add: addIncl_loop.simps [of s args] subset_mset.order_trans [of _ _ "ai_paths s + mset args"])
  qed (simp add: addIncl_loop.simps)
qed

text \<open>
  C20: splitAddInclPaths returns on every argument list and its fields fit together. AllPaths is
  GlobalPaths and OwnPaths merged in their order, UserGlobalPaths is GlobalPaths and OneLevelPaths
  merged, ProtoAllPaths is ProtoPaths and ProtoGlobalPaths merged; the OneLevel paths are among the
  Own paths and the global paths of cython, flatc, swig and of the schema compiler among their
  paths, in order. No path is invented and none is used twice: the paths of all classes together
  are distinct occurrences in the arguments.
\<close>

theorem splitAddInclPaths_fields:
  "let s = splitAddInclPaths args
   in ai_AllPaths s \<in> shuffles (ai_GlobalPaths s) (ai_OwnPaths s)
     \<and> ai_UserGlobalPaths s \<in> shuffles (ai_GlobalPaths s) (ai_OneLevelPaths s)
     \<and> ai_ProtoAllPaths s \<in> shuffles (ai_ProtoPaths s) (ai_ProtoGlobalPaths s)
     \<and> subseq (ai_OneLevelPaths s) (ai_OwnPaths s)
     \<and> subseq (ai_CythonGlobalPaths s) (ai_CythonPaths s) \<and> subseq (ai_FlatcGlobalPaths s) (ai_FlatcPaths s)
     \<and> subseq (ai_SwigGlobalPaths s) (ai_SwigPaths s) \<and> subseq (ai_ScGlobalPaths s) (ai_ScExportPaths s)
     \<and> subseq (ai_ScExportPaths s) (ai_ScPaths s)
     \<and> mset (ai_AllPaths s) + mset (ai_CythonPaths s) + mset (ai_AsmPaths s) + mset (ai_ProtoAllPaths s)
         + mset (ai_FlatcPaths s) + mset (ai_SwigPaths s) + mset (ai_ScPaths s) \<subseteq># mset args"
proof -
  have "ai_wf (splitAddInclPaths args)"
    unfolding splitAddInclPaths_def by (rule addIncl_loop_wf) (simp add: ai_wf_def newAddIncl_def)
  moreover have "ai_paths (splitAddInclPaths args) \<subseteq># mset args"
    using addIncl_loop_paths [of newAddIncl args] by (simp add: splitAddInclPaths_def ai_paths_def newAddIncl_def)
  ultimately show ?thesis by (simp only: Let_def ai_wf_def ai_paths_def simp_thms)
qed

section \<open>Building statements\<close>

text \<open>
  \<^verbatim>\<open>internTokSTR\<close> indexes the table \<^verbatim>\<open>tokBySTR\<close> without a bounds check; it is called for the names of
  modules and external resources only, which \<open>module_names_known\<close> below shows to be in the table.
\<close>

definition internTokSTR :: "string \<Rightarrow> TOK" where
  "internTokSTR s = internTokMaybeSTR s"

fun decimal :: "nat \<Rightarrow> string" where
  "decimal n = (if n < 10 then [char_of (48 + n)] else decimal (n div 10) @ [char_of (48 + n mod 10)])"

declare decimal.simps [simp del]

definition index_at :: "ANY list \<Rightarrow> nat \<Rightarrow> ANY result" where
  "index_at args i = (if i < length args then Inr (args ! i) else Inl IndexPanic)"

type_synonym fail_fn = "string \<Rightarrow> string list \<Rightarrow> go_error"

definition enumStmt :: "fail_fn \<Rightarrow> string \<Rightarrow> string \<Rightarrow> ANY list \<Rightarrow> nat \<Rightarrow> Stmt result" where
  "enumStmt fail macro variant args line =
     (if length args \<noteq> 1
      then Inl (fail (macro @ '' expects exactly 1 argument (header path), got %d'') [decimal (length args)])
      else rbind (index_at args 0) (\<lambda>h. Inr (GenerateEnumSerializationStmt macro h variant line)))"

definition buildStmtForID :: "fail_fn \<Rightarrow> string \<Rightarrow> ANY list \<Rightarrow> nat \<Rightarrow> Stmt result" where
  "buildStmtForID fail name args line =
     (case stmtKindOf name of
        stmtKindProgram \<Rightarrow> Inr (ModuleStmt (internTokSTR name) False args line)
      | stmtKindProtoSchema \<Rightarrow> Inr (ModuleStmt (Some ''PROTO_LIBRARY'') True args line)
      | stmtKindDeclareExternalResource \<Rightarrow> Inr (DeclareResourceStmt (internTokSTR name) args line)
      | stmtKindPeerdir \<Rightarrow> Inr (PeerdirStmt args line)
      | stmtKindSrcs \<Rightarrow> Inr (SrcsStmt args line)
      | stmtKindSet \<Rightarrow>
          if args = [] then Inl (fail ''SET expects at least 1 argument (name), got %d'' [decimal (length args)])
          else let value = (if length args > 1 then joinAnysSTR (tl args) '' '' else [])
               in rbind (index_at args 0) (\<lambda>a.
                    Inr (SetStmt (ANY_string a) (ANY_str a) value (setValuePlain value) [] line))
      | stmtKindEnd \<Rightarrow> Inr (EndStmt line)
      | stmtKindJoinSrcs \<Rightarrow>
          if args = [] then Inl (fail ''JOIN_SRCS expects at least one argument (the output name)'' [])
          else rbind (index_at args 0) (\<lambda>a. Inr (JoinSrcsStmt (ANY_string a) (tl args) line))
      | stmtKindAddincl \<Rightarrow> Inr (SAddIncl (splitAddInclPaths args) line)
      | stmtKindCflags \<Rightarrow> Inr (CFlagsStmt args line (name = ''GLOBAL_CFLAGS''))
      | stmtKindCxxflags \<Rightarrow> Inr (CXXFlagsStmt args line)
      | stmtKindConlyflags \<Rightarrow> Inr (CONLYFlagsStmt args line)
      | stmtKindLdflags \<Rightarrow> Inr (LDFlagsStmt args line)
      | stmtKindSrcdir \<Rightarrow> Inr (SrcDirStmt args line)
      | stmtKindGlobalSrcs \<Rightarrow> Inr (GlobalSrcsStmt args line)
      | stmtKindGenerateEnumSerialization \<Rightarrow> enumStmt fail ''GENERATE_ENUM_SERIALIZATION'' ''plain'' args line
      | stmtKindAliceGenerateNoexceptEnumSerialization \<Rightarrow>
          enumStmt fail ''ALICE_GENERATE_NOEXCEPT_ENUM_SERIALIZATION'' ''noexcept_header'' args line
      | stmtKindGenerateEnumSerializationWithHeader \<Rightarrow>
          enumStmt fail ''GENERATE_ENUM_SERIALIZATION_WITH_HEADER'' ''with_header'' args line
      | stmtKindGenerateEnumSerializationNoutf \<Rightarrow>
          enumStmt fail ''GENERATE_ENUM_SERIALIZATION_NOUTF'' ''noutf'' args line
      | stmtKindDefault \<Rightarrow>
          let varName = (if length args \<ge> 1 then ANY_string (args ! 0) else []);
              value = (if length args \<ge> 2 then joinAnysSTR (tl args) '' '' else [])
          in Inr (DefaultVarStmt varName varName value line)
      | stmtKindConfigureFile \<Rightarrow>
          if length args \<noteq> 2
          then Inl (fail ''CONFIGURE_FILE expects exactly 2 arguments (src dst), got %d'' [decimal (length args)])
          else rbind (index_at args 0) (\<lambda>a. rbind (index_at args 1) (\<lambda>b.
                 Inr (ConfigureFileStmt (ANY_string a) (ANY_string b) line)))
      | stmtKindCreateBuildinfoFor \<Rightarrow>
          if length args \<noteq> 1
          then Inl (fail ''CREATE_BUILDINFO_FOR expects exactly 1 argument, got %d'' [decimal (length args)])
          else rbind (index_at args 0) (\<lambda>a. Inr (CreateBuildInfoStmt (ANY_string a) line))
      | stmtKindRunAntlr4Cpp \<Rightarrow>
          if args = [] then Inl (fail ''RUN_ANTLR4_CPP expects at least 1 argument (grammar)'' [])
          else rbind (parseRunAntlr4Cpp args) (\<lambda>s. Inr (SRunAntlr4Cpp s line))
      | stmtKindRunAntlr4CppSplit \<Rightarrow>
          if length args < 2 then Inl (fail ''RUN_ANTLR4_CPP_SPLIT expects at least 2 arguments (lexer parser)'' [])
          else rbind (parseRunAntlr4CppSplit args) (\<lambda>s. Inr (SRunAntlr4CppSplit s line))
      | stmtKindRunAntlr4Python2 \<Rightarrow>
          if args = [] then Inl (fail ''%s expects a grammar'' [name])
          else Inr (RunAntlr4PythonStmt args (TrimPrefix name ''RUN_ANTLR4_PYTHON'') line)
      | stmtKindRunAntlr \<Rightarrow>
          if args = [] then Inl (fail ''%s expects at least 1 argument'' [name])
          else Inr (SRunAntlr (parseRunAntlr name args) line)
      | stmtKindRunProgram \<Rightarrow>
          if args = [] then Inl (fail ''%s expects at least 1 argument (tool path)'' [name])
          else rbind (parseRunProgram args) (\<lambda>s. Inr (SRunProgram s line))
      | stmtKindRunPython3 \<Rightarrow>
          if args = [] then Inl (fail ''RUN_PYTHON3 expects at least 1 argument (script path)'' [])
          else rbind (parseRunPython args) (\<lambda>s. Inr (SRunPython s line))
      | stmtKindRunLua \<Rightarrow>
          if args = [] then Inl (fail ''RUN_LUA expects at least 1 argument (script path)'' [])
          else rbind (parseRunPython args) (\<lambda>s. Inr (SRunPython (s\<lparr>py_Lua := True\<rparr>) line))
      | stmtKindSplitCodegen \<Rightarrow>
          if length args < 2
          then Inl (fail ''SPLIT_CODEGEN expects at least 2 arguments (tool prefix), got %d'' [decimal (length args)])
          else Inr (SSplitCodegen (parseSplitCodegen args) line)
      | stmtKindBaseCodegen \<Rightarrow>
          if length args < 2
          then Inl (fail ''BASE_CODEGEN expects at least 2 arguments (tool prefix), got %d'' [decimal (length args)])
          else rbind (parseBaseCodegen args) (\<lambda>s. Inr (SBaseCodegen s line))
      | stmtKindStructCodegen \<Rightarrow>
          if length args \<noteq> 1
          then Inl (fail ''STRUCT_CODEGEN expects exactly 1 argument (prefix), got %d'' [decimal (length args)])
          else rbind (index_at args 0) (\<lambda>a. Inr (SBaseCodegen (parseStructCodegen a) line))
      | stmtKindFromSandbox \<Rightarrow>
          if args = [] then Inl (fail ''FROM_SANDBOX expects at least 1 argument (resource id)'' [])
          else Inr (SFromSandbox (parseFromSandbox args) line)
      | stmtKindResource \<Rightarrow> Inr (ResourceStmt args line)
      | stmtKindResourceFiles \<Rightarrow> Inr (ResourceFilesStmt args line)
      | stmtKindAllResourceFiles \<Rightarrow>
          if args = [] then Inl (fail ''ALL_RESOURCE_FILES expects at least 1 argument (the extension)'' [])
          else Inr (AllResourceFilesStmt args False line)
      | stmtKindAllResourceFilesFromDirs \<Rightarrow> Inr (AllResourceFilesStmt args True line)
      | stmtKindNone \<Rightarrow> Inr (UnknownStmt (internTokMaybeSTR name) name args [] [] line False False))"

definition capturesLexicalArgs :: "string \<Rightarrow> bool" where
  "capturesLexicalArgs name \<longleftrightarrow> name \<in> set [''RUN_JAVA_PROGRAM'', ''SET'', ''SET_APPEND'', ''NO_CHECK_IMPORTS'']"

fun cppEnums_loop :: "nat \<Rightarrow> ANY list \<Rightarrow> Stmt list" where
  "cppEnums_loop line [] = []"
| "cppEnums_loop line (a # args) =
     (if a = kw ''NAMESPACE'' then (case args of [] \<Rightarrow> [] | _ # args' \<Rightarrow> cppEnums_loop line args')
      else GenerateEnumSerializationStmt ''GENERATE_ENUM_SERIALIZATION_WITH_HEADER'' a ''with_header'' line
        # cppEnums_loop line args)"

text \<open>The lexical arguments are stored in a \<^verbatim>\<open>SetStmt\<close> as one string, in an \<^verbatim>\<open>UnknownStmt\<close> as they are.\<close>

definition attachLexical :: "ANY list \<Rightarrow> Stmt \<Rightarrow> Stmt result" where
  "attachLexical lexical stmt =
     (case stmt of
        SetStmt n env v plain _ line \<Rightarrow> Inr (SetStmt n env v plain (join_strings '' '' (map ANY_string (tl lexical))) line)
      | UnknownStmt n raw args _ body line internal expanded \<Rightarrow>
          Inr (UnknownStmt n raw args lexical body line internal expanded)
      | _ \<Rightarrow> Inl TypePanic)"

definition appendMacroCallStmts ::
  "Stmt list \<Rightarrow> fail_fn \<Rightarrow> string \<Rightarrow> ANY list \<Rightarrow> ANY list \<Rightarrow> nat \<Rightarrow> Stmt list result" where
  "appendMacroCallStmts out fail name args lexical line =
     (if name = ''CPP_ENUMS_SERIALIZATION'' then Inr (out @ cppEnums_loop line args)
      else rbind (buildStmtForID fail name args line) (\<lambda>stmt.
             rbind (if lexical \<noteq> [] \<and> capturesLexicalArgs name then attachLexical lexical stmt else Inr stmt) (\<lambda>stmt.
               Inr (out @ [stmt]))))"

section \<open>Every call is built or rejected for its arity\<close>

fun arity_ok :: "stmtKind \<Rightarrow> nat \<Rightarrow> bool" where
  "arity_ok stmtKindSet n = (n \<ge> 1)"
| "arity_ok stmtKindJoinSrcs n = (n \<ge> 1)"
| "arity_ok stmtKindGenerateEnumSerialization n = (n = 1)"
| "arity_ok stmtKindAliceGenerateNoexceptEnumSerialization n = (n = 1)"
| "arity_ok stmtKindGenerateEnumSerializationWithHeader n = (n = 1)"
| "arity_ok stmtKindGenerateEnumSerializationNoutf n = (n = 1)"
| "arity_ok stmtKindConfigureFile n = (n = 2)"
| "arity_ok stmtKindCreateBuildinfoFor n = (n = 1)"
| "arity_ok stmtKindRunAntlr4Cpp n = (n \<ge> 1)"
| "arity_ok stmtKindRunAntlr4CppSplit n = (n \<ge> 2)"
| "arity_ok stmtKindRunAntlr4Python2 n = (n \<ge> 1)"
| "arity_ok stmtKindRunAntlr n = (n \<ge> 1)"
| "arity_ok stmtKindRunProgram n = (n \<ge> 1)"
| "arity_ok stmtKindRunPython3 n = (n \<ge> 1)"
| "arity_ok stmtKindRunLua n = (n \<ge> 1)"
| "arity_ok stmtKindSplitCodegen n = (n \<ge> 2)"
| "arity_ok stmtKindBaseCodegen n = (n \<ge> 2)"
| "arity_ok stmtKindStructCodegen n = (n = 1)"
| "arity_ok stmtKindFromSandbox n = (n \<ge> 1)"
| "arity_ok stmtKindAllResourceFiles n = (n \<ge> 1)"
| "arity_ok _ n = True"

text \<open>\<open>built ok fail r\<close>: the result is a statement if the arity is right and what \<open>fail\<close> throws if not.\<close>

definition built :: "bool \<Rightarrow> fail_fn \<Rightarrow> 'a result \<Rightarrow> bool" where
  "built ok fail r \<longleftrightarrow> (if ok then (\<exists>s. r = Inr s) else (\<exists>fmt a. r = Inl (fail fmt a)))"

lemma parse_Inr:
  "args \<noteq> [] \<Longrightarrow> \<exists>s. parseRunAntlr4Cpp args = Inr s"
  "length args \<ge> 2 \<Longrightarrow> \<exists>s. parseRunAntlr4CppSplit args = Inr s"
  "args \<noteq> [] \<Longrightarrow> \<exists>s. parseRunProgram args = Inr s"
  "args \<noteq> [] \<Longrightarrow> \<exists>s. parseRunPython args = Inr s"
  by (auto simp: parseRunAntlr4Cpp_def parseRunAntlr4CppSplit_def parseRunProgram_sections parseRunPython_sections
      Suc_le_length_iff numeral_2_eq_2 split: list.splits)

lemma rbind_Inr_total: "\<exists>s. m = Inr s \<Longrightarrow> \<exists>s. rbind m (\<lambda>x. Inr (f x)) = Inr s"
  by auto

lemma buildStmtForID_built: "built (arity_ok (stmtKindOf name) (length args)) fail (buildStmtForID fail name args line)"
proof -
  have one: "length args \<ge> 1 \<longleftrightarrow> args \<noteq> []" by (cases args) auto
  have idx: "i < length args \<Longrightarrow> index_at args i = Inr (args ! i)" for i by (simp add: index_at_def)
  note total = rbind_Inr_total [OF parse_Inr(1)] rbind_Inr_total [OF parse_Inr(2)]
    rbind_Inr_total [OF parse_Inr(3)] rbind_Inr_total [OF parse_Inr(4)]
  show ?thesis
    unfolding built_def buildStmtForID_def
    by (cases "stmtKindOf name"; cases "arity_ok (stmtKindOf name) (length args)")
      (simp_all add: one [unfolded One_nat_def] one idx total enumStmt_def parseBaseCodegen_def Let_def not_less, auto)
qed

lemma captured_kinds:
  "capturesLexicalArgs name \<Longrightarrow> stmtKindOf name = (if name = ''SET'' then stmtKindSet else stmtKindNone)"
proof -
  have "\<forall>n \<in> set [''RUN_JAVA_PROGRAM'', ''SET_APPEND'', ''NO_CHECK_IMPORTS'']. stmtKindOf n = stmtKindNone"
    by (simp add: stmtKindOf_def stmtKindNames_def)
  moreover have "stmtKindOf ''SET'' = stmtKindSet" by (simp add: stmtKindOf_def stmtKindNames_def)
  ultimately show "capturesLexicalArgs name \<Longrightarrow> ?thesis" by (auto simp: capturesLexicalArgs_def)
qed

lemma attachLexical_total:
  "capturesLexicalArgs name \<Longrightarrow> buildStmtForID fail name args line = Inr stmt \<Longrightarrow> \<exists>stmt'. attachLexical lexical stmt = Inr stmt'"
  by (cases "name = ''SET''") (auto simp: captured_kinds buildStmtForID_def attachLexical_def rbind_Inr Let_def split: if_splits)

text \<open>
  C19: A macro call is turned into statements or rejected for the number of its arguments, and
  nothing else happens: no index of buildStmtForID and no type assertion of appendMacroCallStmts
  panics, on any name and any arguments. The call is rejected, with the caller's own failure, exactly
  when the number of arguments does not fit the kind of the macro; otherwise the statements already
  parsed are kept and one statement follows them.
\<close>

theorem appendMacroCallStmts_total:
  assumes "name \<noteq> ''CPP_ENUMS_SERIALIZATION''"
  shows "if arity_ok (stmtKindOf name) (length args)
    then \<exists>stmt. appendMacroCallStmts out fail name args lexical line = Inr (out @ [stmt])
    else \<exists>fmt a. appendMacroCallStmts out fail name args lexical line = Inl (fail fmt a)"
proof (cases "arity_ok (stmtKindOf name) (length args)")
  case True
  then obtain stmt where b: "buildStmtForID fail name args line = Inr stmt"
    using buildStmtForID_built [of name args fail line] by (auto simp: built_def)
  show ?thesis
    using assms True b attachLexical_total [OF _ b, of lexical] by (auto simp: appendMacroCallStmts_def)
next
  case False
  then obtain fmt a where "buildStmtForID fail name args line = Inl (fail fmt a)"
    using buildStmtForID_built [of name args fail line] by (auto simp: built_def)
  then have "appendMacroCallStmts out fail name args lexical line = Inl (fail fmt a)"
    using assms by (simp add: appendMacroCallStmts_def)
  then show ?thesis using False by auto
qed

theorem appendMacroCallStmts_total_witness:
  "\<exists>fmt a. appendMacroCallStmts [] Thrown ''CONFIGURE_FILE'' [StrANY ''a.in''] [] 7 = Inl (Thrown fmt a)"
proof -
  have "stmtKindOf ''CONFIGURE_FILE'' = stmtKindConfigureFile" by (simp add: stmtKindOf_def stmtKindNames_def)
  then show ?thesis
    using appendMacroCallStmts_total [of "''CONFIGURE_FILE''" "[StrANY ''a.in'']" "[]" Thrown "[]" 7] by simp
qed

subsection \<open>The names of modules are known\<close>

lemma fold_kind:
  "fold (\<lambda>(kind, names) k. if name \<in> set names then kind else k) table k0 = k
   \<Longrightarrow> k = k0 \<or> (\<exists>names. (k, names) \<in> set table \<and> name \<in> set names)"
proof (induction table arbitrary: k0)
  case (Cons p table)
  obtain kind names where p: "p = (kind, names)" by (cases p)
  have "k = (if name \<in> set names then kind else k0) \<or> (\<exists>names. (k, names) \<in> set table \<and> name \<in> set names)"
    using Cons.prems by (intro Cons.IH) (simp add: p)
  then show ?case using p by (auto split: if_splits)
qed simp

lemma stmtKindOf_listed:
  "stmtKindOf name = k \<Longrightarrow> k \<noteq> stmtKindNone \<Longrightarrow> \<exists>names. (k, names) \<in> set stmtKindNames \<and> name \<in> set names"
  using fold_kind [of name stmtKindNames stmtKindNone k] unfolding stmtKindOf_def by blast

lemma module_names_known:
  "list_all (\<lambda>(k, names). k = stmtKindProgram \<or> k = stmtKindDeclareExternalResource \<longrightarrow> set names \<subseteq> set tokName) stmtKindNames"
  unfolding stmtKindNames_def list.pred_inject prod.case
  apply (intro conjI TrueI impI)
  apply (simp_all only: stmtKind.distinct simp_thms list.pred_inject)
  apply (simp_all only: tokName_def list.set insert_subset insert_iff simp_thms empty_subsetI)
  done

text \<open>
  Every macro that opens a module or declares an external resource is a known macro, so that the
  unchecked table access of internTokSTR yields its token and never the invalid one: the statement
  built from such a call carries the name of the macro.
\<close>

theorem modules_are_known:
  assumes "stmtKindOf name = stmtKindProgram \<or> stmtKindOf name = stmtKindDeclareExternalResource"
  shows "buildStmtForID fail name args line
    = Inr (if stmtKindOf name = stmtKindProgram then ModuleStmt (Some name) False args line
           else DeclareResourceStmt (Some name) args line)"
proof -
  obtain names where n: "(stmtKindOf name, names) \<in> set stmtKindNames" "name \<in> set names"
    using stmtKindOf_listed [of name "stmtKindOf name"] assms by auto
  have "set names \<subseteq> set tokName" using module_names_known n(1) assms unfolding list_all_iff by blast
  then have "internTokSTR name = Some name" using n(2) by (auto simp: internTokSTR_def internTokMaybeSTR_def)
  then show ?thesis using assms by (auto simp: buildStmtForID_def)
qed

theorem modules_are_known_witness:
  "buildStmtForID Thrown ''PY3_LIBRARY'' [] 1 = Inr (ModuleStmt (Some ''PY3_LIBRARY'') False [] 1)"
proof -
  have "stmtKindOf ''PY3_LIBRARY'' = stmtKindProgram" by (simp add: stmtKindOf_def stmtKindNames_def)
  then show ?thesis using modules_are_known [of "''PY3_LIBRARY''" Thrown "[]" 1] by simp
qed

end
