(* ===== verification/Ay_Path.thy ===== *)
theory Ay_Path
  imports Ay_Cond "HOL-Library.Sublist"
begin

text \<open>
  Paths (\<^verbatim>\<open>fs_utils.go\<close>): relative paths are strings with \<^verbatim>\<open>/\<close> between their segments. \<open>path_Clean\<close>
  is \<^verbatim>\<open>path.Clean\<close> of the standard library, on the segments of the path. The functions of the source
  avoid it, and any allocation, where they can; the theorems relate their short cuts to it.
\<close>

section \<open>Cleaning, by segments\<close>

abbreviation segments :: "string \<Rightarrow> string list" where "segments p \<equiv> split_at (CHR ''/'') p"
abbreviation join_path :: "string list \<Rightarrow> string" where "join_path ss \<equiv> join_strings ''/'' ss"

fun clean_segs :: "bool \<Rightarrow> string list \<Rightarrow> string list \<Rightarrow> string list" where
  "clean_segs rooted out [] = out"
| "clean_segs rooted out (s # ss) =
     (if s = [] \<or> s = ''.'' then clean_segs rooted out ss
      else if s = ''..'' then
        (if out \<noteq> [] \<and> last out \<noteq> ''..'' then clean_segs rooted (butlast out) ss
         else if rooted then clean_segs rooted out ss
         else clean_segs rooted (out @ [s]) ss)
      else clean_segs rooted (out @ [s]) ss)"

definition path_Clean :: "string \<Rightarrow> string" where
  "path_Clean p =
     (if p = [] then ''.''
      else if hd p = CHR ''/'' then CHR ''/'' # join_path (clean_segs True [] (segments p))
      else let out = clean_segs False [] (segments p) in if out = [] then ''.'' else join_path out)"

section \<open>cleanRel\<close>

fun pathIsClean_loop :: "string \<Rightarrow> bool result" where
  "pathIsClean_loop [] = Inr True"
| "pathIsClean_loop (c # cs) =
     (if c \<noteq> CHR ''/'' then pathIsClean_loop cs
      else case cs of
             [] \<Rightarrow> Inl IndexPanic
           | d # ds \<Rightarrow>
               if d = CHR ''/'' then Inr False
               else if d = CHR ''.'' then
                 if ds = [] \<or> hd ds = CHR ''/'' then Inr False
                 else if hd ds = CHR ''.'' \<and> (tl ds = [] \<or> hd (tl ds) = CHR ''/'') then Inr False
                 else pathIsClean_loop cs
               else pathIsClean_loop cs)"

definition pathIsClean :: "string \<Rightarrow> bool result" where
  "pathIsClean p =
     (case p of
        [] \<Rightarrow> Inl IndexPanic
      | c # cs \<Rightarrow>
          if c = CHR ''/'' \<or> last p = CHR ''/'' then Inr False
          else if c = CHR ''.'' \<and> (cs = [] \<or> hd cs = CHR ''/'' \<or> hd cs = CHR ''.'' \<and> (tl cs = [] \<or> hd (tl cs) = CHR ''/''))
          then Inr False
          else pathIsClean_loop p)"

definition cleanRel :: "string \<Rightarrow> string result" where
  "cleanRel rel =
     (if rel = [] \<or> rel = ''.'' then Inr []
      else rbind (pathIsClean rel) (\<lambda>clean.
        if clean then Inr rel
        else let rel = path_Clean rel
             in if rel = ''.'' \<or> rel = ''/'' then Inr []
                else Inr (TrimSuffix (TrimPrefix rel ''/'') ''/'')))"

section \<open>Splitting and joining\<close>

definition last_slash :: "string \<Rightarrow> nat option" where
  "last_slash p = (if CHR ''/'' \<in> set p then Some (length p - 1 - length (takeWhile (\<lambda>c. c \<noteq> CHR ''/'') (rev p))) else None)"

definition splitDirName :: "string \<Rightarrow> string \<times> string" where
  "splitDirName rel = (case last_slash rel of None \<Rightarrow> ([], rel) | Some i \<Rightarrow> (take i rel, drop (i + 1) rel))"

definition pathDir :: "string \<Rightarrow> string" where
  "pathDir p = (case last_slash p of None \<Rightarrow> [] | Some i \<Rightarrow> take i p)"

definition baseName :: "string \<Rightarrow> string" where
  "baseName s = (case last_slash s of Some i \<Rightarrow> drop (i + 1) s | None \<Rightarrow> s)"

definition firstComponent :: "string \<Rightarrow> string \<times> bool" where
  "firstComponent p =
     (if CHR ''/'' \<in> set p then (takeWhile (\<lambda>c. c \<noteq> CHR ''/'') p, True) else (p, False))"

definition joinRel :: "string \<Rightarrow> string \<Rightarrow> string" where
  "joinRel pfx sfx = (if pfx = [] then sfx else if sfx = [] then pfx else pfx @ ''/'' @ sfx)"

definition joinRelInto :: "string \<Rightarrow> string \<Rightarrow> string \<Rightarrow> string" where
  "joinRelInto dst a b =
     (let dst = (if a \<noteq> [] then dst @ a else dst);
          dst = (if a \<noteq> [] \<and> b \<noteq> [] then dst @ ''/'' else dst)
      in if b \<noteq> [] then dst @ b else dst)"

definition relUnderDir :: "string \<Rightarrow> string \<Rightarrow> bool" where
  "relUnderDir rel dir \<longleftrightarrow> length rel > length dir \<and> rel ! length dir = CHR ''/'' \<and> take (length dir) rel = dir"

definition trimModulePrefix :: "string \<Rightarrow> string \<Rightarrow> string" where
  "trimModulePrefix rel dir = (if relUnderDir rel dir then drop (length dir + 1) rel else rel)"

section \<open>Normalising and escaping\<close>

fun escapes_loop :: "nat \<Rightarrow> string list \<Rightarrow> bool" where
  "escapes_loop depth [] = False"
| "escapes_loop depth (s # ss) =
     (if s = [] \<or> s = ''.'' then escapes_loop depth ss
      else if s = ''..'' then (if depth = 0 then True else escapes_loop (depth - 1) ss)
      else escapes_loop (depth + 1) ss)"

definition pathEscapesRoot :: "string \<Rightarrow> bool" where
  "pathEscapesRoot p = escapes_loop 0 (segments p)"

text \<open>
  \<^verbatim>\<open>normaliseAppend\<close> works in place: \<open>out\<close> is the buffer, \<open>starts\<close> the used part of the array of the
  positions at which the segments in the buffer start. \<open>None\<close> is the result with \<^verbatim>\<open>false\<close>: the
  buffer has no room or there are more than 64 segments.
\<close>

fun normalise_loop :: "nat \<Rightarrow> nat \<Rightarrow> string \<Rightarrow> nat list \<Rightarrow> string list \<Rightarrow> string option" where
  "normalise_loop base room out starts [] = Some out"
| "normalise_loop base room out starts (seg # ss) =
     (if seg = [] \<or> seg = ''.'' then normalise_loop base room out starts ss
      else if seg = ''..'' then
        (if length starts > 0 then normalise_loop base room (take (last starts) out) (butlast starts) ss
         else normalise_loop base room out starts ss)
      else if length seg + 1 + (length out - base) > room \<or> length starts = 64 then None
      else normalise_loop base room ((if length out > base then out @ ''/'' else out) @ seg) (starts @ [length out]) ss)"

definition normaliseAppend :: "string \<Rightarrow> nat \<Rightarrow> string \<Rightarrow> string option" where
  "normaliseAppend out capacity p = normalise_loop (length out) (capacity - length out) out [] (segments p)"

fun normalise_slow_loop :: "string list \<Rightarrow> string list \<Rightarrow> string list" where
  "normalise_slow_loop out [] = out"
| "normalise_slow_loop out (seg # ss) =
     (if seg = [] \<or> seg = ''.'' then normalise_slow_loop out ss
      else if seg = ''..'' then normalise_slow_loop (if out \<noteq> [] then butlast out else out) ss
      else normalise_slow_loop (out @ [seg]) ss)"

definition normalisePathSlow :: "string \<Rightarrow> string" where
  "normalisePathSlow p = join_path (normalise_slow_loop [] (segments p))"

definition normalisePath :: "string \<Rightarrow> string" where
  "normalisePath p =
     (if \<not> contains p ''..'' \<and> \<not> contains p ''./'' \<and> \<not> contains p ''//'' then p
      else case normaliseAppend [] 256 p of Some out \<Rightarrow> out | None \<Rightarrow> normalisePathSlow p)"

section \<open>The short cuts of cleanRel\<close>

definition plain_seg :: "string \<Rightarrow> bool" where
  "plain_seg s \<longleftrightarrow> s \<noteq> [] \<and> s \<noteq> ''.'' \<and> s \<noteq> ''..''"

lemma segments_Cons_hd:
  "plain_seg (hd (segments (d # ds))) \<longleftrightarrow>
     \<not> (d = CHR ''/'' \<or> d = CHR ''.'' \<and> (ds = [] \<or> hd ds = CHR ''/'' \<or> hd ds = CHR ''.'' \<and> (tl ds = [] \<or> hd (tl ds) = CHR ''/'')))"
  by (cases ds; cases "tl ds") (auto simp: plain_seg_def)

lemma all_segments: "(\<forall>s \<in> set (segments p). P s) \<longleftrightarrow> P (hd (segments p)) \<and> (\<forall>s \<in> set (tl (segments p)). P s)"
  using split_at_ne [of "CHR ''/''" p] by (cases "segments p") auto

lemma pathIsClean_loop_spec:
  "p = [] \<or> last p \<noteq> CHR ''/'' \<Longrightarrow> pathIsClean_loop p = Inr (\<forall>s \<in> set (tl (segments p)). plain_seg s)"
proof (induction p)
  case (Cons c cs)
  have ih: "pathIsClean_loop cs = Inr (\<forall>s \<in> set (tl (segments cs)). plain_seg s)"
    using Cons by (auto split: if_splits)
  show ?case
  proof (cases "c = CHR ''/''")
    case True
    then obtain d ds where cs: "cs = d # ds" using Cons.prems by (cases cs) auto
    have "pathIsClean_loop (c # cs) = (if plain_seg (hd (segments cs)) then pathIsClean_loop cs else Inr False)"
      unfolding cs segments_Cons_hd using True by auto
    then show ?thesis using True by (simp add: ih all_segments [of cs])
  qed (simp add: ih)
qed simp

lemma last_slash_segment: "p \<noteq> [] \<Longrightarrow> last p = CHR ''/'' \<Longrightarrow> [] \<in> set (segments p)"
proof -
  have snoc: "segments (q @ ''/'') = segments q @ [[]]" for q by (induction q) simp_all
  assume "p \<noteq> []" "last p = CHR ''/''"
  then show ?thesis using snoc [of "butlast p"] append_butlast_last_id [of p] by simp
qed

lemma pathIsClean_spec:
  assumes "p \<noteq> []"
  shows "pathIsClean p = Inr (\<forall>s \<in> set (segments p). plain_seg s)"
proof -
  obtain c cs where p: "p = c # cs" using assms by (cases p) auto
  have gen: "\<not> L \<Longrightarrow> (if A \<or> L then F else if B then F else R) = (if \<not> (A \<or> B) then R else F)"
    for A B L and F R :: "bool result" by simp
  show ?thesis
  proof (cases "last p = CHR ''/''")
    case True
    then have "[] \<in> set (segments p)" by (rule last_slash_segment [OF assms])
    moreover have "\<not> plain_seg []" by (simp add: plain_seg_def)
    ultimately have "\<not> (\<forall>s \<in> set (segments p). plain_seg s)" by blast
    then show ?thesis using True by (simp add: p pathIsClean_def)
  next
    case False
    have "pathIsClean p = (if plain_seg (hd (segments p)) then pathIsClean_loop p else Inr False)"
      unfolding p segments_Cons_hd pathIsClean_def list.case using False unfolding p by (rule gen)
    then show ?thesis using False by (simp add: pathIsClean_loop_spec all_segments [of p])
  qed
qed

lemma clean_segs_plain: "(\<And>s. s \<in> set ss \<Longrightarrow> plain_seg s) \<Longrightarrow> clean_segs rooted out ss = out @ ss"
  by (induction ss arbitrary: out) (auto simp: plain_seg_def)

text \<open>A cleaned relative path: parent segments, then plain ones.\<close>

fun clean_shape :: "string list \<Rightarrow> bool" where
  "clean_shape [] = True"
| "clean_shape (s # ss) = (if s = ''..'' then clean_shape ss else \<forall>t \<in> set (s # ss). plain_seg t)"

lemma clean_shape_append_plain: "clean_shape out \<Longrightarrow> plain_seg s \<Longrightarrow> clean_shape (out @ [s])"
  by (induction out) (auto simp: plain_seg_def)

lemma clean_shape_butlast: "clean_shape out \<Longrightarrow> clean_shape (butlast out)"
  by (induction out) (auto dest: in_set_butlastD)

lemma clean_shape_dots: "clean_shape out \<Longrightarrow> out = [] \<or> last out = ''..'' \<Longrightarrow> clean_shape (out @ [''..''])"
proof (induction out)
  case (Cons s out)
  then show ?case by (cases "s = ''..''") (auto simp: plain_seg_def split: if_splits)
qed simp

lemma clean_segs_shape: "clean_shape out \<Longrightarrow> clean_shape (clean_segs False out ss)"
  by (induction ss arbitrary: out)
    (auto simp: clean_shape_butlast clean_shape_append_plain clean_shape_dots plain_seg_def)

lemma clean_segs_rooted: "\<forall>t \<in> set out. plain_seg t \<Longrightarrow> \<forall>t \<in> set (clean_segs True out ss). plain_seg t"
proof (induction ss arbitrary: out)
  case (Cons s ss)
  have bl: "\<forall>t \<in> set (butlast out). plain_seg t" using Cons.prems by (auto dest: in_set_butlastD)
  consider "s = [] \<or> s = ''.''" | "s = ''..''" | "plain_seg s" unfolding plain_seg_def by blast
  then show ?case
  proof cases
    case 2
    then show ?thesis using Cons.IH [OF Cons.prems] Cons.IH [OF bl] by simp
  next
    case 3
    then have "\<forall>t \<in> set (out @ [s]). plain_seg t" using Cons.prems by simp
    moreover have "clean_segs True out (s # ss) = clean_segs True (out @ [s]) ss" using 3 by (simp add: plain_seg_def)
    ultimately show ?thesis using Cons.IH [of "out @ [s]"] by (simp only:)
  qed (use Cons in auto)
qed simp

lemma clean_shape_plain: "\<forall>s \<in> set out. plain_seg s \<Longrightarrow> clean_shape out"
  by (cases out) (auto simp: plain_seg_def)

lemma clean_shape_fixed: "clean_shape ss \<Longrightarrow> set out \<subseteq> {''..''} \<Longrightarrow> clean_segs False out ss = out @ ss"
proof (induction ss arbitrary: out)
  case (Cons s ss)
  show ?case
  proof (cases "s = ''..''")
    case True
    have "out \<noteq> [] \<Longrightarrow> last out = ''..''" using Cons.prems(2) last_in_set by blast
    then show ?thesis using True Cons.prems Cons.IH [of "out @ [s]"] by auto
  next
    case False
    then have "\<forall>t \<in> set (s # ss). plain_seg t" using Cons.prems(1) by (simp only: clean_shape.simps if_False)
    then show ?thesis by (intro clean_segs_plain) blast
  qed
qed simp

lemma clean_segs_no_slash:
  "(\<And>s. s \<in> set out \<Longrightarrow> CHR ''/'' \<notin> set s \<and> s \<noteq> []) \<Longrightarrow> (\<And>s. s \<in> set ss \<Longrightarrow> CHR ''/'' \<notin> set s)
   \<Longrightarrow> s \<in> set (clean_segs rooted out ss) \<Longrightarrow> CHR ''/'' \<notin> set s \<and> s \<noteq> []"
proof (induction ss arbitrary: out)
  case (Cons t ss)
  have "\<And>s. s \<in> set (butlast out) \<Longrightarrow> CHR ''/'' \<notin> set s \<and> s \<noteq> []" using Cons.prems(1) by (auto dest: in_set_butlastD)
  then show ?case
    using Cons.IH [of out] Cons.IH [of "butlast out"] Cons.IH [of "out @ [t]"] Cons.prems by (fastforce split: if_splits)
qed simp

lemma cleaned_parts:
  "s \<in> set (clean_segs rooted [] (segments p)) \<Longrightarrow> CHR ''/'' \<notin> set s \<and> s \<noteq> []"
  by (rule clean_segs_no_slash [of "[]"]) (auto dest: split_at_parts)

lemma join_path_last:
  "ss \<noteq> [] \<Longrightarrow> (\<And>s. s \<in> set ss \<Longrightarrow> CHR ''/'' \<notin> set s \<and> s \<noteq> []) \<Longrightarrow>
   join_path ss \<noteq> [] \<and> hd (join_path ss) \<noteq> CHR ''/'' \<and> last (join_path ss) \<noteq> CHR ''/''"
proof (induction ss rule: induct_list012)
  case (2 s)
  then have "s \<noteq> []" "CHR ''/'' \<notin> set s" by auto
  then show ?case by (metis join_strings.simps(2) hd_in_set last_in_set)
next
  case (3 s t ts)
  have s: "s \<noteq> []" "CHR ''/'' \<notin> set s" using 3(4) by auto
  have "join_path (t # ts) \<noteq> [] \<and> last (join_path (t # ts)) \<noteq> CHR ''/''" using 3(2) 3(4) by simp
  moreover have "hd s \<noteq> CHR ''/''" using s hd_in_set [of s] by metis
  ultimately show ?case using s by simp
qed simp

lemma TrimSuffix_keep: "s = [] \<or> last s \<noteq> c \<Longrightarrow> TrimSuffix s [c] = s"
  by (cases s rule: rev_cases) (simp_all add: TrimSuffix_def)

lemma TrimPrefix_slash: "TrimPrefix (c # s) [c] = s" "s = [] \<or> hd s \<noteq> c \<Longrightarrow> TrimPrefix s [c] = s"
  by (cases s; auto simp: TrimPrefix_def)+

definition is_rooted :: "string \<Rightarrow> bool" where
  "is_rooted p \<longleftrightarrow> p \<noteq> [] \<and> hd p = CHR ''/''"

lemma trim_clean:
  "(let r = path_Clean p in if r = ''.'' \<or> r = ''/'' then [] else TrimSuffix (TrimPrefix r ''/'') ''/'')
   = join_path (clean_segs (is_rooted p) [] (segments p))"
proof -
  define out where "out = clean_segs (is_rooted p) [] (segments p)"
  have parts: "\<And>s. s \<in> set out \<Longrightarrow> CHR ''/'' \<notin> set s \<and> s \<noteq> []" unfolding out_def by (rule cleaned_parts)
  have nodot: "join_path out \<noteq> ''.''"
  proof
    assume "join_path out = ''.''"
    then have "out = [''.'']" using split_join [of out "CHR ''/''"] parts by (cases "out = []") auto
    then show False
      using clean_segs_shape [of "[]" "segments p"] clean_segs_rooted [of "[]" "segments p"]
      by (cases "is_rooted p") (auto simp: out_def plain_seg_def)
  qed
  have ends: "out \<noteq> [] \<Longrightarrow> join_path out \<noteq> [] \<and> hd (join_path out) \<noteq> CHR ''/'' \<and> last (join_path out) \<noteq> CHR ''/''"
    using join_path_last parts by blast
  have keep: "TrimSuffix (join_path out) ''/'' = join_path out" "TrimPrefix (join_path out) ''/'' = join_path out"
    using ends by (cases "out = []"; auto intro!: TrimSuffix_keep TrimPrefix_slash(2))+
  show ?thesis
  proof (cases "is_rooted p")
    case True
    then have "path_Clean p = CHR ''/'' # join_path out" by (simp add: path_Clean_def is_rooted_def out_def)
    then show ?thesis using keep ends by (cases "out = []") (auto simp: TrimPrefix_slash(1) out_def [symmetric])
  next
    case False
    then have "path_Clean p = (if out = [] then ''.'' else join_path out)"
      by (cases "p = []") (auto simp: path_Clean_def is_rooted_def out_def Let_def)
    moreover have "join_path out \<noteq> ''/''" using ends by (cases "out = []") auto
    ultimately show ?thesis using keep nodot by (auto simp: out_def [symmetric])
  qed
qed

lemma cleanRel_segments: "cleanRel p = Inr (join_path (clean_segs (is_rooted p) [] (segments p)))"
proof (cases "p = [] \<or> p = ''.''")
  case True
  then show ?thesis by (auto simp: cleanRel_def)
next
  case ne: False
  note spec = pathIsClean_spec [of p]
  show ?thesis
  proof (cases "\<forall>s \<in> set (segments p). plain_seg s")
    case True
    then have "clean_segs (is_rooted p) [] (segments p) = segments p"
      using clean_segs_plain [of "segments p" _ "[]"] by simp
    then show ?thesis using ne spec True by (simp add: cleanRel_def)
  next
    case False
    then have "pathIsClean p = Inr False" using ne spec by simp
    then have "cleanRel p = Inr (let r = path_Clean p in if r = ''.'' \<or> r = ''/'' then [] else TrimSuffix (TrimPrefix r ''/'') ''/'')"
      using ne by (simp add: cleanRel_def Let_def)
    then show ?thesis by (simp only: trim_clean)
  qed
qed

text \<open>
  C26: cleanRel never panics and computes path.Clean with the leading slash taken off: whether it
  skips path.Clean, because pathIsClean found nothing to clean, or not, the result is the path of the
  segments that remain when empty and dot segments are dropped and each parent segment takes its
  predecessor with it. Its result is clean: cleaning it again changes nothing.
\<close>

theorem cleanRel_correct:
  "cleanRel p = Inr (join_path (clean_segs (is_rooted p) [] (segments p)))
   \<and> cleanRel p = Inr (let r = path_Clean p in if r = ''.'' \<or> r = ''/'' then [] else TrimSuffix (TrimPrefix r ''/'') ''/'')
   \<and> rbind (cleanRel p) cleanRel = cleanRel p"
proof -
  define out where "out = clean_segs (is_rooted p) [] (segments p)"
  have parts: "\<And>s. s \<in> set out \<Longrightarrow> CHR ''/'' \<notin> set s \<and> s \<noteq> []" unfolding out_def by (rule cleaned_parts)
  have shape: "clean_shape out"
    using clean_segs_shape [of "[]" "segments p"] clean_shape_plain clean_segs_rooted [of "[]" "segments p"]
    by (cases "is_rooted p") (simp_all add: out_def)
  have "cleanRel (join_path out) = Inr (join_path out)"
  proof (cases "out = []")
    case True
    then show ?thesis by (simp add: cleanRel_def)
  next
    case False
    then have "\<not> is_rooted (join_path out)" using join_path_last [of out] parts by (auto simp: is_rooted_def)
    then show ?thesis
      using False split_join [of out "CHR ''/''"] parts clean_shape_fixed [OF shape, of "[]"] by (simp add: cleanRel_segments)
  qed
  then show ?thesis using cleanRel_segments [of p] trim_clean [of p] by (simp add: out_def)
qed

section \<open>Escaping paths\<close>

lemma dots_stay: "''..'' \<in> set out \<Longrightarrow> ''..'' \<in> set (clean_segs False out ss)"
proof (induction ss arbitrary: out)
  case (Cons s ss)
  have "out \<noteq> [] \<and> last out \<noteq> ''..'' \<Longrightarrow> ''..'' \<in> set (butlast out)"
    using Cons.prems append_butlast_last_id [of out] by (metis Un_iff empty_iff insert_iff list.set set_append)
  then show ?case
    using Cons.IH [of out] Cons.IH [of "butlast out"] Cons.IH [of "out @ [s]"] Cons.IH [of "out @ [''..'']"] Cons.prems by simp
qed simp

lemma escapes_loop_spec: "''..'' \<notin> set out \<Longrightarrow> escapes_loop (length out) ss \<longleftrightarrow> ''..'' \<in> set (clean_segs False out ss)"
proof (induction ss arbitrary: out)
  case (Cons s ss)
  have l: "out \<noteq> [] \<Longrightarrow> last out \<noteq> ''..''" using Cons.prems last_in_set by metis
  consider "s = [] \<or> s = ''.''" | "s = ''..''" "out = []" | "s = ''..''" "out \<noteq> []" | "plain_seg s"
    unfolding plain_seg_def by blast
  then show ?case
  proof cases
    case 2
    then show ?thesis using dots_stay [of "[''..'']" ss] by simp
  next
    case 3
    have "''..'' \<notin> set (butlast out)" using Cons.prems by (meson in_set_butlastD)
    then show ?thesis using 3 l Cons.IH [of "butlast out"] by simp
  next
    case 4
    then have "escapes_loop (length out) (s # ss) = escapes_loop (length (out @ [s])) ss"
      "clean_segs False out (s # ss) = clean_segs False (out @ [s]) ss" "''..'' \<notin> set (out @ [s])"
      using Cons.prems by (auto simp: plain_seg_def)
    then show ?thesis using Cons.IH [of "out @ [s]"] by (simp only: not_False_eq_True)
  qed (use Cons in auto)
qed simp

text \<open>
  pathEscapesRoot, which only counts, says exactly whether the cleaned path leaves the directory
  it is relative to: whether a parent segment is left when the path is cleaned.
\<close>

theorem pathEscapesRoot_correct: "pathEscapesRoot p \<longleftrightarrow> ''..'' \<in> set (clean_segs False [] (segments p))"
  using escapes_loop_spec [of "[]" "segments p"] by (simp add: pathEscapesRoot_def)

section \<open>Normalising in place\<close>

definition in_buffer :: "string \<Rightarrow> string list \<Rightarrow> string \<Rightarrow> nat list \<Rightarrow> bool" where
  "in_buffer out0 segs out starts \<longleftrightarrow>
     out = out0 @ join_path segs \<and> starts = map (\<lambda>k. length out0 + length (join_path (take k segs))) [0..<length segs]
     \<and> (\<forall>s \<in> set segs. s \<noteq> [])"

lemma join_path_snoc: "join_path (ss @ [s]) = (if ss = [] then s else join_path ss @ ''/'' @ s)"
  by (induction ss rule: induct_list012) simp_all

lemma join_path_take: "take (length (join_path (take k ss))) (join_path ss) = join_path (take k ss)"
proof (induction ss arbitrary: k rule: induct_list012)
  case (2 s)
  then show ?case by (cases k) simp_all
next
  case (3 s t ts)
  show ?case
  proof (cases k)
    case (Suc j)
    then show ?thesis using "3.IH"(2) [of j] by (cases j) simp_all
  qed simp
qed simp

lemma join_path_empty: "\<forall>s \<in> set ss. s \<noteq> [] \<Longrightarrow> join_path ss = [] \<longleftrightarrow> ss = []"
  by (cases ss rule: rev_cases) (auto simp: join_path_snoc)

lemma in_buffer_pop:
  assumes "in_buffer out0 segs out starts" and "starts \<noteq> []"
  shows "in_buffer out0 (butlast segs) (take (last starts) out) (butlast starts)"
proof -
  obtain segs' s where segs: "segs = segs' @ [s]" using assms by (cases segs rule: rev_cases) (auto simp: in_buffer_def)
  have last: "last starts = length out0 + length (join_path segs')" using assms by (simp add: in_buffer_def segs)
  have "take (length (join_path segs')) (join_path segs) = join_path segs'"
    using join_path_take [of "length segs'" segs] by (simp add: segs)
  moreover have "butlast starts = map (\<lambda>k. length out0 + length (join_path (take k segs'))) [0..<length segs']"
    using assms by (auto simp: in_buffer_def segs)
  ultimately show ?thesis using assms last by (simp add: in_buffer_def segs)
qed

lemma in_buffer_push:
  assumes "in_buffer out0 segs out starts" and "s \<noteq> []"
  shows "in_buffer out0 (segs @ [s]) ((if length out > length out0 then out @ ''/'' else out) @ s) (starts @ [length out])"
proof -
  have e: "join_path segs = [] \<longleftrightarrow> segs = []" using assms join_path_empty by (auto simp: in_buffer_def)
  have "map (\<lambda>k. length out0 + length (join_path (take k (segs @ [s])))) [0..<length segs]
      = map (\<lambda>k. length out0 + length (join_path (take k segs))) [0..<length segs]" by simp
  then show ?thesis using assms e by (auto simp: in_buffer_def join_path_snoc)
qed

lemma normalise_loop_spec:
  "in_buffer out0 segs out starts \<Longrightarrow> normalise_loop (length out0) room out starts ss = Some r \<Longrightarrow>
   r = out0 @ join_path (normalise_slow_loop segs ss)"
proof (induction ss arbitrary: segs out starts)
  case Nil
  then show ?case by (simp add: in_buffer_def)
next
  case (Cons s ss)
  have len: "length starts = length segs" using Cons.prems by (simp add: in_buffer_def)
  consider "s = [] \<or> s = ''.''" | "s = ''..''" "starts \<noteq> []" | "s = ''..''" "starts = []" | "plain_seg s"
    unfolding plain_seg_def by blast
  then show ?case
  proof cases
    case 2
    then show ?thesis using Cons.IH [OF in_buffer_pop [OF Cons.prems(1) 2(2)]] Cons.prems(2) len by auto
  next
    case 4
    then have n: "s \<noteq> []" "s \<noteq> ''.''" "s \<noteq> ''..''" by (simp_all add: plain_seg_def)
    show ?thesis
      using Cons.IH [OF in_buffer_push [OF Cons.prems(1) n(1)]] Cons.prems(2) n by (simp split: if_splits)
  qed (use Cons len in auto)
qed

lemma normaliseAppend_spec: "normaliseAppend out capacity p = Some r \<Longrightarrow> r = out @ normalisePathSlow p"
  unfolding normaliseAppend_def normalisePathSlow_def
  by (rule normalise_loop_spec) (auto simp: in_buffer_def)

lemma normalise_slow_plain: "(\<And>s. s \<in> set ss \<Longrightarrow> plain_seg s) \<Longrightarrow> normalise_slow_loop out ss = out @ ss"
  by (induction ss arbitrary: out) (auto simp: plain_seg_def)

text \<open>
  normalisePath agrees with the allocating normalisePathSlow wherever it has something to
  normalise, that is, where the path has a parent segment, a dot before a slash or a double slash,
  and wherever it has nothing to normalise; the in-place loop cuts its buffer back to the right
  place at every parent segment, whatever the buffer already holds.
\<close>

theorem normalisePath_correct:
  assumes "contains p ''..'' \<or> contains p ''./'' \<or> contains p ''//'' \<or> (\<forall>s \<in> set (segments p). plain_seg s)"
  shows "normalisePath p = normalisePathSlow p
    \<and> (case normaliseAppend out capacity p of Some r \<Rightarrow> r = out @ normalisePathSlow p | None \<Rightarrow> True)"
proof -
  have plain: "(\<forall>s \<in> set (segments p). plain_seg s) \<Longrightarrow> normalisePathSlow p = p"
    using normalise_slow_plain [of "segments p" "[]"] by (simp add: normalisePathSlow_def)
  have "normaliseAppend [] 256 p = Some out \<Longrightarrow> out = normalisePathSlow p" for out
    using normaliseAppend_spec [of "[]" 256 p out] by simp
  then have "normalisePath p = normalisePathSlow p"
    using assms plain by (auto simp: normalisePath_def split: option.split)
  then show ?thesis using normaliseAppend_spec [of out capacity p] by (auto split: option.split)
qed

theorem normalisePath_correct_witness: "normalisePath ''a/./b/../c'' = ''a/c''"
proof -
  have "normalisePath ''a/./b/../c'' = normalisePathSlow ''a/./b/../c''"
    using normalisePath_correct [of "''a/./b/../c''" "[]" 0] by (simp add: hasPrefix_def)
  then show ?thesis by (simp add: normalisePathSlow_def)
qed

text \<open>
  On a path with a leading slash and nothing else to normalise the short cut returns the path as it
  is, and the slow path takes the slash away.
\<close>

lemma normalisePath_leading_slash: "normalisePath ''/a.h'' = ''/a.h'' \<and> normalisePathSlow ''/a.h'' = ''a.h''"
  by (simp add: normalisePath_def normalisePathSlow_def hasPrefix_def)

end
