(* ===== verification/Ay_Parse.thy ===== *)
theory Ay_Parse
  imports Ay_Build Ay_Lexer Ay_Path
begin

text \<open>
  The parser of \<^verbatim>\<open>ya.make\<close> files (\<^verbatim>\<open>yamake.go\<close>: \<^verbatim>\<open>Parser\<close>, \<^verbatim>\<open>IncludeState\<close>, \<^verbatim>\<open>parseStmts\<close> to
  \<^verbatim>\<open>expandOneInclude\<close>, \<^verbatim>\<open>parseInternalWithState\<close>).

  The parser threads its state through every call: a function is of type \<open>'a P\<close>, from a parser to
  a value and a parser or an error, and \<open>pbind\<close> composes two of them. The scratch buffers of the
  source that are empty between calls (\<^verbatim>\<open>condScratch\<close>, \<^verbatim>\<open>argScratch\<close>, \<^verbatim>\<open>tokBuf\<close>) are left out;
  \<^verbatim>\<open>stmtScratch\<close>, which holds the statements of all the open blocks at once, is a field. After an
  error the whole parse is given up, so an error carries no state.

  \<^verbatim>\<open>once\<close> is the set of its members. Of the file system (\<^verbatim>\<open>fs.go\<close>) the parser asks whether a path
  exists and what a file holds: a record \<open>FS\<close> of files and directories. The recursion through
  blocks has a fuel that \<open>parseInternalWithState\<close> computes from the length of the source, the
  recursion through included files a fuel that bounds the depth of the inclusion.
\<close>

section \<open>State\<close>

datatype includeEventKind = includeSeen | includeUnseen | includeOnce

type_synonym includeEvent = "string \<times> includeEventKind"

record includeMemo =
  im_stmts :: "Stmt list"
  im_events :: "includeEvent list"

record IncludeState =
  is_once :: "string set"
  is_memos :: "string \<Rightarrow> includeMemo list"
  is_events :: "includeEvent list"
  is_chain :: "string list"

record Parser =
  p_lex :: Lexer
  p_name :: string
  p_includeStack :: "string list"
  p_includes :: IncludeState
  p_stmtScratch :: "Stmt list"

record MakeFile =
  mf_IncludeOnce :: bool
  mf_Path :: string
  mf_Stmts :: "Stmt list"

record FS =
  fs_files :: "(string \<times> string) list"
  fs_dirs :: "string list"

definition FS_exists :: "FS \<Rightarrow> string \<Rightarrow> bool" where
  "FS_exists fs t \<longleftrightarrow> t \<in> set (map fst (fs_files fs)) \<or> t \<in> set (fs_dirs fs)"

definition FS_read :: "FS \<Rightarrow> string \<Rightarrow> string result" where
  "FS_read fs t = (case map_of (fs_files fs) t of Some src \<Rightarrow> Inr src | None \<Rightarrow> Inl (Thrown ''read %s'' [t]))"

section \<open>Parser actions\<close>

type_synonym 'a P = "Parser \<Rightarrow> ('a \<times> Parser) result"

definition pret :: "'a \<Rightarrow> 'a P" where "pret x = (\<lambda>p. Inr (x, p))"

definition pbind :: "'a P \<Rightarrow> ('a \<Rightarrow> 'b P) \<Rightarrow> 'b P" where
  "pbind m f = (\<lambda>p. rbind (m p) (\<lambda>(x, p'). f x p'))"

definition perror :: "nat \<Rightarrow> nat \<Rightarrow> string \<Rightarrow> string list \<Rightarrow> 'a P" where
  "perror line col fmt args = (\<lambda>p. Inl (throwParse (p_lex p) line col fmt args))"

definition with_lexer :: "(Lexer \<Rightarrow> ('a \<times> Lexer) result) \<Rightarrow> 'a P" where
  "with_lexer f = (\<lambda>p. rbind (f (p_lex p)) (\<lambda>(x, l). Inr (x, p\<lparr>p_lex := l\<rparr>)))"

definition with_includes :: "(IncludeState \<Rightarrow> IncludeState) \<Rightarrow> unit P" where
  "with_includes f = (\<lambda>p. Inr ((), p\<lparr>p_includes := f (p_includes p)\<rparr>))"

definition emit_all :: "Stmt list \<Rightarrow> unit P" where
  "emit_all ss = (\<lambda>p. Inr ((), p\<lparr>p_stmtScratch := p_stmtScratch p @ ss\<rparr>))"

definition mark_of :: "nat P" where
  "mark_of = (\<lambda>p. Inr (length (p_stmtScratch p), p))"

definition takeStmts :: "nat \<Rightarrow> Stmt list P" where
  "takeStmts mark = (\<lambda>p. Inr (drop mark (p_stmtScratch p), p\<lparr>p_stmtScratch := take mark (p_stmtScratch p)\<rparr>))"

section \<open>Tokens and arguments\<close>

text \<open>
  A description in a message: its format and the text of the token. The apostrophes around a byte
  in a message are left out.
\<close>

definition describeToken :: "Token \<Rightarrow> string list" where
  "describeToken t =
     (case tok_kind t of
        tokEOF \<Rightarrow> [''end of file'']
      | tokIdent \<Rightarrow> [''identifier %q'', tok_id t]
      | tokString \<Rightarrow> [''string %q'', tok_id t]
      | tokWord \<Rightarrow> [''word %q'', tok_id t]
      | tokLParen \<Rightarrow> [''(''] | tokRParen \<Rightarrow> ['')'']
      | tokInt \<Rightarrow> [''integer %s'', tok_id t]
      | tokEq \<Rightarrow> [''==''] | tokLt \<Rightarrow> [''<''] | tokLe \<Rightarrow> [''<=''] | tokNotEq \<Rightarrow> [''!=''] | tokGe \<Rightarrow> [''>='']
      | tokGt \<Rightarrow> [''>''])"

definition is_letter :: "char \<Rightarrow> bool" where
  "is_letter b \<longleftrightarrow> (97 \<le> byte b \<and> byte b \<le> 122) \<or> (65 \<le> byte b \<and> byte b \<le> 90)"

definition isIdentShapedName :: "string \<Rightarrow> bool" where
  "isIdentShapedName s \<longleftrightarrow>
     (case s of
        [] \<Rightarrow> True
      | b # bs \<Rightarrow> (is_letter b \<or> b = CHR ''_'') \<and> (\<forall>c \<in> set bs. is_letter c \<or> is_digit c \<or> c = CHR ''_''))"

definition lexicalArgs :: "string \<Rightarrow> bool" where
  "lexicalArgs name \<longleftrightarrow> name \<in> set [''IF'', ''ELSEIF'', ''CFLAGS'', ''GLOBAL_CFLAGS'', ''CXXFLAGS'', ''CONLYFLAGS'',
     ''LDFLAGS'', ''RESOURCE'', ''USE_RECIPE'', ''ENV'', ''RUN_PROGRAM'', ''RUN_PY3_PROGRAM'', ''RUN'', ''DECLARE_IN_DIRS'']"

definition arg_value :: "bool \<Rightarrow> Lexer \<Rightarrow> nat \<Rightarrow> Token \<Rightarrow> string" where
  "arg_value lexical l start tok =
     (if lexical then
        if tok_kind tok = tokString
        then (if tok_backslash tok then filter (\<lambda>c. c \<noteq> BACKSLASH) (tok_id tok) else tok_id tok)
        else if lx_pos l - start \<noteq> tok_n tok then src_slice l start (lx_pos l) else tok_id tok
      else tok_id tok)"

lemma readToken_ok:
  assumes "readToken l = Inr (t, l')"
  shows "moves l l' \<and> (tok_kind t \<noteq> tokEOF \<longrightarrow> lx_pos l < lx_pos l' \<and> lx_pos l' \<le> length (lx_src l))"
proof -
  obtain l0 where l0: "advance_step\<^sup>*\<^sup>* l l0" "lx_pos l0 < length (lx_src l0) \<Longrightarrow> reads_tok l0 (readToken l)"
    "\<not> lx_pos l0 < length (lx_src l0) \<Longrightarrow> readToken l = Inr (plainToken tokEOF (lx_line l0) (lx_col l0), l0)"
    by (rule readToken_cases [of l]) blast
  have m0: "moves l l0" using advance_star_moves [OF l0(1)] .
  show ?thesis
  proof (cases "lx_pos l0 < length (lx_src l0)")
    case True
    then have "advance_step\<^sup>+\<^sup>+ l0 l'" using l0(2) assms by (simp add: reads_tok_def)
    then have "moves l0 l'" "lx_pos l0 < lx_pos l'" using advance_plus_moves by blast+
    then show ?thesis using m0 True moves_trans [OF m0] by (auto simp: moves_def)
  next
    case False
    then show ?thesis using l0(3) assms m0 by auto
  qed
qed

lemma skipTrivia_moves: "skipTrivia l = Inr l' \<Longrightarrow> moves l l'"
  using skipTrivia_ok [of l] advance_star_moves by auto

text \<open>
  \<^verbatim>\<open>parseMacroArgsLexical\<close>: \<open>capture\<close> says whether the caller collects the lexical arguments, too.
\<close>

function args_loop :: "Token \<Rightarrow> bool \<Rightarrow> bool \<Rightarrow> ANY list \<Rightarrow> ANY list \<Rightarrow> Lexer \<Rightarrow> ((ANY list \<times> ANY list) \<times> Lexer) result" where
  "args_loop nameTok lexArgs capture scratch lexical l =
     rbind (if capture \<or> lexArgs then skipTrivia l else Inr l) (\<lambda>l0.
     rbind (readToken l0) (\<lambda>(tok, l1).
       if tok_kind tok = tokRParen then Inr ((scratch, lexical), l1)
       else if tok_kind tok = tokEOF
       then Inl (throwParse l1 (tok_line nameTok) (tok_col nameTok) ''unterminated macro call %q (missing ) )'' [tok_id nameTok])
       else if tok_kind tok \<in> {tokIdent, tokWord, tokString, tokInt} then
         let value = arg_value (capture \<or> lexArgs) l1 (lx_pos l0) tok
         in args_loop nameTok lexArgs capture (scratch @ [StrANY (if lexArgs then value else tok_id tok)])
              (if capture then lexical @ [StrANY value] else lexical) l1
       else if tok_kind tok = tokLParen
       then Inl (throwParse l1 (tok_line tok) (tok_col tok) ''unexpected ( inside macro call %q'' [tok_id nameTok])
       else args_loop nameTok lexArgs capture scratch lexical l1))"
  by pat_completeness auto
termination
proof (relation "measure (\<lambda>(_, _, _, _, _, l). length (lx_src l) - lx_pos l)", goal_cases)
  case 1
  show ?case by simp
next
  case (2 nameTok lexArgs capture scratch lexical l l0 x tok l1 v)
  then have "moves l l0" using skipTrivia_moves [of l l0] by (auto split: if_splits)
  then show ?case using 2 readToken_ok [of l0 tok l1] by (auto simp: moves_def)
next
  case (3 nameTok lexArgs capture scratch lexical l l0 x tok l1)
  then have "moves l l0" using skipTrivia_moves [of l l0] by (auto split: if_splits)
  then show ?case using 3 readToken_ok [of l0 tok l1] by (auto simp: moves_def)
qed

declare args_loop.simps [simp del]

definition parseMacroArgsLexical :: "Token \<Rightarrow> bool \<Rightarrow> (ANY list \<times> ANY list) P" where
  "parseMacroArgsLexical nameTok capture =
     with_lexer (\<lambda>l.
       rbind (readToken l) (\<lambda>(lp, l).
         if tok_kind lp \<noteq> tokLParen
         then Inl (throwParse l (tok_line lp) (tok_col lp) ''expected ( after macro name %q, got %s''
                (tok_id nameTok # describeToken lp))
         else rbind (args_loop nameTok (lexicalArgs (tok_id nameTok)) capture [] [] (l\<lparr>lx_inArgs := True\<rparr>)) (\<lambda>(r, l).
                Inr (r, l\<lparr>lx_inArgs := False\<rparr>))))"

definition parseMacroArgs :: "Token \<Rightarrow> ANY list P" where
  "parseMacroArgs nameTok = pbind (parseMacroArgsLexical nameTok False) (\<lambda>(args, _). pret args)"

section \<open>Includes\<close>

definition note_event :: "string \<Rightarrow> includeEventKind \<Rightarrow> IncludeState \<Rightarrow> IncludeState" where
  "note_event file kind st = st\<lparr>is_events := is_events st @ [(file, kind)]\<rparr>"

text \<open>
  \<^verbatim>\<open>replay\<close> checks the recorded events against the present state before it changes anything;
  \<open>added\<close> are the files that the recorded events would have put into \<^verbatim>\<open>once\<close> so far.
\<close>

fun replay_scan :: "string set \<Rightarrow> string list \<Rightarrow> string list \<Rightarrow> includeEvent list \<Rightarrow> string list option" where
  "replay_scan once chain added [] = Some added"
| "replay_scan once chain added ((file, kind) # es) =
     (if kind = includeOnce then replay_scan once chain (added @ [file]) es
      else let seen = (file \<in> once \<or> file \<in> set added)
           in if seen \<noteq> (kind = includeSeen) \<or> \<not> seen \<and> file \<in> set chain then None
              else replay_scan once chain added es)"

definition replay :: "IncludeState \<Rightarrow> includeMemo \<Rightarrow> IncludeState option" where
  "replay st m =
     (case replay_scan (is_once st) (is_chain st) [] (im_events m) of
        None \<Rightarrow> None
      | Some added \<Rightarrow> Some (st\<lparr>is_once := is_once st \<union> set added, is_events := is_events st @ im_events m\<rparr>))"

fun try_memos :: "IncludeState \<Rightarrow> includeMemo list \<Rightarrow> (Stmt list \<times> IncludeState) option" where
  "try_memos st [] = None"
| "try_memos st (m # ms) =
     (case replay st m of Some st' \<Rightarrow> Some (im_stmts m, st') | None \<Rightarrow> try_memos st ms)"

definition arcadiaRoot :: string where "arcadiaRoot = ''${ARCADIA_ROOT}/''"

text \<open>The target of an \<^verbatim>\<open>INCLUDE\<close>, relative to the root of the sources.\<close>

definition include_target :: "Token \<Rightarrow> string \<Rightarrow> string P" where
  "include_target nameTok rel = (\<lambda>p.
     if hasPrefix rel arcadiaRoot then rbind (cleanRel (drop (length arcadiaRoot) rel)) (\<lambda>t. Inr (t, p))
     else if rel \<noteq> [] \<and> hd rel = CHR ''/''
     then perror (tok_line nameTok) (tok_col nameTok) ''INCLUDE(%s): absolute paths escape the source root'' [rel] p
     else rbind (cleanRel (joinRel (pathDir (p_name p)) rel)) (\<lambda>t. Inr (t, p)))"

type_synonym file_parser = "string \<Rightarrow> string \<Rightarrow> string list \<Rightarrow> IncludeState \<Rightarrow> (MakeFile \<times> IncludeState) result"

definition read_include :: "FS \<Rightarrow> file_parser \<Rightarrow> Token \<Rightarrow> string \<Rightarrow> string list \<Rightarrow> unit P" where
  "read_include fs parseFile nameTok target chain = (\<lambda>p.
     if \<not> FS_exists fs target then emit_all [MissingIncludeStmt target (tok_line nameTok)] p
     else rbind (FS_read fs target) (\<lambda>src.
       let start = length (is_events (p_includes p))
       in rbind (parseFile target src chain (p_includes p)) (\<lambda>(included, st).
            let memo = \<lparr>im_stmts = mf_Stmts included, im_events = drop start (is_events st)\<rparr>
            in emit_all (mf_Stmts included)
                 (p\<lparr>p_includes := st\<lparr>is_memos := (is_memos st)(target := is_memos st target @ [memo])\<rparr>\<rparr>))))"

definition expandTarget :: "FS \<Rightarrow> file_parser \<Rightarrow> Token \<Rightarrow> string \<Rightarrow> unit P" where
  "expandTarget fs parseFile nameTok target = (\<lambda>p.
     let chain = p_includeStack p @ [p_name p]
     in if target \<in> set chain
        then perror (tok_line nameTok) (tok_col nameTok) ''INCLUDE cycle: %s''
               [join_strings '' -> '' (chain @ [target])] p
        else case try_memos (p_includes p) (is_memos (p_includes p) target) of
               Some (stmts, st) \<Rightarrow> emit_all stmts (p\<lparr>p_includes := st\<rparr>)
             | None \<Rightarrow> read_include fs parseFile nameTok target chain p)"

definition expandOneInclude :: "FS \<Rightarrow> file_parser \<Rightarrow> Token \<Rightarrow> string \<Rightarrow> unit P" where
  "expandOneInclude fs parseFile nameTok rel = (\<lambda>p.
     if CHR ''$'' \<in> set (TrimPrefix rel arcadiaRoot)
     then emit_all [IncludeStmt (p_name p) rel (tok_line nameTok)] p
     else pbind (include_target nameTok rel) (\<lambda>target p.
       if target \<in> is_once (p_includes p) then with_includes (note_event target includeSeen) p
       else pbind (with_includes (note_event target includeUnseen)) (\<lambda>_. expandTarget fs parseFile nameTok target) p) p)"

text \<open>The functions below call the expansion of an include through the argument \<open>expand\<close>.\<close>

type_synonym expander = "Token \<Rightarrow> string \<Rightarrow> unit P"

definition expandInclude :: "expander \<Rightarrow> Token \<Rightarrow> unit P" where
  "expandInclude expand nameTok =
     pbind (parseMacroArgs nameTok) (\<lambda>args.
       case args of
         [] \<Rightarrow> perror (tok_line nameTok) (tok_col nameTok) ''INCLUDE expects at least 1 argument (the path)'' []
       | a # _ \<Rightarrow> expand nameTok (ANY_string a))"

definition applyIncludeOnce :: "Token \<Rightarrow> unit P" where
  "applyIncludeOnce nameTok =
     pbind (parseMacroArgs nameTok) (\<lambda>args.
       if length args > 1
       then perror (tok_line nameTok) (tok_col nameTok) ''INCLUDE_ONCE expects 0 or 1 arguments, got %d'' [decimal (length args)]
       else if length args = 1 \<and> hd args = StrANY ''no'' then pret ()
       else (\<lambda>p. with_includes (\<lambda>st. note_event (p_name p) includeOnce (st\<lparr>is_once := insert (p_name p) (is_once st)\<rparr>)) p))"

section \<open>Statements\<close>

datatype StmtTerminator = termTopLevel | termIfBody

text \<open>A macro whose name starts with an underscore marks the statement it became as internal.\<close>

fun set_internal :: "Stmt \<Rightarrow> Stmt" where
  "set_internal (UnknownStmt n raw args lexical body line _ expanded) = UnknownStmt n raw args lexical body line True expanded"
| "set_internal s = s"

definition mark_internal :: "Token \<Rightarrow> unit P" where
  "mark_internal nameTok = (\<lambda>p.
     if tok_lead nameTok \<noteq> CHR ''_'' then Inr ((), p)
     else if p_stmtScratch p = [] then Inl IndexPanic
     else Inr ((), p\<lparr>p_stmtScratch := butlast (p_stmtScratch p) @ [set_internal (last (p_stmtScratch p))]\<rparr>))"

definition macro_call :: "Token \<Rightarrow> unit P" where
  "macro_call nameTok =
     pbind (parseMacroArgsLexical nameTok (capturesLexicalArgs (tok_id nameTok))) (\<lambda>(args, lexical).
     pbind (\<lambda>p. rbind (appendMacroCallStmts (p_stmtScratch p) (throwParse (p_lex p) (tok_line nameTok) (tok_col nameTok))
                         (tok_id nameTok) args lexical (tok_line nameTok)) (\<lambda>stmts. Inr ((), p\<lparr>p_stmtScratch := stmts\<rparr>)))
       (\<lambda>_. mark_internal nameTok))"

definition is_macro_name :: "Token \<Rightarrow> bool" where
  "is_macro_name tok \<longleftrightarrow> tok_kind tok = tokIdent \<or> tok_kind tok = tokWord \<and> isIdentShapedName (tok_id tok)"

definition ends_block :: "StmtTerminator \<Rightarrow> Token \<Rightarrow> bool" where
  "ends_block term tok \<longleftrightarrow> term = termIfBody \<and> tok_id tok \<in> set [''ELSE'', ''ELSEIF'', ''ENDIF'']"

text \<open>
  The rest of an \<^verbatim>\<open>IF\<close> behind its first body, which \<open>endTok\<close> ended; \<open>block\<close> parses a body, \<open>nested\<close>
  an \<^verbatim>\<open>ELSEIF\<close>, and \<open>node\<close> is the statement for a given else part.
\<close>

definition if_tail :: "(Stmt list \<times> Token) P \<Rightarrow> (Token \<Rightarrow> Stmt P) \<Rightarrow> (Stmt list \<Rightarrow> Stmt) \<Rightarrow> Token \<Rightarrow> Stmt P" where
  "if_tail block nested node endTok =
     (if tok_kind endTok = tokEOF then pret (node [])
      else if tok_id endTok = ''ENDIF'' then pbind (parseMacroArgs endTok) (\<lambda>_. pret (node []))
      else if tok_id endTok = ''ELSE'' then
        pbind (parseMacroArgs endTok) (\<lambda>_.
        pbind block (\<lambda>(elseBody, endIf).
          if tok_kind endIf = tokEOF then pret (node elseBody)
          else if tok_id endIf \<noteq> ''ENDIF''
          then perror (tok_line endIf) (tok_col endIf) ''expected ENDIF after ELSE block, got %s'' [tok_id endIf]
          else pbind (parseMacroArgs endIf) (\<lambda>_. pret (node elseBody))))
      else pbind (nested endTok) (\<lambda>st. pret (node [st])))"

text \<open>
  \<open>parseStmts_loop\<close> is the loop of \<^verbatim>\<open>parseStmts\<close>, with the mark it took on entry; the cases of
  \<^verbatim>\<open>parseMacroInto\<close> are its inner conditional.
\<close>

fun parseStmts_loop :: "nat \<Rightarrow> expander \<Rightarrow> StmtTerminator \<Rightarrow> nat \<Rightarrow> (Stmt list \<times> Token) P"
  and parseIf :: "nat \<Rightarrow> expander \<Rightarrow> Token \<Rightarrow> Stmt P" where
  "parseStmts_loop 0 expand term mark = (\<lambda>p. Inl OutOfFuel)"
| "parseStmts_loop (Suc k) expand term mark =
     pbind (with_lexer readToken) (\<lambda>tok.
       if tok_kind tok = tokEOF then pbind (takeStmts mark) (\<lambda>stmts. pret (stmts, tok))
       else if \<not> is_macro_name tok
       then perror (tok_line tok) (tok_col tok) ''expected macro name, got %s'' (describeToken tok)
       else if ends_block term tok then pbind (takeStmts mark) (\<lambda>stmts. pret (stmts, tok))
       else pbind
              (if tok_id tok = ''IF'' then pbind (parseIf k expand tok) (\<lambda>st. emit_all [st])
               else if tok_id tok = ''INCLUDE'' then expandInclude expand tok
               else if tok_id tok = ''INCLUDE_ONCE'' then applyIncludeOnce tok
               else macro_call tok)
              (\<lambda>_. parseStmts_loop k expand term mark))"
| "parseIf 0 expand ifTok = (\<lambda>p. Inl OutOfFuel)"
| "parseIf (Suc k) expand ifTok =
     pbind (parseMacroArgs ifTok) (\<lambda>args.
     pbind (pbind mark_of (parseStmts_loop k expand termIfBody)) (\<lambda>(thenBody, endTok).
       if_tail (pbind mark_of (parseStmts_loop k expand termIfBody)) (parseIf k expand)
         (\<lambda>els. IfStmt (compileIfCond (map ANY_string args)) thenBody els (tok_line ifTok)) endTok))"

definition parseStmts :: "nat \<Rightarrow> expander \<Rightarrow> StmtTerminator \<Rightarrow> (Stmt list \<times> Token) P" where
  "parseStmts k expand term = pbind mark_of (parseStmts_loop k expand term)"

section \<open>Files\<close>

definition utf8_bom :: string where "utf8_bom = [CHR 0xEF, CHR 0xBB, CHR 0xBF]"

definition newParser :: "string \<Rightarrow> string \<Rightarrow> string list \<Rightarrow> IncludeState \<Rightarrow> Parser" where
  "newParser name src stack includes =
     \<lparr>p_lex = newLexer name src, p_name = name, p_includeStack = stack,
      p_includes = includes\<lparr>is_chain := is_chain includes @ [name]\<rparr>, p_stmtScratch = []\<rparr>"

definition block_fuel :: "string \<Rightarrow> nat" where
  "block_fuel src = 2 * length src + 2"

definition parse_source :: "expander \<Rightarrow> file_parser" where
  "parse_source expand name src stack includes =
     (let src = TrimPrefix src utf8_bom
      in rbind (parseStmts (block_fuel src) expand termTopLevel (newParser name src stack includes)) (\<lambda>((stmts, _), p).
           let st = p_includes p
           in Inr (\<lparr>mf_IncludeOnce = (name \<in> is_once st), mf_Path = name, mf_Stmts = stmts\<rparr>,
                   st\<lparr>is_chain := butlast (is_chain st)\<rparr>)))"

primrec parseInternalWithState :: "nat \<Rightarrow> FS \<Rightarrow> file_parser" where
  "parseInternalWithState 0 fs = (\<lambda>name src stack includes. Inl OutOfFuel)"
| "parseInternalWithState (Suc n) fs = parse_source (expandOneInclude fs (parseInternalWithState n fs))"

definition newIncludeState :: "(string \<Rightarrow> includeMemo list) \<Rightarrow> IncludeState" where
  "newIncludeState memos = \<lparr>is_once = {}, is_memos = memos, is_events = [], is_chain = []\<rparr>"

text \<open>The depth of the inclusion is at most the number of files and directories, plus one.\<close>

definition parse :: "FS \<Rightarrow> string \<Rightarrow> string \<Rightarrow> (string \<Rightarrow> includeMemo list) \<Rightarrow> (MakeFile \<times> (string \<Rightarrow> includeMemo list)) result" where
  "parse fs name src memos =
     rbind (parseInternalWithState (length (fs_files fs) + length (fs_dirs fs) + 1) fs name src [] (newIncludeState memos))
       (\<lambda>(mf, st). Inr (mf, is_memos st))"

definition parseFileClean :: "FS \<Rightarrow> string \<Rightarrow> (string \<Rightarrow> includeMemo list) \<Rightarrow> (MakeFile \<times> (string \<Rightarrow> includeMemo list)) result" where
  "parseFileClean fs key memos = rbind (FS_read fs key) (\<lambda>src. parse fs key src memos)"

end
