(* ===== verification/Ay_ParseSafe.thy ===== *)
theory Ay_ParseSafe
  imports Ay_Parse
begin

text \<open>
  The parser ends, never panics and keeps its shared statement buffer in order. \<open>runs p r\<close> says
  that \<open>r\<close> is an acceptable outcome of an action that started in \<open>p\<close>: a parse error or an error of
  the file system, or a parser that has only moved forward in its source and only appended
  statements. The rules below build such outcomes from the parts of an action.
\<close>

section \<open>Acceptable outcomes\<close>

definition good_err :: "go_error \<Rightarrow> bool" where
  "good_err e \<longleftrightarrow> is_ParseErr e \<or> (\<exists>fmt args. e = Thrown fmt args)"

definition lex_steps :: "Lexer \<Rightarrow> Lexer \<Rightarrow> bool" where
  "lex_steps l l' \<longleftrightarrow> lx_src l' = lx_src l \<and> lx_name l' = lx_name l \<and> lx_pos l \<le> lx_pos l'
     \<and> (lx_pos l \<le> length (lx_src l) \<longrightarrow> lx_pos l' \<le> length (lx_src l))"

definition keeps :: "Parser \<Rightarrow> Parser \<Rightarrow> bool" where
  "keeps p p' \<longleftrightarrow> p_name p' = p_name p \<and> p_includeStack p' = p_includeStack p
     \<and> is_chain (p_includes p') = is_chain (p_includes p) \<and> lex_steps (p_lex p) (p_lex p')"

definition steps :: "Parser \<Rightarrow> Parser \<Rightarrow> bool" where
  "steps p p' \<longleftrightarrow> keeps p p' \<and> prefix (p_stmtScratch p) (p_stmtScratch p')"

definition outcome :: "(Parser \<Rightarrow> Parser \<Rightarrow> bool) \<Rightarrow> Parser \<Rightarrow> ('a \<times> Parser) result \<Rightarrow> bool" where
  "outcome R p r \<longleftrightarrow> (case r of Inl e \<Rightarrow> good_err e | Inr (x, p') \<Rightarrow> R p p')"

abbreviation runs :: "Parser \<Rightarrow> ('a \<times> Parser) result \<Rightarrow> bool" where
  "runs \<equiv> outcome steps"

definition rest_len :: "Parser \<Rightarrow> nat" where
  "rest_len p = length (lx_src (p_lex p)) - lx_pos (p_lex p)"

lemma good_err_simps [simp]: "good_err (throwParse l line col fmt args)" "good_err (Thrown fmt args)"
  by (simp_all add: good_err_def)

lemma outcome_simps [simp]:
  "outcome R p (Inl e) \<longleftrightarrow> good_err e" "outcome R p (Inr (x, p')) \<longleftrightarrow> R p p'"
  by (simp_all add: outcome_def)

lemma lex_steps_refl [simp]: "lex_steps l l"
  by (simp add: lex_steps_def)

lemma lex_steps_trans: "lex_steps a b \<Longrightarrow> lex_steps b c \<Longrightarrow> lex_steps a c"
  by (auto simp: lex_steps_def)

lemma moves_lex_steps: "moves l l' \<Longrightarrow> lex_steps l l'"
  by (auto simp: moves_def lex_steps_def)

lemma steps_refl [simp]: "steps p p"
  by (simp add: steps_def keeps_def)

lemma keeps_trans: "keeps a b \<Longrightarrow> keeps b c \<Longrightarrow> keeps a c"
  by (auto simp: keeps_def intro: lex_steps_trans)

lemma steps_trans: "steps a b \<Longrightarrow> steps b c \<Longrightarrow> steps a c"
  by (auto simp: steps_def intro: keeps_trans prefix_order.trans)

lemma keeps_rest_len: "keeps p p' \<Longrightarrow> rest_len p' \<le> rest_len p"
  by (auto simp: keeps_def lex_steps_def rest_len_def)

section \<open>Rules for the combinators\<close>

lemma pbind_Inr: "pbind m f p = Inr r \<longleftrightarrow> (\<exists>x p'. m p = Inr (x, p') \<and> f x p' = Inr r)"
  by (auto simp: pbind_def rbind_Inr)

lemma outcome_bind:
  assumes "outcome S p (m p)" and "\<And>x p'. m p = Inr (x, p') \<Longrightarrow> S p p' \<Longrightarrow> outcome (\<lambda>_. R p) p' (f x p')"
  shows "outcome R p (pbind m f p)"
  using assms by (cases "m p") (auto simp: pbind_def outcome_def split: sum.splits)

lemma runs_bind:
  assumes "runs p (m p)" and "\<And>x p'. m p = Inr (x, p') \<Longrightarrow> steps p p' \<Longrightarrow> runs p' (f x p')"
  shows "runs p (pbind m f p)"
  using assms by (cases "m p") (fastforce simp: pbind_def outcome_def split: sum.splits intro: steps_trans)+

lemma runs_pret [simp]: "runs p (pret x p)"
  by (simp add: pret_def)

lemma outcome_perror [simp]: "outcome R p (perror line col fmt args p')"
  by (simp add: perror_def)

lemma runs_emit [simp]: "runs p (emit_all ss p)"
  by (simp add: emit_all_def steps_def keeps_def)

lemma runs_with_includes: "(\<And>st. is_chain (f st) = is_chain st) \<Longrightarrow> runs p (with_includes f p)"
  by (simp add: with_includes_def steps_def keeps_def)

lemma runs_with_lexer:
  assumes "\<And>e. f (p_lex p) = Inl e \<Longrightarrow> good_err e"
    and "\<And>x l. f (p_lex p) = Inr (x, l) \<Longrightarrow> lex_steps (p_lex p) l"
  shows "runs p (with_lexer f p)"
  using assms by (cases "f (p_lex p)") (auto simp: with_lexer_def steps_def keeps_def)

section \<open>Tokens\<close>

lemma readToken_err: "readToken l = Inl e \<Longrightarrow> is_ParseErr e"
proof -
  assume e: "readToken l = Inl e"
  obtain l0 where l0: "lx_pos l0 < length (lx_src l0) \<Longrightarrow> reads_tok l0 (readToken l)"
    "\<not> lx_pos l0 < length (lx_src l0) \<Longrightarrow> readToken l = Inr (plainToken tokEOF (lx_line l0) (lx_col l0), l0)"
    by (rule readToken_cases [of l]) blast
  then show "is_ParseErr e" using e by (cases "lx_pos l0 < length (lx_src l0)") (auto simp: reads_tok_def)
qed

lemma runs_readToken: "runs p (with_lexer readToken p)"
  by (rule runs_with_lexer) (auto simp: good_err_def dest: readToken_err readToken_ok moves_lex_steps)

lemma readToken_shrinks:
  "with_lexer readToken p = Inr (tok, p') \<Longrightarrow> tok_kind tok \<noteq> tokEOF \<Longrightarrow> rest_len p' < rest_len p"
  by (auto simp: with_lexer_def rbind_Inr rest_len_def moves_def dest!: readToken_ok)

definition wf_token :: "Token \<Rightarrow> bool" where
  "wf_token t \<longleftrightarrow> tok_lead t = (if tok_id t \<noteq> [] then hd (tok_id t) else NUL)"

lemma wf_newToken [simp]: "wf_token (newToken k text line col)" "wf_token (plainToken k line col)"
  by (simp_all add: wf_token_def newToken_def plainToken_def)

definition tok_result :: "(Token \<times> Lexer) result \<Rightarrow> bool" where
  "tok_result r \<longleftrightarrow> (\<forall>t l. r = Inr (t, l) \<longrightarrow> wf_token t)"

lemma tok_result_simps [simp]: "tok_result (Inl e)" "tok_result (Inr (t, l)) \<longleftrightarrow> wf_token t"
  by (simp_all add: tok_result_def)

lemma tok_result_rbind: "(\<And>a. tok_result (f a)) \<Longrightarrow> tok_result (rbind m f)"
  by (cases m) simp_all

lemma tok_result_read:
  "tok_result (readString l sl sc q)" "tok_result (readIdentOrWord l sl sc)" "tok_result (readWord l sl sc)"
  "tok_result (readOp1 l k)" "tok_result (readRel l k k')" "tok_result (readOp2 l k)"
  by (auto simp: readString_def readString_slow_def readIdentOrWord_def readIdent_slow_def readWord_def readWord_slow_def
      readOp1_def readRel_def readOp2_def Let_def split: prod.splits option.splits intro!: tok_result_rbind)

lemma tok_result_number: "tok_result (readNumberOrWord l sl sc)"
  by (auto simp: readNumberOrWord_def Let_def tok_result_read split: option.splits)

lemma readToken_wf: "readToken l = Inr (t, l') \<Longrightarrow> wf_token t"
proof -
  have err: "tok_result (rbind (advance l) (\<lambda>(_, l'). Inl (throwParse l' sl sc fmt args)))" for l sl sc fmt args
    by (rule tok_result_rbind) (simp split: prod.split)
  have "tok_result (readToken_at l)" for l
    unfolding readToken_at_def Let_def by (simp only: tok_result_read tok_result_number err if_split simp_thms)
  then have "tok_result (readToken l)" for l
    unfolding readToken_def by (intro tok_result_rbind) simp
  then show "readToken l = Inr (t, l') \<Longrightarrow> wf_token t" unfolding tok_result_def by blast
qed

section \<open>Arguments\<close>

lemma args_loop_ok:
  "case args_loop nameTok lexArgs capture scratch lexical l of
     Inl e \<Rightarrow> is_ParseErr e
   | Inr (r, l') \<Rightarrow> lex_steps l l'"
proof (induction nameTok lexArgs capture scratch lexical l rule: args_loop.induct)
  case (1 nameTok lexArgs capture scratch lexical l)
  have "\<exists>l0. (if capture \<or> lexArgs then skipTrivia l else Inr l) = Inr l0 \<and> moves l l0"
    using skipTrivia_ok [of l] skipTrivia_moves [of l] by auto
  then obtain l0 where l0: "(if capture \<or> lexArgs then skipTrivia l else Inr l) = Inr l0" "lex_steps l l0"
    using moves_lex_steps by blast
  show ?case
  proof (cases "readToken l0")
    case (Inl e)
    then show ?thesis using readToken_err [OF Inl] by (subst args_loop.simps) (simp add: l0(1))
  next
    case (Inr q)
    obtain tok l1 where q: "q = (tok, l1)" by (cases q)
    have s: "lex_steps l l1" using l0(2) Inr readToken_ok [of l0 tok l1] moves_lex_steps lex_steps_trans by (auto simp: q)
    have trans: "(case r of Inl e \<Rightarrow> is_ParseErr e | Inr (_, l') \<Rightarrow> lex_steps l1 l') \<Longrightarrow>
      (case r of Inl e \<Rightarrow> is_ParseErr e | Inr (_, l') \<Rightarrow> lex_steps l l')" for r :: "('b \<times> Lexer) result"
      using lex_steps_trans [OF s] by (auto split: sum.splits)
    show ?thesis
      using 1(1) [OF l0(1) Inr q [symmetric]] 1(2) [OF l0(1) Inr q [symmetric]] s
      by (subst args_loop.simps) (auto simp: l0(1) Inr q Let_def intro: trans)
  qed
qed

lemma parseMacroArgsLexical_runs:
  "runs p (parseMacroArgsLexical nameTok capture p)
   \<and> (\<forall>x p'. parseMacroArgsLexical nameTok capture p = Inr (x, p') \<longrightarrow>
        rest_len p' < rest_len p \<and> p_stmtScratch p' = p_stmtScratch p)"
proof (cases "readToken (p_lex p)")
  case (Inl e)
  then show ?thesis
    using readToken_err [OF Inl] by (simp add: parseMacroArgsLexical_def with_lexer_def good_err_def)
next
  case (Inr q)
  obtain lp l where q: "q = (lp, l)" by (cases q)
  have l: "moves (p_lex p) l" "tok_kind lp \<noteq> tokEOF \<longrightarrow> lx_pos (p_lex p) < lx_pos l \<and> lx_pos l \<le> length (lx_src (p_lex p))"
    using readToken_ok [of "p_lex p" lp l] Inr q by auto
  define r where "r = args_loop nameTok (lexicalArgs (tok_id nameTok)) capture [] [] (l\<lparr>lx_inArgs := True\<rparr>)"
  have r: "case r of Inl e \<Rightarrow> is_ParseErr e | Inr (x, l') \<Rightarrow> lex_steps (l\<lparr>lx_inArgs := True\<rparr>) l'"
    unfolding r_def by (rule args_loop_ok)
  have eq: "parseMacroArgsLexical nameTok capture p =
    (if tok_kind lp \<noteq> tokLParen
     then Inl (throwParse l (tok_line lp) (tok_col lp) ''expected ( after macro name %q, got %s'' (tok_id nameTok # describeToken lp))
     else rbind r (\<lambda>(x, l). Inr (x, p\<lparr>p_lex := l\<lparr>lx_inArgs := False\<rparr>\<rparr>)))"
    using Inr by (simp add: parseMacroArgsLexical_def with_lexer_def q r_def) (simp add: rbind_def split: sum.splits)
  show ?thesis
  proof (cases "tok_kind lp = tokLParen")
    case True
    then show ?thesis
      using r l unfolding eq
      by (cases r) (auto simp: good_err_def steps_def keeps_def lex_steps_def moves_def rest_len_def)
  qed (simp add: eq)
qed

lemma parseMacroArgs_runs:
  "runs p (parseMacroArgs nameTok p)
   \<and> (\<forall>x p'. parseMacroArgs nameTok p = Inr (x, p') \<longrightarrow> rest_len p' < rest_len p \<and> p_stmtScratch p' = p_stmtScratch p)"
  unfolding parseMacroArgs_def
  using parseMacroArgsLexical_runs [of p nameTok False]
  by (cases "parseMacroArgsLexical nameTok False p") (auto simp: pbind_def pret_def)

section \<open>Macro calls\<close>

lemma append_built:
  assumes "name \<noteq> ''CPP_ENUMS_SERIALIZATION''"
  shows "case appendMacroCallStmts out fail name args lexical line of
      Inl e \<Rightarrow> (\<exists>fmt a. e = fail fmt a) | Inr stmts \<Rightarrow> (\<exists>stmt. stmts = out @ [stmt])"
proof (cases "arity_ok (stmtKindOf name) (length args)")
  case True
  then obtain stmt where b: "buildStmtForID fail name args line = Inr stmt"
    using buildStmtForID_built [of name args fail line] by (auto simp: built_def)
  show ?thesis
    using assms b attachLexical_total [OF _ b, of lexical] by (auto simp: appendMacroCallStmts_def)
next
  case False
  then obtain fmt a where "buildStmtForID fail name args line = Inl (fail fmt a)"
    using buildStmtForID_built [of name args fail line] by (auto simp: built_def)
  then show ?thesis using assms by (auto simp: appendMacroCallStmts_def)
qed

lemma macro_call_runs:
  assumes wf: "wf_token tok"
  shows "runs p (macro_call tok p)"
proof -
  define append_stmts where "append_stmts args lexical q =
    rbind (appendMacroCallStmts (p_stmtScratch q) (throwParse (p_lex q) (tok_line tok) (tok_col tok))
      (tok_id tok) args lexical (tok_line tok)) (\<lambda>stmts. Inr ((), q\<lparr>p_stmtScratch := stmts\<rparr>))" for args lexical and q :: Parser
  have tail: "runs q (pbind (append_stmts args lexical) (\<lambda>_. mark_internal tok) q)" for args lexical q
  proof (cases "tok_id tok = ''CPP_ENUMS_SERIALIZATION''")
    case True
    then have "tok_lead tok \<noteq> CHR ''_''" using wf by (simp add: wf_token_def)
    then show ?thesis
      using True by (simp add: append_stmts_def pbind_def appendMacroCallStmts_def mark_internal_def steps_def keeps_def)
  next
    case False
    show ?thesis
      using append_built [OF False, of "throwParse (p_lex q) (tok_line tok) (tok_col tok)" "p_stmtScratch q" args lexical "tok_line tok"]
      by (cases "appendMacroCallStmts (p_stmtScratch q) (throwParse (p_lex q) (tok_line tok) (tok_col tok)) (tok_id tok) args lexical (tok_line tok)")
        (auto simp: append_stmts_def pbind_def mark_internal_def steps_def keeps_def)
  qed
  have eq: "macro_call tok = pbind (parseMacroArgsLexical tok (capturesLexicalArgs (tok_id tok)))
      (\<lambda>(args, lexical). pbind (append_stmts args lexical) (\<lambda>_. mark_internal tok))"
    by (simp add: macro_call_def append_stmts_def [abs_def])
  show ?thesis
    unfolding eq by (rule runs_bind) (use parseMacroArgsLexical_runs tail in \<open>auto split: prod.split\<close>)
qed

section \<open>Includes\<close>

definition expand_safe :: "string list \<Rightarrow> string \<Rightarrow> expander \<Rightarrow> bool" where
  "expand_safe stack name expand \<longleftrightarrow>
     (\<forall>tok rel p. p_name p = name \<longrightarrow> p_includeStack p = stack \<longrightarrow> runs p (expand tok rel p))"

definition file_safe :: "FS \<Rightarrow> string list \<Rightarrow> file_parser \<Rightarrow> bool" where
  "file_safe fs chain parseFile \<longleftrightarrow>
     (\<forall>target src st. FS_exists fs target \<longrightarrow> target \<notin> set chain \<longrightarrow>
        (case parseFile target src chain st of Inl e \<Rightarrow> good_err e | Inr (mf, st') \<Rightarrow> is_chain st' = is_chain st))"

lemma try_memos_chain: "try_memos st ms = Some (ss, st') \<Longrightarrow> is_chain st' = is_chain st"
  by (induction ms) (auto simp: replay_def split: option.splits)

lemma note_event_chain [simp]: "is_chain (note_event f k st) = is_chain st"
  by (simp add: note_event_def)

lemma read_include_runs:
  assumes "file_safe fs chain parseFile" and "target \<notin> set chain"
  shows "runs p (read_include fs parseFile tok target chain p)"
proof (cases "FS_exists fs target \<and> (\<exists>src. FS_read fs target = Inr src)")
  case True
  then obtain src where src: "FS_read fs target = Inr src" by blast
  have "case parseFile target src chain (p_includes p) of Inl e \<Rightarrow> good_err e
      | Inr (mf, st') \<Rightarrow> is_chain st' = is_chain (p_includes p)"
    using assms True by (auto simp: file_safe_def)
  then show ?thesis
    using True src by (cases "parseFile target src chain (p_includes p)")
      (auto simp: read_include_def emit_all_def Let_def steps_def keeps_def)
next
  case False
  then show ?thesis by (auto simp: read_include_def FS_read_def split: option.splits)
qed

lemma include_target_Inr:
  "include_target tok rel p = Inr (t, p') \<Longrightarrow> p' = p"
  by (auto simp: include_target_def perror_def rbind_Inr split: if_splits)

lemma include_target_runs: "runs p (include_target tok rel p)"
  by (auto simp: include_target_def cleanRel_segments)

lemma expandOneInclude_runs:
  assumes "file_safe fs (stack @ [name]) parseFile"
  shows "expand_safe stack name (expandOneInclude fs parseFile)"
  unfolding expand_safe_def
proof (intro allI impI)
  fix tok rel and p :: Parser
  assume p: "p_name p = name" "p_includeStack p = stack"
  have at: "runs q (expandTarget fs parseFile tok target q)" if q: "p_name q = name" "p_includeStack q = stack" for target q
    using assms q read_include_runs [OF assms, of target q tok]
    by (auto simp: expandTarget_def Let_def emit_all_def steps_def keeps_def dest: try_memos_chain split: option.split)
  have rest: "runs q (if target \<in> is_once (p_includes q) then with_includes (note_event target includeSeen) q
      else pbind (with_includes (note_event target includeUnseen)) (\<lambda>_. expandTarget fs parseFile tok target) q)"
    if q: "p_name q = name" "p_includeStack q = stack" for target q
    using q at by (auto intro!: runs_with_includes runs_bind simp: steps_def keeps_def)
  have "expandOneInclude fs parseFile tok rel p =
    (if CHR ''$'' \<in> set (TrimPrefix rel arcadiaRoot) then emit_all [IncludeStmt (p_name p) rel (tok_line tok)] p
     else pbind (include_target tok rel) (\<lambda>target q.
       if target \<in> is_once (p_includes q) then with_includes (note_event target includeSeen) q
       else pbind (with_includes (note_event target includeUnseen)) (\<lambda>_. expandTarget fs parseFile tok target) q) p)"
    by (simp add: expandOneInclude_def)
  then show "runs p (expandOneInclude fs parseFile tok rel p)"
    using p rest include_target_runs by (auto intro!: runs_bind dest: include_target_Inr)
qed

lemma expandInclude_runs:
  assumes "expand_safe stack name expand" and "p_name p = name" and "p_includeStack p = stack"
  shows "runs p (expandInclude expand tok p)"
  unfolding expandInclude_def
  using parseMacroArgs_runs assms by (auto intro!: runs_bind simp: expand_safe_def steps_def keeps_def split: list.split)

lemma applyIncludeOnce_runs: "runs p (applyIncludeOnce tok p)"
  unfolding applyIncludeOnce_def
  using parseMacroArgs_runs by (auto intro!: runs_bind runs_with_includes)

section \<open>Blocks\<close>

text \<open>A block takes its statements off the shared buffer again.\<close>

definition blocks :: "nat \<Rightarrow> Parser \<Rightarrow> Parser \<Rightarrow> bool" where
  "blocks mark p p' \<longleftrightarrow> keeps p p' \<and> p_stmtScratch p' = take mark (p_stmtScratch p)"

lemma blocks_steps: "blocks (length (p_stmtScratch p)) p p' \<Longrightarrow> steps p p' \<and> p_stmtScratch p' = p_stmtScratch p"
  by (auto simp: blocks_def steps_def)

lemma steps_blocks: "steps p q \<Longrightarrow> blocks mark q p' \<Longrightarrow> mark \<le> length (p_stmtScratch p) \<Longrightarrow> blocks mark p p'"
  by (auto simp: steps_def blocks_def prefix_def intro: keeps_trans)

lemma steps_length: "steps p q \<Longrightarrow> mark \<le> length (p_stmtScratch p) \<Longrightarrow> mark \<le> length (p_stmtScratch q)"
  by (auto simp: steps_def prefix_def)

lemma outcome_mono: "outcome S q r \<Longrightarrow> (\<And>p'. S q p' \<Longrightarrow> R p p') \<Longrightarrow> outcome R p r"
  by (auto simp: outcome_def split: sum.splits)

lemma blocks_bind:
  assumes m: "runs p (m p)" and mark: "mark \<le> length (p_stmtScratch p)"
    and f: "\<And>x p'. m p = Inr (x, p') \<Longrightarrow> steps p p' \<Longrightarrow> mark \<le> length (p_stmtScratch p') \<Longrightarrow> outcome (blocks mark) p' (f x p')"
  shows "outcome (blocks mark) p (pbind m f p)"
proof (rule outcome_bind [where m = m and p = p, OF m])
  fix x p'
  assume a: "m p = Inr (x, p')" "steps p p'"
  show "outcome (\<lambda>_. blocks mark p) p' (f x p')"
    using f [OF a steps_length [OF a(2) mark]] steps_blocks [OF a(2) _ mark] by (rule outcome_mono)
qed

lemma take_block: "outcome (blocks mark) p (pbind (takeStmts mark) (\<lambda>stmts. pret (stmts, tok)) p)"
  by (simp add: takeStmts_def pbind_def pret_def blocks_def keeps_def)

lemma block_runs:
  assumes "\<And>mark. mark \<le> length (p_stmtScratch p) \<Longrightarrow> outcome (blocks mark) p (parseStmts_loop k expand term mark p)"
  shows "runs p (pbind mark_of (parseStmts_loop k expand term) p)"
proof -
  have "outcome (blocks (length (p_stmtScratch p))) p (parseStmts_loop k expand term (length (p_stmtScratch p)) p)"
    using assms by simp
  then show ?thesis by (auto simp: pbind_def mark_of_def elim!: outcome_mono dest: blocks_steps)
qed

definition loop_safe :: "string list \<Rightarrow> string \<Rightarrow> expander \<Rightarrow> nat \<Rightarrow> bool" where
  "loop_safe stack name expand k \<longleftrightarrow> (\<forall>term mark p. p_name p = name \<longrightarrow> p_includeStack p = stack \<longrightarrow>
     2 * rest_len p + 1 \<le> k \<longrightarrow> mark \<le> length (p_stmtScratch p) \<longrightarrow>
     outcome (blocks mark) p (parseStmts_loop k expand term mark p))"

definition if_safe :: "string list \<Rightarrow> string \<Rightarrow> expander \<Rightarrow> nat \<Rightarrow> bool" where
  "if_safe stack name expand k \<longleftrightarrow> (\<forall>tok p. p_name p = name \<longrightarrow> p_includeStack p = stack \<longrightarrow>
     2 * rest_len p + 1 \<le> k \<longrightarrow> runs p (parseIf k expand tok p))"

lemma keeps_same: "steps p q \<Longrightarrow> p_name q = p_name p \<and> p_includeStack q = p_includeStack p \<and> rest_len q \<le> rest_len p"
  using keeps_rest_len [of p q] by (auto simp: steps_def keeps_def)

lemma readToken_name:
  "with_lexer readToken p = Inr (tok, p') \<Longrightarrow> wf_token tok"
  by (auto simp: with_lexer_def rbind_Inr dest: readToken_wf)

lemma parseStmts_loop_safe:
  assumes e: "expand_safe stack name expand" and l: "loop_safe stack name expand k" and i: "if_safe stack name expand k"
  shows "loop_safe stack name expand (Suc k)"
  unfolding loop_safe_def
proof (intro allI impI)
  fix "term" mark and p :: Parser
  assume p: "p_name p = name" "p_includeStack p = stack" and k: "2 * rest_len p + 1 \<le> Suc k" and mark: "mark \<le> length (p_stmtScratch p)"
  show "outcome (blocks mark) p (parseStmts_loop (Suc k) expand term mark p)"
    unfolding parseStmts_loop.simps
  proof (rule blocks_bind [where m = "with_lexer readToken" and p = p, OF runs_readToken mark], goal_cases)
    case (1 tok q)
    note q = keeps_same [OF 1(2)] and wf = readToken_name [OF 1(1)]
    define call where "call = (if tok_id tok = ''IF'' then pbind (parseIf k expand tok) (\<lambda>st. emit_all [st])
       else if tok_id tok = ''INCLUDE'' then expandInclude expand tok
       else if tok_id tok = ''INCLUDE_ONCE'' then applyIncludeOnce tok else macro_call tok)"
    have call: "runs q (call q)" if "rest_len q < rest_len p"
    proof -
      have "runs q (parseIf k expand tok q)" using i q p k that by (simp add: if_safe_def)
      then show ?thesis
        unfolding call_def using e q p applyIncludeOnce_runs macro_call_runs [OF wf] expandInclude_runs [OF e]
        by (simp add: runs_bind)
    qed
    have next_round: "outcome (blocks mark) q (pbind call (\<lambda>_. parseStmts_loop k expand term mark) q)" if "rest_len q < rest_len p"
    proof (rule blocks_bind [where m = call and p = q, OF call [OF that] 1(3)], goal_cases)
      case (1 _ q')
      then show ?case using l q p k that keeps_same [OF 1(2)] by (simp add: loop_safe_def)
    qed
    have "tok_kind tok \<noteq> tokEOF \<Longrightarrow> rest_len q < rest_len p" using readToken_shrinks [OF 1(1)] .
    then show ?case using next_round unfolding call_def by (simp add: take_block)
  qed
qed

lemma args_then:
  assumes "\<And>args q. steps p q \<Longrightarrow> rest_len q < rest_len p \<Longrightarrow> runs q (f args q)"
  shows "runs p (pbind (parseMacroArgs tok) f p)"
  using parseMacroArgs_runs assms by (intro runs_bind) blast+

lemma block_then:
  assumes l: "loop_safe stack name expand k" and p: "p_name p = name" "p_includeStack p = stack" "2 * rest_len p + 1 \<le> k"
    and f: "\<And>body endTok q. steps p q \<Longrightarrow> runs q (f (body, endTok) q)"
  shows "runs p (pbind (pbind mark_of (parseStmts_loop k expand term)) f p)"
proof (rule runs_bind)
  show "runs p (pbind mark_of (parseStmts_loop k expand term) p)"
    using l p by (intro block_runs) (simp add: loop_safe_def)
  fix x q
  assume "steps p q"
  then show "runs q (f x q)" using f by (cases x) blast
qed

lemma if_tail_runs:
  assumes block: "\<And>q. steps p q \<Longrightarrow> runs q (block q)" and nested: "runs p (nested endTok p)"
  shows "runs p (if_tail block nested node endTok p)"
proof -
  have "runs q (pbind block (\<lambda>(elseBody, endIf).
      if tok_kind endIf = tokEOF then pret (node elseBody)
      else if tok_id endIf \<noteq> ''ENDIF''
      then perror (tok_line endIf) (tok_col endIf) ''expected ENDIF after ELSE block, got %s'' [tok_id endIf]
      else pbind (parseMacroArgs endIf) (\<lambda>_. pret (node elseBody))) q)" if "steps p q" for q
    by (rule runs_bind) (auto intro: args_then block [OF that] split: prod.split)
  then show ?thesis unfolding if_tail_def using nested by (auto intro: args_then runs_bind)
qed

lemma parseIf_safe:
  assumes l: "loop_safe stack name expand k" and i: "if_safe stack name expand k"
  shows "if_safe stack name expand (Suc k)"
  unfolding if_safe_def
proof (intro allI impI)
  fix tok and p :: Parser
  assume p: "p_name p = name" "p_includeStack p = stack" and k: "2 * rest_len p + 1 \<le> Suc k"
  have block: "runs s (pbind mark_of (parseStmts_loop k expand termIfBody) s)"
    if "p_name s = name" "p_includeStack s = stack" "2 * rest_len s + 1 \<le> k" for s
    using l that by (intro block_runs) (simp add: loop_safe_def)
  show "runs p (parseIf (Suc k) expand tok p)"
    unfolding parseIf.simps
  proof (rule args_then)
    fix args q
    assume q: "steps p q" "rest_len q < rest_len p"
    note q' = keeps_same [OF q(1)]
    have kq: "2 * rest_len q + 1 \<le> k" using q(2) k by simp
    have tail: "runs r (if_tail (pbind mark_of (parseStmts_loop k expand termIfBody)) (parseIf k expand) node endTok r)"
      if "steps q r" for node endTok r
      using i p q' kq keeps_same [OF that]
      by (intro if_tail_runs block) (auto simp: if_safe_def dest: keeps_same)
    show "runs q (pbind (pbind mark_of (parseStmts_loop k expand termIfBody)) (\<lambda>(thenBody, endTok).
       if_tail (pbind mark_of (parseStmts_loop k expand termIfBody)) (parseIf k expand)
         (\<lambda>els. IfStmt (compileIfCond (map ANY_string args)) thenBody els (tok_line tok)) endTok) q)"
      by (rule block_then [OF l]) (use p q' kq tail in auto)
  qed
qed

lemma blocks_safe: "expand_safe stack name expand \<Longrightarrow> loop_safe stack name expand k \<and> if_safe stack name expand k"
proof (induction k)
  case 0
  then show ?case by (simp add: loop_safe_def if_safe_def)
next
  case (Suc k)
  then show ?case using parseStmts_loop_safe parseIf_safe by blast
qed

section \<open>Files\<close>

lemma parse_source_safe:
  assumes "expand_safe stack name expand"
  shows "case parse_source expand name src stack st of Inl e \<Rightarrow> good_err e | Inr (mf, st') \<Rightarrow> is_chain st' = is_chain st"
proof -
  define src' where "src' = TrimPrefix src utf8_bom"
  define p where "p = newParser name src' stack st"
  have "loop_safe stack name expand (block_fuel src')" using blocks_safe assms by blast
  moreover have "2 * rest_len p + 1 \<le> block_fuel src'"
    by (simp add: p_def newParser_def rest_len_def newLexer_def block_fuel_def)
  ultimately have "runs p (parseStmts (block_fuel src') expand termTopLevel p)"
    unfolding parseStmts_def by (intro block_runs) (simp add: loop_safe_def p_def newParser_def)
  then show ?thesis
    by (cases "parseStmts (block_fuel src') expand termTopLevel p")
      (auto simp: parse_source_def Let_def src'_def [symmetric] p_def [symmetric] steps_def keeps_def, simp add: p_def newParser_def)
qed

definition present :: "FS \<Rightarrow> string set" where
  "present fs = {t. FS_exists fs t}"

lemma finite_present: "finite (present fs)" and card_present: "card (present fs) \<le> length (fs_files fs) + length (fs_dirs fs)"
proof -
  have eq: "present fs = set (map fst (fs_files fs) @ fs_dirs fs)" by (auto simp: present_def FS_exists_def)
  show "finite (present fs)" unfolding eq by (rule finite_set)
  show "card (present fs) \<le> length (fs_files fs) + length (fs_dirs fs)"
    unfolding eq using card_length [of "map fst (fs_files fs) @ fs_dirs fs"] by simp
qed

text \<open>An included file has fewer files left to include.\<close>

lemma deeper_chain:
  assumes "FS_exists fs target" and "target \<notin> set chain" and "card (present fs - set chain) < Suc n"
  shows "card (present fs - set (chain @ [target])) < n"
proof -
  have "present fs - set (chain @ [target]) \<subset> present fs - set chain" using assms(1,2) by (auto simp: present_def)
  then have "card (present fs - set (chain @ [target])) < card (present fs - set chain)"
    by (intro psubset_card_mono) (simp_all add: finite_present)
  then show ?thesis using assms(3) by linarith
qed

lemma parseInternalWithState_safe:
  "card (present fs - set (stack @ [name])) < n \<Longrightarrow>
   case parseInternalWithState n fs name src stack st of Inl e \<Rightarrow> good_err e | Inr (mf, st') \<Rightarrow> is_chain st' = is_chain st"
proof (induction n arbitrary: name src stack st)
  case (Suc n)
  have "file_safe fs (stack @ [name]) (parseInternalWithState n fs)"
    unfolding file_safe_def
  proof (intro allI impI)
    fix target src st
    assume "FS_exists fs target" "target \<notin> set (stack @ [name])"
    then have "card (present fs - set ((stack @ [name]) @ [target])) < n" using Suc.prems by (rule deeper_chain)
    then show "case parseInternalWithState n fs target src (stack @ [name]) st of Inl e \<Rightarrow> good_err e
        | Inr (mf, st') \<Rightarrow> is_chain st' = is_chain st"
      by (rule Suc.IH)
  qed
  then have "expand_safe stack name (expandOneInclude fs (parseInternalWithState n fs))" by (rule expandOneInclude_runs)
  then show ?case unfolding parseInternalWithState.simps by (rule parse_source_safe)
qed simp

text \<open>
  C12: Parsing a file ends, whatever the file, the files it includes and the recorded includes hold:
  the result is a make file, a parse error with a position or an error of the file system, and never
  an index out of range, a failed type assertion or a lack of fuel. Files that include each other
  are therefore found out, and a block is never deeper than its source is long.
\<close>

theorem parse_total:
  "case parse fs name src memos of
     Inl e \<Rightarrow> (\<exists>pe. e = ParseErr pe) \<or> (\<exists>fmt args. e = Thrown fmt args)
   | Inr (mf, memos') \<Rightarrow> mf_Path mf = name"
proof -
  let ?n = "length (fs_files fs) + length (fs_dirs fs) + 1"
  have "card (present fs - set ([] @ [name])) \<le> card (present fs)" by (intro card_mono) (auto simp: finite_present)
  then have "card (present fs - set ([] @ [name])) < ?n" using card_present [of fs] by linarith
  note safe = parseInternalWithState_safe [OF this, where src = src and st = "newIncludeState memos"]
  have "mf_Path mf = name" if "parseInternalWithState ?n fs name src [] (newIncludeState memos) = Inr (mf, st)" for mf st
    using that by (auto simp: parse_source_def Let_def rbind_Inr)
  then show ?thesis
    using safe unfolding parse_def
    by (cases "parseInternalWithState ?n fs name src [] (newIncludeState memos)") (auto simp: good_err_def is_ParseErr_def)
qed

end
