(* ===== verification/Ay_Include.thy ===== *)
theory Ay_Include
  imports Ay_ParseSafe
begin

text \<open>
  Recorded includes do not change what is parsed. The parser keeps, for every included file, the
  statements it gave and the events of its inclusion, and replays a record whose events fit the
  present state. The specification is the parser without the table of records.

  The proof compares runs of the parser pairwise. The locale \<open>psim\<close> holds what is common: a relation
  between two parsers that the actions of the parser keep is kept by the whole of \<open>parseStmts\<close>. It is
  interpreted three times: for two fuels of the specification, for two states in which the same
  events happen, and for the parser against the specification.
\<close>

section \<open>Events\<close>

definition added_files :: "includeEvent list \<Rightarrow> string list" where
  "added_files ev = map fst (filter (\<lambda>e. snd e = includeOnce) ev)"

fun consistent :: "string set \<Rightarrow> string list \<Rightarrow> includeEvent list \<Rightarrow> bool" where
  "consistent once chain [] = True"
| "consistent once chain ((file, kind) # es) =
     (if kind = includeOnce then consistent (insert file once) chain es
      else (file \<in> once \<longleftrightarrow> kind = includeSeen) \<and> (file \<notin> once \<longrightarrow> file \<notin> set chain) \<and> consistent once chain es)"

lemma added_files_simps [simp]:
  "added_files [] = []" "added_files (e # es) = (if snd e = includeOnce then fst e # added_files es else added_files es)"
  "added_files (xs @ ys) = added_files xs @ added_files ys"
  by (simp_all add: added_files_def)

lemma replay_scan_consistent:
  "replay_scan once chain added ev =
     (if consistent (once \<union> set added) chain ev then Some (added @ added_files ev) else None)"
proof (induction once chain added ev rule: replay_scan.induct)
  case (2 once chain added f kind es)
  show ?case
  proof (cases "kind = includeOnce")
    case True
    then show ?thesis using 2(1) by simp
  next
    case False
    have "(f \<in> once \<or> f \<in> set added) \<noteq> (kind = includeSeen) \<or> \<not> (f \<in> once \<or> f \<in> set added) \<and> f \<in> set chain
      \<longleftrightarrow> \<not> ((f \<in> once \<union> set added \<longleftrightarrow> kind = includeSeen) \<and> (f \<notin> once \<union> set added \<longrightarrow> f \<notin> set chain))" by auto
    then show ?thesis using False 2(2) [OF False refl] by (simp add: Let_def)
  qed
qed simp

lemma consistent_append:
  "consistent once chain (xs @ ys) \<longleftrightarrow> consistent once chain xs \<and> consistent (once \<union> set (added_files xs)) chain ys"
  by (induction once chain xs rule: consistent.induct) auto

lemma consistent_chain:
  "consistent once chain ev \<Longrightarrow> consistent once' chain' ev \<Longrightarrow> consistent once' (chain' @ [t]) ev"
  if "t \<in> set chain"
  using that by (induction once chain ev arbitrary: once' rule: consistent.induct) (auto split: if_splits)

definition record_events :: "includeEvent list \<Rightarrow> IncludeState \<Rightarrow> IncludeState" where
  "record_events ev st = st\<lparr>is_once := is_once st \<union> set (added_files ev), is_events := is_events st @ ev\<rparr>"

lemma record_events_simps [simp]:
  "is_once (record_events ev st) = is_once st \<union> set (added_files ev)" "is_events (record_events ev st) = is_events st @ ev"
  "is_chain (record_events ev st) = is_chain st" "is_memos (record_events ev st) = is_memos st"
  by (simp_all add: record_events_def)

lemma record_events_append: "record_events ys (record_events xs st) = record_events (xs @ ys) st"
  by (simp add: record_events_def Un_assoc)

lemma record_nil [simp]: "record_events [] st = st"
  by (simp add: record_events_def)

lemma note_seen: "kind \<noteq> includeOnce \<Longrightarrow> note_event f kind st = record_events [(f, kind)] st"
  by (simp add: note_event_def record_events_def)

lemma note_once: "note_event f includeOnce (st\<lparr>is_once := insert f (is_once st)\<rparr>) = record_events [(f, includeOnce)] st"
  by (simp add: note_event_def record_events_def)

lemma replay_record:
  "replay st m = (if consistent (is_once st) (is_chain st) (im_events m) then Some (record_events (im_events m) st) else None)"
  by (simp add: replay_def replay_scan_consistent record_events_def)

text \<open>How the state of a parser evolves: events happen that fit the state they happen in.\<close>

definition evol :: "IncludeState \<Rightarrow> IncludeState \<Rightarrow> bool" where
  "evol st st' \<longleftrightarrow> (\<exists>ev. consistent (is_once st) (is_chain st) ev
     \<and> is_events st' = is_events st @ ev \<and> is_once st' = is_once st \<union> set (added_files ev) \<and> is_chain st' = is_chain st)"

definition evolves :: "Parser \<Rightarrow> Parser \<Rightarrow> bool" where
  "evolves p p' \<longleftrightarrow> p_name p' = p_name p \<and> p_includeStack p' = p_includeStack p \<and> evol (p_includes p) (p_includes p')"

definition chain_ok :: "Parser \<Rightarrow> bool" where
  "chain_ok p \<longleftrightarrow> is_chain (p_includes p) = p_includeStack p @ [p_name p]"

lemma evol_refl [simp]: "evol st st"
  unfolding evol_def by (rule exI [of _ "[]"]) simp

lemma evol_record: "consistent (is_once st) (is_chain st) ev \<Longrightarrow> evol st (record_events ev st)"
  by (auto simp: evol_def)

lemma evol_trans: "evol a b \<Longrightarrow> evol b c \<Longrightarrow> evol a c"
proof -
  assume "evol a b" "evol b c"
  then obtain xs ys where "consistent (is_once a) (is_chain a) xs" "is_events b = is_events a @ xs"
    "is_once b = is_once a \<union> set (added_files xs)" "is_chain b = is_chain a"
    "consistent (is_once b) (is_chain b) ys" "is_events c = is_events b @ ys" "is_once c = is_once b \<union> set (added_files ys)"
    "is_chain c = is_chain b" by (auto simp: evol_def)
  then show "evol a c" unfolding evol_def by (intro exI [of _ "xs @ ys"]) (auto simp: consistent_append)
qed

lemma evolves_refl [simp]: "evolves p p"
  by (simp add: evolves_def)

lemma evolves_trans: "evolves a b \<Longrightarrow> evolves b c \<Longrightarrow> evolves a c"
  by (auto simp: evolves_def intro: evol_trans)

lemma evolves_chain_ok: "evolves p p' \<Longrightarrow> chain_ok p \<Longrightarrow> chain_ok p'"
  by (auto simp: evolves_def chain_ok_def evol_def)

section \<open>The specification: no records\<close>

text \<open>The common part of the two expansions, with the treatment of a target that was not seen.\<close>

definition on_target :: "(string \<Rightarrow> unit P) \<Rightarrow> string \<Rightarrow> unit P" where
  "on_target a target = (\<lambda>p.
     if target \<in> is_once (p_includes p) then with_includes (note_event target includeSeen) p
     else pbind (with_includes (note_event target includeUnseen)) (\<lambda>_. a target) p)"

definition expand_with :: "(string \<Rightarrow> unit P) \<Rightarrow> expander" where
  "expand_with a nameTok rel = (\<lambda>p.
     if CHR ''$'' \<in> set (TrimPrefix rel arcadiaRoot)
     then emit_all [IncludeStmt (p_name p) rel (tok_line nameTok)] p
     else pbind (include_target nameTok rel) (on_target a) p)"

lemma expandOneInclude_with: "expandOneInclude fs pf tok = expand_with (expandTarget fs pf tok) tok"
  by (simp add: fun_eq_iff expandOneInclude_def expand_with_def on_target_def [abs_def])

definition read_plain :: "FS \<Rightarrow> file_parser \<Rightarrow> Token \<Rightarrow> string \<Rightarrow> string list \<Rightarrow> unit P" where
  "read_plain fs parseFile nameTok target chain = (\<lambda>p.
     if \<not> FS_exists fs target then emit_all [MissingIncludeStmt target (tok_line nameTok)] p
     else rbind (FS_read fs target) (\<lambda>src.
            rbind (parseFile target src chain (p_includes p)) (\<lambda>(included, st).
              emit_all (mf_Stmts included) (p\<lparr>p_includes := st\<rparr>))))"

definition target_plain :: "FS \<Rightarrow> file_parser \<Rightarrow> Token \<Rightarrow> string \<Rightarrow> unit P" where
  "target_plain fs parseFile nameTok target = (\<lambda>p.
     let chain = p_includeStack p @ [p_name p]
     in if target \<in> set chain
        then perror (tok_line nameTok) (tok_col nameTok) ''INCLUDE cycle: %s'' [join_strings '' -> '' (chain @ [target])] p
        else read_plain fs parseFile nameTok target chain p)"

definition expand_plain :: "FS \<Rightarrow> file_parser \<Rightarrow> expander" where
  "expand_plain fs parseFile tok = expand_with (target_plain fs parseFile tok) tok"

primrec plain_file :: "nat \<Rightarrow> FS \<Rightarrow> file_parser" where
  "plain_file 0 fs = (\<lambda>name src stack includes. Inl OutOfFuel)"
| "plain_file (Suc n) fs = parse_source (expand_plain fs (plain_file n fs))"

definition depth :: "FS \<Rightarrow> nat" where
  "depth fs = length (fs_files fs) + length (fs_dirs fs) + 1"

definition parse_plain :: "FS \<Rightarrow> string \<Rightarrow> MakeFile result" where
  "parse_plain fs key = rbind (FS_read fs key) (\<lambda>src.
     rbind (plain_file (depth fs) fs key src [] (newIncludeState (\<lambda>_. []))) (\<lambda>(mf, _). Inr mf))"

section \<open>Related runs\<close>

locale psim =
  fixes R :: "Parser \<Rightarrow> Parser \<Rightarrow> bool" and ok :: "Parser \<Rightarrow> bool" and err :: "go_error \<Rightarrow> bool"
  assumes same: "R p q \<Longrightarrow> p_lex q = p_lex p \<and> p_name q = p_name p \<and> p_stmtScratch q = p_stmtScratch p"
    and with_lex: "R p q \<Longrightarrow> R (p\<lparr>p_lex := l\<rparr>) (q\<lparr>p_lex := l\<rparr>)"
    and with_scratch: "R p q \<Longrightarrow> R (p\<lparr>p_stmtScratch := ss\<rparr>) (q\<lparr>p_stmtScratch := ss\<rparr>)"
    and with_once: "R p q \<Longrightarrow> ok (p\<lparr>p_includes := record_events [(p_name p, includeOnce)] (p_includes p)\<rparr>) \<Longrightarrow>
      R (p\<lparr>p_includes := record_events [(p_name p, includeOnce)] (p_includes p)\<rparr>)
        (q\<lparr>p_includes := record_events [(p_name p, includeOnce)] (p_includes q)\<rparr>)"
    and chain: "R p q \<Longrightarrow> chain_ok p"
    and ok_back: "ok p' \<Longrightarrow> evolves p p' \<Longrightarrow> ok p"
    and ok_err: "err e \<Longrightarrow> ok p"
begin

text \<open>
  An action is related to another one if every success that \<open>ok\<close> admits is matched, with the same
  value, and every error that \<open>err\<close> admits is the same error.
\<close>

definition rel :: "'a P \<Rightarrow> 'a P \<Rightarrow> bool" where
  "rel f g \<longleftrightarrow>
     (\<forall>p x p'. chain_ok p \<longrightarrow> f p = Inr (x, p') \<longrightarrow> evolves p p')
     \<and> (\<forall>p q. R p q \<longrightarrow>
          (\<forall>e. f p = Inl e \<longrightarrow> err e \<longrightarrow> g q = Inl e)
          \<and> (\<forall>x p'. f p = Inr (x, p') \<longrightarrow> ok p' \<longrightarrow> (\<exists>q'. g q = Inr (x, q') \<and> R p' q')))"

lemma relI:
  assumes "\<And>p x p'. chain_ok p \<Longrightarrow> f p = Inr (x, p') \<Longrightarrow> evolves p p'"
    and "\<And>p q e. R p q \<Longrightarrow> f p = Inl e \<Longrightarrow> err e \<Longrightarrow> g q = Inl e"
    and "\<And>p q x p'. R p q \<Longrightarrow> f p = Inr (x, p') \<Longrightarrow> ok p' \<Longrightarrow> \<exists>q'. g q = Inr (x, q') \<and> R p' q'"
  shows "rel f g"
  using assms by (auto simp: rel_def)

lemma rel_evolves: "rel f g \<Longrightarrow> chain_ok p \<Longrightarrow> f p = Inr (x, p') \<Longrightarrow> evolves p p'"
  by (simp add: rel_def)

lemma rel_Inl: "rel f g \<Longrightarrow> R p q \<Longrightarrow> f p = Inl e \<Longrightarrow> err e \<Longrightarrow> g q = Inl e"
  by (simp add: rel_def)

lemma rel_Inr: "rel f g \<Longrightarrow> R p q \<Longrightarrow> f p = Inr (x, p') \<Longrightarrow> ok p' \<Longrightarrow> \<exists>q'. g q = Inr (x, q') \<and> R p' q'"
  by (simp add: rel_def)

lemma rel_bind:
  assumes m: "rel m m'" and f: "\<And>x. rel (f x) (f' x)"
  shows "rel (pbind m f) (pbind m' f')"
proof (rule relI)
  fix p x p'
  assume p: "chain_ok p" "pbind m f p = Inr (x, p')"
  then obtain y p1 where s: "m p = Inr (y, p1)" "f y p1 = Inr (x, p')" by (auto simp: pbind_Inr)
  have "evolves p p1" by (rule rel_evolves [OF m p(1) s(1)])
  then show "evolves p p'" using rel_evolves [OF f evolves_chain_ok [OF _ p(1)] s(2)] evolves_trans by blast
next
  fix p q e
  assume a: "R p q" "pbind m f p = Inl e" "err e"
  then consider "m p = Inl e" | y p1 where "m p = Inr (y, p1)" "f y p1 = Inl e" by (auto simp: pbind_def rbind_Inl)
  then show "pbind m' f' q = Inl e"
  proof cases
    case 1
    then show ?thesis using rel_Inl [OF m a(1)] a(3) by (simp add: pbind_def)
  next
    case 2
    obtain q1 where "m' q = Inr (y, q1)" "R p1 q1" using rel_Inr [OF m a(1) 2(1) ok_err [OF a(3)]] by blast
    then show ?thesis using rel_Inl [OF f _ 2(2) a(3)] by (simp add: pbind_def)
  qed
next
  fix p q x p'
  assume a: "R p q" "pbind m f p = Inr (x, p')" "ok p'"
  then obtain y p1 where s: "m p = Inr (y, p1)" "f y p1 = Inr (x, p')" by (auto simp: pbind_Inr)
  have "chain_ok p1" using rel_evolves [OF m chain [OF a(1)] s(1)] evolves_chain_ok chain [OF a(1)] by blast
  then have "ok p1" using rel_evolves [OF f _ s(2)] ok_back [OF a(3)] by blast
  then obtain q1 where "m' q = Inr (y, q1)" "R p1 q1" using rel_Inr [OF m a(1) s(1)] by blast
  then show "\<exists>q'. pbind m' f' q = Inr (x, q') \<and> R p' q'"
    using rel_Inr [OF f _ s(2) a(3)] by (fastforce simp: pbind_def)
qed

lemma rel_pret: "rel (pret x) (pret x)"
  by (rule relI) (auto simp: pret_def)

lemma rel_error: "rel (\<lambda>p. Inl e) (\<lambda>p. Inl e)"
  by (rule relI) auto

lemma rel_perror: "rel (perror line col fmt args) (perror line col fmt args)"
  by (rule relI) (auto simp: perror_def dest: same)

lemma rel_with_lexer: "rel (with_lexer f) (with_lexer f)"
proof -
  have s: "p_lex q = p_lex p" if "R p q" for p q using same [OF that] by simp
  show ?thesis
    by (rule relI) (auto simp: with_lexer_def rbind_Inl rbind_Inr evolves_def s intro!: with_lex)
qed

text \<open>Actions on the statement buffer.\<close>

lemma rel_scratch:
  assumes "\<And>p. f p = (case h (p_lex p) (p_stmtScratch p) of Inl e \<Rightarrow> Inl e | Inr (x, ss) \<Rightarrow> Inr (x, p\<lparr>p_stmtScratch := ss\<rparr>))"
  shows "rel f f"
proof -
  have s: "p_lex q = p_lex p" "p_stmtScratch q = p_stmtScratch p" if "R p q" for p q using same [OF that] by simp_all
  show ?thesis
    by (rule relI) (auto simp: assms evolves_def s intro: with_scratch split: sum.splits)
qed

lemma rel_emit_all: "rel (emit_all ss) (emit_all ss)"
  by (rule rel_scratch [of _ "\<lambda>_ s. Inr ((), s @ ss)"]) (simp add: emit_all_def)

lemma rel_mark_of: "rel mark_of mark_of"
  by (rule rel_scratch [of _ "\<lambda>_ s. Inr (length s, s)"]) (simp add: mark_of_def)

lemma rel_takeStmts: "rel (takeStmts mark) (takeStmts mark)"
  by (rule rel_scratch [of _ "\<lambda>_ s. Inr (drop mark s, take mark s)"]) (simp add: takeStmts_def)

lemma rel_mark_internal: "rel (mark_internal tok) (mark_internal tok)"
  by (rule rel_scratch [of _ "\<lambda>_ s. if tok_lead tok \<noteq> CHR ''_'' then Inr ((), s) else if s = [] then Inl IndexPanic
        else Inr ((), butlast s @ [set_internal (last s)])"]) (simp add: mark_internal_def)

lemma rel_append:
  "rel (\<lambda>p. rbind (appendMacroCallStmts (p_stmtScratch p) (throwParse (p_lex p) line col) name args lexical ln)
         (\<lambda>stmts. Inr ((), p\<lparr>p_stmtScratch := stmts\<rparr>)))
       (\<lambda>p. rbind (appendMacroCallStmts (p_stmtScratch p) (throwParse (p_lex p) line col) name args lexical ln)
         (\<lambda>stmts. Inr ((), p\<lparr>p_stmtScratch := stmts\<rparr>)))"
  by (rule rel_scratch [of _ "\<lambda>l s. rbind (appendMacroCallStmts s (throwParse l line col) name args lexical ln) (\<lambda>stmts. Inr ((), stmts))"])
    (simp add: rbind_def split: sum.split)

lemma rel_once:
  "rel (\<lambda>p. with_includes (\<lambda>st. note_event (p_name p) includeOnce (st\<lparr>is_once := insert (p_name p) (is_once st)\<rparr>)) p)
       (\<lambda>p. with_includes (\<lambda>st. note_event (p_name p) includeOnce (st\<lparr>is_once := insert (p_name p) (is_once st)\<rparr>)) p)"
proof -
  have s: "p_name q = p_name p" if "R p q" for p q using same [OF that] by simp
  show ?thesis
    unfolding note_once
    by (rule relI) (auto simp: with_includes_def evolves_def s intro!: evol_record intro: with_once)
qed

subsection \<open>The parser\<close>

lemma rel_if: "(c \<Longrightarrow> rel f f') \<Longrightarrow> (\<not> c \<Longrightarrow> rel g g') \<Longrightarrow> rel (if c then f else g) (if c then f' else g')"
  by simp

lemma rel_prod: "(\<And>a b. rel (f a b) (g a b)) \<Longrightarrow> rel (case x of (a, b) \<Rightarrow> f a b) (case x of (a, b) \<Rightarrow> g a b)"
  by (cases x) simp

lemma rel_args: "rel (parseMacroArgsLexical tok c) (parseMacroArgsLexical tok c)"
  unfolding parseMacroArgsLexical_def by (rule rel_with_lexer)

lemma rel_parseMacroArgs: "rel (parseMacroArgs tok) (parseMacroArgs tok)"
  unfolding parseMacroArgs_def by (rule rel_bind [OF rel_args]) (simp add: rel_pret split: prod.split)

lemmas rel_basic = rel_pret rel_error rel_perror rel_with_lexer rel_emit_all rel_mark_of rel_takeStmts rel_mark_internal
  rel_append rel_once rel_args rel_parseMacroArgs

lemma rel_macro_call: "rel (macro_call tok) (macro_call tok)"
  unfolding macro_call_def by (intro rel_bind rel_prod rel_basic)

lemma rel_applyIncludeOnce: "rel (applyIncludeOnce tok) (applyIncludeOnce tok)"
  unfolding applyIncludeOnce_def by (intro rel_bind rel_if rel_basic)

lemma rel_expandInclude: "(\<And>tok rel_path. rel (e tok rel_path) (e' tok rel_path)) \<Longrightarrow> rel (expandInclude e tok) (expandInclude e' tok)"
  unfolding expandInclude_def by (intro rel_bind rel_basic) (simp add: rel_perror split: list.split)

lemma rel_if_tail:
  assumes "rel block block'" and "\<And>tok. rel (nested tok) (nested' tok)"
  shows "rel (if_tail block nested node tok) (if_tail block' nested' node tok)"
  unfolding if_tail_def by (intro rel_if rel_bind rel_prod rel_basic assms)

lemma rel_blocks:
  assumes "\<And>tok path. rel (e tok path) (e' tok path)"
  shows "(\<forall>term mark. rel (parseStmts_loop k e term mark) (parseStmts_loop k e' term mark))
    \<and> (\<forall>tok. rel (parseIf k e tok) (parseIf k e' tok))"
proof (induction k)
  case 0
  show ?case by (simp add: rel_error)
next
  case (Suc k)
  have loop: "rel (parseStmts_loop k e term mark) (parseStmts_loop k e' term mark)" for "term" mark using Suc by blast
  have block: "rel (pbind mark_of (parseStmts_loop k e term)) (pbind mark_of (parseStmts_loop k e' term))" for "term"
    by (intro rel_bind rel_basic loop)
  have ifs: "rel (parseIf k e tok) (parseIf k e' tok)" for tok using Suc by blast
  have "rel (parseStmts_loop (Suc k) e term mark) (parseStmts_loop (Suc k) e' term mark)" for "term" mark
    unfolding parseStmts_loop.simps
    by (intro rel_bind rel_if rel_basic loop ifs rel_expandInclude assms rel_applyIncludeOnce rel_macro_call)
  moreover have "rel (parseIf (Suc k) e tok) (parseIf (Suc k) e' tok)" for tok
    unfolding parseIf.simps
    by (intro rel_bind rel_prod rel_if_tail rel_parseMacroArgs rel_mark_of loop ifs)
  ultimately show ?case by blast
qed

lemma rel_parseStmts:
  assumes "\<And>tok path. rel (e tok path) (e' tok path)"
  shows "rel (parseStmts k e term) (parseStmts k e' term)"
proof -
  have "rel (parseStmts_loop k e term mark) (parseStmts_loop k e' term mark)" for mark
    using rel_blocks [of e e' k] assms by blast
  then show ?thesis unfolding parseStmts_def by (intro rel_bind rel_basic)
qed

lemma rel_include_target: "rel (include_target tok path) (include_target tok path)"
proof (rule relI)
  fix p q e
  assume "R p q" "include_target tok path p = Inl e" "err e"
  then show "include_target tok path q = Inl e"
    using same [of p q] by (auto simp: include_target_def perror_def cleanRel_segments split: if_splits)
next
  fix p q x p'
  assume "R p q" "include_target tok path p = Inr (x, p')" "ok p'"
  then show "\<exists>q'. include_target tok path q = Inr (x, q') \<and> R p' q'"
    using same [of p q] by (auto simp: include_target_def perror_def cleanRel_segments split: if_splits)
qed (auto dest: include_target_Inr)

lemma rel_expand_with:
  assumes "\<And>t. rel (on_target a t) (on_target a' t)"
  shows "rel (expand_with a tok path) (expand_with a' tok path)"
proof (cases "CHR ''$'' \<in> set (TrimPrefix path arcadiaRoot)")
  case True
  have "p_name q = p_name p" if "R p q" for p q using same [OF that] by simp
  moreover have "p_stmtScratch q = p_stmtScratch p" if "R p q" for p q using same [OF that] by simp
  ultimately show ?thesis
    using True by (intro relI) (auto simp: expand_with_def emit_all_def evolves_def intro: with_scratch)
next
  case False
  then have "expand_with b tok path = pbind (include_target tok path) (on_target b)" for b
    by (simp add: expand_with_def fun_eq_iff)
  then show ?thesis by (simp add: rel_bind rel_include_target assms)
qed

end

section \<open>Including a file\<close>

lemma consistent_subchain: "consistent once chain ev \<Longrightarrow> set chain' \<subseteq> set chain \<Longrightarrow> consistent once chain' ev"
  by (induction once chain ev rule: consistent.induct) (auto split: if_splits)

text \<open>\<open>advances\<close>: what the action on an unseen target does to the state of the includes.\<close>

definition advances :: "(string \<Rightarrow> unit P) \<Rightarrow> bool" where
  "advances a \<longleftrightarrow> (\<forall>t p x p'. chain_ok p \<longrightarrow> a t p = Inr (x, p') \<longrightarrow>
     t \<notin> set (is_chain (p_includes p)) \<and> evolves p p')"

lemma evol_unseen:
  assumes "t \<notin> is_once st" "t \<notin> set (is_chain st)" "evol (note_event t includeUnseen st) st'"
  shows "evol st st'"
proof -
  have "evol st (note_event t includeUnseen st)"
    using assms(1,2) evol_record [of st "[(t, includeUnseen)]"] by (simp add: note_seen)
  then show ?thesis using assms(3) evol_trans by blast
qed

lemma on_target_evolves:
  assumes a: "advances a" and ok: "chain_ok p" and r: "on_target a t p = Inr (x, p')"
  shows "evolves p p'"
proof (cases "t \<in> is_once (p_includes p)")
  case True
  then show ?thesis
    using r evol_record [of "p_includes p" "[(t, includeSeen)]"]
    by (auto simp: on_target_def with_includes_def note_seen evolves_def)
next
  case False
  define p1 where "p1 = p\<lparr>p_includes := note_event t includeUnseen (p_includes p)\<rparr>"
  have p1: "chain_ok p1" "a t p1 = Inr (x, p')"
    using ok r False by (auto simp: p1_def chain_ok_def on_target_def pbind_def with_includes_def note_event_def)
  then have "t \<notin> set (is_chain (p_includes p1))" "evolves p1 p'" using a unfolding advances_def by blast+
  then show ?thesis using evol_unseen [OF False] by (simp add: evolves_def p1_def)
qed

definition file_evol :: "file_parser \<Rightarrow> bool" where
  "file_evol pf \<longleftrightarrow> (\<forall>t src stack st mf st'. is_chain st = stack \<longrightarrow> pf t src stack st = Inr (mf, st') \<longrightarrow> evol st st')"

lemma target_plain_advances:
  assumes "file_evol pf"
  shows "advances (target_plain fs pf tok)"
  using assms unfolding advances_def file_evol_def
  by (auto simp: target_plain_def read_plain_def Let_def chain_ok_def emit_all_def perror_def rbind_Inr evolves_def split: if_splits)

lemma try_memos_Some:
  "try_memos st ms = Some (ss, st') \<Longrightarrow>
   \<exists>m \<in> set ms. ss = im_stmts m \<and> st' = record_events (im_events m) st \<and> consistent (is_once st) (is_chain st) (im_events m)"
  by (induction ms) (auto simp: replay_record split: option.splits if_splits)

lemma expandTarget_advances:
  assumes "file_evol pf"
  shows "advances (expandTarget fs pf tok)"
proof -
  have "evolves p p'" if "chain_ok p" "try_memos (p_includes p) ms = Some (ss, st)" "emit_all ss (p\<lparr>p_includes := st\<rparr>) = Inr (x, p')"
    for p p' ms ss st and x :: unit
    using try_memos_Some [OF that(2)] that(3) by (auto simp: emit_all_def evolves_def intro: evol_record)
  moreover have "evolves p p'" if "chain_ok p" "read_include fs pf tok t (p_includeStack p @ [p_name p]) p = Inr (x, p')" for p p' t x
  proof -
    have "evol st (st'\<lparr>is_memos := m\<rparr>) \<longleftrightarrow> evol st st'" for st st' m by (simp add: evol_def)
    then show ?thesis
      using that assms unfolding file_evol_def
      by (auto simp: read_include_def Let_def chain_ok_def emit_all_def rbind_Inr evolves_def split: if_splits)
  qed
  ultimately show ?thesis
    unfolding advances_def
    by (auto simp: expandTarget_def Let_def chain_ok_def perror_def split: if_splits option.splits)
qed

text \<open>A run of \<open>parseStmts\<close> on a file, and the state of the includes around it.\<close>

definition file_chain :: "string \<Rightarrow> IncludeState \<Rightarrow> IncludeState" where
  "file_chain name st = st\<lparr>is_chain := is_chain st @ [name]\<rparr>"

lemma parse_source_Inr:
  "parse_source e name src stack st = Inr (mf, st') \<longleftrightarrow>
   (\<exists>src' stmts tok p. src' = TrimPrefix src utf8_bom
     \<and> parseStmts (block_fuel src') e termTopLevel (newParser name src' stack st) = Inr ((stmts, tok), p)
     \<and> mf = \<lparr>mf_IncludeOnce = (name \<in> is_once (p_includes p)), mf_Path = name, mf_Stmts = stmts\<rparr>
     \<and> st' = (p_includes p)\<lparr>is_chain := butlast (is_chain (p_includes p))\<rparr>)"
  by (auto simp: parse_source_def Let_def rbind_Inr)

lemma parse_source_Inl:
  "parse_source e name src stack st = Inl err \<longleftrightarrow>
   (\<exists>src'. src' = TrimPrefix src utf8_bom
     \<and> parseStmts (block_fuel src') e termTopLevel (newParser name src' stack st) = Inl err)"
  by (auto simp: parse_source_def Let_def rbind_Inl split: prod.splits)

lemma newParser_simps [simp]:
  "p_name (newParser name src stack st) = name" "p_includeStack (newParser name src stack st) = stack"
  "p_includes (newParser name src stack st) = file_chain name st" "p_stmtScratch (newParser name src stack st) = []"
  "p_lex (newParser name src stack st) = newLexer name src"
  by (simp_all add: newParser_def file_chain_def)

lemma file_chain_simps [simp]:
  "is_chain (file_chain name st) = is_chain st @ [name]" "is_once (file_chain name st) = is_once st"
  "is_events (file_chain name st) = is_events st" "is_memos (file_chain name st) = is_memos st"
  by (simp_all add: file_chain_def)

lemma newParser_chain_ok: "is_chain st = stack \<Longrightarrow> chain_ok (newParser name src stack st)"
  by (simp add: chain_ok_def)

lemma evol_file:
  assumes "evol (file_chain name st) st'"
  shows "evol st (st'\<lparr>is_chain := butlast (is_chain st')\<rparr>)"
  using assms consistent_subchain [of "is_once st" "is_chain st @ [name]" _ "is_chain st"] by (force simp: evol_def)

section \<open>Fuel\<close>

text \<open>Two fuels: where the smaller one suffices, the larger one gives the same result.\<close>

definition same_parser :: "string list \<Rightarrow> string \<Rightarrow> Parser \<Rightarrow> Parser \<Rightarrow> bool" where
  "same_parser stack name p q \<longleftrightarrow> q = p \<and> p_name p = name \<and> p_includeStack p = stack \<and> chain_ok p"

interpretation fuel: psim "same_parser stack name" "\<lambda>_. True" "\<lambda>e. e \<noteq> OutOfFuel" for stack name
  by unfold_locales (auto simp: same_parser_def chain_ok_def)

lemma fuel_on_target:
  assumes e: "file_evol pf"
    and mono: "\<And>t src st r. is_chain st = stack @ [name] \<Longrightarrow> pf t src (stack @ [name]) st = r \<Longrightarrow> r \<noteq> Inl OutOfFuel \<Longrightarrow>
      pf' t src (stack @ [name]) st = r"
  shows "fuel.rel stack name (on_target (target_plain fs pf tok) t) (on_target (target_plain fs pf' tok) t)"
proof (rule fuel.relI)
  fix p q er
  assume a: "same_parser stack name p q" "on_target (target_plain fs pf tok) t p = Inl er" "er \<noteq> OutOfFuel"
  then show "on_target (target_plain fs pf' tok) t q = Inl er"
    using mono by (fastforce simp: same_parser_def on_target_def target_plain_def read_plain_def pbind_def with_includes_def
      chain_ok_def emit_all_def perror_def Let_def rbind_Inl split: if_splits)
next
  fix p q x p'
  assume a: "same_parser stack name p q" "on_target (target_plain fs pf tok) t p = Inr (x, p')"
  have ev: "evolves p p'"
    using on_target_evolves [OF target_plain_advances [OF e] _ a(2)] a(1) by (simp add: same_parser_def)
  have "on_target (target_plain fs pf' tok) t q = Inr (x, p')"
    using a mono by (fastforce simp: same_parser_def on_target_def target_plain_def read_plain_def pbind_def with_includes_def
      chain_ok_def emit_all_def perror_def Let_def rbind_Inr split: if_splits)
  then show "\<exists>q'. on_target (target_plain fs pf' tok) t q = Inr (x, q') \<and> same_parser stack name p' q'"
    using a(1) ev evolves_chain_ok [OF ev] by (simp add: same_parser_def evolves_def)
qed (rule on_target_evolves [OF target_plain_advances [OF e]])

lemma plain_file_evol: "file_evol (plain_file n fs)"
proof (induction n)
  case 0
  show ?case by (simp add: file_evol_def)
next
  case (Suc n)
  show ?case
    unfolding file_evol_def
  proof (intro allI impI)
    fix t src stack st mf st'
    assume c: "is_chain st = stack" and r: "plain_file (Suc n) fs t src stack st = Inr (mf, st')"
    have "fuel.rel stack t (expand_plain fs (plain_file n fs) tok path) (expand_plain fs (plain_file n fs) tok path)" for tok path
      unfolding expand_plain_def by (intro fuel.rel_expand_with fuel_on_target [OF Suc]) auto
    then have rel: "fuel.rel stack t (parseStmts k (expand_plain fs (plain_file n fs)) termTopLevel)
      (parseStmts k (expand_plain fs (plain_file n fs)) termTopLevel)" for k by (rule fuel.rel_parseStmts)
    obtain src' stmts tok p where p: "parseStmts (block_fuel src') (expand_plain fs (plain_file n fs)) termTopLevel (newParser t src' stack st)
        = Inr ((stmts, tok), p)" "st' = (p_includes p)\<lparr>is_chain := butlast (is_chain (p_includes p))\<rparr>"
      using r by (auto simp: parse_source_Inr)
    have "evolves (newParser t src' stack st) p" by (rule fuel.rel_evolves [OF rel newParser_chain_ok [OF c] p(1)])
    then show "evol st st'" using evol_file [of t st "p_includes p"] p(2) by (simp add: evolves_def)
  qed
qed

lemma plain_mono:
  "is_chain st = stack \<Longrightarrow> plain_file n fs name src stack st = r \<Longrightarrow> r \<noteq> Inl OutOfFuel \<Longrightarrow>
   plain_file (Suc n) fs name src stack st = r"
proof (induction n arbitrary: name src stack st r)
  case (Suc n)
  have "fuel.rel stack name (expand_plain fs (plain_file n fs) tok path) (expand_plain fs (plain_file (Suc n) fs) tok path)" for tok path
    unfolding expand_plain_def using Suc.IH by (intro fuel.rel_expand_with fuel_on_target plain_file_evol) blast
  then have rel: "fuel.rel stack name (parseStmts k (expand_plain fs (plain_file n fs)) termTopLevel)
      (parseStmts k (expand_plain fs (plain_file (Suc n) fs)) termTopLevel)" for k by (rule fuel.rel_parseStmts)
  have p: "same_parser stack name (newParser name src' stack st) (newParser name src' stack st)" for src'
    using newParser_chain_ok [OF Suc.prems(1)] by (simp add: same_parser_def)
  show ?case
  proof (cases r)
    case (Inl e)
    then show ?thesis
      using Suc.prems fuel.rel_Inl [OF rel p] unfolding plain_file.simps(2) by (auto simp: parse_source_Inl simp del: plain_file.simps)
  next
    case (Inr s)
    obtain mf st' where s: "s = (mf, st')" by (cases s)
    have "\<exists>q'. parseStmts k (expand_plain fs (plain_file (Suc n) fs)) termTopLevel (newParser name src' stack st) = Inr (x, q') \<and> q' = p'"
      if "parseStmts k (expand_plain fs (plain_file n fs)) termTopLevel (newParser name src' stack st) = Inr (x, p')" for k src' x p'
      using fuel.rel_Inr [OF rel p that] by (auto simp: same_parser_def)
    then show ?thesis
      using Suc.prems(2) unfolding plain_file.simps(2) by (auto simp: Inr s parse_source_Inr simp del: plain_file.simps)
  qed
qed simp

lemma plain_mono_le:
  "n \<le> m \<Longrightarrow> is_chain st = stack \<Longrightarrow> plain_file n fs name src stack st \<noteq> Inl OutOfFuel \<Longrightarrow>
   plain_file m fs name src stack st = plain_file n fs name src stack st"
proof (induction m rule: dec_induct)
  case (step m)
  then show ?case using plain_mono [of st stack m fs name src] by metis
qed simp

lemma expand_plain_safe:
  assumes "file_safe fs (stack @ [name]) pf"
  shows "expand_safe stack name (expand_plain fs pf)"
  unfolding expand_safe_def expand_plain_def
proof (intro allI impI)
  fix tok path and p :: Parser
  assume p: "p_name p = name" "p_includeStack p = stack"
  have read: "runs q (read_plain fs pf tok t (stack @ [name]) q)" if "t \<notin> set (stack @ [name])" for t q
  proof (cases "FS_exists fs t \<and> (\<exists>src. FS_read fs t = Inr src)")
    case True
    then obtain src where src: "FS_read fs t = Inr src" by blast
    have "case pf t src (stack @ [name]) (p_includes q) of Inl e \<Rightarrow> good_err e | Inr (mf, st') \<Rightarrow> is_chain st' = is_chain (p_includes q)"
      using assms True that by (auto simp: file_safe_def)
    then show ?thesis
      using True src by (cases "pf t src (stack @ [name]) (p_includes q)") (auto simp: read_plain_def emit_all_def steps_def keeps_def)
  next
    case False
    then show ?thesis by (auto simp: read_plain_def FS_read_def split: option.splits)
  qed
  have at: "runs q (target_plain fs pf tok t q)" if "p_name q = name" "p_includeStack q = stack" for t q
    using that read by (simp add: target_plain_def Let_def)
  have "runs q (on_target (target_plain fs pf tok) t q)" if "p_name q = name" "p_includeStack q = stack" for t q
    unfolding on_target_def using that at by (auto intro!: runs_with_includes runs_bind simp: steps_def keeps_def)
  then show "runs p (expand_with (target_plain fs pf tok) tok path p)"
    unfolding expand_with_def using p include_target_runs by (auto intro!: runs_bind dest: include_target_Inr)
qed

lemma plain_safe:
  "card (present fs - set (stack @ [name])) < n \<Longrightarrow>
   case plain_file n fs name src stack st of Inl e \<Rightarrow> good_err e | Inr (mf, st') \<Rightarrow> is_chain st' = is_chain st"
proof (induction n arbitrary: name src stack st)
  case (Suc n)
  have "file_safe fs (stack @ [name]) (plain_file n fs)"
    unfolding file_safe_def
  proof (intro allI impI)
    fix target src st
    assume "FS_exists fs target" "target \<notin> set (stack @ [name])"
    then have "card (present fs - set ((stack @ [name]) @ [target])) < n" using Suc.prems by (rule deeper_chain)
    then show "case plain_file n fs target src (stack @ [name]) st of Inl e \<Rightarrow> good_err e
        | Inr (mf, st') \<Rightarrow> is_chain st' = is_chain st" by (rule Suc.IH)
  qed
  then have "expand_safe stack name (expand_plain fs (plain_file n fs))" by (rule expand_plain_safe)
  then show ?case unfolding plain_file.simps by (rule parse_source_safe)
qed simp

definition deep_enough :: "FS \<Rightarrow> string list \<Rightarrow> string \<Rightarrow> nat \<Rightarrow> bool" where
  "deep_enough fs stack name n \<longleftrightarrow> card (present fs - set (stack @ [name])) < n \<and> n \<le> depth fs"

lemma depth_enough: "deep_enough fs stack name (depth fs)"
proof -
  have "card (present fs - set (stack @ [name])) \<le> card (present fs)" by (intro card_mono) (auto simp: finite_present)
  then show ?thesis using card_present [of fs] by (simp add: deep_enough_def depth_def)
qed

lemma plain_depth:
  assumes "deep_enough fs stack name n" and "is_chain st = stack"
  shows "plain_file n fs name src stack st = plain_file (depth fs) fs name src stack st"
proof -
  have "plain_file n fs name src stack st \<noteq> Inl OutOfFuel"
    using plain_safe [of fs stack name n st src] assms(1) by (auto simp: deep_enough_def good_err_def)
  then show ?thesis using plain_mono_le [of n "depth fs" st stack fs name src] assms by (simp add: deep_enough_def)
qed

section \<open>Footprints\<close>

text \<open>
  If a run of the specification produced the events \<open>ev\<close>, then it runs in the same way from every
  state with which \<open>ev\<close> is consistent, with any files open around it.
\<close>

definition follows :: "string list \<Rightarrow> string \<Rightarrow> IncludeState \<Rightarrow> string list \<Rightarrow> IncludeState \<Rightarrow> Parser \<Rightarrow> Parser \<Rightarrow> bool" where
  "follows stack name st stackq stq p q \<longleftrightarrow>
     p_lex q = p_lex p \<and> p_name q = p_name p \<and> p_stmtScratch q = p_stmtScratch p \<and> p_name p = name
     \<and> p_includeStack p = stack \<and> chain_ok p \<and> p_includeStack q = stackq \<and> is_chain stq = stackq @ [name]
     \<and> (\<exists>ev. is_events (p_includes p) = is_events st @ ev \<and> is_once (p_includes p) = is_once st \<union> set (added_files ev)
          \<and> p_includes q = record_events ev stq)"

definition fits :: "IncludeState \<Rightarrow> IncludeState \<Rightarrow> Parser \<Rightarrow> bool" where
  "fits st stq p \<longleftrightarrow> consistent (is_once stq) (is_chain stq) (drop (length (is_events st)) (is_events (p_includes p)))"

lemma fits_back: "fits st stq p' \<Longrightarrow> evolves p p' \<Longrightarrow> fits st stq p"
  by (auto simp: fits_def evolves_def evol_def consistent_append)

interpretation foot: psim "follows stack name st stackq stq" "fits st stq" "\<lambda>_. False" for stack name st stackq stq
proof
  fix p q
  assume R: "follows stack name st stackq stq p q"
  show "chain_ok p" using R by (simp add: follows_def)
  let ?e = "record_events [(p_name p, includeOnce)]"
  obtain ev where ev: "is_events (p_includes p) = is_events st @ ev" "is_once (p_includes p) = is_once st \<union> set (added_files ev)"
    "p_includes q = record_events ev stq" using R by (auto simp: follows_def)
  show "follows stack name st stackq stq (p\<lparr>p_includes := ?e (p_includes p)\<rparr>) (q\<lparr>p_includes := ?e (p_includes q)\<rparr>)"
    using R ev unfolding follows_def
    by (auto simp: chain_ok_def record_events_append intro!: exI [of _ "ev @ [(p_name p, includeOnce)]"])
qed (auto simp: follows_def chain_ok_def dest: fits_back)

definition file_foot :: "file_parser \<Rightarrow> bool" where
  "file_foot pf \<longleftrightarrow> (\<forall>t src stack st mf st' ev stackq stq.
     is_chain st = stack \<longrightarrow> pf t src stack st = Inr (mf, st') \<longrightarrow> is_events st' = is_events st @ ev \<longrightarrow>
     is_chain stq = stackq \<longrightarrow> t \<notin> set stackq \<longrightarrow> consistent (is_once stq) stackq ev \<longrightarrow>
     (\<exists>mf'. pf t src stackq stq = Inr (mf', record_events ev stq) \<and> mf_Stmts mf' = mf_Stmts mf))"

lemma foot_target:
  assumes e: "file_evol pf" and f: "file_foot pf"
    and R: "follows stack name st stackq stq p q" and r: "target_plain fs pf tok t p = Inr (x, p')"
    and ok: "fits st stq p'" and t: "t \<notin> set (is_chain stq)"
  shows "\<exists>q'. target_plain fs pf tok t q = Inr (x, q') \<and> follows stack name st stackq stq p' q'"
proof -
  obtain ev where ev: "is_events (p_includes p) = is_events st @ ev" "is_once (p_includes p) = is_once st \<union> set (added_files ev)"
    "p_includes q = record_events ev stq" using R by (auto simp: follows_def)
  have chains: "is_chain (p_includes p) = stack @ [name]" "is_chain stq = stackq @ [name]" "p_includeStack q = stackq" "p_name q = name"
    "p_includeStack p = stack" "p_name p = name" "p_stmtScratch q = p_stmtScratch p" "p_lex q = p_lex p"
    using R by (auto simp: follows_def chain_ok_def)
  have tq: "t \<notin> set (stackq @ [name])" and tp: "t \<notin> set (stack @ [name])"
    using t r chains by (auto simp: target_plain_def Let_def perror_def split: if_splits)
  have r': "read_plain fs pf tok t (stack @ [name]) p = Inr (x, p')"
    using r tp chains by (simp add: target_plain_def Let_def)
  have tgt: "target_plain fs pf tok t q = read_plain fs pf tok t (stackq @ [name]) q"
    using tq chains by (simp add: target_plain_def Let_def)
  show ?thesis
  proof (cases "FS_exists fs t")
    case False
    then show ?thesis
      using r' tgt R foot.with_scratch [OF R, of "p_stmtScratch p @ [MissingIncludeStmt t (tok_line tok)]"] chains
      by (auto simp: read_plain_def emit_all_def)
  next
    case True
    then obtain src mf st1 where src: "FS_read fs t = Inr src" "pf t src (stack @ [name]) (p_includes p) = Inr (mf, st1)"
      and p': "p' = p\<lparr>p_includes := st1, p_stmtScratch := p_stmtScratch p @ mf_Stmts mf\<rparr>"
      using r' by (auto simp: read_plain_def emit_all_def rbind_Inr)
    obtain ev1 where ev1: "is_events st1 = is_events (p_includes p) @ ev1" "is_once st1 = is_once (p_includes p) \<union> set (added_files ev1)"
      "is_chain st1 = is_chain (p_includes p)"
      using e src(2) chains(1) unfolding file_evol_def evol_def by blast
    have "consistent (is_once stq) (stackq @ [name]) (ev @ ev1)" using ok ev(1) ev1(1) chains(2) by (simp add: fits_def p')
    then have c: "consistent (is_once (p_includes q)) (stackq @ [name]) ev1" by (simp add: consistent_append ev(3))
    obtain mf' where mf': "pf t src (stackq @ [name]) (p_includes q) = Inr (mf', record_events ev1 (p_includes q))" "mf_Stmts mf' = mf_Stmts mf"
      using f src(2) ev1(1) chains tq c ev(3) unfolding file_foot_def by (metis record_events_simps(3))
    let ?q = "q\<lparr>p_includes := record_events ev1 (p_includes q), p_stmtScratch := p_stmtScratch p @ mf_Stmts mf\<rparr>"
    have "target_plain fs pf tok t q = Inr (x, ?q)"
      using True src(1) mf' tgt chains by (simp add: read_plain_def emit_all_def)
    moreover have "follows stack name st stackq stq p' ?q"
      unfolding follows_def using chains ev ev1 p'
      by (auto simp: chain_ok_def record_events_append intro!: exI [of _ "ev @ ev1"])
    ultimately show ?thesis by blast
  qed
qed

lemma foot_on_target:
  assumes e: "file_evol pf" and f: "file_foot pf"
  shows "foot.rel stack name st stackq stq (on_target (target_plain fs pf tok) t) (on_target (target_plain fs pf tok) t)"
proof (rule foot.relI)
  fix p q x p'
  assume R: "follows stack name st stackq stq p q" and r: "on_target (target_plain fs pf tok) t p = Inr (x, p')" and ok: "fits st stq p'"
  obtain ev where ev: "is_events (p_includes p) = is_events st @ ev" "is_once (p_includes p) = is_once st \<union> set (added_files ev)"
    "p_includes q = record_events ev stq" using R by (auto simp: follows_def)
  have noted: "follows stack name st stackq stq (p\<lparr>p_includes := note_event t k (p_includes p)\<rparr>) (q\<lparr>p_includes := note_event t k (p_includes q)\<rparr>)"
    if "k \<noteq> includeOnce" for k
    using R ev that unfolding follows_def
    by (auto simp: note_seen chain_ok_def record_events_append intro!: exI [of _ "ev @ [(t, k)]"])
  have chain_p: "chain_ok p" using R by (simp add: follows_def)
  show "\<exists>q'. on_target (target_plain fs pf tok) t q = Inr (x, q') \<and> follows stack name st stackq stq p' q'"
  proof (cases "t \<in> is_once (p_includes p)")
    case True
    then have p': "p' = p\<lparr>p_includes := note_event t includeSeen (p_includes p)\<rparr>" using r by (auto simp: on_target_def with_includes_def)
    have "consistent (is_once stq) (is_chain stq) (ev @ [(t, includeSeen)])" using ok ev(1) by (simp add: fits_def p' note_seen)
    then have "t \<in> is_once (p_includes q)" by (simp add: consistent_append ev(3))
    then show ?thesis using noted [of includeSeen] p' r True by (auto simp: on_target_def with_includes_def)
  next
    case False
    define p1 q1 where "p1 = p\<lparr>p_includes := note_event t includeUnseen (p_includes p)\<rparr>"
      and "q1 = q\<lparr>p_includes := note_event t includeUnseen (p_includes q)\<rparr>"
    have r1: "target_plain fs pf tok t p1 = Inr (x, p')" using r False by (auto simp: on_target_def pbind_def with_includes_def p1_def)
    have R1: "follows stack name st stackq stq p1 q1" unfolding p1_def q1_def by (rule noted) simp
    have "evolves p1 p'" using target_plain_advances [OF e] R1 r1 unfolding advances_def follows_def by blast
    then have "fits st stq p1" using fits_back [OF ok] by blast
    then have "consistent (is_once stq) (is_chain stq) (ev @ [(t, includeUnseen)])" using ev(1) by (simp add: fits_def p1_def note_seen)
    then have q: "t \<notin> is_once (p_includes q)" "t \<notin> set (is_chain stq)" by (auto simp: consistent_append ev(3))
    have "on_target (target_plain fs pf tok) t q = target_plain fs pf tok t q1"
      using q(1) by (simp add: on_target_def pbind_def with_includes_def q1_def)
    then show ?thesis using foot_target [OF e f R1 r1 ok q(2)] by simp
  qed
qed (auto intro: on_target_evolves [OF target_plain_advances [OF e]])

lemma plain_file_foot: "file_foot (plain_file n fs)"
proof (induction n)
  case 0
  show ?case by (simp add: file_foot_def)
next
  case (Suc n)
  let ?e = "expand_plain fs (plain_file n fs)"
  show ?case
    unfolding file_foot_def
  proof (intro allI impI)
    fix t src stack mf ev stackq and st st' stq :: IncludeState
    assume c: "is_chain st = stack" and r: "plain_file (Suc n) fs t src stack st = Inr (mf, st')"
      and ev: "is_events st' = is_events st @ ev" and cq: "is_chain stq = stackq" and t: "t \<notin> set stackq"
      and con: "consistent (is_once stq) stackq ev"
    define src' where "src' = TrimPrefix src utf8_bom"
    obtain stmts tok p where p: "parseStmts (block_fuel src') ?e termTopLevel (newParser t src' stack st) = Inr ((stmts, tok), p)"
      "mf_Stmts mf = stmts" "st' = (p_includes p)\<lparr>is_chain := butlast (is_chain (p_includes p))\<rparr>"
      using r by (auto simp: parse_source_Inr src'_def)
    let ?stq = "file_chain t stq"
    have rel: "foot.rel stack t st stackq ?stq (parseStmts k ?e termTopLevel) (parseStmts k ?e termTopLevel)" for k
      unfolding expand_plain_def by (intro foot.rel_parseStmts foot.rel_expand_with foot_on_target plain_file_evol Suc)
    have R: "follows stack t st stackq ?stq (newParser t src' stack st) (newParser t src' stackq stq)"
      using c cq by (auto simp: follows_def chain_ok_def intro: exI [of _ "[]"])
    have self: "consistent (is_once st) (stack @ [t]) ev"
    proof -
      have "evolves (newParser t src' stack st) p" by (rule foot.rel_evolves [OF rel newParser_chain_ok [OF c] p(1)])
      then show ?thesis using ev c p(3) by (auto simp: evolves_def evol_def)
    qed
    have "fits st ?stq p" using consistent_chain [OF _ self con] ev cq p(3) by (simp add: fits_def)
    then obtain q where q: "parseStmts (block_fuel src') ?e termTopLevel (newParser t src' stackq stq) = Inr ((stmts, tok), q)"
      "follows stack t st stackq ?stq p q" using foot.rel_Inr [OF rel R p(1)] by blast
    have "p_includes q = record_events ev ?stq" using q(2) ev p(3) by (auto simp: follows_def)
    moreover have "(record_events ev ?stq)\<lparr>is_chain := butlast (is_chain (record_events ev ?stq))\<rparr> = record_events ev stq"
      by (simp add: record_events_def file_chain_def)
    ultimately show "\<exists>mf'. plain_file (Suc n) fs t src stackq stq = Inr (mf', record_events ev stq) \<and> mf_Stmts mf' = mf_Stmts mf"
      using q(1) p(2) by (auto simp: parse_source_Inr src'_def)
  qed
qed

section \<open>Records are faithful\<close>

text \<open>
  A record is valid if the specification, on the recorded file and in any state the events are
  consistent with, gives the recorded statements and events.
\<close>

definition valid_memo :: "FS \<Rightarrow> string \<Rightarrow> includeMemo \<Rightarrow> bool" where
  "valid_memo fs t m \<longleftrightarrow> FS_exists fs t \<and> (\<exists>src. FS_read fs t = Inr src
     \<and> (\<forall>stack st. is_chain st = stack \<longrightarrow> t \<notin> set stack \<longrightarrow> consistent (is_once st) stack (im_events m) \<longrightarrow>
          (\<exists>mf. plain_file (depth fs) fs t src stack st = Inr (mf, record_events (im_events m) st) \<and> mf_Stmts mf = im_stmts m)))"

definition valid_memos :: "FS \<Rightarrow> (string \<Rightarrow> includeMemo list) \<Rightarrow> bool" where
  "valid_memos fs memos \<longleftrightarrow> (\<forall>t. \<forall>m \<in> set (memos t). valid_memo fs t m)"

definition unrecorded :: "FS \<Rightarrow> string list \<Rightarrow> string \<Rightarrow> Parser \<Rightarrow> Parser \<Rightarrow> bool" where
  "unrecorded fs stack name p q \<longleftrightarrow>
     p_lex q = p_lex p \<and> p_name q = p_name p \<and> p_stmtScratch q = p_stmtScratch p \<and> p_includeStack q = p_includeStack p
     \<and> p_name p = name \<and> p_includeStack p = stack \<and> chain_ok p \<and> valid_memos fs (is_memos (p_includes p))
     \<and> (\<exists>M. p_includes q = (p_includes p)\<lparr>is_memos := M\<rparr>)"

lemma record_memos: "record_events ev (st\<lparr>is_memos := M\<rparr>) = (record_events ev st)\<lparr>is_memos := M\<rparr>"
  by (simp add: record_events_def)

lemma note_memos:
  "note_event t k (st\<lparr>is_memos := M\<rparr>) = (note_event t k st)\<lparr>is_memos := M\<rparr>" "is_memos (note_event t k st) = is_memos st"
  by (simp_all add: note_event_def)

lemma file_chain_memos: "file_chain t (st\<lparr>is_memos := M\<rparr>) = (file_chain t st)\<lparr>is_memos := M\<rparr>"
  by (simp add: file_chain_def)

interpretation memo: psim "unrecorded fs stack name" "\<lambda>_. True" "\<lambda>_. True" for fs stack name
  by unfold_locales (auto simp: unrecorded_def chain_ok_def record_memos)

definition file_memo :: "FS \<Rightarrow> string list \<Rightarrow> file_parser \<Rightarrow> file_parser \<Rightarrow> bool" where
  "file_memo fs stack pf pf' \<longleftrightarrow> (\<forall>t src st M. is_chain st = stack \<longrightarrow> FS_exists fs t \<longrightarrow> t \<notin> set stack \<longrightarrow> valid_memos fs (is_memos st) \<longrightarrow>
     (case pf t src stack st of
        Inl e \<Rightarrow> pf' t src stack (st\<lparr>is_memos := M\<rparr>) = Inl e
      | Inr (mf, st') \<Rightarrow> (\<exists>M'. pf' t src stack (st\<lparr>is_memos := M\<rparr>) = Inr (mf, st'\<lparr>is_memos := M'\<rparr>)) \<and> valid_memos fs (is_memos st')))"

lemma new_memo_valid:
  assumes r: "plain_file n fs t src stack st = Inr (mf, st')" and c: "is_chain st = stack" and n: "n \<le> depth fs"
    and ex: "FS_exists fs t" "FS_read fs t = Inr src"
    and m: "m = \<lparr>im_stmts = mf_Stmts mf, im_events = drop (length (is_events st)) (is_events st')\<rparr>"
  shows "valid_memo fs t m"
proof -
  obtain ev where ev: "is_events st' = is_events st @ ev" using plain_file_evol c r unfolding file_evol_def evol_def by blast
  show ?thesis
    unfolding valid_memo_def
  proof (intro conjI exI [of _ src] allI impI ex)
    fix stackq and stq :: IncludeState
    assume q: "is_chain stq = stackq" "t \<notin> set stackq" "consistent (is_once stq) stackq (im_events m)"
    then obtain mf' where "plain_file n fs t src stackq stq = Inr (mf', record_events ev stq)" "mf_Stmts mf' = mf_Stmts mf"
      using plain_file_foot [of n fs, unfolded file_foot_def, rule_format, OF c r ev q(1,2)] ev m by auto
    then show "\<exists>mf. plain_file (depth fs) fs t src stackq stq = Inr (mf, record_events (im_events m) stq) \<and> mf_Stmts mf = im_stmts m"
      using plain_mono_le [OF n q(1), of fs t src] ev m by auto
  qed
qed

lemma memo_target:
  assumes f: "file_memo fs (stack @ [name]) pf (plain_file n fs)"
    and n: "\<And>t. FS_exists fs t \<Longrightarrow> t \<notin> set (stack @ [name]) \<Longrightarrow> deep_enough fs (stack @ [name]) t n"
    and R: "unrecorded fs stack name p q"
  shows "case expandTarget fs pf tok t p of
      Inl e \<Rightarrow> target_plain fs (plain_file n fs) tok t q = Inl e
    | Inr (x, p') \<Rightarrow> chain_ok p' \<longrightarrow> p_name p' = name \<longrightarrow> p_includeStack p' = stack \<longrightarrow>
        (\<exists>q'. target_plain fs (plain_file n fs) tok t q = Inr (x, q') \<and> unrecorded fs stack name p' q')"
proof -
  have same: "p_lex q = p_lex p" "p_name q = name" "p_name p = name" "p_includeStack q = stack" "p_includeStack p = stack"
    "p_stmtScratch q = p_stmtScratch p" and chain: "is_chain (p_includes p) = stack @ [name]"
    and valid: "valid_memos fs (is_memos (p_includes p))"
    using R by (auto simp: unrecorded_def chain_ok_def)
  obtain M where M: "p_includes q = (p_includes p)\<lparr>is_memos := M\<rparr>" using R by (auto simp: unrecorded_def)
  show ?thesis
  proof (cases "t \<in> set (stack @ [name])")
    case True
    then show ?thesis using same by (simp add: expandTarget_def target_plain_def Let_def perror_def)
  next
    case t: False
    have plain: "target_plain fs (plain_file n fs) tok t q = read_plain fs (plain_file n fs) tok t (stack @ [name]) q"
      using t same by (simp add: target_plain_def Let_def)
    show ?thesis
    proof (cases "try_memos (p_includes p) (is_memos (p_includes p) t)")
      case (Some r)
      obtain ss st1 where r: "r = (ss, st1)" by (cases r)
      obtain m where m: "m \<in> set (is_memos (p_includes p) t)" "ss = im_stmts m" "st1 = record_events (im_events m) (p_includes p)"
        "consistent (is_once (p_includes p)) (stack @ [name]) (im_events m)"
        using try_memos_Some Some r chain by metis
      then have vm: "valid_memo fs t m" using valid by (auto simp: valid_memos_def)
      obtain src where src: "FS_exists fs t" "FS_read fs t = Inr src" using vm by (auto simp: valid_memo_def)
      have q: "is_chain (p_includes q) = stack @ [name]" "is_once (p_includes q) = is_once (p_includes p)" using M chain by simp_all
      obtain mf where "plain_file (depth fs) fs t src (stack @ [name]) (p_includes q) = Inr (mf, record_events (im_events m) (p_includes q))"
        "mf_Stmts mf = im_stmts m"
      proof -
        have "\<forall>stack st. is_chain st = stack \<longrightarrow> t \<notin> set stack \<longrightarrow> consistent (is_once st) stack (im_events m) \<longrightarrow>
          (\<exists>mf. plain_file (depth fs) fs t src stack st = Inr (mf, record_events (im_events m) st) \<and> mf_Stmts mf = im_stmts m)"
          using vm src(2) by (auto simp: valid_memo_def)
        then show ?thesis using that q m(4) t by metis
      qed
      then have "target_plain fs (plain_file n fs) tok t q =
          Inr ((), q\<lparr>p_includes := record_events (im_events m) (p_includes q), p_stmtScratch := p_stmtScratch q @ ss\<rparr>)"
        using plain plain_depth [OF n [OF src(1) t] q(1), of src] src m(2) by (simp add: read_plain_def emit_all_def)
      moreover have "expandTarget fs pf tok t p =
          Inr ((), p\<lparr>p_includes := record_events (im_events m) (p_includes p), p_stmtScratch := p_stmtScratch p @ ss\<rparr>)"
        using t same Some r m(3) by (simp add: expandTarget_def Let_def emit_all_def)
      ultimately show ?thesis
        using R M same by (auto simp: unrecorded_def record_memos chain_ok_def)
    next
      case None
      then have real: "expandTarget fs pf tok t p = read_include fs pf tok t (stack @ [name]) p"
        using t same by (simp add: expandTarget_def Let_def)
      show ?thesis
      proof (cases "FS_exists fs t \<and> (\<exists>src. FS_read fs t = Inr src)")
        case False
        then show ?thesis
          using real plain R same by (auto simp: read_include_def read_plain_def emit_all_def FS_read_def unrecorded_def chain_ok_def split: option.splits)
      next
        case True
        then obtain src where src: "FS_exists fs t" "FS_read fs t = Inr src" by blast
        note sub = f [unfolded file_memo_def, rule_format, OF chain src(1) t valid, of src M]
        show ?thesis
        proof (cases "pf t src (stack @ [name]) (p_includes p)")
          case (Inl e)
          then show ?thesis using sub real plain src M by (simp add: read_include_def read_plain_def)
        next
          case (Inr s)
          obtain mf st' where s: "s = (mf, st')" by (cases s)
          obtain M' where M': "plain_file n fs t src (stack @ [name]) (p_includes q) = Inr (mf, st'\<lparr>is_memos := M'\<rparr>)"
            and v': "valid_memos fs (is_memos st')" using sub Inr s M by auto
          define m where "m = \<lparr>im_stmts = mf_Stmts mf, im_events = drop (length (is_events (p_includes p))) (is_events st')\<rparr>"
          have "valid_memo fs t m"
            by (rule new_memo_valid [OF M']) (use M chain n [OF src(1) t] src in \<open>simp_all add: m_def deep_enough_def\<close>)
          then have v: "valid_memos fs ((is_memos st')(t := is_memos st' t @ [m]))" using v' by (auto simp: valid_memos_def)
          have "target_plain fs (plain_file n fs) tok t q =
              Inr ((), q\<lparr>p_includes := st'\<lparr>is_memos := M'\<rparr>, p_stmtScratch := p_stmtScratch q @ mf_Stmts mf\<rparr>)"
            using plain src M' by (simp add: read_plain_def emit_all_def)
          moreover have "expandTarget fs pf tok t p = Inr ((), p\<lparr>p_includes := st'\<lparr>is_memos := (is_memos st')(t := is_memos st' t @ [m])\<rparr>,
              p_stmtScratch := p_stmtScratch p @ mf_Stmts mf\<rparr>)"
            using real src Inr s by (simp add: read_include_def emit_all_def Let_def m_def)
          ultimately show ?thesis using v same by (auto simp: unrecorded_def)
        qed
      qed
    qed
  qed
qed

lemma fuel_refl:
  assumes "\<And>p x p'. chain_ok p \<Longrightarrow> f p = Inr (x, p') \<Longrightarrow> evolves p p'"
  shows "fuel.rel stack name f f"
proof (rule fuel.relI)
  fix p q x p'
  assume a: "same_parser stack name p q" "f p = Inr (x, p')"
  then have "evolves p p'" using assms by (auto simp: same_parser_def)
  then show "\<exists>q'. f q = Inr (x, q') \<and> same_parser stack name p' q'"
    using a evolves_chain_ok [of p p'] by (auto simp: same_parser_def evolves_def)
qed (use assms in \<open>auto simp: same_parser_def\<close>)

lemma real_file_evol: "file_evol (parseInternalWithState n fs)"
proof (induction n)
  case 0
  show ?case by (simp add: file_evol_def)
next
  case (Suc n)
  let ?e = "expandOneInclude fs (parseInternalWithState n fs)"
  have rel: "fuel.rel stack t (parseStmts k ?e termTopLevel) (parseStmts k ?e termTopLevel)" for stack t k
    unfolding expandOneInclude_with
    by (intro fuel.rel_parseStmts fuel.rel_expand_with fuel_refl on_target_evolves [OF expandTarget_advances [OF Suc]])
  show ?case
    unfolding file_evol_def
  proof (intro allI impI)
    fix t src stack mf and st st' :: IncludeState
    assume c: "is_chain st = stack" and r: "parseInternalWithState (Suc n) fs t src stack st = Inr (mf, st')"
    obtain src' stmts tok p where p: "parseStmts (block_fuel src') ?e termTopLevel (newParser t src' stack st)
        = Inr ((stmts, tok), p)" "st' = (p_includes p)\<lparr>is_chain := butlast (is_chain (p_includes p))\<rparr>"
      using r by (auto simp: parse_source_Inr)
    have "evolves (newParser t src' stack st) p" by (rule fuel.rel_evolves [OF rel newParser_chain_ok [OF c] p(1)])
    then show "evol st st'" using evol_file [of t st "p_includes p"] p(2) by (simp add: evolves_def)
  qed
qed

lemma memo_on_target:
  assumes e: "file_evol pf" and f: "file_memo fs (stack @ [name]) pf (plain_file n fs)"
    and n: "\<And>t. FS_exists fs t \<Longrightarrow> t \<notin> set (stack @ [name]) \<Longrightarrow> deep_enough fs (stack @ [name]) t n"
  shows "memo.rel fs stack name (on_target (expandTarget fs pf tok) t) (on_target (target_plain fs (plain_file n fs) tok) t)"
proof -
  let ?a = "expandTarget fs pf tok" and ?b = "target_plain fs (plain_file n fs) tok"
  have noted: "unrecorded fs stack name (p\<lparr>p_includes := note_event t k (p_includes p)\<rparr>) (q\<lparr>p_includes := note_event t k (p_includes q)\<rparr>)"
    if "unrecorded fs stack name p q" for p q k
    using that by (auto simp: unrecorded_def note_memos chain_ok_def)
  have once: "is_once (p_includes q) = is_once (p_includes p)" if "unrecorded fs stack name p q" for p q
    using that by (auto simp: unrecorded_def)
  have at: "on_target c t p = (if t \<in> is_once (p_includes p) then Inr ((), p\<lparr>p_includes := note_event t includeSeen (p_includes p)\<rparr>)
      else c t (p\<lparr>p_includes := note_event t includeUnseen (p_includes p)\<rparr>))" for c and p :: Parser
    by (simp add: on_target_def with_includes_def pbind_def)
  show ?thesis
  proof (rule memo.relI)
    fix p q er
    assume R: "unrecorded fs stack name p q" and r: "on_target ?a t p = Inl er"
    then show "on_target ?b t q = Inl er"
      using memo_target [OF f n noted [OF R], of tok t includeUnseen] once [OF R] by (auto simp: at split: if_splits)
  next
    fix p q x p'
    assume R: "unrecorded fs stack name p q" and r: "on_target ?a t p = Inr (x, p')"
    have ev: "evolves p p'"
      using on_target_evolves [OF expandTarget_advances [OF e] _ r] R by (simp add: unrecorded_def)
    have p': "chain_ok p'" "p_name p' = name" "p_includeStack p' = stack"
      using evolves_chain_ok [OF ev] ev R by (simp_all add: evolves_def unrecorded_def)
    show "\<exists>q'. on_target ?b t q = Inr (x, q') \<and> unrecorded fs stack name p' q'"
    proof (cases "t \<in> is_once (p_includes p)")
      case True
      then show ?thesis using r noted [OF R, of includeSeen] once [OF R] by (auto simp: at)
    next
      case False
      then show ?thesis
        using memo_target [OF f n noted [OF R], of tok t includeUnseen] r once [OF R] p' by (simp add: at)
    qed
  qed (rule on_target_evolves [OF expandTarget_advances [OF e]])
qed

lemma source_memo:
  assumes e: "file_evol pf" and f: "file_memo fs (stack @ [name]) pf (plain_file n fs)"
    and n: "\<And>t. FS_exists fs t \<Longrightarrow> t \<notin> set (stack @ [name]) \<Longrightarrow> deep_enough fs (stack @ [name]) t n"
    and c: "is_chain st = stack" and v: "valid_memos fs (is_memos st)"
  shows "case parse_source (expandOneInclude fs pf) name src stack st of
      Inl er \<Rightarrow> parse_source (expand_plain fs (plain_file n fs)) name src stack (st\<lparr>is_memos := M\<rparr>) = Inl er
    | Inr (mf, st') \<Rightarrow> (\<exists>M'. parse_source (expand_plain fs (plain_file n fs)) name src stack (st\<lparr>is_memos := M\<rparr>)
          = Inr (mf, st'\<lparr>is_memos := M'\<rparr>)) \<and> valid_memos fs (is_memos st')"
proof -
  let ?e = "expandOneInclude fs pf" and ?e' = "expand_plain fs (plain_file n fs)"
  define src' where "src' = TrimPrefix src utf8_bom"
  have rel: "memo.rel fs stack name (parseStmts k ?e termTopLevel) (parseStmts k ?e' termTopLevel)" for k
    unfolding expandOneInclude_with expand_plain_def
    by (intro memo.rel_parseStmts memo.rel_expand_with memo_on_target [OF e f n])
  have R: "unrecorded fs stack name (newParser name src' stack st) (newParser name src' stack (st\<lparr>is_memos := M\<rparr>))"
    using c v by (auto simp: unrecorded_def chain_ok_def file_chain_memos)
  show ?thesis
  proof (cases "parseStmts (block_fuel src') ?e termTopLevel (newParser name src' stack st)")
    case (Inl er)
    then show ?thesis
      using memo.rel_Inl [OF rel R Inl] by (simp add: parse_source_def Let_def src'_def [symmetric])
  next
    case (Inr r)
    obtain stmts tok p where r: "r = ((stmts, tok), p)" by (metis prod.exhaust)
    obtain q where q: "parseStmts (block_fuel src') ?e' termTopLevel (newParser name src' stack (st\<lparr>is_memos := M\<rparr>)) = Inr ((stmts, tok), q)"
      "unrecorded fs stack name p q" using memo.rel_Inr [OF rel R Inr [unfolded r]] by blast
    obtain M' where M': "p_includes q = (p_includes p)\<lparr>is_memos := M'\<rparr>" using q(2) by (auto simp: unrecorded_def)
    have "valid_memos fs (is_memos (p_includes p))" using q(2) by (simp add: unrecorded_def)
    moreover have "(p_includes q)\<lparr>is_chain := butlast (is_chain (p_includes q))\<rparr>
        = (p_includes p)\<lparr>is_chain := butlast (is_chain (p_includes p))\<rparr>\<lparr>is_memos := M'\<rparr>" by (simp add: M')
    moreover have "is_once (p_includes q) = is_once (p_includes p)" by (simp add: M')
    ultimately show ?thesis
      using Inr r q(1) by (auto simp: parse_source_def Let_def src'_def [symmetric])
  qed
qed

lemma real_memo:
  "deep_enough fs stack name n \<Longrightarrow> is_chain st = stack \<Longrightarrow> valid_memos fs (is_memos st) \<Longrightarrow>
   case parseInternalWithState n fs name src stack st of
     Inl e \<Rightarrow> plain_file n fs name src stack (st\<lparr>is_memos := M\<rparr>) = Inl e
   | Inr (mf, st') \<Rightarrow> (\<exists>M'. plain_file n fs name src stack (st\<lparr>is_memos := M\<rparr>) = Inr (mf, st'\<lparr>is_memos := M'\<rparr>))
       \<and> valid_memos fs (is_memos st')"
proof (induction n arbitrary: name src stack st M)
  case (Suc n)
  have deep: "deep_enough fs (stack @ [name]) t n" if "FS_exists fs t" "t \<notin> set (stack @ [name])" for t
    using that deeper_chain [of fs t "stack @ [name]" n] Suc.prems(1) by (simp add: deep_enough_def)
  have "file_memo fs (stack @ [name]) (parseInternalWithState n fs) (plain_file n fs)"
    unfolding file_memo_def using Suc.IH deep by blast
  then show ?case
    unfolding parseInternalWithState.simps plain_file.simps
    using Suc.prems(2,3) by (intro source_memo real_file_evol deep)
qed (simp add: deep_enough_def)

text \<open>
  Parsing many files one after the other with one table of records, as a build does. A file that
  cannot be parsed leaves the table as it was.
\<close>

fun parse_many :: "FS \<Rightarrow> (string \<Rightarrow> includeMemo list) \<Rightarrow> string list \<Rightarrow> MakeFile result list" where
  "parse_many fs memos [] = []"
| "parse_many fs memos (key # keys) =
     (case parseFileClean fs key memos of
        Inl e \<Rightarrow> Inl e # parse_many fs memos keys
      | Inr (mf, memos') \<Rightarrow> Inr mf # parse_many fs memos' keys)"

lemma parseFileClean_plain:
  assumes v: "valid_memos fs memos"
  shows "case parseFileClean fs key memos of
      Inl e \<Rightarrow> parse_plain fs key = Inl e
    | Inr (mf, memos') \<Rightarrow> parse_plain fs key = Inr mf \<and> valid_memos fs memos'"
proof (cases "FS_read fs key")
  case (Inr src)
  have st: "newIncludeState (\<lambda>_. []) = (newIncludeState memos)\<lparr>is_memos := \<lambda>_. []\<rparr>" by (simp add: newIncludeState_def)
  have v': "valid_memos fs (is_memos (newIncludeState memos))" using v by (simp add: newIncludeState_def)
  have "is_chain (newIncludeState memos) = []" by (simp add: newIncludeState_def)
  from real_memo [OF depth_enough this v', of key src "\<lambda>_. []"] show ?thesis
    unfolding parseFileClean_def parse_def parse_plain_def Inr depth_def [symmetric] st
    by (cases "parseInternalWithState (depth fs) fs key src [] (newIncludeState memos)") auto
qed (simp add: parseFileClean_def parse_plain_def)


end
