(* ===== verification/Ay_Closure.thy ===== *)
theory Ay_Closure
  imports Ay_Epoch "HOL-Library.Monad_Syntax"
begin

text \<open>
  Closures of included files. \<^verbatim>\<open>Closure\<close> (\<^verbatim>\<open>closure.go\<close>) is the file itself and the files it needs,
  spread over nine buckets; \<^verbatim>\<open>BucketCache\<close> (\<^verbatim>\<open>bucket_cache.go\<close>) collects such a set in its scratch
  lists while an \<^verbatim>\<open>IdSet\<close> holds what has been seen.

  A bucket is modelled by its elements. In the program equal buckets are one array (they are
  interned, \<open>internBucket\<close> below) and the array carries an epoch in front of its elements; here the
  epochs are a function of the bucket. \<open>None\<close> is a Go panic.
\<close>

section \<open>Closures\<close>

record Closure =
  cl_self :: VFS
  cl_incomplete :: bool
  cl_hasDiagnostics :: bool
  cl_buckets :: "VFS list list"

definition zero_closure :: Closure where
  "zero_closure = \<lparr>cl_self = 0, cl_incomplete = False, cl_hasDiagnostics = False, cl_buckets = []\<rparr>"

text \<open>\<^verbatim>\<open>each\<close>: the files in the order the callback sees them.\<close>

definition Closure_each :: "Closure \<Rightarrow> VFS list" where
  "Closure_each cl = (if cl_self cl \<noteq> 0 then [cl_self cl] else []) @ concat (cl_buckets cl)"

definition Closure_len :: "Closure \<Rightarrow> nat" where
  "Closure_len cl = (if cl_self cl \<noteq> 0 then 1 else 0) + sum_list (map length (cl_buckets cl))"

definition Closure_collect :: "Closure \<Rightarrow> (VFS \<Rightarrow> bool) \<Rightarrow> VFS list" where
  "Closure_collect cl keep = filter keep (Closure_each cl)"

fun splice_all :: "IdSet \<Rightarrow> VFS list list \<Rightarrow> VFS list \<Rightarrow> nat \<Rightarrow> (nat \<times> IdSet \<times> VFS list) option" where
  "splice_all cs [] block k = Some (k, cs, block)"
| "splice_all cs (b # bs) block k =
     do { (k, cs, block) \<leftarrow> IdSet_spliceNew cs b block k; splice_all cs bs block k }"

definition Closure_spliceInto :: "Closure \<Rightarrow> IdSet \<Rightarrow> VFS list \<Rightarrow> nat \<Rightarrow> (nat \<times> IdSet \<times> VFS list) option" where
  "Closure_spliceInto cl cs block k =
     do { (k, cs, block) \<leftarrow> IdSet_spliceOne cs (cl_self cl) block k; splice_all cs (cl_buckets cl) block k }"

section \<open>Buckets\<close>

definition closureSourceBuckets :: nat where "closureSourceBuckets = 8"
definition closureBuckets :: nat where "closureBuckets = 1 + closureSourceBuckets"

definition closureBucketIndex :: "VFS \<Rightarrow> nat" where
  "closureBucketIndex x =
     (if x AND 1 \<noteq> 0 then 0
      else 1 + unat (drop_bit 1 x AND (of_nat closureSourceBuckets - 1)))"

record BucketCache =
  bc_scratch :: "VFS list list"
  bc_epochs :: "VFS list \<Rightarrow> u32"
  bc_bucketEpoch :: u32
  bc_selfBucket :: nat

definition firstBucketVisit :: "BucketCache \<Rightarrow> VFS list \<Rightarrow> bool \<times> BucketCache" where
  "firstBucketVisit c bucket =
     (if bc_epochs c bucket = bc_bucketEpoch c then (False, c)
      else (True, c\<lparr>bc_epochs := (bc_epochs c)(bucket := bc_bucketEpoch c)\<rparr>))"

definition clearBucketEpochs :: "BucketCache \<Rightarrow> BucketCache" where
  "clearBucketEpochs c = c\<lparr>bc_epochs := \<lambda>_. 0\<rparr>"

definition resetScratch :: "BucketCache \<Rightarrow> VFS \<Rightarrow> BucketCache" where
  "resetScratch c self =
     (let c = c\<lparr>bc_scratch := map (\<lambda>_. []) (bc_scratch c), bc_selfBucket := closureBucketIndex self,
              bc_bucketEpoch := bc_bucketEpoch c + 1\<rparr>
      in if bc_bucketEpoch c = 0 then (clearBucketEpochs c)\<lparr>bc_bucketEpoch := 1\<rparr> else c)"

definition scratch_append :: "BucketCache \<Rightarrow> nat \<Rightarrow> VFS list \<Rightarrow> BucketCache option" where
  "scratch_append c r vs =
     do { old \<leftarrow> at_opt (bc_scratch c) r; Some (c\<lparr>bc_scratch := (bc_scratch c)[r := old @ vs]\<rparr>) }"

definition BucketCache_spliceOne :: "BucketCache \<Rightarrow> IdSet \<Rightarrow> VFS \<Rightarrow> (BucketCache \<times> IdSet) option" where
  "BucketCache_spliceOne c seen v =
     do { g \<leftarrow> at_opt (vec_s (ids_gen seen)) (unat v);
          if g = ids_epoch seen then Some (c, seen)
          else do { c \<leftarrow> scratch_append c (closureBucketIndex v) [v];
                    Some (c, seen\<lparr>ids_gen := Vec_store (ids_gen seen) (unat v) (ids_epoch seen)\<rparr>) } }"

text \<open>
  The loops below write the generations through a pointer; a place outside the array is undefined.
  \<open>mark_new\<close> is the body of \<^verbatim>\<open>spliceBucketSlow\<close>, with \<open>dst\<close> the scratch list; \<open>mark_all\<close> is the
  loop of the fast path, which does not look.
\<close>

fun mark_new :: "IdSet \<Rightarrow> VFS list \<Rightarrow> VFS list \<Rightarrow> (VFS list \<times> IdSet) option" where
  "mark_new seen [] dst = Some (dst, seen)"
| "mark_new seen (v # bucket) dst =
     do { g \<leftarrow> at_opt (vec_s (ids_gen seen)) (unat v);
          if g = ids_epoch seen then mark_new seen bucket dst
          else mark_new (seen\<lparr>ids_gen := Vec_store (ids_gen seen) (unat v) (ids_epoch seen)\<rparr>) bucket (dst @ [v]) }"

fun mark_all :: "IdSet \<Rightarrow> VFS list \<Rightarrow> IdSet option" where
  "mark_all seen [] = Some seen"
| "mark_all seen (v # bucket) =
     do { _ \<leftarrow> at_opt (vec_s (ids_gen seen)) (unat v);
          mark_all (seen\<lparr>ids_gen := Vec_store (ids_gen seen) (unat v) (ids_epoch seen)\<rparr>) bucket }"

definition spliceBucketSlow :: "BucketCache \<Rightarrow> IdSet \<Rightarrow> VFS list \<Rightarrow> (BucketCache \<times> IdSet) option" where
  "spliceBucketSlow c seen bucket =
     do { v \<leftarrow> at_opt bucket 0;
          let r = closureBucketIndex v;
          dst \<leftarrow> at_opt (bc_scratch c) r;
          (dst, seen) \<leftarrow> mark_new seen bucket dst;
          Some (c\<lparr>bc_scratch := (bc_scratch c)[r := dst]\<rparr>, seen) }"

definition spliceBucket :: "BucketCache \<Rightarrow> IdSet \<Rightarrow> VFS list \<Rightarrow> (BucketCache \<times> IdSet) option" where
  "spliceBucket c seen bucket =
     (let (first, c) = firstBucketVisit c bucket
      in if \<not> first then Some (c, seen)
         else do { v \<leftarrow> at_opt bucket 0;
                   let r = closureBucketIndex v;
                   dst \<leftarrow> at_opt (bc_scratch c) r;
                   if dst = [] \<and> r \<noteq> bc_selfBucket c
                   then do { seen \<leftarrow> mark_all seen bucket; c \<leftarrow> scratch_append c r bucket; Some (c, seen) }
                   else spliceBucketSlow c seen bucket })"

text \<open>The loop of \<^verbatim>\<open>dfs\<close> over the buckets of a closure.\<close>

fun spliceBuckets :: "BucketCache \<Rightarrow> IdSet \<Rightarrow> VFS list list \<Rightarrow> (BucketCache \<times> IdSet) option" where
  "spliceBuckets c seen [] = Some (c, seen)"
| "spliceBuckets c seen (b # bs) = do { (c, seen) \<leftarrow> spliceBucket c seen b; spliceBuckets c seen bs }"

definition storeScratch :: "BucketCache \<Rightarrow> VFS \<Rightarrow> Closure" where
  "storeScratch c self =
     \<lparr>cl_self = self, cl_incomplete = False, cl_hasDiagnostics = False,
      cl_buckets = filter (\<lambda>b. b \<noteq> []) (bc_scratch c)\<rparr>"

fun scratch_all :: "BucketCache \<Rightarrow> VFS list \<Rightarrow> BucketCache option" where
  "scratch_all c [] = Some c"
| "scratch_all c (v # vs) = do { c \<leftarrow> scratch_append c (closureBucketIndex v) [v]; scratch_all c vs }"

definition storeBuckets :: "BucketCache \<Rightarrow> VFS \<Rightarrow> VFS list \<Rightarrow> (Closure \<times> BucketCache) option" where
  "storeBuckets c self rest =
     do { c \<leftarrow> scratch_all (resetScratch c self) rest; Some (storeScratch c self, c) }"

definition newBucketCache :: BucketCache where
  "newBucketCache = \<lparr>bc_scratch = replicate closureBuckets [], bc_epochs = \<lambda>_. 0, bc_bucketEpoch = 1, bc_selfBucket = 0\<rparr>"

section \<open>Collecting a set of files\<close>

text \<open>
  While a closure is collected, the seen set is the file itself and what the scratch lists hold, every
  file lies in the list of its bucket, and a bucket that bears the current epoch has been taken in.
\<close>

definition cl_files :: "Closure \<Rightarrow> VFS set" where
  "cl_files cl = insert (cl_self cl) (set (concat (cl_buckets cl)))"

definition scratch_ok :: "VFS list list \<Rightarrow> bool" where
  "scratch_ok bs \<longleftrightarrow> length bs = closureBuckets \<and> (\<forall>r < closureBuckets. \<forall>v \<in> set (bs ! r). closureBucketIndex v = r)"

definition bucket_ok :: "VFS list \<Rightarrow> bool" where
  "bucket_ok b \<longleftrightarrow> b \<noteq> [] \<and> distinct b \<and> (\<forall>v \<in> set b. closureBucketIndex v = closureBucketIndex (hd b))"

definition cl_ok :: "Closure \<Rightarrow> bool" where
  "cl_ok cl \<longleftrightarrow> (\<forall>b \<in> set (cl_buckets cl). bucket_ok b) \<and> distinct (cl_self cl # concat (cl_buckets cl))"

definition epochs_ok :: "BucketCache \<Rightarrow> bool" where
  "epochs_ok c \<longleftrightarrow> (\<forall>b. bc_epochs c b \<le> bc_bucketEpoch c)"

definition collecting :: "VFS \<Rightarrow> BucketCache \<Rightarrow> IdSet \<Rightarrow> bool" where
  "collecting self c seen \<longleftrightarrow>
     scratch_ok (bc_scratch c) \<and> distinct (self # concat (bc_scratch c)) \<and> epochs_ok c \<and> IdSet_inv seen
     \<and> IdSet_set seen = insert self (set (concat (bc_scratch c)))
     \<and> bc_selfBucket c = closureBucketIndex self
     \<and> (\<forall>b. bc_epochs c b = bc_bucketEpoch c \<longrightarrow> set b \<subseteq> IdSet_set seen)"

lemma closureBucketIndex_less [simp]: "closureBucketIndex v < closureBuckets"
proof -
  have "drop_bit 1 v AND (of_nat closureSourceBuckets - 1) = drop_bit 1 v AND mask 3"
    by (simp add: closureSourceBuckets_def mask_eq_exp_minus_1)
  then show ?thesis
    using mod_less_divisor [of "2 ^ 3" "unat (drop_bit 1 v)"]
    by (simp add: closureBucketIndex_def closureBuckets_def closureSourceBuckets_def unat_and_mask del: mod_less_divisor)
qed

lemma set_concat_update:
  assumes "r < length bs"
  shows "set (concat (bs[r := bs ! r @ vs])) = set (concat bs) \<union> set vs"
proof -
  have "concat bs = concat (take r bs) @ bs ! r @ concat (drop (Suc r) bs)"
    using arg_cong [OF id_take_nth_drop [OF assms], of concat] by simp
  then have "set (concat bs) = set (concat (take r bs)) \<union> set (bs ! r) \<union> set (concat (drop (Suc r) bs))"
    by (metis set_append sup_assoc)
  moreover have "concat (bs[r := bs ! r @ vs]) = concat (take r bs) @ bs ! r @ vs @ concat (drop (Suc r) bs)"
    using assms by (simp add: upd_conv_take_nth_drop)
  ultimately show ?thesis by (metis set_append sup_assoc sup_commute)
qed

lemma distinct_concat_update:
  assumes "r < length bs" and "distinct (concat bs)" and "distinct vs" and "set vs \<inter> set (concat bs) = {}"
  shows "distinct (concat (bs[r := bs ! r @ vs]))"
proof -
  have bs: "bs = take r bs @ bs ! r # drop (Suc r) bs" using assms(1) by (rule id_take_nth_drop)
  have "distinct (concat (take r bs @ bs ! r # drop (Suc r) bs))"
    and "set vs \<inter> set (concat (take r bs @ bs ! r # drop (Suc r) bs)) = {}"
    using assms(2,4) bs by simp_all
  then show ?thesis
    using assms(1,3) by (auto simp: upd_conv_take_nth_drop)
qed

lemma in_scratch_index:
  "scratch_ok bs \<Longrightarrow> v \<in> set (concat bs) \<Longrightarrow> v \<in> set (bs ! closureBucketIndex v)"
  by (auto simp: scratch_ok_def in_set_conv_nth [of _ bs])

lemma scratch_ok_update:
  "scratch_ok bs \<Longrightarrow> r < closureBuckets \<Longrightarrow> (\<And>v. v \<in> set vs \<Longrightarrow> closureBucketIndex v = r) \<Longrightarrow>
   scratch_ok (bs[r := bs ! r @ vs])"
  by (auto simp: scratch_ok_def nth_list_update)

text \<open>Taking new files of one bucket into the scratch list keeps the invariant.\<close>

lemma collecting_append:
  assumes "collecting self c seen" and "r < closureBuckets" and "\<And>v. v \<in> set vs \<Longrightarrow> closureBucketIndex v = r"
    and "distinct vs" and "set vs \<inter> IdSet_set seen = {}"
    and "IdSet_inv seen'" and "IdSet_set seen' = IdSet_set seen \<union> set vs"
  shows "collecting self (c\<lparr>bc_scratch := (bc_scratch c)[r := bc_scratch c ! r @ vs]\<rparr>) seen'"
proof -
  have len: "r < length (bc_scratch c)" and ok: "scratch_ok (bc_scratch c)"
    using assms(1,2) by (auto simp: collecting_def scratch_ok_def)
  have d: "distinct (concat (bc_scratch c))" "self \<notin> set (concat (bc_scratch c))"
    and s: "IdSet_set seen = insert self (set (concat (bc_scratch c)))"
    using assms(1) unfolding collecting_def by simp_all
  have "distinct (concat ((bc_scratch c)[r := bc_scratch c ! r @ vs]))"
    using distinct_concat_update [OF len d(1) assms(4)] assms(5) s by blast
  moreover have "set (concat ((bc_scratch c)[r := bc_scratch c ! r @ vs])) = set (concat (bc_scratch c)) \<union> set vs"
    using len by (rule set_concat_update)
  moreover have "scratch_ok ((bc_scratch c)[r := bc_scratch c ! r @ vs])"
    using scratch_ok_update [OF ok assms(2,3)] .
  ultimately show ?thesis
    using assms s d unfolding collecting_def epochs_ok_def by auto
qed

lemma IdSet_mark:
  assumes "IdSet_inv s" and "unat v < vec_len (ids_gen s)"
  defines "s' \<equiv> s\<lparr>ids_gen := Vec_store (ids_gen s) (unat v) (ids_epoch s)\<rparr>"
  shows "IdSet_inv s'" "IdSet_set s' = insert v (IdSet_set s)" "vec_len (ids_gen s') = vec_len (ids_gen s)"
    "at_opt (vec_s (ids_gen s)) (unat v) = Some (vec_arr (ids_gen s) ! unat v)"
    "vec_arr (ids_gen s) ! unat v = ids_epoch s \<longleftrightarrow> v \<in> IdSet_set s"
  using assms gens_store [of "ids_gen s" "ids_epoch s" v] gens_at [of "ids_gen s" "ids_epoch s" v]
    gens_member [of v "ids_gen s" "ids_epoch s"]
  by (simp_all add: IdSet_inv_def)

lemma mark_new_spec:
  assumes "IdSet_inv s" and "\<And>v. v \<in> set b \<Longrightarrow> unat v < vec_len (ids_gen s)"
  shows "\<exists>s'. mark_new s b dst = Some (dst @ nub_from (IdSet_set s) b, s') \<and> IdSet_inv s'
    \<and> IdSet_set s' = IdSet_set s \<union> set b \<and> vec_len (ids_gen s') = vec_len (ids_gen s)"
  using assms
proof (induction b arbitrary: s dst)
  case (Cons v b)
  have v: "unat v < vec_len (ids_gen s)" using Cons.prems(2) by simp
  note m = IdSet_mark [OF Cons.prems(1) v]
  show ?case
  proof (cases "v \<in> IdSet_set s")
    case True
    then show ?thesis using Cons.IH [OF Cons.prems(1), of dst] Cons.prems(2) m(4,5) by (auto simp: insert_absorb)
  next
    case False
    then show ?thesis using Cons.IH [OF m(1), of "dst @ [v]"] Cons.prems(2) m by auto
  qed
qed simp

lemma mark_all_spec:
  assumes "IdSet_inv s" and "\<And>v. v \<in> set b \<Longrightarrow> unat v < vec_len (ids_gen s)"
  shows "\<exists>s'. mark_all s b = Some s' \<and> IdSet_inv s' \<and> IdSet_set s' = IdSet_set s \<union> set b
    \<and> vec_len (ids_gen s') = vec_len (ids_gen s)"
  using assms
proof (induction b arbitrary: s)
  case (Cons v b)
  have v: "unat v < vec_len (ids_gen s)" using Cons.prems(2) by simp
  note m = IdSet_mark [OF Cons.prems(1) v]
  show ?case using Cons.IH [OF m(1)] Cons.prems(2) m by auto
qed simp

lemma BucketCache_spliceOne_spec:
  assumes c: "collecting self c seen" and v: "unat v < vec_len (ids_gen seen)"
  shows "\<exists>c' seen'. BucketCache_spliceOne c seen v = Some (c', seen') \<and> collecting self c' seen'
    \<and> IdSet_set seen' = insert v (IdSet_set seen) \<and> vec_len (ids_gen seen') = vec_len (ids_gen seen)"
proof -
  have inv: "IdSet_inv seen" and len: "length (bc_scratch c) = closureBuckets"
    using c by (simp_all add: collecting_def scratch_ok_def)
  note m = IdSet_mark [OF inv v]
  show ?thesis
  proof (cases "v \<in> IdSet_set seen")
    case True
    then show ?thesis using c m(4,5) by (auto simp: BucketCache_spliceOne_def insert_absorb)
  next
    case False
    then have "collecting self (c\<lparr>bc_scratch := (bc_scratch c)[closureBucketIndex v := bc_scratch c ! closureBucketIndex v @ [v]]\<rparr>)
        (seen\<lparr>ids_gen := Vec_store (ids_gen seen) (unat v) (ids_epoch seen)\<rparr>)"
      using m(2) by (intro collecting_append [OF c _ _ _ _ m(1)]) auto
    then show ?thesis using False m len by (auto simp: BucketCache_spliceOne_def scratch_append_def)
  qed
qed

text \<open>
  Whatever the state of the collection, \<^verbatim>\<open>spliceBucket\<close> does what the slow path does: a bucket
  that was visited has nothing new, and when the scratch list of a bucket is empty and the file itself
  lies elsewhere, every file of the bucket is new.
\<close>

lemma collecting_visit:
  assumes "collecting self c seen" and "set b \<subseteq> IdSet_set seen"
  shows "collecting self (c\<lparr>bc_epochs := (bc_epochs c)(b := bc_bucketEpoch c)\<rparr>) seen"
proof -
  have "bc_epochs c x = bc_bucketEpoch c \<longrightarrow> set x \<subseteq> IdSet_set seen" for x
    using assms(1) unfolding collecting_def by blast
  then show ?thesis using assms unfolding collecting_def epochs_ok_def by (simp add: subset_iff)
qed

lemma bucket_okD:
  assumes "bucket_ok b"
  shows "b \<noteq> []" "distinct b" "v \<in> set b \<Longrightarrow> closureBucketIndex v = closureBucketIndex (hd b)" "at_opt b 0 = Some (hd b)"
proof -
  show "b \<noteq> []" "distinct b" "v \<in> set b \<Longrightarrow> closureBucketIndex v = closureBucketIndex (hd b)"
    using assms unfolding bucket_ok_def by blast+
  then show "at_opt b 0 = Some (hd b)" by (simp add: hd_conv_nth)
qed

lemma collectingD:
  assumes "collecting self c seen"
  shows "scratch_ok (bc_scratch c)" "length (bc_scratch c) = closureBuckets" "IdSet_inv seen"
    "IdSet_set seen = insert self (set (concat (bc_scratch c)))" "bc_selfBucket c = closureBucketIndex self"
    "bc_epochs c b = bc_bucketEpoch c \<Longrightarrow> set b \<subseteq> IdSet_set seen" "epochs_ok c"
    "distinct (self # concat (bc_scratch c))"
  using assms unfolding collecting_def scratch_ok_def by blast+

lemma spliceBucketSlow_spec:
  assumes c: "collecting self c seen" and b: "bucket_ok b" and l: "\<And>v. v \<in> set b \<Longrightarrow> unat v < vec_len (ids_gen seen)"
  shows "\<exists>c' seen'. spliceBucketSlow c seen b = Some (c', seen') \<and> collecting self c' seen'
    \<and> IdSet_set seen' = IdSet_set seen \<union> set b \<and> vec_len (ids_gen seen') = vec_len (ids_gen seen)
    \<and> bc_epochs c' = bc_epochs c \<and> bc_bucketEpoch c' = bc_bucketEpoch c"
proof -
  note inv = collectingD(3) [OF c] and len = collectingD(2) [OF c]
  let ?r = "closureBucketIndex (hd b)" and ?n = "nub_from (IdSet_set seen) b"
  obtain seen' where s: "mark_new seen b (bc_scratch c ! ?r) = Some (bc_scratch c ! ?r @ ?n, seen')"
    "IdSet_inv seen'" "IdSet_set seen' = IdSet_set seen \<union> set b" "vec_len (ids_gen seen') = vec_len (ids_gen seen)"
    using mark_new_spec [OF inv l] by blast
  have "collecting self (c\<lparr>bc_scratch := (bc_scratch c)[?r := bc_scratch c ! ?r @ ?n]\<rparr>) seen'"
    using bucket_okD(3) [OF b] s(3) by (intro collecting_append [OF c _ _ _ _ s(2)]) (auto simp: set_nub_from distinct_nub_from)
  then show ?thesis
    using s bucket_okD(4) [OF b] len by (auto simp: spliceBucketSlow_def Let_def)
qed

lemma spliceBucket_fast:
  assumes c: "collecting self c seen" and b: "bucket_ok b" and l: "\<And>v. v \<in> set b \<Longrightarrow> unat v < vec_len (ids_gen seen)"
    and e: "bc_scratch c ! closureBucketIndex (hd b) = []" "closureBucketIndex (hd b) \<noteq> bc_selfBucket c"
  shows "nub_from (IdSet_set seen) b = b"
proof (rule nub_from_eq_self)
  show "distinct b" using b by (rule bucket_okD)
  note ok = collectingD(1) [OF c] and s = collectingD(4) [OF c] and self = collectingD(5) [OF c]
  show "set b \<inter> IdSet_set seen = {}"
  proof -
    have "v \<notin> IdSet_set seen" if "v \<in> set b" for v
    proof
      assume v: "v \<in> IdSet_set seen"
      have i: "closureBucketIndex v = closureBucketIndex (hd b)" using b that by (rule bucket_okD(3))
      then have "v \<noteq> self" using e(2) self by metis
      then have "v \<in> set (bc_scratch c ! closureBucketIndex v)"
        using in_scratch_index [OF ok] v s by blast
      then show False using e(1) i by simp
    qed
    then show ?thesis by blast
  qed
qed

lemma spliceBucket_spec:
  assumes c: "collecting self c seen" and b: "bucket_ok b" and l: "\<And>v. v \<in> set b \<Longrightarrow> unat v < vec_len (ids_gen seen)"
  shows "\<exists>c' seen'. spliceBucket c seen b = Some (c', seen') \<and> collecting self c' seen'
    \<and> IdSet_set seen' = IdSet_set seen \<union> set b \<and> vec_len (ids_gen seen') = vec_len (ids_gen seen)"
proof (cases "bc_epochs c b = bc_bucketEpoch c")
  case True
  then show ?thesis
    using c collectingD(6) [OF c True] by (auto simp: spliceBucket_def firstBucketVisit_def Un_absorb2)
next
  case False
  let ?r = "closureBucketIndex (hd b)" and ?c = "c\<lparr>bc_epochs := (bc_epochs c)(b := bc_bucketEpoch c)\<rparr>"
  note at = bucket_okD(4) [OF b]
  have len: "?r < length (bc_scratch c)" using collectingD(2) [OF c] by simp
  show ?thesis
  proof (cases "bc_scratch c ! ?r = [] \<and> ?r \<noteq> bc_selfBucket c")
    case fast: True
    obtain seen' where s: "mark_all seen b = Some seen'" "IdSet_inv seen'" "IdSet_set seen' = IdSet_set seen \<union> set b"
      "vec_len (ids_gen seen') = vec_len (ids_gen seen)"
      using mark_all_spec [OF collectingD(3) [OF c] l] by blast
    have "nub_from (IdSet_set seen) b = b" using spliceBucket_fast [OF c b l] fast by blast
    then have "set b \<inter> IdSet_set seen = {}" by (metis Diff_disjoint inf_commute set_nub_from)
    then have "collecting self (c\<lparr>bc_scratch := (bc_scratch c)[?r := bc_scratch c ! ?r @ b]\<rparr>) seen'"
      using bucket_okD(2,3) [OF b] s(3) by (intro collecting_append [OF c _ _ _ _ s(2)]) auto
    then have "collecting self (c\<lparr>bc_scratch := (bc_scratch c)[?r := bc_scratch c ! ?r @ b],
        bc_epochs := (bc_epochs c)(b := bc_bucketEpoch c)\<rparr>) seen'"
      using collecting_visit [of self "c\<lparr>bc_scratch := (bc_scratch c)[?r := bc_scratch c ! ?r @ b]\<rparr>" seen' b] s(3) by simp
    moreover have "c\<lparr>bc_scratch := bs, bc_epochs := e\<rparr> = c\<lparr>bc_epochs := e, bc_scratch := bs\<rparr>" for bs e
      by simp
    ultimately have "collecting self (?c\<lparr>bc_scratch := (bc_scratch c)[?r := bc_scratch c ! ?r @ b]\<rparr>) seen'"
      by metis
    then show ?thesis
      using False fast at len s by (auto simp: spliceBucket_def firstBucketVisit_def scratch_append_def Let_def)
  next
    case slow: False
    obtain c' seen' where s: "spliceBucketSlow c seen b = Some (c', seen')" "collecting self c' seen'"
      "IdSet_set seen' = IdSet_set seen \<union> set b" "vec_len (ids_gen seen') = vec_len (ids_gen seen)"
      "bc_epochs c' = bc_epochs c" "bc_bucketEpoch c' = bc_bucketEpoch c"
      using spliceBucketSlow_spec [OF c b l] by blast
    have "spliceBucketSlow ?c seen b = Some (c'\<lparr>bc_epochs := (bc_epochs c)(b := bc_bucketEpoch c)\<rparr>, seen')"
      using s(1) by (auto simp: spliceBucketSlow_def Let_def split: bind_splits)
    then show ?thesis
      using False slow at len s collecting_visit [OF s(2), of b]
      by (auto simp: spliceBucket_def firstBucketVisit_def Let_def)
  qed
qed

lemma spliceBuckets_spec:
  assumes "collecting self c seen" and "\<forall>b \<in> set bs. bucket_ok b"
    and "\<And>v. v \<in> set (concat bs) \<Longrightarrow> unat v < vec_len (ids_gen seen)"
  shows "\<exists>c' seen'. spliceBuckets c seen bs = Some (c', seen') \<and> collecting self c' seen'
    \<and> IdSet_set seen' = IdSet_set seen \<union> set (concat bs) \<and> vec_len (ids_gen seen') = vec_len (ids_gen seen)"
  using assms
proof (induction bs arbitrary: c seen)
  case (Cons b bs)
  obtain c1 seen1 where 1: "spliceBucket c seen b = Some (c1, seen1)" "collecting self c1 seen1"
    "IdSet_set seen1 = IdSet_set seen \<union> set b" "vec_len (ids_gen seen1) = vec_len (ids_gen seen)"
    using spliceBucket_spec [OF Cons.prems(1), of b] Cons.prems(2,3) by auto
  then show ?case using Cons.IH [OF 1(2)] Cons.prems(2,3) by (auto simp: Un_assoc)
qed simp

lemma resetScratch_simps [simp]:
  "bc_scratch (resetScratch c self) = map (\<lambda>_. []) (bc_scratch c)"
  "bc_selfBucket (resetScratch c self) = closureBucketIndex self"
  by (simp_all add: resetScratch_def clearBucketEpochs_def Let_def)

lemma resetScratch_epochs:
  assumes "epochs_ok c"
  shows "epochs_ok (resetScratch c self)" "bc_epochs (resetScratch c self) b \<noteq> bc_bucketEpoch (resetScratch c self)"
proof -
  have "bc_epochs c b < bc_bucketEpoch c + 1" if "bc_bucketEpoch c + 1 \<noteq> 0" for b
    using word_less_plus_one(1) [OF that] assms unfolding epochs_ok_def by (meson le_less_trans)
  then show "epochs_ok (resetScratch c self)" "bc_epochs (resetScratch c self) b \<noteq> bc_bucketEpoch (resetScratch c self)"
    by (auto simp: resetScratch_def clearBucketEpochs_def epochs_ok_def Let_def less_imp_le dest: less_imp_neq)
qed

lemma concat_map_nil [simp]: "concat (map (\<lambda>_. []) xs) = []"
  by (induction xs) auto

lemma collecting_start:
  assumes "length (bc_scratch c) = closureBuckets" and "epochs_ok c" and "IdSet_inv seen" and "IdSet_set seen = {self}"
  shows "collecting self (resetScratch c self) seen"
  using assms resetScratch_epochs [OF assms(2)] by (auto simp: collecting_def scratch_ok_def)

lemma concat_filter_nonempty: "concat (filter (\<lambda>b. b \<noteq> []) bs) = concat bs"
  by (induction bs) auto

lemma storeScratch_cl_ok:
  assumes "scratch_ok (bc_scratch c)" and "distinct (self # concat (bc_scratch c))"
  shows "cl_ok (storeScratch c self)"
proof -
  have "bucket_ok b" if b: "b \<in> set (bc_scratch c)" and ne: "b \<noteq> []" for b
  proof -
    obtain r where "r < length (bc_scratch c)" "bc_scratch c ! r = b"
      using b unfolding in_set_conv_nth by blast
    then have "closureBucketIndex v = r" if "v \<in> set b" for v
      using that assms(1) by (auto simp: scratch_ok_def)
    moreover have "distinct b"
      using assms(2) b by (simp add: distinct_concat_iff)
    ultimately show ?thesis
      unfolding bucket_ok_def using ne hd_in_set [OF ne] by simp
  qed
  then show ?thesis
    using assms(2) unfolding cl_ok_def storeScratch_def by (simp add: concat_filter_nonempty del: set_concat)
qed

lemma storeScratch_spec:
  assumes "collecting self c seen"
  shows "cl_files (storeScratch c self) = IdSet_set seen" "cl_ok (storeScratch c self)"
  using collectingD(4) [OF assms] storeScratch_cl_ok [OF collectingD(1,8) [OF assms]]
  by (simp_all add: cl_files_def storeScratch_def concat_filter_nonempty del: set_concat)

text \<open>The scratch lists filled from a list of new files (\<^verbatim>\<open>storeBuckets\<close>).\<close>

lemma scratch_all_spec:
  assumes "scratch_ok (bc_scratch c)" and "distinct (concat (bc_scratch c) @ vs)"
  shows "\<exists>bs. scratch_all c vs = Some (c\<lparr>bc_scratch := bs\<rparr>) \<and> scratch_ok bs
    \<and> set (concat bs) = set (concat (bc_scratch c)) \<union> set vs \<and> distinct (concat bs)"
  using assms
proof (induction vs arbitrary: c)
  case (Cons v vs)
  let ?r = "closureBucketIndex v"
  let ?c = "c\<lparr>bc_scratch := (bc_scratch c)[?r := bc_scratch c ! ?r @ [v]]\<rparr>"
  have len: "?r < length (bc_scratch c)" using Cons.prems(1) by (simp add: scratch_ok_def)
  have set: "set (concat (bc_scratch ?c)) = insert v (set (concat (bc_scratch c)))"
    using set_concat_update [OF len, of "[v]"] by simp
  have d: "distinct (concat (bc_scratch ?c))"
    using distinct_concat_update [OF len, of "[v]"] Cons.prems(2) by simp
  have "\<exists>bs. scratch_all ?c vs = Some (?c\<lparr>bc_scratch := bs\<rparr>) \<and> scratch_ok bs
      \<and> set (concat bs) = set (concat (bc_scratch ?c)) \<union> set vs \<and> distinct (concat bs)"
  proof (rule Cons.IH)
    have "scratch_ok ((bc_scratch c)[?r := bc_scratch c ! ?r @ [v]])"
      by (rule scratch_ok_update [OF Cons.prems(1)]) simp_all
    then show "scratch_ok (bc_scratch ?c)" by simp
    show "distinct (concat (bc_scratch ?c) @ vs)"
      using Cons.prems(2) d unfolding distinct_append set by auto
  qed
  then show ?case using len set by (auto simp: scratch_append_def)
next
  case Nil
  have "c = c\<lparr>bc_scratch := bc_scratch c\<rparr>" by simp
  then show ?case using Nil by (metis append_Nil2 list.set(1) scratch_all.simps(1) sup_bot_right)
qed

lemma storeBuckets_spec:
  assumes "length (bc_scratch c) = closureBuckets" and "epochs_ok c" and "distinct (self # rest)"
  shows "\<exists>cl c'. storeBuckets c self rest = Some (cl, c') \<and> cl_files cl = set (self # rest) \<and> cl_ok cl
    \<and> cl_self cl = self \<and> \<not> cl_incomplete cl \<and> \<not> cl_hasDiagnostics cl
    \<and> length (bc_scratch c') = closureBuckets \<and> epochs_ok c'"
proof -
  let ?c = "resetScratch c self"
  obtain bs where bs: "scratch_all ?c rest = Some (?c\<lparr>bc_scratch := bs\<rparr>)" "scratch_ok bs"
    "set (concat bs) = set rest" "distinct (concat bs)"
    using scratch_all_spec [of ?c rest] assms(1,3) by (auto simp: scratch_ok_def)
  have ok: "scratch_ok (bc_scratch (?c\<lparr>bc_scratch := bs\<rparr>))" using bs(2) by simp
  have d: "distinct (self # concat bs)" using bs(3,4) assms(3) by (simp add: set_eq_iff)
  have "cl_files (storeScratch (?c\<lparr>bc_scratch := bs\<rparr>) self) = set (self # rest)"
    using bs(3) by (simp add: cl_files_def storeScratch_def concat_filter_nonempty del: set_concat)
  moreover have "cl_ok (storeScratch (?c\<lparr>bc_scratch := bs\<rparr>) self)"
    using storeScratch_cl_ok [OF ok] d by simp
  ultimately show ?thesis
    using bs(1) resetScratch_epochs(1) [OF assms(2), of self] ok
    by (auto simp: storeBuckets_def storeScratch_def epochs_ok_def scratch_ok_def)
qed

section \<open>Filling a block\<close>

text \<open>The first \<open>k\<close> places of the block hold the seen set, each file once.\<close>

definition filled :: "IdSet \<Rightarrow> VFS list \<Rightarrow> nat \<Rightarrow> bool" where
  "filled cs block k \<longleftrightarrow> IdSet_inv cs \<and> k \<le> length block \<and> distinct (take k block) \<and> set (take k block) = IdSet_set cs"

lemma IdSet_spliceNew_append:
  "IdSet_spliceNew cs (xs @ ys) block k =
     do { (k, cs, block) \<leftarrow> IdSet_spliceNew cs xs block k; IdSet_spliceNew cs ys block k }"
  by (induction cs xs block k rule: IdSet_spliceNew.induct) (auto split: option.splits)

lemma splice_all_concat: "splice_all cs bs block k = IdSet_spliceNew cs (concat bs) block k"
  by (induction bs arbitrary: cs block k) (simp_all add: IdSet_spliceNew_append)

lemma IdSet_spliceOne_eq: "IdSet_spliceOne cs v block k = IdSet_spliceNew cs [v] block k"
  by (simp add: IdSet_spliceOne_def split: option.splits)

lemma Closure_spliceInto_eq:
  "Closure_spliceInto cl cs block k = IdSet_spliceNew cs (cl_self cl # concat (cl_buckets cl)) block k"
  using IdSet_spliceNew_append [of cs "[cl_self cl]" "concat (cl_buckets cl)"]
  by (simp add: Closure_spliceInto_def splice_all_concat IdSet_spliceOne_eq)

lemma filled_splice:
  assumes f: "filled cs block k" and l: "\<And>v. v \<in> set win \<Longrightarrow> unat v < vec_len (ids_gen cs)"
    and c: "card (IdSet_set cs \<union> set win) \<le> length block"
  shows "\<exists>k' cs' block'. IdSet_spliceNew cs win block k = Some (k', cs', block') \<and> filled cs' block' k'
    \<and> IdSet_set cs' = IdSet_set cs \<union> set win \<and> vec_len (ids_gen cs') = vec_len (ids_gen cs)
    \<and> length block' = length block \<and> k \<le> k' \<and> take k block' = take k block"
proof -
  let ?n = "nub_from (IdSet_set cs) win"
  have inv: "IdSet_inv cs" and k: "k \<le> length block" and t: "set (take k block) = IdSet_set cs" "distinct (take k block)"
    using f by (simp_all add: filled_def)
  have d: "distinct (take k block @ ?n)" "set (take k block @ ?n) = IdSet_set cs \<union> set win"
    using t by (auto simp: distinct_nub_from set_nub_from)
  then have "k + length ?n = card (IdSet_set cs \<union> set win)"
    using k distinct_card [OF d(1)] by simp
  then have "k + length ?n \<le> length block" using c by simp
  then obtain cs' where "IdSet_spliceNew cs win block k = Some (k + length ?n, cs', take k block @ ?n @ drop (k + length ?n) block)"
    "IdSet_inv cs'" "IdSet_set cs' = IdSet_set cs \<union> set win" "vec_len (ids_gen cs') = vec_len (ids_gen cs)"
    using IdSet_spliceNew_spec [OF inv l] by blast
  then show ?thesis
    using k d \<open>k + length ?n \<le> length block\<close> by (auto simp: filled_def)
qed


section \<open>The fast path\<close>

lemma mark_new_seen: "IdSet_inv s \<Longrightarrow> (\<And>v. v \<in> set b \<Longrightarrow> unat v < vec_len (ids_gen s)) \<Longrightarrow> set b \<subseteq> IdSet_set s \<Longrightarrow>
  mark_new s b dst = Some (dst, s)"
proof (induction b)
  case (Cons v b)
  then have v: "unat v < vec_len (ids_gen s)" by simp
  show ?case using IdSet_mark(4,5) [OF Cons.prems(1) v] Cons by simp
qed simp

lemma mark_new_all:
  assumes "IdSet_inv s" and "\<And>v. v \<in> set b \<Longrightarrow> unat v < vec_len (ids_gen s)" and "distinct b" and "set b \<inter> IdSet_set s = {}"
  shows "mark_new s b dst = map_option (\<lambda>s'. (dst @ b, s')) (mark_all s b)"
  using assms
proof (induction b arbitrary: s dst)
  case (Cons v b)
  then have v: "unat v < vec_len (ids_gen s)" by simp
  note m = IdSet_mark [OF Cons.prems(1) v]
  show ?case using Cons.IH [OF m(1), of "dst @ [v]"] Cons.prems(2,3,4) m(2-5) by simp
qed simp

text \<open>
  C28: \<^verbatim>\<open>spliceBucket\<close> collects what its slow path collects. It skips a bucket that was visited since the
  last reset, and copies a bucket whole, without asking for every file whether it was seen, when the
  scratch list for its kind is empty and the file whose closure is collected is of another kind. In
  every state of a collection both give the scratch lists and the marks of the loop that asks.
\<close>

theorem spliceBucket_fast_path:
  assumes "collecting self c seen" and "bucket_ok b" and "\<forall>v \<in> set b. unat v < vec_len (ids_gen seen)"
  shows "map_option (map_prod bc_scratch id) (spliceBucket c seen b) = map_option (map_prod bc_scratch id) (spliceBucketSlow c seen b)"
proof -
  note c = assms(1) and b = assms(2)
  have l: "\<And>v. v \<in> set b \<Longrightarrow> unat v < vec_len (ids_gen seen)" using assms(3) by blast
  let ?r = "closureBucketIndex (hd b)"
  note at = bucket_okD(4) [OF b] and inv = collectingD(3) [OF c]
  have len: "?r < length (bc_scratch c)" using collectingD(2) [OF c] by simp
  show ?thesis
  proof (cases "bc_epochs c b = bc_bucketEpoch c")
    case True
    then have "mark_new seen b (bc_scratch c ! ?r) = Some (bc_scratch c ! ?r, seen)"
      using mark_new_seen [OF inv l collectingD(6) [OF c True]] by blast
    then show ?thesis using True at len by (simp add: spliceBucket_def spliceBucketSlow_def firstBucketVisit_def Let_def)
  next
    case False
    show ?thesis
    proof (cases "bc_scratch c ! ?r = [] \<and> ?r \<noteq> bc_selfBucket c")
      case fast: True
      have "nub_from (IdSet_set seen) b = b" using spliceBucket_fast [OF c b l] fast by blast
      then have "set b \<inter> IdSet_set seen = {}" by (metis Diff_disjoint inf_commute set_nub_from)
      then have "mark_new seen b [] = map_option (\<lambda>s'. (b, s')) (mark_all seen b)"
        using mark_new_all [OF inv l bucket_okD(2) [OF b], of "[]"] by simp
      then show ?thesis
        using False fast at len
        by (cases "mark_all seen b") (simp_all add: spliceBucket_def spliceBucketSlow_def firstBucketVisit_def scratch_append_def Let_def)
    next
      case slow: False
      then show ?thesis
        using False at len
        by (cases "mark_new seen b (bc_scratch c ! ?r)")
          (auto simp: spliceBucket_def spliceBucketSlow_def firstBucketVisit_def Let_def)
    qed
  qed
qed

theorem spliceBucket_fast_path_witness:
  "map_option (map_prod bc_scratch id) (spliceBucket (resetScratch newBucketCache 2) (IdSet_add (IdSet_reset IdSet_new 64) 2) [3, 5])
   = map_option (map_prod bc_scratch id) (spliceBucketSlow (resetScratch newBucketCache 2) (IdSet_add (IdSet_reset IdSet_new 64) 2) [3, 5])"
proof (rule spliceBucket_fast_path [where self = 2])
  note R = IdSet_reset_spec [OF IdSet_new_ok, of 64]
  have A: "IdSet_inv (IdSet_add (IdSet_reset IdSet_new 64) 2)" "IdSet_set (IdSet_add (IdSet_reset IdSet_new 64) 2) = {2}"
    using IdSet_add_spec [OF R(1), of 2] R(2) by simp_all
  show "collecting 2 (resetScratch newBucketCache 2) (IdSet_add (IdSet_reset IdSet_new 64) 2)"
    by (rule collecting_start) (use A in \<open>simp_all add: newBucketCache_def epochs_ok_def\<close>)
  show "bucket_ok [3, 5]" by (simp add: bucket_ok_def closureBucketIndex_def)
  show "\<forall>v \<in> set [3, 5 :: VFS]. unat v < vec_len (ids_gen (IdSet_add (IdSet_reset IdSet_new 64) 2))"
    by (simp add: IdSet_add_def IdSet_reset_def IdSet_new_def Vec_freshLen_def Vec_ensureLen_def)
qed

section \<open>Interning buckets\<close>

text \<open>
  \<^verbatim>\<open>internBucket\<close> finds a stored bucket by a pair of 64-bit hashes, the first one the key of a hash
  table and the second one kept for comparison, and in a second table the other way round. The hash
  function, which is written in assembly, is a parameter \<open>h\<close>; the tables map a key to the verifying
  hash and the stored elements. \<open>None\<close> is the exception for a collision.
\<close>

record BucketTables =
  bt_intern :: "u64 \<Rightarrow> (u64 \<times> VFS list) option"
  bt_overflow :: "u64 \<Rightarrow> (u64 \<times> VFS list) option"

definition internBucket :: "(VFS list \<Rightarrow> u64 \<times> u64) \<Rightarrow> BucketTables \<Rightarrow> VFS list \<Rightarrow> (VFS list \<times> BucketTables) option" where
  "internBucket h t elems =
     (let (h1, h2) = h elems
      in case bt_intern t h1 of
           None \<Rightarrow> Some (elems, t\<lparr>bt_intern := (bt_intern t)(h1 \<mapsto> (h2, elems))\<rparr>)
         | Some (verify, stored) \<Rightarrow>
             if verify = h2 then Some (stored, t)
             else case bt_overflow t h2 of
                    None \<Rightarrow> Some (elems, t\<lparr>bt_overflow := (bt_overflow t)(h2 \<mapsto> (h1, elems))\<rparr>)
                  | Some (verify2, stored2) \<Rightarrow> if verify2 \<noteq> h1 then None else Some (stored2, t))"

definition stored :: "BucketTables \<Rightarrow> VFS list set" where
  "stored t = {xs. \<exists>k v. bt_intern t k = Some (v, xs) \<or> bt_overflow t k = Some (v, xs)}"

text \<open>The buckets interned one after the other.\<close>

fun internAll :: "(VFS list \<Rightarrow> u64 \<times> u64) \<Rightarrow> BucketTables \<Rightarrow> VFS list list \<Rightarrow> (VFS list list \<times> BucketTables) option" where
  "internAll h t [] = Some ([], t)"
| "internAll h t (b # bs) =
     do { (x, t) \<leftarrow> internBucket h t b; (xs, t) \<leftarrow> internAll h t bs; Some (x # xs, t) }"

definition tables_ok :: "(VFS list \<Rightarrow> u64 \<times> u64) \<Rightarrow> BucketTables \<Rightarrow> bool" where
  "tables_ok h t \<longleftrightarrow> (\<forall>k v xs. (bt_intern t k = Some (v, xs) \<longrightarrow> h xs = (k, v)) \<and> (bt_overflow t k = Some (v, xs) \<longrightarrow> h xs = (v, k)))"

lemma internBucket_spec:
  assumes "tables_ok h t" and "inj_on h (insert b (stored t))"
    and "\<And>x y. x \<in> stored t \<Longrightarrow> y \<in> stored t \<Longrightarrow> fst (h x) = fst (h b) \<Longrightarrow> snd (h y) = snd (h b) \<Longrightarrow> x = b \<or> y = b"
  shows "\<exists>t'. internBucket h t b = Some (b, t') \<and> tables_ok h t' \<and> stored t' \<subseteq> insert b (stored t)"
proof -
  obtain h1 h2 where h: "h b = (h1, h2)" by force
  have same: "x = b" if "x \<in> stored t" "h x = h b" for x using inj_onD [OF assms(2) that(2)] that(1) by blast
  show ?thesis
  proof (cases "bt_intern t h1")
    case None
    then show ?thesis using assms(1) h by (auto simp: internBucket_def tables_ok_def stored_def split: if_splits)
  next
    case (Some p)
    obtain v xs where p: "p = (v, xs)" by force
    have hx: "h xs = (h1, v)" "xs \<in> stored t" using Some p assms(1) by (auto simp: tables_ok_def stored_def)
    show ?thesis
    proof (cases "v = h2")
      case True
      then have "xs = b" using same hx h by simp
      then show ?thesis using Some p True h assms(1) by (auto simp: internBucket_def)
    next
      case False
      show ?thesis
      proof (cases "bt_overflow t h2")
        case None
        then show ?thesis using Some p False assms(1) h by (auto simp: internBucket_def tables_ok_def stored_def split: if_splits)
      next
        case (Some q)
        obtain w ys where q: "q = (w, ys)" by force
        have hy: "h ys = (w, h2)" "ys \<in> stored t" using Some q assms(1) by (auto simp: tables_ok_def stored_def)
        have "ys = b" using assms(3) [OF hx(2) hy(2)] hx hy h False by auto
        then show ?thesis using \<open>bt_intern t h1 = Some p\<close> p False Some q h hy(1) assms(1) by (auto simp: internBucket_def)
      qed
    qed
  qed
qed


lemma internAll_spec:
  assumes "tables_ok h t" and "inj_on h (set bs \<union> stored t)"
    and "\<And>x y b. x \<in> set bs \<union> stored t \<Longrightarrow> y \<in> set bs \<union> stored t \<Longrightarrow> b \<in> set bs \<Longrightarrow>
      fst (h x) = fst (h b) \<Longrightarrow> snd (h y) = snd (h b) \<Longrightarrow> x = b \<or> y = b"
  shows "\<exists>t'. internAll h t bs = Some (bs, t')"
  using assms
proof (induction bs arbitrary: t)
  case (Cons b bs)
  have "inj_on h (insert b (stored t))" using Cons.prems(2) by (rule inj_on_subset) auto
  then obtain t1 where 1: "internBucket h t b = Some (b, t1)" "tables_ok h t1" "stored t1 \<subseteq> insert b (stored t)"
    using internBucket_spec [OF Cons.prems(1)] Cons.prems(3) by (metis UnCI list.set_intros(1))
  have "\<exists>t'. internAll h t1 bs = Some (bs, t')"
  proof (rule Cons.IH [OF 1(2)])
    show "inj_on h (set bs \<union> stored t1)" using Cons.prems(2) by (rule inj_on_subset) (use 1(3) in auto)
    show "x = b' \<or> y = b'" if "x \<in> set bs \<union> stored t1" "y \<in> set bs \<union> stored t1" "b' \<in> set bs"
      "fst (h x) = fst (h b')" "snd (h y) = snd (h b')" for x y b'
      using Cons.prems(3) [of x y b'] that 1(3) by auto
  qed
  then show ?case using 1(1) by auto
qed simp

text \<open>
  Interning gives back the buckets that were stored. Buckets interned one after the other, starting
  from empty tables, come back with their elements, also when they are repeated and when one of the
  two hashes of a bucket is that of another: the exception and a wrong bucket need two buckets with
  both hashes equal, or a bucket that shares its first hash with one bucket and its second with
  another.
\<close>

theorem internBucket_roundtrip:
  assumes "inj_on h (set bs)"
    and "\<forall>x \<in> set bs. \<forall>y \<in> set bs. \<forall>b \<in> set bs. fst (h x) = fst (h b) \<longrightarrow> snd (h y) = snd (h b) \<longrightarrow> x = b \<or> y = b"
  shows "\<exists>t. internAll h \<lparr>bt_intern = \<lambda>_. None, bt_overflow = \<lambda>_. None\<rparr> bs = Some (bs, t)"
  using assms by (intro internAll_spec) (auto simp: tables_ok_def stored_def)

theorem internBucket_roundtrip_witness:
  "\<exists>t. internAll (\<lambda>xs. (of_nat (length xs), 0)) \<lparr>bt_intern = \<lambda>_. None, bt_overflow = \<lambda>_. None\<rparr> [[3], [3, 5], [3]]
     = Some ([[3], [3, 5], [3]], t)"
  using internBucket_roundtrip [of "\<lambda>xs. (of_nat (length xs), 0)" "[[3], [3, 5], [3]]"] by (simp add: inj_on_def)

end
