(* ===== verification/Ay_Tarjan.thy ===== *)
theory Ay_Tarjan
  imports Ay_Closure
begin

text \<open>
  The closure of the include graph: \<^verbatim>\<open>TarjanCtx\<close> (\<^verbatim>\<open>tarjan_ctx.go\<close>) finds the strongly connected
  components below a file and gives all files of a component one closure; \<^verbatim>\<open>ScanCtx\<close>
  (\<^verbatim>\<open>scanner.go\<close>: \<^verbatim>\<open>dfs\<close>, \<^verbatim>\<open>ensureClosure\<close>, \<^verbatim>\<open>closureOf\<close> and the methods of \<^verbatim>\<open>ClosureSink\<close>)
  walks acyclic parts directly and calls it when it meets a file that is already being walked.

  What the traversal reads and does not change is the record \<open>ScanCtx\<close>: for every file its entry in
  the table of scanned files as \<^verbatim>\<open>resolvedChildren\<close> leaves it, the main output of the command that
  generates it, whether its includes are scanned, the inputs of its text template, and the mode of the
  scan. Finding the includes of a file is not modelled.

  The recursion is bounded by fuel, one unit for every nested call; \<open>None\<close> is a Go panic or a lack
  of fuel.
\<close>

section \<open>The scan\<close>

record ScannedChildren =
  ch_Deferred :: bool
  ch_Paths :: "VFS list"
  ch_Diagnostics :: bool \<comment> \<open>whether there are any\<close>

record ScanCtx =
  sc_files :: "VFS \<Rightarrow> ScannedChildren"
  sc_ProducerMainOut :: "VFS \<Rightarrow> VFS option" \<comment> \<open>for a generated file\<close>
  sc_scansIncludes :: "VFS \<Rightarrow> bool"
  sc_textTemplates :: "VFS \<Rightarrow> VFS list"
  sc_noResolve :: bool
  sc_initialOnly :: bool
  sc_readOnly :: bool
  sc_bound :: u32 \<comment> \<open>\<^verbatim>\<open>vfsBound()\<close>\<close>

record tarjanNode =
  tn_index :: nat
  tn_low :: nat
  tn_onStack :: bool

record TarjanCtx =
  tc_slots :: "VFS \<Rightarrow> nat option"
  tc_nodes :: "tarjanNode list"
  tc_stack :: "VFS list"
  tc_next :: nat
  tc_closure :: IdSet
  tc_hits :: u64
  tc_visitV :: VFS
  tc_emitK :: nat
  tc_emitHasDiagnostics :: bool

text \<open>The scanner's own state: the closures found, the buckets, the block, the files being walked.\<close>

record ScanState = TarjanCtx +
  ss_closures :: "VFS \<Rightarrow> Closure option"
  ss_buckets :: BucketCache
  ss_closureScratch :: "VFS list"
  ss_dfsActive :: BitSet

abbreviation (input) children :: "ScanCtx \<Rightarrow> VFS \<Rightarrow> VFS list" where
  "children sc v \<equiv> ch_Paths (sc_files sc v)"

definition opaqueMainOut :: "ScanCtx \<Rightarrow> VFS \<Rightarrow> VFS" where
  "opaqueMainOut sc v =
     (if \<not> isBuild v \<or> sc_scansIncludes sc v then 0
      else case sc_ProducerMainOut sc v of Some main \<Rightarrow> if main \<noteq> v then main else 0 | None \<Rightarrow> 0)"

definition mainOut :: "ScanCtx \<Rightarrow> VFS \<Rightarrow> VFS" where
  "mainOut sc v =
     (if \<not> isBuild v then 0
      else case sc_ProducerMainOut sc v of
             None \<Rightarrow> 0
           | Some main \<Rightarrow> if main = v \<or> \<not> sc_scansIncludes sc v then 0 else main)"

definition cachedWindow :: "ScanCtx \<Rightarrow> 'a ScanState_scheme \<Rightarrow> VFS \<Rightarrow> Closure \<times> bool" where
  "cachedWindow sc st v =
     (case ss_closures st v of
        None \<Rightarrow> (zero_closure, False)
      | Some cl \<Rightarrow>
          let entry = sc_files sc v
          in if cl_incomplete cl \<and> sc_noResolve sc \<and> ch_Deferred entry \<and> (isSource v \<or> ch_Diagnostics entry)
             then (cl, True)
             else (cl, \<not> cl_incomplete cl \<or> sc_initialOnly sc))"

section \<open>The table of visited files\<close>

text \<open>A missing key of a Go map reads as 0.\<close>

definition slot_of :: "'a TarjanCtx_scheme \<Rightarrow> VFS \<Rightarrow> nat" where
  "slot_of t v = (case tc_slots t v of Some i \<Rightarrow> i | None \<Rightarrow> 0)"

definition visited :: "'a TarjanCtx_scheme \<Rightarrow> VFS \<Rightarrow> bool" where
  "visited t v \<longleftrightarrow> tc_slots t v \<noteq> None"

definition discover :: "'a TarjanCtx_scheme \<Rightarrow> VFS \<Rightarrow> nat \<Rightarrow> 'a TarjanCtx_scheme" where
  "discover t v idx = t\<lparr>tc_slots := (tc_slots t)(v \<mapsto> length (tc_nodes t)),
     tc_nodes := tc_nodes t @ [\<lparr>tn_index = idx, tn_low = idx, tn_onStack = True\<rparr>]\<rparr>"

definition onStackHas :: "'a TarjanCtx_scheme \<Rightarrow> VFS \<Rightarrow> bool option" where
  "onStackHas t v =
     (case tc_slots t v of None \<Rightarrow> Some False | Some i \<Rightarrow> map_option tn_onStack (at_opt (tc_nodes t) i))"

definition lowOf :: "'a TarjanCtx_scheme \<Rightarrow> VFS \<Rightarrow> nat option" where
  "lowOf t v = map_option tn_low (at_opt (tc_nodes t) (slot_of t v))"

definition indexOf :: "'a TarjanCtx_scheme \<Rightarrow> VFS \<Rightarrow> nat option" where
  "indexOf t v = map_option tn_index (at_opt (tc_nodes t) (slot_of t v))"

definition upd_node :: "'a TarjanCtx_scheme \<Rightarrow> VFS \<Rightarrow> (tarjanNode \<Rightarrow> tarjanNode) \<Rightarrow> 'a TarjanCtx_scheme option" where
  "upd_node t v f =
     do { n \<leftarrow> at_opt (tc_nodes t) (slot_of t v); Some (t\<lparr>tc_nodes := (tc_nodes t)[slot_of t v := f n]\<rparr>) }"

definition setLow :: "'a TarjanCtx_scheme \<Rightarrow> VFS \<Rightarrow> nat \<Rightarrow> 'a TarjanCtx_scheme option" where
  "setLow t v x = upd_node t v (tn_low_update (\<lambda>_. x))"

definition setOnStack :: "'a TarjanCtx_scheme \<Rightarrow> VFS \<Rightarrow> bool \<Rightarrow> 'a TarjanCtx_scheme option" where
  "setOnStack t v b = upd_node t v (tn_onStack_update (\<lambda>_. b))"

section \<open>Emitting a component\<close>

text \<open>A loop whose body may fail.\<close>

fun each :: "('b \<Rightarrow> 's \<Rightarrow> 's option) \<Rightarrow> 'b list \<Rightarrow> 's \<Rightarrow> 's option" where
  "each f [] st = Some st"
| "each f (x # xs) st = do { st \<leftarrow> f x st; each f xs st }"

text \<open>
  The closure set and the block are threaded through the state; the block the callbacks fill
  (\<^verbatim>\<open>emitBuf\<close>) is the scanner's \<^verbatim>\<open>closureScratch\<close>, and \<^verbatim>\<open>emitK\<close> counts its used places.
\<close>

definition splice :: "(IdSet \<Rightarrow> VFS list \<Rightarrow> nat \<Rightarrow> (nat \<times> IdSet \<times> VFS list) option) \<Rightarrow>
    'a ScanState_scheme \<Rightarrow> 'a ScanState_scheme option" where
  "splice f st =
     do { (k, cs, block) \<leftarrow> f (tc_closure st) (ss_closureScratch st) (tc_emitK st);
          Some (st\<lparr>tc_closure := cs, ss_closureScratch := block, tc_emitK := k\<rparr>) }"

definition splice_nonzero :: "VFS \<Rightarrow> 'a ScanState_scheme \<Rightarrow> 'a ScanState_scheme option" where
  "splice_nonzero main st = (if main \<noteq> 0 then splice (\<lambda>cs. IdSet_spliceOne cs main) st else Some st)"

definition windowSubsumed :: "'a ScanState_scheme \<Rightarrow> VFS \<Rightarrow> bool" where
  "windowSubsumed st ch = IdSet_has (tc_closure st) ch"

definition spliceChild :: "ScanCtx \<Rightarrow> VFS \<Rightarrow> 'a ScanState_scheme \<Rightarrow> 'a ScanState_scheme option" where
  "spliceChild sc ch st =
     do { onStack \<leftarrow> onStackHas st ch;
          if onStack then Some st
          else if windowSubsumed st ch then Some st
          else let cl = fst (cachedWindow sc st ch)
               in do { st \<leftarrow> splice (Closure_spliceInto cl)
                              (st\<lparr>tc_emitHasDiagnostics := tc_emitHasDiagnostics st \<or> cl_hasDiagnostics cl\<rparr>);
                       splice_nonzero (opaqueMainOut sc ch) st } }"

definition emit_member :: "ScanCtx \<Rightarrow> VFS \<Rightarrow> 'a ScanState_scheme \<Rightarrow> 'a ScanState_scheme option" where
  "emit_member sc u st =
     (let st = st\<lparr>tc_emitHasDiagnostics := tc_emitHasDiagnostics st \<or> ch_Diagnostics (sc_files sc u)\<rparr>
      in if IdSet_has (tc_closure st) u then Some st
         else do { block \<leftarrow> set_opt (ss_closureScratch st) (tc_emitK st) u;
                   Some (st\<lparr>tc_closure := IdSet_add (tc_closure st) u, ss_closureScratch := block, tc_emitK := tc_emitK st + 1\<rparr>) })"

definition emit_outputs :: "ScanCtx \<Rightarrow> VFS \<Rightarrow> 'a ScanState_scheme \<Rightarrow> 'a ScanState_scheme option" where
  "emit_outputs sc u st =
     do { st \<leftarrow> splice_nonzero (mainOut sc u) st;
          each (\<lambda>input. splice (\<lambda>cs. IdSet_spliceOne cs input)) (sc_textTemplates sc u) st }"

definition emitMembers :: "ScanCtx \<Rightarrow> VFS list \<Rightarrow> 'a ScanState_scheme \<Rightarrow> 'a ScanState_scheme option" where
  "emitMembers sc members st =
     do { st \<leftarrow> each (emit_member sc) members (st\<lparr>tc_emitK := 0, tc_emitHasDiagnostics := False\<rparr>);
          st \<leftarrow> each (emit_outputs sc) members st;
          each (\<lambda>u. each (spliceChild sc) (children sc u)) members st }"

text \<open>Whether the closure of a component is incomplete: a file of it or a closure it rests on is.\<close>

definition child_incomplete :: "'a ScanState_scheme \<Rightarrow> VFS \<Rightarrow> bool option" where
  "child_incomplete st child =
     do { onStack \<leftarrow> onStackHas st child;
          Some (\<not> onStack \<and> (case ss_closures st child of Some cl \<Rightarrow> cl_incomplete cl | None \<Rightarrow> False)) }"

definition members_incomplete :: "ScanCtx \<Rightarrow> VFS list \<Rightarrow> 'a ScanState_scheme \<Rightarrow> bool option" where
  "members_incomplete sc members st =
     each (\<lambda>u inc. each (\<lambda>child inc. do { i \<leftarrow> child_incomplete st child; Some (inc \<or> i) })
            (children sc u) (inc \<or> ch_Deferred (sc_files sc u))) members False"

definition emitClosure :: "ScanCtx \<Rightarrow> VFS list \<Rightarrow> 'a ScanState_scheme \<Rightarrow> 'a ScanState_scheme option" where
  "emitClosure sc members st =
     do { st \<leftarrow> emitMembers sc members st;
          self \<leftarrow> at_opt (ss_closureScratch st) 0;
          (cl, buckets) \<leftarrow> if 1 \<le> tc_emitK st \<and> tc_emitK st \<le> length (ss_closureScratch st)
                           then storeBuckets (ss_buckets st) self (drop 1 (take (tc_emitK st) (ss_closureScratch st)))
                           else None;
          incomplete \<leftarrow> if sc_readOnly sc then Some False else members_incomplete sc members st;
          let cl = cl\<lparr>cl_hasDiagnostics := tc_emitHasDiagnostics st, cl_incomplete := incomplete\<rparr>;
          Some (st\<lparr>ss_buckets := buckets,
                   ss_closures := \<lambda>u. if u \<in> set members then Some cl else ss_closures st u\<rparr>) }"

section \<open>Strongly connected components\<close>

definition visitChild :: "ScanCtx \<Rightarrow> (VFS \<Rightarrow> 'a ScanState_scheme \<Rightarrow> 'a ScanState_scheme option) \<Rightarrow>
    VFS \<Rightarrow> 'a ScanState_scheme \<Rightarrow> 'a ScanState_scheme option" where
  "visitChild sc strongconnect w st =
     (if snd (cachedWindow sc st w) then Some (st\<lparr>tc_hits := tc_hits st + 1\<rparr>)
      else let v = tc_visitV st
           in if \<not> visited st w
              then do { st \<leftarrow> strongconnect w st;
                        let st = st\<lparr>tc_visitV := v\<rparr>;
                        low_w \<leftarrow> lowOf st w;
                        low_v \<leftarrow> lowOf st v;
                        if low_w < low_v then setLow st v low_w else Some st }
              else do { index_w \<leftarrow> indexOf st w;
                        low_v \<leftarrow> lowOf st v;
                        if index_w < low_v then setLow st v index_w else Some st })"

text \<open>\<^verbatim>\<open>sccStart\<close> walks down from the top of the stack.\<close>

fun sccStart_loop :: "VFS list \<Rightarrow> VFS \<Rightarrow> nat \<Rightarrow> nat option" where
  "sccStart_loop stack v 0 = None"
| "sccStart_loop stack v (Suc i) =
     do { u \<leftarrow> at_opt stack i; if u = v then Some i else sccStart_loop stack v i }"

definition sccStart :: "'a TarjanCtx_scheme \<Rightarrow> nat option" where
  "sccStart t = sccStart_loop (tc_stack t) (tc_visitV t) (length (tc_stack t))"

definition finish_component :: "ScanCtx \<Rightarrow> 'a ScanState_scheme \<Rightarrow> 'a ScanState_scheme option" where
  "finish_component sc st =
     do { start \<leftarrow> sccStart st;
          let members = drop start (tc_stack st);
          st \<leftarrow> emitClosure sc members (st\<lparr>tc_closure := IdSet_reset (tc_closure st) (sc_bound sc)\<rparr>);
          st \<leftarrow> each (\<lambda>u t. setOnStack t u False) members st;
          Some (st\<lparr>tc_stack := take start (tc_stack st)\<rparr>) }"

fun strongconnect :: "nat \<Rightarrow> ScanCtx \<Rightarrow> VFS \<Rightarrow> 'a ScanState_scheme \<Rightarrow> 'a ScanState_scheme option" where
  "strongconnect 0 sc v st = None"
| "strongconnect (Suc n) sc v st =
     do { let st = discover (st\<lparr>tc_next := tc_next st + 1\<rparr>) v (tc_next st + 1);
          let st = st\<lparr>tc_stack := tc_stack st @ [v], tc_visitV := v\<rparr>;
          st \<leftarrow> each (visitChild sc (strongconnect n sc)) (children sc v) st;
          low \<leftarrow> lowOf st v;
          index \<leftarrow> indexOf st v;
          if low \<noteq> index then Some st else finish_component sc st }"

definition runSCC :: "nat \<Rightarrow> ScanCtx \<Rightarrow> VFS \<Rightarrow> 'a ScanState_scheme \<Rightarrow> 'a ScanState_scheme option" where
  "runSCC n sc root st =
     strongconnect n sc root
       (st\<lparr>tc_slots := \<lambda>_. None, tc_nodes := [], tc_stack := [], tc_next := 0, tc_hits := 0\<rparr>)"

section \<open>The walk\<close>

text \<open>
  Here the files go into the scratch lists of the bucket cache. \<open>m\<close> is the fuel of a nested
  \<^verbatim>\<open>runSCC\<close>, \<open>n\<close> that of the walk. Choosing the parser of the file belongs to the resolution of its
  includes.
\<close>

definition bsplice :: "(BucketCache \<Rightarrow> IdSet \<Rightarrow> (BucketCache \<times> IdSet) option) \<Rightarrow>
    'a ScanState_scheme \<Rightarrow> 'a ScanState_scheme option" where
  "bsplice f st =
     do { (c, cs) \<leftarrow> f (ss_buckets st) (tc_closure st); Some (st\<lparr>ss_buckets := c, tc_closure := cs\<rparr>) }"

definition bsplice_nonzero :: "VFS \<Rightarrow> 'a ScanState_scheme \<Rightarrow> 'a ScanState_scheme option" where
  "bsplice_nonzero main st =
     (if main \<noteq> 0 then bsplice (\<lambda>c cs. BucketCache_spliceOne c cs main) st else Some st)"

definition dfs_child :: "ScanCtx \<Rightarrow> VFS \<Rightarrow> VFS \<Rightarrow> 'a ScanState_scheme \<times> bool \<times> bool \<Rightarrow>
    ('a ScanState_scheme \<times> bool \<times> bool) option" where
  "dfs_child sc file ch = (\<lambda>(st, hasDiagnostics, incomplete).
     if ch = file then Some (st, hasDiagnostics, incomplete)
     else if IdSet_has (tc_closure st) ch then Some (st, hasDiagnostics, incomplete)
     else let cl = (case ss_closures st ch of Some cl \<Rightarrow> cl | None \<Rightarrow> zero_closure)
          in do { st \<leftarrow> bsplice (\<lambda>c cs. BucketCache_spliceOne c cs (cl_self cl)) st;
                  st \<leftarrow> bsplice (\<lambda>c cs. spliceBuckets c cs (cl_buckets cl)) st;
                  st \<leftarrow> bsplice_nonzero (opaqueMainOut sc ch) st;
                  Some (st, hasDiagnostics \<or> cl_hasDiagnostics cl, incomplete \<or> cl_incomplete cl) })"

definition dfs_collect :: "ScanCtx \<Rightarrow> VFS \<Rightarrow> 'a ScanState_scheme \<Rightarrow> 'a ScanState_scheme option" where
  "dfs_collect sc file st =
     (let resolved = sc_files sc file;
          st = st\<lparr>tc_closure := IdSet_add (IdSet_reset (tc_closure st) (sc_bound sc)) file,
                  ss_buckets := resetScratch (ss_buckets st) file\<rparr>
      in do { st \<leftarrow> each (\<lambda>input. bsplice (\<lambda>c cs. BucketCache_spliceOne c cs input)) (sc_textTemplates sc file) st;
              (st, hasDiagnostics, incomplete) \<leftarrow>
                each (dfs_child sc file) (ch_Paths resolved)
                  (st, ch_Diagnostics resolved, ch_Deferred resolved \<and> \<not> sc_readOnly sc);
              st \<leftarrow> bsplice_nonzero (mainOut sc file) st;
              let cl = (storeScratch (ss_buckets st) file)\<lparr>cl_hasDiagnostics := hasDiagnostics, cl_incomplete := incomplete\<rparr>;
              Some (st\<lparr>ss_closures := (ss_closures st)(file \<mapsto> cl)\<rparr>) })"

definition ensure_with :: "(VFS \<Rightarrow> 'a ScanState_scheme \<Rightarrow> 'a ScanState_scheme option) \<Rightarrow> ScanCtx \<Rightarrow>
    VFS \<Rightarrow> 'a ScanState_scheme \<Rightarrow> 'a ScanState_scheme option" where
  "ensure_with dfs sc file st = (if snd (cachedWindow sc st file) then Some st else dfs file st)"

fun dfs :: "nat \<Rightarrow> nat \<Rightarrow> ScanCtx \<Rightarrow> VFS \<Rightarrow> 'a ScanState_scheme \<Rightarrow> 'a ScanState_scheme option" where
  "dfs m 0 sc file st = None"
| "dfs m (Suc n) sc file st =
     (if BitSet_has (ss_dfsActive st) file then runSCC m sc file st
      else do { st \<leftarrow> each (\<lambda>ch st. if ch = file then Some st else ensure_with (dfs m n sc) sc ch st) (children sc file)
                         (st\<lparr>ss_dfsActive := BitSet_add (ss_dfsActive st) file\<rparr>);
                st \<leftarrow> dfs_collect sc file st;
                Some (st\<lparr>ss_dfsActive := BitSet_remove (ss_dfsActive st) file\<rparr>) })"

definition ensureClosure :: "nat \<Rightarrow> nat \<Rightarrow> ScanCtx \<Rightarrow> VFS \<Rightarrow> 'a ScanState_scheme \<Rightarrow> 'a ScanState_scheme option" where
  "ensureClosure m n sc = ensure_with (dfs m n sc) sc"

definition closureOf :: "nat \<Rightarrow> nat \<Rightarrow> ScanCtx \<Rightarrow> VFS \<Rightarrow> 'a ScanState_scheme \<Rightarrow> (Closure \<times> 'a ScanState_scheme) option" where
  "closureOf m n sc file st =
     (case cachedWindow sc st file of
        (cl, True) \<Rightarrow> Some (cl, st)
      | (_, False) \<Rightarrow>
          do { st \<leftarrow> dfs m n sc file st;
               Some (case ss_closures st file of Some cl \<Rightarrow> cl | None \<Rightarrow> zero_closure, st) })"

definition newScanState :: ScanState where
  "newScanState =
     \<lparr>tc_slots = \<lambda>_. None, tc_nodes = [], tc_stack = [], tc_next = 0, tc_closure = IdSet_new, tc_hits = 0,
      tc_visitV = 0, tc_emitK = 0, tc_emitHasDiagnostics = False,
      ss_closures = \<lambda>_. None, ss_buckets = newBucketCache, ss_closureScratch = replicate (2 ^ 13) 0,
      ss_dfsActive = BitSet_empty\<rparr>"

end
