(* ===== verification/Ay_Emit.thy ===== *)
theory Ay_Emit
  imports Ay_Tarjan
begin

text \<open>
  What a closure has to be, and that the closure of one component is that. \<open>reach\<close> are the files
  reached over includes; the closure of a file (\<open>full\<close>) adds to them the main outputs of the generated
  files whose includes are scanned, the inputs of text templates, and the main outputs of the included
  generated files that are not scanned.
\<close>

section \<open>Specification\<close>

definition edges :: "ScanCtx \<Rightarrow> (VFS \<times> VFS) set" where
  "edges sc = {(u, w). w \<in> set (children sc u)}"

definition reach :: "ScanCtx \<Rightarrow> VFS \<Rightarrow> VFS set" where
  "reach sc v = {w. (v, w) \<in> (edges sc)\<^sup>*}"

definition nonzero :: "VFS \<Rightarrow> VFS set" where
  "nonzero x = (if x = 0 then {} else {x})"

definition outputs :: "ScanCtx \<Rightarrow> VFS \<Rightarrow> VFS set" where
  "outputs sc u = nonzero (mainOut sc u) \<union> set (sc_textTemplates sc u)"

definition opaque :: "ScanCtx \<Rightarrow> VFS \<Rightarrow> VFS set" where
  "opaque sc u = nonzero (opaqueMainOut sc u)"

definition full :: "ScanCtx \<Rightarrow> VFS \<Rightarrow> VFS set" where
  "full sc v = (\<Union>u \<in> reach sc v. insert u (outputs sc u)) \<union> (\<Union>u \<in> reach sc v - {v}. opaque sc u)"

definition diagnosed :: "ScanCtx \<Rightarrow> VFS \<Rightarrow> bool" where
  "diagnosed sc v \<longleftrightarrow> (\<exists>u \<in> reach sc v. ch_Diagnostics (sc_files sc u))"

text \<open>
  The conditions on a set \<open>U\<close> of files that is closed under includes: every include has been
  resolved; identifiers are not 0 and in range and closures fit into the block; a generated file that is not
  scanned is on no cycle; and an output or a template input that some file also includes has neither
  includes nor outputs of its own (\<open>inert\<close>).
\<close>

definition inert :: "ScanCtx \<Rightarrow> VFS \<Rightarrow> bool" where
  "inert sc a \<longleftrightarrow> children sc a = [] \<and> outputs sc a = {} \<and> opaque sc a = {} \<and> \<not> ch_Diagnostics (sc_files sc a)"

definition scan_ok :: "ScanCtx \<Rightarrow> VFS set \<Rightarrow> bool" where
  "scan_ok sc U \<longleftrightarrow>
     finite U \<and> (\<forall>u \<in> U. set (children sc u) \<subseteq> U) \<and> (\<forall>u \<in> U. \<not> ch_Deferred (sc_files sc u))
     \<and> unat (sc_bound sc) + unat (sc_bound sc) div 4 < 2 ^ 32
     \<and> (\<forall>u \<in> U. \<forall>a \<in> insert u (outputs sc u \<union> opaque sc u). a \<noteq> 0 \<and> a < sc_bound sc)
     \<and> (\<forall>u \<in> U. card (full sc u) \<le> 2 ^ 13)
     \<and> (\<forall>u \<in> U. opaque sc u \<noteq> {} \<longrightarrow> (u, u) \<notin> (edges sc)\<^sup>+)
     \<and> (\<forall>u \<in> U. \<forall>a \<in> outputs sc u \<union> opaque sc u. \<forall>p \<in> U. a \<in> set (children sc p) \<longrightarrow> inert sc a)"

lemma scan_okD:
  assumes "scan_ok sc U"
  shows "finite U" "u \<in> U \<Longrightarrow> set (children sc u) \<subseteq> U" "u \<in> U \<Longrightarrow> \<not> ch_Deferred (sc_files sc u)"
    "unat (sc_bound sc) + unat (sc_bound sc) div 4 < 2 ^ 32"
    "u \<in> U \<Longrightarrow> a \<in> insert u (outputs sc u \<union> opaque sc u) \<Longrightarrow> a < sc_bound sc"
    "u \<in> U \<Longrightarrow> card (full sc u) \<le> 2 ^ 13"
    "u \<in> U \<Longrightarrow> opaque sc u \<noteq> {} \<Longrightarrow> (u, u) \<notin> (edges sc)\<^sup>+"
    "u \<in> U \<Longrightarrow> a \<in> outputs sc u \<union> opaque sc u \<Longrightarrow> p \<in> U \<Longrightarrow> a \<in> set (children sc p) \<Longrightarrow> inert sc a"
    "u \<in> U \<Longrightarrow> a \<in> insert u (outputs sc u \<union> opaque sc u) \<Longrightarrow> a \<noteq> 0"
  using assms unfolding scan_ok_def by blast+

section \<open>Reachability\<close>

lemma reach_refl [simp, intro]: "v \<in> reach sc v"
  by (simp add: reach_def)

lemma reach_trans: "w \<in> reach sc v \<Longrightarrow> x \<in> reach sc w \<Longrightarrow> x \<in> reach sc v"
  by (auto simp: reach_def)

lemma reach_child: "w \<in> set (children sc v) \<Longrightarrow> w \<in> reach sc v"
  by (auto simp: reach_def edges_def)

lemma reach_step: "w \<in> reach sc v \<Longrightarrow> x \<in> set (children sc w) \<Longrightarrow> x \<in> reach sc v"
  using reach_trans reach_child by blast

lemma reach_unfold: "reach sc v = insert v (\<Union>w \<in> set (children sc v). reach sc w)"
  by (auto simp: reach_def edges_def elim: converse_rtranclE intro: converse_rtrancl_into_rtrancl)

lemma reach_closed: "(\<And>u. u \<in> S \<Longrightarrow> set (children sc u) \<subseteq> S) \<Longrightarrow> v \<in> S \<Longrightarrow> reach sc v \<subseteq> S"
proof
  fix w assume c: "\<And>u. u \<in> S \<Longrightarrow> set (children sc u) \<subseteq> S" and v: "v \<in> S" and "w \<in> reach sc v"
  then have "(v, w) \<in> (edges sc)\<^sup>*" by (simp add: reach_def)
  then show "w \<in> S" by (induction rule: rtrancl_induct) (use v c in \<open>auto simp: edges_def\<close>)
qed

lemma cycle_not_opaque:
  assumes "scan_ok sc U" and "u \<in> U" and "w \<in> reach sc u" and "u \<in> reach sc w" and "w \<noteq> u"
  shows "opaque sc u = {}"
proof -
  have "(u, w) \<in> (edges sc)\<^sup>+" using assms(3,5) by (simp add: reach_def rtrancl_eq_or_trancl)
  then have "(u, u) \<in> (edges sc)\<^sup>+" using assms(4) by (simp add: reach_def)
  then show ?thesis using scan_okD(7) [OF assms(1,2)] by blast
qed

text \<open>A component has one closure, made of its own files and of the closures of what it includes.\<close>

definition strong :: "ScanCtx \<Rightarrow> VFS set \<Rightarrow> bool" where
  "strong sc M \<longleftrightarrow> (\<forall>u \<in> M. M \<subseteq> reach sc u) \<and> (\<forall>u \<in> M. \<forall>w \<in> set (children sc u) - M. reach sc w \<inter> M = {})"

lemma strong_reach:
  assumes "strong sc M" and "v \<in> M"
  shows "reach sc v = M \<union> (\<Union>u \<in> M. \<Union>w \<in> set (children sc u) - M. reach sc w)" (is "_ = ?R")
proof
  show "reach sc v \<subseteq> ?R"
  proof (rule reach_closed)
    fix u assume "u \<in> ?R"
    then show "set (children sc u) \<subseteq> ?R" by (auto intro: reach_step)
  qed (use assms(2) in auto)
  show "?R \<subseteq> reach sc v"
  proof -
    have M: "u \<in> reach sc v" if "u \<in> M" for u using that assms unfolding strong_def by blast
    have "reach sc w \<subseteq> reach sc v" if "u \<in> M" "w \<in> set (children sc u)" for u w
      using reach_trans [OF reach_step [OF M [OF that(1)] that(2)]] by blast
    then show ?thesis using M by blast
  qed
qed

lemma full_strong:
  assumes ok: "scan_ok sc U" and M: "strong sc M" "M \<subseteq> U" and v: "v \<in> M"
  shows "full sc v = (\<Union>u \<in> M. insert u (outputs sc u)) \<union> (\<Union>u \<in> M. \<Union>w \<in> set (children sc u) - M. full sc w \<union> opaque sc w)"
    (is "_ = ?F")
proof
  note R = strong_reach [OF M(1) v]
  show "full sc v \<subseteq> ?F"
  proof
    fix x assume "x \<in> full sc v"
    then consider u where "u \<in> reach sc v" "x \<in> insert u (outputs sc u)" | c where "c \<in> reach sc v" "c \<noteq> v" "x \<in> opaque sc c"
      by (auto simp: full_def)
    then show "x \<in> ?F"
    proof cases
      case 1
      then consider "u \<in> M" | p w where "p \<in> M" "w \<in> set (children sc p) - M" "u \<in> reach sc w" using R by auto
      then show ?thesis
      proof cases
        case 2
        then have "x \<in> full sc w" using 1(2) by (auto simp: full_def)
        then show ?thesis using 2 by blast
      qed (use 1 in blast)
    next
      case 2
      have "c \<notin> M"
      proof
        assume "c \<in> M"
        then have "opaque sc c = {}"
          using cycle_not_opaque [OF ok, of c v] M v 2(2) by (auto simp: strong_def)
        then show False using 2(3) by simp
      qed
      then obtain u w where w: "u \<in> M" "w \<in> set (children sc u) - M" "c \<in> reach sc w" using 2(1) R by auto
      then have "x \<in> full sc w \<union> opaque sc w" using 2(3) by (cases "c = w") (auto simp: full_def)
      then show ?thesis using w by blast
    qed
  qed
  have "full sc w \<union> opaque sc w \<subseteq> full sc v" if "u \<in> M" "w \<in> set (children sc u) - M" for u w
  proof -
    have "reach sc w \<subseteq> reach sc v" using that R by blast
    moreover have "v \<notin> reach sc w" using M(1) that v unfolding strong_def by blast
    ultimately show ?thesis unfolding full_def by (auto; metis (no_types) reach_refl subsetD)
  qed
  moreover have "insert u (outputs sc u) \<subseteq> full sc v" if "u \<in> M" for u
    using that R by (auto simp: full_def)
  ultimately show "?F \<subseteq> full sc v" by blast
qed

lemma diagnosed_strong:
  assumes "strong sc M" and "v \<in> M"
  shows "diagnosed sc v \<longleftrightarrow> (\<exists>u \<in> M. ch_Diagnostics (sc_files sc u) \<or> (\<exists>w \<in> set (children sc u) - M. diagnosed sc w))"
  unfolding diagnosed_def strong_reach [OF assms] by blast

lemma full_mono:
  assumes "scan_ok sc U" and "w \<in> U" and "x \<in> reach sc w"
  shows "full sc x \<subseteq> full sc w" and "opaque sc x \<subseteq> full sc w \<union> opaque sc w" and "diagnosed sc x \<Longrightarrow> diagnosed sc w"
proof -
  have sub: "reach sc x \<subseteq> reach sc w" using assms(3) by (auto intro: reach_trans)
  show "full sc x \<subseteq> full sc w"
  proof (cases "w \<in> reach sc x \<and> w \<noteq> x")
    case True
    then have "opaque sc w = {}" using cycle_not_opaque [OF assms(1,2)] assms(3) by blast
    then show ?thesis using sub unfolding full_def by blast
  next
    case False
    then show ?thesis using sub unfolding full_def by blast
  qed
  show "opaque sc x \<subseteq> full sc w \<union> opaque sc w" using assms(3) by (auto simp: full_def)
  show "diagnosed sc x \<Longrightarrow> diagnosed sc w" using sub unfolding diagnosed_def by blast
qed

section \<open>Collecting over the includes\<close>

text \<open>
  The loop over the includes of a component, on sets: an include that has been taken in already is
  passed over. By the conditions this loses nothing.
\<close>

definition take_in :: "ScanCtx \<Rightarrow> VFS set \<Rightarrow> VFS \<Rightarrow> VFS set \<times> bool \<Rightarrow> VFS set \<times> bool" where
  "take_in sc M ch = (\<lambda>(T, d).
     if ch \<in> M \<or> ch \<in> T then (T, d) else (T \<union> full sc ch \<union> opaque sc ch, d \<or> diagnosed sc ch))"

definition output_of :: "ScanCtx \<Rightarrow> VFS set \<Rightarrow> VFS set" where
  "output_of sc U = (\<Union>u \<in> U. outputs sc u \<union> opaque sc u)"

lemma inert_output:
  assumes "scan_ok sc U" and "a \<in> output_of sc U" and "p \<in> U" and "a \<in> set (children sc p)"
  shows "full sc a \<union> opaque sc a = {a}" and "\<not> diagnosed sc a"
proof -
  have i: "inert sc a" using assms scan_okD(8) [OF assms(1)] unfolding output_of_def by blast
  then have "reach sc a = {a}" by (subst reach_unfold) (simp add: inert_def)
  then show "full sc a \<union> opaque sc a = {a}" "\<not> diagnosed sc a"
    using i by (simp_all add: full_def diagnosed_def inert_def)
qed

lemma take_in_simp: "take_in sc M ch (T, d) = (if ch \<in> M \<or> ch \<in> T then (T, d) else (T \<union> full sc ch \<union> opaque sc ch, d \<or> diagnosed sc ch))"
  by (simp add: take_in_def)

lemma fold_take_in:
  assumes ok: "scan_ok sc U" and xs: "\<And>x. x \<in> set xs \<Longrightarrow> \<exists>p \<in> U. x \<in> set (children sc p)"
    and T: "\<And>x. x \<in> T \<Longrightarrow> x \<in> M \<or> x \<in> output_of sc U \<or> (full sc x \<union> opaque sc x \<subseteq> T \<and> (diagnosed sc x \<longrightarrow> d))"
  shows "fold (take_in sc M) xs (T, d) =
    (T \<union> (\<Union>x \<in> set xs - M. full sc x \<union> opaque sc x), d \<or> (\<exists>x \<in> set xs - M. diagnosed sc x))"
  using xs T
proof (induction xs arbitrary: T d)
  case (Cons ch xs)
  obtain p where p: "p \<in> U" "ch \<in> set (children sc p)" using Cons.prems(1) by auto
  then have chU: "ch \<in> U" using scan_okD(2) [OF ok] by blast
  have xs: "\<And>x. x \<in> set xs \<Longrightarrow> \<exists>p \<in> U. x \<in> set (children sc p)" using Cons.prems(1) by simp
  consider (member) "ch \<in> M" | (seen) "ch \<notin> M" "ch \<in> T" | (new) "ch \<notin> M" "ch \<notin> T" by blast
  then show ?case
  proof cases
    case member
    then show ?thesis using Cons.IH [OF xs Cons.prems(2)] by (simp add: take_in_simp)
  next
    case seen
    have "full sc ch \<union> opaque sc ch \<subseteq> T \<and> (diagnosed sc ch \<longrightarrow> d)"
      using Cons.prems(2) [OF seen(2)] seen inert_output [OF ok _ p] by (cases "ch \<in> output_of sc U") auto
    then show ?thesis using Cons.IH [OF xs Cons.prems(2)] seen by (auto simp: take_in_simp)
  next
    case new
    let ?T = "T \<union> full sc ch \<union> opaque sc ch" and ?d = "d \<or> diagnosed sc ch"
    have "x \<in> M \<or> x \<in> output_of sc U \<or> (full sc x \<union> opaque sc x \<subseteq> ?T \<and> (diagnosed sc x \<longrightarrow> ?d))" if x: "x \<in> ?T" for x
    proof -
      consider "x \<in> T" | "x \<in> reach sc ch" | "x \<in> full sc ch \<union> opaque sc ch" "x \<notin> reach sc ch" using x by blast
      then show ?thesis
      proof cases
        case 1
        then show ?thesis using Cons.prems(2) by blast
      next
        case 2
        then show ?thesis using full_mono [OF ok chU] by blast
      next
        case 3
        have "reach sc ch \<subseteq> U" using reach_closed [of U sc ch] scan_okD(2) [OF ok] chU by blast
        then have "x \<in> output_of sc U" using 3 chU unfolding full_def output_of_def by blast
        then show ?thesis by blast
      qed
    qed
    from Cons.IH [OF xs this]
    have "fold (take_in sc M) xs (?T, ?d) =
        (?T \<union> (\<Union>x \<in> set xs - M. full sc x \<union> opaque sc x), ?d \<or> (\<exists>x \<in> set xs - M. diagnosed sc x))" .
    moreover have "set (ch # xs) - M = insert ch (set xs - M)" using new(1) by auto
    ultimately show ?thesis using new by (simp add: take_in_simp Un_assoc disj_assoc)
  qed
qed simp

section \<open>The closures found so far\<close>

definition closure_ok :: "ScanCtx \<Rightarrow> VFS \<Rightarrow> Closure \<Rightarrow> bool" where
  "closure_ok sc v cl \<longleftrightarrow>
     cl_files cl = full sc v \<and> cl_ok cl \<and> \<not> cl_incomplete cl \<and> cl_hasDiagnostics cl = diagnosed sc v"

text \<open>
  The state between two steps: the closures of the files of \<open>U\<close> are right and are there for what they
  include, the block and the seen set are usable.
\<close>

definition cached :: "'a ScanState_scheme \<Rightarrow> VFS set" where
  "cached st = {v. ss_closures st v \<noteq> None}"

definition state_ok :: "ScanCtx \<Rightarrow> VFS set \<Rightarrow> 'a ScanState_scheme \<Rightarrow> bool" where
  "state_ok sc U st \<longleftrightarrow>
     (\<forall>v \<in> U. \<forall>cl. ss_closures st v = Some cl \<longrightarrow> closure_ok sc v cl)
     \<and> (\<forall>v \<in> U \<inter> cached st. set (children sc v) \<subseteq> cached st)
     \<and> gens_ok (ids_gen (tc_closure st)) (ids_epoch (tc_closure st))
     \<and> length (ss_closureScratch st) = 2 ^ 13
     \<and> length (bc_scratch (ss_buckets st)) = closureBuckets \<and> epochs_ok (ss_buckets st)"

lemma state_okD:
  assumes "state_ok sc U st"
  shows "v \<in> U \<Longrightarrow> ss_closures st v = Some cl \<Longrightarrow> closure_ok sc v cl"
    "v \<in> U \<Longrightarrow> v \<in> cached st \<Longrightarrow> set (children sc v) \<subseteq> cached st"
    "gens_ok (ids_gen (tc_closure st)) (ids_epoch (tc_closure st))"
    "length (ss_closureScratch st) = 2 ^ 13"
    "length (bc_scratch (ss_buckets st)) = closureBuckets" "epochs_ok (ss_buckets st)"
  using assms unfolding state_ok_def by blast+

lemma cachedWindow_U:
  assumes "state_ok sc U st" and "v \<in> U"
  shows "snd (cachedWindow sc st v) \<longleftrightarrow> v \<in> cached st"
    "ss_closures st v = Some cl \<Longrightarrow> cachedWindow sc st v = (cl, True)"
  using state_okD(1) [OF assms(1,2)] by (auto simp: cachedWindow_def cached_def closure_ok_def Let_def split: option.splits)

lemma cached_reach:
  assumes "scan_ok sc U" and "state_ok sc U st" and "v \<in> U" and "v \<in> cached st"
  shows "reach sc v \<subseteq> U \<inter> cached st"
  by (rule reach_closed) (use assms scan_okD(2) [OF assms(1)] state_okD(2) [OF assms(2)] in blast)+

section \<open>Emitting a component fills the block with its closure\<close>

text \<open>
  \<open>emitting F st0 st T d\<close>: the state \<open>st\<close> differs from \<open>st0\<close> by the closure being filled, which holds
  \<open>T\<close>, a part of \<open>F\<close>.
\<close>

definition emitting :: "ScanCtx \<Rightarrow> VFS set \<Rightarrow> 'a ScanState_scheme \<Rightarrow> 'a ScanState_scheme \<Rightarrow> VFS set \<Rightarrow> bool \<Rightarrow> bool" where
  "emitting sc F st0 st T d \<longleftrightarrow>
     (\<exists>cs block k. st = st0\<lparr>tc_closure := cs, ss_closureScratch := block, tc_emitK := k, tc_emitHasDiagnostics := d\<rparr>
        \<and> filled cs block k \<and> IdSet_set cs = T \<and> length block = 2 ^ 13 \<and> unat (sc_bound sc) \<le> vec_len (ids_gen cs))
     \<and> T \<subseteq> F"

lemma emitting_set: "emitting sc F st0 st T d \<Longrightarrow> IdSet_set (tc_closure st) = T \<and> T \<subseteq> F"
  by (auto simp: emitting_def)

lemma splice_emitting:
  assumes e: "emitting sc F st0 st T d" and F: "finite F" "card F \<le> 2 ^ 13" "\<And>a. a \<in> F \<Longrightarrow> a < sc_bound sc"
    and w: "set win \<subseteq> F"
  shows "\<exists>st'. splice (\<lambda>cs. IdSet_spliceNew cs win) st = Some st' \<and> emitting sc F st0 st' (T \<union> set win) d"
proof -
  obtain cs block k where st: "st = st0\<lparr>tc_closure := cs, ss_closureScratch := block, tc_emitK := k, tc_emitHasDiagnostics := d\<rparr>"
    and f: "filled cs block k" and T: "IdSet_set cs = T" and l: "length block = 2 ^ 13" "unat (sc_bound sc) \<le> vec_len (ids_gen cs)"
    and sub: "T \<subseteq> F"
    using e unfolding emitting_def by blast
  have "card (IdSet_set cs \<union> set win) \<le> length block"
    using card_mono [OF F(1), of "T \<union> set win"] sub w T F(2) l(1) by simp
  moreover have "unat a < vec_len (ids_gen cs)" if "a \<in> set win" for a
    using F(3) [of a] that w l(2) by (auto simp: word_less_nat_alt)
  ultimately obtain k' cs' block' where "IdSet_spliceNew cs win block k = Some (k', cs', block')" "filled cs' block' k'"
    "IdSet_set cs' = IdSet_set cs \<union> set win" "vec_len (ids_gen cs') = vec_len (ids_gen cs)" "length block' = length block"
    using filled_splice [OF f] by blast
  note s = this
  let ?st = "st0\<lparr>tc_closure := cs', ss_closureScratch := block', tc_emitK := k', tc_emitHasDiagnostics := d\<rparr>"
  have "splice (\<lambda>cs. IdSet_spliceNew cs win) st = Some ?st" using s(1) st by (simp add: splice_def)
  moreover have "emitting sc F st0 ?st (T \<union> set win) d"
    unfolding emitting_def using s(2-) T l sub w by (intro conjI exI [of _ cs'] exI [of _ block'] exI [of _ k']) simp_all
  ultimately show ?thesis by blast
qed

lemma splice_nonzero_emitting:
  assumes e: "emitting sc F st0 st T d" and F: "finite F" "card F \<le> 2 ^ 13" "\<And>a. a \<in> F \<Longrightarrow> a < sc_bound sc"
    and w: "nonzero main \<subseteq> F"
  shows "\<exists>st'. splice_nonzero main st = Some st' \<and> emitting sc F st0 st' (T \<union> nonzero main) d"
proof (cases "main = 0")
  case False
  moreover have "IdSet_spliceOne cs main = IdSet_spliceNew cs [main]" for cs
    by (intro ext) (rule IdSet_spliceOne_eq)
  ultimately show ?thesis
    using splice_emitting [OF e F, of "[main]"] w by (simp add: splice_nonzero_def nonzero_def)
qed (use e in \<open>simp add: splice_nonzero_def nonzero_def\<close>)

lemma each_append: "each f (xs @ ys) st = do { st \<leftarrow> each f xs st; each f ys st }"
  by (induction xs arbitrary: st) (auto split: bind_splits)

lemma each_concat: "each (\<lambda>u. each f (g u)) us st = each f (concat (map g us)) st"
proof (induction us arbitrary: st)
  case (Cons u us)
  then show ?case by (cases "each f (g u) st") (simp_all add: each_append)
qed simp

text \<open>A loop that keeps an invariant indexed by the set built so far.\<close>

lemma each_invariant:
  assumes "\<And>x st T d. x \<in> set xs \<Longrightarrow> I st T d \<Longrightarrow> \<exists>st'. f x st = Some st' \<and> (case g x (T, d) of (T', d') \<Rightarrow> I st' T' d')"
    and "I st T d"
  shows "\<exists>st'. each f xs st = Some st' \<and> (case fold g xs (T, d) of (T', d') \<Rightarrow> I st' T' d')"
  using assms
proof (induction xs arbitrary: st T d)
  case (Cons x xs)
  obtain T1 d1 where g: "g x (T, d) = (T1, d1)" by force
  obtain st1 where "f x st = Some st1" "I st1 T1 d1" using Cons.prems(1) [of x st T d] Cons.prems(2) g by auto
  moreover obtain st2 where "each f xs st1 = Some st2" "case fold g xs (T1, d1) of (T', d') \<Rightarrow> I st2 T' d'"
    using Cons.IH [of st1 T1 d1] Cons.prems(1) \<open>I st1 T1 d1\<close> by auto
  ultimately show ?case using g by simp
qed simp

lemma fold_union: "fold (\<lambda>x (T, d). (T \<union> h x, d \<or> e x)) xs (T, d) = (T \<union> (\<Union>x \<in> set xs. h x), d \<or> (\<exists>x \<in> set xs. e x))"
  by (induction xs arbitrary: T d) auto

lemma emitting_diag:
  "emitting sc F st0 st T d \<Longrightarrow> emitting sc F st0 (st\<lparr>tc_emitHasDiagnostics := d'\<rparr>) T d'"
  unfolding emitting_def by (elim conjE exE, intro conjI exI) auto

lemma emitting_hasDiagnostics: "emitting sc F st0 st T d \<Longrightarrow> tc_emitHasDiagnostics st = d"
  unfolding emitting_def by (elim conjE exE) simp

lemma spliceOne_fun: "IdSet_spliceOne cs x = IdSet_spliceNew cs [x]"
  by (intro ext) (rule IdSet_spliceOne_eq)

lemma emit_member_splice:
  assumes "IdSet_inv (tc_closure st)" and "unat u < vec_len (ids_gen (tc_closure st))"
  shows "emit_member sc u st = splice (\<lambda>cs. IdSet_spliceNew cs [u])
    (st\<lparr>tc_emitHasDiagnostics := tc_emitHasDiagnostics st \<or> ch_Diagnostics (sc_files sc u)\<rparr>)"
proof -
  note m = IdSet_mark [OF assms]
  have ok: "gens_ok (ids_gen (tc_closure st)) (ids_epoch (tc_closure st))" using assms(1) by (simp add: IdSet_inv_def)
  have "IdSet_add (tc_closure st) u = (tc_closure st)\<lparr>ids_gen := Vec_store (ids_gen (tc_closure st)) (unat u) (ids_epoch (tc_closure st))\<rparr>"
    using assms(2) by (simp add: IdSet_add_def Vec_ensureLen_def)
  then show ?thesis
    using m(4,5) IdSet_has_iff [OF ok, of u]
    by (cases "u \<in> IdSet_set (tc_closure st)")
      (auto simp: emit_member_def splice_def Let_def set_opt_def split: option.splits)
qed

definition component :: "ScanCtx \<Rightarrow> VFS set \<Rightarrow> VFS list \<Rightarrow> 'a ScanState_scheme \<Rightarrow> bool" where
  "component sc U members st \<longleftrightarrow>
     members \<noteq> [] \<and> distinct members \<and> set members \<subseteq> U \<and> strong sc (set members)
     \<and> (\<forall>u \<in> set members. \<forall>ch \<in> set (children sc u).
          onStackHas st ch = Some (ch \<in> set members) \<and> (ch \<notin> set members \<longrightarrow> ch \<in> cached st))"

text \<open>A closure is finite, in range, and fits the block.\<close>

lemma full_in_range:
  assumes ok: "scan_ok sc U" and v: "v \<in> U"
  shows "finite (full sc v)" "card (full sc v) \<le> 2 ^ 13" "a \<in> full sc v \<Longrightarrow> a < sc_bound sc" "0 \<notin> full sc v"
proof -
  have R: "reach sc v \<subseteq> U" using reach_closed [of U sc v] scan_okD(2) [OF ok] v by blast
  then have "finite (reach sc v)" using scan_okD(1) [OF ok] finite_subset by blast
  then show "finite (full sc v)"
    by (auto simp: full_def outputs_def opaque_def nonzero_def)
  show "card (full sc v) \<le> 2 ^ 13" using scan_okD(6) [OF ok v] .
  have mem: "\<exists>u \<in> U. a \<in> insert u (outputs sc u \<union> opaque sc u)" if a: "a \<in> full sc v" for a
  proof -
    obtain u where "u \<in> reach sc v" "a \<in> insert u (outputs sc u \<union> opaque sc u)"
      using a unfolding full_def by blast
    then show ?thesis using R by blast
  qed
  then show "0 \<notin> full sc v" using scan_okD(9) [OF ok] by blast
  show "a < sc_bound sc" if a: "a \<in> full sc v"
    using mem [OF a] scan_okD(5) [OF ok] by blast
qed

lemma emit_member_emitting:
  assumes e: "emitting sc F st0 st T d" and F: "finite F" "card F \<le> 2 ^ 13" "\<And>a. a \<in> F \<Longrightarrow> a < sc_bound sc" and u: "u \<in> F"
  shows "\<exists>st'. emit_member sc u st = Some st' \<and> emitting sc F st0 st' (T \<union> {u}) (d \<or> ch_Diagnostics (sc_files sc u))"
proof -
  have inv: "IdSet_inv (tc_closure st)" and l: "unat (sc_bound sc) \<le> vec_len (ids_gen (tc_closure st))"
    using e unfolding emitting_def filled_def by auto
  have "unat u < vec_len (ids_gen (tc_closure st))" using F(3) [OF u] l by (simp add: word_less_nat_alt)
  from emit_member_splice [OF inv this, of sc] show ?thesis
    using splice_emitting [OF emitting_diag [OF e, of "d \<or> ch_Diagnostics (sc_files sc u)"] F, of "[u]"] u
      emitting_hasDiagnostics [OF e] by simp
qed

lemma emit_outputs_emitting:
  assumes e: "emitting sc F st0 st T d" and F: "finite F" "card F \<le> 2 ^ 13" "\<And>a. a \<in> F \<Longrightarrow> a < sc_bound sc"
    and u: "outputs sc u \<subseteq> F"
  shows "\<exists>st'. emit_outputs sc u st = Some st' \<and> emitting sc F st0 st' (T \<union> outputs sc u) d"
proof -
  obtain st1 where 1: "splice_nonzero (mainOut sc u) st = Some st1" "emitting sc F st0 st1 (T \<union> nonzero (mainOut sc u)) d"
    using splice_nonzero_emitting [OF e F, of "mainOut sc u"] u by (auto simp: outputs_def)
  obtain st2 where "each (\<lambda>input. splice (\<lambda>cs. IdSet_spliceOne cs input)) (sc_textTemplates sc u) st1 = Some st2"
    "case fold (\<lambda>x (T, d). (T \<union> {x}, d \<or> False)) (sc_textTemplates sc u) (T \<union> nonzero (mainOut sc u), d) of
       (T', d') \<Rightarrow> emitting sc F st0 st2 T' d'"
    using each_invariant [of "sc_textTemplates sc u" "emitting sc F st0" "\<lambda>input. splice (\<lambda>cs. IdSet_spliceOne cs input)"
        "\<lambda>x (T, d). (T \<union> {x}, d \<or> False)", OF _ 1(2)]
      splice_emitting [OF _ F, where win = "[x]" for x] u
    by (fastforce simp: spliceOne_fun outputs_def)
  then show ?thesis using 1(1) unfolding fold_union by (auto simp: emit_outputs_def outputs_def Un_assoc)
qed

lemma spliceChild_emitting:
  assumes ok: "scan_ok sc U" and st: "state_ok sc U st0" and e: "emitting sc F st0 st T d"
    and F: "finite F" "card F \<le> 2 ^ 13" "\<And>a. a \<in> F \<Longrightarrow> a < sc_bound sc"
    and on: "onStackHas st0 ch = Some (ch \<in> M)" and ch: "ch \<in> U" "ch \<notin> M \<Longrightarrow> ch \<in> cached st0"
      "ch \<notin> M \<Longrightarrow> full sc ch \<union> opaque sc ch \<subseteq> F"
  shows "\<exists>st'. spliceChild sc ch st = Some st' \<and> (case take_in sc M ch (T, d) of (T', d') \<Rightarrow> emitting sc F st0 st' T' d')"
proof -
  have same: "onStackHas st ch = onStackHas st0 ch" "ss_closures st = ss_closures st0" and inv: "IdSet_inv (tc_closure st)"
    and T: "IdSet_set (tc_closure st) = T"
    using e unfolding emitting_def filled_def by (auto simp: onStackHas_def split: option.split)
  have has: "windowSubsumed st ch \<longleftrightarrow> ch \<in> T"
    using IdSet_has_iff [of "tc_closure st" ch] inv T by (simp add: windowSubsumed_def IdSet_inv_def)
  show ?thesis
  proof (cases "ch \<in> M \<or> ch \<in> T")
    case True
    then show ?thesis using e same(1) on has by (auto simp: spliceChild_def take_in_simp)
  next
    case False
    then obtain cl where cl: "ss_closures st0 ch = Some cl" "closure_ok sc ch cl"
      using ch(2) state_okD(1) [OF st ch(1)] by (auto simp: cached_def)
    have w: "cachedWindow sc st ch = (cl, True)"
      using cachedWindow_U(2) [OF st ch(1) cl(1)] same(2) by (simp add: cachedWindow_def)
    have files: "set (cl_self cl # concat (cl_buckets cl)) = full sc ch" and d: "cl_hasDiagnostics cl = diagnosed sc ch"
      using cl(2) by (simp_all add: closure_ok_def cl_files_def)
    let ?d = "d \<or> diagnosed sc ch"
    have into: "Closure_spliceInto cl = (\<lambda>cs. IdSet_spliceNew cs (cl_self cl # concat (cl_buckets cl)))"
      by (intro ext) (rule Closure_spliceInto_eq)
    have "\<exists>st1. splice (Closure_spliceInto cl) (st\<lparr>tc_emitHasDiagnostics := ?d\<rparr>) = Some st1
        \<and> emitting sc F st0 st1 (T \<union> full sc ch) ?d"
      using splice_emitting [OF emitting_diag [OF e, of ?d] F, of "cl_self cl # concat (cl_buckets cl)", unfolded files]
        ch(3) False unfolding into by blast
    then obtain st1 where 1: "splice (Closure_spliceInto cl) (st\<lparr>tc_emitHasDiagnostics := ?d\<rparr>) = Some st1"
      "emitting sc F st0 st1 (T \<union> full sc ch) ?d" by blast
    obtain st2 where "splice_nonzero (opaqueMainOut sc ch) st1 = Some st2"
      "emitting sc F st0 st2 (T \<union> full sc ch \<union> opaque sc ch) ?d"
      using splice_nonzero_emitting [OF 1(2) F, of "opaqueMainOut sc ch"] ch(3) False by (auto simp: opaque_def)
    then show ?thesis
      using False same(1) on has w 1(1) d emitting_hasDiagnostics [OF e]
      by (auto simp: spliceChild_def take_in_simp)
  qed
qed


lemma emitMembers_spec:
  assumes ok: "scan_ok sc U" and st: "state_ok sc U st" and c: "component sc U members st" and v: "v \<in> set members"
    and fresh: "IdSet_inv (tc_closure st)" "IdSet_set (tc_closure st) = {}" "unat (sc_bound sc) \<le> vec_len (ids_gen (tc_closure st))"
  shows "\<exists>st'. emitMembers sc members st = Some st' \<and> emitting sc (full sc v) st st' (full sc v) (diagnosed sc v)"
proof -
  let ?M = "set members" and ?F = "full sc v"
  have M: "strong sc ?M" "?M \<subseteq> U" and vU: "v \<in> U" using c v by (auto simp: component_def)
  note F = full_in_range(1-3) [OF ok vU]
  note eq = full_strong [OF ok M v]
  have base: "insert u (outputs sc u) \<subseteq> ?F" if "u \<in> ?M" for u using that unfolding eq by blast
  have e0: "emitting sc ?F st (st\<lparr>tc_emitK := 0, tc_emitHasDiagnostics := False\<rparr>) {} False"
    unfolding emitting_def filled_def using fresh state_okD(4) [OF st]
    by (intro conjI exI [of _ "tc_closure st"] exI [of _ "ss_closureScratch st"] exI [of _ 0]) simp_all
  obtain st1 where 1: "each (emit_member sc) members (st\<lparr>tc_emitK := 0, tc_emitHasDiagnostics := False\<rparr>) = Some st1"
    "emitting sc ?F st st1 ?M (\<exists>u \<in> ?M. ch_Diagnostics (sc_files sc u))"
    using each_invariant [of members "emitting sc ?F st" "emit_member sc"
        "\<lambda>u (T, d). (T \<union> {u}, d \<or> ch_Diagnostics (sc_files sc u))", OF _ e0]
      emit_member_emitting [OF _ F] base unfolding fold_union by fastforce
  obtain st2 where 2: "each (emit_outputs sc) members st1 = Some st2"
    "emitting sc ?F st st2 (\<Union>u \<in> ?M. insert u (outputs sc u)) (\<exists>u \<in> ?M. ch_Diagnostics (sc_files sc u))"
  proof -
    have "\<exists>st2. each (emit_outputs sc) members st1 = Some st2
        \<and> emitting sc ?F st st2 (?M \<union> (\<Union>u \<in> ?M. outputs sc u)) (\<exists>u \<in> ?M. ch_Diagnostics (sc_files sc u))"
      using each_invariant [of members "emitting sc ?F st" "emit_outputs sc" "\<lambda>u (T, d). (T \<union> outputs sc u, d \<or> False)", OF _ 1(2)]
        emit_outputs_emitting [OF _ F] base unfolding fold_union by fastforce
    moreover have "?M \<union> (\<Union>u \<in> ?M. outputs sc u) = (\<Union>u \<in> ?M. insert u (outputs sc u))" by blast
    ultimately show thesis using that by auto
  qed
  let ?chs = "concat (map (children sc) members)" and ?d = "\<exists>u \<in> ?M. ch_Diagnostics (sc_files sc u)"
  let ?T = "\<Union>u \<in> ?M. insert u (outputs sc u)"
  have chs: "set ?chs = (\<Union>u \<in> ?M. set (children sc u))" by simp
  obtain st3 where 3: "each (spliceChild sc) ?chs st2 = Some st3"
    "case fold (take_in sc ?M) ?chs (?T, ?d) of (T', d') \<Rightarrow> emitting sc ?F st st3 T' d'"
  proof -
    have "\<exists>st'. spliceChild sc ch st1 = Some st' \<and> (case take_in sc ?M ch (T, d) of (T', d') \<Rightarrow> emitting sc ?F st st' T' d')"
      if ch: "ch \<in> set ?chs" and e: "emitting sc ?F st st1 T d" for ch st1 T d
    proof -
      obtain u where u: "u \<in> ?M" "ch \<in> set (children sc u)" using ch unfolding chs by blast
      have "onStackHas st ch = Some (ch \<in> ?M)" "ch \<notin> ?M \<Longrightarrow> ch \<in> cached st"
        using c u unfolding component_def by blast+
      moreover have "ch \<in> U" using u M(2) scan_okD(2) [OF ok] by blast
      moreover have "full sc ch \<union> opaque sc ch \<subseteq> ?F" if "ch \<notin> ?M" using that u unfolding eq by blast
      ultimately show ?thesis using spliceChild_emitting [OF ok st e F] by blast
    qed
    note step = this
    have "\<exists>st'. each (spliceChild sc) ?chs st2 = Some st'
        \<and> (case fold (take_in sc ?M) ?chs (?T, ?d) of (T', d') \<Rightarrow> emitting sc ?F st st' T' d')"
      by (rule each_invariant [of ?chs "emitting sc ?F st" "spliceChild sc" "take_in sc ?M", OF step 2(2)])
    then show thesis by (elim exE conjE) (rule that)
  qed
  have "fold (take_in sc ?M) ?chs (?T, ?d) = (?T \<union> (\<Union>x \<in> set ?chs - ?M. full sc x \<union> opaque sc x), ?d \<or> (\<exists>x \<in> set ?chs - ?M. diagnosed sc x))"
  proof (rule fold_take_in [OF ok])
    show "\<exists>p \<in> U. x \<in> set (children sc p)" if "x \<in> set ?chs" for x using that M(2) unfolding chs by blast
    show "x \<in> ?M \<or> x \<in> output_of sc U \<or> (full sc x \<union> opaque sc x \<subseteq> ?T \<and> (diagnosed sc x \<longrightarrow> ?d))" if "x \<in> ?T" for x
      using that M(2) unfolding output_of_def by blast
  qed
  moreover have "?T \<union> (\<Union>x \<in> set ?chs - ?M. full sc x \<union> opaque sc x) = ?F" unfolding chs eq by blast
  moreover have "(?d \<or> (\<exists>x \<in> set ?chs - ?M. diagnosed sc x)) = diagnosed sc v"
    unfolding diagnosed_strong [OF M(1) v] chs by blast
  ultimately have "emitting sc ?F st st3 ?F (diagnosed sc v)" using 3(2) by simp
  then show ?thesis using 1(1) 2(1) 3(1) by (simp add: emitMembers_def each_concat)
qed


text \<open>The files of a component have been resolved and rest on complete closures.\<close>

lemma members_incomplete_spec:
  assumes ok: "scan_ok sc U" and st: "state_ok sc U st" and c: "component sc U members st"
  shows "members_incomplete sc members st = Some False"
proof -
  have child: "child_incomplete st ch = Some False" if "u \<in> set members" "ch \<in> set (children sc u)" for u ch
  proof -
    have "onStackHas st ch = Some (ch \<in> set members)" using c that unfolding component_def by blast
    moreover have "\<not> cl_incomplete cl" if "ss_closures st ch = Some cl" for cl
    proof -
      have "ch \<in> U" using c \<open>u \<in> set members\<close> \<open>ch \<in> set (children sc u)\<close> scan_okD(2) [OF ok] unfolding component_def by blast
      then show ?thesis using state_okD(1) [OF st _ that] by (simp add: closure_ok_def)
    qed
    ultimately show ?thesis by (auto simp: child_incomplete_def split: option.splits)
  qed
  have inner: "each (\<lambda>child inc. do { i \<leftarrow> child_incomplete st child; Some (inc \<or> i) }) chs False = Some False"
    if "\<And>ch. ch \<in> set chs \<Longrightarrow> child_incomplete st ch = Some False" for chs
    using that by (induction chs) simp_all
  have "each (\<lambda>u inc. each (\<lambda>child inc. do { i \<leftarrow> child_incomplete st child; Some (inc \<or> i) })
      (children sc u) (inc \<or> ch_Deferred (sc_files sc u))) us False = Some False" if "set us \<subseteq> set members" for us
    using that
  proof (induction us)
    case (Cons u us)
    then have "\<not> ch_Deferred (sc_files sc u)" using c scan_okD(3) [OF ok] unfolding component_def by auto
    moreover have "each (\<lambda>child inc. do { i \<leftarrow> child_incomplete st child; Some (inc \<or> i) }) (children sc u) False = Some False"
      by (rule inner) (use child Cons.prems in auto)
    ultimately show ?case using Cons by simp
  qed simp
  then show ?thesis unfolding members_incomplete_def by simp
qed

lemma emitClosure_spec:
  assumes ok: "scan_ok sc U" and st: "state_ok sc U st" and c: "component sc U members st"
    and fresh: "IdSet_inv (tc_closure st)" "IdSet_set (tc_closure st) = {}" "unat (sc_bound sc) \<le> vec_len (ids_gen (tc_closure st))"
  shows "\<exists>cl cs block k d bs. emitClosure sc members st = Some (st\<lparr>tc_closure := cs, ss_closureScratch := block,
      tc_emitK := k, tc_emitHasDiagnostics := d, ss_buckets := bs,
      ss_closures := \<lambda>u. if u \<in> set members then Some cl else ss_closures st u\<rparr>)
    \<and> (\<forall>v \<in> set members. closure_ok sc v cl) \<and> IdSet_inv cs \<and> length block = 2 ^ 13
    \<and> length (bc_scratch bs) = closureBuckets \<and> epochs_ok bs"
proof -
  obtain v where v: "v \<in> set members" using c unfolding component_def by (meson last_in_set)
  have M: "strong sc (set members)" "set members \<subseteq> U" using c unfolding component_def by blast+
  obtain st' where 1: "emitMembers sc members st = Some st'" "emitting sc (full sc v) st st' (full sc v) (diagnosed sc v)"
    using emitMembers_spec [OF ok st c v fresh] by blast
  then obtain cs block k where st': "st' = st\<lparr>tc_closure := cs, ss_closureScratch := block, tc_emitK := k, tc_emitHasDiagnostics := diagnosed sc v\<rparr>"
    and f: "filled cs block k" "IdSet_set cs = full sc v" "length block = 2 ^ 13"
    unfolding emitting_def by blast
  have k: "k \<le> length block" "set (take k block) = full sc v" "distinct (take k block)" and inv: "IdSet_inv cs"
    using f by (simp_all add: filled_def)
  have "full sc v \<noteq> {}" by (auto simp: full_def)
  then have "0 < k" using k(2) by (cases k) auto
  then have t: "take k block = block ! 0 # drop 1 (take k block)" using k(1) f(3) by (cases k; cases block) auto
  then have d: "distinct (block ! 0 # drop 1 (take k block))" using k(3) by metis
  obtain cl bs where s: "storeBuckets (ss_buckets st) (block ! 0) (drop 1 (take k block)) = Some (cl, bs)"
    "cl_files cl = set (block ! 0 # drop 1 (take k block))" "cl_ok cl"
    "length (bc_scratch bs) = closureBuckets" "epochs_ok bs"
    using storeBuckets_spec [OF state_okD(5,6) [OF st] d] by blast
  have inc: "members_incomplete sc members st' = Some False"
    using members_incomplete_spec [OF ok st c]
    by (simp add: st' members_incomplete_def child_incomplete_def onStackHas_def cong: option.case_cong)
  let ?cl = "cl\<lparr>cl_hasDiagnostics := diagnosed sc v, cl_incomplete := False\<rparr>"
  have "full sc u = full sc v \<and> diagnosed sc u = diagnosed sc v" if "u \<in> set members" for u
    using full_strong [OF ok M that] full_strong [OF ok M v] diagnosed_strong [OF M(1) that] diagnosed_strong [OF M(1) v]
    by simp
  moreover have "cl_files ?cl = full sc v"
    using s(2) k(2) unfolding t [symmetric] by (simp add: cl_files_def)
  ultimately have "closure_ok sc u ?cl" if "u \<in> set members" for u
    using that s(3) by (simp add: closure_ok_def cl_ok_def)
  moreover have "emitClosure sc members st = Some (st\<lparr>tc_closure := cs, ss_closureScratch := block, tc_emitK := k,
      tc_emitHasDiagnostics := diagnosed sc v, ss_buckets := bs,
      ss_closures := \<lambda>u. if u \<in> set members then Some ?cl else ss_closures st u\<rparr>)"
    using 1(1) s(1) inc \<open>0 < k\<close> k(1) f(3) by (simp add: emitClosure_def st' Let_def cong: if_cong)
  ultimately show ?thesis using s(4,5) inv f(3) by blast
qed

end
