(* ===== verification/Ay_SCC.thy ===== *)
theory Ay_SCC
  imports Ay_Emit
begin

text \<open>
  \<^verbatim>\<open>runSCC\<close> gives every file below the root its closure. The invariant is the one of Tarjan's
  algorithm over the files on the stack and the set \<open>G\<close> of files whose call is not finished; files
  that have left the stack have their closure, so the test whether a visited file is still on the
  stack, which the code does not make, is not needed.
\<close>

section \<open>Accessing the table\<close>

definition node :: "'a TarjanCtx_scheme \<Rightarrow> VFS \<Rightarrow> tarjanNode" where
  "node st v = tc_nodes st ! slot_of st v"

abbreviation idx :: "'a TarjanCtx_scheme \<Rightarrow> VFS \<Rightarrow> nat" where
  "idx st v \<equiv> tn_index (node st v)"

abbreviation low :: "'a TarjanCtx_scheme \<Rightarrow> VFS \<Rightarrow> nat" where
  "low st v \<equiv> tn_low (node st v)"

definition nodes_ok :: "'a TarjanCtx_scheme \<Rightarrow> bool" where
  "nodes_ok st \<longleftrightarrow> (\<forall>v i. tc_slots st v = Some i \<longrightarrow> i < length (tc_nodes st))
     \<and> (\<forall>u v i. tc_slots st u = Some i \<longrightarrow> tc_slots st v = Some i \<longrightarrow> u = v)"

definition set_node :: "'a TarjanCtx_scheme \<Rightarrow> VFS \<Rightarrow> tarjanNode \<Rightarrow> 'a TarjanCtx_scheme" where
  "set_node st v n = st\<lparr>tc_nodes := (tc_nodes st)[slot_of st v := n]\<rparr>"

lemma visited_slot:
  assumes "nodes_ok st" and "visited st v"
  shows "slot_of st v < length (tc_nodes st)" "lowOf st v = Some (low st v)" "indexOf st v = Some (idx st v)"
    "onStackHas st v = Some (tn_onStack (node st v))" "upd_node st v f = Some (set_node st v (f (node st v)))"
  using assms by (auto simp: nodes_ok_def visited_def slot_of_def lowOf_def indexOf_def onStackHas_def upd_node_def
      set_node_def node_def)

lemma set_node_simps [simp]:
  "visited (set_node st v n) = visited st" "tc_slots (set_node st v n) = tc_slots st"
  "tc_stack (set_node st v n) = tc_stack st" "tc_next (set_node st v n) = tc_next st"
  "tc_visitV (set_node st v n) = tc_visitV st" "ss_closures (set_node stt v n) = ss_closures stt"
  "cached (set_node stt v n) = cached stt" "state_ok sc U (set_node stt v n) = state_ok sc U stt"
  "ss_dfsActive (set_node stt v n) = ss_dfsActive stt" "length (tc_nodes (set_node st v n)) = length (tc_nodes st)"
  "nodes_ok (set_node st v n) = nodes_ok st"
  by (auto simp: set_node_def visited_def fun_eq_iff cached_def state_ok_def nodes_ok_def)

lemma node_set_node:
  assumes "nodes_ok st" and "visited st v" and "visited st u"
  shows "node (set_node st v n) u = (if u = v then n else node st u)"
proof -
  obtain i j where s: "tc_slots st v = Some i" "tc_slots st u = Some j" using assms(2,3) unfolding visited_def by auto
  then have "i < length (tc_nodes st)" "i = j \<longleftrightarrow> u = v" using assms(1) unfolding nodes_ok_def by auto
  then show ?thesis using s by (auto simp: node_def set_node_def slot_of_def)
qed

lemma discover_simps [simp]:
  "tc_stack (discover st v k) = tc_stack st" "tc_next (discover st v k) = tc_next st"
  "tc_visitV (discover st v k) = tc_visitV st" "ss_closures (discover stt v k) = ss_closures stt"
  "cached (discover stt v k) = cached stt" "state_ok sc U (discover stt v k) = state_ok sc U stt"
  "ss_dfsActive (discover stt v k) = ss_dfsActive stt"
  "visited (discover st v k) u \<longleftrightarrow> u = v \<or> visited st u"
  by (auto simp: discover_def visited_def cached_def state_ok_def)

lemma discover_nodes:
  assumes "nodes_ok st" and "\<not> visited st v"
  shows "nodes_ok (discover st v k)"
    and "node (discover st v k) v = \<lparr>tn_index = k, tn_low = k, tn_onStack = True\<rparr>"
    and "visited st u \<Longrightarrow> node (discover st v k) u = node st u"
proof -
  show "nodes_ok (discover st v k)"
    using assms unfolding nodes_ok_def visited_def discover_def by (auto simp: less_Suc_eq split: if_splits)
  show "node (discover st v k) v = \<lparr>tn_index = k, tn_low = k, tn_onStack = True\<rparr>"
    by (simp add: node_def slot_of_def discover_def)
  show "node (discover st v k) u = node st u" if "visited st u"
  proof -
    have "u \<noteq> v" using that assms(2) by blast
    then show ?thesis
      using that assms(1) unfolding nodes_ok_def visited_def node_def slot_of_def discover_def
      by (auto simp: nth_append)
  qed
qed

section \<open>The invariant\<close>

definition tinv :: "ScanCtx \<Rightarrow> VFS set \<Rightarrow> VFS set \<Rightarrow> 'a ScanState_scheme \<Rightarrow> bool" where
  "tinv sc U G st \<longleftrightarrow>
     state_ok sc U st \<and> nodes_ok st \<and> distinct (tc_stack st)
     \<and> (\<forall>v. visited st v \<longrightarrow> v \<in> U \<and> idx st v \<le> tc_next st \<and> (tn_onStack (node st v) \<longleftrightarrow> v \<in> set (tc_stack st))
          \<and> (v \<in> set (tc_stack st) \<or> v \<in> cached st))
     \<and> (\<forall>v \<in> set (tc_stack st). visited st v \<and> v \<notin> cached st)
     \<and> sorted_wrt (\<lambda>u w. idx st u < idx st w \<and> w \<in> reach sc u) (tc_stack st)
     \<and> G \<subseteq> set (tc_stack st)
     \<and> (\<forall>x \<in> set (tc_stack st). \<exists>y \<in> G. y \<in> reach sc x \<and> idx st y \<le> idx st x)
     \<and> (\<forall>x \<in> set (tc_stack st) - G. set (children sc x) \<subseteq> cached st \<union> set (tc_stack st))"

lemma tinvD:
  assumes "tinv sc U G st"
  shows "state_ok sc U st" "nodes_ok st" "distinct (tc_stack st)"
    "visited st v \<Longrightarrow> v \<in> U" "visited st v \<Longrightarrow> idx st v \<le> tc_next st"
    "visited st v \<Longrightarrow> tn_onStack (node st v) \<longleftrightarrow> v \<in> set (tc_stack st)"
    "visited st v \<Longrightarrow> v \<in> set (tc_stack st) \<or> v \<in> cached st"
    "v \<in> set (tc_stack st) \<Longrightarrow> visited st v" "v \<in> set (tc_stack st) \<Longrightarrow> v \<notin> cached st"
    "sorted_wrt (\<lambda>u w. idx st u < idx st w \<and> w \<in> reach sc u) (tc_stack st)"
    "G \<subseteq> set (tc_stack st)"
    "x \<in> set (tc_stack st) \<Longrightarrow> \<exists>y \<in> G. y \<in> reach sc x \<and> idx st y \<le> idx st x"
    "x \<in> set (tc_stack st) \<Longrightarrow> x \<notin> G \<Longrightarrow> set (children sc x) \<subseteq> cached st \<union> set (tc_stack st)"
  using assms unfolding tinv_def by blast+

lemma tinvI:
  assumes "state_ok sc U st" "nodes_ok st" "distinct (tc_stack st)"
    and "\<And>v. visited st v \<Longrightarrow> v \<in> U \<and> idx st v \<le> tc_next st"
    and "\<And>v. visited st v \<Longrightarrow> tn_onStack (node st v) \<longleftrightarrow> v \<in> set (tc_stack st)"
    and "\<And>v. visited st v \<Longrightarrow> v \<in> set (tc_stack st) \<or> v \<in> cached st"
    and "\<And>v. v \<in> set (tc_stack st) \<Longrightarrow> visited st v \<and> v \<notin> cached st"
    and "sorted_wrt (\<lambda>u w. idx st u < idx st w \<and> w \<in> reach sc u) (tc_stack st)"
    and "G \<subseteq> set (tc_stack st)"
    and "\<And>x. x \<in> set (tc_stack st) \<Longrightarrow> \<exists>y \<in> G. y \<in> reach sc x \<and> idx st y \<le> idx st x"
    and "\<And>x. x \<in> set (tc_stack st) \<Longrightarrow> x \<notin> G \<Longrightarrow> set (children sc x) \<subseteq> cached st \<union> set (tc_stack st)"
  shows "tinv sc U G st"
  using assms unfolding tinv_def by blast

text \<open>The invariant does not speak of \<^verbatim>\<open>low\<close> nor of the file being visited.\<close>

lemma tinv_set_low:
  assumes "tinv sc U G st" and "visited st v"
  shows "tinv sc U G (set_node st v ((node st v)\<lparr>tn_low := x\<rparr>))"
proof -
  let ?st = "set_node st v ((node st v)\<lparr>tn_low := x\<rparr>)"
  note n = node_set_node [OF tinvD(2) [OF assms(1)] assms(2)]
  have i: "idx ?st u = idx st u" and o: "tn_onStack (node ?st u) = tn_onStack (node st u)" if "visited st u" for u
    using n [OF that] by simp_all
  have i': "idx ?st u = idx st u" if "u \<in> set (tc_stack st)" for u using i tinvD(8) [OF assms(1) that] by blast
  have "sorted_wrt (\<lambda>u w. idx ?st u < idx ?st w \<and> w \<in> reach sc u) (tc_stack st)"
    using tinvD(10) [OF assms(1)] by (rule sorted_wrt_mono_rel [rotated]) (simp add: i')
  moreover have "\<exists>y \<in> G. y \<in> reach sc x \<and> idx ?st y \<le> idx ?st x" if "x \<in> set (tc_stack st)" for x
    using tinvD(12) [OF assms(1) that] i' [OF that] i' tinvD(11) [OF assms(1)] by (metis subsetD)
  ultimately show ?thesis
    using tinvD [OF assms(1)] i o unfolding tinv_def by (simp add: subset_iff) blast
qed

lemma tinv_visitV [simp]: "tinv sc U G (st\<lparr>tc_visitV := v\<rparr>) = tinv sc U G st"
  and tinv_hits [simp]: "tinv sc U G (st\<lparr>tc_hits := h\<rparr>) = tinv sc U G st"
  by (simp_all add: tinv_def state_ok_def nodes_ok_def node_def visited_def slot_of_def cached_def cong: option.case_cong)


section \<open>Starting a file\<close>

definition started :: "VFS \<Rightarrow> 'a ScanState_scheme \<Rightarrow> 'a ScanState_scheme" where
  "started v st = (discover (st\<lparr>tc_next := tc_next st + 1\<rparr>) v (tc_next st + 1))
     \<lparr>tc_stack := tc_stack st @ [v], tc_visitV := v\<rparr>"

lemma visited_upd [simp]:
  "visited (st\<lparr>tc_stack := s\<rparr>) = visited st" "visited (st\<lparr>tc_visitV := v\<rparr>) = visited st"
  "visited (st\<lparr>tc_next := k\<rparr>) = visited st" "visited (stt\<lparr>ss_closures := c\<rparr>) = visited stt"
  "visited (st\<lparr>tc_hits := h\<rparr>) = visited st" "visited (st\<lparr>tc_closure := cs\<rparr>) = visited st"
  by (simp_all add: visited_def fun_eq_iff)

lemma node_upd [simp]:
  "node (st\<lparr>tc_stack := s\<rparr>) = node st" "node (st\<lparr>tc_visitV := v\<rparr>) = node st"
  "node (st\<lparr>tc_next := k\<rparr>) = node st" "node (stt\<lparr>ss_closures := c\<rparr>) = node stt"
  "node (st\<lparr>tc_hits := h\<rparr>) = node st" "node (st\<lparr>tc_closure := cs\<rparr>) = node st"
  by (simp_all add: node_def slot_of_def fun_eq_iff cong: option.case_cong)

lemma nodes_ok_upd [simp]:
  "nodes_ok (st\<lparr>tc_stack := s\<rparr>) = nodes_ok st" "nodes_ok (st\<lparr>tc_visitV := v\<rparr>) = nodes_ok st"
  "nodes_ok (st\<lparr>tc_next := k\<rparr>) = nodes_ok st"
  by (simp_all add: nodes_ok_def)

lemma state_ok_upd [simp]:
  "state_ok sc U (st\<lparr>tc_stack := s\<rparr>) = state_ok sc U st" "state_ok sc U (st\<lparr>tc_visitV := v\<rparr>) = state_ok sc U st"
  "state_ok sc U (st\<lparr>tc_next := k\<rparr>) = state_ok sc U st"
  by (simp_all add: state_ok_def cached_def)

lemma cached_upd [simp]:
  "cached (st\<lparr>tc_stack := s\<rparr>) = cached st" "cached (st\<lparr>tc_visitV := v\<rparr>) = cached st"
  "cached (st\<lparr>tc_next := k\<rparr>) = cached st" "cached (st\<lparr>tc_hits := h\<rparr>) = cached st" "cached (st\<lparr>tc_closure := cs\<rparr>) = cached st"
  by (simp_all add: cached_def)

text \<open>What every part of the run keeps of the files visited before.\<close>

definition frame :: "'a ScanState_scheme \<Rightarrow> 'a ScanState_scheme \<Rightarrow> bool" where
  "frame st st' \<longleftrightarrow> (\<forall>u. visited st u \<longrightarrow> visited st' u \<and> node st' u = node st u) \<and> cached st \<subseteq> cached st'
     \<and> ss_dfsActive st' = ss_dfsActive st"

lemma frame_refl [simp, intro]: "frame st st"
  by (simp add: frame_def)

lemma frame_trans: "frame st st1 \<Longrightarrow> frame st1 st2 \<Longrightarrow> frame st st2"
  unfolding frame_def by auto

lemma frameD: "frame st st' \<Longrightarrow> visited st u \<Longrightarrow> visited st' u" "frame st st' \<Longrightarrow> visited st u \<Longrightarrow> node st' u = node st u"
  "frame st st' \<Longrightarrow> cached st \<subseteq> cached st'" "frame st st' \<Longrightarrow> ss_dfsActive st' = ss_dfsActive st"
  unfolding frame_def by auto

lemma started_spec:
  assumes t: "tinv sc U G st" and v: "v \<in> U" "\<not> visited st v" "v \<notin> cached st" and G: "\<And>g. g \<in> G \<Longrightarrow> v \<in> reach sc g"
  shows "tinv sc U (insert v G) (started v st)" "frame st (started v st)" "visited (started v st) v"
    "idx (started v st) v = tc_next st + 1" "low (started v st) v = tc_next st + 1" "tc_visitV (started v st) = v"
    "tc_stack (started v st) = tc_stack st @ [v]"
proof -
  let ?st = "started v st"
  note D = tinvD [OF t]
  have ok: "nodes_ok (st\<lparr>tc_next := tc_next st + 1\<rparr>)" and nv: "\<not> visited (st\<lparr>tc_next := tc_next st + 1\<rparr>) v"
    using D(2) v(2) by simp_all
  note n = discover_nodes [OF ok nv]
  have vis: "visited ?st u \<longleftrightarrow> u = v \<or> visited st u" for u by (simp add: started_def)
  have old: "node ?st u = node st u" if "visited st u" for u using n(3) that by (simp add: started_def)
  have new: "node ?st v = \<lparr>tn_index = tc_next st + 1, tn_low = tc_next st + 1, tn_onStack = True\<rparr>"
    using n(2) by (simp add: started_def)
  have stack: "tc_stack ?st = tc_stack st @ [v]" and c: "cached ?st = cached st" and nx: "tc_next ?st = tc_next st + 1"
    by (simp_all add: started_def)
  have vs: "v \<notin> set (tc_stack st)" using D(8) v(2) by blast
  have os: "node ?st u = node st u" if "u \<in> set (tc_stack st)" for u using old D(8) that by blast
  have reach_v: "v \<in> reach sc u" if "u \<in> set (tc_stack st)" for u
    using D(12) [OF that] G reach_trans by blast
  have "sorted_wrt (\<lambda>u w. idx ?st u < idx ?st w \<and> w \<in> reach sc u) (tc_stack st @ [v])"
    unfolding sorted_wrt_append
  proof (intro conjI ballI)
    show "sorted_wrt (\<lambda>u w. idx ?st u < idx ?st w \<and> w \<in> reach sc u) (tc_stack st)"
      using D(10) by (rule sorted_wrt_mono_rel [rotated]) (simp add: os)
    show "idx ?st u < idx ?st w" if "u \<in> set (tc_stack st)" "w \<in> set [v]" for u w
      using that D(5) D(8) os new by (simp add: le_imp_less_Suc)
    show "w \<in> reach sc u" if "u \<in> set (tc_stack st)" "w \<in> set [v]" for u w using that reach_v by simp
  qed simp
  moreover have "\<exists>y \<in> insert v G. y \<in> reach sc x \<and> idx ?st y \<le> idx ?st x" if xs: "x \<in> set (tc_stack st @ [v])" for x
  proof (cases "x = v")
    case False
    then have x: "x \<in> set (tc_stack st)" using xs by simp
    then obtain y where "y \<in> G" "y \<in> reach sc x" "idx st y \<le> idx st x" using D(12) by blast
    moreover have "node ?st y = node st y" using os D(11) calculation(1) by blast
    ultimately show ?thesis using os [OF x] by auto
  qed simp
  ultimately show "tinv sc U (insert v G) ?st"
  proof (intro tinvI, unfold stack c nx)
    show "state_ok sc U ?st" "nodes_ok ?st" using D(1) n(1) by (simp_all add: started_def)
    show "distinct (tc_stack st @ [v])" using D(3) vs by simp
    show "u \<in> U \<and> idx ?st u \<le> tc_next st + 1" if "visited ?st u" for u
      using that vis old new v(1) D(4,5) by (cases "u = v") (auto simp: le_SucI)
    show "tn_onStack (node ?st u) \<longleftrightarrow> u \<in> set (tc_stack st @ [v])" if "visited ?st u" for u
      using that vis old new D(6) by (cases "u = v") auto
    show "u \<in> set (tc_stack st @ [v]) \<or> u \<in> cached st" if "visited ?st u" for u using that vis D(7) by auto
    show "visited ?st u \<and> u \<notin> cached st" if "u \<in> set (tc_stack st @ [v])" for u using that vis D(8,9) v by auto
    show "insert v G \<subseteq> set (tc_stack st @ [v])" using D(11) by auto
    show "set (children sc x) \<subseteq> cached st \<union> set (tc_stack st @ [v])" if "x \<in> set (tc_stack st @ [v])" "x \<notin> insert v G" for x
      using that D(13) by auto
  qed auto
  show "frame st ?st" unfolding frame_def using vis old c by (simp add: started_def)
  show "visited ?st v" using vis by simp
  show "idx ?st v = tc_next st + 1" "low ?st v = tc_next st + 1" using new by simp_all
  show "tc_visitV ?st = v" by (simp add: started_def)
  show "tc_stack ?st = tc_stack st @ [v]" by (rule stack)
qed


section \<open>Visiting the includes of a file\<close>

text \<open>
  \<open>visiting\<close>: the file \<open>v\<close> was started in state \<open>st0\<close> and its includes in \<open>D\<close> have been visited;
  \<^verbatim>\<open>low\<close> is a lower bound of the numbers of the older files on the stack that are included by what
  was visited, and the number of one that is reached. \<open>finished\<close>: the call for \<open>v\<close> has returned.
\<close>

definition visiting :: "ScanCtx \<Rightarrow> VFS set \<Rightarrow> VFS set \<Rightarrow> VFS \<Rightarrow> 'a ScanState_scheme \<Rightarrow> VFS set \<Rightarrow> 'a ScanState_scheme \<Rightarrow> bool" where
  "visiting sc U G v st0 D st \<longleftrightarrow>
     tinv sc U (insert v G) st \<and> frame st0 st \<and> tc_visitV st = v \<and> visited st v \<and> idx st v = tc_next st0 + 1
     \<and> low st v \<le> idx st v
     \<and> (low st v = idx st v \<or> (\<exists>b \<in> set (tc_stack st0). idx st b = low st v \<and> b \<in> reach sc v))
     \<and> (\<exists>e. tc_stack st = tc_stack st0 @ v # e
          \<and> (\<forall>x \<in> set e. \<forall>c \<in> set (children sc x) \<inter> set (tc_stack st0). low st v \<le> idx st c))
     \<and> D \<subseteq> cached st \<union> set (tc_stack st) \<and> (\<forall>c \<in> D \<inter> set (tc_stack st0). low st v \<le> idx st c)"

definition finished :: "ScanCtx \<Rightarrow> VFS set \<Rightarrow> VFS set \<Rightarrow> VFS \<Rightarrow> 'a ScanState_scheme \<Rightarrow> 'a ScanState_scheme \<Rightarrow> bool" where
  "finished sc U G v st0 st \<longleftrightarrow>
     tinv sc U G st \<and> frame st0 st \<and> visited st v \<and> idx st v = tc_next st0 + 1
     \<and> (tc_stack st = tc_stack st0 \<and> v \<in> cached st \<and> low st v = idx st v
        \<or> (\<exists>e. tc_stack st = tc_stack st0 @ v # e
             \<and> (\<forall>x \<in> set (v # e). \<forall>c \<in> set (children sc x) \<inter> set (tc_stack st0). low st v \<le> idx st c))
          \<and> low st v < idx st v \<and> (\<exists>b \<in> set (tc_stack st0). idx st b = low st v \<and> b \<in> reach sc v))"

lemma set_node_same:
  assumes "nodes_ok st" and "visited st v" and "l = low st v"
  shows "set_node st v ((node st v)\<lparr>tn_low := l\<rparr>) = st"
  using visited_slot(1) [OF assms(1,2)] assms(3) by (simp add: set_node_def node_def)

lemma visiting_set_low:
  assumes t: "tinv sc U (insert v G) st" and f: "frame st0 st" and v: "tc_visitV st = v" "visited st v" "\<not> visited st0 v"
    "idx st v = tc_next st0 + 1" and b0: "\<And>b. b \<in> set (tc_stack st0) \<Longrightarrow> visited st0 b"
    and l: "l \<le> idx st v" "l = idx st v \<or> (\<exists>b \<in> set (tc_stack st0). idx st b = l \<and> b \<in> reach sc v)"
    and s: "tc_stack st = tc_stack st0 @ v # e"
    and e: "\<And>x c. x \<in> set e \<Longrightarrow> c \<in> set (children sc x) \<Longrightarrow> c \<in> set (tc_stack st0) \<Longrightarrow> l \<le> idx st c"
    and D: "D \<subseteq> cached st \<union> set (tc_stack st)" "\<And>c. c \<in> D \<Longrightarrow> c \<in> set (tc_stack st0) \<Longrightarrow> l \<le> idx st c"
  shows "visiting sc U G v st0 D (set_node st v ((node st v)\<lparr>tn_low := l\<rparr>))"
proof -
  let ?st = "set_node st v ((node st v)\<lparr>tn_low := l\<rparr>)"
  note n = node_set_node [OF tinvD(2) [OF t] v(2)]
  have old: "node ?st u = node st u" if "visited st0 u" for u
    using n [OF frameD(1) [OF f that]] that v(3) by auto
  have "frame st0 ?st" using f old unfolding frame_def by simp
  moreover have "node ?st v = (node st v)\<lparr>tn_low := l\<rparr>" using n [OF v(2)] by simp
  moreover have "idx ?st b = idx st b" if "b \<in> set (tc_stack st0)" for b using old [OF b0 [OF that]] by simp
  ultimately show ?thesis
    using tinv_set_low [OF t v(2), of l] v l s e D unfolding visiting_def by auto
qed

lemma stack_before:
  assumes t: "tinv sc U (insert v G) st" and s: "tc_stack st = base @ v # e" and b: "b \<in> set (tc_stack st)" "idx st b < idx st v"
  shows "b \<in> set base"
proof -
  have "sorted_wrt (\<lambda>u w. idx st u < idx st w \<and> w \<in> reach sc u) (base @ v # e)" using tinvD(10) [OF t] s by simp
  then have "\<forall>x \<in> set e. idx st v < idx st x" by (simp add: sorted_wrt_append)
  then show ?thesis using b s by auto
qed

text \<open>After a nested call: \<^verbatim>\<open>low\<close> becomes the smaller one.\<close>

lemma visiting_after_call:
  assumes L: "visiting sc U G v st0 D st" and F: "finished sc U (insert v G) w st st1"
    and w: "w \<in> set (children sc v)" "\<not> visited st w" and v0: "\<not> visited st0 v"
    and b0: "\<And>b. b \<in> set (tc_stack st0) \<Longrightarrow> visited st0 b"
  shows "visiting sc U G v st0 (insert w D)
    (set_node (st1\<lparr>tc_visitV := v\<rparr>) v ((node st1 v)\<lparr>tn_low := min (low st v) (low st1 w)\<rparr>))"
proof -
  obtain e where L': "tinv sc U (insert v G) st" "frame st0 st" "visited st v" "idx st v = tc_next st0 + 1" "low st v \<le> idx st v"
    and lb: "low st v = idx st v \<or> (\<exists>b \<in> set (tc_stack st0). idx st b = low st v \<and> b \<in> reach sc v)"
    and s: "tc_stack st = tc_stack st0 @ v # e" "\<forall>x \<in> set e. \<forall>c \<in> set (children sc x) \<inter> set (tc_stack st0). low st v \<le> idx st c"
    and D: "D \<subseteq> cached st \<union> set (tc_stack st)" "\<forall>c \<in> D \<inter> set (tc_stack st0). low st v \<le> idx st c"
    using L unfolding visiting_def by blast
  have t1: "tinv sc U (insert v G) st1" and f1: "frame st st1" and iw: "idx st1 w = tc_next st + 1"
    using F unfolding finished_def by blast+
  have f: "frame st0 st1" using frame_trans [OF L'(2) f1] .
  have nv: "node st1 v = node st v" "visited st1 v" using frameD(1,2) [OF f1 L'(3)] by blast+
  have base: "node st1 b = node st b" if "b \<in> set (tc_stack st)" for b using frameD(2) [OF f1 tinvD(8) [OF L'(1) that]] .
  have base0: "node st1 b = node st b" if "b \<in> set (tc_stack st0)" for b using base that s(1) by simp
  have wv: "w \<in> reach sc v" using w(1) by (rule reach_child)
  let ?l = "min (low st v) (low st1 w)"
  obtain ext where x: "tc_stack st1 = tc_stack st @ ext" "w \<in> cached st1 \<union> set ext"
    "\<And>x c. x \<in> set ext \<Longrightarrow> c \<in> set (children sc x) \<Longrightarrow> c \<in> set (tc_stack st) \<Longrightarrow> low st1 w \<le> idx st1 c"
    "low st1 w = idx st1 w \<or> (\<exists>b \<in> set (tc_stack st). idx st1 b = low st1 w \<and> b \<in> reach sc w)"
    using F unfolding finished_def
    by (elim conjE disjE exE) (rule that [of "[]"], simp, simp, simp, simp, rule that, assumption, auto)
  have low: "?l = idx st1 v \<or> (\<exists>b \<in> set (tc_stack st0). idx st1 b = ?l \<and> b \<in> reach sc v)"
  proof (cases "low st1 w < low st v")
    case True
    then have "low st1 w \<noteq> idx st1 w" using iw L'(5) tinvD(5) [OF L'(1) L'(3)] by simp
    then obtain b where b: "b \<in> set (tc_stack st)" "idx st1 b = low st1 w" "b \<in> reach sc w" using x(4) by blast
    then have "idx st b < idx st v" using True L'(5) base by simp
    then have "b \<in> set (tc_stack st0)" using stack_before [OF L'(1) s(1) b(1)] by blast
    then show ?thesis using b True reach_trans [OF wv] by auto
  next
    case False
    then show ?thesis using lb nv base0 by (auto simp: min_def)
  qed
  have "visiting sc U G v st0 (insert w D)
      (set_node (st1\<lparr>tc_visitV := v\<rparr>) v ((node (st1\<lparr>tc_visitV := v\<rparr>) v)\<lparr>tn_low := ?l\<rparr>))"
  proof (rule visiting_set_low [where e = "e @ ext"])
    show "tinv sc U (insert v G) (st1\<lparr>tc_visitV := v\<rparr>)" using t1 by simp
    show "frame st0 (st1\<lparr>tc_visitV := v\<rparr>)" using f unfolding frame_def by simp
    show "idx (st1\<lparr>tc_visitV := v\<rparr>) v = tc_next st0 + 1" using nv L'(4) by simp
    show "?l \<le> idx (st1\<lparr>tc_visitV := v\<rparr>) v" using L'(5) nv by (simp add: min.coboundedI1)
    show "tc_stack (st1\<lparr>tc_visitV := v\<rparr>) = tc_stack st0 @ v # e @ ext" using x(1) s(1) by simp
    show "?l \<le> idx (st1\<lparr>tc_visitV := v\<rparr>) c" if "y \<in> set (e @ ext)" "c \<in> set (children sc y)" "c \<in> set (tc_stack st0)" for y c
      using that s base0 x(3) [of y c] by (auto simp: min.coboundedI1 min.coboundedI2)
    show "insert w D \<subseteq> cached (st1\<lparr>tc_visitV := v\<rparr>) \<union> set (tc_stack (st1\<lparr>tc_visitV := v\<rparr>))"
      using D(1) x(1,2) frameD(3) [OF f1] by auto
    show "?l \<le> idx (st1\<lparr>tc_visitV := v\<rparr>) c" if "c \<in> insert w D" "c \<in> set (tc_stack st0)" for c
      using that D(2) base0 w(2) b0 frameD(1) [OF L'(2)] by (auto simp: min.coboundedI1)
  qed (use v0 nv b0 low in auto)
  then show ?thesis by simp
qed


definition unvisited :: "VFS set \<Rightarrow> 'a TarjanCtx_scheme \<Rightarrow> VFS set" where
  "unvisited U st = {u \<in> U. \<not> visited st u}"

text \<open>What a call for an unvisited file may rely on.\<close>

definition callable :: "ScanCtx \<Rightarrow> VFS set \<Rightarrow> VFS set \<Rightarrow> VFS \<Rightarrow> 'a ScanState_scheme \<Rightarrow> bool" where
  "callable sc U G v st \<longleftrightarrow> tinv sc U G st \<and> v \<in> U \<and> \<not> visited st v \<and> v \<notin> cached st \<and> (\<forall>g \<in> G. v \<in> reach sc g)"

lemma visit_step:
  assumes ok: "scan_ok sc U" and c: "callable sc U G v st0" and L: "visiting sc U G v st0 D st" and w: "w \<in> set (children sc v)"
    and IH: "callable sc U (insert v G) w st \<Longrightarrow> \<exists>st1. rec w st = Some st1 \<and> finished sc U (insert v G) w st st1"
  shows "\<exists>st'. visitChild sc rec w st = Some st' \<and> visiting sc U G v st0 (insert w D) st'"
proof -
  have t0: "tinv sc U G st0" and vU: "v \<in> U" and v0: "\<not> visited st0 v" and G: "\<forall>g \<in> G. v \<in> reach sc g"
    using c unfolding callable_def by blast+
  have b0: "visited st0 b" if "b \<in> set (tc_stack st0)" for b using tinvD(8) [OF t0 that] .
  obtain e where t: "tinv sc U (insert v G) st" and f: "frame st0 st" and vv: "tc_visitV st = v" "visited st v" "idx st v = tc_next st0 + 1"
    and lv: "low st v \<le> idx st v" and lb: "low st v = idx st v \<or> (\<exists>b \<in> set (tc_stack st0). idx st b = low st v \<and> b \<in> reach sc v)"
    and s: "tc_stack st = tc_stack st0 @ v # e" "\<forall>x \<in> set e. \<forall>c \<in> set (children sc x) \<inter> set (tc_stack st0). low st v \<le> idx st c"
    and D: "D \<subseteq> cached st \<union> set (tc_stack st)" "\<forall>c \<in> D \<inter> set (tc_stack st0). low st v \<le> idx st c"
    using L unfolding visiting_def by blast
  have wU: "w \<in> U" using scan_okD(2) [OF ok vU] w by blast
  have cw: "snd (cachedWindow sc st w) \<longleftrightarrow> w \<in> cached st" using cachedWindow_U(1) [OF tinvD(1) [OF t] wU] .
  note nok = tinvD(2) [OF t] and wv = reach_child [OF w]
  consider (hit) "w \<in> cached st" | (call) "w \<notin> cached st" "\<not> visited st w" | (old) "w \<notin> cached st" "visited st w" by blast
  then show ?thesis
  proof cases
    case hit
    then have "w \<notin> set (tc_stack st0)" using tinvD(9) [OF t, of w] s(1) by auto
    then have "visiting sc U G v st0 (insert w D) (st\<lparr>tc_hits := tc_hits st + 1\<rparr>)"
      using L hit unfolding visiting_def frame_def by auto
    then show ?thesis using hit cw by (simp add: visitChild_def)
  next
    case call
    have "callable sc U (insert v G) w st"
      using t wU call G reach_trans [OF _ wv] wv unfolding callable_def by blast
    then obtain st1 where 1: "rec w st = Some st1" "finished sc U (insert v G) w st st1" using IH by blast
    have f1: "frame st st1" and t1: "tinv sc U (insert v G) st1" and w1: "visited st1 w" using 1(2) unfolding finished_def by blast+
    have nv: "node st1 v = node st v" "visited st1 v" using frameD(1,2) [OF f1 vv(2)] by blast+
    let ?st = "st1\<lparr>tc_visitV := v\<rparr>"
    have n1: "nodes_ok ?st" "visited ?st v" "visited ?st w" using tinvD(2) [OF t1] nv w1 by simp_all
    note vs = visited_slot [OF n1(1)]
    have "visitChild sc rec w st = Some (set_node ?st v ((node st1 v)\<lparr>tn_low := min (low st v) (low st1 w)\<rparr>))"
    proof (cases "low st1 w < low st v")
      case True
      then show ?thesis
        using call cw 1(1) vv(1) vs(2) [OF n1(3)] vs(2) [OF n1(2)] vs(5) [OF n1(2)] nv
        by (simp add: visitChild_def setLow_def Let_def min_def)
    next
      case False
      then have "set_node ?st v ((node st1 v)\<lparr>tn_low := min (low st v) (low st1 w)\<rparr>) = ?st"
        using set_node_same [OF n1(1,2)] nv by (simp add: min_def)
      then show ?thesis
        using False call cw 1(1) vv(1) vs(2) [OF n1(3)] vs(2) [OF n1(2)] nv by (simp add: visitChild_def Let_def)
    qed
    then show ?thesis using visiting_after_call [OF L 1(2) w call(2) v0 b0] by blast
  next
    case old
    then have ws: "w \<in> set (tc_stack st)" using tinvD(7) [OF t] by blast
    note vs = visited_slot [OF nok]
    let ?l = "min (low st v) (idx st w)"
    have "visitChild sc rec w st = Some (set_node st v ((node st v)\<lparr>tn_low := ?l\<rparr>))"
      using old cw vv(1) vs(3) [OF old(2)] vs(2) [OF vv(2)] vs(5) [OF vv(2)] set_node_same [OF nok vv(2)]
      by (auto simp: visitChild_def setLow_def Let_def min_def)
    moreover have "visiting sc U G v st0 (insert w D) (set_node st v ((node st v)\<lparr>tn_low := ?l\<rparr>))"
    proof (rule visiting_set_low [OF t f vv(1,2) v0 vv(3) b0 _ _ s(1)])
      show "?l = idx st v \<or> (\<exists>b \<in> set (tc_stack st0). idx st b = ?l \<and> b \<in> reach sc v)"
        using lb lv wv ws stack_before [OF t s(1) ws] by (auto simp: min_def not_le)
    qed (use lv s(2) D ws in \<open>auto simp: min.coboundedI1\<close>)
    ultimately show ?thesis by blast
  qed
qed

lemma visit_all:
  assumes ok: "scan_ok sc U" and c: "callable sc U G v st0" and L: "visiting sc U G v st0 D st" and ws: "set ws \<subseteq> set (children sc v)"
    and IH: "\<And>w st. callable sc U (insert v G) w st \<Longrightarrow> card (unvisited U st) < card (unvisited U st0) \<Longrightarrow>
      \<exists>st1. rec w st = Some st1 \<and> finished sc U (insert v G) w st st1"
  shows "\<exists>st'. each (visitChild sc rec) ws st = Some st' \<and> visiting sc U G v st0 (D \<union> set ws) st'"
  using L ws
proof (induction ws arbitrary: D st)
  case (Cons w ws)
  have f: "frame st0 st" "visited st v" using Cons.prems(1) unfolding visiting_def by blast+
  have "unvisited U st \<subset> unvisited U st0"
    using c frameD(1) [OF f(1)] f(2) unfolding unvisited_def callable_def by blast
  moreover have "finite (unvisited U st0)" using scan_okD(1) [OF ok] by (simp add: unvisited_def)
  ultimately have "card (unvisited U st) < card (unvisited U st0)" by (rule psubset_card_mono [rotated])
  then obtain st1 where "visitChild sc rec w st = Some st1" "visiting sc U G v st0 (insert w D) st1"
    using visit_step [OF ok c Cons.prems(1), of w rec] Cons.prems(2) IH by auto
  then show ?case using Cons.IH [of "insert w D" st1] Cons.prems(2) by auto
qed simp


section \<open>Finishing a component\<close>

lemma sccStart_loop_found:
  "v \<notin> set e \<Longrightarrow> k \<le> length e \<Longrightarrow> sccStart_loop (base @ v # e) v (length base + Suc k) = Some (length base)"
proof (induction k)
  case (Suc k)
  have "(base @ v # e) ! (length base + Suc k) = e ! k" by (simp add: nth_append)
  then have "(base @ v # e) ! (length base + Suc k) \<noteq> v" using Suc.prems by (metis Suc_le_lessD nth_mem)
  then show ?case using Suc by simp
qed simp

lemma unset_onStack:
  assumes "nodes_ok st" and "\<And>u. u \<in> set ms \<Longrightarrow> visited st u"
  shows "\<exists>ns. each (\<lambda>u t. setOnStack t u False) ms st = Some (st\<lparr>tc_nodes := ns\<rparr>) \<and> nodes_ok (st\<lparr>tc_nodes := ns\<rparr>)
    \<and> (\<forall>u. visited st u \<longrightarrow> node (st\<lparr>tc_nodes := ns\<rparr>) u = (if u \<in> set ms then (node st u)\<lparr>tn_onStack := False\<rparr> else node st u))"
  using assms
proof (induction ms arbitrary: st)
  case Nil
  show ?case by (rule exI [of _ "tc_nodes st"]) (use Nil in simp)
next
  case (Cons m ms)
  have m: "visited st m" using Cons.prems(2) by simp
  let ?st = "set_node st m ((node st m)\<lparr>tn_onStack := False\<rparr>)"
  have step: "setOnStack st m False = Some ?st" using visited_slot(5) [OF Cons.prems(1) m] by (simp add: setOnStack_def)
  have ok: "nodes_ok ?st" and vis: "\<And>u. u \<in> set ms \<Longrightarrow> visited ?st u" using Cons.prems by simp_all
  obtain ns where ns: "each (\<lambda>u t. setOnStack t u False) ms ?st = Some (?st\<lparr>tc_nodes := ns\<rparr>)" "nodes_ok (?st\<lparr>tc_nodes := ns\<rparr>)"
    "\<forall>u. visited ?st u \<longrightarrow> node (?st\<lparr>tc_nodes := ns\<rparr>) u = (if u \<in> set ms then (node ?st u)\<lparr>tn_onStack := False\<rparr> else node ?st u)"
    using Cons.IH [OF ok vis] by blast
  have eq: "?st\<lparr>tc_nodes := ns\<rparr> = st\<lparr>tc_nodes := ns\<rparr>" by (simp add: set_node_def)
  show ?case
    using ns step node_set_node [OF Cons.prems(1) m] unfolding eq by (intro exI [of _ ns]) auto
qed

text \<open>When \<^verbatim>\<open>low\<close> is still the number of the file, what lies above it on the stack is a component.\<close>

lemma visiting_component:
  assumes ok: "scan_ok sc U" and c: "callable sc U G v st0" and L: "visiting sc U G v st0 (set (children sc v)) st"
    and low: "low st v = idx st v" and s: "tc_stack st = tc_stack st0 @ v # e"
  shows "component sc U (v # e) st"
proof -
  have t: "tinv sc U (insert v G) st" and f: "frame st0 st" and vv: "visited st v"
    and out: "\<forall>x \<in> set e. \<forall>c \<in> set (children sc x) \<inter> set (tc_stack st0). low st v \<le> idx st c"
    and D: "set (children sc v) \<subseteq> cached st \<union> set (tc_stack st)" "\<forall>c \<in> set (children sc v) \<inter> set (tc_stack st0). low st v \<le> idx st c"
    using L s unfolding visiting_def by auto
  have G0: "G \<subseteq> set (tc_stack st0)" using c tinvD(11) unfolding callable_def by blast
  have sorted: "sorted_wrt (\<lambda>u w. idx st u < idx st w \<and> w \<in> reach sc u) (tc_stack st0 @ v # e)" using tinvD(10) [OF t] s by simp
  have d: "distinct (tc_stack st0 @ v # e)" using tinvD(3) [OF t] s by simp
  let ?M = "set (v # e)"
  have MU: "?M \<subseteq> U" using tinvD(4,8) [OF t] s by auto
  have base: "idx st b < idx st v" if "b \<in> set (tc_stack st0)" for b using sorted that by (simp add: sorted_wrt_append)
  have ch: "set (children sc u) \<subseteq> cached st \<union> ?M" if u: "u \<in> ?M" for u
  proof
    fix x assume x: "x \<in> set (children sc u)"
    have "x \<in> cached st \<union> set (tc_stack st)"
    proof (cases "u = v")
      case False
      then have "u \<notin> insert v G" "u \<in> set (tc_stack st)" using u G0 d s by auto
      then show ?thesis using tinvD(13) [OF t] x by blast
    qed (use x D(1) in blast)
    moreover have "x \<notin> set (tc_stack st0)"
    proof
      assume b: "x \<in> set (tc_stack st0)"
      then have "low st v \<le> idx st x" using u x out D(2) by auto
      then show False using base [OF b] low by simp
    qed
    ultimately show "x \<in> cached st \<union> ?M" using s by auto
  qed
  have closed: "reach sc u \<subseteq> ?M \<union> U \<inter> cached st" if "u \<in> ?M" for u
  proof (rule reach_closed)
    fix x assume "x \<in> ?M \<union> U \<inter> cached st"
    then show "set (children sc x) \<subseteq> ?M \<union> U \<inter> cached st"
      using ch MU scan_okD(2) [OF ok] state_okD(2) [OF tinvD(1) [OF t]] by blast
  qed (use that in blast)
  have notc: "x \<notin> cached st" if "x \<in> set (tc_stack st)" for x using tinvD(9) [OF t that] .
  have to_v: "v \<in> reach sc u" if u: "u \<in> ?M" for u
  proof -
    obtain y where y: "y \<in> insert v G" "y \<in> reach sc u" using tinvD(12) [OF t, of u] u s by auto
    then have "y \<in> ?M" using closed [OF u] notc G0 s by auto
    then show ?thesis using y G0 d by auto
  qed
  have from_v: "u \<in> reach sc v" if "u \<in> ?M" for u using that sorted by (auto simp: sorted_wrt_append)
  have strong: "strong sc ?M"
    unfolding strong_def
  proof (intro conjI ballI)
    show "?M \<subseteq> reach sc u" if "u \<in> ?M" for u using to_v [OF that] from_v reach_trans by blast
    show "reach sc w \<inter> ?M = {}" if "u \<in> ?M" "w \<in> set (children sc u) - ?M" for u w
    proof -
      have "w \<in> U \<inter> cached st" using that ch MU scan_okD(2) [OF ok] by blast
      then have "reach sc w \<subseteq> cached st" using cached_reach [OF ok tinvD(1) [OF t]] by blast
      then show ?thesis using notc s by auto
    qed
  qed
  have on: "onStackHas st x = Some (x \<in> set (tc_stack st))" for x
  proof (cases "visited st x")
    case True
    then show ?thesis using visited_slot(4) [OF tinvD(2) [OF t] True] tinvD(6) [OF t True] by simp
  next
    case False
    then show ?thesis using tinvD(8) [OF t, of x] by (auto simp: onStackHas_def visited_def)
  qed
  show ?thesis
    unfolding component_def
  proof (intro conjI ballI)
    show "onStackHas st x = Some (x \<in> ?M)" if "u \<in> ?M" "x \<in> set (children sc u)" for u x
      using on [of x] ch [OF that(1)] that(2) notc s by auto
    show "x \<notin> ?M \<longrightarrow> x \<in> cached st" if "u \<in> ?M" "x \<in> set (children sc u)" for u x using ch that by blast
  qed (use d MU strong in auto)
qed


lemma finish_component_spec:
  assumes ok: "scan_ok sc U" and c: "callable sc U G v st0" and L: "visiting sc U G v st0 (set (children sc v)) st"
    and low: "low st v = idx st v"
  shows "\<exists>st'. finish_component sc st = Some st' \<and> finished sc U G v st0 st'"
proof -
  obtain e where s: "tc_stack st = tc_stack st0 @ v # e" using L unfolding visiting_def by blast
  have t: "tinv sc U (insert v G) st" and f: "frame st0 st" and vv: "tc_visitV st = v" "visited st v" "idx st v = tc_next st0 + 1"
    using L unfolding visiting_def by blast+
  have t0: "tinv sc U G st0" and v0: "\<not> visited st0 v" using c unfolding callable_def by blast+
  note T = tinvD [OF t]
  have d: "distinct (tc_stack st0 @ v # e)" using T(3) s by simp
  have start: "sccStart st = Some (length (tc_stack st0))"
    using sccStart_loop_found [of v e "length e" "tc_stack st0"] d s vv(1) by (simp add: sccStart_def)
  let ?M = "set (v # e)" and ?stR = "st\<lparr>tc_closure := IdSet_reset (tc_closure st) (sc_bound sc)\<rparr>"
  note R = IdSet_reset_spec [OF state_okD(3) [OF T(1)] scan_okD(4) [OF ok]]
  have sR: "state_ok sc U ?stR" using T(1) R(1) unfolding state_ok_def IdSet_inv_def by (simp add: cached_def)
  have comp: "component sc U (v # e) st" using visiting_component [OF ok c L low s] .
  have compR: "component sc U (v # e) ?stR"
    using comp unfolding component_def by (simp add: onStackHas_def cong: option.case_cong)
  obtain cl cs block k dg bs where st1: "emitClosure sc (v # e) ?stR = Some (?stR\<lparr>tc_closure := cs, ss_closureScratch := block,
      tc_emitK := k, tc_emitHasDiagnostics := dg, ss_buckets := bs,
      ss_closures := \<lambda>u. if u \<in> ?M then Some cl else ss_closures ?stR u\<rparr>)"
    and cl: "\<forall>u \<in> ?M. closure_ok sc u cl" "IdSet_inv cs" "length block = 2 ^ 13" "length (bc_scratch bs) = closureBuckets" "epochs_ok bs"
    using emitClosure_spec [OF ok sR compR] R by auto
  let ?st1 = "?stR\<lparr>tc_closure := cs, ss_closureScratch := block, tc_emitK := k, tc_emitHasDiagnostics := dg, ss_buckets := bs,
      ss_closures := \<lambda>u. if u \<in> ?M then Some cl else ss_closures ?stR u\<rparr>"
  have vis1: "visited ?st1 = visited st" "node ?st1 = node st"
    by (auto simp: visited_def node_def slot_of_def fun_eq_iff cong: option.case_cong)
  have ok1: "nodes_ok ?st1" using T(2) by (simp add: nodes_ok_def)
  have Mv: "visited st u" if "u \<in> ?M" for u using T(8) that s by auto
  obtain ns where ns: "each (\<lambda>u t. setOnStack t u False) (v # e) ?st1 = Some (?st1\<lparr>tc_nodes := ns\<rparr>)" "nodes_ok (?st1\<lparr>tc_nodes := ns\<rparr>)"
    "\<forall>u. visited st u \<longrightarrow> node (?st1\<lparr>tc_nodes := ns\<rparr>) u = (if u \<in> ?M then (node st u)\<lparr>tn_onStack := False\<rparr> else node st u)"
    using unset_onStack [OF ok1, of "v # e"] Mv unfolding vis1 by blast
  let ?st2 = "?st1\<lparr>tc_nodes := ns, tc_stack := tc_stack st0\<rparr>"
  have "drop (length (tc_stack st0)) (tc_stack st) = v # e" "take (length (tc_stack st0)) (tc_stack st) = tc_stack st0"
    using s by simp_all
  then have res: "finish_component sc st = Some ?st2"
    using start st1 ns(1) by (simp add: finish_component_def Let_def del: each.simps)
  have vis: "visited ?st2 = visited st" by (auto simp: visited_def fun_eq_iff)
  have nd: "node ?st2 u = (if u \<in> ?M then (node st u)\<lparr>tn_onStack := False\<rparr> else node st u)" if "visited st u" for u
    using ns(3) that by (simp add: node_def slot_of_def cong: option.case_cong)
  have cc: "cached ?st2 = cached st \<union> ?M" by (auto simp: cached_def)
  have base: "u \<notin> ?M" "u \<in> set (tc_stack st)" if "u \<in> set (tc_stack st0)" for u using that d s by auto
  have ib: "idx ?st2 u = idx st u" if "visited st u" for u using nd [OF that] by simp
  have ib0: "idx ?st2 u = idx st u" if "u \<in> set (tc_stack st0)" for u using ib T(8) base(2) [OF that] by blast
  have sorted: "sorted_wrt (\<lambda>u w. idx st u < idx st w \<and> w \<in> reach sc u) (tc_stack st0 @ v # e)" using T(10) s by simp
  have lt: "idx st u < idx st v" if "u \<in> set (tc_stack st0)" for u using sorted that by (simp add: sorted_wrt_append)
  have "tinv sc U G ?st2"
  proof (rule tinvI)
    have "set (children sc u) \<subseteq> cached st \<union> ?M" if "u \<in> U" "u \<in> cached st \<union> ?M" for u
      using that state_okD(2) [OF T(1)] comp unfolding component_def by blast
    moreover have "closure_ok sc u cl'" if "u \<in> U" "ss_closures ?st2 u = Some cl'" for u cl'
      using that cl(1) state_okD(1) [OF T(1)] by (auto split: if_splits)
    moreover have "gens_ok (ids_gen cs) (ids_epoch cs)" using cl(2) by (simp add: IdSet_inv_def)
    ultimately show "state_ok sc U ?st2" using cl(3-5) unfolding state_ok_def cc by simp
    show "nodes_ok ?st2" using ns(2) by (simp add: nodes_ok_def)
    show "distinct (tc_stack ?st2)" using d by simp
    show "u \<in> U \<and> idx ?st2 u \<le> tc_next ?st2" if "visited ?st2 u" for u
      using that T(4,5) ib unfolding vis by simp
    show "tn_onStack (node ?st2 u) \<longleftrightarrow> u \<in> set (tc_stack ?st2)" if "visited ?st2 u" for u
      using that T(6) [of u] nd [of u] base s unfolding vis by auto
    show "u \<in> set (tc_stack ?st2) \<or> u \<in> cached ?st2" if "visited ?st2 u" for u
      using that T(7) [of u] s unfolding vis cc by auto
    show "visited ?st2 u \<and> u \<notin> cached ?st2" if "u \<in> set (tc_stack ?st2)" for u
      using that T(8,9) [of u] base [of u] unfolding vis cc by auto
    have "sorted_wrt (\<lambda>u w. idx st u < idx st w \<and> w \<in> reach sc u) (tc_stack st0)" using sorted by (simp add: sorted_wrt_append)
    then have "sorted_wrt (\<lambda>u w. idx ?st2 u < idx ?st2 w \<and> w \<in> reach sc u) (tc_stack st0)"
      by (rule sorted_wrt_mono_rel [rotated]) (simp only: ib0)
    then show "sorted_wrt (\<lambda>u w. idx ?st2 u < idx ?st2 w \<and> w \<in> reach sc u) (tc_stack ?st2)" by simp
    show "G \<subseteq> set (tc_stack ?st2)" using tinvD(11) [OF t0] by simp
    show "\<exists>y \<in> G. y \<in> reach sc x \<and> idx ?st2 y \<le> idx ?st2 x" if "x \<in> set (tc_stack ?st2)" for x
    proof -
      have x: "x \<in> set (tc_stack st0)" using that by simp
      obtain y where y: "y \<in> insert v G" "y \<in> reach sc x" "idx st y \<le> idx st x" using T(12) base(2) [OF x] by blast
      then have yG: "y \<in> G" using lt [OF x] by auto
      then have "y \<in> set (tc_stack st0)" using tinvD(11) [OF t0] by blast
      then show ?thesis using y(2,3) by (intro bexI [OF _ yG] conjI) (simp_all only: ib0 [OF x] ib0)
    qed
    show "set (children sc x) \<subseteq> cached ?st2 \<union> set (tc_stack ?st2)" if "x \<in> set (tc_stack ?st2)" "x \<notin> G" for x
    proof -
      have "x \<in> set (tc_stack st)" "x \<notin> insert v G" using that base [of x] by auto
      then show ?thesis using T(13) s unfolding cc by auto
    qed
  qed
  moreover have "frame st0 ?st2"
    unfolding frame_def cc vis
  proof (intro conjI allI impI)
    fix u assume u: "visited st0 u"
    then show "visited st u" using frameD(1) [OF f] by blast
    have "u \<notin> ?M"
    proof
      assume m: "u \<in> ?M"
      have "u \<notin> set (tc_stack st0)" using d m by auto
      then have "u \<in> cached st" using tinvD(7) [OF t0 u] frameD(3) [OF f] by blast
      then show False using T(9) [of u] m s by auto
    qed
    then show "node ?st2 u = node st0 u" using nd [OF frameD(1) [OF f u]] frameD(2) [OF f u] by simp
  qed (use frameD(3,4) [OF f] in auto)
  ultimately have "finished sc U G v st0 ?st2"
    using nd [OF vv(2)] vv(2,3) low unfolding finished_def vis cc by simp
  then show ?thesis using res by blast
qed


section \<open>The run\<close>

lemma visiting_finished:
  assumes c: "callable sc U G v st0" and L: "visiting sc U G v st0 (set (children sc v)) st" and low: "low st v \<noteq> idx st v"
  shows "finished sc U G v st0 st"
proof -
  obtain e where t: "tinv sc U (insert v G) st" and f: "frame st0 st" and vv: "visited st v" "idx st v = tc_next st0 + 1"
    and lv: "low st v \<le> idx st v" "\<exists>b \<in> set (tc_stack st0). idx st b = low st v \<and> b \<in> reach sc v"
    and s: "tc_stack st = tc_stack st0 @ v # e" "\<forall>x \<in> set e. \<forall>c \<in> set (children sc x) \<inter> set (tc_stack st0). low st v \<le> idx st c"
    and D: "set (children sc v) \<subseteq> cached st \<union> set (tc_stack st)" "\<forall>c \<in> set (children sc v) \<inter> set (tc_stack st0). low st v \<le> idx st c"
    using L low unfolding visiting_def by blast
  note T = tinvD [OF t]
  have t0: "tinv sc U G st0" using c unfolding callable_def by blast
  obtain b where b: "b \<in> set (tc_stack st0)" "idx st b = low st v" "b \<in> reach sc v" using lv(2) by blast
  have bs: "b \<in> set (tc_stack st)" using b s by simp
  have blt: "idx st b < idx st v" using b lv(1) low by simp
  have "tinv sc U G st"
  proof (rule tinvI)
    show "G \<subseteq> set (tc_stack st)" using T(11) by blast
    show "\<exists>y \<in> G. y \<in> reach sc x \<and> idx st y \<le> idx st x" if x: "x \<in> set (tc_stack st)" for x
    proof -
      obtain y where y: "y \<in> insert v G" "y \<in> reach sc x" "idx st y \<le> idx st x" using T(12) [OF x] by blast
      show ?thesis
      proof (cases "y \<in> G")
        case False
        then have yv: "y = v" using y(1) by blast
        obtain z where z: "z \<in> insert v G" "z \<in> reach sc b" "idx st z \<le> idx st b" using T(12) [OF bs] by blast
        then have "z \<in> G" using blt by auto
        moreover have "z \<in> reach sc x" using y(2) yv b(3) z(2) reach_trans by blast
        moreover have "idx st z \<le> idx st x" using z(3) blt y(3) yv by simp
        ultimately show ?thesis by blast
      qed (use y in blast)
    qed
    show "set (children sc x) \<subseteq> cached st \<union> set (tc_stack st)" if "x \<in> set (tc_stack st)" "x \<notin> G" for x
      using that T(13) D(1) by (cases "x = v") auto
  qed (use T in blast)+
  moreover have "\<forall>x \<in> set (v # e). \<forall>c \<in> set (children sc x) \<inter> set (tc_stack st0). low st v \<le> idx st c"
    using s(2) D(2) by simp
  ultimately show ?thesis
    unfolding finished_def using f vv s(1) b lv(1) low by fastforce
qed

lemma strongconnect_spec:
  assumes ok: "scan_ok sc U"
  shows "callable sc U G v st \<Longrightarrow> card (unvisited U st) \<le> n \<Longrightarrow> \<exists>st'. strongconnect n sc v st = Some st' \<and> finished sc U G v st st'"
proof (induction n arbitrary: G v st)
  case 0
  then have "unvisited U st = {}" using scan_okD(1) [OF ok] by (simp add: unvisited_def)
  then show ?case using 0(1) by (auto simp: callable_def unvisited_def)
next
  case (Suc n)
  have c: "tinv sc U G st" "v \<in> U" "\<not> visited st v" "v \<notin> cached st" "\<And>g. g \<in> G \<Longrightarrow> v \<in> reach sc g"
    using Suc.prems(1) unfolding callable_def by blast+
  note S = started_spec [OF c]
  have "visiting sc U G v st {} (started v st)"
    using S unfolding visiting_def by auto
  moreover have "\<exists>st1. strongconnect n sc w st1' = Some st1 \<and> finished sc U (insert v G) w st1' st1"
    if "callable sc U (insert v G) w st1'" "card (unvisited U st1') < card (unvisited U st)" for w and st1' :: "'a ScanState_scheme"
    by (rule Suc.IH [OF that(1)]) (use that(2) Suc.prems(2) in linarith)
  ultimately obtain st1 where 1: "each (visitChild sc (strongconnect n sc)) (children sc v) (started v st) = Some st1"
    "visiting sc U G v st (set (children sc v)) st1"
    using visit_all [OF ok Suc.prems(1), of "{}" "started v st" "children sc v" "strongconnect n sc"] by auto
  have n1: "nodes_ok st1" "visited st1 v" using 1(2) tinvD(2) unfolding visiting_def by blast+
  note vs = visited_slot(2,3) [OF n1]
  have "strongconnect (Suc n) sc v st = (if low st1 v \<noteq> idx st1 v then Some st1 else finish_component sc st1)"
    using 1(1) vs by (simp add: started_def Let_def)
  then show ?case
    using visiting_finished [OF Suc.prems(1) 1(2)] finish_component_spec [OF ok Suc.prems(1) 1(2)]
    by (cases "low st1 v = idx st1 v") auto
qed

text \<open>
  After \<^verbatim>\<open>runSCC\<close> the root and everything below it has its closure.
\<close>

lemma runSCC_spec:
  assumes ok: "scan_ok sc U" and st: "state_ok sc U st" and r: "root \<in> U" "root \<notin> cached st" and n: "card U \<le> n"
  shows "\<exists>st'. runSCC n sc root st = Some st' \<and> state_ok sc U st' \<and> root \<in> cached st' \<and> cached st \<subseteq> cached st'
    \<and> ss_dfsActive st' = ss_dfsActive st"
proof -
  let ?st = "st\<lparr>tc_slots := \<lambda>_. None, tc_nodes := [], tc_stack := [], tc_next := 0, tc_hits := 0\<rparr>"
  have "tinv sc U {} ?st"
    using st unfolding tinv_def by (simp add: state_ok_def nodes_ok_def visited_def cached_def)
  then have "callable sc U {} root ?st" using r unfolding callable_def by (simp add: visited_def cached_def)
  moreover have "card (unvisited U ?st) \<le> n"
    using card_mono [OF scan_okD(1) [OF ok], of "unvisited U ?st"] n by (simp add: unvisited_def subset_iff)
  ultimately obtain st' where "strongconnect n sc root ?st = Some st'" "finished sc U {} root ?st st'"
    using strongconnect_spec [OF ok] by blast
  then show ?thesis
    unfolding finished_def runSCC_def using tinvD(1) frameD(3,4) by (fastforce simp: cached_def)
qed

end
