(* ===== verification/Ay_Scan.thy ===== *)
theory Ay_Scan
  imports Ay_SCC
begin

text \<open>
  \<^verbatim>\<open>ScanCtx.closureOf\<close> returns the closure of a file: the walk over the includes, which hands cycles
  over to \<^verbatim>\<open>runSCC\<close>, and the closure collected for one file in the scratch lists of the buckets.
\<close>

section \<open>Collecting the closure of one file\<close>

definition gathering :: "ScanCtx \<Rightarrow> VFS \<Rightarrow> 'a ScanState_scheme \<Rightarrow> 'a ScanState_scheme \<Rightarrow> VFS set \<Rightarrow> bool" where
  "gathering sc v st0 st T \<longleftrightarrow>
     (\<exists>c cs. st = st0\<lparr>ss_buckets := c, tc_closure := cs\<rparr> \<and> collecting v c cs \<and> IdSet_set cs = T
        \<and> unat (sc_bound sc) \<le> vec_len (ids_gen cs))"

lemma bsplice_gathering:
  assumes g: "gathering sc v st0 st T"
    and f: "\<And>c cs. collecting v c cs \<Longrightarrow> unat (sc_bound sc) \<le> vec_len (ids_gen cs) \<Longrightarrow>
      \<exists>c' cs'. f c cs = Some (c', cs') \<and> collecting v c' cs' \<and> IdSet_set cs' = IdSet_set cs \<union> S \<and> vec_len (ids_gen cs') = vec_len (ids_gen cs)"
  shows "\<exists>st'. bsplice f st = Some st' \<and> gathering sc v st0 st' (T \<union> S)"
proof -
  obtain c cs where st: "st = st0\<lparr>ss_buckets := c, tc_closure := cs\<rparr>" and c: "collecting v c cs" "IdSet_set cs = T"
    "unat (sc_bound sc) \<le> vec_len (ids_gen cs)"
    using g unfolding gathering_def by blast
  obtain c' cs' where "f c cs = Some (c', cs')" "collecting v c' cs'" "IdSet_set cs' = IdSet_set cs \<union> S"
    "vec_len (ids_gen cs') = vec_len (ids_gen cs)"
    using f [OF c(1,3)] by blast
  then show ?thesis
    using st c unfolding gathering_def bsplice_def
    by (intro exI [of _ "st0\<lparr>ss_buckets := c', tc_closure := cs'\<rparr>"] conjI exI [of _ c'] exI [of _ cs']) simp_all
qed

lemma in_range: "a < sc_bound sc \<Longrightarrow> unat (sc_bound sc) \<le> l \<Longrightarrow> unat a < l"
  by (simp add: word_less_nat_alt)

lemma gather_one:
  assumes "gathering sc v st0 st T" and "a < sc_bound sc"
  shows "\<exists>st'. bsplice (\<lambda>c cs. BucketCache_spliceOne c cs a) st = Some st' \<and> gathering sc v st0 st' (T \<union> {a})"
  using BucketCache_spliceOne_spec in_range [OF assms(2)] by (intro bsplice_gathering [OF assms(1)]) fastforce

lemma gather_nonzero:
  assumes "gathering sc v st0 st T" and "\<And>a. a \<in> nonzero main \<Longrightarrow> a < sc_bound sc"
  shows "\<exists>st'. bsplice_nonzero main st = Some st' \<and> gathering sc v st0 st' (T \<union> nonzero main)"
  using gather_one [OF assms(1), of main] assms by (simp add: bsplice_nonzero_def nonzero_def split: if_splits)

lemma gather_buckets:
  assumes "gathering sc v st0 st T" and "\<forall>b \<in> set bs. bucket_ok b" and "\<And>a. a \<in> set (concat bs) \<Longrightarrow> a < sc_bound sc"
  shows "\<exists>st'. bsplice (\<lambda>c cs. spliceBuckets c cs bs) st = Some st' \<and> gathering sc v st0 st' (T \<union> set (concat bs))"
proof (rule bsplice_gathering [OF assms(1)])
  fix c cs assume c: "collecting v c cs" "unat (sc_bound sc) \<le> vec_len (ids_gen cs)"
  have "unat a < vec_len (ids_gen cs)" if "a \<in> set (concat bs)" for a using in_range [OF assms(3) [OF that] c(2)] .
  then show "\<exists>c' cs'. spliceBuckets c cs bs = Some (c', cs') \<and> collecting v c' cs'
      \<and> IdSet_set cs' = IdSet_set cs \<union> set (concat bs) \<and> vec_len (ids_gen cs') = vec_len (ids_gen cs)"
    using spliceBuckets_spec [OF c(1) assms(2)] by blast
qed

lemma full_unfold:
  assumes ok: "scan_ok sc U" and v: "v \<in> U"
  shows "full sc v = insert v (outputs sc v) \<union> (\<Union>ch \<in> set (children sc v) - {v}. full sc ch \<union> opaque sc ch)" (is "_ = ?F")
    and "diagnosed sc v \<longleftrightarrow> ch_Diagnostics (sc_files sc v) \<or> (\<exists>ch \<in> set (children sc v) - {v}. diagnosed sc ch)"
proof -
  have R: "reach sc v = insert v (\<Union>ch \<in> set (children sc v) - {v}. reach sc ch)"
  proof
    show "reach sc v \<subseteq> insert v (\<Union>ch \<in> set (children sc v) - {v}. reach sc ch)"
    proof (rule reach_closed)
      fix u assume "u \<in> insert v (\<Union>ch \<in> set (children sc v) - {v}. reach sc ch)"
      then consider "u = v" | ch where "ch \<in> set (children sc v) - {v}" "u \<in> reach sc ch" by blast
      then show "set (children sc u) \<subseteq> insert v (\<Union>ch \<in> set (children sc v) - {v}. reach sc ch)"
      proof cases
        case 2
        then show ?thesis using reach_step [OF 2(2)] by blast
      qed auto
    qed simp
    show "insert v (\<Union>ch \<in> set (children sc v) - {v}. reach sc ch) \<subseteq> reach sc v"
      using reach_trans [OF reach_child] by blast
  qed
  have "full sc ch \<union> opaque sc ch \<subseteq> full sc v" if ch: "ch \<in> set (children sc v) - {v}" for ch
  proof -
    have r: "ch \<in> reach sc v - {v}" using ch reach_child by blast
    have "opaque sc ch \<subseteq> full sc v" unfolding full_def by (rule le_supI2, rule UN_upper) (rule r)
    then show ?thesis using full_mono(1) [OF ok v, of ch] r by blast
  qed
  moreover have "full sc v \<subseteq> ?F"
  proof
    fix x assume "x \<in> full sc v"
    then consider u where "u \<in> reach sc v" "x \<in> insert u (outputs sc u)" | u where "u \<in> reach sc v" "u \<noteq> v" "x \<in> opaque sc u"
      by (auto simp: full_def)
    then show "x \<in> ?F"
    proof cases
      case 1
      then show ?thesis
      proof (cases "u = v")
        case False
        then obtain ch where ch: "ch \<in> set (children sc v) - {v}" "u \<in> reach sc ch" using 1(1) R by auto
        then have "x \<in> full sc ch" using 1(2) unfolding full_def by blast
        then show ?thesis using ch by blast
      qed auto
    next
      case 2
      then obtain ch where ch: "ch \<in> set (children sc v) - {v}" "u \<in> reach sc ch" using R by auto
      then have "x \<in> full sc ch \<union> opaque sc ch" using 2(3) by (cases "u = ch") (auto simp: full_def)
      then show ?thesis using ch by blast
    qed
  qed
  moreover have "insert v (outputs sc v) \<subseteq> full sc v" unfolding full_def by blast
  ultimately show "full sc v = ?F" by blast
  show "diagnosed sc v \<longleftrightarrow> ch_Diagnostics (sc_files sc v) \<or> (\<exists>ch \<in> set (children sc v) - {v}. diagnosed sc ch)"
    unfolding diagnosed_def R by blast
qed

lemma dfs_child_gathering:
  assumes ok: "scan_ok sc U" and st0: "state_ok sc U st0" and g: "gathering sc v st0 st T"
    and ch: "ch \<in> U" "ch \<noteq> v \<Longrightarrow> ch \<in> cached st0"
  shows "\<exists>st'. dfs_child sc v ch (st, d, False) = Some (st', snd (take_in sc {v} ch (T, d)), False)
    \<and> gathering sc v st0 st' (fst (take_in sc {v} ch (T, d)))"
proof -
  have cl0: "ss_closures st = ss_closures st0" and inv: "IdSet_inv (tc_closure st)" and T: "IdSet_set (tc_closure st) = T"
    using g collectingD(3) unfolding gathering_def by auto
  have has: "IdSet_has (tc_closure st) ch \<longleftrightarrow> ch \<in> T"
    using IdSet_has_iff [of "tc_closure st" ch] inv T by (simp add: IdSet_inv_def)
  show ?thesis
  proof (cases "ch = v \<or> ch \<in> T")
    case True
    then show ?thesis using g has by (auto simp: dfs_child_def take_in_simp)
  next
    case False
    then obtain cl where cl: "ss_closures st0 ch = Some cl" "closure_ok sc ch cl"
      using ch state_okD(1) [OF st0 ch(1)] by (auto simp: cached_def)
    have files: "insert (cl_self cl) (set (concat (cl_buckets cl))) = full sc ch" and bo: "\<forall>b \<in> set (cl_buckets cl). bucket_ok b"
      and d: "cl_hasDiagnostics cl = diagnosed sc ch" "\<not> cl_incomplete cl"
      using cl(2) by (auto simp: closure_ok_def cl_files_def cl_ok_def)
    have lt: "a < sc_bound sc" if "a \<in> full sc ch" for a using full_in_range(3) [OF ok ch(1) that] .
    obtain st1 where 1: "bsplice (\<lambda>c cs. BucketCache_spliceOne c cs (cl_self cl)) st = Some st1" "gathering sc v st0 st1 (T \<union> {cl_self cl})"
      using gather_one [OF g lt] files by blast
    obtain st2 where 2: "bsplice (\<lambda>c cs. spliceBuckets c cs (cl_buckets cl)) st1 = Some st2"
      "gathering sc v st0 st2 (T \<union> {cl_self cl} \<union> set (concat (cl_buckets cl)))"
      using gather_buckets [OF 1(2) bo lt] files by blast
    have "a < sc_bound sc" if "a \<in> opaque sc ch" for a using scan_okD(5) [OF ok ch(1)] that by blast
    then obtain st3 where 3: "bsplice_nonzero (opaqueMainOut sc ch) st2 = Some st3"
      "gathering sc v st0 st3 (T \<union> {cl_self cl} \<union> set (concat (cl_buckets cl)) \<union> opaque sc ch)"
      using gather_nonzero [OF 2(2), of "opaqueMainOut sc ch"] unfolding opaque_def by blast
    have "T \<union> {cl_self cl} \<union> set (concat (cl_buckets cl)) \<union> opaque sc ch = T \<union> full sc ch \<union> opaque sc ch"
      using files by blast
    then show ?thesis
      using False has cl0 cl(1) d 1(1) 2(1) 3 by (auto simp: dfs_child_def take_in_simp Let_def)
  qed
qed


lemma each_dfs_child:
  assumes "\<And>ch st T d. ch \<in> set chs \<Longrightarrow> gathering sc v st0 st T \<Longrightarrow>
      \<exists>st'. dfs_child sc v ch (st, d, False) = Some (st', snd (take_in sc {v} ch (T, d)), False)
        \<and> gathering sc v st0 st' (fst (take_in sc {v} ch (T, d)))"
    and "gathering sc v st0 st T"
  shows "\<exists>st'. each (dfs_child sc v) chs (st, d, False) = Some (st', snd (fold (take_in sc {v}) chs (T, d)), False)
    \<and> gathering sc v st0 st' (fst (fold (take_in sc {v}) chs (T, d)))"
  using assms
proof (induction chs arbitrary: st T d)
  case (Cons ch chs)
  obtain T1 d1 where t: "take_in sc {v} ch (T, d) = (T1, d1)" by force
  obtain st1 where "dfs_child sc v ch (st, d, False) = Some (st1, d1, False)" "gathering sc v st0 st1 T1"
    using Cons.prems(1) [of ch st T d] Cons.prems(2) t by auto
  then show ?case using Cons.IH [of st1 T1 d1] Cons.prems(1) t by auto
qed simp

lemma dfs_collect_spec:
  assumes ok: "scan_ok sc U" and st: "state_ok sc U st" and v: "v \<in> U" and ch: "set (children sc v) - {v} \<subseteq> cached st"
  shows "\<exists>st'. dfs_collect sc v st = Some st' \<and> state_ok sc U st' \<and> cached st' = insert v (cached st)
    \<and> ss_dfsActive st' = ss_dfsActive st"
proof -
  note R = IdSet_reset_spec [OF state_okD(3) [OF st] scan_okD(4) [OF ok]]
  have lt: "v < sc_bound sc" using scan_okD(5) [OF ok v] by blast
  then have v32: "unat v + 1 < 2 ^ 32" using scan_okD(4) [OF ok] by (simp add: word_less_nat_alt)
  let ?cs = "IdSet_add (IdSet_reset (tc_closure st) (sc_bound sc)) v"
  note A = IdSet_add_spec [OF R(1) v32]
  have len: "unat (sc_bound sc) \<le> vec_len (ids_gen ?cs)"
    using R(3) in_range [OF lt R(3)] by (simp add: IdSet_add_def Vec_ensureLen_def)
  let ?st = "st\<lparr>tc_closure := ?cs, ss_buckets := resetScratch (ss_buckets st) v\<rparr>"
  have "collecting v (resetScratch (ss_buckets st) v) ?cs"
    using A R(2) by (intro collecting_start state_okD(5,6) [OF st]) auto
  moreover have "?st = st\<lparr>ss_buckets := resetScratch (ss_buckets st) v, tc_closure := ?cs\<rparr>" by simp
  ultimately have g0: "gathering sc v st ?st {v}"
    unfolding gathering_def using A(2) R(2) len by blast
  have "\<exists>st1. each (\<lambda>input. bsplice (\<lambda>c cs. BucketCache_spliceOne c cs input)) (sc_textTemplates sc v) ?st = Some st1
      \<and> (case fold (\<lambda>x (T, d). (T \<union> {x}, d \<or> False)) (sc_textTemplates sc v) ({v}, False) of (T', d') \<Rightarrow> gathering sc v st st1 T')"
  proof (rule each_invariant [where I = "\<lambda>st1 T d. gathering sc v st st1 T"])
    fix x st1 T d assume x: "x \<in> set (sc_textTemplates sc v)" and g: "gathering sc v st st1 T"
    have "x < sc_bound sc" using scan_okD(5) [OF ok v, of x] x by (simp add: outputs_def)
    then show "\<exists>st'. bsplice (\<lambda>c cs. BucketCache_spliceOne c cs x) st1 = Some st'
        \<and> (case (case (T, d) of (T, d) \<Rightarrow> (T \<union> {x}, d \<or> False)) of (T', d') \<Rightarrow> gathering sc v st st' T')"
      using gather_one [OF g] by simp
  qed (rule g0)
  then obtain st1 where 1: "each (\<lambda>input. bsplice (\<lambda>c cs. BucketCache_spliceOne c cs input)) (sc_textTemplates sc v) ?st = Some st1"
    "gathering sc v st st1 (insert v (set (sc_textTemplates sc v)))"
    unfolding fold_union by auto
  let ?T = "insert v (set (sc_textTemplates sc v))" and ?d = "ch_Diagnostics (sc_files sc v)"
  have chU: "x \<in> U" "x \<noteq> v \<Longrightarrow> x \<in> cached st" if "x \<in> set (children sc v)" for x
    using that ch scan_okD(2) [OF ok v] by blast+
  obtain st2 where 2: "each (dfs_child sc v) (children sc v) (st1, ?d, False)
      = Some (st2, snd (fold (take_in sc {v}) (children sc v) (?T, ?d)), False)"
    "gathering sc v st st2 (fst (fold (take_in sc {v}) (children sc v) (?T, ?d)))"
    using each_dfs_child [OF dfs_child_gathering [OF ok st _ chU] 1(2)] by blast
  have "fold (take_in sc {v}) (children sc v) (?T, ?d) = (?T \<union> (\<Union>x \<in> set (children sc v) - {v}. full sc x \<union> opaque sc x),
      ?d \<or> (\<exists>x \<in> set (children sc v) - {v}. diagnosed sc x))"
  proof (rule fold_take_in [OF ok])
    show "\<exists>p \<in> U. x \<in> set (children sc p)" if "x \<in> set (children sc v)" for x using that v by blast
    show "x \<in> {v} \<or> x \<in> output_of sc U \<or> (full sc x \<union> opaque sc x \<subseteq> ?T \<and> (diagnosed sc x \<longrightarrow> ?d))" if "x \<in> ?T" for x
      using that v unfolding output_of_def outputs_def by blast
  qed
  then have two: "each (dfs_child sc v) (children sc v) (st1, ?d, False) = Some (st2, diagnosed sc v, False)"
    "gathering sc v st st2 (?T \<union> (\<Union>x \<in> set (children sc v) - {v}. full sc x \<union> opaque sc x))"
    using 2 full_unfold(2) [OF ok v] by simp_all
  have "a < sc_bound sc" if "a \<in> nonzero (mainOut sc v)" for a using scan_okD(5) [OF ok v] that unfolding outputs_def by blast
  then obtain st3 where 3: "bsplice_nonzero (mainOut sc v) st2 = Some st3"
    "gathering sc v st st3 (?T \<union> (\<Union>x \<in> set (children sc v) - {v}. full sc x \<union> opaque sc x) \<union> nonzero (mainOut sc v))"
    using gather_nonzero [OF two(2)] by blast
  have "?T \<union> (\<Union>x \<in> set (children sc v) - {v}. full sc x \<union> opaque sc x) \<union> nonzero (mainOut sc v) = full sc v"
    unfolding full_unfold(1) [OF ok v] outputs_def by blast
  then obtain c cs where st3: "st3 = st\<lparr>ss_buckets := c, tc_closure := cs\<rparr>" and c: "collecting v c cs" "IdSet_set cs = full sc v"
    using 3(2) unfolding gathering_def by auto
  note S = storeScratch_spec [OF c(1)]
  let ?cl = "(storeScratch c v)\<lparr>cl_hasDiagnostics := diagnosed sc v, cl_incomplete := False\<rparr>"
  have clok: "closure_ok sc v ?cl" using S c(2) by (simp add: closure_ok_def cl_files_def cl_ok_def)
  let ?st' = "st3\<lparr>ss_closures := (ss_closures st3)(v \<mapsto> ?cl)\<rparr>"
  have "dfs_collect sc v st = Some ?st'"
    using 1(1) two(1) 3(1) scan_okD(3) [OF ok v] by (simp add: dfs_collect_def Let_def st3)
  moreover have cc: "cached ?st' = insert v (cached st)" by (auto simp: cached_def st3)
  moreover have "state_ok sc U ?st'"
  proof -
    have "set (children sc u) \<subseteq> insert v (cached st)" if "u \<in> U" "u \<in> insert v (cached st)" for u
      using that ch state_okD(2) [OF st, of u] by blast
    moreover have "gens_ok (ids_gen cs) (ids_epoch cs)" using collectingD(3) [OF c(1)] by (simp add: IdSet_inv_def)
    ultimately show ?thesis
      unfolding state_ok_def cc using clok state_okD [OF st] collectingD(2,7) [OF c(1)]
      by (simp add: st3)
  qed
  moreover have "ss_dfsActive ?st' = ss_dfsActive st" by (simp add: st3)
  ultimately show ?thesis by blast
qed


section \<open>The walk\<close>

text \<open>\<open>A\<close> are the files being walked.\<close>

definition walk_ok :: "ScanCtx \<Rightarrow> VFS set \<Rightarrow> VFS set \<Rightarrow> 'a ScanState_scheme \<Rightarrow> bool" where
  "walk_ok sc U A st \<longleftrightarrow> state_ok sc U st \<and> BitSet_inv (ss_dfsActive st) \<and> (\<forall>u. BitSet_has (ss_dfsActive st) u \<longleftrightarrow> u \<in> A)"

definition walked :: "ScanCtx \<Rightarrow> VFS set \<Rightarrow> VFS set \<Rightarrow> VFS set \<Rightarrow> 'a ScanState_scheme \<Rightarrow> 'a ScanState_scheme \<Rightarrow> bool" where
  "walked sc U A V st st' \<longleftrightarrow> walk_ok sc U A st' \<and> cached st \<union> V \<subseteq> cached st'"

lemma each_walked:
  assumes "\<And>ch st. ch \<in> set chs \<Longrightarrow> walk_ok sc U A st \<Longrightarrow> \<exists>st'. f ch st = Some st' \<and> walked sc U A ({ch} - X) st st'"
    and "walk_ok sc U A st"
  shows "\<exists>st'. each f chs st = Some st' \<and> walked sc U A (set chs - X) st st'"
  using assms
proof (induction chs arbitrary: st)
  case (Cons ch chs)
  obtain st1 where 1: "f ch st = Some st1" "walked sc U A ({ch} - X) st st1" using Cons.prems by fastforce
  obtain st2 where 2: "each f chs st1 = Some st2" "walked sc U A (set chs - X) st1 st2"
    using Cons.IH [of st1] Cons.prems(1) 1(2) by (auto simp: walked_def)
  then show ?case using 1 by (auto simp: walked_def)
qed (simp add: walked_def)

lemma dfs_spec:
  assumes ok: "scan_ok sc U" and m: "card U \<le> m"
  shows "walk_ok sc U A st \<Longrightarrow> v \<in> U \<Longrightarrow> v \<notin> cached st \<Longrightarrow> card (U - A) < n \<Longrightarrow>
    \<exists>st'. dfs m n sc v st = Some st' \<and> walked sc U A {v} st st'"
proof (induction n arbitrary: A v st)
  case (Suc n)
  have st: "state_ok sc U st" and bi: "BitSet_inv (ss_dfsActive st)" and bh: "\<And>u. BitSet_has (ss_dfsActive st) u \<longleftrightarrow> u \<in> A"
    using Suc.prems(1) unfolding walk_ok_def by blast+
  show ?case
  proof (cases "v \<in> A")
    case True
    then show ?thesis
      using runSCC_spec [OF ok st Suc.prems(2,3) m] bi bh unfolding walked_def walk_ok_def by auto
  next
    case False
    let ?st = "st\<lparr>ss_dfsActive := BitSet_add (ss_dfsActive st) v\<rparr>" and ?A = "insert v A"
    have "card (U - ?A) < card (U - A)"
      using False Suc.prems(2) scan_okD(1) [OF ok] by (intro psubset_card_mono) auto
    then have fuel: "card (U - ?A) < n" using Suc.prems(4) by simp
    have w0: "walk_ok sc U ?A ?st"
      using st BitSet_add_inv [OF bi] BitSet_add_has [OF bi] bh unfolding walk_ok_def state_ok_def by (simp add: cached_def)
    have "\<exists>st'. (if ch = v then Some s else ensure_with (dfs m n sc) sc ch s) = Some st' \<and> walked sc U ?A ({ch} - {v}) s st'"
      if ch: "ch \<in> set (children sc v)" and w: "walk_ok sc U ?A s" for ch and s :: "'a ScanState_scheme"
    proof -
      have chU: "ch \<in> U" using scan_okD(2) [OF ok Suc.prems(2)] ch by blast
      have "snd (cachedWindow sc s ch) \<longleftrightarrow> ch \<in> cached s" using cachedWindow_U(1) [OF _ chU] w unfolding walk_ok_def by blast
      then show ?thesis
        using Suc.IH [OF w chU _ fuel] w by (auto simp: ensure_with_def walked_def)
    qed
    then obtain st1 where 1: "each (\<lambda>ch st. if ch = v then Some st else ensure_with (dfs m n sc) sc ch st) (children sc v) ?st = Some st1"
      "walked sc U ?A (set (children sc v) - {v}) ?st st1"
      using each_walked [OF _ w0, of "children sc v" "\<lambda>ch st. if ch = v then Some st else ensure_with (dfs m n sc) sc ch st" "{v}"] by blast
    have w1: "walk_ok sc U ?A st1" and c1: "cached st \<subseteq> cached st1" "set (children sc v) - {v} \<subseteq> cached st1"
      using 1(2) unfolding walked_def by (auto simp: cached_def)
    obtain st2 where 2: "dfs_collect sc v st1 = Some st2" "state_ok sc U st2" "cached st2 = insert v (cached st1)"
      "ss_dfsActive st2 = ss_dfsActive st1"
      using dfs_collect_spec [OF ok _ Suc.prems(2) c1(2)] w1 unfolding walk_ok_def by blast
    let ?st3 = "st2\<lparr>ss_dfsActive := BitSet_remove (ss_dfsActive st2) v\<rparr>"
    have "dfs m (Suc n) sc v st = Some ?st3" using False bh 1(1) 2(1) by simp
    moreover have "walk_ok sc U A ?st3"
    proof -
      have b1: "BitSet_inv (ss_dfsActive st1)" "\<And>u. BitSet_has (ss_dfsActive st1) u \<longleftrightarrow> u \<in> ?A"
        using w1 unfolding walk_ok_def by blast+
      then show ?thesis
        using 2(2,4) BitSet_remove_inv [OF b1(1)] BitSet_remove_has [OF b1(1)] False
        unfolding walk_ok_def state_ok_def by (auto simp: cached_def)
    qed
    moreover have "cached st \<union> {v} \<subseteq> cached ?st3" using 2(3) c1(1) by (auto simp: cached_def)
    ultimately show ?thesis unfolding walked_def by blast
  qed
qed simp

lemma closureOf_spec:
  assumes ok: "scan_ok sc U" and w: "walk_ok sc U {} st" and v: "v \<in> U" and fuel: "card U \<le> m" "card U < n"
  shows "\<exists>cl st'. closureOf m n sc v st = Some (cl, st') \<and> closure_ok sc v cl \<and> walk_ok sc U {} st' \<and> v \<in> cached st'"
proof -
  have st: "state_ok sc U st" using w unfolding walk_ok_def by blast
  show ?thesis
  proof (cases "ss_closures st v")
    case (Some cl)
    then have "closureOf m n sc v st = Some (cl, st)" using cachedWindow_U(2) [OF st v Some] by (simp add: closureOf_def)
    then show ?thesis using Some state_okD(1) [OF st v Some] w by (auto simp: cached_def)
  next
    case None
    then have nc: "v \<notin> cached st" by (simp add: cached_def)
    obtain st' where 1: "dfs m n sc v st = Some st'" "walked sc U {} {v} st st'"
      using dfs_spec [OF ok fuel(1) w v nc] fuel(2) by auto
    then obtain cl where cl: "ss_closures st' v = Some cl" "closure_ok sc v cl"
      using state_okD(1) v unfolding walked_def walk_ok_def by (fastforce simp: cached_def)
    have "cachedWindow sc st v = (zero_closure, False)" using None by (simp add: cachedWindow_def)
    then have "closureOf m n sc v st = Some (cl, st')" using 1(1) cl(1) by (simp add: closureOf_def)
    then show ?thesis using cl(2) 1(2) unfolding walked_def by blast
  qed
qed


section \<open>Properties\<close>

lemma Closure_each_files:
  assumes "closure_ok sc v cl" and "0 \<notin> full sc v"
  shows "set (Closure_each cl) = full sc v" "distinct (Closure_each cl)"
proof -
  have f: "insert (cl_self cl) (set (concat (cl_buckets cl))) = full sc v" and d: "distinct (cl_self cl # concat (cl_buckets cl))"
    using assms(1) by (auto simp: closure_ok_def cl_files_def cl_ok_def)
  then have "cl_self cl \<noteq> 0" using assms(2) by auto
  then show "set (Closure_each cl) = full sc v" "distinct (Closure_each cl)"
    using f d by (simp_all add: Closure_each_def)
qed

lemma newScanState_ok: "walk_ok sc U {} newScanState"
  using IdSet_new_ok BitSet_empty_inv BitSet_empty_has
  by (simp add: walk_ok_def state_ok_def newScanState_def newBucketCache_def cached_def epochs_ok_def)

text \<open>Files asked for one after the other, by one scanner.\<close>

fun closuresOf :: "nat \<Rightarrow> nat \<Rightarrow> ScanCtx \<Rightarrow> VFS list \<Rightarrow> 'a ScanState_scheme \<Rightarrow> (Closure list \<times> 'a ScanState_scheme) option" where
  "closuresOf m n sc [] st = Some ([], st)"
| "closuresOf m n sc (v # vs) st =
     do { (cl, st) \<leftarrow> closureOf m n sc v st; (cls, st) \<leftarrow> closuresOf m n sc vs st; Some (cl # cls, st) }"

lemma closuresOf_spec:
  assumes "scan_ok sc U" and "card U \<le> m" "card U < n" and "walk_ok sc U {} st" and "set vs \<subseteq> U"
  shows "\<exists>cls st'. closuresOf m n sc vs st = Some (cls, st') \<and> list_all2 (closure_ok sc) vs cls \<and> walk_ok sc U {} st'"
  using assms(4,5)
proof (induction vs arbitrary: st)
  case (Cons v vs)
  have "v \<in> U" using Cons.prems(2) by simp
  then obtain cl st1 where 1: "closureOf m n sc v st = Some (cl, st1)" "closure_ok sc v cl" "walk_ok sc U {} st1"
    using closureOf_spec [OF assms(1) Cons.prems(1) _ assms(2,3)] by blast
  then show ?case using Cons.IH [OF 1(3)] Cons.prems(2) by auto
qed simp

text \<open>
  C1: The closures a scanner returns are right. Files are asked for one after the other; each gets the
  files it reaches over includes, with the main outputs of the generated files among them, the inputs
  of text templates, and the main outputs of included generated files that are not scanned; each once.
  The walk returns whatever the cycles of the include graph are: a file of a cycle is handed to the
  search for strongly connected components, and what one query has found serves the next. The closure
  is complete, and it is marked as having diagnostics exactly when a file it reaches has some.
\<close>

theorem closureOf_correct:
  assumes "scan_ok sc U" and "set vs \<subseteq> U" and "card U \<le> m" and "card U < n"
  shows "\<exists>cls st. closuresOf m n sc vs newScanState = Some (cls, st)
    \<and> list_all2 (\<lambda>v cl. set (Closure_each cl) = full sc v \<and> distinct (Closure_each cl) \<and> \<not> cl_incomplete cl
        \<and> (cl_hasDiagnostics cl \<longleftrightarrow> diagnosed sc v)) vs cls"
proof -
  obtain cls st where 1: "closuresOf m n sc vs newScanState = Some (cls, st)" "list_all2 (closure_ok sc) vs cls"
    using closuresOf_spec [OF assms(1,3,4) newScanState_ok assms(2)] by blast
  have "set (Closure_each cl) = full sc v \<and> distinct (Closure_each cl) \<and> \<not> cl_incomplete cl
      \<and> (cl_hasDiagnostics cl \<longleftrightarrow> diagnosed sc v)" if "v \<in> set vs" "closure_ok sc v cl" for v cl
    using Closure_each_files [OF that(2)] full_in_range(4) [OF assms(1)] that assms(2) by (auto simp: closure_ok_def)
  then show ?thesis using 1 by (blast intro: list.rel_mono_strong)
qed

text \<open>Two files that include each other; one of them is generated beside a main output.\<close>

definition cycle_ctx :: ScanCtx where
  "cycle_ctx = \<lparr>sc_files = (\<lambda>v. \<lparr>ch_Deferred = False, ch_Paths = (if v = 2 then [3, 4] else if v = 3 then [2] else []), ch_Diagnostics = False\<rparr>),
     sc_ProducerMainOut = [3 \<mapsto> 7], sc_scansIncludes = (\<lambda>_. True), sc_textTemplates = (\<lambda>_. []),
     sc_noResolve = False, sc_initialOnly = False, sc_readOnly = False, sc_bound = 16\<rparr>"

lemma cycle_ctx_simps [simp]:
  "ch_Paths (sc_files cycle_ctx v) = (if v = 2 then [3, 4] else if v = 3 then [2] else [])"
  "ch_Deferred (sc_files cycle_ctx v) = False" "ch_Diagnostics (sc_files cycle_ctx v) = False" "sc_bound cycle_ctx = 16"
  "outputs cycle_ctx v = (if v = 3 then {7} else {})" "opaque cycle_ctx v = {}"
  by (simp_all add: cycle_ctx_def outputs_def opaque_def nonzero_def mainOut_def opaqueMainOut_def isBuild_def)

lemma cycle_ctx_reach: "reach cycle_ctx v \<subseteq> {v, 2, 3, 4}"
  by (rule reach_closed) auto

lemma cycle_ctx_ok: "scan_ok cycle_ctx {2, 3, 4}"
proof -
  have "card (full cycle_ctx u) \<le> 2 ^ 13" if "u \<in> {2, 3, 4}" for u
  proof -
    have "full cycle_ctx u \<subseteq> {2, 3, 4, 7}"
      using cycle_ctx_reach [of u] that by (auto simp: full_def split: if_splits)
    then have "card (full cycle_ctx u) \<le> card {2, 3, 4, 7 :: VFS}" by (intro card_mono) auto
    then show ?thesis by simp
  qed
  then show ?thesis by (auto simp: scan_ok_def)
qed

theorem closureOf_correct_witness:
  "\<exists>cls st. closuresOf 3 4 cycle_ctx [3, 2] newScanState = Some (cls, st)
    \<and> map (set \<circ> Closure_each) cls = [{2, 3, 4, 7}, {2, 3, 4, 7}]"
proof -
  have "2 \<in> reach cycle_ctx 3" "3 \<in> reach cycle_ctx 2" "4 \<in> reach cycle_ctx 2" by (auto intro!: reach_child)
  then have "{2, 3, 4} \<subseteq> reach cycle_ctx 2" "{2, 3, 4} \<subseteq> reach cycle_ctx 3"
    using reach_trans [of 2 cycle_ctx 3 4] by simp_all
  then have "reach cycle_ctx 2 = {2, 3, 4}" "reach cycle_ctx 3 = {2, 3, 4}"
    using cycle_ctx_reach [of 2] cycle_ctx_reach [of 3] by auto
  then have "full cycle_ctx 2 = {2, 3, 4, 7}" "full cycle_ctx 3 = {2, 3, 4, 7}"
    by (auto simp: full_def)
  then show ?thesis
    using closureOf_correct [OF cycle_ctx_ok, of "[3, 2]" 3 4] by (auto simp: list_all2_Cons1)
qed


text \<open>
  C6: The search for strongly connected components gives every file below the root its closure. It
  returns (the recursion is never deeper than there are files), each file reached from the root then
  has a closure that holds what it must, and two files of one component have the same closure, object
  and order included. Unlike in the textbook the code never asks whether a visited file is still on
  the stack: one that is not has its closure and is passed over before.
\<close>

theorem runSCC_correct:
  assumes "scan_ok sc U" and "root \<in> U" and "card U \<le> n"
  shows "\<exists>st. runSCC n sc root newScanState = Some st
    \<and> (\<forall>v \<in> reach sc root. \<exists>cl. ss_closures st v = Some cl \<and> set (Closure_each cl) = full sc v)"
proof -
  have s0: "state_ok sc U newScanState" using newScanState_ok unfolding walk_ok_def by blast
  have "root \<notin> cached newScanState" by (simp add: cached_def newScanState_def)
  then obtain st where st: "runSCC n sc root newScanState = Some st" "state_ok sc U st" "root \<in> cached st"
    using runSCC_spec [OF assms(1) s0 assms(2) _ assms(3)] by blast
  have "\<exists>cl. ss_closures st v = Some cl \<and> set (Closure_each cl) = full sc v" if "v \<in> reach sc root" for v
  proof -
    have v: "v \<in> U" "v \<in> cached st" using cached_reach [OF assms(1) st(2) assms(2) st(3)] that by blast+
    then obtain cl where "ss_closures st v = Some cl" by (auto simp: cached_def)
    then show ?thesis using Closure_each_files(1) [OF state_okD(1) [OF st(2) v(1)] full_in_range(4) [OF assms(1) v(1)]] by blast
  qed
  then show ?thesis using st(1) by blast
qed

theorem runSCC_correct_witness:
  "\<exists>st cl. runSCC 3 cycle_ctx 2 newScanState = Some st \<and> ss_closures st 4 = Some cl \<and> set (Closure_each cl) = {4}"
proof -
  have "4 \<in> reach cycle_ctx 2" by (auto intro!: reach_child)
  moreover have "reach cycle_ctx 4 = {4}" by (subst reach_unfold) simp
  then have "full cycle_ctx 4 = {4}" by (simp add: full_def)
  ultimately show ?thesis
    using runSCC_correct [OF cycle_ctx_ok, of 2 3] by auto
qed

definition output_ctx :: ScanCtx where
  "output_ctx = \<lparr>sc_files = (\<lambda>v. \<lparr>ch_Deferred = False,
       ch_Paths = (if v = 2 then [4] else if v = 4 then [2, 3] else if v = 3 then [5] else if v = 5 then [8] else []), ch_Diagnostics = False\<rparr>),
     sc_ProducerMainOut = [3 \<mapsto> 5], sc_scansIncludes = (\<lambda>_. True), sc_textTemplates = (\<lambda>_. []),
     sc_noResolve = False, sc_initialOnly = False, sc_readOnly = False, sc_bound = 16\<rparr>"

definition small_state :: ScanState where
  "small_state = newScanState\<lparr>ss_closureScratch := replicate 8 0\<rparr>"


end
