(* ===== verification/Ay_Intern.thy ===== *)
theory Ay_Intern
  imports Ay_IntMap Ay_Page Ay_Bump Ay_Bits Ay_Path
begin

text \<open>
  The table of interned strings (\<^verbatim>\<open>str_intern.go\<close>): every string the program works with has one
  number, a \<^verbatim>\<open>STR\<close>, and all other tables are keyed by it.

  The text of a string lies in the arena \<open>it_bytes\<close>; \<open>it_flatStr\<close> holds the slice of the arena for each
  number, and \<open>it_cells\<close>, the paged vector other threads read, holds it again. The hash function of the
  package \<^verbatim>\<open>xxh3\<close> is the parameter \<open>hash\<close>, which returns the high and the low half of 128 bits. A
  string whose high half is taken by a string with another low half goes to the map \<open>it_overflow\<close>.

  The slice \<^verbatim>\<open>cellPage\<close> of the code shares its cells with the last allocated page, so the model keeps
  the number of that page. The arena is not strict, so \<^verbatim>\<open>ownershipOn\<close> does not matter. The model is
  the program without the build tag for fault injection: \<^verbatim>\<open>chaosInternHash\<close> is the identity and
  \<^verbatim>\<open>chaosInternShuffle\<close> is false.
\<close>

section \<open>The table\<close>

record InternCell =
  ic_str :: Slice
  ic_lo :: u64

definition zeroCell :: InternCell where
  "zeroCell = \<lparr>ic_str = nil_slice, ic_lo = 0\<rparr>"

record InternTable =
  it_ids :: "u32 IntMap"
  it_overflow :: "string \<rightharpoonup> u32"
  it_flatStr :: "Slice list"
  it_flatLo :: "u64 Vec"
  it_cells :: "InternCell PageVec"
  it_cellPage :: "nat option"
  it_cellBase :: u32
  it_cellIdx :: nat
  it_count :: u32
  it_bytes :: "char BumpAllocator"
  it_cleanSeen :: BitSet
  it_cleanYes :: BitSet

type_synonym hash128 = "string \<Rightarrow> u64 \<times> u64"

definition internTable :: "InternTable option" where
  "internTable = map_option (\<lambda>ids.
     \<lparr>it_ids = ids, it_overflow = Map.empty, it_flatStr = [nil_slice],
      it_flatLo = \<lparr>vec_arr = replicate bumpChunkInitial 0, vec_len = 1\<rparr>,
      it_cells = PageVec_zero, it_cellPage = None, it_cellBase = 0, it_cellIdx = 0, it_count = 1,
      it_bytes = newBumpAllocator, it_cleanSeen = BitSet_empty, it_cleanYes = BitSet_empty\<rparr>)
     (newIntMap 0 (2 ^ 19))"

definition slice_text :: "InternTable \<Rightarrow> Slice \<Rightarrow> string" where
  "slice_text t s = slice_read (ba_mem (it_bytes t)) s"

definition internString :: "InternTable \<Rightarrow> u32 \<Rightarrow> string option" where
  "internString t i = map_option (slice_text t) (at_opt (it_flatStr t) (unat i))"

definition internLo :: "InternTable \<Rightarrow> u32 \<Rightarrow> u64 option" where
  "internLo t i = at_opt (vec_s (it_flatLo t)) (unat i)"

definition STR_sharedString :: "InternTable \<Rightarrow> u32 \<Rightarrow> string option" where
  "STR_sharedString t i = map_option (\<lambda>c. slice_text t (ic_str c)) (PageVec_get (it_cells t) i)"

definition internOwnedCopy :: "InternTable \<Rightarrow> string \<Rightarrow> (Slice \<times> InternTable) option" where
  "internOwnedCopy t b =
     (let n = length b
      in if n = 0 then Some (nil_slice, t)
         else case BumpAllocator_alloc False 1 CHR 0x00 (it_bytes t) n of
                None \<Rightarrow> None
              | Some (block, a) \<Rightarrow>
                  (case BumpAllocator_commit (bump_write a block 0 b) n of
                     None \<Rightarrow> None
                   | Some a \<Rightarrow> Some (block\<lparr>sl_len := n, sl_cap := n\<rparr>, t\<lparr>it_bytes := a\<rparr>)))"

definition store_page :: "InternTable \<Rightarrow> nat \<Rightarrow> InternCell list \<Rightarrow> InternTable option" where
  "store_page t p page =
     map_option (\<lambda>ps. t\<lparr>it_cells := \<lparr>pv_pages = ps\<rparr>\<rparr>) (set_opt (pv_pages (it_cells t)) p (Some page))"

definition internAppend :: "InternTable \<Rightarrow> Slice \<Rightarrow> u64 \<Rightarrow> (u32 \<times> InternTable) option" where
  "internAppend t s lo =
     (let i = it_count t;
          cell = \<lparr>ic_str = s, ic_lo = lo\<rparr>;
          t = t\<lparr>it_flatStr := it_flatStr t @ [s], it_flatLo := Vec_pushBack 0 (it_flatLo t) lo\<rparr>
      in case it_cellPage t of
           None \<Rightarrow>
             let zeroPage = [zeroCell];
                 page = [cell, zeroCell];
                 t = t\<lparr>it_cellPage := Some 1, it_cellBase := it_count t, it_cellIdx := 1\<rparr>
             in (case store_page t 0 zeroPage of
                   None \<Rightarrow> None
                 | Some t \<Rightarrow> map_option (\<lambda>t. (i, t\<lparr>it_count := it_count t + 1\<rparr>)) (store_page t 1 page))
         | Some p \<Rightarrow>
             (case pv_pages (it_cells t) ! p of
                None \<Rightarrow> None
              | Some cellPage \<Rightarrow>
                  let off = it_count t - it_cellBase t
                  in if unat off = length cellPage then
                       let page = (replicate (2 * length cellPage) zeroCell)[0 := cell];
                           t = t\<lparr>it_cellBase := it_count t, it_cellIdx := it_cellIdx t + 1,
                                 it_cellPage := Some (it_cellIdx t + 1)\<rparr>
                       in map_option (\<lambda>t. (i, t\<lparr>it_count := it_count t + 1\<rparr>)) (store_page t (it_cellIdx t) page)
                     else
                       (case set_opt cellPage (unat off) cell of
                          None \<Rightarrow> None
                        | Some page \<Rightarrow> map_option (\<lambda>t. (i, t\<lparr>it_count := it_count t + 1\<rparr>)) (store_page t p page))))"

section \<open>Interning\<close>

text \<open>
  The lookup all entry points begin with: the number of the string, or, when it is new, whether its
  high half is taken.
\<close>

datatype find = Found u32 | Collides | Absent

definition intern_find :: "hash128 \<Rightarrow> InternTable \<Rightarrow> string \<Rightarrow> find option" where
  "intern_find hash t s =
     (let h = hash s
      in case IntMap_get (it_ids t) (fst h) of
           None \<Rightarrow> None
         | Some None \<Rightarrow> Some Absent
         | Some (Some p) \<Rightarrow>
             (case internLo t p of
                None \<Rightarrow> None
              | Some lo \<Rightarrow>
                  if lo = snd h then Some (Found p)
                  else (case it_overflow t s of Some oid \<Rightarrow> Some (Found oid) | None \<Rightarrow> Some Collides)))"

text \<open>A new string: its copy is numbered and entered in the map of overflows or under its high half.\<close>

definition intern_new :: "find \<Rightarrow> u64 \<times> u64 \<Rightarrow> InternTable \<Rightarrow> Slice \<Rightarrow> (u32 \<times> InternTable) option" where
  "intern_new f h t copy =
     (case internAppend t copy (snd h) of
        None \<Rightarrow> None
      | Some (i, t) \<Rightarrow>
          if f = Collides then Some (i, t\<lparr>it_overflow := (it_overflow t)(slice_text t copy \<mapsto> i)\<rparr>)
          else map_option (\<lambda>ids. (i, t\<lparr>it_ids := ids\<rparr>)) (IntMap_put 0 (it_ids t) (fst h) i))"

definition internStr :: "hash128 \<Rightarrow> InternTable \<Rightarrow> string \<Rightarrow> (u32 \<times> InternTable) option" where
  "internStr hash t s =
     (case intern_find hash t s of
        None \<Rightarrow> None
      | Some (Found i) \<Rightarrow> Some (i, t)
      | Some f \<Rightarrow>
          (case internOwnedCopy t s of
             None \<Rightarrow> None
           | Some (copy, t) \<Rightarrow> intern_new f (hash s) t copy))"

definition internBytes :: "hash128 \<Rightarrow> InternTable \<Rightarrow> string \<Rightarrow> (u32 \<times> InternTable) option" where
  "internBytes hash t b = internStr hash t b"

definition interned :: "hash128 \<Rightarrow> InternTable \<Rightarrow> string \<Rightarrow> u32 option" where
  "interned hash t s =
     map_option (\<lambda>f. case f of Found i \<Rightarrow> i | Collides \<Rightarrow> 0 | Absent \<Rightarrow> 0) (intern_find hash t s)"

definition internedBytes :: "hash128 \<Rightarrow> InternTable \<Rightarrow> string \<Rightarrow> u32 option" where
  "internedBytes hash t b = interned hash t b"

text \<open>
  Strings put together in the window of the arena: \<^verbatim>\<open>internFill\<close> copies the parts there (the code
  unrolls its loop for one, two and three parts), and the window is committed only when the string
  is new.
\<close>

fun fill_parts :: "char BumpAllocator \<Rightarrow> Slice \<Rightarrow> nat \<Rightarrow> string list \<Rightarrow> char BumpAllocator" where
  "fill_parts a block off [] = a"
| "fill_parts a block off (p # ps) =
     fill_parts (bump_write a block off p) block (off + min (sl_len block - off) (length p)) ps"

definition internFill :: "InternTable \<Rightarrow> string \<Rightarrow> string list \<Rightarrow> (Slice \<times> nat \<times> InternTable) option" where
  "internFill t prefix' parts =
     (let n = length prefix' + sum_list (map length parts)
      in map_option (\<lambda>(block, a). (block, n, t\<lparr>it_bytes := fill_parts a block 0 (prefix' # parts)\<rparr>))
           (BumpAllocator_alloc False 1 CHR 0x00 (it_bytes t) n))"

definition internCommitBlock :: "InternTable \<Rightarrow> Slice \<Rightarrow> nat \<Rightarrow> (Slice \<times> InternTable) option" where
  "internCommitBlock t block n =
     (if sl_len block = 0 then None
      else map_option (\<lambda>a. (block\<lparr>sl_len := n, sl_cap := n\<rparr>, t\<lparr>it_bytes := a\<rparr>)) (BumpAllocator_commit (it_bytes t) n))"

definition internBlock :: "hash128 \<Rightarrow> InternTable \<Rightarrow> Slice \<Rightarrow> nat \<Rightarrow> (u32 \<times> InternTable) option" where
  "internBlock hash t block n =
     (case slice_to block n (sl_cap block) of
        None \<Rightarrow> None
      | Some b \<Rightarrow>
          let buf = slice_text t b
          in case intern_find hash t buf of
               None \<Rightarrow> None
             | Some (Found i) \<Rightarrow> Some (i, t)
             | Some f \<Rightarrow>
                 (case internCommitBlock t block n of
                    None \<Rightarrow> None
                  | Some (s, t) \<Rightarrow> intern_new f (hash buf) t s))"

definition internBuild :: "hash128 \<Rightarrow> InternTable \<Rightarrow> string \<Rightarrow> string list \<Rightarrow> (u32 \<times> InternTable) option" where
  "internBuild hash t prefix' parts =
     (case internFill t prefix' parts of
        None \<Rightarrow> None
      | Some (block, n, t) \<Rightarrow> internBlock hash t block n)"

definition internedBuild :: "hash128 \<Rightarrow> InternTable \<Rightarrow> string \<Rightarrow> string list \<Rightarrow> (u32 \<times> InternTable) option" where
  "internedBuild hash t prefix' parts =
     (case internFill t prefix' parts of
        None \<Rightarrow> None
      | Some (block, n, t) \<Rightarrow>
          (case slice_to block n (sl_cap block) of
             None \<Rightarrow> None
           | Some b \<Rightarrow> map_option (\<lambda>i. (i, t)) (internedBytes hash t (slice_text t b))))"

definition internV :: "hash128 \<Rightarrow> InternTable \<Rightarrow> string list \<Rightarrow> (u32 \<times> InternTable) option" where
  "internV hash t parts =
     (case parts of [p] \<Rightarrow> internStr hash t p | _ \<Rightarrow> internBuild hash t [] parts)"

definition internedV :: "hash128 \<Rightarrow> InternTable \<Rightarrow> string list \<Rightarrow> (u32 \<times> InternTable) option" where
  "internedV hash t parts = internedBuild hash t [] parts"

definition internedPrefixed :: "hash128 \<Rightarrow> InternTable \<Rightarrow> string \<Rightarrow> string \<Rightarrow> (u32 \<times> InternTable) option" where
  "internedPrefixed hash t prefix' rel = internedBuild hash t prefix' [rel]"

definition internedPrefixedJoined ::
  "hash128 \<Rightarrow> InternTable \<Rightarrow> string \<Rightarrow> string \<Rightarrow> string \<Rightarrow> (u32 \<times> InternTable) option" where
  "internedPrefixedJoined hash t prefix' dir rel =
     (if dir = [] then internedBuild hash t prefix' [rel] else internedBuild hash t prefix' [dir, ''/'', rel])"

definition internJoined :: "hash128 \<Rightarrow> InternTable \<Rightarrow> string \<Rightarrow> string \<Rightarrow> (u32 \<times> InternTable) option" where
  "internJoined hash t dir rel =
     (if dir = [] then internStr hash t rel else internV hash t [dir, ''/'', rel])"

text \<open>\<^verbatim>\<open>STR.cleanPath\<close> remembers for each string whether it is a clean path.\<close>

definition STR_cleanPath :: "InternTable \<Rightarrow> u32 \<Rightarrow> (bool \<times> InternTable) option" where
  "STR_cleanPath t i =
     (if BitSet_has (it_cleanSeen t) i then Some (BitSet_has (it_cleanYes t) i, t)
      else case internString t i of
             None \<Rightarrow> None
           | Some s \<Rightarrow>
               (case (if s \<noteq> [] then pathIsClean s else Inr False) of
                  Inl _ \<Rightarrow> None
                | Inr clean \<Rightarrow>
                    let t = t\<lparr>it_cleanSeen := BitSet_add (it_cleanSeen t) i\<rparr>;
                        t = (if clean then t\<lparr>it_cleanYes := BitSet_add (it_cleanYes t) i\<rparr> else t)
                    in Some (clean, t)))"

definition STR_cleanRel :: "InternTable \<Rightarrow> u32 \<Rightarrow> (string \<times> InternTable) option" where
  "STR_cleanRel t i =
     (case STR_cleanPath t i of
        None \<Rightarrow> None
      | Some (clean, t) \<Rightarrow>
          (case internString t i of
             None \<Rightarrow> None
           | Some s \<Rightarrow>
               if clean then Some (s, t)
               else (case cleanRel s of Inl _ \<Rightarrow> None | Inr r \<Rightarrow> Some (r, t))))"

section \<open>The cells other threads read\<close>

text \<open>
  Page \<open>p\<close> holds the cells of the numbers from \<open>2 ^ p - 1\<close>: appending to the last page and starting a
  page of twice the size where it is full puts every cell where \<^verbatim>\<open>PageVec.get\<close> looks for it.
\<close>

definition cells_ok :: "InternTable \<Rightarrow> bool" where
  "cells_ok t \<longleftrightarrow> PageVec_inv (it_cells t) \<and> 0 < unat (it_count t)
     \<and> length (it_flatStr t) = unat (it_count t) \<and> Vec_inv (it_flatLo t) \<and> vec_len (it_flatLo t) = unat (it_count t)
     \<and> it_flatStr t ! 0 = nil_slice \<and> vec_s (it_flatLo t) ! 0 = 0
     \<and> (case it_cellPage t of
          None \<Rightarrow> unat (it_count t) = 1
        | Some p \<Rightarrow> it_cellIdx t = p \<and> 1 \<le> p \<and> p < 32 \<and> unat (it_cellBase t) = 2 ^ p - 1
            \<and> unat (it_cellBase t) < unat (it_count t) \<and> unat (it_count t) \<le> 2 ^ Suc p - 1
            \<and> (\<forall>q \<le> p. pv_pages (it_cells t) ! q \<noteq> None)
            \<and> (\<forall>i. unat i < unat (it_count t) \<longrightarrow> PageVec_map zeroCell (it_cells t) i =
                 \<lparr>ic_str = it_flatStr t ! unat i, ic_lo = vec_s (it_flatLo t) ! unat i\<rparr>))"

lemma PageVec_map_update:
  assumes "q < length (pv_pages v)"
  shows "PageVec_map z \<lparr>pv_pages = (pv_pages v)[q := Some page]\<rparr> i =
    (if fst (pageOffset i) = q then page ! snd (pageOffset i) else PageVec_map z v i)"
  using assms by (auto simp: PageVec_map_def split: prod.splits)

lemma PageVec_map_page:
  "pv_pages v ! fst (pageOffset i) = Some page \<Longrightarrow> PageVec_map z v i = page ! snd (pageOffset i)"
  by (auto simp: PageVec_map_def split: prod.splits)

lemma page_of:
  assumes "2 ^ p - 1 \<le> unat i" and "unat i < 2 ^ Suc p - 1"
  shows "pageOffset i = (p, unat i - (2 ^ p - 1))"
proof (rule pageOffset_of)
  have "(1 :: nat) \<le> 2 ^ p" by simp
  then show "unat i + 1 = 2 ^ p + (unat i - (2 ^ p - 1))" "unat i - (2 ^ p - 1) < 2 ^ p"
    using assms by auto
qed

lemma page_lt: "unat i < 2 ^ Suc p - 1 \<Longrightarrow> fst (pageOffset i) \<le> p"
proof (rule ccontr)
  assume i: "unat i < 2 ^ Suc p - 1" and "\<not> fst (pageOffset i) \<le> p"
  then have "(2 :: nat) ^ Suc p \<le> 2 ^ fst (pageOffset i)" by (intro power_increasing) auto
  moreover have "unat i + 1 = 2 ^ fst (pageOffset i) + snd (pageOffset i)"
    using pageOffset_eq(1) [of i "fst (pageOffset i)" "snd (pageOffset i)"] by simp
  ultimately show False using i by linarith
qed

lemma unat_Suc_u32: "unat (c :: u32) < 2 ^ 32 - 1 \<Longrightarrow> unat (c + 1) = Suc (unat c)"
  by (simp add: unat_word_ariths)

text \<open>The cells below the count and the new one, after a page is stored.\<close>

lemma cells_stored:
  assumes pages: "length (pv_pages v) = 32" "q < 32" and len: "length flatS = n" "length flatL = n"
    and old: "\<And>i :: u32. unat i < n \<Longrightarrow> PageVec_map zeroCell v i = \<lparr>ic_str = flatS ! unat i, ic_lo = flatL ! unat i\<rparr>"
    and new: "\<And>i. unat i < n \<Longrightarrow> fst (pageOffset i) = q \<Longrightarrow> page ! snd (pageOffset i) = PageVec_map zeroCell v i"
    and cell: "pageOffset (of_nat n) = (q, off)" "page ! off = \<lparr>ic_str = s, ic_lo = lo\<rparr>" and n: "n < 2 ^ 32"
    and i: "unat (i :: u32) < Suc n"
  shows "PageVec_map zeroCell \<lparr>pv_pages = (pv_pages v)[q := Some page]\<rparr> i =
    \<lparr>ic_str = (flatS @ [s]) ! unat i, ic_lo = (flatL @ [lo]) ! unat i\<rparr>"
proof (cases "unat i < n")
  case True
  then show ?thesis
    using old [OF True] new [OF True] len pages by (simp add: PageVec_map_update nth_append)
next
  case False
  then have "unat i = n" using i by simp
  moreover have "of_nat (unat i) = i" by simp
  ultimately have "i = of_nat n" by simp
  then show ?thesis using cell len pages \<open>unat i = n\<close> n by (simp add: PageVec_map_update nth_append)
qed

text \<open>What \<^verbatim>\<open>internAppend\<close> does to the table.\<close>

definition appended :: "InternTable \<Rightarrow> Slice \<Rightarrow> u64 \<Rightarrow> InternTable \<Rightarrow> bool" where
  "appended t s lo t' \<longleftrightarrow> cells_ok t'
     \<and> it_flatStr t' = it_flatStr t @ [s] \<and> vec_s (it_flatLo t') = vec_s (it_flatLo t) @ [lo]
     \<and> unat (it_count t') = Suc (unat (it_count t)) \<and> it_bytes t' = it_bytes t \<and> it_ids t' = it_ids t
     \<and> it_overflow t' = it_overflow t \<and> it_cleanSeen t' = it_cleanSeen t \<and> it_cleanYes t' = it_cleanYes t"

lemma cells_okD:
  assumes "cells_ok t"
  shows "0 < unat (it_count t)" "length (it_flatStr t) = unat (it_count t)"
    "length (vec_s (it_flatLo t)) = unat (it_count t)" "Vec_inv (it_flatLo t)"
    "vec_len (it_flatLo t) = unat (it_count t)" "it_flatStr t ! 0 = nil_slice" "vec_s (it_flatLo t) ! 0 = 0"
    "PageVec_inv (it_cells t)" "length (pv_pages (it_cells t)) = 32"
  using assms by (auto simp: cells_ok_def PageVec_inv_def)

lemma cells_ok_frame [simp]:
  "cells_ok (t\<lparr>it_bytes := a\<rparr>) = cells_ok t" "cells_ok (t\<lparr>it_ids := ids\<rparr>) = cells_ok t"
  "cells_ok (t\<lparr>it_overflow := ov\<rparr>) = cells_ok t" "cells_ok (t\<lparr>it_ids := ids, it_overflow := ov\<rparr>) = cells_ok t"
  "cells_ok (t\<lparr>it_cleanSeen := x\<rparr>) = cells_ok t" "cells_ok (t\<lparr>it_cleanSeen := x, it_cleanYes := y\<rparr>) = cells_ok t"
  by (cases "it_cellPage t"; simp add: cells_ok_def)+

lemma cells_ok_page:
  assumes "cells_ok t" and "it_cellPage t = Some p"
  shows "it_cellIdx t = p" "1 \<le> p" "p < 32" "unat (it_cellBase t) = 2 ^ p - 1"
    "unat (it_cellBase t) < unat (it_count t)" "unat (it_count t) \<le> 2 ^ Suc p - 1"
    "q \<le> p \<Longrightarrow> pv_pages (it_cells t) ! q \<noteq> None"
    "unat i < unat (it_count t) \<Longrightarrow> PageVec_map zeroCell (it_cells t) i =
       \<lparr>ic_str = it_flatStr t ! unat i, ic_lo = vec_s (it_flatLo t) ! unat i\<rparr>"
  using assms by (auto simp: cells_ok_def)

lemma internAppend_first:
  assumes ok: "cells_ok t" and room: "unat (it_count t) < 2 ^ 32 - 2" and first: "it_cellPage t = None"
  shows "\<exists>t'. internAppend t s lo = Some (it_count t, t') \<and> appended t s lo t'"
proof -
  let ?c = "it_count t" and ?S = "it_flatStr t" and ?L = "vec_s (it_flatLo t)" and ?v = "it_cells t"
  let ?cell = "\<lparr>ic_str = s, ic_lo = lo\<rparr>"
  note n = cells_okD [OF ok]
  have c1: "unat (?c + 1) = Suc (unat ?c)" using room by (intro unat_Suc_u32) auto
  have one: "unat ?c = 1" using ok first by (simp add: cells_ok_def)
  define ps where "ps = (pv_pages ?v)[0 := Some [zeroCell], 1 := Some [?cell, zeroCell]]"
  define t' where "t' = t\<lparr>it_flatStr := ?S @ [s], it_flatLo := Vec_pushBack 0 (it_flatLo t) lo,
    it_cellPage := Some 1, it_cellBase := ?c, it_cellIdx := 1, it_cells := \<lparr>pv_pages = ps\<rparr>, it_count := ?c + 1\<rparr>"
  have "internAppend t s lo = Some (?c, t')"
    using first n(9) by (simp add: internAppend_def Let_def store_page_def t'_def ps_def)
  moreover have "PageVec_inv \<lparr>pv_pages = ps\<rparr>"
    using PageVec_inv_update [OF PageVec_inv_update [OF n(8), of "[zeroCell]" 0], of "[?cell, zeroCell]" 1]
    by (simp add: ps_def PageVec_inv_def)
  moreover have "PageVec_map zeroCell \<lparr>pv_pages = ps\<rparr> i = \<lparr>ic_str = (?S @ [s]) ! unat i, ic_lo = (?L @ [lo]) ! unat i\<rparr>"
    if "unat i < 2" for i :: u32
  proof -
    have "unat i = 0 \<or> unat i = 1" using that by linarith
    then show ?thesis
    proof
      assume i: "unat i = 0"
      then have "pageOffset i = (0, 0)" using page_of [of 0 i] by simp
      then show ?thesis using i n one by (simp add: PageVec_map_def ps_def zeroCell_def nth_append)
    next
      assume i: "unat i = 1"
      then have "pageOffset i = (1, 0)" using page_of [of 1 i] by simp
      then show ?thesis using i n one by (simp add: PageVec_map_def ps_def nth_append)
    qed
  qed
  ultimately show ?thesis
    using c1 one n by (simp add: appended_def cells_ok_def t'_def ps_def nth_append le_Suc_eq all_conj_distrib)
qed

lemma internAppend_newPage:
  assumes ok: "cells_ok t" and room: "unat (it_count t) < 2 ^ 32 - 2" and later: "it_cellPage t = Some p"
    and full: "unat (it_count t) = 2 ^ Suc p - 1"
  shows "\<exists>t'. internAppend t s lo = Some (it_count t, t') \<and> appended t s lo t'"
proof -
  let ?c = "it_count t" and ?S = "it_flatStr t" and ?L = "vec_s (it_flatLo t)" and ?v = "it_cells t"
  let ?cell = "\<lparr>ic_str = s, ic_lo = lo\<rparr>"
  note n = cells_okD [OF ok] and p = cells_ok_page [OF ok later]
  have c1: "unat (?c + 1) = Suc (unat ?c)" using room by (intro unat_Suc_u32) auto
  obtain page where page: "pv_pages ?v ! p = Some page" using p(7) by auto
  have lp: "length page = 2 ^ p" using PageVec_inv_page [OF n(8) p(3) page] .
  have off: "unat (?c - it_cellBase t) = 2 ^ p"
    using p(4,5) full by (simp add: unat_sub word_le_nat_alt)
  have p32: "Suc p < 32" using full room p(3) by (cases "p = 31") auto
  define page' where "page' = (replicate (2 * 2 ^ p) zeroCell)[0 := ?cell]"
  define ps where "ps = (pv_pages ?v)[Suc p := Some page']"
  define t' where "t' = t\<lparr>it_flatStr := ?S @ [s], it_flatLo := Vec_pushBack 0 (it_flatLo t) lo,
    it_cellBase := ?c, it_cellIdx := Suc p, it_cellPage := Some (Suc p),
    it_cells := \<lparr>pv_pages = ps\<rparr>, it_count := ?c + 1\<rparr>"
  have "(0 :: nat) < 2 ^ p" by simp
  then have "(2 :: nat) ^ Suc p - 1 < 2 ^ Suc (Suc p) - 1" unfolding power_Suc by linarith
  then have po: "pageOffset ?c = (Suc p, 0)" using page_of [of "Suc p" ?c] full by simp
  have "internAppend t s lo = Some (?c, t')"
    using later page off lp n(9) p(1) p32
    by (simp add: internAppend_def Let_def store_page_def t'_def ps_def page'_def)
  moreover have "PageVec_inv \<lparr>pv_pages = ps\<rparr>"
    using PageVec_inv_update [OF n(8), of page' "Suc p"] by (simp add: ps_def page'_def PageVec_inv_def)
  moreover have "PageVec_map zeroCell \<lparr>pv_pages = ps\<rparr> i = \<lparr>ic_str = (?S @ [s]) ! unat i, ic_lo = (?L @ [lo]) ! unat i\<rparr>"
    if i: "unat i < Suc (unat ?c)" for i
    unfolding ps_def
  proof (rule cells_stored [OF n(9) p32 n(2,3) p(8)])
    show "page' ! snd (pageOffset j) = PageVec_map zeroCell ?v j"
      if "unat j < unat ?c" "fst (pageOffset j) = Suc p" for j
      using that page_lt [of j p] full by simp
  qed (use room i po in \<open>auto simp: page'_def\<close>)
  moreover have "ps ! q \<noteq> None" if "q \<le> Suc p" for q
    using that p(7) n(9) p32 by (cases "q = Suc p") (auto simp: ps_def)
  ultimately show ?thesis
    using c1 n p32 full by (simp add: appended_def cells_ok_def t'_def nth_append)
qed

lemma internAppend_samePage:
  assumes ok: "cells_ok t" and room: "unat (it_count t) < 2 ^ 32 - 2" and later: "it_cellPage t = Some p"
    and lt: "unat (it_count t) < 2 ^ Suc p - 1"
  shows "\<exists>t'. internAppend t s lo = Some (it_count t, t') \<and> appended t s lo t'"
proof -
  let ?c = "it_count t" and ?S = "it_flatStr t" and ?L = "vec_s (it_flatLo t)" and ?v = "it_cells t"
  let ?cell = "\<lparr>ic_str = s, ic_lo = lo\<rparr>" and ?o = "unat (it_count t) - (2 ^ p - 1)"
  note n = cells_okD [OF ok] and p = cells_ok_page [OF ok later]
  have c1: "unat (?c + 1) = Suc (unat ?c)" using room by (intro unat_Suc_u32) auto
  obtain page where page: "pv_pages ?v ! p = Some page" using p(7) by auto
  have lp: "length page = 2 ^ p" using PageVec_inv_page [OF n(8) p(3) page] .
  have off: "unat (?c - it_cellBase t) = ?o"
    using p(4,5) by (simp add: unat_sub word_le_nat_alt)
  have o: "?o < 2 ^ p" using lt p(4,5) by auto
  define page' where "page' = page[?o := ?cell]"
  define ps where "ps = (pv_pages ?v)[p := Some page']"
  define t' where "t' = t\<lparr>it_flatStr := ?S @ [s], it_flatLo := Vec_pushBack 0 (it_flatLo t) lo,
    it_cells := \<lparr>pv_pages = ps\<rparr>, it_count := ?c + 1\<rparr>"
  have po: "pageOffset ?c = (p, ?o)" using page_of [of p ?c] lt p(4,5) by simp
  have "internAppend t s lo = Some (?c, t')"
    using later page off lp n(9) p(1,3) o
    by (simp add: internAppend_def Let_def store_page_def t'_def ps_def page'_def)
  moreover have "PageVec_inv \<lparr>pv_pages = ps\<rparr>"
    using PageVec_inv_update [OF n(8), of page' p] lp by (simp add: ps_def page'_def PageVec_inv_def)
  moreover have "PageVec_map zeroCell \<lparr>pv_pages = ps\<rparr> i = \<lparr>ic_str = (?S @ [s]) ! unat i, ic_lo = (?L @ [lo]) ! unat i\<rparr>"
    if i: "unat i < Suc (unat ?c)" for i
    unfolding ps_def
  proof (rule cells_stored [OF n(9) p(3) n(2,3) p(8)])
    show "page' ! snd (pageOffset j) = PageVec_map zeroCell ?v j"
      if j: "unat j < unat ?c" "fst (pageOffset j) = p" for j
    proof -
      have "snd (pageOffset j) \<noteq> ?o" using j pageOffset_inj [of j ?c] po by (metis less_irrefl prod.collapse)
      then show ?thesis using j page by (simp add: page'_def PageVec_map_page)
    qed
  qed (use room i po o lp in \<open>auto simp: page'_def\<close>)
  moreover have "ps ! q \<noteq> None" if "q \<le> p" for q
    using that p(3,7) n(9) by (cases "q = p") (auto simp: ps_def)
  ultimately show ?thesis
    using c1 n p lt later by (simp add: appended_def cells_ok_def t'_def nth_append)
qed

lemma internAppend_spec:
  assumes ok: "cells_ok t" and room: "unat (it_count t) < 2 ^ 32 - 2"
  obtains t' where "internAppend t s lo = Some (it_count t, t')" and "appended t s lo t'"
proof (cases "it_cellPage t")
  case None
  then show ?thesis using internAppend_first [OF ok room] that by blast
next
  case (Some p)
  then have "unat (it_count t) = 2 ^ Suc p - 1 \<or> unat (it_count t) < 2 ^ Suc p - 1"
    using cells_ok_page(6) [OF ok Some] by linarith
  then show ?thesis
    using internAppend_newPage [OF ok room Some] internAppend_samePage [OF ok room Some] that by blast
qed

section \<open>The invariant\<close>

text \<open>
  The table stands for the list of its texts: number \<open>i\<close> has text \<open>i\<close>, and number 0, which is no
  string, the empty text. The numbers of distinct strings differ as long as no two strings in use
  have the same 128 bits and no high half is 0, which the hash table cannot hold.
\<close>

definition texts :: "InternTable \<Rightarrow> string list" where
  "texts t = map (slice_text t) (it_flatStr t)"

definition hash_ok :: "hash128 \<Rightarrow> string set \<Rightarrow> bool" where
  "hash_ok hash S \<longleftrightarrow> inj_on hash S \<and> (\<forall>s \<in> S. fst (hash s) \<noteq> 0)"

definition names :: "InternTable \<Rightarrow> string set" where
  "names t = set (tl (texts t))"

definition is_clean :: "string \<Rightarrow> bool" where
  "is_clean s \<longleftrightarrow> s \<noteq> [] \<and> pathIsClean s = Inr True"

definition intern_inv :: "hash128 \<Rightarrow> InternTable \<Rightarrow> bool" where
  "intern_inv hash t \<longleftrightarrow> cells_ok t \<and> Bump_inv (it_bytes t) \<and> \<not> ba_strict (it_bytes t) \<and> IntMap_inv 0 (it_ids t)
     \<and> length (im_keys (it_ids t)) \<le> 2 ^ 34
     \<and> (\<forall>s \<in> set (it_flatStr t). owned (it_bytes t) s)
     \<and> (\<forall>i. 0 < i \<and> i < length (texts t) \<longrightarrow>
          vec_s (it_flatLo t) ! i = snd (hash (texts t ! i)) \<and> fst (hash (texts t ! i)) \<noteq> 0
          \<and> (IntMap_map (it_ids t) (fst (hash (texts t ! i))) = Some (of_nat i) \<or> it_overflow t (texts t ! i) = Some (of_nat i)))
     \<and> (\<forall>k p. IntMap_map (it_ids t) k = Some p \<longrightarrow>
          p \<noteq> 0 \<and> unat p < length (texts t) \<and> fst (hash (texts t ! unat p)) = k)
     \<and> (\<forall>s p. it_overflow t s = Some p \<longrightarrow>
          p \<noteq> 0 \<and> unat p < length (texts t) \<and> texts t ! unat p = s
          \<and> (\<exists>q. IntMap_map (it_ids t) (fst (hash s)) = Some q \<and> snd (hash (texts t ! unat q)) \<noteq> snd (hash s)))
     \<and> BitSet_inv (it_cleanSeen t) \<and> BitSet_inv (it_cleanYes t)
     \<and> (\<forall>i. BitSet_has (it_cleanSeen t) i \<longrightarrow>
          unat i < length (texts t) \<and> (BitSet_has (it_cleanYes t) i \<longleftrightarrow> is_clean (texts t ! unat i)))
     \<and> (\<forall>i. BitSet_has (it_cleanYes t) i \<longrightarrow> BitSet_has (it_cleanSeen t) i)"

lemma intern_invD:
  assumes "intern_inv hash t"
  shows "cells_ok t" "Bump_inv (it_bytes t)" "\<not> ba_strict (it_bytes t)" "IntMap_inv 0 (it_ids t)"
    "s \<in> set (it_flatStr t) \<Longrightarrow> owned (it_bytes t) s"
    "0 < i \<Longrightarrow> i < length (texts t) \<Longrightarrow> vec_s (it_flatLo t) ! i = snd (hash (texts t ! i))"
    "0 < i \<Longrightarrow> i < length (texts t) \<Longrightarrow> fst (hash (texts t ! i)) \<noteq> 0"
    "0 < i \<Longrightarrow> i < length (texts t) \<Longrightarrow>
       IntMap_map (it_ids t) (fst (hash (texts t ! i))) = Some (of_nat i) \<or> it_overflow t (texts t ! i) = Some (of_nat i)"
    "IntMap_map (it_ids t) k = Some p \<Longrightarrow> p \<noteq> 0 \<and> unat p < length (texts t) \<and> fst (hash (texts t ! unat p)) = k"
    "it_overflow t x = Some p \<Longrightarrow> p \<noteq> 0 \<and> unat p < length (texts t) \<and> texts t ! unat p = x"
    "it_overflow t x = Some p \<Longrightarrow>
       \<exists>q. IntMap_map (it_ids t) (fst (hash x)) = Some q \<and> snd (hash (texts t ! unat q)) \<noteq> snd (hash x)"
  using assms by (simp_all add: intern_inv_def)

lemma texts_frame [simp]:
  "texts (t\<lparr>it_ids := ids\<rparr>) = texts t" "texts (t\<lparr>it_overflow := ov\<rparr>) = texts t"
  "texts (t\<lparr>it_ids := ids, it_overflow := ov\<rparr>) = texts t"
  "texts (t\<lparr>it_cleanSeen := x\<rparr>) = texts t" "texts (t\<lparr>it_cleanSeen := x, it_cleanYes := y\<rparr>) = texts t"
  by (simp_all add: texts_def slice_text_def [abs_def])

lemma length_texts: "cells_ok t \<Longrightarrow> length (texts t) = unat (it_count t)"
  using cells_okD(2) by (simp add: texts_def)

lemma texts_0: "cells_ok t \<Longrightarrow> texts t ! 0 = []"
  using cells_okD(1,2,6) [of t] by (simp add: texts_def slice_text_def)

lemma names_iff: "cells_ok t \<Longrightarrow> s \<in> names t \<longleftrightarrow> (\<exists>i. 0 < i \<and> i < length (texts t) \<and> texts t ! i = s)"
proof -
  assume "cells_ok t"
  then have "0 < length (texts t)" using length_texts cells_okD(1) by simp
  then obtain x xs where x: "texts t = x # xs" by (cases "texts t") auto
  show ?thesis
  proof
    assume "s \<in> names t"
    then obtain i where "i < length xs" "xs ! i = s" by (auto simp: names_def x in_set_conv_nth)
    then show "\<exists>i. 0 < i \<and> i < length (texts t) \<and> texts t ! i = s" by (intro exI [of _ "Suc i"]) (simp add: x)
  next
    assume "\<exists>i. 0 < i \<and> i < length (texts t) \<and> texts t ! i = s"
    then obtain i where "0 < i" "i < length (texts t)" "texts t ! i = s" by blast
    then show "s \<in> names t" by (cases i) (auto simp: names_def x)
  qed
qed

lemma intern_find_spec:
  assumes inv: "intern_inv hash t" and ok: "hash_ok hash (insert s (names t))"
  obtains p where "intern_find hash t s = Some (Found p)" "p \<noteq> 0" "unat p < length (texts t)" "texts t ! unat p = s"
  | q where "intern_find hash t s = Some Collides" "s \<notin> names t" "IntMap_map (it_ids t) (fst (hash s)) = Some q"
      "snd (hash (texts t ! unat q)) \<noteq> snd (hash s)"
  | "intern_find hash t s = Some Absent" "s \<notin> names t" "IntMap_map (it_ids t) (fst (hash s)) = None"
proof -
  note D = intern_invD [OF inv] and nm = names_iff [OF intern_invD(1) [OF inv]]
  have g: "IntMap_get (it_ids t) (fst (hash s)) = Some (IntMap_map (it_ids t) (fst (hash s)))"
    using ok D(4) by (intro IntMap_get_spec) (auto simp: hash_ok_def)
  have lo: "internLo t p = Some (snd (hash (texts t ! unat p)))" if "p \<noteq> 0" "unat p < length (texts t)" for p
    using that D(6) [of "unat p"] cells_okD(3) [OF D(1)] length_texts [OF D(1)]
    by (simp add: internLo_def unat_gt_0)
  have inj: "texts t ! unat p = s"
    if "p \<noteq> 0" "unat p < length (texts t)" "hash (texts t ! unat p) = hash s" for p
  proof -
    have "texts t ! unat p \<in> names t" using that(1,2) nm unat_gt_0 by blast
    then show ?thesis using ok that(3) inj_onD [of hash "insert s (names t)"] unfolding hash_ok_def by blast
  qed
  show ?thesis
  proof (cases "IntMap_map (it_ids t) (fst (hash s))")
    case None
    have "s \<notin> names t"
    proof
      assume "s \<in> names t"
      then obtain i where i: "0 < i" "i < length (texts t)" "texts t ! i = s" using nm by blast
      show False using D(8) [OF i(1,2)] D(11) [of s] None i(3) by auto
    qed
    then show ?thesis using None g that(3) by (simp add: intern_find_def)
  next
    case (Some p)
    note p = D(9) [OF Some]
    show ?thesis
    proof (cases "snd (hash (texts t ! unat p)) = snd (hash s)")
      case True
      then have "hash (texts t ! unat p) = hash s" using p by (simp add: prod_eq_iff)
      then have "texts t ! unat p = s" using p inj by blast
      then show ?thesis using True Some p g lo that(1) [of p] by (simp add: intern_find_def)
    next
      case False
      have f: "intern_find hash t s = Some (case it_overflow t s of Some oid \<Rightarrow> Found oid | None \<Rightarrow> Collides)"
        using Some g lo [of p] p False by (simp add: intern_find_def split: option.splits)
      show ?thesis
      proof (cases "it_overflow t s")
        case None
        have "s \<notin> names t"
        proof
          assume "s \<in> names t"
          then obtain i where i: "0 < i" "i < length (texts t)" "texts t ! i = s" using nm by auto
          then have "p = of_nat i" using D(8) [OF i(1,2)] None Some by simp
          then have "unat p = i" using i(2) length_texts [OF D(1)] unat_u32_less [of "it_count t"] by (simp add: ay_word)
          then show False using False i(3) by simp
        qed
        then show ?thesis using None f that(2) Some False by simp
      next
        case (Some oid)
        then show ?thesis using f that(1) D(10) by simp
      qed
    qed
  qed
qed

section \<open>Interning a string\<close>

text \<open>Copies and windows only extend the arena, so the texts stay.\<close>

lemma keeps_texts:
  assumes inv: "intern_inv hash t" and a: "arena_keeps (it_bytes t) a"
  shows "texts (t\<lparr>it_bytes := a\<rparr>) = texts t" and "intern_inv hash (t\<lparr>it_bytes := a\<rparr>)"
proof -
  show tx: "texts (t\<lparr>it_bytes := a\<rparr>) = texts t"
    using arena_keepsD(4) [OF a] intern_invD(5) [OF inv] by (simp add: texts_def slice_text_def)
  show "intern_inv hash (t\<lparr>it_bytes := a\<rparr>)"
    using inv arena_keepsD(1,2) [OF a] arena_keepsD(3) [OF a] intern_invD(5) [OF inv]
    by (simp add: intern_inv_def tx)
qed

lemma appended_texts:
  assumes "appended t s lo t'" shows "texts t' = texts t @ [slice_text t s]"
  using assms by (simp add: appended_def texts_def slice_text_def)

lemma appended_names:
  assumes "appended t s lo t'" and "cells_ok t" shows "names t' = insert (slice_text t s) (names t)"
  using appended_texts [OF assms(1)] cells_okD(1) [OF assms(2)] length_texts [OF assms(2)]
  by (cases "texts t") (auto simp: names_def)

text \<open>The invariant after a new string is numbered, for the new maps.\<close>

lemma intern_added:
  assumes inv: "intern_inv hash t" and ap: "appended t sl (snd (hash s)) t1" and sl: "owned (it_bytes t) sl"
    and s: "slice_text t sl = s" "s \<notin> names t" "fst (hash s) \<noteq> 0"
    and ids: "IntMap_inv 0 ids \<and> length (im_keys ids) \<le> 2 ^ 34" "IntMap_map ids = (if f then (IntMap_map (it_ids t))(fst (hash s) \<mapsto> it_count t) else IntMap_map (it_ids t))"
    and ov: "ov = (if f then it_overflow t else (it_overflow t)(s \<mapsto> it_count t))"
    and f: "f \<Longrightarrow> IntMap_map (it_ids t) (fst (hash s)) = None"
    and nf: "\<not> f \<Longrightarrow> \<exists>q. IntMap_map (it_ids t) (fst (hash s)) = Some q \<and> snd (hash (texts t ! unat q)) \<noteq> snd (hash s)"
  shows "intern_inv hash (t1\<lparr>it_ids := ids, it_overflow := ov\<rparr>)"
proof -
  let ?t = "t1\<lparr>it_ids := ids, it_overflow := ov\<rparr>" and ?n = "length (texts t)"
  note D = intern_invD [OF inv]
  note apd = ap [unfolded appended_def]
  have tx: "texts t1 = texts t @ [s]" using appended_texts [OF ap] s(1) by simp
  have n: "?n = unat (it_count t)" "0 < ?n" using length_texts [OF D(1)] cells_okD(1) [OF D(1)] by auto
  have cn: "of_nat ?n = it_count t" "it_count t \<noteq> 0" using n by auto
  have lt: "(texts t @ [s]) ! unat q = texts t ! unat q" if "unat q < ?n" for q :: u32
    using that by (simp add: nth_append)
  have "cells_ok ?t" using apd by simp
  moreover have "vec_s (it_flatLo ?t) ! i = snd (hash (texts ?t ! i)) \<and> fst (hash (texts ?t ! i)) \<noteq> 0
      \<and> (IntMap_map ids (fst (hash (texts ?t ! i))) = Some (of_nat i) \<or> ov (texts ?t ! i) = Some (of_nat i))"
    if i: "0 < i" "i < length (texts ?t)" for i
  proof (cases "i = ?n")
    case True
    then show ?thesis using apd s(3) ids(2) ov cn(1) cells_okD(3) [OF D(1)] n by (simp add: tx nth_append)
  next
    case False
    then have lt': "i < ?n" using i tx by simp
    have "texts t ! i \<noteq> s" using s(2) names_iff [OF D(1)] i(1) lt' by blast
    then show ?thesis
      using lt' D(6,7,8) [OF i(1) lt'] apd ids(2) ov f cells_okD(3) [OF D(1)] n by (auto simp: tx nth_append)
  qed
  moreover have "p \<noteq> 0 \<and> unat p < length (texts ?t) \<and> fst (hash (texts ?t ! unat p)) = k"
    if "IntMap_map ids k = Some p" for k p
    using that D(9) [of k p] ids(2) cn n by (auto simp: tx nth_append split: if_splits)
  moreover have "p \<noteq> 0 \<and> unat p < length (texts ?t) \<and> texts ?t ! unat p = x
      \<and> (\<exists>q. IntMap_map ids (fst (hash x)) = Some q \<and> snd (hash (texts ?t ! unat q)) \<noteq> snd (hash x))"
    if o: "ov x = Some p" for x p
  proof (cases "\<not> f \<and> x = s")
    case True
    then obtain q where q: "IntMap_map (it_ids t) (fst (hash s)) = Some q" "snd (hash (texts t ! unat q)) \<noteq> snd (hash s)"
      using nf by blast
    have "unat q < ?n" using D(9) [OF q(1)] by simp
    then show ?thesis using True o ov ids(2) q cn n lt by (auto simp: tx nth_append)
  next
    case False
    then have ox: "it_overflow t x = Some p" using o ov by (auto split: if_splits)
    obtain q where q: "IntMap_map (it_ids t) (fst (hash x)) = Some q" "snd (hash (texts t ! unat q)) \<noteq> snd (hash x)"
      using D(11) [OF ox] by blast
    have "unat q < ?n" using D(9) [OF q(1)] by simp
    moreover have "IntMap_map ids (fst (hash x)) = Some q" using q(1) ids(2) f by auto
    ultimately show ?thesis using D(10) [OF ox] q lt by (auto simp: tx nth_append)
  qed
  moreover have "unat i < length (texts ?t) \<and> (BitSet_has (it_cleanYes t) i \<longleftrightarrow> is_clean (texts ?t ! unat i))"
    if "BitSet_has (it_cleanSeen t) i" for i
    using that inv by (auto simp: tx intern_inv_def nth_append)
  moreover have "owned (it_bytes ?t) x" if "x \<in> set (it_flatStr ?t)" for x using that apd sl D(5) by auto
  moreover have "BitSet_inv (it_cleanSeen t)" "BitSet_inv (it_cleanYes t)"
    "BitSet_has (it_cleanYes t) i \<Longrightarrow> BitSet_has (it_cleanSeen t) i" for i
    using inv by (simp_all add: intern_inv_def)
  ultimately show ?thesis using D(2,3) ids(1) apd unfolding intern_inv_def [of hash ?t] by simp
qed

text \<open>The hash table never reaches the largest array the runtime allocates: it has fewer keys than numbers.\<close>

definition intern_room :: "InternTable \<Rightarrow> bool" where
  "intern_room t \<longleftrightarrow> unat (it_count t) < 2 ^ 32 - 2"

lemma ids_small:
  assumes inv: "intern_inv hash t"
  shows "IntMap_room (it_ids t)" and "im_count (it_ids t) < 2 ^ 32" and "length (im_keys (it_ids t)) \<le> 2 ^ 34"
proof -
  note D = intern_invD [OF inv]
  show len: "length (im_keys (it_ids t)) \<le> 2 ^ 34" using inv by (simp add: intern_inv_def)
  then show "IntMap_room (it_ids t)" by (simp add: IntMap_room_def maxTable_def)
  let ?m = "IntMap_map (it_ids t)"
  have "inj_on (\<lambda>k. unat (the (?m k))) (dom ?m)"
  proof (rule inj_onI)
    fix k k' assume "k \<in> dom ?m" "k' \<in> dom ?m" and eq: "unat (the (?m k)) = unat (the (?m k'))"
    then obtain p q where "?m k = Some p" "?m k' = Some q" by blast
    then show "k = k'" using D(9) [of k p] D(9) [of k' q] eq by simp
  qed
  moreover have "(\<lambda>k. unat (the (?m k))) ` dom ?m \<subseteq> {..<unat (it_count t)}"
    using D(9) length_texts [OF D(1)] by fastforce
  ultimately have "card (dom ?m) \<le> unat (it_count t)" by (metis card_inj_on_le card_lessThan finite_lessThan)
  then show "im_count (it_ids t) < 2 ^ 32"
    using IntMap_count_card [OF D(4)] unat_u32_less [of "it_count t"] by simp
qed

lemma ids_put:
  assumes inv: "intern_inv hash t" and k: "k \<noteq> 0"
  obtains ids where "IntMap_put 0 (it_ids t) k v = Some ids" "IntMap_inv 0 ids \<and> length (im_keys ids) \<le> 2 ^ 34"
    "IntMap_map ids = (IntMap_map (it_ids t))(k \<mapsto> v)"
proof -
  note small = ids_small [OF inv]
  have inv': "IntMap_inv 0 (it_ids t)" using inv by (rule intern_invD)
  obtain ids where ids: "IntMap_put 0 (it_ids t) k v = Some ids" "IntMap_inv 0 ids"
    "IntMap_map ids = (IntMap_map (it_ids t))(k \<mapsto> v)" "length (im_keys ids) \<le> 2 * length (im_keys (it_ids t))"
    using IntMap_put_spec [OF inv' small(1) k] by blast
  have "length (im_keys ids) \<le> 2 ^ 34"
  proof (cases "im_count (it_ids t) < im_resizeAt (it_ids t)")
    case True
    then show ?thesis using IntMap_put_len [OF ids(1)] small(3) by simp
  next
    case False
    then have "length (im_keys (it_ids t)) * 5 div 8 < 2 ^ 32"
      using small(2) inv' by (simp add: IntMap_inv_def intMap_consts)
    then show ?thesis using ids(4) by simp
  qed
  then show ?thesis using that ids by blast
qed

lemma intern_new_spec:
  assumes inv: "intern_inv hash t" and sl: "owned (it_bytes t) sl" "slice_text t sl = s"
    and s: "s \<notin> names t" "fst (hash s) \<noteq> 0" and room: "intern_room t"
    and f: "f = Absent \<and> IntMap_map (it_ids t) (fst (hash s)) = None \<or>
      f = Collides \<and> (\<exists>q. IntMap_map (it_ids t) (fst (hash s)) = Some q \<and> snd (hash (texts t ! unat q)) \<noteq> snd (hash s))"
  shows "\<exists>t'. intern_new f (hash s) t sl = Some (it_count t, t') \<and> intern_inv hash t' \<and> texts t' = texts t @ [s]"
proof -
  have r: "unat (it_count t) < 2 ^ 32 - 2" using room by (simp add: intern_room_def)
  obtain t1 where t1: "internAppend t sl (snd (hash s)) = Some (it_count t, t1)" "appended t sl (snd (hash s)) t1"
    using internAppend_spec [OF intern_invD(1) [OF inv] r] by blast
  have eq: "it_ids t1 = it_ids t" "it_overflow t1 = it_overflow t" "slice_text t1 sl = s" "texts t1 = texts t @ [s]"
    using t1(2) sl(2) appended_texts [OF t1(2)] by (simp_all add: appended_def slice_text_def)
  from f show ?thesis
  proof (elim disjE conjE)
    assume f: "f = Absent" "IntMap_map (it_ids t) (fst (hash s)) = None"
    obtain ids where ids: "IntMap_put 0 (it_ids t) (fst (hash s)) (it_count t) = Some ids"
      "IntMap_inv 0 ids \<and> length (im_keys ids) \<le> 2 ^ 34"
      "IntMap_map ids = (IntMap_map (it_ids t))(fst (hash s) \<mapsto> it_count t)"
      using ids_put [OF inv s(2)] by blast
    have "intern_inv hash (t1\<lparr>it_ids := ids, it_overflow := it_overflow t\<rparr>)"
      using intern_added [OF inv t1(2) sl s ids(2), of True] ids(3) f(2) by simp
    moreover have "t1\<lparr>it_ids := ids, it_overflow := it_overflow t\<rparr> = t1\<lparr>it_ids := ids\<rparr>" using eq(2) by (cases t1) simp
    ultimately show ?thesis using f(1) t1(1) eq ids(1) by (simp add: intern_new_def)
  next
    assume f: "f = Collides"
      "\<exists>q. IntMap_map (it_ids t) (fst (hash s)) = Some q \<and> snd (hash (texts t ! unat q)) \<noteq> snd (hash s)"
    let ?ov = "(it_overflow t)(s \<mapsto> it_count t)"
    have "intern_inv hash (t1\<lparr>it_ids := it_ids t, it_overflow := ?ov\<rparr>)"
      using intern_added [OF inv t1(2) sl s, of "it_ids t" False ?ov] intern_invD(4) [OF inv] ids_small(3) [OF inv] f(2)
      by simp
    moreover have "t1\<lparr>it_ids := it_ids t, it_overflow := ?ov\<rparr> = t1\<lparr>it_overflow := ?ov\<rparr>" using eq(1) by (cases t1) simp
    ultimately show ?thesis using f(1) t1(1) eq by (simp add: intern_new_def)
  qed
qed

lemma internOwnedCopy_spec:
  assumes inv: "intern_inv hash t" and len: "length s \<le> 2 ^ 48"
  obtains sl a where "internOwnedCopy t s = Some (sl, t\<lparr>it_bytes := a\<rparr>)" "arena_keeps (it_bytes t) a"
    "owned a sl" "slice_read (ba_mem a) sl = s"
proof (cases "s = []")
  case True
  have "arena_keeps (it_bytes t) (it_bytes t)" using intern_invD(2) [OF inv] by (simp add: arena_keeps_def)
  then show ?thesis using True that [of nil_slice "it_bytes t"] by (simp add: internOwnedCopy_def)
next
  case False
  have "can_alloc False 1 (it_bytes t) (length s)" using len by (simp add: can_alloc_def)
  then obtain block b where b: "BumpAllocator_alloc False 1 CHR 0x00 (it_bytes t) (length s) = Some (block, b)"
    "arena_keeps (it_bytes t) b" "block = ba_chunk b" "length s \<le> sl_len block"
    using alloc_spec [OF intern_invD(2) [OF inv]] by blast
  obtain a where a: "BumpAllocator_commit (bump_write b block 0 s) (length s) = Some a" "arena_keeps b a"
    "owned a (block\<lparr>sl_len := length s, sl_cap := length s\<rparr>)"
    "slice_read (ba_mem a) (block\<lparr>sl_len := length s, sl_cap := length s\<rparr>) = s"
    using fill_spec [OF arena_keepsD(1) [OF b(2)] b(3) order_refl b(4) refl] by blast
  then show ?thesis
    using that [of "block\<lparr>sl_len := length s, sl_cap := length s\<rparr>" a] False b arena_keeps_trans [OF b(2) a(2)]
    by (simp add: internOwnedCopy_def Let_def)
qed

text \<open>The outcome of interning the string \<open>s\<close>.\<close>

definition interned_as :: "hash128 \<Rightarrow> InternTable \<Rightarrow> string \<Rightarrow> u32 \<Rightarrow> InternTable \<Rightarrow> bool" where
  "interned_as hash t s i t' \<longleftrightarrow> intern_inv hash t' \<and> i \<noteq> 0 \<and> unat i < length (texts t') \<and> texts t' ! unat i = s
     \<and> texts t' = (if s \<in> names t then texts t else texts t @ [s])"

lemma interned_as_new:
  assumes "intern_inv hash t" and "intern_inv hash t'" and "texts t' = texts t @ [s]" and "s \<notin> names t"
  shows "interned_as hash t s (it_count t) t'"
  using assms length_texts [OF intern_invD(1) [OF assms(1)]] cells_okD(1) [OF intern_invD(1) [OF assms(1)]]
  by (auto simp: interned_as_def nth_append unat_gt_0)

lemma interned_as_found:
  assumes "intern_inv hash t" and "p \<noteq> 0" "unat p < length (texts t)" "texts t ! unat p = s"
  shows "interned_as hash t s p t"
proof -
  have "s \<in> names t" using names_iff [OF intern_invD(1) [OF assms(1)]] assms(2-4) unat_gt_0 by blast
  then show ?thesis using assms by (simp add: interned_as_def)
qed

lemma internStr_spec:
  assumes inv: "intern_inv hash t" and ok: "hash_ok hash (insert s (names t))" and room: "intern_room t"
    and len: "length s \<le> 2 ^ 48"
  obtains i t' where "internStr hash t s = Some (i, t')" and "interned_as hash t s i t'"
proof -
  note result = that
  have new: thesis
    if f: "intern_find hash t s = Some f" "s \<notin> names t"
      "f = Absent \<and> IntMap_map (it_ids t) (fst (hash s)) = None \<or>
       f = Collides \<and> (\<exists>q. IntMap_map (it_ids t) (fst (hash s)) = Some q \<and> snd (hash (texts t ! unat q)) \<noteq> snd (hash s))" for f
  proof -
    obtain sl a where a: "internOwnedCopy t s = Some (sl, t\<lparr>it_bytes := a\<rparr>)" "arena_keeps (it_bytes t) a"
      "owned a sl" "slice_read (ba_mem a) sl = s"
      using internOwnedCopy_spec [OF inv len] by blast
    let ?t = "t\<lparr>it_bytes := a\<rparr>"
    have tx: "texts ?t = texts t" and inv': "intern_inv hash ?t" using keeps_texts [OF inv a(2)] by auto
    have nm: "names ?t = names t" by (simp add: names_def tx)
    obtain t' where t': "intern_new f (hash s) ?t sl = Some (it_count t, t')" "intern_inv hash t'"
      "texts t' = texts t @ [s]"
      using intern_new_spec [OF inv', of sl s f] a(3,4) f(2,3) ok room
      by (auto simp: slice_text_def nm tx hash_ok_def intern_room_def)
    have "internStr hash t s = Some (it_count t, t')"
      using f(1,3) a(1) t'(1) by (auto simp: internStr_def)
    then show thesis using result interned_as_new [OF inv t'(2,3) f(2)] by blast
  qed
  from inv ok show ?thesis
  proof (cases rule: intern_find_spec)
    case (1 p)
    then show ?thesis using that [of p t] interned_as_found [OF inv] by (simp add: internStr_def)
  next
    case (2 q)
    then show ?thesis using new by blast
  next
    case 3
    then show ?thesis using new by blast
  qed
qed

section \<open>Strings put together in the window\<close>

lemma fill_parts_spec:
  assumes "Bump_inv a" and "block = ba_chunk a" and "off + length (concat ps) \<le> sl_len block"
  shows "arena_keeps a (fill_parts a block off ps) \<and> ba_chunk (fill_parts a block off ps) = block
    \<and> slice_read (ba_mem (fill_parts a block off ps)) block =
        take off (slice_read (ba_mem a) block) @ concat ps @ drop (off + length (concat ps)) (slice_read (ba_mem a) block)"
  using assms
proof (induction ps arbitrary: a off)
  case Nil
  then show ?case by (simp add: arena_keeps_def)
next
  case (Cons p ps)
  let ?b = "bump_write a block off p" and ?w = "slice_read (ba_mem a) block"
  have fit: "off + length p \<le> sl_len block" using Cons.prems(3) by simp
  have b: "arena_keeps a ?b" "slice_read (ba_mem ?b) block = take off ?w @ p @ drop (off + length p) ?w"
    using window_write [OF Cons.prems(1,2) fit] by auto
  have bc: "block = ba_chunk ?b" using Cons.prems(2) by (simp add: bump_write_def)
  have lw: "length ?w = sl_len block" using window_length [OF Cons.prems(1)] Cons.prems(2) by simp
  have m: "min (sl_len block - off) (length p) = length p" using fit by simp
  have ih: "arena_keeps ?b (fill_parts ?b block (off + length p) ps) \<and> ba_chunk (fill_parts ?b block (off + length p) ps) = block
    \<and> slice_read (ba_mem (fill_parts ?b block (off + length p) ps)) block =
        take (off + length p) (slice_read (ba_mem ?b) block) @ concat ps
          @ drop (off + length p + length (concat ps)) (slice_read (ba_mem ?b) block)"
    using Cons.prems(3) by (intro Cons.IH arena_keepsD(1) [OF b(1)] bc) simp
  then show ?case
    using arena_keeps_trans [OF b(1)] b(2) lw fit by (auto simp: m add.commute add.left_commute)
qed

lemma internFill_spec:
  assumes inv: "intern_inv hash t" and len: "length (p @ concat ps) \<le> 2 ^ 48"
  obtains block a where "internFill t p ps = Some (block, length (p @ concat ps), t\<lparr>it_bytes := a\<rparr>)"
    "arena_keeps (it_bytes t) a" "block = ba_chunk a" "length (p @ concat ps) \<le> sl_len block" "sl_cap block = sl_len block"
    "take (length (p @ concat ps)) (slice_read (ba_mem a) block) = p @ concat ps"
proof -
  let ?n = "length (p @ concat ps)"
  have n: "length p + sum_list (map length ps) = ?n" by (simp add: length_concat)
  have "can_alloc False 1 (it_bytes t) ?n" using len by (simp add: can_alloc_def)
  then obtain block b where b: "BumpAllocator_alloc False 1 CHR 0x00 (it_bytes t) ?n = Some (block, b)"
    "arena_keeps (it_bytes t) b" "block = ba_chunk b" "?n \<le> sl_len block" "sl_cap block = sl_len block"
    using alloc_spec [OF intern_invD(2) [OF inv]] by blast
  note fp = fill_parts_spec [OF arena_keepsD(1) [OF b(2)] b(3), of 0 "p # ps"]
  define a where "a = fill_parts b block 0 (p # ps)"
  have a: "arena_keeps b a" "ba_chunk a = block" "take ?n (slice_read (ba_mem a) block) = p @ concat ps"
    using fp b(4) unfolding a_def [symmetric] by auto
  have "internFill t p ps = Some (block, ?n, t\<lparr>it_bytes := a\<rparr>)"
    unfolding internFill_def n Let_def using b(1) by (simp add: a_def)
  then show ?thesis using that a b arena_keeps_trans [OF b(2) a(1)] by metis
qed

lemma internBuild_spec:
  assumes inv: "intern_inv hash t" and ok: "hash_ok hash (insert (p @ concat ps) (names t))" and room: "intern_room t"
    and len: "length (p @ concat ps) \<le> 2 ^ 48" and ne: "p @ concat ps \<noteq> [] \<or> [] \<in> names t"
  obtains i t' where "internBuild hash t p ps = Some (i, t')" and "interned_as hash t (p @ concat ps) i t'"
proof -
  note result = that
  let ?s = "p @ concat ps"
  obtain block a where b: "internFill t p ps = Some (block, length ?s, t\<lparr>it_bytes := a\<rparr>)"
    "arena_keeps (it_bytes t) a" "block = ba_chunk a" "length ?s \<le> sl_len block" "sl_cap block = sl_len block"
    "take (length ?s) (slice_read (ba_mem a) block) = ?s"
    using internFill_spec [OF inv len] by blast
  let ?t = "t\<lparr>it_bytes := a\<rparr>" and ?b = "block\<lparr>sl_len := length ?s, sl_cap := sl_len block\<rparr>"
  let ?sl = "block\<lparr>sl_len := length ?s, sl_cap := length ?s\<rparr>"
  have tx: "texts ?t = texts t" and inv': "intern_inv hash ?t" using keeps_texts [OF inv b(2)] by auto
  have nm: "names ?t = names t" by (simp add: names_def tx)
  have ok': "hash_ok hash (insert ?s (names ?t))" using ok nm by simp
  have to: "slice_to block (length ?s) (sl_cap block) = Some ?b" using b(4,5) by (simp add: slice_to_def)
  have rd: "slice_read (ba_mem a) (block\<lparr>sl_len := length ?s, sl_cap := c\<rparr>) = ?s" for c
    using b(4,6) by (simp add: slice_read_def min_def)
  then have buf: "slice_text ?t ?b = ?s" by (simp add: slice_text_def)
  have res: "interned_as hash t ?s i t'" if "interned_as hash ?t ?s i t'" for i t'
    using that unfolding interned_as_def nm tx .
  have new: thesis
    if f: "intern_find hash ?t ?s = Some f" "?s \<notin> names ?t"
      "f = Absent \<and> IntMap_map (it_ids ?t) (fst (hash ?s)) = None \<or>
       f = Collides \<and> (\<exists>q. IntMap_map (it_ids ?t) (fst (hash ?s)) = Some q \<and> snd (hash (texts ?t ! unat q)) \<noteq> snd (hash ?s))" for f
  proof -
    have "?s \<noteq> []" using f(2) ne nm by metis
    then have "0 < length ?s" by blast
    then have pos: "sl_len block \<noteq> 0" using b(4) by linarith
    obtain c where c: "BumpAllocator_commit a (length ?s) = Some c" "arena_keeps a c" "ba_mem c = ba_mem a" "owned c ?sl"
      using commit_spec [OF arena_keepsD(1) [OF b(2)], of "length ?s"] b(3,4) by (metis order_refl)
    let ?u = "?t\<lparr>it_bytes := c\<rparr>"
    have ku: "texts ?u = texts ?t" "intern_inv hash ?u" using keeps_texts [OF inv', of c] c(2) by auto
    have nu: "names ?u = names ?t" using ku(1) by (simp add: names_def)
    have "\<exists>t'. intern_new f (hash ?s) ?u ?sl = Some (it_count ?u, t') \<and> intern_inv hash t' \<and> texts t' = texts ?u @ [?s]"
      using f(2,3) ok room c(3,4) rd nm nu ku by (intro intern_new_spec) (auto simp: slice_text_def hash_ok_def intern_room_def tx)
    then obtain t' where t': "intern_new f (hash ?s) ?u ?sl = Some (it_count t, t')" "intern_inv hash t'" "texts t' = texts ?t @ [?s]"
      using ku(1) by auto
    have "internBuild hash t p ps = Some (it_count t, t')"
      using b(1) to buf f(1,3) c(1) t'(1) pos by (auto simp: internBuild_def internBlock_def internCommitBlock_def)
    moreover have "interned_as hash ?t ?s (it_count ?t) t'" using interned_as_new [OF inv' t'(2,3) f(2)] .
    ultimately show thesis using res result by auto
  qed
  from inv' ok' show ?thesis
  proof (cases rule: intern_find_spec)
    case (1 i)
    have "internBuild hash t p ps = Some (i, ?t)" using b(1) to buf 1(1) by (simp add: internBuild_def internBlock_def)
    then show ?thesis using that res interned_as_found [OF inv' 1(2-4)] by blast
  next
    case (2 q)
    then show ?thesis using new by blast
  next
    case 3
    then show ?thesis using new by blast
  qed
qed

section \<open>Reading the table\<close>

lemma internTable_spec:
  obtains t where "internTable = Some t" and "intern_inv hash t" and "texts t = [[]]"
proof -
  have cap: "intMap_capFor intMapMinCap (2 ^ 19) = 2 ^ 20" by (simp add: intMap_capFor.simps intMap_consts)
  obtain ids where ids: "newIntMap (0 :: u32) (2 ^ 19) = Some ids" "IntMap_inv 0 ids" "IntMap_map ids = (\<lambda>_. None)"
    "length (im_keys ids) = 2 ^ 20"
    using newIntMap_spec [of "2 ^ 19" "0 :: u32"] cap by (auto simp: maxTable_def)
  define t where "t = \<lparr>it_ids = ids, it_overflow = Map.empty, it_flatStr = [nil_slice],
      it_flatLo = \<lparr>vec_arr = replicate bumpChunkInitial 0, vec_len = 1\<rparr>,
      it_cells = PageVec_zero, it_cellPage = None, it_cellBase = 0, it_cellIdx = 0, it_count = 1,
      it_bytes = newBumpAllocator, it_cleanSeen = BitSet_empty, it_cleanYes = BitSet_empty\<rparr>"
  have "internTable = Some t" unfolding internTable_def ids(1) t_def by simp
  moreover have tx: "texts t = [[]]" by (simp add: t_def texts_def slice_text_def)
  moreover have "cells_ok t" by (simp add: cells_ok_def t_def Vec_inv_def bumpChunkInitial_def vec_s_def)
  then have "intern_inv hash t"
    using ids(2,3,4) BitSet_empty_inv BitSet_empty_has unfolding intern_inv_def tx
    by (auto simp: t_def newBumpAllocator_def Bump_inv_def nil_slice_def owned_def)
  ultimately show ?thesis using that by blast
qed

lemma texts_inj:
  assumes inv: "intern_inv hash t" and ij: "0 < i" "i < length (texts t)" "0 < j" "j < length (texts t)"
    and eq: "texts t ! i = texts t ! j"
  shows "i = j"
proof -
  note D = intern_invD [OF inv]
  have u: "unat (of_nat k :: u32) = k" if "k < length (texts t)" for k
    using that length_texts [OF D(1)] unat_u32_less [of "it_count t"] by (simp add: ay_word)
  have o: "IntMap_map (it_ids t) (fst (hash (texts t ! k))) \<noteq> Some (of_nat k)"
    if "it_overflow t (texts t ! k) \<noteq> None" "k < length (texts t)" for k
    using that D(11) [of "texts t ! k"] u by fastforce
  have "(of_nat i :: u32) = of_nat j"
    using D(8) [OF ij(1,2)] D(8) [OF ij(3,4)] o [of i] o [of j] ij eq by auto
  then show ?thesis using u ij by metis
qed

lemma internString_spec:
  "unat i < length (texts t) \<Longrightarrow> internString t i = Some (texts t ! unat i)"
  by (simp add: internString_def texts_def)

lemma sharedString_spec:
  assumes inv: "intern_inv hash t" and i: "i \<noteq> 0" "unat i < length (texts t)"
  shows "STR_sharedString t i = Some (texts t ! unat i)"
proof -
  have ok: "cells_ok t" using inv by (rule intern_invD)
  note n = cells_okD [OF ok]
  have "unat i < unat (it_count t)" "1 < unat (it_count t)"
    using i length_texts [OF ok] unat_gt_0 [of i] by linarith+
  then obtain p where p: "it_cellPage t = Some p" using ok by (auto simp: cells_ok_def split: option.splits)
  note P = cells_ok_page [OF ok p]
  have "fst (pageOffset i) \<le> p" using page_lt [of i p] P(6) \<open>unat i < unat (it_count t)\<close> by linarith
  then have "PageVec_alive (it_cells t) i" using P(7) by (simp add: PageVec_alive_def)
  moreover have "unat i \<noteq> 2 ^ 32 - 1" using \<open>unat i < unat (it_count t)\<close> unat_u32_less [of "it_count t"] by linarith
  ultimately have "PageVec_get (it_cells t) i = Some (PageVec_map zeroCell (it_cells t) i)"
    using PageVec_get_map [OF n(8), of i zeroCell] by simp
  then show ?thesis
    using P(8) [OF \<open>unat i < unat (it_count t)\<close>] i(2) by (simp add: STR_sharedString_def texts_def)
qed

lemma cleanPath_spec:
  assumes inv: "intern_inv hash t" and i: "unat i < length (texts t)"
  obtains t' where "STR_cleanPath t i = Some (is_clean (texts t ! unat i), t')" "intern_inv hash t'" "texts t' = texts t"
proof (cases "BitSet_has (it_cleanSeen t) i")
  case True
  then have "BitSet_has (it_cleanYes t) i \<longleftrightarrow> is_clean (texts t ! unat i)" using inv by (simp add: intern_inv_def)
  then show ?thesis using that [of t] True inv by (simp add: STR_cleanPath_def)
next
  case False
  let ?s = "texts t ! unat i" and ?seen = "BitSet_add (it_cleanSeen t) i"
  have cl: "(if ?s \<noteq> [] then pathIsClean ?s else Inr False) = Inr (is_clean ?s)"
    using pathIsClean_spec [of ?s] by (auto simp: is_clean_def)
  have b: "BitSet_inv (it_cleanSeen t)" "BitSet_inv (it_cleanYes t)" "\<not> BitSet_has (it_cleanYes t) i"
    using inv False by (auto simp: intern_inv_def)
  note add = BitSet_add_inv BitSet_add_has [OF b(1)] BitSet_add_has [OF b(2)]
  show ?thesis
  proof (cases "is_clean ?s")
    case True
    let ?t = "t\<lparr>it_cleanSeen := ?seen, it_cleanYes := BitSet_add (it_cleanYes t) i\<rparr>"
    have "STR_cleanPath t i = Some (True, ?t)"
      unfolding STR_cleanPath_def using False i cl True by (simp add: internString_spec)
    moreover have "intern_inv hash ?t" using inv b True i add unfolding intern_inv_def by auto
    ultimately show ?thesis using that [of ?t] True by simp
  next
    case nclean: False
    let ?t = "t\<lparr>it_cleanSeen := ?seen\<rparr>"
    have "STR_cleanPath t i = Some (False, ?t)"
      unfolding STR_cleanPath_def using False i cl nclean by (simp add: internString_spec)
    moreover have "intern_inv hash ?t" using inv b nclean i add unfolding intern_inv_def by auto
    ultimately show ?thesis using that [of ?t] nclean by simp
  qed
qed

section \<open>Sequences of strings\<close>

fun internEach :: "hash128 \<Rightarrow> InternTable \<Rightarrow> string list \<Rightarrow> (u32 list \<times> InternTable) option" where
  "internEach hash t [] = Some ([], t)"
| "internEach hash t (s # ss) =
     (case internStr hash t s of
        None \<Rightarrow> None
      | Some (i, t) \<Rightarrow> map_option (\<lambda>(is, t). (i # is, t)) (internEach hash t ss))"

lemma hash_ok_mono: "hash_ok hash A \<Longrightarrow> B \<subseteq> A \<Longrightarrow> hash_ok hash B"
  by (auto simp: hash_ok_def dest: inj_on_subset)

lemma interned_as_names: "interned_as hash t s i t' \<Longrightarrow> cells_ok t \<Longrightarrow> names t' = insert s (names t)"
  using length_texts [of t] cells_okD(1) [of t] by (cases "texts t") (auto simp: interned_as_def names_def)

lemma internEach_spec:
  assumes "intern_inv hash t" and "hash_ok hash (set ss \<union> names t)" and "\<And>s. s \<in> set ss \<Longrightarrow> length s \<le> 2 ^ 48"
    and "length (texts t) + length ss < 2 ^ 32 - 1"
  shows "\<exists>is t' ys. internEach hash t ss = Some (is, t') \<and> intern_inv hash t' \<and> texts t' = texts t @ ys
    \<and> length is = length ss \<and> (\<forall>k < length ss. is ! k \<noteq> 0 \<and> unat (is ! k) < length (texts t') \<and> texts t' ! unat (is ! k) = ss ! k)"
  using assms
proof (induction ss arbitrary: t)
  case Nil
  then show ?case by simp
next
  case (Cons s ss)
  have ok: "hash_ok hash (insert s (names t))" using Cons.prems(2) by (rule hash_ok_mono) auto
  have cells: "cells_ok t" using Cons.prems(1) by (rule intern_invD)
  have room: "intern_room t" using Cons.prems(4) length_texts [OF cells] by (simp add: intern_room_def)
  obtain i t1 where t1: "internStr hash t s = Some (i, t1)" "interned_as hash t s i t1"
    using internStr_spec [OF Cons.prems(1) ok room] Cons.prems(3) by auto
  obtain zs where zs: "texts t1 = texts t @ zs" "length zs \<le> 1" using t1(2) by (auto simp: interned_as_def split: if_splits)
  have nm: "names t1 = insert s (names t)" using interned_as_names [OF t1(2) cells] .
  have i: "i \<noteq> 0" "unat i < length (texts t1)" "texts t1 ! unat i = s" "intern_inv hash t1"
    using t1(2) unfolding interned_as_def by blast+
  obtain is' t' ys where r: "internEach hash t1 ss = Some (is', t')" "intern_inv hash t'" "texts t' = texts t1 @ ys"
    "length is' = length ss"
    "\<forall>k < length ss. is' ! k \<noteq> 0 \<and> unat (is' ! k) < length (texts t') \<and> texts t' ! unat (is' ! k) = ss ! k"
    using Cons.IH [OF i(4)] Cons.prems(2-4) zs nm by (auto simp: Un_commute)
  have "(i # is') ! k \<noteq> 0 \<and> unat ((i # is') ! k) < length (texts t') \<and> texts t' ! unat ((i # is') ! k) = (s # ss) ! k"
    if "k < length (s # ss)" for k
    using that r(3,5) i by (cases k) (auto simp: nth_append)
  then show ?case using t1(1) r zs(1) by (intro exI [of _ "i # is'"] exI [of _ t'] exI [of _ "zs @ ys"]) simp
qed

section \<open>Properties\<close>

text \<open>
  C5: Interning is a round trip: any sequence of strings is numbered without a panic, from any state of
  the table; in the end every number still reads as its string, in the array of the main thread and
  in the paged cells the other threads read, equal strings have equal numbers and different strings
  different ones, and no number is 0. The strings lie in an arena that later strings are copied into
  and are never overwritten there.
\<close>

theorem intern_roundtrip:
  assumes "intern_inv hash t" and "hash_ok hash (set ss \<union> names t)" and "\<forall>s \<in> set ss. length s \<le> 2 ^ 48"
    and "length (texts t) + length ss < 2 ^ 32 - 1"
  shows "\<exists>is t'. internEach hash t ss = Some (is, t') \<and> intern_inv hash t' \<and> 0 \<notin> set is
    \<and> map (internString t') is = map Some ss \<and> map (STR_sharedString t') is = map Some ss
    \<and> (\<forall>j < length ss. \<forall>k < length ss. is ! j = is ! k \<longleftrightarrow> ss ! j = ss ! k)
    \<and> (\<forall>i. unat i < length (texts t) \<longrightarrow> internString t' i = internString t i)"
proof -
  obtain "is" t' ys where r: "internEach hash t ss = Some (is, t')" "intern_inv hash t'" "texts t' = texts t @ ys"
    "length is = length ss"
    "\<forall>k < length ss. is ! k \<noteq> 0 \<and> unat (is ! k) < length (texts t') \<and> texts t' ! unat (is ! k) = ss ! k"
    using internEach_spec [OF assms(1,2) _ assms(4)] assms(3) by blast
  have "map (internString t') is = map Some ss" "map (STR_sharedString t') is = map Some ss"
    using r(2,4,5) by (auto intro!: nth_equalityI simp: internString_spec sharedString_spec)
  moreover have "is ! j = is ! k \<longleftrightarrow> ss ! j = ss ! k" if jk: "j < length ss" "k < length ss" for j k
  proof
    assume "ss ! j = ss ! k"
    then have "unat (is ! j) = unat (is ! k)" using r(5) jk by (intro texts_inj [OF r(2)]) (auto simp: unat_gt_0)
    then show "is ! j = is ! k" by (simp add: word_unat_eq_iff)
  qed (use r(5) jk in metis)
  moreover have "0 \<notin> set is" using r(4,5) by (auto simp: in_set_conv_nth)
  moreover have "internString t' i = internString t i" if "unat i < length (texts t)" for i
    using that r(3) by (simp add: internString_spec nth_append)
  ultimately show ?thesis using r(1,2) by blast
qed

theorem intern_roundtrip_witness:
  "\<exists>t is t'. internTable = Some t \<and> internEach (\<lambda>s. (7, of_nat (length s))) t [''a'', ''bc'', ''a''] = Some (is, t')
    \<and> map (internString t') is = [Some ''a'', Some ''bc'', Some ''a''] \<and> is ! 0 = is ! 2 \<and> is ! 0 \<noteq> is ! 1"
proof -
  let ?h = "\<lambda>s :: string. (7 :: u64, of_nat (length s) :: u64)" and ?ss = "[''a'', ''bc'', ''a'']"
  obtain t where t: "internTable = Some t" "intern_inv ?h t" "texts t = [[]]" by (rule internTable_spec)
  have "hash_ok ?h (set ?ss \<union> names t)" by (auto simp: hash_ok_def names_def t(3) inj_on_def)
  from intern_roundtrip [OF t(2) this] obtain "is" t' where r: "internEach ?h t ?ss = Some (is, t')"
    "map (internString t') is = map Some ?ss"
    "\<forall>j < length ?ss. \<forall>k < length ?ss. is ! j = is ! k \<longleftrightarrow> ?ss ! j = ?ss ! k"
    using t(3) by auto
  have "is ! 0 = is ! 2" "is ! 0 \<noteq> is ! 1" using r(3) [rule_format, of 0 2] r(3) [rule_format, of 0 1] by simp_all
  then show ?thesis using t(1) r(1,2) by auto
qed

text \<open>
  C24: A string put together from parts in the window of the arena gets the number the whole string
  has or would get, whether the window is committed or left for the next string.
\<close>

theorem internBuild_agrees:
  assumes "intern_inv hash t" and "hash_ok hash (insert (p @ concat ps) (names t))" and "length (p @ concat ps) \<le> 2 ^ 48"
    and "length (texts t) < 2 ^ 32 - 2" and "p @ concat ps \<noteq> [] \<or> [] \<in> names t"
  shows "\<exists>i t1 t2. internBuild hash t p ps = Some (i, t1) \<and> internStr hash t (p @ concat ps) = Some (i, t2)
    \<and> intern_inv hash t1 \<and> texts t1 = texts t2 \<and> internString t1 i = Some (p @ concat ps)"
proof -
  have cells: "cells_ok t" using assms(1) by (rule intern_invD)
  have room: "intern_room t" using assms(4) length_texts [OF cells] by (simp add: intern_room_def)
  obtain i t1 where b: "internBuild hash t p ps = Some (i, t1)" "interned_as hash t (p @ concat ps) i t1"
    using internBuild_spec [OF assms(1,2) room assms(3,5)] by blast
  obtain j t2 where s: "internStr hash t (p @ concat ps) = Some (j, t2)" "interned_as hash t (p @ concat ps) j t2"
    using internStr_spec [OF assms(1,2) room assms(3)] by blast
  have tx: "texts t1 = texts t2" using b(2) s(2) by (simp add: interned_as_def)
  have "unat i = unat j"
    using b(2) s(2) tx by (intro texts_inj [of hash t1]) (auto simp: interned_as_def unat_gt_0)
  then have "i = j" by (simp add: word_unat_eq_iff)
  moreover have "internString t1 i = Some (p @ concat ps)" "intern_inv hash t1"
    using b(2) by (auto simp: interned_as_def internString_spec)
  ultimately show ?thesis using b(1) s(1) tx by blast
qed

theorem internBuild_agrees_witness:
  "\<exists>t i t1 t2. internTable = Some t \<and> internBuild (\<lambda>s. (7, of_nat (length s))) t ''a/'' [''b'', ''c''] = Some (i, t1)
    \<and> internStr (\<lambda>s. (7, of_nat (length s))) t ''a/bc'' = Some (i, t2) \<and> internString t1 i = Some ''a/bc''"
proof -
  let ?h = "\<lambda>s :: string. (7 :: u64, of_nat (length s) :: u64)"
  obtain t where t: "internTable = Some t" "intern_inv ?h t" "texts t = [[]]" by (rule internTable_spec)
  have "hash_ok ?h (insert (''a/'' @ concat [''b'', ''c'']) (names t))" by (simp add: hash_ok_def names_def t(3))
  from internBuild_agrees [OF t(2) this] show ?thesis using t(1,3) by auto
qed

text \<open>
  The memo of clean paths is transparent: \<^verbatim>\<open>STR.cleanPath\<close> and \<^verbatim>\<open>STR.cleanRel\<close> return what
  \<^verbatim>\<open>pathIsClean\<close> and \<^verbatim>\<open>cleanRel\<close> return on the text, whether the string was seen before or not, and
  leave the table as good as it was.
\<close>

theorem STR_clean_memo:
  assumes "intern_inv hash t" and "unat i < length (texts t)"
  shows "\<exists>t' t'' r. STR_cleanPath t i = Some (is_clean (texts t ! unat i), t') \<and> intern_inv hash t' \<and> texts t' = texts t
    \<and> STR_cleanRel t i = Some (r, t'') \<and> intern_inv hash t'' \<and> texts t'' = texts t \<and> cleanRel (texts t ! unat i) = Inr r"
proof -
  let ?s = "texts t ! unat i"
  obtain t' where t': "STR_cleanPath t i = Some (is_clean ?s, t')" "intern_inv hash t'" "texts t' = texts t"
    using cleanPath_spec [OF assms] by blast
  obtain r where r: "cleanRel ?s = Inr r" using cleanRel_segments by blast
  have dot: "pathIsClean ''.'' = Inr False" by code_simp
  have "is_clean ?s \<Longrightarrow> r = ?s"
    using r pathIsClean_spec [of "''.''"] dot by (auto simp: is_clean_def cleanRel_def split: if_splits)
  then have "STR_cleanRel t i = Some (r, t')"
    using t'(1,3) r assms(2) by (auto simp: STR_cleanRel_def internString_spec)
  then show ?thesis using t' r by blast
qed

theorem STR_clean_memo_witness:
  "\<exists>t t1 t2 i r. internTable = Some t \<and> internStr (\<lambda>s. (7, of_nat (length s))) t ''a//b'' = Some (i, t1)
    \<and> STR_cleanRel t1 i = Some (r, t2) \<and> cleanRel ''a//b'' = Inr r"
proof -
  let ?h = "\<lambda>s :: string. (7 :: u64, of_nat (length s) :: u64)"
  obtain t where t: "internTable = Some t" "intern_inv ?h t" "texts t = [[]]" by (rule internTable_spec)
  have cells: "cells_ok t" using t(2) by (rule intern_invD)
  have ok: "hash_ok ?h (insert ''a//b'' (names t))" by (simp add: hash_ok_def names_def t(3))
  have "intern_room t" using length_texts [OF cells] t(3) by (simp add: intern_room_def)
  then obtain i t1 where i: "internStr ?h t ''a//b'' = Some (i, t1)" "interned_as ?h t ''a//b'' i t1"
    using internStr_spec [OF t(2) ok] by auto
  then have "intern_inv ?h t1" "unat i < length (texts t1)" "texts t1 ! unat i = ''a//b''"
    by (auto simp: interned_as_def)
  then show ?thesis using STR_clean_memo [of ?h t1 i] i(1) t(1) by auto
qed

end
