(* ===== verification/Ay_Vfs.thy ===== *)
theory Ay_Vfs
  imports Ay_Intern
begin

text \<open>
  Numbers of files and words (\<^verbatim>\<open>vfs.go\<close>, \<^verbatim>\<open>any.go\<close>, \<^verbatim>\<open>any_utils.go\<close>, \<^verbatim>\<open>str_dollar.go\<close>). A \<^verbatim>\<open>VFS\<close> is the
  number of the path of a file, shifted left by one, with a bit that says whether the file lies in
  the source tree or in the build tree; an \<^verbatim>\<open>ANY\<close> is a \<^verbatim>\<open>VFS\<close> or a \<^verbatim>\<open>STR\<close>, shifted left by one once
  more, with a bit that says which of them. Shifts are those of 32-bit words: numbers of strings
  from \<open>2 ^ 30\<close> do not fit.

  An operation that interns strings is a function of the table that returns a value and the new
  table, composed by \<open>ibind\<close>; \<open>None\<close> is a panic.
\<close>

section \<open>Operations on the table\<close>

type_synonym 'a intern_act = "InternTable \<Rightarrow> ('a \<times> InternTable) option"

definition iret :: "'a \<Rightarrow> 'a intern_act" where
  "iret x t = Some (x, t)"

definition ibind :: "'a intern_act \<Rightarrow> ('a \<Rightarrow> 'b intern_act) \<Rightarrow> 'b intern_act" where
  "ibind m f t = (case m t of None \<Rightarrow> None | Some (x, t) \<Rightarrow> f x t)"

definition iread :: "(InternTable \<Rightarrow> 'a option) \<Rightarrow> 'a intern_act" where
  "iread f t = map_option (\<lambda>x. (x, t)) (f t)"

definition intern_fail :: "'a intern_act" where
  "intern_fail t = None"

lemma ibind_simps [simp]:
  "ibind (iret x) f = f x" "ibind intern_fail f = intern_fail"
  "m t = Some (x, t') \<Longrightarrow> ibind m f t = f x t'" "m t = None \<Longrightarrow> ibind m f t = None"
  "g t = Some y \<Longrightarrow> ibind (iread g) f t = f y t"
  by (auto simp: ibind_def iret_def iread_def intern_fail_def)

lemma iret_apply [simp]: "iret x t = Some (x, t)"
  by (simp add: iret_def)

lemma iread_apply [simp]: "g t = Some y \<Longrightarrow> iread g t = Some (y, t)"
  by (simp add: iread_def)

section \<open>Files\<close>

definition vfsPrefixLen :: nat where "vfsPrefixLen = length ''$(S)/''"

definition STR_source :: "u32 \<Rightarrow> VFS" where
  "STR_source i = push_bit 1 i OR 0"

definition STR_build :: "u32 \<Rightarrow> VFS" where
  "STR_build i = push_bit 1 i OR 1"

definition VFS_rel :: "VFS \<Rightarrow> u32" where
  "VFS_rel v = drop_bit 1 v"

definition VFS_relString :: "InternTable \<Rightarrow> VFS \<Rightarrow> string option" where
  "VFS_relString t v = internString t (VFS_rel v)"

definition VFS_sharedRel :: "InternTable \<Rightarrow> VFS \<Rightarrow> string option" where
  "VFS_sharedRel t v = map_option (\<lambda>c. slice_text t (ic_str c)) (PageVec_get (it_cells t) (drop_bit 1 v))"

definition VFS_prefix :: "VFS \<Rightarrow> string" where
  "VFS_prefix v = (if isBuild v then ''$(B)/'' else ''$(S)/'')"

definition VFS_sharedString :: "InternTable \<Rightarrow> VFS \<Rightarrow> string option" where
  "VFS_sharedString t v = map_option (\<lambda>rel. VFS_prefix v @ rel) (VFS_sharedRel t v)"

definition VFS_string :: "InternTable \<Rightarrow> VFS \<Rightarrow> string option" where
  "VFS_string t v =
     map_option (\<lambda>rel. if rel = [] then take (vfsPrefixLen - 1) (VFS_prefix v) else VFS_prefix v @ rel) (VFS_relString t v)"

definition VFS_stringLen :: "InternTable \<Rightarrow> VFS \<Rightarrow> nat option" where
  "VFS_stringLen t v =
     map_option (\<lambda>rel. if length rel \<noteq> 0 then vfsPrefixLen + length rel else vfsPrefixLen - 1) (VFS_relString t v)"

definition vfsHasPrefix :: "string \<Rightarrow> bool" where
  "vfsHasPrefix s \<longleftrightarrow> vfsPrefixLen \<le> length s \<and> s ! 0 = CHR ''$'' \<and> s ! 1 = CHR ''('' \<and>
     (s ! 2 = CHR ''S'' \<or> s ! 2 = CHR ''B'') \<and> s ! 3 = CHR '')'' \<and> s ! 4 = CHR ''/''"

text \<open>\<^verbatim>\<open>intern\<close>: the file of a text with one of the two prefixes, whose third byte is all it reads of it.\<close>

definition vfs_of :: "string \<Rightarrow> u32 \<Rightarrow> VFS" where
  "vfs_of full i = push_bit 1 i OR (if full ! 2 = CHR ''B'' then 1 else 0)"

definition vfs_intern :: "hash128 \<Rightarrow> string \<Rightarrow> VFS intern_act" where
  "vfs_intern hash full =
     (if length full < vfsPrefixLen then intern_fail
      else ibind (\<lambda>t. internStr hash t (drop vfsPrefixLen full)) (\<lambda>i. iret (vfs_of full i)))"

definition STR_vfs :: "hash128 \<Rightarrow> u32 \<Rightarrow> VFS intern_act" where
  "STR_vfs hash i =
     ibind (iread (\<lambda>t. internString t i)) (\<lambda>s.
       if \<not> vfsHasPrefix s then iret 0
       else ibind (\<lambda>t. internStr hash t (drop vfsPrefixLen s)) (\<lambda>j. iret (vfs_of s j)))"

definition vfs_source :: "hash128 \<Rightarrow> string list \<Rightarrow> VFS intern_act" where
  "vfs_source hash parts = ibind (\<lambda>t. internV hash t parts) (\<lambda>i. iret (STR_source i))"

definition vfs_build :: "hash128 \<Rightarrow> string list \<Rightarrow> VFS intern_act" where
  "vfs_build hash parts = ibind (\<lambda>t. internV hash t parts) (\<lambda>i. iret (STR_build i))"

definition sourceJoined :: "hash128 \<Rightarrow> string \<Rightarrow> string \<Rightarrow> VFS intern_act" where
  "sourceJoined hash dir rel = ibind (\<lambda>t. internJoined hash t dir rel) (\<lambda>i. iret (STR_source i))"

definition buildJoined :: "hash128 \<Rightarrow> string \<Rightarrow> string \<Rightarrow> VFS intern_act" where
  "buildJoined hash dir rel =
     (case cleanRel dir of
        Inl _ \<Rightarrow> intern_fail
      | Inr dir \<Rightarrow> ibind (\<lambda>t. internJoined hash t dir rel) (\<lambda>i. iret (STR_build i)))"

definition sourceBytes :: "hash128 \<Rightarrow> string \<Rightarrow> VFS intern_act" where
  "sourceBytes hash rel = ibind (\<lambda>t. internBytes hash t rel) (\<lambda>i. iret (STR_source i))"

definition sourceClean :: "hash128 \<Rightarrow> string \<Rightarrow> VFS intern_act" where
  "sourceClean hash rel =
     (case (if rel \<noteq> [] then pathIsClean rel else Inr False) of
        Inl _ \<Rightarrow> intern_fail
      | Inr clean \<Rightarrow> if clean then vfs_source hash [rel] else vfs_source hash [path_Clean rel])"

definition buildClean :: "hash128 \<Rightarrow> string \<Rightarrow> VFS intern_act" where
  "buildClean hash rel =
     (case (if rel \<noteq> [] then pathIsClean rel else Inr False) of
        Inl _ \<Rightarrow> intern_fail
      | Inr clean \<Rightarrow> if clean then vfs_build hash [rel] else vfs_build hash [path_Clean rel])"

definition internClean :: "hash128 \<Rightarrow> string \<Rightarrow> VFS intern_act" where
  "internClean hash full =
     (if length full < vfsPrefixLen then intern_fail
      else
        let rel = drop vfsPrefixLen full
        in case (if rel = [] then Inr True else pathIsClean rel) of
             Inl _ \<Rightarrow> intern_fail
           | Inr clean \<Rightarrow>
               if clean then vfs_intern hash full
               else if full ! 2 = CHR ''B'' then buildClean hash rel
               else sourceClean hash rel)"

definition internPrefixedJoin :: "hash128 \<Rightarrow> string \<Rightarrow> string \<Rightarrow> VFS intern_act" where
  "internPrefixedJoin hash full suffix' =
     (if length full < vfsPrefixLen then intern_fail
      else ibind (\<lambda>t. internV hash t [drop vfsPrefixLen full, suffix']) (\<lambda>i. iret (vfs_of full i)))"

text \<open>\<^verbatim>\<open>vfsCompare\<close> orders files of the build tree before files of the source tree, then by path.\<close>

fun str_compare :: "string \<Rightarrow> string \<Rightarrow> int" where
  "str_compare [] [] = 0"
| "str_compare [] (y # ys) = -1"
| "str_compare (x # xs) [] = 1"
| "str_compare (x # xs) (y # ys) =
     (if (of_char x :: nat) < of_char y then -1 else if of_char y < (of_char x :: nat) then 1 else str_compare xs ys)"

definition vfsCompare :: "InternTable \<Rightarrow> VFS \<Rightarrow> VFS \<Rightarrow> int option" where
  "vfsCompare t a b =
     (if a = b then Some 0
      else
        let ab = isBuild a; bb = isBuild b
        in if ab \<noteq> bb then Some (if ab then -1 else 1)
           else (case VFS_relString t a of
                   None \<Rightarrow> None
                 | Some x \<Rightarrow> map_option (str_compare x) (VFS_relString t b)))"

section \<open>Words\<close>

definition STR_any :: "u32 \<Rightarrow> u32" where
  "STR_any s = push_bit 1 s"

definition VFS_any :: "VFS \<Rightarrow> u32" where
  "VFS_any v = push_bit 1 v OR 1"

definition VFS_cwd :: "VFS \<Rightarrow> u32" where
  "VFS_cwd v = (if v = 0 then 0 else VFS_any v)"

definition ANY_vfs :: "u32 \<Rightarrow> VFS" where
  "ANY_vfs a = (if a AND 1 = 0 then 0 else drop_bit 1 a)"

definition ANY_str :: "u32 \<Rightarrow> u32" where
  "ANY_str a = (if a AND 1 \<noteq> 0 then 0 else drop_bit 1 a)"

definition ANY_string :: "InternTable \<Rightarrow> u32 \<Rightarrow> string option" where
  "ANY_string t a =
     (let v = ANY_vfs a in if v \<noteq> 0 then VFS_string t v else internString t (ANY_str a))"

definition ANY_textSTR :: "hash128 \<Rightarrow> u32 \<Rightarrow> u32 intern_act" where
  "ANY_textSTR hash a =
     (let v = ANY_vfs a
      in if v \<noteq> 0 then ibind (iread (\<lambda>t. VFS_string t v)) (\<lambda>s t. internStr hash t s)
         else iret (ANY_str a))"

definition ANY_relOrSelf :: "u32 \<Rightarrow> u32" where
  "ANY_relOrSelf a = (let v = ANY_vfs a in if v \<noteq> 0 then VFS_rel v else ANY_str a)"

definition internAny :: "hash128 \<Rightarrow> string \<Rightarrow> u32 intern_act" where
  "internAny hash s =
     (if vfsHasPrefix s then ibind (vfs_intern hash s) (\<lambda>v. iret (VFS_any v))
      else ibind (\<lambda>t. internStr hash t s) (\<lambda>i. iret (STR_any i)))"

definition cwdVFS :: "hash128 \<Rightarrow> VFS \<Rightarrow> VFS \<Rightarrow> string \<Rightarrow> VFS intern_act" where
  "cwdVFS hash bldRootDirVFS srcRootDirVFS s =
     (if s = ''$(B)'' then iret bldRootDirVFS
      else if s = ''$(S)'' then iret srcRootDirVFS
      else if vfsHasPrefix s then vfs_intern hash s
      else intern_fail)"

definition cwdANY :: "hash128 \<Rightarrow> VFS \<Rightarrow> VFS \<Rightarrow> string \<Rightarrow> u32 intern_act" where
  "cwdANY hash bldRootDirVFS srcRootDirVFS s =
     (if s = ''$(B)'' \<or> s = ''$(S)'' \<or> vfsHasPrefix s
      then ibind (cwdVFS hash bldRootDirVFS srcRootDirVFS s) (\<lambda>v. iret (VFS_any v))
      else ibind (\<lambda>t. internStr hash t s) (\<lambda>i. iret (STR_any i)))"

definition canonicalANY :: "hash128 \<Rightarrow> u32 \<Rightarrow> u32 intern_act" where
  "canonicalANY hash a =
     (if ANY_vfs a = 0 then
        ibind (iread (\<lambda>t. internString t (ANY_str a))) (\<lambda>s.
          if vfsHasPrefix s then ibind (vfs_intern hash s) (\<lambda>v. iret (VFS_any v)) else iret a)
      else iret a)"

text \<open>The list versions return their argument itself when nothing changes, and a copy otherwise.\<close>

fun canonicalANYs :: "hash128 \<Rightarrow> u32 list \<Rightarrow> u32 list intern_act" where
  "canonicalANYs hash [] = iret []"
| "canonicalANYs hash (a # as) =
     ibind (canonicalANY hash a) (\<lambda>b. ibind (canonicalANYs hash as) (\<lambda>bs. iret (b # bs)))"

fun textANYs :: "hash128 \<Rightarrow> u32 list \<Rightarrow> u32 list intern_act" where
  "textANYs hash [] = iret []"
| "textANYs hash (a # as) =
     ibind (if ANY_vfs a \<noteq> 0 then ibind (ANY_textSTR hash a) (\<lambda>i. iret (STR_any i)) else iret a)
       (\<lambda>b. ibind (textANYs hash as) (\<lambda>bs. iret (b # bs)))"

definition appendANYText :: "InternTable \<Rightarrow> string \<Rightarrow> u32 \<Rightarrow> string option" where
  "appendANYText t b a =
     (let v = ANY_vfs a
      in if v = 0 then map_option (\<lambda>s. b @ s) (internString t (ANY_str a))
         else map_option (\<lambda>rel. if rel \<noteq> [] then b @ VFS_prefix v @ rel else b @ take (vfsPrefixLen - 1) (VFS_prefix v))
                (VFS_relString t v))"

fun join_any_text :: "InternTable \<Rightarrow> string \<Rightarrow> nat \<Rightarrow> u32 list \<Rightarrow> string \<Rightarrow> string option" where
  "join_any_text t b i [] sep = Some b"
| "join_any_text t b i (a # as) sep =
     (case appendANYText t (if i > 0 then b @ sep else b) a of
        None \<Rightarrow> None
      | Some b \<Rightarrow> join_any_text t b (Suc i) as sep)"

definition joinAnysSTR :: "hash128 \<Rightarrow> u32 list \<Rightarrow> string \<Rightarrow> u32 intern_act" where
  "joinAnysSTR hash as sep =
     (if length as = 1 \<and> ANY_vfs (as ! 0) = 0 then iret (ANY_str (as ! 0))
      else ibind (iread (\<lambda>t. join_any_text t [] 0 as sep)) (\<lambda>b t. internBytes hash t b))"

section \<open>The encodings\<close>

lemma vfsPrefixLen_5: "vfsPrefixLen = 5"
  by (simp add: vfsPrefixLen_def)

lemma or_one: "push_bit 1 (i :: u32) OR 1 = push_bit 1 i + 1"
proof -
  have "push_bit 1 i AND 1 = 0" by (rule bit_word_eqI) (simp add: bit_push_bit_iff bit_and_iff bit_1_iff del: push_bit_of_Suc_0 One_nat_def)
  then show ?thesis by (rule disjunctive_add_eq_or [symmetric])
qed

lemma unat_shift:
  assumes "unat (i :: u32) < 2 ^ 31"
  shows "unat (push_bit 1 i) = 2 * unat i" and "unat (push_bit 1 i OR 1) = 2 * unat i + 1"
proof -
  show e: "unat (push_bit 1 i) = 2 * unat i"
    using assms by (simp add: push_bit_eq_mult unat_word_ariths)
  then show "unat (push_bit 1 i OR 1) = 2 * unat i + 1"
    unfolding or_one using assms by (simp only: unat_word_ariths) simp
qed

lemma unat_and_1: "unat (w AND 1 :: u32) = unat w mod 2"
  using unat_and_mask [of w 1] by simp

lemma shift_back:
  assumes "unat (i :: u32) < 2 ^ 31"
  shows "drop_bit 1 (push_bit 1 i) = i" and "drop_bit 1 (push_bit 1 i OR 1) = i"
    and "push_bit 1 i AND 1 = 0" and "(push_bit 1 i OR 1) AND 1 \<noteq> (0 :: u32)"
proof -
  note u = unat_shift [OF assms]
  show "drop_bit 1 (push_bit 1 i) = i" "drop_bit 1 (push_bit 1 i OR 1) = i"
    by (simp_all only: word_unat_eq_iff unat_drop_bit u) auto
  show "push_bit 1 i AND 1 = 0" "(push_bit 1 i OR 1) AND 1 \<noteq> (0 :: u32)"
    by (simp_all only: word_unat_eq_iff unat_and_1 u) auto
qed

lemma VFS_simps:
  assumes "unat i < 2 ^ 31"
  shows "VFS_rel (STR_source i) = i" "VFS_rel (STR_build i) = i" "\<not> isBuild (STR_source i)" "isBuild (STR_build i)"
    "STR_source i = 0 \<longleftrightarrow> i = 0" "STR_build i \<noteq> 0"
    "unat (STR_source i) = 2 * unat i" "unat (STR_build i) = 2 * unat i + 1"
proof -
  show "VFS_rel (STR_source i) = i" "VFS_rel (STR_build i) = i" "\<not> isBuild (STR_source i)" "isBuild (STR_build i)"
    "unat (STR_source i) = 2 * unat i" "unat (STR_build i) = 2 * unat i + 1"
    using shift_back [OF assms] unat_shift [OF assms]
    by (simp_all only: STR_source_def STR_build_def VFS_rel_def isBuild_def or.right_neutral not_False_eq_True)
  then show "STR_source i = 0 \<longleftrightarrow> i = 0" "STR_build i \<noteq> 0"
    by (simp_all flip: unat_eq_0)
qed

lemma ANY_simps:
  assumes "unat i < 2 ^ 31"
  shows "ANY_str (STR_any i) = i" "ANY_vfs (STR_any i) = 0" "ANY_vfs (VFS_any i) = i" "ANY_str (VFS_any i) = 0"
  using shift_back [OF assms] by (simp_all only: STR_any_def VFS_any_def ANY_str_def ANY_vfs_def if_True if_False simp_thms)

text \<open>Reading texts.\<close>

definition vfs_text :: "string list \<Rightarrow> VFS \<Rightarrow> string" where
  "vfs_text T v =
     (let rel = T ! unat (VFS_rel v) in if rel = [] then take (vfsPrefixLen - 1) (VFS_prefix v) else VFS_prefix v @ rel)"

definition any_text :: "string list \<Rightarrow> u32 \<Rightarrow> string" where
  "any_text T a = (if ANY_vfs a \<noteq> 0 then vfs_text T (ANY_vfs a) else T ! unat (ANY_str a))"

definition vfs_ok :: "string list \<Rightarrow> VFS \<Rightarrow> bool" where
  "vfs_ok T v \<longleftrightarrow> unat (VFS_rel v) < length T"

definition any_ok :: "string list \<Rightarrow> u32 \<Rightarrow> bool" where
  "any_ok T a \<longleftrightarrow> (if ANY_vfs a \<noteq> 0 then vfs_ok T (ANY_vfs a) else unat (ANY_str a) < length T)"

lemma VFS_string_text: "vfs_ok (texts t) v \<Longrightarrow> VFS_string t v = Some (vfs_text (texts t) v)"
  by (simp add: VFS_string_def VFS_relString_def internString_spec vfs_ok_def vfs_text_def)

lemma VFS_stringLen_text: "vfs_ok (texts t) v \<Longrightarrow> VFS_stringLen t v = Some (length (vfs_text (texts t) v))"
  by (simp add: VFS_stringLen_def VFS_relString_def internString_spec vfs_ok_def vfs_text_def VFS_prefix_def
      vfsPrefixLen_def)

lemma ANY_string_text: "any_ok (texts t) a \<Longrightarrow> ANY_string t a = Some (any_text (texts t) a)"
  by (simp add: ANY_string_def any_ok_def any_text_def VFS_string_text internString_spec)

lemma appendANYText_text: "any_ok (texts t) a \<Longrightarrow> appendANYText t b a = Some (b @ any_text (texts t) a)"
  using internString_spec [of "VFS_rel (ANY_vfs a)" t] internString_spec [of "ANY_str a" t]
  by (cases "ANY_vfs a = 0")
    (simp_all add: appendANYText_def any_ok_def any_text_def vfs_ok_def vfs_text_def VFS_relString_def Let_def)

lemma join_any_text_tail:
  assumes "\<And>a. a \<in> set as \<Longrightarrow> any_ok (texts t) a" and "0 < i"
  shows "join_any_text t b i as sep = Some (b @ concat (map (\<lambda>a. sep @ any_text (texts t) a) as))"
  using assms by (induction as arbitrary: b i) (simp_all add: appendANYText_text)

lemma concat_join: "x @ concat (map (\<lambda>a. sep @ f a) as) = join_strings sep (x # map f as)"
proof (induction as arbitrary: x)
  case (Cons a as)
  have "concat (map (\<lambda>a. sep @ f a) (a # as)) = sep @ f a @ concat (map (\<lambda>a. sep @ f a) as)" by simp
  also have "\<dots> = sep @ join_strings sep (f a # map f as)" using Cons [of "f a"] by argo
  finally show ?case by (simp add: join_strings_Cons)
qed simp

lemma join_any_text_spec:
  assumes "\<And>a. a \<in> set as \<Longrightarrow> any_ok (texts t) a"
  shows "join_any_text t [] 0 as sep = Some (join_strings sep (map (any_text (texts t)) as))"
proof (cases as)
  case (Cons a bs)
  then show ?thesis
    using assms join_any_text_tail [of bs t 1] concat_join [of _ sep "any_text (texts t)" bs]
    by (simp add: appendANYText_text)
qed simp

text \<open>Texts only grow: what a number reads as stays.\<close>

lemma any_text_append:
  assumes "any_ok T a" shows "any_ok (T @ U) a" and "any_text (T @ U) a = any_text T a"
  using assms by (auto simp: any_ok_def any_text_def vfs_ok_def vfs_text_def nth_append split: if_splits)

lemma vfs_text_append:
  assumes "vfs_ok T v" shows "vfs_ok (T @ U) v" and "vfs_text (T @ U) v = vfs_text T v"
  using assms by (auto simp: vfs_ok_def vfs_text_def nth_append)

section \<open>The strings in use\<close>

text \<open>
  A finite set \<open>S\<close> of strings the program interns in a run, fewer than \<open>2 ^ 30\<close>, on which the hash is
  good. Every table of the run has its names in \<open>S\<close>, so its numbers fit the encodings.
\<close>

definition strings_ok :: "hash128 \<Rightarrow> string set \<Rightarrow> bool" where
  "strings_ok hash S \<longleftrightarrow> finite S \<and> card S < 2 ^ 30 - 1 \<and> hash_ok hash S \<and> (\<forall>s \<in> S. length s \<le> 2 ^ 48)"

definition in_use :: "hash128 \<Rightarrow> string set \<Rightarrow> InternTable \<Rightarrow> bool" where
  "in_use hash S t \<longleftrightarrow> strings_ok hash S \<and> intern_inv hash t \<and> names t \<subseteq> S"

text \<open>One table extends another: the texts it had stay.\<close>

definition extends :: "InternTable \<Rightarrow> InternTable \<Rightarrow> bool" where
  "extends t t' \<longleftrightarrow> (\<exists>U. texts t' = texts t @ U)"

lemma extends_refl [simp, intro]: "extends t t"
  by (simp add: extends_def)

lemma extends_trans [trans]: "extends t u \<Longrightarrow> extends u v \<Longrightarrow> extends t v"
  by (auto simp: extends_def)

lemma in_useD: "in_use hash S t \<Longrightarrow> strings_ok hash S" "in_use hash S t \<Longrightarrow> intern_inv hash t" "in_use hash S t \<Longrightarrow> names t \<subseteq> S"
  by (simp_all add: in_use_def)

lemma texts_small:
  assumes "in_use hash S t"
  shows "length (texts t) < 2 ^ 30" and "0 < length (texts t)"
proof -
  note inv = in_useD(2) [OF assms]
  have cells: "cells_ok t" using inv by (rule intern_invD)
  show pos: "0 < length (texts t)" using length_texts [OF cells] cells_okD(1) [OF cells] by simp
  have "distinct (tl (texts t))"
    unfolding distinct_conv_nth using texts_inj [OF inv, of "Suc _" "Suc _"] by (auto simp: nth_tl)
  then have "card (names t) = length (texts t) - 1" by (simp add: names_def distinct_card)
  then have "length (texts t) = card (names t) + 1" using pos by linarith
  moreover have "card (names t) \<le> card S" using assms by (intro card_mono) (auto simp: in_use_def strings_ok_def)
  moreover have "card S + 1 < 2 ^ 30" using assms by (simp add: in_use_def strings_ok_def)
  ultimately show "length (texts t) < 2 ^ 30" by linarith
qed

lemma extends_text:
  assumes "extends t t'" and "unat i < length (texts t)"
  shows "unat i < length (texts t')" and "texts t' ! unat i = texts t ! unat i"
  using assms by (auto simp: extends_def nth_append)

lemma extends_any:
  assumes "extends t t'" and "any_ok (texts t) a"
  shows "any_ok (texts t') a" and "any_text (texts t') a = any_text (texts t) a"
  using assms any_text_append by (auto simp: extends_def)

lemma extends_vfs:
  assumes "extends t t'" and "vfs_ok (texts t) a"
  shows "vfs_ok (texts t') a" and "vfs_text (texts t') a = vfs_text (texts t) a"
  using assms vfs_text_append by (auto simp: extends_def)

text \<open>\<^verbatim>\<open>internStr\<close> in a run.\<close>

definition str_is :: "InternTable \<Rightarrow> u32 \<Rightarrow> string \<Rightarrow> bool" where
  "str_is t i s \<longleftrightarrow> i \<noteq> 0 \<and> unat i < length (texts t) \<and> texts t ! unat i = s"

lemma internStr_run:
  assumes use: "in_use hash S t" and s: "s \<in> S"
  obtains i t' where "internStr hash t s = Some (i, t')" and "in_use hash S t'" and "extends t t'" and "str_is t' i s"
    and "unat i < 2 ^ 30"
proof -
  note inv = in_useD(2) [OF use]
  have cells: "cells_ok t" using inv by (rule intern_invD)
  have so: "strings_ok hash S" using use by (rule in_useD)
  have ok: "hash_ok hash (insert s (names t))"
    using so in_useD(3) [OF use] s by (auto simp: strings_ok_def elim: hash_ok_mono)
  have room: "intern_room t"
    using texts_small(1) [OF use] length_texts [OF cells] by (simp add: intern_room_def)
  have len: "length s \<le> 2 ^ 48" using so s by (simp add: strings_ok_def)
  obtain i t' where r: "internStr hash t s = Some (i, t')" "interned_as hash t s i t'"
    using internStr_spec [OF inv ok room len] by blast
  have nm: "names t' = insert s (names t)" using interned_as_names [OF r(2) cells] .
  have e: "intern_inv hash t'" "str_is t' i s" using r(2) unfolding interned_as_def str_is_def by blast+
  have "texts t' = (if s \<in> names t then texts t else texts t @ [s])" using r(2) unfolding interned_as_def by blast
  then have "extends t t'" by (simp add: extends_def)
  moreover have use': "in_use hash S t'" using e(1) so s in_useD(3) [OF use] by (simp add: in_use_def nm)
  moreover have "unat i < 2 ^ 30" using texts_small(1) [OF use'] e(2) by (simp add: str_is_def)
  ultimately show ?thesis using that r(1) e(2) by blast
qed

lemma vfs_of_text:
  assumes "str_is t i (drop 5 s)" and "vfsHasPrefix s" and "unat i < 2 ^ 30"
  shows "vfs_ok (texts t) (vfs_of s i)" and "vfs_of s i \<noteq> 0" and "unat (vfs_of s i) < 2 ^ 31"
    and "vfs_text (texts t) (vfs_of s i) = (if length s = 5 then take 4 s else s)"
proof -
  have i: "unat i < 2 ^ 31" "i \<noteq> 0" using assms(1,3) by (auto simp: str_is_def)
  have v: "vfs_of s i = (if s ! 2 = CHR ''B'' then STR_build i else STR_source i)"
    by (simp add: vfs_of_def STR_build_def STR_source_def)
  have rel: "VFS_rel (vfs_of s i) = i" using VFS_simps(1,2) [OF i(1)] by (simp add: v)
  then show "vfs_ok (texts t) (vfs_of s i)" using assms(1) by (simp add: vfs_ok_def str_is_def)
  show "vfs_of s i \<noteq> 0" using VFS_simps(5,6) [OF i(1)] i(2) by (simp add: v)
  show "unat (vfs_of s i) < 2 ^ 31" using VFS_simps(7,8) [OF i(1)] assms(3) by (simp add: v)
  obtain a b c d e r where s: "s = a # b # c # d # e # r"
    using assms(2) by (auto simp: vfsHasPrefix_def vfsPrefixLen_def Suc_le_length_iff numeral_eq_Suc)
  have pre: "VFS_prefix (vfs_of s i) = take 5 s"
    unfolding VFS_prefix_def v using assms(2) VFS_simps(3,4) [OF i(1)] by (auto simp: s vfsHasPrefix_def)
  then show "vfs_text (texts t) (vfs_of s i) = (if length s = 5 then take 4 s else s)"
    using assms(1) unfolding vfs_text_def rel pre by (auto simp: str_is_def vfsPrefixLen_def s)
qed

text \<open>The text a word written as \<open>s\<close> reads as: the root directories lose their slash.\<close>

definition canonical_text :: "string \<Rightarrow> string" where
  "canonical_text s = (if vfsHasPrefix s \<and> length s = 5 then take 4 s else s)"

lemma vfs_intern_run:
  assumes use: "in_use hash S t" and s: "vfsHasPrefix s" "drop 5 s \<in> S"
  obtains v t' where "vfs_intern hash s t = Some (v, t')" and "in_use hash S t'" and "extends t t'"
    and "vfs_ok (texts t') v" and "v \<noteq> 0" and "unat v < 2 ^ 31" and "vfs_text (texts t') v = canonical_text s"
proof -
  obtain i t' where r: "internStr hash t (drop 5 s) = Some (i, t')" "in_use hash S t'" "extends t t'"
    "str_is t' i (drop 5 s)" "unat i < 2 ^ 30"
    using internStr_run [OF use s(2)] by blast
  have "\<not> length s < 5" using s(1) by (simp add: vfsHasPrefix_def vfsPrefixLen_def)
  then have "vfs_intern hash s t = Some (vfs_of s i, t')" using r(1) by (simp add: vfs_intern_def vfsPrefixLen_5)
  then show ?thesis using that r vfs_of_text [OF r(4) s(1) r(5)] s(1) by (simp add: canonical_text_def)
qed

lemma VFS_any_text:
  assumes "vfs_ok T v" and "v \<noteq> 0" and "unat v < 2 ^ 31"
  shows "any_ok T (VFS_any v)" and "any_text T (VFS_any v) = vfs_text T v"
  using assms by (simp_all add: any_ok_def any_text_def ANY_simps)

lemma STR_any_text:
  assumes "unat i < length T" and "unat i < 2 ^ 31"
  shows "any_ok T (STR_any i)" and "any_text T (STR_any i) = T ! unat i"
  using assms by (simp_all add: any_ok_def any_text_def ANY_simps)

lemma internAny_run:
  assumes use: "in_use hash S t" and s: "s \<in> S" "vfsHasPrefix s \<Longrightarrow> drop 5 s \<in> S"
  obtains a t' where "internAny hash s t = Some (a, t')" and "in_use hash S t'" and "extends t t'"
    and "any_ok (texts t') a" and "any_text (texts t') a = canonical_text s"
proof (cases "vfsHasPrefix s")
  case True
  obtain v t' where r: "vfs_intern hash s t = Some (v, t')" "in_use hash S t'" "extends t t'"
    "vfs_ok (texts t') v" "v \<noteq> 0" "unat v < 2 ^ 31" "vfs_text (texts t') v = canonical_text s"
    using vfs_intern_run [OF use True s(2) [OF True]] by blast
  then have "internAny hash s t = Some (VFS_any v, t')" using True by (simp add: internAny_def)
  then show ?thesis using that r VFS_any_text [OF r(4-6)] by simp
next
  case False
  obtain i t' where r: "internStr hash t s = Some (i, t')" "in_use hash S t'" "extends t t'" "str_is t' i s" "unat i < 2 ^ 30"
    using internStr_run [OF use s(1)] by blast
  then have "internAny hash s t = Some (STR_any i, t')" using False by (simp add: internAny_def)
  then show ?thesis using that r STR_any_text [of i "texts t'"] False by (simp add: str_is_def canonical_text_def)
qed

lemma canonicalANY_run:
  assumes use: "in_use hash S t" and a: "any_ok (texts t) a"
    and S: "vfsHasPrefix (any_text (texts t) a) \<Longrightarrow> drop 5 (any_text (texts t) a) \<in> S"
  obtains b t' where "canonicalANY hash a t = Some (b, t')" and "in_use hash S t'" and "extends t t'"
    and "any_ok (texts t') b"
    and "any_text (texts t') b = (if ANY_vfs a = 0 then canonical_text (any_text (texts t) a) else any_text (texts t) a)"
proof (cases "ANY_vfs a = 0 \<and> vfsHasPrefix (any_text (texts t) a)")
  case True
  then have tx: "any_text (texts t) a = texts t ! unat (ANY_str a)" "unat (ANY_str a) < length (texts t)"
    using a by (simp_all add: any_text_def any_ok_def)
  obtain v t' where r: "vfs_intern hash (any_text (texts t) a) t = Some (v, t')" "in_use hash S t'" "extends t t'"
    "vfs_ok (texts t') v" "v \<noteq> 0" "unat v < 2 ^ 31" "vfs_text (texts t') v = canonical_text (any_text (texts t) a)"
    using vfs_intern_run [OF use] True S by blast
  then have "canonicalANY hash a t = Some (VFS_any v, t')"
    using True tx by (simp add: canonicalANY_def internString_spec)
  then show ?thesis using that r True VFS_any_text [OF r(4-6)] by simp
next
  case False
  have "canonicalANY hash a t = Some (a, t)"
    using False a by (auto simp: canonicalANY_def internString_spec any_ok_def any_text_def)
  then show ?thesis using that [of a t] use a False by (auto simp: canonical_text_def)
qed

lemma joinAnysSTR_run:
  assumes use: "in_use hash S t" and as: "\<And>a. a \<in> set as \<Longrightarrow> any_ok (texts t) a"
    and s: "s = join_strings sep (map (any_text (texts t)) as)" "s \<in> S"
    and one: "length as = 1 \<Longrightarrow> ANY_vfs (as ! 0) = 0 \<Longrightarrow> ANY_str (as ! 0) \<noteq> 0"
  obtains i t' where "joinAnysSTR hash as sep t = Some (i, t')" and "in_use hash S t'" and "extends t t'"
    and "str_is t' i s" and "unat i < 2 ^ 30"
proof (cases "length as = 1 \<and> ANY_vfs (as ! 0) = 0")
  case True
  then obtain a where a: "as = [a]" "ANY_vfs a = 0" by (auto simp: length_Suc_conv)
  have "str_is t (ANY_str a) s" using as a one s(1) by (simp add: str_is_def any_ok_def any_text_def)
  moreover have "unat (ANY_str a) < 2 ^ 30" using calculation texts_small(1) [OF use] by (simp add: str_is_def)
  moreover have "joinAnysSTR hash as sep t = Some (ANY_str a, t)" using a by (simp add: joinAnysSTR_def)
  ultimately show ?thesis using that use by blast
next
  case False
  obtain i t' where r: "internStr hash t s = Some (i, t')" "in_use hash S t'" "extends t t'" "str_is t' i s" "unat i < 2 ^ 30"
    using internStr_run [OF use s(2)] by blast
  have "joinAnysSTR hash as sep t = Some (i, t')"
    unfolding joinAnysSTR_def using False r(1) join_any_text_spec [of as t sep, OF as] s(1) by (auto simp: internBytes_def)
  then show ?thesis using that r by blast
qed

section \<open>The order of files\<close>

lemma char_antisym: "\<not> (of_char x :: nat) < of_char y \<Longrightarrow> \<not> of_char y < (of_char x :: nat) \<Longrightarrow> x = y"
  by (metis linorder_neqE_nat of_char_eq_iff)

lemma str_compare_0: "str_compare x y = 0 \<longleftrightarrow> x = y"
  by (induction x y rule: str_compare.induct) (auto dest: char_antisym)

lemma str_compare_swap: "str_compare y x = - str_compare x y"
  by (induction x y rule: str_compare.induct) auto

lemma str_compare_range: "str_compare x y \<in> {-1, 0, 1}"
  by (induction x y rule: str_compare.induct) auto

lemma str_compare_less:
  "str_compare (x # xs) (y # ys) < 0 \<longleftrightarrow> (of_char x :: nat) < of_char y \<or> x = y \<and> str_compare xs ys < 0"
  by (auto dest: char_antisym)

lemma str_compare_trans: "str_compare x y < 0 \<Longrightarrow> str_compare y z < 0 \<Longrightarrow> str_compare x z < 0"
proof (induction x y arbitrary: z rule: str_compare.induct)
  case (2 y ys)
  then show ?case by (cases z) auto
next
  case (4 x xs y ys)
  obtain w zs where z: "z = w # zs" using 4(3) by (cases z) auto
  have "x = y \<Longrightarrow> y = w \<Longrightarrow> str_compare xs ys < 0 \<Longrightarrow> str_compare ys zs < 0 \<Longrightarrow> str_compare xs zs < 0"
    using 4(1) by simp
  then show ?case using 4(2,3) unfolding z str_compare_less by auto
qed auto

lemma vfs_rel_inject: "VFS_rel a = VFS_rel b \<Longrightarrow> isBuild a = isBuild b \<Longrightarrow> a = b"
proof (rule word_div_mod_inject [of _ 2])
  assume rel: "VFS_rel a = VFS_rel b" and root: "isBuild a = isBuild b"
  show "unat a div 2 = unat b div 2"
    using arg_cong [OF rel, of unat] by (simp only: VFS_rel_def unat_drop_bit) simp
  have "unat v mod 2 = (if isBuild v then 1 else 0)" for v :: VFS
    using unat_and_1 [of v] by (auto simp: isBuild_def simp flip: unat_eq_0)
  then show "unat a mod 2 = unat b mod 2" using root by simp
qed

lemma vfsCompare_text:
  assumes "vfs_ok (texts t) a" and "vfs_ok (texts t) b"
  shows "vfsCompare t a b = Some (if isBuild a \<noteq> isBuild b then if isBuild a then -1 else 1
    else str_compare (texts t ! unat (VFS_rel a)) (texts t ! unat (VFS_rel b)))"
  using assms str_compare_0 [of "texts t ! unat (VFS_rel b)" "texts t ! unat (VFS_rel b)"]
  by (auto simp: vfsCompare_def VFS_relString_def internString_spec vfs_ok_def Let_def)

section \<open>The memo of dollars\<close>

text \<open>
  \<^verbatim>\<open>strHasDollar\<close> keeps in two bits for each word whether its text has a dollar sign and whether
  expansion would change it (\<^verbatim>\<open>str_dollar.go\<close>, and \<^verbatim>\<open>textDerefChanges\<close> of \<^verbatim>\<open>deref.go\<close>).
\<close>

definition isMacroAlnum :: "char \<Rightarrow> bool" where
  "isMacroAlnum b \<longleftrightarrow> (let n = of_char b :: nat in
     97 \<le> n \<and> n \<le> 122 \<or> 65 \<le> n \<and> n \<le> 90 \<or> 48 \<le> n \<and> n \<le> 57)"

text \<open>The loop over the dollar signs, from the text behind the first one.\<close>

function deref_scan :: "string \<Rightarrow> bool" where
  "deref_scan rest =
     (let rest = dropWhile isMacroAlnum rest
      in if rest \<noteq> [] \<and> hd rest = CHR ''{'' then True
         else if CHR ''$'' \<notin> set rest then False
         else deref_scan (tl (dropWhile (\<lambda>c. c \<noteq> CHR ''$'') rest)))"
  by pat_completeness auto
termination
proof (relation "measure length")
  fix rest :: string and x
  assume x: "x = dropWhile isMacroAlnum rest" and d: "\<not> CHR ''$'' \<notin> set x"
  have "length (dropWhile (\<lambda>c. c \<noteq> CHR ''$'') x) \<le> length x" by (rule length_dropWhile_le)
  moreover have "length x \<le> length rest" unfolding x by (rule length_dropWhile_le)
  moreover have "dropWhile (\<lambda>c. c \<noteq> CHR ''$'') x \<noteq> []" using d by (auto simp: dropWhile_eq_Nil_conv)
  ultimately show "(tl (dropWhile (\<lambda>c. c \<noteq> CHR ''$'') x), rest) \<in> measure length"
    by (cases "dropWhile (\<lambda>c. c \<noteq> CHR ''$'') x") auto
qed simp

declare deref_scan.simps [simp del]

definition textDerefChanges :: "string \<Rightarrow> bool" where
  "textDerefChanges text' \<longleftrightarrow> CHR 0x5C \<in> set text' \<or>
     CHR ''$'' \<in> set text' \<and> deref_scan (tl (dropWhile (\<lambda>c. c \<noteq> CHR ''$'') text'))"

definition dollarUnseen :: u8 where "dollarUnseen = 0"
definition dollarAbsent :: u8 where "dollarAbsent = 1"
definition dollarPresent :: u8 where "dollarPresent = 2"
definition dollarDeref :: u8 where "dollarDeref = 3"

definition strDollarFill :: "InternTable \<Rightarrow> u32 \<Rightarrow> TwoBitSet \<Rightarrow> (u8 \<times> TwoBitSet) option" where
  "strDollarFill t a memo =
     (case ANY_string t a of
        None \<Rightarrow> None
      | Some text' \<Rightarrow>
          let state = dollarAbsent;
              state = (if CHR ''$'' \<in> set text' then if textDerefChanges text' then dollarDeref else dollarPresent else state)
          in Some (state, TwoBitSet_set memo a state))"

definition strDollarState :: "InternTable \<Rightarrow> u32 \<Rightarrow> TwoBitSet \<Rightarrow> (u8 \<times> TwoBitSet) option" where
  "strDollarState t a memo =
     (let cell = TwoBitSet_get memo a
      in if cell \<noteq> dollarUnseen then Some (cell, memo) else strDollarFill t a memo)"

definition strHasDollar :: "InternTable \<Rightarrow> u32 \<Rightarrow> TwoBitSet \<Rightarrow> (bool \<times> TwoBitSet) option" where
  "strHasDollar t a memo =
     (let cell = TwoBitSet_get memo a
      in if cell \<noteq> dollarUnseen then Some (dollarPresent \<le> cell, memo)
         else map_option (\<lambda>(s, memo). (dollarPresent \<le> s, memo)) (strDollarFill t a memo))"

definition dollar_of :: "string \<Rightarrow> u8" where
  "dollar_of s = (if CHR ''$'' \<in> set s then if textDerefChanges s then dollarDeref else dollarPresent else dollarAbsent)"

text \<open>The memo is right when every cell that is filled holds the state of its text.\<close>

definition dollar_inv :: "string list \<Rightarrow> TwoBitSet \<Rightarrow> bool" where
  "dollar_inv T memo \<longleftrightarrow> TwoBitSet_inv memo \<and>
     (\<forall>a. TwoBitSet_get memo a \<noteq> dollarUnseen \<longrightarrow> any_ok T a \<and> TwoBitSet_get memo a = dollar_of (any_text T a))"

lemmas dollar_consts = dollarUnseen_def dollarAbsent_def dollarPresent_def dollarDeref_def

lemma strDollarFill_spec:
  assumes inv: "dollar_inv (texts t) memo" and a: "any_ok (texts t) a"
  shows "\<exists>memo'. strDollarFill t a memo = Some (dollar_of (any_text (texts t) a), memo') \<and> dollar_inv (texts t) memo'"
proof -
  let ?d = "dollar_of (any_text (texts t) a)" and ?m = "TwoBitSet_set memo a (dollar_of (any_text (texts t) a))"
  have m: "TwoBitSet_inv memo" using inv by (simp add: dollar_inv_def)
  have d: "?d AND 3 = ?d" by (simp add: dollar_of_def dollar_consts)
  have "strDollarFill t a memo = Some (?d, ?m)"
    unfolding strDollarFill_def ANY_string_text [OF a] by (simp add: dollar_of_def)
  moreover have "dollar_inv (texts t) ?m"
    using inv a d TwoBitSet_set_inv [OF m] TwoBitSet_get_set [OF m] by (auto simp: dollar_inv_def)
  ultimately show ?thesis by blast
qed

lemma strHasDollar_run:
  assumes inv: "dollar_inv (texts t) memo" and a: "any_ok (texts t) a"
  obtains memo' where "strHasDollar t a memo = Some (CHR ''$'' \<in> set (any_text (texts t) a), memo')"
    and "dollar_inv (texts t) memo'"
proof -
  have le: "dollarPresent \<le> dollar_of s \<longleftrightarrow> CHR ''$'' \<in> set s" for s
    by (simp add: dollar_of_def dollar_consts word_le_nat_alt)
  show ?thesis
  proof (cases "TwoBitSet_get memo a = dollarUnseen")
    case True
    then show ?thesis using strDollarFill_spec [OF assms] that le by (auto simp: strHasDollar_def)
  next
    case False
    then have "TwoBitSet_get memo a = dollar_of (any_text (texts t) a)" using inv by (simp add: dollar_inv_def)
    then show ?thesis using False that [of memo] inv le by (simp add: strHasDollar_def)
  qed
qed

lemma dollar_inv_extends: "dollar_inv (texts t) memo \<Longrightarrow> extends t t' \<Longrightarrow> dollar_inv (texts t') memo"
  using extends_any by (auto simp: dollar_inv_def)

section \<open>Properties\<close>

text \<open>
  C30: The encodings of files and words in 32 bits can be decoded for every string number below
  \<open>2 ^ 30\<close>: the path of a file and its tree are read back, a word is read back as the string or the
  file it was made from and never as the other, and different words have different numbers. From
  \<open>2 ^ 30\<close> on the shifts lose the top bit without notice: a built file then reads as another file.
\<close>

theorem encodings_roundtrip:
  assumes "unat i < 2 ^ 30" and "unat j < 2 ^ 30" and "i \<noteq> 0" and "j \<noteq> 0"
  shows "VFS_rel (STR_source i) = i \<and> \<not> isBuild (STR_source i) \<and> VFS_rel (STR_build i) = i \<and> isBuild (STR_build i)
    \<and> ANY_str (STR_any i) = i \<and> ANY_vfs (STR_any i) = 0
    \<and> ANY_vfs (VFS_any (STR_source i)) = STR_source i \<and> ANY_str (VFS_any (STR_source i)) = 0
    \<and> ANY_vfs (VFS_any (STR_build i)) = STR_build i \<and> ANY_str (VFS_any (STR_build i)) = 0
    \<and> distinct [STR_any i, VFS_any (STR_source i), VFS_any (STR_build i)]
    \<and> (i \<noteq> j \<longrightarrow> distinct [STR_any i, VFS_any (STR_source i), VFS_any (STR_build i),
         STR_any j, VFS_any (STR_source j), VFS_any (STR_build j)])
    \<and> ANY_vfs (VFS_any (STR_build (2 ^ 30))) = STR_build 0"
proof -
  have b: "unat i < 2 ^ 31" "unat j < 2 ^ 31" using assms(1,2) by simp_all
  note vi = VFS_simps [OF b(1)] and vj = VFS_simps [OF b(2)]
  have src: "unat (STR_source i) < 2 ^ 31" "unat (STR_build i) < 2 ^ 31" "unat (STR_source j) < 2 ^ 31" "unat (STR_build j) < 2 ^ 31"
    using vi(7,8) vj(7,8) assms(1,2) by simp_all
  note ai = ANY_simps [OF b(1)] ANY_simps [OF src(1)] ANY_simps [OF src(2)]
  note aj = ANY_simps [OF b(2)] ANY_simps [OF src(3)] ANY_simps [OF src(4)]
  have root: "STR_source x \<noteq> STR_build y" if "unat x < 2 ^ 31" "unat y < 2 ^ 31" for x y
    using VFS_simps(3) [OF that(1)] VFS_simps(4) [OF that(2)] by metis
  have d: "distinct [STR_any i, VFS_any (STR_source i), VFS_any (STR_build i)]"
    using ai root [OF b(1) b(1)] vi(5,6) assms(3) by (simp; metis)
  moreover have "distinct [STR_any i, VFS_any (STR_source i), VFS_any (STR_build i),
      STR_any j, VFS_any (STR_source j), VFS_any (STR_build j)]" if ij: "i \<noteq> j"
  proof -
    have "STR_any i \<noteq> STR_any j" "VFS_any (STR_source i) \<noteq> VFS_any (STR_source j)" "VFS_any (STR_build i) \<noteq> VFS_any (STR_build j)"
      using ij ai aj vi(1,2) vj(1,2) by metis+
    moreover have "STR_any x \<noteq> VFS_any v" if "unat x < 2 ^ 31" "unat v < 2 ^ 31" "v \<noteq> 0" for x v
      using ANY_simps(2) [OF that(1)] ANY_simps(3) [OF that(2)] that(3) by metis
    moreover have "VFS_any (STR_source i) \<noteq> VFS_any (STR_build j)" "VFS_any (STR_build i) \<noteq> VFS_any (STR_source j)"
      using ai aj root b by metis+
    moreover have "distinct [STR_any j, VFS_any (STR_source j), VFS_any (STR_build j)]"
      using aj root [OF b(2) b(2)] vj(5,6) assms(4) by (simp; metis)
    ultimately show ?thesis using d b src vi(5,6) vj(5,6) assms(3,4)
      by (simp only: distinct.simps list.set insert_iff empty_iff) metis
  qed
  moreover have "ANY_vfs (VFS_any (STR_build (2 ^ 30))) = STR_build 0"
    by (simp add: ANY_vfs_def VFS_any_def STR_build_def)
  ultimately show ?thesis using vi ai by blast
qed

theorem encodings_roundtrip_witness:
  "VFS_rel (STR_build 5) = 5 \<and> ANY_vfs (VFS_any (STR_build 5)) = STR_build 5 \<and> STR_any 5 \<noteq> VFS_any (STR_source 7)"
  using encodings_roundtrip [of 5 7] by simp

text \<open>
  C29: A word reads back as it was written: the text of \<^verbatim>\<open>internAny(s)\<close>, whether it became a file or a
  string, is \<open>s\<close>, but the root directories lose their slash; \<^verbatim>\<open>canonicalANY\<close>, which turns a string
  that names a file into the file, keeps the text in the same sense.
\<close>

theorem internAny_roundtrip:
  assumes "in_use hash S t" and "s \<in> S" and "vfsHasPrefix s \<longrightarrow> drop 5 s \<in> S"
  shows "\<exists>a t' b t''. internAny hash s t = Some (a, t') \<and> ANY_string t' a = Some (canonical_text s)
    \<and> canonicalANY hash a t' = Some (b, t'') \<and> ANY_string t'' b = Some (canonical_text s) \<and> in_use hash S t''"
proof -
  obtain a t' where a: "internAny hash s t = Some (a, t')" "in_use hash S t'" "extends t t'"
    "any_ok (texts t') a" "any_text (texts t') a = canonical_text s"
    using internAny_run [OF assms(1,2)] assms(3) by blast
  have pre: "vfsHasPrefix (canonical_text s) \<Longrightarrow> canonical_text s = s"
    by (auto simp: canonical_text_def vfsHasPrefix_def vfsPrefixLen_def split: if_splits)
  obtain b t'' where b: "canonicalANY hash a t' = Some (b, t'')" "in_use hash S t''" "extends t' t''" "any_ok (texts t'') b"
    "any_text (texts t'') b = (if ANY_vfs a = 0 then canonical_text (any_text (texts t') a) else any_text (texts t') a)"
    using canonicalANY_run [OF a(2,4)] a(5) assms(3) pre by metis
  have "canonical_text (canonical_text s) = canonical_text s"
    using pre by (auto simp: canonical_text_def)
  then show ?thesis
    using a b ANY_string_text [OF a(4)] ANY_string_text [OF b(4)] by auto
qed

lemma small_table:
  obtains t where "internTable = Some t" and "in_use (\<lambda>s. (7, of_nat (length s))) {''x'', ''$(B)/x'', ''a b''} t" and "texts t = [[]]"
proof -
  let ?h = "\<lambda>s :: string. (7 :: u64, of_nat (length s) :: u64)"
  obtain t where t: "internTable = Some t" "intern_inv ?h t" "texts t = [[]]" by (rule internTable_spec)
  moreover have "strings_ok ?h {''x'', ''$(B)/x'', ''a b''}" by (auto simp: strings_ok_def hash_ok_def inj_on_def)
  ultimately show ?thesis using that by (simp add: in_use_def names_def)
qed

theorem internAny_roundtrip_witness:
  "\<exists>t a t'. internTable = Some t \<and> internAny (\<lambda>s. (7, of_nat (length s))) ''$(B)/x'' t = Some (a, t')
    \<and> ANY_string t' a = Some ''$(B)/x''"
proof -
  obtain t where t: "internTable = Some t" "in_use (\<lambda>s. (7, of_nat (length s))) {''x'', ''$(B)/x'', ''a b''} t"
    by (rule small_table)
  then show ?thesis
    using internAny_roundtrip [OF t(2), of "''$(B)/x''"] by (auto simp: canonical_text_def)
qed

text \<open>
  \<^verbatim>\<open>vfsCompare\<close> is a strict total order of the files of the table: it returns 0 on equal files
  only, changes its sign with its arguments, and is transitive.
\<close>

theorem vfsCompare_order:
  assumes "intern_inv hash t" and "\<forall>v \<in> {a, b, c}. vfs_ok (texts t) v \<and> VFS_rel v \<noteq> 0"
  shows "\<exists>x y z. vfsCompare t a b = Some x \<and> vfsCompare t b a = Some (- x) \<and> (x = 0 \<longleftrightarrow> a = b)
    \<and> vfsCompare t b c = Some y \<and> vfsCompare t a c = Some z \<and> (x < 0 \<and> y < 0 \<longrightarrow> z < 0)"
proof -
  have ok: "vfs_ok (texts t) a" "vfs_ok (texts t) b" "vfs_ok (texts t) c" "VFS_rel a \<noteq> 0" "VFS_rel b \<noteq> 0"
    using assms(2) by auto
  have "str_compare (texts t ! unat (VFS_rel a)) (texts t ! unat (VFS_rel b)) = 0 \<Longrightarrow> VFS_rel a = VFS_rel b"
  proof -
    assume "str_compare (texts t ! unat (VFS_rel a)) (texts t ! unat (VFS_rel b)) = 0"
    then have "unat (VFS_rel a) = unat (VFS_rel b)"
      using ok by (intro texts_inj [OF assms(1)]) (auto simp: str_compare_0 unat_gt_0 vfs_ok_def)
    then show ?thesis by (simp add: word_unat_eq_iff)
  qed
  then have zero: "(if isBuild a \<noteq> isBuild b then if isBuild a then -1 else 1
      else str_compare (texts t ! unat (VFS_rel a)) (texts t ! unat (VFS_rel b))) = (0 :: int) \<longleftrightarrow> a = b"
    using vfs_rel_inject [of a b] str_compare_0 by auto
  show ?thesis
    unfolding vfsCompare_text [OF ok(1,2)] vfsCompare_text [OF ok(2,1)] vfsCompare_text [OF ok(2,3)] vfsCompare_text [OF ok(1,3)]
    using zero str_compare_swap [of "texts t ! unat (VFS_rel b)" "texts t ! unat (VFS_rel a)"]
      str_compare_trans [of "texts t ! unat (VFS_rel a)" "texts t ! unat (VFS_rel b)" "texts t ! unat (VFS_rel c)"]
    by auto
qed

theorem vfsCompare_order_witness:
  "\<exists>t i t' x. internTable = Some t \<and> internStr (\<lambda>s. (7, of_nat (length s))) t ''x'' = Some (i, t')
    \<and> vfsCompare t' (STR_build i) (STR_source i) = Some x \<and> x \<noteq> 0"
proof -
  let ?h = "\<lambda>s :: string. (7 :: u64, of_nat (length s) :: u64)"
  obtain t where t: "internTable = Some t" "in_use ?h {''x'', ''$(B)/x'', ''a b''} t" by (rule small_table)
  then obtain i t' where i: "internStr ?h t ''x'' = Some (i, t')" "in_use ?h {''x'', ''$(B)/x'', ''a b''} t'" "str_is t' i ''x''" "unat i < 2 ^ 30"
    using internStr_run [OF t(2), of "''x''"] by blast
  have "unat i < 2 ^ 31" using i(4) by simp
  note v = VFS_simps [OF this]
  have "STR_build i \<noteq> STR_source i" using v(3,4) by metis
  moreover have "\<forall>v \<in> {STR_build i, STR_source i, STR_source i}. vfs_ok (texts t') v \<and> VFS_rel v \<noteq> 0"
    using i(3) v by (simp add: vfs_ok_def str_is_def)
  ultimately show ?thesis using vfsCompare_order [OF in_useD(2) [OF i(2)], of "STR_build i" "STR_source i" "STR_source i"] t(1) i(1) by blast
qed

end
