(* ===== verification/Ay_Env.thy ===== *)
theory Ay_Env
  imports Ay_Vfs
begin

text \<open>
  The environment of variables of a module (\<^verbatim>\<open>env.go\<close>, and the resource bindings of
  \<^verbatim>\<open>command_resource_uses.go\<close>): values by the number of the variable, in two arrays of kinds and
  numbers of texts. Appending to a variable is delayed: the words are kept in \<open>es_appends\<close>, and the
  joined text is interned when the variable is next read. \<open>es_pending\<close> is a set of bits that says for
  which variables to look there.

  A pointer to a store is the store's address (\<open>es_addr\<close>). The constants \<^verbatim>\<open>strEmpty\<close>, \<^verbatim>\<open>strYes\<close>, \<^verbatim>\<open>strNo\<close>
  and \<^verbatim>\<open>intSTR\<close>, interned when the program starts, are the record \<open>EnvConsts\<close>. The number \<open>cnt\<close> of
  \<^verbatim>\<open>ensure\<close> is \<^verbatim>\<open>envTable.count\<close>. The scratch buffer \<^verbatim>\<open>joined\<close> only saves allocations and is left out.
\<close>

section \<open>The store\<close>

datatype EnvKind = envAbsent | envStr | envInt | envVFS

record EnvConsts =
  k_strEmpty :: u32
  k_strYes :: u32
  k_strNo :: u32
  k_intSTR :: "u32 list"

record envAppend =
  ea_id :: u32
  ea_counted :: nat
  ea_n :: int
  ea_parts :: "u32 list"

record EnvResourceBinding =
  rb_id :: u32
  rb_key :: u32

record EnvStore =
  es_addr :: nat
  es_val :: "u32 Vec"
  es_kind :: "EnvKind Vec"
  es_appends :: "envAppend list"
  es_pending :: BitSet
  es_textInputs :: "u32 \<rightharpoonup> (nat \<times> nat) list"
  es_resourceBindings :: "EnvResourceBinding list"
  es_included :: "u32 \<rightharpoonup> bool"
  es_confBase :: "nat option"
  es_confWrites :: "u32 list"

definition newEnvStore :: "nat \<Rightarrow> EnvStore" where
  "newEnvStore addr = \<lparr>es_addr = addr, es_val = Vec_empty, es_kind = Vec_empty, es_appends = [], es_pending = BitSet_empty,
     es_textInputs = Map.empty, es_resourceBindings = [], es_included = Map.empty, es_confBase = None, es_confWrites = []\<rparr>"

text \<open>\<^verbatim>\<open>s[:n]\<close> followed by \<^verbatim>\<open>clear(s[old:])\<close>.\<close>

definition expose :: "'a \<Rightarrow> 'a Vec \<Rightarrow> nat \<Rightarrow> nat \<Rightarrow> 'a Vec" where
  "expose z v old n = \<lparr>vec_arr = take old (vec_arr v) @ replicate (n - old) z @ drop n (vec_arr v), vec_len = n\<rparr>"

definition fresh_copy :: "'a \<Rightarrow> 'a Vec \<Rightarrow> nat \<Rightarrow> 'a Vec" where
  "fresh_copy z v n = \<lparr>vec_arr = take n (vec_s v) @ replicate (n - vec_len v) z, vec_len = n\<rparr>"

definition EnvStore_ensure :: "nat \<Rightarrow> EnvStore \<Rightarrow> u32 \<Rightarrow> EnvStore" where
  "EnvStore_ensure cnt s e =
     (if unat e < vec_len (es_kind s) then s
      else
        let n = max (unat e + 1) cnt;
            old = vec_len (es_kind s)
        in if n \<le> length (vec_arr (es_kind s)) \<and> n \<le> length (vec_arr (es_val s))
           then s\<lparr>es_kind := expose envAbsent (es_kind s) old n, es_val := expose 0 (es_val s) old n\<rparr>
           else
             let n = max n (old + old div 8 + 64)
             in s\<lparr>es_kind := fresh_copy envAbsent (es_kind s) n, es_val := fresh_copy 0 (es_val s) n\<rparr>)"

text \<open>The first entry of a variable in the list of appends, and the list without it.\<close>

fun take_append :: "u32 \<Rightarrow> envAppend list \<Rightarrow> (envAppend \<times> envAppend list) option" where
  "take_append e [] = None"
| "take_append e (a # as) =
     (if ea_id a = e then Some (a, as)
      else map_option (\<lambda>(b, bs). (b, a # bs)) (take_append e as))"

definition dropAppend :: "EnvStore \<Rightarrow> u32 \<Rightarrow> EnvStore" where
  "dropAppend s e =
     (if \<not> BitSet_has (es_pending s) e then s
      else case take_append e (es_appends s) of
             None \<Rightarrow> s
           | Some (_, as) \<Rightarrow> s\<lparr>es_appends := as, es_pending := BitSet_remove (es_pending s) e\<rparr>)"

section \<open>Resource bindings\<close>

text \<open>The binary search of \<^verbatim>\<open>resourceBindingIndex\<close>.\<close>

function binding_search :: "EnvResourceBinding list \<Rightarrow> u32 \<Rightarrow> nat \<Rightarrow> nat \<Rightarrow> nat" where
  "binding_search bs e lo hi =
     (if lo < hi
      then let mid = (lo + hi) div 2
           in if rb_id (bs ! mid) < e then binding_search bs e (mid + 1) hi else binding_search bs e lo mid
      else lo)"
  by pat_completeness auto
termination
  by (relation "measure (\<lambda>(bs, e, lo, hi). hi - lo)") auto

declare binding_search.simps [simp del]

definition resourceBindingIndex :: "EnvStore \<Rightarrow> u32 \<Rightarrow> nat" where
  "resourceBindingIndex s e = binding_search (es_resourceBindings s) e 0 (length (es_resourceBindings s))"

definition clearResourceBinding :: "EnvStore \<Rightarrow> u32 \<Rightarrow> EnvStore" where
  "clearResourceBinding s e =
     (let i = resourceBindingIndex s e; bs = es_resourceBindings s
      in if i < length bs \<and> rb_id (bs ! i) = e then s\<lparr>es_resourceBindings := take i bs @ drop (Suc i) bs\<rparr> else s)"

definition recordResourceUse :: "EnvStore \<Rightarrow> u32 list option \<Rightarrow> u32 \<Rightarrow> u32 list option" where
  "recordResourceUse s uses e =
     (case uses of
        None \<Rightarrow> None
      | Some keys \<Rightarrow>
          let i = resourceBindingIndex s e; bs = es_resourceBindings s
          in if i < length bs \<and> rb_id (bs ! i) = e
             then let key = rb_key (bs ! i) in Some (if key \<noteq> 0 \<and> key \<notin> set keys then keys @ [key] else keys)
             else Some keys)"

section \<open>Setting values\<close>

definition confWrite :: "EnvStore \<Rightarrow> u32 \<Rightarrow> EnvStore" where
  "confWrite s e = (if es_confBase s \<noteq> None then s\<lparr>es_confWrites := es_confWrites s @ [e]\<rparr> else s)"

definition store_value :: "nat \<Rightarrow> EnvStore \<Rightarrow> u32 \<Rightarrow> EnvKind \<Rightarrow> u32 \<Rightarrow> EnvStore" where
  "store_value cnt s e k v =
     (let s = s\<lparr>es_textInputs := (es_textInputs s)(e := None)\<rparr>;
          s = clearResourceBinding s e;
          s = confWrite s e;
          s = EnvStore_ensure cnt s e
      in s\<lparr>es_kind := Vec_store (es_kind s) (unat e) k, es_val := Vec_store (es_val s) (unat e) v\<rparr>)"

definition setVFS :: "nat \<Rightarrow> EnvStore \<Rightarrow> u32 \<Rightarrow> VFS \<Rightarrow> EnvStore" where
  "setVFS cnt s e v = store_value cnt (if es_appends s \<noteq> [] then dropAppend s e else s) e envVFS v"

definition setStrID :: "nat \<Rightarrow> EnvStore \<Rightarrow> u32 \<Rightarrow> u32 \<Rightarrow> EnvStore" where
  "setStrID cnt s e v = store_value cnt (if es_appends s \<noteq> [] then dropAppend s e else s) e envStr v"

text \<open>\<^verbatim>\<open>setInt\<close> has no \<^verbatim>\<open>dropAppend\<close>.\<close>

definition setInt :: "EnvConsts \<Rightarrow> nat \<Rightarrow> EnvStore \<Rightarrow> u32 \<Rightarrow> nat \<Rightarrow> EnvStore option" where
  "setInt K cnt s e n = map_option (\<lambda>v. store_value cnt s e envInt v) (at_opt (k_intSTR K) n)"

definition setBool :: "EnvConsts \<Rightarrow> nat \<Rightarrow> EnvStore \<Rightarrow> u32 \<Rightarrow> bool \<Rightarrow> EnvStore" where
  "setBool K cnt s e v = setStrID cnt s e (if v then k_strYes K else k_strNo K)"

section \<open>The world of an environment\<close>

record EnvWorld =
  ew_tab :: InternTable
  ew_dollar :: TwoBitSet
  ew_cnt :: nat
  ew_store :: EnvStore
  ew_uses :: "u32 list option"

type_synonym 'a env_act = "EnvWorld \<Rightarrow> ('a \<times> EnvWorld) option"

definition eret :: "'a \<Rightarrow> 'a env_act" where
  "eret x w = Some (x, w)"

definition ebind :: "'a env_act \<Rightarrow> ('a \<Rightarrow> 'b env_act) \<Rightarrow> 'b env_act" where
  "ebind m f w = (case m w of None \<Rightarrow> None | Some (x, w) \<Rightarrow> f x w)"

definition eintern :: "'a intern_act \<Rightarrow> 'a env_act" where
  "eintern m w = map_option (\<lambda>(x, t). (x, w\<lparr>ew_tab := t\<rparr>)) (m (ew_tab w))"

definition estore :: "(nat \<Rightarrow> EnvStore \<Rightarrow> EnvStore) \<Rightarrow> unit env_act" where
  "estore f w = Some ((), w\<lparr>ew_store := f (ew_cnt w) (ew_store w)\<rparr>)"

definition eget :: "(EnvWorld \<Rightarrow> 'a) \<Rightarrow> 'a env_act" where
  "eget f w = Some (f w, w)"

definition etext :: "u32 \<Rightarrow> string env_act" where
  "etext i w = map_option (\<lambda>s. (s, w)) (internString (ew_tab w) i)"

definition evfs_text :: "VFS \<Rightarrow> string env_act" where
  "evfs_text v w = map_option (\<lambda>s. (s, w)) (VFS_string (ew_tab w) v)"

definition erecord :: "u32 \<Rightarrow> unit env_act" where
  "erecord e w = Some ((), w\<lparr>ew_uses := recordResourceUse (ew_store w) (ew_uses w) e\<rparr>)"

section \<open>Pending appends\<close>

definition settle :: "hash128 \<Rightarrow> u32 \<Rightarrow> unit env_act" where
  "settle hash e w =
     (case take_append e (es_appends (ew_store w)) of
        None \<Rightarrow> Some ((), w)
      | Some (a, as) \<Rightarrow>
          (case join_any_text (ew_tab w) [] 0 (ea_parts a) '' '' of
             None \<Rightarrow> None
           | Some buf \<Rightarrow>
               let s = ew_store w;
                   w = w\<lparr>ew_store := s\<lparr>es_appends := as, es_pending := BitSet_remove (es_pending s) e\<rparr>\<rparr>;
                   ranges = es_textInputs s e
               in ebind
                    (if vfsHasPrefix buf
                     then ebind (eintern (vfs_intern hash buf)) (\<lambda>v. estore (\<lambda>cnt s. setVFS cnt s e v))
                     else ebind (eintern (\<lambda>t. internBytes hash t buf)) (\<lambda>i. estore (\<lambda>cnt s. setStrID cnt s e i)))
                    (\<lambda>_. if ranges \<noteq> None
                         then estore (\<lambda>cnt s. s\<lparr>es_textInputs := (es_textInputs s)(e := ranges)\<rparr>) else eret ()) w))"

fun settleAll_loop :: "nat \<Rightarrow> hash128 \<Rightarrow> unit env_act" where
  "settleAll_loop 0 hash w = (if es_appends (ew_store w) = [] then Some ((), w) else None)"
| "settleAll_loop (Suc fuel) hash w =
     (case es_appends (ew_store w) of
        [] \<Rightarrow> Some ((), w)
      | a # _ \<Rightarrow> ebind (settle hash (ea_id a)) (\<lambda>_. settleAll_loop fuel hash) w)"

text \<open>Each round settles one entry: as many rounds as there are entries are enough (\<open>settleAll_run\<close>).\<close>

definition settleAll :: "hash128 \<Rightarrow> unit env_act" where
  "settleAll hash w = settleAll_loop (length (es_appends (ew_store w))) hash w"

definition EnvStore_cells :: "EnvStore \<Rightarrow> u32 \<Rightarrow> EnvKind \<times> u32" where
  "EnvStore_cells s e =
     (if unat e < vec_len (es_kind s) then (vec_s (es_kind s) ! unat e, vec_s (es_val s) ! unat e) else (envAbsent, 0))"

definition EnvStore_lookup :: "hash128 \<Rightarrow> u32 \<Rightarrow> (EnvKind \<times> u32) env_act" where
  "EnvStore_lookup hash e w =
     ebind (if es_appends (ew_store w) \<noteq> [] \<and> BitSet_has (es_pending (ew_store w)) e then settle hash e else eret ())
       (\<lambda>_. eget (\<lambda>w. EnvStore_cells (ew_store w) e)) w"

definition esetFromSTR :: "hash128 \<Rightarrow> u32 \<Rightarrow> u32 \<Rightarrow> unit env_act" where
  "esetFromSTR hash e v w =
     (case strHasDollar (ew_tab w) (STR_any v) (ew_dollar w) of
        None \<Rightarrow> None
      | Some (has, memo) \<Rightarrow>
          let w = w\<lparr>ew_dollar := memo\<rparr>
          in if has
             then ebind (etext v) (\<lambda>s.
                    if vfsHasPrefix s
                    then ebind (eintern (vfs_intern hash s)) (\<lambda>f. estore (\<lambda>cnt st. setVFS cnt st e f))
                    else estore (\<lambda>cnt st. setStrID cnt st e v)) w
             else estore (\<lambda>cnt st. setStrID cnt st e v) w)"

definition esetFromANY :: "hash128 \<Rightarrow> u32 \<Rightarrow> u32 \<Rightarrow> unit env_act" where
  "esetFromANY hash e v =
     (let f = ANY_vfs v
      in if f \<noteq> 0 then estore (\<lambda>cnt st. setVFS cnt st e f) else esetFromSTR hash e (ANY_str v))"

text \<open>The words of a further append go to the entry of the variable.\<close>

fun add_parts :: "u32 \<Rightarrow> u32 list \<Rightarrow> envAppend list \<Rightarrow> envAppend list option" where
  "add_parts e args [] = None"
| "add_parts e args (a # as) =
     (if ea_id a = e then Some (a\<lparr>ea_parts := ea_parts a @ args\<rparr> # as)
      else map_option (\<lambda>bs. a # bs) (add_parts e args as))"

definition prev_word :: "EnvStore \<Rightarrow> u32 \<Rightarrow> u32" where
  "prev_word s e =
     (case EnvStore_cells s e of
        (envVFS, v) \<Rightarrow> VFS_any v
      | (envStr, v) \<Rightarrow> STR_any v
      | (envInt, v) \<Rightarrow> STR_any v
      | (envAbsent, _) \<Rightarrow> 0)"

definition appendANYs :: "EnvConsts \<Rightarrow> hash128 \<Rightarrow> u32 \<Rightarrow> u32 list \<Rightarrow> unit env_act" where
  "appendANYs K hash e args w =
     (let args = (if args = [] then [STR_any (k_strEmpty K)] else args);
          s = ew_store w
      in case add_parts e args (es_appends s) of
           Some as \<Rightarrow> Some ((), w\<lparr>ew_store := s\<lparr>es_appends := as\<rparr>\<rparr>)
         | None \<Rightarrow>
             let prev = prev_word s e
             in if prev = 0 \<or> prev = STR_any (k_strEmpty K)
                then if length args = 1 then esetFromANY hash e (args ! 0) w
                     else ebind (eintern (joinAnysSTR hash args '' '')) (\<lambda>i. esetFromSTR hash e i) w
                else
                  let a = \<lparr>ea_id = e, ea_counted = 0, ea_n = 0, ea_parts = prev # args\<rparr>
                  in Some ((), w\<lparr>ew_store := s\<lparr>es_appends := es_appends s @ [a], es_pending := BitSet_add (es_pending s) e\<rparr>\<rparr>))"

section \<open>Reading values\<close>

definition strIsTruthy :: "EnvConsts \<Rightarrow> u32 \<Rightarrow> bool env_act" where
  "strIsTruthy K v =
     (if v = k_strYes K then eret True
      else if v = k_strNo K \<or> v = 0 then eret False
      else ebind (etext v) (\<lambda>s. eret (stringIsTruthy s)))"

definition env_bool :: "EnvConsts \<Rightarrow> hash128 \<Rightarrow> u32 \<Rightarrow> bool env_act" where
  "env_bool K hash e =
     ebind (EnvStore_lookup hash e) (\<lambda>(k, v).
       case k of envStr \<Rightarrow> strIsTruthy K v | envInt \<Rightarrow> strIsTruthy K v | envVFS \<Rightarrow> eret True | envAbsent \<Rightarrow> eret False)"

text \<open>The length of a word, and the running count of \<^verbatim>\<open>stringLen\<close> over the words appended since the last call.\<close>

definition word_len :: "InternTable \<Rightarrow> u32 \<Rightarrow> nat option" where
  "word_len t part =
     (let v = ANY_vfs part
      in if v \<noteq> 0 then VFS_stringLen t v else map_option length (internString t (ANY_str part)))"

fun count_parts :: "InternTable \<Rightarrow> u32 list \<Rightarrow> int \<Rightarrow> int option" where
  "count_parts t [] n = Some n"
| "count_parts t (p # ps) n =
     (case word_len t p of None \<Rightarrow> None | Some l \<Rightarrow> count_parts t ps (n + (1 + int l)))"

fun count_append :: "InternTable \<Rightarrow> u32 \<Rightarrow> envAppend list \<Rightarrow> (int \<times> envAppend list) option option" where
  "count_append t e [] = Some None"
| "count_append t e (a # as) =
     (if ea_id a = e
      then (case count_parts t (drop (ea_counted a) (ea_parts a)) (if ea_counted a = 0 then -1 else ea_n a) of
              None \<Rightarrow> None
            | Some n \<Rightarrow> Some (Some (n, a\<lparr>ea_n := n, ea_counted := length (ea_parts a)\<rparr> # as)))
      else map_option (map_option (\<lambda>(n, bs). (n, a # bs))) (count_append t e as))"

definition env_stringLen :: "u32 \<Rightarrow> int env_act" where
  "env_stringLen e w =
     (let s = ew_store w; t = ew_tab w;
          settled = (case EnvStore_cells s e of
              (envVFS, v) \<Rightarrow> map_option int (VFS_stringLen t v)
            | (envAbsent, _) \<Rightarrow> Some 0
            | (_, v) \<Rightarrow> map_option (\<lambda>x. int (length x)) (internString t v))
      in if es_appends s \<noteq> [] \<and> BitSet_has (es_pending s) e
         then (case count_append t e (es_appends s) of
                 None \<Rightarrow> None
               | Some (Some (n, as)) \<Rightarrow> Some (n, w\<lparr>ew_store := s\<lparr>es_appends := as\<rparr>\<rparr>)
               | Some None \<Rightarrow> map_option (\<lambda>n. (n, w)) settled)
         else map_option (\<lambda>n. (n, w)) settled)"

definition env_string :: "hash128 \<Rightarrow> u32 \<Rightarrow> string env_act" where
  "env_string hash e =
     ebind (EnvStore_lookup hash e) (\<lambda>(k, v).
       if k \<noteq> envAbsent then ebind (erecord e) (\<lambda>_. if k = envVFS then evfs_text v else etext v) else eret [])"

definition env_is :: "EnvConsts \<Rightarrow> hash128 \<Rightarrow> u32 \<Rightarrow> u32 \<Rightarrow> bool env_act" where
  "env_is K hash e want =
     ebind (EnvStore_lookup hash e) (\<lambda>(k, v).
       if k = envAbsent then eret (want = k_strEmpty K)
       else ebind (erecord e) (\<lambda>_.
         if k = envVFS then eret False else eret (v = want \<or> want = k_strEmpty K \<and> v = 0)))"

definition env_str :: "EnvConsts \<Rightarrow> hash128 \<Rightarrow> u32 \<Rightarrow> u32 env_act" where
  "env_str K hash e =
     ebind (EnvStore_lookup hash e) (\<lambda>(k, v).
       if k = envAbsent then eret (k_strEmpty K)
       else ebind (erecord e) (\<lambda>_.
         if k = envVFS then ebind (evfs_text v) (\<lambda>s. eintern (\<lambda>t. internStr hash t s))
         else if v = 0 then eret (k_strEmpty K) else eret v))"

definition env_stringID :: "hash128 \<Rightarrow> u32 \<Rightarrow> u32 env_act" where
  "env_stringID hash e =
     ebind (EnvStore_lookup hash e) (\<lambda>(k, v).
       if k = envStr \<or> k = envInt then ebind (erecord e) (\<lambda>_. eret v) else eret 0)"

definition lookupANY :: "EnvConsts \<Rightarrow> hash128 \<Rightarrow> u32 \<Rightarrow> u32 env_act" where
  "lookupANY K hash e =
     ebind (EnvStore_lookup hash e) (\<lambda>(k, v).
       if k = envAbsent then eret (STR_any (k_strEmpty K))
       else ebind (erecord e) (\<lambda>_.
         if k = envVFS then eret (VFS_any v)
         else if v = 0 then eret (STR_any (k_strEmpty K))
         else ebind (etext v) (\<lambda>s.
           if vfsHasPrefix s then ebind (eintern (vfs_intern hash s)) (\<lambda>f. eret (VFS_any f)) else eret (STR_any v))))"

definition lookupSTR :: "EnvConsts \<Rightarrow> hash128 \<Rightarrow> u32 \<Rightarrow> (u32 \<times> bool) env_act" where
  "lookupSTR K hash e =
     ebind (EnvStore_lookup hash e) (\<lambda>(k, v).
       if k = envAbsent then eret (0, False)
       else ebind (erecord e) (\<lambda>_.
         if k = envVFS then ebind (evfs_text v) (\<lambda>s. ebind (eintern (\<lambda>t. internStr hash t s)) (\<lambda>i. eret (i, True)))
         else if v = 0 then eret (k_strEmpty K, True) else eret (v, True)))"

definition lookupENV :: "hash128 \<Rightarrow> u32 \<Rightarrow> (string \<times> bool) env_act" where
  "lookupENV hash e =
     (if e = 0 then eret ([], False)
      else ebind (EnvStore_lookup hash e) (\<lambda>(k, v).
        if k = envAbsent then eret ([], False)
        else ebind (erecord e) (\<lambda>_. ebind (if k = envVFS then evfs_text v else etext v) (\<lambda>s. eret (s, True)))))"

definition lookupValueENV :: "hash128 \<Rightarrow> u32 \<Rightarrow> (string \<times> VFS \<times> bool) env_act" where
  "lookupValueENV hash e =
     (if e = 0 then eret ([], 0, False)
      else ebind (EnvStore_lookup hash e) (\<lambda>(k, v).
        if k = envAbsent then eret ([], 0, False)
        else ebind (erecord e) (\<lambda>_.
          if k = envVFS then eret ([], v, True) else ebind (etext v) (\<lambda>s. eret (s, 0, True)))))"

definition hasBindingID :: "hash128 \<Rightarrow> u32 \<Rightarrow> bool env_act" where
  "hasBindingID hash e = ebind (EnvStore_lookup hash e) (\<lambda>(k, v). eret (k \<noteq> envAbsent))"

section \<open>The remaining setters\<close>

definition setANY :: "hash128 \<Rightarrow> u32 \<Rightarrow> u32 \<Rightarrow> unit env_act" where
  "setANY hash e a =
     (let v = ANY_vfs a
      in if v \<noteq> 0 then estore (\<lambda>cnt st. setVFS cnt st e v)
         else ebind (etext (ANY_str a)) (\<lambda>s.
           if vfsHasPrefix s then ebind (eintern (vfs_intern hash s)) (\<lambda>f. estore (\<lambda>cnt st. setVFS cnt st e f))
           else estore (\<lambda>cnt st. setStrID cnt st e (ANY_str a))))"

definition setString :: "hash128 \<Rightarrow> u32 \<Rightarrow> string \<Rightarrow> unit env_act" where
  "setString hash e v =
     (if vfsHasPrefix v then ebind (eintern (vfs_intern hash v)) (\<lambda>f. estore (\<lambda>cnt st. setVFS cnt st e f))
      else ebind (eintern (\<lambda>t. internStr hash t v)) (\<lambda>i. estore (\<lambda>cnt st. setStrID cnt st e i)))"

definition setFromString :: "EnvConsts \<Rightarrow> hash128 \<Rightarrow> u32 \<Rightarrow> string \<Rightarrow> unit env_act" where
  "setFromString K hash e v =
     (if v = ''yes'' then estore (\<lambda>cnt st. setBool K cnt st e True)
      else if v = ''no'' then estore (\<lambda>cnt st. setBool K cnt st e False)
      else setString hash e v)"

definition setDefaultSTR :: "hash128 \<Rightarrow> u32 \<Rightarrow> u32 \<Rightarrow> unit env_act" where
  "setDefaultSTR hash e v = ebind (hasBindingID hash e) (\<lambda>b. if b then eret () else setANY hash e (STR_any v))"

definition setDefaultString :: "hash128 \<Rightarrow> u32 \<Rightarrow> string \<Rightarrow> unit env_act" where
  "setDefaultString hash e v = ebind (hasBindingID hash e) (\<lambda>b. if b then eret () else setString hash e v)"

definition unbind :: "hash128 \<Rightarrow> u32 \<Rightarrow> EnvKind env_act" where
  "unbind hash e w =
     ebind (if es_appends (ew_store w) \<noteq> [] then estore (\<lambda>cnt s. dropAppend s e) else eret ()) (\<lambda>_.
       ebind (EnvStore_lookup hash e) (\<lambda>(k, v).
         ebind (if k \<noteq> envAbsent
                then estore (\<lambda>cnt s. let s = confWrite s e in s\<lparr>es_kind := Vec_store (es_kind s) (unat e) envAbsent\<rparr>)
                else eret ())
           (\<lambda>_. eret k))) w"

text \<open>\<^verbatim>\<open>rebind\<close> writes the kind without \<^verbatim>\<open>ensure\<close>: an index outside the array is a panic.\<close>

definition rebind :: "u32 \<Rightarrow> EnvKind \<Rightarrow> unit env_act" where
  "rebind e k w =
     (if k = envAbsent then Some ((), w)
      else if unat e < vec_len (es_kind (ew_store w))
      then estore (\<lambda>cnt s. let s = confWrite s e in s\<lparr>es_kind := Vec_store (es_kind s) (unat e) k\<rparr>) w
      else None)"

section \<open>Copies\<close>

definition copy_vec :: "'a Vec \<Rightarrow> 'a Vec" where
  "copy_vec v = \<lparr>vec_arr = vec_s v, vec_len = vec_len v\<rparr>"

definition env_clone :: "hash128 \<Rightarrow> nat \<Rightarrow> EnvStore env_act" where
  "env_clone hash addr =
     ebind (settleAll hash) (\<lambda>_. eget (\<lambda>w. let s = ew_store w in
       (newEnvStore addr)\<lparr>es_val := copy_vec (es_val s), es_kind := copy_vec (es_kind s), es_textInputs := es_textInputs s,
          es_resourceBindings := es_resourceBindings s, es_included := es_included s\<rparr>))"

text \<open>\<^verbatim>\<open>clear(dst[copy(dst, src):])\<close>\<close>

definition overwrite :: "'a \<Rightarrow> 'a Vec \<Rightarrow> 'a list \<Rightarrow> 'a Vec" where
  "overwrite z v xs =
     v\<lparr>vec_arr := take (vec_len v) xs @ replicate (vec_len v - length xs) z @ drop (vec_len v) (vec_arr v)\<rparr>"

definition cloneInto :: "nat \<Rightarrow> nat \<Rightarrow> EnvStore \<Rightarrow> EnvStore \<Rightarrow> EnvStore" where
  "cloneInto slack cnt s dst =
     (let dst = dst\<lparr>es_appends := es_appends s, es_pending := BitSet_copyFrom slack (es_pending dst) (es_pending s)\<rparr>;
          n = max (vec_len (es_kind s)) cnt;
          dst = (if 0 < n then EnvStore_ensure cnt dst (of_nat (n - 1)) else dst);
          dst = dst\<lparr>es_val := overwrite 0 (es_val dst) (vec_s (es_val s)), es_kind := overwrite envAbsent (es_kind dst) (vec_s (es_kind s)),
                    es_textInputs := es_textInputs s, es_resourceBindings := es_resourceBindings s,
                    es_included := es_included s, es_confBase := None, es_confWrites := []\<rparr>
      in if es_confBase s = Some (es_addr s) then dst\<lparr>es_confBase := Some (es_addr s)\<rparr> else dst)"

end
