(* ===== verification/Ay_EnvRef.thy ===== *)
theory Ay_EnvRef
  imports Ay_Env
begin

text \<open>
  What an environment stands for: a map from variables to a kind and a text, in which an append takes
  effect at once. The theorems relate every operation of \<^verbatim>\<open>env.go\<close> to that map: delayed appends,
  settling, the bits of pending variables and the running length of a pending text cannot be
  observed, but for two operations that forget or revive an append, shown at the end.
\<close>

section \<open>The map an environment stands for\<close>

definition of_text :: "string \<Rightarrow> EnvKind \<times> string" where
  "of_text s = (if vfsHasPrefix s then (envVFS, canonical_text s) else (envStr, s))"

definition app_text :: "string list \<Rightarrow> envAppend \<Rightarrow> string" where
  "app_text T a = join_strings '' '' (map (any_text T) (ea_parts a))"

definition cell_abs :: "string list \<Rightarrow> EnvKind \<times> u32 \<Rightarrow> EnvKind \<times> string" where
  "cell_abs T c = (fst c, case fst c of envAbsent \<Rightarrow> [] | envVFS \<Rightarrow> vfs_text T (snd c) | _ \<Rightarrow> T ! unat (snd c))"

definition env_abs :: "string list \<Rightarrow> EnvStore \<Rightarrow> u32 \<Rightarrow> EnvKind \<times> string" where
  "env_abs T s e =
     (case take_append e (es_appends s) of
        Some (a, _) \<Rightarrow> of_text (app_text T a)
      | None \<Rightarrow> cell_abs T (EnvStore_cells s e))"

section \<open>The invariant\<close>

definition has_text :: "string set \<Rightarrow> string \<Rightarrow> bool" where
  "has_text S s \<longleftrightarrow> s \<in> S \<and> (vfsHasPrefix s \<longrightarrow> drop 5 s \<in> S)"

definition count_ok :: "string list \<Rightarrow> envAppend \<Rightarrow> bool" where
  "count_ok T a \<longleftrightarrow> ea_counted a = 0 \<or> ea_counted a \<le> length (ea_parts a) \<and>
     ea_n a = int (length (join_strings '' '' (map (any_text T) (take (ea_counted a) (ea_parts a)))))"

definition app_ok :: "string set \<Rightarrow> string list \<Rightarrow> envAppend \<Rightarrow> bool" where
  "app_ok S T a \<longleftrightarrow> 2 \<le> length (ea_parts a) \<and> (\<forall>p \<in> set (ea_parts a). any_ok T p) \<and> any_text T (hd (ea_parts a)) \<noteq> []
     \<and> has_text S (app_text T a) \<and> count_ok T a"

definition cell_ok :: "string list \<Rightarrow> EnvKind \<times> u32 \<Rightarrow> bool" where
  "cell_ok T c \<longleftrightarrow> (case fst c of
     envAbsent \<Rightarrow> True
   | envVFS \<Rightarrow> snd c \<noteq> 0 \<and> unat (snd c) < 2 ^ 31 \<and> vfs_ok T (snd c)
   | _ \<Rightarrow> unat (snd c) < length T)"

definition store_shape :: "EnvStore \<Rightarrow> bool" where
  "store_shape s \<longleftrightarrow> Vec_inv (es_kind s) \<and> Vec_inv (es_val s) \<and> vec_len (es_kind s) = vec_len (es_val s)
     \<and> BitSet_inv (es_pending s) \<and> distinct (map ea_id (es_appends s))
     \<and> (\<forall>a \<in> set (es_appends s). BitSet_has (es_pending s) (ea_id a))"

definition store_ok :: "string set \<Rightarrow> string list \<Rightarrow> EnvStore \<Rightarrow> bool" where
  "store_ok S T s \<longleftrightarrow> store_shape s \<and> (\<forall>a \<in> set (es_appends s). app_ok S T a) \<and> (\<forall>e. cell_ok T (EnvStore_cells s e))"

lemma store_shapeD:
  assumes "store_shape s"
  shows "Vec_inv (es_kind s)" "Vec_inv (es_val s)" "vec_len (es_kind s) = vec_len (es_val s)" "BitSet_inv (es_pending s)"
    "distinct (map ea_id (es_appends s))" "a \<in> set (es_appends s) \<Longrightarrow> BitSet_has (es_pending s) (ea_id a)"
  using assms by (simp_all add: store_shape_def)

lemma store_okD:
  assumes "store_ok S T s"
  shows "store_shape s" "a \<in> set (es_appends s) \<Longrightarrow> app_ok S T a" "cell_ok T (EnvStore_cells s e)"
  using assms by (simp_all add: store_ok_def)

section \<open>The list of appends\<close>

lemma take_append_Some:
  "take_append e as = Some (a, bs) \<Longrightarrow> a \<in> set as \<and> ea_id a = e \<and> set bs \<subseteq> set as"
  by (induction as arbitrary: bs) (auto split: if_splits)

lemma take_append_None: "take_append e as = None \<longleftrightarrow> e \<notin> ea_id ` set as"
  by (induction as) auto

lemma take_append_filter:
  "distinct (map ea_id as) \<Longrightarrow> take_append e as = Some (a, bs) \<Longrightarrow> bs = filter (\<lambda>x. ea_id x \<noteq> e) as"
proof (induction as arbitrary: bs)
  case (Cons x as)
  show ?case
  proof (cases "ea_id x = e")
    case True
    then have "filter (\<lambda>y. ea_id y \<noteq> e) as = as" using Cons.prems(1) by (intro filter_True) (auto simp: image_iff)
    then show ?thesis using Cons.prems(2) True by simp
  next
    case False
    then show ?thesis using Cons by (auto split: if_splits)
  qed
qed simp

lemma take_append_eq:
  "distinct (map ea_id as) \<Longrightarrow> a \<in> set as \<Longrightarrow> take_append (ea_id a) as = Some (a, filter (\<lambda>x. ea_id x \<noteq> ea_id a) as)"
proof -
  assume d: "distinct (map ea_id as)" and a: "a \<in> set as"
  obtain b bs where b: "take_append (ea_id a) as = Some (b, bs)" using a take_append_None by fastforce
  then have "b \<in> set as" "ea_id b = ea_id a" using take_append_Some by auto
  then have "b = a" using d a by (metis distinct_map inj_onD)
  then show ?thesis using b take_append_filter [OF d b] by simp
qed

lemma take_append_other:
  "f \<noteq> e \<Longrightarrow> map_option fst (take_append f (filter (\<lambda>x. ea_id x \<noteq> e) as)) = map_option fst (take_append f as)"
  by (induction as) (auto simp: option.map_comp comp_def case_prod_unfold)

lemma take_append_gone: "take_append e (filter (\<lambda>x. ea_id x \<noteq> e) as) = None"
  by (auto simp: take_append_None)

definition abs_of :: "string list \<Rightarrow> envAppend option \<Rightarrow> EnvKind \<times> u32 \<Rightarrow> EnvKind \<times> string" where
  "abs_of T ap c = (case ap of Some a \<Rightarrow> of_text (app_text T a) | None \<Rightarrow> cell_abs T c)"

definition pending_of :: "u32 \<Rightarrow> envAppend list \<Rightarrow> envAppend option" where
  "pending_of e as = map_option fst (take_append e as)"

lemma env_abs_of: "env_abs T s e = abs_of T (pending_of e (es_appends s)) (EnvStore_cells s e)"
  by (simp add: env_abs_def abs_of_def pending_of_def split: option.splits)

lemma abs_of_simps [simp]: "abs_of T None c = cell_abs T c" "abs_of T (Some a) c = of_text (app_text T a)"
  by (simp_all add: abs_of_def)

lemma pending_of_Some: "pending_of e as = Some a \<Longrightarrow> a \<in> set as \<and> ea_id a = e"
  using take_append_Some by (fastforce simp: pending_of_def)

lemma pending_of_None: "pending_of e as = None \<longleftrightarrow> e \<notin> ea_id ` set as"
  by (simp add: pending_of_def take_append_None)

lemma pending_of_filter:
  "pending_of f (filter (\<lambda>x. ea_id x \<noteq> e) as) = (if f = e then None else pending_of f as)"
  using take_append_gone [of e as] take_append_other [of f e as] by (simp add: pending_of_def)

lemma pending_of_snoc:
  "pending_of f (as @ [a]) = (case pending_of f as of Some b \<Rightarrow> Some b | None \<Rightarrow> if ea_id a = f then Some a else None)"
  by (induction as) (auto simp: pending_of_def option.map_comp comp_def case_prod_unfold split: option.splits)

text \<open>\<^verbatim>\<open>dropAppend\<close> removes the entry of a variable, if there is one.\<close>

lemma dropAppend_eq:
  assumes "store_shape s"
  shows "es_appends (dropAppend s e) = filter (\<lambda>x. ea_id x \<noteq> e) (es_appends s)" and "store_shape (dropAppend s e)"
    and "EnvStore_cells (dropAppend s e) = EnvStore_cells s"
proof -
  note D = store_shapeD [OF assms]
  have none: "filter (\<lambda>x. ea_id x \<noteq> e) (es_appends s) = es_appends s" if "e \<notin> ea_id ` set (es_appends s)"
    using that by (auto intro!: filter_True)
  show "EnvStore_cells (dropAppend s e) = EnvStore_cells s"
    by (auto simp: dropAppend_def EnvStore_cells_def split: option.splits)
  show eq: "es_appends (dropAppend s e) = filter (\<lambda>x. ea_id x \<noteq> e) (es_appends s)"
    using D(6) none take_append_None [of e "es_appends s"] take_append_filter [OF D(5)]
    by (auto simp: dropAppend_def split: option.splits)
  have "es_pending (dropAppend s e) = es_pending s \<or> es_pending (dropAppend s e) = BitSet_remove (es_pending s) e"
    by (auto simp: dropAppend_def split: option.splits)
  moreover have "es_kind (dropAppend s e) = es_kind s" "es_val (dropAppend s e) = es_val s"
    by (auto simp: dropAppend_def split: option.splits)
  ultimately show "store_shape (dropAppend s e)"
    using D BitSet_remove_inv [OF D(4)] BitSet_remove_has [OF D(4)]
    by (auto simp: store_shape_def eq distinct_map_filter)
qed

section \<open>Cells\<close>

lemma vec_s_expose:
  assumes "Vec_inv v" and "vec_len v = old" and "old \<le> n" and "n \<le> length (vec_arr v)"
  shows "vec_s (expose z v old n) = vec_s v @ replicate (n - old) z" and "Vec_inv (expose z v old n)" and "vec_len (expose z v old n) = n"
  using assms by (auto simp: expose_def vec_s_def Vec_inv_def)

lemma vec_s_fresh_copy:
  assumes "Vec_inv v" and "vec_len v \<le> n"
  shows "vec_s (fresh_copy z v n) = vec_s v @ replicate (n - vec_len v) z" and "Vec_inv (fresh_copy z v n)" and "vec_len (fresh_copy z v n) = n"
  using assms length_vec_s [OF assms(1)] by (auto simp: fresh_copy_def vec_s_def Vec_inv_def)

lemma ensure_spec:
  fixes cnt :: nat and e :: u32
  assumes shape: "store_shape s"
  defines "s' \<equiv> EnvStore_ensure cnt s e"
  shows "store_shape s'" and "EnvStore_cells s' = EnvStore_cells s" and "unat e < vec_len (es_kind s')"
    and "es_appends s' = es_appends s" and "es_pending s' = es_pending s"
proof -
  note D = store_shapeD [OF shape]
  have "\<exists>n \<ge> vec_len (es_kind s). unat e < n \<and> vec_s (es_kind s') = vec_s (es_kind s) @ replicate (n - vec_len (es_kind s)) envAbsent
      \<and> vec_s (es_val s') = vec_s (es_val s) @ replicate (n - vec_len (es_kind s)) 0
      \<and> Vec_inv (es_kind s') \<and> Vec_inv (es_val s') \<and> vec_len (es_kind s') = n \<and> vec_len (es_val s') = n"
  proof (cases "unat e < vec_len (es_kind s)")
    case True
    then show ?thesis using D by (intro exI [of _ "vec_len (es_kind s)"]) (simp add: s'_def EnvStore_ensure_def)
  next
    case False
    let ?n = "max (unat e + 1) cnt" and ?o = "vec_len (es_kind s)"
    show ?thesis
    proof (cases "?n \<le> length (vec_arr (es_kind s)) \<and> ?n \<le> length (vec_arr (es_val s))")
      case True
      then show ?thesis
        using False D vec_s_expose [OF D(1) refl, of ?n] vec_s_expose [OF D(2) refl, of ?n]
        by (intro exI [of _ ?n]) (auto simp: s'_def EnvStore_ensure_def Let_def)
    next
      case nocap: False
      let ?m = "max ?n (?o + ?o div 8 + 64)"
      show ?thesis
        using False nocap D vec_s_fresh_copy [OF D(1), of ?m] vec_s_fresh_copy [OF D(2), of ?m]
        by (intro exI [of _ ?m]) (auto simp: s'_def EnvStore_ensure_def Let_def)
    qed
  qed
  then obtain n where n: "vec_len (es_kind s) \<le> n" "unat e < n"
    "vec_s (es_kind s') = vec_s (es_kind s) @ replicate (n - vec_len (es_kind s)) envAbsent"
    "vec_s (es_val s') = vec_s (es_val s) @ replicate (n - vec_len (es_kind s)) 0"
    "Vec_inv (es_kind s')" "Vec_inv (es_val s')" "vec_len (es_kind s') = n" "vec_len (es_val s') = n" by blast
  show keep: "es_appends s' = es_appends s" "es_pending s' = es_pending s"
    by (simp_all add: s'_def EnvStore_ensure_def Let_def)
  show "store_shape s'" using D n keep by (simp add: store_shape_def)
  show "unat e < vec_len (es_kind s')" using n by simp
  show "EnvStore_cells s' = EnvStore_cells s"
    using n D length_vec_s [OF D(1)] length_vec_s [OF D(2)] by (auto simp: EnvStore_cells_def nth_append fun_eq_iff)
qed

lemma cells_frame [simp]:
  "EnvStore_cells (s\<lparr>es_textInputs := x\<rparr>) = EnvStore_cells s" "EnvStore_cells (s\<lparr>es_resourceBindings := y\<rparr>) = EnvStore_cells s"
  "EnvStore_cells (s\<lparr>es_confWrites := z\<rparr>) = EnvStore_cells s" "EnvStore_cells (s\<lparr>es_appends := as\<rparr>) = EnvStore_cells s"
  "EnvStore_cells (s\<lparr>es_appends := as, es_pending := p\<rparr>) = EnvStore_cells s"
  by (simp_all add: EnvStore_cells_def fun_eq_iff)

lemma shape_frame [simp]:
  "store_shape (s\<lparr>es_textInputs := x\<rparr>) = store_shape s" "store_shape (s\<lparr>es_resourceBindings := y\<rparr>) = store_shape s"
  "store_shape (s\<lparr>es_confWrites := z\<rparr>) = store_shape s"
  by (simp_all add: store_shape_def)

lemma write_cells:
  fixes k :: EnvKind and v :: u32
  assumes shape: "store_shape s" and e: "unat e < vec_len (es_kind s)"
  defines "s' \<equiv> s\<lparr>es_kind := Vec_store (es_kind s) (unat e) k, es_val := Vec_store (es_val s) (unat e) v\<rparr>"
  shows "store_shape s'" and "EnvStore_cells s' = (EnvStore_cells s)(e := (k, v))"
proof -
  note D = store_shapeD [OF shape]
  show "store_shape s'" using D by (auto simp: s'_def store_shape_def Vec_store_def Vec_inv_def)
  show "EnvStore_cells s' = (EnvStore_cells s)(e := (k, v))"
    using e D length_vec_s [OF D(1)] length_vec_s [OF D(2)]
    by (auto simp: EnvStore_cells_def s'_def fun_eq_iff nth_list_update word_unat_eq_iff)
qed

lemma store_value_spec:
  assumes shape: "store_shape s"
  shows "store_shape (store_value cnt s e k v)" and "EnvStore_cells (store_value cnt s e k v) = (EnvStore_cells s)(e := (k, v))"
    and "es_appends (store_value cnt s e k v) = es_appends s" and "es_pending (store_value cnt s e k v) = es_pending s"
proof -
  define s1 where "s1 = confWrite (clearResourceBinding (s\<lparr>es_textInputs := (es_textInputs s)(e := None)\<rparr>) e) e"
  have s1: "store_shape s1" "EnvStore_cells s1 = EnvStore_cells s" "es_appends s1 = es_appends s" "es_pending s1 = es_pending s"
    using shape by (simp_all add: s1_def confWrite_def clearResourceBinding_def Let_def)
  note en = ensure_spec [OF s1(1), where cnt = cnt and e = e]
  have eq: "store_value cnt s e k v = (EnvStore_ensure cnt s1 e)
      \<lparr>es_kind := Vec_store (es_kind (EnvStore_ensure cnt s1 e)) (unat e) k, es_val := Vec_store (es_val (EnvStore_ensure cnt s1 e)) (unat e) v\<rparr>"
    by (simp add: store_value_def s1_def Let_def)
  show "store_shape (store_value cnt s e k v)" "EnvStore_cells (store_value cnt s e k v) = (EnvStore_cells s)(e := (k, v))"
    "es_appends (store_value cnt s e k v) = es_appends s" "es_pending (store_value cnt s e k v) = es_pending s"
    unfolding eq using write_cells [OF en(1,3)] en s1 by simp_all
qed

section \<open>Setting a variable\<close>

lemma app_ok_extends: "extends t t' \<Longrightarrow> app_ok S (texts t) a \<Longrightarrow> app_ok S (texts t') a \<and> app_text (texts t') a = app_text (texts t) a"
proof -
  assume e: "extends t t'" and a: "app_ok S (texts t) a"
  have parts: "any_ok (texts t') p" "any_text (texts t') p = any_text (texts t) p" if "p \<in> set (ea_parts a)" for p
    using that a extends_any [OF e] by (auto simp: app_ok_def)
  have m: "map (any_text (texts t')) ps = map (any_text (texts t)) ps" if "set ps \<subseteq> set (ea_parts a)" for ps
    using that parts(2) by auto
  have hd: "hd (ea_parts a) \<in> set (ea_parts a)" using a by (cases "ea_parts a") (auto simp: app_ok_def)
  have "app_text (texts t') a = app_text (texts t) a" by (simp only: app_text_def m [OF order_refl])
  moreover have "count_ok (texts t') a = count_ok (texts t) a" by (simp only: count_ok_def m [OF set_take_subset])
  ultimately show ?thesis using a parts hd by (simp add: app_ok_def)
qed

lemma cell_extends: "extends t t' \<Longrightarrow> cell_ok (texts t) c \<Longrightarrow> cell_ok (texts t') c \<and> cell_abs (texts t') c = cell_abs (texts t) c"
  using extends_vfs [of t t' "snd c"] extends_text [of t t' "snd c"]
  by (auto simp: cell_ok_def cell_abs_def split: EnvKind.splits)

lemma store_extends:
  assumes e: "extends t t'" and ok: "store_ok S (texts t) s"
  shows "store_ok S (texts t') s" and "env_abs (texts t') s = env_abs (texts t) s"
proof -
  show "store_ok S (texts t') s"
    using ok app_ok_extends [OF e] cell_extends [OF e] by (simp add: store_ok_def)
  show "env_abs (texts t') s = env_abs (texts t) s"
  proof
    fix v
    show "env_abs (texts t') s v = env_abs (texts t) s v"
    proof (cases "pending_of v (es_appends s)")
      case None
      then show ?thesis using cell_extends [OF e store_okD(3) [OF ok, of v]] by (simp add: env_abs_of)
    next
      case (Some a)
      then show ?thesis
        using app_ok_extends [OF e store_okD(2) [OF ok, of a]] pending_of_Some [OF Some] by (simp add: env_abs_of)
    qed
  qed
qed

lemma set_value_spec:
  fixes cnt :: nat and e :: u32
  assumes ok: "store_ok S T s" and c: "cell_ok T (k, v)"
  defines "s' \<equiv> store_value cnt (if es_appends s \<noteq> [] then dropAppend s e else s) e k v"
  shows "store_ok S T s'" and "env_abs T s' = (env_abs T s)(e := cell_abs T (k, v))"
    and "es_appends s' = filter (\<lambda>x. ea_id x \<noteq> e) (es_appends s)"
proof -
  have shape: "store_shape s" using ok by (rule store_okD)
  define d where "d = (if es_appends s \<noteq> [] then dropAppend s e else s)"
  have d: "store_shape d" "EnvStore_cells d = EnvStore_cells s" "es_appends d = filter (\<lambda>x. ea_id x \<noteq> e) (es_appends s)"
    using shape dropAppend_eq [OF shape] by (auto simp: d_def)
  note sv = store_value_spec [OF d(1), of cnt e k v]
  show "es_appends s' = filter (\<lambda>x. ea_id x \<noteq> e) (es_appends s)" unfolding s'_def d_def [symmetric] sv(3) d(3) by simp
  show "store_ok S T s'" using sv d ok c unfolding s'_def d_def [symmetric] by (auto simp: store_ok_def)
  show "env_abs T s' = (env_abs T s)(e := cell_abs T (k, v))"
  proof
    fix f
    show "env_abs T s' f = ((env_abs T s)(e := cell_abs T (k, v))) f"
      unfolding s'_def d_def [symmetric] by (simp add: env_abs_of sv(2,3) d(2,3) pending_of_filter)
  qed
qed

lemmas setVFS_spec = set_value_spec [where k = envVFS, folded setVFS_def]
lemmas setStrID_spec = set_value_spec [where k = envStr, folded setStrID_def]

section \<open>The world\<close>

definition env_inv :: "hash128 \<Rightarrow> string set \<Rightarrow> EnvWorld \<Rightarrow> bool" where
  "env_inv hash S w \<longleftrightarrow> in_use hash S (ew_tab w) \<and> dollar_inv (texts (ew_tab w)) (ew_dollar w) \<and> store_ok S (texts (ew_tab w)) (ew_store w)"

definition wabs :: "EnvWorld \<Rightarrow> u32 \<Rightarrow> EnvKind \<times> string" where
  "wabs w = env_abs (texts (ew_tab w)) (ew_store w)"

text \<open>One world follows another: the strings and the number of variables stay, and the invariant holds.\<close>

definition follows :: "hash128 \<Rightarrow> string set \<Rightarrow> EnvWorld \<Rightarrow> EnvWorld \<Rightarrow> bool" where
  "follows hash S w w' \<longleftrightarrow> env_inv hash S w' \<and> extends (ew_tab w) (ew_tab w')"

lemma env_invD:
  assumes "env_inv hash S w"
  shows "in_use hash S (ew_tab w)" "dollar_inv (texts (ew_tab w)) (ew_dollar w)" "store_ok S (texts (ew_tab w)) (ew_store w)"
  using assms by (simp_all add: env_inv_def)

lemma follows_refl: "env_inv hash S w \<Longrightarrow> follows hash S w w"
  by (simp add: follows_def)

lemma follows_trans: "follows hash S u v \<Longrightarrow> follows hash S v w \<Longrightarrow> follows hash S u w"
  using extends_trans by (auto simp: follows_def)

lemma ebind_Some [simp]: "m w = Some (x, w') \<Longrightarrow> ebind m f w = f x w'"
  by (simp add: ebind_def)

lemma eret_apply [simp]: "eret x w = Some (x, w)" and eget_apply [simp]: "eget f w = Some (f w, w)"
  and estore_apply [simp]: "estore g w = Some ((), w\<lparr>ew_store := g (ew_cnt w) (ew_store w)\<rparr>)"
  and erecord_apply [simp]: "erecord e w = Some ((), w\<lparr>ew_uses := recordResourceUse (ew_store w) (ew_uses w) e\<rparr>)"
  by (simp_all add: eret_def eget_def estore_def erecord_def)

lemma eintern_Some [simp]: "m (ew_tab w) = Some (x, t) \<Longrightarrow> eintern m w = Some (x, w\<lparr>ew_tab := t\<rparr>)"
  by (simp add: eintern_def)

lemma env_tab:
  assumes inv: "env_inv hash S w" and t: "in_use hash S t" "extends (ew_tab w) t"
  shows "follows hash S w (w\<lparr>ew_tab := t\<rparr>)" and "wabs (w\<lparr>ew_tab := t\<rparr>) = wabs w"
  using t env_invD(2,3) [OF inv] dollar_inv_extends store_extends by (auto simp: follows_def env_inv_def wabs_def)

lemma env_store:
  assumes inv: "env_inv hash S w" and s: "store_ok S (texts (ew_tab w)) s"
  shows "follows hash S w (w\<lparr>ew_store := s\<rparr>)" and "wabs (w\<lparr>ew_store := s\<rparr>) = env_abs (texts (ew_tab w)) s"
  using inv s by (simp_all add: follows_def env_inv_def wabs_def)

lemma uses_frame [simp]:
  "env_inv hash S (w\<lparr>ew_uses := u\<rparr>) = env_inv hash S w" "wabs (w\<lparr>ew_uses := u\<rparr>) = wabs w"
  "follows hash S v (w\<lparr>ew_uses := u\<rparr>) = follows hash S v w"
  by (simp_all add: env_inv_def wabs_def follows_def)

text \<open>Storing a file or a string whose text is known.\<close>

lemma put_text_file:
  assumes inv: "env_inv hash S w" and s: "vfsHasPrefix s" "drop 5 s \<in> S"
  obtains w' where "ebind (eintern (vfs_intern hash s)) (\<lambda>f. estore (\<lambda>cnt st. setVFS cnt st e f)) w = Some ((), w')"
    and "follows hash S w w'" and "wabs w' = (wabs w)(e := of_text s)"
    and "es_appends (ew_store w') = filter (\<lambda>x. ea_id x \<noteq> e) (es_appends (ew_store w))"
proof -
  obtain v t where v: "vfs_intern hash s (ew_tab w) = Some (v, t)" "in_use hash S t" "extends (ew_tab w) t"
    "vfs_ok (texts t) v" "v \<noteq> 0" "unat v < 2 ^ 31" "vfs_text (texts t) v = canonical_text s"
    using vfs_intern_run [OF env_invD(1) [OF inv] s] by blast
  let ?w = "w\<lparr>ew_tab := t\<rparr>"
  note f = env_tab [OF inv v(2,3)]
  have inv': "env_inv hash S ?w" using f(1) by (simp add: follows_def)
  have c: "cell_ok (texts t) (envVFS, v)" using v by (simp add: cell_ok_def)
  let ?s = "setVFS (ew_cnt w) (ew_store w) e v"
  have ok: "store_ok S (texts t) (ew_store w)" using env_invD(3) [OF inv'] by simp
  note sp = setVFS_spec [OF ok c, where cnt = "ew_cnt w" and e = e]
  have st: "follows hash S ?w (?w\<lparr>ew_store := ?s\<rparr>)" "wabs (?w\<lparr>ew_store := ?s\<rparr>) = (wabs w)(e := of_text s)"
    using env_store [OF inv', of ?s] sp f(2) v(7) s(1) by (simp_all add: wabs_def of_text_def cell_abs_def)
  show ?thesis
    using that [of "?w\<lparr>ew_store := ?s\<rparr>"] v(1) follows_trans [OF f(1) st(1)] st(2) sp(3) by simp
qed

lemma put_text_string:
  assumes inv: "env_inv hash S w" and s: "\<not> vfsHasPrefix s" "s \<in> S"
  obtains w' where "ebind (eintern (\<lambda>t. internStr hash t s)) (\<lambda>i. estore (\<lambda>cnt st. setStrID cnt st e i)) w = Some ((), w')"
    and "follows hash S w w'" and "wabs w' = (wabs w)(e := of_text s)"
    and "es_appends (ew_store w') = filter (\<lambda>x. ea_id x \<noteq> e) (es_appends (ew_store w))"
proof -
  obtain i t where i: "internStr hash (ew_tab w) s = Some (i, t)" "in_use hash S t" "extends (ew_tab w) t" "str_is t i s" "unat i < 2 ^ 30"
    using internStr_run [OF env_invD(1) [OF inv] s(2)] by blast
  let ?w = "w\<lparr>ew_tab := t\<rparr>"
  note f = env_tab [OF inv i(2,3)]
  have inv': "env_inv hash S ?w" using f(1) by (simp add: follows_def)
  have c: "cell_ok (texts t) (envStr, i)" using i(4) by (simp add: cell_ok_def str_is_def)
  let ?s = "setStrID (ew_cnt w) (ew_store w) e i"
  have ok: "store_ok S (texts t) (ew_store w)" using env_invD(3) [OF inv'] by simp
  note sp = setStrID_spec [OF ok c, where cnt = "ew_cnt w" and e = e]
  have st: "follows hash S ?w (?w\<lparr>ew_store := ?s\<rparr>)" "wabs (?w\<lparr>ew_store := ?s\<rparr>) = (wabs w)(e := of_text s)"
    using env_store [OF inv', of ?s] sp f(2) i(4) s(1) by (simp_all add: wabs_def of_text_def cell_abs_def str_is_def)
  show ?thesis
    using that [of "?w\<lparr>ew_store := ?s\<rparr>"] i(1) follows_trans [OF f(1) st(1)] st(2) sp(3) by simp
qed

text \<open>Storing a string that is interned already.\<close>

lemma put_str:
  assumes inv: "env_inv hash S w" and v: "unat v < length (texts (ew_tab w))"
  shows "follows hash S w (w\<lparr>ew_store := setStrID (ew_cnt w) (ew_store w) e v\<rparr>)"
    and "wabs (w\<lparr>ew_store := setStrID (ew_cnt w) (ew_store w) e v\<rparr>) = (wabs w)(e := (envStr, texts (ew_tab w) ! unat v))"
proof -
  have c: "cell_ok (texts (ew_tab w)) (envStr, v)" using v by (simp add: cell_ok_def)
  note sp = setStrID_spec [OF env_invD(3) [OF inv] c, where cnt = "ew_cnt w" and e = e]
  show "follows hash S w (w\<lparr>ew_store := setStrID (ew_cnt w) (ew_store w) e v\<rparr>)"
    "wabs (w\<lparr>ew_store := setStrID (ew_cnt w) (ew_store w) e v\<rparr>) = (wabs w)(e := (envStr, texts (ew_tab w) ! unat v))"
    using env_store [OF inv sp(1)] sp(2) by (simp_all add: wabs_def cell_abs_def)
qed

lemma put_vfs:
  assumes inv: "env_inv hash S w" and v: "v \<noteq> 0" "unat v < 2 ^ 31" "vfs_ok (texts (ew_tab w)) v"
  shows "follows hash S w (w\<lparr>ew_store := setVFS (ew_cnt w) (ew_store w) e v\<rparr>)"
    and "wabs (w\<lparr>ew_store := setVFS (ew_cnt w) (ew_store w) e v\<rparr>) = (wabs w)(e := (envVFS, vfs_text (texts (ew_tab w)) v))"
proof -
  have c: "cell_ok (texts (ew_tab w)) (envVFS, v)" using v by (simp add: cell_ok_def)
  note sp = setVFS_spec [OF env_invD(3) [OF inv] c, where cnt = "ew_cnt w" and e = e]
  show "follows hash S w (w\<lparr>ew_store := setVFS (ew_cnt w) (ew_store w) e v\<rparr>)"
    "wabs (w\<lparr>ew_store := setVFS (ew_cnt w) (ew_store w) e v\<rparr>) = (wabs w)(e := (envVFS, vfs_text (texts (ew_tab w)) v))"
    using env_store [OF inv sp(1)] sp(2) by (simp_all add: wabs_def cell_abs_def)
qed

section \<open>Settling\<close>

text \<open>The text of several words, the first of them not empty, is a file's text only when it is longer than a prefix.\<close>

lemma join_canonical:
  assumes "2 \<le> length xs" and "hd xs \<noteq> []"
  shows "canonical_text (join_strings '' '' xs) = join_strings '' '' xs"
proof -
  obtain x y ys where xs: "xs = x # y # ys" using assms(1) by (cases xs; cases "tl xs") auto
  have "\<not> (vfsHasPrefix (x @ '' '' @ r) \<and> length (x @ '' '' @ r) = 5)" for r
  proof
    assume a: "vfsHasPrefix (x @ '' '' @ r) \<and> length (x @ '' '' @ r) = 5"
    have "length x \<le> 4" using a by simp
    moreover have "(x @ '' '' @ r) ! length x = CHR '' ''" by simp
    moreover have "(x @ '' '' @ r) ! i \<noteq> CHR '' ''" if "i \<le> 4" for i
      using a that by (auto simp: vfsHasPrefix_def le_Suc_eq numeral_eq_Suc)
    ultimately show False by blast
  qed
  from this [of "join_strings '' '' (y # ys)"] show ?thesis by (auto simp: canonical_text_def xs)
qed

lemma settle_run:
  assumes inv: "env_inv hash S w"
  obtains w' where "settle hash e w = Some ((), w')" and "follows hash S w w'" and "wabs w' = wabs w"
    and "es_appends (ew_store w') = filter (\<lambda>a. ea_id a \<noteq> e) (es_appends (ew_store w))"
proof (cases "take_append e (es_appends (ew_store w))")
  case None
  then have "filter (\<lambda>a. ea_id a \<noteq> e) (es_appends (ew_store w)) = es_appends (ew_store w)"
    by (auto simp: take_append_None intro!: filter_True)
  then show ?thesis using that [of w] None follows_refl [OF inv] by (simp add: settle_def)
next
  case (Some r)
  then obtain a as where a: "take_append e (es_appends (ew_store w)) = Some (a, as)" by (cases r) auto
  let ?s = "ew_store w" and ?T = "texts (ew_tab w)"
  note ok = env_invD(3) [OF inv]
  have shape: "store_shape ?s" using ok by (rule store_okD)
  note D = store_shapeD [OF shape]
  have as: "as = filter (\<lambda>x. ea_id x \<noteq> e) (es_appends ?s)" using take_append_filter [OF D(5) a] .
  have am: "a \<in> set (es_appends ?s)" "ea_id a = e" using take_append_Some [OF a] by auto
  have app: "app_ok S ?T a" using store_okD(2) [OF ok am(1)] .
  let ?buf = "app_text ?T a"
  have buf: "join_any_text (ew_tab w) [] 0 (ea_parts a) '' '' = Some ?buf"
    using app join_any_text_spec [of "ea_parts a" "ew_tab w" "'' ''"] by (auto simp: app_ok_def app_text_def)
  define s1 where "s1 = ?s\<lparr>es_appends := as, es_pending := BitSet_remove (es_pending ?s) e\<rparr>"
  have s1: "store_ok S ?T s1"
    using ok BitSet_remove_inv [OF D(4)] BitSet_remove_has [OF D(4)] D
    by (auto simp: s1_def store_ok_def store_shape_def as distinct_map_filter)
  let ?w1 = "w\<lparr>ew_store := s1\<rparr>"
  note f1 = env_store [OF inv s1]
  have inv1: "env_inv hash S ?w1" using f1(1) by (simp add: follows_def)
  have w1: "wabs ?w1 = (wabs w)(e := wabs ?w1 e)"
    unfolding f1(2) wabs_def by (auto simp: env_abs_of s1_def as pending_of_filter fun_eq_iff)
  have we: "wabs w e = of_text ?buf" using a by (simp add: wabs_def env_abs_def)
  have tx: "has_text S ?buf" using app by (simp add: app_ok_def)
  define step where "step = (if vfsHasPrefix ?buf
     then ebind (eintern (vfs_intern hash ?buf)) (\<lambda>v. estore (\<lambda>cnt s. setVFS cnt s e v))
     else ebind (eintern (\<lambda>t. internBytes hash t ?buf)) (\<lambda>i. estore (\<lambda>cnt s. setStrID cnt s e i)))"
  obtain w2 where w2: "step ?w1 = Some ((), w2)" "follows hash S ?w1 w2" "wabs w2 = (wabs ?w1)(e := of_text ?buf)"
    "es_appends (ew_store w2) = filter (\<lambda>x. ea_id x \<noteq> e) as"
  proof (cases "vfsHasPrefix ?buf")
    case True
    then obtain w2 where "ebind (eintern (vfs_intern hash ?buf)) (\<lambda>v. estore (\<lambda>cnt s. setVFS cnt s e v)) ?w1 = Some ((), w2)"
      "follows hash S ?w1 w2" "wabs w2 = (wabs ?w1)(e := of_text ?buf)"
      "es_appends (ew_store w2) = filter (\<lambda>x. ea_id x \<noteq> e) (es_appends (ew_store ?w1))"
      using put_text_file [OF inv1 True] tx by (auto simp: has_text_def)
    then show ?thesis using that [of w2] True by (simp add: step_def s1_def)
  next
    case False
    then obtain w2 where "ebind (eintern (\<lambda>t. internStr hash t ?buf)) (\<lambda>i. estore (\<lambda>cnt s. setStrID cnt s e i)) ?w1 = Some ((), w2)"
      "follows hash S ?w1 w2" "wabs w2 = (wabs ?w1)(e := of_text ?buf)"
      "es_appends (ew_store w2) = filter (\<lambda>x. ea_id x \<noteq> e) (es_appends (ew_store ?w1))"
      using put_text_string [OF inv1 False] tx by (auto simp: has_text_def)
    then show ?thesis using that [of w2] False by (simp add: step_def s1_def internBytes_def)
  qed
  have f2: "follows hash S w w2" "wabs w2 = wabs w"
    using follows_trans [OF f1(1) w2(2)] w2(3) w1 we by (auto simp: fun_eq_iff)
  let ?r = "es_textInputs ?s e"
  define w3 where "w3 = (if ?r \<noteq> None then w2\<lparr>ew_store := (ew_store w2)\<lparr>es_textInputs := (es_textInputs (ew_store w2))(e := ?r)\<rparr>\<rparr> else w2)"
  have "settle hash e w = Some ((), w3)"
    unfolding settle_def a option.case prod.case buf Let_def step_def [symmetric] s1_def [symmetric]
    using w2(1) by (simp add: w3_def)
  moreover have "env_inv hash S w3 = env_inv hash S w2" "wabs w3 = wabs w2" "ew_tab w3 = ew_tab w2"
    "es_appends (ew_store w3) = es_appends (ew_store w2)"
    by (auto simp: w3_def env_inv_def store_ok_def wabs_def env_abs_of fun_eq_iff)
  ultimately show ?thesis
    using that [of w3] f2 w2(4) as by (simp add: follows_def)
qed

lemma not_pending:
  assumes "store_shape s" and "es_appends s = [] \<or> \<not> BitSet_has (es_pending s) e"
  shows "pending_of e (es_appends s) = None"
  using assms store_shapeD(6) [OF assms(1)] by (auto simp: pending_of_None)

lemma lookup_run:
  assumes inv: "env_inv hash S w"
  obtains k v w' where "EnvStore_lookup hash e w = Some ((k, v), w')" and "follows hash S w w'" and "wabs w' = wabs w"
    and "EnvStore_cells (ew_store w') e = (k, v)" and "cell_ok (texts (ew_tab w')) (k, v)"
    and "cell_abs (texts (ew_tab w')) (k, v) = wabs w e"
proof -
  have shape: "store_shape (ew_store w)" using env_invD(3) [OF inv] by (rule store_okD)
  let ?c = "es_appends (ew_store w) \<noteq> [] \<and> BitSet_has (es_pending (ew_store w)) e"
  obtain w' where w': "(if ?c then settle hash e else eret ()) w = Some ((), w')" "follows hash S w w'" "wabs w' = wabs w"
    "pending_of e (es_appends (ew_store w')) = None"
  proof (cases ?c)
    case True
    obtain w' where w': "settle hash e w = Some ((), w')" "follows hash S w w'" "wabs w' = wabs w"
      "es_appends (ew_store w') = filter (\<lambda>a. ea_id a \<noteq> e) (es_appends (ew_store w))"
      using settle_run [OF inv] by blast
    then show ?thesis using that [of w'] True by (simp add: pending_of_filter)
  next
    case False
    then show ?thesis using that [of w] follows_refl [OF inv] not_pending [OF shape] by auto
  qed
  obtain k v where kv: "EnvStore_cells (ew_store w') e = (k, v)" by fastforce
  have "EnvStore_lookup hash e w = Some ((k, v), w')" using w'(1) kv by (simp add: EnvStore_lookup_def)
  moreover have "cell_ok (texts (ew_tab w')) (k, v)"
    using w'(2) store_okD(3) [OF env_invD(3), of hash S w' e] kv by (simp add: follows_def)
  moreover have "cell_abs (texts (ew_tab w')) (k, v) = wabs w e"
    using w'(3,4) kv by (metis abs_of_simps(1) env_abs_of wabs_def)
  ultimately show ?thesis using that w'(2,3) kv by blast
qed

lemma settleAll_loop_run:
  assumes "env_inv hash S w" and "length (es_appends (ew_store w)) \<le> n"
  shows "\<exists>w'. settleAll_loop n hash w = Some ((), w') \<and> follows hash S w w' \<and> wabs w' = wabs w \<and> es_appends (ew_store w') = []"
  using assms
proof (induction n arbitrary: w)
  case 0
  then show ?case using follows_refl by auto
next
  case (Suc n)
  show ?case
  proof (cases "es_appends (ew_store w)")
    case Nil
    then show ?thesis using Suc.prems follows_refl by auto
  next
    case (Cons a as)
    obtain w1 where w1: "settle hash (ea_id a) w = Some ((), w1)" "follows hash S w w1" "wabs w1 = wabs w"
      "es_appends (ew_store w1) = filter (\<lambda>x. ea_id x \<noteq> ea_id a) (es_appends (ew_store w))"
      using settle_run [OF Suc.prems(1)] by blast
    have "length (es_appends (ew_store w1)) \<le> n"
      using w1(4) Cons Suc.prems(2) by (simp add: le_trans [OF length_filter_le])
    moreover have "env_inv hash S w1" using w1(2) by (simp add: follows_def)
    ultimately obtain w2 where w2: "settleAll_loop n hash w1 = Some ((), w2)" "follows hash S w1 w2" "wabs w2 = wabs w1"
      "es_appends (ew_store w2) = []"
      using Suc.IH by blast
    then show ?thesis using Cons w1 follows_trans [OF w1(2) w2(2)] by auto
  qed
qed

lemma settleAll_run:
  assumes "env_inv hash S w"
  obtains w' where "settleAll hash w = Some ((), w')" and "follows hash S w w'" and "wabs w' = wabs w" and "es_appends (ew_store w') = []"
  using settleAll_loop_run [OF assms order_refl] by (auto simp: settleAll_def)

section \<open>Appending\<close>

text \<open>What a word stands for, and the value of a variable after some words are appended.\<close>

definition word_abs :: "string list \<Rightarrow> u32 \<Rightarrow> EnvKind \<times> string" where
  "word_abs T a = (if ANY_vfs a \<noteq> 0 then (envVFS, vfs_text T (ANY_vfs a)) else of_text (any_text T a))"

definition append_text :: "string list \<Rightarrow> EnvKind \<times> string \<Rightarrow> u32 list \<Rightarrow> string" where
  "append_text T c args =
     (let new = join_strings '' '' (map (any_text T) args) in if snd c = [] then new else snd c @ '' '' @ new)"

definition append_abs :: "string list \<Rightarrow> EnvKind \<times> string \<Rightarrow> u32 list \<Rightarrow> EnvKind \<times> string" where
  "append_abs T c args =
     (if snd c = [] \<and> length args = 1 then word_abs T (args ! 0) else of_text (append_text T c args))"

definition consts_ok :: "EnvConsts \<Rightarrow> InternTable \<Rightarrow> bool" where
  "consts_ok K t \<longleftrightarrow> str_is t (k_strEmpty K) [] \<and> str_is t (k_strYes K) ''yes'' \<and> str_is t (k_strNo K) ''no''"

lemma prefix_dollar: "vfsHasPrefix s \<Longrightarrow> CHR ''$'' \<in> set s"
  by (cases s) (auto simp: vfsHasPrefix_def vfsPrefixLen_def)

lemma esetFromSTR_run:
  assumes inv: "env_inv hash S w" and v: "unat v < length (texts (ew_tab w))"
    and tx: "has_text S (texts (ew_tab w) ! unat v)"
  obtains w' where "esetFromSTR hash e v w = Some ((), w')" and "follows hash S w w'"
    and "wabs w' = (wabs w)(e := of_text (texts (ew_tab w) ! unat v))"
proof -
  let ?t = "ew_tab w" and ?s = "texts (ew_tab w) ! unat v"
  have small: "unat v < 2 ^ 31" using v texts_small(1) [OF env_invD(1) [OF inv]] by simp
  note any = STR_any_text [OF v small]
  obtain memo where memo: "strHasDollar ?t (STR_any v) (ew_dollar w) = Some (CHR ''$'' \<in> set ?s, memo)" "dollar_inv (texts ?t) memo"
    using strHasDollar_run [OF env_invD(2) [OF inv] any(1)] any(2) by metis
  let ?w = "w\<lparr>ew_dollar := memo\<rparr>"
  have inv': "env_inv hash S ?w" using inv memo(2) by (simp add: env_inv_def)
  have wa: "wabs ?w = wabs w" by (simp add: wabs_def)
  have fo: "follows hash S w w'" if "follows hash S ?w w'" for w' using that by (simp add: follows_def)
  have str: "etext v ?w = Some (?s, ?w)" using v by (simp add: etext_def internString_spec)
  have put: "follows hash S ?w (?w\<lparr>ew_store := setStrID (ew_cnt w) (ew_store w) e v\<rparr>)"
    "wabs (?w\<lparr>ew_store := setStrID (ew_cnt w) (ew_store w) e v\<rparr>) = (wabs w)(e := (envStr, ?s))"
    using put_str [OF inv', of v e] v wa by simp_all
  show ?thesis
  proof (cases "vfsHasPrefix ?s")
    case True
    then obtain w' where w': "ebind (eintern (vfs_intern hash ?s)) (\<lambda>f. estore (\<lambda>cnt st. setVFS cnt st e f)) ?w = Some ((), w')"
      "follows hash S ?w w'" "wabs w' = (wabs ?w)(e := of_text ?s)"
      using put_text_file [OF inv' True] tx by (auto simp: has_text_def)
    then have "esetFromSTR hash e v w = Some ((), w')"
      using memo(1) prefix_dollar [OF True] True str by (simp add: esetFromSTR_def)
    then show ?thesis using that w' fo wa by simp
  next
    case False
    then have "esetFromSTR hash e v w = Some ((), ?w\<lparr>ew_store := setStrID (ew_cnt w) (ew_store w) e v\<rparr>)"
      using memo(1) str by (simp add: esetFromSTR_def Let_def)
    then show ?thesis using that fo [OF put(1)] put(2) False by (simp add: of_text_def)
  qed
qed

lemma add_parts_None: "add_parts e args as = None \<longleftrightarrow> pending_of e as = None"
  by (induction as) (auto simp: pending_of_def option.map_comp comp_def case_prod_unfold)

lemma add_parts_Some:
  assumes "add_parts e args as = Some bs"
  shows "map ea_id bs = map ea_id as"
    and "pending_of f bs = (if f = e then map_option (\<lambda>a. a\<lparr>ea_parts := ea_parts a @ args\<rparr>) (pending_of e as) else pending_of f as)"
    and "set bs \<subseteq> set as \<union> {b. \<exists>a. pending_of e as = Some a \<and> b = a\<lparr>ea_parts := ea_parts a @ args\<rparr>}"
  using assms by (induction as arbitrary: bs)
    (auto simp: pending_of_def option.map_comp comp_def case_prod_unfold split: if_splits)

lemma join_strings_append:
  "xs \<noteq> [] \<Longrightarrow> ys \<noteq> [] \<Longrightarrow> join_strings sep (xs @ ys) = join_strings sep xs @ sep @ join_strings sep ys"
proof (induction xs)
  case (Cons x xs)
  then show ?case by (cases xs) (simp_all add: join_strings_Cons)
qed simp

text \<open>Words appended to a variable that has words pending.\<close>

lemma append_pending:
  assumes inv: "env_inv hash S w" and a: "pending_of e (es_appends (ew_store w)) = Some a"
    and args: "args \<noteq> []" "\<And>p. p \<in> set args \<Longrightarrow> any_ok (texts (ew_tab w)) p"
    and S: "has_text S (append_text (texts (ew_tab w)) (wabs w e) args)"
  obtains as where "add_parts e args (es_appends (ew_store w)) = Some as"
    and "follows hash S w (w\<lparr>ew_store := (ew_store w)\<lparr>es_appends := as\<rparr>\<rparr>)"
    and "wabs (w\<lparr>ew_store := (ew_store w)\<lparr>es_appends := as\<rparr>\<rparr>) = (wabs w)(e := append_abs (texts (ew_tab w)) (wabs w e) args)"
proof -
  let ?s = "ew_store w" and ?T = "texts (ew_tab w)"
  let ?a = "a\<lparr>ea_parts := ea_parts a @ args\<rparr>"
  note ok = env_invD(3) [OF inv]
  have am: "a \<in> set (es_appends ?s)" "ea_id a = e" using pending_of_Some [OF a] by auto
  have app: "app_ok S ?T a" using store_okD(2) [OF ok am(1)] .
  have ne: "ea_parts a \<noteq> []" using app by (auto simp: app_ok_def)
  have pos: "app_text ?T a \<noteq> []" using app ne by (cases "ea_parts a"; cases "tl (ea_parts a)") (auto simp: app_ok_def app_text_def)
  have canon: "canonical_text (app_text ?T a) = app_text ?T a"
    using app ne join_canonical [of "map (any_text ?T) (ea_parts a)"] by (simp add: app_ok_def app_text_def hd_map)
  have we: "wabs w e = of_text (app_text ?T a)" "snd (wabs w e) = app_text ?T a"
    using a canon by (simp_all add: wabs_def env_abs_of of_text_def)
  have tx: "app_text ?T ?a = append_text ?T (wabs w e) args"
    using ne args(1) we(2) pos by (simp add: app_text_def append_text_def join_strings_append)
  have abs: "append_abs ?T (wabs w e) args = of_text (app_text ?T ?a)"
    using we(2) pos tx by (simp add: append_abs_def)
  have app': "app_ok S ?T ?a"
    using app ne args(2) S tx by (auto simp: app_ok_def count_ok_def)
  obtain as where as: "add_parts e args (es_appends ?s) = Some as" using add_parts_None a by (metis not_None_eq)
  note sp = add_parts_Some [OF as]
  let ?s' = "?s\<lparr>es_appends := as\<rparr>"
  have "BitSet_has (es_pending ?s) i" if "i \<in> ea_id ` set as" for i
    using that sp(1) store_shapeD(6) [OF store_okD(1) [OF ok]] by (metis imageE list.set_map)
  then have "store_shape ?s'" using store_okD(1) [OF ok] sp(1) by (auto simp: store_shape_def)
  moreover have "app_ok S ?T b" if "b \<in> set as" for b using that sp(3) a app' store_okD(2) [OF ok] by auto
  ultimately have ok': "store_ok S ?T ?s'" using store_okD(3) [OF ok] by (simp add: store_ok_def)
  have "env_abs ?T ?s' = (wabs w)(e := append_abs ?T (wabs w e) args)"
    unfolding abs using sp(2) a by (auto simp: env_abs_of wabs_def fun_eq_iff)
  then show ?thesis using that [OF as] env_store [OF inv ok'] by simp
qed

lemma prev_word_abs:
  assumes inv: "env_inv hash S w" and K: "str_is (ew_tab w) (k_strEmpty K) []"
    and none: "pending_of e (es_appends (ew_store w)) = None"
  defines "p \<equiv> prev_word (ew_store w) e"
  shows "(p = 0 \<or> p = STR_any (k_strEmpty K) \<longleftrightarrow> snd (wabs w e) = []) \<and>
    (snd (wabs w e) \<noteq> [] \<longrightarrow> any_ok (texts (ew_tab w)) p \<and> any_text (texts (ew_tab w)) p = snd (wabs w e))"
proof -
  let ?T = "texts (ew_tab w)"
  obtain k v where kv: "EnvStore_cells (ew_store w) e = (k, v)" by fastforce
  have ok: "cell_ok ?T (k, v)" using store_okD(3) [OF env_invD(3) [OF inv], of e] kv by simp
  have we: "wabs w e = cell_abs ?T (k, v)" using none kv by (simp add: wabs_def env_abs_of)
  note use = env_invD(1) [OF inv]
  have small: "unat i < length ?T \<Longrightarrow> unat i < 2 ^ 31" for i :: u32 using texts_small(1) [OF use] by simp
  have E: "unat (k_strEmpty K) < length ?T" "k_strEmpty K \<noteq> 0" "?T ! unat (k_strEmpty K) = []" using K by (auto simp: str_is_def)
  have vfs: ?thesis if "k = envVFS"
  proof -
    have v: "v \<noteq> 0" "unat v < 2 ^ 31" "vfs_ok ?T v" "p = VFS_any v" using ok kv that by (auto simp: cell_ok_def p_def prev_word_def)
    have "vfs_text ?T v \<noteq> []" by (simp add: vfs_text_def VFS_prefix_def vfsPrefixLen_def Let_def)
    moreover have "VFS_any v \<noteq> 0" using ANY_simps(3) [OF v(2)] v(1) by (auto simp: ANY_vfs_def)
    moreover have "VFS_any v \<noteq> STR_any (k_strEmpty K)"
      using ANY_simps(3) [OF v(2)] v(1) ANY_simps(2) [OF small [OF E(1)]] by metis
    ultimately show ?thesis using VFS_any_text [OF v(3,1,2)] we that v(4) by (simp add: cell_abs_def)
  qed
  have str: ?thesis if k: "k = envStr \<or> k = envInt"
  proof -
    have v: "unat v < length ?T" "p = STR_any v" using ok kv k by (auto simp: cell_ok_def p_def prev_word_def)
    note vs = small [OF v(1)]
    have w: "snd (wabs w e) = ?T ! unat v" using we k by (auto simp: cell_abs_def)
    have z: "STR_any v = 0 \<longleftrightarrow> v = 0" using ANY_simps(1) [OF vs] by (auto simp: STR_any_def ANY_str_def)
    have "STR_any v = STR_any (k_strEmpty K) \<longleftrightarrow> v = k_strEmpty K"
      using ANY_simps(1) [OF vs] ANY_simps(1) [OF small [OF E(1)]] by metis
    moreover have "?T ! unat v = [] \<longleftrightarrow> v = 0 \<or> v = k_strEmpty K"
    proof
      assume "?T ! unat v = []"
      then have "v \<noteq> 0 \<Longrightarrow> unat v = unat (k_strEmpty K)"
        using v(1) E by (intro texts_inj [OF in_useD(2) [OF use]]) (auto simp: unat_gt_0)
      then show "v = 0 \<or> v = k_strEmpty K" by (auto simp: word_unat_eq_iff)
    next
      assume "v = 0 \<or> v = k_strEmpty K"
      then show "?T ! unat v = []" using E(3) texts_0 [OF intern_invD(1) [OF in_useD(2) [OF use]]] by auto
    qed
    ultimately show ?thesis using STR_any_text [OF v(1) vs] w z v(2) by simp
  qed
  have abs: ?thesis if "k = envAbsent" using kv we that by (simp add: p_def prev_word_def cell_abs_def)
  show ?thesis using vfs str abs by (cases k) blast+
qed

lemma ANY_vfs_small: "unat (ANY_vfs a) < 2 ^ 31"
proof -
  have "unat (drop_bit 1 a) = unat a div 2" by (simp only: unat_drop_bit) simp
  then show ?thesis using unat_u32_less [of a] by (simp only: ANY_vfs_def split: if_split) auto
qed

text \<open>Words appended to a variable that is not set, or is empty.\<close>

lemma append_empty:
  assumes inv: "env_inv hash S w" and args: "args \<noteq> []" "\<And>p. p \<in> set args \<Longrightarrow> any_ok (texts (ew_tab w)) p"
    and c: "snd (wabs w e) = []" and S: "has_text S (append_text (texts (ew_tab w)) (wabs w e) args)"
  obtains w' where "(if length args = 1 then esetFromANY hash e (args ! 0) w
      else ebind (eintern (joinAnysSTR hash args '' '')) (\<lambda>i. esetFromSTR hash e i) w) = Some ((), w')"
    and "follows hash S w w'" and "wabs w' = (wabs w)(e := append_abs (texts (ew_tab w)) (wabs w e) args)"
proof (cases "length args = 1")
  case True
  then obtain a where a: "args = [a]" by (auto simp: length_Suc_conv)
  have aok: "any_ok (texts (ew_tab w)) a" using args(2) a by simp
  show ?thesis
  proof (cases "ANY_vfs a = 0")
    case False
    have "vfs_ok (texts (ew_tab w)) (ANY_vfs a)" using aok False by (simp add: any_ok_def)
    then show ?thesis
      using that put_vfs [OF inv False ANY_vfs_small] a False c by (simp add: esetFromANY_def append_abs_def word_abs_def)
  next
    case z: True
    have tx: "any_text (texts (ew_tab w)) a = texts (ew_tab w) ! unat (ANY_str a)" "unat (ANY_str a) < length (texts (ew_tab w))"
      using aok z by (simp_all add: any_text_def any_ok_def)
    have "has_text S (texts (ew_tab w) ! unat (ANY_str a))" using S a c tx(1) by (simp add: append_text_def)
    then obtain w' where "esetFromSTR hash e (ANY_str a) w = Some ((), w')" "follows hash S w w'"
      "wabs w' = (wabs w)(e := of_text (texts (ew_tab w) ! unat (ANY_str a)))"
      using esetFromSTR_run [OF inv tx(2)] by blast
    then show ?thesis using that [of w'] a z c tx(1) by (simp add: esetFromANY_def append_abs_def word_abs_def)
  qed
next
  case False
  let ?s = "join_strings '' '' (map (any_text (texts (ew_tab w))) args)"
  have S': "has_text S ?s" using S c by (simp add: append_text_def)
  obtain i t where i: "joinAnysSTR hash args '' '' (ew_tab w) = Some (i, t)" "in_use hash S t" "extends (ew_tab w) t" "str_is t i ?s"
    using joinAnysSTR_run [OF env_invD(1) [OF inv] args(2) refl] S' False by (metis has_text_def)
  let ?w = "w\<lparr>ew_tab := t\<rparr>"
  note f = env_tab [OF inv i(2,3)]
  have inv': "env_inv hash S ?w" using f(1) by (simp add: follows_def)
  have ti: "unat i < length (texts (ew_tab ?w))" "texts (ew_tab ?w) ! unat i = ?s" using i(4) by (simp_all add: str_is_def)
  obtain w' where w': "esetFromSTR hash e i ?w = Some ((), w')" "follows hash S ?w w'" "wabs w' = (wabs ?w)(e := of_text ?s)"
    using esetFromSTR_run [OF inv' ti(1)] S' ti(2) by metis
  then show ?thesis
    using that [of w'] False i(1) f follows_trans [OF f(1) w'(2)] c by (simp add: append_abs_def append_text_def)
qed

text \<open>Words appended to a variable with a value: the append is delayed.\<close>

lemma append_new:
  assumes inv: "env_inv hash S w" and K: "str_is (ew_tab w) (k_strEmpty K) []"
    and none: "pending_of e (es_appends (ew_store w)) = None" and ne: "snd (wabs w e) \<noteq> []"
    and args: "args \<noteq> []" "\<And>p. p \<in> set args \<Longrightarrow> any_ok (texts (ew_tab w)) p"
    and S: "has_text S (append_text (texts (ew_tab w)) (wabs w e) args)"
  defines "s' \<equiv> (ew_store w)\<lparr>es_appends := es_appends (ew_store w) @ [\<lparr>ea_id = e, ea_counted = 0, ea_n = 0, ea_parts = prev_word (ew_store w) e # args\<rparr>],
      es_pending := BitSet_add (es_pending (ew_store w)) e\<rparr>"
  shows "follows hash S w (w\<lparr>ew_store := s'\<rparr>)"
    and "wabs (w\<lparr>ew_store := s'\<rparr>) = (wabs w)(e := append_abs (texts (ew_tab w)) (wabs w e) args)"
proof -
  let ?T = "texts (ew_tab w)" and ?s = "ew_store w"
  define a where "a = \<lparr>ea_id = e, ea_counted = 0, ea_n = 0, ea_parts = prev_word ?s e # args\<rparr>"
  note ok = env_invD(3) [OF inv]
  note D = store_shapeD [OF store_okD(1) [OF ok]]
  have p: "any_ok ?T (prev_word ?s e)" "any_text ?T (prev_word ?s e) = snd (wabs w e)"
    using prev_word_abs [OF inv K none] ne by auto
  have tx: "app_text ?T a = append_text ?T (wabs w e) args"
    using p(2) ne args(1) by (cases args) (simp_all add: a_def app_text_def append_text_def)
  have app: "app_ok S ?T a"
    using p args ne S tx unfolding app_ok_def by (cases args) (auto simp: a_def count_ok_def)
  have "store_shape s'"
    using D none BitSet_add_inv [OF D(4)] BitSet_add_has [OF D(4)] unfolding s'_def a_def [symmetric] store_shape_def
    by (auto simp: pending_of_None a_def)
  then have ok': "store_ok S ?T s'"
    using store_okD(2,3) [OF ok] app unfolding s'_def a_def [symmetric] by (auto simp: store_ok_def)
  have "pending_of f (es_appends ?s @ [a]) = (if f = e then Some a else pending_of f (es_appends ?s))" for f
    using none pending_of_snoc [of f "es_appends ?s" a] by (auto simp: a_def split: option.splits)
  then have "env_abs ?T s' = (wabs w)(e := append_abs ?T (wabs w e) args)"
    using tx ne unfolding s'_def a_def [symmetric] by (auto simp: env_abs_of wabs_def append_abs_def fun_eq_iff)
  then show "follows hash S w (w\<lparr>ew_store := s'\<rparr>)"
    "wabs (w\<lparr>ew_store := s'\<rparr>) = (wabs w)(e := append_abs ?T (wabs w e) args)"
    using env_store [OF inv ok'] by simp_all
qed

section \<open>Reading\<close>

lemma str_is_extends: "str_is t i s \<Longrightarrow> extends t t' \<Longrightarrow> str_is t' i s"
  by (auto simp: extends_def str_is_def nth_append)

lemma consts_extends: "consts_ok K t \<Longrightarrow> extends t t' \<Longrightarrow> consts_ok K t'"
  using str_is_extends unfolding consts_ok_def by blast

lemma cell_text:
  assumes "cell_ok (texts (ew_tab w)) (k, v)" and "k \<noteq> envAbsent"
  shows "(if k = envVFS then evfs_text v else etext v) w = Some (snd (cell_abs (texts (ew_tab w)) (k, v)), w)"
  using assms by (cases k) (simp_all add: cell_ok_def cell_abs_def evfs_text_def etext_def VFS_string_text internString_spec)

lemma etext_uses [simp]:
  "etext v (w\<lparr>ew_uses := u\<rparr>) = map_option (\<lambda>(s, w). (s, w\<lparr>ew_uses := u\<rparr>)) (etext v w)"
  "evfs_text v (w\<lparr>ew_uses := u\<rparr>) = map_option (\<lambda>(s, w). (s, w\<lparr>ew_uses := u\<rparr>)) (evfs_text v w)"
  by (simp_all add: etext_def evfs_text_def option.map_comp comp_def)

lemma str_number:
  assumes use: "in_use hash S t" and ij: "str_is t i x" "str_is t j y" shows "i = j \<longleftrightarrow> x = y"
proof
  assume "x = y"
  then have "unat i = unat j" using ij by (intro texts_inj [OF in_useD(2) [OF use]]) (auto simp: str_is_def unat_gt_0)
  then show "i = j" by (simp add: word_unat_eq_iff)
qed (use ij in \<open>auto simp: str_is_def\<close>)

lemma cell_number:
  assumes use: "in_use hash S t" and K: "consts_ok K t" and c: "cell_ok (texts t) (k, v)" "k = envStr \<or> k = envInt"
    and want: "str_is t want x"
  shows "v = want \<or> want = k_strEmpty K \<and> v = 0 \<longleftrightarrow> texts t ! unat v = x"
proof (cases "v = 0")
  case True
  have "texts t ! 0 = []" using texts_0 [OF intern_invD(1) [OF in_useD(2) [OF use]]] .
  then show ?thesis using True want K str_number [OF use want, of "k_strEmpty K" "[]"] by (auto simp: consts_ok_def str_is_def)
next
  case False
  then have "str_is t v (texts t ! unat v)" using c by (auto simp: str_is_def cell_ok_def)
  then show ?thesis using str_number [OF use _ want] False by blast
qed

lemma truthy_run:
  assumes use: "in_use hash S (ew_tab w)" and K: "consts_ok K (ew_tab w)"
    and c: "cell_ok (texts (ew_tab w)) (k, v)" "k = envStr \<or> k = envInt"
  shows "strIsTruthy K v w = Some (stringIsTruthy (texts (ew_tab w) ! unat v), w)"
proof -
  let ?x = "texts (ew_tab w) ! unat v"
  have yes: "stringIsTruthy ''yes''" and no: "\<not> stringIsTruthy ''no''" "\<not> stringIsTruthy []" by code_simp+
  have y: "v = k_strYes K \<Longrightarrow> ?x = ''yes''" and n: "v = k_strNo K \<Longrightarrow> ?x = ''no''"
    using K by (auto simp: consts_ok_def str_is_def)
  have z: "v = 0 \<Longrightarrow> ?x = []" using texts_0 [OF intern_invD(1) [OF in_useD(2) [OF use]]] by simp
  have "etext v w = Some (?x, w)" using c by (auto simp: etext_def internString_spec cell_ok_def)
  then show ?thesis using yes no y n z by (auto simp: strIsTruthy_def)
qed

section \<open>The running length\<close>

lemma word_len_text: "any_ok (texts t) p \<Longrightarrow> word_len t p = Some (length (any_text (texts t) p))"
  by (simp add: word_len_def any_ok_def any_text_def VFS_stringLen_text internString_spec)

lemma count_parts_text:
  "(\<And>p. p \<in> set ps \<Longrightarrow> any_ok (texts t) p) \<Longrightarrow>
   count_parts t ps n = Some (n + sum_list (map (\<lambda>p. 1 + int (length (any_text (texts t) p))) ps))"
  by (induction ps arbitrary: n) (simp_all add: word_len_text add.assoc)

lemma length_join: "xs \<noteq> [] \<Longrightarrow> int (length (join_strings '' '' xs)) = sum_list (map (\<lambda>x. 1 + int (length x)) xs) - 1"
proof (induction xs)
  case (Cons x xs)
  then show ?case by (cases "xs = []") (simp_all add: join_strings_Cons)
qed simp

lemma count_from:
  assumes app: "app_ok S (texts t) a"
  shows "count_parts t (drop (ea_counted a) (ea_parts a)) (if ea_counted a = 0 then -1 else ea_n a) = Some (int (length (app_text (texts t) a)))"
proof -
  let ?f = "\<lambda>p. 1 + int (length (any_text (texts t) p))" and ?k = "ea_counted a" and ?ps = "ea_parts a"
  have ok: "\<And>p. p \<in> set ?ps \<Longrightarrow> any_ok (texts t) p" and ne: "?ps \<noteq> []" using app by (auto simp: app_ok_def)
  have total: "int (length (app_text (texts t) a)) = sum_list (map ?f ?ps) - 1"
    using length_join [of "map (any_text (texts t)) ?ps"] ne by (simp add: app_text_def comp_def)
  have "sum_list (map ?f (take ?k ?ps @ drop ?k ?ps)) = sum_list (map ?f (take ?k ?ps)) + sum_list (map ?f (drop ?k ?ps))"
    by (simp only: map_append sum_list_append)
  then have split: "sum_list (map ?f ?ps) = sum_list (map ?f (take ?k ?ps)) + sum_list (map ?f (drop ?k ?ps))"
    by (simp only: append_take_drop_id)
  have start: "(if ?k = 0 then -1 else ea_n a) = sum_list (map ?f (take ?k ?ps)) - 1"
  proof (cases "?k = 0")
    case False
    then have "ea_n a = int (length (join_strings '' '' (map (any_text (texts t)) (take ?k ?ps))))"
      using app by (simp add: app_ok_def count_ok_def)
    also have "\<dots> = sum_list (map (\<lambda>x. 1 + int (length x)) (map (any_text (texts t)) (take ?k ?ps))) - 1"
      using ne False by (intro length_join) simp
    finally show ?thesis using False by (simp add: comp_def)
  qed simp
  have "count_parts t (drop ?k ?ps) n = Some (n + sum_list (map ?f (drop ?k ?ps)))" for n
    using ok in_set_dropD by (intro count_parts_text) fast
  moreover have "(if ?k = 0 then -1 else ea_n a) + sum_list (map ?f (drop ?k ?ps)) = int (length (app_text (texts t) a))"
    unfolding start total split by simp
  ultimately show ?thesis by presburger
qed

lemma count_append_run:
  assumes "distinct (map ea_id as)" and "\<And>a. a \<in> set as \<Longrightarrow> app_ok S (texts t) a"
  shows "count_append t e as = Some (case pending_of e as of
       None \<Rightarrow> None
     | Some a \<Rightarrow> Some (int (length (app_text (texts t) a)),
         map (\<lambda>x. if ea_id x = e then x\<lparr>ea_n := int (length (app_text (texts t) x)), ea_counted := length (ea_parts x)\<rparr> else x) as))"
  using assms
proof (induction as)
  case (Cons a as)
  show ?case
  proof (cases "ea_id a = e")
    case True
    then have "map (\<lambda>x. if ea_id x = e then x\<lparr>ea_n := int (length (app_text (texts t) x)), ea_counted := length (ea_parts x)\<rparr> else x) as = as"
      using Cons.prems(1) by (intro map_idI) (auto simp: image_iff)
    then show ?thesis using True count_from [OF Cons.prems(2), of a] by (simp add: pending_of_def)
  next
    case False
    have "pending_of e (a # as) = pending_of e as" using False by (simp add: pending_of_def option.map_comp comp_def case_prod_unfold)
    then show ?thesis using Cons False by (auto split: option.splits)
  qed
qed (simp add: pending_of_def)

section \<open>Reading\<close>

definition reads :: "hash128 \<Rightarrow> string set \<Rightarrow> EnvWorld \<Rightarrow> 'a env_act \<Rightarrow> 'a \<Rightarrow> bool" where
  "reads hash S w m x \<longleftrightarrow> (\<exists>w'. m w = Some (x, w') \<and> env_inv hash S w' \<and> extends (ew_tab w) (ew_tab w') \<and> wabs w' = wabs w)"

text \<open>Every reader looks the variable up first, so it is enough to follow it from the looked-up cell on.\<close>

lemma reads_lookup:
  assumes inv: "env_inv hash S w"
    and rest: "\<And>k v u. env_inv hash S u \<Longrightarrow> extends (ew_tab w) (ew_tab u) \<Longrightarrow> cell_ok (texts (ew_tab u)) (k, v)
      \<Longrightarrow> cell_abs (texts (ew_tab u)) (k, v) = wabs w e \<Longrightarrow> fst (wabs w e) = k \<Longrightarrow> \<exists>r. f (k, v) u = Some (x, u\<lparr>ew_uses := r\<rparr>)"
  shows "reads hash S w (ebind (EnvStore_lookup hash e) f) x"
proof -
  obtain k v u where u: "EnvStore_lookup hash e w = Some ((k, v), u)" "follows hash S w u" "wabs u = wabs w"
    "cell_ok (texts (ew_tab u)) (k, v)" "cell_abs (texts (ew_tab u)) (k, v) = wabs w e" using lookup_run [OF inv] by metis
  have "fst (wabs w e) = k" using u(5) by (simp add: cell_abs_def flip: u(5))
  then obtain r where "f (k, v) u = Some (x, u\<lparr>ew_uses := r\<rparr>)" using rest u(2,4,5) unfolding follows_def by blast
  then show ?thesis using u by (auto simp: reads_def follows_def)
qed

lemma keep_uses: "\<exists>r. u = (u :: EnvWorld)\<lparr>ew_uses := r\<rparr>"
  by (rule exI [of _ "ew_uses u"]) simp

lemma env_string_reads: "env_inv hash S w \<Longrightarrow> reads hash S w (env_string hash e) (snd (wabs w e))"
  unfolding env_string_def
proof (rule reads_lookup, assumption)
  fix k v and u :: EnvWorld
  assume u: "cell_ok (texts (ew_tab u)) (k, v)" "cell_abs (texts (ew_tab u)) (k, v) = wabs w e"
  show "\<exists>r. (case (k, v) of (k, v) \<Rightarrow> if k \<noteq> envAbsent then ebind (erecord e) (\<lambda>_. if k = envVFS then evfs_text v else etext v) else eret []) u
      = Some (snd (wabs w e), u\<lparr>ew_uses := r\<rparr>)"
  proof (cases "k = envAbsent")
    case True
    then have "snd (wabs w e) = []" by (simp add: cell_abs_def flip: u(2))
    then show ?thesis using True by (intro exI [of _ "ew_uses u"]) simp
  next
    case False
    then show ?thesis using cell_text [OF u(1) False] u(2) by (auto split: if_splits)
  qed
qed

lemma lookupENV_reads:
  assumes inv: "env_inv hash S w" and e: "e \<noteq> 0"
  shows "reads hash S w (lookupENV hash e) (snd (wabs w e), fst (wabs w e) \<noteq> envAbsent)"
  unfolding lookupENV_def if_not_P [OF e]
proof (rule reads_lookup [OF inv])
  fix k v and u :: EnvWorld
  assume u: "cell_ok (texts (ew_tab u)) (k, v)" "cell_abs (texts (ew_tab u)) (k, v) = wabs w e" "fst (wabs w e) = k"
  show "\<exists>r. (case (k, v) of (k, v) \<Rightarrow> if k = envAbsent then eret ([], False)
        else ebind (erecord e) (\<lambda>_. ebind (if k = envVFS then evfs_text v else etext v) (\<lambda>s. eret (s, True)))) u
      = Some ((snd (wabs w e), fst (wabs w e) \<noteq> envAbsent), u\<lparr>ew_uses := r\<rparr>)"
  proof (cases "k = envAbsent")
    case True
    then have "snd (wabs w e) = []" by (simp add: cell_abs_def flip: u(2))
    then show ?thesis using True u(3) by (intro exI [of _ "ew_uses u"]) simp
  next
    case False
    then show ?thesis using cell_text [OF u(1) False] u(2,3) by (auto simp: ebind_def split: if_splits)
  qed
qed

lemma hasBindingID_reads: "env_inv hash S w \<Longrightarrow> reads hash S w (hasBindingID hash e) (fst (wabs w e) \<noteq> envAbsent)"
  unfolding hasBindingID_def by (rule reads_lookup) (auto intro: keep_uses)

lemma env_bool_reads:
  assumes inv: "env_inv hash S w" and K: "consts_ok K (ew_tab w)"
  shows "reads hash S w (env_bool K hash e)
    (case wabs w e of (envAbsent, _) \<Rightarrow> False | (envVFS, _) \<Rightarrow> True | (_, s) \<Rightarrow> stringIsTruthy s)"
  unfolding env_bool_def
proof (rule reads_lookup [OF inv])
  fix k v and u :: EnvWorld
  assume u: "env_inv hash S u" "extends (ew_tab w) (ew_tab u)" "cell_ok (texts (ew_tab u)) (k, v)" "cell_abs (texts (ew_tab u)) (k, v) = wabs w e"
  have wabs: "wabs w e = cell_abs (texts (ew_tab u)) (k, v)" using u(4) by simp
  show "\<exists>r. (case (k, v) of (k, v) \<Rightarrow> case k of envStr \<Rightarrow> strIsTruthy K v | envInt \<Rightarrow> strIsTruthy K v | envVFS \<Rightarrow> eret True | envAbsent \<Rightarrow> eret False) u
    = Some (case wabs w e of (envAbsent, _) \<Rightarrow> False | (envVFS, _) \<Rightarrow> True | (_, s) \<Rightarrow> stringIsTruthy s, u\<lparr>ew_uses := r\<rparr>)"
    using truthy_run [OF env_invD(1) [OF u(1)] consts_extends [OF K u(2)] u(3)]
    by (intro exI [of _ "ew_uses u"]) (cases k; simp add: wabs cell_abs_def)
qed

lemma env_is_reads:
  assumes inv: "env_inv hash S w" and K: "consts_ok K (ew_tab w)" and want: "str_is (ew_tab w) want x"
  shows "reads hash S w (env_is K hash e want) (fst (wabs w e) \<noteq> envVFS \<and> snd (wabs w e) = x)"
  unfolding env_is_def
proof (rule reads_lookup [OF inv])
  fix k v and u :: EnvWorld
  assume u: "env_inv hash S u" "extends (ew_tab w) (ew_tab u)" "cell_ok (texts (ew_tab u)) (k, v)" "cell_abs (texts (ew_tab u)) (k, v) = wabs w e"
  have wabs: "wabs w e = cell_abs (texts (ew_tab u)) (k, v)" using u(4) by simp
  note want' = str_is_extends [OF want u(2)] and K' = consts_extends [OF K u(2)]
  have E: "want = k_strEmpty K \<longleftrightarrow> x = []"
    using str_number [OF env_invD(1) [OF u(1)] want', of "k_strEmpty K" "[]"] K' by (auto simp: consts_ok_def)
  show "\<exists>r. (case (k, v) of (k, v) \<Rightarrow> if k = envAbsent then eret (want = k_strEmpty K)
       else ebind (erecord e) (\<lambda>_. if k = envVFS then eret False else eret (v = want \<or> want = k_strEmpty K \<and> v = 0))) u
    = Some (fst (wabs w e) \<noteq> envVFS \<and> snd (wabs w e) = x, u\<lparr>ew_uses := r\<rparr>)"
  proof (cases "k = envStr \<or> k = envInt")
    case True
    then show ?thesis
      using cell_number [OF env_invD(1) [OF u(1)] K' u(3) True want'] by (auto simp: wabs cell_abs_def)
  next
    case False
    then consider "k = envVFS" | "k = envAbsent" by (cases k) auto
    then show ?thesis
      by cases (auto simp: wabs cell_abs_def E intro: exI [of _ "ew_uses u"])
  qed
qed

text \<open>Counting the words of a pending append keeps its words, and so everything but the running count.\<close>

definition recount :: "string list \<Rightarrow> u32 \<Rightarrow> envAppend \<Rightarrow> envAppend" where
  "recount T e x = (if ea_id x = e then x\<lparr>ea_n := int (length (app_text T x)), ea_counted := length (ea_parts x)\<rparr> else x)"

lemma recount_simps [simp]: "ea_id (recount T e x) = ea_id x" "ea_parts (recount T e x) = ea_parts x"
  by (simp_all add: recount_def)

lemma recount_text [simp]: "app_text T (recount T' e x) = app_text T x"
  by (simp add: app_text_def)

lemma recount_ok: "app_ok S T x \<Longrightarrow> app_ok S T (recount T e x)"
proof -
  assume x: "app_ok S T x"
  have "count_ok T (recount T e x)" using x by (auto simp: count_ok_def recount_def app_ok_def app_text_def)
  then show ?thesis using x by (simp add: app_ok_def)
qed

lemma recount_pending: "pending_of f (map (recount T e) as) = map_option (recount T e) (pending_of f as)"
  by (induction as) (auto simp: pending_of_def option.map_comp comp_def case_prod_unfold)

lemma recount_store:
  fixes e :: u32
  assumes ok: "store_ok S T s"
  defines "s' \<equiv> s\<lparr>es_appends := map (recount T e) (es_appends s)\<rparr>"
  shows "store_ok S T s'" and "env_abs T s' = env_abs T s"
proof -
  have "store_shape s'" using store_okD(1) [OF ok] by (auto simp: s'_def store_shape_def comp_def)
  then show "store_ok S T s'" using ok recount_ok by (auto simp: s'_def store_ok_def)
  show "env_abs T s' = env_abs T s"
    by (auto simp: fun_eq_iff env_abs_of s'_def recount_pending split: option.splits simp: abs_of_def)
qed

lemma env_stringLen_reads:
  assumes inv: "env_inv hash S w" shows "reads hash S w (env_stringLen e) (int (length (snd (wabs w e))))"
proof (cases "pending_of e (es_appends (ew_store w))")
  case None
  let ?c = "EnvStore_cells (ew_store w) e"
  have cnt: "count_append (ew_tab w) e (es_appends (ew_store w)) = Some None"
    using count_append_run [OF store_shapeD(5) [OF store_okD(1) [OF env_invD(3) [OF inv]]] store_okD(2) [OF env_invD(3) [OF inv]]] None by simp
  have c: "cell_ok (texts (ew_tab w)) ?c" "wabs w e = cell_abs (texts (ew_tab w)) ?c"
    using store_okD(3) [OF env_invD(3) [OF inv]] None by (simp_all add: wabs_def env_abs_of)
  have "env_stringLen e w = Some (int (length (snd (wabs w e))), w)"
    using c cnt by (cases ?c; cases "fst ?c")
      (simp_all add: env_stringLen_def Let_def cell_ok_def cell_abs_def VFS_stringLen_text internString_spec)
  then show ?thesis using inv follows_refl [OF inv] by (simp add: reads_def follows_def)
next
  case (Some a)
  let ?s = "ew_store w" and ?T = "texts (ew_tab w)"
  note ok = env_invD(3) [OF inv]
  have a: "a \<in> set (es_appends ?s)" "ea_id a = e" using pending_of_Some [OF Some] by auto
  then have has: "BitSet_has (es_pending ?s) e" "es_appends ?s \<noteq> []" using store_shapeD(6) [OF store_okD(1) [OF ok]] by auto
  have "app_ok S ?T a" using store_okD(2) [OF ok a(1)] .
  then have "2 \<le> length (ea_parts a)" "hd (map (any_text ?T) (ea_parts a)) \<noteq> []" by (cases "ea_parts a"; simp add: app_ok_def)+
  then have "app_text ?T a = snd (of_text (app_text ?T a))"
    using join_canonical [of "map (any_text ?T) (ea_parts a)"] by (simp add: of_text_def app_text_def)
  then have val: "int (length (app_text ?T a)) = int (length (snd (wabs w e)))" using Some by (simp add: wabs_def env_abs_of)
  have "env_stringLen e w = Some (int (length (app_text ?T a)), w\<lparr>ew_store := ?s\<lparr>es_appends := map (recount ?T e) (es_appends ?s)\<rparr>\<rparr>)"
    using count_append_run [OF store_shapeD(5) [OF store_okD(1) [OF ok]] store_okD(2) [OF ok], of e] Some has
    by (simp add: env_stringLen_def Let_def recount_def [abs_def])
  then show ?thesis unfolding val
    using recount_store [OF ok] env_store [OF inv recount_store(1) [OF ok]] by (auto simp: reads_def follows_def wabs_def)
qed

lemma lookup_settled:
  "pending_of e (es_appends (ew_store w)) = None \<Longrightarrow> EnvStore_lookup hash e w = Some (EnvStore_cells (ew_store w) e, w)"
  by (simp add: EnvStore_lookup_def settle_def pending_of_def)

text \<open>\<^verbatim>\<open>unbind\<close> and \<^verbatim>\<open>rebind\<close> write the kind alone.\<close>

lemma set_kind:
  fixes k :: EnvKind
  assumes shape: "store_shape s" and e: "unat e < vec_len (es_kind s)"
  defines "s' \<equiv> (confWrite s e)\<lparr>es_kind := Vec_store (es_kind s) (unat e) k\<rparr>"
  shows "store_shape s'" and "EnvStore_cells s' = (EnvStore_cells s)(e := (k, snd (EnvStore_cells s e)))"
    and "es_appends s' = es_appends s" and "vec_len (es_kind s') = vec_len (es_kind s)" and "es_kind s' = Vec_store (es_kind s) (unat e) k"
proof -
  note D = store_shapeD [OF shape]
  have F: "es_val s' = es_val s" "es_kind s' = Vec_store (es_kind s) (unat e) k" "es_appends s' = es_appends s" "es_pending s' = es_pending s"
    by (simp_all add: s'_def confWrite_def)
  show "es_appends s' = es_appends s" "es_kind s' = Vec_store (es_kind s) (unat e) k" by (fact F)+
  show "store_shape s'" unfolding store_shape_def F using D by (auto simp: Vec_store_def Vec_inv_def)
  show "EnvStore_cells s' = (EnvStore_cells s)(e := (k, snd (EnvStore_cells s e)))"
    using e D length_vec_s [OF D(1)] unfolding EnvStore_cells_def F
    by (auto simp: fun_eq_iff nth_list_update word_unat_eq_iff)
  show "vec_len (es_kind s') = vec_len (es_kind s)" by (simp add: F Vec_store_def)
qed

text \<open>A variable that is set lies within the arrays.\<close>

lemma cell_in_range: "fst (EnvStore_cells s e) \<noteq> envAbsent \<Longrightarrow> unat e < vec_len (es_kind s)"
  by (auto simp: EnvStore_cells_def split: if_splits)

section \<open>A small world\<close>

lemma small_world:
  obtains w K i where "env_inv (\<lambda>s. (7, of_nat (length s))) {[], ''x'', ''no'', ''yes'', ''x no''} w"
    and "consts_ok K (ew_tab w)" and "str_is (ew_tab w) i ''x''" and "wabs w = (\<lambda>_. (envAbsent, []))"
    and "ew_store w = newEnvStore 0" and "k_intSTR K = [k_strNo K]" and "ew_cnt w = 1"
proof -
  let ?h = "\<lambda>s :: string. (7 :: u64, of_nat (length s) :: u64)" and ?S = "{[], ''x'', ''no'', ''yes'', ''x no''}"
  obtain t where t: "intern_inv ?h t" "texts t = [[]]" using internTable_spec by blast
  have "strings_ok ?h ?S" by (auto simp: strings_ok_def hash_ok_def inj_on_def)
  then have u0: "in_use ?h ?S t" using t by (simp add: in_use_def names_def)
  obtain a t1 where a: "in_use ?h ?S t1" "str_is t1 a []" using internStr_run [OF u0, of "[]"] by blast
  obtain b t2 where b: "in_use ?h ?S t2" "extends t1 t2" "str_is t2 b ''yes''" using internStr_run [OF a(1), of "''yes''"] by blast
  obtain c t3 where c: "in_use ?h ?S t3" "extends t2 t3" "str_is t3 c ''no''" using internStr_run [OF b(1), of "''no''"] by blast
  obtain i t4 where i: "in_use ?h ?S t4" "extends t3 t4" "str_is t4 i ''x''" using internStr_run [OF c(1), of "''x''"] by blast
  let ?K = "\<lparr>k_strEmpty = a, k_strYes = b, k_strNo = c, k_intSTR = [c]\<rparr>"
  let ?w = "\<lparr>ew_tab = t4, ew_dollar = TwoBitSet_empty, ew_cnt = 1, ew_store = newEnvStore 0, ew_uses = None\<rparr>"
  have "consts_ok ?K t4"
    using str_is_extends [OF a(2) extends_trans [OF b(2) extends_trans [OF c(2) i(2)]]]
      str_is_extends [OF b(3) extends_trans [OF c(2) i(2)]] str_is_extends [OF c(3) i(2)] by (simp add: consts_ok_def)
  moreover have empty: "EnvStore_cells (newEnvStore 0) e = (envAbsent, 0)" for e by (simp add: EnvStore_cells_def newEnvStore_def)
  have "store_ok ?S (texts t4) (newEnvStore 0)"
    using BitSet_empty_inv empty by (simp add: store_ok_def store_shape_def cell_ok_def) (simp add: newEnvStore_def Vec_inv_def Vec_empty_def)
  moreover have "TwoBitSet_get TwoBitSet_empty v = dollarUnseen" for v by (simp add: TwoBitSet_get_def TwoBitSet_empty_def dollarUnseen_def)
  then have "dollar_inv (texts t4) TwoBitSet_empty" using TwoBitSet_empty_inv by (simp add: dollar_inv_def)
  ultimately have "env_inv ?h ?S ?w" using i(1) by (simp add: env_inv_def)
  moreover have "wabs ?w = (\<lambda>_. (envAbsent, []))"
  proof -
    have "es_appends (newEnvStore 0) = []" by (simp add: newEnvStore_def)
    then show ?thesis using empty by (simp add: wabs_def env_abs_def cell_abs_def fun_eq_iff)
  qed
  ultimately show ?thesis using that [of ?w ?K i] \<open>consts_ok ?K t4\<close> i(3) by simp
qed

text \<open>The same world after a value and a pending append for variable 1.\<close>

lemma word_any:
  assumes "env_inv hash S w" and "str_is (ew_tab w) j s"
  shows "any_ok (texts (ew_tab w)) (STR_any j)" "any_text (texts (ew_tab w)) (STR_any j) = s" "ANY_vfs (STR_any j) = 0"
proof -
  have "unat j < length (texts (ew_tab w))" "texts (ew_tab w) ! unat j = s" using assms(2) by (auto simp: str_is_def)
  moreover have "unat j < 2 ^ 31" using calculation(1) texts_small(1) [OF env_invD(1) [OF assms(1)]] by simp
  ultimately show "any_ok (texts (ew_tab w)) (STR_any j)" "any_text (texts (ew_tab w)) (STR_any j) = s" "ANY_vfs (STR_any j) = 0"
    using STR_any_text ANY_simps by auto
qed

lemma pending_world:
  obtains w K where "env_inv (\<lambda>s. (7, of_nat (length s))) {[], ''x'', ''no'', ''yes'', ''x no''} w"
    and "consts_ok K (ew_tab w)" and "wabs w 1 = (envStr, ''x no'')" and "k_intSTR K = [k_strNo K]"
    and "pending_of 1 (es_appends (ew_store w)) \<noteq> None" and "cell_abs (texts (ew_tab w)) (EnvStore_cells (ew_store w) 1) = (envStr, ''x'')"
    and "vec_len (es_kind (ew_store w)) = 64"
proof -
  let ?h = "\<lambda>s :: string. (7 :: u64, of_nat (length s) :: u64)" and ?S = "{[], ''x'', ''no'', ''yes'', ''x no''}"
  obtain w K i where w: "env_inv ?h ?S w" "consts_ok K (ew_tab w)" "str_is (ew_tab w) i ''x''" "k_intSTR K = [k_strNo K]" "ew_store w = newEnvStore 0" "ew_cnt w = 1"
    using small_world by metis
  have i: "unat i < length (texts (ew_tab w))" "texts (ew_tab w) ! unat i = ''x''" using w(3) by (auto simp: str_is_def)
  define u where "u = w\<lparr>ew_store := setStrID (ew_cnt w) (ew_store w) 1 i\<rparr>"
  have app: "es_appends (ew_store w) = []" by (simp add: w(5) newEnvStore_def)
  have c: "cell_ok (texts (ew_tab w)) (envStr, i)" using i by (simp add: cell_ok_def)
  note sp = setStrID_spec [OF env_invD(3) [OF w(1)] c, where cnt = "ew_cnt w" and e = 1]
  have u: "env_inv ?h ?S u" "wabs u 1 = (envStr, ''x'')" "ew_tab u = ew_tab w" "es_appends (ew_store u) = []"
    using put_str [OF w(1) i(1), of 1] i(2) sp(3) app by (auto simp: u_def follows_def)
  have len: "vec_len (es_kind (ew_store u)) = 64"
    by (simp add: u_def w(5,6) newEnvStore_def setStrID_def store_value_def confWrite_def clearResourceBinding_def EnvStore_ensure_def
        Let_def fresh_copy_def Vec_store_def Vec_empty_def)
  have none: "pending_of 1 (es_appends (ew_store u)) = None" using u(4) by (simp add: pending_of_None)
  have cell: "cell_abs (texts (ew_tab u)) (EnvStore_cells (ew_store u) 1) = (envStr, ''x'')" using u(2) none by (simp add: wabs_def env_abs_of)
  have K: "str_is (ew_tab u) (k_strEmpty K) []" "str_is (ew_tab u) (k_strNo K) ''no''" using w(2) u(3) by (simp_all add: consts_ok_def)
  note no = word_any [OF u(1) K(2)]
  have np: "\<not> vfsHasPrefix ''x no''" by code_simp
  have tx: "append_text (texts (ew_tab u)) (wabs u 1) [STR_any (k_strNo K)] = ''x no''" using no(2) u(2) by (simp add: append_text_def)
  have ok: "has_text ?S (append_text (texts (ew_tab u)) (wabs u 1) [STR_any (k_strNo K)])" unfolding tx using np by (simp add: has_text_def)
  have ne: "snd (wabs u 1) \<noteq> []" using u(2) by simp
  define v where "v = u\<lparr>ew_store := (ew_store u)\<lparr>es_appends := es_appends (ew_store u) @
    [\<lparr>ea_id = 1, ea_counted = 0, ea_n = 0, ea_parts = prev_word (ew_store u) 1 # [STR_any (k_strNo K)]\<rparr>],
      es_pending := BitSet_add (es_pending (ew_store u)) 1\<rparr>\<rparr>"
  have args: "\<And>p. p \<in> set [STR_any (k_strNo K)] \<Longrightarrow> any_ok (texts (ew_tab u)) p" using no(1) by simp
  note new = append_new [OF u(1) K(1) none ne list.distinct(2) args ok, folded v_def]
  have v: "env_inv ?h ?S v" "wabs v 1 = (envStr, ''x no'')" "ew_tab v = ew_tab u" "EnvStore_cells (ew_store v) = EnvStore_cells (ew_store u)"
    using new(1) new(2) tx ne np by (auto simp: follows_def append_abs_def of_text_def v_def)
  moreover have "vec_len (es_kind (ew_store v)) = 64" using len by (simp add: v_def)
  moreover have "pending_of 1 (es_appends (ew_store v)) \<noteq> None" by (simp add: pending_of_None v_def)
  ultimately show ?thesis using that [of v K] w(2,4) u(3) cell by simp
qed

section \<open>Properties\<close>

text \<open>
  C2: A delayed append cannot be told from one that takes effect at once: \<^verbatim>\<open>appendANYs\<close> returns, keeps the
  environment well formed, and gives the variable the old text, a space and the joined words (or the
  words alone when the variable was unset or empty), whether the variable already had words
  pending, had a value or had none; the other variables keep their values.
\<close>

theorem appendANYs_correct:
  assumes inv: "env_inv hash S w" and K: "str_is (ew_tab w) (k_strEmpty K) []"
    and args: "\<forall>p \<in> set args. any_ok (texts (ew_tab w)) p"
    and S: "has_text S (append_text (texts (ew_tab w)) (wabs w e) (if args = [] then [STR_any (k_strEmpty K)] else args))"
  shows "\<exists>w'. appendANYs K hash e args w = Some ((), w') \<and> env_inv hash S w' \<and> extends (ew_tab w) (ew_tab w')
    \<and> wabs w' = (wabs w)(e := append_abs (texts (ew_tab w)) (wabs w e) (if args = [] then [STR_any (k_strEmpty K)] else args))"
proof -
  define as where "as = (if args = [] then [STR_any (k_strEmpty K)] else args)"
  have E: "unat (k_strEmpty K) < length (texts (ew_tab w))" using K by (simp add: str_is_def)
  then have "unat (k_strEmpty K) < 2 ^ 31" using texts_small(1) [OF env_invD(1) [OF inv]] by simp
  then have as: "as \<noteq> []" "\<And>p. p \<in> set as \<Longrightarrow> any_ok (texts (ew_tab w)) p"
    using args STR_any_text(1) [OF E] by (auto simp: as_def split: if_splits)
  have S': "has_text S (append_text (texts (ew_tab w)) (wabs w e) as)" using S by (simp add: as_def)
  have body: "appendANYs K hash e args w =
     (case add_parts e as (es_appends (ew_store w)) of
        Some bs \<Rightarrow> Some ((), w\<lparr>ew_store := (ew_store w)\<lparr>es_appends := bs\<rparr>\<rparr>)
      | None \<Rightarrow> if prev_word (ew_store w) e = 0 \<or> prev_word (ew_store w) e = STR_any (k_strEmpty K)
          then (if length as = 1 then esetFromANY hash e (as ! 0) w
                else ebind (eintern (joinAnysSTR hash as '' '')) (\<lambda>i. esetFromSTR hash e i) w)
          else Some ((), w\<lparr>ew_store := (ew_store w)\<lparr>es_appends := es_appends (ew_store w) @
                 [\<lparr>ea_id = e, ea_counted = 0, ea_n = 0, ea_parts = prev_word (ew_store w) e # as\<rparr>],
               es_pending := BitSet_add (es_pending (ew_store w)) e\<rparr>\<rparr>))"
    unfolding appendANYs_def as_def Let_def ..
  have "\<exists>w'. appendANYs K hash e args w = Some ((), w') \<and> follows hash S w w'
    \<and> wabs w' = (wabs w)(e := append_abs (texts (ew_tab w)) (wabs w e) as)"
  proof (cases "pending_of e (es_appends (ew_store w))")
    case (Some a)
    obtain bs where "add_parts e as (es_appends (ew_store w)) = Some bs"
      and "follows hash S w (w\<lparr>ew_store := (ew_store w)\<lparr>es_appends := bs\<rparr>\<rparr>)"
      and "wabs (w\<lparr>ew_store := (ew_store w)\<lparr>es_appends := bs\<rparr>\<rparr>) = (wabs w)(e := append_abs (texts (ew_tab w)) (wabs w e) as)"
      using append_pending [OF inv Some as S'] by metis
    then show ?thesis unfolding body by simp
  next
    case None
    then have add: "add_parts e as (es_appends (ew_store w)) = None" by (simp add: add_parts_None)
    note prev = prev_word_abs [OF inv K None]
    show ?thesis
    proof (cases "snd (wabs w e) = []")
      case True
      obtain w' where "(if length as = 1 then esetFromANY hash e (as ! 0) w
          else ebind (eintern (joinAnysSTR hash as '' '')) (\<lambda>i. esetFromSTR hash e i) w) = Some ((), w')"
        and "follows hash S w w'" and "wabs w' = (wabs w)(e := append_abs (texts (ew_tab w)) (wabs w e) as)"
        using append_empty [OF inv as True S'] by metis
      then show ?thesis using True prev unfolding body add by simp
    next
      case False
      then show ?thesis
        using append_new [OF inv K None False as S'] prev unfolding body add by simp
    qed
  qed
  then show ?thesis unfolding as_def follows_def by blast
qed

theorem appendANYs_correct_witness:
  "\<exists>w K i w' w''. appendANYs K (\<lambda>s. (7, of_nat (length s))) 1 [STR_any i] w = Some ((), w')
     \<and> wabs w' 1 = (envStr, ''x'') \<and> appendANYs K (\<lambda>s. (7, of_nat (length s))) 1 [STR_any (k_strNo K)] w' = Some ((), w'')
     \<and> wabs w'' 1 = (envStr, ''x no'')"
proof -
  let ?h = "\<lambda>s :: string. (7 :: u64, of_nat (length s) :: u64)" and ?S = "{[], ''x'', ''no'', ''yes'', ''x no''}"
  obtain w K i where w: "env_inv ?h ?S w" "consts_ok K (ew_tab w)" "str_is (ew_tab w) i ''x''" "wabs w = (\<lambda>_. (envAbsent, []))"
    using small_world by metis
  have K: "str_is (ew_tab w) (k_strEmpty K) []" "str_is (ew_tab w) (k_strNo K) ''no''" using w(2) by (simp_all add: consts_ok_def)
  have np: "\<not> vfsHasPrefix ''x''" "\<not> vfsHasPrefix ''x no''" by code_simp+
  from appendANYs_correct [OF w(1) K(1), of "[STR_any i]" 1] obtain w' where w': "appendANYs K ?h 1 [STR_any i] w = Some ((), w')"
    "env_inv ?h ?S w'" "extends (ew_tab w) (ew_tab w')" "wabs w' 1 = (envStr, ''x'')"
    using word_any [OF w(1,3)] w(4) np by (auto simp: append_text_def append_abs_def word_abs_def has_text_def of_text_def)
  have K': "str_is (ew_tab w') (k_strEmpty K) []" "str_is (ew_tab w') (k_strNo K) ''no''" using K w'(3) str_is_extends by blast+
  from appendANYs_correct [OF w'(2) K'(1), of "[STR_any (k_strNo K)]" 1] obtain w''
    where "appendANYs K ?h 1 [STR_any (k_strNo K)] w' = Some ((), w'')" "wabs w'' 1 = (envStr, ''x no'')"
    using word_any [OF w'(2) K'(2)] w'(4) np by (auto simp: append_text_def append_abs_def has_text_def of_text_def)
  then show ?thesis using w'(1,4) by blast
qed


text \<open>
  C14: Every way to read a variable agrees with the variable's kind and text, whether or not words are
  waiting to be appended, and none of them changes a value: \<^verbatim>\<open>string\<close>, \<^verbatim>\<open>lookupENV\<close> and
  \<^verbatim>\<open>hasBindingID\<close> return the text and whether there is one, \<^verbatim>\<open>stringLen\<close>, which counts without
  joining, returns the length of what \<^verbatim>\<open>string\<close> returns, \<^verbatim>\<open>bool\<close> decides by the text, and \<^verbatim>\<open>is\<close>
  compares by number exactly when the text is the wanted one and not a file.
\<close>

theorem env_reads_agree:
  assumes "env_inv hash S w" and "consts_ok K (ew_tab w)" and "str_is (ew_tab w) want x" and "e \<noteq> 0"
  shows "reads hash S w (env_string hash e) (snd (wabs w e))
    \<and> reads hash S w (env_stringLen e) (int (length (snd (wabs w e))))
    \<and> reads hash S w (lookupENV hash e) (snd (wabs w e), fst (wabs w e) \<noteq> envAbsent)
    \<and> reads hash S w (hasBindingID hash e) (fst (wabs w e) \<noteq> envAbsent)
    \<and> reads hash S w (env_bool K hash e)
        (case wabs w e of (envAbsent, _) \<Rightarrow> False | (envVFS, _) \<Rightarrow> True | (_, s) \<Rightarrow> stringIsTruthy s)
    \<and> reads hash S w (env_is K hash e want) (fst (wabs w e) \<noteq> envVFS \<and> snd (wabs w e) = x)"
  using env_string_reads [OF assms(1)] env_stringLen_reads [OF assms(1)] lookupENV_reads [OF assms(1,4)]
    hasBindingID_reads [OF assms(1)] env_bool_reads [OF assms(1,2)] env_is_reads [OF assms(1-3)] by (intro conjI)


theorem env_reads_agree_witness:
  "\<exists>w K hash. wabs w 1 = (envStr, ''x no'') \<and> pending_of 1 (es_appends (ew_store w)) \<noteq> None
     \<and> map_option fst (env_string hash 1 w) = Some ''x no'' \<and> map_option fst (env_stringLen 1 w) = Some 4
     \<and> map_option fst (env_bool K hash 1 w) = Some True"
proof -
  obtain w K where w: "env_inv (\<lambda>s. (7, of_nat (length s))) {[], ''x'', ''no'', ''yes'', ''x no''} w" "consts_ok K (ew_tab w)"
    "wabs w 1 = (envStr, ''x no'')" "pending_of 1 (es_appends (ew_store w)) \<noteq> None" using pending_world by metis
  have "str_is (ew_tab w) (k_strEmpty K) []" "(1 :: u32) \<noteq> 0" using w(2) by (simp_all add: consts_ok_def)
  from env_reads_agree [OF w(1,2) this] w(3,4) show ?thesis
    by (intro exI [of _ w] exI [of _ K]) (auto simp: reads_def stringIsTruthy_def lower_byte_def intro!: exI)
qed

text \<open>
  C37: \<^verbatim>\<open>setInt\<close> does not drop the words that are pending for the variable: when there are any, the call
  leaves every value as it was and the new number is lost; with no words pending it sets the variable
  to the text of the number.
\<close>

theorem setInt_loses_to_append:
  assumes inv: "env_inv hash S w" and n: "n < length (k_intSTR K)" and v: "unat (k_intSTR K ! n) < length (texts (ew_tab w))"
  shows "\<exists>s. setInt K (ew_cnt w) (ew_store w) e n = Some s \<and> env_inv hash S (w\<lparr>ew_store := s\<rparr>)
    \<and> wabs (w\<lparr>ew_store := s\<rparr>) =
        (if pending_of e (es_appends (ew_store w)) \<noteq> None then wabs w
         else (wabs w)(e := (envInt, texts (ew_tab w) ! unat (k_intSTR K ! n))))"
proof -
  let ?v = "k_intSTR K ! n" and ?T = "texts (ew_tab w)"
  let ?s = "store_value (ew_cnt w) (ew_store w) e envInt ?v"
  note ok = env_invD(3) [OF inv]
  note sp = store_value_spec [OF store_okD(1) [OF ok], of "ew_cnt w" e envInt ?v]
  have "cell_ok ?T (EnvStore_cells ?s f)" for f using store_okD(3) [OF ok] v by (simp add: sp(2) cell_ok_def)
  then have ok': "store_ok S ?T ?s" using sp store_okD(2) [OF ok] by (simp add: store_ok_def)
  have "env_abs ?T ?s = (if pending_of e (es_appends (ew_store w)) \<noteq> None then wabs w else (wabs w)(e := (envInt, ?T ! unat ?v)))"
    by (auto simp: fun_eq_iff env_abs_of wabs_def sp cell_abs_def)
  then show ?thesis using env_store [OF inv ok'] n by (simp add: setInt_def at_opt_def follows_def)
qed

theorem setInt_loses_to_append_witness:
  "\<exists>w K s. wabs w 1 = (envStr, ''x no'') \<and> k_intSTR K = [k_strNo K]
     \<and> setInt K (ew_cnt w) (ew_store w) 1 0 = Some s \<and> wabs (w\<lparr>ew_store := s\<rparr>) 1 = (envStr, ''x no'')"
proof -
  obtain w K where w: "env_inv (\<lambda>s. (7, of_nat (length s))) {[], ''x'', ''no'', ''yes'', ''x no''} w" "consts_ok K (ew_tab w)"
    "wabs w 1 = (envStr, ''x no'')" "k_intSTR K = [k_strNo K]" "pending_of 1 (es_appends (ew_store w)) \<noteq> None" using pending_world by metis
  have "unat (k_intSTR K ! 0) < length (texts (ew_tab w))" "0 < length (k_intSTR K)" using w(2,4) by (auto simp: consts_ok_def str_is_def)
  from setInt_loses_to_append [OF w(1) this(2,1), of 1] obtain s
    where "setInt K (ew_cnt w) (ew_store w) 1 0 = Some s" "wabs (w\<lparr>ew_store := s\<rparr>) = wabs w" using w(5) by auto
  then have "wabs (w\<lparr>ew_store := s\<rparr>) 1 = (envStr, ''x no'')" using w(3) by simp
  then show ?thesis using w(3,4) \<open>setInt K (ew_cnt w) (ew_store w) 1 0 = Some s\<close> by blast
qed

text \<open>
  C36: \<^verbatim>\<open>unbind\<close> hides a variable and returns its kind, and \<^verbatim>\<open>rebind\<close> with that kind brings it back, but
  only the value it had before the words that were pending: these are dropped for good, so the pair
  is not neutral for a variable that was appended to and not read since.
\<close>

theorem unbind_rebind:
  assumes inv: "env_inv hash S w"
  shows "\<exists>k w1 w2. unbind hash e w = Some (k, w1) \<and> rebind e k w1 = Some ((), w2)
    \<and> wabs w1 = (wabs w)(e := (envAbsent, []))
    \<and> env_inv hash S w2 \<and> wabs w2 = (wabs w)(e := cell_abs (texts (ew_tab w)) (EnvStore_cells (ew_store w) e))"
proof -
  let ?T = "texts (ew_tab w)" and ?C = "EnvStore_cells (ew_store w)"
  define s where "s = (if es_appends (ew_store w) \<noteq> [] then dropAppend (ew_store w) e else ew_store w)"
  note ok = env_invD(3) [OF inv]
  have s: "store_shape s" "EnvStore_cells s = ?C" "es_appends s = filter (\<lambda>x. ea_id x \<noteq> e) (es_appends (ew_store w))"
    using dropAppend_eq [OF store_okD(1) [OF ok], of e] store_okD(1) [OF ok] by (auto simp: s_def)
  have kept: "store_ok S ?T s'" "env_abs ?T s' = (wabs w)(e := cell_abs ?T c)"
    if "store_shape s'" "EnvStore_cells s' = ?C(e := c)" "es_appends s' = es_appends s" "cell_ok ?T c" for s' c
    using that store_okD(2,3) [OF ok] s(3) by (auto simp: store_ok_def fun_eq_iff env_abs_of wabs_def pending_of_filter)
  obtain k v where kv: "?C e = (k, v)" by force
  have look: "EnvStore_lookup hash e (w\<lparr>ew_store := s\<rparr>) = Some ((k, v), w\<lparr>ew_store := s\<rparr>)"
    using lookup_settled [of e "w\<lparr>ew_store := s\<rparr>" hash] s kv by (simp add: pending_of_filter)
  have first: "ebind (if es_appends (ew_store w) \<noteq> [] then estore (\<lambda>cnt s. dropAppend s e) else eret ()) f w = f () (w\<lparr>ew_store := s\<rparr>)"
    for f :: "unit \<Rightarrow> 'b env_act" by (simp add: s_def)
  have ck: "cell_ok ?T (k, v)" using store_okD(3) [OF ok, of e] kv by simp
  show ?thesis
  proof (cases "k = envAbsent")
    case True
    have c: "cell_abs ?T (k, v) = (envAbsent, [])" using True by (simp add: cell_abs_def)
    have "EnvStore_cells s = ?C(e := (k, v))" using s(2) kv by auto
    note K = kept [OF s(1) this refl ck]
    have "unbind hash e w = Some (k, w\<lparr>ew_store := s\<rparr>)" "rebind e k (w\<lparr>ew_store := s\<rparr>) = Some ((), w\<lparr>ew_store := s\<rparr>)"
      using look True by (simp_all add: unbind_def first rebind_def)
    then show ?thesis using env_store [OF inv K(1)] K(2) c kv by (auto simp: follows_def)
  next
    case False
    then have e: "unat e < vec_len (es_kind s)" using cell_in_range [of s e] s(2) kv by simp
    define s1 where "s1 = (confWrite s e)\<lparr>es_kind := Vec_store (es_kind s) (unat e) envAbsent\<rparr>"
    note S1 = set_kind [OF s(1) e, of envAbsent, folded s1_def]
    have e1: "unat e < vec_len (es_kind s1)" using e S1(4) by simp
    define s2 where "s2 = (confWrite s1 e)\<lparr>es_kind := Vec_store (es_kind s1) (unat e) k\<rparr>"
    note S2 = set_kind [OF S1(1) e1, of k, folded s2_def]
    have c1: "EnvStore_cells s1 = ?C(e := (envAbsent, v))" and c2: "EnvStore_cells s2 = ?C(e := (k, v))"
      using S1(2) S2(2) s(2) kv by auto
    have "cell_ok ?T (envAbsent, v)" "cell_abs ?T (envAbsent, v) = (envAbsent, [])" by (simp_all add: cell_ok_def cell_abs_def)
    note K1 = kept [OF S1(1) c1 S1(3) this(1)] this(2) and K2 = kept [OF S2(1) c2 trans [OF S2(3) S1(3)] ck]
    have "unbind hash e w = Some (k, w\<lparr>ew_store := s1\<rparr>)" "rebind e k (w\<lparr>ew_store := s1\<rparr>) = Some ((), w\<lparr>ew_store := s2\<rparr>)"
      using look False e1 by (simp_all add: unbind_def first rebind_def s1_def s2_def Let_def confWrite_def)
    then show ?thesis
      using env_store [OF inv K1(1)] env_store [OF inv K2(1)] K1(2,3) K2(2) kv by (auto simp: follows_def)
  qed
qed

theorem unbind_rebind_witness:
  "\<exists>w hash k w1 w2. wabs w 1 = (envStr, ''x no'') \<and> unbind hash 1 w = Some (k, w1) \<and> rebind 1 k w1 = Some ((), w2)
     \<and> wabs w2 1 = (envStr, ''x'')"
proof -
  obtain w K where w: "env_inv (\<lambda>s. (7, of_nat (length s))) {[], ''x'', ''no'', ''yes'', ''x no''} w"
    "wabs w 1 = (envStr, ''x no'')" "cell_abs (texts (ew_tab w)) (EnvStore_cells (ew_store w) 1) = (envStr, ''x'')"
    using pending_world by metis
  obtain k w1 w2 where "unbind (\<lambda>s. (7, of_nat (length s))) 1 w = Some (k, w1)" "rebind 1 k w1 = Some ((), w2)" "wabs w2 1 = (envStr, ''x'')"
    using unbind_rebind [OF w(1), of 1] w(3) by auto
  then show ?thesis using w(2) by blast
qed


section \<open>Copies\<close>

lemma ensure_frame [simp]:
  "es_kind (EnvStore_ensure cnt (s\<lparr>es_appends := a, es_pending := p\<rparr>) e) = es_kind (EnvStore_ensure cnt s e)"
  "es_val (EnvStore_ensure cnt (s\<lparr>es_appends := a, es_pending := p\<rparr>) e) = es_val (EnvStore_ensure cnt s e)"
  "es_appends (EnvStore_ensure cnt s e) = es_appends s" "es_pending (EnvStore_ensure cnt s e) = es_pending s"
  by (simp_all add: EnvStore_ensure_def Let_def)

lemma ensure_vecs:
  fixes cnt :: nat and e :: u32
  assumes "Vec_inv (es_kind s)" "Vec_inv (es_val s)" "vec_len (es_kind s) = vec_len (es_val s)"
  defines "s' \<equiv> EnvStore_ensure cnt s e"
  shows "Vec_inv (es_kind s')" "Vec_inv (es_val s')" "vec_len (es_kind s') = vec_len (es_val s')" "unat e < vec_len (es_kind s')"
proof -
  have "store_shape (s\<lparr>es_appends := [], es_pending := BitSet_empty\<rparr>)" using assms(1-3) BitSet_empty_inv by (simp add: store_shape_def)
  note E = ensure_spec [OF this, where cnt = cnt and e = e]
  show "Vec_inv (es_kind s')" "Vec_inv (es_val s')" "vec_len (es_kind s') = vec_len (es_val s')" "unat e < vec_len (es_kind s')"
    using store_shapeD(1-3) [OF E(1)] E(3) by (simp_all add: s'_def)
qed

lemma overwrite_spec:
  assumes "Vec_inv v" and "length xs \<le> vec_len v"
  shows "vec_s (overwrite z v xs) = xs @ replicate (vec_len v - length xs) z" and "Vec_inv (overwrite z v xs)"
    and "vec_len (overwrite z v xs) = vec_len v"
  using assms by (auto simp: overwrite_def vec_s_def Vec_inv_def)

text \<open>
  \<^verbatim>\<open>cloneInto\<close> copies an environment onto a used one: whatever the other store held, pending
  words included, every variable of the copy has the kind and text it has in the original. The copy
  is well formed again if its bit set of pending variables was not longer than the original's.
\<close>

theorem cloneInto_copies:
  assumes ok: "store_ok S T s" and dst: "Vec_inv (es_kind dst)" "Vec_inv (es_val dst)" "vec_len (es_kind dst) = vec_len (es_val dst)"
    and small: "cnt \<le> 2 ^ 32" "vec_len (es_kind s) \<le> 2 ^ 32"
  shows "env_abs T (cloneInto slack cnt s dst) = env_abs T s
    \<and> (BitSet_inv (es_pending dst) \<and> vec_len (bs_words (es_pending dst)) \<le> vec_len (bs_words (es_pending s))
        \<longrightarrow> store_ok S T (cloneInto slack cnt s dst))"
proof -
  note D = store_shapeD [OF store_okD(1) [OF ok]]
  let ?n = "max (vec_len (es_kind s)) cnt" and ?c = "cloneInto slack cnt s dst"
  define d where "d = (if 0 < ?n then EnvStore_ensure cnt dst (of_nat (?n - 1)) else dst)"
  have num: "unat (of_nat (?n - 1) :: u32) = ?n - 1" if "0 < ?n"
    using that small by (subst unat_of_nat) auto
  have "Vec_inv (es_kind d) \<and> Vec_inv (es_val d) \<and> vec_len (es_kind d) = vec_len (es_val d) \<and> vec_len (es_kind s) \<le> vec_len (es_kind d)"
  proof (cases "0 < ?n")
    case True
    define e where "e = (of_nat (?n - 1) :: u32)"
    have d: "d = EnvStore_ensure cnt dst e" and e: "unat e = ?n - 1" using True num unfolding d_def e_def by simp_all
    show ?thesis
      using ensure_vecs [OF dst, where cnt = cnt and e = e] True unfolding d e by linarith
  qed (use dst in \<open>simp add: d_def\<close>)
  then have V: "Vec_inv (es_kind d)" "Vec_inv (es_val d)" "vec_len (es_kind d) = vec_len (es_val d)" "vec_len (es_kind s) \<le> vec_len (es_kind d)"
    by blast+
  have len: "length (vec_s (es_kind s)) \<le> vec_len (es_kind d)" "length (vec_s (es_val s)) \<le> vec_len (es_val d)"
    using V D length_vec_s [OF D(1)] length_vec_s [OF D(2)] by auto
  have F: "es_kind ?c = overwrite envAbsent (es_kind d) (vec_s (es_kind s))" "es_val ?c = overwrite 0 (es_val d) (vec_s (es_val s))"
    "es_appends ?c = es_appends s" "es_pending ?c = BitSet_copyFrom slack (es_pending dst) (es_pending s)"
    by (simp_all add: cloneInto_def Let_def d_def)
  note O = overwrite_spec [OF V(1) len(1)] overwrite_spec [OF V(2) len(2)]
  have cells: "EnvStore_cells ?c = EnvStore_cells s"
    using V D length_vec_s [OF D(1)] length_vec_s [OF D(2)] unfolding EnvStore_cells_def F
    by (auto simp: fun_eq_iff O nth_append)
  have "store_ok S T ?c" if "BitSet_inv (es_pending dst)" "vec_len (bs_words (es_pending dst)) \<le> vec_len (bs_words (es_pending s))"
    using ok D O V(3) that BitSet_copyFrom_inv [OF that(1) D(4) that(2)] BitSet_copyFrom_has [OF D(4)] cells
    unfolding store_ok_def store_shape_def F by simp
  then show ?thesis using cells F(3) by (auto simp: fun_eq_iff env_abs_of)
qed

theorem cloneInto_copies_witness:
  "\<exists>w. wabs w 1 = (envStr, ''x no'') \<and> env_abs (texts (ew_tab w)) (cloneInto 0 2 (ew_store w) (newEnvStore 7)) 1 = (envStr, ''x no'')"
proof -
  obtain w where w: "env_inv (\<lambda>s. (7, of_nat (length s))) {[], ''x'', ''no'', ''yes'', ''x no''} w" "wabs w 1 = (envStr, ''x no'')"
    "vec_len (es_kind (ew_store w)) = 64" using pending_world by metis
  have "Vec_inv (es_kind (newEnvStore 7))" "Vec_inv (es_val (newEnvStore 7))" "vec_len (es_kind (newEnvStore 7)) = vec_len (es_val (newEnvStore 7))"
    by (simp_all add: newEnvStore_def Vec_inv_def Vec_empty_def)
  from cloneInto_copies [OF env_invD(3) [OF w(1)] this, of 2 0] show ?thesis using w(2,3) by (auto simp: wabs_def)
qed

end
