(* ===== verification/Ay_Utf8.thy ===== *)
theory Ay_Utf8
  imports Ay_Prelude
begin

text \<open>
  What the program uses of Go's strings as UTF-8: the encoding of a rune (\<^verbatim>\<open>string(r)\<close>), the decoder
  \<^verbatim>\<open>utf8.DecodeRuneInString\<close> and the runes of a text. A text that is the encoding of valid runes is taken
  apart at the places where the runes begin, and nowhere else.
\<close>

type_synonym rune = nat

definition RuneError :: rune where "RuneError = 0xFFFD"
definition MaxRune :: rune where "MaxRune = 0x10FFFF"
definition RuneSelf :: nat where "RuneSelf = 0x80"

definition byte_of :: "char \<Rightarrow> nat" where
  "byte_of c = of_char c"

definition valid_rune :: "rune \<Rightarrow> bool" where
  "valid_rune r \<longleftrightarrow> r < 0xD800 \<or> 0xE000 \<le> r \<and> r \<le> MaxRune"

definition encode_valid :: "rune \<Rightarrow> nat list" where
  "encode_valid r =
     (if r < 0x80 then [r]
      else if r < 0x800 then [0xC0 + r div 64, 0x80 + r mod 64]
      else if r < 0x10000 then [0xE0 + r div 4096, 0x80 + r div 64 mod 64, 0x80 + r mod 64]
      else [0xF0 + r div 262144, 0x80 + r div 4096 mod 64, 0x80 + r div 64 mod 64, 0x80 + r mod 64])"

definition enc :: "rune \<Rightarrow> string" where
  "enc r = map char_of (encode_valid (if valid_rune r then r else RuneError))"

definition encode :: "rune list \<Rightarrow> string" where
  "encode rs = concat (map enc rs)"

text \<open>The decoder: the range of the second byte depends on the first; anything else is an error of size 1.\<close>

definition continuation :: "nat \<Rightarrow> bool" where
  "continuation b \<longleftrightarrow> 0x80 \<le> b \<and> b < 0xC0"

definition second_ok :: "nat \<Rightarrow> nat \<Rightarrow> bool" where
  "second_ok b0 b1 \<longleftrightarrow> continuation b1
     \<and> (b0 = 0xE0 \<longrightarrow> 0xA0 \<le> b1) \<and> (b0 = 0xED \<longrightarrow> b1 < 0xA0)
     \<and> (b0 = 0xF0 \<longrightarrow> 0x90 \<le> b1) \<and> (b0 = 0xF4 \<longrightarrow> b1 < 0x90)"

definition decode_bytes :: "nat list \<Rightarrow> rune \<times> nat" where
  "decode_bytes bs =
     (case bs of
        [] \<Rightarrow> (RuneError, 0)
      | b0 # s1 \<Rightarrow>
          if b0 < 0x80 then (b0, 1)
          else (case s1 of
             [] \<Rightarrow> (RuneError, 1)
           | b1 # s2 \<Rightarrow>
               if b0 < 0xC2 \<or> 0xF4 < b0 \<or> \<not> second_ok b0 b1 then (RuneError, 1)
               else if b0 < 0xE0 then ((b0 - 0xC0) * 64 + (b1 - 0x80), 2)
               else (case s2 of
                  [] \<Rightarrow> (RuneError, 1)
                | b2 # s3 \<Rightarrow>
                    if \<not> continuation b2 then (RuneError, 1)
                    else if b0 < 0xF0 then ((b0 - 0xE0) * 4096 + (b1 - 0x80) * 64 + (b2 - 0x80), 3)
                    else (case s3 of
                       [] \<Rightarrow> (RuneError, 1)
                     | b3 # _ \<Rightarrow>
                         if \<not> continuation b3 then (RuneError, 1)
                         else ((b0 - 0xF0) * 262144 + (b1 - 0x80) * 4096 + (b2 - 0x80) * 64 + (b3 - 0x80), 4)))))"

definition DecodeRuneInString :: "string \<Rightarrow> rune \<times> nat" where
  "DecodeRuneInString s = decode_bytes (map byte_of (take 4 s))"

lemma decode_size:
  assumes "s \<noteq> []" shows "0 < snd (DecodeRuneInString s)" "snd (DecodeRuneInString s) \<le> length s"
proof -
  obtain b r where s: "s = b # r" using assms by (cases s) auto
  show "0 < snd (DecodeRuneInString s)"
    by (simp add: s DecodeRuneInString_def decode_bytes_def split: list.splits if_splits)
  show "snd (DecodeRuneInString s) \<le> length s"
    by (cases "length r"; cases "length r - 1"; cases "length r - 2")
      (auto simp: s DecodeRuneInString_def decode_bytes_def take_Cons split: list.splits if_splits nat.splits)
qed

section \<open>Encoding and decoding\<close>

lemma encode_valid_bounds: "valid_rune r \<Longrightarrow> b \<in> set (encode_valid r) \<Longrightarrow> b < 256"
  unfolding encode_valid_def valid_rune_def MaxRune_def by (auto split: if_splits)

lemma byte_char [simp]: "b < 256 \<Longrightarrow> byte_of (char_of b) = b"
  by (simp add: byte_of_def)

lemma bytes_enc: "valid_rune r \<Longrightarrow> map byte_of (enc r) = encode_valid r"
  using encode_valid_bounds [of r] by (auto simp: enc_def intro: map_idI)

lemma length_enc: "length (enc r) \<le> 4" "enc r \<noteq> []"
  by (simp_all add: enc_def encode_valid_def)

text \<open>The digits of a rune in base 64.\<close>

lemma base64:
  fixes r :: nat
  obtains p q u t where "262144 * p + 4096 * q + 64 * u + t = r" and "q < 64" and "u < 64" and "t < 64"
    and "r div 262144 = p" and "r div 4096 = 64 * p + q" and "r div 64 = 4096 * p + 64 * q + u" and "r mod 64 = t"
    and "r div 4096 mod 64 = q" and "r div 64 mod 64 = u"
proof -
  define a b where "a = r div 64" and "b = a div 64"
  define p q u t where "p = b div 64" and "q = b mod 64" and "u = a mod 64" and "t = r mod 64"
  have e: "r div 4096 = b" "r div 262144 = p" by (simp_all add: a_def b_def p_def flip: div_mult2_eq)
  have "q < 64" "u < 64" "t < 64" by (simp_all add: q_def u_def t_def)
  moreover have "r = 64 * a + t" "a = 64 * b + u" "b = 64 * p + q"
    by (simp_all add: a_def t_def b_def u_def p_def q_def)
  ultimately show ?thesis
    using that [of p q u t] e a_def [symmetric] t_def [symmetric] q_def [symmetric] u_def [symmetric] by simp
qed

lemma decode_encode: "valid_rune r \<Longrightarrow> decode_bytes (encode_valid r @ x) = (r, length (encode_valid r))"
proof -
  assume v: "valid_rune r"
  obtain p q u t where r: "262144 * p + 4096 * q + 64 * u + t = r" and lt: "q < 64" "u < 64" "t < 64"
    and d: "r div 262144 = p" "r div 4096 = 64 * p + q" "r div 64 = 4096 * p + 64 * q + u" "r mod 64 = t"
      "r div 4096 mod 64 = q" "r div 64 mod 64 = u" using base64 [of r] by metis
  consider "r < 128" | "128 \<le> r" "r < 2048" | "2048 \<le> r" "r < 65536" | "65536 \<le> r" by linarith
  then show ?thesis
  proof cases
    case 1
    then show ?thesis by (simp add: encode_valid_def decode_bytes_def)
  next
    case 2
    then have "p = 0" "q = 0" using r by simp_all
    moreover have "2 \<le> u" "u < 32" "64 * u + t = r" using 2 r lt calculation by simp_all
    ultimately show ?thesis using 2 lt by (simp add: encode_valid_def decode_bytes_def d second_ok_def continuation_def)
  next
    case 3
    then have p: "p = 0" using r by simp
    have "q = 0 \<Longrightarrow> 32 \<le> u" "q = 13 \<Longrightarrow> u < 32" "q < 16" "4096 * q + 64 * u + t = r"
      using 3 v r lt p by (auto simp: valid_rune_def MaxRune_def)
    then show ?thesis using 3 lt p
      by (auto simp: encode_valid_def decode_bytes_def d second_ok_def continuation_def)
  next
    case 4
    have "p = 0 \<Longrightarrow> 16 \<le> q" "p = 4 \<Longrightarrow> q < 16" "p \<le> 4"
      using 4 v r lt by (auto simp: valid_rune_def MaxRune_def)
    then show ?thesis using 4 lt r
      by (auto simp: encode_valid_def decode_bytes_def d(1,4,5,6) second_ok_def continuation_def)
  qed
qed

definition valid_text :: "rune list \<Rightarrow> bool" where
  "valid_text rs \<longleftrightarrow> (\<forall>r \<in> set rs. valid_rune r)"

lemma valid_text_simps [simp]:
  "valid_text []" "valid_text (r # rs) \<longleftrightarrow> valid_rune r \<and> valid_text rs" "valid_text (rs @ ss) \<longleftrightarrow> valid_text rs \<and> valid_text ss"
  by (auto simp: valid_text_def)

lemma encode_simps [simp]: "encode [] = []" "encode (r # rs) = enc r @ encode rs" "encode (rs @ ss) = encode rs @ encode ss"
  by (simp_all add: encode_def)

lemma encode_Nil_iff [simp]: "encode rs = [] \<longleftrightarrow> rs = []"
  using length_enc(2) by (cases rs) auto

lemma length_encode_valid: "valid_rune r \<Longrightarrow> length (encode_valid r) = length (enc r)"
  by (simp add: enc_def)

lemma decode_head:
  assumes "valid_rune r" shows "DecodeRuneInString (enc r @ s) = (r, length (enc r))"
proof -
  have "map byte_of (take 4 (enc r @ s)) = encode_valid r @ map byte_of (take (4 - length (enc r)) s)"
    using length_enc(1) [of r] bytes_enc [OF assms] by (simp add: take_map [symmetric])
  then show ?thesis using decode_encode [OF assms] length_encode_valid [OF assms] by (simp add: DecodeRuneInString_def)
qed

text \<open>The bytes of one rune: a single ASCII byte, or a leading byte and continuation bytes.\<close>

lemma enc_ascii: "r < 128 \<Longrightarrow> enc r = [char_of r]"
  by (simp add: enc_def encode_valid_def valid_rune_def)

lemma encode_valid_tail: "b \<in> set (tl (encode_valid r)) \<Longrightarrow> continuation b"
  by (auto simp: encode_valid_def continuation_def split: if_splits)

lemma encode_valid_lead: "valid_rune r \<Longrightarrow> \<not> continuation (hd (encode_valid r)) \<and> (128 \<le> r \<longrightarrow> 128 \<le> hd (encode_valid r))"
  by (auto simp: encode_valid_def continuation_def)

lemma enc_bytes:
  assumes "valid_rune r"
  shows "c \<in> set (tl (enc r)) \<Longrightarrow> continuation (byte_of c)" and "\<not> continuation (byte_of (hd (enc r)))"
    and "128 \<le> r \<Longrightarrow> c \<in> set (enc r) \<Longrightarrow> 128 \<le> byte_of c"
proof -
  have t: "map byte_of (tl (enc r)) = tl (encode_valid r)" and h: "byte_of (hd (enc r)) = hd (encode_valid r)"
    using bytes_enc [OF assms] length_enc(2) [of r] by (metis map_tl, metis hd_map)
  show tail: "continuation (byte_of c)" if "c \<in> set (tl (enc r))" for c
    using that encode_valid_tail [of "byte_of c" r] by (metis image_eqI list.set_map t)
  show "\<not> continuation (byte_of (hd (enc r)))" using encode_valid_lead [OF assms] h by simp
  show "128 \<le> byte_of c" if "128 \<le> r" "c \<in> set (enc r)"
  proof (cases "c = hd (enc r)")
    case False
    then have "c \<in> set (tl (enc r))" using that(2) length_enc(2) [of r] by (cases "enc r") auto
    then show ?thesis using tail by (auto simp: continuation_def)
  qed (use encode_valid_lead [OF assms] h that(1) in simp)
qed

text \<open>A byte of a text that is not a continuation byte begins a rune.\<close>

lemma rune_boundary:
  assumes "valid_text rs" and "p < length (encode rs)" and "\<not> continuation (byte_of (encode rs ! p))"
  shows "\<exists>i < length rs. p = length (encode (take i rs)) \<and> encode rs ! p = hd (enc (rs ! i))"
  using assms
proof (induction rs arbitrary: p)
  case (Cons r rs)
  show ?case
  proof (cases "p < length (enc r)")
    case True
    have "p = 0"
    proof (rule ccontr)
      assume "p \<noteq> 0"
      then have "encode (r # rs) ! p \<in> set (tl (enc r))"
        using True by (cases p) (auto simp: nth_append nth_tl in_set_conv_nth intro!: exI [of _ "p - 1"])
      then show False using enc_bytes(1) Cons.prems by auto
    qed
    then show ?thesis using True by (intro exI [of _ 0]) (simp add: nth_append hd_conv_nth length_enc)
  next
    case False
    then have "encode (r # rs) ! p = encode rs ! (p - length (enc r))" by (simp add: nth_append)
    moreover have "p - length (enc r) < length (encode rs)" using Cons.prems(2) False by simp
    moreover obtain i where "i < length rs" "p - length (enc r) = length (encode (take i rs))"
      "encode rs ! (p - length (enc r)) = hd (enc (rs ! i))"
      using Cons.IH [of "p - length (enc r)"] Cons.prems calculation by auto
    ultimately show ?thesis using False by (intro exI [of _ "Suc i"]) auto
  qed
qed simp

text \<open>The code is prefix free, so a text that begins with another begins with its runes.\<close>

lemma encode_prefix:
  assumes "valid_text rs" and "valid_text ls" and "encode rs = encode ls @ s"
  shows "\<exists>v. rs = ls @ v \<and> s = encode v"
  using assms
proof (induction ls arbitrary: rs)
  case (Cons l ls)
  then obtain r rs' where rs: "rs = r # rs'" using length_enc(2) by (cases rs) auto
  have "DecodeRuneInString (encode rs) = (r, length (enc r))" using Cons.prems(1) by (simp add: rs decode_head)
  moreover have "DecodeRuneInString (encode rs) = (l, length (enc l))" unfolding Cons.prems(3) using Cons.prems(2) by (simp add: decode_head)
  ultimately have "r = l" by simp
  then show ?case using Cons.IH [of rs'] Cons.prems rs by auto
qed simp

lemma encode_inj: "valid_text rs \<Longrightarrow> valid_text ls \<Longrightarrow> encode rs = encode ls \<Longrightarrow> rs = ls"
  using encode_prefix [of rs ls "[]"] encode_Nil_iff by fastforce

text \<open>The first byte of a rune is an ASCII byte exactly when the rune is that character.\<close>

lemma enc_hd:
  assumes "valid_rune r" and "byte_of c < 128" shows "hd (enc r) = c \<longleftrightarrow> r = byte_of c"
proof (cases "r < 128")
  case True
  then have "hd (enc r) = char_of r" "byte_of (char_of r) = r" by (simp_all add: enc_ascii)
  moreover have "char_of (byte_of c) = c" by (simp add: byte_of_def)
  ultimately show ?thesis by auto
next
  case False
  then have "128 \<le> byte_of (hd (enc r))" using enc_bytes(3) [OF assms(1)] length_enc(2) by simp
  then show ?thesis using assms(2) False by auto
qed

lemma encode_mem:
  assumes "valid_text rs" and "byte_of c < 128" shows "c \<in> set (encode rs) \<longleftrightarrow> byte_of c \<in> set rs"
  using assms(1)
proof (induction rs)
  case (Cons r rs)
  have "c \<in> set (enc r) \<longleftrightarrow> r = byte_of c"
  proof (cases "r < 128")
    case True
    then show ?thesis using enc_hd [of r c] Cons.prems assms(2) by (auto simp: enc_ascii)
  next
    case False
    then show ?thesis using enc_bytes(3) [of r c] Cons.prems assms(2) by auto
  qed
  then show ?case using Cons by auto
qed simp

text \<open>An ASCII text is the encoding of its bytes.\<close>

lemma encode_ascii:
  assumes "\<forall>c \<in> set s. byte_of c < 128"
  shows "encode (map byte_of s) = s" and "valid_text (map byte_of s)"
  using assms by (induction s) (auto simp: enc_ascii valid_rune_def byte_of_def)

end
