(* ===== verification/Ay_Glob.thy ===== *)
theory Ay_Glob
  imports Ay_Utf8 "HOL-Library.Sublist"
begin

text \<open>
  The matcher of glob patterns (\<^verbatim>\<open>glob_match.go\<close>, \<^verbatim>\<open>matchGlobWords\<close>): a pattern is a list of words, each
  a literal text, \<^verbatim>\<open>?\<close>, \<^verbatim>\<open>*\<close> or a recursive \<^verbatim>\<open>**/\<close>, and the matcher backtracks to the last \<^verbatim>\<open>*\<close> only. The
  theory shows that this is enough: for patterns whose wildcards exclude the same character between two
  recursive words, which \<^verbatim>\<open>newGlobMatcher\<close> checks, the matcher decides the language of the pattern.
\<close>

record globWord =
  gw_text :: string
  gw_wild :: char
  gw_exclude :: char

abbreviation NUL :: char where "NUL \<equiv> CHR 0x00"
abbreviation NL :: char where "NL \<equiv> CHR 0x0A"

definition globRuneSize :: "string \<Rightarrow> nat" where
  "globRuneSize s = (if byte_of (hd s) < RuneSelf then 1 else snd (DecodeRuneInString s))"

text \<open>A test that stops at the first success, and fails when one of its tests panics before.\<close>

primrec any_opt :: "('a \<Rightarrow> bool option) \<Rightarrow> 'a list \<Rightarrow> bool option" where
  "any_opt f [] = Some False"
| "any_opt f (x # xs) = (case f x of None \<Rightarrow> None | Some True \<Rightarrow> Some True | Some False \<Rightarrow> any_opt f xs)"

lemma any_opt_cong [fundef_cong]: "xs = ys \<Longrightarrow> (\<And>x. x \<in> set ys \<Longrightarrow> f x = g x) \<Longrightarrow> any_opt f xs = any_opt g ys"
proof -
  assume eq: "xs = ys" and fg: "\<And>x. x \<in> set ys \<Longrightarrow> f x = g x"
  have "any_opt f ys = any_opt g ys" using fg by (induction ys) (auto split: option.splits bool.splits)
  then show ?thesis by (simp add: eq)
qed

text \<open>The places after the slashes of the name from a position on, up to the first newline.\<close>

function slash_places :: "string \<Rightarrow> nat \<Rightarrow> nat list" where
  "slash_places name i =
     (if i < length name \<and> name ! i \<noteq> NL
      then (if name ! i = CHR ''/'' then [i + 1] else []) @ slash_places name (i + 1)
      else [])"
  by pat_completeness auto
termination
  by (relation "measure (\<lambda>(name, i). length name - i)") auto

declare slash_places.simps [simp del]

lemma globRuneSize_pos: "s \<noteq> [] \<Longrightarrow> 0 < globRuneSize s"
  using decode_size(1) by (simp add: globRuneSize_def)

lemma rune_step:
  "retry \<noteq> length name \<Longrightarrow> \<not> length name < retry \<Longrightarrow> m \<le> retry \<Longrightarrow>
   length name - (retry + globRuneSize (drop retry name)) < length name - m"
  using globRuneSize_pos [of "drop retry name"] by auto

function matchGlobWords :: "globWord list \<Rightarrow> string \<Rightarrow> bool option"
  and glob_loop :: "globWord list \<Rightarrow> string \<Rightarrow> nat \<Rightarrow> nat \<Rightarrow> nat option \<Rightarrow> nat \<Rightarrow> bool option"
  and glob_retry :: "globWord list \<Rightarrow> string \<Rightarrow> nat \<Rightarrow> nat \<Rightarrow> nat option \<Rightarrow> nat \<Rightarrow> bool option" where
  "matchGlobWords words name =
     (if length words = 2 \<and> gw_wild (words ! 0) = CHR ''*'' \<and> gw_wild (words ! 1) = NUL
      then
        let suf = gw_text (words ! 1)
        in Some (suffix suf name \<and> gw_exclude (words ! 0) \<notin> set (take (length name - length suf) name))
      else glob_loop words name 0 0 None 0)"
| "glob_loop words name wi pos star retry =
     (if wi = length words then (if pos = length name then Some True else glob_retry words name wi pos star retry)
      else if length words < wi \<or> length name < pos then None
      else
        let word = words ! wi
        in if gw_wild word = CHR ''r'' then
             (case matchGlobWords (drop (Suc wi) words) (drop pos name) of
                None \<Rightarrow> None
              | Some True \<Rightarrow> Some True
              | Some False \<Rightarrow>
                  (case any_opt (\<lambda>i. matchGlobWords (drop (Suc wi) words) (drop i name)) (slash_places name pos) of
                     None \<Rightarrow> None
                   | Some True \<Rightarrow> Some True
                   | Some False \<Rightarrow> glob_retry words name wi pos star retry))
           else if gw_wild word = CHR ''*'' then glob_loop words name (Suc wi) pos (Some wi) pos
           else if gw_wild word = CHR ''?'' then
             (if pos < length name \<and> name ! pos \<noteq> gw_exclude word
              then glob_loop words name (Suc wi) (pos + globRuneSize (drop pos name)) star retry
              else glob_retry words name wi pos star retry)
           else if prefix (gw_text word) (drop pos name)
           then glob_loop words name (Suc wi) (pos + length (gw_text word)) star retry
           else glob_retry words name wi pos star retry)"
| "glob_retry words name wi pos star retry =
     (case star of
        None \<Rightarrow> Some False
      | Some s \<Rightarrow>
          if retry = length name then Some False
          else if length name < retry \<or> length words \<le> s then None
          else if name ! retry = gw_exclude (words ! s) then Some False
          else let retry' = retry + globRuneSize (drop retry name) in glob_loop words name (Suc s) retry' star retry')"
  by pat_completeness auto
termination
  by (relation "inv_image (less_than <*lex*> less_than <*lex*> less_than <*lex*> less_than <*lex*> less_than)
        (\<lambda>x. case x of
           Inl (words, name) \<Rightarrow> (length words, 1, 0, 0, 0)
         | Inr (Inl (words, name, wi, pos, star, retry)) \<Rightarrow> (length words, 0, length name - min retry pos, length words - wi, 1)
         | Inr (Inr (words, name, wi, pos, star, retry)) \<Rightarrow> (length words, 0, length name - min retry pos, length words - wi, 0))")
    (auto simp: min_def rune_step)

declare matchGlobWords.simps [simp del] glob_loop.simps [simp del] glob_retry.simps [simp del]

section \<open>The language of a pattern\<close>

text \<open>What a list of words matches, on the runes of the name.\<close>

fun runes_of :: "string \<Rightarrow> rune list" where
  "runes_of [] = []"
| "runes_of (c # s) = (let (r, n) = DecodeRuneInString (c # s) in r # runes_of (drop (n - 1) s))"

fun glob_lang :: "globWord list \<Rightarrow> rune list \<Rightarrow> bool" where
  "glob_lang [] rs \<longleftrightarrow> rs = []"
| "glob_lang (w # ws) rs \<longleftrightarrow>
     (if gw_wild w = CHR ''r''
      then glob_lang ws rs \<or> (\<exists>u v. rs = u @ [byte_of CHR ''/''] @ v \<and> byte_of NL \<notin> set u \<and> glob_lang ws v)
      else if gw_wild w = CHR ''*'' then \<exists>u v. rs = u @ v \<and> byte_of (gw_exclude w) \<notin> set u \<and> glob_lang ws v
      else if gw_wild w = CHR ''?'' then \<exists>r v. rs = r # v \<and> r \<noteq> byte_of (gw_exclude w) \<and> glob_lang ws v
      else \<exists>v. rs = runes_of (gw_text w) @ v \<and> glob_lang ws v)"

lemma runes_of_encode: "valid_text rs \<Longrightarrow> runes_of (encode rs) = rs"
proof (induction rs)
  case (Cons r rs)
  obtain c s where c: "enc r = c # s" using length_enc(2) by (cases "enc r") auto
  have "DecodeRuneInString (c # s @ encode rs) = (r, length (enc r))" using decode_head [of r "encode rs"] Cons.prems c by simp
  then show ?case using Cons c by simp
qed simp

text \<open>The words \<^verbatim>\<open>globWords\<close> makes: literals are valid texts, wildcards exclude an ASCII character.\<close>

definition word_ok :: "globWord \<Rightarrow> bool" where
  "word_ok w \<longleftrightarrow> gw_wild w \<in> {NUL, CHR ''r'', CHR ''*'', CHR ''?''}
     \<and> (gw_wild w = NUL \<longrightarrow> (\<exists>ls. valid_text ls \<and> gw_text w = encode ls))
     \<and> (gw_wild w \<in> {CHR ''*'', CHR ''?''} \<longrightarrow> gw_exclude w \<noteq> NUL \<and> byte_of (gw_exclude w) < 128)"

text \<open>The check of \<^verbatim>\<open>newGlobMatcher\<close> on one alternative: the character excluded last is carried along.\<close>

fun same_alphabet :: "char \<Rightarrow> globWord list \<Rightarrow> bool" where
  "same_alphabet alphabet [] \<longleftrightarrow> True"
| "same_alphabet alphabet (word # ws) \<longleftrightarrow>
     (if gw_wild word = CHR ''r'' then same_alphabet NUL ws
      else if gw_wild word = CHR ''*'' \<or> gw_wild word = CHR ''?''
      then \<not> (alphabet \<noteq> NUL \<and> alphabet \<noteq> gw_exclude word) \<and> same_alphabet (gw_exclude word) ws
      else same_alphabet alphabet ws)"

section \<open>Places in a text\<close>

definition off :: "rune list \<Rightarrow> nat \<Rightarrow> nat" where
  "off rs i = length (encode (take i rs))"

lemma off_simps: "off rs 0 = 0" "off rs (length rs) = length (encode rs)"
  by (simp_all add: off_def)

lemma encode_split: "encode rs = encode (take i rs) @ encode (drop i rs)"
  by (simp flip: encode_simps(3))

lemma drop_off: "drop (off rs i) (encode rs) = encode (drop i rs)" and take_off: "take (off rs i) (encode rs) = encode (take i rs)"
  using encode_split [of rs i] by (simp_all add: off_def)

lemma off_le: "off rs i \<le> length (encode rs)"
  using encode_split [of rs i] by (metis off_def le_add1 length_append)

lemma off_add: "i \<le> length rs \<Longrightarrow> off rs (i + n) = off rs i + length (encode (take n (drop i rs)))"
  by (simp add: off_def take_add)

lemma off_end: "i \<le> length rs \<Longrightarrow> off rs i = length (encode rs) \<longleftrightarrow> i = length rs"
  using drop_off [of rs i] by (metis drop_all drop_eq_Nil encode_Nil_iff le_antisym off_simps(2) order_refl)

lemma off_less: "i < length rs \<Longrightarrow> off rs i < length (encode rs)"
  using off_le [of rs i] off_end [of i rs] by auto

lemma off_Suc: "i < length rs \<Longrightarrow> off rs (Suc i) = off rs i + length (enc (rs ! i))"
  by (simp add: off_def take_Suc_conv_app_nth)

lemma at_off:
  assumes "valid_text rs" and "i < length rs"
  shows "encode rs ! off rs i = hd (enc (rs ! i))" and "off rs i + globRuneSize (drop (off rs i) (encode rs)) = off rs (Suc i)"
    and "byte_of c < 128 \<Longrightarrow> encode rs ! off rs i = c \<longleftrightarrow> rs ! i = byte_of c"
proof -
  have d: "drop i rs = rs ! i # drop (Suc i) rs" using assms(2) by (simp add: Cons_nth_drop_Suc)
  have v: "valid_rune (rs ! i)" using assms by (simp add: valid_text_def)
  show h: "encode rs ! off rs i = hd (enc (rs ! i))"
    using off_less [OF assms(2)] drop_off [of rs i] d length_enc(2) by (metis encode_simps(2) hd_append2 hd_drop_conv_nth)
  show "byte_of c < 128 \<Longrightarrow> encode rs ! off rs i = c \<longleftrightarrow> rs ! i = byte_of c" using enc_hd [OF v] h by simp
  have "globRuneSize (encode (drop i rs)) = length (enc (rs ! i))"
  proof (cases "rs ! i < 128")
    case True
    then show ?thesis by (simp add: d enc_ascii globRuneSize_def RuneSelf_def)
  next
    case False
    then have "\<not> byte_of (hd (enc (rs ! i))) < RuneSelf" using enc_bytes(3) [OF v] length_enc(2) by (simp add: RuneSelf_def leD)
    then show ?thesis using length_enc(2) decode_head [OF v] by (simp add: d globRuneSize_def)
  qed
  then show "off rs i + globRuneSize (drop (off rs i) (encode rs)) = off rs (Suc i)"
    using assms(2) by (simp add: drop_off off_Suc)
qed

lemma any_opt_Some: "(\<And>x. x \<in> set xs \<Longrightarrow> f x = Some (P x)) \<Longrightarrow> any_opt f xs = Some (\<exists>x \<in> set xs. P x)"
  by (induction xs) (auto split: bool.splits)

lemma slash_places_set:
  "set (slash_places name i) = {Suc p | p. i \<le> p \<and> p < length name \<and> name ! p = CHR ''/'' \<and> NL \<notin> set (take (p - i) (drop i name))}"
proof (induction name i rule: slash_places.induct)
  case (1 name i)
  show ?case
  proof (cases "i < length name \<and> name ! i \<noteq> NL")
    case True
    have "NL \<notin> set (take (p - i) (drop i name)) \<longleftrightarrow> NL \<notin> set (take (p - Suc i) (drop (Suc i) name))" if "i < p" for p
    proof -
      have "take (p - i) (drop i name) = name ! i # take (p - Suc i) (drop (Suc i) name)"
        using True that by (simp add: Cons_nth_drop_Suc [symmetric] take_Cons' Suc_diff_Suc)
      then show ?thesis using True by auto
    qed
    moreover have "i \<le> p \<longleftrightarrow> p = i \<or> i < p" for p by auto
    ultimately show ?thesis
      using 1 True by (subst slash_places.simps) (auto simp: Suc_le_eq)
  next
    case False
    have "NL \<in> set (take (p - i) (drop i name))" if "i \<le> p" "p < length name" "name ! p = CHR ''/''" for p
    proof -
      have "i < p" using False that by (cases "i = p") auto
      then show ?thesis using False that by (auto simp: in_set_conv_nth intro!: exI [of _ 0])
    qed
    then show ?thesis using False by (subst slash_places.simps) auto
  qed
qed

lemma off_between:
  assumes "i \<le> t" and "t \<le> length rs"
  shows "take (off rs t - off rs i) (drop (off rs i) (encode rs)) = encode (take (t - i) (drop i rs))"
    and "off rs i \<le> off rs t" and "off rs t \<le> off rs i \<Longrightarrow> t = i"
proof -
  have o: "off rs t = off rs i + length (encode (take (t - i) (drop i rs)))" using off_add [of i rs "t - i"] assms by simp
  then show "off rs i \<le> off rs t" by simp
  have "encode (drop i rs) = encode (take (t - i) (drop i rs)) @ encode (drop (t - i) (drop i rs))" by (rule encode_split)
  then show "take (off rs t - off rs i) (drop (off rs i) (encode rs)) = encode (take (t - i) (drop i rs))"
    by (simp add: drop_off o)
  show "t = i" if "off rs t \<le> off rs i" using that o assms by auto
qed

lemma slash_splits:
  assumes v: "valid_text rs" and i: "i \<le> length rs"
  shows "(\<exists>p \<in> set (slash_places (encode rs) (off rs i)). Q (drop p (encode rs)))
    \<longleftrightarrow> (\<exists>u x. drop i rs = u @ [byte_of CHR ''/''] @ x \<and> byte_of NL \<notin> set u \<and> Q (encode x))" (is "?L = ?R")
proof -
  have NL: "byte_of NL < 128" and SL: "byte_of CHR ''/'' < 128" by (simp_all add: byte_of_def)
  have vt: "valid_text (take n (drop i rs))" for n using v set_take_subset [of n] set_drop_subset [of i rs] by (fastforce simp: valid_text_def)
  have step: "off rs (Suc t) = Suc (off rs t)" if "t < length rs" "rs ! t = byte_of CHR ''/''" for t
    using off_Suc [OF that(1)] that(2) SL by (simp add: enc_ascii)
  have "?L \<longleftrightarrow> (\<exists>t. i \<le> t \<and> t < length rs \<and> rs ! t = byte_of CHR ''/'' \<and> byte_of NL \<notin> set (take (t - i) (drop i rs)) \<and> Q (encode (drop (Suc t) rs)))"
  proof
    assume ?L
    then obtain p where p: "off rs i \<le> p" "p < length (encode rs)" "encode rs ! p = CHR ''/''"
      "NL \<notin> set (take (p - off rs i) (drop (off rs i) (encode rs)))" "Q (drop (Suc p) (encode rs))"
      by (auto simp: slash_places_set)
    have "\<not> continuation (byte_of (encode rs ! p))" by (simp add: p(3) byte_of_def continuation_def)
    then obtain t where t: "t < length rs" "p = off rs t" using rune_boundary [OF v p(2)] by (auto simp: off_def)
    have sl: "rs ! t = byte_of CHR ''/''" using at_off(3) [OF v t(1) SL] p(3) t(2) by simp
    have "i \<le> t" using off_between(2,3) [of t i rs] i t p(1) by (metis less_imp_le not_le order.strict_iff_order)
    then show "\<exists>t. i \<le> t \<and> t < length rs \<and> rs ! t = byte_of CHR ''/'' \<and> byte_of NL \<notin> set (take (t - i) (drop i rs)) \<and> Q (encode (drop (Suc t) rs))"
      using sl t p(4,5) off_between(1) [of i t rs] encode_mem [OF vt NL] step [OF t(1) sl] drop_off [of rs "Suc t"]
      by (intro exI [of _ t]) simp
  next
    assume "\<exists>t. i \<le> t \<and> t < length rs \<and> rs ! t = byte_of CHR ''/'' \<and> byte_of NL \<notin> set (take (t - i) (drop i rs)) \<and> Q (encode (drop (Suc t) rs))"
    then obtain t where t: "i \<le> t" "t < length rs" "rs ! t = byte_of CHR ''/''" "byte_of NL \<notin> set (take (t - i) (drop i rs))" "Q (encode (drop (Suc t) rs))"
      by blast
    have "Suc (off rs t) \<in> set (slash_places (encode rs) (off rs i))"
      using t off_between [of i t rs] encode_mem [OF vt NL] off_less [OF t(2)] at_off(3) [OF v t(2) SL]
      by (auto simp: slash_places_set)
    then show ?L using t(5) step [OF t(2,3)] drop_off [of rs "Suc t"] by (intro bexI [of _ "Suc (off rs t)"]) simp_all
  qed
  also have "\<dots> \<longleftrightarrow> ?R"
  proof
    assume ?R
    then obtain u x where u: "drop i rs = u @ [byte_of CHR ''/''] @ x" "byte_of NL \<notin> set u" "Q (encode x)" by blast
    have n: "i + length u < length rs" using arg_cong [OF u(1), of length] by simp
    moreover have "rs ! (i + length u) = byte_of CHR ''/''" using u(1) nth_drop [of i rs "length u"] n by (simp add: nth_append)
    moreover have "drop (Suc (i + length u)) rs = x" using u(1) by (metis add.commute add_Suc append_Cons append_Nil drop_Suc_Cons drop_drop append_eq_conv_conj)
    ultimately show "\<exists>t. i \<le> t \<and> t < length rs \<and> rs ! t = byte_of CHR ''/'' \<and> byte_of NL \<notin> set (take (t - i) (drop i rs)) \<and> Q (encode (drop (Suc t) rs))"
      using u by (intro exI [of _ "i + length u"]) simp
  next
    assume "\<exists>t. i \<le> t \<and> t < length rs \<and> rs ! t = byte_of CHR ''/'' \<and> byte_of NL \<notin> set (take (t - i) (drop i rs)) \<and> Q (encode (drop (Suc t) rs))"
    then obtain t where t: "i \<le> t" "t < length rs" "rs ! t = byte_of CHR ''/''" "byte_of NL \<notin> set (take (t - i) (drop i rs))" "Q (encode (drop (Suc t) rs))"
      by blast
    have "drop i rs = take (t - i) (drop i rs) @ [byte_of CHR ''/''] @ drop (Suc t) rs"
      using t(1-3) by (metis append_Cons append_Nil append_take_drop_id Cons_nth_drop_Suc drop_drop le_add_diff_inverse2)
    then show ?R using t(4,5) by blast
  qed
  finally show ?thesis .
qed

section \<open>Words between two stars\<close>

text \<open>A segment is a list of words of fixed length; rune by rune it asks for a rune, or for any rune but one.\<close>

definition plain_word :: "globWord \<Rightarrow> bool" where
  "plain_word w \<longleftrightarrow> gw_wild w \<noteq> CHR ''*'' \<and> gw_wild w \<noteq> CHR ''r''"

definition word_pats :: "globWord \<Rightarrow> (bool \<times> rune) list" where
  "word_pats w = (if gw_wild w = CHR ''?'' then [(False, byte_of (gw_exclude w))] else map (Pair True) (runes_of (gw_text w)))"

definition pats :: "globWord list \<Rightarrow> (bool \<times> rune) list" where
  "pats ws = concat (map word_pats ws)"

definition fits :: "(bool \<times> rune) list \<Rightarrow> rune list \<Rightarrow> bool" where
  "fits ps rs \<longleftrightarrow> list_all2 (\<lambda>(lit, c) r. if lit then r = c else r \<noteq> c) ps rs"

lemma pats_simps [simp]: "pats [] = []" "pats (w # ws) = word_pats w @ pats ws" "pats (ws @ xs) = pats ws @ pats xs"
  by (simp_all add: pats_def)

lemma fits_simps [simp]: "fits [] rs \<longleftrightarrow> rs = []" "fits ps [] \<longleftrightarrow> ps = []"
  by (simp_all add: fits_def)

lemma fits_append: "fits (ps @ qs) rs \<longleftrightarrow> (\<exists>u v. rs = u @ v \<and> fits ps u \<and> fits qs v)"
proof
  assume "fits (ps @ qs) rs"
  then show "\<exists>u v. rs = u @ v \<and> fits ps u \<and> fits qs v" unfolding fits_def list_all2_append1 by blast
next
  assume "\<exists>u v. rs = u @ v \<and> fits ps u \<and> fits qs v"
  then show "fits (ps @ qs) rs" unfolding fits_def using list_all2_appendI by blast
qed

lemma fits_length: "fits ps rs \<Longrightarrow> length rs = length ps"
  by (auto simp: fits_def dest: list_all2_lengthD)

lemma fits_nth: "fits ps rs \<Longrightarrow> n < length ps \<Longrightarrow> ps ! n = (lit, c) \<Longrightarrow> if lit then rs ! n = c else rs ! n \<noteq> c"
  unfolding fits_def by (drule list_all2_nthD [of _ _ _ n]) auto

lemma fits_literal: "fits (map (Pair True) ls) rs \<longleftrightarrow> rs = ls"
  by (induction ls arbitrary: rs) (auto simp: fits_def list_all2_Cons1)

lemma fits_word:
  assumes "plain_word w"
  shows "glob_lang (w # ws) rs \<longleftrightarrow> (\<exists>u v. rs = u @ v \<and> fits (word_pats w) u \<and> glob_lang ws v)"
proof (cases "gw_wild w = CHR ''?''")
  case True
  have "fits [(False, e)] u \<longleftrightarrow> (\<exists>r. u = [r] \<and> r \<noteq> e)" for u e by (auto simp: fits_def list_all2_Cons1)
  then have "(\<exists>u v. rs = u @ v \<and> fits (word_pats w) u \<and> glob_lang ws v) \<longleftrightarrow>
      (\<exists>r v. rs = r # v \<and> r \<noteq> byte_of (gw_exclude w) \<and> glob_lang ws v)" using True by (simp add: word_pats_def) (metis append_Cons append_Nil)
  then show ?thesis using True by simp
next
  case False
  then show ?thesis using assms by (simp add: plain_word_def word_pats_def fits_literal)
qed

lemma lang_segment:
  "(\<forall>w \<in> set seg. plain_word w) \<Longrightarrow>
   glob_lang (seg @ ws) rs \<longleftrightarrow> (\<exists>u v. rs = u @ v \<and> fits (pats seg) u \<and> glob_lang ws v)"
proof (induction seg arbitrary: rs)
  case (Cons w seg)
  have "glob_lang ((w # seg) @ ws) rs \<longleftrightarrow> (\<exists>u v. rs = u @ v \<and> fits (word_pats w) u \<and> glob_lang (seg @ ws) v)"
    using fits_word Cons.prems by simp
  also have "\<dots> \<longleftrightarrow> (\<exists>u x y. rs = u @ x @ y \<and> fits (word_pats w) u \<and> fits (pats seg) x \<and> glob_lang ws y)"
    using Cons.IH Cons.prems by simp blast
  also have "\<dots> \<longleftrightarrow> (\<exists>u v. rs = u @ v \<and> fits (pats (w # seg)) u \<and> glob_lang ws v)"
    by (simp add: fits_append) (metis append.assoc)
  finally show ?case .
qed simp

text \<open>
  A segment that fits at \<open>j\<close> and again later at \<open>j + d\<close>, with no excluded rune in between: then no excluded
  rune occurs up to the end of the later place, for the first one would have to be a literal of the
  segment at both places.
\<close>

lemma greedy:
  assumes at: "fits ps (take (length ps) (drop j rs))" "fits ps (take (length ps) (drop (j + d) rs))" and d: "0 < d"
    and any: "\<And>lit c. (lit, c) \<in> set ps \<Longrightarrow> \<not> lit \<Longrightarrow> c = ex"
    and clear: "\<And>x. j \<le> x \<Longrightarrow> x < j + d \<Longrightarrow> rs ! x \<noteq> ex"
  shows "j \<le> x \<Longrightarrow> x < j + d + length ps \<Longrightarrow> rs ! x \<noteq> ex"
proof (induction x rule: less_induct)
  case (less x)
  show ?case
  proof (cases "x < j + d")
    case False
    define a where "a = x - (j + d)"
    have a: "a < length ps" "x = j + d + a" using False less.prems(2) by (auto simp: a_def)
    obtain lit c where p: "ps ! a = (lit, c)" by force
    have len: "length (take (length ps) (drop j rs)) = length ps" "length (take (length ps) (drop (j + d) rs)) = length ps"
      using fits_length at by blast+
    have e: "take (length ps) (drop j rs) ! a = rs ! (j + a)" "take (length ps) (drop (j + d) rs) ! a = rs ! x"
      using a len by (simp_all add: add.commute add.left_commute)
    have "if lit then rs ! (j + a) = c else rs ! (j + a) \<noteq> c" "if lit then rs ! x = c else rs ! x \<noteq> c"
      using fits_nth [OF at(1) a(1) p] fits_nth [OF at(2) a(1) p] unfolding e by blast+
    moreover have "rs ! (j + a) \<noteq> ex" using less.IH [of "j + a"] a d less.prems(2) by simp
    moreover have "\<not> lit \<Longrightarrow> c = ex" using any [of lit c] p a(1) nth_mem by metis
    ultimately show ?thesis by (auto split: if_splits)
  qed (use clear less.prems in blast)
qed

section \<open>One alphabet\<close>

lemma same_alphabet_nth:
  assumes "same_alphabet e ws" and "e \<noteq> NUL" and "\<forall>w \<in> set ws. word_ok w" and "t < length ws"
    and "\<And>n. n < t \<Longrightarrow> gw_wild (ws ! n) \<noteq> CHR ''r''" and "gw_wild (ws ! t) = CHR ''*'' \<or> gw_wild (ws ! t) = CHR ''?''"
  shows "gw_exclude (ws ! t) = e"
  using assms
proof (induction ws arbitrary: t e)
  case (Cons w ws)
  show ?case
  proof (cases t)
    case 0
    then show ?thesis using Cons.prems(1,2,6) by (auto split: if_splits)
  next
    case (Suc n)
    have "gw_wild w \<noteq> CHR ''r''" using Cons.prems(5) [of 0] Suc by simp
    then have "same_alphabet e ws" using Cons.prems(1,2) by (auto split: if_splits)
    moreover have "gw_wild (ws ! m) \<noteq> CHR ''r''" if "m < n" for m using Cons.prems(5) [of "Suc m"] Suc that by simp
    ultimately show ?thesis using Cons.IH [of e n] Cons.prems Suc by simp
  qed
qed simp

lemma same_alphabet_drop:
  assumes "same_alphabet a ws" and "n < length ws"
  shows "gw_wild (ws ! n) = CHR ''r'' \<Longrightarrow> same_alphabet NUL (drop (Suc n) ws)"
    and "gw_wild (ws ! n) = CHR ''*'' \<Longrightarrow> same_alphabet (gw_exclude (ws ! n)) (drop (Suc n) ws)"
proof -
  have "\<exists>b. same_alphabet b (drop n ws)" using assms(1)
    by (induction ws arbitrary: a n) (auto simp: drop_Cons split: nat.splits if_splits)
  then obtain b where "same_alphabet b (ws ! n # drop (Suc n) ws)" using assms(2) by (metis Cons_nth_drop_Suc)
  then show "gw_wild (ws ! n) = CHR ''r'' \<Longrightarrow> same_alphabet NUL (drop (Suc n) ws)"
    and "gw_wild (ws ! n) = CHR ''*'' \<Longrightarrow> same_alphabet (gw_exclude (ws ! n)) (drop (Suc n) ws)" by auto
qed

section \<open>The loop\<close>

text \<open>
  What the loop knows: the words since the last star fit what has been read since the place it is
  matched from.
\<close>

definition loop_ok :: "globWord list \<Rightarrow> rune list \<Rightarrow> nat \<Rightarrow> nat \<Rightarrow> nat option \<Rightarrow> nat \<Rightarrow> bool" where
  "loop_ok words rs wi i star j \<longleftrightarrow> wi \<le> length words \<and> i \<le> length rs \<and>
     (case star of
        None \<Rightarrow> True
      | Some s \<Rightarrow> s < wi \<and> gw_wild (words ! s) = CHR ''*'' \<and> j \<le> i
          \<and> (\<forall>w \<in> set (take (wi - Suc s) (drop (Suc s) words)). plain_word w)
          \<and> fits (pats (take (wi - Suc s) (drop (Suc s) words))) (take (i - j) (drop j rs)))"

text \<open>The tries that are left when the current one fails: the last star takes one rune more, or more.\<close>

definition later :: "globWord list \<Rightarrow> rune list \<Rightarrow> nat option \<Rightarrow> nat \<Rightarrow> bool" where
  "later words rs star j =
     (case star of
        None \<Rightarrow> False
      | Some s \<Rightarrow> \<exists>k > j. k \<le> length rs \<and> (\<forall>x. j \<le> x \<longrightarrow> x < k \<longrightarrow> rs ! x \<noteq> byte_of (gw_exclude (words ! s)))
          \<and> glob_lang (drop (Suc s) words) (drop k rs))"

lemma later_unfold:
  "later words rs (Some s) j \<longleftrightarrow> j < length rs \<and> rs ! j \<noteq> byte_of (gw_exclude (words ! s))
     \<and> (glob_lang (drop (Suc s) words) (drop (Suc j) rs) \<or> later words rs (Some s) (Suc j))"
proof
  assume "later words rs (Some s) j"
  then obtain k where k: "j < k" "k \<le> length rs" "\<And>x. j \<le> x \<Longrightarrow> x < k \<Longrightarrow> rs ! x \<noteq> byte_of (gw_exclude (words ! s))"
    "glob_lang (drop (Suc s) words) (drop k rs)" by (auto simp: later_def)
  then show "j < length rs \<and> rs ! j \<noteq> byte_of (gw_exclude (words ! s))
     \<and> (glob_lang (drop (Suc s) words) (drop (Suc j) rs) \<or> later words rs (Some s) (Suc j))"
    by (cases "k = Suc j") (auto simp: later_def intro!: exI [of _ k])
next
  assume r: "j < length rs \<and> rs ! j \<noteq> byte_of (gw_exclude (words ! s))
     \<and> (glob_lang (drop (Suc s) words) (drop (Suc j) rs) \<or> later words rs (Some s) (Suc j))"
  have split: "j \<le> x \<longleftrightarrow> x = j \<or> Suc j \<le> x" for x by auto
  from r show "later words rs (Some s) j"
  proof (elim conjE disjE)
    assume "glob_lang (drop (Suc s) words) (drop (Suc j) rs)"
    then show ?thesis using r by (auto simp: later_def split less_Suc_eq_le intro!: exI [of _ "Suc j"])
  next
    assume "later words rs (Some s) (Suc j)"
    then show ?thesis using r unfolding later_def split by (auto intro: Suc_lessD)
  qed
qed

lemma star_lang:
  assumes "gw_wild w = CHR ''*''"
  shows "glob_lang (w # ws) (drop i rs) \<longleftrightarrow>
    (\<exists>k \<ge> i. (k \<le> length rs \<or> k = i) \<and> (\<forall>x. i \<le> x \<longrightarrow> x < k \<longrightarrow> rs ! x \<noteq> byte_of (gw_exclude w)) \<and> glob_lang ws (drop k rs))"
    (is "_ \<longleftrightarrow> ?R")
proof -
  have "glob_lang (w # ws) (drop i rs) \<longleftrightarrow> (\<exists>u v. drop i rs = u @ v \<and> byte_of (gw_exclude w) \<notin> set u \<and> glob_lang ws v)"
    using assms by simp
  also have "\<dots> \<longleftrightarrow> ?R"
  proof
    assume "\<exists>u v. drop i rs = u @ v \<and> byte_of (gw_exclude w) \<notin> set u \<and> glob_lang ws v"
    then obtain u v where u: "drop i rs = u @ v" "byte_of (gw_exclude w) \<notin> set u" "glob_lang ws v" by blast
    have len: "length rs - i = length u + length v" using arg_cong [OF u(1), of length] by simp
    have "rs ! x = u ! (x - i)" if "i \<le> x" "x < i + length u" for x
    proof -
      have "drop i rs ! (x - i) = rs ! x" using that len by (subst nth_drop) auto
      moreover have "x - i < length u" using that by simp
      ultimately show ?thesis using u(1) by (simp add: nth_append)
    qed
    then have "\<forall>x. i \<le> x \<longrightarrow> x < i + length u \<longrightarrow> rs ! x \<noteq> byte_of (gw_exclude w)" using u(2)
      by (metis (no_types, lifting) add.commute less_diff_conv2 nth_mem)
    moreover have "drop (i + length u) rs = v" using u(1) by (metis add.commute append_eq_conv_conj drop_drop)
    moreover have "i + length u \<le> length rs \<or> length u = 0" using len by arith
    ultimately show ?R using u(3) by (intro exI [of _ "i + length u"]) auto
  next
    assume ?R
    then obtain k where k: "i \<le> k" "k \<le> length rs \<or> k = i" "\<And>x. i \<le> x \<Longrightarrow> x < k \<Longrightarrow> rs ! x \<noteq> byte_of (gw_exclude w)" "glob_lang ws (drop k rs)"
      by blast
    have "drop i rs = take (k - i) (drop i rs) @ drop k rs" using k(1) by (metis append_take_drop_id drop_drop le_add_diff_inverse2)
    moreover have "byte_of (gw_exclude w) \<notin> set (take (k - i) (drop i rs))"
      using k(3) by (auto simp: in_set_conv_nth)
    ultimately show "\<exists>u v. drop i rs = u @ v \<and> byte_of (gw_exclude w) \<notin> set u \<and> glob_lang ws v" using k(4) by blast
  qed
  finally show ?thesis .
qed

lemma segment_split:
  "s < wi \<Longrightarrow> drop (Suc s) words = take (wi - Suc s) (drop (Suc s) words) @ drop wi words"
  by (metis Suc_leI append_take_drop_id drop_drop le_add_diff_inverse2)

lemma segment_alphabet:
  assumes sa: "same_alphabet NUL words" and ok: "\<forall>w \<in> set words. word_ok w" and s: "s < wi" "wi \<le> length words" "gw_wild (words ! s) = CHR ''*''"
    and seg: "\<forall>w \<in> set (take (wi - Suc s) (drop (Suc s) words)). plain_word w"
  shows "(lit, c) \<in> set (pats (take (wi - Suc s) (drop (Suc s) words))) \<Longrightarrow> \<not> lit \<Longrightarrow> c = byte_of (gw_exclude (words ! s))"
    and "wi < length words \<Longrightarrow> gw_wild (words ! wi) = CHR ''*'' \<Longrightarrow> gw_exclude (words ! wi) = gw_exclude (words ! s)"
proof -
  let ?ws = "drop (Suc s) words" and ?e = "gw_exclude (words ! s)"
  have alpha: "same_alphabet ?e ?ws" using same_alphabet_drop(2) [OF sa _ s(3)] s by simp
  have e: "?e \<noteq> NUL" using ok s unfolding word_ok_def by (metis insertI1 less_le_trans nth_mem)
  have okw: "\<forall>w \<in> set ?ws. word_ok w" using ok set_drop_subset by fastforce
  have plain: "plain_word (?ws ! n)" if "n < wi - Suc s" for n
  proof -
    have "take (wi - Suc s) ?ws ! n \<in> set (take (wi - Suc s) ?ws)" using that s(2) by (intro nth_mem) simp
    then show ?thesis using seg that by simp
  qed
  have same: "gw_exclude (?ws ! t) = ?e" if "t \<le> wi - Suc s" "t < length ?ws" "gw_wild (?ws ! t) = CHR ''*'' \<or> gw_wild (?ws ! t) = CHR ''?''" for t
    using same_alphabet_nth [OF alpha e okw that(2) _ that(3)] plain that(1) by (auto simp: plain_word_def)
  show "c = byte_of ?e" if mem: "(lit, c) \<in> set (pats (take (wi - Suc s) ?ws))" and nl: "\<not> lit"
  proof -
    obtain w where w: "w \<in> set (take (wi - Suc s) ?ws)" "(lit, c) \<in> set (word_pats w)" using mem by (auto simp: pats_def)
    then obtain t where "t < length (take (wi - Suc s) ?ws)" "take (wi - Suc s) ?ws ! t = w" by (metis in_set_conv_nth)
    then have t: "t < wi - Suc s" "t < length ?ws" "(lit, c) \<in> set (word_pats (?ws ! t))" using w(2) by auto
    then show ?thesis using same [of t] nl by (auto simp: word_pats_def split: if_splits)
  qed
  show "gw_exclude (words ! wi) = ?e" if "wi < length words" "gw_wild (words ! wi) = CHR ''*''"
    using same [of "wi - Suc s"] that s(1) by simp
qed

text \<open>At the next star the older one can be forgotten.\<close>

lemma forget_star:
  assumes sa: "same_alphabet NUL words" and ok: "\<forall>w \<in> set words. word_ok w" and inv: "loop_ok words rs wi i star j"
    and wi: "wi < length words" "gw_wild (words ! wi) = CHR ''*''" and later: "later words rs star j"
  shows "glob_lang (drop wi words) (drop i rs)"
proof -
  obtain s k where star: "star = Some s" and k: "j < k" "k \<le> length rs" "\<And>x. j \<le> x \<Longrightarrow> x < k \<Longrightarrow> rs ! x \<noteq> byte_of (gw_exclude (words ! s))"
    "glob_lang (drop (Suc s) words) (drop k rs)" using later by (auto simp: later_def split: option.splits)
  let ?seg = "take (wi - Suc s) (drop (Suc s) words)" and ?e = "byte_of (gw_exclude (words ! s))"
  have I: "s < wi" "gw_wild (words ! s) = CHR ''*''" "j \<le> i" "i \<le> length rs" "\<forall>w \<in> set ?seg. plain_word w" "fits (pats ?seg) (take (i - j) (drop j rs))"
    using inv star by (auto simp: loop_ok_def)
  have alpha: "(lit, c) \<in> set (pats ?seg) \<Longrightarrow> \<not> lit \<Longrightarrow> c = ?e" "gw_exclude (words ! wi) = gw_exclude (words ! s)" for lit c
    using segment_alphabet [OF sa ok I(1) less_imp_le [OF wi(1)] I(2,5)] wi by blast+
  obtain u v where uv: "drop k rs = u @ v" "fits (pats ?seg) u" "glob_lang (drop wi words) v"
    using k(4) segment_split [OF I(1), of words] lang_segment [OF I(5)] by metis
  have n: "length (pats ?seg) = i - j" "length u = i - j" using fits_length [OF I(6)] fits_length [OF uv(2)] I(3,4) by auto
  have w: "drop wi words = words ! wi # drop (Suc wi) words" using wi(1) by (simp add: Cons_nth_drop_Suc)
  have vk: "v = drop (k + (i - j)) rs" and ul: "take (i - j) (drop k rs) = u"
    using uv(1) n(2) by (metis add.commute append_eq_conv_conj drop_drop)+
  have len: "k + (i - j) \<le> length rs" using arg_cong [OF uv(1), of length] n(2) k(2) by simp
  obtain m where m: "k + (i - j) \<le> m" "m \<le> length rs" "\<And>x. k + (i - j) \<le> x \<Longrightarrow> x < m \<Longrightarrow> rs ! x \<noteq> ?e" "glob_lang (drop (Suc wi) words) (drop m rs)"
    using uv(3) len unfolding vk w star_lang [OF wi(2)] alpha(2) by auto
  have "rs ! x \<noteq> ?e" if "j \<le> x" "x < k + (i - j)" for x
    using greedy [of "pats ?seg" j rs "k - j" ?e x] I(6) uv(2) k(1,3) alpha(1) that unfolding n(1) ul [symmetric] by simp
  then have "\<forall>x. i \<le> x \<longrightarrow> x < m \<longrightarrow> rs ! x \<noteq> ?e" using m(3) I(3) by (meson le_trans not_le)
  then show ?thesis unfolding w star_lang [OF wi(2)] alpha(2) using m k(1) I(3) by (intro exI [of _ m]) auto
qed

lemma plain_step:
  assumes inv: "loop_ok words rs wi i star j" and wi: "wi < length words" "plain_word (words ! wi)"
    and fit: "drop i rs = u @ v" "fits (word_pats (words ! wi)) u"
  shows "loop_ok words rs (Suc wi) (i + length u) star j"
proof -
  have n: "i + length u \<le> length rs" 
  proof -
    have "i \<le> length rs" using inv by (simp add: loop_ok_def)
    then show ?thesis using arg_cong [OF fit(1), of length] by simp
  qed
  show ?thesis
  proof (cases star)
    case (Some s)
    let ?seg = "\<lambda>w. take (w - Suc s) (drop (Suc s) words)"
    have I: "s < wi" "j \<le> i" "fits (pats (?seg wi)) (take (i - j) (drop j rs))" using inv Some by (auto simp: loop_ok_def)
    have "take (i + length u - j) (drop j rs) = take (i - j) (drop j rs) @ take (length u) (drop i rs)"
      using I(2) take_add [of "i - j" "length u" "drop j rs"] by simp
    moreover have "take (length u) (drop i rs) = u" using fit(1) by simp
    moreover have seg: "take (wi - s) (drop (Suc s) words) = ?seg wi @ [words ! wi]"
      using I(1) wi(1) take_Suc_conv_app_nth [of "wi - Suc s" "drop (Suc s) words"] by (simp add: Suc_diff_Suc)
    ultimately show ?thesis
      using inv n Some wi I fit(2) by (auto simp: loop_ok_def seg fits_append)
  qed (use inv n wi in \<open>simp add: loop_ok_def\<close>)
qed

lemma plain_lang:
  assumes "wi < length words" and "plain_word (words ! wi)" and "drop i rs = u @ v" and "fits (word_pats (words ! wi)) u"
  shows "glob_lang (drop wi words) (drop i rs) = glob_lang (drop (Suc wi) words) (drop (i + length u) rs)"
proof -
  have w: "drop wi words = words ! wi # drop (Suc wi) words" using assms(1) by (simp add: Cons_nth_drop_Suc)
  have v: "drop (i + length u) rs = v" using assms(3) by (metis add.commute append_eq_conv_conj drop_drop)
  have "u' = u \<and> v' = v" if "drop i rs = u' @ v'" "fits (word_pats (words ! wi)) u'" for u' v'
    using that assms(3,4) fits_length by (metis append_eq_append_conv)
  then show ?thesis unfolding w fits_word [OF assms(2)] v using assms(3,4) by blast
qed

text \<open>The word \<^verbatim>\<open>?\<close> and a literal, on the bytes of the name.\<close>

lemma any_word:
  assumes v: "valid_text rs" and i: "i \<le> length rs" and w: "gw_wild w = CHR ''?''" "word_ok w"
  shows "(off rs i < length (encode rs) \<and> encode rs ! off rs i \<noteq> gw_exclude w) \<longleftrightarrow> (\<exists>u x. drop i rs = u @ x \<and> fits (word_pats w) u)"
    and "off rs i < length (encode rs) \<Longrightarrow> off rs i + globRuneSize (drop (off rs i) (encode rs)) = off rs (i + 1)"
    and "fits (word_pats w) u \<Longrightarrow> length u = 1"
proof -
  have e: "byte_of (gw_exclude w) < 128" using w by (simp add: word_ok_def)
  have lt: "off rs i < length (encode rs) \<longleftrightarrow> i < length rs" using off_end [OF i] off_le [of rs i] i by auto
  have one: "fits (word_pats w) u \<longleftrightarrow> (\<exists>r. u = [r] \<and> r \<noteq> byte_of (gw_exclude w))" for u
    using w(1) by (auto simp: word_pats_def fits_def list_all2_Cons1)
  show "fits (word_pats w) u \<Longrightarrow> length u = 1" using one by auto
  show "off rs i < length (encode rs) \<Longrightarrow> off rs i + globRuneSize (drop (off rs i) (encode rs)) = off rs (i + 1)"
    using lt at_off(2) [OF v] by simp
  have "(\<exists>u x. drop i rs = u @ x \<and> fits (word_pats w) u) \<longleftrightarrow> i < length rs \<and> rs ! i \<noteq> byte_of (gw_exclude w)"
  proof
    assume "\<exists>u x. drop i rs = u @ x \<and> fits (word_pats w) u"
    then obtain r x where r: "drop i rs = r # x" "r \<noteq> byte_of (gw_exclude w)" using one by auto
    then have "i < length rs" by (metis drop_all list.discI not_le)
    then show "i < length rs \<and> rs ! i \<noteq> byte_of (gw_exclude w)" using r by (metis hd_drop_conv_nth list.sel(1))
  next
    assume "i < length rs \<and> rs ! i \<noteq> byte_of (gw_exclude w)"
    then show "\<exists>u x. drop i rs = u @ x \<and> fits (word_pats w) u"
      using one by (intro exI [of _ "[rs ! i]"] exI [of _ "drop (Suc i) rs"]) (simp add: Cons_nth_drop_Suc)
  qed
  then show "(off rs i < length (encode rs) \<and> encode rs ! off rs i \<noteq> gw_exclude w) \<longleftrightarrow> (\<exists>u x. drop i rs = u @ x \<and> fits (word_pats w) u)"
    using lt at_off(3) [OF v _ e, of i] by auto
qed

lemma literal_word:
  assumes v: "valid_text rs" and i: "i \<le> length rs" and w: "gw_wild w = NUL" "word_ok w"
  shows "prefix (gw_text w) (drop (off rs i) (encode rs)) \<longleftrightarrow> (\<exists>u x. drop i rs = u @ x \<and> fits (word_pats w) u)"
    and "drop i rs = u @ x \<Longrightarrow> fits (word_pats w) u \<Longrightarrow> off rs i + length (gw_text w) = off rs (i + length u)"
proof -
  obtain ls where ls: "valid_text ls" "gw_text w = encode ls" using w by (auto simp: word_ok_def)
  have f: "fits (word_pats w) u \<longleftrightarrow> u = ls" for u using w(1) ls by (simp add: word_pats_def runes_of_encode fits_literal)
  have vd: "valid_text (drop i rs)" using v set_drop_subset [of i rs] by (auto simp: valid_text_def)
  show "prefix (gw_text w) (drop (off rs i) (encode rs)) \<longleftrightarrow> (\<exists>u x. drop i rs = u @ x \<and> fits (word_pats w) u)"
    unfolding drop_off ls(2) f using encode_prefix [OF vd ls(1)] by (auto simp: prefix_def)
  show "drop i rs = u @ x \<Longrightarrow> fits (word_pats w) u \<Longrightarrow> off rs i + length (gw_text w) = off rs (i + length u)"
    using off_add [OF i, of "length u"] ls(2) by (simp add: f)
qed

lemma loop_correct:
  assumes v: "valid_text rs" and sa: "same_alphabet NUL words" and ok: "\<forall>w \<in> set words. word_ok w"
    and sub: "\<And>n qs. n < length words \<Longrightarrow> gw_wild (words ! n) = CHR ''r'' \<Longrightarrow> valid_text qs \<Longrightarrow>
      matchGlobWords (drop (Suc n) words) (encode qs) = Some (glob_lang (drop (Suc n) words) qs)"
  shows "loop_ok words rs wi i star j \<Longrightarrow> (star \<noteq> None \<Longrightarrow> retry = off rs j) \<Longrightarrow>
    glob_loop words (encode rs) wi (off rs i) star retry = Some (glob_lang (drop wi words) (drop i rs) \<or> later words rs star j)"
proof (induction "(length rs - (if star = None then 0 else j)) * Suc (length words) + (length words - wi)"
    arbitrary: wi i star j retry rule: less_induct)
  case less
  let ?name = "encode rs" and ?W = "length words"
  note inv = less.prems(1)
  have wi: "wi \<le> ?W" and i: "i \<le> length rs" using inv by (auto simp: loop_ok_def)
  have retry: "glob_retry words ?name wi (off rs i) star retry = Some (later words rs star j)"
  proof (cases star)
    case (Some s)
    have s: "s < wi" "gw_wild (words ! s) = CHR ''*''" "j \<le> i" "retry = off rs j" using inv Some less.prems(2) by (auto simp: loop_ok_def)
    then have j: "j \<le> length rs" "s < ?W" using i wi by auto
    have e: "byte_of (gw_exclude (words ! s)) < 128" using ok s(2) j(2) nth_mem unfolding word_ok_def by fastforce
    show ?thesis
    proof (cases "j < length rs \<and> rs ! j \<noteq> byte_of (gw_exclude (words ! s))")
      case True
      have "loop_ok words rs (Suc s) (Suc j) (Some s) (Suc j)" using True s j(2) by (auto simp: loop_ok_def)
      moreover have "(length rs - Suc j) * Suc ?W + (?W - Suc s) < (length rs - j) * Suc ?W + (?W - wi)"
      proof -
        have "length rs - j = Suc (length rs - Suc j)" using True by (simp add: Suc_diff_Suc)
        then show ?thesis by simp
      qed
      ultimately have "glob_loop words ?name (Suc s) (off rs (Suc j)) (Some s) (off rs (Suc j)) = Some (later words rs (Some s) j)"
        using less.hyps [of "Some s" "Suc j" "Suc s" "Suc j" "off rs (Suc j)"] True Some later_unfold [of words rs s j] by simp
      then show ?thesis
        using True j off_end [OF j(1)] off_le [of rs j] at_off(2) [OF v, of j] at_off(3) [OF v _ e, of j]
        by (simp add: glob_retry.simps Some s(4) Let_def)
    next
      case False
      then show ?thesis
        using j off_end [OF j(1)] off_le [of rs j] at_off(3) [OF v _ e, of j] later_unfold [of words rs s j]
        by (auto simp: glob_retry.simps Some s(4))
    qed
  qed (simp add: glob_retry.simps later_def)
  show ?case
  proof (cases "wi = ?W")
    case True
    then show ?thesis using retry i off_end [OF i] by (simp add: glob_loop.simps)
  next
    case False
    then have lt: "wi < ?W" using wi by simp
    let ?w = "words ! wi"
    have w: "word_ok ?w" using ok lt by simp
    have drop_w: "drop wi words = ?w # drop (Suc wi) words" using lt by (simp add: Cons_nth_drop_Suc)
    have body: "glob_loop words ?name wi (off rs i) star retry = (if gw_wild ?w = CHR ''r'' then
             (case matchGlobWords (drop (Suc wi) words) (drop (off rs i) ?name) of
                None \<Rightarrow> None
              | Some True \<Rightarrow> Some True
              | Some False \<Rightarrow>
                  (case any_opt (\<lambda>i. matchGlobWords (drop (Suc wi) words) (drop i ?name)) (slash_places ?name (off rs i)) of
                     None \<Rightarrow> None
                   | Some True \<Rightarrow> Some True
                   | Some False \<Rightarrow> Some (later words rs star j)))
           else if gw_wild ?w = CHR ''*'' then glob_loop words ?name (Suc wi) (off rs i) (Some wi) (off rs i)
           else if gw_wild ?w = CHR ''?'' then
             (if off rs i < length ?name \<and> ?name ! off rs i \<noteq> gw_exclude ?w
              then glob_loop words ?name (Suc wi) (off rs i + globRuneSize (drop (off rs i) ?name)) star retry
              else Some (later words rs star j))
           else if prefix (gw_text ?w) (drop (off rs i) ?name)
           then glob_loop words ?name (Suc wi) (off rs i + length (gw_text ?w)) star retry
           else Some (later words rs star j))"
    proof -
      have "\<not> (?W < wi \<or> length ?name < off rs i)" using lt off_le [of rs i] by simp
      then show ?thesis
        unfolding glob_loop.simps [of words ?name wi "off rs i" star retry] retry Let_def if_not_P [OF False] by (simp only: if_False)
    qed
    have step: "glob_loop words ?name (Suc wi) (off rs (i + length u)) star retry
        = Some (glob_lang (drop wi words) (drop i rs) \<or> later words rs star j)"
      if "plain_word ?w" "drop i rs = u @ x" "fits (word_pats ?w) u" for u x
      using less.hyps [of star j "Suc wi" "i + length u" retry] plain_step [OF inv lt that] less.prems(2) lt plain_lang [OF lt that] by simp
    have stuck: "\<not> glob_lang (drop wi words) (drop i rs)" if "plain_word ?w" "\<nexists>u x. drop i rs = u @ x \<and> fits (word_pats ?w) u"
      unfolding drop_w fits_word [OF that(1)] using that(2) by blast
    consider "gw_wild ?w = CHR ''r''" | "gw_wild ?w = CHR ''*''" | "gw_wild ?w = CHR ''?''" | "gw_wild ?w = NUL"
      using w by (auto simp: word_ok_def)
    then show ?thesis
    proof cases
      case 1
      let ?ws = "drop (Suc wi) words"
      define Q where "Q s \<longleftrightarrow> (\<exists>x. valid_text x \<and> s = encode x \<and> glob_lang ?ws x)" for s
      have vd: "valid_text (drop i rs)" using v set_drop_subset [of i rs] by (auto simp: valid_text_def)
      have "matchGlobWords ?ws (drop p ?name) = Some (Q (drop p ?name))" if mem: "p \<in> set (slash_places ?name (off rs i))" for p
      proof -
        obtain u x where x: "drop i rs = u @ [byte_of CHR ''/''] @ x" "drop p ?name = encode x"
          using slash_splits [OF v i, of "\<lambda>s. drop p ?name = s"] mem by auto
        have "valid_text x" using vd x(1) by simp
        then show ?thesis using sub [OF lt 1, of x] x(2) encode_inj by (auto simp: Q_def)
      qed
      then have "any_opt (\<lambda>i. matchGlobWords ?ws (drop i ?name)) (slash_places ?name (off rs i))
          = Some (\<exists>u x. drop i rs = u @ [byte_of CHR ''/''] @ x \<and> byte_of NL \<notin> set u \<and> Q (encode x))"
        using any_opt_Some [of "slash_places ?name (off rs i)"] slash_splits [OF v i, of Q] by simp
      moreover have q: "Q (encode x) \<longleftrightarrow> glob_lang ?ws x" if "drop i rs = u @ [byte_of CHR ''/''] @ x" for u x
        using that vd encode_inj by (auto simp: Q_def)
      then have "(\<exists>u x. drop i rs = u @ [byte_of CHR ''/''] @ x \<and> byte_of NL \<notin> set u \<and> Q (encode x))
          \<longleftrightarrow> (\<exists>u x. drop i rs = u @ [byte_of CHR ''/''] @ x \<and> byte_of NL \<notin> set u \<and> glob_lang ?ws x)" by blast
      ultimately have "any_opt (\<lambda>i. matchGlobWords ?ws (drop i ?name)) (slash_places ?name (off rs i))
          = Some (\<exists>u x. drop i rs = u @ [byte_of CHR ''/''] @ x \<and> byte_of NL \<notin> set u \<and> glob_lang ?ws x)" by (simp only:)
      then show ?thesis using body 1 sub [OF lt 1 vd] by (auto simp: drop_off drop_w split: bool.splits)
    next
      case 2
      have "loop_ok words rs (Suc wi) i (Some wi) i" using 2 lt i by (simp add: loop_ok_def)
      moreover have "(if star = None then 0 else j) \<le> i" using inv by (auto simp: loop_ok_def)
      then have "(length rs - i) * Suc ?W + (?W - Suc wi) < (length rs - (if star = None then 0 else j)) * Suc ?W + (?W - wi)"
        using lt by (intro add_le_less_mono mult_le_mono1) auto
      ultimately have "glob_loop words ?name (Suc wi) (off rs i) (Some wi) (off rs i)
          = Some (glob_lang (drop (Suc wi) words) (drop i rs) \<or> later words rs (Some wi) i)"
        using less.hyps [of "Some wi" i "Suc wi" i "off rs i"] by simp
      moreover have "glob_lang (drop (Suc wi) words) (drop i rs) \<or> later words rs (Some wi) i \<longleftrightarrow> glob_lang (drop wi words) (drop i rs)"
      proof -
        define P where "P k \<longleftrightarrow> (\<forall>x. i \<le> x \<longrightarrow> x < k \<longrightarrow> rs ! x \<noteq> byte_of (gw_exclude ?w)) \<and> glob_lang (drop (Suc wi) words) (drop k rs)" for k
        have "P i \<longleftrightarrow> glob_lang (drop (Suc wi) words) (drop i rs)" "later words rs (Some wi) i \<longleftrightarrow> (\<exists>k > i. k \<le> length rs \<and> P k)"
          by (auto simp: P_def later_def)
        moreover have "glob_lang (drop wi words) (drop i rs) \<longleftrightarrow> (\<exists>k \<ge> i. (k \<le> length rs \<or> k = i) \<and> P k)"
          unfolding drop_w star_lang [OF 2] P_def by blast
        ultimately show ?thesis by (metis le_less order_refl)
      qed
      ultimately show ?thesis using body 2 forget_star [OF sa ok inv lt 2] by auto
    next
      case 3
      have p: "plain_word ?w" using 3 by (simp add: plain_word_def)
      note A = any_word [OF v i 3 w]
      show ?thesis
      proof (cases "\<exists>u x. drop i rs = u @ x \<and> fits (word_pats ?w) u")
        case True
        then obtain u x where u: "drop i rs = u @ x" "fits (word_pats ?w) u" by blast
        have "off rs i < length ?name" using A(1) True by blast
        then show ?thesis using body 3 A(2) A(3) [OF u(2)] step [OF p u] unfolding A(1) if_P [OF True] by simp
      next
        case False
        then show ?thesis using body 3 stuck [OF p False] unfolding A(1) if_not_P [OF False] by simp
      qed
    next
      case 4
      have p: "plain_word ?w" using 4 by (simp add: plain_word_def)
      note A = literal_word [OF v i 4 w]
      show ?thesis
      proof (cases "\<exists>u x. drop i rs = u @ x \<and> fits (word_pats ?w) u")
        case True
        then obtain u x where u: "drop i rs = u @ x" "fits (word_pats ?w) u" by blast
        then show ?thesis using body 4 A(2) [OF u] step [OF p u] unfolding A(1) if_P [OF True] by simp
      next
        case False
        then show ?thesis using body 4 stuck [OF p False] unfolding A(1) if_not_P [OF False] by simp
      qed
    qed
  qed
qed

text \<open>A text that ends with another ends with its runes.\<close>

lemma encode_suffix:
  assumes v: "valid_text rs" "valid_text ls" and eq: "encode rs = x @ encode ls"
  shows "\<exists>u. rs = u @ ls \<and> x = encode u"
proof (cases ls)
  case (Cons l ls')
  have l: "valid_rune l" using v(2) Cons by simp
  have p: "length x < length (encode rs)" "encode rs ! length x = hd (enc l)"
    using eq Cons length_enc(2) [of l] by (auto simp: nth_append hd_conv_nth)
  then obtain i where i: "i < length rs" "length x = off rs i"
    using rune_boundary [OF v(1), of "length x"] enc_bytes(2) [OF l] by (auto simp: off_def)
  have "x = encode (take i rs)" "encode ls = encode (drop i rs)"
    using eq i(2) take_off [of rs i] drop_off [of rs i] by simp_all
  moreover have "valid_text (drop i rs)" using v(1) set_drop_subset [of i rs] by (auto simp: valid_text_def)
  ultimately show ?thesis using encode_inj [OF v(2)] by (metis append_take_drop_id)
qed (use eq in auto)

lemma suffix_path:
  assumes v: "valid_text rs" and w: "word_ok a" "gw_wild a = CHR ''*''" "word_ok b" "gw_wild b = NUL"
  shows "suffix (gw_text b) (encode rs) \<and> gw_exclude a \<notin> set (take (length (encode rs) - length (gw_text b)) (encode rs))
    \<longleftrightarrow> glob_lang [a, b] rs"
proof -
  obtain ls where ls: "valid_text ls" "gw_text b = encode ls" using w(3,4) by (auto simp: word_ok_def)
  have e: "byte_of (gw_exclude a) < 128" using w(1,2) by (simp add: word_ok_def)
  have "glob_lang [a, b] rs \<longleftrightarrow> (\<exists>u. rs = u @ ls \<and> byte_of (gw_exclude a) \<notin> set u)"
    using w ls by (auto simp: runes_of_encode)
  moreover have "suffix (encode ls) (encode rs) \<longleftrightarrow> (\<exists>u. rs = u @ ls)"
    using encode_suffix [OF v ls(1)] by (auto simp: suffix_def)
  moreover have "gw_exclude a \<in> set (encode u) \<longleftrightarrow> byte_of (gw_exclude a) \<in> set u" if "rs = u @ ls" for u
    using that v encode_mem [OF _ e] by simp
  ultimately show ?thesis using ls(2) by auto
qed

lemma matchGlobWords_spec:
  assumes "valid_text rs" and "same_alphabet NUL words" and "\<forall>w \<in> set words. word_ok w"
  shows "matchGlobWords words (encode rs) = Some (glob_lang words rs)"
  using assms
proof (induction "length words" arbitrary: words rs rule: less_induct)
  case less
  have sub: "matchGlobWords (drop (Suc n) words) (encode qs) = Some (glob_lang (drop (Suc n) words) qs)"
    if "n < length words" "gw_wild (words ! n) = CHR ''r''" "valid_text qs" for n qs
  proof (rule less.hyps)
    show "same_alphabet NUL (drop (Suc n) words)" using same_alphabet_drop(1) [OF less.prems(2)] that by simp
    show "\<forall>w \<in> set (drop (Suc n) words). word_ok w" using less.prems(3) set_drop_subset by fastforce
  qed (use that in auto)
  show ?case
  proof (cases "length words = 2 \<and> gw_wild (words ! 0) = CHR ''*'' \<and> gw_wild (words ! 1) = NUL")
    case True
    then obtain a b where "words = [a, b]" by (metis length_0_conv length_Suc_conv numeral_2_eq_2)
    then show ?thesis using True suffix_path [OF less.prems(1), of a b] less.prems(3) by (simp add: matchGlobWords.simps Let_def)
  next
    case False
    have "loop_ok words rs 0 0 None 0" by (simp add: loop_ok_def)
    then show ?thesis
      using loop_correct [OF less.prems sub, of 0 0 None 0 0] unfolding matchGlobWords.simps [of words] if_not_P [OF False] by (simp add: off_simps later_def)
  qed
qed

section \<open>Properties\<close>

text \<open>
  C21: The matcher of glob words, which keeps one place to go back to, decides the language of the
  pattern: for words whose wildcards exclude one character between two recursive words and a name in
  valid UTF-8, \<^verbatim>\<open>matchGlobWords\<close> returns, without a panic, whether the runes of the name belong to the
  language of the words. This covers the short cut for a star and a suffix, the retries after a star,
  the forgetting of a star when the next one is reached, and the recursion at \<^verbatim>\<open>**/\<close>.
\<close>

theorem matchGlobWords_correct:
  assumes "valid_text rs" and "same_alphabet NUL words" and "\<forall>w \<in> set words. word_ok w"
  shows "matchGlobWords words (encode rs) = Some (glob_lang words rs)"
  using assms by (rule matchGlobWords_spec)

text \<open>The pattern \<^verbatim>\<open>a*b?\<close> on the name \<^verbatim>\<open>axbby\<close>, where the first try after the star fails.\<close>

theorem matchGlobWords_correct_witness:
  "matchGlobWords [\<lparr>gw_text = ''a'', gw_wild = NUL, gw_exclude = NUL\<rparr>, \<lparr>gw_text = [], gw_wild = CHR ''*'', gw_exclude = CHR ''/''\<rparr>,
     \<lparr>gw_text = ''b'', gw_wild = NUL, gw_exclude = NUL\<rparr>, \<lparr>gw_text = [], gw_wild = CHR ''?'', gw_exclude = CHR ''/''\<rparr>] ''axbby'' = Some True"
proof -
  let ?ws = "[\<lparr>gw_text = ''a'', gw_wild = NUL, gw_exclude = NUL\<rparr>, \<lparr>gw_text = [], gw_wild = CHR ''*'', gw_exclude = CHR ''/''\<rparr>,
     \<lparr>gw_text = ''b'', gw_wild = NUL, gw_exclude = NUL\<rparr>, \<lparr>gw_text = [], gw_wild = CHR ''?'', gw_exclude = CHR ''/''\<rparr>]"
  have v: "valid_text [97]" "valid_text [98]" "valid_text [97, 120, 98, 98, 121]"
    and enc: "encode [97] = ''a''" "encode [98] = ''b''" "encode [97, 120, 98, 98, 121] = ''axbby''"
    using encode_ascii [of "''a''"] encode_ascii [of "''b''"] encode_ascii [of "''axbby''"] by (simp_all add: byte_of_def)
  have "\<exists>ls. valid_text ls \<and> ''a'' = encode ls" "\<exists>ls. valid_text ls \<and> ''b'' = encode ls" using enc v by metis+
  then have ok: "\<forall>w \<in> set ?ws. word_ok w" by (simp add: word_ok_def byte_of_def)
  have r: "runes_of ''a'' = [97]" "runes_of ''b'' = [98]" using runes_of_encode [OF v(1)] runes_of_encode [OF v(2)] enc by simp_all
  have "glob_lang (drop 2 ?ws) [98, 121]" using r by (simp add: byte_of_def del: runes_of.simps)
  then have "\<exists>u v. [120, 98, 98, 121] = u @ v \<and> byte_of CHR ''/'' \<notin> set u \<and> glob_lang (drop 2 ?ws) v"
    by (intro exI [of _ "[120, 98]"] exI [of _ "[98, 121]"]) (simp add: byte_of_def del: runes_of.simps)
  then have "glob_lang ?ws [97, 120, 98, 98, 121]" using r by (simp del: runes_of.simps)
  then show ?thesis using matchGlobWords_correct [OF v(3) _ ok] enc(3) by simp
qed

end
