(* ===== verification/Ay_GlobRe.thy ===== *)
theory Ay_GlobRe
  imports Ay_Glob
begin

text \<open>
  From regular expressions to glob words (\<^verbatim>\<open>glob_match.go\<close>, \<^verbatim>\<open>globWords\<close>). The
  expressions are those of Go's \<^verbatim>\<open>regexp/syntax\<close> after parsing; the language of an expression is the
  documented one. When a pattern is turned into words, these have the language of the expression, and
  the matcher on words decides it.
\<close>

datatype Regexp =
    OpNoMatch | OpEmptyMatch
  | OpLiteral (foldCase: bool) "rune list"
  | OpCharClass "(rune \<times> rune) list"
  | OpAnyCharNotNL | OpAnyChar | OpBeginLine | OpEndLine | OpBeginText | OpEndText | OpWordBoundary | OpNoWordBoundary
  | OpCapture Regexp | OpStar Regexp | OpPlus Regexp | OpQuest Regexp | OpRepeat int int Regexp
  | OpConcat "Regexp list" | OpAlternate "Regexp list"

definition globFilenameChar :: "Regexp \<Rightarrow> bool" where
  "globFilenameChar re \<longleftrightarrow>
     re = OpCharClass [(0, byte_of CHR ''/'' - 1), (byte_of CHR ''/'' + 1, MaxRune)]"

definition wild_word :: "char \<Rightarrow> char \<Rightarrow> globWord list list" where
  "wild_word w e = [[\<lparr>gw_text = [], gw_wild = w, gw_exclude = e\<rparr>]]"

definition text_word :: "string \<Rightarrow> globWord" where
  "text_word t = \<lparr>gw_text = t, gw_wild = NUL, gw_exclude = NUL\<rparr>"

text \<open>One more word after a list of words; two literals become one.\<close>

definition push_word :: "globWord \<Rightarrow> globWord list \<Rightarrow> globWord list" where
  "push_word part w =
     (if w \<noteq> [] \<and> gw_wild (last w) = NUL \<and> gw_wild part = NUL
      then butlast w @ [(last w)\<lparr>gw_text := gw_text (last w) @ gw_text part\<rparr>]
      else w @ [part])"

definition join_words :: "globWord list list \<Rightarrow> globWord list list \<Rightarrow> globWord list list" where
  "join_words words tail = concat (map (\<lambda>a. map (\<lambda>b. fold push_word b a) tail) words)"

text \<open>The single characters of a class of small ranges.\<close>

fun class_words :: "(rune \<times> rune) list \<Rightarrow> globWord list list option" where
  "class_words [] = Some []"
| "class_words ((lo, hi) # cs) =
     (if hi - lo > 32 \<or> lo \<le> RuneError \<and> RuneError \<le> hi then None
      else map_option (\<lambda>ws. map (\<lambda>r. [text_word (enc r)]) [lo..<Suc hi] @ ws) (class_words cs))"

definition is_recursive :: "Regexp \<Rightarrow> bool" where
  "is_recursive sub \<longleftrightarrow>
     (case sub of
        OpConcat subs \<Rightarrow> length subs = 2 \<and> subs ! 0 = OpStar OpAnyCharNotNL
          \<and> (case subs ! 1 of OpLiteral _ ls \<Rightarrow> encode ls = ''/'' | _ \<Rightarrow> False)
      | _ \<Rightarrow> False)"

fun globWords :: "Regexp \<Rightarrow> globWord list list option"
  and concat_words :: "globWord list list \<Rightarrow> Regexp list \<Rightarrow> globWord list list option"
  and alternate_words :: "globWord list list \<Rightarrow> Regexp list \<Rightarrow> globWord list list option" where
  "globWords OpEmptyMatch = Some [[]]"
| "globWords (OpLiteral fc ls) = (if fc \<or> RuneError \<in> set ls then None else Some [[text_word (encode ls)]])"
| "globWords OpAnyCharNotNL = Some (wild_word CHR ''?'' NL)"
| "globWords (OpStar sub) =
     (if sub = OpAnyCharNotNL then Some (wild_word CHR ''*'' NL)
      else if globFilenameChar sub then Some (wild_word CHR ''*'' CHR ''/'')
      else None)"
| "globWords (OpQuest sub) =
     (if is_recursive (case sub of OpCapture s \<Rightarrow> s | _ \<Rightarrow> sub) then Some (wild_word CHR ''r'' NUL) else None)"
| "globWords (OpCapture sub) = globWords sub"
| "globWords (OpCharClass cs) =
     (if globFilenameChar (OpCharClass cs) then Some (wild_word CHR ''?'' CHR ''/'') else class_words cs)"
| "globWords (OpConcat subs) = concat_words [[]] subs"
| "globWords (OpAlternate subs) = alternate_words [] subs"
| "globWords _ = None"
| "concat_words words [] = Some words"
| "concat_words words (sub # subs) =
     (case globWords sub of
        None \<Rightarrow> None
      | Some tail \<Rightarrow>
          if length words * length tail > 64 then None
          else let words = join_words words tail in if length words > 64 then None else concat_words words subs)"
| "alternate_words words [] = Some words"
| "alternate_words words (sub # subs) =
     (case globWords sub of
        None \<Rightarrow> None
      | Some tail \<Rightarrow> let words = words @ tail in if length words > 64 then None else alternate_words words subs)"

section \<open>The language of an expression\<close>

fun re_lang :: "Regexp \<Rightarrow> rune list \<Rightarrow> bool"
  and re_seq :: "Regexp list \<Rightarrow> rune list \<Rightarrow> bool" where
  "re_lang OpEmptyMatch rs \<longleftrightarrow> rs = []"
| "re_lang (OpLiteral fc ls) rs \<longleftrightarrow> rs = ls"
| "re_lang (OpCharClass cs) rs \<longleftrightarrow> (\<exists>r. rs = [r] \<and> (\<exists>(lo, hi) \<in> set cs. lo \<le> r \<and> r \<le> hi))"
| "re_lang OpAnyCharNotNL rs \<longleftrightarrow> (\<exists>r. rs = [r] \<and> r \<noteq> byte_of NL)"
| "re_lang OpAnyChar rs \<longleftrightarrow> (\<exists>r. rs = [r])"
| "re_lang (OpStar e) rs \<longleftrightarrow> (\<exists>xss. rs = concat xss \<and> (\<forall>xs \<in> set xss. re_lang e xs))"
| "re_lang (OpPlus e) rs \<longleftrightarrow> (\<exists>xss. xss \<noteq> [] \<and> rs = concat xss \<and> (\<forall>xs \<in> set xss. re_lang e xs))"
| "re_lang (OpQuest e) rs \<longleftrightarrow> rs = [] \<or> re_lang e rs"
| "re_lang (OpCapture e) rs \<longleftrightarrow> re_lang e rs"
| "re_lang (OpConcat es) rs \<longleftrightarrow> re_seq es rs"
| "re_lang (OpAlternate es) rs \<longleftrightarrow> (\<exists>e \<in> set es. re_lang e rs)"
| "re_lang _ rs \<longleftrightarrow> False"
| "re_seq [] rs \<longleftrightarrow> rs = []"
| "re_seq (e # es) rs \<longleftrightarrow> (\<exists>u v. rs = u @ v \<and> re_lang e u \<and> re_seq es v)"

text \<open>The runes an expression names are valid ones.\<close>

fun re_ok :: "Regexp \<Rightarrow> bool" where
  "re_ok (OpLiteral fc ls) \<longleftrightarrow> valid_text ls"
| "re_ok (OpCharClass cs) \<longleftrightarrow> globFilenameChar (OpCharClass cs) \<or> (\<forall>(lo, hi) \<in> set cs. \<forall>r. lo \<le> r \<longrightarrow> r \<le> hi \<longrightarrow> valid_rune r)"
| "re_ok (OpStar e) \<longleftrightarrow> re_ok e"
| "re_ok (OpPlus e) \<longleftrightarrow> re_ok e"
| "re_ok (OpQuest e) \<longleftrightarrow> re_ok e"
| "re_ok (OpCapture e) \<longleftrightarrow> re_ok e"
| "re_ok (OpRepeat a b e) \<longleftrightarrow> re_ok e"
| "re_ok (OpConcat es) \<longleftrightarrow> (\<forall>e \<in> set es. re_ok e)"
| "re_ok (OpAlternate es) \<longleftrightarrow> (\<forall>e \<in> set es. re_ok e)"
| "re_ok _ \<longleftrightarrow> True"

section \<open>Words have the language of the expression\<close>

definition word_lang :: "globWord \<Rightarrow> rune list \<Rightarrow> bool" where
  "word_lang w u \<longleftrightarrow>
     (if gw_wild w = CHR ''r'' then u = [] \<or> (\<exists>x. u = x @ [byte_of CHR ''/''] \<and> byte_of NL \<notin> set x)
      else if gw_wild w = CHR ''*'' then byte_of (gw_exclude w) \<notin> set u
      else if gw_wild w = CHR ''?'' then \<exists>r. u = [r] \<and> r \<noteq> byte_of (gw_exclude w)
      else u = runes_of (gw_text w))"

lemma lang_word: "glob_lang (w # ws) rs \<longleftrightarrow> (\<exists>u v. rs = u @ v \<and> word_lang w u \<and> glob_lang ws v)"
proof (cases "gw_wild w = CHR ''r''")
  case True
  have "(\<exists>u v. rs = u @ v \<and> word_lang w u \<and> glob_lang ws v)
      \<longleftrightarrow> glob_lang ws rs \<or> (\<exists>x v. rs = x @ [byte_of CHR ''/''] @ v \<and> byte_of NL \<notin> set x \<and> glob_lang ws v)"
    using True by (simp add: word_lang_def) (metis append.assoc append_Cons append_Nil)
  then show ?thesis using True by simp
next
  case False
  then show ?thesis by (auto simp: word_lang_def) (metis append_Cons append_Nil)
qed

lemma lang_append: "glob_lang (a @ b) rs \<longleftrightarrow> (\<exists>u v. rs = u @ v \<and> glob_lang a u \<and> glob_lang b v)"
proof (induction a arbitrary: rs)
  case (Cons w a)
  have "glob_lang ((w # a) @ b) rs \<longleftrightarrow> (\<exists>x y v. rs = x @ y @ v \<and> word_lang w x \<and> glob_lang a y \<and> glob_lang b v)"
    unfolding append_Cons lang_word Cons.IH by blast
  also have "\<dots> \<longleftrightarrow> (\<exists>u v. rs = u @ v \<and> glob_lang (w # a) u \<and> glob_lang b v)"
    unfolding lang_word by (metis append.assoc)
  finally show ?case .
qed simp

lemma lang_single: "glob_lang [w] rs \<longleftrightarrow> word_lang w rs"
  by (simp add: lang_word del: glob_lang.simps(2))

lemma push_word_lang:
  assumes "\<forall>x \<in> set w. word_ok x" and "word_ok part"
  shows "glob_lang (push_word part w) rs \<longleftrightarrow> glob_lang (w @ [part]) rs" and "\<forall>x \<in> set (push_word part w). word_ok x"
proof -
  show "glob_lang (push_word part w) rs \<longleftrightarrow> glob_lang (w @ [part]) rs"
  proof (cases "w \<noteq> [] \<and> gw_wild (last w) = NUL \<and> gw_wild part = NUL")
    case True
    then obtain v l where w: "w = v @ [l]" by (metis append_butlast_last_id)
    have l: "gw_wild l = NUL" "gw_wild part = NUL" "word_ok l" using True w assms(1) by auto
    obtain ls where ls: "valid_text ls" "gw_text l = encode ls" using l by (auto simp: word_ok_def)
    obtain ms where ms: "valid_text ms" "gw_text part = encode ms" using l(2) assms(2) by (auto simp: word_ok_def)
    have "word_lang (l\<lparr>gw_text := gw_text l @ gw_text part\<rparr>) u \<longleftrightarrow> glob_lang [l, part] u" for u
      using l ls ms runes_of_encode [of "ls @ ms"] by (simp add: word_lang_def runes_of_encode)
    then show ?thesis using True w by (simp add: push_word_def lang_append lang_single del: glob_lang.simps(2))
  next
    case False
    show ?thesis unfolding push_word_def if_not_P [OF False] ..
  qed
  show "\<forall>x \<in> set (push_word part w). word_ok x"
  proof (cases "w \<noteq> [] \<and> gw_wild (last w) = NUL \<and> gw_wild part = NUL")
    case True
    then have l: "word_ok (last w)" "gw_wild (last w) = NUL" "gw_wild part = NUL" using assms(1) by auto
    obtain ls ms where "valid_text ls" "gw_text (last w) = encode ls" "valid_text ms" "gw_text part = encode ms"
      using l assms(2) by (auto simp: word_ok_def)
    then have "word_ok ((last w)\<lparr>gw_text := gw_text (last w) @ gw_text part\<rparr>)"
      using l by (auto simp: word_ok_def intro!: exI [of _ "ls @ ms"])
    then show ?thesis using True assms(1) by (auto simp: push_word_def dest: in_set_butlastD)
  next
    case False
    then show ?thesis unfolding push_word_def if_not_P [OF False] using assms by simp
  qed
qed

lemma push_words_lang:
  assumes "\<forall>x \<in> set b. word_ok x" and "\<forall>x \<in> set a. word_ok x"
  shows "(glob_lang (fold push_word b a) rs \<longleftrightarrow> glob_lang (a @ b) rs) \<and> (\<forall>x \<in> set (fold push_word b a). word_ok x)"
  using assms
proof (induction b arbitrary: a)
  case (Cons p b)
  have p: "word_ok p" using Cons.prems(1) by simp
  note P = push_word_lang [OF Cons.prems(2) p]
  have "glob_lang (push_word p a @ b) rs \<longleftrightarrow> glob_lang ((a @ [p]) @ b) rs"
    unfolding lang_append [of "push_word p a"] lang_append [of "a @ [p]"] P(1) ..
  then show ?case using Cons.IH [OF _ P(2)] Cons.prems(1) by simp
qed simp

lemma join_words_lang:
  assumes "\<forall>a \<in> set words. \<forall>x \<in> set a. word_ok x" and "\<forall>b \<in> set tail. \<forall>x \<in> set b. word_ok x"
  shows "(\<exists>w \<in> set (join_words words tail). glob_lang w rs)
      \<longleftrightarrow> (\<exists>u v. rs = u @ v \<and> (\<exists>a \<in> set words. glob_lang a u) \<and> (\<exists>b \<in> set tail. glob_lang b v))"
    and "\<forall>w \<in> set (join_words words tail). \<forall>x \<in> set w. word_ok x"
proof -
  have P: "(glob_lang (fold push_word b a) rs \<longleftrightarrow> glob_lang (a @ b) rs) \<and> (\<forall>x \<in> set (fold push_word b a). word_ok x)"
    if "a \<in> set words" "b \<in> set tail" for a b using push_words_lang assms that by blast
  have "(\<exists>w \<in> set (join_words words tail). glob_lang w rs) \<longleftrightarrow> (\<exists>a \<in> set words. \<exists>b \<in> set tail. glob_lang (a @ b) rs)"
    using P by (auto simp: join_words_def)
  then show "(\<exists>w \<in> set (join_words words tail). glob_lang w rs)
      \<longleftrightarrow> (\<exists>u v. rs = u @ v \<and> (\<exists>a \<in> set words. glob_lang a u) \<and> (\<exists>b \<in> set tail. glob_lang b v))"
    unfolding lang_append by blast
  show "\<forall>w \<in> set (join_words words tail). \<forall>x \<in> set w. word_ok x" using P by (auto simp: join_words_def)
qed

text \<open>The words of single operators.\<close>

definition agrees :: "globWord list list \<Rightarrow> Regexp \<Rightarrow> bool" where
  "agrees ws re \<longleftrightarrow> (\<forall>w \<in> set ws. \<forall>x \<in> set w. word_ok x)
     \<and> (\<forall>rs. valid_text rs \<longrightarrow> ((\<exists>w \<in> set ws. glob_lang w rs) \<longleftrightarrow> re_lang re rs))"

lemma text_word_simps:
  "valid_text ls \<Longrightarrow> word_ok (text_word (encode ls))" "valid_text ls \<Longrightarrow> word_lang (text_word (encode ls)) rs \<longleftrightarrow> rs = ls"
  by (auto simp: text_word_def word_ok_def word_lang_def runes_of_encode)

lemma agrees_text: "valid_text ls \<Longrightarrow> agrees [[text_word (encode ls)]] (OpLiteral fc ls)"
  by (auto simp: agrees_def text_word_simps lang_single simp del: glob_lang.simps(2))

lemma star_singles: "(\<And>xs. xs \<in> set xss \<Longrightarrow> \<exists>r. xs = [r] \<and> P r) \<Longrightarrow> \<forall>r \<in> set (concat xss). P r"
  by fastforce

lemma star_chars: "(\<exists>xss. rs = concat xss \<and> (\<forall>xs \<in> set xss. \<exists>r. xs = [r] \<and> P r)) \<longleftrightarrow> (\<forall>r \<in> set rs. P r)"
proof
  assume "\<forall>r \<in> set rs. P r"
  then show "\<exists>xss. rs = concat xss \<and> (\<forall>xs \<in> set xss. \<exists>r. xs = [r] \<and> P r)"
    by (intro exI [of _ "map (\<lambda>r. [r]) rs"]) auto
qed fastforce

lemma filename_class:
  "valid_text rs \<Longrightarrow> globFilenameChar re \<Longrightarrow> re_lang re rs \<longleftrightarrow> (\<exists>r. rs = [r] \<and> r \<noteq> byte_of CHR ''/'')"
proof -
  assume v: "valid_text rs" and re: "globFilenameChar re"
  have "r \<le> 46 \<or> 48 \<le> r \<and> r \<le> MaxRune \<longleftrightarrow> r \<noteq> 47" if "valid_rune r" for r using that by (auto simp: valid_rune_def MaxRune_def)
  then show ?thesis using v re by (auto simp: globFilenameChar_def byte_of_def)
qed

lemma agrees_wild:
  "agrees (wild_word CHR ''?'' NL) OpAnyCharNotNL"
  "agrees (wild_word CHR ''*'' NL) (OpStar OpAnyCharNotNL)"
  "globFilenameChar re \<Longrightarrow> agrees (wild_word CHR ''?'' CHR ''/'') re"
  "globFilenameChar re \<Longrightarrow> agrees (wild_word CHR ''*'' CHR ''/'') (OpStar re)"
proof -
  show "agrees (wild_word CHR ''?'' NL) OpAnyCharNotNL"
    by (simp add: agrees_def wild_word_def word_ok_def lang_single word_lang_def byte_of_def del: glob_lang.simps(2))
  show "agrees (wild_word CHR ''*'' NL) (OpStar OpAnyCharNotNL)"
    by (auto simp: agrees_def wild_word_def word_ok_def lang_single word_lang_def star_chars byte_of_def simp del: glob_lang.simps(2))
  assume re: "globFilenameChar re"
  show "agrees (wild_word CHR ''?'' CHR ''/'') re"
    using filename_class [OF _ re] by (auto simp: agrees_def wild_word_def word_ok_def lang_single word_lang_def byte_of_def simp del: glob_lang.simps(2))
  have "re_lang (OpStar re) rs \<longleftrightarrow> (\<forall>r \<in> set rs. r \<noteq> byte_of CHR ''/'')" if v: "valid_text rs" for rs
  proof -
    have "re_lang (OpStar re) rs \<longleftrightarrow> (\<exists>xss. rs = concat xss \<and> (\<forall>xs \<in> set xss. \<exists>r. xs = [r] \<and> r \<noteq> byte_of CHR ''/''))"
    proof -
      have "re_lang re xs \<longleftrightarrow> (\<exists>r. xs = [r] \<and> r \<noteq> byte_of CHR ''/'')" if "rs = concat xss" "xs \<in> set xss" for xss xs
        using filename_class [OF _ re, of xs] that v by (auto simp: valid_text_def)
      then show ?thesis by auto
    qed
    then show ?thesis by (simp add: star_chars)
  qed
  then show "agrees (wild_word CHR ''*'' CHR ''/'') (OpStar re)"
    by (auto simp: agrees_def wild_word_def word_ok_def lang_single word_lang_def byte_of_def simp del: glob_lang.simps(2) re_lang.simps)
qed

lemma agrees_recursive:
  assumes "is_recursive sub" and "re_ok sub" shows "agrees (wild_word CHR ''r'' NUL) (OpQuest sub)"
proof -
  obtain fc ls where sub: "sub = OpConcat [OpStar OpAnyCharNotNL, OpLiteral fc ls]" "encode ls = ''/''"
  proof -
    obtain subs where s: "sub = OpConcat subs" using assms(1) by (cases sub) (auto simp: is_recursive_def)
    then obtain a b where ab: "subs = [a, b]" using assms(1) by (auto simp: is_recursive_def length_Suc_conv numeral_2_eq_2)
    then obtain fc ls where "b = OpLiteral fc ls" using assms(1) s by (cases b) (auto simp: is_recursive_def)
    then show ?thesis using that assms(1) s ab by (simp add: is_recursive_def)
  qed
  have "encode [byte_of CHR ''/''] = ''/''" "valid_text [byte_of CHR ''/'']" using encode_ascii [of "''/''"] by (simp_all add: byte_of_def)
  then have ls: "ls = [byte_of CHR ''/'']" using sub assms(2) encode_inj by simp
  have "re_lang (OpQuest sub) rs \<longleftrightarrow> rs = [] \<or> (\<exists>x. rs = x @ [byte_of CHR ''/''] \<and> byte_of NL \<notin> set x)" for rs
  proof -
    have "(\<forall>r \<in> set x. r \<noteq> byte_of NL) \<longleftrightarrow> byte_of NL \<notin> set x" for x by blast
    then show ?thesis by (simp add: sub(1) ls star_chars)
  qed
  then show ?thesis
    by (simp add: agrees_def wild_word_def word_ok_def lang_single word_lang_def del: glob_lang.simps(2) re_lang.simps)
qed

lemma agrees_class:
  assumes "class_words cs = Some ws" and "\<forall>(lo, hi) \<in> set cs. \<forall>r. lo \<le> r \<longrightarrow> r \<le> hi \<longrightarrow> valid_rune r"
  shows "agrees ws (OpCharClass cs)"
  using assms
proof (induction cs arbitrary: ws)
  case (Cons c cs)
  obtain lo hi where c: "c = (lo, hi)" by force
  obtain vs where vs: "class_words cs = Some vs" "ws = map (\<lambda>r. [text_word (enc r)]) [lo..<Suc hi] @ vs"
    using Cons.prems(1) c by (auto split: if_splits)
  have IH: "agrees vs (OpCharClass cs)" using Cons.IH [OF vs(1)] Cons.prems(2) by auto
  have one: "word_ok (text_word (enc r)) \<and> (\<forall>rs. glob_lang [text_word (enc r)] rs \<longleftrightarrow> rs = [r])" if "lo \<le> r" "r \<le> hi" for r
    using text_word_simps [of "[r]"] Cons.prems(2) c that by (auto simp: lang_single simp del: glob_lang.simps(2))
  show ?case
    unfolding agrees_def
  proof (intro conjI allI impI)
    show "\<forall>w \<in> set ws. \<forall>x \<in> set w. word_ok x" using IH one by (auto simp: vs(2) agrees_def)
    fix rs assume "valid_text rs"
    then have "(\<exists>w \<in> set vs. glob_lang w rs) \<longleftrightarrow> re_lang (OpCharClass cs) rs" using IH by (simp add: agrees_def)
    moreover have "(\<exists>w \<in> set (map (\<lambda>r. [text_word (enc r)]) [lo..<Suc hi]). glob_lang w rs) \<longleftrightarrow> (\<exists>r. rs = [r] \<and> lo \<le> r \<and> r \<le> hi)"
      using one by (auto simp: less_Suc_eq_le simp del: glob_lang.simps(2) upt_Suc)
    ultimately show "(\<exists>w \<in> set ws. glob_lang w rs) \<longleftrightarrow> re_lang (OpCharClass (c # cs)) rs"
      by (auto simp: vs(2) c simp del: glob_lang.simps(2) upt_Suc)
  qed
qed (simp add: agrees_def)

definition agrees_seq :: "globWord list list \<Rightarrow> (rune list \<Rightarrow> bool) \<Rightarrow> bool" where
  "agrees_seq ws L \<longleftrightarrow> (\<forall>w \<in> set ws. \<forall>x \<in> set w. word_ok x) \<and> (\<forall>rs. valid_text rs \<longrightarrow> ((\<exists>w \<in> set ws. glob_lang w rs) \<longleftrightarrow> L rs))"

lemma globWords_agrees:
  "globWords re = Some ws \<Longrightarrow> re_ok re \<Longrightarrow> agrees ws re"
  "concat_words words subs = Some ws \<Longrightarrow> \<forall>e \<in> set subs. re_ok e \<Longrightarrow> agrees_seq words L \<Longrightarrow>
     agrees_seq ws (\<lambda>rs. \<exists>u v. rs = u @ v \<and> L u \<and> re_seq subs v)"
  "alternate_words words subs = Some ws \<Longrightarrow> \<forall>e \<in> set subs. re_ok e \<Longrightarrow> agrees_seq words L \<Longrightarrow>
     agrees_seq ws (\<lambda>rs. L rs \<or> (\<exists>e \<in> set subs. re_lang e rs))"
proof (induction re and words subs and words subs arbitrary: ws and ws L and ws L rule: globWords_concat_words_alternate_words.induct)
  case 1
  then show ?case by (auto simp: agrees_def)
next
  case (2 fc ls)
  then show ?case using agrees_text by (auto split: if_splits)
next
  case 3
  then show ?case using agrees_wild(1) by simp
next
  case (4 sub)
  then show ?case using agrees_wild(2) agrees_wild(4) [of sub] by (auto split: if_splits)
next
  case (5 sub)
  let ?s = "case sub of OpCapture s \<Rightarrow> s | _ \<Rightarrow> sub"
  have "re_ok ?s" "re_lang (OpQuest ?s) = re_lang (OpQuest sub)" using 5(2) by (cases sub; simp add: fun_eq_iff)+
  then show ?case using 5(1) agrees_recursive [of ?s] by (auto simp: agrees_def split: if_splits)
next
  case (6 sub)
  then show ?case by (simp add: agrees_def)
next
  case (7 cs)
  then show ?case using agrees_wild(3) [of "OpCharClass cs"] agrees_class [of cs ws] by (auto simp: globFilenameChar_def split: if_splits)
next
  case (8 subs)
  have "agrees_seq [[]] (\<lambda>rs. rs = [])" by (simp add: agrees_seq_def)
  then show ?case using 8(1) [of ws "\<lambda>rs. rs = []"] 8(2,3) by (simp add: agrees_seq_def agrees_def)
next
  case (9 subs)
  have "agrees_seq [] (\<lambda>rs. False)" by (simp add: agrees_seq_def)
  then show ?case using 9(1) [of ws "\<lambda>rs. False"] 9(2,3) by (simp add: agrees_seq_def agrees_def)
next
  case (11 words)
  then show ?case by (simp add: agrees_seq_def)
next
  case (12 words sub subs)
  obtain tail where t: "globWords sub = Some tail" "concat_words (join_words words tail) subs = Some ws"
    "length words * length tail \<le> 64" "length (join_words words tail) \<le> 64"
    using 12(3) by (auto simp: Let_def split: option.splits if_splits)
  have tail: "agrees tail sub" using 12(1) [OF t(1)] 12(4) by simp
  have W: "\<forall>a \<in> set words. \<forall>x \<in> set a. word_ok x" "\<forall>b \<in> set tail. \<forall>x \<in> set b. word_ok x"
    using 12(5) tail by (simp_all add: agrees_seq_def agrees_def)
  have "agrees_seq (join_words words tail) (\<lambda>rs. \<exists>u v. rs = u @ v \<and> L u \<and> re_lang sub v)"
    unfolding agrees_seq_def
  proof (intro conjI allI impI)
    show "\<forall>w \<in> set (join_words words tail). \<forall>x \<in> set w. word_ok x" by (rule join_words_lang(2) [OF W])
    fix rs assume v: "valid_text rs"
    have "(\<exists>a \<in> set words. glob_lang a u) \<and> (\<exists>b \<in> set tail. glob_lang b w) \<longleftrightarrow> L u \<and> re_lang sub w" if "rs = u @ w" for u w
      using v that 12(5) tail by (simp add: agrees_seq_def agrees_def)
    then show "(\<exists>w \<in> set (join_words words tail). glob_lang w rs) \<longleftrightarrow> (\<exists>u v. rs = u @ v \<and> L u \<and> re_lang sub v)"
      unfolding join_words_lang(1) [OF W] by blast
  qed
  from 12(2) [OF t(1) _ refl _ t(2) _ this] t(3,4) 12(4)
  have "agrees_seq ws (\<lambda>rs. \<exists>x v. rs = x @ v \<and> (\<exists>u w. x = u @ w \<and> L u \<and> re_lang sub w) \<and> re_seq subs v)" by simp
  moreover have "(\<exists>x v. rs = x @ v \<and> (\<exists>u w. x = u @ w \<and> L u \<and> re_lang sub w) \<and> re_seq subs v)
      \<longleftrightarrow> (\<exists>u v. rs = u @ v \<and> L u \<and> re_seq (sub # subs) v)" for rs by (simp add: ex_simps) (metis append.assoc)
  ultimately show ?case by simp
next
  case (13 words)
  then show ?case by (simp add: agrees_seq_def)
next
  case (14 words sub subs)
  obtain tail where t: "globWords sub = Some tail" "alternate_words (words @ tail) subs = Some ws" "length (words @ tail) \<le> 64"
    using 14(3) by (auto simp: Let_def split: option.splits if_splits)
  have "agrees tail sub" using 14(1) [OF t(1)] 14(4) by simp
  then have "agrees_seq (words @ tail) (\<lambda>rs. L rs \<or> re_lang sub rs)" using 14(5) by (auto simp: agrees_seq_def agrees_def)
  from 14(2) [OF t(1) refl _ t(2) _ this] t(3) 14(4) show ?case by (simp add: agrees_seq_def disj_assoc)
qed simp_all

section \<open>The matcher\<close>

text \<open>The first branch of \<^verbatim>\<open>match\<close>: some sequence of words matches the name.\<close>

definition match_words :: "globWord list list \<Rightarrow> string \<Rightarrow> bool option" where
  "match_words words name = any_opt (\<lambda>w. matchGlobWords w name) words"

lemma match_words_spec:
  assumes "globWords body = Some words" and "\<forall>w \<in> set words. same_alphabet NUL w" and "re_ok body" and "valid_text rs"
  shows "match_words words (encode rs) = Some (re_lang body rs)"
proof -
  have a: "agrees words body" using globWords_agrees(1) [OF assms(1,3)] .
  then have "matchGlobWords w (encode rs) = Some (glob_lang w rs)" if "w \<in> set words" for w
    using matchGlobWords_spec [OF assms(4)] assms(2) that by (auto simp: agrees_def)
  then have "match_words words (encode rs) = Some (\<exists>w \<in> set words. glob_lang w rs)"
    unfolding match_words_def by (rule any_opt_Some)
  then show ?thesis using a assms(4) by (simp add: agrees_def)
qed

end
