(* ===== verification/Ay_GlobNfa.thy ===== *)
theory Ay_GlobNfa
  imports Ay_GlobRe
begin

text \<open>
  The other half of \<^verbatim>\<open>glob_match.go\<close>: patterns that are not turned into words are run as programs of
  \<^verbatim>\<open>regexp/syntax\<close>, all threads at once. \<^verbatim>\<open>add\<close> follows the instructions that consume nothing and marks
  what it has seen with an epoch; \<^verbatim>\<open>match\<close> keeps the list of threads from rune to rune. The theory shows
  that a name is matched exactly when some path of the program through a part of it ends in a match,
  whatever an earlier call left in the marks, and at the wrap-around of the epoch.
\<close>

datatype InstOp = InstAlt | InstAltMatch | InstCapture | InstEmptyWidth | InstMatch | InstFail | InstNop
  | InstRune | InstRune1 | InstRuneAny | InstRuneAnyNotNL

record Inst =
  in_Op :: InstOp
  in_Out :: nat
  in_Arg :: nat
  in_Rune :: "rune list"

record Prog =
  pr_Inst :: "Inst list"
  pr_Start :: nat

text \<open>The context of a place between two runes (\<^verbatim>\<open>syntax.EmptyOpContext\<close>); no rune is \<open>None\<close>.\<close>

definition IsWordChar :: "rune \<Rightarrow> bool" where
  "IsWordChar r \<longleftrightarrow> 97 \<le> r \<and> r \<le> 122 \<or> 65 \<le> r \<and> r \<le> 90 \<or> 48 \<le> r \<and> r \<le> 57 \<or> r = 95"

definition EmptyOpContext :: "rune option \<Rightarrow> rune option \<Rightarrow> u8" where
  "EmptyOpContext r1 r2 =
     (let left = (case r1 of None \<Rightarrow> 5 | Some r \<Rightarrow> if IsWordChar r then 0 else if r = 10 then 1 else 0);
          right = (case r2 of None \<Rightarrow> 10 | Some r \<Rightarrow> if IsWordChar r then 0 else if r = 10 then 2 else 0);
          word1 = (case r1 of None \<Rightarrow> False | Some r \<Rightarrow> IsWordChar r);
          word2 = (case r2 of None \<Rightarrow> False | Some r \<Rightarrow> IsWordChar r)
      in left OR right OR (if word1 \<noteq> word2 then 16 else 32))"

record globMatcher =
  gm_words :: "globWord list list"
  gm_prog :: Prog
  gm_seen :: "u32 list"
  gm_epoch :: u32

definition newEpoch :: "globMatcher \<Rightarrow> globMatcher" where
  "newEpoch m =
     (let epoch = gm_epoch m + 1
      in if epoch = 0 then m\<lparr>gm_seen := replicate (length (gm_seen m)) 0, gm_epoch := 1\<rparr> else m\<lparr>gm_epoch := epoch\<rparr>)"

text \<open>
  \<^verbatim>\<open>add\<close>; the fuel bounds the depth of the recursion, which the marks bound. A place outside the program
  is a panic.
\<close>

fun add :: "nat \<Rightarrow> u8 \<Rightarrow> nat \<Rightarrow> nat list \<times> globMatcher \<Rightarrow> (nat list \<times> globMatcher) option" where
  "add 0 context pc (dst, m) = None"
| "add (Suc fuel) context pc (dst, m) =
     (if length (gm_seen m) \<le> pc then None
      else if gm_seen m ! pc = gm_epoch m then Some (dst, m)
      else
        let m = m\<lparr>gm_seen := (gm_seen m)[pc := gm_epoch m]\<rparr>
        in if length (pr_Inst (gm_prog m)) \<le> pc then None
           else
             let inst = pr_Inst (gm_prog m) ! pc
             in case in_Op inst of
                  InstAlt \<Rightarrow> Option.bind (add fuel context (in_Out inst) (dst, m)) (add fuel context (in_Arg inst))
                | InstAltMatch \<Rightarrow> Option.bind (add fuel context (in_Out inst) (dst, m)) (add fuel context (in_Arg inst))
                | InstCapture \<Rightarrow> add fuel context (in_Out inst) (dst, m)
                | InstNop \<Rightarrow> add fuel context (in_Out inst) (dst, m)
                | InstEmptyWidth \<Rightarrow>
                    if of_nat (in_Arg inst) AND NOT context = 0 then add fuel context (in_Out inst) (dst, m) else Some (dst, m)
                | InstFail \<Rightarrow> Some (dst, m)
                | _ \<Rightarrow> Some (dst @ [pc], m))"

text \<open>Whether an instruction consumes the rune; \<^verbatim>\<open>MatchRune\<close> is that of \<^verbatim>\<open>regexp/syntax\<close>.\<close>

definition consumes :: "(Inst \<Rightarrow> rune \<Rightarrow> bool) \<Rightarrow> Inst \<Rightarrow> rune \<Rightarrow> bool" where
  "consumes MatchRune inst after =
     (case in_Op inst of
        InstRune \<Rightarrow> MatchRune inst after
      | InstRune1 \<Rightarrow> MatchRune inst after
      | InstRuneAny \<Rightarrow> True
      | InstRuneAnyNotNL \<Rightarrow> after \<noteq> 10
      | _ \<Rightarrow> False)"

text \<open>
  The loop over the current threads: whether a thread has matched, and the threads of the next place.
  \<open>here\<close> is the rune at the place, if there is one, and \<open>following\<close> the one after it.
\<close>

fun step_threads :: "(Inst \<Rightarrow> rune \<Rightarrow> bool) \<Rightarrow> nat \<Rightarrow> rune option \<Rightarrow> rune option \<Rightarrow> nat list \<Rightarrow> nat list \<times> globMatcher
    \<Rightarrow> (bool \<times> nat list \<times> globMatcher) option" where
  "step_threads MatchRune fuel here following [] (nxt, m) = Some (False, nxt, m)"
| "step_threads MatchRune fuel here following (pc # pcs) (nxt, m) =
     (if length (pr_Inst (gm_prog m)) \<le> pc then None
      else
        let inst = pr_Inst (gm_prog m) ! pc
        in if in_Op inst = InstMatch then Some (True, nxt, m)
           else case here of
             None \<Rightarrow> step_threads MatchRune fuel here following pcs (nxt, m)
           | Some after \<Rightarrow>
               if consumes MatchRune inst after
               then (case add fuel (EmptyOpContext (Some after) following) (in_Out inst) (nxt, m) of
                       None \<Rightarrow> None
                     | Some nm \<Rightarrow> step_threads MatchRune fuel here following pcs nm)
               else step_threads MatchRune fuel here following pcs (nxt, m))"

definition rune_at :: "string \<Rightarrow> nat \<Rightarrow> rune option" where
  "rune_at name pos = (if pos < length name then Some (fst (DecodeRuneInString (drop pos name))) else None)"

definition size_at :: "string \<Rightarrow> nat \<Rightarrow> nat" where
  "size_at name pos = (if pos < length name then snd (DecodeRuneInString (drop pos name)) else 0)"

function match_loop :: "(Inst \<Rightarrow> rune \<Rightarrow> bool) \<Rightarrow> nat \<Rightarrow> string \<Rightarrow> nat list \<Rightarrow> rune option \<Rightarrow> nat \<Rightarrow> globMatcher \<Rightarrow> (bool \<times> globMatcher) option" where
  "match_loop MatchRune fuel name current before pos m =
     (let after = rune_at name pos; size = size_at name pos
      in case add fuel (EmptyOpContext before after) (pr_Start (gm_prog m)) (current, m) of
           None \<Rightarrow> None
         | Some (current, m) \<Rightarrow>
             (case step_threads MatchRune fuel after (rune_at name (pos + size)) current ([], newEpoch m) of
                None \<Rightarrow> None
              | Some (matched, nxt, m) \<Rightarrow>
                  if matched then Some (True, m)
                  else if size = 0 then Some (False, m)
                  else match_loop MatchRune fuel name nxt after (pos + size) m))"
  by pat_completeness auto
termination
  by (relation "measure (\<lambda>(_, _, name, _, _, pos, _). length name - pos)") (auto simp: size_at_def split: if_splits)

declare match_loop.simps [simp del]

text \<open>\<^verbatim>\<open>match\<close>: the words when there are any (a slice of them that is not nil), the program otherwise.\<close>

definition match :: "(Inst \<Rightarrow> rune \<Rightarrow> bool) \<Rightarrow> globMatcher \<Rightarrow> string \<Rightarrow> (bool \<times> globMatcher) option" where
  "match MatchRune m name =
     (if gm_words m \<noteq> [] then map_option (\<lambda>b. (b, m)) (match_words (gm_words m) name)
      else match_loop MatchRune (Suc (length (pr_Inst (gm_prog m)))) name [] None 0 (newEpoch m))"

text \<open>
  \<^verbatim>\<open>newGlobMatcher\<close> on a parsed expression: words when the expression is anchored at both ends and the
  body can be turned into words with one alphabet, a compiled program otherwise. The compiler is that of
  \<^verbatim>\<open>regexp/syntax\<close>, \<open>epoch\<close> what \<^verbatim>\<open>chaosFirstEpoch\<close> gives. The nil program, whose first use is a panic, has no
  instruction.
\<close>

definition nil_prog :: Prog where "nil_prog = \<lparr>pr_Inst = [], pr_Start = 0\<rparr>"

definition compiled_matcher :: "(Regexp \<Rightarrow> Prog) \<Rightarrow> u32 \<Rightarrow> Regexp \<Rightarrow> globMatcher" where
  "compiled_matcher compile epoch re =
     \<lparr>gm_words = [], gm_prog = compile re, gm_seen = replicate (length (pr_Inst (compile re))) 0, gm_epoch = epoch\<rparr>"

definition newGlobMatcher :: "(Regexp \<Rightarrow> Prog) \<Rightarrow> u32 \<Rightarrow> Regexp \<Rightarrow> globMatcher option" where
  "newGlobMatcher compile epoch re =
     (case re of
        OpConcat [] \<Rightarrow> None
      | OpConcat (first # rest) \<Rightarrow>
          if first = OpBeginText \<and> last (first # rest) = OpEndText
          then (case globWords (OpConcat (butlast rest)) of
                  None \<Rightarrow> Some (compiled_matcher compile epoch re)
                | Some words \<Rightarrow>
                    if \<forall>w \<in> set words. same_alphabet NUL w
                    then Some \<lparr>gm_words = words, gm_prog = nil_prog, gm_seen = [], gm_epoch = epoch\<rparr>
                    else Some (compiled_matcher compile epoch re))
          else Some (compiled_matcher compile epoch re)
      | _ \<Rightarrow> Some (compiled_matcher compile epoch re))"

section \<open>Paths of a program\<close>

definition eps :: "Prog \<Rightarrow> u8 \<Rightarrow> nat \<Rightarrow> nat set" where
  "eps prog context pc =
     (if length (pr_Inst prog) \<le> pc then {}
      else let inst = pr_Inst prog ! pc
           in case in_Op inst of
                InstAlt \<Rightarrow> {in_Out inst, in_Arg inst}
              | InstAltMatch \<Rightarrow> {in_Out inst, in_Arg inst}
              | InstCapture \<Rightarrow> {in_Out inst}
              | InstNop \<Rightarrow> {in_Out inst}
              | InstEmptyWidth \<Rightarrow> if of_nat (in_Arg inst) AND NOT context = 0 then {in_Out inst} else {}
              | _ \<Rightarrow> {})"

definition is_thread :: "Prog \<Rightarrow> nat \<Rightarrow> bool" where
  "is_thread prog pc \<longleftrightarrow> in_Op (pr_Inst prog ! pc) \<in> {InstMatch, InstRune, InstRune1, InstRuneAny, InstRuneAnyNotNL}"

definition prog_ok :: "Prog \<Rightarrow> bool" where
  "prog_ok prog \<longleftrightarrow> pr_Start prog < length (pr_Inst prog) \<and>
     (\<forall>inst \<in> set (pr_Inst prog). (in_Op inst \<notin> {InstMatch, InstFail} \<longrightarrow> in_Out inst < length (pr_Inst prog))
        \<and> (in_Op inst \<in> {InstAlt, InstAltMatch} \<longrightarrow> in_Arg inst < length (pr_Inst prog)))"

definition place_context :: "rune list \<Rightarrow> nat \<Rightarrow> u8" where
  "place_context rs i = EmptyOpContext (if i = 0 then None else at_opt rs (i - 1)) (at_opt rs i)"

inductive runs :: "Prog \<Rightarrow> (Inst \<Rightarrow> rune \<Rightarrow> bool) \<Rightarrow> rune list \<Rightarrow> nat \<Rightarrow> nat \<Rightarrow> bool" for prog MatchRune rs where
  start: "i \<le> length rs \<Longrightarrow> runs prog MatchRune rs i (pr_Start prog)"
| free: "runs prog MatchRune rs i pc \<Longrightarrow> pc' \<in> eps prog (place_context rs i) pc \<Longrightarrow> runs prog MatchRune rs i pc'"
| eat: "runs prog MatchRune rs i pc \<Longrightarrow> i < length rs \<Longrightarrow> pc < length (pr_Inst prog) \<Longrightarrow>
     consumes MatchRune (pr_Inst prog ! pc) (rs ! i) \<Longrightarrow> runs prog MatchRune rs (Suc i) (in_Out (pr_Inst prog ! pc))"

definition accepts :: "Prog \<Rightarrow> (Inst \<Rightarrow> rune \<Rightarrow> bool) \<Rightarrow> rune list \<Rightarrow> nat \<Rightarrow> bool" where
  "accepts prog MatchRune rs i \<longleftrightarrow> (\<exists>pc < length (pr_Inst prog). runs prog MatchRune rs i pc \<and> in_Op (pr_Inst prog ! pc) = InstMatch)"

section \<open>The marks\<close>

definition marked :: "globMatcher \<Rightarrow> nat set" where
  "marked m = {pc. pc < length (gm_seen m) \<and> gm_seen m ! pc = gm_epoch m}"

definition matcher_ok :: "globMatcher \<Rightarrow> bool" where
  "matcher_ok m \<longleftrightarrow> prog_ok (gm_prog m) \<and> length (gm_seen m) = length (pr_Inst (gm_prog m)) \<and> (\<forall>e \<in> set (gm_seen m). e \<le> gm_epoch m)"

lemma newEpoch_spec:
  assumes "matcher_ok m"
  shows "matcher_ok (newEpoch m)" and "marked (newEpoch m) = {}" and "gm_prog (newEpoch m) = gm_prog m"
proof -
  have le: "e \<le> gm_epoch m" if "e \<in> set (gm_seen m)" for e using assms that by (simp add: matcher_ok_def)
  have lt: "e < gm_epoch m + 1" if "e \<in> set (gm_seen m)" "gm_epoch m + 1 \<noteq> 0" for e
    using le [OF that(1)] word_less_plus_one(1) [OF that(2)] by simp
  show "matcher_ok (newEpoch m)"
    using assms lt by (auto simp: matcher_ok_def newEpoch_def Let_def intro: less_imp_le)
  show "marked (newEpoch m) = {}"
  proof (cases "gm_epoch m + 1 = 0")
    case False
    then have "gm_seen m ! pc \<noteq> gm_epoch m + 1" if "pc < length (gm_seen m)" for pc using lt [OF nth_mem [OF that]] by auto
    then show ?thesis using False by (auto simp: marked_def newEpoch_def Let_def)
  qed (auto simp: marked_def newEpoch_def Let_def)
  show "gm_prog (newEpoch m) = gm_prog m" by (simp add: newEpoch_def Let_def)
qed

section \<open>Following the instructions that consume nothing\<close>

text \<open>What a call of \<^verbatim>\<open>add\<close> with these arguments leaves behind.\<close>

definition added :: "u8 \<Rightarrow> nat set \<Rightarrow> nat list \<times> globMatcher \<Rightarrow> nat list \<times> globMatcher \<Rightarrow> bool" where
  "added context Q a b \<longleftrightarrow>
     matcher_ok (snd b) \<and> gm_prog (snd b) = gm_prog (snd a) \<and> gm_epoch (snd b) = gm_epoch (snd a)
     \<and> marked (snd a) \<subseteq> marked (snd b) \<and> Q \<subseteq> marked (snd b)
     \<and> (\<forall>R. Q \<subseteq> R \<longrightarrow> (\<forall>q \<in> R. eps (gm_prog (snd a)) context q \<subseteq> R) \<longrightarrow> marked (snd b) \<subseteq> marked (snd a) \<union> R)
     \<and> (\<forall>q \<in> marked (snd b) - marked (snd a). eps (gm_prog (snd a)) context q \<subseteq> marked (snd b))
     \<and> set (fst b) = set (fst a) \<union> {q \<in> marked (snd b) - marked (snd a). is_thread (gm_prog (snd a)) q}"

lemma added_facts:
  assumes "added c Q a b"
  shows "matcher_ok (snd b)" and "gm_prog (snd b) = gm_prog (snd a)" and "gm_epoch (snd b) = gm_epoch (snd a)"
    and "marked (snd a) \<subseteq> marked (snd b)" and "Q \<subseteq> marked (snd b)"
    and "\<And>R. Q \<subseteq> R \<Longrightarrow> \<forall>q \<in> R. eps (gm_prog (snd a)) c q \<subseteq> R \<Longrightarrow> marked (snd b) \<subseteq> marked (snd a) \<union> R"
    and "\<And>q. q \<in> marked (snd b) \<Longrightarrow> q \<notin> marked (snd a) \<Longrightarrow> eps (gm_prog (snd a)) c q \<subseteq> marked (snd b)"
    and "set (fst b) = set (fst a) \<union> {q \<in> marked (snd b) - marked (snd a). is_thread (gm_prog (snd a)) q}"
  using assms by (simp_all add: added_def)

lemma addedI:
  assumes "matcher_ok (snd b)" and "gm_prog (snd b) = gm_prog (snd a)" and "gm_epoch (snd b) = gm_epoch (snd a)"
    and "marked (snd a) \<subseteq> marked (snd b)" and "Q \<subseteq> marked (snd b)"
    and "\<And>R. Q \<subseteq> R \<Longrightarrow> \<forall>q \<in> R. eps (gm_prog (snd a)) c q \<subseteq> R \<Longrightarrow> marked (snd b) \<subseteq> marked (snd a) \<union> R"
    and "\<And>q. q \<in> marked (snd b) \<Longrightarrow> q \<notin> marked (snd a) \<Longrightarrow> eps (gm_prog (snd a)) c q \<subseteq> marked (snd b)"
    and "set (fst b) = set (fst a) \<union> {q \<in> marked (snd b) - marked (snd a). is_thread (gm_prog (snd a)) q}"
  shows "added c Q a b"
  unfolding added_def using assms by (intro conjI allI impI ballI) simp_all

lemma added_trans:
  assumes xy: "added c P x y" and yz: "added c Q y z"
  shows "added c (P \<union> Q) x z"
proof (rule addedI)
  note a = added_facts [OF xy] and b = added_facts [OF yz]
  show "matcher_ok (snd z)" by (rule b(1))
  show "gm_prog (snd z) = gm_prog (snd x)" using a(2) b(2) by simp
  show "gm_epoch (snd z) = gm_epoch (snd x)" using a(3) b(3) by simp
  show "marked (snd x) \<subseteq> marked (snd z)" using a(4) b(4) by (rule subset_trans)
  show "P \<union> Q \<subseteq> marked (snd z)" using a(5) b(4,5) by blast
  show "marked (snd z) \<subseteq> marked (snd x) \<union> R" if "P \<union> Q \<subseteq> R" and R: "\<forall>q \<in> R. eps (gm_prog (snd x)) c q \<subseteq> R" for R
    using a(6) [of R] b(6) [of R] a(2) that by auto
  show "eps (gm_prog (snd x)) c q \<subseteq> marked (snd z)" if "q \<in> marked (snd z)" "q \<notin> marked (snd x)" for q
    using a(7) [of q] b(7) [of q] b(4) a(2) that by (cases "q \<in> marked (snd y)") auto
  show "set (fst z) = set (fst x) \<union> {q \<in> marked (snd z) - marked (snd x). is_thread (gm_prog (snd x)) q}"
    unfolding a(8) b(8) a(2) using a(4) b(4) by blast
qed

lemma added_refl: "matcher_ok (snd a) \<Longrightarrow> Q \<subseteq> marked (snd a) \<Longrightarrow> added c Q a a"
  by (auto simp: added_def)

definition mark :: "nat \<Rightarrow> globMatcher \<Rightarrow> globMatcher" where
  "mark pc m = m\<lparr>gm_seen := (gm_seen m)[pc := gm_epoch m]\<rparr>"

lemma mark_spec:
  assumes "matcher_ok m" and "pc < length (pr_Inst (gm_prog m))"
  shows "matcher_ok (mark pc m)" and "marked (mark pc m) = insert pc (marked m)" and "gm_prog (mark pc m) = gm_prog m"
    and "gm_epoch (mark pc m) = gm_epoch m"
proof -
  have len: "length (gm_seen m) = length (pr_Inst (gm_prog m))" using assms(1) by (simp add: matcher_ok_def)
  show "matcher_ok (mark pc m)"
    using assms set_update_subset_insert [of "gm_seen m" pc "gm_epoch m"] by (auto simp: matcher_ok_def mark_def)
  show "marked (mark pc m) = insert pc (marked m)"
    using assms(2) len by (auto simp: marked_def mark_def nth_list_update)
qed (simp_all add: mark_def)

text \<open>A new mark, followed by what the instruction leads to.\<close>

lemma added_mark:
  assumes ok: "matcher_ok m" "pc < length (pr_Inst (gm_prog m))" and new: "pc \<notin> marked m" and plain: "\<not> is_thread (gm_prog m) pc"
    and b: "added c (eps (gm_prog m) c pc) (dst, mark pc m) b"
  shows "added c {pc} (dst, m) b"
proof (rule addedI)
  note k = mark_spec [OF ok] and f = added_facts [OF b, unfolded fst_conv snd_conv mark_spec [OF ok]]
  show "matcher_ok (snd b)" "gm_prog (snd b) = gm_prog (snd (dst, m))" "gm_epoch (snd b) = gm_epoch (snd (dst, m))" "{pc} \<subseteq> marked (snd b)"
    using f(1-4) by simp_all
  show "marked (snd (dst, m)) \<subseteq> marked (snd b)" using f(4) by simp
  show "marked (snd b) \<subseteq> marked (snd (dst, m)) \<union> R" if "{pc} \<subseteq> R" "\<forall>q \<in> R. eps (gm_prog (snd (dst, m))) c q \<subseteq> R" for R
    using f(6) [of R] that by auto
  show "eps (gm_prog (snd (dst, m))) c q \<subseteq> marked (snd b)" if "q \<in> marked (snd b)" "q \<notin> marked (snd (dst, m))" for q
    using f(5) f(7) [of q] that by (cases "q = pc") auto
  show "set (fst b) = set (fst (dst, m)) \<union> {q \<in> marked (snd b) - marked (snd (dst, m)). is_thread (gm_prog (snd (dst, m))) q}"
    using f(8) plain by auto
qed

lemma added_thread:
  assumes ok: "matcher_ok m" "pc < length (pr_Inst (gm_prog m))" and new: "pc \<notin> marked m" and thread: "is_thread (gm_prog m) pc"
  shows "added c {pc} (dst, m) (dst @ [pc], mark pc m)"
proof -
  have "eps (gm_prog m) c pc = {}" using thread by (auto simp: is_thread_def eps_def Let_def)
  then show ?thesis using thread new by (intro addedI) (auto simp: mark_spec [OF ok])
qed

definition unmarked :: "globMatcher \<Rightarrow> nat set" where
  "unmarked m = {..< length (pr_Inst (gm_prog m))} - marked m"

lemma unmarked_finite [simp]: "finite (unmarked m)"
  by (simp add: unmarked_def)

lemma unmarked_mark:
  assumes "matcher_ok m" and "pc < length (pr_Inst (gm_prog m))" and "pc \<notin> marked m"
  shows "card (unmarked (mark pc m)) < card (unmarked m)"
  using assms by (intro psubset_card_mono) (auto simp: unmarked_def mark_spec)

lemma unmarked_added: "added c Q a b \<Longrightarrow> card (unmarked (snd b)) \<le> card (unmarked (snd a))"
  by (intro card_mono) (auto simp: unmarked_def added_facts dest: added_facts(4))

lemma prog_ok_facts:
  assumes "prog_ok prog" and "pc < length (pr_Inst prog)"
  shows "pc' \<in> eps prog c pc \<Longrightarrow> pc' < length (pr_Inst prog)"
    and "in_Op (pr_Inst prog ! pc) \<notin> {InstMatch, InstFail} \<Longrightarrow> in_Out (pr_Inst prog ! pc) < length (pr_Inst prog)"
    and "in_Op (pr_Inst prog ! pc) \<in> {InstAlt, InstAltMatch} \<Longrightarrow> in_Arg (pr_Inst prog ! pc) < length (pr_Inst prog)"
proof -
  have i: "pr_Inst prog ! pc \<in> set (pr_Inst prog)" using assms(2) by simp
  show out: "in_Op (pr_Inst prog ! pc) \<notin> {InstMatch, InstFail} \<Longrightarrow> in_Out (pr_Inst prog ! pc) < length (pr_Inst prog)"
    and arg: "in_Op (pr_Inst prog ! pc) \<in> {InstAlt, InstAltMatch} \<Longrightarrow> in_Arg (pr_Inst prog ! pc) < length (pr_Inst prog)"
    using assms(1) i unfolding prog_ok_def by blast+
  show "pc' \<in> eps prog c pc \<Longrightarrow> pc' < length (pr_Inst prog)"
    using out arg assms(2) by (auto simp: eps_def Let_def split: InstOp.splits if_splits)
qed

text \<open>\<open>added\<close> from the step of a call: every instruction that consumes nothing leads to the calls for \<open>eps\<close>.\<close>

lemma add_unfold:
  assumes "pc < length (pr_Inst (gm_prog m))" and "length (gm_seen m) = length (pr_Inst (gm_prog m))" and "pc \<notin> marked m"
  shows "add (Suc fuel) c pc (dst, m) =
    (let inst = pr_Inst (gm_prog m) ! pc
     in if is_thread (gm_prog m) pc then Some (dst @ [pc], mark pc m)
        else if eps (gm_prog m) c pc = {} then Some (dst, mark pc m)
        else if in_Op inst \<in> {InstAlt, InstAltMatch}
        then Option.bind (add fuel c (in_Out inst) (dst, mark pc m)) (add fuel c (in_Arg inst))
        else add fuel c (in_Out inst) (dst, mark pc m))"
  using assms by (cases "in_Op (pr_Inst (gm_prog m) ! pc)") (simp_all add: marked_def mark_def is_thread_def eps_def Let_def)

lemma add_spec:
  assumes "matcher_ok m" and "pc < length (pr_Inst (gm_prog m))" and "card (unmarked m) < fuel"
  shows "\<exists>b. add fuel c pc (dst, m) = Some b \<and> added c {pc} (dst, m) b"
  using assms
proof (induction fuel arbitrary: pc dst m)
  case (Suc fuel)
  note ok = Suc.prems(1,2)
  have len: "length (gm_seen m) = length (pr_Inst (gm_prog m))" and prog: "prog_ok (gm_prog m)" using ok by (simp_all add: matcher_ok_def)
  let ?inst = "pr_Inst (gm_prog m) ! pc"
  show ?case
  proof (cases "pc \<in> marked m")
    case True
    then have "add (Suc fuel) c pc (dst, m) = Some (dst, m)" by (simp add: marked_def)
    then show ?thesis using True ok(1) by (auto intro: added_refl)
  next
    case False
    note u = add_unfold [OF ok(2) len False, of fuel c dst] and k = mark_spec [OF ok]
    have less: "card (unmarked (mark pc m)) < fuel" using unmarked_mark [OF ok False] Suc.prems(3) by simp
    have next_call: "\<exists>b. add fuel c q (d, m') = Some b \<and> added c {q} (d, m') b"
      if "matcher_ok m'" "gm_prog m' = gm_prog m" "card (unmarked m') \<le> card (unmarked (mark pc m))" "q < length (pr_Inst (gm_prog m))" for q d m'
      using Suc.IH [of m' q d] that less by simp
    consider (thread) "is_thread (gm_prog m) pc" | (stop) "\<not> is_thread (gm_prog m) pc" "eps (gm_prog m) c pc = {}"
      | (both) "\<not> is_thread (gm_prog m) pc" "eps (gm_prog m) c pc \<noteq> {}" "in_Op ?inst \<in> {InstAlt, InstAltMatch}"
      | (out) "\<not> is_thread (gm_prog m) pc" "eps (gm_prog m) c pc \<noteq> {}" "in_Op ?inst \<notin> {InstAlt, InstAltMatch}"
      by blast
    then show ?thesis
    proof cases
      case thread
      then show ?thesis using u added_thread [OF ok False thread] by simp
    next
      case stop
      have "added c {} (dst, mark pc m) (dst, mark pc m)" by (rule added_refl) (simp_all add: k)
      then show ?thesis using u stop added_mark [OF ok False stop(1)] by simp
    next
      case both
      have e: "eps (gm_prog m) c pc = {in_Out ?inst} \<union> {in_Arg ?inst}" using both(3) ok(2) by (auto simp: eps_def Let_def)
      obtain d m1 where 1: "add fuel c (in_Out ?inst) (dst, mark pc m) = Some (d, m1)" "added c {in_Out ?inst} (dst, mark pc m) (d, m1)"
        using next_call [of "mark pc m" "in_Out ?inst" dst] k prog_ok_facts(2) [OF prog ok(2)] both(3) by auto
      note f = added_facts [OF 1(2), unfolded fst_conv snd_conv k]
      obtain b where 2: "add fuel c (in_Arg ?inst) (d, m1) = Some b" "added c {in_Arg ?inst} (d, m1) b"
        using next_call [of m1 "in_Arg ?inst" d] f(1,2) unmarked_added [OF 1(2)] prog_ok_facts(3) [OF prog ok(2) both(3)] by auto
      have "added c (eps (gm_prog m) c pc) (dst, mark pc m) b" unfolding e by (rule added_trans [OF 1(2) 2(2)])
      then show ?thesis using u both 1(1) 2(1) added_mark [OF ok False both(1)] by simp
    next
      case out
      have e: "eps (gm_prog m) c pc = {in_Out ?inst}" "in_Op ?inst \<notin> {InstMatch, InstFail}"
        using out(2,3) ok(2) by (auto simp: eps_def Let_def split: InstOp.splits if_splits)
      obtain b where "add fuel c (in_Out ?inst) (dst, mark pc m) = Some b" "added c {in_Out ?inst} (dst, mark pc m) b"
        using next_call [of "mark pc m" "in_Out ?inst" dst] k prog_ok_facts(2) [OF prog ok(2) e(2)] by auto
      then show ?thesis using u out e added_mark [OF ok False out(1)] by simp
    qed
  qed
qed simp

lemma unmarked_fuel: "card (unmarked m) < Suc (length (pr_Inst (gm_prog m)))"
proof -
  have "card (unmarked m) \<le> card {..< length (pr_Inst (gm_prog m))}" by (intro card_mono) (auto simp: unmarked_def)
  then show ?thesis by simp
qed

section \<open>One step of all threads\<close>

definition outs :: "Prog \<Rightarrow> (Inst \<Rightarrow> rune \<Rightarrow> bool) \<Rightarrow> rune option \<Rightarrow> nat set \<Rightarrow> nat set" where
  "outs prog MatchRune here pcs =
     {in_Out (pr_Inst prog ! pc) |pc r. pc \<in> pcs \<and> here = Some r \<and> consumes MatchRune (pr_Inst prog ! pc) r}"

lemma outs_insert:
  "outs prog MR here (insert pc pcs) =
    (case here of None \<Rightarrow> {} | Some r \<Rightarrow> if consumes MR (pr_Inst prog ! pc) r then {in_Out (pr_Inst prog ! pc)} else {}) \<union> outs prog MR here pcs"
  by (auto simp: outs_def split: option.splits)

definition has_match :: "Prog \<Rightarrow> nat set \<Rightarrow> bool" where
  "has_match prog pcs \<longleftrightarrow> (\<exists>pc \<in> pcs. in_Op (pr_Inst prog ! pc) = InstMatch)"

lemma step_threads_spec:
  assumes "matcher_ok m" and "\<forall>pc \<in> set pcs. pc < length (pr_Inst (gm_prog m))" and "fuel = Suc (length (pr_Inst (gm_prog m)))"
    and "c = EmptyOpContext here following"
  shows "\<exists>nxt' m'. step_threads MR fuel here following pcs (nxt, m) = Some (has_match (gm_prog m) (set pcs), nxt', m')
    \<and> matcher_ok m' \<and> gm_prog m' = gm_prog m
    \<and> (\<not> has_match (gm_prog m) (set pcs) \<longrightarrow> added c (outs (gm_prog m) MR here (set pcs)) (nxt, m) (nxt', m'))"
  using assms(1-3)
proof (induction pcs arbitrary: nxt m)
  case Nil
  then show ?case by (auto simp: has_match_def outs_def intro: added_refl)
next
  case (Cons pc pcs)
  let ?p = "gm_prog m" let ?inst = "pr_Inst ?p ! pc"
  have pc: "pc < length (pr_Inst ?p)" and prog: "prog_ok ?p" using Cons.prems by (simp_all add: matcher_ok_def)
  consider (match) "in_Op ?inst = InstMatch"
    | (skip) "in_Op ?inst \<noteq> InstMatch" "\<forall>r. here = Some r \<longrightarrow> \<not> consumes MR ?inst r"
    | (eat) r where "in_Op ?inst \<noteq> InstMatch" "here = Some r" "consumes MR ?inst r" by blast
  then show ?case
  proof cases
    case match
    then show ?thesis using pc Cons.prems(1) by (simp add: has_match_def Let_def)
  next
    case skip
    have "step_threads MR fuel here following (pc # pcs) (nxt, m) = step_threads MR fuel here following pcs (nxt, m)"
      using skip pc by (auto simp: Let_def split: option.splits)
    moreover have "has_match ?p (set (pc # pcs)) = has_match ?p (set pcs)" using skip by (simp add: has_match_def)
    moreover have "outs ?p MR here (set (pc # pcs)) = outs ?p MR here (set pcs)" using skip by (auto simp: outs_insert split: option.splits)
    ultimately show ?thesis using Cons.IH [OF Cons.prems(1) _ Cons.prems(3)] Cons.prems(2) by simp
  next
    case eat
    have o: "in_Out ?inst < length (pr_Inst ?p)"
      using prog_ok_facts(2) [OF prog pc] eat by (cases "in_Op ?inst") (auto simp: consumes_def)
    obtain d m1 where 1: "add fuel c (in_Out ?inst) (nxt, m) = Some (d, m1)" "added c {in_Out ?inst} (nxt, m) (d, m1)"
      using add_spec [OF Cons.prems(1) o, of fuel c nxt] Cons.prems(3) unmarked_fuel by auto
    note f = added_facts [OF 1(2), unfolded fst_conv snd_conv]
    obtain nxt' m' where 2: "step_threads MR fuel here following pcs (d, m1) = Some (has_match ?p (set pcs), nxt', m')"
      "matcher_ok m'" "gm_prog m' = ?p" "\<not> has_match ?p (set pcs) \<Longrightarrow> added c (outs ?p MR here (set pcs)) (d, m1) (nxt', m')"
      using Cons.IH [OF f(1), of d] f(2) Cons.prems(2,3) by auto
    have "step_threads MR fuel here following (pc # pcs) (nxt, m) = Some (has_match ?p (set (pc # pcs)), nxt', m')"
      using eat pc 1(1) 2(1) assms(4) by (simp add: Let_def has_match_def)
    moreover have "has_match ?p (set (pc # pcs)) = has_match ?p (set pcs)" using eat by (simp add: has_match_def)
    moreover have "outs ?p MR here (set (pc # pcs)) = {in_Out ?inst} \<union> outs ?p MR here (set pcs)" using eat by (simp add: outs_insert)
    ultimately show ?thesis using 2(2-) added_trans [OF 1(2)] by auto
  qed
qed

section \<open>The loop over the name\<close>

text \<open>Where the loop stands: \<open>i\<close> runes lie before the byte \<open>pos\<close>.\<close>

definition stands :: "string \<Rightarrow> nat \<Rightarrow> nat \<Rightarrow> bool" where
  "stands name pos i \<longleftrightarrow> pos \<le> length name \<and> i \<le> length (runes_of name) \<and> runes_of (drop pos name) = drop i (runes_of name)"

lemma runes_of_step:
  "s \<noteq> [] \<Longrightarrow> runes_of s = fst (DecodeRuneInString s) # runes_of (drop (snd (DecodeRuneInString s)) s)"
  using decode_size [of s] by (cases s) (auto simp: split_def Let_def drop_Cons')

lemma runes_of_Nil_iff: "runes_of s = [] \<longleftrightarrow> s = []"
  by (cases s) (simp_all add: split_def Let_def)

lemma stands_rune:
  assumes "stands name pos i"
  shows "rune_at name pos = at_opt (runes_of name) i" and "size_at name pos = 0 \<longleftrightarrow> i = length (runes_of name)"
    and "i < length (runes_of name) \<Longrightarrow> stands name (pos + size_at name pos) (Suc i)"
    and "i < length (runes_of name) \<Longrightarrow> rune_at name (pos + size_at name pos) = at_opt (runes_of name) (Suc i)"
proof -
  note s = assms [unfolded stands_def]
  have iff: "pos < length name \<longleftrightarrow> i < length (runes_of name)"
    using s runes_of_Nil_iff [of "drop pos name"] by (simp add: not_less le_antisym) (metis drop_eq_Nil not_less)
  have step: "runes_of (drop pos name) = fst (DecodeRuneInString (drop pos name)) # runes_of (drop (pos + size_at name pos) name)"
    if "pos < length name"
    using runes_of_step [of "drop pos name"] that by (simp add: size_at_def add.commute)
  have cons: "drop i (runes_of name) = runes_of name ! i # drop (Suc i) (runes_of name)" if "i < length (runes_of name)"
    by (rule Cons_nth_drop_Suc [symmetric]) (rule that)
  show r: "rune_at name pos = at_opt (runes_of name) i"
    using iff step cons s by (auto simp: rune_at_def at_opt_def)
  have size: "0 < size_at name pos \<and> pos + size_at name pos \<le> length name" if "pos < length name"
    using decode_size [of "drop pos name"] that by (auto simp: size_at_def)
  show "size_at name pos = 0 \<longleftrightarrow> i = length (runes_of name)"
    using size iff s by (auto simp: size_at_def)
  show st: "stands name (pos + size_at name pos) (Suc i)" if "i < length (runes_of name)"
    using that size iff step cons s by (simp add: stands_def)
  show "rune_at name (pos + size_at name pos) = at_opt (runes_of name) (Suc i)" if "i < length (runes_of name)"
  proof -
    note t = st [OF that, unfolded stands_def]
    have "pos + size_at name pos < length name \<longleftrightarrow> Suc i < length (runes_of name)"
      using t runes_of_Nil_iff [of "drop (pos + size_at name pos) name"] by (simp add: not_less le_antisym) (metis drop_eq_Nil not_less)
    moreover have "runes_of (drop (pos + size_at name pos) name) ! 0 = runes_of name ! Suc i" if "Suc i < length (runes_of name)"
      using t that by simp
    ultimately show ?thesis
      using runes_of_step [of "drop (pos + size_at name pos) name"] by (auto simp: rune_at_def at_opt_def)
  qed
qed

text \<open>
  What holds at the head of the loop: the marks are places reached here by eating the rune before, they
  are closed under the instructions that consume nothing, and the threads are the marked ones.
\<close>

definition loop_inv :: "(Inst \<Rightarrow> rune \<Rightarrow> bool) \<Rightarrow> rune list \<Rightarrow> nat \<Rightarrow> nat list \<Rightarrow> globMatcher \<Rightarrow> bool" where
  "loop_inv MR rs i current m \<longleftrightarrow>
     matcher_ok m \<and> set current = {q \<in> marked m. is_thread (gm_prog m) q}
     \<and> (\<forall>q \<in> marked m. runs (gm_prog m) MR rs i q \<and> eps (gm_prog m) (place_context rs i) q \<subseteq> marked m)
     \<and> (\<forall>j q. i = Suc j \<longrightarrow> runs (gm_prog m) MR rs j q \<longrightarrow> j < length rs \<longrightarrow> q < length (pr_Inst (gm_prog m)) \<longrightarrow>
          consumes MR (pr_Inst (gm_prog m) ! q) (rs ! j) \<longrightarrow> in_Out (pr_Inst (gm_prog m) ! q) \<in> marked m)"

lemma runs_in_closed:
  assumes "runs prog MR rs i q" and "pr_Start prog \<in> M" and "\<And>q. q \<in> M \<Longrightarrow> eps prog (place_context rs i) q \<subseteq> M"
    and "\<And>j q. i = Suc j \<Longrightarrow> runs prog MR rs j q \<Longrightarrow> j < length rs \<Longrightarrow> q < length (pr_Inst prog) \<Longrightarrow>
      consumes MR (pr_Inst prog ! q) (rs ! j) \<Longrightarrow> in_Out (pr_Inst prog ! q) \<in> M"
  shows "q \<in> M"
  using assms(1,3,4)
proof (induction rule: runs.induct)
  case (start i)
  show ?case by (rule assms(2))
next
  case (free i pc pc')
  then show ?case by blast
next
  case (eat i pc)
  then show ?case by blast
qed

lemma runs_bounded: "runs prog MR rs i q \<Longrightarrow> prog_ok prog \<Longrightarrow> q < length (pr_Inst prog)"
proof (induction rule: runs.induct)
  case (eat i pc)
  then show ?case using prog_ok_facts(2) [of prog pc] by (cases "in_Op (pr_Inst prog ! pc)") (auto simp: consumes_def)
qed (auto simp: prog_ok_def dest: prog_ok_facts(1) [rotated 2, unfolded prog_ok_def])

lemma marked_after_start:
  assumes inv: "loop_inv MR rs i current m" and i: "i \<le> length rs"
    and a: "added (place_context rs i) {pr_Start (gm_prog m)} (current, m) (current', m')"
  shows "marked m' = {q. runs (gm_prog m) MR rs i q}" and "set current' = {q. runs (gm_prog m) MR rs i q \<and> is_thread (gm_prog m) q}"
proof -
  note f = added_facts [OF a, unfolded fst_conv snd_conv] and v = inv [unfolded loop_inv_def]
  let ?R = "{q. runs (gm_prog m) MR rs i q}"
  show eq: "marked m' = ?R"
  proof
    have "marked m' \<subseteq> marked m \<union> ?R"
      by (rule f(6)) (use i in \<open>auto intro: runs.start runs.free\<close>)
    then show "marked m' \<subseteq> ?R" using v by blast
    have closed: "eps (gm_prog m) (place_context rs i) q \<subseteq> marked m'" if "q \<in> marked m'" for q
      using f(4) f(7) [OF that] v by (cases "q \<in> marked m") auto
    show "?R \<subseteq> marked m'"
    proof
      fix q assume "q \<in> ?R"
      then have "runs (gm_prog m) MR rs i q" by simp
      then show "q \<in> marked m'" by (rule runs_in_closed) (use f(4,5) closed v in blast)+
    qed
  qed
  show "set current' = {q. runs (gm_prog m) MR rs i q \<and> is_thread (gm_prog m) q}"
    using f(4,8) v eq by blast
qed

lemma loop_inv_next:
  assumes ok: "matcher_ok m" "marked m = {}" and i: "i < length rs"
    and pcs: "pcs = {q. runs (gm_prog m) MR rs i q \<and> is_thread (gm_prog m) q}"
    and a: "added (place_context rs (Suc i)) (outs (gm_prog m) MR (Some (rs ! i)) pcs) ([], m) (nxt, m')"
  shows "loop_inv MR rs (Suc i) nxt m'"
proof -
  note f = added_facts [OF a, unfolded fst_conv snd_conv ok(2)]
  let ?p = "gm_prog m" let ?R = "{q. runs ?p MR rs (Suc i) q}"
  have prog: "prog_ok ?p" using ok by (simp add: matcher_ok_def)
  have "marked m' \<subseteq> {} \<union> ?R"
  proof (rule f(6))
    show "outs ?p MR (Some (rs ! i)) pcs \<subseteq> ?R"
      unfolding outs_def pcs using i by (auto intro!: runs.eat dest: runs_bounded [OF _ prog])
  qed (auto intro: runs.free)
  then have sub: "runs ?p MR rs (Suc i) q" if "q \<in> marked m'" for q using that by blast
  have eaten: "in_Out (pr_Inst ?p ! q) \<in> marked m'" if "runs ?p MR rs i q" "consumes MR (pr_Inst ?p ! q) (rs ! i)" for q
  proof -
    have "is_thread ?p q" using that(2) by (cases "in_Op (pr_Inst ?p ! q)") (simp_all add: consumes_def is_thread_def)
    then have "in_Out (pr_Inst ?p ! q) \<in> outs ?p MR (Some (rs ! i)) pcs" using that unfolding outs_def pcs by blast
    then show ?thesis using f(5) by blast
  qed
  show ?thesis unfolding loop_inv_def f(2) using f(1,7,8) sub eaten by simp
qed

lemma match_loop_spec:
  assumes "loop_inv MR (runes_of name) i current m" and "stands name pos i" and "fuel = Suc (length (pr_Inst (gm_prog m)))"
    and "before = (if i = 0 then None else at_opt (runes_of name) (i - 1))"
  shows "\<exists>m'. match_loop MR fuel name current before pos m = Some (\<exists>j. i \<le> j \<and> j \<le> length (runes_of name) \<and> accepts (gm_prog m) MR (runes_of name) j, m')
    \<and> matcher_ok m' \<and> gm_prog m' = gm_prog m"
  using assms
proof (induction "length (runes_of name) - i" arbitrary: i current before pos m rule: less_induct)
  case less
  let ?rs = "runes_of name" let ?p = "gm_prog m" let ?after = "at_opt ?rs i" let ?f = "rune_at name (pos + size_at name pos)"
  note inv = less.prems(1) and at = stands_rune [OF less.prems(2)]
  have i: "i \<le> length ?rs" using less.prems(2) by (simp add: stands_def)
  have ok: "matcher_ok m" and start: "pr_Start ?p < length (pr_Inst ?p)" and prog: "prog_ok ?p"
    using inv by (simp_all add: loop_inv_def matcher_ok_def prog_ok_def)
  have ctx: "EmptyOpContext before ?after = place_context ?rs i" using less.prems(4) by (simp add: place_context_def)
  obtain cur m1 where 1: "add fuel (place_context ?rs i) (pr_Start ?p) (current, m) = Some (cur, m1)"
    "added (place_context ?rs i) {pr_Start ?p} (current, m) (cur, m1)"
    using add_spec [OF ok start, of fuel "place_context ?rs i" current] less.prems(3) unmarked_fuel by auto
  have m1: "matcher_ok m1" "gm_prog m1 = ?p" using added_facts(1,2) [OF 1(2)] by simp_all
  note n = newEpoch_spec [OF m1(1), unfolded m1(2)]
  have cur: "set cur = {q. runs ?p MR ?rs i q \<and> is_thread ?p q}" by (rule marked_after_start(2) [OF inv i 1(2)])
  have bounded: "\<forall>pc \<in> set cur. pc < length (pr_Inst ?p)" using cur runs_bounded [OF _ prog] by auto
  have hit: "has_match ?p (set cur) \<longleftrightarrow> accepts ?p MR ?rs i"
    unfolding has_match_def accepts_def cur by (auto simp: is_thread_def dest: runs_bounded [OF _ prog])
  obtain nxt m2 where 2: "step_threads MR fuel ?after ?f cur ([], newEpoch m1) = Some (has_match ?p (set cur), nxt, m2)"
    "matcher_ok m2" "gm_prog m2 = ?p"
    "\<not> has_match ?p (set cur) \<Longrightarrow> added (EmptyOpContext ?after ?f) (outs ?p MR ?after (set cur)) ([], newEpoch m1) (nxt, m2)"
    using step_threads_spec [OF n(1) _ _ refl, of cur fuel MR ?after ?f "[]"] n less.prems(3) bounded by auto
  have unfold: "match_loop MR fuel name current before pos m =
    (if accepts ?p MR ?rs i then Some (True, m2) else if size_at name pos = 0 then Some (False, m2)
     else match_loop MR fuel name nxt ?after (pos + size_at name pos) m2)"
    by (subst match_loop.simps) (simp add: Let_def at(1) ctx 1(1) 2(1) hit)
  consider (hit) "accepts ?p MR ?rs i" | (over) "\<not> accepts ?p MR ?rs i" "i = length ?rs" | (go) "\<not> accepts ?p MR ?rs i" "i < length ?rs"
    using i by linarith
  then show ?case
  proof cases
    case hit
    then show ?thesis using unfold 2(2,3) i by auto
  next
    case over
    then show ?thesis using unfold 2(2,3) at(2) by (auto intro: le_antisym)
  next
    case go
    have after: "?after = Some (?rs ! i)" using go by (simp add: at_opt_def)
    have ctx2: "EmptyOpContext ?after ?f = place_context ?rs (Suc i)" using at(4) go by (simp add: place_context_def)
    have a2: "added (place_context ?rs (Suc i)) (outs (gm_prog (newEpoch m1)) MR (Some (?rs ! i)) (set cur)) ([], newEpoch m1) (nxt, m2)"
      using 2(4) go hit ctx2 n(3) after by simp
    have inv2: "loop_inv MR ?rs (Suc i) nxt m2"
      by (rule loop_inv_next [OF n(1,2) _ _ a2]) (use go cur n(3) in simp_all)
    obtain m' where m': "match_loop MR fuel name nxt ?after (pos + size_at name pos) m2 =
        Some (\<exists>j. Suc i \<le> j \<and> j \<le> length ?rs \<and> accepts ?p MR ?rs j, m')" "matcher_ok m'" "gm_prog m' = ?p"
      using less.hyps [OF diff_less_mono2 inv2 at(3) _ refl] go less.prems(3) 2(3) by auto
    have "(\<exists>j. Suc i \<le> j \<and> j \<le> length ?rs \<and> accepts ?p MR ?rs j) \<longleftrightarrow> (\<exists>j. i \<le> j \<and> j \<le> length ?rs \<and> accepts ?p MR ?rs j)"
      using go(1) by (metis Suc_leD Suc_leI le_eq_less_or_eq)
    then show ?thesis using unfold m' go at(2) by simp
  qed
qed

lemma match_program:
  assumes "matcher_ok m" and "gm_words m = []"
  shows "\<exists>m'. match MatchRune m name =
      Some (\<exists>j \<le> length (runes_of name). accepts (gm_prog m) MatchRune (runes_of name) j, m')
    \<and> matcher_ok m' \<and> gm_prog m' = gm_prog m"
proof -
  note n = newEpoch_spec [OF assms(1)]
  have "loop_inv MatchRune (runes_of name) 0 [] (newEpoch m)" using n by (simp add: loop_inv_def)
  moreover have "stands name 0 0" by (simp add: stands_def)
  ultimately show ?thesis
    using match_loop_spec [of MatchRune name 0 "[]" "newEpoch m" 0 _ None] n(3) assms(2) by (auto simp: match_def)
qed

lemma compiled_ok: "prog_ok (compile re) \<Longrightarrow> matcher_ok (compiled_matcher compile epoch re)"
  by (simp add: matcher_ok_def compiled_matcher_def)

text \<open>
  C8: Running the program of a pattern over a name, whatever earlier calls have left in the table of marks and
  also when the epoch wraps around, tells whether a path of instructions that starts at some rune of the
  name and eats the runes after it reaches a match: it never panics and leaves the matcher ready for the
  next call.
\<close>

theorem match_correct:
  assumes "matcher_ok m" and "gm_words m = []"
  shows "\<exists>m'. match MatchRune m name =
      Some (\<exists>j \<le> length (runes_of name). accepts (gm_prog m) MatchRune (runes_of name) j, m')
    \<and> matcher_ok m' \<and> gm_prog m' = gm_prog m"
  using assms by (rule match_program)

text \<open>The program of \<^verbatim>\<open>(?i)ab$\<close>, run where the epoch wraps around, on a name that has \<^verbatim>\<open>AB\<close> at its end.\<close>

definition sample_prog :: Prog where
  "sample_prog = \<lparr>pr_Inst = [\<lparr>in_Op = InstFail, in_Out = 0, in_Arg = 0, in_Rune = []\<rparr>,
     \<lparr>in_Op = InstRune1, in_Out = 2, in_Arg = 0, in_Rune = [65]\<rparr>, \<lparr>in_Op = InstRune1, in_Out = 3, in_Arg = 0, in_Rune = [66]\<rparr>,
     \<lparr>in_Op = InstEmptyWidth, in_Out = 4, in_Arg = 8, in_Rune = []\<rparr>, \<lparr>in_Op = InstMatch, in_Out = 0, in_Arg = 0, in_Rune = []\<rparr>], pr_Start = 1\<rparr>"

theorem match_correct_witness:
  "\<exists>m'. match (\<lambda>inst r. r = hd (in_Rune inst) \<or> r = hd (in_Rune inst) + 32)
      \<lparr>gm_words = [], gm_prog = sample_prog, gm_seen = [0, 7, 4294967295, 0, 4294967294], gm_epoch = 4294967295\<rparr> (encode [120, 97, 66]) = Some (True, m') \<and> matcher_ok m'"
proof -
  let ?MR = "\<lambda>inst r. r = hd (in_Rune inst) \<or> r = hd (in_Rune inst) + 32" and ?rs = "[120, 97, 66] :: rune list"
  let ?m = "\<lparr>gm_words = [], gm_prog = sample_prog, gm_seen = [0, 7, 4294967295, 0, 4294967294], gm_epoch = 4294967295\<rparr>"
  have ok: "matcher_ok ?m" by (simp add: matcher_ok_def prog_ok_def sample_prog_def)
  have rs: "runes_of (encode ?rs) = ?rs" by (rule runes_of_encode) (simp add: valid_rune_def)
  have "runs sample_prog ?MR ?rs 1 1" using runs.start [of 1 ?rs sample_prog] by (simp add: sample_prog_def)
  from runs.eat [OF this] have "runs sample_prog ?MR ?rs 2 2" by (simp add: sample_prog_def consumes_def numeral_2_eq_2)
  from runs.eat [OF this] have "runs sample_prog ?MR ?rs 3 3" by (simp add: sample_prog_def consumes_def numeral_3_eq_3)
  from runs.free [OF this, of 4] have "runs sample_prog ?MR ?rs 3 4"
    by (simp add: sample_prog_def eps_def place_context_def at_opt_def EmptyOpContext_def IsWordChar_def)
  then have "accepts sample_prog ?MR ?rs 3" by (auto simp: accepts_def sample_prog_def intro!: exI [of _ 4])
  then have "\<exists>j \<le> length ?rs. accepts sample_prog ?MR ?rs j" by (intro exI [of _ 3]) simp
  then show ?thesis using match_correct [OF ok _, of ?MR "encode ?rs"] rs by (auto simp del: encode_simps)
qed

text \<open>
  C7: When \<^verbatim>\<open>newGlobMatcher\<close> replaces an anchored regular expression by words, matching the words is
  matching the expression: for every name in valid UTF-8 the matcher returns whether the name, as a
  whole, belongs to the language of the expression between the anchors.
\<close>

theorem newGlobMatcher_words:
  assumes "newGlobMatcher compile epoch (OpConcat (OpBeginText # body @ [OpEndText])) = Some m" and "gm_words m \<noteq> []"
    and "re_ok (OpConcat body)" and "valid_text rs"
  shows "match MatchRune m (encode rs) = Some (re_lang (OpConcat body) rs, m)"
proof -
  have w: "globWords (OpConcat body) = Some (gm_words m)" "\<forall>w \<in> set (gm_words m). same_alphabet NUL w"
    using assms(1,2) by (auto simp: newGlobMatcher_def compiled_matcher_def split: option.splits if_splits)
  then show ?thesis using match_words_spec [OF w assms(3,4)] assms(2) by (simp add: match_def)
qed

theorem newGlobMatcher_words_witness:
  "\<exists>m. newGlobMatcher (\<lambda>_. nil_prog) 0 (OpConcat [OpBeginText, OpLiteral False [97], OpStar OpAnyCharNotNL, OpEndText]) = Some m
     \<and> match (\<lambda>_ _. False) m ''axb'' = Some (True, m)"
proof -
  let ?body = "[OpLiteral False [97], OpStar OpAnyCharNotNL]"
  let ?m = "\<lparr>gm_words = [[text_word ''a'', \<lparr>gw_text = [], gw_wild = CHR ''*'', gw_exclude = NL\<rparr>]], gm_prog = nil_prog, gm_seen = [], gm_epoch = 0\<rparr>"
  have a: "encode [97] = ''a''" "valid_text [97]" and n: "encode [97, 120, 98] = ''axb''" "valid_text [97, 120, 98]"
    using encode_ascii [of "''a''"] encode_ascii [of "''axb''"] by (simp_all add: byte_of_def)
  have "globWords (OpConcat ?body) = Some (gm_words ?m)"
    using a by (simp add: RuneError_def join_words_def push_word_def wild_word_def text_word_def Let_def)
  then have m: "newGlobMatcher (\<lambda>_. nil_prog) 0 (OpConcat (OpBeginText # ?body @ [OpEndText])) = Some ?m"
    by (simp add: newGlobMatcher_def text_word_def del: globWords.simps)
  have "re_lang (OpStar OpAnyCharNotNL) [120, 98]" by (simp add: star_chars byte_of_def)
  then have "re_lang (OpConcat ?body) [97, 120, 98]" by simp
  then show ?thesis using newGlobMatcher_words [OF m _ _ n(2)] a(2) m n(1) by auto
qed


end
