(* ===== verification/Ay_Macro.thy ===== *)
theory Ay_Macro
  imports Ay_Result Ay_Vfs
begin

text \<open>
  References to variables in texts (\<^verbatim>\<open>macro_string.go\<close>): \<^verbatim>\<open>$NAME\<close>, \<^verbatim>\<open>${mods:NAME.suffix}\<close> in commands and
  \<^verbatim>\<open>${NAME}\<close>, \<^verbatim>\<open>$ENV{NAME}\<close> in make expressions, their scanners, and the modifiers. The scanners work on the text
  behind the dollar sign and return what is left behind the reference, in place of the positions
  \<^verbatim>\<open>start\<close> and \<^verbatim>\<open>end\<close>. A result \<open>Inr None\<close> says that there is no reference, \<open>Inl IndexPanic\<close> is a slice out
  of range.
\<close>

section \<open>References\<close>

datatype macroFlags =
    modInput | modTool | modOutputInclude | modTmp | modPrefix | modSuffix | modExtFilter
     | modStdout | modCwd | modEnv | modCutExt | modNoAuto | modHide | modToBinDir
     | modNoTransformBuildDir | modNoRel | modJoin | modRootRel | modRootDir | modQuote
     | modBreakQuote | modQuoteEach | modBackslash | modAddIncl | modDefaultExt | modCutAllExt
     | modCutPath | modToUpper | modToLower | modDirAllowed | modCmdSep | modAddToOuts | modKeyValue
     | modResult | modLastExt | modMain | modRequirements | modModLocal | modComma | modTagsIn
     | modTagsOut | modResource | modContext | modGlobal | modTared | modHash | modInducedDeps
     | modNamespace | modSkipByExt | modFromInput | modUnknown

definition macroModifierNames :: "string \<rightharpoonup> macroFlags" where
  "macroModifierNames = map_of [
     (''input'', modInput), (''tool'', modTool), (''output_include'', modOutputInclude)
     , (''tmp'', modTmp), (''pre'', modPrefix), (''suf'', modSuffix), (''ext'', modExtFilter)
     , (''stdout'', modStdout), (''cwd'', modCwd), (''env'', modEnv), (''noext'', modCutExt)
     , (''noauto'', modNoAuto), (''hide'', modHide), (''tobindir'', modToBinDir)
     , (''notransformbuilddir'', modNoTransformBuildDir), (''norel'', modNoRel), (''join'', modJoin)
     , (''rootrel'', modRootRel), (''rootdir'', modRootDir), (''quo'', modQuote)
     , (''bq'', modBreakQuote), (''qe'', modQuoteEach), (''bksl'', modBackslash)
     , (''addincl'', modAddIncl), (''defext'', modDefaultExt), (''noallext'', modCutAllExt)
     , (''nopath'', modCutPath), (''toupper'', modToUpper), (''tolower'', modToLower)
     , (''dirallowed'', modDirAllowed), (''cmdsep'', modCmdSep), (''add_to_outs'', modAddToOuts)
     , (''kv'', modKeyValue), (''result'', modResult), (''lastext'', modLastExt)
     , (''main'', modMain), (''requirements'', modRequirements), (''modlocal'', modModLocal)
     , (''comma'', modComma), (''tags_in'', modTagsIn), (''tags_out'', modTagsOut)
     , (''resource'', modResource), (''context'', modContext), (''global'', modGlobal)
     , (''tared'', modTared), (''hash'', modHash), (''induced_deps'', modInducedDeps)
     , (''to_namespace'', modNamespace), (''skip_by_ext'', modSkipByExt)
     , (''from_input'', modFromInput)]"

record macroRef =
  mr_name :: string
  mr_flags :: "macroFlags set"
  mr_raw :: bool
  mr_process :: bool
  mr_prefix :: string
  mr_suffix :: string
  mr_join :: string
  mr_ext :: string
  mr_skipExt :: string

definition no_ref :: macroRef where
  "no_ref = \<lparr>mr_name = [], mr_flags = {}, mr_raw = False, mr_process = False, mr_prefix = [], mr_suffix = [],
     mr_join = [], mr_ext = [], mr_skipExt = []\<rparr>"

definition setMod :: "string \<Rightarrow> string \<Rightarrow> macroRef \<Rightarrow> macroRef" where
  "setMod name value ref =
     (let flag = (case macroModifierNames name of None \<Rightarrow> modUnknown | Some f \<Rightarrow> f);
          ref' = (if flag = modPrefix then ref\<lparr>mr_prefix := value\<rparr>
                  else if flag = modSuffix \<or> flag = modDefaultExt then ref\<lparr>mr_suffix := value\<rparr>
                  else if flag = modJoin then ref\<lparr>mr_join := value\<rparr>
                  else if flag = modExtFilter then ref\<lparr>mr_ext := value\<rparr>
                  else if flag = modSkipByExt then ref\<lparr>mr_skipExt := value\<rparr>
                  else ref)
      in if flag = modToUpper \<and> modToLower \<in> mr_flags ref \<or> flag = modToLower \<and> modToUpper \<in> mr_flags ref then ref
         else ref'\<lparr>mr_flags := insert flag (mr_flags ref')\<rparr>)"

section \<open>The scanners\<close>

definition is_low :: "char \<Rightarrow> bool" where
  "is_low b \<longleftrightarrow> 97 \<le> (of_char b :: nat) \<and> of_char b \<le> (122 :: nat)"

definition is_up :: "char \<Rightarrow> bool" where
  "is_up b \<longleftrightarrow> 65 \<le> (of_char b :: nat) \<and> of_char b \<le> (90 :: nat)"

definition is_dig :: "char \<Rightarrow> bool" where
  "is_dig b \<longleftrightarrow> 48 \<le> (of_char b :: nat) \<and> of_char b \<le> (57 :: nat)"

text \<open>\<^verbatim>\<open>macroString\<close>, from the text behind the opening quote: the string with its closing quote, and the rest.\<close>

fun macroString :: "string \<Rightarrow> (string \<times> string) option" where
  "macroString [] = None"
| "macroString (c # s) =
     (if c = CHR 0x22 then Some ([c], s)
      else if c = CHR 0x5C then
        (case s of [] \<Rightarrow> None | d # s' \<Rightarrow> map_option (\<lambda>(q, r). (c # d # q, r)) (macroString s'))
      else map_option (\<lambda>(q, r). (c # q, r)) (macroString s))"

definition cmdIdentLen :: "string \<Rightarrow> nat" where
  "cmdIdentLen s =
     (case s of
        [] \<Rightarrow> 0
      | c # cs \<Rightarrow> if c = CHR ''_'' \<or> is_low c \<or> is_up c then Suc (length (takeWhile (\<lambda>b. b = CHR ''_'' \<or> isMacroAlnum b) cs)) else 0)"

definition isConfIdentByte :: "char \<Rightarrow> bool \<Rightarrow> bool" where
  "isConfIdentByte b first \<longleftrightarrow> is_low b \<or> is_up b \<or> b = CHR ''_'' \<or> \<not> first \<and> is_dig b"

text \<open>The loop of \<^verbatim>\<open>confVarNameLen\<close> behind the first byte: dashes belong to a name when a name follows them.\<close>

function conf_name_tail :: "string \<Rightarrow> nat" where
  "conf_name_tail s =
     (case s of
        [] \<Rightarrow> 0
      | c # cs \<Rightarrow>
          if isConfIdentByte c False then Suc (conf_name_tail cs)
          else
            let dashes = length (takeWhile ((=) CHR ''-'') s); rest = dropWhile ((=) CHR ''-'') s
            in if dashes = 0 \<or> rest = [] \<or> \<not> isConfIdentByte (hd rest) False then 0 else dashes + conf_name_tail rest)"
  by pat_completeness auto
termination
  by (relation "measure length") (auto simp: length_dropWhile_le less_Suc_eq_le split: if_splits)

declare conf_name_tail.simps [simp del]

definition confVarNameLen :: "string \<Rightarrow> nat" where
  "confVarNameLen s = (case s of [] \<Rightarrow> 0 | c # cs \<Rightarrow> if isConfIdentByte c True then Suc (conf_name_tail cs) else 0)"

lemma macroString_parts: "macroString s = Some (q, r) \<Longrightarrow> s = q @ r \<and> q \<noteq> []"
  by (induction s arbitrary: q rule: macroString.induct) (auto split: if_splits list.splits)

text \<open>The value of a modifier, up to a semicolon or a colon; a backslash at the end runs past the text.\<close>

function mod_value :: "string \<Rightarrow> (string \<times> string) option result" where
  "mod_value s =
     (case s of
        [] \<Rightarrow> Inr (Some ([], []))
      | c # cs \<Rightarrow>
          if c = CHR '';'' \<or> c = CHR '':'' then Inr (Some ([], s))
          else if c = CHR 0x5C then
            (case cs of
               [] \<Rightarrow> Inl IndexPanic
             | d # ds \<Rightarrow> rbind (mod_value ds) (\<lambda>x. Inr (map_option (\<lambda>(v, r). (c # d # v, r)) x)))
          else if c = CHR 0x22 then
            (case macroString cs of
               None \<Rightarrow> Inr None
             | Some (q, r) \<Rightarrow> rbind (mod_value r) (\<lambda>x. Inr (map_option (\<lambda>(v, r). (c # q @ v, r)) x)))
          else rbind (mod_value cs) (\<lambda>x. Inr (map_option (\<lambda>(v, r). (c # v, r)) x)))"
  by pat_completeness auto
termination
  by (relation "measure length") (auto dest: macroString_parts)

declare mod_value.simps [simp del]

definition starts :: "char \<Rightarrow> string \<Rightarrow> bool" where
  "starts c s \<longleftrightarrow> s \<noteq> [] \<and> hd s = c"

lemma starts_simps [simp]: "\<not> starts c []" "starts c (d # s) \<longleftrightarrow> d = c"
  by (simp_all add: starts_def)

lemma starts_Cons: "starts c s \<longleftrightarrow> (\<exists>r. s = c # r)"
  by (cases s) auto

definition is_mod_byte :: "char \<Rightarrow> bool" where
  "is_mod_byte b \<longleftrightarrow> is_low b \<or> b = CHR ''_''"

definition mod_value_opt :: "string \<Rightarrow> (string \<times> string) option result" where
  "mod_value_opt s = (if starts CHR ''='' s then mod_value (tl s) else Inr (Some ([], s)))"

lemma mod_value_Nil: "mod_value [] = Inr (Some ([], []))"
  by (subst mod_value.simps) simp

lemma mod_value_Cons:
  "mod_value (c # cs) =
     (if c = CHR '';'' \<or> c = CHR '':'' then Inr (Some ([], c # cs))
      else if c = CHR 0x5C then
        (case cs of
           [] \<Rightarrow> Inl IndexPanic
         | d # ds \<Rightarrow> rbind (mod_value ds) (\<lambda>x. Inr (map_option (\<lambda>(v, r). (c # d # v, r)) x)))
      else if c = CHR 0x22 then
        (case macroString cs of
           None \<Rightarrow> Inr None
         | Some (q, r) \<Rightarrow> rbind (mod_value r) (\<lambda>x. Inr (map_option (\<lambda>(v, r). (c # q @ v, r)) x)))
      else rbind (mod_value cs) (\<lambda>x. Inr (map_option (\<lambda>(v, r). (c # v, r)) x)))"
  by (subst mod_value.simps) simp

lemma rbind_map_option:
  "rbind m (\<lambda>x. Inr (map_option f x)) = Inr (Some y) \<longleftrightarrow> (\<exists>z. m = Inr (Some z) \<and> y = f z)"
  by (cases m) (auto simp: map_option_case split: option.splits)

lemma mod_value_parts: "mod_value s = Inr (Some (v, r)) \<Longrightarrow> s = v @ r"
proof (induction "length s" arbitrary: s v rule: less_induct)
  case less
  show ?case
  proof (cases s)
    case Nil
    then show ?thesis using less.prems by (simp add: mod_value_Nil)
  next
    case (Cons c cs)
    note e = less.prems [unfolded Cons mod_value_Cons]
    consider (stop) "c = CHR '';'' \<or> c = CHR '':''" | (bs) "\<not> (c = CHR '';'' \<or> c = CHR '':'')" "c = CHR 0x5C"
      | (quo) "c = CHR 0x22" | (other) "\<not> (c = CHR '';'' \<or> c = CHR '':'')" "c \<noteq> CHR 0x5C" "c \<noteq> CHR 0x22" by blast
    then show ?thesis
    proof cases
      case stop
      then show ?thesis using e Cons by auto
    next
      case bs
      then obtain d ds v' where "cs = d # ds" "mod_value ds = Inr (Some (v', r))" "v = c # d # v'"
        using e by (auto simp: rbind_map_option split: list.splits)
      then show ?thesis using less.hyps [of ds v'] Cons by simp
    next
      case quo
      then obtain q r' v' where q: "macroString cs = Some (q, r')" "mod_value r' = Inr (Some (v', r))" "v = c # q @ v'"
        using e by (auto simp: rbind_map_option split: option.splits)
      then show ?thesis using less.hyps [of r' v'] macroString_parts [OF q(1)] Cons by auto
    next
      case other
      then obtain v' where "mod_value cs = Inr (Some (v', r))" "v = c # v'" using e by (auto simp: rbind_map_option)
      then show ?thesis using less.hyps [of cs v'] Cons by simp
    qed
  qed
qed

lemma mod_value_opt_length: "mod_value_opt s = Inr (Some (v, r)) \<Longrightarrow> length r \<le> length s"
  by (cases s) (auto simp: mod_value_opt_def dest: mod_value_parts split: if_splits)

text \<open>
  The loop over the modifiers from \<open>k\<close> on; \<open>j\<close> is where the name starts when no colon is met. It returns
  the place of the name and the reference with the modifiers set so far.
\<close>

function scan_mods :: "string \<Rightarrow> string \<Rightarrow> macroRef \<Rightarrow> (string \<times> macroRef) option result" where
  "scan_mods k j ref =
     (let modName = takeWhile is_mod_byte k; k = dropWhile is_mod_byte k
      in if modName = [] then Inr (Some (j, ref))
         else rbind (mod_value_opt k) (\<lambda>x.
           case x of
             None \<Rightarrow> Inr None
           | Some (modValue, k) \<Rightarrow>
               if starts CHR '';'' k then scan_mods (tl k) j (setMod modName modValue ref)
               else if starts CHR '':'' k then Inr (Some (tl k, setMod modName modValue ref))
               else Inr (Some (j, ref))))"
  by pat_completeness auto
termination
proof (relation "measure (\<lambda>(k, _, _). length k)")
  fix k j ref modName k' a x2 modValue k''
  assume "k' = dropWhile is_mod_byte k" "mod_value_opt k' = Inr a" "a = Some x2" "(modValue, k'') = x2" "starts CHR '';'' k''"
  then have "length k'' \<le> length k'" "k'' \<noteq> []" "length k' \<le> length k"
    using mod_value_opt_length [of k' modValue k''] by (auto simp: length_dropWhile_le)
  then show "((tl k'', j, setMod modName modValue ref), k, j, ref) \<in> measure (\<lambda>(k, _, _). length k)"
    by (cases k'') auto
qed simp

declare scan_mods.simps [simp del]

text \<open>The suffix behind a name: groups of dots and letters; \<open>None\<close> when a dot is not followed by a letter or digit.\<close>

function dot_suffix :: "string \<Rightarrow> (string \<times> string) option" where
  "dot_suffix s =
     (if \<not> starts CHR ''.'' s then Some ([], s)
      else
        let dots = takeWhile ((=) CHR ''.'') s; s = dropWhile ((=) CHR ''.'') s
        in if s = [] \<or> \<not> isMacroAlnum (hd s) then None
           else map_option (\<lambda>(x, r). (dots @ takeWhile isMacroAlnum s @ x, r)) (dot_suffix (dropWhile isMacroAlnum s)))"
  by pat_completeness auto
termination
proof (relation "measure length")
  fix s x xa
  assume s: "\<not> \<not> starts CHR ''.'' s" "xa = dropWhile ((=) CHR ''.'') s"
  then have "length xa < length s" by (auto simp: starts_Cons length_dropWhile_le less_Suc_eq_le)
  then show "(dropWhile isMacroAlnum xa, s) \<in> measure length"
    using length_dropWhile_le [of isMacroAlnum xa] by simp
qed simp

declare dot_suffix.simps [simp del]

text \<open>The name at the place \<open>j\<close> of a reference in braces: a string between quotes, which is kept as it is, or an identifier.\<close>

definition ref_name :: "(string \<Rightarrow> nat) \<Rightarrow> string \<Rightarrow> macroRef \<Rightarrow> (string \<times> macroRef) option" where
  "ref_name nameLen j ref =
     (if starts CHR 0x22 j
      then (case macroString (tl j) of None \<Rightarrow> None | Some (q, r) \<Rightarrow> Some (r, ref\<lparr>mr_name := butlast q, mr_raw := True\<rparr>))
      else
        let n = nameLen j
        in if n = 0 then None else Some (drop n j, ref\<lparr>mr_name := take n j\<rparr>))"

definition ref_suffix :: "string \<Rightarrow> macroRef \<Rightarrow> (macroRef \<times> string) option" where
  "ref_suffix j ref =
     (case dot_suffix j of
        None \<Rightarrow> None
      | Some (suf, r) \<Rightarrow>
          let ref = (if suf = [] then ref else setMod ''suf'' suf ref)
          in if starts CHR ''}'' r then Some (ref, tl r) else None)"

definition scanMacroRef :: "bool \<Rightarrow> string \<Rightarrow> (macroRef \<times> string) option result" where
  "scanMacroRef command s =
     (let nameLen = (if command then cmdIdentLen else confVarNameLen)
      in if s = [] then Inr None
         else if \<not> starts CHR ''{'' s
         then let n = nameLen s in Inr (if n = 0 then None else Some (no_ref\<lparr>mr_name := take n s\<rparr>, drop n s))
         else rbind (scan_mods (tl s) (tl s) no_ref) (\<lambda>x.
           Inr (case x of
             None \<Rightarrow> None
           | Some (j, ref) \<Rightarrow> (case ref_name nameLen j ref of None \<Rightarrow> None | Some (j, ref) \<Rightarrow> ref_suffix j ref))))"

definition scanMakefileRef :: "string \<Rightarrow> (macroRef \<times> string) option" where
  "scanMakefileRef s =
     (let macro = takeWhile isMacroAlnum s; j = dropWhile isMacroAlnum s
      in if \<not> starts CHR ''{'' j then None
         else
           let name = takeWhile (\<lambda>c. c \<notin> {CHR ''$'', CHR ''{'', CHR ''}''}) (tl j);
               k = dropWhile (\<lambda>c. c \<notin> {CHR ''$'', CHR ''{'', CHR ''}''}) (tl j)
           in if name = [] \<or> \<not> starts CHR ''}'' k then None
              else Some (no_ref\<lparr>mr_name := name, mr_process := (macro = ''ENV''), mr_raw := (macro \<noteq> [] \<and> macro \<noteq> ''ENV'')\<rparr>, tl k))"

section \<open>The scanners move on and panic at a lone backslash only\<close>

lemma conf_name_tail_le: "conf_name_tail s \<le> length s"
proof (induction s rule: conf_name_tail.induct)
  case (1 s)
  show ?case
  proof (cases s)
    case (Cons c cs)
    define t where "t = takeWhile ((=) CHR ''-'') s"
    define d where "d = dropWhile ((=) CHR ''-'') s"
    have c: "conf_name_tail cs \<le> length cs" if "isConfIdentByte c False" using "1.IH"(1) Cons that by simp
    have td: "length t + length d = length s" unfolding t_def d_def by (metis length_append takeWhile_dropWhile_id)
    have d: "conf_name_tail d \<le> length d"
      if "\<not> isConfIdentByte c False" "length t \<noteq> 0" "d \<noteq> []" "isConfIdentByte (hd d) False"
      using "1.IH"(2) [OF Cons that(1) refl refl] that unfolding t_def d_def by simp
    have "conf_name_tail s = (if isConfIdentByte c False then Suc (conf_name_tail cs)
        else if length t = 0 \<or> d = [] \<or> \<not> isConfIdentByte (hd d) False then 0 else length t + conf_name_tail d)"
      unfolding t_def d_def Cons by (subst conf_name_tail.simps) (simp add: Let_def)
    then show ?thesis using c d td Cons by auto
  qed (simp add: conf_name_tail.simps)
qed

lemma nameLen_le: "cmdIdentLen s \<le> length s" "confVarNameLen s \<le> length s"
  by (auto simp: cmdIdentLen_def confVarNameLen_def length_takeWhile_le conf_name_tail_le split: list.splits)

lemma scan_mods_length:
  "scan_mods k j ref = Inr (Some (j', ref')) \<Longrightarrow> length k \<le> length j \<Longrightarrow> length j' \<le> length j"
proof (induction k j ref rule: scan_mods.induct)
  case (1 k j ref)
  let ?n = "takeWhile is_mod_byte k" and ?k = "dropWhile is_mod_byte k"
  show ?case
  proof (cases "?n = []")
    case True
    then show ?thesis using "1.prems" by (subst (asm) scan_mods.simps) (simp add: Let_def)
  next
    case False
    obtain v k' where v: "mod_value_opt ?k = Inr (Some (v, k'))" and e: "(if starts CHR '';'' k' then scan_mods (tl k') j (setMod ?n v ref)
        else if starts CHR '':'' k' then Inr (Some (tl k', setMod ?n v ref)) else Inr (Some (j, ref))) = Inr (Some (j', ref'))"
      using "1.prems"(1) False by (subst (asm) scan_mods.simps) (auto simp: Let_def rbind_Inr split: option.splits)
    have l: "length k' \<le> length j"
      using mod_value_opt_length [OF v] length_dropWhile_le [of is_mod_byte k] "1.prems"(2) by simp
    show ?thesis
    proof (cases "starts CHR '';'' k'")
      case True
      then show ?thesis using "1.IH" [OF refl refl False v refl refl True] e l by simp
    next
      case False
      then show ?thesis using e l by (auto split: if_splits)
    qed
  qed
qed

lemma dot_suffix_length: "dot_suffix s = Some (x, r) \<Longrightarrow> length r \<le> length s"
proof (induction s arbitrary: x r rule: dot_suffix.induct)
  case (1 s)
  let ?s = "dropWhile ((=) CHR ''.'') s"
  show ?case
  proof (cases "starts CHR ''.'' s")
    case True
    note u = dot_suffix.simps [of s, unfolded Let_def]
    have ne: "\<not> (?s = [] \<or> \<not> isMacroAlnum (hd ?s))" using "1.prems" True unfolding u by (auto split: if_splits)
    obtain x' where "dot_suffix (dropWhile isMacroAlnum ?s) = Some (x', r)"
      using "1.prems" True ne unfolding u by (auto simp del: dropWhile_eq_Nil_conv)
    then have "length r \<le> length (dropWhile isMacroAlnum ?s)" using "1.IH" [OF _ refl refl ne] True by simp
    then show ?thesis using length_dropWhile_le [of isMacroAlnum ?s] length_dropWhile_le [of "(=) CHR ''.''" s] by simp
  next
    case False
    then show ?thesis using "1.prems" by (subst (asm) dot_suffix.simps) simp
  qed
qed

lemma ref_name_length: "ref_name nameLen j ref = Some (j', ref') \<Longrightarrow> length j' < length j \<or> j = []"
  by (cases j) (auto simp: ref_name_def Let_def dest: macroString_parts split: if_splits option.splits)

lemma ref_suffix_length: "ref_suffix j ref = Some (ref', r) \<Longrightarrow> length r < length j"
  by (auto simp: ref_suffix_def Let_def starts_Cons dest: dot_suffix_length split: option.splits if_splits)

lemma scanMacroRef_progress: "scanMacroRef command s = Inr (Some (ref, r)) \<Longrightarrow> length r < length s"
proof -
  assume e: "scanMacroRef command s = Inr (Some (ref, r))"
  then have ne: "s \<noteq> []" by (auto simp: scanMacroRef_def)
  show ?thesis
  proof (cases "starts CHR ''{'' s")
    case False
    then show ?thesis using e ne by (auto simp: scanMacroRef_def Let_def split: if_splits)
  next
    case True
    define nameLen where "nameLen = (if command then cmdIdentLen else confVarNameLen)"
    obtain j ref1 where x1: "scan_mods (tl s) (tl s) no_ref = Inr (Some (j, ref1))"
      and x23: "(case ref_name nameLen j ref1 of None \<Rightarrow> None | Some (j, ref) \<Rightarrow> ref_suffix j ref) = Some (ref, r)"
    proof -
      obtain x where x: "scan_mods (tl s) (tl s) no_ref = Inr x" "(case x of None \<Rightarrow> None
          | Some (j, ref) \<Rightarrow> (case ref_name nameLen j ref of None \<Rightarrow> None | Some (j, ref) \<Rightarrow> ref_suffix j ref)) = Some (ref, r)"
        using e ne True unfolding scanMacroRef_def nameLen_def [symmetric] Let_def by (auto simp: rbind_Inr)
      then show thesis using that by (cases x) auto
    qed
    obtain j2 ref2 where x: "ref_name nameLen j ref1 = Some (j2, ref2)" "ref_suffix j2 ref2 = Some (ref, r)"
      using x23 by (auto split: option.splits)
    have "length j \<le> length (tl s)" using scan_mods_length [OF x1] by simp
    moreover have "length j2 \<le> length j" using ref_name_length [OF x(1)] x(1) by (auto simp: ref_name_def Let_def split: if_splits)
    ultimately show ?thesis using ref_suffix_length [OF x(2)] ne by (cases s) auto
  qed
qed

lemma scanMakefileRef_progress: "scanMakefileRef s = Some (ref, r) \<Longrightarrow> length r < length s"
proof -
  assume e: "scanMakefileRef s = Some (ref, r)"
  let ?j = "dropWhile isMacroAlnum s" let ?P = "\<lambda>c. c \<notin> {CHR ''$'', CHR ''{'', CHR ''}''}"
  have "starts CHR ''{'' ?j" "starts CHR ''}'' (dropWhile ?P (tl ?j))" "r = tl (dropWhile ?P (tl ?j))"
    using e by (auto simp: scanMakefileRef_def Let_def split: if_splits)
  then show ?thesis
    using length_dropWhile_le [of isMacroAlnum s] length_dropWhile_le [of ?P "tl ?j"] by (cases ?j) (auto simp: starts_Cons)
qed

definition ends_open :: "string \<Rightarrow> bool" where
  "ends_open s \<longleftrightarrow> s \<noteq> [] \<and> last s = CHR 0x5C"

lemma ends_open_append: "ends_open r \<Longrightarrow> ends_open (p @ r)"
  by (simp add: ends_open_def)

lemma ends_open_Cons: "ends_open r \<Longrightarrow> ends_open (c # r)"
  by (simp add: ends_open_def)

lemma mod_value_panic: "mod_value s = Inl e \<Longrightarrow> e = IndexPanic \<and> ends_open s"
proof (induction "length s" arbitrary: s rule: less_induct)
  case less
  show ?case
  proof (cases s)
    case Nil
    then show ?thesis using less.prems by (simp add: mod_value_Nil)
  next
    case (Cons c cs)
    note e = less.prems [unfolded Cons mod_value_Cons]
    consider (stop) "c = CHR '';'' \<or> c = CHR '':''" | (bs) "\<not> (c = CHR '';'' \<or> c = CHR '':'')" "c = CHR 0x5C"
      | (quo) "c = CHR 0x22" | (other) "\<not> (c = CHR '';'' \<or> c = CHR '':'')" "c \<noteq> CHR 0x5C" "c \<noteq> CHR 0x22" by blast
    then show ?thesis
    proof cases
      case stop
      then show ?thesis using e by auto
    next
      case bs
      then show ?thesis
        using e less.hyps [of "tl cs"] Cons by (cases cs) (auto simp: rbind_Inl ends_open_def)
    next
      case quo
      then obtain q r where q: "macroString cs = Some (q, r)" "mod_value r = Inl e"
        using e by (auto simp: rbind_Inl split: option.splits)
      then show ?thesis using less.hyps [of r] macroString_parts [OF q(1)] Cons
        by (auto intro: ends_open_Cons ends_open_append)
    next
      case other
      then show ?thesis using e less.hyps [of cs] Cons by (auto simp: rbind_Inl intro: ends_open_Cons)
    qed
  qed
qed

lemma mod_value_opt_parts: "mod_value_opt s = Inr (Some (v, r)) \<Longrightarrow> \<exists>p. s = p @ r"
  by (cases s) (auto simp: mod_value_opt_def dest: mod_value_parts split: if_splits intro: exI [of _ "CHR ''='' # v"])

lemma mod_value_opt_panic: "mod_value_opt s = Inl e \<Longrightarrow> e = IndexPanic \<and> ends_open s"
  by (cases s) (auto simp: mod_value_opt_def dest: mod_value_panic intro: ends_open_Cons split: if_splits)

lemma scan_mods_panic: "scan_mods k j ref = Inl e \<Longrightarrow> e = IndexPanic \<and> ends_open k"
proof (induction k j ref rule: scan_mods.induct)
  case (1 k j ref)
  let ?n = "takeWhile is_mod_byte k" and ?k = "dropWhile is_mod_byte k"
  note u = scan_mods.simps [of k j ref, unfolded Let_def]
  have n: "?n \<noteq> []" using "1.prems" unfolding u by auto
  have k: "ends_open ?k \<Longrightarrow> ends_open k" using ends_open_append [of ?k ?n] by simp
  show ?case
  proof (cases "mod_value_opt ?k")
    case (Inl e')
    then show ?thesis using "1.prems" n mod_value_opt_panic [OF Inl] k unfolding u by simp
  next
    case (Inr x)
    obtain v k' where x: "x = Some (v, k')" "starts CHR '';'' k'" "scan_mods (tl k') j (setMod ?n v ref) = Inl e"
      using "1.prems" n Inr unfolding u by (auto split: option.splits if_splits)
    have "e = IndexPanic \<and> ends_open (tl k')" using "1.IH" [OF refl refl n Inr x(1) refl x(2,3)] .
    moreover obtain p where "?k = p @ k'" using mod_value_opt_parts [of ?k v k'] Inr x(1) by auto
    ultimately show ?thesis using k x(2) by (cases k') (auto intro: ends_open_append ends_open_Cons)
  qed
qed


section \<open>Printing a reference and scanning it\<close>

text \<open>A modifier with its value, a reference with its modifiers, and the texts whose parts the scanner can tell apart.\<close>

definition print_mod :: "string \<times> string \<Rightarrow> string" where
  "print_mod m = (case m of (name, value) \<Rightarrow> if value = [] then name else name @ ''='' @ value)"

fun print_mods :: "(string \<times> string) list \<Rightarrow> string" where
  "print_mods [] = []"
| "print_mods [m] = print_mod m @ '':''"
| "print_mods (m # n # ms) = print_mod m @ '';'' @ print_mods (n # ms)"

definition print_ref :: "(string \<times> string) list \<Rightarrow> string \<Rightarrow> string \<Rightarrow> string" where
  "print_ref mods name suf = ''{'' @ print_mods mods @ name @ suf @ ''}''"

definition suffix_ok :: "string \<Rightarrow> bool" where
  "suffix_ok suf \<longleftrightarrow> suf = [] \<or> hd suf = CHR ''.'' \<and> tl suf \<noteq> [] \<and> list_all isMacroAlnum (tl suf)"

definition mod_ok :: "string \<times> string \<Rightarrow> bool" where
  "mod_ok m \<longleftrightarrow> fst m \<noteq> [] \<and> list_all is_mod_byte (fst m) \<and> list_all (\<lambda>c. c \<notin> {CHR '';'', CHR '':'', CHR 0x5C, CHR 0x22}) (snd m)"

definition name_ok :: "string \<Rightarrow> bool" where
  "name_ok name \<longleftrightarrow> name \<noteq> [] \<and> isConfIdentByte (hd name) True \<and> list_all (\<lambda>c. isConfIdentByte c False) name"

lemma mod_value_plain:
  "list_all (\<lambda>c. c \<notin> {CHR '';'', CHR '':'', CHR 0x5C, CHR 0x22}) v \<Longrightarrow> r \<noteq> [] \<Longrightarrow> hd r \<in> {CHR '';'', CHR '':''} \<Longrightarrow>
   mod_value (v @ r) = Inr (Some (v, r))"
proof (induction v)
  case Nil
  then show ?case by (cases r) (auto simp: mod_value_Cons)
next
  case (Cons c v)
  then show ?case by (simp add: mod_value_Cons)
qed

lemma mod_bytes: "is_mod_byte c \<Longrightarrow> c \<notin> {CHR '';'', CHR '':'', CHR ''='', CHR ''}'', CHR ''.''}"
  by (auto simp: is_mod_byte_def is_low_def)

lemma takeWhile_all_then:
  "list_all P xs \<Longrightarrow> r \<noteq> [] \<Longrightarrow> \<not> P (hd r) \<Longrightarrow> takeWhile P (xs @ r) = xs \<and> dropWhile P (xs @ r) = r"
  by (induction xs) (cases r, auto)

lemma scan_one_mod:
  assumes "mod_ok m" and "r \<noteq> []" and "hd r \<in> {CHR '';'', CHR '':''}"
  shows "takeWhile is_mod_byte (print_mod m @ r) = fst m" and "mod_value_opt (dropWhile is_mod_byte (print_mod m @ r)) = Inr (Some (snd m, r))"
proof -
  obtain n v where m: "m = (n, v)" by fastforce
  have ok: "n \<noteq> []" "list_all is_mod_byte n" "list_all (\<lambda>c. c \<notin> {CHR '';'', CHR '':'', CHR 0x5C, CHR 0x22}) v"
    using assms(1) by (simp_all add: m mod_ok_def)
  define x where "x = (if v = [] then r else CHR ''='' # v @ r)"
  have x: "print_mod m @ r = n @ x" "x \<noteq> []" "\<not> is_mod_byte (hd x)"
    using assms(2,3) mod_bytes [of "hd x"] by (auto simp: m print_mod_def x_def)
  note tw = takeWhile_all_then [OF ok(2) x(2,3)]
  show "takeWhile is_mod_byte (print_mod m @ r) = fst m" using tw x(1) by (simp add: m)
  have "mod_value_opt x = Inr (Some (v, r))"
    using mod_value_plain [OF ok(3) assms(2,3)] assms(2,3) by (cases r) (auto simp: mod_value_opt_def x_def)
  then show "mod_value_opt (dropWhile is_mod_byte (print_mod m @ r)) = Inr (Some (snd m, r))" using tw x(1) by (simp add: m)
qed

lemma scan_print_mods:
  "mods \<noteq> [] \<Longrightarrow> list_all mod_ok mods \<Longrightarrow>
   scan_mods (print_mods mods @ r) j ref = Inr (Some (r, fold (\<lambda>(n, v). setMod n v) mods ref))"
proof (induction mods arbitrary: ref rule: print_mods.induct)
  case (2 m)
  have ok: "mod_ok m" "fst m \<noteq> []" using "2.prems" by (auto simp: mod_ok_def)
  show ?case
    using scan_one_mod [OF ok(1), of "'':'' @ r"] ok(2) by (subst scan_mods.simps) (simp add: Let_def split_def)
next
  case (3 m n ms)
  have ok: "mod_ok m" "fst m \<noteq> []" using "3.prems" by (auto simp: mod_ok_def)
  show ?case
    using scan_one_mod [OF ok(1), of "'';'' @ print_mods (n # ms) @ r"] ok(2) "3.IH" [of "setMod (fst m) (snd m) ref"] "3.prems"
    by (subst scan_mods.simps) (simp add: Let_def split_def)
qed simp

lemma conf_byte: "isConfIdentByte c b \<Longrightarrow> c \<notin> {CHR '';'', CHR '':'', CHR ''='', CHR ''}'', CHR ''.'', CHR 0x22, CHR ''-'', CHR ''{''}"
  by (auto simp: isConfIdentByte_def is_low_def is_up_def is_dig_def)

lemma conf_name_tail_all:
  assumes "list_all (\<lambda>c. isConfIdentByte c False) name" and "r \<noteq> []" and "hd r = CHR ''}'' \<or> hd r = CHR ''.''"
  shows "conf_name_tail (name @ r) = length name"
  using assms(1)
proof (induction name)
  case Nil
  have "\<not> isConfIdentByte (hd r) False" "hd r \<noteq> CHR ''-''" using assms(3) conf_byte [of "hd r" False] by auto
  then show ?case using assms(2) by (subst conf_name_tail.simps) (cases r, auto simp: Let_def)
qed (subst conf_name_tail.simps, simp)

lemma confVarNameLen_all:
  assumes "name_ok name" and "r \<noteq> []" and "hd r = CHR ''}'' \<or> hd r = CHR ''.''"
  shows "confVarNameLen (name @ r) = length name"
  using assms conf_name_tail_all [OF _ assms(2,3), of "tl name"] by (cases name) (auto simp: name_ok_def confVarNameLen_def)

lemma scan_no_mods:
  assumes "name_ok name" and "r \<noteq> []" and "hd r = CHR ''}'' \<or> hd r = CHR ''.''"
  shows "scan_mods (name @ r) j ref = Inr (Some (j, ref))"
proof -
  let ?k = "dropWhile is_mod_byte (name @ r)"
  have "hd ?k \<notin> {CHR ''='', CHR '';'', CHR '':''}"
  proof (cases "list_all is_mod_byte name")
    case True
    have "\<not> is_mod_byte (hd r)" using assms(3) mod_bytes [of "hd r"] by auto
    then have "?k = r" using takeWhile_all_then [OF True assms(2)] by simp
    then show ?thesis using assms(3) by auto
  next
    case False
    then have "?k = dropWhile is_mod_byte name @ r" "dropWhile is_mod_byte name \<noteq> []"
      by (auto simp: list_all_iff dropWhile_append)
    moreover have "isConfIdentByte (hd (dropWhile is_mod_byte name)) False"
      using assms(1) calculation(2) set_dropWhileD [of _ is_mod_byte name] by (auto simp: name_ok_def list_all_iff)
    ultimately show ?thesis using conf_byte [of "hd ?k" False] by auto
  qed
  then show ?thesis
    by (subst scan_mods.simps) (auto simp: Let_def mod_value_opt_def starts_def)
qed

lemma dot_suffix_printed:
  assumes "suffix_ok suf" shows "dot_suffix (suf @ CHR ''}'' # r) = Some (suf, CHR ''}'' # r)"
proof -
  have stop: "\<not> isMacroAlnum CHR ''}''" "\<not> isMacroAlnum CHR ''.''" by (simp_all add: isMacroAlnum_def)
  have nil: "dot_suffix (CHR ''}'' # r) = Some ([], CHR ''}'' # r)" by (subst dot_suffix.simps) simp
  show ?thesis
  proof (cases "suf = []")
    case False
    then obtain a b where s: "suf = CHR ''.'' # a # b" "list_all isMacroAlnum (a # b)"
      using assms by (cases suf; cases "tl suf") (auto simp: suffix_ok_def)
    have a: "CHR ''.'' \<noteq> a" "isMacroAlnum a" using s(2) stop by auto
    have "takeWhile isMacroAlnum ((a # b) @ CHR ''}'' # r) = a # b \<and> dropWhile isMacroAlnum ((a # b) @ CHR ''}'' # r) = CHR ''}'' # r"
      using takeWhile_all_then [OF s(2), of "CHR ''}'' # r"] stop by simp
    then show ?thesis using a nil by (subst dot_suffix.simps) (simp add: s(1) Let_def)
  qed (simp add: nil)
qed

text \<open>
  C11: Scanning the text of a reference with its modifiers, its name and its suffix gives the reference back, with
  the modifiers set from left to right and the suffix last, and leaves exactly the text behind the brace.
\<close>

theorem scan_print_ref:
  assumes "list_all mod_ok mods" and "name_ok name" and "suffix_ok suf"
  shows "scanMacroRef False (print_ref mods name suf @ r) =
    Inr (Some (let ref = (fold (\<lambda>(n, v). setMod n v) mods no_ref)\<lparr>mr_name := name\<rparr> in if suf = [] then ref else setMod ''suf'' suf ref, r))"
proof -
  let ?r = "suf @ CHR ''}'' # r"
  have hd: "?r \<noteq> []" "hd ?r = CHR ''}'' \<or> hd ?r = CHR ''.''" using assms(3) by (cases suf; auto simp: suffix_ok_def)+
  have m: "scan_mods (print_mods mods @ name @ ?r) (print_mods mods @ name @ ?r) no_ref =
      Inr (Some (name @ ?r, fold (\<lambda>(n, v). setMod n v) mods no_ref))"
    using scan_print_mods [OF _ assms(1)] scan_no_mods [OF assms(2) hd] by (cases "mods = []") auto
  have q: "\<not> starts CHR 0x22 (name @ ?r)"
    using assms(2) conf_byte [of "hd name" True] by (cases name) (auto simp: name_ok_def)
  have n: "ref_name confVarNameLen (name @ ?r) ref = Some (?r, ref\<lparr>mr_name := name\<rparr>)" for ref
    using confVarNameLen_all [OF assms(2) hd] q assms(2) by (auto simp: ref_name_def Let_def name_ok_def)
  show ?thesis
    using m n dot_suffix_printed [OF assms(3), of r] by (simp add: scanMacroRef_def print_ref_def ref_suffix_def Let_def)
qed

theorem scan_print_ref_witness:
  "scanMacroRef False (print_ref [(''hide'', []), (''pre'', ''-I'')] ''DIR'' ''.h'' @ ''/x'') =
    Inr (Some (setMod ''suf'' ''.h'' ((setMod ''pre'' ''-I'' (setMod ''hide'' [] no_ref))\<lparr>mr_name := ''DIR''\<rparr>), ''/x''))"
proof -
  have "list_all mod_ok [(''hide'', []), (''pre'', ''-I'')]" by (simp add: mod_ok_def is_mod_byte_def is_low_def)
  moreover have "name_ok ''DIR''" by (simp add: name_ok_def isConfIdentByte_def is_up_def)
  moreover have "suffix_ok ''.h''" by (simp add: suffix_ok_def isMacroAlnum_def)
  ultimately show ?thesis using scan_print_ref [of "[(''hide'', []), (''pre'', ''-I'')]" "''DIR''" "''.h''" "''/x''"] by (simp add: Let_def)
qed

section \<open>What the scanners leave is a tail of the text\<close>

definition tail_of :: "string \<Rightarrow> string \<Rightarrow> bool" where
  "tail_of r s \<longleftrightarrow> (\<exists>p. s = p @ r)"

lemma tail_of_refl [simp]: "tail_of s s" and tail_of_drop [simp]: "tail_of (drop n s) s" and tail_of_tl [simp]: "tail_of (tl s) s"
  and tail_of_dropWhile [simp]: "tail_of (dropWhile P s) s"
  unfolding tail_of_def
  by (simp, metis append_take_drop_id, cases s, simp, metis append_Cons append_Nil list.sel(3), metis takeWhile_dropWhile_id)

lemma tail_of_trans: "tail_of r s \<Longrightarrow> tail_of s t \<Longrightarrow> tail_of r t"
  by (auto simp: tail_of_def)

lemma tail_of_split: "tail_of r s \<Longrightarrow> take (length s - length r) s @ r = s"
  by (auto simp: tail_of_def)

lemma mod_value_opt_tail: "mod_value_opt s = Inr (Some (v, r)) \<Longrightarrow> tail_of r s"
  using mod_value_opt_parts by (auto simp: tail_of_def)

lemma scan_mods_tail:
  "scan_mods k j ref = Inr (Some (j', ref')) \<Longrightarrow> tail_of k j \<Longrightarrow> tail_of j' j"
proof (induction k j ref rule: scan_mods.induct)
  case (1 k j ref)
  let ?n = "takeWhile is_mod_byte k" and ?k = "dropWhile is_mod_byte k"
  show ?case
  proof (cases "?n = []")
    case True
    then show ?thesis using "1.prems" by (subst (asm) scan_mods.simps) (simp add: Let_def)
  next
    case False
    obtain v k' where v: "mod_value_opt ?k = Inr (Some (v, k'))" and e: "(if starts CHR '';'' k' then scan_mods (tl k') j (setMod ?n v ref)
        else if starts CHR '':'' k' then Inr (Some (tl k', setMod ?n v ref)) else Inr (Some (j, ref))) = Inr (Some (j', ref'))"
      using "1.prems"(1) False by (subst (asm) scan_mods.simps) (auto simp: Let_def rbind_Inr split: option.splits)
    have l: "tail_of (tl k') j"
      using tail_of_trans [OF tail_of_tl tail_of_trans [OF mod_value_opt_tail [OF v] tail_of_trans [OF tail_of_dropWhile "1.prems"(2)]]] .
    show ?thesis
    proof (cases "starts CHR '';'' k'")
      case True
      then show ?thesis using "1.IH" [OF refl refl False v refl refl True] e l by simp
    next
      case False
      then show ?thesis using e l by (auto split: if_splits)
    qed
  qed
qed

lemma dot_suffix_tail: "dot_suffix s = Some (x, r) \<Longrightarrow> tail_of r s"
proof (induction s arbitrary: x r rule: dot_suffix.induct)
  case (1 s)
  let ?s = "dropWhile ((=) CHR ''.'') s"
  show ?case
  proof (cases "starts CHR ''.'' s")
    case True
    note u = dot_suffix.simps [of s, unfolded Let_def]
    have ne: "\<not> (?s = [] \<or> \<not> isMacroAlnum (hd ?s))" using "1.prems" True unfolding u by (auto split: if_splits)
    obtain x' where "dot_suffix (dropWhile isMacroAlnum ?s) = Some (x', r)"
      using "1.prems" True ne unfolding u by (auto simp del: dropWhile_eq_Nil_conv)
    then have "tail_of r (dropWhile isMacroAlnum ?s)" using "1.IH" [OF _ refl refl ne] True by simp
    then show ?thesis using tail_of_trans tail_of_dropWhile by blast
  next
    case False
    then show ?thesis using "1.prems" by (subst (asm) dot_suffix.simps) simp
  qed
qed

lemma ref_name_tail: "ref_name nameLen j ref = Some (j', ref') \<Longrightarrow> tail_of j' j"
proof (cases "starts CHR 0x22 j")
  case True
  assume "ref_name nameLen j ref = Some (j', ref')"
  then obtain q where "macroString (tl j) = Some (q, j')" using True by (auto simp: ref_name_def split: option.splits)
  then have "tail_of j' (tl j)" using macroString_parts by (auto simp: tail_of_def)
  then show ?thesis by (rule tail_of_trans) simp
qed (auto simp: ref_name_def Let_def split: if_splits)

lemma ref_suffix_tail: "ref_suffix j ref = Some (ref', r) \<Longrightarrow> tail_of r j"
  using tail_of_trans [OF tail_of_tl dot_suffix_tail] by (auto simp: ref_suffix_def Let_def split: option.splits if_splits)

lemma scanMacroRef_tail:
  assumes e: "scanMacroRef command s = Inr (Some (ref, r))" shows "tail_of r s"
proof (cases "starts CHR ''{'' s")
  case False
  then show ?thesis using e by (auto simp: scanMacroRef_def Let_def split: if_splits)
next
  case True
  define nameLen where "nameLen = (if command then cmdIdentLen else confVarNameLen)"
  obtain x where x: "scan_mods (tl s) (tl s) no_ref = Inr x" "(case x of None \<Rightarrow> None
      | Some (j, ref) \<Rightarrow> (case ref_name nameLen j ref of None \<Rightarrow> None | Some (j, ref) \<Rightarrow> ref_suffix j ref)) = Some (ref, r)"
    using e True unfolding scanMacroRef_def nameLen_def [symmetric] Let_def by (auto simp: rbind_Inr split: if_splits)
  then obtain j ref1 j2 ref2 where y: "x = Some (j, ref1)" "ref_name nameLen j ref1 = Some (j2, ref2)" "ref_suffix j2 ref2 = Some (ref, r)"
    by (auto split: option.splits)
  have "tail_of j (tl s)" using scan_mods_tail x(1) y(1) by simp
  then show ?thesis using tail_of_trans [OF ref_suffix_tail [OF y(3)] tail_of_trans [OF ref_name_tail [OF y(2)]]] tail_of_trans tail_of_tl by blast
qed

lemma scanMakefileRef_tail: "scanMakefileRef s = Some (ref, r) \<Longrightarrow> tail_of r s"
  unfolding scanMakefileRef_def Let_def
  by (auto split: if_splits intro!: tail_of_trans [OF tail_of_tl tail_of_trans [OF tail_of_dropWhile tail_of_trans [OF tail_of_tl tail_of_dropWhile]]])

lemma scanMakefileRef_plain: "scanMakefileRef s = Some (ref, r) \<Longrightarrow> mr_prefix ref = [] \<and> mr_suffix ref = []"
  by (auto simp: scanMakefileRef_def Let_def no_ref_def split: if_splits)

end
