(* ===== verification/Ay_Subst.thy ===== *)
theory Ay_Subst
  imports Ay_Macro
begin

text \<open>
  Substitution of variables in texts (\<^verbatim>\<open>macro_string.go\<close>) and the tracker of source texts
  (\<^verbatim>\<open>source_text_inputs.go\<close>). The definitions take the lookup of a variable as an argument, a function on
  a state of any type; \<^verbatim>\<open>Ay_SubstEnv\<close> supplies the environment. The theorems relate the loop, which copies
  unchanged stretches of text at once, to a reference definition by recursion on the text, the two variants
  of the repeated substitution to each other, and show where the code fails: nested prefixes have no limit
  and disturb the tracker.
\<close>

section \<open>Values and modifiers\<close>

text \<open>\<^verbatim>\<open>macroValues\<close>, with the texts of its words; \<open>mv_vfs\<close> is the text of the file, if there is one.\<close>

record macroValues =
  mv_list :: "string list"
  mv_single :: string
  mv_vfs :: "string option"
  mv_one :: bool

definition mv_count :: "macroValues \<Rightarrow> nat" where
  "mv_count v = (if mv_one v then 1 else length (mv_list v))"

definition mv_at :: "macroValues \<Rightarrow> nat \<Rightarrow> string" where
  "mv_at v i = (case mv_vfs v of Some t \<Rightarrow> t | None \<Rightarrow> if mv_one v then mv_single v else mv_list v ! i)"

text \<open>\<^verbatim>\<open>strings.IndexByte\<close>, \<^verbatim>\<open>strings.LastIndexByte\<close> and the case mappings of \<^verbatim>\<open>strings\<close>, which on ASCII move the letters.\<close>

definition IndexByte :: "string \<Rightarrow> char \<Rightarrow> int" where
  "IndexByte s c = (if c \<in> set s then int (length (takeWhile (\<lambda>x. x \<noteq> c) s)) else -1)"

definition LastIndexByte :: "string \<Rightarrow> char \<Rightarrow> int" where
  "LastIndexByte s c = (if c \<in> set s then int (length s) - 1 - IndexByte (rev s) c else -1)"

definition is_ascii :: "string \<Rightarrow> bool" where
  "is_ascii s \<longleftrightarrow> list_all (\<lambda>c. of_char c < (128 :: nat)) s"

definition up_byte :: "char \<Rightarrow> char" where
  "up_byte c = (if is_low c then char_of (of_char c - 32 :: nat) else c)"

definition low_byte :: "char \<Rightarrow> char" where
  "low_byte c = (if is_up c then char_of (of_char c + 32 :: nat) else c)"

text \<open>
  What the substitution calls: the lookup of a variable, the source ranges of its value, the process
  environment, and of the library the sum of \<^verbatim>\<open>crypto/md5\<close> and the case mappings of texts that are not ASCII.
\<close>

record 'w substCalls =
  sc_lookup :: "string \<Rightarrow> 'w \<Rightarrow> (macroValues option \<times> 'w) result"
  sc_inputs :: "string \<Rightarrow> 'w \<Rightarrow> (nat \<times> nat) list result"
  sc_getenv :: "string \<Rightarrow> string"
  sc_md5 :: "string \<Rightarrow> u8 list"
  sc_upper :: "string \<Rightarrow> string"
  sc_lower :: "string \<Rightarrow> string"

definition ToUpper :: "'w substCalls \<Rightarrow> string \<Rightarrow> string" where
  "ToUpper sc s = (if is_ascii s then map up_byte s else sc_upper sc s)"

definition ToLower :: "'w substCalls \<Rightarrow> string \<Rightarrow> string" where
  "ToLower sc s = (if is_ascii s then map low_byte s else sc_lower sc s)"

definition cut_ext :: "macroFlags set \<Rightarrow> string \<Rightarrow> string" where
  "cut_ext flags value =
     (if modCutExt \<notin> flags \<and> modCutAllExt \<notin> flags then value
      else
        let slash = max (LastIndexByte value CHR ''/'') 0;
            dot = LastIndexByte value CHR ''.'';
            dot = (if modCutAllExt \<in> flags
                   then let d = IndexByte (drop (nat slash) value) CHR ''.'' in if 0 \<le> d then d + slash else d
                   else dot)
        in if slash \<le> dot then take (nat dot) value else value)"

definition last_ext :: "macroFlags set \<Rightarrow> string \<Rightarrow> string" where
  "last_ext flags value =
     (if modLastExt \<notin> flags then value
      else
        let slash = LastIndexByte value CHR ''/''; dot = LastIndexByte value CHR ''.''
        in if 0 \<le> dot \<and> slash < dot then drop (nat (dot + 1)) value else [])"

definition cut_path :: "macroFlags set \<Rightarrow> string \<Rightarrow> string" where
  "cut_path flags value = (if modCutPath \<in> flags then drop (nat (LastIndexByte value CHR ''/'' + 1)) value else value)"

definition default_ext :: "macroFlags set \<Rightarrow> string \<Rightarrow> string \<Rightarrow> string" where
  "default_ext flags value suf =
     (if modDefaultExt \<in> flags \<and> 0 \<le> LastIndexByte value CHR ''.'' \<and> LastIndexByte value CHR ''/'' < LastIndexByte value CHR ''.''
      then [] else suf)"

definition HasSuffix :: "string \<Rightarrow> string \<Rightarrow> bool" where
  "HasSuffix s t \<longleftrightarrow> length t \<le> length s \<and> drop (length s - length t) s = t"

definition applyMacroMods :: "'w substCalls \<Rightarrow> macroRef \<Rightarrow> string \<Rightarrow> string \<Rightarrow> string \<Rightarrow> string option" where
  "applyMacroMods sc ref value pre suf =
     (let flags = mr_flags ref
      in if modComma \<in> flags then Some '',''
         else if modKeyValue \<in> flags \<or> modRequirements \<in> flags then None
         else if mr_ext ref \<noteq> [] \<and> \<not> HasSuffix value (mr_ext ref) then None
         else if mr_skipExt ref \<noteq> [] \<and> HasSuffix value (mr_skipExt ref) then None
         else
           let value = cut_path flags (last_ext flags (cut_ext flags value));
               suf = default_ext flags value suf;
               value = pre @ value @ suf;
               value = (if modToUpper \<in> flags then ToUpper sc value else value)
           in Some (if modToLower \<in> flags then ToLower sc value else value))"

section \<open>The tracker\<close>

definition tracker_replace :: "nat \<Rightarrow> nat \<Rightarrow> nat \<Rightarrow> (nat \<times> nat) list \<Rightarrow> (nat \<times> nat) list \<Rightarrow> (nat \<times> nat) list" where
  "tracker_replace start stop sz inserted ranges =
     concat (map (\<lambda>(s, e).
       (if s < start then [(s, min e start)] else [])
       @ (if stop < e then [(max s stop + sz - (stop - start), e + sz - (stop - start))] else [])) ranges)
     @ map (\<lambda>(s, e). (start + s, start + e)) inserted"

definition tracker_contains :: "nat \<Rightarrow> nat \<Rightarrow> (nat \<times> nat) list \<Rightarrow> bool" where
  "tracker_contains start stop ranges \<longleftrightarrow> (\<exists>r \<in> set ranges. fst r < stop \<and> start < snd r)"

text \<open>A nil tracker is \<open>None\<close>.\<close>

definition tracker_literal :: "nat \<Rightarrow> (nat \<times> nat) list option \<Rightarrow> bool" where
  "tracker_literal pos track = (case track of None \<Rightarrow> False | Some ranges \<Rightarrow> tracker_contains pos (pos + 1) ranges)"

definition track_replace :: "nat \<Rightarrow> nat \<Rightarrow> nat \<Rightarrow> (nat \<times> nat) list \<Rightarrow> (nat \<times> nat) list option \<Rightarrow> (nat \<times> nat) list option" where
  "track_replace start stop sz inserted = map_option (tracker_replace start stop sz inserted)"

section \<open>Substitution\<close>

text \<open>The policy; a nil function answers false.\<close>

record substPolicy =
  sp_makefile :: bool
  sp_command :: bool
  sp_emptyUnknown :: bool
  sp_keepModifiers :: bool
  sp_literal :: "string \<Rightarrow> bool"
  sp_reserved :: "string \<Rightarrow> bool"

type_synonym 'w sub_state = "'w \<times> (nat \<times> nat) list option"

fun render_values :: "'w substCalls \<Rightarrow> macroRef \<Rightarrow> bool \<Rightarrow> string \<Rightarrow> string \<Rightarrow> string \<Rightarrow> bool \<Rightarrow> string list \<Rightarrow> string" where
  "render_values sc ref file pre suf separator first [] = []"
| "render_values sc ref file pre suf separator first (v # vs) =
     (if file \<and> mr_flags ref = {} \<and> mr_ext ref = [] \<and> mr_skipExt ref = []
      then pre @ v @ suf @ render_values sc ref file pre suf separator False vs
      else
        case applyMacroMods sc ref v pre suf of
          None \<Rightarrow> render_values sc ref file pre suf separator first vs
        | Some value \<Rightarrow> (if first then [] else separator) @ value @ render_values sc ref file pre suf separator False vs)"

definition hex_digit :: "u8 \<Rightarrow> char" where
  "hex_digit n = ''0123456789abcdef'' ! unat n"

text \<open>What stands in the place of a reference whose variable is bound.\<close>

definition render_ref :: "'w substCalls \<Rightarrow> macroRef \<Rightarrow> macroValues \<Rightarrow> string \<Rightarrow> string \<Rightarrow> string" where
  "render_ref sc ref values pre suf =
     (let separator = (if modJoin \<in> mr_flags ref then mr_join ref else '' '');
          quote = (if modQuote \<in> mr_flags ref then [CHR 0x22] else []);
          text = quote @ render_values sc ref (mv_vfs values \<noteq> None) pre suf separator True (map (mv_at values) [0..<mv_count values]) @ quote
      in if modHash \<in> mr_flags ref
         then concat (map (\<lambda>b. [hex_digit (drop_bit 4 b), hex_digit (b AND 15)]) (sc_md5 sc text))
         else text)"

definition scanRef :: "substPolicy \<Rightarrow> string \<Rightarrow> (macroRef \<times> string) option result" where
  "scanRef pol s = (if sp_makefile pol then Inr (scanMakefileRef s) else scanMacroRef (sp_command pol) s)"

lemma scanRef_progress: "scanRef pol s = Inr (Some (ref, r)) \<Longrightarrow> length r < length s"
  by (auto simp: scanRef_def dest: scanMacroRef_progress scanMakefileRef_progress split: if_splits)

lemma scanRef_tail: "scanRef pol s = Inr (Some (ref, r)) \<Longrightarrow> take (length s - length r) s @ r = s"
  by (rule tail_of_split) (auto simp: scanRef_def dest: scanMacroRef_tail scanMakefileRef_tail split: if_splits)

text \<open>A prefix or a suffix is itself expanded when it has a dollar sign.\<close>

definition expand_part :: "(string \<Rightarrow> 's \<Rightarrow> (string \<times> 's) result) \<Rightarrow> string \<Rightarrow> 's \<Rightarrow> (string \<times> 's) result" where
  "expand_part deep s st = (if CHR ''$'' \<in> set s then deep s st else Inr (s, st))"

text \<open>
  What a reference at the place \<open>at\<close> becomes: \<open>None\<close> when it is left as it is. \<open>len\<close> is the length of its text.
\<close>

definition look_ref :: "'w substCalls \<Rightarrow> substPolicy \<Rightarrow> macroRef \<Rightarrow> 'w sub_state \<Rightarrow> (macroValues option option \<times> 'w sub_state) result" where
  "look_ref sc pol ref st =
     (if mr_raw ref \<or> sp_keepModifiers pol \<and> mr_flags ref \<noteq> {} then Inr (None, st)
      else if mr_process ref
      then Inr (Some (Some \<lparr>mv_list = [], mv_single = sc_getenv sc (mr_name ref), mv_vfs = None, mv_one = True\<rparr>), st)
      else if sp_literal pol (mr_name ref) then Inr (None, st)
      else rbind (sc_lookup sc (mr_name ref) (fst st)) (\<lambda>(v, w).
        Inr (if v = None \<and> (\<not> sp_emptyUnknown pol \<or> sp_reserved pol (mr_name ref)) then None else Some v, (w, snd st))))"

definition replace_ref :: "'w substCalls \<Rightarrow> (string \<Rightarrow> 'w sub_state \<Rightarrow> (string \<times> 'w sub_state) result) \<Rightarrow> macroRef \<Rightarrow> nat \<Rightarrow> nat \<Rightarrow>
    macroValues option \<Rightarrow> 'w sub_state \<Rightarrow> (string \<times> 'w sub_state) result" where
  "replace_ref sc deep ref at len v st =
     rbind (if snd st \<noteq> None \<and> v \<noteq> None \<and> \<not> mr_process ref then sc_inputs sc (mr_name ref) (fst st) else Inr []) (\<lambda>inserted.
       case v of
         None \<Rightarrow> Inr ([], (fst st, track_replace at (at + len) 0 [] (snd st)))
       | Some values \<Rightarrow>
           if modHide \<in> mr_flags ref then Inr ([], (fst st, track_replace at (at + len) 0 [] (snd st)))
           else
             rbind (expand_part deep (mr_prefix ref) st) (\<lambda>(pre, st).
             rbind (expand_part deep (mr_suffix ref) st) (\<lambda>(suf, st).
               let text = render_ref sc ref values pre suf
               in Inr (text, (fst st, track_replace at (at + len) (length text) inserted (snd st))))))"

text \<open>
  The loop of \<^verbatim>\<open>substMacroAppend\<close>. \<open>rest\<close> is the text from the place \<^verbatim>\<open>i\<close> on, \<open>lit\<close> the stretch between \<^verbatim>\<open>copied\<close> and
  \<^verbatim>\<open>i\<close>, \<open>changed\<close> whether \<^verbatim>\<open>copied\<close> is not 0, \<open>out\<close> what has been appended since \<^verbatim>\<open>base\<close>.
\<close>

function subst_loop :: "'w substCalls \<Rightarrow> (string \<Rightarrow> 'w sub_state \<Rightarrow> (string \<times> 'w sub_state) result) \<Rightarrow> substPolicy \<Rightarrow>
    string \<Rightarrow> string \<Rightarrow> bool \<Rightarrow> string \<Rightarrow> 'w sub_state \<Rightarrow> ((string \<times> bool) \<times> 'w sub_state) result" where
  "subst_loop sc deep pol rest lit changed out st =
     (case rest of
        [] \<Rightarrow> Inr ((if changed then out @ lit else out, changed), st)
      | c # s \<Rightarrow>
          if c = CHR 0x5C then
            if sp_makefile pol \<and> s \<noteq> []
            then let pos = length out + length lit
                 in subst_loop sc deep pol (tl s) [hd s] True (out @ lit) (fst st, track_replace pos (pos + 1) 0 [] (snd st))
            else subst_loop sc deep pol (tl s) (lit @ c # take 1 s) changed out st
          else if c \<noteq> CHR ''$'' then
            subst_loop sc deep pol (dropWhile (\<lambda>x. x \<noteq> CHR ''$'' \<and> x \<noteq> CHR 0x5C) rest)
              (lit @ takeWhile (\<lambda>x. x \<noteq> CHR ''$'' \<and> x \<noteq> CHR 0x5C) rest) changed out st
          else if tracker_literal (length out + length lit) (snd st) then subst_loop sc deep pol s (lit @ [c]) changed out st
          else
            rbind (scanRef pol s) (\<lambda>x.
              case x of
                None \<Rightarrow> subst_loop sc deep pol s (lit @ [c]) changed out st
              | Some (ref, r) \<Rightarrow>
                  let here = c # take (length s - length r) s
                  in rbind (look_ref sc pol ref st) (\<lambda>(v, st).
                    case v of
                      None \<Rightarrow> subst_loop sc deep pol r (lit @ here) changed out st
                    | Some v \<Rightarrow>
                        rbind (replace_ref sc deep ref (length (out @ lit)) (length here) v st) (\<lambda>(text, st).
                          subst_loop sc deep pol r [] True (out @ lit @ text) st))))"
  by pat_completeness auto
termination
  by (relation "measure (\<lambda>(_, _, _, rest, _). length rest)")
    (auto dest: scanRef_progress simp: length_dropWhile_le less_Suc_eq_le neq_Nil_conv)

declare subst_loop.simps [simp del]

definition substMacroAppend :: "'w substCalls \<Rightarrow> (string \<Rightarrow> 'w sub_state \<Rightarrow> (string \<times> 'w sub_state) result) \<Rightarrow> substPolicy \<Rightarrow>
    string \<Rightarrow> 'w sub_state \<Rightarrow> ((string \<times> bool) \<times> 'w sub_state) result" where
  "substMacroAppend sc deep pol text st = subst_loop sc deep pol text [] False [] st"

definition substMacro :: "'w substCalls \<Rightarrow> (string \<Rightarrow> 'w sub_state \<Rightarrow> (string \<times> 'w sub_state) result) \<Rightarrow> substPolicy \<Rightarrow>
    string \<Rightarrow> 'w sub_state \<Rightarrow> (string \<times> 'w sub_state) result" where
  "substMacro sc deep pol text st =
     rbind (substMacroAppend sc deep pol text st) (\<lambda>((out, changed), st). Inr (if changed then out else text, st))"

definition limit_error :: go_error where
  "limit_error = Thrown ''Macro subst exceeded the limit 128'' []"

text \<open>The rounds of \<^verbatim>\<open>substMacroDeeply\<close>; \<open>n\<close> rounds may follow this one.\<close>

fun deep_rounds :: "(string \<Rightarrow> 's \<Rightarrow> (string \<times> 's) result) \<Rightarrow> nat \<Rightarrow> string \<Rightarrow> 's \<Rightarrow> (string \<times> 's) result" where
  "deep_rounds once n text st =
     rbind (once text st) (\<lambda>(next, st).
       if next = text \<or> CHR ''$'' \<notin> set next then Inr (next, st)
       else case n of 0 \<Rightarrow> Inl limit_error | Suc n \<Rightarrow> deep_rounds once n next st)"

definition nothing_to_do :: "substPolicy \<Rightarrow> string \<Rightarrow> bool" where
  "nothing_to_do pol text \<longleftrightarrow> CHR ''$'' \<notin> set text \<and> (\<not> sp_makefile pol \<or> CHR 0x5C \<notin> set text)"

text \<open>The fuel bounds the nesting of prefixes and suffixes.\<close>

primrec substMacroDeeply :: "nat \<Rightarrow> 'w substCalls \<Rightarrow> substPolicy \<Rightarrow> string \<Rightarrow> 'w sub_state \<Rightarrow> (string \<times> 'w sub_state) result" where
  "substMacroDeeply 0 sc pol text st = Inl OutOfFuel"
| "substMacroDeeply (Suc fuel) sc pol text st =
     (if nothing_to_do pol text then Inr (text, st)
      else if sp_makefile pol then substMacro sc (substMacroDeeply fuel sc pol) pol text st
      else deep_rounds (substMacro sc (substMacroDeeply fuel sc pol) pol) 127 text st)"

fun into_rounds :: "bool \<Rightarrow> (string \<Rightarrow> 's \<Rightarrow> ((string \<times> bool) \<times> 's) result) \<Rightarrow> nat \<Rightarrow> string \<Rightarrow> 's \<Rightarrow> (string \<times> 's) result" where
  "into_rounds makefile fill n text st =
     rbind (fill text st) (\<lambda>((next, changed), st).
       if \<not> changed then Inr (text, st)
       else if makefile \<or> CHR ''$'' \<notin> set next \<or> next = text then Inr (next, st)
       else case n of 0 \<Rightarrow> Inl limit_error | Suc n \<Rightarrow> into_rounds makefile fill n next st)"

text \<open>\<^verbatim>\<open>substMacroDeeplyInto\<close>, which builds the texts in two buffers in turn; nested parts are expanded as above.\<close>

definition substMacroDeeplyInto :: "nat \<Rightarrow> 'w substCalls \<Rightarrow> substPolicy \<Rightarrow> string \<Rightarrow> 'w sub_state \<Rightarrow> (string \<times> 'w sub_state) result" where
  "substMacroDeeplyInto fuel sc pol text st =
     (if nothing_to_do pol text then Inr (text, st)
      else into_rounds (sp_makefile pol) (substMacroAppend sc (substMacroDeeply fuel sc pol) pol) 127 text st)"

declare deep_rounds.simps [simp del] into_rounds.simps [simp del]

section \<open>The two ways to repeat\<close>

lemma substMacro_run:
  "substMacro sc deep pol t st = rbind (substMacroAppend sc deep pol t st) (\<lambda>((out, changed), st). Inr (if changed then out else t, st))"
  by (simp add: substMacro_def)

lemma into_rounds_agrees:
  "into_rounds False (substMacroAppend sc deep pol) n t st = deep_rounds (substMacro sc deep pol) n t st"
proof (induction n arbitrary: t st)
  case 0
  show ?case
    by (subst into_rounds.simps, subst deep_rounds.simps, cases "substMacroAppend sc deep pol t st") (auto simp: substMacro_run)
next
  case (Suc n)
  show ?case
    by (subst into_rounds.simps, subst deep_rounds.simps, cases "substMacroAppend sc deep pol t st") (auto simp: substMacro_run [of _ _ _ t st] Suc)
qed

lemma into_rounds_makefile: "into_rounds True (substMacroAppend sc deep pol) n text st = substMacro sc deep pol text st"
  by (subst into_rounds.simps, cases "substMacroAppend sc deep pol text st") (auto simp: substMacro_def)


section \<open>The tracker\<close>

definition covered :: "(nat \<times> nat) list \<Rightarrow> nat set" where
  "covered ranges = {p. \<exists>r \<in> set ranges. fst r \<le> p \<and> p < snd r}"

lemma covered_simps [simp]: "covered [] = {}" "covered ((s, e) # rs) = {s..<e} \<union> covered rs" "covered (xs @ ys) = covered xs \<union> covered ys"
  by (auto simp: covered_def)

lemma covered_one:
  assumes "start \<le> stop"
  shows "covered ((if s < start then [(s, min e start)] else [])
      @ (if stop < e then [(max s stop + sz - (stop - start), e + sz - (stop - start))] else []))
    = {p \<in> {s..<e}. p < start} \<union> (\<lambda>p. p + sz - (stop - start)) ` {p \<in> {s..<e}. stop \<le> p}" (is "?L = ?A \<union> ?f ` ?B")
proof -
  have inj: "?f p = ?f q \<longleftrightarrow> p = q" if "stop \<le> p" "stop \<le> q" for p q using that assms by auto
  have "?f ` ?B = (if stop < e then {?f (max s stop)..<?f e} else {})"
  proof -
    have "x \<in> ?f ` ?B" if "?f (max s stop) \<le> x" "x < ?f e" "stop < e" for x
      by (rule image_eqI [of _ _ "x + (stop - start) - sz"]) (use that assms in auto)
    moreover have "?f (max s stop) \<le> ?f p \<and> ?f p < ?f e \<and> stop < e" if "p \<in> ?B" for p using that assms by auto
    ultimately show ?thesis by (auto simp: image_iff)
  qed
  then show ?thesis by auto
qed

text \<open>
  C23: Replacing the bytes from \<open>start\<close> to \<open>stop\<close> by \<open>sz\<close> others moves what the tracker covers exactly: what lay
  before stays, what lay behind moves along, what was replaced is gone, and what the inserted text brings
  is added at its place.
\<close>

theorem tracker_replace_covers:
  assumes "start \<le> stop"
  shows "covered (tracker_replace start stop sz inserted ranges) =
    {p \<in> covered ranges. p < start} \<union> (\<lambda>p. p + sz - (stop - start)) ` {p \<in> covered ranges. stop \<le> p} \<union> (+) start ` covered inserted"
proof -
  have shift: "covered (map (\<lambda>(s, e). (start + s, start + e)) rs) = (+) start ` covered rs" for rs
  proof (induction rs)
    case (Cons r rs)
    have "{start + fst r..<start + snd r} = (+) start ` {fst r..<snd r}" by (simp add: add.commute)
    then show ?case using Cons by (cases r) (simp add: image_Un)
  qed simp
  have "covered (concat (map (\<lambda>(s, e). (if s < start then [(s, min e start)] else [])
      @ (if stop < e then [(max s stop + sz - (stop - start), e + sz - (stop - start))] else [])) rs))
    = {p \<in> covered rs. p < start} \<union> (\<lambda>p. p + sz - (stop - start)) ` {p \<in> covered rs. stop \<le> p}" for rs
  proof (induction rs)
    case (Cons r rs)
    obtain s e where r: "r = (s, e)" by fastforce
    show ?case unfolding list.map concat.simps r split_conv covered_simps(3) [of "_ @ _"] covered_one [OF assms] Cons covered_simps(2) by blast
  qed simp
  then show ?thesis unfolding tracker_replace_def covered_simps(3) shift by simp
qed

theorem tracker_replace_covers_witness:
  "covered (tracker_replace 2 5 1 [(0, 1)] [(0, 3), (4, 7)]) = {0, 1, 2, 3, 4}"
proof -
  have c: "covered [(0, 3), (4, 7)] = {0, 1, 2, 4, 5, 6}" "covered [(0, 1)] = {0}" by auto
  have "{p \<in> {0, 1, 2, 4, 5, 6}. p < 2} = {0, 1 :: nat}" "{p \<in> {0, 1, 2, 4, 5, 6}. 5 \<le> p} = {5, 6 :: nat}" by auto
  then show ?thesis using tracker_replace_covers [of 2 5 1 "[(0, 1)]" "[(0, 3), (4, 7)]"] unfolding c by auto
qed

section \<open>The reference definition\<close>

text \<open>
  Expansion of a text when every variable has a value: the text piece by piece, without a state, a tracker
  or stretches that wait to be copied. The second component says whether anything has been replaced.
\<close>

definition value_of_ref :: "'w substCalls \<Rightarrow> (string \<Rightarrow> macroValues option) \<Rightarrow> substPolicy \<Rightarrow> macroRef \<Rightarrow> macroValues option option" where
  "value_of_ref sc val pol ref =
     (if mr_raw ref \<or> sp_keepModifiers pol \<and> mr_flags ref \<noteq> {} then None
      else if mr_process ref then Some (Some \<lparr>mv_list = [], mv_single = sc_getenv sc (mr_name ref), mv_vfs = None, mv_one = True\<rparr>)
      else if sp_literal pol (mr_name ref) then None
      else if val (mr_name ref) = None \<and> (\<not> sp_emptyUnknown pol \<or> sp_reserved pol (mr_name ref)) then None
      else Some (val (mr_name ref)))"

definition text_of_ref :: "'w substCalls \<Rightarrow> (string \<Rightarrow> string result) \<Rightarrow> macroRef \<Rightarrow> macroValues option \<Rightarrow> string result" where
  "text_of_ref sc deep ref v =
     (case v of
        None \<Rightarrow> Inr []
      | Some values \<Rightarrow>
          if modHide \<in> mr_flags ref then Inr []
          else
            rbind (if CHR ''$'' \<in> set (mr_prefix ref) then deep (mr_prefix ref) else Inr (mr_prefix ref)) (\<lambda>pre.
            rbind (if CHR ''$'' \<in> set (mr_suffix ref) then deep (mr_suffix ref) else Inr (mr_suffix ref)) (\<lambda>suf.
              Inr (render_ref sc ref values pre suf))))"

definition before_text :: "string \<Rightarrow> bool \<Rightarrow> (string \<times> bool) result \<Rightarrow> (string \<times> bool) result" where
  "before_text p changed m = rbind m (\<lambda>(t, ch). Inr (p @ t, changed \<or> ch))"

lemma before_text_cong [fundef_cong]: "p = p' \<Longrightarrow> c = c' \<Longrightarrow> m = m' \<Longrightarrow> before_text p c m = before_text p' c' m'"
  by simp

function expand_once :: "'w substCalls \<Rightarrow> (string \<Rightarrow> macroValues option) \<Rightarrow> (string \<Rightarrow> string result) \<Rightarrow> substPolicy \<Rightarrow> string \<Rightarrow> (string \<times> bool) result" where
  "expand_once sc val deep pol [] = Inr ([], False)"
| "expand_once sc val deep pol (c # s) =
     (if c = CHR 0x5C then
        if sp_makefile pol \<and> s \<noteq> [] then before_text [hd s] True (expand_once sc val deep pol (tl s))
        else before_text (c # take 1 s) False (expand_once sc val deep pol (tl s))
      else if c \<noteq> CHR ''$'' then before_text [c] False (expand_once sc val deep pol s)
      else
        rbind (scanRef pol s) (\<lambda>x.
          case x of
            None \<Rightarrow> before_text [c] False (expand_once sc val deep pol s)
          | Some (ref, r) \<Rightarrow>
              (case value_of_ref sc val pol ref of
                 None \<Rightarrow> before_text (c # take (length s - length r) s) False (expand_once sc val deep pol r)
               | Some v \<Rightarrow> rbind (text_of_ref sc deep ref v) (\<lambda>t. before_text t True (expand_once sc val deep pol r)))))"
  by pat_completeness auto
termination
  by (relation "measure (\<lambda>(_, _, _, _, s). length s)") (auto dest: scanRef_progress)

declare expand_once.simps [simp del]

definition expand_text :: "'w substCalls \<Rightarrow> (string \<Rightarrow> macroValues option) \<Rightarrow> (string \<Rightarrow> string result) \<Rightarrow> substPolicy \<Rightarrow> string \<Rightarrow> string result" where
  "expand_text sc val deep pol t = rbind (expand_once sc val deep pol t) (\<lambda>(x, _). Inr x)"

fun expand_rounds :: "(string \<Rightarrow> string result) \<Rightarrow> nat \<Rightarrow> string \<Rightarrow> string result" where
  "expand_rounds once n t =
     rbind (once t) (\<lambda>x. if x = t \<or> CHR ''$'' \<notin> set x then Inr x
       else case n of 0 \<Rightarrow> Inl limit_error | Suc n \<Rightarrow> expand_rounds once n x)"

declare expand_rounds.simps [simp del]

primrec expand_deeply :: "nat \<Rightarrow> 'w substCalls \<Rightarrow> (string \<Rightarrow> macroValues option) \<Rightarrow> substPolicy \<Rightarrow> string \<Rightarrow> string result" where
  "expand_deeply 0 sc val pol t = Inl OutOfFuel"
| "expand_deeply (Suc fuel) sc val pol t =
     (if nothing_to_do pol t then Inr t
      else if sp_makefile pol then expand_text sc val (expand_deeply fuel sc val pol) pol t
      else expand_rounds (expand_text sc val (expand_deeply fuel sc val pol) pol) 127 t)"

text \<open>The names a reference, a text and a repeated expansion look up.\<close>

definition looked_up :: "substPolicy \<Rightarrow> macroRef \<Rightarrow> bool" where
  "looked_up pol ref \<longleftrightarrow> \<not> (mr_raw ref \<or> sp_keepModifiers pol \<and> mr_flags ref \<noteq> {}) \<and> \<not> mr_process ref \<and> \<not> sp_literal pol (mr_name ref)"

definition names_of_ref :: "'w substCalls \<Rightarrow> (string \<Rightarrow> macroValues option) \<Rightarrow> (string \<Rightarrow> string set) \<Rightarrow> substPolicy \<Rightarrow> macroRef \<Rightarrow> string set" where
  "names_of_ref sc val deep pol ref =
     (if looked_up pol ref then {mr_name ref} else {})
     \<union> (case value_of_ref sc val pol ref of
          Some (Some v) \<Rightarrow>
            if modHide \<in> mr_flags ref then {}
            else (if CHR ''$'' \<in> set (mr_prefix ref) then deep (mr_prefix ref) else {}) \<union> (if CHR ''$'' \<in> set (mr_suffix ref) then deep (mr_suffix ref) else {})
        | _ \<Rightarrow> {})"

function names_once :: "'w substCalls \<Rightarrow> (string \<Rightarrow> macroValues option) \<Rightarrow> (string \<Rightarrow> string set) \<Rightarrow> substPolicy \<Rightarrow> string \<Rightarrow> string set" where
  "names_once sc val deep pol [] = {}"
| "names_once sc val deep pol (c # s) =
     (if c = CHR 0x5C then names_once sc val deep pol (tl s)
      else if c \<noteq> CHR ''$'' then names_once sc val deep pol s
      else
        case scanRef pol s of
          Inl e \<Rightarrow> {}
        | Inr None \<Rightarrow> names_once sc val deep pol s
        | Inr (Some (ref, r)) \<Rightarrow> names_of_ref sc val deep pol ref \<union> names_once sc val deep pol r)"
  by pat_completeness auto
termination
  by (relation "measure (\<lambda>(_, _, _, _, s). length s)") (auto dest: scanRef_progress)

declare names_once.simps [simp del]

fun names_rounds :: "(string \<Rightarrow> string result) \<Rightarrow> (string \<Rightarrow> string set) \<Rightarrow> nat \<Rightarrow> string \<Rightarrow> string set" where
  "names_rounds once nms n t =
     nms t \<union> (case once t of
        Inl e \<Rightarrow> {}
      | Inr x \<Rightarrow> if x = t \<or> CHR ''$'' \<notin> set x then {} else case n of 0 \<Rightarrow> {} | Suc n \<Rightarrow> names_rounds once nms n x)"

declare names_rounds.simps [simp del]

primrec names_deeply :: "nat \<Rightarrow> 'w substCalls \<Rightarrow> (string \<Rightarrow> macroValues option) \<Rightarrow> substPolicy \<Rightarrow> string \<Rightarrow> string set" where
  "names_deeply 0 sc val pol t = {}"
| "names_deeply (Suc fuel) sc val pol t =
     (if nothing_to_do pol t then {}
      else if sp_makefile pol then names_once sc val (names_deeply fuel sc val pol) pol t
      else names_rounds (expand_text sc val (expand_deeply fuel sc val pol) pol) (names_once sc val (names_deeply fuel sc val pol) pol) 127 t)"

lemma names_plain:
  "list_all (\<lambda>x. x \<noteq> CHR ''$'' \<and> x \<noteq> CHR 0x5C) xs \<Longrightarrow> names_once sc val deep pol (xs @ r) = names_once sc val deep pol r"
  by (induction xs) (simp_all add: names_once.simps)

lemma before_before: "before_text p a (before_text q b m) = before_text (p @ q) (a \<or> b) m"
  by (cases m) (auto simp: before_text_def split: prod.splits)

lemma before_nothing: "before_text [] False m = m"
  by (cases m) (auto simp: before_text_def)

lemma expand_plain:
  "list_all (\<lambda>x. x \<noteq> CHR ''$'' \<and> x \<noteq> CHR 0x5C) xs \<Longrightarrow> expand_once sc val deep pol (xs @ r) = before_text xs False (expand_once sc val deep pol r)"
  by (induction xs) (simp_all add: before_nothing before_before expand_once.simps)

subsection \<open>The loop computes it\<close>

definition same :: "('w \<Rightarrow> bool) \<Rightarrow> ('a \<times> 'w sub_state) result \<Rightarrow> 'a result \<Rightarrow> bool" where
  "same good m x = (case x of Inl e \<Rightarrow> m = Inl e | Inr a \<Rightarrow> (\<exists>w. good w \<and> m = Inr (a, (w, None))))"

lemma same_ret: "good w \<Longrightarrow> same good (Inr (a, (w, None))) (Inr a)"
  by (simp add: same_def)

lemma same_err: "same good (Inl e) (Inl e)"
  by (simp add: same_def)

lemma same_bind:
  assumes "same good m x" and "\<And>a w. x = Inr a \<Longrightarrow> good w \<Longrightarrow> same good (f (a, (w, None))) (g a)"
  shows "same good (rbind m f) (rbind x g)"
proof (cases x)
  case (Inl e)
  then show ?thesis using assms(1) by (simp add: same_def)
next
  case (Inr a)
  then obtain w where "good w" "m = Inr (a, (w, None))" using assms(1) by (auto simp: same_def)
  then show ?thesis using assms(2) [OF Inr] Inr by simp
qed

lemma same_cases:
  assumes "same good m x" obtains (err) e where "x = Inl e" "m = Inl e" | (ok) a w where "x = Inr a" "good w" "m = Inr (a, (w, None))"
  using assms by (cases x) (auto simp: same_def)

locale steady_lookup =
  fixes sc :: "'w substCalls" and good :: "'w \<Rightarrow> bool" and known :: "string set" and val :: "string \<Rightarrow> macroValues option"
  assumes lookup_steady: "good w \<Longrightarrow> name \<in> known \<Longrightarrow> \<exists>w'. sc_lookup sc name w = Inr (val name, w') \<and> good w'"
begin

definition sound :: "(string \<Rightarrow> 'w sub_state \<Rightarrow> (string \<times> 'w sub_state) result) \<Rightarrow> (string \<Rightarrow> string result) \<Rightarrow> (string \<Rightarrow> string set) \<Rightarrow> bool" where
  "sound deep deepv nms \<longleftrightarrow> (\<forall>s w. good w \<longrightarrow> nms s \<subseteq> known \<longrightarrow> same good (deep s (w, None)) (deepv s))"

lemma soundD: "sound deep deepv nms \<Longrightarrow> good w \<Longrightarrow> nms s \<subseteq> known \<Longrightarrow> same good (deep s (w, None)) (deepv s)"
  by (simp add: sound_def)

lemma look_ref_same:
  assumes "good w" and "looked_up pol ref \<Longrightarrow> mr_name ref \<in> known"
  shows "same good (look_ref sc pol ref (w, None)) (Inr (value_of_ref sc val pol ref))"
  using assms lookup_steady [of w "mr_name ref"] by (auto simp: look_ref_def value_of_ref_def looked_up_def same_def)

lemma part_same:
  assumes "sound deep deepv nms" and "good w" and "CHR ''$'' \<in> set s \<Longrightarrow> nms s \<subseteq> known"
  shows "same good (expand_part deep s (w, None)) (if CHR ''$'' \<in> set s then deepv s else Inr s)"
  using soundD [OF assms(1,2)] assms(2,3) by (simp add: expand_part_def same_ret)

lemma replace_ref_same:
  assumes deep: "sound deep deepv nms" and w: "good w"
    and v: "value_of_ref sc val pol ref = Some v" and known: "names_of_ref sc val nms pol ref \<subseteq> known"
  shows "same good (replace_ref sc deep ref at len v (w, None)) (text_of_ref sc deepv ref v)"
proof (cases "v = None \<or> modHide \<in> mr_flags ref")
  case True
  then show ?thesis using w by (cases v) (auto simp: replace_ref_def text_of_ref_def track_replace_def same_ret)
next
  case False
  then obtain vals where vals: "v = Some vals" "modHide \<notin> mr_flags ref" by auto
  have k: "CHR ''$'' \<in> set (mr_prefix ref) \<Longrightarrow> nms (mr_prefix ref) \<subseteq> known" "CHR ''$'' \<in> set (mr_suffix ref) \<Longrightarrow> nms (mr_suffix ref) \<subseteq> known"
    using known v vals by (auto simp: names_of_ref_def)
  have "same good (replace_ref sc deep ref at len v (w, None)) (rbind (if CHR ''$'' \<in> set (mr_prefix ref) then deepv (mr_prefix ref) else Inr (mr_prefix ref)) (\<lambda>pre.
      rbind (if CHR ''$'' \<in> set (mr_suffix ref) then deepv (mr_suffix ref) else Inr (mr_suffix ref)) (\<lambda>suf. Inr (render_ref sc ref vals pre suf))))"
    unfolding replace_ref_def vals(1) option.simps if_not_P [OF vals(2)] snd_conv track_replace_def
    by (simp only: simp_thms if_False rbind_simps, intro same_bind part_same [OF deep] w k, simp_all only: split_conv)
      ((intro same_bind part_same [OF deep] k, assumption+, simp add: same_ret Let_def)+)
  then show ?thesis using vals by (simp add: text_of_ref_def)
qed

lemma before_same:
  assumes m: "same good m (rbind x (\<lambda>(t, ch). Inr (if (changed \<or> c) \<or> ch then out' @ lit' @ t else out', (changed \<or> c) \<or> ch)))"
    and e: "\<And>t ch. x = Inr (t, ch) \<Longrightarrow> (if (changed \<or> c) \<or> ch then out' @ lit' @ t else out') = (if changed \<or> c \<or> ch then out @ lit @ p @ t else out)"
  shows "same good m (rbind (before_text p c x) (\<lambda>(t, ch). Inr (if changed \<or> ch then out @ lit @ t else out, changed \<or> ch)))"
proof (cases x)
  case (Inl e)
  then show ?thesis using m by (simp add: before_text_def)
next
  case (Inr a)
  obtain t ch where a: "a = (t, ch)" by fastforce
  show ?thesis using m e [of t ch] unfolding Inr a before_text_def rbind_simps split_conv by (simp only: disj_assoc)
qed

lemma subst_loop_same:
  assumes deep: "sound deep deepv nms"
  shows "good w \<Longrightarrow> names_once sc val nms pol rest \<subseteq> known \<Longrightarrow> same good (subst_loop sc deep pol rest lit changed out (w, None))
    (rbind (expand_once sc val deepv pol rest) (\<lambda>(t, ch). Inr (if changed \<or> ch then out @ lit @ t else out, changed \<or> ch)))"
proof (induction "length rest" arbitrary: rest lit changed out w rule: less_induct)
  case less
  note IH = less.hyps
  let ?x = "expand_once sc val deepv pol"
  show ?case
  proof (cases rest)
    case Nil
    then show ?thesis using less.prems by (subst subst_loop.simps) (simp add: expand_once.simps same_ret)
  next
    case (Cons c s)
    note u = subst_loop.simps [of sc deep pol rest lit changed out "(w, None)", unfolded Cons list.case]
      and x = expand_once.simps(2) [of sc val deepv pol c s] and n = less.prems(2) [unfolded Cons names_once.simps]
    have lit_none: "tracker_literal n None = False" "track_replace a b z i None = None" for n a b z i
      by (simp_all add: tracker_literal_def track_replace_def)
    have keep: "same good (subst_loop sc deep pol r (lit @ p) changed out (w', None))
        (rbind (before_text p False (?x r)) (\<lambda>(t, ch). Inr (if changed \<or> ch then out @ lit @ t else out, changed \<or> ch)))"
      if "length r < length rest" "good w'" "names_once sc val nms pol r \<subseteq> known" for r p w'
      by (rule before_same [where out' = out and lit' = "lit @ p"]) (use IH [OF that] in simp_all)
    have change: "same good (subst_loop sc deep pol r lit' True out' (w', None))
        (rbind (before_text p True (?x r)) (\<lambda>(t, ch). Inr (if changed \<or> ch then out @ lit @ t else out, changed \<or> ch)))"
      if "length r < length rest" "good w'" "names_once sc val nms pol r \<subseteq> known" "out' @ lit' = out @ lit @ p" for r p w' out' lit'
    proof (rule before_same [where out' = out' and lit' = lit'])
      show "same good (subst_loop sc deep pol r lit' True out' (w', None))
        (rbind (?x r) (\<lambda>(t, ch). Inr (if (changed \<or> True) \<or> ch then out' @ lit' @ t else out', (changed \<or> True) \<or> ch)))"
        using IH [OF that(1-3), of lit' True out'] by simp
      show "(if (changed \<or> True) \<or> ch then out' @ lit' @ t else out') = (if changed \<or> True \<or> ch then out @ lit @ p @ t else out)" for t ch
        using arg_cong [OF that(4), of "\<lambda>z. z @ t"] by simp
    qed
    consider (esc) "c = CHR 0x5C" "sp_makefile pol" "s \<noteq> []" | (bs) "c = CHR 0x5C" "\<not> (sp_makefile pol \<and> s \<noteq> [])"
      | (plain) "c \<noteq> CHR 0x5C" "c \<noteq> CHR ''$''" | (dollar) "c = CHR ''$''" by blast
    then show ?thesis
    proof cases
      case esc
      have "subst_loop sc deep pol rest lit changed out (w, None) = subst_loop sc deep pol (tl s) [hd s] True (out @ lit) (w, None)"
        using u esc Cons by (simp add: Let_def lit_none)
      moreover have "?x rest = before_text [hd s] True (?x (tl s))" using x esc Cons by simp
      ultimately show ?thesis using change [of "tl s" w "out @ lit" "[hd s]" "[hd s]"] less.prems(1) Cons n esc by simp
    next
      case bs
      have "subst_loop sc deep pol rest lit changed out (w, None) = subst_loop sc deep pol (tl s) (lit @ c # take 1 s) changed out (w, None)"
        using u bs Cons by auto
      moreover have "?x rest = before_text (c # take 1 s) False (?x (tl s))" using x bs Cons by auto
      ultimately show ?thesis using keep [of "tl s" w "c # take 1 s"] less.prems(1) Cons n bs by (simp add: less_Suc_eq_le)
    next
      case plain
      let ?P = "\<lambda>x. x \<noteq> CHR ''$'' \<and> x \<noteq> CHR 0x5C"
      have "subst_loop sc deep pol rest lit changed out (w, None) =
          subst_loop sc deep pol (dropWhile ?P rest) (lit @ takeWhile ?P rest) changed out (w, None)"
        using u plain Cons by simp
      moreover have "?x (takeWhile ?P rest @ dropWhile ?P rest) = before_text (takeWhile ?P rest) False (?x (dropWhile ?P rest))"
        by (rule expand_plain) (auto simp: list_all_iff dest: set_takeWhileD)
      moreover have "length (dropWhile ?P rest) < length rest" using plain Cons by (simp add: length_dropWhile_le less_Suc_eq_le)
      moreover have "names_once sc val nms pol (takeWhile ?P rest @ dropWhile ?P rest) = names_once sc val nms pol (dropWhile ?P rest)"
        by (rule names_plain) (auto simp: list_all_iff dest: set_takeWhileD)
      ultimately show ?thesis using keep [of "dropWhile ?P rest" w "takeWhile ?P rest"] less.prems by simp
    next
      case dollar
      have c: "c \<noteq> CHR 0x5C" "\<not> c \<noteq> CHR ''$''" using dollar by simp_all
      note u = u [unfolded if_not_P [OF c(1)] if_not_P [OF c(2)] snd_conv lit_none if_False, folded Cons]
        and x = x [unfolded if_not_P [OF c(1)] if_not_P [OF c(2)], folded Cons]
      show ?thesis
      proof (cases "scanRef pol s")
        case (Inl e)
        then show ?thesis using u x by (simp add: same_err)
      next
        case (Inr y)
        show ?thesis
        proof (cases y)
          case None
          then show ?thesis using u x Inr keep [of s w "[c]"] less.prems(1) Cons n c by simp
        next
          case (Some z)
          obtain ref r where z: "z = (ref, r)" by fastforce
          let ?here = "c # take (length s - length r) s"
          have r: "length r < length rest" using scanRef_progress [of pol s ref r] Inr Some z Cons by simp
          have k: "names_of_ref sc val nms pol ref \<subseteq> known" "names_once sc val nms pol r \<subseteq> known"
            using n c Inr Some z by simp_all
          have name: "looked_up pol ref \<Longrightarrow> mr_name ref \<in> known" using k(1) by (simp add: names_of_ref_def)
          obtain w1 where w1: "look_ref sc pol ref (w, None) = Inr (value_of_ref sc val pol ref, (w1, None))" "good w1"
            using look_ref_same [OF less.prems(1) name] by (auto simp: same_def)
          show ?thesis
          proof (cases "value_of_ref sc val pol ref")
            case None
            then show ?thesis using u x Inr Some z w1 keep [OF r w1(2) k(2), of ?here] by (simp add: Let_def)
          next
            case v: (Some v)
            have "same good (replace_ref sc deep ref (length (out @ lit)) (length ?here) v (w1, None)) (text_of_ref sc deepv ref v)"
              by (rule replace_ref_same [OF deep w1(2) v k(1)])
            then show ?thesis
            proof (cases rule: same_cases)
              case (err e)
              then show ?thesis using u x Inr Some z w1 v by (simp add: Let_def same_err)
            next
              case (ok t w2)
              then show ?thesis using u x Inr Some z w1 v change [OF r ok(2) k(2), of "out @ lit @ t" "[]" t] by (simp add: Let_def)
            qed
          qed
        qed
      qed
    qed
  qed
qed

lemma expand_once_unchanged: "expand_once sc val deepv pol t = Inr (x, False) \<Longrightarrow> x = t"
proof (induction "length t" arbitrary: t x rule: less_induct)
  case less
  show ?case
  proof (cases t)
    case Nil
    then show ?thesis using less.prems by (simp add: expand_once.simps)
  next
    case (Cons c s)
    have step: ?thesis if b: "before_text p b (expand_once sc val deepv pol r) = Inr (x, False)" and pr: "p @ r = t" "length r < length t" for p b r
    proof -
      obtain y where "x = p @ y" "expand_once sc val deepv pol r = Inr (y, False)"
        using b by (cases "expand_once sc val deepv pol r") (auto simp: before_text_def)
      then show ?thesis using less.hyps [OF pr(2)] pr(1) by simp
    qed
    note e = less.prems [unfolded Cons expand_once.simps]
    consider (esc) "c = CHR 0x5C" "sp_makefile pol" "s \<noteq> []" | (bs) "c = CHR 0x5C" "\<not> (sp_makefile pol \<and> s \<noteq> [])"
      | (plain) "c \<noteq> CHR 0x5C" "c \<noteq> CHR ''$''" | (dollar) "c = CHR ''$''" by blast
    then show ?thesis
    proof cases
      case esc
      then show ?thesis using e by (cases "expand_once sc val deepv pol (tl s)") (auto simp: before_text_def)
    next
      case bs
      then have "before_text (c # take 1 s) False (expand_once sc val deepv pol (tl s)) = Inr (x, False)" using e by auto
      then show ?thesis by (rule step) (use Cons in \<open>cases s; simp\<close>)+
    next
      case plain
      then have "before_text [c] False (expand_once sc val deepv pol s) = Inr (x, False)" using e by auto
      then show ?thesis by (rule step) (use Cons in simp_all)
    next
      case dollar
      then obtain y where y: "scanRef pol s = Inr y" using e by (cases "scanRef pol s") auto
      show ?thesis
      proof (cases y)
        case None
        then have "before_text [c] False (expand_once sc val deepv pol s) = Inr (x, False)" using e dollar y by simp
        then show ?thesis by (rule step) (use Cons in simp_all)
      next
        case (Some z)
        obtain ref r where z: "z = (ref, r)" by fastforce
        have r: "take (length s - length r) s @ r = s" "length r < length s" using scanRef_tail scanRef_progress y Some z by auto
        show ?thesis
        proof (cases "value_of_ref sc val pol ref")
          case None
          then have "before_text (c # take (length s - length r) s) False (expand_once sc val deepv pol r) = Inr (x, False)"
            using e dollar y Some z by simp
          then show ?thesis by (rule step) (use Cons r in simp_all)
        next
          case v: (Some v)
          then obtain t where "before_text t True (expand_once sc val deepv pol r) = Inr (x, False)"
            using e dollar y Some z by (auto simp: rbind_Inr)
          then show ?thesis by (cases "expand_once sc val deepv pol r") (auto simp: before_text_def)
        qed
      qed
    qed
  qed
qed

lemma substMacro_same:
  assumes deep: "sound deep deepv nms" and w: "good w" and n: "names_once sc val nms pol t \<subseteq> known"
  shows "same good (substMacro sc deep pol t (w, None)) (expand_text sc val deepv pol t)"
proof -
  have "same good (substMacroAppend sc deep pol t (w, None)) (rbind (expand_once sc val deepv pol t) (\<lambda>(x, ch). Inr (if ch then x else [], ch)))"
    using subst_loop_same [OF deep w n, of "[]" False "[]", unfolded append_Nil] by (simp add: substMacroAppend_def)
  then have "same good (substMacro sc deep pol t (w, None))
      (rbind (rbind (expand_once sc val deepv pol t) (\<lambda>(x, ch). Inr (if ch then x else [], ch))) (\<lambda>(x, ch). Inr (if ch then x else t)))"
    unfolding substMacro_def by (rule same_bind) (auto intro: same_ret)
  moreover have "rbind (rbind (expand_once sc val deepv pol t) (\<lambda>(x, ch). Inr (if ch then x else [], ch))) (\<lambda>(x, ch). Inr (if ch then x else t))
      = expand_text sc val deepv pol t"
    using expand_once_unchanged [of deepv pol t]
    by (cases "expand_once sc val deepv pol t") (auto simp: expand_text_def)
  ultimately show ?thesis by simp
qed

lemma rounds_same:
  assumes once: "sound once oncev nms"
  shows "good w \<Longrightarrow> names_rounds oncev nms n t \<subseteq> known \<Longrightarrow> same good (deep_rounds once n t (w, None)) (expand_rounds oncev n t)"
proof (induction n arbitrary: t w)
  case 0
  have "nms t \<subseteq> known" using 0(2) by (subst (asm) names_rounds.simps) simp
  from soundD [OF once 0(1) this] show ?case
    by (subst deep_rounds.simps, subst expand_rounds.simps, elim same_bind) (auto intro: same_ret same_err)
next
  case (Suc n)
  have k: "nms t \<subseteq> known" "oncev t = Inr x \<Longrightarrow> \<not> (x = t \<or> CHR ''$'' \<notin> set x) \<Longrightarrow> names_rounds oncev nms n x \<subseteq> known" for x
    using Suc.prems(2) names_rounds.simps [of oncev nms "Suc n" t, unfolded nat.case] by auto
  from soundD [OF once Suc.prems(1) k(1)] show ?case
    by (subst deep_rounds.simps, subst expand_rounds.simps, elim same_bind) (simp add: same_ret, intro impI Suc.IH k(2), simp_all)
qed

lemma substMacroDeeply_same:
  "good w \<Longrightarrow> names_deeply fuel sc val pol t \<subseteq> known \<Longrightarrow> same good (substMacroDeeply fuel sc pol t (w, None)) (expand_deeply fuel sc val pol t)"
proof (induction fuel arbitrary: w t)
  case 0
  show ?case by (simp add: same_err)
next
  case (Suc fuel)
  have deep: "sound (substMacroDeeply fuel sc pol) (expand_deeply fuel sc val pol) (names_deeply fuel sc val pol)"
    using Suc.IH by (simp add: sound_def)
  then have once: "sound (substMacro sc (substMacroDeeply fuel sc pol) pol) (expand_text sc val (expand_deeply fuel sc val pol) pol)
      (names_once sc val (names_deeply fuel sc val pol) pol)"
    using substMacro_same by (simp add: sound_def [of "substMacro _ _ _"])
  show ?case using soundD [OF once Suc.prems(1)] rounds_same [OF once Suc.prems(1)] Suc.prems by (auto simp: same_ret split: if_splits)
qed

end

section \<open>Repeated expansion ends in a fixed text\<close>

lemma expand_rounds_result: "expand_rounds once n t = Inr x \<Longrightarrow> CHR ''$'' \<notin> set x \<or> once x = Inr x"
proof (induction n arbitrary: t)
  case 0
  then obtain y where "once t = Inr y" "y = t \<or> CHR ''$'' \<notin> set y" "x = y"
    using expand_rounds.simps [of once 0 t] by (auto simp: rbind_Inr split: if_splits)
  then show ?case by auto
next
  case (Suc n)
  then obtain y where y: "once t = Inr y" "(if y = t \<or> CHR ''$'' \<notin> set y then Inr y else expand_rounds once n y) = Inr x"
    using expand_rounds.simps [of once "Suc n" t, unfolded nat.case] by (auto simp: rbind_Inr)
  then show ?case using Suc.IH [of y] by (auto split: if_splits)
qed

lemma expand_deeply_fixed:
  assumes "\<not> sp_makefile pol" and "expand_deeply fuel sc val pol t = Inr x"
  shows "expand_deeply fuel sc val pol x = Inr x"
proof (cases fuel)
  case 0
  then show ?thesis using assms(2) by simp
next
  case (Suc n)
  let ?once = "expand_text sc val (expand_deeply n sc val pol) pol"
  have "CHR ''$'' \<notin> set x \<or> ?once x = Inr x"
    using assms(2) expand_rounds_result [of ?once 127 t x] Suc assms(1) by (auto simp: nothing_to_do_def split: if_splits)
  then show ?thesis
  proof
    assume "?once x = Inr x"
    then have "expand_rounds ?once 127 x = Inr x" by (subst expand_rounds.simps) simp
    then show ?thesis using assms(1) Suc by simp
  qed (use assms(1) Suc in \<open>simp add: nothing_to_do_def\<close>)
qed

lemma expand_makefile_returns:
  assumes "sp_makefile pol" shows "\<exists>x. expand_once sc val deep pol t = Inr x"
proof (induction "length t" arbitrary: t rule: less_induct)
  case less
  have step: "\<exists>x. before_text p b (expand_once sc val deep pol r) = Inr x" if "length r < length t" for p b r
    using less.hyps [OF that] by (auto simp: before_text_def split: prod.splits)
  show ?case
  proof (cases t)
    case Nil
    then show ?thesis by (simp only: expand_once.simps) blast
  next
    case (Cons c s)
    have ref: "\<exists>x. text_of_ref sc deep ref v = Inr x" if "scanMakefileRef s = Some (ref, r)" for ref r v
      using scanMakefileRef_plain [OF that] by (auto simp: text_of_ref_def split: option.splits)
    show ?thesis
    proof (cases "scanMakefileRef s")
      case None
      then show ?thesis using step [of s] step [of "tl s"] assms Cons by (auto simp: expand_once.simps scanRef_def less_Suc_eq_le)
    next
      case (Some z)
      obtain g r where z: "z = (g, r)" by fastforce
      have "length r < length t" using scanMakefileRef_progress [of s g r] Some z Cons by simp
      note st = step [OF this]
      have v: "\<exists>x. rbind (text_of_ref sc deep g v) (\<lambda>t. before_text t True (expand_once sc val deep pol r)) = Inr x" for v
        using ref [of g r v] st Some z by auto
      show ?thesis
      proof (cases "c = CHR ''$''")
        case True
        then show ?thesis using st v Some z assms Cons
          by (cases "value_of_ref sc val pol g") (simp_all add: expand_once.simps scanRef_def)
      next
        case False
        then show ?thesis using step [of s] step [of "tl s"] assms Cons by (auto simp: expand_once.simps less_Suc_eq_le)
      qed
    qed
  qed
qed

section \<open>Where the substitution fails\<close>

definition rootVar :: "string \<Rightarrow> bool" where
  "rootVar name \<longleftrightarrow> name \<in> {''BINDIR'', ''CURDIR'', ''ARCADIA_ROOT'', ''ARCADIA_BUILD_ROOT''}"

definition substVariables :: substPolicy where
  "substVariables = \<lparr>sp_makefile = False, sp_command = False, sp_emptyUnknown = False, sp_keepModifiers = False,
     sp_literal = rootVar, sp_reserved = (\<lambda>_. False)\<rparr>"

definition substCommand :: substPolicy where
  "substCommand = \<lparr>sp_makefile = False, sp_command = True, sp_emptyUnknown = True, sp_keepModifiers = False,
     sp_literal = (\<lambda>_. False), sp_reserved = (\<lambda>_. False)\<rparr>"

text \<open>Variables with fixed values, to run the substitution on.\<close>

definition one_value :: "string \<Rightarrow> macroValues" where
  "one_value s = \<lparr>mv_list = [], mv_single = s, mv_vfs = None, mv_one = True\<rparr>"

definition fixed_calls :: "(string \<rightharpoonup> string) \<Rightarrow> 'w substCalls" where
  "fixed_calls vars = \<lparr>sc_lookup = (\<lambda>n w. Inr (map_option one_value (vars n), w)), sc_inputs = (\<lambda>_ _. Inr []), sc_getenv = (\<lambda>_. []),
     sc_md5 = (\<lambda>_. []), sc_upper = (\<lambda>s. s), sc_lower = (\<lambda>s. s)\<rparr>"

lemma fixed_steady: "steady_lookup (fixed_calls vars) (\<lambda>_. True) UNIV (\<lambda>n. map_option one_value (vars n))"
  by unfold_locales (simp add: fixed_calls_def)

lemma fixed_runs:
  "expand_deeply fuel (fixed_calls vars :: 'w substCalls) (\<lambda>n. map_option one_value (vars n)) pol t = Inl e \<Longrightarrow>
   substMacroDeeply fuel (fixed_calls vars :: 'w substCalls) pol t (w, None) = Inl e"
  using steady_lookup.substMacroDeeply_same [OF fixed_steady TrueI subset_UNIV, of fuel vars pol t w] by (simp add: same_def)

lemma scan_samples:
  "scanMacroRef False ''A'' = Inr (Some (no_ref\<lparr>mr_name := ''A''\<rparr>, []))"
  "scanMacroRef False ''{pre=$A:B}'' = Inr (Some (no_ref\<lparr>mr_name := ''B'', mr_prefix := ''$A'', mr_flags := {modPrefix}\<rparr>, []))"
  by code_simp+

lemma plain_render: "mr_flags ref = {} \<Longrightarrow> mr_ext ref = [] \<Longrightarrow> mr_skipExt ref = [] \<Longrightarrow> render_ref sc ref (one_value v) pre suf = pre @ v @ suf"
  by (simp add: render_ref_def one_value_def mv_count_def mv_at_def applyMacroMods_def cut_ext_def last_ext_def cut_path_def default_ext_def Let_def)

lemma expand_sample:
  assumes v: "vars ''A'' = Some v" and p: "list_all (\<lambda>x. x \<noteq> CHR ''$'' \<and> x \<noteq> CHR 0x5C) p"
  shows "expand_text (fixed_calls vars :: 'w substCalls) (\<lambda>n. map_option one_value (vars n)) deep substVariables (p @ ''$A'') = Inr (p @ v)"
proof -
  have "expand_once (fixed_calls vars :: 'w substCalls) (\<lambda>n. map_option one_value (vars n)) deep substVariables ''$A'' = Inr (v, True)"
    using v by (simp add: expand_once.simps scanRef_def substVariables_def scan_samples value_of_ref_def no_ref_def rootVar_def
      text_of_ref_def plain_render before_text_def)
  then show ?thesis unfolding expand_text_def expand_plain [OF p] by (simp add: before_text_def)
qed

lemma substVariables_simps [simp]:
  "sp_makefile substVariables = False" "sp_command substVariables = False" "sp_keepModifiers substVariables = False"
  "sp_literal substVariables = rootVar"
  by (simp_all add: substVariables_def)

lemma nested_prefix:
  assumes a: "vars ''A'' = Some ''${pre=$A:B}''" and b: "vars ''B'' = Some b"
  shows "expand_deeply depth (fixed_calls vars :: 'w substCalls) (\<lambda>n. map_option one_value (vars n)) substVariables ''$A'' = Inl OutOfFuel"
proof (induction depth)
  case (Suc d)
  define once where "once = expand_text (fixed_calls vars :: 'w substCalls) (\<lambda>n. map_option one_value (vars n))
    (expand_deeply d (fixed_calls vars :: 'w substCalls) (\<lambda>n. map_option one_value (vars n)) substVariables) substVariables"
  have 1: "once ''$A'' = Inr ''${pre=$A:B}''" using expand_sample [of vars "''${pre=$A:B}''" "[]"] a by (simp add: once_def)
  have 2: "once ''${pre=$A:B}'' = Inl OutOfFuel"
    unfolding once_def expand_text_def using Suc b
    by (simp add: expand_once.simps scanRef_def scan_samples value_of_ref_def no_ref_def rootVar_def text_of_ref_def)
  have "expand_rounds once 126 ''${pre=$A:B}'' = Inl OutOfFuel" by (subst expand_rounds.simps) (simp add: 2)
  then have "expand_rounds once 127 ''$A'' = Inl OutOfFuel"
    by (subst expand_rounds.simps) (simp add: 1 eval_nat_numeral)
  then show ?case by (simp add: nothing_to_do_def once_def)
qed simp

lemma self_reference:
  assumes a: "vars ''A'' = Some ''x$A''"
  shows "expand_deeply (Suc depth) (fixed_calls vars :: 'w substCalls) (\<lambda>n. map_option one_value (vars n)) substVariables ''$A'' = Inl limit_error"
proof -
  define once where "once = expand_text (fixed_calls vars :: 'w substCalls) (\<lambda>n. map_option one_value (vars n))
    (expand_deeply depth (fixed_calls vars :: 'w substCalls) (\<lambda>n. map_option one_value (vars n)) substVariables) substVariables"
  have once: "once (replicate k CHR ''x'' @ ''$A'') = Inr (replicate (Suc k) CHR ''x'' @ ''$A'')" for k
    using expand_sample [of vars "''x$A''" "replicate k CHR ''x''"] a by (simp add: once_def list_all_iff replicate_app_Cons_same)
  have "expand_rounds once n (replicate k CHR ''x'' @ ''$A'') = Inl limit_error" for n k
  proof (induction n arbitrary: k)
    case 0
    show ?case by (subst expand_rounds.simps, subst once) (simp add: replicate_app_Cons_same)
  next
    case (Suc n)
    show ?case using Suc [of "Suc k"] by (subst expand_rounds.simps, subst once) (simp add: replicate_app_Cons_same)
  qed
  from this [of 127 0] show ?thesis by (simp add: nothing_to_do_def once_def)
qed



end
