(* ===== verification/Ay_EnvName.thy ===== *)
theory Ay_EnvName
  imports Ay_EnvRef Ay_Dense
begin

text \<open>
  The numbers of variable names (\<^verbatim>\<open>env_intern.go\<close>): a table from interned strings to numbers, the strings
  of the numbers, and the ring of the last eight names that were looked up. The numbers and the names
  determine each other, and the ring answers as the table does.
\<close>

record EnvTable =
  et_ids :: "u32 DenseMap"
  et_strs :: "u32 PageVec"
  et_count :: u32

definition newEnvTable :: "EnvTable option" where
  "newEnvTable = map_option (\<lambda>s. \<lparr>et_ids = DenseMap_empty, et_strs = s, et_count = 1\<rparr>) (PageVec_set 0 PageVec_zero 0 0)"

definition internEnvSTR :: "EnvTable \<Rightarrow> u32 \<Rightarrow> (u32 \<times> EnvTable) option" where
  "internEnvSTR t st =
     (case DenseMap_get 0 (et_ids t) st of
        None \<Rightarrow> None
      | Some (i, True) \<Rightarrow> Some (i, t)
      | Some (_, False) \<Rightarrow>
          let i = et_count t
          in case PageVec_set 0 (et_strs t) i st of
               None \<Rightarrow> None
             | Some strs \<Rightarrow>
                 (case DenseMap_put 0 (et_ids t) st i of
                    None \<Rightarrow> None
                  | Some ids \<Rightarrow> Some (i, t\<lparr>et_strs := strs, et_count := i + 1, et_ids := ids\<rparr>)))"

definition internEnv :: "hash128 \<Rightarrow> string \<Rightarrow> InternTable \<times> EnvTable \<Rightarrow> (u32 \<times> InternTable \<times> EnvTable) option" where
  "internEnv hash name tt =
     (case internStr hash (fst tt) name of
        None \<Rightarrow> None
      | Some (st, t) \<Rightarrow> map_option (\<lambda>(i, e). (i, t, e)) (internEnvSTR (snd tt) st))"

definition ENV_str :: "EnvTable \<Rightarrow> u32 \<Rightarrow> u32 option" where
  "ENV_str t i = PageVec_get (et_strs t) i"

definition ENV_string :: "InternTable \<Rightarrow> EnvTable \<Rightarrow> u32 \<Rightarrow> string option" where
  "ENV_string t e i = Option.bind (PageVec_get (et_strs e) i) (internString t)"

definition internedEnv :: "hash128 \<Rightarrow> InternTable \<Rightarrow> EnvTable \<Rightarrow> string \<Rightarrow> u32 option" where
  "internedEnv hash t e name =
     (case interned hash t name of
        None \<Rightarrow> None
      | Some st \<Rightarrow> if st = 0 then Some 0 else map_option fst (DenseMap_get 0 (et_ids e) st))"

record RecentNames =
  rc_text :: "string list"
  rc_id :: "u32 list"
  rc_next :: nat

definition no_recent :: RecentNames where
  "no_recent = \<lparr>rc_text = replicate 8 [], rc_id = replicate 8 0, rc_next = 0\<rparr>"

definition recent_find :: "RecentNames \<Rightarrow> string \<Rightarrow> u32 option" where
  "recent_find c name = map_option snd (find (\<lambda>(t, i). i \<noteq> 0 \<and> t = name) (zip (rc_text c) (rc_id c)))"

definition internedEnvRecent :: "hash128 \<Rightarrow> InternTable \<Rightarrow> EnvTable \<Rightarrow> RecentNames \<Rightarrow> string \<Rightarrow> (u32 \<times> RecentNames) option" where
  "internedEnvRecent hash t e c name =
     (case recent_find c name of
        Some i \<Rightarrow> Some (i, c)
      | None \<Rightarrow>
          (case internedEnv hash t e name of
             None \<Rightarrow> None
           | Some i \<Rightarrow>
               if i = 0 then Some (i, c)
               else (case ENV_string t e i of
                       None \<Rightarrow> None
                     | Some s \<Rightarrow>
                         if rc_next c < length (rc_text c) \<and> rc_next c < length (rc_id c)
                         then Some (i, c\<lparr>rc_text := (rc_text c)[rc_next c := s], rc_id := (rc_id c)[rc_next c := i], rc_next := (rc_next c + 1) mod 8\<rparr>)
                         else None)))"

section \<open>The table\<close>

text \<open>\<open>g\<close> is the map from names to numbers the table stands for, \<open>f\<close> the one from interned strings.\<close>

definition names_rep :: "InternTable \<Rightarrow> EnvTable \<Rightarrow> (u32 \<rightharpoonup> u32) \<Rightarrow> bool" where
  "names_rep t e f \<longleftrightarrow> DenseMap_rep (et_ids e) f \<and> PageVec_inv (et_strs e) \<and> et_count e \<noteq> 0
     \<and> (\<forall>st i. f st = Some i \<longrightarrow> i \<noteq> 0 \<and> i < et_count e \<and> st \<noteq> 0 \<and> unat st < length (texts t)
          \<and> PageVec_alive (et_strs e) i \<and> PageVec_map 0 (et_strs e) i = st)"

definition env_number :: "InternTable \<Rightarrow> (u32 \<rightharpoonup> u32) \<Rightarrow> string \<Rightarrow> u32 \<Rightarrow> bool" where
  "env_number t f name i \<longleftrightarrow> (\<exists>st. f st = Some i \<and> str_is t st name)"

lemma names_repD:
  assumes "names_rep t e f"
  shows "DenseMap_rep (et_ids e) f" "PageVec_inv (et_strs e)" "et_count e \<noteq> 0"
    and "f st = Some i \<Longrightarrow> i \<noteq> 0 \<and> i < et_count e \<and> st \<noteq> 0 \<and> unat st < length (texts t) \<and> PageVec_alive (et_strs e) i \<and> PageVec_map 0 (et_strs e) i = st"
  using assms by (simp_all add: names_rep_def)

lemma names_rep_extends: "names_rep t e f \<Longrightarrow> extends t t' \<Longrightarrow> names_rep t' e f"
  unfolding names_rep_def extends_def by (metis length_append trans_less_add1)

lemma env_number_extends:
  assumes "names_rep t e f" and "extends t t'" shows "env_number t' f name i \<longleftrightarrow> env_number t f name i"
  using names_repD(4) [OF assms(1)] extends_text [OF assms(2)] unfolding env_number_def str_is_def by metis

lemma below_count: "i < et_count e \<Longrightarrow> unat (i :: u32) \<noteq> 2 ^ 32 - 1"
  using unat_u32_less [of "et_count e"] by (simp add: word_less_nat_alt)

lemma internedEnv_spec:
  assumes use: "in_use hash S t" and rep: "names_rep t e f" and n: "name \<in> S"
  obtains (known) i where "internedEnv hash t e name = Some i" "i \<noteq> 0" "env_number t f name i"
  | (unknown) "internedEnv hash t e name = Some 0" "\<And>i. \<not> env_number t f name i"
proof -
  have ok: "hash_ok hash (insert name (names t))"
    using in_useD(1,3) [OF use] n by (auto simp: strings_ok_def elim: hash_ok_mono)
  have absent: "\<not> env_number t f name i" if "name \<notin> names t" for i
    using that names_iff [OF intern_invD(1) [OF in_useD(2) [OF use]]] unat_gt_0 by (auto simp: env_number_def str_is_def)
  from in_useD(2) [OF use] ok show thesis
  proof (cases rule: intern_find_spec)
    case (1 p)
    then have p: "interned hash t name = Some p" "str_is t p name" by (simp_all add: interned_def str_is_def)
    show thesis
    proof (cases "f p")
      case None
      have "\<not> env_number t f name i" for i
        using None str_number [OF use p(2)] unfolding env_number_def by (metis option.distinct(1))
      then show thesis using unknown None p DenseMap_get_spec [OF names_repD(1) [OF rep], of 0 p] 1(2) by (simp add: internedEnv_def)
    next
      case (Some i)
      then show thesis using known p DenseMap_get_spec [OF names_repD(1) [OF rep], of 0 p] 1(2) names_repD(4) [OF rep Some]
        by (auto simp: internedEnv_def env_number_def)
    qed
  qed (use unknown absent in \<open>auto simp: internedEnv_def interned_def\<close>)
qed

lemma env_number_unique:
  assumes "in_use hash S t" and "env_number t f name i" and "env_number t f name j" shows "i = j"
  using assms str_number unfolding env_number_def by (metis option.inject)

lemma ENV_string_spec:
  assumes use: "in_use hash S t" and rep: "names_rep t e f" and n: "env_number t f name i"
  shows "ENV_string t e i = Some name"
proof -
  obtain st where st: "f st = Some i" "str_is t st name" using n by (auto simp: env_number_def)
  note D = names_repD(4) [OF rep st(1)]
  have "PageVec_get (et_strs e) i = Some st"
    using PageVec_get_map [OF names_repD(2) [OF rep] below_count, of i e 0] D by simp
  then show ?thesis using st(2) in_useD(2) [OF use] by (simp add: ENV_string_def str_is_def internString_spec)
qed

section \<open>The ring of recent names\<close>

definition recent_ok :: "InternTable \<Rightarrow> (u32 \<rightharpoonup> u32) \<Rightarrow> RecentNames \<Rightarrow> bool" where
  "recent_ok t f c \<longleftrightarrow> length (rc_text c) = 8 \<and> length (rc_id c) = 8 \<and> rc_next c < 8
     \<and> (\<forall>k < 8. rc_id c ! k \<noteq> 0 \<longrightarrow> env_number t f (rc_text c ! k) (rc_id c ! k))"

lemma no_recent_ok: "recent_ok t f no_recent"
  by (simp add: recent_ok_def no_recent_def)

lemma recent_ok_extends: "names_rep t e f \<Longrightarrow> extends t t' \<Longrightarrow> recent_ok t' f c = recent_ok t f c"
  unfolding recent_ok_def by (subst env_number_extends) simp_all

lemma recent_find_ok: "recent_ok t f c \<Longrightarrow> recent_find c name = Some i \<Longrightarrow> i \<noteq> 0 \<and> env_number t f name i"
proof -
  assume c: "recent_ok t f c" and "recent_find c name = Some i"
  then obtain x where x: "find (\<lambda>(t, i). i \<noteq> 0 \<and> t = name) (zip (rc_text c) (rc_id c)) = Some x" "i = snd x"
    by (auto simp: recent_find_def)
  then obtain k where "k < 8" "x = (rc_text c ! k, rc_id c ! k)" "rc_id c ! k \<noteq> 0" "rc_text c ! k = name"
    using c by (auto simp: find_Some_iff recent_ok_def)
  then show ?thesis using c x(2) by (auto simp: recent_ok_def)
qed

lemma internedEnvRecent_spec:
  assumes use: "in_use hash S t" and rep: "names_rep t e f" and n: "name \<in> S" and c: "recent_ok t f c"
  shows "\<exists>i c'. internedEnvRecent hash t e c name = Some (i, c') \<and> internedEnv hash t e name = Some i \<and> recent_ok t f c'"
proof (cases "recent_find c name")
  case (Some i)
  have i: "i \<noteq> 0" "env_number t f name i" using recent_find_ok [OF c Some] by simp_all
  have "internedEnv hash t e name = Some i"
    using use rep n by (cases rule: internedEnv_spec) (use i env_number_unique [OF use] in auto)
  then show ?thesis using Some c by (simp add: internedEnvRecent_def)
next
  case None
  from use rep n show ?thesis
  proof (cases rule: internedEnv_spec)
    case (known i)
    have "recent_ok t f (c\<lparr>rc_text := (rc_text c)[rc_next c := name], rc_id := (rc_id c)[rc_next c := i], rc_next := (rc_next c + 1) mod 8\<rparr>)"
      using c known by (auto simp: recent_ok_def nth_list_update)
    then show ?thesis using None known ENV_string_spec [OF use rep known(3)] c by (simp add: internedEnvRecent_def recent_ok_def)
  next
    case unknown
    then show ?thesis using None c by (simp add: internedEnvRecent_def)
  qed
qed

section \<open>New names\<close>

definition names_room :: "EnvTable \<Rightarrow> bool" where
  "names_room e \<longleftrightarrow> vec_len (dm_vals (et_ids e)) < 2 ^ 32 - 1 \<and> unat (et_count e) < 2 ^ 32 - 1"

lemma internEnvSTR_spec:
  assumes rep: "names_rep t e f" and st: "st \<noteq> 0" "unat st < length (texts t)" and room: "names_room e"
  obtains i e' f' where "internEnvSTR e st = Some (i, e')" and "names_rep t e' f'" and "f' = f(st \<mapsto> i)" and "f st = None \<longrightarrow> i = et_count e"
proof (cases "f st")
  case (Some i)
  then have "internEnvSTR e st = Some (i, e)" using DenseMap_get_spec [OF names_repD(1) [OF rep]] by (simp add: internEnvSTR_def)
  then show ?thesis using that [of i e f] rep Some by (simp add: fun_upd_idem)
next
  case None
  let ?i = "et_count e"
  have i: "unat ?i \<noteq> 2 ^ 32 - 1" "?i < ?i + 1" using room word_less_plus_one [of ?i]
    by (auto simp: names_room_def word_less_nat_alt unat_word_ariths)
  obtain strs where strs: "PageVec_set 0 (et_strs e) ?i st = Some strs" "PageVec_inv strs"
    "PageVec_map 0 strs = (PageVec_map 0 (et_strs e))(?i := st)" "PageVec_alive strs ?i" "\<And>j. PageVec_alive (et_strs e) j \<Longrightarrow> PageVec_alive strs j"
    using PageVec_set_map [OF names_repD(2) [OF rep] i(1)] by metis
  obtain ids where ids: "DenseMap_put 0 (et_ids e) st ?i = Some ids" "DenseMap_rep ids (f(st \<mapsto> ?i))"
    using DenseMap_put_spec [OF names_repD(1) [OF rep], of 0 st ?i] room by (auto simp: names_room_def)
  let ?e = "e\<lparr>et_strs := strs, et_count := ?i + 1, et_ids := ids\<rparr>"
  have "internEnvSTR e st = Some (?i, ?e)"
    using None strs(1) ids(1) DenseMap_get_spec [OF names_repD(1) [OF rep]] by (simp add: internEnvSTR_def Let_def)
  moreover have "names_rep t ?e (f(st \<mapsto> ?i))"
  proof -
    have old: "j \<noteq> 0 \<and> j < ?i + 1 \<and> s \<noteq> 0 \<and> unat s < length (texts t) \<and> PageVec_alive strs j \<and> PageVec_map 0 strs j = s" if "f s = Some j" for s j
      using names_repD(4) [OF rep that] strs(3,5) i(2) by auto
    have new: "?i \<noteq> 0 \<and> ?i < ?i + 1 \<and> st \<noteq> 0 \<and> unat st < length (texts t) \<and> PageVec_alive strs ?i \<and> PageVec_map 0 strs ?i = st"
      using strs(3,4) i(2) st names_repD(3) [OF rep] by simp
    have "?i + 1 \<noteq> 0" using i(2) by (metis word_not_simps(1))
    then show ?thesis using old new ids(2) strs(2) by (simp add: names_rep_def)
  qed
  ultimately show ?thesis using that [of ?i ?e "f(st \<mapsto> ?i)"] None by simp
qed

text \<open>
  C22: The numbers of variables and their names determine each other: \<^verbatim>\<open>internEnv\<close> returns a number that is not 0 and
  whose string is the name, that a lookup of the name finds from then on, through the ring of recent names
  as well, and every number given before keeps its name.
\<close>

theorem internEnv_roundtrip:
  assumes "in_use hash S t" and "names_rep t e f" and "name \<in> S" and "names_room e" and "recent_ok t f c"
  shows "\<exists>i t' e' c'. internEnv hash name (t, e) = Some (i, t', e') \<and> i \<noteq> 0 \<and> ENV_string t' e' i = Some name
    \<and> internedEnv hash t' e' name = Some i \<and> internedEnvRecent hash t' e' c name = Some (i, c')
    \<and> (\<forall>n j. env_number t f n j \<longrightarrow> ENV_string t' e' j = Some n \<and> (j = i \<longleftrightarrow> n = name))"
proof -
  obtain st t' where t': "internStr hash t name = Some (st, t')" "in_use hash S t'" "extends t t'" "str_is t' st name"
    using internStr_run [OF assms(1,3)] by metis
  note rep = names_rep_extends [OF assms(2) t'(3)]
  obtain i e' f' where e': "internEnvSTR e st = Some (i, e')" "names_rep t' e' f'" "f' = f(st \<mapsto> i)"
  proof -
    have "st \<noteq> 0" "unat st < length (texts t')" using t'(4) by (simp_all add: str_is_def)
    from internEnvSTR_spec [OF rep this assms(4)] that show thesis by blast
  qed
  have i: "env_number t' f' name i" using t'(4) e'(3) by (auto simp: env_number_def)
  have old: "env_number t' f' n j" if nj: "env_number t f n j" for n j
  proof -
    have "env_number t' f n j" using nj env_number_extends [OF assms(2) t'(3)] by simp
    then obtain s where s: "f s = Some j" "str_is t' s n" by (auto simp: env_number_def)
    moreover have "f' s = Some j"
    proof (cases "f st")
      case None
      then show ?thesis using s e'(3) by auto
    next
      case (Some k)
      then have "internEnvSTR e st = Some (k, e)" using DenseMap_get_spec [OF names_repD(1) [OF assms(2)]] by (simp add: internEnvSTR_def)
      then show ?thesis using e'(1,3) Some s by auto
    qed
    ultimately show ?thesis by (auto simp: env_number_def)
  qed
  have str: "ENV_string t' e' j = Some n" if "env_number t' f' n j" for n j by (rule ENV_string_spec [OF t'(2) e'(2) that])
  have look: "internedEnv hash t' e' name = Some i"
    using t'(2) e'(2) assms(3) by (cases rule: internedEnv_spec) (use i env_number_unique [OF t'(2)] in auto)
  have "recent_ok t' f' c"
    using recent_ok_extends [OF assms(2) t'(3), of c] assms(5) old env_number_extends [OF assms(2) t'(3)] by (auto simp: recent_ok_def)
  from internedEnvRecent_spec [OF t'(2) e'(2) assms(3) this] obtain c' where "internedEnvRecent hash t' e' c name = Some (i, c')"
    using look by auto
  moreover have "i \<noteq> 0" using i names_repD(4) [OF e'(2)] by (auto simp: env_number_def)
  moreover have "internEnv hash name (t, e) = Some (i, t', e')" using t'(1) e'(1) by (simp add: internEnv_def)
  moreover have "j = i \<longleftrightarrow> n = name" if "env_number t f n j" for n j
    using str [OF old [OF that]] str [OF i] old [OF that] i env_number_unique [OF t'(2)] by auto
  ultimately show ?thesis using look str [OF i] str old by blast
qed

lemma newEnvTable_rep: obtains e where "newEnvTable = Some e" and "names_rep t e Map.empty" and "names_room e"
proof -
  obtain v where v: "PageVec_set (0 :: u32) PageVec_zero 0 0 = Some v" "PageVec_inv v"
    using PageVec_set_map [OF PageVec_zero_inv, of 0 0 0] by auto
  then show thesis
    using that [of "\<lparr>et_ids = DenseMap_empty, et_strs = v, et_count = 1\<rparr>"] DenseMap_empty_rep
    by (simp add: newEnvTable_def names_rep_def names_room_def DenseMap_empty_def Vec_empty_def)
qed

theorem internEnv_roundtrip_witness:
  "\<exists>hash t e i t' e'. newEnvTable = Some e \<and> internEnv hash ''no'' (t, e) = Some (i, t', e') \<and> i \<noteq> 0 \<and> ENV_string t' e' i = Some ''no''"
proof -
  let ?h = "\<lambda>s :: string. (7 :: u64, of_nat (length s) :: u64)" and ?S = "{[], ''x'', ''no'', ''yes'', ''x no''}"
  obtain w where w: "env_inv ?h ?S w" using pending_world by metis
  obtain e where e: "newEnvTable = Some e" "names_rep (ew_tab w) e Map.empty" "names_room e" using newEnvTable_rep by metis
  from internEnv_roundtrip [OF env_invD(1) [OF w] e(2) _ e(3) no_recent_ok, of "''no''"]
  obtain i t' e' where "internEnv ?h ''no'' (ew_tab w, e) = Some (i, t', e')" "i \<noteq> 0" "ENV_string t' e' i = Some ''no''" by auto
  then show ?thesis using e(1) by blast
qed

end
