(* ===== verification/Ay_SubstEnv.thy ===== *)
theory Ay_SubstEnv
  imports Ay_Subst Ay_EnvName
begin

text \<open>
  Substitution in an environment: \<^verbatim>\<open>macroLookup\<close> of \<^verbatim>\<open>macro_string.go\<close> over the store of variables, the
  numbers of their names and the trace of the memo of expansions (\<^verbatim>\<open>expansion_memo.go\<close>). The theorems
  state what \<^verbatim>\<open>expandVariable\<close>, \<^verbatim>\<open>expand\<close> and the make expressions return in terms of the values of the
  variables alone.
\<close>

section \<open>The world of the substitution\<close>

record ExpansionStep =
  xs_id :: u32
  xs_kind :: EnvKind
  xs_val :: u32

record ExpansionTrace =
  xt_trace :: "ExpansionStep list"
  xt_tracing :: bool
  xt_poisoned :: bool

text \<open>\<open>mw_nil\<close> says that the environment has no store; \<open>mw_constant\<close> is what the pointer \<^verbatim>\<open>constant\<close> points to.\<close>

record MacroWorld =
  mw_env :: EnvWorld
  mw_names :: EnvTable
  mw_recent :: RecentNames
  mw_nil :: bool
  mw_constant :: "bool option"
  mw_trace :: ExpansionTrace

record confMacroBinding =
  cb_name :: u32
  cb_values :: "u32 list"
  cb_bound :: bool

definition or_panic :: "'a option \<Rightarrow> 'a result" where
  "or_panic m = (case m of None \<Rightarrow> Inl IndexPanic | Some x \<Rightarrow> Inr x)"

lemma or_panic_simps [simp]: "or_panic None = Inl IndexPanic" "or_panic (Some x) = Inr x"
  by (simp_all add: or_panic_def)

definition note_step :: "hash128 \<Rightarrow> u32 \<Rightarrow> MacroWorld \<Rightarrow> MacroWorld option" where
  "note_step hash i w =
     (if i = 0 then Some (w\<lparr>mw_trace := (mw_trace w)\<lparr>xt_poisoned := True\<rparr>\<rparr>)
      else
        case EnvStore_lookup hash i (mw_env w) of
          None \<Rightarrow> None
        | Some ((k, v), e) \<Rightarrow>
            let step = \<lparr>xs_id = i, xs_kind = k, xs_val = (if k = envAbsent then 0 else v)\<rparr>
            in Some (w\<lparr>mw_env := e, mw_trace := (mw_trace w)\<lparr>xt_trace := xt_trace (mw_trace w) @ [step]\<rparr>\<rparr>))"

text \<open>The loop over the local bindings; the words of the binding are given by their texts.\<close>

definition local_values :: "hash128 \<Rightarrow> confMacroBinding list \<Rightarrow> string \<Rightarrow> MacroWorld \<Rightarrow> string list option result" where
  "local_values hash locals name w =
     (if locals = [] then Inr None
      else
        rbind (or_panic (interned hash (ew_tab (mw_env w)) name)) (\<lambda>i.
          if i = 0 then Inr None
          else case find (\<lambda>b. cb_name b = i \<and> cb_bound b) locals of
                 None \<Rightarrow> Inr None
               | Some b \<Rightarrow>
                   let ts = map (ANY_string (ew_tab (mw_env w))) (cb_values b)
                   in if None \<in> set ts then Inl IndexPanic else Inr (Some (map the ts))))"

definition macroLookup :: "hash128 \<Rightarrow> confMacroBinding list \<Rightarrow> string \<Rightarrow> MacroWorld \<Rightarrow> (macroValues option \<times> MacroWorld) result" where
  "macroLookup hash locals name w =
     rbind (local_values hash locals name w) (\<lambda>bound.
       case bound of
         Some ts \<Rightarrow> Inr (Some \<lparr>mv_list = ts, mv_single = [], mv_vfs = None, mv_one = False\<rparr>, w)
       | None \<Rightarrow>
           if mw_nil w then Inr (None, w)
           else
             let w = w\<lparr>mw_constant := map_option (\<lambda>_. False) (mw_constant w)\<rparr>
             in rbind (or_panic (internedEnvRecent hash (ew_tab (mw_env w)) (mw_names w) (mw_recent w) name)) (\<lambda>(i, c).
                let w = w\<lparr>mw_recent := c\<rparr>
                in rbind (if xt_tracing (mw_trace w) then or_panic (note_step hash i w) else Inr w) (\<lambda>w.
                   rbind (or_panic (lookupValueENV hash i (mw_env w))) (\<lambda>((value, vfs, bound), e).
                     let w = w\<lparr>mw_env := e\<rparr>
                     in if \<not> bound then Inr (None, w)
                        else if vfs = 0 then Inr (Some \<lparr>mv_list = [], mv_single = value, mv_vfs = None, mv_one = True\<rparr>, w)
                        else rbind (or_panic (VFS_string (ew_tab e) vfs)) (\<lambda>t.
                          Inr (Some \<lparr>mv_list = [], mv_single = value, mv_vfs = Some t, mv_one = True\<rparr>, w))))))"

definition text_inputs :: "hash128 \<Rightarrow> string \<Rightarrow> MacroWorld \<Rightarrow> (nat \<times> nat) list result" where
  "text_inputs hash name w =
     (if mw_nil w then Inl IndexPanic
      else
        rbind (or_panic (internedEnv hash (ew_tab (mw_env w)) (mw_names w) name)) (\<lambda>i.
          Inr (case es_textInputs (ew_store (mw_env w)) i of None \<Rightarrow> [] | Some rs \<Rightarrow> rs)))"

text \<open>The calls of the substitution on this world; the process environment and the library are parameters.\<close>

record substLib =
  sl_getenv :: "string \<Rightarrow> string"
  sl_md5 :: "string \<Rightarrow> u8 list"
  sl_upper :: "string \<Rightarrow> string"
  sl_lower :: "string \<Rightarrow> string"

definition env_calls :: "hash128 \<Rightarrow> substLib \<Rightarrow> confMacroBinding list \<Rightarrow> MacroWorld substCalls" where
  "env_calls hash lib locals = \<lparr>sc_lookup = macroLookup hash locals, sc_inputs = text_inputs hash, sc_getenv = sl_getenv lib,
     sc_md5 = sl_md5 lib, sc_upper = sl_upper lib, sc_lower = sl_lower lib\<rparr>"

definition expandVariable :: "nat \<Rightarrow> hash128 \<Rightarrow> substLib \<Rightarrow> string \<Rightarrow> MacroWorld sub_state \<Rightarrow> (string \<times> MacroWorld sub_state) result" where
  "expandVariable fuel hash lib t st = substMacroDeeply fuel (env_calls hash lib []) substVariables t st"

definition expandVariableView :: "nat \<Rightarrow> hash128 \<Rightarrow> substLib \<Rightarrow> string \<Rightarrow> MacroWorld sub_state \<Rightarrow> (string \<times> MacroWorld sub_state) result" where
  "expandVariableView fuel hash lib t st = substMacroDeeplyInto fuel (env_calls hash lib []) substVariables t st"

definition env_expand :: "nat \<Rightarrow> hash128 \<Rightarrow> substLib \<Rightarrow> string \<Rightarrow> MacroWorld sub_state \<Rightarrow> (string \<times> MacroWorld sub_state) result" where
  "env_expand fuel hash lib t st = substMacroDeeply fuel (env_calls hash lib []) substCommand t st"

definition env_subst :: "nat \<Rightarrow> hash128 \<Rightarrow> substLib \<Rightarrow> confMacroBinding list \<Rightarrow> string \<Rightarrow> MacroWorld sub_state \<Rightarrow> (string \<times> MacroWorld sub_state) result" where
  "env_subst fuel hash lib locals t st = substMacroDeeply fuel (env_calls hash lib locals) substVariables t st"

definition make_policy :: "(string \<Rightarrow> bool) \<Rightarrow> substPolicy" where
  "make_policy reserved = \<lparr>sp_makefile = True, sp_command = False, sp_emptyUnknown = True, sp_keepModifiers = False,
     sp_literal = reserved, sp_reserved = (\<lambda>_. False)\<rparr>"

definition expandMakeExpression :: "nat \<Rightarrow> hash128 \<Rightarrow> substLib \<Rightarrow> string \<Rightarrow> (string \<Rightarrow> bool) \<Rightarrow> MacroWorld \<Rightarrow> (string \<times> MacroWorld sub_state) result" where
  "expandMakeExpression fuel hash lib t reserved w = substMacroDeeply fuel (env_calls hash lib []) (make_policy reserved) t (w, None)"

section \<open>The value of a name\<close>

text \<open>\<open>A\<close> gives the kind and the text of a variable by its number, \<open>g\<close> the number of a name.\<close>

definition value_of :: "(u32 \<Rightarrow> EnvKind \<times> string) \<Rightarrow> (string \<rightharpoonup> u32) \<Rightarrow> string \<Rightarrow> macroValues option" where
  "value_of A g name =
     (case g name of
        None \<Rightarrow> None
      | Some i \<Rightarrow>
          (case A i of
             (envAbsent, _) \<Rightarrow> None
           | (envVFS, t) \<Rightarrow> Some \<lparr>mv_list = [], mv_single = [], mv_vfs = Some t, mv_one = True\<rparr>
           | (_, t) \<Rightarrow> Some (one_value t)))"

definition world_ok :: "hash128 \<Rightarrow> string set \<Rightarrow> (u32 \<Rightarrow> EnvKind \<times> string) \<Rightarrow> (string \<rightharpoonup> u32) \<Rightarrow> MacroWorld \<Rightarrow> bool" where
  "world_ok hash S A g w \<longleftrightarrow> env_inv hash S (mw_env w) \<and> wabs (mw_env w) = A \<and> \<not> mw_nil w
     \<and> (\<exists>f. names_rep (ew_tab (mw_env w)) (mw_names w) f \<and> recent_ok (ew_tab (mw_env w)) f (mw_recent w)
          \<and> (\<forall>n i. n \<in> S \<longrightarrow> (g n = Some i \<longleftrightarrow> env_number (ew_tab (mw_env w)) f n i)))"

lemma world_ok_frame [simp]:
  "world_ok hash S A g (w\<lparr>mw_constant := x\<rparr>) = world_ok hash S A g w" "world_ok hash S A g (w\<lparr>mw_trace := y\<rparr>) = world_ok hash S A g w"
  by (simp_all add: world_ok_def)

lemma world_ok_env:
  assumes w: "world_ok hash S A g w" and e: "follows hash S (mw_env w) e" "wabs e = A"
  shows "world_ok hash S A g (w\<lparr>mw_env := e\<rparr>)"
proof -
  obtain f where f: "names_rep (ew_tab (mw_env w)) (mw_names w) f" "recent_ok (ew_tab (mw_env w)) f (mw_recent w)"
    "\<forall>n i. n \<in> S \<longrightarrow> (g n = Some i \<longleftrightarrow> env_number (ew_tab (mw_env w)) f n i)" using w by (auto simp: world_ok_def)
  have x: "extends (ew_tab (mw_env w)) (ew_tab e)" "env_inv hash S e" using e(1) by (simp_all add: follows_def)
  have "names_rep (ew_tab e) (mw_names w) f" "recent_ok (ew_tab e) f (mw_recent w)"
    "\<forall>n i. n \<in> S \<longrightarrow> (g n = Some i \<longleftrightarrow> env_number (ew_tab e) f n i)"
    using names_rep_extends [OF f(1) x(1)] recent_ok_extends [OF f(1) x(1)] env_number_extends [OF f(1) x(1)] f(2,3) by simp_all
  then show ?thesis using w x(2) e(2) by (auto simp: world_ok_def)
qed

lemma lookupValue_run:
  assumes inv: "env_inv hash S e" and i: "i \<noteq> 0"
  obtains val vfs e' where "lookupValueENV hash i e = Some ((val, vfs, fst (wabs e i) \<noteq> envAbsent), e')" and "follows hash S e e'" and "wabs e' = wabs e"
    and "fst (wabs e i) = envVFS \<Longrightarrow> vfs \<noteq> 0 \<and> val = [] \<and> VFS_string (ew_tab e') vfs = Some (snd (wabs e i))"
    and "fst (wabs e i) \<notin> {envVFS, envAbsent} \<Longrightarrow> vfs = 0 \<and> val = snd (wabs e i)"
proof -
  obtain k v u where u: "EnvStore_lookup hash i e = Some ((k, v), u)" "follows hash S e u" "wabs u = wabs e"
    "cell_ok (texts (ew_tab u)) (k, v)" "cell_abs (texts (ew_tab u)) (k, v) = wabs e i"
    using lookup_run [OF inv] by metis
  have k: "fst (wabs e i) = k" by (simp add: cell_abs_def flip: u(5))
  let ?u = "u\<lparr>ew_uses := recordResourceUse (ew_store u) (ew_uses u) i\<rparr>"
  have f: "follows hash S e ?u" "wabs ?u = wabs e" using u(2,3) by simp_all
  consider (absent) "k = envAbsent" | (vfs) "k = envVFS" | (str) "k \<notin> {envVFS, envAbsent}" by blast
  then show thesis
  proof cases
    case absent
    then show thesis using that [of "[]" 0 u] u i k by (simp add: lookupValueENV_def)
  next
    case vfs
    have "VFS_string (ew_tab ?u) v = Some (snd (wabs e i))" "v \<noteq> 0"
      using cell_text [OF u(4)] vfs u(4,5) by (auto simp: evfs_text_def cell_ok_def)
    moreover have "lookupValueENV hash i e = Some (([], v, True), ?u)" using u(1) i vfs by (simp add: lookupValueENV_def)
    ultimately show thesis using that [of "[]" v ?u] f k vfs by simp
  next
    case str
    have "etext v u = Some (snd (wabs e i), u)" using cell_text [OF u(4)] str u(5) by auto
    then have "lookupValueENV hash i e = Some ((snd (wabs e i), 0, True), ?u)" using u(1) i str by (simp add: lookupValueENV_def)
    then show thesis using that [of "snd (wabs e i)" 0 ?u] f k str by auto
  qed
qed

lemma note_step_run:
  assumes w: "world_ok hash S A g w"
  obtains w' where "note_step hash i w = Some w'" and "world_ok hash S A g w'"
proof (cases "i = 0")
  case True
  then show thesis using that [of "w\<lparr>mw_trace := (mw_trace w)\<lparr>xt_poisoned := True\<rparr>\<rparr>"] w by (simp add: note_step_def)
next
  case False
  have inv: "env_inv hash S (mw_env w)" "wabs (mw_env w) = A" using w by (simp_all add: world_ok_def)
  obtain k v e where e: "EnvStore_lookup hash i (mw_env w) = Some ((k, v), e)" "follows hash S (mw_env w) e" "wabs e = A"
    using lookup_run [OF inv(1)] inv(2) by metis
  let ?step = "\<lparr>xs_id = i, xs_kind = k, xs_val = (if k = envAbsent then 0 else v)\<rparr>"
  have "note_step hash i w = Some (w\<lparr>mw_env := e, mw_trace := (mw_trace w)\<lparr>xt_trace := xt_trace (mw_trace w) @ [?step]\<rparr>\<rparr>)"
    using False e(1) by (simp add: note_step_def Let_def)
  then show thesis by (rule that) (simp add: world_ok_env [OF w e(2,3)])
qed

lemma macroLookup_steady:
  assumes w: "world_ok hash S A g w" and n: "name \<in> S"
  shows "\<exists>w'. macroLookup hash [] name w = Inr (value_of A g name, w') \<and> world_ok hash S A g w'"
proof -
  let ?w0 = "w\<lparr>mw_constant := map_option (\<lambda>_. False) (mw_constant w)\<rparr>"
  obtain f where f: "names_rep (ew_tab (mw_env w)) (mw_names w) f" "recent_ok (ew_tab (mw_env w)) f (mw_recent w)"
    "\<forall>n i. n \<in> S \<longrightarrow> (g n = Some i \<longleftrightarrow> env_number (ew_tab (mw_env w)) f n i)" using w by (auto simp: world_ok_def)
  have use: "in_use hash S (ew_tab (mw_env w))" using w env_invD(1) by (auto simp: world_ok_def)
  obtain i c where i: "internedEnvRecent hash (ew_tab (mw_env w)) (mw_names w) (mw_recent w) name = Some (i, c)"
    "internedEnv hash (ew_tab (mw_env w)) (mw_names w) name = Some i" "recent_ok (ew_tab (mw_env w)) f c"
    using internedEnvRecent_spec [OF use f(1) n f(2)] by blast
  have g: "g name = (if i = 0 then None else Some i)"
    using use f(1) n
  proof (cases rule: internedEnv_spec)
    case (known j)
    then show ?thesis using i(2) f(3) n by auto
  next
    case unknown
    then show ?thesis using i(2) f(3) n by (cases "g name") auto
  qed
  let ?w1 = "?w0\<lparr>mw_recent := c\<rparr>"
  have ok1: "world_ok hash S A g ?w1" using w f i(3) unfolding world_ok_def by auto
  obtain w2 where w2: "(if xt_tracing (mw_trace ?w1) then or_panic (note_step hash i ?w1) else Inr ?w1) = Inr w2" "world_ok hash S A g w2"
    using note_step_run [OF ok1, of i] ok1 by (metis or_panic_simps(2))
  have run: "macroLookup hash [] name w = rbind (or_panic (lookupValueENV hash i (mw_env w2))) (\<lambda>((value, vfs, bound), e).
      let w = w2\<lparr>mw_env := e\<rparr>
      in if \<not> bound then Inr (None, w)
         else if vfs = 0 then Inr (Some \<lparr>mv_list = [], mv_single = value, mv_vfs = None, mv_one = True\<rparr>, w)
         else rbind (or_panic (VFS_string (ew_tab e) vfs)) (\<lambda>t. Inr (Some \<lparr>mv_list = [], mv_single = value, mv_vfs = Some t, mv_one = True\<rparr>, w)))"
    using w i(1) w2(1) by (simp add: macroLookup_def local_values_def world_ok_def Let_def)
  have inv: "env_inv hash S (mw_env w2)" "wabs (mw_env w2) = A" using w2(2) by (simp_all add: world_ok_def)
  show ?thesis
  proof (cases "i = 0")
    case True
    then show ?thesis using run w2(2) g by (simp add: lookupValueENV_def value_of_def Let_def)
  next
    case False
    obtain val vfs e where e: "lookupValueENV hash i (mw_env w2) = Some ((val, vfs, fst (A i) \<noteq> envAbsent), e)" "follows hash S (mw_env w2) e" "wabs e = A"
      "fst (A i) = envVFS \<Longrightarrow> vfs \<noteq> 0 \<and> val = [] \<and> VFS_string (ew_tab e) vfs = Some (snd (A i))"
      "fst (A i) \<notin> {envVFS, envAbsent} \<Longrightarrow> vfs = 0 \<and> val = snd (A i)"
      using lookupValue_run [OF inv(1) False] unfolding inv(2) by metis
    note ok = world_ok_env [OF w2(2) e(2,3)]
    obtain k t where a: "A i = (k, t)" by fastforce
    show ?thesis
      using run e(1,4,5) ok g False a by (cases k) (simp_all add: value_of_def one_value_def Let_def)
  qed
qed

interpretation env: steady_lookup "env_calls hash lib []" "world_ok hash S A g" S "value_of A g" for hash lib S A g
  by unfold_locales (simp add: env_calls_def macroLookup_steady)

section \<open>What the expansions return\<close>


text \<open>
  C9: The expansion of a make expression always returns, whatever the variables hold, and with no nesting: it
  replaces the references once. The text is that of the reference definition and no value changes.
\<close>

theorem expandMakeExpression_returns:
  assumes "world_ok hash S A g w" and "names_deeply 1 (env_calls hash lib []) (value_of A g) (make_policy reserved) t \<subseteq> S"
  shows "\<exists>x w'. expandMakeExpression 1 hash lib t reserved w = Inr (x, (w', None)) \<and> world_ok hash S A g w'
    \<and> expand_deeply 1 (env_calls hash lib []) (value_of A g) (make_policy reserved) t = Inr x"
proof -
  have s: "same (world_ok hash S A g) (expandMakeExpression 1 hash lib t reserved w)
      (expand_deeply 1 (env_calls hash lib []) (value_of A g) (make_policy reserved) t)"
    unfolding expandMakeExpression_def using assms by (rule env.substMacroDeeply_same)
  have m: "sp_makefile (make_policy reserved)" by (simp add: make_policy_def)
  obtain x where "expand_deeply 1 (env_calls hash lib []) (value_of A g) (make_policy reserved) t = Inr x"
    using expand_makefile_returns [OF m, of "env_calls hash lib []" "value_of A g"
      "expand_deeply 0 (env_calls hash lib []) (value_of A g) (make_policy reserved)" t] m
    by (fastforce simp: expand_text_def)
  then show ?thesis using s by (auto simp: same_def)
qed

section \<open>A world to run the theorems on\<close>

lemma sample_world:
  obtains hash S A g w where "world_ok hash S A g w" and "''x'' \<in> S" and "value_of A g ''x'' = Some (one_value ''x no'')"
proof -
  let ?h = "\<lambda>s :: string. (7 :: u64, of_nat (length s) :: u64)" and ?S = "{[], ''x'', ''no'', ''yes'', ''x no''}"
  obtain w where w: "env_inv ?h ?S w" "wabs w 1 = (envStr, ''x no'')" using pending_world by metis
  obtain st t where t: "in_use ?h ?S t" "extends (ew_tab w) t" "str_is t st ''x''"
  proof -
    have "''x'' \<in> ?S" by simp
    from internStr_run [OF env_invD(1) [OF w(1)] this] that show thesis by blast
  qed
  let ?e = "w\<lparr>ew_tab := t\<rparr>"
  have e: "env_inv ?h ?S ?e" "wabs ?e = wabs w" using env_tab [OF w(1) t(1,2)] by (simp_all add: follows_def)
  obtain e0 where e0: "newEnvTable = Some e0" "names_rep t e0 Map.empty" "names_room e0" using newEnvTable_rep by metis
  have st: "st \<noteq> 0" "unat st < length (texts t)" using t(3) by (simp_all add: str_is_def)
  obtain i e1 where e1: "internEnvSTR e0 st = Some (i, e1)" "names_rep t e1 [st \<mapsto> i]" "i = et_count e0"
    using internEnvSTR_spec [OF e0(2) st e0(3)] by metis
  have f0: "et_ids e0 = DenseMap_empty" "et_count e0 = 1" using e0(1) by (auto simp: newEnvTable_def)
  have "i = 1" using e1(3) f0(2) by simp
  let ?w = "\<lparr>mw_env = ?e, mw_names = e1, mw_recent = no_recent, mw_nil = False, mw_constant = None,
      mw_trace = \<lparr>xt_trace = [], xt_tracing = True, xt_poisoned = False\<rparr>\<rparr>"
  have "env_number t [st \<mapsto> i] n j \<longleftrightarrow> n = ''x'' \<and> j = i" for n j
    using t(3) by (auto simp: env_number_def str_is_def split: if_splits)
  then have "world_ok ?h ?S (wabs w) [''x'' \<mapsto> 1] ?w"
    using e e1(2) no_recent_ok [of t "[st \<mapsto> i]"] \<open>i = 1\<close> unfolding world_ok_def by (auto split: if_splits)
  then show thesis using that [of ?h ?S "wabs w" "[''x'' \<mapsto> 1]" ?w] w(2) by (simp add: value_of_def)
qed

lemma scan_x: "scanMacroRef False ''x'' = Inr (Some (no_ref\<lparr>mr_name := ''x''\<rparr>, []))" "scanMakefileRef ''{x}'' = Some (no_ref\<lparr>mr_name := ''x''\<rparr>, [])"
  by code_simp+

lemma sample_expansion:
  assumes "val ''x'' = Some (one_value ''x no'')"
  shows "expand_deeply (Suc fuel) sc val substVariables ''$x'' = Inr ''x no''" and "names_deeply (Suc fuel) sc val substVariables ''$x'' \<subseteq> {''x''}"
    and "expand_deeply 1 sc val (make_policy (\<lambda>_. False)) ''${x}'' = Inr ''x no''"
    and "names_deeply 1 sc val (make_policy (\<lambda>_. False)) ''${x}'' \<subseteq> {''x''}"
proof -
  have v: "value_of_ref sc val substVariables (no_ref\<lparr>mr_name := ''x''\<rparr>) = Some (Some (one_value ''x no''))"
    using assms by (simp add: value_of_ref_def no_ref_def rootVar_def)
  have once: "expand_text sc val deep substVariables ''$x'' = Inr ''x no''" for deep
    by (simp add: expand_text_def expand_once.simps scanRef_def scan_x v text_of_ref_def) (simp add: no_ref_def plain_render before_text_def)
  have nms: "names_once sc val deep substVariables ''$x'' \<subseteq> {''x''}" for deep
    by (simp add: names_once.simps scanRef_def scan_x names_of_ref_def v) (simp add: no_ref_def)
  show "expand_deeply (Suc fuel) sc val substVariables ''$x'' = Inr ''x no''"
    by (simp add: nothing_to_do_def, subst expand_rounds.simps) (simp add: once)
  show "names_deeply (Suc fuel) sc val substVariables ''$x'' \<subseteq> {''x''}"
    using nms by (simp add: nothing_to_do_def, subst names_rounds.simps) (simp add: once)
  have v': "value_of_ref sc val (make_policy (\<lambda>_. False)) (no_ref\<lparr>mr_name := ''x''\<rparr>) = Some (Some (one_value ''x no''))"
    using assms by (simp add: value_of_ref_def no_ref_def make_policy_def)
  have m: "sp_makefile (make_policy (\<lambda>_. False))" by (simp add: make_policy_def)
  show "expand_deeply 1 sc val (make_policy (\<lambda>_. False)) ''${x}'' = Inr ''x no''"
    by (simp add: nothing_to_do_def m expand_text_def expand_once.simps scanRef_def scan_x v' text_of_ref_def)
      (simp add: no_ref_def plain_render before_text_def)
  show "names_deeply 1 sc val (make_policy (\<lambda>_. False)) ''${x}'' \<subseteq> {''x''}"
    by (simp add: nothing_to_do_def m names_once.simps scanRef_def scan_x names_of_ref_def v')
qed


theorem expandMakeExpression_returns_witness:
  "\<exists>hash S A g w lib w'. world_ok hash S A g w \<and> expandMakeExpression 1 hash lib ''${x}'' (\<lambda>_. False) w = Inr (''x no'', (w', None))"
proof -
  obtain hash S A g w where w: "world_ok hash S A g w" "''x'' \<in> S" "value_of A g ''x'' = Some (one_value ''x no'')" by (rule sample_world)
  let ?lib = "\<lparr>sl_getenv = \<lambda>_. [], sl_md5 = \<lambda>_. [], sl_upper = \<lambda>s. s, sl_lower = \<lambda>s. s\<rparr>"
  have "names_deeply 1 (env_calls hash ?lib []) (value_of A g) (make_policy (\<lambda>_. False)) ''${x}'' \<subseteq> S"
    using sample_expansion(4) [of "value_of A g"] w(2,3) by blast
  from expandMakeExpression_returns [OF w(1) this] obtain x w' where
    x: "expandMakeExpression 1 hash ?lib ''${x}'' (\<lambda>_. False) w = Inr (x, (w', None))"
    "expand_deeply 1 (env_calls hash ?lib []) (value_of A g) (make_policy (\<lambda>_. False)) ''${x}'' = Inr x" by blast
  have "x = ''x no''" using x(2) sample_expansion(3) [of "value_of A g" "env_calls hash ?lib []"] w(3) by simp
  then show ?thesis using w(1) x(1) by blast
qed

end
