(* ===== verification/Spec2Isabelle.thy ===== *)
theory Spec2Isabelle
  imports Ay_Prelude Ay_Mix Ay_Vec Ay_Bits Ay_IntMap Ay_Dense Ay_Epoch Ay_Page Ay_Bump Ay_Result Ay_Lexer Ay_Cond
    Ay_Stmt Ay_Tok Ay_Build Ay_Path Ay_Parse Ay_ParseSafe Ay_Include Ay_Closure Ay_Tarjan Ay_Emit Ay_SCC Ay_Scan
    Ay_Intern Ay_Vfs Ay_Env Ay_EnvRef Ay_Utf8 Ay_Glob Ay_GlobRe Ay_GlobNfa Ay_Macro Ay_Subst Ay_EnvName Ay_SubstEnv
begin

text \<open>
  \<^bold>\<open>ay\<close> is a build tool written in Go. It reads the \<^verbatim>\<open>ya.make\<close> files of a source tree and the
  configuration \<^verbatim>\<open>ymake.core.conf\<close>, finds for every source file what it includes, and emits a graph of
  build commands, which it writes as JSON or executes. This development models and verifies the parts of
  it that the rest is built on: the containers, memory and strings, the environment of variables, the parser of \<^verbatim>\<open>ya.make\<close> files, paths, and the
  computation of include closures.

  \<^bold>\<open>How the parts interact.\<close> Every string, path and node is a 32-bit identifier, and the containers map
  and collect identifiers. The parser turns the text of a \<^verbatim>\<open>ya.make\<close> file into statements: the lexer
  (\<^verbatim>\<open>readToken\<close>) feeds \<^verbatim>\<open>parseStmts\<close>, which builds a statement for every macro call
  (\<^verbatim>\<open>buildStmtForID\<close>), compiles the conditions of \<^verbatim>\<open>IF\<close> (\<^verbatim>\<open>IfCondCompiler\<close>) for later evaluation, and
  expands \<^verbatim>\<open>INCLUDE\<close> through a table of recorded includes that is shared by all files. The generator
  walks the statements of a module, evaluates its conditions and emits its nodes; for a source it asks
  the include scanner for the closure of the file, which the scanner computes over the include graph
  with the walk \<^verbatim>\<open>ScanCtx.dfs\<close> and, on cycles, with Tarjan's search for components, collecting
  identifiers in epoch sets and buckets. Strings are numbers of one table (\<^verbatim>\<open>internStr\<close>), files and
  words tagged numbers over it; the environment of a module (\<^verbatim>\<open>Environment\<close>) maps variables to such
  numbers and answers the conditions of \<^verbatim>\<open>IF\<close>.

  \<^bold>\<open>The theories.\<close>

  \<^item> \<^verbatim>\<open>Ay_Prelude\<close>: machine types, failing memory accesses, facts on words and lists.
    \<^verbatim>\<open>Ay_Result\<close>: results of fallible code, with the exceptions of \<^verbatim>\<open>throw.go\<close> and the panics of Go as
    error values.

  \<^item> Containers. \<^verbatim>\<open>Ay_Mix\<close> (\<^verbatim>\<open>mix.go\<close>): the mixing functions are bijections, so hash keys are
    faithful. \<^verbatim>\<open>Ay_Vec\<close> (\<^verbatim>\<open>vec.go\<close>): the growable array with the cells behind its length.
    \<^verbatim>\<open>Ay_Bits\<close> (\<^verbatim>\<open>bit_set.go\<close>, \<^verbatim>\<open>two_bit_set.go\<close>): bit tables; the locale \<open>ident_set\<close> is what clients
    rely on. \<^verbatim>\<open>Ay_IntMap\<close> (\<^verbatim>\<open>int_map.go\<close>): the open-addressing table; probing ends and a
    table is a finite map. \<^verbatim>\<open>Ay_Dense\<close> (\<^verbatim>\<open>dense_index.go\<close>, \<^verbatim>\<open>dense_map.go\<close>, \<^verbatim>\<open>sparse_map.go\<close>,
    \<^verbatim>\<open>dir_rows.go\<close>): maps keyed by identifiers over a slot index; the locale \<open>slot_index\<close> has the two
    indices as instances. \<^verbatim>\<open>Ay_Epoch\<close> (\<^verbatim>\<open>id_set.go\<close>, \<^verbatim>\<open>de_duper.go\<close>): sets emptied by counting up an
    epoch, correct at its wrap-around; the locale \<open>seen_set\<close> carries the duplicate-removing loops.

  \<^item> The parser (\<^verbatim>\<open>yamake.go\<close>, \<^verbatim>\<open>yamake_tok.go\<close>). \<^verbatim>\<open>Ay_Lexer\<close>: tokens, positions, and the fast paths
    of strings and words against their slow paths. \<^verbatim>\<open>Ay_Cond\<close>: the compiler of conditions and their
    evaluation against the grammar of conditions. \<^verbatim>\<open>Ay_Stmt\<close>, \<^verbatim>\<open>Ay_Tok\<close>, \<^verbatim>\<open>Ay_Build\<close>: the statement types,
    the argument parsers of the macros and the dispatch from a name to its statement. \<^verbatim>\<open>Ay_Path\<close>
    (\<^verbatim>\<open>fs_utils.go\<close>): paths, against a specification by segments. \<^verbatim>\<open>Ay_Parse\<close>: the parser with includes.
    \<^verbatim>\<open>Ay_ParseSafe\<close>: it ends, without panics. \<^verbatim>\<open>Ay_Include\<close>: recorded includes are invisible; the locale
    \<open>psim\<close> relates two runs of the parser and is interpreted three times.

  \<^item> Include closures. \<^verbatim>\<open>Ay_Closure\<close> (\<^verbatim>\<open>closure.go\<close>, \<^verbatim>\<open>bucket_cache.go\<close>): closures, the scratch lists of
    the bucket cache and interning. \<^verbatim>\<open>Ay_Tarjan\<close> (\<^verbatim>\<open>tarjan_ctx.go\<close>, \<^verbatim>\<open>scanner.go\<close>): the definitions of
    the search and of the walk. \<^verbatim>\<open>Ay_Emit\<close>: the specification of a closure and the emission of one
    component. \<^verbatim>\<open>Ay_SCC\<close>: Tarjan's invariant. \<^verbatim>\<open>Ay_Scan\<close>: the walk, and the closures a scanner returns.

  \<^item> Memory, strings and variables. \<^verbatim>\<open>Ay_Page\<close> (\<^verbatim>\<open>page_vec.go\<close>): the vector of pages of doubling size.
    \<^verbatim>\<open>Ay_Bump\<close> (\<^verbatim>\<open>bump_allocator.go\<close>, \<^verbatim>\<open>generic_utils.go\<close>): arenas over an explicit store of chunks, in
    which slices alias; what was carved out stays. \<^verbatim>\<open>Ay_Intern\<close> (\<^verbatim>\<open>str_intern.go\<close>): the table of
    strings over the hash table, the paged vector and an arena; a number and its text determine each
    other as long as no two strings in use share both halves of their hash. \<^verbatim>\<open>Ay_Vfs\<close> (\<^verbatim>\<open>vfs.go\<close>,
    \<^verbatim>\<open>any.go\<close>, \<^verbatim>\<open>str_dollar.go\<close>): files and words as tagged numbers, their texts and their order.
    \<^verbatim>\<open>Ay_Env\<close> (\<^verbatim>\<open>env.go\<close>): the store of variables with appends that wait until the variable is read;
    \<^verbatim>\<open>Ay_EnvRef\<close>: it refines a map from variables to kinds and texts in which appends take effect at once.

  \<^item> Patterns. \<^verbatim>\<open>Ay_Utf8\<close>: what Go's \<^verbatim>\<open>unicode/utf8\<close> documents of encoding and decoding. \<^verbatim>\<open>Ay_Glob\<close>
    (\<^verbatim>\<open>glob_match.go\<close>): the backtracking matcher of glob words decides their language. \<^verbatim>\<open>Ay_GlobRe\<close>:
    regular expressions turned into words keep their language. \<^verbatim>\<open>Ay_GlobNfa\<close>: the simulation of compiled
    programs with marks of an epoch, and the matcher as a whole.
  \<^item> Macro strings. \<^verbatim>\<open>Ay_Macro\<close> (\<^verbatim>\<open>macro_string.go\<close>): the scanners of references and their modifiers; printing
    and scanning, and the one panic. \<^verbatim>\<open>Ay_Subst\<close>: the substitution with its tracker, over any lookup; the locale
    \<open>steady_lookup\<close> states what a lookup promises, and in it the loop computes a reference definition.
    \<^verbatim>\<open>Ay_EnvName\<close> (\<^verbatim>\<open>env_intern.go\<close>): the numbers of variable names. \<^verbatim>\<open>Ay_SubstEnv\<close>: the lookup in an
    environment is steady, so expansion depends on the values of the variables alone.

  \<^bold>\<open>Conventions.\<close> A Go struct is a record and an enumeration a datatype; a method is a function that
  takes and returns the record. Panics are error values (\<open>IndexPanic\<close>, \<open>TypePanic\<close>) in the parser and
  \<open>None\<close> in the containers, so that \<open>f x = Some y\<close> says that the code returns. Identifiers are 32-bit words,
  hash keys 64-bit words, epochs 16-bit words (32-bit for buckets), with their wrap-around; lengths and
  positions, which the memory bounds, are natural numbers. The text of an identifier stands for
  the identifier where only the text matters.

  \<^bold>\<open>Bounds and fuel.\<close> The parser's block recursion has fuel \<open>2 * length + 2\<close> and its include recursion
  one unit for every file that exists; \<open>parse_total\<close> shows that this is enough for every input. The
  search for components and the walk take fuel from the caller; one unit for every file below the root
  is enough (\<open>runSCC_correct\<close>, \<open>closureOf_correct\<close>). Probing in hash tables is bounded by the table's size.
  The closure block has the \<open>2 ^ 13\<close> places of the code, and that closures computed by the search fit into
  it is a condition of its theorem, because the code panics otherwise.

  \<^bold>\<open>Not modelled.\<close> Code outside the repository (the Go library, \<^verbatim>\<open>regexp/syntax\<close>, the generated
  scanners) is a parameter or, for the few functions of \<^verbatim>\<open>strings\<close> and \<^verbatim>\<open>path\<close> that matter, defined here.
  The file system is the record \<open>FS\<close> of \<^verbatim>\<open>Ay_Parse\<close>. How the includes of one file are found and resolved
  (\<^verbatim>\<open>resolvedChildren\<close>, the parsers of source languages) is a parameter of the closure computation. The
  emitters (\<^verbatim>\<open>emit_*.go\<close>), the module tables (\<^verbatim>\<open>modules.go\<close>, \<^verbatim>\<open>gen.go\<close>) and the Java part are large tables
  of command lines; the configuration evaluator (\<^verbatim>\<open>conf.go\<close>) is not modelled. The 128-bit hash of
  strings, which is not part of the repository's own code, is a parameter of the table of strings. Goroutines, processes, downloads and JSON
  output are input and output. Fault injection (\<^verbatim>\<open>chaos_*.go\<close>) is off.
\<close>

end
